(* ===== verification/Zenit_Prelude.thy ===== *)
theory Zenit_Prelude
  imports Main "HOL-Library.Word" "HOL-Library.Monad_Syntax" "HOL-Library.Multiset"
    "HOL-Library.While_Combinator" "HOL-Library.Code_Target_Nat"
begin

text \<open>
  The prelude of the development: machine sizes, byte blocks and the slot view of a block.

  \<^item> \<open>size_t\<close> is a 64-bit unsigned integer (the library's targets are LP64). A value of type
    \<open>size_t\<close> is a \<open>nat\<close> and every addition, subtraction and multiplication of the code that can
    leave the range is one of \<open>sz_add\<close>, \<open>sz_sub\<close>, \<open>sz_mul\<close>, which wrap modulo \<open>size_mod\<close>.
  \<^item> A block of memory is its address and its bytes; a pointer to the start of a block is an
    \<open>mblock option\<close>, \<open>None\<close> being \<open>NULL\<close>. \<open>mem_read\<close> and \<open>mem_write\<close> are
    \<open>memcpy\<close> out of and into a block: \<open>None\<close> is an access outside the block or through
    \<open>NULL\<close>, that is, undefined behaviour.
  \<^item> Every operation of the library that touches memory or loops without a bound returns an
    \<open>option\<close>: \<open>None\<close> says that the C execution has no defined result (out-of-bounds access, a
    \<open>free\<close> of a dead pointer, or a loop that does not end). A theorem that an operation is
    \<open>Some\<close> is a memory-safety and termination theorem.
  \<^item> A container of elements of \<open>elem_size\<close> bytes keeps them back to back in one block; slot
    \<open>i\<close> is the \<open>i\<close>-th run of \<open>elem_size\<close> bytes.
\<close>

declare One_nat_def [simp del]

named_theorems size_simps \<open>size arithmetic without wrap-around\<close>
named_theorems mem_simps \<open>reads and writes inside a block\<close>

section \<open>Machine sizes\<close>

type_synonym byte = "8 word"

definition size_mod :: nat where
  "size_mod = 18446744073709551616"

definition sz_add :: "nat \<Rightarrow> nat \<Rightarrow> nat" where
  "sz_add a b = (a + b) mod size_mod"

definition sz_sub :: "nat \<Rightarrow> nat \<Rightarrow> nat" where
  "sz_sub a b = (a + (size_mod - b mod size_mod)) mod size_mod"

definition sz_mul :: "nat \<Rightarrow> nat \<Rightarrow> nat" where
  "sz_mul a b = (a * b) mod size_mod"

lemma size_mod_pos [simp]: "0 < size_mod"
  by (simp add: size_mod_def)

lemma sz_add_nowrap [size_simps]: "a + b < size_mod \<Longrightarrow> sz_add a b = a + b"
  by (simp add: sz_add_def)

lemma sz_mul_nowrap [size_simps]: "a * b < size_mod \<Longrightarrow> sz_mul a b = a * b"
  by (simp add: sz_mul_def)

lemma sz_sub_nowrap [size_simps]:
  assumes "b \<le> a" and "a < size_mod"
  shows "sz_sub a b = a - b"
proof -
  have "a + (size_mod - b mod size_mod) = (a - b) + size_mod"
    using assms by simp
  then have "sz_sub a b = ((a - b) + size_mod) mod size_mod"
    unfolding sz_sub_def by (rule arg_cong)
  also have "\<dots> = a - b" unfolding mod_add_self2 using assms by (intro mod_less) linarith
  finally show ?thesis .
qed

text \<open>Offsets of slots below a block size that fits.\<close>

lemma sz_mul_le:
  assumes "c * e < size_mod" and "i \<le> c"
  shows "sz_mul i e = i * e" and "i * e \<le> c * e" and "i * e < size_mod"
proof -
  show le: "i * e \<le> c * e" using assms(2) by (rule mult_le_mono1)
  then show "i * e < size_mod" using assms(1) by (rule le_less_trans)
  then show "sz_mul i e = i * e" by (rule sz_mul_nowrap)
qed

lemma factor_less:
  assumes "c * e < size_mod" and "0 < e" shows "c < size_mod"
proof -
  have "c * 1 \<le> c * e" using assms(2) by (intro mult_le_mono2) simp
  then show ?thesis using assms(1) by linarith
qed

lemma sz_add_less [simp]: "sz_add a b < size_mod"
  by (simp add: sz_add_def)

lemma sz_mul_less [simp]: "sz_mul a b < size_mod"
  by (simp add: sz_mul_def)

section \<open>Blocks of memory\<close>

record mblock =
  maddr :: nat
  mbytes :: "byte list"

type_synonym ptr = "mblock option"

definition plen :: "ptr \<Rightarrow> nat" where
  "plen p = (case p of None \<Rightarrow> 0 | Some b \<Rightarrow> length (mbytes b))"

definition pbytes :: "ptr \<Rightarrow> byte list" where
  "pbytes p = (case p of None \<Rightarrow> [] | Some b \<Rightarrow> mbytes b)"

definition paddr :: "ptr \<Rightarrow> nat option" where
  "paddr p = map_option maddr p"

text \<open>The addresses a pointer owns: one, or none for \<open>NULL\<close>.\<close>

definition paddrs :: "ptr \<Rightarrow> nat set" where
  "paddrs p = set_option (paddr p)"

definition blit :: "'a list \<Rightarrow> nat \<Rightarrow> 'a list \<Rightarrow> 'a list" where
  "blit m off d = take off m @ d @ drop (off + length d) m"

text \<open>
  \<open>mem_read p off n\<close> is the content of \<open>n\<close> bytes at offset \<open>off\<close>;
  \<open>mem_write p off d\<close> stores \<open>d\<close> there. A zero-length access is allowed anywhere inside the
  block, but not through \<open>NULL\<close>.
\<close>

definition mem_read :: "ptr \<Rightarrow> nat \<Rightarrow> nat \<Rightarrow> byte list option" where
  "mem_read p off n = (case p of None \<Rightarrow> None
     | Some b \<Rightarrow> if off + n \<le> length (mbytes b) then Some (take n (drop off (mbytes b))) else None)"

definition mem_write :: "ptr \<Rightarrow> nat \<Rightarrow> byte list \<Rightarrow> ptr option" where
  "mem_write p off d = (case p of None \<Rightarrow> None
     | Some b \<Rightarrow> if off + length d \<le> length (mbytes b)
       then Some (Some (b\<lparr>mbytes := blit (mbytes b) off d\<rparr>)) else None)"

text \<open>Data handed in by the caller: a pointer to at least \<open>n\<close> readable bytes, or \<open>NULL\<close>.\<close>

definition user_read :: "byte list \<Rightarrow> nat \<Rightarrow> byte list option" where
  "user_read d n = (if n \<le> length d then Some (take n d) else None)"

definition user_write :: "byte list \<Rightarrow> nat \<Rightarrow> byte list \<Rightarrow> byte list option" where
  "user_write d off x = (if off + length x \<le> length d then Some (blit d off x) else None)"

text \<open>The remainder operator: a zero divisor is undefined behaviour.\<close>

definition sz_mod :: "nat \<Rightarrow> nat \<Rightarrow> nat option" where
  "sz_mod a b = (if b = 0 then None else Some (a mod b))"

lemma plen_simps [simp]: "plen None = 0" "plen (Some b) = length (mbytes b)"
  by (simp_all add: plen_def)

lemma pbytes_simps [simp]: "pbytes None = []" "pbytes (Some b) = mbytes b"
  by (simp_all add: pbytes_def)

lemma paddr_simps [simp]: "paddr None = None" "paddr (Some b) = Some (maddr b)"
  by (simp_all add: paddr_def)

lemma paddrs_simps [simp]: "paddrs None = {}" "paddrs (Some b) = {maddr b}"
  by (simp_all add: paddrs_def)

lemma length_pbytes [simp]: "length (pbytes p) = plen p"
  by (cases p) simp_all

lemma length_blit [simp]: "off + length d \<le> length m \<Longrightarrow> length (blit m off d) = length m"
  by (simp add: blit_def)

lemma blit_nth:
  assumes "off + length d \<le> length m" and "k < length m"
  shows "blit m off d ! k = (if off \<le> k \<and> k < off + length d then d ! (k - off) else m ! k)"
  using assms by (auto simp: blit_def nth_append min_def)

lemma blit_Nil [simp]: "blit m off [] = m"
  by (simp add: blit_def)

lemma mem_read_ok [mem_simps]:
  "p \<noteq> None \<Longrightarrow> off + n \<le> plen p \<Longrightarrow> mem_read p off n = Some (take n (drop off (pbytes p)))"
  by (auto simp: mem_read_def)

lemma mem_write_ok [mem_simps]:
  "off + length d \<le> length (mbytes b) \<Longrightarrow>
   mem_write (Some b) off d = Some (Some (b\<lparr>mbytes := blit (mbytes b) off d\<rparr>))"
  by (simp add: mem_write_def)

lemma mem_write_out_of_bounds: "plen p < off + length d \<Longrightarrow> mem_write p off d = None"
  by (auto simp: mem_write_def split: option.splits)

lemma mem_write_obtain:
  assumes "p \<noteq> None" and "off + length d \<le> plen p"
  obtains q where "mem_write p off d = Some q" and "pbytes q = blit (pbytes p) off d"
    and "plen q = plen p" and "paddr q = paddr p" and "q \<noteq> None"
  using assms by (cases p) (auto simp: mem_write_def)

lemma mem_write_Some_iff:
  "mem_write p off d = Some q \<longleftrightarrow>
   (\<exists>b. p = Some b \<and> off + length d \<le> length (mbytes b) \<and>
        q = Some (b\<lparr>mbytes := blit (mbytes b) off d\<rparr>))"
  by (auto simp: mem_write_def split: option.splits if_splits)

lemma user_read_ok [mem_simps]: "n \<le> length d \<Longrightarrow> user_read d n = Some (take n d)"
  by (simp add: user_read_def)

lemma user_write_ok [mem_simps]:
  "off + length x \<le> length d \<Longrightarrow> user_write d off x = Some (blit d off x)"
  by (simp add: user_write_def)

lemma blit_append:
  "off + length a + length b \<le> length m \<Longrightarrow>
   blit (blit m off a) (off + length a) b = blit m off (a @ b)"
  by (simp add: blit_def ac_simps)

lemma blit_take:
  "n \<le> length d \<Longrightarrow> length x = n \<Longrightarrow> blit d 0 x = x @ drop n d"
  by (simp add: blit_def)

lemma sz_mod_ok [mem_simps]: "b \<noteq> 0 \<Longrightarrow> sz_mod a b = Some (a mod b)"
  by (simp add: sz_mod_def)

lemma mod_once: "a < 2 * c \<Longrightarrow> a mod c = (if a < c then a else a - (c::nat))"
  by (simp add: le_mod_geq)

section \<open>Slots of a block\<close>

definition slot :: "nat \<Rightarrow> byte list \<Rightarrow> nat \<Rightarrow> byte list" where
  "slot es m i = take es (drop (i * es) m)"

definition slots :: "nat \<Rightarrow> byte list \<Rightarrow> nat \<Rightarrow> byte list list" where
  "slots es m n = map (slot es m) [0..<n]"

lemma length_slots [simp]: "length (slots es m n) = n"
  by (simp add: slots_def)

lemma slots_nth [simp]: "i < n \<Longrightarrow> slots es m n ! i = slot es m i"
  by (simp add: slots_def)

lemma slots_0 [simp]: "slots es m 0 = []"
  by (simp add: slots_def)

lemma slots_Suc: "slots es m (Suc n) = slots es m n @ [slot es m n]"
  by (simp add: slots_def)

lemma slot_block_le: "i < n \<Longrightarrow> i * es + es \<le> n * (es::nat)"
proof -
  assume "i < n"
  then have "Suc i * es \<le> n * es" by (intro mult_le_mono1) simp
  then show ?thesis by simp
qed

lemma slot_fits: "i < n \<Longrightarrow> n * es \<le> l \<Longrightarrow> i * es + es \<le> (l::nat)"
  using slot_block_le [of i n es] by linarith

lemma slot_pos_le_iff: "k < es \<Longrightarrow> b * es \<le> j * es + k \<longleftrightarrow> b \<le> (j::nat)"
proof
  assume k: "k < es" and le: "b * es \<le> j * es + k"
  show "b \<le> j"
  proof (rule ccontr)
    assume "\<not> b \<le> j"
    then have "j * es + es \<le> b * es" using slot_block_le [of j b es] by simp
    with le k show False by simp
  qed
next
  assume "b \<le> j"
  then have "b * es \<le> j * es" by (rule mult_le_mono1)
  then show "b * es \<le> j * es + k" by (rule trans_le_add1)
qed

lemma slot_pos_less_iff: "k < es \<Longrightarrow> j * es + k < b * es \<longleftrightarrow> j < (b::nat)"
  using slot_pos_le_iff [of k es b j] by linarith

lemma length_slot [simp]: "i * es + es \<le> length m \<Longrightarrow> length (slot es m i) = es"
  by (simp add: slot_def)

lemma slot_nth: "i * es + es \<le> length m \<Longrightarrow> k < es \<Longrightarrow> slot es m i ! k = m ! (i * es + k)"
  by (simp add: slot_def)

lemma slot_eqI:
  assumes "length d = es" and "i * es + es \<le> length m"
    and "\<And>k. k < es \<Longrightarrow> m ! (i * es + k) = d ! k"
  shows "slot es m i = d"
  using assms by (intro nth_equalityI) (simp_all add: slot_nth)

text \<open>Writing \<open>n\<close> whole slots at slot \<open>b\<close>: exactly the slots \<open>b..<b + n\<close> change.\<close>

lemma slot_blit_block:
  assumes d: "length d = n * es" and fits: "(b + n) * es \<le> length m"
    and j: "j * es + es \<le> length m"
  shows "slot es (blit m (b * es) d) j =
    (if b \<le> j \<and> j < b + n then slot es d (j - b) else slot es m j)"
proof -
  have off: "b * es + length d \<le> length m"
    using d fits by (simp add: add_mult_distrib)
  show ?thesis
  proof (cases "b \<le> j \<and> j < b + n")
    case True
    then have jb: "(j - b) * es + es \<le> length d"
      unfolding d by (intro slot_block_le) linarith
    have "slot es (blit m (b * es) d) j = slot es d (j - b)"
    proof (rule slot_eqI)
      fix k assume k: "k < es"
      have "b * es \<le> j * es + k" using True k slot_pos_le_iff by blast
      moreover have "j * es + k < (b + n) * es" using True k slot_pos_less_iff by blast
      ultimately show "blit m (b * es) d ! (j * es + k) = slot es d (j - b) ! k"
        using off d j jb k True
        by (simp add: blit_nth slot_nth add_mult_distrib diff_mult_distrib)
    qed (use off j jb in simp_all)
    with True show ?thesis by simp
  next
    case False
    have "slot es (blit m (b * es) d) j = slot es m j"
    proof (rule slot_eqI)
      fix k assume k: "k < es"
      have "\<not> (b * es \<le> j * es + k \<and> j * es + k < (b + n) * es)"
        using False k slot_pos_le_iff [of k es b j] slot_pos_less_iff [of k es j "b + n"] by blast
      then show "blit m (b * es) d ! (j * es + k) = slot es m j ! k"
        using off d j k by (auto simp: blit_nth slot_nth add_mult_distrib)
    qed (use off j in simp_all)
    with False show ?thesis by auto
  qed
qed

lemma slot_blit:
  assumes "length d = es" and "b * es + es \<le> length m" and "j * es + es \<le> length m"
  shows "slot es (blit m (b * es) d) j = (if j = b then d else slot es m j)"
  using slot_blit_block [of d 1 es b m j] assms by (auto simp: slot_def add_mult_distrib)

lemma slot_take_drop:
  assumes "j < n"
  shows "slot es (take (n * es) (drop (a * es) m)) j = slot es m (a + j)"
proof -
  have "j * es + es \<le> n * es" using assms by (rule slot_block_le)
  then have "take es (drop (j * es) (take (n * es) (drop (a * es) m)))
      = take es (drop (j * es) (drop (a * es) m))"
    by (simp add: drop_take min_absorb1)
  then show ?thesis by (simp add: slot_def add_mult_distrib add.commute)
qed

lemma slot_take:
  assumes "j < n" and "n * es \<le> k"
  shows "slot es (take k m) j = slot es m j"
proof -
  have "j * es + es \<le> k" using slot_block_le [OF assms(1), of es] assms(2) by simp
  then show ?thesis by (simp add: slot_def drop_take min_absorb1)
qed

lemma slot_cong_prefix:
  assumes "take k m = take k m'" and "j * es + es \<le> k"
  shows "slot es m j = slot es m' j"
proof -
  have "slot es m j = take es (drop (j * es) (take k m))" for m
    using assms(2) by (simp add: slot_def drop_take min_absorb1)
  then show ?thesis using assms(1) by metis
qed

lemma slots_cong: "(\<And>j. j < n \<Longrightarrow> slot es m j = slot es m' j) \<Longrightarrow> slots es m n = slots es m' n"
  by (simp add: slots_def)

lemma slots_blit_last:
  assumes "length x = es" and "n * es + es \<le> length m"
  shows "slots es (blit m (n * es) x) (Suc n) = slots es m n @ [x]"
proof -
  have "slot es (blit m (n * es) x) j = (if j = n then x else slot es m j)" if "j \<le> n" for j
    using that assms slot_fits [of j "Suc n" es "length m"] slot_blit [of x es n m j]
    by (simp add: add.commute)
  then show ?thesis unfolding slots_Suc by (simp add: slots_def)
qed

lemma slots_update:
  assumes "length x = es" and "i < n" and "n * es \<le> length m"
  shows "slots es (blit m (i * es) x) n = (slots es m n)[i := x]"
proof (rule nth_equalityI)
  fix j assume "j < length (slots es (blit m (i * es) x) n)"
  then have j: "j < n" by simp
  have "i * es + es \<le> length m" "j * es + es \<le> length m"
    using j assms by (auto intro: slot_fits)
  then show "slots es (blit m (i * es) x) n ! j = (slots es m n)[i := x] ! j"
    using j assms slot_blit [of x es i m j] by (simp add: nth_list_update)
qed simp

text \<open>Opening a gap with \<open>memmove\<close> and filling it is list insertion.\<close>

lemma slots_insert:
  assumes x: "length x = es" and i: "i \<le> n" and fits: "Suc n * es \<le> length m"
    and m1: "m1 = blit m (Suc i * es) (take ((n - i) * es) (drop (i * es) m))"
  shows "slots es (blit m1 (i * es) x) (Suc n) = take i (slots es m n) @ x # drop i (slots es m n)"
proof (rule nth_equalityI)
  fix j assume "j < length (slots es (blit m1 (i * es) x) (Suc n))"
  then have j: "j < Suc n" by simp
  have jb: "j * es + es \<le> length m" and ib: "i * es + es \<le> length m"
    using j i by (intro slot_fits [OF _ fits]; linarith)+
  have "i * es + (n - i) * es \<le> length m"
    using i fits by (simp flip: add_mult_distrib)
  then have dl: "length (take ((n - i) * es) (drop (i * es) m)) = (n - i) * es"
    by simp
  have fit1: "(Suc i + (n - i)) * es \<le> length m" using i fits by simp
  have off: "Suc i * es + (n - i) * es \<le> length m"
    using fit1 by (simp only: add_mult_distrib)
  have len1: "length m1 = length m" using off dl by (simp add: m1)
  have s1: "slot es m1 j = (if Suc i \<le> j \<and> j < Suc i + (n - i)
      then slot es (take ((n - i) * es) (drop (i * es) m)) (j - Suc i) else slot es m j)"
    unfolding m1 by (rule slot_blit_block [OF dl fit1 jb])
  also have "\<dots> = (if i < j then slot es m (j - 1) else slot es m j)"
    using slot_take_drop [of "j - Suc i" "n - i" es i m] i j by (auto simp: One_nat_def)
  finally have "slot es (blit m1 (i * es) x) j =
      (if j = i then x else if i < j then slot es m (j - 1) else slot es m j)"
    using slot_blit [of x es i m1 j] x ib jb len1 by simp
  then show "slots es (blit m1 (i * es) x) (Suc n) ! j =
      (take i (slots es m n) @ x # drop i (slots es m n)) ! j"
    using i j by (auto simp: nth_append nth_Cons' min_def)
qed (use i in simp)

text \<open>Closing a gap with \<open>memmove\<close> is list removal.\<close>

lemma slots_remove:
  assumes i: "i < n" and fits: "n * es \<le> length m"
    and m1: "m1 = blit m (i * es) (take ((n - Suc i) * es) (drop (Suc i * es) m))"
  shows "slots es m1 (n - 1) = take i (slots es m n) @ drop (Suc i) (slots es m n)"
proof (rule nth_equalityI)
  fix j assume "j < length (slots es m1 (n - 1))"
  then have j: "j < n - 1" by simp
  have jb: "j * es + es \<le> length m"
    using j by (intro slot_fits [OF _ fits]) linarith
  have eq: "Suc i * es + (n - Suc i) * es = n * es"
    using i by (simp only: add_mult_distrib [symmetric]) simp
  then have "(n - Suc i) * es \<le> length m - Suc i * es" using fits by linarith
  then have dl: "length (take ((n - Suc i) * es) (drop (Suc i * es) m)) = (n - Suc i) * es"
    by (simp only: length_take length_drop min_absorb2)
  have fit1: "(i + (n - Suc i)) * es \<le> length m"
    using i by (intro order_trans [OF mult_le_mono1 fits]) simp
  have "slot es m1 j = (if i \<le> j \<and> j < i + (n - Suc i)
      then slot es (take ((n - Suc i) * es) (drop (Suc i * es) m)) (j - i) else slot es m j)"
    unfolding m1 by (rule slot_blit_block [OF dl fit1 jb])
  also have "\<dots> = (if i \<le> j then slot es m (Suc j) else slot es m j)"
    using slot_take_drop [of "j - i" "n - Suc i" es "Suc i" m] i j by auto
  finally show "slots es m1 (n - 1) ! j = (take i (slots es m n) @ drop (Suc i) (slots es m n)) ! j"
    using i j by (auto simp: nth_append)
qed (use i in simp)

text \<open>Work in place: the block stays where it is and keeps its size.\<close>

definition same_block :: "ptr \<Rightarrow> ptr \<Rightarrow> bool" where
  "same_block p q \<longleftrightarrow> paddr q = paddr p \<and> plen q = plen p"

lemma same_block_refl [simp]: "same_block p p"
  by (simp add: same_block_def)

lemma same_block_trans: "same_block p q \<Longrightarrow> same_block q r \<Longrightarrow> same_block p r"
  by (simp add: same_block_def)

lemma same_block_plen: "same_block p q \<Longrightarrow> plen q = plen p"
  by (simp add: same_block_def)

lemma same_block_paddr: "same_block p q \<Longrightarrow> paddr q = paddr p"
  by (simp add: same_block_def)

lemma slot_in_range:
  assumes "n * es \<le> plen p" and "i < n" and "0 < es" and "plen p < size_mod"
  shows "p \<noteq> None" and "i * es + es \<le> plen p" and "sz_mul i es = i * es"
proof -
  show le: "i * es + es \<le> plen p" using assms(2,1) by (rule slot_fits)
  then show "p \<noteq> None" using assms(3) by (cases p) simp_all
  show "sz_mul i es = i * es" using le assms(4) by (intro sz_mul_nowrap) linarith
qed

section \<open>Shared facts on lists, options and loops\<close>

lemma bind_Some_iff: "Option.bind m f = Some y \<longleftrightarrow> (\<exists>x. m = Some x \<and> f x = Some y)"
  by (cases m) simp_all

lemma nth_take_drop_append:
  "i < length xs \<Longrightarrow> take i xs @ xs ! i # drop (Suc i) xs = xs"
  by (simp add: id_take_nth_drop [symmetric])

text \<open>
  A loop whose body is the identity on a state that satisfies the guard never ends: the loop
  has no final state.
\<close>

lemma while_option_fixpoint:
  assumes "b s" and "c s = s"
  shows "while_option b c s = None"
proof (rule ccontr)
  assume "while_option b c s \<noteq> None"
  then obtain t where t: "while_option b c s = Some t" by auto
  have "t = s"
    by (rule while_option_rule [where P = "\<lambda>u. u = s", OF _ t]) (use assms in simp_all)
  moreover have "\<not> b t" using while_option_stop [OF t] .
  ultimately show False using assms(1) by simp
qed

section \<open>The growth loop of the element containers\<close>

text \<open>
  The vector, the deque and the heap grow with the same loop, \<open>new_cap + new_cap / 2\<close> from a
  default of 8. The loop is \<open>None\<close> when it never reaches the wanted capacity: half of 1 is 0, so
  from capacity 1 it makes no progress.
\<close>

definition grow_cap :: "nat \<Rightarrow> nat \<Rightarrow> nat option" where
  "grow_cap cap min_capacity =
    while_option (\<lambda>c. c < min_capacity) (\<lambda>c. if c = 0 then 8 else sz_add c (c div 2)) cap"

definition grown :: "nat \<Rightarrow> nat" where
  "grown cap = (if cap = 0 then 8 else cap + cap div 2)"

lemma grow_cap_one_more:
  assumes "cap \<noteq> 1" and "cap + cap div 2 < size_mod"
  shows "grow_cap cap (cap + 1) = Some (grown cap)"
proof -
  have "\<not> grown cap < cap + 1" using assms(1) by (simp add: grown_def)
  moreover have "(if cap = 0 then 8 else sz_add cap (cap div 2)) = grown cap"
    using assms(2) by (simp add: grown_def size_simps)
  ultimately show ?thesis unfolding grow_cap_def
    by (subst while_option_unfold, subst while_option_unfold) simp
qed

lemma grow_cap_stuck: "1 < m \<Longrightarrow> grow_cap 1 m = None"
  unfolding grow_cap_def
  by (rule while_option_fixpoint) (simp_all add: size_simps size_mod_def)

lemma grown_greater: "cap \<noteq> 1 \<Longrightarrow> cap < grown cap"
  by (simp add: grown_def)

end
