(* ===== verification/Zenit_Result.thy ===== *)
theory Zenit_Result
  imports Zenit_Prelude
begin

text \<open>
  The error codes of \<open>include/libzenit/result.h\<close> and their labels (\<open>src/result.c\<close>).
  The struct \<open>zenit_result_t\<close> wraps one code and is modelled by the code. The iterator
  \<open>zenit_iter_t\<close>, shared by the containers, is a record whose container pointer is the
  presence of the container (its content is an argument of the \<open>iter_next\<close> operations).
\<close>

datatype zenit_error_t =
    ZENIT_OK
  | ZENIT_ERROR_NULL
  | ZENIT_ERROR_ALLOC
  | ZENIT_ERROR_PARAM
  | ZENIT_ERROR_NOT_FOUND
  | ZENIT_ERROR_CORRUPT
  | ZENIT_ERROR_DOUBLE_FREE
  | ZENIT_ERROR_STATE
  | ZENIT_ERROR_SIZE
  | ZENIT_ERROR_FULL
  | ZENIT_ERROR_EMPTY
  | ZENIT_ERROR_OVERFLOW

type_synonym zenit_result_t = zenit_error_t

fun error_code :: "zenit_error_t \<Rightarrow> nat" where
  "error_code ZENIT_OK = 0"
| "error_code ZENIT_ERROR_NULL = 1"
| "error_code ZENIT_ERROR_ALLOC = 2"
| "error_code ZENIT_ERROR_PARAM = 3"
| "error_code ZENIT_ERROR_NOT_FOUND = 4"
| "error_code ZENIT_ERROR_CORRUPT = 5"
| "error_code ZENIT_ERROR_DOUBLE_FREE = 6"
| "error_code ZENIT_ERROR_STATE = 7"
| "error_code ZENIT_ERROR_SIZE = 8"
| "error_code ZENIT_ERROR_FULL = 9"
| "error_code ZENIT_ERROR_EMPTY = 10"
| "error_code ZENIT_ERROR_OVERFLOW = 11"

definition zenit_result_is_ok :: "zenit_result_t \<Rightarrow> bool" where
  "zenit_result_is_ok r \<longleftrightarrow> r = ZENIT_OK"

definition zenit_result_is_error :: "zenit_result_t \<Rightarrow> bool" where
  "zenit_result_is_error r \<longleftrightarrow> r \<noteq> ZENIT_OK"

text \<open>
  The switch is over the integer value of the code, so a value outside the enumeration reaches
  the fallback label.
\<close>

definition zenit_error_string :: "nat \<Rightarrow> string" where
  "zenit_error_string e =
    (if e = 0 then ''ok''
     else if e = 1 then ''null pointer''
     else if e = 2 then ''allocation failed''
     else if e = 3 then ''invalid parameter''
     else if e = 4 then ''not found''
     else if e = 5 then ''corrupted data''
     else if e = 6 then ''double free''
     else if e = 7 then ''invalid state''
     else if e = 8 then ''size mismatch''
     else if e = 9 then ''buffer full''
     else if e = 10 then ''buffer empty''
     else if e = 11 then ''overflow''
     else ''unknown error'')"

record zenit_iter_t =
  iter_index :: nat
  iter_count :: nat
  iter_is_valid :: bool

lemma error_code_inj: "error_code e = error_code e' \<Longrightarrow> e = e'"
  by (cases e; cases e') simp_all

instantiation zenit_error_t :: linorder
begin

definition less_eq_zenit_error_t :: "zenit_error_t \<Rightarrow> zenit_error_t \<Rightarrow> bool" where
  "less_eq_zenit_error_t a b \<longleftrightarrow> error_code a \<le> error_code b"

definition less_zenit_error_t :: "zenit_error_t \<Rightarrow> zenit_error_t \<Rightarrow> bool" where
  "less_zenit_error_t a b \<longleftrightarrow> error_code a < error_code b"

instance
  by standard
    (auto simp: less_eq_zenit_error_t_def less_zenit_error_t_def intro: error_code_inj)

end

lemma ZENIT_OK_least [simp]: "ZENIT_OK \<le> e"
  by (simp add: less_eq_zenit_error_t_def)

lemma zenit_result_is_error_less: "zenit_result_is_error e \<longleftrightarrow> ZENIT_OK < e"
  by (cases e) (simp_all add: zenit_result_is_error_def less_zenit_error_t_def)

lemma zenit_result_ok_or_error: "zenit_result_is_ok r \<noteq> zenit_result_is_error r"
  by (simp add: zenit_result_is_ok_def zenit_result_is_error_def)

end
