(* ===== verification/Zenit_Allocator.thy ===== *)
theory Zenit_Allocator
  imports Zenit_Result
begin

text \<open>
  The allocator interface (\<open>include/libzenit/allocator.h\<close>, \<open>src/allocator.c\<close>).

  An allocator is a record of its three functions; \<open>'h\<close> is the state behind the opaque
  context (and, for the default allocator, the C heap). The functions behind the pointers are
  the caller's: what the library relies on is the locale \<open>allocator_contract\<close>, stated over the
  set of live addresses. The default allocator is \<open>malloc\<close>/\<open>realloc\<close>/\<open>free\<close> over a C heap
  whose failures are decided by a script, and it satisfies the contract.
\<close>

record 'h zenit_allocator_t =
  alloc_fn :: "nat \<Rightarrow> 'h \<Rightarrow> ptr \<times> 'h"
  realloc_fn :: "(ptr \<Rightarrow> nat \<Rightarrow> 'h \<Rightarrow> (ptr \<times> 'h) option) option"
  free_fn :: "nat option \<Rightarrow> 'h \<Rightarrow> 'h option"

definition zenit_allocator_alloc_zero ::
    "'h zenit_allocator_t \<Rightarrow> nat \<Rightarrow> nat \<Rightarrow> 'h \<Rightarrow> (ptr \<times> 'h) option" where
  "zenit_allocator_alloc_zero a nmemb sz h =
    (case alloc_fn a (sz_mul nmemb sz) h of
       (None, h') \<Rightarrow> Some (None, h')
     | (Some b, h') \<Rightarrow> do {
         q \<leftarrow> mem_write (Some b) 0 (replicate (sz_mul nmemb sz) 0);
         Some (q, h')
       })"

definition zenit_allocator_realloc ::
    "'h zenit_allocator_t \<Rightarrow> ptr \<Rightarrow> nat \<Rightarrow> nat \<Rightarrow> 'h \<Rightarrow> (ptr \<times> 'h) option" where
  "zenit_allocator_realloc a p old_size new_size h =
    (case realloc_fn a of
       Some f \<Rightarrow> f p new_size h
     | None \<Rightarrow>
        (case alloc_fn a new_size h of
           (None, h') \<Rightarrow> Some (None, h')
         | (Some b, h') \<Rightarrow>
             (case p of
                None \<Rightarrow> Some (Some b, h')
              | Some _ \<Rightarrow> do {
                  d \<leftarrow> mem_read p 0 (if old_size < new_size then old_size else new_size);
                  q \<leftarrow> mem_write (Some b) 0 d;
                  h'' \<leftarrow> free_fn a (paddr p) h';
                  Some (q, h'')
                })))"

section \<open>The contract an allocator keeps\<close>

text \<open>
  What a reallocation promises: on failure nothing changes; on success the new block has the
  asked size, keeps the common prefix of the old one, and takes its place among the live blocks.
\<close>

definition realloc_post ::
    "('h \<Rightarrow> nat set) \<Rightarrow> ptr \<Rightarrow> nat \<Rightarrow> 'h \<Rightarrow> ptr \<Rightarrow> 'h \<Rightarrow> bool" where
  "realloc_post live p n h q h' \<longleftrightarrow>
    (case q of
       None \<Rightarrow> live h' = live h
     | Some b \<Rightarrow> length (mbytes b) = n \<and> maddr b \<notin> live h - paddrs p \<and>
         live h' = insert (maddr b) (live h - paddrs p) \<and>
         take (min n (plen p)) (mbytes b) = take (min n (plen p)) (pbytes p))"

locale allocator_contract =
  fixes A :: "'h zenit_allocator_t"
    and live :: "'h \<Rightarrow> nat set"
  assumes alloc_null: "alloc_fn A n h = (None, h') \<Longrightarrow> live h' = live h"
    and alloc_some: "alloc_fn A n h = (Some b, h') \<Longrightarrow>
      length (mbytes b) = n \<and> maddr b \<notin> live h \<and> live h' = insert (maddr b) (live h)"
    and free_null: "free_fn A None h = Some h"
    and free_live: "x \<in> live h \<Longrightarrow> \<exists>h'. free_fn A (Some x) h = Some h' \<and> live h' = live h - {x}"
    and realloc_law: "realloc_fn A = Some f \<Longrightarrow> paddrs p \<subseteq> live h \<Longrightarrow> 0 < n \<Longrightarrow>
      \<exists>q h'. f p n h = Some (q, h') \<and> realloc_post live p n h q h'"
begin

lemma free_ptr:
  assumes "paddrs p \<subseteq> live h"
  obtains h' where "free_fn A (paddr p) h = Some h'" and "live h' = live h - paddrs p"
  using assms free_null free_live by (cases p) fastforce+

lemma free_addr:
  assumes "x \<in> live h"
  obtains h' where "free_fn A (Some x) h = Some h'" and "live h' = live h - {x}"
  using assms free_live by blast

lemma alloc_cases:
  obtains (null) h' where "alloc_fn A n h = (None, h')" and "live h' = live h"
  | (block) b h' where "alloc_fn A n h = (Some b, h')" and "length (mbytes b) = n"
      and "maddr b \<notin> live h" and "live h' = insert (maddr b) (live h)"
  by (cases "alloc_fn A n h"; cases "fst (alloc_fn A n h)")
    (use alloc_null alloc_some in \<open>fastforce+\<close>)

lemma alloc_zero_cases:
  obtains (null) h' where "zenit_allocator_alloc_zero A k s h = Some (None, h')"
      and "live h' = live h"
  | (block) b h' where "zenit_allocator_alloc_zero A k s h = Some (Some b, h')"
      and "mbytes b = replicate (sz_mul k s) 0"
      and "maddr b \<notin> live h" and "live h' = insert (maddr b) (live h)"
proof (cases rule: alloc_cases [of "sz_mul k s" h])
  case (null h')
  then show ?thesis by (intro that(1) [of h']) (simp_all add: zenit_allocator_alloc_zero_def)
next
  case (block b h')
  have "zenit_allocator_alloc_zero A k s h
      = Some (Some (b\<lparr>mbytes := replicate (sz_mul k s) 0\<rparr>), h')"
    using block by (simp add: zenit_allocator_alloc_zero_def mem_write_def blit_def)
  then show ?thesis by (rule that(2)) (use block in simp_all)
qed

text \<open>Both ways of reallocating, the allocator's own and allocate-copy-free, keep the contract.\<close>

lemma realloc_any:
  assumes p: "paddrs p \<subseteq> live h" and n: "0 < n" and old: "old = plen p"
  shows "\<exists>q h'. zenit_allocator_realloc A p old n h = Some (q, h') \<and> realloc_post live p n h q h'"
proof (cases "realloc_fn A")
  case (Some f)
  then show ?thesis using realloc_law [OF Some p n] by (simp add: zenit_allocator_realloc_def)
next
  case None
  show ?thesis
  proof (cases rule: alloc_cases [of n h])
    case (null h')
    then show ?thesis using None
      by (simp add: zenit_allocator_realloc_def realloc_post_def)
  next
    case (block b h')
    show ?thesis
    proof (cases p)
      case pn: None
      then show ?thesis using None block
        by (simp add: zenit_allocator_realloc_def realloc_post_def)
    next
      case ps: (Some c)
      then have "maddr c \<in> live h'" using p block by simp
      then obtain h'' where h'': "free_fn A (Some (maddr c)) h' = Some h''"
          "live h'' = live h' - {maddr c}"
        by (rule free_addr)
      have "maddr b \<noteq> maddr c" using p block ps by auto
      then show ?thesis using None block ps h'' old
        by (auto simp: zenit_allocator_realloc_def realloc_post_def mem_read_def mem_write_def
            blit_def min_def)
    qed
  qed
qed

end

section \<open>The default allocator\<close>

text \<open>
  The C heap: the addresses of the live blocks, a script that decides which allocations fail
  (\<open>False\<close>: the next call returns \<open>NULL\<close>; an empty script: success) and the byte found in fresh
  memory. \<open>free\<close> of an address that is not live is undefined behaviour.
\<close>

record c_heap =
  heap_live :: "nat list"
  heap_script :: "bool list"
  heap_junk :: byte

definition heap_addrs :: "c_heap \<Rightarrow> nat set" where
  "heap_addrs h = set (heap_live h)"

definition fresh_addr :: "nat list \<Rightarrow> nat" where
  "fresh_addr xs = Suc (fold max xs 0)"

definition c_malloc :: "nat \<Rightarrow> c_heap \<Rightarrow> ptr \<times> c_heap" where
  "c_malloc n h =
    (case heap_script h of
       False # s \<Rightarrow> (None, h\<lparr>heap_script := s\<rparr>)
     | s \<Rightarrow> (let a = fresh_addr (heap_live h) in
         (Some \<lparr>maddr = a, mbytes = replicate n (heap_junk h)\<rparr>,
          h\<lparr>heap_live := a # heap_live h, heap_script := tl s\<rparr>)))"

definition c_free :: "nat option \<Rightarrow> c_heap \<Rightarrow> c_heap option" where
  "c_free p h =
    (case p of
       None \<Rightarrow> Some h
     | Some a \<Rightarrow> if a \<in> set (heap_live h)
         then Some (h\<lparr>heap_live := removeAll a (heap_live h)\<rparr>) else None)"

definition c_realloc :: "ptr \<Rightarrow> nat \<Rightarrow> c_heap \<Rightarrow> (ptr \<times> c_heap) option" where
  "c_realloc p n h =
    (case p of
       None \<Rightarrow> Some (c_malloc n h)
     | Some b \<Rightarrow> if maddr b \<notin> set (heap_live h) then None else
        (case c_malloc n h of
           (None, h') \<Rightarrow> Some (None, h')
         | (Some c, h') \<Rightarrow>
            Some (Some (c\<lparr>mbytes := take n (mbytes b) @ drop (length (mbytes b)) (mbytes c)\<rparr>),
                  h'\<lparr>heap_live := removeAll (maddr b) (heap_live h')\<rparr>)))"

definition zenit_default_alloc :: "nat \<Rightarrow> c_heap \<Rightarrow> ptr \<times> c_heap" where
  "zenit_default_alloc n h = c_malloc n h"

definition zenit_default_realloc :: "ptr \<Rightarrow> nat \<Rightarrow> c_heap \<Rightarrow> (ptr \<times> c_heap) option" where
  "zenit_default_realloc p n h = c_realloc p n h"

definition zenit_default_free :: "nat option \<Rightarrow> c_heap \<Rightarrow> c_heap option" where
  "zenit_default_free p h = c_free p h"

definition ZENIT_ALLOCATOR_DEFAULT :: "c_heap zenit_allocator_t" where
  "ZENIT_ALLOCATOR_DEFAULT =
    \<lparr>alloc_fn = zenit_default_alloc, realloc_fn = Some zenit_default_realloc,
     free_fn = zenit_default_free\<rparr>"

text \<open>The same heap behind an allocator without \<open>realloc\<close>, as an arena-like client would pass.\<close>

definition no_realloc_allocator :: "c_heap zenit_allocator_t" where
  "no_realloc_allocator = ZENIT_ALLOCATOR_DEFAULT\<lparr>realloc_fn := None\<rparr>"

lemmas default_eval = ZENIT_ALLOCATOR_DEFAULT_def zenit_default_alloc_def zenit_default_realloc_def
  zenit_default_free_def c_malloc_def c_realloc_def c_free_def fresh_addr_def

lemma fold_max_ge: "(x::nat) \<in> set xs \<Longrightarrow> x \<le> fold max xs a"
  and fold_max_acc: "a \<le> fold max xs (a::nat)"
proof -
  have acc: "a \<le> fold max xs a" for xs and a :: nat
  proof (induction xs arbitrary: a)
    case (Cons x xs)
    show ?case using Cons.IH [of "max x a"] by simp
  qed simp
  show "a \<le> fold max xs a" by (rule acc)
  show "x \<le> fold max xs a" if "x \<in> set xs"
    using that
  proof (induction xs arbitrary: a)
    case (Cons y ys)
    then show ?case using acc [of "max y a" ys] by auto
  qed simp
qed

lemma fresh_addr_notin [simp]: "fresh_addr xs \<notin> set xs"
  using fold_max_ge [of "fresh_addr xs" xs 0] by (auto simp: fresh_addr_def)

lemma c_malloc_cases:
  obtains (null) s where "heap_script h = False # s" and "c_malloc n h = (None, h\<lparr>heap_script := s\<rparr>)"
  | (block) "c_malloc n h =
      (Some \<lparr>maddr = fresh_addr (heap_live h), mbytes = replicate n (heap_junk h)\<rparr>,
       h\<lparr>heap_live := fresh_addr (heap_live h) # heap_live h, heap_script := tl (heap_script h)\<rparr>)"
proof (cases "heap_script h")
  case Nil
  then show ?thesis by (intro that(2)) (simp add: c_malloc_def Let_def)
next
  case (Cons b s)
  show ?thesis
  proof (cases b)
    case True
    with Cons show ?thesis by (intro that(2)) (simp add: c_malloc_def Let_def)
  next
    case False
    with Cons show ?thesis by (intro that(1) [of s]) (simp_all add: c_malloc_def)
  qed
qed

lemma c_realloc_post:
  assumes "paddrs p \<subseteq> heap_addrs h"
  shows "\<exists>q h'. c_realloc p n h = Some (q, h') \<and> realloc_post heap_addrs p n h q h'"
  using assms
  by (cases p; cases rule: c_malloc_cases [of h n])
    (auto simp: c_realloc_def realloc_post_def heap_addrs_def min_def)

lemma default_contract: "allocator_contract ZENIT_ALLOCATOR_DEFAULT heap_addrs"
proof
  fix n h h' assume "alloc_fn ZENIT_ALLOCATOR_DEFAULT n h = (None, h')"
  then show "heap_addrs h' = heap_addrs h"
    by (cases rule: c_malloc_cases [of h n])
      (auto simp: ZENIT_ALLOCATOR_DEFAULT_def zenit_default_alloc_def heap_addrs_def)
next
  fix n h b h' assume "alloc_fn ZENIT_ALLOCATOR_DEFAULT n h = (Some b, h')"
  then show "length (mbytes b) = n \<and> maddr b \<notin> heap_addrs h \<and>
      heap_addrs h' = insert (maddr b) (heap_addrs h)"
    by (cases rule: c_malloc_cases [of h n])
      (auto simp: ZENIT_ALLOCATOR_DEFAULT_def zenit_default_alloc_def heap_addrs_def)
next
  fix x h assume "x \<in> heap_addrs h"
  then show "\<exists>h'. free_fn ZENIT_ALLOCATOR_DEFAULT (Some x) h = Some h' \<and>
      heap_addrs h' = heap_addrs h - {x}"
    by (auto simp: ZENIT_ALLOCATOR_DEFAULT_def zenit_default_free_def c_free_def heap_addrs_def)
next
  fix f p h n
  assume "realloc_fn ZENIT_ALLOCATOR_DEFAULT = Some f" and "paddrs p \<subseteq> heap_addrs h"
  then show "\<exists>q h'. f p n h = Some (q, h') \<and> realloc_post heap_addrs p n h q h'"
    using c_realloc_post [of p h n]
    by (simp add: ZENIT_ALLOCATOR_DEFAULT_def zenit_default_realloc_def)
qed (simp add: ZENIT_ALLOCATOR_DEFAULT_def zenit_default_free_def c_free_def)

interpretation default_alloc: allocator_contract ZENIT_ALLOCATOR_DEFAULT heap_addrs
  by (rule default_contract)

interpretation fallback_alloc: allocator_contract no_realloc_allocator heap_addrs
  using default_alloc.alloc_null default_alloc.alloc_some default_alloc.free_null
    default_alloc.free_live
  by unfold_locales (simp_all add: no_realloc_allocator_def)

section \<open>Ownership of a handle and its buffer\<close>

text \<open>
  Most containers are two blocks, the handle and one buffer, from the same allocator. \<open>owned\<close>
  says that both are live and apart; it is what releasing and reallocating them needs.
\<close>

definition owned ::
    "'h zenit_allocator_t \<Rightarrow> ('h \<Rightarrow> nat set) \<Rightarrow> nat \<Rightarrow> ptr \<Rightarrow> 'h \<Rightarrow> bool" where
  "owned a live self buf h \<longleftrightarrow>
    allocator_contract a live \<and> self \<in> live h \<and> paddrs buf \<subseteq> live h \<and> self \<notin> paddrs buf"

lemma owned_same_addr: "paddr buf' = paddr buf \<Longrightarrow> owned a live self buf' h = owned a live self buf h"
  by (simp add: owned_def paddrs_def)

lemma owned_release:
  assumes "owned a live self buf h"
  obtains h1 h2 where "free_fn a (paddr buf) h = Some h1" and "free_fn a (Some self) h1 = Some h2"
    and "live h2 = live h - insert self (paddrs buf)"
proof -
  from assms have c: "allocator_contract a live" and o: "self \<in> live h" "paddrs buf \<subseteq> live h"
      "self \<notin> paddrs buf"
    by (simp_all add: owned_def)
  from allocator_contract.free_ptr [OF c o(2)] obtain h1 where
    h1: "free_fn a (paddr buf) h = Some h1" "live h1 = live h - paddrs buf" by blast
  then have "self \<in> live h1" using o by simp
  from allocator_contract.free_addr [OF c this] obtain h2 where
    "free_fn a (Some self) h1 = Some h2" "live h2 = live h1 - {self}" by blast
  then show thesis using h1 by (intro that) auto
qed

lemma owned_free_buffer:
  assumes "owned a live self buf h"
  obtains h1 where "free_fn a (paddr buf) h = Some h1" and "live h1 = live h - paddrs buf"
    and "owned a live self None h1"
proof -
  from assms have c: "allocator_contract a live" and o: "paddrs buf \<subseteq> live h"
    by (simp_all add: owned_def)
  from allocator_contract.free_ptr [OF c o] obtain h1 where
    "free_fn a (paddr buf) h = Some h1" "live h1 = live h - paddrs buf" by blast
  then show thesis using assms by (intro that) (auto simp: owned_def)
qed

lemma owned_realloc:
  assumes own: "owned a live self buf h" and n: "0 < n"
  obtains (null) h' where "zenit_allocator_realloc a buf (plen buf) n h = Some (None, h')"
      and "live h' = live h" and "owned a live self buf h'"
  | (block) b h' where "zenit_allocator_realloc a buf (plen buf) n h = Some (Some b, h')"
      and "length (mbytes b) = n" and "owned a live self (Some b) h'"
      and "live h' = insert (maddr b) (live h - paddrs buf)"
      and "take (min n (plen buf)) (mbytes b) = take (min n (plen buf)) (pbytes buf)"
      and "maddr b \<notin> live h - paddrs buf"
proof -
  from own have c: "allocator_contract a live" and o: "self \<in> live h" "paddrs buf \<subseteq> live h"
      "self \<notin> paddrs buf"
    by (simp_all add: owned_def)
  from allocator_contract.realloc_any [OF c o(2) n refl] obtain q h' where
    q: "zenit_allocator_realloc a buf (plen buf) n h = Some (q, h')"
      "realloc_post live buf n h q h'" by blast
  show thesis
  proof (cases q)
    case None
    show thesis by (rule null [of h']) (use None q own in \<open>auto simp: realloc_post_def owned_def\<close>)
  next
    case (Some b)
    show thesis
      by (rule block [of b h'])
        (use Some q own in \<open>auto simp: realloc_post_def owned_def\<close>)
  qed
qed

text \<open>Allocating a handle and then a buffer, as the constructors do.\<close>

lemma owned_fresh:
  assumes "allocator_contract a live" and "maddr hb \<notin> live h" and "live h1 = insert (maddr hb) (live h)"
    and "maddr b \<notin> live h1" and "live h2 = insert (maddr b) (live h1)"
  shows "owned a live (maddr hb) (Some b) h2" and "{maddr hb, maddr b} \<inter> live h = {}"
    and "live h2 - {maddr hb, maddr b} = live h"
  using assms by (auto simp: owned_def)

end
