(* ===== verification/Zenit_Ring.thy ===== *)
theory Zenit_Ring
  imports Zenit_Allocator
begin

text \<open>
  The byte ring buffer (\<open>include/libzenit/ring.h\<close>, \<open>src/ring.c\<close>): the struct, every
  operation with its two-segment copies, the invariant that ties head, tail and count, and the
  refinement of a bounded byte queue.
\<close>

section \<open>State and operations\<close>

record 'h zenit_ring_t =
  ring_self :: nat
  ring_buffer :: ptr
  ring_capacity :: nat
  ring_head :: nat
  ring_tail :: nat
  ring_count :: nat
  ring_allocator :: "'h zenit_allocator_t"

definition sizeof_ring :: nat where
  "sizeof_ring = 72"

definition zenit_ring_create_with_allocator ::
    "nat \<Rightarrow> 'h zenit_allocator_t \<Rightarrow> 'h \<Rightarrow> ('h zenit_ring_t option \<times> 'h) option" where
  "zenit_ring_create_with_allocator capacity a h =
    (if capacity = 0 then Some (None, h)
     else case alloc_fn a sizeof_ring h of
       (None, h1) \<Rightarrow> Some (None, h1)
     | (Some ring, h1) \<Rightarrow> do {
         (buf, h2) \<leftarrow> zenit_allocator_alloc_zero a 1 capacity h1;
         (case buf of
            None \<Rightarrow> do { h3 \<leftarrow> free_fn a (Some (maddr ring)) h2; Some (None, h3) }
          | Some _ \<Rightarrow>
              Some (Some \<lparr>ring_self = maddr ring, ring_buffer = buf, ring_capacity = capacity,
                      ring_head = 0, ring_tail = 0, ring_count = 0, ring_allocator = a\<rparr>, h2))
       })"

definition zenit_ring_create :: "nat \<Rightarrow> c_heap \<Rightarrow> (c_heap zenit_ring_t option \<times> c_heap) option" where
  "zenit_ring_create capacity = zenit_ring_create_with_allocator capacity ZENIT_ALLOCATOR_DEFAULT"

definition zenit_ring_destroy :: "'h zenit_ring_t option \<Rightarrow> 'h \<Rightarrow> 'h option" where
  "zenit_ring_destroy ring h =
    (case ring of None \<Rightarrow> Some h
     | Some r \<Rightarrow> do {
         h1 \<leftarrow> free_fn (ring_allocator r) (paddr (ring_buffer r)) h;
         free_fn (ring_allocator r) (Some (ring_self r)) h1
       })"

definition zenit_ring_push ::
    "'h zenit_ring_t option \<Rightarrow> byte list option \<Rightarrow> nat \<Rightarrow>
     (zenit_result_t \<times> 'h zenit_ring_t option) option" where
  "zenit_ring_push ring data n =
    (case (ring, data) of
       (Some r, Some d) \<Rightarrow>
         if n = 0 then Some (ZENIT_ERROR_PARAM, ring)
         else if ring_capacity r < sz_add (ring_count r) n then Some (ZENIT_ERROR_FULL, ring)
         else do {
           let avail = sz_sub (ring_capacity r) (ring_head r);
           let first_chunk = (if n < avail then n else avail);
           d1 \<leftarrow> user_read d first_chunk;
           b1 \<leftarrow> mem_write (ring_buffer r) (ring_head r) d1;
           let second_chunk = sz_sub n first_chunk;
           b2 \<leftarrow> (if 0 < second_chunk
                 then do { d2 \<leftarrow> user_read (drop first_chunk d) second_chunk; mem_write b1 0 d2 }
                 else Some b1);
           hd' \<leftarrow> sz_mod (sz_add (ring_head r) n) (ring_capacity r);
           Some (ZENIT_OK, Some (r\<lparr>ring_buffer := b2, ring_head := hd',
                                 ring_count := sz_add (ring_count r) n\<rparr>))
         }
     | _ \<Rightarrow> Some (ZENIT_ERROR_NULL, ring))"

text \<open>
  The read both \<open>zenit_ring_pop\<close> and \<open>zenit_ring_peek\<close> perform: at most two \<open>memcpy\<close>
  calls from the cursor into the caller's buffer.
\<close>

definition ring_copy_out ::
    "'h zenit_ring_t \<Rightarrow> nat \<Rightarrow> byte list \<Rightarrow> nat \<Rightarrow> byte list option" where
  "ring_copy_out r tail out to_read = do {
     let avail = sz_sub (ring_capacity r) tail;
     let first_chunk = (if to_read < avail then to_read else avail);
     d1 \<leftarrow> mem_read (ring_buffer r) tail first_chunk;
     o1 \<leftarrow> user_write out 0 d1;
     let second_chunk = sz_sub to_read first_chunk;
     (if 0 < second_chunk
      then do { d2 \<leftarrow> mem_read (ring_buffer r) 0 second_chunk; user_write o1 first_chunk d2 }
      else Some o1)
   }"

definition zenit_ring_pop ::
    "'h zenit_ring_t option \<Rightarrow> byte list option \<Rightarrow> nat option \<Rightarrow>
     (zenit_result_t \<times> 'h zenit_ring_t option \<times> byte list option \<times> nat option) option" where
  "zenit_ring_pop ring out sz =
    (case (ring, out, sz) of
       (Some r, Some d, Some n) \<Rightarrow>
         if n = 0 then Some (ZENIT_ERROR_PARAM, ring, out, sz)
         else if ring_count r = 0 then Some (ZENIT_ERROR_EMPTY, ring, out, sz)
         else do {
           let to_read = (if ring_count r < n then ring_count r else n);
           d' \<leftarrow> ring_copy_out r (ring_tail r) d to_read;
           tl' \<leftarrow> sz_mod (sz_add (ring_tail r) to_read) (ring_capacity r);
           Some (ZENIT_OK,
                 Some (r\<lparr>ring_tail := tl', ring_count := sz_sub (ring_count r) to_read\<rparr>),
                 Some d', Some to_read)
         }
     | _ \<Rightarrow> Some (ZENIT_ERROR_NULL, ring, out, sz))"

definition zenit_ring_peek ::
    "'h zenit_ring_t option \<Rightarrow> byte list option \<Rightarrow> nat option \<Rightarrow>
     (zenit_result_t \<times> byte list option \<times> nat option) option" where
  "zenit_ring_peek ring out sz =
    (case (ring, out, sz) of
       (Some r, Some d, Some n) \<Rightarrow>
         if n = 0 then Some (ZENIT_ERROR_PARAM, out, sz)
         else if ring_count r = 0 then Some (ZENIT_ERROR_EMPTY, out, sz)
         else do {
           let to_read = (if ring_count r < n then ring_count r else n);
           d' \<leftarrow> ring_copy_out r (ring_tail r) d to_read;
           Some (ZENIT_OK, Some d', Some to_read)
         }
     | _ \<Rightarrow> Some (ZENIT_ERROR_NULL, out, sz))"

definition zenit_ring_count :: "'h zenit_ring_t option \<Rightarrow> nat" where
  "zenit_ring_count ring = (case ring of None \<Rightarrow> 0 | Some r \<Rightarrow> ring_count r)"

definition zenit_ring_capacity :: "'h zenit_ring_t option \<Rightarrow> nat" where
  "zenit_ring_capacity ring = (case ring of None \<Rightarrow> 0 | Some r \<Rightarrow> ring_capacity r)"

definition zenit_ring_clear :: "'h zenit_ring_t option \<Rightarrow> 'h zenit_ring_t option" where
  "zenit_ring_clear ring =
    map_option (\<lambda>r. r\<lparr>ring_head := 0, ring_tail := 0, ring_count := 0\<rparr>) ring"

definition zenit_ring_reserve ::
    "'h zenit_ring_t option \<Rightarrow> nat \<Rightarrow> 'h \<Rightarrow> (zenit_result_t \<times> 'h zenit_ring_t option \<times> 'h) option" where
  "zenit_ring_reserve ring new_capacity h =
    (case ring of
       None \<Rightarrow> Some (ZENIT_ERROR_NULL, ring, h)
     | Some r \<Rightarrow>
        if new_capacity = 0 then Some (ZENIT_ERROR_PARAM, ring, h)
        else case alloc_fn (ring_allocator r) new_capacity h of
          (None, h1) \<Rightarrow> Some (ZENIT_ERROR_ALLOC, ring, h1)
        | (Some nb, h1) \<Rightarrow> do {
            let to_copy = (if new_capacity < ring_count r then new_capacity else ring_count r);
            nb' \<leftarrow> (if 0 < to_copy then do {
                     let avail = sz_sub (ring_capacity r) (ring_tail r);
                     let first = (if to_copy < avail then to_copy else avail);
                     d1 \<leftarrow> mem_read (ring_buffer r) (ring_tail r) first;
                     b1 \<leftarrow> mem_write (Some nb) 0 d1;
                     let second = sz_sub to_copy first;
                     (if 0 < second
                      then do { d2 \<leftarrow> mem_read (ring_buffer r) 0 second; mem_write b1 first d2 }
                      else Some b1)
                   } else Some (Some nb));
            h2 \<leftarrow> free_fn (ring_allocator r) (paddr (ring_buffer r)) h1;
            Some (ZENIT_OK,
                  Some (r\<lparr>ring_buffer := nb', ring_capacity := new_capacity, ring_tail := 0,
                          ring_head := to_copy, ring_count := to_copy\<rparr>), h2)
          })"

definition zenit_ring_shrink_to_fit ::
    "'h zenit_ring_t option \<Rightarrow> 'h \<Rightarrow> (zenit_result_t \<times> 'h zenit_ring_t option \<times> 'h) option" where
  "zenit_ring_shrink_to_fit ring h =
    (case ring of
       None \<Rightarrow> Some (ZENIT_ERROR_NULL, ring, h)
     | Some r \<Rightarrow>
        (let target = (if ring_count r = 0 then 1 else ring_count r)
         in zenit_ring_reserve ring target h))"

section \<open>Invariant and abstraction\<close>

text \<open>
  The write cursor may rest one past the end (\<open>zenit_ring_reserve\<close> leaves it there when the
  data fills the new buffer), even after everything has been popped; the next push then copies
  nothing at the end and wraps. The three alternatives say that head and tail plus count agree
  modulo the capacity.
\<close>

definition ring_inv :: "'h zenit_ring_t \<Rightarrow> bool" where
  "ring_inv r \<longleftrightarrow>
    0 < ring_capacity r \<and> 2 * ring_capacity r < size_mod \<and>
    ring_buffer r \<noteq> None \<and> plen (ring_buffer r) = ring_capacity r \<and>
    ring_tail r < ring_capacity r \<and> ring_head r \<le> ring_capacity r \<and>
    ring_count r \<le> ring_capacity r \<and>
    (ring_head r = ring_tail r + ring_count r \<or>
     ring_head r + ring_capacity r = ring_tail r + ring_count r \<or>
     ring_head r = ring_tail r + ring_count r + ring_capacity r)"

definition ring_bytes :: "'h zenit_ring_t \<Rightarrow> byte list" where
  "ring_bytes r =
    map (\<lambda>i. pbytes (ring_buffer r) ! ((ring_tail r + i) mod ring_capacity r)) [0..<ring_count r]"

text \<open>The addresses a ring owns: its buffer and its handle.\<close>

definition ring_footprint :: "'h zenit_ring_t \<Rightarrow> nat set" where
  "ring_footprint r = insert (ring_self r) (paddrs (ring_buffer r))"

text \<open>The abstract bounded byte queue.\<close>

definition fifo_push :: "nat \<Rightarrow> byte list \<Rightarrow> byte list \<Rightarrow> zenit_result_t \<times> byte list" where
  "fifo_push cap q d =
    (if d = [] then (ZENIT_ERROR_PARAM, q)
     else if cap < length q + length d then (ZENIT_ERROR_FULL, q)
     else (ZENIT_OK, q @ d))"

definition fifo_pop :: "byte list \<Rightarrow> nat \<Rightarrow> zenit_result_t \<times> byte list \<times> byte list" where
  "fifo_pop q n =
    (if n = 0 then (ZENIT_ERROR_PARAM, q, [])
     else if q = [] then (ZENIT_ERROR_EMPTY, q, [])
     else (ZENIT_OK, drop n q, take n q))"

lemma length_ring_bytes [simp]: "length (ring_bytes r) = ring_count r"
  by (simp add: ring_bytes_def)

lemma ring_bytes_nth:
  "i < ring_count r \<Longrightarrow>
   ring_bytes r ! i = pbytes (ring_buffer r) ! ((ring_tail r + i) mod ring_capacity r)"
  by (simp add: ring_bytes_def)

section \<open>Two-segment copies\<close>

text \<open>Reading \<open>n\<close> bytes around the end of a circle of size \<open>c\<close>.\<close>

lemma circle_read:
  assumes "length m = c" and "t < c" and "n \<le> c"
  shows "take (min n (c - t)) (drop t m) @ take (n - min n (c - t)) m
       = map (\<lambda>i. m ! ((t + i) mod c)) [0..<n]"
proof (rule nth_equalityI)
  show "length (take (min n (c - t)) (drop t m) @ take (n - min n (c - t)) m)
      = length (map (\<lambda>i. m ! ((t + i) mod c)) [0..<n])"
    using assms by simp
next
  fix i assume "i < length (take (min n (c - t)) (drop t m) @ take (n - min n (c - t)) m)"
  then have i: "i < n" using assms by simp
  have "(t + i) mod c = (if t + i < c then t + i else t + i - c)"
    using assms i by (intro mod_once) simp
  then show "(take (min n (c - t)) (drop t m) @ take (n - min n (c - t)) m) ! i
      = map (\<lambda>i. m ! ((t + i) mod c)) [0..<n] ! i"
    using assms i by (auto simp: nth_append min_def add.commute)
qed

text \<open>Writing \<open>d\<close> around the end: position \<open>k\<close> of the circle afterwards.\<close>

lemma circle_write_nth:
  assumes "length m = c" and "s \<le> c" and "length d \<le> c" and "k < c"
    and f: "f = min (length d) (c - s)"
  shows "blit (blit m s (take f d)) 0 (drop f d) ! k =
    (if s \<le> k \<and> k < s + length d then d ! (k - s)
     else if k + c < s + length d then d ! (k + c - s) else m ! k)"
proof -
  have "blit (blit m s (take f d)) 0 (drop f d) ! k =
      (if k < length d - f then d ! (f + k) else blit m s (take f d) ! k)"
    using assms by (auto simp: blit_nth min_def)
  moreover have "blit m s (take f d) ! k =
      (if s \<le> k \<and> k < s + f then d ! (k - s) else m ! k)"
    using assms by (auto simp: blit_nth less_diff_conv2 add.commute)
  ultimately show ?thesis using assms by (auto simp: min_def add.commute split: if_splits)
qed

section \<open>Refinement\<close>

lemma ring_invD:
  assumes "ring_inv r"
  shows "0 < ring_capacity r" "2 * ring_capacity r < size_mod" "ring_buffer r \<noteq> None"
    "plen (ring_buffer r) = ring_capacity r" "ring_tail r < ring_capacity r"
    "ring_head r \<le> ring_capacity r" "ring_count r \<le> ring_capacity r"
    "ring_head r = ring_tail r + ring_count r \<or>
     ring_head r + ring_capacity r = ring_tail r + ring_count r \<or>
     ring_head r = ring_tail r + ring_count r + ring_capacity r"
  using assms by (simp_all add: ring_inv_def)

lemma ring_push_runs:
  assumes inv: "ring_inv r" and n: "0 < n" "n \<le> length d"
    and room: "ring_count r + n \<le> ring_capacity r"
    and f: "f = min n (ring_capacity r - ring_head r)"
  shows "\<exists>b. zenit_ring_push (Some r) (Some d) n =
      Some (ZENIT_OK, Some (r\<lparr>ring_buffer := b,
        ring_head := (ring_head r + n) mod ring_capacity r, ring_count := ring_count r + n\<rparr>)) \<and>
      b \<noteq> None \<and> paddr b = paddr (ring_buffer r) \<and> plen b = ring_capacity r \<and>
      pbytes b = blit (blit (pbytes (ring_buffer r)) (ring_head r) (take f (take n d))) 0
        (drop f (take n d))"
proof -
  note inv = ring_invD [OF inv]
  obtain b where b: "ring_buffer r = Some b" using inv(3) by auto
  have arith: "sz_add (ring_count r) n = ring_count r + n"
      "sz_sub (ring_capacity r) (ring_head r) = ring_capacity r - ring_head r"
      "sz_add (ring_head r) n = ring_head r + n" "sz_sub n f = n - f"
      "(if n < ring_capacity r - ring_head r then n else ring_capacity r - ring_head r) = f"
    using inv room f by (simp_all add: size_simps min_def)
  have fl: "f \<le> n" "ring_head r + f \<le> ring_capacity r" "n - f \<le> length d - f"
      "n - f \<le> ring_capacity r"
    using f inv(6) n(2) room by linarith+
  define b1 where "b1 = b\<lparr>mbytes := blit (mbytes b) (ring_head r) (take f d)\<rparr>"
  define b2 where "b2 = b1\<lparr>mbytes := blit (mbytes b1) 0 (drop f (take n d))\<rparr>"
  have len: "length (mbytes b) = ring_capacity r" "length (mbytes b1) = ring_capacity r"
    "length (mbytes b2) = ring_capacity r"
    using inv b n fl room by (simp_all add: b1_def b2_def)
  have w1: "mem_write (Some b) (ring_head r) (take f d) = Some (Some b1)"
    using len n fl by (simp add: mem_write_def b1_def)
  have w2: "(if 0 < n - f then do { d2 \<leftarrow> user_read (drop f d) (n - f); mem_write (Some b1) 0 d2 }
      else Some (Some b1)) = Some (Some b2)"
    using len n fl room by (simp add: mem_write_def user_read_def b2_def take_drop)
  have "zenit_ring_push (Some r) (Some d) n =
      Some (ZENIT_OK, Some (r\<lparr>ring_buffer := Some b2,
        ring_head := (ring_head r + n) mod ring_capacity r, ring_count := ring_count r + n\<rparr>))"
    using n fl room inv(1) w1 w2
    by (simp add: zenit_ring_push_def arith b user_read_def sz_mod_def)
  then show ?thesis using len b fl n
    by (intro exI [of _ "Some b2"]) (simp add: b2_def b1_def min_absorb1)
qed

lemma ring_push_bytes:
  assumes inv: "ring_inv r" and n: "0 < n" "n \<le> length d"
    and room: "ring_count r + n \<le> ring_capacity r"
    and r': "r' = r\<lparr>ring_buffer := b, ring_head := (ring_head r + n) mod ring_capacity r,
      ring_count := ring_count r + n\<rparr>"
    and b: "pbytes b = blit (blit (pbytes (ring_buffer r)) (ring_head r) (take f (take n d))) 0
        (drop f (take n d))"
    and f: "f = min n (ring_capacity r - ring_head r)"
  shows "ring_bytes r' = ring_bytes r @ take n d"
proof (rule nth_equalityI)
  show "length (ring_bytes r') = length (ring_bytes r @ take n d)"
    using n r' by simp
next
  fix i assume "i < length (ring_bytes r')"
  then have i: "i < ring_count r + n" using r' by simp
  note inv = ring_invD [OF inv]
  let ?c = "ring_capacity r" and ?k = "(ring_tail r + i) mod ring_capacity r"
  have k: "?k = (if ring_tail r + i < ?c then ring_tail r + i else ring_tail r + i - ?c)"
    using inv i room by (intro mod_once) simp
  have "ring_bytes r' ! i = pbytes b ! ?k"
    using i r' by (simp add: ring_bytes_nth)
  also have "\<dots> = (if ring_head r \<le> ?k \<and> ?k < ring_head r + n then take n d ! (?k - ring_head r)
     else if ?k + ?c < ring_head r + n then take n d ! (?k + ?c - ring_head r)
     else pbytes (ring_buffer r) ! ?k)"
    unfolding b using circle_write_nth [of "pbytes (ring_buffer r)" ?c "ring_head r" "take n d" ?k f]
    using inv n room f by simp
  also have "\<dots> = (ring_bytes r @ take n d) ! i"
  proof (cases "i < ring_count r")
    case True
    then have "\<not> (ring_head r \<le> ?k \<and> ?k < ring_head r + n)" and "\<not> ?k + ?c < ring_head r + n"
      using inv room k by (auto split: if_splits)
    then show ?thesis using True by (auto simp: nth_append ring_bytes_nth)
  next
    case False
    then have "ring_head r \<le> ?k \<and> ?k < ring_head r + n \<and> ?k - ring_head r = i - ring_count r \<or>
        \<not> (ring_head r \<le> ?k \<and> ?k < ring_head r + n) \<and>
        ?k + ?c < ring_head r + n \<and> ?k + ?c - ring_head r = i - ring_count r"
      using inv room i k by (auto split: if_splits)
    then show ?thesis using False i n by (auto simp: nth_append)
  qed
  finally show "ring_bytes r' ! i = (ring_bytes r @ take n d) ! i" .
qed

lemma ring_push_inv:
  assumes inv: "ring_inv r" and room: "ring_count r + n \<le> ring_capacity r" and n: "0 < n"
    and b: "b \<noteq> None" "plen b = ring_capacity r"
  shows "ring_inv (r\<lparr>ring_buffer := b, ring_head := (ring_head r + n) mod ring_capacity r,
      ring_count := ring_count r + n\<rparr>)"
proof -
  note inv = ring_invD [OF inv]
  have "ring_head r + n \<le> 2 * ring_capacity r" using inv room n by auto
  then have "(ring_head r + n) mod ring_capacity r =
      (if ring_head r + n < ring_capacity r then ring_head r + n
       else if ring_head r + n = 2 * ring_capacity r then 0
       else ring_head r + n - ring_capacity r)"
    using mod_once [of "ring_head r + n" "ring_capacity r"] by auto
  then show ?thesis using inv room b by (auto simp: ring_inv_def)
qed

lemma take_ring_bytes:
  assumes inv: "ring_inv r" and k: "k \<le> ring_count r"
  shows "take k (ring_bytes r) =
    take (min k (ring_capacity r - ring_tail r)) (drop (ring_tail r) (pbytes (ring_buffer r))) @
    take (k - min k (ring_capacity r - ring_tail r)) (pbytes (ring_buffer r))"
  using circle_read [of "pbytes (ring_buffer r)" "ring_capacity r" "ring_tail r" k]
    ring_invD [OF inv] k
  by (simp add: ring_bytes_def take_map)

lemma ring_copy_out_eq:
  assumes inv: "ring_inv r" and k: "k \<le> ring_count r" "k \<le> length out"
  shows "ring_copy_out r (ring_tail r) out k = Some (take k (ring_bytes r) @ drop k out)"
proof -
  note i = ring_invD [OF inv]
  let ?c = "ring_capacity r" and ?t = "ring_tail r" and ?m = "pbytes (ring_buffer r)"
  define f where "f = min k (?c - ?t)"
  have fl: "f \<le> k" "?t + f \<le> ?c" "k - f \<le> ?c" using i k by (auto simp: f_def)
  have arith: "sz_sub ?c ?t = ?c - ?t" "sz_sub k f = k - f"
      "(if k < ?c - ?t then k else ?c - ?t) = f"
    using i k fl by (simp_all add: size_simps f_def min_def)
  have r1: "mem_read (ring_buffer r) ?t f = Some (take f (drop ?t ?m))"
    using i fl by (intro mem_read_ok) simp_all
  have r2: "mem_read (ring_buffer r) 0 (k - f) = Some (take (k - f) ?m)"
    using mem_read_ok [of "ring_buffer r" 0 "k - f"] i fl by simp
  have len1: "length (take f (drop ?t ?m)) = f" and len2: "length (take (k - f) ?m) = k - f"
    using i fl by simp_all
  have w1: "user_write out 0 (take f (drop ?t ?m)) = Some (take f (drop ?t ?m) @ drop f out)"
    using len1 fl k by (simp add: user_write_def blit_def)
  have w2: "user_write (take f (drop ?t ?m) @ drop f out) f (take (k - f) ?m)
      = Some (take f (drop ?t ?m) @ take (k - f) ?m @ drop k out)"
    using len1 len2 fl k by (simp add: user_write_def blit_def)
  have "ring_copy_out r ?t out k = Some (take f (drop ?t ?m) @ take (k - f) ?m @ drop k out)"
    using fl by (simp add: ring_copy_out_def Let_def arith r1 r2 w1 w2)
  then show ?thesis using take_ring_bytes [OF inv k(1)] by (simp add: f_def)
qed

lemma ring_advance:
  assumes inv: "ring_inv r" and k: "k \<le> ring_count r" "0 < k"
    and r': "r' = r\<lparr>ring_tail := (ring_tail r + k) mod ring_capacity r,
      ring_count := ring_count r - k\<rparr>"
  shows "ring_inv r'" and "ring_bytes r' = drop k (ring_bytes r)"
proof -
  note i = ring_invD [OF inv]
  have "(ring_tail r + k) mod ring_capacity r =
      (if ring_tail r + k < ring_capacity r then ring_tail r + k
       else ring_tail r + k - ring_capacity r)"
    using i k by (intro mod_once) simp
  then show "ring_inv r'" using i k r' by (auto simp: ring_inv_def)
  show "ring_bytes r' = drop k (ring_bytes r)"
  proof (rule nth_equalityI)
    fix j assume "j < length (ring_bytes r')"
    then have j: "j < ring_count r - k" using r' by simp
    have "((ring_tail r + k) mod ring_capacity r + j) mod ring_capacity r
        = (ring_tail r + (k + j)) mod ring_capacity r"
      by (simp add: mod_add_left_eq add.assoc)
    then show "ring_bytes r' ! j = drop k (ring_bytes r) ! j"
      using j r' by (simp add: ring_bytes_nth)
  qed (simp add: r')
qed

text \<open>
  C5: pushing refines the bounded byte queue: the call is defined (no access outside the buffer),
  keeps the invariant, and appends the bytes, or reports an empty request or a full buffer with the
  queue unchanged, whichever way the data wraps around the end.
\<close>

theorem ring_push_refines:
  assumes inv: "ring_inv r" and d: "n \<le> length d" and sz: "ring_capacity r + n < size_mod"
  shows "\<exists>e r'. zenit_ring_push (Some r) (Some d) n = Some (e, Some r') \<and> ring_inv r' \<and>
    ring_capacity r' = ring_capacity r \<and> ring_footprint r' = ring_footprint r \<and>
    fifo_push (ring_capacity r) (ring_bytes r) (take n d) = (e, ring_bytes r')"
proof (cases "n = 0 \<or> ring_capacity r < ring_count r + n")
  case True
  have "sz_add (ring_count r) n = ring_count r + n"
    using ring_invD [OF inv] sz by (simp add: size_simps)
  then show ?thesis using True inv d
    by (cases "n = 0") (auto simp: zenit_ring_push_def fifo_push_def)
next
  case False
  then have n: "0 < n" and room: "ring_count r + n \<le> ring_capacity r" by simp_all
  from ring_push_runs [OF inv n d room refl] obtain b where
    run: "zenit_ring_push (Some r) (Some d) n =
      Some (ZENIT_OK, Some (r\<lparr>ring_buffer := b,
        ring_head := (ring_head r + n) mod ring_capacity r, ring_count := ring_count r + n\<rparr>))"
    and b: "b \<noteq> None" "paddr b = paddr (ring_buffer r)" "plen b = ring_capacity r"
      "pbytes b = blit (blit (pbytes (ring_buffer r)) (ring_head r)
        (take (min n (ring_capacity r - ring_head r)) (take n d))) 0
        (drop (min n (ring_capacity r - ring_head r)) (take n d))"
    by blast
  show ?thesis
    using run b n d room ring_push_inv [OF inv room n b(1,3)]
      ring_push_bytes [OF inv n d room refl b(4) refl]
    by (auto simp: fifo_push_def ring_footprint_def paddrs_def)
qed

text \<open>
  popping refines the byte queue: the caller's buffer receives the oldest bytes, at most as
  many as asked for, the reported size is their number, and they leave the queue; the error cases
  change nothing.
\<close>

theorem ring_pop_refines:
  assumes inv: "ring_inv r" and d: "min n (ring_count r) \<le> length out"
  shows "\<exists>e r' bs. zenit_ring_pop (Some r) (Some out) (Some n) =
      Some (e, Some r', Some (bs @ drop (length bs) out),
            Some (if e = ZENIT_OK then length bs else n)) \<and>
    ring_inv r' \<and> ring_footprint r' = ring_footprint r \<and>
    fifo_pop (ring_bytes r) n = (e, ring_bytes r', bs)"
proof (cases "n = 0 \<or> ring_count r = 0")
  case True
  then show ?thesis using inv
    by (cases "n = 0") (auto simp: zenit_ring_pop_def fifo_pop_def simp flip: length_0_conv)
next
  case False
  note i = ring_invD [OF inv]
  define k where "k = (if ring_count r < n then ring_count r else n)"
  have k: "k \<le> ring_count r" "0 < k" "k \<le> length out" "k \<le> n"
    using False d by (auto simp: k_def)
  have arith: "sz_add (ring_tail r) k = ring_tail r + k" "sz_sub (ring_count r) k = ring_count r - k"
    using i k by (simp_all add: size_simps)
  note adv = ring_advance [OF inv k(1,2) refl]
  have "ring_bytes r \<noteq> []" using False by (simp flip: length_0_conv)
  moreover have "take n (ring_bytes r) = take k (ring_bytes r)"
      and "drop n (ring_bytes r) = drop k (ring_bytes r)"
    by (simp_all add: k_def)
  ultimately show ?thesis
    using False k i(1) adv
    by (simp add: zenit_ring_pop_def fifo_pop_def k_def [symmetric] arith
        ring_copy_out_eq [OF inv k(1,3)] sz_mod_def ring_footprint_def min_absorb1)
qed

text \<open>
  peeking delivers exactly the result code, bytes and size a pop would deliver, and leaves the
  ring alone.
\<close>

theorem ring_peek_is_pop:
  assumes "ring_inv r"
  shows "zenit_ring_peek (Some r) out sz =
    map_option (\<lambda>(e, r', out', sz'). (e, out', sz')) (zenit_ring_pop (Some r) out sz)"
  using ring_invD(1) [OF assms]
  by (auto simp: zenit_ring_peek_def zenit_ring_pop_def sz_mod_def Let_def
      split: option.splits Option.bind_split)

section \<open>Resizing and ownership\<close>

definition ring_owned :: "('h \<Rightarrow> nat set) \<Rightarrow> 'h zenit_ring_t \<Rightarrow> 'h \<Rightarrow> bool" where
  "ring_owned live r h \<longleftrightarrow>
    allocator_contract (ring_allocator r) live \<and> ring_footprint r \<subseteq> live h \<and>
    ring_self r \<notin> paddrs (ring_buffer r)"

lemma ring_reserve_copy:
  assumes inv: "ring_inv r" and k: "k \<le> ring_count r" "k \<le> length (mbytes nb)" "0 < k"
  shows "(do {
      let avail = sz_sub (ring_capacity r) (ring_tail r);
      let first = (if k < avail then k else avail);
      d1 \<leftarrow> mem_read (ring_buffer r) (ring_tail r) first;
      b1 \<leftarrow> mem_write (Some nb) 0 d1;
      let second = sz_sub k first;
      (if 0 < second
       then do { d2 \<leftarrow> mem_read (ring_buffer r) 0 second; mem_write b1 first d2 }
       else Some b1)
    }) = Some (Some (nb\<lparr>mbytes := take k (ring_bytes r) @ drop k (mbytes nb)\<rparr>))"
proof -
  note i = ring_invD [OF inv]
  let ?c = "ring_capacity r" and ?t = "ring_tail r" and ?m = "pbytes (ring_buffer r)"
  define f where "f = min k (?c - ?t)"
  have fl: "f \<le> k" "?t + f \<le> ?c" "k - f \<le> ?c" using i k by (auto simp: f_def)
  have arith: "sz_sub ?c ?t = ?c - ?t" "sz_sub k f = k - f"
      "(if k < ?c - ?t then k else ?c - ?t) = f"
    using i k fl by (simp_all add: size_simps f_def min_def)
  have r1: "mem_read (ring_buffer r) ?t f = Some (take f (drop ?t ?m))"
    using i fl by (intro mem_read_ok) simp_all
  have r2: "mem_read (ring_buffer r) 0 (k - f) = Some (take (k - f) ?m)"
    using mem_read_ok [of "ring_buffer r" 0 "k - f"] i fl by simp
  have len: "length (take f (drop ?t ?m)) = f" "length (take (k - f) ?m) = k - f"
    using i fl by simp_all
  show ?thesis
    using len fl k take_ring_bytes [OF inv k(1), folded f_def]
    by (simp add: arith r1 r2 mem_write_def blit_def Let_def)
qed

text \<open>
  resizing keeps the oldest bytes that fit (the newest are the ones dropped), replaces the
  buffer without leaking it, and on allocation failure changes neither the ring nor the heap.
\<close>

theorem ring_reserve_keeps_oldest:
  assumes inv: "ring_inv r" and own: "ring_owned live r h"
    and nc: "0 < nc" "2 * nc < size_mod"
  shows "\<exists>e r' h'. zenit_ring_reserve (Some r) nc h = Some (e, Some r', h') \<and>
    ring_inv r' \<and> ring_owned live r' h' \<and>
    live h' = live h - ring_footprint r \<union> ring_footprint r' \<and>
    (e = ZENIT_ERROR_ALLOC \<and> r' = r \<or>
     e = ZENIT_OK \<and> ring_capacity r' = nc \<and> ring_bytes r' = take nc (ring_bytes r))"
proof -
  from own have contract: "allocator_contract (ring_allocator r) live"
    and foot: "ring_footprint r \<subseteq> live h" and self: "ring_self r \<notin> paddrs (ring_buffer r)"
    by (simp_all add: ring_owned_def)
  note i = ring_invD [OF inv]
  show ?thesis
  proof (cases rule: allocator_contract.alloc_cases [OF contract, of nc h, case_names null block])
    case (null h1)
    then show ?thesis using inv own nc by (auto simp: zenit_ring_reserve_def ring_owned_def)
  next
    case (block nb h1)
    define k where "k = (if nc < ring_count r then nc else ring_count r)"
    have k: "k \<le> ring_count r" "k \<le> nc" by (simp_all add: k_def)
    define nb' where "nb' = nb\<lparr>mbytes := take k (ring_bytes r) @ drop k (mbytes nb)\<rparr>"
    have copy: "0 < k \<Longrightarrow> k \<le> length (mbytes nb)" using k block by simp
    have nil: "\<not> 0 < k \<Longrightarrow> nb' = nb" by (simp add: nb'_def)
    have len: "length (mbytes nb') = nc" using k block by (simp add: nb'_def)
    have "paddrs (ring_buffer r) \<subseteq> live h1" using foot block by (auto simp: ring_footprint_def)
    then obtain h2 where h2: "free_fn (ring_allocator r) (paddr (ring_buffer r)) h1 = Some h2"
        "live h2 = live h1 - paddrs (ring_buffer r)"
      by (rule allocator_contract.free_ptr [OF contract])
    let ?r' = "r\<lparr>ring_buffer := Some nb', ring_capacity := nc, ring_tail := 0, ring_head := k,
        ring_count := k\<rparr>"
    have run: "zenit_ring_reserve (Some r) nc h = Some (ZENIT_OK, Some ?r', h2)"
      using nc block(1) h2(1) nil ring_reserve_copy [OF inv k(1) copy]
      by (cases "0 < k")
        (simp_all add: zenit_ring_reserve_def k_def [symmetric] nb'_def [symmetric])
    have inv': "ring_inv ?r'" using nc k len by (simp add: ring_inv_def)
    have bytes: "ring_bytes ?r' = take nc (ring_bytes r)"
    proof (rule nth_equalityI)
      fix j assume "j < length (ring_bytes ?r')"
      then show "ring_bytes ?r' ! j = take nc (ring_bytes r) ! j"
        using k by (simp add: ring_bytes_nth nb'_def nth_append)
    qed (simp add: k_def min_def)
    have fresh: "maddr nb' \<notin> live h" "ring_self r \<in> live h" "ring_self r \<noteq> maddr nb'"
      using block foot by (auto simp: nb'_def ring_footprint_def)
    have "live h2 = live h - ring_footprint r \<union> ring_footprint ?r'"
      using h2(2) block fresh foot self by (auto simp: ring_footprint_def nb'_def)
    moreover have "ring_owned live ?r' h2"
      using contract fresh self foot h2(2) block
      by (auto simp: ring_owned_def ring_footprint_def nb'_def)
    ultimately show ?thesis using run inv' bytes by auto
  qed
qed

text \<open>
  the life cycle: a ring is created empty with the asked capacity and two fresh blocks, or
  \<open>NULL\<close> is returned and nothing leaks; destroying it is defined and gives back exactly the
  heap before its creation.
\<close>

theorem ring_lifecycle:
  assumes contract: "allocator_contract a live" and cap: "2 * capacity < size_mod"
  shows "\<exists>ring h'. zenit_ring_create_with_allocator capacity a h = Some (ring, h') \<and>
    (case ring of
       None \<Rightarrow> live h' = live h
     | Some r \<Rightarrow> 0 < capacity \<and> ring_inv r \<and> ring_owned live r h' \<and> ring_bytes r = [] \<and>
         ring_capacity r = capacity \<and> ring_footprint r \<inter> live h = {} \<and>
         (\<exists>h''. zenit_ring_destroy ring h' = Some h'' \<and> live h'' = live h))"
proof (cases "capacity = 0")
  case True
  then show ?thesis by (simp add: zenit_ring_create_with_allocator_def)
next
  case False
  show ?thesis
  proof (cases rule: allocator_contract.alloc_cases [OF contract, of sizeof_ring h, case_names null block])
    case (null h1)
    then show ?thesis using False by (simp add: zenit_ring_create_with_allocator_def)
  next
    case (block hb h1)
    note hb = this
    show ?thesis
    proof (cases rule: allocator_contract.alloc_zero_cases [OF contract, of 1 capacity h1, case_names null block])
      case (null h2)
      then have "maddr hb \<in> live h2" using hb by simp
      then obtain h3 where "free_fn a (Some (maddr hb)) h2 = Some h3"
          "live h3 = live h2 - {maddr hb}"
        by (rule allocator_contract.free_addr [OF contract])
      then show ?thesis using False hb null
        by (simp add: zenit_ring_create_with_allocator_def)
    next
      case (block buf h2)
      let ?r = "\<lparr>ring_self = maddr hb, ring_buffer = Some buf, ring_capacity = capacity,
          ring_head = 0, ring_tail = 0, ring_count = 0, ring_allocator = a\<rparr>"
      have len: "length (mbytes buf) = capacity"
        using block cap by (simp add: size_simps)
      have "maddr buf \<in> live h2" using block by simp
      then obtain h3 where h3: "free_fn a (Some (maddr buf)) h2 = Some h3"
          "live h3 = live h2 - {maddr buf}"
        by (rule allocator_contract.free_addr [OF contract])
      have "maddr hb \<in> live h3" using h3 block hb by auto
      then obtain h4 where h4: "free_fn a (Some (maddr hb)) h3 = Some h4"
          "live h4 = live h3 - {maddr hb}"
        by (rule allocator_contract.free_addr [OF contract])
      have "zenit_ring_destroy (Some ?r) h2 = Some h4"
        using h3 h4 by (simp add: zenit_ring_destroy_def)
      moreover have "live h4 = live h" using h3 h4 hb block by auto
      moreover have "zenit_ring_create_with_allocator capacity a h = Some (Some ?r, h2)"
        using False hb block by (simp add: zenit_ring_create_with_allocator_def)
      moreover have "ring_owned live ?r h2" and "ring_footprint ?r \<inter> live h = {}"
        using contract hb block by (auto simp: ring_owned_def ring_footprint_def)
      moreover have "ring_inv ?r" and "ring_bytes ?r = []"
        using False cap len by (simp_all add: ring_inv_def ring_bytes_def)
      ultimately show ?thesis using False by auto
    qed
  qed
qed

section \<open>Concrete instances\<close>

text \<open>A ring of four bytes that holds three, wrapped around the end, on a heap of two blocks.\<close>

definition demo_ring :: "c_heap zenit_ring_t" where
  "demo_ring = \<lparr>ring_self = 1, ring_buffer = Some \<lparr>maddr = 2, mbytes = [12, 99, 10, 11]\<rparr>,
     ring_capacity = 4, ring_head = 1, ring_tail = 2, ring_count = 3,
     ring_allocator = ZENIT_ALLOCATOR_DEFAULT\<rparr>"

definition demo_heap :: c_heap where
  "demo_heap = \<lparr>heap_live = [2, 1], heap_script = [], heap_junk = 0\<rparr>"

lemma demo_ring_inv: "ring_inv demo_ring"
  by (simp add: ring_inv_def demo_ring_def size_mod_def)

lemma demo_ring_owned: "ring_owned heap_addrs demo_ring demo_heap"
  using default_contract
  by (simp add: ring_owned_def demo_ring_def demo_heap_def ring_footprint_def heap_addrs_def)

lemma demo_ring_bytes: "ring_bytes demo_ring = [10, 11, 12]"
  by (simp add: ring_bytes_def demo_ring_def upt_rec)

lemma demo_ring_sel: "ring_capacity demo_ring = 4" "ring_count demo_ring = 3"
  by (simp_all add: demo_ring_def)

theorem ring_push_refines_witness:
  "\<exists>e r'. zenit_ring_push (Some demo_ring) (Some [7]) 1 = Some (e, Some r') \<and> ring_inv r' \<and>
    ring_capacity r' = 4 \<and> fifo_push 4 [10, 11, 12] [7] = (e, ring_bytes r')"
  using ring_push_refines [OF demo_ring_inv, of 1 "[7]"]
  by (auto simp: demo_ring_sel demo_ring_bytes size_mod_def)

theorem ring_pop_refines_witness:
  "\<exists>e r' bs. zenit_ring_pop (Some demo_ring) (Some [0, 0]) (Some 2) =
      Some (e, Some r', Some (bs @ drop (length bs) [0, 0]),
            Some (if e = ZENIT_OK then length bs else 2)) \<and>
    ring_inv r' \<and> fifo_pop [10, 11, 12] 2 = (e, ring_bytes r', bs)"
  using ring_pop_refines [OF demo_ring_inv, of 2 "[0, 0]"]
  by (auto simp: demo_ring_sel demo_ring_bytes)

theorem ring_peek_is_pop_witness:
  "zenit_ring_peek (Some demo_ring) (Some [0, 0]) (Some 2) =
    map_option (\<lambda>(e, r', out', sz'). (e, out', sz'))
      (zenit_ring_pop (Some demo_ring) (Some [0, 0]) (Some 2))"
  by (rule ring_peek_is_pop [OF demo_ring_inv])

theorem ring_reserve_keeps_oldest_witness:
  "\<exists>e r' h'. zenit_ring_reserve (Some demo_ring) 2 demo_heap = Some (e, Some r', h') \<and>
    (e = ZENIT_ERROR_ALLOC \<and> r' = demo_ring \<or>
     e = ZENIT_OK \<and> ring_capacity r' = 2 \<and> ring_bytes r' = [10, 11])"
  using ring_reserve_keeps_oldest [OF demo_ring_inv demo_ring_owned, of 2]
  by (auto simp: demo_ring_bytes size_mod_def)

theorem ring_lifecycle_witness:
  "\<exists>ring h'. zenit_ring_create_with_allocator 4 ZENIT_ALLOCATOR_DEFAULT demo_heap = Some (ring, h') \<and>
    (case ring of
       None \<Rightarrow> heap_addrs h' = heap_addrs demo_heap
     | Some r \<Rightarrow> (0::nat) < 4 \<and> ring_inv r \<and> ring_owned heap_addrs r h' \<and> ring_bytes r = [] \<and>
         ring_capacity r = 4 \<and> ring_footprint r \<inter> heap_addrs demo_heap = {} \<and>
         (\<exists>h''. zenit_ring_destroy ring h' = Some h'' \<and> heap_addrs h'' = heap_addrs demo_heap))"
  by (rule ring_lifecycle [OF default_contract]) (simp add: size_mod_def)

end
