(* ===== verification/Zenit_Compare.thy ===== *)
theory Zenit_Compare
  imports Zenit_Result
begin

text \<open>
  Comparison callbacks. The heap, the sorting routines and the searches take a C comparator that
  returns a negative, zero or positive \<open>int\<close>; what they rely on is the locale \<open>total_compare\<close>:
  swapping the arguments swaps the sign, and "not greater" is transitive. Exchanging two elements
  of an array is \<open>swap_list\<close>.
\<close>

locale total_compare =
  fixes cmp :: "'a \<Rightarrow> 'a \<Rightarrow> int"
  assumes cmp_flip: "0 < cmp x y \<longleftrightarrow> cmp y x < 0"
    and cmp_trans: "cmp x y \<le> 0 \<Longrightarrow> cmp y z \<le> 0 \<Longrightarrow> cmp x z \<le> 0"
begin

lemma cmp_refl [simp]: "cmp x x \<le> 0"
  using cmp_flip [of x x] by linarith

lemma cmp_total: "\<not> cmp x y \<le> 0 \<Longrightarrow> cmp y x \<le> 0"
  using cmp_flip [of x y] by linarith

lemma cmp_less_trans: "0 < cmp x y \<Longrightarrow> cmp z y \<le> 0 \<Longrightarrow> cmp z x \<le> 0"
  using cmp_trans cmp_total by (meson linorder_not_less)

end

text \<open>The C library's \<open>memcmp\<close>: the difference of the first bytes that differ.\<close>

fun memcmp_bytes :: "byte list \<Rightarrow> byte list \<Rightarrow> int" where
  "memcmp_bytes (x # xs) (y # ys) =
    (if x = y then memcmp_bytes xs ys else int (unat x) - int (unat y))"
| "memcmp_bytes [] (y # ys) = - 1"
| "memcmp_bytes (x # xs) [] = 1"
| "memcmp_bytes [] [] = 0"

lemma memcmp_bytes_flip: "memcmp_bytes y x = - memcmp_bytes x y"
  by (induction x y rule: memcmp_bytes.induct) auto

lemma memcmp_bytes_trans:
  "memcmp_bytes x y \<le> 0 \<Longrightarrow> memcmp_bytes y z \<le> 0 \<Longrightarrow> memcmp_bytes x z \<le> 0"
proof (induction x y arbitrary: z rule: memcmp_bytes.induct)
  case (1 x xs y ys)
  then show ?case by (cases z) (auto simp: word_uint_eq_iff split: if_splits)
next
  case (2 y ys)
  then show ?case by (cases z) auto
next
  case 4
  then show ?case by (cases z) auto
qed simp

interpretation memcmp_order: total_compare memcmp_bytes
proof
  fix x y z
  show "0 < memcmp_bytes x y \<longleftrightarrow> memcmp_bytes y x < 0"
    unfolding memcmp_bytes_flip [of y x] by simp
  show "memcmp_bytes x y \<le> 0 \<Longrightarrow> memcmp_bytes y z \<le> 0 \<Longrightarrow> memcmp_bytes x z \<le> 0"
    by (rule memcmp_bytes_trans)
qed

definition swap_list :: "'a list \<Rightarrow> nat \<Rightarrow> nat \<Rightarrow> 'a list" where
  "swap_list xs i j = xs[i := xs ! j, j := xs ! i]"

lemma length_swap_list [simp]: "length (swap_list xs i j) = length xs"
  by (simp add: swap_list_def)

lemma swap_list_nth:
  "i < length xs \<Longrightarrow> j < length xs \<Longrightarrow> k < length xs \<Longrightarrow>
   swap_list xs i j ! k = (if k = j then xs ! i else if k = i then xs ! j else xs ! k)"
  by (auto simp: swap_list_def nth_list_update)

lemma mset_swap_list [simp]:
  "i < length xs \<Longrightarrow> j < length xs \<Longrightarrow> mset (swap_list xs i j) = mset xs"
  unfolding swap_list_def by (rule mset_swap)

lemma take_swap_list:
  "i < n \<Longrightarrow> j < n \<Longrightarrow> n \<le> length xs \<Longrightarrow> take n (swap_list xs i j) = swap_list (take n xs) i j"
  by (simp add: swap_list_def take_update_swap)

end
