(* ===== verification/Zenit_Interfaces.thy ===== *)
theory Zenit_Interfaces
  imports Zenit_Compare
begin

text \<open>
  The contracts between a container and the components built on it, as locales over a state
  \<open>'s\<close> (container and heap together), its list of elements, and the two operations a client
  calls. \<open>fits s e\<close> is what a push needs of the state and the element (the element has the right
  size and the container can still grow). The laws are proved for the vector and the deque and for the
  stack and the queue on top of them, and for the ring-less clients once, here.
\<close>

text \<open>A client that pushes a list of elements one after the other and stops at the first failure.\<close>

fun run_pushes ::
    "('s \<Rightarrow> byte list \<Rightarrow> bool) \<Rightarrow> ('s \<Rightarrow> byte list \<Rightarrow> (zenit_result_t \<times> 's) option) \<Rightarrow>
     's \<Rightarrow> byte list list \<Rightarrow> 's option" where
  "run_pushes fits push s [] = Some s"
| "run_pushes fits push s (e # es) =
    (if fits s e then
      (case push s e of
         Some (ZENIT_OK, s') \<Rightarrow> run_pushes fits push s' es
       | _ \<Rightarrow> None)
     else None)"

text \<open>A client that pops \<open>n\<close> elements and collects them.\<close>

fun run_pops ::
    "('s \<Rightarrow> (zenit_result_t \<times> 's \<times> byte list) option) \<Rightarrow> nat \<Rightarrow> 's \<Rightarrow>
     (byte list list \<times> 's) option" where
  "run_pops pop 0 s = Some ([], s)"
| "run_pops pop (Suc n) s =
    (case pop s of
       Some (ZENIT_OK, s', x) \<Rightarrow> map_option (\<lambda>(xs, t). (x # xs, t)) (run_pops pop n s')
     | _ \<Rightarrow> None)"

locale back_store =
  fixes ok :: "'s \<Rightarrow> bool"
    and elems :: "'s \<Rightarrow> byte list list"
    and fits :: "'s \<Rightarrow> byte list \<Rightarrow> bool"
    and push :: "'s \<Rightarrow> byte list \<Rightarrow> (zenit_result_t \<times> 's) option"
  assumes push_law: "ok s \<Longrightarrow> fits s e \<Longrightarrow>
    \<exists>r s'. push s e = Some (r, s') \<and> ok s' \<and>
      (r = ZENIT_OK \<and> elems s' = elems s @ [e] \<or> r = ZENIT_ERROR_ALLOC \<and> elems s' = elems s)"
begin

lemma push_appends:
  assumes "ok s" and "fits s e" and "push s e = Some (ZENIT_OK, s')"
  shows "ok s'" and "elems s' = elems s @ [e]"
  using push_law [OF assms(1,2)] assms(3) by auto

lemma run_pushes_appends:
  "ok s \<Longrightarrow> run_pushes fits push s es = Some s' \<Longrightarrow> ok s' \<and> elems s' = elems s @ es"
proof (induction es arbitrary: s)
  case (Cons e es)
  from Cons.prems(2) have f: "fits s e" by (auto split: if_splits)
  with Cons.prems(2) obtain t where t: "push s e = Some (ZENIT_OK, t)"
      and rest: "run_pushes fits push t es = Some s'"
    by (auto split: option.splits prod.splits zenit_error_t.splits)
  from push_appends [OF Cons.prems(1) f t] Cons.IH [OF _ rest] show ?case by simp
qed simp

end

locale lifo_store = back_store +
  fixes pop :: "'s \<Rightarrow> (zenit_result_t \<times> 's \<times> byte list) option"
  assumes pop_last: "ok s \<Longrightarrow> elems s \<noteq> [] \<Longrightarrow>
    \<exists>s'. pop s = Some (ZENIT_OK, s', last (elems s)) \<and> ok s' \<and> elems s' = butlast (elems s)"
    and pop_none: "ok s \<Longrightarrow> elems s = [] \<Longrightarrow> \<exists>x. pop s = Some (ZENIT_ERROR_EMPTY, s, x)"
begin

lemma run_pops_reverses:
  "ok s \<Longrightarrow> elems s = xs @ es \<Longrightarrow>
   \<exists>t. run_pops pop (length es) s = Some (rev es, t) \<and> ok t \<and> elems t = xs"
proof (induction es arbitrary: s rule: rev_induct)
  case (snoc e es)
  then have ne: "elems s \<noteq> []" by simp
  from pop_last [OF snoc.prems(1) ne] snoc.prems(2) obtain s' where
    s': "pop s = Some (ZENIT_OK, s', e)" "ok s'" "elems s' = xs @ es"
    by (auto simp: butlast_append)
  from snoc.IH [OF s'(2,3)] s'(1) show ?case by auto
qed simp

lemma lifo:
  assumes "ok s" and "run_pushes fits push s es = Some s'"
  shows "\<exists>t. run_pops pop (length es) s' = Some (rev es, t) \<and> ok t \<and> elems t = elems s"
  using run_pushes_appends [OF assms] run_pops_reverses by blast

end

locale fifo_store = back_store +
  fixes pop :: "'s \<Rightarrow> (zenit_result_t \<times> 's \<times> byte list) option"
  assumes pop_first: "ok s \<Longrightarrow> elems s \<noteq> [] \<Longrightarrow>
    \<exists>s'. pop s = Some (ZENIT_OK, s', hd (elems s)) \<and> ok s' \<and> elems s' = tl (elems s)"
    and pop_none: "ok s \<Longrightarrow> elems s = [] \<Longrightarrow> \<exists>x. pop s = Some (ZENIT_ERROR_EMPTY, s, x)"
begin

lemma run_pops_in_order:
  "ok s \<Longrightarrow> elems s = xs @ es \<Longrightarrow>
   \<exists>t. run_pops pop (length xs) s = Some (xs, t) \<and> ok t \<and> elems t = es"
proof (induction xs arbitrary: s)
  case (Cons x xs)
  then have ne: "elems s \<noteq> []" by simp
  from pop_first [OF Cons.prems(1) ne] Cons.prems(2) obtain s' where
    s': "pop s = Some (ZENIT_OK, s', x)" "ok s'" "elems s' = xs @ es"
    by auto
  from Cons.IH [OF s'(2,3)] s'(1) show ?case by auto
qed simp

lemma fifo:
  assumes "ok s" and "run_pushes fits push s es = Some s'"
  shows "\<exists>t. run_pops pop (length (elems s)) s' = Some (elems s, t) \<and> ok t \<and> elems t = es"
  using run_pushes_appends [OF assms] run_pops_in_order by blast

lemma fifo_empty:
  assumes "ok s" and "elems s = []" and "run_pushes fits push s es = Some s'"
  shows "\<exists>t. run_pops pop (length es) s' = Some (es, t) \<and> ok t \<and> elems t = []"
  using run_pushes_appends [OF assms(1,3)] assms(2) run_pops_in_order [of s' es "[]"] by simp

end

text \<open>A store that hands out a greatest element first.\<close>

locale prio_store =
  fixes ok :: "'s \<Rightarrow> bool"
    and elems :: "'s \<Rightarrow> byte list multiset"
    and cmp :: "byte list \<Rightarrow> byte list \<Rightarrow> int"
    and pop :: "'s \<Rightarrow> (zenit_result_t \<times> 's \<times> byte list) option"
  assumes pop_max: "ok s \<Longrightarrow> elems s \<noteq> {#} \<Longrightarrow>
    \<exists>s' x. pop s = Some (ZENIT_OK, s', x) \<and> ok s' \<and> elems s = add_mset x (elems s') \<and>
      (\<forall>y \<in># elems s. cmp y x \<le> 0)"
begin

text \<open>Draining the store yields all elements, greatest first.\<close>

lemma run_pops_sorted:
  "ok s \<Longrightarrow> \<exists>ys t. run_pops pop (size (elems s)) s = Some (ys, t) \<and> ok t \<and> elems t = {#} \<and>
    mset ys = elems s \<and> sorted_wrt (\<lambda>x y. cmp y x \<le> 0) ys"
proof (induction "size (elems s)" arbitrary: s)
  case (Suc n)
  then have "elems s \<noteq> {#}" by auto
  with pop_max Suc.prems obtain s' x where
    s': "pop s = Some (ZENIT_OK, s', x)" "ok s'" "elems s = add_mset x (elems s')"
      "\<And>y. y \<in># elems s \<Longrightarrow> cmp y x \<le> 0"
    by blast
  have "n = size (elems s')" using Suc.hyps(2) s'(3) by simp
  from Suc.hyps(1) [OF this s'(2)] obtain ys t where "run_pops pop (size (elems s')) s' = Some (ys, t)" "ok t"
      "elems t = {#}" "mset ys = elems s'" "sorted_wrt (\<lambda>x y. cmp y x \<le> 0) ys"
    by blast
  moreover from this have "\<forall>y \<in> set ys. cmp y x \<le> 0" using s' by (auto simp flip: set_mset_mset)
  ultimately show ?case using s' by auto
qed auto

end

text \<open>
  A dictionary of byte strings: a client runs a sequence of insertions and removals, stopping when
  an insertion fails.
\<close>

datatype dict_cmd = DInsert "byte list" "byte list" | DRemove "byte list"

fun dict_effect :: "dict_cmd \<Rightarrow> (byte list \<rightharpoonup> byte list) \<Rightarrow> byte list \<rightharpoonup> byte list" where
  "dict_effect (DInsert k v) m = m(k \<mapsto> v)"
| "dict_effect (DRemove k) m = m(k := None)"

fun run_dict ::
    "('s \<Rightarrow> dict_cmd \<Rightarrow> bool) \<Rightarrow> ('s \<Rightarrow> byte list \<Rightarrow> byte list \<Rightarrow> (zenit_result_t \<times> 's) option) \<Rightarrow>
     ('s \<Rightarrow> byte list \<Rightarrow> (zenit_result_t \<times> 's) option) \<Rightarrow> 's \<Rightarrow> dict_cmd list \<Rightarrow> 's option" where
  "run_dict fits ins rem s [] = Some s"
| "run_dict fits ins rem s (c # cs) =
    (if \<not> fits s c then None else
     case c of
       DInsert k v \<Rightarrow>
         (case ins s k v of Some (ZENIT_OK, s') \<Rightarrow> run_dict fits ins rem s' cs | _ \<Rightarrow> None)
     | DRemove k \<Rightarrow> (case rem s k of Some (_, s') \<Rightarrow> run_dict fits ins rem s' cs | None \<Rightarrow> None))"

locale dict_store =
  fixes ok :: "'s \<Rightarrow> bool"
    and dict :: "'s \<Rightarrow> byte list \<rightharpoonup> byte list"
    and fits :: "'s \<Rightarrow> dict_cmd \<Rightarrow> bool"
    and ins :: "'s \<Rightarrow> byte list \<Rightarrow> byte list \<Rightarrow> (zenit_result_t \<times> 's) option"
    and rem :: "'s \<Rightarrow> byte list \<Rightarrow> (zenit_result_t \<times> 's) option"
  assumes ins_law: "ok s \<Longrightarrow> fits s (DInsert k v) \<Longrightarrow>
      \<exists>r s'. ins s k v = Some (r, s') \<and> ok s' \<and>
        (r = ZENIT_OK \<and> dict s' = (dict s)(k \<mapsto> v) \<or> r = ZENIT_ERROR_ALLOC \<and> dict s' = dict s)"
    and rem_law: "ok s \<Longrightarrow> fits s (DRemove k) \<Longrightarrow>
      \<exists>s'. rem s k = Some (if dict s k = None then ZENIT_ERROR_NOT_FOUND else ZENIT_OK, s') \<and>
        ok s' \<and> dict s' = (dict s)(k := None)"
begin

lemma run_dict_effects:
  "ok s \<Longrightarrow> run_dict fits ins rem s cs = Some s' \<Longrightarrow> ok s' \<and> dict s' = fold dict_effect cs (dict s)"
proof (induction cs arbitrary: s)
  case (Cons c cs)
  then have f: "fits s c" by (auto split: if_splits)
  show ?case
  proof (cases c)
    case (DInsert k v)
    obtain r t where t: "ins s k v = Some (r, t)" "ok t"
        "r = ZENIT_OK \<and> dict t = (dict s)(k \<mapsto> v) \<or> r = ZENIT_ERROR_ALLOC \<and> dict t = dict s"
      using ins_law [OF Cons.prems(1)] f DInsert by blast
    then have "r = ZENIT_OK" "run_dict fits ins rem t cs = Some s'"
      using Cons.prems(2) DInsert by (auto split: if_splits)
    then show ?thesis using Cons.IH [OF t(2)] t(3) DInsert by simp
  next
    case (DRemove k)
    obtain r t where t: "rem s k = Some (r, t)" "ok t" "dict t = (dict s)(k := None)"
      using rem_law [OF Cons.prems(1)] f DRemove by blast
    then have "run_dict fits ins rem t cs = Some s'"
      using Cons.prems(2) DRemove by (auto split: if_splits)
    then show ?thesis using Cons.IH [OF t(2)] t(3) DRemove by (simp add: fun_upd_def)
  qed
qed simp

end

end
