(* ===== verification/Zenit_Vector.thy ===== *)
theory Zenit_Vector
  imports Zenit_Allocator Zenit_Interfaces
begin

text \<open>
  The dynamic array (\<open>include/libzenit/vector.h\<close>, \<open>src/vector.c\<close>): the struct, every
  operation over the byte buffer, and the refinement of a list of elements. An element is a run of
  \<open>elem_size\<close> bytes; a pointer into the buffer is its byte offset.
\<close>

section \<open>State and operations\<close>

record 'h zenit_vector_t =
  vec_self :: nat
  vec_buffer :: ptr
  vec_elem_size :: nat
  vec_count :: nat
  vec_capacity :: nat
  vec_allocator :: "'h zenit_allocator_t"

definition sizeof_vector :: nat where
  "sizeof_vector = 64"

definition vector_realloc_buffer ::
    "'h zenit_vector_t \<Rightarrow> nat \<Rightarrow> 'h \<Rightarrow> (zenit_result_t \<times> 'h zenit_vector_t \<times> 'h) option" where
  "vector_realloc_buffer v new_cap h =
    (if new_cap = 0 then do {
       h1 \<leftarrow> free_fn (vec_allocator v) (paddr (vec_buffer v)) h;
       Some (ZENIT_OK, v\<lparr>vec_buffer := None, vec_capacity := 0\<rparr>, h1)
     } else do {
       (q, h1) \<leftarrow> zenit_allocator_realloc (vec_allocator v) (vec_buffer v)
                   (sz_mul (vec_capacity v) (vec_elem_size v)) (sz_mul new_cap (vec_elem_size v)) h;
       (case q of
          None \<Rightarrow> Some (ZENIT_ERROR_ALLOC, v, h1)
        | Some _ \<Rightarrow> Some (ZENIT_OK, v\<lparr>vec_buffer := q, vec_capacity := new_cap\<rparr>, h1))
     })"

definition vector_grow ::
    "'h zenit_vector_t \<Rightarrow> nat \<Rightarrow> 'h \<Rightarrow> (zenit_result_t \<times> 'h zenit_vector_t \<times> 'h) option" where
  "vector_grow v min_capacity h = do {
     new_cap \<leftarrow> grow_cap (vec_capacity v) min_capacity;
     vector_realloc_buffer v new_cap h
   }"

definition zenit_vector_create_with_allocator ::
    "nat \<Rightarrow> 'h zenit_allocator_t \<Rightarrow> 'h \<Rightarrow> 'h zenit_vector_t option \<times> 'h" where
  "zenit_vector_create_with_allocator elem_size a h =
    (if elem_size = 0 then (None, h)
     else case alloc_fn a sizeof_vector h of
       (None, h1) \<Rightarrow> (None, h1)
     | (Some v, h1) \<Rightarrow>
         (Some \<lparr>vec_self = maddr v, vec_buffer = None, vec_elem_size = elem_size, vec_count = 0,
                vec_capacity = 0, vec_allocator = a\<rparr>, h1))"

definition zenit_vector_create :: "nat \<Rightarrow> c_heap \<Rightarrow> c_heap zenit_vector_t option \<times> c_heap" where
  "zenit_vector_create elem_size = zenit_vector_create_with_allocator elem_size ZENIT_ALLOCATOR_DEFAULT"

definition zenit_vector_create_with_capacity_and_allocator ::
    "nat \<Rightarrow> nat \<Rightarrow> 'h zenit_allocator_t \<Rightarrow> 'h \<Rightarrow> ('h zenit_vector_t option \<times> 'h) option" where
  "zenit_vector_create_with_capacity_and_allocator elem_size capacity a h =
    (if elem_size = 0 \<or> capacity = 0 then Some (None, h)
     else case alloc_fn a sizeof_vector h of
       (None, h1) \<Rightarrow> Some (None, h1)
     | (Some v, h1) \<Rightarrow>
         (case alloc_fn a (sz_mul capacity elem_size) h1 of
            (None, h2) \<Rightarrow> do { h3 \<leftarrow> free_fn a (Some (maddr v)) h2; Some (None, h3) }
          | (Some buf, h2) \<Rightarrow>
              Some (Some \<lparr>vec_self = maddr v, vec_buffer = Some buf, vec_elem_size = elem_size,
                      vec_count = 0, vec_capacity = capacity, vec_allocator = a\<rparr>, h2)))"

definition zenit_vector_create_with_capacity ::
    "nat \<Rightarrow> nat \<Rightarrow> c_heap \<Rightarrow> (c_heap zenit_vector_t option \<times> c_heap) option" where
  "zenit_vector_create_with_capacity elem_size capacity =
    zenit_vector_create_with_capacity_and_allocator elem_size capacity ZENIT_ALLOCATOR_DEFAULT"

definition zenit_vector_destroy :: "'h zenit_vector_t option \<Rightarrow> 'h \<Rightarrow> 'h option" where
  "zenit_vector_destroy vector h =
    (case vector of None \<Rightarrow> Some h
     | Some v \<Rightarrow> do {
         h1 \<leftarrow> free_fn (vec_allocator v) (paddr (vec_buffer v)) h;
         free_fn (vec_allocator v) (Some (vec_self v)) h1
       })"

text \<open>The common step of \<open>push\<close> and \<open>insert\<close>: grow when the buffer is full.\<close>

definition vector_make_room ::
    "'h zenit_vector_t \<Rightarrow> nat \<Rightarrow> 'h \<Rightarrow> (zenit_result_t \<times> 'h zenit_vector_t \<times> 'h) option" where
  "vector_make_room v min_capacity h =
    (if vec_count v = vec_capacity v then vector_grow v min_capacity h else Some (ZENIT_OK, v, h))"

definition zenit_vector_push ::
    "'h zenit_vector_t option \<Rightarrow> byte list option \<Rightarrow> 'h \<Rightarrow>
     (zenit_result_t \<times> 'h zenit_vector_t option \<times> 'h) option" where
  "zenit_vector_push vector elem h =
    (case (vector, elem) of
       (Some v, Some e) \<Rightarrow> do {
         (r, v1, h1) \<leftarrow> vector_make_room v (sz_add (vec_capacity v) 1) h;
         if r \<noteq> ZENIT_OK then Some (r, Some v1, h1)
         else do {
           x \<leftarrow> user_read e (vec_elem_size v1);
           b \<leftarrow> mem_write (vec_buffer v1) (sz_mul (vec_count v1) (vec_elem_size v1)) x;
           Some (ZENIT_OK, Some (v1\<lparr>vec_buffer := b, vec_count := sz_add (vec_count v1) 1\<rparr>), h1)
         }
       }
     | _ \<Rightarrow> Some (ZENIT_ERROR_NULL, vector, h))"

definition zenit_vector_pop ::
    "'h zenit_vector_t option \<Rightarrow> byte list option \<Rightarrow>
     (zenit_result_t \<times> 'h zenit_vector_t option \<times> byte list option) option" where
  "zenit_vector_pop vector out =
    (case (vector, out) of
       (Some v, Some d) \<Rightarrow>
         if vec_count v = 0 then Some (ZENIT_ERROR_EMPTY, vector, out)
         else do {
           let n = sz_sub (vec_count v) 1;
           x \<leftarrow> mem_read (vec_buffer v) (sz_mul n (vec_elem_size v)) (vec_elem_size v);
           d' \<leftarrow> user_write d 0 x;
           Some (ZENIT_OK, Some (v\<lparr>vec_count := n\<rparr>), Some d')
         }
     | _ \<Rightarrow> Some (ZENIT_ERROR_NULL, vector, out))"

definition zenit_vector_insert ::
    "'h zenit_vector_t option \<Rightarrow> nat \<Rightarrow> byte list option \<Rightarrow> 'h \<Rightarrow>
     (zenit_result_t \<times> 'h zenit_vector_t option \<times> 'h) option" where
  "zenit_vector_insert vector index elem h =
    (case (vector, elem) of
       (Some v, Some e) \<Rightarrow>
         if vec_count v < index then Some (ZENIT_ERROR_PARAM, vector, h)
         else do {
           (r, v1, h1) \<leftarrow> vector_make_room v (sz_add (vec_count v) 1) h;
           if r \<noteq> ZENIT_OK then Some (r, Some v1, h1)
           else do {
             let es = vec_elem_size v1;
             b1 \<leftarrow> (if index < vec_count v1
                   then do {
                     d \<leftarrow> mem_read (vec_buffer v1) (sz_mul index es)
                           (sz_mul (sz_sub (vec_count v1) index) es);
                     mem_write (vec_buffer v1) (sz_mul (sz_add index 1) es) d
                   }
                   else Some (vec_buffer v1));
             x \<leftarrow> user_read e es;
             b2 \<leftarrow> mem_write b1 (sz_mul index es) x;
             Some (ZENIT_OK, Some (v1\<lparr>vec_buffer := b2, vec_count := sz_add (vec_count v1) 1\<rparr>), h1)
           }
         }
     | _ \<Rightarrow> Some (ZENIT_ERROR_NULL, vector, h))"

definition zenit_vector_remove ::
    "'h zenit_vector_t option \<Rightarrow> nat \<Rightarrow> byte list option \<Rightarrow>
     (zenit_result_t \<times> 'h zenit_vector_t option \<times> byte list option) option" where
  "zenit_vector_remove vector index out =
    (case (vector, out) of
       (Some v, Some d) \<Rightarrow>
         if vec_count v \<le> index then Some (ZENIT_ERROR_PARAM, vector, out)
         else do {
           let es = vec_elem_size v;
           x \<leftarrow> mem_read (vec_buffer v) (sz_mul index es) es;
           d' \<leftarrow> user_write d 0 x;
           b \<leftarrow> (if sz_add index 1 < vec_count v
                then do {
                  s \<leftarrow> mem_read (vec_buffer v) (sz_mul (sz_add index 1) es)
                        (sz_mul (sz_sub (sz_sub (vec_count v) index) 1) es);
                  mem_write (vec_buffer v) (sz_mul index es) s
                }
                else Some (vec_buffer v));
           Some (ZENIT_OK, Some (v\<lparr>vec_buffer := b, vec_count := sz_sub (vec_count v) 1\<rparr>), Some d')
         }
     | _ \<Rightarrow> Some (ZENIT_ERROR_NULL, vector, out))"

definition zenit_vector_get :: "'h zenit_vector_t option \<Rightarrow> nat \<Rightarrow> nat option" where
  "zenit_vector_get vector index =
    (case vector of None \<Rightarrow> None
     | Some v \<Rightarrow> if vec_count v \<le> index then None else Some (sz_mul index (vec_elem_size v)))"

definition zenit_vector_set ::
    "'h zenit_vector_t option \<Rightarrow> nat \<Rightarrow> byte list option \<Rightarrow>
     (zenit_result_t \<times> 'h zenit_vector_t option) option" where
  "zenit_vector_set vector index elem =
    (case (vector, elem) of
       (Some v, Some e) \<Rightarrow>
         if vec_count v \<le> index then Some (ZENIT_ERROR_PARAM, vector)
         else do {
           x \<leftarrow> user_read e (vec_elem_size v);
           b \<leftarrow> mem_write (vec_buffer v) (sz_mul index (vec_elem_size v)) x;
           Some (ZENIT_OK, Some (v\<lparr>vec_buffer := b\<rparr>))
         }
     | _ \<Rightarrow> Some (ZENIT_ERROR_NULL, vector))"

definition zenit_vector_count :: "'h zenit_vector_t option \<Rightarrow> nat" where
  "zenit_vector_count vector = (case vector of None \<Rightarrow> 0 | Some v \<Rightarrow> vec_count v)"

definition zenit_vector_capacity :: "'h zenit_vector_t option \<Rightarrow> nat" where
  "zenit_vector_capacity vector = (case vector of None \<Rightarrow> 0 | Some v \<Rightarrow> vec_capacity v)"

definition zenit_vector_reserve ::
    "'h zenit_vector_t option \<Rightarrow> nat \<Rightarrow> 'h \<Rightarrow>
     (zenit_result_t \<times> 'h zenit_vector_t option \<times> 'h) option" where
  "zenit_vector_reserve vector capacity h =
    (case vector of
       None \<Rightarrow> Some (ZENIT_ERROR_NULL, None, h)
     | Some v \<Rightarrow> if capacity \<le> vec_capacity v then Some (ZENIT_OK, vector, h)
         else map_option (\<lambda>(r, v', h'). (r, Some v', h')) (vector_realloc_buffer v capacity h))"

definition zenit_vector_shrink_to_fit ::
    "'h zenit_vector_t option \<Rightarrow> 'h \<Rightarrow> (zenit_result_t \<times> 'h zenit_vector_t option \<times> 'h) option" where
  "zenit_vector_shrink_to_fit vector h =
    (case vector of
       None \<Rightarrow> Some (ZENIT_ERROR_NULL, None, h)
     | Some v \<Rightarrow> if vec_count v = vec_capacity v then Some (ZENIT_OK, vector, h)
         else map_option (\<lambda>(r, v', h'). (r, Some v', h')) (vector_realloc_buffer v (vec_count v) h))"

definition zenit_vector_clear :: "'h zenit_vector_t option \<Rightarrow> 'h zenit_vector_t option" where
  "zenit_vector_clear vector = map_option (\<lambda>v. v\<lparr>vec_count := 0\<rparr>) vector"

definition zenit_vector_empty :: "'h zenit_vector_t option \<Rightarrow> bool" where
  "zenit_vector_empty vector = (case vector of None \<Rightarrow> True | Some v \<Rightarrow> vec_count v = 0)"

definition zenit_vector_iter :: "'h zenit_vector_t option \<Rightarrow> zenit_iter_t" where
  "zenit_vector_iter vector =
    \<lparr>iter_index = 0, iter_count = (case vector of None \<Rightarrow> 0 | Some v \<Rightarrow> vec_count v),
     iter_is_valid = (vector \<noteq> None)\<rparr>"

text \<open>\<open>iter_next\<close> on the iterator's container: the offset of the element, or \<open>NULL\<close> at the end.\<close>

definition zenit_vector_iter_next ::
    "'h zenit_vector_t \<Rightarrow> zenit_iter_t option \<Rightarrow> nat option \<times> zenit_iter_t option" where
  "zenit_vector_iter_next v iter =
    (case iter of None \<Rightarrow> (None, None)
     | Some it \<Rightarrow>
        if \<not> iter_is_valid it then (None, iter)
        else if iter_count it \<le> iter_index it then (None, iter)
        else (Some (sz_mul (iter_index it) (vec_elem_size v)),
              Some (it\<lparr>iter_index := sz_add (iter_index it) 1\<rparr>)))"

definition zenit_vector_data :: "'h zenit_vector_t option \<Rightarrow> ptr" where
  "zenit_vector_data vector = (case vector of None \<Rightarrow> None | Some v \<Rightarrow> vec_buffer v)"

section \<open>Invariant and abstraction\<close>

definition vec_inv :: "'h zenit_vector_t \<Rightarrow> bool" where
  "vec_inv v \<longleftrightarrow>
    0 < vec_elem_size v \<and> vec_capacity v * vec_elem_size v < size_mod \<and>
    plen (vec_buffer v) = vec_capacity v * vec_elem_size v \<and>
    (vec_buffer v = None \<longleftrightarrow> vec_capacity v = 0) \<and> vec_count v \<le> vec_capacity v"

definition vec_list :: "'h zenit_vector_t \<Rightarrow> byte list list" where
  "vec_list v = slots (vec_elem_size v) (pbytes (vec_buffer v)) (vec_count v)"

definition vec_owned :: "('h \<Rightarrow> nat set) \<Rightarrow> 'h zenit_vector_t \<Rightarrow> 'h \<Rightarrow> bool" where
  "vec_owned live v h \<longleftrightarrow> owned (vec_allocator v) live (vec_self v) (vec_buffer v) h"

lemma length_vec_list [simp]: "length (vec_list v) = vec_count v"
  by (simp add: vec_list_def)

lemma vec_invD:
  assumes "vec_inv v"
  shows "0 < vec_elem_size v" "vec_capacity v * vec_elem_size v < size_mod"
    "plen (vec_buffer v) = vec_capacity v * vec_elem_size v"
    "vec_buffer v = None \<longleftrightarrow> vec_capacity v = 0" "vec_count v \<le> vec_capacity v"
  using assms by (simp_all add: vec_inv_def)

section \<open>Growing\<close>

text \<open>What every step that may replace the buffer keeps: invariant, ownership and no leak.\<close>

definition vec_keeps ::
    "('h \<Rightarrow> nat set) \<Rightarrow> 'h zenit_vector_t \<Rightarrow> 'h \<Rightarrow> 'h zenit_vector_t \<Rightarrow> 'h \<Rightarrow> bool" where
  "vec_keeps live v h v' h' \<longleftrightarrow>
    vec_inv v' \<and> vec_owned live v' h' \<and> vec_elem_size v' = vec_elem_size v \<and>
    vec_self v' = vec_self v \<and> vec_allocator v' = vec_allocator v \<and>
    paddrs (vec_buffer v') \<inter> (live h - paddrs (vec_buffer v)) = {} \<and>
    live h' = live h - paddrs (vec_buffer v) \<union> paddrs (vec_buffer v')"

lemma vector_realloc_ok:
  assumes inv: "vec_inv v" and own: "vec_owned live v h"
    and nc: "0 < nc" "vec_count v \<le> nc" "nc * vec_elem_size v < size_mod"
  obtains (null) h' where "vector_realloc_buffer v nc h = Some (ZENIT_ERROR_ALLOC, v, h')"
      and "vec_keeps live v h v h'"
  | (grown) v' h' where "vector_realloc_buffer v nc h = Some (ZENIT_OK, v', h')"
      and "vec_keeps live v h v' h'" and "vec_list v' = vec_list v"
      and "vec_capacity v' = nc" and "vec_count v' = vec_count v"
proof -
  note i = vec_invD [OF inv]
  let ?es = "vec_elem_size v"
  have n: "0 < nc * ?es" using nc i by simp
  have sz: "sz_mul (vec_capacity v) ?es = plen (vec_buffer v)" "sz_mul nc ?es = nc * ?es"
    using i nc by (simp_all add: size_simps)
  have own': "owned (vec_allocator v) live (vec_self v) (vec_buffer v) h"
    using own by (simp add: vec_owned_def)
  show thesis
  proof (cases rule: owned_realloc [OF own' n, case_names null block])
    case (null h')
    then show thesis
      using nc inv sz that(1) [of h'] own'
      by (auto simp: vector_realloc_buffer_def vec_keeps_def vec_owned_def owned_def)
  next
    case (block b h')
    let ?v = "v\<lparr>vec_buffer := Some b, vec_capacity := nc\<rparr>"
    have run: "vector_realloc_buffer v nc h = Some (ZENIT_OK, ?v, h')"
      using block(1) nc sz by (simp add: vector_realloc_buffer_def)
    have keep: "vec_keeps live v h ?v h'"
      using block i nc by (simp add: vec_keeps_def vec_inv_def vec_owned_def)
    have "slot ?es (mbytes b) j = slot ?es (pbytes (vec_buffer v)) j" if "j < vec_count v" for j
    proof (rule slot_cong_prefix [OF block(5)])
      have "j * ?es + ?es \<le> vec_count v * ?es" using that by (rule slot_block_le)
      moreover have "vec_count v * ?es \<le> nc * ?es" "vec_count v * ?es \<le> vec_capacity v * ?es"
        using nc i by (simp_all add: mult_le_mono1)
      ultimately show "j * ?es + ?es \<le> min (nc * ?es) (plen (vec_buffer v))" using i by linarith
    qed
    then have "vec_list ?v = vec_list v" by (simp add: vec_list_def slots_def)
    then show thesis using run keep by (intro that(2) [of ?v h']) simp_all
  qed
qed

text \<open>A vector that is not stuck: growing it by one reaches a new capacity without overflow.\<close>

definition vec_can_grow :: "'h zenit_vector_t \<Rightarrow> bool" where
  "vec_can_grow v \<longleftrightarrow>
    vec_count v < vec_capacity v \<or>
    vec_capacity v \<noteq> 1 \<and> grown (vec_capacity v) * vec_elem_size v < size_mod"

lemma vector_make_room_ok:
  assumes inv: "vec_inv v" and own: "vec_owned live v h" and grow: "vec_can_grow v"
    and m: "m = vec_capacity v"
  obtains (null) h' where "vector_make_room v (sz_add m 1) h = Some (ZENIT_ERROR_ALLOC, v, h')"
      and "vec_keeps live v h v h'"
  | (room) v' h' where "vector_make_room v (sz_add m 1) h = Some (ZENIT_OK, v', h')"
      and "vec_keeps live v h v' h'" and "vec_list v' = vec_list v"
      and "vec_count v' < vec_capacity v'" and "vec_count v' = vec_count v"
proof (cases "vec_count v = vec_capacity v")
  case False
  then have "vec_count v < vec_capacity v" using vec_invD(5) [OF inv] by simp
  then show thesis using False inv own
    by (intro that(2) [of v h])
      (auto simp: vector_make_room_def vec_keeps_def vec_owned_def owned_def)
next
  case True
  note i = vec_invD [OF inv]
  from True grow have g: "vec_capacity v \<noteq> 1" "grown (vec_capacity v) * vec_elem_size v < size_mod"
    by (simp_all add: vec_can_grow_def)
  have lt: "vec_capacity v < grown (vec_capacity v)" "grown (vec_capacity v) < size_mod"
    using grown_greater [OF g(1)] factor_less [OF g(2) i(1)] by simp_all
  then have sum: "vec_capacity v + vec_capacity v div 2 < size_mod"
    by (cases "vec_capacity v = 0") (simp_all add: grown_def)
  have "sz_add m 1 = vec_capacity v + 1" using lt m by (simp add: size_simps)
  then have eq: "vector_make_room v (sz_add m 1) h =
      vector_realloc_buffer v (grown (vec_capacity v)) h"
    using True grow_cap_one_more [OF g(1) sum] by (simp add: vector_make_room_def vector_grow_def)
  have le: "0 < grown (vec_capacity v)" "vec_count v \<le> grown (vec_capacity v)"
    using lt i by simp_all
  show thesis
  proof (cases rule: vector_realloc_ok [OF inv own le g(2), case_names null grown])
    case (null h')
    then show thesis using that(1) [of h'] eq by simp
  next
    case (grown v' h')
    then show thesis using that(2) [of v' h'] eq lt True by simp
  qed
qed

section \<open>Refinement of lists\<close>

lemma vec_offset:
  assumes "vec_inv v" and "i \<le> vec_capacity v"
  shows "sz_mul i (vec_elem_size v) = i * vec_elem_size v"
  using sz_mul_le(1) [OF vec_invD(2) [OF assms(1)] assms(2)] .

lemma vec_capacity_less: "vec_inv v \<Longrightarrow> vec_capacity v < size_mod"
  using vec_invD(1,2) factor_less by blast

lemma vec_buffer_Some:
  assumes "vec_inv v" and "0 < vec_capacity v"
  obtains b where "vec_buffer v = Some b"
    and "length (mbytes b) = vec_capacity v * vec_elem_size v"
  using vec_invD(3,4) [OF assms(1)] assms(2) that by (cases "vec_buffer v") auto

text \<open>Replacing the buffer's content in place keeps invariant and ownership.\<close>

lemma vec_keeps_write:
  assumes keep: "vec_keeps live v h v1 h1" and b: "vec_buffer v1 = Some b"
    and n: "n \<le> vec_capacity v1" and m: "length m = length (mbytes b)"
  shows "vec_keeps live v h (v1\<lparr>vec_buffer := Some (b\<lparr>mbytes := m\<rparr>), vec_count := n\<rparr>) h1"
  using assms by (auto simp: vec_keeps_def vec_inv_def vec_owned_def owned_def)


text \<open>
  Pushing appends the element, growing the buffer when it is full; on allocation failure the
  vector is as before. The call is defined for every vector that can grow, and nothing leaks.
\<close>

lemma vector_push_refines:
  assumes inv: "vec_inv v" and own: "vec_owned live v h" and grow: "vec_can_grow v"
    and e: "vec_elem_size v \<le> length e"
  shows "\<exists>r v' h'. zenit_vector_push (Some v) (Some e) h = Some (r, Some v', h') \<and>
    vec_keeps live v h v' h' \<and>
    (r = ZENIT_ERROR_ALLOC \<and> v' = v \<or>
     r = ZENIT_OK \<and> vec_list v' = vec_list v @ [take (vec_elem_size v) e])"
proof (cases rule: vector_make_room_ok [OF inv own grow refl, case_names null room])
  case (null h')
  then show ?thesis by (simp add: zenit_vector_push_def)
next
  case (room v1 h1)
  from room(2) have inv1: "vec_inv v1" and es: "vec_elem_size v1 = vec_elem_size v"
    by (simp_all add: vec_keeps_def)
  let ?es = "vec_elem_size v" and ?n = "vec_count v1"
  from room(4) obtain b where b: "vec_buffer v1 = Some b"
      "length (mbytes b) = vec_capacity v1 * ?es"
    using vec_buffer_Some [OF inv1] es by auto
  have nb: "?n * ?es + ?es \<le> length (mbytes b)" unfolding b(2) using room(4) by (rule slot_block_le)
  have arith: "sz_mul ?n ?es = ?n * ?es" "sz_add ?n 1 = Suc ?n"
    using vec_offset [OF inv1] room(4) vec_capacity_less [OF inv1] es by (simp_all add: size_simps)
  let ?m = "blit (mbytes b) (?n * ?es) (take ?es e)"
  have run: "zenit_vector_push (Some v) (Some e) h =
      Some (ZENIT_OK, Some (v1\<lparr>vec_buffer := Some (b\<lparr>mbytes := ?m\<rparr>), vec_count := Suc ?n\<rparr>), h1)"
    using room(1) e nb by (simp add: zenit_vector_push_def es arith b(1) user_read_def mem_write_def)
  have "slots ?es ?m (Suc ?n) = slots ?es (mbytes b) ?n @ [take ?es e]"
    using e nb by (intro slots_blit_last) simp_all
  moreover have "vec_keeps live v h
      (v1\<lparr>vec_buffer := Some (b\<lparr>mbytes := ?m\<rparr>), vec_count := Suc ?n\<rparr>) h1"
    using room(4) nb e by (intro vec_keeps_write [OF room(2) b(1)]) simp_all
  ultimately show ?thesis using run room(3) es b(1) by (simp add: vec_list_def)
qed

text \<open>
  removing returns the element at the index and closes the gap; an index at or past the count
  is refused. Popping is removing the last element.
\<close>

theorem vector_remove_refines:
  assumes inv: "vec_inv v" and out: "vec_elem_size v \<le> length out"
  shows "\<exists>r v' out'. zenit_vector_remove (Some v) i (Some out) = Some (r, Some v', Some out') \<and>
    vec_inv v' \<and> paddr (vec_buffer v') = paddr (vec_buffer v) \<and>
    (if vec_count v \<le> i then r = ZENIT_ERROR_PARAM \<and> v' = v \<and> out' = out
     else r = ZENIT_OK \<and> out' = vec_list v ! i @ drop (vec_elem_size v) out \<and>
       vec_list v' = take i (vec_list v) @ drop (Suc i) (vec_list v))"
proof (cases "vec_count v \<le> i")
  case True
  then show ?thesis using inv by (simp add: zenit_vector_remove_def)
next
  case False
  then have i: "i < vec_count v" by simp
  note i1 = vec_invD [OF inv]
  let ?es = "vec_elem_size v" and ?n = "vec_count v"
  from i i1(5) obtain b where b: "vec_buffer v = Some b"
      "length (mbytes b) = vec_capacity v * ?es"
    using vec_buffer_Some [OF inv] by auto
  have fits: "?n * ?es \<le> length (mbytes b)" unfolding b(2) using i1(5) by (rule mult_le_mono1)
  have ib: "i * ?es + ?es \<le> length (mbytes b)" using slot_fits [OF i fits] .
  have arith: "sz_mul i ?es = i * ?es" "sz_mul (Suc i) ?es = Suc i * ?es" "sz_add i 1 = Suc i"
      "sz_mul (sz_sub (sz_sub ?n i) 1) ?es = (?n - Suc i) * ?es" "sz_sub ?n 1 = ?n - 1"
    using vec_offset [OF inv] i i1(5) vec_capacity_less [OF inv]
    by (simp_all add: size_simps add_mult_distrib One_nat_def)
  have sum: "Suc i * ?es + (?n - Suc i) * ?es = ?n * ?es"
    using i by (simp only: add_mult_distrib [symmetric]) simp
  define g where "g = take ((?n - Suc i) * ?es) (drop (Suc i * ?es) (mbytes b))"
  have gl: "length g = (?n - Suc i) * ?es" using sum fits by (simp add: g_def)
  define m1 where "m1 = blit (mbytes b) (i * ?es) g"
  have fit: "i * ?es + length g \<le> length (mbytes b)" using sum gl fits by simp
  have mv: "mem_read (Some b) (Suc i * ?es) ((?n - Suc i) * ?es) = Some g"
      "mem_write (Some b) (i * ?es) g = Some (Some (b\<lparr>mbytes := m1\<rparr>))"
    using sum fits fit by (simp_all add: mem_read_def g_def) (simp add: mem_write_def m1_def g_def)
  have stay: "\<not> Suc i < ?n \<Longrightarrow> b\<lparr>mbytes := m1\<rparr> = b" using gl i by (simp add: m1_def)
  have rd: "mem_read (Some b) (i * ?es) ?es = Some (slot ?es (mbytes b) i)"
    using ib by (simp add: mem_read_def slot_def)
  have run: "zenit_vector_remove (Some v) i (Some out) =
      Some (ZENIT_OK, Some (v\<lparr>vec_buffer := Some (b\<lparr>mbytes := m1\<rparr>), vec_count := ?n - 1\<rparr>),
        Some (slot ?es (mbytes b) i @ drop ?es out))"
    using False out rd mv stay
    by (cases "Suc i < ?n")
      (simp_all add: zenit_vector_remove_def arith b(1) user_write_def blit_def Let_def ib)
  have "slots ?es m1 (?n - 1) = take i (slots ?es (mbytes b) ?n) @ drop (Suc i) (slots ?es (mbytes b) ?n)"
    using i fits by (rule slots_remove) (simp add: m1_def g_def)
  moreover have "vec_inv (v\<lparr>vec_buffer := Some (b\<lparr>mbytes := m1\<rparr>), vec_count := ?n - 1\<rparr>)"
    using i1 b fit by (simp add: vec_inv_def m1_def)
  ultimately show ?thesis using run False b(1) i by (simp add: vec_list_def)
qed

lemma vector_pop_refines:
  assumes inv: "vec_inv v" and out: "vec_elem_size v \<le> length out"
  shows "if vec_list v = [] then zenit_vector_pop (Some v) (Some out) =
      Some (ZENIT_ERROR_EMPTY, Some v, Some out)
    else \<exists>v'. zenit_vector_pop (Some v) (Some out) =
      Some (ZENIT_OK, Some v', Some (last (vec_list v) @ drop (vec_elem_size v) out)) \<and>
      vec_inv v' \<and> vec_buffer v' = vec_buffer v \<and> vec_self v' = vec_self v \<and>
      vec_allocator v' = vec_allocator v \<and> vec_elem_size v' = vec_elem_size v \<and>
      vec_list v' = butlast (vec_list v)"
proof (cases "vec_count v = 0")
  case True
  then have "vec_list v = []" by (simp flip: length_0_conv)
  then show ?thesis using True by (simp add: zenit_vector_pop_def)
next
  case False
  note i = vec_invD [OF inv]
  let ?es = "vec_elem_size v"
  obtain n where n: "vec_count v = Suc n" using False by (cases "vec_count v") auto
  from i(5) n obtain b where b: "vec_buffer v = Some b"
      "length (mbytes b) = vec_capacity v * ?es"
    using vec_buffer_Some [OF inv] by auto
  have nb: "n * ?es + ?es \<le> length (mbytes b)" unfolding b(2) using i(5) n by (intro slot_block_le) simp
  have arith: "sz_sub (Suc n) 1 = n" "sz_mul n ?es = n * ?es"
    using vec_offset [OF inv] i(5) n vec_capacity_less [OF inv] by (simp_all add: size_simps)
  have l: "vec_list v = slots ?es (mbytes b) n @ [slot ?es (mbytes b) n]"
    using n b by (simp add: vec_list_def slots_Suc)
  have "zenit_vector_pop (Some v) (Some out) =
      Some (ZENIT_OK, Some (v\<lparr>vec_count := n\<rparr>), Some (slot ?es (mbytes b) n @ drop ?es out))"
    using n nb out
    by (simp add: zenit_vector_pop_def b(1) arith mem_read_def user_write_def blit_def slot_def)
  moreover have "vec_inv (v\<lparr>vec_count := n\<rparr>)" using i n by (simp add: vec_inv_def)
  ultimately show ?thesis using l b(1) by (simp add: vec_list_def)
qed

lemma vector_set_refines:
  assumes inv: "vec_inv v" and e: "vec_elem_size v \<le> length e" and i: "i < vec_count v"
  shows "\<exists>v'. zenit_vector_set (Some v) i (Some e) = Some (ZENIT_OK, Some v') \<and> vec_inv v' \<and>
    vec_list v' = (vec_list v)[i := take (vec_elem_size v) e]"
proof -
  note i1 = vec_invD [OF inv]
  let ?es = "vec_elem_size v"
  from i i1(5) obtain b where b: "vec_buffer v = Some b"
      "length (mbytes b) = vec_capacity v * ?es"
    using vec_buffer_Some [OF inv] by auto
  have fits: "vec_count v * ?es \<le> length (mbytes b)" unfolding b(2) using i1(5) by (rule mult_le_mono1)
  have ib: "i * ?es + ?es \<le> length (mbytes b)" using slot_fits [OF i fits] .
  have "zenit_vector_set (Some v) i (Some e) =
      Some (ZENIT_OK, Some (v\<lparr>vec_buffer := Some (b\<lparr>mbytes := blit (mbytes b) (i * ?es) (take ?es e)\<rparr>)\<rparr>))"
    using i i1(5) ib e vec_offset [OF inv, of i]
    by (simp add: zenit_vector_set_def b(1) user_read_def mem_write_def)
  then show ?thesis using e i fits ib i1 b
    by (simp add: vec_inv_def vec_list_def slots_update)
qed

lemma vector_get_reads:
  assumes inv: "vec_inv v" and i: "i < vec_count v"
  shows "\<exists>p. zenit_vector_get (Some v) i = Some p \<and>
    mem_read (zenit_vector_data (Some v)) p (vec_elem_size v) = Some (vec_list v ! i)"
proof -
  note i1 = vec_invD [OF inv]
  let ?es = "vec_elem_size v"
  from i i1(5) obtain b where b: "vec_buffer v = Some b"
      "length (mbytes b) = vec_capacity v * ?es"
    using vec_buffer_Some [OF inv] by auto
  have ib: "i * ?es + ?es \<le> length (mbytes b)"
    unfolding b(2) using i i1(5) by (intro slot_block_le) simp
  then show ?thesis using i i1(5) b vec_offset [OF inv, of i]
    by (simp add: zenit_vector_get_def zenit_vector_data_def mem_read_def vec_list_def slot_def)
qed

section \<open>Resizing, iteration, life cycle\<close>

text \<open>
  C20: a push on a full vector does not return exactly when the capacity is 1: the growth loop
  computes \<open>1 + 1 / 2 = 1\<close> forever.
\<close>

theorem vector_push_full_diverges_iff:
  assumes inv: "vec_inv v" and own: "vec_owned live v h" and full: "vec_count v = vec_capacity v"
    and sz: "grown (vec_capacity v) * vec_elem_size v < size_mod"
    and e: "vec_elem_size v \<le> length e"
  shows "zenit_vector_push (Some v) (Some e) h = None \<longleftrightarrow> vec_capacity v = 1"
proof
  assume cap: "vec_capacity v = 1"
  have "sz_add (vec_capacity v) 1 = 2" using cap by (simp add: size_simps size_mod_def)
  then show "zenit_vector_push (Some v) (Some e) h = None"
    using full cap grow_cap_stuck [of 2]
    by (simp add: zenit_vector_push_def vector_make_room_def vector_grow_def)
next
  assume none: "zenit_vector_push (Some v) (Some e) h = None"
  show "vec_capacity v = 1"
  proof (rule ccontr)
    assume "vec_capacity v \<noteq> 1"
    then have "vec_can_grow v" using sz by (simp add: vec_can_grow_def)
    from vector_push_refines [OF inv own this e] none show False by auto
  qed
qed

text \<open>
  \<open>zenit_vector_shrink_to_fit\<close> keeps the elements and leaves a capacity equal to the count
  (no buffer at all when the vector is empty), or reports allocation failure and changes nothing.
\<close>

theorem vector_shrink_refines:
  assumes inv: "vec_inv v" and own: "vec_owned live v h"
  shows "\<exists>r v' h'. zenit_vector_shrink_to_fit (Some v) h = Some (r, Some v', h') \<and>
    vec_keeps live v h v' h' \<and> vec_list v' = vec_list v \<and>
    (r = ZENIT_ERROR_ALLOC \<and> v' = v \<or> r = ZENIT_OK \<and> vec_capacity v' = vec_count v)"
proof (cases "vec_count v = vec_capacity v \<or> vec_count v = 0")
  case True
  note i = vec_invD [OF inv]
  show ?thesis
  proof (cases "vec_count v = vec_capacity v")
    case True
    then show ?thesis using inv own
      by (auto simp: zenit_vector_shrink_to_fit_def vec_keeps_def vec_owned_def owned_def)
  next
    case False
    with \<open>_ \<or> _\<close> have z: "vec_count v = 0" by simp
    obtain h1 where h1: "free_fn (vec_allocator v) (paddr (vec_buffer v)) h = Some h1"
        "live h1 = live h - paddrs (vec_buffer v)" "owned (vec_allocator v) live (vec_self v) None h1"
      using own unfolding vec_owned_def by (rule owned_free_buffer)
    let ?v = "v\<lparr>vec_buffer := None, vec_capacity := 0\<rparr>"
    have "zenit_vector_shrink_to_fit (Some v) h = Some (ZENIT_OK, Some ?v, h1)"
      using False z h1(1) by (simp add: zenit_vector_shrink_to_fit_def vector_realloc_buffer_def)
    moreover have "vec_keeps live v h ?v h1" and "vec_list ?v = vec_list v"
      using h1 i(1) z by (simp_all add: vec_keeps_def vec_inv_def vec_owned_def vec_list_def)
    ultimately show ?thesis using z by auto
  qed
next
  case False
  note i = vec_invD [OF inv]
  have sz: "vec_count v * vec_elem_size v < size_mod" using sz_mul_le(3) [OF i(2,5)] .
  have pos: "0 < vec_count v" "vec_count v \<le> vec_count v" using False by simp_all
  show ?thesis
    by (cases rule: vector_realloc_ok [OF inv own pos sz, case_names null grown])
      (use False in \<open>auto simp: zenit_vector_shrink_to_fit_def\<close>)
qed

lemma vector_reserve_refines:
  assumes inv: "vec_inv v" and own: "vec_owned live v h" and sz: "c * vec_elem_size v < size_mod"
  shows "\<exists>r v' h'. zenit_vector_reserve (Some v) c h = Some (r, Some v', h') \<and>
    vec_keeps live v h v' h' \<and> vec_list v' = vec_list v \<and>
    (r = ZENIT_ERROR_ALLOC \<and> v' = v \<or> r = ZENIT_OK \<and> c \<le> vec_capacity v')"
proof (cases "c \<le> vec_capacity v")
  case True
  then show ?thesis using inv own
    by (auto simp: zenit_vector_reserve_def vec_keeps_def vec_owned_def owned_def)
next
  case False
  then have "0 < c" "vec_count v \<le> c" using vec_invD(5) [OF inv] by simp_all
  then show ?thesis
    by (cases rule: vector_realloc_ok [OF inv own _ _ sz, case_names null grown])
      (use False in \<open>auto simp: zenit_vector_reserve_def\<close>)
qed

text \<open>A client loop over the iterator: follow the offsets until \<open>NULL\<close>.\<close>

fun vector_iterate ::
    "nat \<Rightarrow> 'h zenit_vector_t \<Rightarrow> zenit_iter_t \<Rightarrow> byte list list option" where
  "vector_iterate 0 v it = None"
| "vector_iterate (Suc fuel) v it =
    (case zenit_vector_iter_next v (Some it) of
       (None, _) \<Rightarrow> Some []
     | (Some p, Some it') \<Rightarrow> do {
         x \<leftarrow> mem_read (vec_buffer v) p (vec_elem_size v);
         xs \<leftarrow> vector_iterate fuel v it';
         Some (x # xs)
       }
     | (Some _, None) \<Rightarrow> None)"

lemma vector_iterate_from:
  assumes inv: "vec_inv v" and "i \<le> vec_count v" and "vec_count v - i < fuel"
  shows "vector_iterate fuel v \<lparr>iter_index = i, iter_count = vec_count v, iter_is_valid = True\<rparr> =
    Some (drop i (vec_list v))"
  using assms(2,3)
proof (induction fuel arbitrary: i)
  case (Suc fuel)
  note i = vec_invD [OF inv]
  show ?case
  proof (cases "i = vec_count v")
    case True
    then show ?thesis by (simp add: zenit_vector_iter_next_def)
  next
    case False
    then have lt: "i < vec_count v" using Suc.prems by simp
    from vector_get_reads [OF inv lt]
    have rd: "mem_read (vec_buffer v) (sz_mul i (vec_elem_size v)) (vec_elem_size v) =
        Some (vec_list v ! i)"
      using lt by (simp add: zenit_vector_get_def zenit_vector_data_def)
    have "sz_add i 1 = Suc i" using lt i(5) vec_capacity_less [OF inv] by (simp add: size_simps)
    then show ?thesis
      using lt rd Suc.IH [of "Suc i"] Suc.prems Cons_nth_drop_Suc [of i "vec_list v"]
      by (simp add: zenit_vector_iter_next_def)
  qed
qed simp

lemma vector_iterate_all:
  assumes "vec_inv v"
  shows "vector_iterate (Suc (vec_count v)) v (zenit_vector_iter (Some v)) = Some (vec_list v)"
  using vector_iterate_from [OF assms, of 0 "Suc (vec_count v)"]
  by (simp add: zenit_vector_iter_def del: vector_iterate.simps)

lemma vector_destroy_owned:
  assumes "vec_owned live v h"
  shows "\<exists>h'. zenit_vector_destroy (Some v) h = Some h' \<and>
    live h' = live h - insert (vec_self v) (paddrs (vec_buffer v))"
  using assms unfolding vec_owned_def
  by (elim owned_release) (simp add: zenit_vector_destroy_def)

lemma vector_create_empty:
  assumes c: "allocator_contract a live"
    and run: "zenit_vector_create_with_allocator es a h = (Some v, h')"
  shows "vec_inv v \<and> vec_owned live v h' \<and> vec_list v = [] \<and> vec_self v \<notin> live h \<and>
    vec_elem_size v = es \<and> vec_buffer v = None \<and> vec_allocator v = a \<and>
    live h' = insert (vec_self v) (live h)"
proof (cases rule: allocator_contract.alloc_cases [OF c, of sizeof_vector h, case_names null block])
  case (null h1)
  with run show ?thesis by (simp add: zenit_vector_create_with_allocator_def split: if_splits)
next
  case (block b h1)
  with run have "v = \<lparr>vec_self = maddr b, vec_buffer = None, vec_elem_size = es, vec_count = 0,
      vec_capacity = 0, vec_allocator = a\<rparr>" and "h' = h1" and "es \<noteq> 0"
    by (auto simp: zenit_vector_create_with_allocator_def split: if_splits)
  then show ?thesis using block c by (simp add: vec_inv_def vec_owned_def owned_def vec_list_def)
qed

lemma vector_create_null:
  assumes c: "allocator_contract a live"
    and run: "zenit_vector_create_with_allocator es a h = (None, h')"
  shows "live h' = live h"
  using assms
  by (cases rule: allocator_contract.alloc_cases [OF c, of sizeof_vector h, case_names null block])
    (auto simp: zenit_vector_create_with_allocator_def split: if_splits)

section \<open>The vector as a last-in first-out store\<close>

definition vec_ok :: "('h \<Rightarrow> nat set) \<Rightarrow> 'h zenit_vector_t \<times> 'h \<Rightarrow> bool" where
  "vec_ok live s \<longleftrightarrow> vec_inv (fst s) \<and> vec_owned live (fst s) (snd s)"

definition vec_fits :: "'h zenit_vector_t \<times> 'h \<Rightarrow> byte list \<Rightarrow> bool" where
  "vec_fits s e \<longleftrightarrow> vec_can_grow (fst s) \<and> length e = vec_elem_size (fst s)"

definition vec_push_op ::
    "'h zenit_vector_t \<times> 'h \<Rightarrow> byte list \<Rightarrow> (zenit_result_t \<times> 'h zenit_vector_t \<times> 'h) option" where
  "vec_push_op s e =
    map_option (\<lambda>(r, v, h). (r, the v, h)) (zenit_vector_push (Some (fst s)) (Some e) (snd s))"

definition vec_pop_op ::
    "'h zenit_vector_t \<times> 'h \<Rightarrow>
     (zenit_result_t \<times> ('h zenit_vector_t \<times> 'h) \<times> byte list) option" where
  "vec_pop_op s =
    map_option (\<lambda>(r, v, x). (r, (the v, snd s), the x))
      (zenit_vector_pop (Some (fst s)) (Some (replicate (vec_elem_size (fst s)) 0)))"

interpretation vec_store: lifo_store "vec_ok live" "\<lambda>s. vec_list (fst s)" vec_fits vec_push_op vec_pop_op
  for live :: "'h \<Rightarrow> nat set"
proof
  fix s :: "'h zenit_vector_t \<times> 'h" and e
  assume "vec_ok live s" and "vec_fits s e"
  then obtain r v' h' where "zenit_vector_push (Some (fst s)) (Some e) (snd s) = Some (r, Some v', h')"
      "vec_keeps live (fst s) (snd s) v' h'"
      "r = ZENIT_ERROR_ALLOC \<and> v' = fst s \<or>
       r = ZENIT_OK \<and> vec_list v' = vec_list (fst s) @ [take (vec_elem_size (fst s)) e]"
      "length e = vec_elem_size (fst s)"
    using vector_push_refines [of "fst s" live "snd s" e] by (auto simp: vec_ok_def vec_fits_def)
  then show "\<exists>r s'. vec_push_op s e = Some (r, s') \<and> vec_ok live s' \<and>
      (r = ZENIT_OK \<and> vec_list (fst s') = vec_list (fst s) @ [e] \<or>
       r = ZENIT_ERROR_ALLOC \<and> vec_list (fst s') = vec_list (fst s))"
    by (auto simp: vec_push_op_def vec_ok_def vec_keeps_def)
next
  fix s :: "'h zenit_vector_t \<times> 'h"
  assume "vec_ok live s" and "vec_list (fst s) \<noteq> []"
  then show "\<exists>s'. vec_pop_op s = Some (ZENIT_OK, s', last (vec_list (fst s))) \<and> vec_ok live s' \<and>
      vec_list (fst s') = butlast (vec_list (fst s))"
    using vector_pop_refines [of "fst s" "replicate (vec_elem_size (fst s)) 0"]
    by (auto simp: vec_pop_op_def vec_ok_def vec_owned_def)
next
  fix s :: "'h zenit_vector_t \<times> 'h"
  assume "vec_ok live s" and "vec_list (fst s) = []"
  then show "\<exists>x. vec_pop_op s = Some (ZENIT_ERROR_EMPTY, s, x)"
    using vector_pop_refines [of "fst s" "replicate (vec_elem_size (fst s)) 0"]
    by (auto simp: vec_pop_op_def vec_ok_def)
qed

section \<open>Concrete instances\<close>

text \<open>A full vector of two 2-byte elements, and one of a single element at capacity 1.\<close>

definition demo_vector :: "c_heap zenit_vector_t" where
  "demo_vector = \<lparr>vec_self = 1, vec_buffer = Some \<lparr>maddr = 2, mbytes = [1, 2, 3, 4]\<rparr>,
     vec_elem_size = 2, vec_count = 2, vec_capacity = 2, vec_allocator = ZENIT_ALLOCATOR_DEFAULT\<rparr>"

definition demo_vector_one :: "c_heap zenit_vector_t" where
  "demo_vector_one = \<lparr>vec_self = 1, vec_buffer = Some \<lparr>maddr = 2, mbytes = [1, 2]\<rparr>,
     vec_elem_size = 2, vec_count = 1, vec_capacity = 1, vec_allocator = ZENIT_ALLOCATOR_DEFAULT\<rparr>"

definition demo_vector_heap :: c_heap where
  "demo_vector_heap = \<lparr>heap_live = [2, 1], heap_script = [], heap_junk = 0\<rparr>"

lemma demo_vector_inv: "vec_inv demo_vector" "vec_inv demo_vector_one"
  by (simp_all add: vec_inv_def demo_vector_def demo_vector_one_def size_mod_def)

lemma demo_vector_owned:
  "vec_owned heap_addrs demo_vector demo_vector_heap"
  "vec_owned heap_addrs demo_vector_one demo_vector_heap"
  using default_contract
  by (simp_all add: vec_owned_def owned_def demo_vector_def demo_vector_one_def demo_vector_heap_def
      heap_addrs_def)

lemma demo_vector_list: "vec_list demo_vector = [[1, 2], [3, 4]]"
  by (simp add: vec_list_def demo_vector_def slots_def slot_def upt_rec One_nat_def)

lemma demo_vector_sel: "vec_elem_size demo_vector = 2" "vec_count demo_vector = 2"
    "vec_capacity demo_vector = 2" "vec_can_grow demo_vector"
    "vec_elem_size demo_vector_one = 2" "vec_count demo_vector_one = 1"
    "vec_capacity demo_vector_one = 1"
  by (simp_all add: demo_vector_def demo_vector_one_def vec_can_grow_def grown_def size_mod_def)


theorem vector_remove_refines_witness:
  "\<exists>v'. zenit_vector_remove (Some demo_vector) 0 (Some [0, 0]) =
      Some (ZENIT_OK, Some v', Some [1, 2]) \<and> vec_inv v' \<and> vec_list v' = [[3, 4]]"
  using vector_remove_refines [OF demo_vector_inv(1), of "[0, 0]" 0]
  by (auto simp: demo_vector_sel demo_vector_list)

theorem vector_push_full_diverges_iff_witness:
  "zenit_vector_push (Some demo_vector_one) (Some [8, 9]) demo_vector_heap = None \<and>
   zenit_vector_push (Some demo_vector) (Some [8, 9]) demo_vector_heap \<noteq> None"
  using vector_push_full_diverges_iff [OF demo_vector_inv(2) demo_vector_owned(2), of "[8, 9]"]
    vector_push_full_diverges_iff [OF demo_vector_inv(1) demo_vector_owned(1), of "[8, 9]"]
  by (simp add: demo_vector_sel grown_def size_mod_def)

theorem vector_shrink_refines_witness:
  "\<exists>r v' h'. zenit_vector_shrink_to_fit (Some demo_vector) demo_vector_heap = Some (r, Some v', h') \<and>
    vec_list v' = [[1, 2], [3, 4]] \<and> (r = ZENIT_ERROR_ALLOC \<or> r = ZENIT_OK \<and> vec_capacity v' = 2)"
  using vector_shrink_refines [OF demo_vector_inv(1) demo_vector_owned(1)]
  by (auto simp: demo_vector_sel demo_vector_list)

end
