(* ===== verification/Zenit_Stack.thy ===== *)
theory Zenit_Stack
  imports Zenit_Vector
begin

text \<open>
  The stack (\<open>include/libzenit/stack.h\<close>, \<open>src/stack.c\<close>): a handle around a vector; every
  operation checks its arguments and delegates. The vector's store contract gives the stack's.
\<close>

section \<open>State and operations\<close>

record 'h zenit_stack_t =
  stk_self :: nat
  stk_vector :: "'h zenit_vector_t option"
  stk_elem_size :: nat
  stk_allocator :: "'h zenit_allocator_t"

definition sizeof_stack :: nat where
  "sizeof_stack = 48"

definition zenit_stack_create_with_allocator ::
    "nat \<Rightarrow> 'h zenit_allocator_t \<Rightarrow> 'h \<Rightarrow> ('h zenit_stack_t option \<times> 'h) option" where
  "zenit_stack_create_with_allocator elem_size a h =
    (if elem_size = 0 then Some (None, h)
     else case alloc_fn a sizeof_stack h of
       (None, h1) \<Rightarrow> Some (None, h1)
     | (Some s, h1) \<Rightarrow>
         (case zenit_vector_create_with_allocator elem_size a h1 of
            (None, h2) \<Rightarrow> do { h3 \<leftarrow> free_fn a (Some (maddr s)) h2; Some (None, h3) }
          | (Some v, h2) \<Rightarrow>
              Some (Some \<lparr>stk_self = maddr s, stk_vector = Some v, stk_elem_size = elem_size,
                      stk_allocator = a\<rparr>, h2)))"

definition zenit_stack_create :: "nat \<Rightarrow> c_heap \<Rightarrow> (c_heap zenit_stack_t option \<times> c_heap) option" where
  "zenit_stack_create elem_size = zenit_stack_create_with_allocator elem_size ZENIT_ALLOCATOR_DEFAULT"

definition zenit_stack_destroy :: "'h zenit_stack_t option \<Rightarrow> 'h \<Rightarrow> 'h option" where
  "zenit_stack_destroy stack h =
    (case stack of None \<Rightarrow> Some h
     | Some s \<Rightarrow> do {
         h1 \<leftarrow> zenit_vector_destroy (stk_vector s) h;
         free_fn (stk_allocator s) (Some (stk_self s)) h1
       })"

definition zenit_stack_push ::
    "'h zenit_stack_t option \<Rightarrow> byte list option \<Rightarrow> 'h \<Rightarrow>
     (zenit_result_t \<times> 'h zenit_stack_t option \<times> 'h) option" where
  "zenit_stack_push stack elem h =
    (case (stack, elem) of
       (Some s, Some e) \<Rightarrow> do {
         (r, v, h1) \<leftarrow> zenit_vector_push (stk_vector s) elem h;
         Some (r, Some (s\<lparr>stk_vector := v\<rparr>), h1)
       }
     | _ \<Rightarrow> Some (ZENIT_ERROR_NULL, stack, h))"

definition zenit_stack_pop ::
    "'h zenit_stack_t option \<Rightarrow> byte list option \<Rightarrow>
     (zenit_result_t \<times> 'h zenit_stack_t option \<times> byte list option) option" where
  "zenit_stack_pop stack out =
    (case (stack, out) of
       (Some s, Some d) \<Rightarrow> do {
         (r, v, d') \<leftarrow> zenit_vector_pop (stk_vector s) out;
         Some (r, Some (s\<lparr>stk_vector := v\<rparr>), d')
       }
     | _ \<Rightarrow> Some (ZENIT_ERROR_NULL, stack, out))"

definition zenit_stack_peek :: "'h zenit_stack_t option \<Rightarrow> nat option" where
  "zenit_stack_peek stack =
    (case stack of None \<Rightarrow> None
     | Some s \<Rightarrow>
        (let count = zenit_vector_count (stk_vector s)
         in if count = 0 then None else zenit_vector_get (stk_vector s) (sz_sub count 1)))"

definition zenit_stack_count :: "'h zenit_stack_t option \<Rightarrow> nat" where
  "zenit_stack_count stack = (case stack of None \<Rightarrow> 0 | Some s \<Rightarrow> zenit_vector_count (stk_vector s))"

definition zenit_stack_empty :: "'h zenit_stack_t option \<Rightarrow> bool" where
  "zenit_stack_empty stack = (case stack of None \<Rightarrow> True | Some s \<Rightarrow> zenit_vector_empty (stk_vector s))"

definition zenit_stack_clear :: "'h zenit_stack_t option \<Rightarrow> 'h zenit_stack_t option" where
  "zenit_stack_clear stack =
    map_option (\<lambda>s. s\<lparr>stk_vector := zenit_vector_clear (stk_vector s)\<rparr>) stack"

section \<open>Contract\<close>

definition stk_list :: "'h zenit_stack_t \<Rightarrow> byte list list" where
  "stk_list s = (case stk_vector s of None \<Rightarrow> [] | Some v \<Rightarrow> vec_list v)"

definition stk_ok :: "('h \<Rightarrow> nat set) \<Rightarrow> 'h zenit_stack_t \<times> 'h \<Rightarrow> bool" where
  "stk_ok live st \<longleftrightarrow>
    (\<exists>v. stk_vector (fst st) = Some v \<and> vec_ok live (v, snd st))"

definition stk_fits :: "'h zenit_stack_t \<times> 'h \<Rightarrow> byte list \<Rightarrow> bool" where
  "stk_fits st e \<longleftrightarrow>
    (case stk_vector (fst st) of None \<Rightarrow> False | Some v \<Rightarrow> vec_fits (v, snd st) e)"

definition stk_push_op ::
    "'h zenit_stack_t \<times> 'h \<Rightarrow> byte list \<Rightarrow> (zenit_result_t \<times> 'h zenit_stack_t \<times> 'h) option" where
  "stk_push_op st e =
    map_option (\<lambda>(r, s, h). (r, the s, h)) (zenit_stack_push (Some (fst st)) (Some e) (snd st))"

definition stk_pop_op ::
    "'h zenit_stack_t \<times> 'h \<Rightarrow> (zenit_result_t \<times> ('h zenit_stack_t \<times> 'h) \<times> byte list) option" where
  "stk_pop_op st =
    map_option (\<lambda>(r, s, x). (r, (the s, snd st), the x))
      (zenit_stack_pop (Some (fst st))
        (Some (replicate (vec_elem_size (the (stk_vector (fst st)))) 0)))"

lemma stk_pop_op_vec:
  assumes "stk_vector s = Some v"
    and "zenit_vector_pop (Some v) (Some (replicate (vec_elem_size v) 0)) = Some (r, Some v', Some x)"
  shows "stk_pop_op (s, h) = Some (r, (s\<lparr>stk_vector := Some v'\<rparr>, h), x)"
  using assms by (simp add: stk_pop_op_def zenit_stack_pop_def)

interpretation stk_store: lifo_store "stk_ok live" "\<lambda>st. stk_list (fst st)" stk_fits stk_push_op stk_pop_op
  for live :: "'h \<Rightarrow> nat set"
proof
  fix st :: "'h zenit_stack_t \<times> 'h" and e
  assume ok: "stk_ok live st" and fits: "stk_fits st e"
  obtain s h where st: "st = (s, h)" by (cases st)
  from ok st obtain v where v: "stk_vector s = Some v" "vec_ok live (v, h)"
    by (auto simp: stk_ok_def)
  with fits st have f: "vec_fits (v, h) e" by (simp add: stk_fits_def)
  then obtain r v' h' where p: "zenit_vector_push (Some v) (Some e) h = Some (r, Some v', h')"
      "vec_keeps live v h v' h'"
      "r = ZENIT_ERROR_ALLOC \<and> v' = v \<or> r = ZENIT_OK \<and> vec_list v' = vec_list v @ [e]"
    using vector_push_refines [of v live h e] v by (auto simp: vec_ok_def vec_fits_def)
  have "stk_push_op st e = Some (r, s\<lparr>stk_vector := Some v'\<rparr>, h')"
    using st v(1) p(1) by (simp add: stk_push_op_def zenit_stack_push_def)
  then show "\<exists>r s'. stk_push_op st e = Some (r, s') \<and> stk_ok live s' \<and>
      (r = ZENIT_OK \<and> stk_list (fst s') = stk_list (fst st) @ [e] \<or>
       r = ZENIT_ERROR_ALLOC \<and> stk_list (fst s') = stk_list (fst st))"
    using p st v by (auto simp: stk_ok_def stk_list_def vec_ok_def vec_keeps_def)
next
  fix st :: "'h zenit_stack_t \<times> 'h"
  assume ok: "stk_ok live st" and ne: "stk_list (fst st) \<noteq> []"
  obtain s h where st: "st = (s, h)" by (cases st)
  from ok st obtain v where v: "stk_vector s = Some v" "vec_inv v" "vec_owned live v h"
    by (auto simp: stk_ok_def vec_ok_def)
  have ne': "vec_list v \<noteq> []" using ne st v by (simp add: stk_list_def)
  with vector_pop_refines [OF v(2), of "replicate (vec_elem_size v) 0"] obtain v' where
    p: "zenit_vector_pop (Some v) (Some (replicate (vec_elem_size v) 0)) =
        Some (ZENIT_OK, Some v', Some (last (vec_list v)))"
      "vec_inv v'" "vec_buffer v' = vec_buffer v" "vec_self v' = vec_self v"
      "vec_allocator v' = vec_allocator v" "vec_list v' = butlast (vec_list v)"
    by auto
  from stk_pop_op_vec [OF v(1) p(1)] p(2-) v st
  show "\<exists>s'. stk_pop_op st = Some (ZENIT_OK, s', last (stk_list (fst st))) \<and> stk_ok live s' \<and>
      stk_list (fst s') = butlast (stk_list (fst st))"
    by (simp add: stk_ok_def stk_list_def vec_ok_def vec_owned_def)
next
  fix st :: "'h zenit_stack_t \<times> 'h"
  assume ok: "stk_ok live st" and e: "stk_list (fst st) = []"
  obtain s h where st: "st = (s, h)" by (cases st)
  from ok st obtain v where v: "stk_vector s = Some v" "vec_inv v" "vec_owned live v h"
    by (auto simp: stk_ok_def vec_ok_def)
  have "vec_list v = []" using e st v by (simp add: stk_list_def)
  with vector_pop_refines [OF v(2), of "replicate (vec_elem_size v) 0"]
  have "zenit_vector_pop (Some v) (Some (replicate (vec_elem_size v) 0)) =
      Some (ZENIT_ERROR_EMPTY, Some v, Some (replicate (vec_elem_size v) 0))"
    by simp
  from stk_pop_op_vec [OF v(1) this] v(1) st
  show "\<exists>x. stk_pop_op st = Some (ZENIT_ERROR_EMPTY, st, x)" by simp
qed

text \<open>
  C10: the stack is last-in first-out over any run of successful pushes, growth of the backing
  vector included: popping as many elements as were pushed returns them in reverse order and
  leaves the elements that were there before.
\<close>

theorem stack_lifo:
  assumes "stk_ok live st" and "run_pushes stk_fits stk_push_op st es = Some st'"
  shows "\<exists>t. run_pops stk_pop_op (length es) st' = Some (rev es, t) \<and> stk_ok live t \<and>
    stk_list (fst t) = stk_list (fst st)"
  using assms by (rule stk_store.lifo)

lemma stack_peek_last:
  assumes ok: "stk_ok live (s, h)" and ne: "stk_list s \<noteq> []"
  shows "\<exists>v p. stk_vector s = Some v \<and> zenit_stack_peek (Some s) = Some p \<and>
    mem_read (zenit_vector_data (Some v)) p (vec_elem_size v) = Some (last (stk_list s))"
proof -
  from ok obtain v where v: "stk_vector s = Some v" "vec_inv v"
    by (auto simp: stk_ok_def vec_ok_def)
  have ne': "vec_list v \<noteq> []" using ne v by (simp add: stk_list_def)
  then have n: "0 < vec_count v" using length_vec_list [of v] by (cases "vec_list v") auto
  then have "sz_sub (vec_count v) 1 = vec_count v - 1"
    using vec_invD(5) [OF v(2)] vec_capacity_less [OF v(2)] by (simp add: size_simps)
  moreover have "vec_list v ! (vec_count v - 1) = last (vec_list v)"
    using ne' by (simp add: last_conv_nth)
  ultimately show ?thesis
    using vector_get_reads [OF v(2), of "vec_count v - 1"] v n
    by (auto simp: zenit_stack_peek_def zenit_vector_count_def stk_list_def)
qed

text \<open>
  a stack is created empty with two fresh blocks (or \<open>NULL\<close> with nothing leaked, also when
  the second allocation fails), and destroying it returns exactly the heap before its creation.
\<close>

theorem stack_lifecycle:
  assumes c: "allocator_contract a live"
  shows "\<exists>stack h'. zenit_stack_create_with_allocator es a h = Some (stack, h') \<and>
    (case stack of
       None \<Rightarrow> live h' = live h
     | Some s \<Rightarrow> stk_ok live (s, h') \<and> stk_list s = [] \<and> stk_elem_size s = es \<and>
         (\<exists>h''. zenit_stack_destroy stack h' = Some h'' \<and> live h'' = live h))"
proof (cases "es = 0")
  case True
  then show ?thesis by (simp add: zenit_stack_create_with_allocator_def)
next
  case False
  show ?thesis
  proof (cases rule: allocator_contract.alloc_cases [OF c, of sizeof_stack h, case_names null block])
    case (null h1)
    then show ?thesis using False by (simp add: zenit_stack_create_with_allocator_def)
  next
    case (block sb h1)
    obtain vo h2 where cr: "zenit_vector_create_with_allocator es a h1 = (vo, h2)"
      by (cases "zenit_vector_create_with_allocator es a h1")
    show ?thesis
    proof (cases vo)
      case None
      with vector_create_null [OF c] cr have "live h2 = live h1" by simp
      with block have "maddr sb \<in> live h2" by simp
      then obtain h3 where "free_fn a (Some (maddr sb)) h2 = Some h3" "live h3 = live h2 - {maddr sb}"
        by (rule allocator_contract.free_addr [OF c])
      then show ?thesis using False block None cr \<open>live h2 = live h1\<close>
        by (simp add: zenit_stack_create_with_allocator_def)
    next
      case (Some v)
      with vector_create_empty [OF c] cr have v: "vec_inv v" "vec_owned live v h2" "vec_list v = []"
          "vec_self v \<notin> live h1" "vec_buffer v = None" "vec_allocator v = a"
          "live h2 = insert (vec_self v) (live h1)"
        by blast+
      obtain h3 where h3: "zenit_vector_destroy (Some v) h2 = Some h3" "live h3 = live h1"
        using vector_destroy_owned [OF v(2)] v by auto
      have "maddr sb \<in> live h3" using h3 block by simp
      then obtain h4 where "free_fn a (Some (maddr sb)) h3 = Some h4" "live h4 = live h3 - {maddr sb}"
        by (rule allocator_contract.free_addr [OF c])
      then show ?thesis using False block Some cr v h3
        by (simp add: zenit_stack_create_with_allocator_def zenit_stack_destroy_def stk_ok_def
            vec_ok_def stk_list_def)
    qed
  qed
qed

section \<open>Concrete instances\<close>

definition demo_stack :: "c_heap zenit_stack_t" where
  "demo_stack = \<lparr>stk_self = 3, stk_vector = Some demo_vector, stk_elem_size = 2,
     stk_allocator = ZENIT_ALLOCATOR_DEFAULT\<rparr>"

definition demo_stack_heap :: c_heap where
  "demo_stack_heap = \<lparr>heap_live = [3, 2, 1], heap_script = [], heap_junk = 0\<rparr>"

lemma demo_stack_ok: "stk_ok heap_addrs (demo_stack, demo_stack_heap)"
  using default_contract demo_vector_inv(1)
  by (simp add: stk_ok_def vec_ok_def vec_owned_def owned_def demo_stack_def demo_vector_def
      demo_stack_heap_def heap_addrs_def)

text \<open>A push that grows the vector from capacity 2 to 3.\<close>

lemma demo_stack_push:
  "\<not> Option.is_none (run_pushes stk_fits stk_push_op (demo_stack, demo_stack_heap) [[8, 9]])"
  by code_simp

theorem stack_lifo_witness:
  "\<exists>st' t. run_pushes stk_fits stk_push_op (demo_stack, demo_stack_heap) [[8, 9]] = Some st' \<and>
    run_pops stk_pop_op 1 st' = Some ([[8, 9]], t) \<and> stk_ok heap_addrs t \<and>
    stk_list (fst t) = [[1, 2], [3, 4]]"
proof -
  obtain st' where "run_pushes stk_fits stk_push_op (demo_stack, demo_stack_heap) [[8, 9]] = Some st'"
    using demo_stack_push by (auto simp: Option.is_none_def)
  then show ?thesis using stack_lifo [OF demo_stack_ok, of "[[8, 9]]" st']
    by (auto simp: demo_stack_def stk_list_def demo_vector_list One_nat_def)
qed

theorem stack_lifecycle_witness:
  "\<exists>stack h'. zenit_stack_create_with_allocator 2 ZENIT_ALLOCATOR_DEFAULT demo_stack_heap =
      Some (stack, h') \<and>
    (case stack of
       None \<Rightarrow> heap_addrs h' = heap_addrs demo_stack_heap
     | Some s \<Rightarrow> stk_ok heap_addrs (s, h') \<and> stk_list s = [] \<and> stk_elem_size s = 2 \<and>
         (\<exists>h''. zenit_stack_destroy stack h' = Some h'' \<and> heap_addrs h'' = heap_addrs demo_stack_heap))"
  by (rule stack_lifecycle [OF default_contract])

end
