(* ===== verification/Zenit_Deque.thy ===== *)
theory Zenit_Deque
  imports Zenit_Allocator Zenit_Interfaces
begin

text \<open>
  The double-ended queue (\<open>include/libzenit/deque.h\<close>, \<open>src/deque.c\<close>): a circular buffer of
  elements with a head and a tail index, the refinement of a list with pushes and pops at both
  ends, and what \<open>zenit_deque_shrink_to_fit\<close> does to the tail.
\<close>

section \<open>State and operations\<close>

record 'h zenit_deque_t =
  dq_self :: nat
  dq_buffer :: ptr
  dq_elem_size :: nat
  dq_count :: nat
  dq_capacity :: nat
  dq_head :: nat
  dq_tail :: nat
  dq_allocator :: "'h zenit_allocator_t"

definition sizeof_deque :: nat where
  "sizeof_deque = 80"

text \<open>The copy loop of \<open>realloc_buffer\<close>: elements in order from the head, straightened out.\<close>

function deque_copy :: "'h zenit_deque_t \<Rightarrow> nat \<Rightarrow> ptr \<Rightarrow> ptr option" where
  "deque_copy d i nb =
    (if i < dq_count d then do {
       src \<leftarrow> sz_mod (sz_add (dq_head d) i) (dq_capacity d);
       x \<leftarrow> mem_read (dq_buffer d) (sz_mul src (dq_elem_size d)) (dq_elem_size d);
       nb' \<leftarrow> mem_write nb (sz_mul i (dq_elem_size d)) x;
       deque_copy d (i + 1) nb'
     } else Some nb)"
  by pat_completeness auto
termination
  by (relation "measure (\<lambda>(d, i, nb). dq_count d - i)") auto

declare deque_copy.simps [simp del]

definition deque_realloc_buffer ::
    "'h zenit_deque_t \<Rightarrow> nat \<Rightarrow> 'h \<Rightarrow> (zenit_result_t \<times> 'h zenit_deque_t \<times> 'h) option" where
  "deque_realloc_buffer d new_cap h =
    (if new_cap = 0 then do {
       h1 \<leftarrow> free_fn (dq_allocator d) (paddr (dq_buffer d)) h;
       Some (ZENIT_OK, d\<lparr>dq_buffer := None, dq_capacity := 0, dq_head := 0, dq_tail := 0\<rparr>, h1)
     } else case alloc_fn (dq_allocator d) (sz_mul new_cap (dq_elem_size d)) h of
       (None, h1) \<Rightarrow> Some (ZENIT_ERROR_ALLOC, d, h1)
     | (Some nb, h1) \<Rightarrow> do {
         nb' \<leftarrow> deque_copy d 0 (Some nb);
         h2 \<leftarrow> free_fn (dq_allocator d) (paddr (dq_buffer d)) h1;
         Some (ZENIT_OK, d\<lparr>dq_buffer := nb', dq_capacity := new_cap, dq_head := 0,
                          dq_tail := dq_count d\<rparr>, h2)
       })"

definition deque_grow ::
    "'h zenit_deque_t \<Rightarrow> nat \<Rightarrow> 'h \<Rightarrow> (zenit_result_t \<times> 'h zenit_deque_t \<times> 'h) option" where
  "deque_grow d min_capacity h = do {
     new_cap \<leftarrow> grow_cap (dq_capacity d) min_capacity;
     deque_realloc_buffer d new_cap h
   }"

definition zenit_deque_create_with_capacity_and_allocator ::
    "nat \<Rightarrow> nat \<Rightarrow> 'h zenit_allocator_t \<Rightarrow> 'h \<Rightarrow> ('h zenit_deque_t option \<times> 'h) option" where
  "zenit_deque_create_with_capacity_and_allocator elem_size capacity a h =
    (if elem_size = 0 \<or> capacity = 0 then Some (None, h)
     else case alloc_fn a sizeof_deque h of
       (None, h1) \<Rightarrow> Some (None, h1)
     | (Some d, h1) \<Rightarrow>
         (case alloc_fn a (sz_mul capacity elem_size) h1 of
            (None, h2) \<Rightarrow> do { h3 \<leftarrow> free_fn a (Some (maddr d)) h2; Some (None, h3) }
          | (Some buf, h2) \<Rightarrow>
              Some (Some \<lparr>dq_self = maddr d, dq_buffer = Some buf, dq_elem_size = elem_size,
                      dq_count = 0, dq_capacity = capacity, dq_head = 0, dq_tail = 0,
                      dq_allocator = a\<rparr>, h2)))"

definition zenit_deque_create_with_allocator ::
    "nat \<Rightarrow> 'h zenit_allocator_t \<Rightarrow> 'h \<Rightarrow> ('h zenit_deque_t option \<times> 'h) option" where
  "zenit_deque_create_with_allocator elem_size a =
    zenit_deque_create_with_capacity_and_allocator elem_size 8 a"

definition zenit_deque_create :: "nat \<Rightarrow> c_heap \<Rightarrow> (c_heap zenit_deque_t option \<times> c_heap) option" where
  "zenit_deque_create elem_size = zenit_deque_create_with_allocator elem_size ZENIT_ALLOCATOR_DEFAULT"

definition zenit_deque_create_with_capacity ::
    "nat \<Rightarrow> nat \<Rightarrow> c_heap \<Rightarrow> (c_heap zenit_deque_t option \<times> c_heap) option" where
  "zenit_deque_create_with_capacity elem_size capacity =
    zenit_deque_create_with_capacity_and_allocator elem_size capacity ZENIT_ALLOCATOR_DEFAULT"

definition zenit_deque_destroy :: "'h zenit_deque_t option \<Rightarrow> 'h \<Rightarrow> 'h option" where
  "zenit_deque_destroy deque h =
    (case deque of None \<Rightarrow> Some h
     | Some d \<Rightarrow> do {
         h1 \<leftarrow> free_fn (dq_allocator d) (paddr (dq_buffer d)) h;
         free_fn (dq_allocator d) (Some (dq_self d)) h1
       })"

definition deque_make_room ::
    "'h zenit_deque_t \<Rightarrow> 'h \<Rightarrow> (zenit_result_t \<times> 'h zenit_deque_t \<times> 'h) option" where
  "deque_make_room d h =
    (if dq_count d = dq_capacity d then deque_grow d (sz_add (dq_capacity d) 1) h
     else Some (ZENIT_OK, d, h))"

definition zenit_deque_push_front ::
    "'h zenit_deque_t option \<Rightarrow> byte list option \<Rightarrow> 'h \<Rightarrow>
     (zenit_result_t \<times> 'h zenit_deque_t option \<times> 'h) option" where
  "zenit_deque_push_front deque elem h =
    (case (deque, elem) of
       (Some d, Some e) \<Rightarrow> do {
         (r, d1, h1) \<leftarrow> deque_make_room d h;
         if r \<noteq> ZENIT_OK then Some (r, Some d1, h1)
         else do {
           let hd' = (if dq_head d1 = 0 then sz_sub (dq_capacity d1) 1 else sz_sub (dq_head d1) 1);
           x \<leftarrow> user_read e (dq_elem_size d1);
           b \<leftarrow> mem_write (dq_buffer d1) (sz_mul hd' (dq_elem_size d1)) x;
           Some (ZENIT_OK, Some (d1\<lparr>dq_buffer := b, dq_head := hd',
                                  dq_count := sz_add (dq_count d1) 1\<rparr>), h1)
         }
       }
     | _ \<Rightarrow> Some (ZENIT_ERROR_NULL, deque, h))"

definition zenit_deque_push_back ::
    "'h zenit_deque_t option \<Rightarrow> byte list option \<Rightarrow> 'h \<Rightarrow>
     (zenit_result_t \<times> 'h zenit_deque_t option \<times> 'h) option" where
  "zenit_deque_push_back deque elem h =
    (case (deque, elem) of
       (Some d, Some e) \<Rightarrow> do {
         (r, d1, h1) \<leftarrow> deque_make_room d h;
         if r \<noteq> ZENIT_OK then Some (r, Some d1, h1)
         else do {
           x \<leftarrow> user_read e (dq_elem_size d1);
           b \<leftarrow> mem_write (dq_buffer d1) (sz_mul (dq_tail d1) (dq_elem_size d1)) x;
           tl' \<leftarrow> sz_mod (sz_add (dq_tail d1) 1) (dq_capacity d1);
           Some (ZENIT_OK, Some (d1\<lparr>dq_buffer := b, dq_tail := tl',
                                  dq_count := sz_add (dq_count d1) 1\<rparr>), h1)
         }
       }
     | _ \<Rightarrow> Some (ZENIT_ERROR_NULL, deque, h))"

definition zenit_deque_pop_front ::
    "'h zenit_deque_t option \<Rightarrow> byte list option \<Rightarrow>
     (zenit_result_t \<times> 'h zenit_deque_t option \<times> byte list option) option" where
  "zenit_deque_pop_front deque out =
    (case (deque, out) of
       (Some d, Some o1) \<Rightarrow>
         if dq_count d = 0 then Some (ZENIT_ERROR_EMPTY, deque, out)
         else do {
           x \<leftarrow> mem_read (dq_buffer d) (sz_mul (dq_head d) (dq_elem_size d)) (dq_elem_size d);
           o2 \<leftarrow> user_write o1 0 x;
           hd' \<leftarrow> sz_mod (sz_add (dq_head d) 1) (dq_capacity d);
           Some (ZENIT_OK, Some (d\<lparr>dq_head := hd', dq_count := sz_sub (dq_count d) 1\<rparr>), Some o2)
         }
     | _ \<Rightarrow> Some (ZENIT_ERROR_NULL, deque, out))"

definition zenit_deque_pop_back ::
    "'h zenit_deque_t option \<Rightarrow> byte list option \<Rightarrow>
     (zenit_result_t \<times> 'h zenit_deque_t option \<times> byte list option) option" where
  "zenit_deque_pop_back deque out =
    (case (deque, out) of
       (Some d, Some o1) \<Rightarrow>
         if dq_count d = 0 then Some (ZENIT_ERROR_EMPTY, deque, out)
         else do {
           let tl' = (if dq_tail d = 0 then sz_sub (dq_capacity d) 1 else sz_sub (dq_tail d) 1);
           x \<leftarrow> mem_read (dq_buffer d) (sz_mul tl' (dq_elem_size d)) (dq_elem_size d);
           o2 \<leftarrow> user_write o1 0 x;
           Some (ZENIT_OK, Some (d\<lparr>dq_tail := tl', dq_count := sz_sub (dq_count d) 1\<rparr>), Some o2)
         }
     | _ \<Rightarrow> Some (ZENIT_ERROR_NULL, deque, out))"

text \<open>Pointers into the buffer are byte offsets; the outer \<open>None\<close> is the zero divisor.\<close>

definition zenit_deque_get :: "'h zenit_deque_t option \<Rightarrow> nat \<Rightarrow> nat option option" where
  "zenit_deque_get deque index =
    (case deque of None \<Rightarrow> Some None
     | Some d \<Rightarrow> if dq_count d \<le> index then Some None
         else do {
           offset \<leftarrow> sz_mod (sz_add (dq_head d) index) (dq_capacity d);
           Some (Some (sz_mul offset (dq_elem_size d)))
         })"

definition zenit_deque_front :: "'h zenit_deque_t option \<Rightarrow> nat option" where
  "zenit_deque_front deque =
    (case deque of None \<Rightarrow> None
     | Some d \<Rightarrow> if dq_count d = 0 then None else Some (sz_mul (dq_head d) (dq_elem_size d)))"

definition zenit_deque_back :: "'h zenit_deque_t option \<Rightarrow> nat option" where
  "zenit_deque_back deque =
    (case deque of None \<Rightarrow> None
     | Some d \<Rightarrow> if dq_count d = 0 then None
         else (let back = (if dq_tail d = 0 then sz_sub (dq_capacity d) 1 else sz_sub (dq_tail d) 1)
               in Some (sz_mul back (dq_elem_size d))))"

definition zenit_deque_count :: "'h zenit_deque_t option \<Rightarrow> nat" where
  "zenit_deque_count deque = (case deque of None \<Rightarrow> 0 | Some d \<Rightarrow> dq_count d)"

definition zenit_deque_capacity :: "'h zenit_deque_t option \<Rightarrow> nat" where
  "zenit_deque_capacity deque = (case deque of None \<Rightarrow> 0 | Some d \<Rightarrow> dq_capacity d)"

definition zenit_deque_empty :: "'h zenit_deque_t option \<Rightarrow> bool" where
  "zenit_deque_empty deque = (case deque of None \<Rightarrow> True | Some d \<Rightarrow> dq_count d = 0)"

definition zenit_deque_reserve ::
    "'h zenit_deque_t option \<Rightarrow> nat \<Rightarrow> 'h \<Rightarrow> (zenit_result_t \<times> 'h zenit_deque_t option \<times> 'h) option" where
  "zenit_deque_reserve deque capacity h =
    (case deque of
       None \<Rightarrow> Some (ZENIT_ERROR_NULL, None, h)
     | Some d \<Rightarrow> if capacity \<le> dq_capacity d then Some (ZENIT_OK, deque, h)
         else map_option (\<lambda>(r, d', h'). (r, Some d', h')) (deque_realloc_buffer d capacity h))"

definition zenit_deque_shrink_to_fit ::
    "'h zenit_deque_t option \<Rightarrow> 'h \<Rightarrow> (zenit_result_t \<times> 'h zenit_deque_t option \<times> 'h) option" where
  "zenit_deque_shrink_to_fit deque h =
    (case deque of
       None \<Rightarrow> Some (ZENIT_ERROR_NULL, None, h)
     | Some d \<Rightarrow> if dq_count d = dq_capacity d then Some (ZENIT_OK, deque, h)
         else map_option (\<lambda>(r, d', h'). (r, Some d', h')) (deque_realloc_buffer d (dq_count d) h))"

definition zenit_deque_clear :: "'h zenit_deque_t option \<Rightarrow> 'h zenit_deque_t option" where
  "zenit_deque_clear deque =
    map_option (\<lambda>d. d\<lparr>dq_head := 0, dq_tail := 0, dq_count := 0\<rparr>) deque"

definition zenit_deque_iter :: "'h zenit_deque_t option \<Rightarrow> zenit_iter_t" where
  "zenit_deque_iter deque =
    \<lparr>iter_index = 0, iter_count = (case deque of None \<Rightarrow> 0 | Some d \<Rightarrow> dq_count d),
     iter_is_valid = (deque \<noteq> None)\<rparr>"

definition zenit_deque_iter_next ::
    "'h zenit_deque_t \<Rightarrow> zenit_iter_t option \<Rightarrow> (nat option \<times> zenit_iter_t option) option" where
  "zenit_deque_iter_next d iter =
    (case iter of None \<Rightarrow> Some (None, None)
     | Some it \<Rightarrow>
        if \<not> iter_is_valid it then Some (None, iter)
        else if iter_count it \<le> iter_index it then Some (None, iter)
        else do {
          offset \<leftarrow> sz_mod (sz_add (dq_head d) (iter_index it)) (dq_capacity d);
          Some (Some (sz_mul offset (dq_elem_size d)),
                Some (it\<lparr>iter_index := sz_add (iter_index it) 1\<rparr>))
        })"

section \<open>Invariant and abstraction\<close>

definition dq_inv :: "'h zenit_deque_t \<Rightarrow> bool" where
  "dq_inv d \<longleftrightarrow>
    0 < dq_elem_size d \<and> 2 * (dq_capacity d * dq_elem_size d) < size_mod \<and>
    plen (dq_buffer d) = dq_capacity d * dq_elem_size d \<and>
    (dq_buffer d = None \<longleftrightarrow> dq_capacity d = 0) \<and> dq_count d \<le> dq_capacity d \<and>
    (if dq_capacity d = 0 then dq_head d = 0 \<and> dq_tail d = 0
     else dq_head d < dq_capacity d \<and> dq_tail d < dq_capacity d \<and>
       (dq_tail d = dq_head d + dq_count d \<or> dq_tail d + dq_capacity d = dq_head d + dq_count d))"

definition dq_list :: "'h zenit_deque_t \<Rightarrow> byte list list" where
  "dq_list d =
    map (\<lambda>i. slot (dq_elem_size d) (pbytes (dq_buffer d)) ((dq_head d + i) mod dq_capacity d))
      [0..<dq_count d]"

definition dq_owned :: "('h \<Rightarrow> nat set) \<Rightarrow> 'h zenit_deque_t \<Rightarrow> 'h \<Rightarrow> bool" where
  "dq_owned live d h \<longleftrightarrow> owned (dq_allocator d) live (dq_self d) (dq_buffer d) h"

definition dq_keeps ::
    "('h \<Rightarrow> nat set) \<Rightarrow> 'h zenit_deque_t \<Rightarrow> 'h \<Rightarrow> 'h zenit_deque_t \<Rightarrow> 'h \<Rightarrow> bool" where
  "dq_keeps live d h d' h' \<longleftrightarrow>
    dq_inv d' \<and> dq_owned live d' h' \<and> dq_elem_size d' = dq_elem_size d \<and>
    dq_self d' = dq_self d \<and> dq_allocator d' = dq_allocator d \<and>
    live h' = live h - paddrs (dq_buffer d) \<union> paddrs (dq_buffer d') \<and>
    paddrs (dq_buffer d') \<inter> (live h - paddrs (dq_buffer d)) = {}"

lemma length_dq_list [simp]: "length (dq_list d) = dq_count d"
  by (simp add: dq_list_def)

lemma dq_list_nth:
  "i < dq_count d \<Longrightarrow> dq_list d ! i =
    slot (dq_elem_size d) (pbytes (dq_buffer d)) ((dq_head d + i) mod dq_capacity d)"
  by (simp add: dq_list_def)

lemma dq_invD:
  assumes "dq_inv d"
  shows "0 < dq_elem_size d" "dq_capacity d * dq_elem_size d < size_mod"
    "2 * dq_capacity d < size_mod" "plen (dq_buffer d) = dq_capacity d * dq_elem_size d"
    "dq_count d \<le> dq_capacity d"
    and "0 < dq_capacity d \<Longrightarrow> dq_head d < dq_capacity d"
    and "0 < dq_capacity d \<Longrightarrow> dq_tail d < dq_capacity d"
    and "0 < dq_capacity d \<Longrightarrow>
      dq_tail d = dq_head d + dq_count d \<or> dq_tail d + dq_capacity d = dq_head d + dq_count d"
    and "dq_capacity d = 0 \<Longrightarrow> dq_buffer d = None \<and> dq_head d = 0 \<and> dq_tail d = 0"
proof -
  show es: "0 < dq_elem_size d" using assms by (simp add: dq_inv_def)
  have "(2 * dq_capacity d) * dq_elem_size d < size_mod"
    using assms by (simp add: dq_inv_def mult.assoc)
  then show "2 * dq_capacity d < size_mod" using es by (rule factor_less)
qed (use assms in \<open>auto simp: dq_inv_def split: if_splits\<close>)

lemma dq_buffer_Some:
  assumes "dq_inv d" and "0 < dq_capacity d"
  obtains b where "dq_buffer d = Some b" and "length (mbytes b) = dq_capacity d * dq_elem_size d"
  using assms that by (cases "dq_buffer d") (auto simp: dq_inv_def)

lemma dq_offset:
  assumes "dq_inv d" and "i \<le> dq_capacity d"
  shows "sz_mul i (dq_elem_size d) = i * dq_elem_size d"
  using sz_mul_le(1) [OF dq_invD(2) [OF assms(1)] assms(2)] .

section \<open>Reallocation\<close>

text \<open>Position of the \<open>i\<close>-th element in the circle.\<close>

lemma dq_pos:
  assumes "dq_inv d" and "i \<le> dq_capacity d" and "0 < dq_capacity d"
  shows "(dq_head d + i) mod dq_capacity d =
      (if dq_head d + i < dq_capacity d then dq_head d + i else dq_head d + i - dq_capacity d)"
    and "(dq_head d + i) mod dq_capacity d < dq_capacity d"
    and "sz_add (dq_head d) i = dq_head d + i"
  using dq_invD(3,6) [OF assms(1)] assms(2,3)
  by (auto simp: mod_once size_simps)

lemma dq_read_slot:
  assumes inv: "dq_inv d" and k: "k < dq_capacity d"
  shows "mem_read (dq_buffer d) (sz_mul k (dq_elem_size d)) (dq_elem_size d) =
      Some (slot (dq_elem_size d) (pbytes (dq_buffer d)) k)"
    and "length (slot (dq_elem_size d) (pbytes (dq_buffer d)) k) = dq_elem_size d"
proof -
  obtain b where b: "dq_buffer d = Some b" "length (mbytes b) = dq_capacity d * dq_elem_size d"
    using dq_buffer_Some [OF inv] k by auto
  have "k * dq_elem_size d + dq_elem_size d \<le> length (mbytes b)"
    unfolding b(2) using k by (rule slot_block_le)
  then show "mem_read (dq_buffer d) (sz_mul k (dq_elem_size d)) (dq_elem_size d) =
      Some (slot (dq_elem_size d) (pbytes (dq_buffer d)) k)"
    and "length (slot (dq_elem_size d) (pbytes (dq_buffer d)) k) = dq_elem_size d"
    using b(1) k dq_offset [OF inv, of k] by (simp_all add: mem_read_def slot_def)
qed

lemma deque_copy_ok:
  assumes inv: "dq_inv d" and len: "length (mbytes nb) = nc * dq_elem_size d"
    and nc: "dq_count d \<le> nc" "nc * dq_elem_size d < size_mod" and i: "i \<le> dq_count d"
  shows "\<exists>m. deque_copy d i (Some nb) = Some (Some (nb\<lparr>mbytes := m\<rparr>)) \<and>
    length m = length (mbytes nb) \<and>
    (\<forall>j < dq_count d. slot (dq_elem_size d) m j =
       (if j < i then slot (dq_elem_size d) (mbytes nb) j else dq_list d ! j))"
  using len i
proof (induction "dq_count d - i" arbitrary: i nb)
  case 0
  then show ?case by (auto simp: deque_copy.simps intro!: exI [of _ "mbytes nb"])
next
  case (Suc k)
  let ?es = "dq_elem_size d"
  have i: "i < dq_count d" using Suc.hyps(2) by simp
  have cap: "0 < dq_capacity d" "i \<le> dq_capacity d" using i dq_invD(5) [OF inv] by simp_all
  note pos = dq_pos [OF inv cap(2,1)]
  define x where "x = slot ?es (pbytes (dq_buffer d)) ((dq_head d + i) mod dq_capacity d)"
  have rd: "mem_read (dq_buffer d) (sz_mul ((dq_head d + i) mod dq_capacity d) ?es) ?es = Some x"
    and xl: "length x = ?es"
    using dq_read_slot [OF inv pos(2)] by (simp_all add: x_def)
  have ib: "i * ?es + ?es \<le> length (mbytes nb)"
    unfolding Suc.prems(1) using i nc by (intro slot_block_le) simp
  have off: "sz_mul i ?es = i * ?es" using sz_mul_le(1) [OF nc(2)] i nc(1) by simp
  let ?nb = "nb\<lparr>mbytes := blit (mbytes nb) (i * ?es) x\<rparr>"
  have step: "deque_copy d i (Some nb) = deque_copy d (i + 1) (Some ?nb)"
    using i cap ib xl
    by (subst deque_copy.simps) (simp add: pos(3) sz_mod_def rd off mem_write_def)
  have "\<exists>m. deque_copy d (i + 1) (Some ?nb) = Some (Some (?nb\<lparr>mbytes := m\<rparr>)) \<and>
    length m = length (mbytes ?nb) \<and>
    (\<forall>j < dq_count d. slot ?es m j = (if j < i + 1 then slot ?es (mbytes ?nb) j else dq_list d ! j))"
    using Suc.hyps(2) Suc.prems ib xl by (intro Suc.hyps(1)) simp_all
  then obtain m where m: "deque_copy d (i + 1) (Some ?nb) = Some (Some (nb\<lparr>mbytes := m\<rparr>))"
      "length m = length (mbytes nb)"
      "\<And>j. j < dq_count d \<Longrightarrow>
        slot ?es m j = (if j < i + 1 then slot ?es (mbytes ?nb) j else dq_list d ! j)"
    using ib xl by auto
  have "slot ?es m j = (if j < i then slot ?es (mbytes nb) j else dq_list d ! j)"
    if j: "j < dq_count d" for j
  proof -
    have jb: "j * ?es + ?es \<le> length (mbytes nb)"
      unfolding Suc.prems(1) using j nc by (intro slot_block_le) simp
    have "slot ?es (mbytes ?nb) j = (if j = i then x else slot ?es (mbytes nb) j)"
      using slot_blit [OF xl ib jb] by simp
    then show ?thesis using m(3) [OF j] i
      by (cases "j = i") (auto simp: dq_list_nth x_def)
  qed
  then show ?case using step m by auto
qed

lemma deque_realloc_ok:
  assumes inv: "dq_inv d" and own: "dq_owned live d h"
    and nc: "0 < nc" "dq_count d \<le> nc" "2 * (nc * dq_elem_size d) < size_mod"
  obtains (null) h' where "deque_realloc_buffer d nc h = Some (ZENIT_ERROR_ALLOC, d, h')"
      and "dq_keeps live d h d h'"
  | (moved) d' h' where "deque_realloc_buffer d nc h = Some (ZENIT_OK, d', h')"
      and "dq_list d' = dq_list d" and "dq_owned live d' h'" and "dq_elem_size d' = dq_elem_size d"
      and "live h' = live h - paddrs (dq_buffer d) \<union> paddrs (dq_buffer d')"
      and "dq_self d' = dq_self d" and "dq_allocator d' = dq_allocator d"
      and "paddrs (dq_buffer d') \<inter> live h = {}"
      and "dq_count d' = dq_count d" and "dq_capacity d' = nc" and "dq_head d' = 0"
      and "dq_tail d' = dq_count d" and "dq_buffer d' \<noteq> None"
      and "plen (dq_buffer d') = nc * dq_elem_size d"
proof -
  let ?es = "dq_elem_size d"
  have sz: "sz_mul nc ?es = nc * ?es" "nc * ?es < size_mod" using nc by (simp_all add: size_simps)
  from own have c: "allocator_contract (dq_allocator d) live" by (simp add: dq_owned_def owned_def)
  show thesis
  proof (cases rule: allocator_contract.alloc_cases [OF c, of "nc * ?es" h, case_names null block])
    case (null h1)
    have "deque_realloc_buffer d nc h = Some (ZENIT_ERROR_ALLOC, d, h1)"
      using nc sz null by (simp add: deque_realloc_buffer_def)
    moreover have "dq_keeps live d h d h1"
      using inv own null by (auto simp: dq_keeps_def dq_owned_def owned_def)
    ultimately show thesis by (rule that(1))
  next
    case (block nb h1)
    from deque_copy_ok [OF inv block(2) nc(2) sz(2), of 0] obtain m where
      m: "deque_copy d 0 (Some nb) = Some (Some (nb\<lparr>mbytes := m\<rparr>))" "length m = nc * ?es"
        "\<And>j. j < dq_count d \<Longrightarrow> slot ?es m j = dq_list d ! j"
      using block by auto
    from own block have own1: "owned (dq_allocator d) live (dq_self d) (dq_buffer d) h1"
      by (auto simp: dq_owned_def owned_def)
    obtain h2 where h2: "free_fn (dq_allocator d) (paddr (dq_buffer d)) h1 = Some h2"
        "live h2 = live h1 - paddrs (dq_buffer d)"
      using own1 by (rule owned_free_buffer)
    let ?d = "d\<lparr>dq_buffer := Some (nb\<lparr>mbytes := m\<rparr>), dq_capacity := nc, dq_head := 0,
        dq_tail := dq_count d\<rparr>"
    have "deque_realloc_buffer d nc h = Some (ZENIT_OK, ?d, h2)"
      using nc sz block(1) m(1) h2(1) by (simp add: deque_realloc_buffer_def)
    moreover have "dq_list ?d = dq_list d"
    proof (rule nth_equalityI)
      fix j assume "j < length (dq_list ?d)"
      then show "dq_list ?d ! j = dq_list d ! j"
        using m(3) [of j] nc by (simp add: dq_list_nth)
    qed simp
    moreover have "dq_owned live ?d h2"
      using own block h2 by (auto simp: dq_owned_def owned_def)
    moreover have "live h2 = live h - paddrs (dq_buffer d) \<union> paddrs (dq_buffer ?d)"
      using own block h2 by (auto simp: dq_owned_def owned_def)
    ultimately show thesis using m(2) block(3) by (intro that(2) [of ?d h2]) simp_all
  qed
qed

definition dq_can_grow :: "'h zenit_deque_t \<Rightarrow> bool" where
  "dq_can_grow d \<longleftrightarrow>
    dq_count d < dq_capacity d \<or>
    dq_capacity d \<noteq> 1 \<and> 2 * (grown (dq_capacity d) * dq_elem_size d) < size_mod"

lemma deque_make_room_ok:
  assumes inv: "dq_inv d" and own: "dq_owned live d h" and grow: "dq_can_grow d"
  obtains (null) h' where "deque_make_room d h = Some (ZENIT_ERROR_ALLOC, d, h')"
      and "dq_keeps live d h d h'"
  | (room) d' h' where "deque_make_room d h = Some (ZENIT_OK, d', h')"
      and "dq_keeps live d h d' h'" and "dq_list d' = dq_list d"
      and "dq_count d' < dq_capacity d'" and "dq_count d' = dq_count d"
proof (cases "dq_count d = dq_capacity d")
  case False
  then have "dq_count d < dq_capacity d" using dq_invD(5) [OF inv] by simp
  then show thesis using False inv own
    by (intro that(2) [of d h]) (auto simp: deque_make_room_def dq_keeps_def dq_owned_def owned_def)
next
  case True
  note i = dq_invD [OF inv]
  let ?g = "grown (dq_capacity d)"
  from True grow have g: "dq_capacity d \<noteq> 1" "2 * (?g * dq_elem_size d) < size_mod"
    by (simp_all add: dq_can_grow_def)
  have lt: "dq_capacity d < ?g" using grown_greater [OF g(1)] .
  have "?g * dq_elem_size d < size_mod" using g(2) by simp
  then have gs: "?g < size_mod" using i(1) by (rule factor_less)
  then have sum: "dq_capacity d + dq_capacity d div 2 < size_mod"
    by (cases "dq_capacity d = 0") (simp_all add: grown_def)
  have "sz_add (dq_capacity d) 1 = dq_capacity d + 1" using lt gs by (simp add: size_simps)
  then have eq: "deque_make_room d h = deque_realloc_buffer d ?g h"
    using True grow_cap_one_more [OF g(1) sum] by (simp add: deque_make_room_def deque_grow_def)
  have pos: "0 < ?g" "dq_count d \<le> ?g" using lt True by simp_all
  show thesis
  proof (cases rule: deque_realloc_ok [OF inv own pos g(2), case_names null moved])
    case (null h')
    then show thesis using that(1) eq by simp
  next
    case (moved d' h')
    have "dq_inv d'" using moved g(2) i(1) lt True by (simp add: dq_inv_def)
    then show thesis using moved eq lt True by (intro that(2) [of d' h']) (auto simp: dq_keeps_def)
  qed
qed

section \<open>Refinement of lists with two ends\<close>

text \<open>Writing one slot of the circle.\<close>

lemma dq_write_slot:
  assumes inv: "dq_inv d" and k: "k < dq_capacity d" and x: "length x = dq_elem_size d"
  obtains b where "mem_write (dq_buffer d) (sz_mul k (dq_elem_size d)) x = Some b"
    and "b \<noteq> None" and "paddr b = paddr (dq_buffer d)" and "plen b = plen (dq_buffer d)"
    and "\<And>j. j < dq_capacity d \<Longrightarrow> slot (dq_elem_size d) (pbytes b) j =
      (if j = k then x else slot (dq_elem_size d) (pbytes (dq_buffer d)) j)"
proof -
  let ?es = "dq_elem_size d"
  obtain b where b: "dq_buffer d = Some b" "length (mbytes b) = dq_capacity d * ?es"
    using dq_buffer_Some [OF inv] k by auto
  have fit: "j * ?es + ?es \<le> length (mbytes b)" if "j < dq_capacity d" for j
    unfolding b(2) using that by (rule slot_block_le)
  show thesis
    using b(1) dq_offset [OF inv, of k] k x fit [OF k] slot_blit [OF x fit [OF k] fit]
    by (intro that [of "Some (b\<lparr>mbytes := blit (mbytes b) (k * ?es) x\<rparr>)"])
      (simp_all add: mem_write_def)
qed

lemma dq_keeps_write:
  assumes keep: "dq_keeps live d h d1 h1" and d': "dq_inv d'" "dq_elem_size d' = dq_elem_size d1"
      "dq_self d' = dq_self d1" "dq_allocator d' = dq_allocator d1"
      "paddr (dq_buffer d') = paddr (dq_buffer d1)"
  shows "dq_keeps live d h d' h1"
  using assms by (auto simp: dq_keeps_def dq_owned_def owned_same_addr [OF d'(5)] paddrs_def)

text \<open>
  Pushing at the back appends the element, growing the circle when it is full; it ends and stays
  inside the buffer for every deque that satisfies the invariant and can grow; on allocation
  failure nothing changes, and nothing leaks.
\<close>

lemma deque_push_back_refines:
  assumes inv: "dq_inv d" and own: "dq_owned live d h" and grow: "dq_can_grow d"
    and e: "dq_elem_size d \<le> length e"
  shows "\<exists>r d' h'. zenit_deque_push_back (Some d) (Some e) h = Some (r, Some d', h') \<and>
    dq_keeps live d h d' h' \<and>
    (r = ZENIT_ERROR_ALLOC \<and> d' = d \<or>
     r = ZENIT_OK \<and> dq_list d' = dq_list d @ [take (dq_elem_size d) e])"
proof (cases rule: deque_make_room_ok [OF inv own grow, case_names null room])
  case (null h')
  then show ?thesis by (simp add: zenit_deque_push_back_def)
next
  case (room d1 h1)
  from room(2) have inv1: "dq_inv d1" and es: "dq_elem_size d1 = dq_elem_size d"
    by (simp_all add: dq_keeps_def)
  note i = dq_invD [OF inv1]
  let ?c = "dq_capacity d1" and ?n = "dq_count d1" and ?x = "take (dq_elem_size d) e"
  have cap: "0 < ?c" using room(4) by simp
  have x: "length ?x = dq_elem_size d1" using e es by simp
  obtain b where b: "mem_write (dq_buffer d1) (sz_mul (dq_tail d1) (dq_elem_size d1)) ?x = Some b"
      "b \<noteq> None" "paddr b = paddr (dq_buffer d1)" "plen b = plen (dq_buffer d1)"
      "\<And>j. j < ?c \<Longrightarrow> slot (dq_elem_size d1) (pbytes b) j =
        (if j = dq_tail d1 then ?x else slot (dq_elem_size d1) (pbytes (dq_buffer d1)) j)"
    using dq_write_slot [OF inv1 i(7) [OF cap] x] by blast
  let ?t = "(dq_tail d1 + 1) mod ?c"
  have t: "?t = (if dq_tail d1 + 1 < ?c then dq_tail d1 + 1 else 0)"
    using i(7) [OF cap] by (cases "dq_tail d1 + 1 = ?c") simp_all
  let ?d = "d1\<lparr>dq_buffer := b, dq_tail := ?t, dq_count := ?n + 1\<rparr>"
  have arith: "sz_add (dq_tail d1) 1 = dq_tail d1 + 1" "sz_add ?n 1 = ?n + 1"
    using i(3) i(7) [OF cap] room(4) by (simp_all add: size_simps)
  have run: "zenit_deque_push_back (Some d) (Some e) h = Some (ZENIT_OK, Some ?d, h1)"
    using room(1) e es b(1) cap
    by (simp add: zenit_deque_push_back_def user_read_def arith sz_mod_def)
  have inv': "dq_inv ?d"
    using inv1 b(2,4) t cap room(4) i(5,6,7,8) unfolding dq_inv_def by auto
  have "dq_list ?d = dq_list d1 @ [?x]"
  proof (rule nth_equalityI)
    fix j assume "j < length (dq_list ?d)"
    then have j: "j \<le> ?n" by simp
    have "(dq_head d1 + j) mod ?c = dq_tail d1 \<longleftrightarrow> j = ?n"
      using dq_pos(1) [OF inv1 _ cap, of j] j room(4) i(6,7,8) [OF cap] by auto
    then show "dq_list ?d ! j = (dq_list d1 @ [?x]) ! j"
      using j b(5) dq_pos(2) [OF inv1 _ cap, of j] room(4)
      by (auto simp: dq_list_nth nth_append)
  qed simp
  then show ?thesis using run dq_keeps_write [OF room(2) inv'] b(3) room(3) by auto
qed

text \<open>pushing at the front puts the element before all others, under the same conditions.\<close>

theorem deque_push_front_refines:
  assumes inv: "dq_inv d" and own: "dq_owned live d h" and grow: "dq_can_grow d"
    and e: "dq_elem_size d \<le> length e"
  shows "\<exists>r d' h'. zenit_deque_push_front (Some d) (Some e) h = Some (r, Some d', h') \<and>
    dq_keeps live d h d' h' \<and>
    (r = ZENIT_ERROR_ALLOC \<and> d' = d \<or>
     r = ZENIT_OK \<and> dq_list d' = take (dq_elem_size d) e # dq_list d)"
proof (cases rule: deque_make_room_ok [OF inv own grow, case_names null room])
  case (null h')
  then show ?thesis by (simp add: zenit_deque_push_front_def)
next
  case (room d1 h1)
  from room(2) have inv1: "dq_inv d1" and es: "dq_elem_size d1 = dq_elem_size d"
    by (simp_all add: dq_keeps_def)
  note i = dq_invD [OF inv1]
  let ?c = "dq_capacity d1" and ?n = "dq_count d1" and ?x = "take (dq_elem_size d) e"
  have cap: "0 < ?c" using room(4) by simp
  have x: "length ?x = dq_elem_size d1" using e es by simp
  define k where "k = (if dq_head d1 = 0 then ?c - 1 else dq_head d1 - 1)"
  have k: "k < ?c" using i(6) [OF cap] by (auto simp: k_def)
  obtain b where b: "mem_write (dq_buffer d1) (sz_mul k (dq_elem_size d1)) ?x = Some b"
      "b \<noteq> None" "paddr b = paddr (dq_buffer d1)" "plen b = plen (dq_buffer d1)"
      "\<And>j. j < ?c \<Longrightarrow> slot (dq_elem_size d1) (pbytes b) j =
        (if j = k then ?x else slot (dq_elem_size d1) (pbytes (dq_buffer d1)) j)"
    using dq_write_slot [OF inv1 k x] by blast
  let ?d = "d1\<lparr>dq_buffer := b, dq_head := k, dq_count := ?n + 1\<rparr>"
  have arith: "(if dq_head d1 = 0 then sz_sub ?c 1 else sz_sub (dq_head d1) 1) = k"
      "sz_add ?n 1 = ?n + 1"
    using i(3) i(6) [OF cap] room(4) cap by (simp_all add: size_simps k_def)
  have run: "zenit_deque_push_front (Some d) (Some e) h = Some (ZENIT_OK, Some ?d, h1)"
    using room(1) e es b(1) by (simp add: zenit_deque_push_front_def user_read_def arith)
  have inv': "dq_inv ?d"
    using inv1 b(2,4) k cap room(4) i(5,6,7,8) unfolding dq_inv_def k_def by auto
  have "dq_list ?d = ?x # dq_list d1"
  proof (rule nth_equalityI)
    fix j assume "j < length (dq_list ?d)"
    then have j: "j \<le> ?n" by simp
    show "dq_list ?d ! j = (?x # dq_list d1) ! j"
    proof (cases j)
      case 0
      then show ?thesis using b(5) [OF k] k by (simp add: dq_list_nth)
    next
      case (Suc m)
      have "(k + j) mod ?c = (dq_head d1 + m) mod ?c"
        using mod_once [of "k + j" ?c] dq_pos(1) [OF inv1 _ cap, of m] k j Suc room(4) i(6) [OF cap]
        by (auto simp: k_def)
      moreover have "(dq_head d1 + m) mod ?c \<noteq> k"
        using dq_pos(1) [OF inv1 _ cap, of m] j Suc room(4) i(6) [OF cap] by (auto simp: k_def)
      ultimately show ?thesis
        using j Suc b(5) dq_pos(2) [OF inv1 _ cap, of m] room(4) by (simp add: dq_list_nth)
    qed
  qed simp
  then show ?thesis using run dq_keeps_write [OF room(2) inv'] b(3) room(3) by auto
qed

text \<open>What a pop may change: the indices and the count, never the buffer or its owner.\<close>

definition dq_same_store :: "'h zenit_deque_t \<Rightarrow> 'h zenit_deque_t \<Rightarrow> bool" where
  "dq_same_store d d' \<longleftrightarrow> dq_buffer d' = dq_buffer d \<and> dq_self d' = dq_self d \<and>
    dq_allocator d' = dq_allocator d \<and> dq_elem_size d' = dq_elem_size d \<and>
    dq_capacity d' = dq_capacity d"

lemma deque_pop_front_refines:
  assumes inv: "dq_inv d" and out: "dq_elem_size d \<le> length out"
  shows "if dq_list d = [] then zenit_deque_pop_front (Some d) (Some out) =
      Some (ZENIT_ERROR_EMPTY, Some d, Some out)
    else \<exists>d'. zenit_deque_pop_front (Some d) (Some out) =
      Some (ZENIT_OK, Some d', Some (hd (dq_list d) @ drop (dq_elem_size d) out)) \<and>
      dq_inv d' \<and> dq_same_store d d' \<and> dq_list d' = tl (dq_list d)"
proof (cases "dq_count d = 0")
  case True
  then show ?thesis by (simp add: zenit_deque_pop_front_def flip: length_0_conv)
next
  case False
  note i = dq_invD [OF inv]
  let ?c = "dq_capacity d" and ?n = "dq_count d" and ?es = "dq_elem_size d"
  have cap: "0 < ?c" using False i(5) by simp
  let ?x = "slot ?es (pbytes (dq_buffer d)) (dq_head d)"
  let ?d = "d\<lparr>dq_head := (dq_head d + 1) mod ?c, dq_count := ?n - 1\<rparr>"
  have arith: "sz_add (dq_head d) 1 = dq_head d + 1" "sz_sub ?n 1 = ?n - 1"
    using i(3,5) i(6) [OF cap] False by (simp_all add: size_simps)
  have x: "hd (dq_list d) = ?x" using False i(6) [OF cap] by (simp add: hd_conv_nth dq_list_nth
      flip: length_greater_0_conv)
  have rd: "mem_read (dq_buffer d) (sz_mul (dq_head d) ?es) ?es = Some ?x" "length ?x = ?es"
    using dq_read_slot [OF inv i(6) [OF cap]] .
  have run: "zenit_deque_pop_front (Some d) (Some out) =
      Some (ZENIT_OK, Some ?d, Some (?x @ drop ?es out))"
    using False rd out cap
    by (simp add: zenit_deque_pop_front_def user_write_def blit_def sz_mod_def arith)
  have h': "(dq_head d + 1) mod ?c = (if dq_head d + 1 < ?c then dq_head d + 1 else 0)"
    using i(6) [OF cap] by (cases "dq_head d + 1 = ?c") simp_all
  have inv': "dq_inv ?d"
    using inv cap False i(5-8) unfolding dq_inv_def by (auto simp: h')
  have "dq_list ?d = tl (dq_list d)"
  proof (rule nth_equalityI)
    fix j assume "j < length (dq_list ?d)"
    then have j: "Suc j < ?n" by simp
    moreover have "((dq_head d + 1) mod ?c + j) mod ?c = (dq_head d + Suc j) mod ?c"
      unfolding mod_add_left_eq by (simp add: One_nat_def)
    ultimately show "dq_list ?d ! j = tl (dq_list d) ! j"
      by (simp add: dq_list_nth nth_tl)
  qed simp
  moreover have "dq_list d \<noteq> []" using False by (simp flip: length_greater_0_conv)
  ultimately show ?thesis using run inv' x by (auto simp: dq_same_store_def)
qed

text \<open>
  popping at the back returns the last element and removes it, for every deque that satisfies
  the invariant, wherever the circle wraps; an empty deque is reported and nothing changes.
\<close>

theorem deque_pop_back_refines:
  assumes inv: "dq_inv d" and out: "dq_elem_size d \<le> length out"
  shows "if dq_list d = [] then zenit_deque_pop_back (Some d) (Some out) =
      Some (ZENIT_ERROR_EMPTY, Some d, Some out)
    else \<exists>d'. zenit_deque_pop_back (Some d) (Some out) =
      Some (ZENIT_OK, Some d', Some (last (dq_list d) @ drop (dq_elem_size d) out)) \<and>
      dq_inv d' \<and> dq_same_store d d' \<and> dq_list d' = butlast (dq_list d)"
proof (cases "dq_count d = 0")
  case True
  then show ?thesis by (simp add: zenit_deque_pop_back_def flip: length_0_conv)
next
  case False
  note i = dq_invD [OF inv]
  let ?c = "dq_capacity d" and ?n = "dq_count d" and ?es = "dq_elem_size d"
  have cap: "0 < ?c" using False i(5) by simp
  define k where "k = (if dq_tail d = 0 then ?c - 1 else dq_tail d - 1)"
  have k: "k < ?c" using i(7) [OF cap] by (auto simp: k_def)
  let ?x = "slot ?es (pbytes (dq_buffer d)) k"
  let ?d = "d\<lparr>dq_tail := k, dq_count := ?n - 1\<rparr>"
  have arith: "(if dq_tail d = 0 then sz_sub ?c 1 else sz_sub (dq_tail d) 1) = k"
      "sz_sub ?n 1 = ?n - 1"
    using i(3,5) i(7) [OF cap] False cap by (simp_all add: size_simps k_def)
  have "(dq_head d + (?n - 1)) mod ?c = k"
    using dq_pos(1) [OF inv _ cap, of "?n - 1"] i(5-8) cap False by (auto simp: k_def)
  then have x: "last (dq_list d) = ?x"
    using False by (simp add: last_conv_nth dq_list_nth flip: length_greater_0_conv)
  have rd: "mem_read (dq_buffer d) (sz_mul k ?es) ?es = Some ?x" "length ?x = ?es"
    using dq_read_slot [OF inv k] .
  have run: "zenit_deque_pop_back (Some d) (Some out) =
      Some (ZENIT_OK, Some ?d, Some (?x @ drop ?es out))"
    using False rd out
    by (simp add: zenit_deque_pop_back_def user_write_def blit_def arith)
  have inv': "dq_inv ?d"
    using inv cap False k i(5-8) unfolding dq_inv_def k_def by auto
  have "dq_list ?d = butlast (dq_list d)"
    by (rule nth_equalityI) (simp_all add: dq_list_nth nth_butlast)
  moreover have "dq_list d \<noteq> []" using False by (simp flip: length_greater_0_conv)
  ultimately show ?thesis using run inv' x by (auto simp: dq_same_store_def)
qed

lemma deque_get_reads:
  assumes inv: "dq_inv d" and i: "i < dq_count d"
  shows "\<exists>p. zenit_deque_get (Some d) i = Some (Some p) \<and>
    mem_read (dq_buffer d) p (dq_elem_size d) = Some (dq_list d ! i)"
proof -
  have cap: "0 < dq_capacity d" "i \<le> dq_capacity d" using i dq_invD(5) [OF inv] by simp_all
  note pos = dq_pos [OF inv cap(2,1)]
  show ?thesis using i cap dq_read_slot [OF inv pos(2)]
    by (simp add: zenit_deque_get_def pos(3) sz_mod_def dq_list_nth)
qed

lemma deque_front_is_get:
  assumes "dq_inv d"
  shows "Some (zenit_deque_front (Some d)) = zenit_deque_get (Some d) 0"
  using dq_invD(3,5,6) [OF assms]
  by (auto simp: zenit_deque_front_def zenit_deque_get_def sz_mod_def size_simps)

section \<open>Shrinking, growing, life cycle\<close>

lemma deque_reserve_refines:
  assumes inv: "dq_inv d" and own: "dq_owned live d h" and sz: "2 * (c * dq_elem_size d) < size_mod"
  shows "\<exists>r d' h'. zenit_deque_reserve (Some d) c h = Some (r, Some d', h') \<and>
    dq_keeps live d h d' h' \<and> dq_list d' = dq_list d \<and>
    (r = ZENIT_ERROR_ALLOC \<and> d' = d \<or> r = ZENIT_OK \<and> c \<le> dq_capacity d')"
proof (cases "c \<le> dq_capacity d")
  case True
  then show ?thesis using inv own
    by (auto simp: zenit_deque_reserve_def dq_keeps_def dq_owned_def owned_def)
next
  case False
  note i = dq_invD [OF inv]
  have pos: "0 < c" "dq_count d \<le> c" "dq_count d < c" using False i(5) by simp_all
  show ?thesis
  proof (cases rule: deque_realloc_ok [OF inv own pos(1,2) sz, case_names null moved])
    case (null h')
    then show ?thesis using False by (simp add: zenit_deque_reserve_def)
  next
    case (moved d' h')
    have "dq_inv d'" using moved sz i(1) pos by (simp add: dq_inv_def)
    then show ?thesis using moved False by (auto simp: zenit_deque_reserve_def dq_keeps_def)
  qed
qed

lemma deque_shrink_ok:
  assumes inv: "dq_inv d" and own: "dq_owned live d h" and n: "0 < dq_count d" "dq_count d < dq_capacity d"
  obtains (null) h' where "zenit_deque_shrink_to_fit (Some d) h = Some (ZENIT_ERROR_ALLOC, Some d, h')"
  | (moved) d' h' where "zenit_deque_shrink_to_fit (Some d) h = Some (ZENIT_OK, Some d', h')"
      and "dq_list d' = dq_list d" and "dq_elem_size d' = dq_elem_size d"
      and "dq_count d' = dq_count d" and "dq_capacity d' = dq_count d" and "dq_head d' = 0"
      and "dq_tail d' = dq_count d" and "plen (dq_buffer d') = dq_count d * dq_elem_size d"
      and "dq_buffer d' \<noteq> None"
proof -
  have "dq_count d * dq_elem_size d \<le> dq_capacity d * dq_elem_size d" using n by (intro mult_le_mono1) simp
  moreover have "2 * (dq_capacity d * dq_elem_size d) < size_mod" using inv by (simp add: dq_inv_def)
  ultimately have sz: "2 * (dq_count d * dq_elem_size d) < size_mod" by linarith
  show thesis
    by (cases rule: deque_realloc_ok [OF inv own n(1) order_refl sz, case_names null moved])
      (use n that in \<open>simp_all add: zenit_deque_shrink_to_fit_def\<close>)
qed

text \<open>
  \<open>zenit_deque_shrink_to_fit\<close> leaves the tail index equal to the capacity, outside the
  circle. When the shrunk deque is popped at the front there is room again, and the next
  \<open>zenit_deque_push_back\<close> writes at the tail, past the end of the buffer: it has no defined result.
\<close>

theorem deque_shrink_pop_push_overflow:
  assumes inv: "dq_inv d" and own: "dq_owned live d h"
    and n: "1 < dq_count d" "dq_count d < dq_capacity d"
    and out: "dq_elem_size d \<le> length out" and e: "dq_elem_size d \<le> length e"
    and run: "zenit_deque_shrink_to_fit (Some d) h = Some (ZENIT_OK, Some d1, h1)"
  shows "\<exists>d2 x. zenit_deque_pop_front (Some d1) (Some out) = Some (ZENIT_OK, Some d2, Some x) \<and>
    dq_tail d2 = dq_capacity d2 \<and> zenit_deque_push_back (Some d2) (Some e) h1 = None"
proof (cases rule: deque_shrink_ok [OF inv own _ n(2), case_names pos null moved])
  case pos
  then show ?case using n by simp
next
  case (null h')
  then show ?thesis using run by simp
next
  case (moved d' h')
  note i = dq_invD [OF inv]
  let ?es = "dq_elem_size d" and ?n = "dq_count d"
  have d1: "d' = d1" using moved run by simp
  obtain b where b: "dq_buffer d1 = Some b" using moved d1 by auto
  have bl: "length (mbytes b) = ?n * ?es" using moved d1 b by simp
  have fit: "?es \<le> ?n * ?es" using n by simp
  have ns: "?n < size_mod" using n i(3) by linarith
  have nes: "sz_mul ?n ?es = ?n * ?es" using dq_offset [OF inv, of ?n] n by simp
  have arith: "sz_add 0 1 = 1" "sz_sub ?n 1 = ?n - 1" "sz_mul 0 ?es = 0"
    using n ns by (simp_all add: size_simps size_mod_def)
  have neq: "?n - 1 \<noteq> ?n" and ne: "e \<noteq> []" using n e i(1) by auto
  let ?d2 = "d1\<lparr>dq_head := 1 mod ?n, dq_count := ?n - 1\<rparr>"
  have "zenit_deque_pop_front (Some d1) (Some out) =
      Some (ZENIT_OK, Some ?d2, Some (take ?es (mbytes b) @ drop ?es out))"
    using moved d1 n out fit bl
    by (simp add: zenit_deque_pop_front_def b arith mem_read_def user_write_def blit_def sz_mod_def)
  moreover have "zenit_deque_push_back (Some ?d2) (Some e) h1 = None"
    using moved d1 n i(1) bl nes neq e ne
    by (simp add: zenit_deque_push_back_def deque_make_room_def b user_read_def mem_write_def)
  ultimately show ?thesis using moved d1 by auto
qed

text \<open>Growth from capacity 1 makes no progress, as in the vector.\<close>

lemma deque_push_capacity_one_diverges:
  assumes "dq_capacity d = 1" and "dq_count d = 1"
  shows "zenit_deque_push_back (Some d) (Some e) h = None"
    and "zenit_deque_push_front (Some d) (Some e) h = None"
proof -
  have "sz_add 1 1 = 2" by (simp add: size_simps size_mod_def)
  then have "deque_make_room d h = None"
    using assms grow_cap_stuck [of 2] by (simp add: deque_make_room_def deque_grow_def)
  then show "zenit_deque_push_back (Some d) (Some e) h = None"
    and "zenit_deque_push_front (Some d) (Some e) h = None"
    by (simp_all add: zenit_deque_push_back_def zenit_deque_push_front_def)
qed

lemma deque_destroy_owned:
  assumes "dq_owned live d h"
  shows "\<exists>h'. zenit_deque_destroy (Some d) h = Some h' \<and>
    live h' = live h - insert (dq_self d) (paddrs (dq_buffer d))"
  using assms unfolding dq_owned_def
  by (elim owned_release) (simp add: zenit_deque_destroy_def)

lemma deque_create_cases:
  assumes c: "allocator_contract a live" and n: "0 < es" "0 < cap" "2 * (cap * es) < size_mod"
  obtains (null) h' where
      "zenit_deque_create_with_capacity_and_allocator es cap a h = Some (None, h')"
      and "live h' = live h"
  | (made) d h' where "zenit_deque_create_with_capacity_and_allocator es cap a h = Some (Some d, h')"
      and "dq_inv d" and "dq_owned live d h'" and "dq_list d = []" and "dq_elem_size d = es"
      and "dq_allocator d = a" and "insert (dq_self d) (paddrs (dq_buffer d)) \<inter> live h = {}"
      and "live h' = insert (dq_self d) (paddrs (dq_buffer d)) \<union> live h"
proof (cases rule: allocator_contract.alloc_cases [OF c, of sizeof_deque h, case_names null block])
  case (null h1)
  then show thesis using n that(1) by (simp add: zenit_deque_create_with_capacity_and_allocator_def)
next
  case (block hb h1)
  have sz: "sz_mul cap es = cap * es" using n by (simp add: size_simps)
  show thesis
  proof (cases rule: allocator_contract.alloc_cases [OF c, of "cap * es" h1, case_names null block])
    case (null h2)
    then have "maddr hb \<in> live h2" using block by simp
    from allocator_contract.free_addr [OF c this] obtain h3 where
      "free_fn a (Some (maddr hb)) h2 = Some h3" "live h3 = live h2 - {maddr hb}" by blast
    then show thesis using n block null sz that(1) [of h3]
      by (simp add: zenit_deque_create_with_capacity_and_allocator_def)
  next
    case buf: (block b h2)
    let ?d = "\<lparr>dq_self = maddr hb, dq_buffer = Some b, dq_elem_size = es, dq_count = 0,
        dq_capacity = cap, dq_head = 0, dq_tail = 0, dq_allocator = a\<rparr>"
    have "zenit_deque_create_with_capacity_and_allocator es cap a h = Some (Some ?d, h2)"
      using n block buf sz by (simp add: zenit_deque_create_with_capacity_and_allocator_def)
    moreover have "dq_inv ?d" using n buf by (simp add: dq_inv_def)
    moreover have "dq_owned live ?d h2"
      using owned_fresh [OF c block(3,4) buf(3,4)] by (simp add: dq_owned_def)
    moreover have "dq_list ?d = []" by (simp add: dq_list_def)
    ultimately show thesis using block buf by (intro that(2) [of ?d h2]) auto
  qed
qed

section \<open>The deque as a first-in first-out store\<close>

definition dq_ok :: "('h \<Rightarrow> nat set) \<Rightarrow> 'h zenit_deque_t \<times> 'h \<Rightarrow> bool" where
  "dq_ok live s \<longleftrightarrow> dq_inv (fst s) \<and> dq_owned live (fst s) (snd s)"

definition dq_fits :: "'h zenit_deque_t \<times> 'h \<Rightarrow> byte list \<Rightarrow> bool" where
  "dq_fits s e \<longleftrightarrow> dq_can_grow (fst s) \<and> length e = dq_elem_size (fst s)"

definition dq_push_op ::
    "'h zenit_deque_t \<times> 'h \<Rightarrow> byte list \<Rightarrow> (zenit_result_t \<times> 'h zenit_deque_t \<times> 'h) option" where
  "dq_push_op s e =
    map_option (\<lambda>(r, d, h). (r, the d, h)) (zenit_deque_push_back (Some (fst s)) (Some e) (snd s))"

definition dq_pop_op ::
    "'h zenit_deque_t \<times> 'h \<Rightarrow> (zenit_result_t \<times> ('h zenit_deque_t \<times> 'h) \<times> byte list) option" where
  "dq_pop_op s =
    map_option (\<lambda>(r, d, x). (r, (the d, snd s), the x))
      (zenit_deque_pop_front (Some (fst s)) (Some (replicate (dq_elem_size (fst s)) 0)))"

interpretation dq_store: fifo_store "dq_ok live" "\<lambda>s. dq_list (fst s)" dq_fits dq_push_op dq_pop_op
  for live :: "'h \<Rightarrow> nat set"
proof
  fix s :: "'h zenit_deque_t \<times> 'h" and e
  assume "dq_ok live s" and "dq_fits s e"
  then obtain r d' h' where "zenit_deque_push_back (Some (fst s)) (Some e) (snd s) = Some (r, Some d', h')"
      "dq_keeps live (fst s) (snd s) d' h'"
      "r = ZENIT_ERROR_ALLOC \<and> d' = fst s \<or>
       r = ZENIT_OK \<and> dq_list d' = dq_list (fst s) @ [take (dq_elem_size (fst s)) e]"
      "length e = dq_elem_size (fst s)"
    using deque_push_back_refines [of "fst s" live "snd s" e] by (auto simp: dq_ok_def dq_fits_def)
  then show "\<exists>r s'. dq_push_op s e = Some (r, s') \<and> dq_ok live s' \<and>
      (r = ZENIT_OK \<and> dq_list (fst s') = dq_list (fst s) @ [e] \<or>
       r = ZENIT_ERROR_ALLOC \<and> dq_list (fst s') = dq_list (fst s))"
    by (auto simp: dq_push_op_def dq_ok_def dq_keeps_def)
next
  fix s :: "'h zenit_deque_t \<times> 'h"
  assume "dq_ok live s" and "dq_list (fst s) \<noteq> []"
  then show "\<exists>s'. dq_pop_op s = Some (ZENIT_OK, s', hd (dq_list (fst s))) \<and> dq_ok live s' \<and>
      dq_list (fst s') = tl (dq_list (fst s))"
    using deque_pop_front_refines [of "fst s" "replicate (dq_elem_size (fst s)) 0"]
    by (auto simp: dq_pop_op_def dq_ok_def dq_owned_def dq_same_store_def)
next
  fix s :: "'h zenit_deque_t \<times> 'h"
  assume "dq_ok live s" and "dq_list (fst s) = []"
  then show "\<exists>x. dq_pop_op s = Some (ZENIT_ERROR_EMPTY, s, x)"
    using deque_pop_front_refines [of "fst s" "replicate (dq_elem_size (fst s)) 0"]
    by (auto simp: dq_pop_op_def dq_ok_def)
qed

section \<open>Concrete instances\<close>

text \<open>Two 1-byte elements around the end of a circle of four slots.\<close>

definition demo_deque :: "c_heap zenit_deque_t" where
  "demo_deque = \<lparr>dq_self = 1, dq_buffer = Some \<lparr>maddr = 2, mbytes = [6, 0, 0, 5]\<rparr>,
     dq_elem_size = 1, dq_count = 2, dq_capacity = 4, dq_head = 3, dq_tail = 1,
     dq_allocator = ZENIT_ALLOCATOR_DEFAULT\<rparr>"

definition demo_deque_heap :: c_heap where
  "demo_deque_heap = \<lparr>heap_live = [2, 1], heap_script = [], heap_junk = 0\<rparr>"

text \<open>The same deque after \<open>zenit_deque_shrink_to_fit\<close>.\<close>

definition demo_deque_shrunk :: "c_heap zenit_deque_t" where
  "demo_deque_shrunk = demo_deque\<lparr>dq_buffer := Some \<lparr>maddr = 3, mbytes = [5, 6]\<rparr>,
     dq_capacity := 2, dq_head := 0, dq_tail := 2\<rparr>"

definition demo_deque_shrunk_heap :: c_heap where
  "demo_deque_shrunk_heap = \<lparr>heap_live = [3, 1], heap_script = [], heap_junk = 0\<rparr>"

lemma demo_deque_inv: "dq_inv demo_deque"
  by (simp add: dq_inv_def demo_deque_def size_mod_def)

lemma demo_deque_owned: "dq_owned heap_addrs demo_deque demo_deque_heap"
  using default_contract
  by (simp add: dq_owned_def owned_def demo_deque_def demo_deque_heap_def heap_addrs_def)

lemma demo_deque_list: "dq_list demo_deque = [[5], [6]]"
  by (simp add: dq_list_def demo_deque_def slot_def upt_rec One_nat_def)

lemma demo_deque_sel: "dq_elem_size demo_deque = 1" "dq_count demo_deque = 2"
    "dq_capacity demo_deque = 4" "dq_can_grow demo_deque"
  by (simp_all add: demo_deque_def dq_can_grow_def)

lemma demo_deque_shrink:
  "zenit_deque_shrink_to_fit (Some demo_deque) demo_deque_heap =
    Some (ZENIT_OK, Some demo_deque_shrunk, demo_deque_shrunk_heap)"
  by (simp add: demo_deque_def demo_deque_heap_def demo_deque_shrunk_def demo_deque_shrunk_heap_def
      zenit_deque_shrink_to_fit_def deque_realloc_buffer_def deque_copy.simps mem_write_def
      mem_read_def sz_mod_def sz_mul_def sz_add_def size_mod_def blit_def default_eval
      One_nat_def)

theorem deque_push_front_refines_witness:
  "\<exists>r d' h'. zenit_deque_push_front (Some demo_deque) (Some [4]) demo_deque_heap = Some (r, Some d', h') \<and>
    dq_inv d' \<and> (r = ZENIT_ERROR_ALLOC \<and> d' = demo_deque \<or>
      r = ZENIT_OK \<and> dq_list d' = [[4], [5], [6]])"
  using deque_push_front_refines [OF demo_deque_inv demo_deque_owned demo_deque_sel(4), of "[4]"]
  by (auto simp: demo_deque_sel demo_deque_list dq_keeps_def)

theorem deque_pop_back_refines_witness:
  "\<exists>d'. zenit_deque_pop_back (Some demo_deque) (Some [0]) = Some (ZENIT_OK, Some d', Some [6]) \<and>
    dq_inv d' \<and> dq_list d' = [[5]]"
  using deque_pop_back_refines [OF demo_deque_inv, of "[0]"]
  by (auto simp: demo_deque_sel demo_deque_list)

theorem deque_shrink_pop_push_overflow_witness:
  "\<exists>d2 x. zenit_deque_pop_front (Some demo_deque_shrunk) (Some [0]) = Some (ZENIT_OK, Some d2, Some x) \<and>
    dq_tail d2 = dq_capacity d2 \<and>
    zenit_deque_push_back (Some d2) (Some [9]) demo_deque_shrunk_heap = None"
  using deque_shrink_pop_push_overflow [OF demo_deque_inv demo_deque_owned _ _ _ _ demo_deque_shrink,
      of "[0]" "[9]"]
  by (simp add: demo_deque_sel)

end
