(* ===== verification/Zenit_Queue.thy ===== *)
theory Zenit_Queue
  imports Zenit_Deque
begin

text \<open>
  The queue (\<open>include/libzenit/queue.h\<close>, \<open>src/queue.c\<close>): a handle around a deque that enqueues
  at the back and dequeues at the front. The deque's store contract gives the queue's.
\<close>

section \<open>State and operations\<close>

record 'h zenit_queue_t =
  q_self :: nat
  q_deque :: "'h zenit_deque_t option"
  q_elem_size :: nat
  q_allocator :: "'h zenit_allocator_t"

definition sizeof_queue :: nat where
  "sizeof_queue = 48"

definition zenit_queue_create_with_allocator ::
    "nat \<Rightarrow> 'h zenit_allocator_t \<Rightarrow> 'h \<Rightarrow> ('h zenit_queue_t option \<times> 'h) option" where
  "zenit_queue_create_with_allocator elem_size a h =
    (if elem_size = 0 then Some (None, h)
     else case alloc_fn a sizeof_queue h of
       (None, h1) \<Rightarrow> Some (None, h1)
     | (Some q, h1) \<Rightarrow> do {
         (dq, h2) \<leftarrow> zenit_deque_create_with_allocator elem_size a h1;
         case dq of
           None \<Rightarrow> do { h3 \<leftarrow> free_fn a (Some (maddr q)) h2; Some (None, h3) }
         | Some d \<Rightarrow> Some (Some \<lparr>q_self = maddr q, q_deque = Some d, q_elem_size = elem_size,
                q_allocator = a\<rparr>, h2)
       })"

definition zenit_queue_create :: "nat \<Rightarrow> c_heap \<Rightarrow> (c_heap zenit_queue_t option \<times> c_heap) option" where
  "zenit_queue_create elem_size = zenit_queue_create_with_allocator elem_size ZENIT_ALLOCATOR_DEFAULT"

definition zenit_queue_destroy :: "'h zenit_queue_t option \<Rightarrow> 'h \<Rightarrow> 'h option" where
  "zenit_queue_destroy queue h =
    (case queue of None \<Rightarrow> Some h
     | Some q \<Rightarrow> do {
         h1 \<leftarrow> zenit_deque_destroy (q_deque q) h;
         free_fn (q_allocator q) (Some (q_self q)) h1
       })"

definition zenit_queue_enqueue ::
    "'h zenit_queue_t option \<Rightarrow> byte list option \<Rightarrow> 'h \<Rightarrow>
     (zenit_result_t \<times> 'h zenit_queue_t option \<times> 'h) option" where
  "zenit_queue_enqueue queue elem h =
    (case (queue, elem) of
       (Some q, Some e) \<Rightarrow> do {
         (r, d, h1) \<leftarrow> zenit_deque_push_back (q_deque q) elem h;
         Some (r, Some (q\<lparr>q_deque := d\<rparr>), h1)
       }
     | _ \<Rightarrow> Some (ZENIT_ERROR_NULL, queue, h))"

definition zenit_queue_dequeue ::
    "'h zenit_queue_t option \<Rightarrow> byte list option \<Rightarrow>
     (zenit_result_t \<times> 'h zenit_queue_t option \<times> byte list option) option" where
  "zenit_queue_dequeue queue out =
    (case (queue, out) of
       (Some q, Some o1) \<Rightarrow> do {
         (r, d, o2) \<leftarrow> zenit_deque_pop_front (q_deque q) out;
         Some (r, Some (q\<lparr>q_deque := d\<rparr>), o2)
       }
     | _ \<Rightarrow> Some (ZENIT_ERROR_NULL, queue, out))"

definition zenit_queue_peek :: "'h zenit_queue_t option \<Rightarrow> nat option" where
  "zenit_queue_peek queue = (case queue of None \<Rightarrow> None | Some q \<Rightarrow> zenit_deque_front (q_deque q))"

definition zenit_queue_count :: "'h zenit_queue_t option \<Rightarrow> nat" where
  "zenit_queue_count queue = (case queue of None \<Rightarrow> 0 | Some q \<Rightarrow> zenit_deque_count (q_deque q))"

definition zenit_queue_empty :: "'h zenit_queue_t option \<Rightarrow> bool" where
  "zenit_queue_empty queue = (case queue of None \<Rightarrow> True | Some q \<Rightarrow> zenit_deque_empty (q_deque q))"

definition zenit_queue_clear :: "'h zenit_queue_t option \<Rightarrow> 'h zenit_queue_t option" where
  "zenit_queue_clear queue =
    map_option (\<lambda>q. q\<lparr>q_deque := zenit_deque_clear (q_deque q)\<rparr>) queue"

section \<open>Contract\<close>

definition q_list :: "'h zenit_queue_t \<Rightarrow> byte list list" where
  "q_list q = (case q_deque q of None \<Rightarrow> [] | Some d \<Rightarrow> dq_list d)"

text \<open>The queue owns its handle besides the deque's two blocks, all from one allocator.\<close>

definition q_ok :: "('h \<Rightarrow> nat set) \<Rightarrow> 'h zenit_queue_t \<times> 'h \<Rightarrow> bool" where
  "q_ok live st \<longleftrightarrow>
    (\<exists>d. q_deque (fst st) = Some d \<and> dq_ok live (d, snd st) \<and> dq_allocator d = q_allocator (fst st) \<and>
      q_self (fst st) \<in> live (snd st) - insert (dq_self d) (paddrs (dq_buffer d)))"

definition q_fits :: "'h zenit_queue_t \<times> 'h \<Rightarrow> byte list \<Rightarrow> bool" where
  "q_fits st e \<longleftrightarrow>
    (case q_deque (fst st) of None \<Rightarrow> False | Some d \<Rightarrow> dq_fits (d, snd st) e)"

definition q_enqueue_op ::
    "'h zenit_queue_t \<times> 'h \<Rightarrow> byte list \<Rightarrow> (zenit_result_t \<times> 'h zenit_queue_t \<times> 'h) option" where
  "q_enqueue_op st e =
    map_option (\<lambda>(r, q, h). (r, the q, h)) (zenit_queue_enqueue (Some (fst st)) (Some e) (snd st))"

definition q_dequeue_op ::
    "'h zenit_queue_t \<times> 'h \<Rightarrow> (zenit_result_t \<times> ('h zenit_queue_t \<times> 'h) \<times> byte list) option" where
  "q_dequeue_op st =
    map_option (\<lambda>(r, q, x). (r, (the q, snd st), the x))
      (zenit_queue_dequeue (Some (fst st))
        (Some (replicate (dq_elem_size (the (q_deque (fst st)))) 0)))"

lemma q_dequeue_op_dq:
  assumes "q_deque q = Some d"
    and "zenit_deque_pop_front (Some d) (Some (replicate (dq_elem_size d) 0)) = Some (r, Some d', Some x)"
  shows "q_dequeue_op (q, h) = Some (r, (q\<lparr>q_deque := Some d'\<rparr>, h), x)"
  using assms by (simp add: q_dequeue_op_def zenit_queue_dequeue_def)

interpretation q_store: fifo_store "q_ok live" "\<lambda>st. q_list (fst st)" q_fits q_enqueue_op q_dequeue_op
  for live :: "'h \<Rightarrow> nat set"
proof
  fix st :: "'h zenit_queue_t \<times> 'h" and e
  assume ok: "q_ok live st" and fits: "q_fits st e"
  obtain q h where st: "st = (q, h)" by (cases st)
  from ok st obtain d where d: "q_deque q = Some d" "dq_ok live (d, h)" "dq_allocator d = q_allocator q"
      "q_self q \<in> live h" "q_self q \<noteq> dq_self d" "q_self q \<notin> paddrs (dq_buffer d)"
    by (auto simp: q_ok_def)
  with fits st have f: "dq_fits (d, h) e" by (simp add: q_fits_def)
  then obtain r d' h' where p: "zenit_deque_push_back (Some d) (Some e) h = Some (r, Some d', h')"
      "dq_keeps live d h d' h'"
      "r = ZENIT_ERROR_ALLOC \<and> d' = d \<or> r = ZENIT_OK \<and> dq_list d' = dq_list d @ [e]"
    using deque_push_back_refines [of d live h e] d by (auto simp: dq_ok_def dq_fits_def)
  have "q_enqueue_op st e = Some (r, q\<lparr>q_deque := Some d'\<rparr>, h')"
    using st d(1) p(1) by (simp add: q_enqueue_op_def zenit_queue_enqueue_def)
  moreover have "q_ok live (q\<lparr>q_deque := Some d'\<rparr>, h')"
    using p(2) d by (auto simp: q_ok_def dq_ok_def dq_keeps_def)
  ultimately show "\<exists>r s'. q_enqueue_op st e = Some (r, s') \<and> q_ok live s' \<and>
      (r = ZENIT_OK \<and> q_list (fst s') = q_list (fst st) @ [e] \<or>
       r = ZENIT_ERROR_ALLOC \<and> q_list (fst s') = q_list (fst st))"
    using p(3) st d by (auto simp: q_list_def)
next
  fix st :: "'h zenit_queue_t \<times> 'h"
  assume ok: "q_ok live st" and ne: "q_list (fst st) \<noteq> []"
  obtain q h where st: "st = (q, h)" by (cases st)
  from ok st obtain d where d: "q_deque q = Some d" "dq_inv d" "dq_owned live d h"
      "dq_allocator d = q_allocator q" "q_self q \<in> live h - insert (dq_self d) (paddrs (dq_buffer d))"
    by (auto simp: q_ok_def dq_ok_def)
  have "dq_list d \<noteq> []" using ne st d by (simp add: q_list_def)
  with deque_pop_front_refines [OF d(2), of "replicate (dq_elem_size d) 0"] obtain d' where
    p: "zenit_deque_pop_front (Some d) (Some (replicate (dq_elem_size d) 0)) =
        Some (ZENIT_OK, Some d', Some (hd (dq_list d)))"
      "dq_inv d'" "dq_same_store d d'" "dq_list d' = tl (dq_list d)"
    by auto
  from q_dequeue_op_dq [OF d(1) p(1)] p(2-) d st
  show "\<exists>s'. q_dequeue_op st = Some (ZENIT_OK, s', hd (q_list (fst st))) \<and> q_ok live s' \<and>
      q_list (fst s') = tl (q_list (fst st))"
    by (simp add: q_ok_def q_list_def dq_ok_def dq_owned_def dq_same_store_def)
next
  fix st :: "'h zenit_queue_t \<times> 'h"
  assume ok: "q_ok live st" and e: "q_list (fst st) = []"
  obtain q h where st: "st = (q, h)" by (cases st)
  from ok st obtain d where d: "q_deque q = Some d" "dq_inv d" by (auto simp: q_ok_def dq_ok_def)
  have "dq_list d = []" using e st d by (simp add: q_list_def)
  with deque_pop_front_refines [OF d(2), of "replicate (dq_elem_size d) 0"]
  have "zenit_deque_pop_front (Some d) (Some (replicate (dq_elem_size d) 0)) =
      Some (ZENIT_ERROR_EMPTY, Some d, Some (replicate (dq_elem_size d) 0))"
    by simp
  from q_dequeue_op_dq [OF d(1) this] d(1) st
  show "\<exists>x. q_dequeue_op st = Some (ZENIT_ERROR_EMPTY, st, x)" by simp
qed

text \<open>
  C6: the queue is first-in first-out over any run of successful enqueues, growth and wrap-around
  of the backing deque included: dequeuing as many elements as were in the queue before the run
  returns exactly those, in order, and leaves the enqueued ones in order.
\<close>

theorem queue_fifo:
  assumes "q_ok live st" and "run_pushes q_fits q_enqueue_op st es = Some st'"
  shows "\<exists>t. run_pops q_dequeue_op (length (q_list (fst st))) st' = Some (q_list (fst st), t) \<and>
    q_ok live t \<and> q_list (fst t) = es"
  using assms by (rule q_store.fifo)

lemma queue_peek_is_head:
  assumes ok: "q_ok live (q, h)" and ne: "q_list q \<noteq> []"
  shows "\<exists>d p. q_deque q = Some d \<and> zenit_queue_peek (Some q) = Some p \<and>
    mem_read (dq_buffer d) p (dq_elem_size d) = Some (hd (q_list q))"
proof -
  from ok obtain d where d: "q_deque q = Some d" "dq_inv d" by (auto simp: q_ok_def dq_ok_def)
  with ne have n: "0 < dq_count d" "dq_list d \<noteq> []" by (auto simp: q_list_def simp flip: length_dq_list)
  from deque_get_reads [OF d(2) n(1)] deque_front_is_get [OF d(2)] show ?thesis
    using d n by (auto simp: zenit_queue_peek_def q_list_def hd_conv_nth)
qed

text \<open>
  destroying a queue, after any history that kept it well formed, releases its handle and both
  blocks of its deque, each once, and nothing else.
\<close>

theorem queue_destroy_releases:
  assumes ok: "q_ok live (q, h)" and d: "q_deque q = Some d"
  shows "\<exists>h'. zenit_queue_destroy (Some q) h = Some h' \<and>
    live h' = live h - ({q_self q, dq_self d} \<union> paddrs (dq_buffer d))"
proof -
  from ok d have o: "dq_owned live d h" "dq_allocator d = q_allocator q"
      "q_self q \<in> live h - insert (dq_self d) (paddrs (dq_buffer d))"
    by (auto simp: q_ok_def dq_ok_def)
  then have c: "allocator_contract (q_allocator q) live" by (simp add: dq_owned_def owned_def)
  obtain h1 where h1: "zenit_deque_destroy (Some d) h = Some h1"
      "live h1 = live h - insert (dq_self d) (paddrs (dq_buffer d))"
    using deque_destroy_owned [OF o(1)] by blast
  then have "q_self q \<in> live h1" using o(3) by simp
  from allocator_contract.free_addr [OF c this] obtain h2 where
    "free_fn (q_allocator q) (Some (q_self q)) h1 = Some h2" "live h2 = live h1 - {q_self q}" by blast
  then show ?thesis using d h1 by (auto simp: zenit_queue_destroy_def)
qed

lemma queue_create_cases:
  assumes c: "allocator_contract a live" and n: "0 < es" "16 * es < size_mod"
  obtains (null) h' where "zenit_queue_create_with_allocator es a h = Some (None, h')"
      and "live h' = live h"
  | (made) q h' where "zenit_queue_create_with_allocator es a h = Some (Some q, h')"
      and "q_ok live (q, h')" and "q_list q = []"
proof (cases rule: allocator_contract.alloc_cases [OF c, of sizeof_queue h, case_names null block])
  case (null h1)
  then show thesis using n that(1) by (simp add: zenit_queue_create_with_allocator_def)
next
  case (block b h1)
  show thesis
  proof (cases rule: deque_create_cases [OF c n(1), of 8 h1, case_names pos sz null made])
    case (null h2)
    then have "maddr b \<in> live h2" using block by simp
    from allocator_contract.free_addr [OF c this] obtain h3 where
      "free_fn a (Some (maddr b)) h2 = Some h3" "live h3 = live h2 - {maddr b}" by blast
    then show thesis using n block null that(1) [of h3]
      by (simp add: zenit_queue_create_with_allocator_def zenit_deque_create_with_allocator_def)
  next
    case (made d h2)
    let ?q = "\<lparr>q_self = maddr b, q_deque = Some d, q_elem_size = es, q_allocator = a\<rparr>"
    have "zenit_queue_create_with_allocator es a h = Some (Some ?q, h2)"
      using n block made
      by (simp add: zenit_queue_create_with_allocator_def zenit_deque_create_with_allocator_def)
    moreover have "q_ok live (?q, h2)" using made block by (auto simp: q_ok_def dq_ok_def)
    ultimately show thesis using made by (intro that(2) [of ?q h2]) (simp_all add: q_list_def)
  qed (use n in simp_all)
qed

section \<open>Concrete instances\<close>

definition demo_queue :: "c_heap zenit_queue_t" where
  "demo_queue = \<lparr>q_self = 3, q_deque = Some demo_deque, q_elem_size = 1,
     q_allocator = ZENIT_ALLOCATOR_DEFAULT\<rparr>"

definition demo_queue_heap :: c_heap where
  "demo_queue_heap = \<lparr>heap_live = [3, 2, 1], heap_script = [], heap_junk = 0\<rparr>"

lemma demo_queue_ok: "q_ok heap_addrs (demo_queue, demo_queue_heap)"
  using default_contract demo_deque_inv
  by (simp add: q_ok_def dq_ok_def dq_owned_def owned_def demo_queue_def demo_deque_def
      demo_queue_heap_def heap_addrs_def)

text \<open>Three enqueues, the last of which grows the circle from 4 slots to 6.\<close>

lemma demo_queue_fill:
  "\<not> Option.is_none (run_pushes q_fits q_enqueue_op (demo_queue, demo_queue_heap) [[7], [8], [9]])"
  by code_simp

theorem queue_fifo_witness:
  "\<exists>st' t. run_pushes q_fits q_enqueue_op (demo_queue, demo_queue_heap) [[7], [8], [9]] = Some st' \<and>
    run_pops q_dequeue_op 2 st' = Some ([[5], [6]], t) \<and> q_ok heap_addrs t \<and>
    q_list (fst t) = [[7], [8], [9]]"
proof -
  obtain st' where "run_pushes q_fits q_enqueue_op (demo_queue, demo_queue_heap) [[7], [8], [9]] = Some st'"
    using demo_queue_fill by (auto simp: Option.is_none_def)
  then show ?thesis using queue_fifo [OF demo_queue_ok, of "[[7], [8], [9]]" st']
    by (simp add: demo_queue_def q_list_def demo_deque_list numeral_2_eq_2)
qed

theorem queue_destroy_releases_witness:
  "\<exists>h'. zenit_queue_destroy (Some demo_queue) demo_queue_heap = Some h' \<and> heap_addrs h' = {}"
  using queue_destroy_releases [OF demo_queue_ok, of demo_deque]
  by (auto simp: demo_queue_def demo_queue_heap_def demo_deque_def heap_addrs_def)

end
