(* ===== verification/Zenit_Heap.thy ===== *)
theory Zenit_Heap
  imports Zenit_Allocator Zenit_Interfaces Zenit_Compare
begin

text \<open>
  The binary heap (\<open>include/libzenit/heap.h\<close>, \<open>src/heap.c\<close>). The operations work on the bytes
  of the buffer; the algorithms are first proved on lists of elements (\<open>sift_up_list\<close>,
  \<open>sift_down_list\<close>), and the byte-level routines are shown to compute exactly those.
\<close>

section \<open>State and operations\<close>

record 'h zenit_heap_t =
  hp_self :: nat
  hp_buffer :: ptr
  hp_elem_size :: nat
  hp_count :: nat
  hp_capacity :: nat
  hp_compare :: "byte list \<Rightarrow> byte list \<Rightarrow> int"
  hp_allocator :: "'h zenit_allocator_t"

definition sizeof_heap :: nat where
  "sizeof_heap = 72"

fun swap_bytes :: "ptr \<Rightarrow> nat \<Rightarrow> nat \<Rightarrow> nat \<Rightarrow> ptr option" where
  "swap_bytes p a b 0 = Some p"
| "swap_bytes p a b (Suc n) = do {
     t \<leftarrow> mem_read p a 1;
     u \<leftarrow> mem_read p b 1;
     p1 \<leftarrow> mem_write p a u;
     p2 \<leftarrow> mem_write p1 b t;
     swap_bytes p2 (a + 1) (b + 1) n
   }"

definition swap_elements :: "ptr \<Rightarrow> nat \<Rightarrow> nat \<Rightarrow> nat \<Rightarrow> ptr option" where
  "swap_elements buf elem_size i j =
    swap_bytes buf (sz_mul i elem_size) (sz_mul j elem_size) elem_size"

text \<open>Comparing the elements at two indices of the buffer.\<close>

definition heap_cmp_at ::
    "(byte list \<Rightarrow> byte list \<Rightarrow> int) \<Rightarrow> nat \<Rightarrow> ptr \<Rightarrow> nat \<Rightarrow> nat \<Rightarrow> int option" where
  "heap_cmp_at cmp es buf i j = do {
     x \<leftarrow> mem_read buf (sz_mul i es) es;
     y \<leftarrow> mem_read buf (sz_mul j es) es;
     Some (cmp x y)
   }"

function sift_up ::
    "(byte list \<Rightarrow> byte list \<Rightarrow> int) \<Rightarrow> nat \<Rightarrow> ptr \<Rightarrow> nat \<Rightarrow> ptr option" where
  "sift_up cmp es buf idx =
    (if 0 < idx then do {
       let parent = (idx - 1) div 2;
       c \<leftarrow> heap_cmp_at cmp es buf idx parent;
       if c \<le> 0 then Some buf
       else do { b \<leftarrow> swap_elements buf es idx parent; sift_up cmp es b parent }
     } else Some buf)"
  by pat_completeness auto
termination
  by (relation "measure (\<lambda>(cmp, es, buf, idx). idx)") auto

declare sift_up.simps [simp del]

text \<open>
  The loop of \<open>sift_down\<close> is \<open>None\<close> when it does not end: the child index wraps around modulo
  \<open>2 ^ 64\<close>, so its termination is a theorem about the heap, not about the loop.
\<close>

partial_function (option) sift_down ::
    "(byte list \<Rightarrow> byte list \<Rightarrow> int) \<Rightarrow> nat \<Rightarrow> nat \<Rightarrow> ptr \<Rightarrow> nat \<Rightarrow> ptr option" where
  "sift_down cmp es n buf idx = do {
     let left = sz_add (sz_mul 2 idx) 1;
     let right = sz_add (sz_mul 2 idx) 2;
     c1 \<leftarrow> (if left < n then heap_cmp_at cmp es buf left idx else Some 0);
     let largest1 = (if 0 < c1 then left else idx);
     c2 \<leftarrow> (if right < n then heap_cmp_at cmp es buf right largest1 else Some 0);
     let largest = (if 0 < c2 then right else largest1);
     if largest = idx then Some buf
     else do { b \<leftarrow> swap_elements buf es idx largest; sift_down cmp es n b largest }
   }"

declare sift_down.simps [code]

definition heap_realloc_buffer ::
    "'h zenit_heap_t \<Rightarrow> nat \<Rightarrow> 'h \<Rightarrow> (zenit_result_t \<times> 'h zenit_heap_t \<times> 'h) option" where
  "heap_realloc_buffer p new_cap h = do {
     (nb, h1) \<leftarrow> zenit_allocator_realloc (hp_allocator p) (hp_buffer p)
       (sz_mul (hp_capacity p) (hp_elem_size p)) (sz_mul new_cap (hp_elem_size p)) h;
     case nb of
       None \<Rightarrow> Some (ZENIT_ERROR_ALLOC, p, h1)
     | Some b \<Rightarrow> Some (ZENIT_OK, p\<lparr>hp_buffer := Some b, hp_capacity := new_cap\<rparr>, h1)
   }"

definition heap_grow ::
    "'h zenit_heap_t \<Rightarrow> nat \<Rightarrow> 'h \<Rightarrow> (zenit_result_t \<times> 'h zenit_heap_t \<times> 'h) option" where
  "heap_grow p min_capacity h = do {
     new_cap \<leftarrow> grow_cap (hp_capacity p) min_capacity;
     heap_realloc_buffer p new_cap h
   }"

definition zenit_heap_create_with_capacity_and_allocator ::
    "nat \<Rightarrow> (byte list \<Rightarrow> byte list \<Rightarrow> int) option \<Rightarrow> nat \<Rightarrow> 'h zenit_allocator_t \<Rightarrow> 'h \<Rightarrow>
     ('h zenit_heap_t option \<times> 'h) option" where
  "zenit_heap_create_with_capacity_and_allocator elem_size compare capacity a h =
    (case compare of None \<Rightarrow> Some (None, h) | Some cmp \<Rightarrow>
     if elem_size = 0 \<or> capacity = 0 then Some (None, h)
     else case alloc_fn a sizeof_heap h of
       (None, h1) \<Rightarrow> Some (None, h1)
     | (Some p, h1) \<Rightarrow>
         (case alloc_fn a (sz_mul capacity elem_size) h1 of
            (None, h2) \<Rightarrow> do { h3 \<leftarrow> free_fn a (Some (maddr p)) h2; Some (None, h3) }
          | (Some buf, h2) \<Rightarrow>
              Some (Some \<lparr>hp_self = maddr p, hp_buffer = Some buf, hp_elem_size = elem_size,
                      hp_count = 0, hp_capacity = capacity, hp_compare = cmp, hp_allocator = a\<rparr>, h2)))"

definition zenit_heap_create_with_allocator ::
    "nat \<Rightarrow> (byte list \<Rightarrow> byte list \<Rightarrow> int) option \<Rightarrow> 'h zenit_allocator_t \<Rightarrow> 'h \<Rightarrow>
     ('h zenit_heap_t option \<times> 'h) option" where
  "zenit_heap_create_with_allocator elem_size compare a =
    zenit_heap_create_with_capacity_and_allocator elem_size compare 8 a"

definition zenit_heap_create ::
    "nat \<Rightarrow> (byte list \<Rightarrow> byte list \<Rightarrow> int) option \<Rightarrow> c_heap \<Rightarrow>
     (c_heap zenit_heap_t option \<times> c_heap) option" where
  "zenit_heap_create elem_size compare =
    zenit_heap_create_with_allocator elem_size compare ZENIT_ALLOCATOR_DEFAULT"

definition zenit_heap_create_with_capacity ::
    "nat \<Rightarrow> (byte list \<Rightarrow> byte list \<Rightarrow> int) option \<Rightarrow> nat \<Rightarrow> c_heap \<Rightarrow>
     (c_heap zenit_heap_t option \<times> c_heap) option" where
  "zenit_heap_create_with_capacity elem_size compare capacity =
    zenit_heap_create_with_capacity_and_allocator elem_size compare capacity ZENIT_ALLOCATOR_DEFAULT"

definition zenit_heap_destroy :: "'h zenit_heap_t option \<Rightarrow> 'h \<Rightarrow> 'h option" where
  "zenit_heap_destroy heap h =
    (case heap of None \<Rightarrow> Some h
     | Some p \<Rightarrow> do {
         h1 \<leftarrow> free_fn (hp_allocator p) (paddr (hp_buffer p)) h;
         free_fn (hp_allocator p) (Some (hp_self p)) h1
       })"

definition zenit_heap_push ::
    "'h zenit_heap_t option \<Rightarrow> byte list option \<Rightarrow> 'h \<Rightarrow>
     (zenit_result_t \<times> 'h zenit_heap_t option \<times> 'h) option" where
  "zenit_heap_push heap elem h =
    (case (heap, elem) of
       (Some p, Some e) \<Rightarrow> do {
         (r, p1, h1) \<leftarrow> (if hp_count p = hp_capacity p
            then heap_grow p (sz_add (hp_capacity p) 1) h else Some (ZENIT_OK, p, h));
         if r \<noteq> ZENIT_OK then Some (r, Some p1, h1)
         else do {
           x \<leftarrow> user_read e (hp_elem_size p1);
           b \<leftarrow> mem_write (hp_buffer p1) (sz_mul (hp_count p1) (hp_elem_size p1)) x;
           let n = sz_add (hp_count p1) 1;
           b' \<leftarrow> sift_up (hp_compare p1) (hp_elem_size p1) b (sz_sub n 1);
           Some (ZENIT_OK, Some (p1\<lparr>hp_buffer := b', hp_count := n\<rparr>), h1)
         }
       }
     | _ \<Rightarrow> Some (ZENIT_ERROR_NULL, heap, h))"

definition zenit_heap_pop ::
    "'h zenit_heap_t option \<Rightarrow> byte list option \<Rightarrow>
     (zenit_result_t \<times> 'h zenit_heap_t option \<times> byte list option) option" where
  "zenit_heap_pop heap out =
    (case (heap, out) of
       (Some p, Some o1) \<Rightarrow>
         if hp_count p = 0 then Some (ZENIT_ERROR_EMPTY, heap, out)
         else do {
           x \<leftarrow> mem_read (hp_buffer p) 0 (hp_elem_size p);
           o2 \<leftarrow> user_write o1 0 x;
           let n = sz_sub (hp_count p) 1;
           if 0 < n then do {
             y \<leftarrow> mem_read (hp_buffer p) (sz_mul n (hp_elem_size p)) (hp_elem_size p);
             b \<leftarrow> mem_write (hp_buffer p) 0 y;
             b' \<leftarrow> sift_down (hp_compare p) (hp_elem_size p) n b 0;
             Some (ZENIT_OK, Some (p\<lparr>hp_buffer := b', hp_count := n\<rparr>), Some o2)
           } else Some (ZENIT_OK, Some (p\<lparr>hp_count := n\<rparr>), Some o2)
         }
     | _ \<Rightarrow> Some (ZENIT_ERROR_NULL, heap, out))"

definition zenit_heap_peek :: "'h zenit_heap_t option \<Rightarrow> ptr" where
  "zenit_heap_peek heap =
    (case heap of None \<Rightarrow> None | Some p \<Rightarrow> if hp_count p = 0 then None else hp_buffer p)"

definition zenit_heap_count :: "'h zenit_heap_t option \<Rightarrow> nat" where
  "zenit_heap_count heap = (case heap of None \<Rightarrow> 0 | Some p \<Rightarrow> hp_count p)"

definition zenit_heap_capacity :: "'h zenit_heap_t option \<Rightarrow> nat" where
  "zenit_heap_capacity heap = (case heap of None \<Rightarrow> 0 | Some p \<Rightarrow> hp_capacity p)"

definition zenit_heap_empty :: "'h zenit_heap_t option \<Rightarrow> bool" where
  "zenit_heap_empty heap = (case heap of None \<Rightarrow> True | Some p \<Rightarrow> hp_count p = 0)"

definition zenit_heap_clear :: "'h zenit_heap_t option \<Rightarrow> 'h zenit_heap_t option" where
  "zenit_heap_clear heap = map_option (\<lambda>p. p\<lparr>hp_count := 0\<rparr>) heap"

definition zenit_heap_reserve ::
    "'h zenit_heap_t option \<Rightarrow> nat \<Rightarrow> 'h \<Rightarrow> (zenit_result_t \<times> 'h zenit_heap_t option \<times> 'h) option" where
  "zenit_heap_reserve heap capacity h =
    (case heap of
       None \<Rightarrow> Some (ZENIT_ERROR_NULL, None, h)
     | Some p \<Rightarrow> if capacity \<le> hp_capacity p then Some (ZENIT_OK, heap, h)
         else map_option (\<lambda>(r, p', h'). (r, Some p', h')) (heap_realloc_buffer p capacity h))"

text \<open>Floyd's loop: \<open>idx\<close> counts down, sifting each parent.\<close>

fun heapify ::
    "(byte list \<Rightarrow> byte list \<Rightarrow> int) \<Rightarrow> nat \<Rightarrow> nat \<Rightarrow> ptr \<Rightarrow> nat \<Rightarrow> ptr option" where
  "heapify cmp es n buf 0 = Some buf"
| "heapify cmp es n buf (Suc idx) = do {
     b \<leftarrow> sift_down cmp es n buf idx;
     heapify cmp es n b idx
   }"

definition zenit_heap_build ::
    "'h zenit_heap_t option \<Rightarrow> byte list option \<Rightarrow> nat \<Rightarrow> 'h \<Rightarrow>
     (zenit_result_t \<times> 'h zenit_heap_t option \<times> 'h) option" where
  "zenit_heap_build heap array cnt h =
    (case (heap, array) of
       (Some p, Some src) \<Rightarrow>
         if cnt = 0 then Some (ZENIT_OK, Some (p\<lparr>hp_count := 0\<rparr>), h)
         else do {
           (r, p1, h1) \<leftarrow> (if hp_capacity p < cnt then heap_realloc_buffer p cnt h
              else Some (ZENIT_OK, p, h));
           if r \<noteq> ZENIT_OK then Some (r, Some p1, h1)
           else do {
             x \<leftarrow> user_read src (sz_mul cnt (hp_elem_size p1));
             b \<leftarrow> mem_write (hp_buffer p1) 0 x;
             b' \<leftarrow> heapify (hp_compare p1) (hp_elem_size p1) cnt b (cnt div 2);
             Some (ZENIT_OK, Some (p1\<lparr>hp_buffer := b', hp_count := cnt\<rparr>), h1)
           }
         }
     | _ \<Rightarrow> Some (ZENIT_ERROR_NULL, heap, h))"

section \<open>The algorithms on lists\<close>

function sift_up_list :: "('a \<Rightarrow> 'a \<Rightarrow> int) \<Rightarrow> 'a list \<Rightarrow> nat \<Rightarrow> 'a list" where
  "sift_up_list cmp xs idx =
    (if 0 < idx \<and> 0 < cmp (xs ! idx) (xs ! ((idx - 1) div 2))
     then sift_up_list cmp (swap_list xs idx ((idx - 1) div 2)) ((idx - 1) div 2) else xs)"
  by pat_completeness auto
termination
  by (relation "measure (\<lambda>(cmp, xs, idx). idx)") auto

definition heap_largest :: "('a \<Rightarrow> 'a \<Rightarrow> int) \<Rightarrow> 'a list \<Rightarrow> nat \<Rightarrow> nat" where
  "heap_largest cmp xs idx =
    (let n = length xs;
       a = (if 2 * idx + 1 < n \<and> 0 < cmp (xs ! (2 * idx + 1)) (xs ! idx) then 2 * idx + 1 else idx)
     in if 2 * idx + 2 < n \<and> 0 < cmp (xs ! (2 * idx + 2)) (xs ! a) then 2 * idx + 2 else a)"

lemma heap_largest_child:
  "heap_largest cmp xs idx \<noteq> idx \<Longrightarrow> idx < heap_largest cmp xs idx \<and>
   heap_largest cmp xs idx < length xs \<and> (heap_largest cmp xs idx - 1) div 2 = idx"
  by (auto simp: heap_largest_def Let_def split: if_splits)

function sift_down_list :: "('a \<Rightarrow> 'a \<Rightarrow> int) \<Rightarrow> 'a list \<Rightarrow> nat \<Rightarrow> 'a list" where
  "sift_down_list cmp xs idx =
    (if heap_largest cmp xs idx = idx then xs
     else sift_down_list cmp (swap_list xs idx (heap_largest cmp xs idx)) (heap_largest cmp xs idx))"
  by pat_completeness auto
termination
  by (relation "measure (\<lambda>(cmp, xs, idx). length xs - idx)") (use heap_largest_child in \<open>force+\<close>)

declare sift_up_list.simps [simp del] sift_down_list.simps [simp del]

fun heapify_list :: "('a \<Rightarrow> 'a \<Rightarrow> int) \<Rightarrow> 'a list \<Rightarrow> nat \<Rightarrow> 'a list" where
  "heapify_list cmp xs 0 = xs"
| "heapify_list cmp xs (Suc idx) = heapify_list cmp (sift_down_list cmp xs idx) idx"

text \<open>Heap order for the parents from \<open>lo\<close> on, with the exception of parent \<open>ex\<close> (see below).\<close>

definition heap_from :: "('a \<Rightarrow> 'a \<Rightarrow> int) \<Rightarrow> nat \<Rightarrow> 'a list \<Rightarrow> bool" where
  "heap_from cmp lo xs \<longleftrightarrow>
    (\<forall>i \<in> {1..<length xs}. lo \<le> (i - 1) div 2 \<longrightarrow> cmp (xs ! i) (xs ! ((i - 1) div 2)) \<le> 0)"

text \<open>
  Heap order broken only between \<open>k\<close> and its children (on the way down) or its parent (on the
  way up); the children of \<open>k\<close> are still below its parent.
\<close>

definition heap_except_below :: "('a \<Rightarrow> 'a \<Rightarrow> int) \<Rightarrow> nat \<Rightarrow> nat \<Rightarrow> 'a list \<Rightarrow> bool" where
  "heap_except_below cmp lo k xs \<longleftrightarrow>
    (\<forall>i \<in> {1..<length xs}. lo \<le> (i - 1) div 2 \<and> (i - 1) div 2 \<noteq> k \<longrightarrow>
       cmp (xs ! i) (xs ! ((i - 1) div 2)) \<le> 0) \<and>
    (\<forall>i \<in> {1..<length xs}. (i - 1) div 2 = k \<and> 0 < k \<and> lo \<le> (k - 1) div 2 \<longrightarrow>
       cmp (xs ! i) (xs ! ((k - 1) div 2)) \<le> 0)"

definition heap_except_above :: "('a \<Rightarrow> 'a \<Rightarrow> int) \<Rightarrow> nat \<Rightarrow> 'a list \<Rightarrow> bool" where
  "heap_except_above cmp k xs \<longleftrightarrow>
    (\<forall>i \<in> {1..<length xs}. i \<noteq> k \<longrightarrow> cmp (xs ! i) (xs ! ((i - 1) div 2)) \<le> 0) \<and>
    (\<forall>i \<in> {1..<length xs}. (i - 1) div 2 = k \<and> 0 < k \<longrightarrow> cmp (xs ! i) (xs ! ((k - 1) div 2)) \<le> 0)"

lemma length_sift_up_list [simp]: "length (sift_up_list cmp xs idx) = length xs"
  by (induction cmp xs idx rule: sift_up_list.induct) (subst sift_up_list.simps, simp)

lemma length_sift_down_list [simp]: "length (sift_down_list cmp xs idx) = length xs"
  by (induction cmp xs idx rule: sift_down_list.induct) (subst sift_down_list.simps, simp)

lemma mset_sift_up_list: "idx < length xs \<Longrightarrow> mset (sift_up_list cmp xs idx) = mset xs"
proof (induction cmp xs idx rule: sift_up_list.induct)
  case (1 cmp xs idx)
  have "(idx - 1) div 2 < length xs" using 1(2) by linarith
  then show ?case using 1 by (subst sift_up_list.simps) simp
qed

lemma mset_sift_down_list: "idx < length xs \<Longrightarrow> mset (sift_down_list cmp xs idx) = mset xs"
proof (induction cmp xs idx rule: sift_down_list.induct)
  case (1 cmp xs idx)
  show ?case using 1 heap_largest_child [of cmp xs idx] by (subst sift_down_list.simps) simp
qed

lemma parent_iff: "0 < i \<Longrightarrow> (i - 1) div 2 = k \<longleftrightarrow> i = 2 * k + 1 \<or> i = 2 * k + (2::nat)"
  by presburger

lemma parent_less: "0 < i \<Longrightarrow> (i - 1) div 2 < (i::nat)"
  by linarith

context total_compare
begin

lemma heap_largest_ge:
  assumes "i < length xs" and "0 < i" and "(i - 1) div 2 = k"
  shows "cmp (xs ! i) (xs ! heap_largest cmp xs k) \<le> 0"
    and "cmp (xs ! k) (xs ! heap_largest cmp xs k) \<le> 0"
proof -
  let ?l = "2 * k + 1" and ?r = "2 * k + 2"
  have i: "i = ?l \<or> i = ?r" using assms(2,3) parent_iff by blast
  then have l: "?l < length xs" using assms(1) by auto
  define a where "a = (if 0 < cmp (xs ! ?l) (xs ! k) then ?l else k)"
  define b where "b = (if ?r < length xs \<and> 0 < cmp (xs ! ?r) (xs ! a) then ?r else a)"
  have b: "heap_largest cmp xs k = b" using l by (simp add: heap_largest_def a_def b_def Let_def)
  have a: "cmp (xs ! ?l) (xs ! a) \<le> 0" "cmp (xs ! k) (xs ! a) \<le> 0"
    using cmp_total [of "xs ! ?l" "xs ! k"] by (auto simp: a_def)
  have ab: "cmp (xs ! a) (xs ! b) \<le> 0" and rb: "?r < length xs \<Longrightarrow> cmp (xs ! ?r) (xs ! b) \<le> 0"
    using cmp_total [of "xs ! ?r" "xs ! a"] by (auto simp: b_def)
  show "cmp (xs ! k) (xs ! heap_largest cmp xs k) \<le> 0" unfolding b by (rule cmp_trans [OF a(2) ab])
  show "cmp (xs ! i) (xs ! heap_largest cmp xs k) \<le> 0"
    unfolding b using i cmp_trans [OF a(1) ab] rb assms(1) by auto
qed

lemma heap_except_below_step:
  assumes h: "heap_except_below cmp lo k xs" and lo: "lo \<le> k" and k: "k < length xs"
    and b: "heap_largest cmp xs k \<noteq> k"
  defines "j \<equiv> heap_largest cmp xs k"
  shows "heap_except_below cmp lo j (swap_list xs k j)"
proof -
  have j: "k < j" "j < length xs" "(j - 1) div 2 = k"
    using heap_largest_child [OF b] by (simp_all add: j_def)
  have nth: "swap_list xs k j ! i = (if i = j then xs ! k else if i = k then xs ! j else xs ! i)"
    if "i < length xs" for i using swap_list_nth [OF k j(2) that] .
  have big: "cmp (xs ! i) (xs ! j) \<le> 0" "cmp (xs ! k) (xs ! j) \<le> 0"
    if "i < length xs" "0 < i" "(i - 1) div 2 = k" for i
    using heap_largest_ge [OF that] by (simp_all add: j_def)
  from h have A: "\<And>i. i \<in> {1..<length xs} \<Longrightarrow> lo \<le> (i - 1) div 2 \<Longrightarrow> (i - 1) div 2 \<noteq> k \<Longrightarrow>
      cmp (xs ! i) (xs ! ((i - 1) div 2)) \<le> 0"
    and B: "\<And>i. i \<in> {1..<length xs} \<Longrightarrow> (i - 1) div 2 = k \<Longrightarrow> 0 < k \<Longrightarrow> lo \<le> (k - 1) div 2 \<Longrightarrow>
      cmp (xs ! i) (xs ! ((k - 1) div 2)) \<le> 0"
    by (auto simp: heap_except_below_def)
  have "cmp (swap_list xs k j ! i) (swap_list xs k j ! ((i - 1) div 2)) \<le> 0"
    if i: "i \<in> {1..<length xs}" "lo \<le> (i - 1) div 2" "(i - 1) div 2 \<noteq> j" for i
  proof -
    let ?p = "(i - 1) div 2"
    have p: "?p < i" "?p < length xs" "i < length xs" "0 < i" using i parent_less [of i] by auto
    consider (child) "?p = k" | (here) "?p \<noteq> k" "i = k" | (other) "?p \<noteq> k" "i \<noteq> k" by blast
    then show ?thesis
    proof cases
      case child
      then have "i \<noteq> k" using p by auto
      then show ?thesis using big [OF p(3,4) child] nth [OF p(2)] nth [OF p(3)] child j by auto
    next
      case here
      then have "?p \<noteq> j" "k \<noteq> j" using p j by auto
      then show ?thesis using B [of j] here i j nth [OF p(2)] nth [OF p(3)] by auto
    next
      case other
      then have "i \<noteq> j" using j by auto
      then show ?thesis using A [OF i(1,2)] other nth [OF p(2)] nth [OF p(3)] i by auto
    qed
  qed
  moreover have "cmp (swap_list xs k j ! i) (swap_list xs k j ! ((j - 1) div 2)) \<le> 0"
    if i: "i \<in> {1..<length xs}" "(i - 1) div 2 = j" for i
  proof -
    have "i \<noteq> j" "i \<noteq> k" using i j parent_less [of i] by auto
    then show ?thesis using A [OF i(1)] i j lo nth [of i] nth [of k] k by auto
  qed
  ultimately show ?thesis by (auto simp: heap_except_below_def)
qed

lemma sift_down_list_heap:
  "heap_except_below cmp lo k xs \<Longrightarrow> lo \<le> k \<Longrightarrow> k < length xs \<Longrightarrow>
   heap_from cmp lo (sift_down_list cmp xs k)"
proof (induction "length xs - k" arbitrary: xs k rule: less_induct)
  case less
  let ?j = "heap_largest cmp xs k"
  show ?case
  proof (cases "?j = k")
    case True
    have "cmp (xs ! i) (xs ! ((i - 1) div 2)) \<le> 0"
      if i: "i \<in> {1..<length xs}" "lo \<le> (i - 1) div 2" for i
      using less.prems(1) heap_largest_ge(1) [of i xs k] True i
      by (cases "(i - 1) div 2 = k") (auto simp: heap_except_below_def)
    then show ?thesis using True by (subst sift_down_list.simps) (auto simp: heap_from_def)
  next
    case False
    note j = heap_largest_child [OF False]
    have "heap_from cmp lo (sift_down_list cmp (swap_list xs k ?j) ?j)"
      using less.prems j heap_except_below_step [OF less.prems False] by (intro less.hyps) auto
    then show ?thesis using False by (subst sift_down_list.simps) simp
  qed
qed

lemma heap_except_above_step:
  assumes h: "heap_except_above cmp k xs" and k: "k < length xs" "0 < k"
    and gt: "0 < cmp (xs ! k) (xs ! ((k - 1) div 2))"
  defines "j \<equiv> (k - 1) div 2"
  shows "heap_except_above cmp j (swap_list xs k j)"
proof -
  have j: "j < k" "j < length xs" "cmp (xs ! j) (xs ! k) \<le> 0"
    using k parent_less [of k] gt cmp_total by (auto simp: j_def)
  have nth: "swap_list xs k j ! i = (if i = j then xs ! k else if i = k then xs ! j else xs ! i)"
    if "i < length xs" for i using swap_list_nth [OF k(1) j(2) that] .
  from h have A: "\<And>i. i \<in> {1..<length xs} \<Longrightarrow> i \<noteq> k \<Longrightarrow> cmp (xs ! i) (xs ! ((i - 1) div 2)) \<le> 0"
    and B: "\<And>i. i \<in> {1..<length xs} \<Longrightarrow> (i - 1) div 2 = k \<Longrightarrow> cmp (xs ! i) (xs ! j) \<le> 0"
    using k by (auto simp: heap_except_above_def j_def)
  have sib: "cmp (xs ! i) (xs ! k) \<le> 0" if "i \<in> {1..<length xs}" "(i - 1) div 2 = j" for i
    using A [of i] that j(3) cmp_trans by (cases "i = k") auto
  have "cmp (swap_list xs k j ! i) (swap_list xs k j ! ((i - 1) div 2)) \<le> 0"
    if i: "i \<in> {1..<length xs}" "i \<noteq> j" for i
  proof -
    let ?p = "(i - 1) div 2"
    have p: "?p < i" "?p < length xs" "i < length xs" using i parent_less [of i] by auto
    consider (same) "?p = j" | (child) "?p = k" | (other) "?p \<noteq> j" "?p \<noteq> k" by blast
    then show ?thesis
    proof cases
      case same
      then show ?thesis using sib [OF i(1)] i j nth [OF p(2)] nth [OF p(3)] by auto
    next
      case child
      then show ?thesis using B [OF i(1)] i j p nth [OF p(2)] nth [OF p(3)] by auto
    next
      case other
      then have "i \<noteq> k" by (auto simp: j_def)
      then show ?thesis using A [OF i(1)] other i nth [OF p(2)] nth [OF p(3)] by auto
    qed
  qed
  moreover have "cmp (swap_list xs k j ! i) (swap_list xs k j ! ((j - 1) div 2)) \<le> 0"
    if i: "i \<in> {1..<length xs}" "(i - 1) div 2 = j" "0 < j" for i
  proof -
    have q: "(j - 1) div 2 < j" using parent_less [OF i(3)] .
    have up: "cmp (xs ! j) (xs ! ((j - 1) div 2)) \<le> 0" using A [of j] i j by auto
    moreover have "i \<noteq> j" using i parent_less [of i] by auto
    ultimately show ?thesis
      using A [of i] i j q nth [of i] nth [of "(j - 1) div 2"] cmp_trans [OF _ up] by auto
  qed
  ultimately show ?thesis by (auto simp: heap_except_above_def)
qed

lemma sift_up_list_heap:
  "heap_except_above cmp k xs \<Longrightarrow> k < length xs \<Longrightarrow> heap_from cmp 0 (sift_up_list cmp xs k)"
proof (induction k arbitrary: xs rule: less_induct)
  case (less k)
  let ?j = "(k - 1) div 2"
  show ?case
  proof (cases "0 < k \<and> 0 < cmp (xs ! k) (xs ! ?j)")
    case True
    then have "heap_from cmp 0 (sift_up_list cmp (swap_list xs k ?j) ?j)"
      using less.prems heap_except_above_step [OF less.prems] parent_less [of k] by (intro less.IH) auto
    then show ?thesis using True by (subst sift_up_list.simps) simp
  next
    case False
    then have "heap_from cmp 0 xs" using less.prems
      by (auto simp: heap_except_above_def heap_from_def linorder_not_less)
    then show ?thesis using False by (subst sift_up_list.simps) auto
  qed
qed

lemma heap_root_max: "heap_from cmp 0 xs \<Longrightarrow> i < length xs \<Longrightarrow> cmp (xs ! i) (xs ! 0) \<le> 0"
proof (induction i rule: less_induct)
  case (less i)
  show ?case
  proof (cases "i = 0")
    case False
    then have p: "(i - 1) div 2 < i" using parent_less by blast
    then have "cmp (xs ! ((i - 1) div 2)) (xs ! 0) \<le> 0" using less by auto
    moreover have "cmp (xs ! i) (xs ! ((i - 1) div 2)) \<le> 0"
      using less.prems False by (auto simp: heap_from_def)
    ultimately show ?thesis by (rule cmp_trans [rotated])
  qed simp
qed

lemma heapify_list_heap:
  "heap_from cmp k xs \<Longrightarrow> k \<le> length xs \<Longrightarrow> heap_from cmp 0 (heapify_list cmp xs k)"
proof (induction k arbitrary: xs)
  case (Suc k)
  have "heap_except_below cmp k k xs" using Suc.prems(1)
    by (auto simp: heap_from_def heap_except_below_def not_less_eq_eq)
  then show ?case using Suc.prems sift_down_list_heap [of k k xs] by (auto intro: Suc.IH)
qed simp

end

lemma length_heapify_list [simp]: "length (heapify_list cmp xs k) = length xs"
  by (induction k arbitrary: xs) simp_all

lemma mset_heapify_list: "k \<le> length xs \<Longrightarrow> mset (heapify_list cmp xs k) = mset xs"
  by (induction k arbitrary: xs) (simp_all add: mset_sift_down_list)

text \<open>Past the last parent there is nothing to check.\<close>

lemma heap_from_leaves: "heap_from cmp (length xs div 2) xs"
  by (auto simp: heap_from_def)

section \<open>The byte-level routines compute the list algorithms\<close>

lemma swap_bytes_nth:
  assumes "a + n \<le> plen p" and "c + n \<le> plen p" and "a + n \<le> c \<or> c + n \<le> a"
    and "p \<noteq> None"
  shows "\<exists>q. swap_bytes p a c n = Some q \<and> same_block p q \<and>
    (\<forall>k < plen p. pbytes q ! k =
      (if a \<le> k \<and> k < a + n then pbytes p ! (c + (k - a))
       else if c \<le> k \<and> k < c + n then pbytes p ! (a + (k - c)) else pbytes p ! k))"
  using assms
proof (induction n arbitrary: p a c)
  case (Suc n)
  obtain b where b: "p = Some b" using Suc.prems by auto
  let ?m = "mbytes b"
  define m1 where "m1 = ?m[a := ?m ! c, c := ?m ! a]"
  let ?p2 = "Some (b\<lparr>mbytes := m1\<rparr>)"
  have len: "Suc a \<le> length ?m" "Suc c \<le> length ?m" "a \<noteq> c" using Suc.prems b by auto
  have one: "take 1 (drop i ?m) = [?m ! i]" if "Suc i \<le> length ?m" for i
    using that by (simp add: take_Suc_conv_app_nth One_nat_def hd_drop_conv_nth take_Suc)
  have upd: "blit xs i [x] = xs[i := x]" if "i < length xs" for xs :: "byte list" and i x
    using that by (simp add: blit_def upd_conv_take_nth_drop)
  have "swap_bytes p a c (Suc n) = swap_bytes ?p2 (a + 1) (c + 1) n"
    using len by (simp add: b mem_read_def mem_write_def one upd m1_def)
  moreover have "\<exists>q. swap_bytes ?p2 (a + 1) (c + 1) n = Some q \<and> same_block ?p2 q \<and>
    (\<forall>k < plen ?p2. pbytes q ! k =
      (if a + 1 \<le> k \<and> k < a + 1 + n then pbytes ?p2 ! (c + 1 + (k - (a + 1)))
       else if c + 1 \<le> k \<and> k < c + 1 + n then pbytes ?p2 ! (a + 1 + (k - (c + 1))) else pbytes ?p2 ! k))"
    using Suc.prems b by (intro Suc.IH) (auto simp: m1_def)
  then obtain q where q: "swap_bytes ?p2 (a + 1) (c + 1) n = Some q" "same_block ?p2 q"
    "\<And>k. k < plen ?p2 \<Longrightarrow> pbytes q ! k =
      (if a + 1 \<le> k \<and> k < a + 1 + n then pbytes ?p2 ! (c + 1 + (k - (a + 1)))
       else if c + 1 \<le> k \<and> k < c + 1 + n then pbytes ?p2 ! (a + 1 + (k - (c + 1))) else pbytes ?p2 ! k)"
    by blast
  moreover have "same_block p q" using q(2) by (simp add: same_block_def b m1_def)
  moreover have "pbytes q ! k =
      (if a \<le> k \<and> k < a + Suc n then pbytes p ! (c + (k - a))
       else if c \<le> k \<and> k < c + Suc n then pbytes p ! (a + (k - c)) else pbytes p ! k)"
    if k: "k < plen p" for k
  proof -
    have m1: "m1 ! i = (if i = c then ?m ! a else if i = a then ?m ! c else ?m ! i)"
      if "i < length ?m" for i using that len by (auto simp: m1_def nth_list_update)
    have l1: "plen ?p2 = length ?m" "k < length ?m" using k by (simp_all add: m1_def b)
    consider (a) "k = a" | (c) "k = c" | (ra) "a + 1 \<le> k" "k < a + 1 + n"
      | (rc) "c + 1 \<le> k" "k < c + 1 + n" "\<not> (a + 1 \<le> k \<and> k < a + 1 + n)"
      | (out) "k \<noteq> a" "k \<noteq> c" "\<not> (a + 1 \<le> k \<and> k < a + 1 + n)" "\<not> (c + 1 \<le> k \<and> k < c + 1 + n)"
      by blast
    then show ?thesis
    proof cases
      case ra
      then have "c + 1 + (k - (a + 1)) = c + (k - a)" "c + (k - a) < length ?m"
        "c + (k - a) \<noteq> a" "c + (k - a) \<noteq> c" using Suc.prems b by auto
      then show ?thesis using q(3) [of k] l1 ra m1 [of "c + (k - a)"] by (simp add: b)
    next
      case rc
      then have "a + 1 + (k - (c + 1)) = a + (k - c)" "a + (k - c) < length ?m"
        "a + (k - c) \<noteq> a" "a + (k - c) \<noteq> c" "\<not> (a \<le> k \<and> k < a + Suc n)" using Suc.prems b by auto
      then show ?thesis using q(3) [of k] l1 rc m1 [of "a + (k - c)"] by (auto simp: b)
    qed (use q(3) [of k] l1 m1 [of k] Suc.prems(3) in \<open>simp_all add: b\<close>, linarith+)
  qed
  ultimately show ?case by auto
qed auto

lemma swap_elements_slots:
  assumes r: "n * es \<le> plen p" "0 < es" "plen p < size_mod" and ij: "i < n" "j < n" "i \<noteq> j"
  shows "\<exists>q. swap_elements p es i j = Some q \<and> same_block p q \<and>
    slots es (pbytes q) n = swap_list (slots es (pbytes p) n) i j"
proof -
  note ri = slot_in_range [OF r(1) ij(1) r(2,3)] and rj = slot_in_range [OF r(1) ij(2) r(2,3)]
  have apart: "i * es + es \<le> j * es \<or> j * es + es \<le> i * es"
    using ij slot_block_le [of i j es] slot_block_le [of j i es] by (cases "i < j") auto
  obtain q where q: "swap_elements p es i j = Some q" "same_block p q"
    "\<And>k. k < plen p \<Longrightarrow> pbytes q ! k =
      (if i * es \<le> k \<and> k < i * es + es then pbytes p ! (j * es + (k - i * es))
       else if j * es \<le> k \<and> k < j * es + es then pbytes p ! (i * es + (k - j * es)) else pbytes p ! k)"
    using swap_bytes_nth [OF ri(2) rj(2) apart ri(1)] ri(3) rj(3) by (auto simp: swap_elements_def)
  have "slot es (pbytes q) s = (if s = j then slot es (pbytes p) i
      else if s = i then slot es (pbytes p) j else slot es (pbytes p) s)" if s: "s < n" for s
  proof (rule slot_eqI)
    note rs = slot_in_range [OF r(1) s r(2,3)]
    show "length (if s = j then slot es (pbytes p) i
      else if s = i then slot es (pbytes p) j else slot es (pbytes p) s) = es"
      using ri rj rs by simp
    show "s * es + es \<le> length (pbytes q)" using rs q(2) by (simp add: same_block_def)
    fix k assume k: "k < es"
    have pos: "t * es \<le> s * es + k \<and> s * es + k < t * es + es \<longleftrightarrow> t = s" for t
      using k slot_pos_le_iff [of k es t s] slot_pos_less_iff [of k es s "Suc t"]
      by (auto simp: add.commute)
    have "s * es + k < plen p" using rs k by linarith
    then show "pbytes q ! (s * es + k) = (if s = j then slot es (pbytes p) i
      else if s = i then slot es (pbytes p) j else slot es (pbytes p) s) ! k"
      using q(3) [of "s * es + k"] pos [of i] pos [of j] k ri rj rs by (auto simp: slot_nth)
  qed
  then have "slots es (pbytes q) n = swap_list (slots es (pbytes p) n) i j"
    using ij by (intro nth_equalityI) (simp_all add: swap_list_nth)
  then show ?thesis using q by blast
qed

lemma heap_cmp_at_slots:
  assumes "n * es \<le> plen p" "0 < es" "plen p < size_mod" "i < n" "j < n"
  shows "heap_cmp_at cmp es p i j = Some (cmp (slots es (pbytes p) n ! i) (slots es (pbytes p) n ! j))"
  using slot_in_range [OF assms(1,4,2,3)] slot_in_range [OF assms(1,5,2,3)] assms
  by (simp add: heap_cmp_at_def mem_read_ok slot_def)

lemma sift_up_slots:
  assumes "n * es \<le> plen p" "0 < es" "plen p < size_mod" "idx < n"
  shows "\<exists>q. sift_up cmp es p idx = Some q \<and> same_block p q \<and>
    slots es (pbytes q) n = sift_up_list cmp (slots es (pbytes p) n) idx"
  using assms
proof (induction idx arbitrary: p rule: less_induct)
  case (less idx)
  note r = less.prems
  let ?xs = "slots es (pbytes p) n" and ?j = "(idx - 1) div 2"
  show ?case
  proof (cases "0 < idx")
    case True
    then have j: "?j < idx" "?j < n" "idx \<noteq> ?j" using parent_less [OF True] r(4) by auto
    note c = heap_cmp_at_slots [OF r(1-4) j(2), of cmp]
    show ?thesis
    proof (cases "cmp (?xs ! idx) (?xs ! ?j) \<le> 0")
      case le: True
      then show ?thesis using True c by (subst sift_up.simps, subst sift_up_list.simps) simp
    next
      case gt: False
      obtain q where q: "swap_elements p es idx ?j = Some q" "same_block p q"
          "slots es (pbytes q) n = swap_list ?xs idx ?j"
        using swap_elements_slots [OF r(1-4) j(2,3)] by blast
      have "\<exists>q'. sift_up cmp es q ?j = Some q' \<and> same_block q q' \<and>
          slots es (pbytes q') n = sift_up_list cmp (slots es (pbytes q) n) ?j"
        using r j same_block_plen [OF q(2)] by (intro less.IH) simp_all
      then show ?thesis using True gt c q same_block_trans [OF q(2)]
        by (subst sift_up.simps, subst sift_up_list.simps) auto
    qed
  qed (subst sift_up.simps, subst sift_up_list.simps, simp)
qed

text \<open>Without wrap-around of the child index, the loop follows \<open>sift_down_list\<close> and ends.\<close>

lemma sift_down_slots:
  assumes "n * es \<le> plen p" "0 < es" "plen p < size_mod" "idx < n" "2 * n < size_mod"
  shows "\<exists>q. sift_down cmp es n p idx = Some q \<and> same_block p q \<and>
    slots es (pbytes q) n = sift_down_list cmp (slots es (pbytes p) n) idx"
  using assms
proof (induction "n - idx" arbitrary: p idx rule: less_induct)
  case less
  note r = less.prems
  let ?xs = "slots es (pbytes p) n" and ?l = "2 * idx + 1" and ?r = "2 * idx + 2"
  define a where "a = (if ?l < n \<and> 0 < cmp (?xs ! ?l) (?xs ! idx) then ?l else idx)"
  define j where "j = (if ?r < n \<and> 0 < cmp (?xs ! ?r) (?xs ! a) then ?r else a)"
  have a: "a < n" using r(4) by (simp add: a_def)
  have largest: "heap_largest cmp ?xs idx = j"
    by (simp only: heap_largest_def a_def j_def Let_def length_slots)
  have arith: "sz_add (sz_mul 2 idx) 1 = ?l" "sz_add (sz_mul 2 idx) 2 = ?r"
    using r(4,5) by (simp_all add: size_simps)
  have c1: "(if ?l < n then heap_cmp_at cmp es p ?l idx else Some 0) =
      Some (if ?l < n then cmp (?xs ! ?l) (?xs ! idx) else 0)"
    using heap_cmp_at_slots [OF r(1-3) _ r(4), of ?l cmp] by simp
  have c2: "(if ?r < n then heap_cmp_at cmp es p ?r a else Some 0) =
      Some (if ?r < n then cmp (?xs ! ?r) (?xs ! a) else 0)"
    using heap_cmp_at_slots [OF r(1-3) _ a, of ?r cmp] by simp
  have l1: "(if 0 < (if ?l < n then cmp (?xs ! ?l) (?xs ! idx) else 0) then ?l else idx) = a"
    by (simp add: a_def)
  have l2: "(if 0 < (if ?r < n then cmp (?xs ! ?r) (?xs ! a) else 0) then ?r else a) = j"
    by (simp add: j_def)
  have step: "sift_down cmp es n p idx = (if j = idx then Some p
      else do { b \<leftarrow> swap_elements p es idx j; sift_down cmp es n b j })"
    by (subst sift_down.simps) (simp only: Let_def arith c1 l1 c2 l2 bind.bind_lunit)
  show ?case
  proof (cases "j = idx")
    case True
    then show ?thesis using step largest by (subst sift_down_list.simps) simp
  next
    case False
    then have j: "idx < j" "j < n" using heap_largest_child [of cmp ?xs idx] largest by simp_all
    obtain q where q: "swap_elements p es idx j = Some q" "same_block p q"
        "slots es (pbytes q) n = swap_list ?xs idx j"
      using swap_elements_slots [OF r(1-4) j(2)] False by blast
    have "\<exists>q'. sift_down cmp es n q j = Some q' \<and> same_block q q' \<and>
        slots es (pbytes q') n = sift_down_list cmp (slots es (pbytes q) n) j"
      using r j same_block_plen [OF q(2)] by (intro less.hyps) simp_all
    then show ?thesis using step False q largest same_block_trans [OF q(2)]
      by (subst sift_down_list.simps) auto
  qed
qed

lemma heapify_slots:
  assumes "n * es \<le> plen p" "0 < es" "plen p < size_mod" "k \<le> n" "2 * n < size_mod"
  shows "\<exists>q. heapify cmp es n p k = Some q \<and> same_block p q \<and>
    slots es (pbytes q) n = heapify_list cmp (slots es (pbytes p) n) k"
  using assms
proof (induction k arbitrary: p)
  case (Suc k)
  then obtain q where q: "sift_down cmp es n p k = Some q" "same_block p q"
      "slots es (pbytes q) n = sift_down_list cmp (slots es (pbytes p) n) k"
    using sift_down_slots [of n es p k cmp] by auto
  have "\<exists>q'. heapify cmp es n q k = Some q' \<and> same_block q q' \<and>
      slots es (pbytes q') n = heapify_list cmp (slots es (pbytes q) n) k"
    using Suc.prems same_block_plen [OF q(2)] by (intro Suc.IH) simp_all
  then show ?case using q same_block_trans [OF q(2)] by auto
qed simp

section \<open>Invariant and refinement\<close>

definition hp_list :: "'h zenit_heap_t \<Rightarrow> byte list list" where
  "hp_list p = slots (hp_elem_size p) (pbytes (hp_buffer p)) (hp_count p)"

text \<open>The layout of the buffer, and heap order on top of it.\<close>

definition hp_layout :: "'h zenit_heap_t \<Rightarrow> bool" where
  "hp_layout p \<longleftrightarrow> 0 < hp_elem_size p \<and> 0 < hp_capacity p \<and>
    2 * (hp_capacity p * hp_elem_size p) < size_mod \<and>
    plen (hp_buffer p) = hp_capacity p * hp_elem_size p \<and> hp_count p \<le> hp_capacity p"

definition hp_inv :: "'h zenit_heap_t \<Rightarrow> bool" where
  "hp_inv p \<longleftrightarrow> hp_layout p \<and> heap_from (hp_compare p) 0 (hp_list p)"

definition hp_owned :: "('h \<Rightarrow> nat set) \<Rightarrow> 'h zenit_heap_t \<Rightarrow> 'h \<Rightarrow> bool" where
  "hp_owned live p h \<longleftrightarrow> owned (hp_allocator p) live (hp_self p) (hp_buffer p) h"

definition hp_keeps ::
    "('h \<Rightarrow> nat set) \<Rightarrow> 'h zenit_heap_t \<Rightarrow> 'h \<Rightarrow> 'h zenit_heap_t \<Rightarrow> 'h \<Rightarrow> bool" where
  "hp_keeps live p h p' h' \<longleftrightarrow>
    hp_layout p' \<and> hp_owned live p' h' \<and> hp_elem_size p' = hp_elem_size p \<and>
    hp_compare p' = hp_compare p \<and>
    live h' = live h - paddrs (hp_buffer p) \<union> paddrs (hp_buffer p')"

lemma length_hp_list [simp]: "length (hp_list p) = hp_count p"
  by (simp add: hp_list_def)

lemma hp_layoutD:
  assumes "hp_layout p"
  shows "0 < hp_elem_size p" "0 < hp_capacity p" "2 * (hp_capacity p * hp_elem_size p) < size_mod"
    "plen (hp_buffer p) = hp_capacity p * hp_elem_size p" "hp_count p \<le> hp_capacity p"
    "plen (hp_buffer p) < size_mod" "2 * hp_capacity p < size_mod"
    "hp_count p * hp_elem_size p \<le> plen (hp_buffer p)"
proof -
  show "hp_count p * hp_elem_size p \<le> plen (hp_buffer p)"
    using assms by (simp add: hp_layout_def mult_le_mono1)
  have "(2 * hp_capacity p) * hp_elem_size p < size_mod"
    using assms by (simp add: hp_layout_def mult.assoc)
  then show "2 * hp_capacity p < size_mod" using assms factor_less by (auto simp: hp_layout_def)
qed (use assms in \<open>simp_all add: hp_layout_def\<close>)

lemma hp_keeps_refl:
  assumes "hp_layout p" "hp_owned live p h" shows "hp_keeps live p h p h"
  using assms by (auto simp: hp_keeps_def hp_owned_def owned_def)

text \<open>New content in place, with a new count.\<close>

lemma hp_keeps_write:
  assumes "hp_keeps live p h p1 h1" and "same_block (hp_buffer p1) b" and "n \<le> hp_capacity p1"
  shows "hp_keeps live p h (p1\<lparr>hp_buffer := b, hp_count := n\<rparr>) h1"
  using assms owned_same_addr [OF same_block_paddr [OF assms(2)], of "hp_allocator p1" live]
  by (auto simp: hp_keeps_def hp_layout_def hp_owned_def same_block_def paddrs_def)

lemma heap_realloc_ok:
  assumes lay: "hp_layout p" and own: "hp_owned live p h"
    and nc: "hp_capacity p \<le> nc" "2 * (nc * hp_elem_size p) < size_mod"
  obtains (null) h' where "heap_realloc_buffer p nc h = Some (ZENIT_ERROR_ALLOC, p, h')"
      and "hp_keeps live p h p h'"
  | (moved) p' h' where "heap_realloc_buffer p nc h = Some (ZENIT_OK, p', h')"
      and "hp_keeps live p h p' h'" and "hp_list p' = hp_list p"
      and "hp_capacity p' = nc" and "hp_count p' = hp_count p"
proof -
  note l = hp_layoutD [OF lay]
  let ?es = "hp_elem_size p"
  have n: "0 < nc * ?es" using nc l by simp
  have sz: "sz_mul (hp_capacity p) ?es = plen (hp_buffer p)" "sz_mul nc ?es = nc * ?es"
    using l nc by (simp_all add: size_simps)
  have own': "owned (hp_allocator p) live (hp_self p) (hp_buffer p) h"
    using own by (simp add: hp_owned_def)
  have le: "plen (hp_buffer p) \<le> nc * ?es" using nc(1) l by (simp add: mult_le_mono1)
  show thesis
  proof (cases rule: owned_realloc [OF own' n, case_names null block])
    case (null h')
    show thesis
    proof (rule that(1))
      show "heap_realloc_buffer p nc h = Some (ZENIT_ERROR_ALLOC, p, h')"
        using null(1) sz by (simp add: heap_realloc_buffer_def)
      show "hp_keeps live p h p h'"
        using null lay own' by (auto simp: hp_keeps_def hp_owned_def owned_def)
    qed
  next
    case (block b h')
    let ?p = "p\<lparr>hp_buffer := Some b, hp_capacity := nc\<rparr>"
    have run: "heap_realloc_buffer p nc h = Some (ZENIT_OK, ?p, h')"
      using block(1) sz by (simp add: heap_realloc_buffer_def)
    have keep: "hp_keeps live p h ?p h'"
      using block l nc by (simp add: hp_keeps_def hp_layout_def hp_owned_def)
    have "slot ?es (mbytes b) j = slot ?es (pbytes (hp_buffer p)) j" if "j < hp_count p" for j
      using slot_cong_prefix [OF block(5)] slot_fits [OF that l(8)] le by simp
    then have "hp_list ?p = hp_list p" by (simp add: hp_list_def slots_def)
    then show thesis using run keep by (intro that(2) [of ?p h']) simp_all
  qed
qed

definition hp_can_grow :: "'h zenit_heap_t \<Rightarrow> bool" where
  "hp_can_grow p \<longleftrightarrow> hp_count p < hp_capacity p \<or>
    hp_capacity p \<noteq> 1 \<and> 2 * (grown (hp_capacity p) * hp_elem_size p) < size_mod"

lemma heap_make_room_ok:
  assumes lay: "hp_layout p" and own: "hp_owned live p h" and grow: "hp_can_grow p"
  obtains (null) h' where "(if hp_count p = hp_capacity p
       then heap_grow p (sz_add (hp_capacity p) 1) h else Some (ZENIT_OK, p, h)) =
       Some (ZENIT_ERROR_ALLOC, p, h')" and "hp_keeps live p h p h'"
  | (room) p' h' where "(if hp_count p = hp_capacity p
       then heap_grow p (sz_add (hp_capacity p) 1) h else Some (ZENIT_OK, p, h)) =
       Some (ZENIT_OK, p', h')" and "hp_keeps live p h p' h'" and "hp_list p' = hp_list p"
      and "hp_count p' < hp_capacity p'" and "hp_count p' = hp_count p"
proof (cases "hp_count p = hp_capacity p")
  case False
  then have "hp_count p < hp_capacity p" using hp_layoutD(5) [OF lay] by simp
  then show thesis using hp_keeps_refl [OF lay own] by (intro that(2) [of p h]) simp_all
next
  case True
  note l = hp_layoutD [OF lay]
  let ?g = "grown (hp_capacity p)"
  from True grow have g: "hp_capacity p \<noteq> 1" "2 * (?g * hp_elem_size p) < size_mod"
    by (simp_all add: hp_can_grow_def)
  have lt: "hp_capacity p < ?g" "?g < size_mod"
    using grown_greater [OF g(1)] factor_less [of ?g "hp_elem_size p"] g(2) l(1) by simp_all
  then have sum: "hp_capacity p + hp_capacity p div 2 < size_mod" using l by (simp add: grown_def)
  have "sz_add (hp_capacity p) 1 = hp_capacity p + 1" using lt by (simp add: size_simps)
  then have eq: "heap_grow p (sz_add (hp_capacity p) 1) h = heap_realloc_buffer p ?g h"
    using grow_cap_one_more [OF g(1) sum] by (simp add: heap_grow_def)
  show thesis
  proof (cases rule: heap_realloc_ok [OF lay own less_imp_le [OF lt(1)] g(2), case_names null moved])
    case (null h')
    then show thesis using True eq by (intro that(1) [of h']) simp_all
  next
    case (moved p' h')
    then show thesis using True eq lt by (intro that(2) [of p' h']) simp_all
  qed
qed

section \<open>The heap is a priority queue\<close>


lemma slots_replace_first:
  assumes "length y = es" and "0 < n" and "n * es \<le> length m"
  shows "slots es (blit m 0 y) n = y # tl (slots es m n)"
  using slots_update [OF assms] assms(2) by (cases "slots es m n") (auto simp flip: length_0_conv)

lemma heap_from_replace_root:
  "heap_from cmp 0 (x # xs) \<Longrightarrow> heap_except_below cmp 0 0 (y # butlast xs)"
proof -
  assume h: "heap_from cmp 0 (x # xs)"
  have "cmp ((y # butlast xs) ! i) ((y # butlast xs) ! ((i - 1) div 2)) \<le> 0"
    if i: "i \<in> {1..<length (y # butlast xs)}" "(i - 1) div 2 \<noteq> 0" for i
  proof -
    have "i \<in> {1..<length (x # xs)}" using i by auto
    then have "cmp ((x # xs) ! i) ((x # xs) ! ((i - 1) div 2)) \<le> 0"
      using h unfolding heap_from_def by blast
    moreover have "(x # xs) ! i = (y # butlast xs) ! i"
      "(x # xs) ! ((i - 1) div 2) = (y # butlast xs) ! ((i - 1) div 2)"
      using i by (auto simp: nth_Cons' nth_butlast)
    ultimately show ?thesis by simp
  qed
  then show ?thesis by (auto simp: heap_except_below_def)
qed

text \<open>Popping: the root leaves, the last element takes its place and sinks.\<close>

lemma heap_pop_max:
  assumes cmp: "total_compare (hp_compare p)" and inv: "hp_inv p" and out: "hp_elem_size p \<le> length out"
    and n: "hp_count p = Suc n"
  shows "\<exists>p'. zenit_heap_pop (Some p) (Some out) =
      Some (ZENIT_OK, Some p', Some (hp_list p ! 0 @ drop (hp_elem_size p) out)) \<and>
    hp_inv p' \<and> p' = p\<lparr>hp_buffer := hp_buffer p', hp_count := n\<rparr> \<and>
    same_block (hp_buffer p) (hp_buffer p') \<and>
    mset (hp_list p) = add_mset (hp_list p ! 0) (mset (hp_list p'))"
proof -
  from inv have lay: "hp_layout p" and ord: "heap_from (hp_compare p) 0 (hp_list p)"
    by (simp_all add: hp_inv_def)
  note l = hp_layoutD [OF lay]
  let ?es = "hp_elem_size p" and ?m = "pbytes (hp_buffer p)"
  note r0 = slot_in_range [OF l(8) _ l(1,6), of 0, unfolded n, OF zero_less_Suc]
    and rn = slot_in_range [OF l(8) _ l(1,6), of n, unfolded n, OF lessI]
  obtain x xs where xs: "hp_list p = x # xs" using n by (cases "hp_list p") (simp_all flip: length_0_conv)
  have lxs: "length xs = n" using xs n length_hp_list [of p] by simp
  have x: "x = slot ?es ?m 0" using n xs by (simp add: hp_list_def slots_def upt_rec)
  have rd: "mem_read (hp_buffer p) 0 ?es = Some x" "length x = ?es"
    using r0 x by (simp_all add: mem_read_ok slot_def)
  have sub: "sz_sub (Suc n) 1 = n" using l(5,7) n by (simp add: size_simps)
  show ?thesis
  proof (cases "n = 0")
    case True
    have "zenit_heap_pop (Some p) (Some out) =
        Some (ZENIT_OK, Some (p\<lparr>hp_count := 0\<rparr>), Some (x @ drop ?es out))"
      using n rd out True sub by (simp add: zenit_heap_pop_def user_write_def blit_def)
    then show ?thesis using True lay xs lxs
      by (auto simp: hp_inv_def hp_layout_def heap_from_def hp_list_def)
  next
    case False
    define y where "y = slot ?es ?m n"
    have y: "mem_read (hp_buffer p) (sz_mul n ?es) ?es = Some y" "length y = ?es"
      using rn by (simp_all add: mem_read_ok slot_def y_def)
    have ylast: "last xs = y" and ysplit: "slots ?es ?m n = x # butlast xs"
    proof -
      have "x # xs = slots ?es ?m n @ [y]" using xs n by (simp add: hp_list_def slots_Suc y_def)
      moreover have "xs \<noteq> []" using lxs False by auto
      ultimately show "last xs = y" "slots ?es ?m n = x # butlast xs"
        by (metis last_ConsR last_snoc) (metis \<open>x # xs = _\<close> \<open>xs \<noteq> []\<close> butlast.simps(2) butlast_snoc)
    qed
    obtain b where b: "mem_write (hp_buffer p) 0 y = Some b" "same_block (hp_buffer p) b"
        "pbytes b = blit ?m 0 y"
      using mem_write_obtain [OF r0(1), of 0 y] r0(2) y(2) by (auto simp: same_block_def)
    have nfit: "n * ?es \<le> plen b" using rn(2) same_block_plen [OF b(2)] by simp
    have bl: "slots ?es (pbytes b) n = y # butlast xs"
      using slots_replace_first [OF y(2), of n ?m] False rn(2) b(3) ysplit by simp
    have bnd: "plen b < size_mod" "2 * n < size_mod" using same_block_plen [OF b(2)] l n by simp_all
    obtain q where q: "sift_down (hp_compare p) ?es n b 0 = Some q" "same_block b q"
        "slots ?es (pbytes q) n = sift_down_list (hp_compare p) (y # butlast xs) 0"
      using sift_down_slots [OF nfit l(1) bnd(1) _ bnd(2), of 0 "hp_compare p"] False bl by auto
    let ?p = "p\<lparr>hp_buffer := q, hp_count := n\<rparr>"
    have run: "zenit_heap_pop (Some p) (Some out) = Some (ZENIT_OK, Some ?p, Some (x @ drop ?es out))"
      using n rd out False sub y(1) b(1) q(1)
      by (simp add: zenit_heap_pop_def user_write_def blit_def)
    have blk: "same_block (hp_buffer p) q" using same_block_trans [OF b(2) q(2)] .
    have "heap_from (hp_compare p) 0 (hp_list ?p)"
      using total_compare.sift_down_list_heap [OF cmp heap_from_replace_root, of x xs y] ord xs q(3)
      by (simp add: hp_list_def)
    moreover have "hp_layout ?p" using lay blk n by (simp add: hp_layout_def same_block_def)
    moreover have "mset xs = add_mset y (mset (butlast xs))"
      using ylast lxs False by (metis append_butlast_last_id list.size(3) mset_append mset.simps
          add_mset_add_single)
    then have "mset (hp_list p) = add_mset x (mset (hp_list ?p))"
      using xs q(3) mset_sift_down_list [of 0 "y # butlast xs"] by (simp add: hp_list_def)
    ultimately show ?thesis using run blk xs by (auto simp: hp_inv_def)
  qed
qed

definition hp_ok ::
    "('h \<Rightarrow> nat set) \<Rightarrow> (byte list \<Rightarrow> byte list \<Rightarrow> int) \<Rightarrow> 'h zenit_heap_t \<times> 'h \<Rightarrow> bool" where
  "hp_ok live cmp s \<longleftrightarrow> total_compare cmp \<and> hp_compare (fst s) = cmp \<and> hp_inv (fst s) \<and>
    hp_owned live (fst s) (snd s)"

definition hp_pop_op ::
    "'h zenit_heap_t \<times> 'h \<Rightarrow> (zenit_result_t \<times> ('h zenit_heap_t \<times> 'h) \<times> byte list) option" where
  "hp_pop_op s =
    map_option (\<lambda>(r, p, x). (r, (the p, snd s), the x))
      (zenit_heap_pop (Some (fst s)) (Some (replicate (hp_elem_size (fst s)) 0)))"

interpretation hp_store: prio_store "hp_ok live cmp" "\<lambda>s. mset (hp_list (fst s))" cmp hp_pop_op
  for live :: "'h \<Rightarrow> nat set" and cmp
proof
  fix s :: "'h zenit_heap_t \<times> 'h"
  assume ok: "hp_ok live cmp s" and ne: "mset (hp_list (fst s)) \<noteq> {#}"
  obtain p h where s: "s = (p, h)" by (cases s)
  from ok s have p: "total_compare (hp_compare p)" "hp_compare p = cmp" "hp_inv p" "hp_owned live p h"
    by (simp_all add: hp_ok_def)
  obtain n where n: "hp_count p = Suc n"
    using ne s by (cases "hp_count p") (auto simp flip: length_0_conv)
  from heap_pop_max [OF p(1,3) _ n, of "replicate (hp_elem_size p) 0"] obtain p' where
    p': "zenit_heap_pop (Some p) (Some (replicate (hp_elem_size p) 0)) =
        Some (ZENIT_OK, Some p', Some (hp_list p ! 0))"
      "hp_inv p'" "p' = p\<lparr>hp_buffer := hp_buffer p', hp_count := n\<rparr>"
      "same_block (hp_buffer p) (hp_buffer p')"
      "mset (hp_list p) = add_mset (hp_list p ! 0) (mset (hp_list p'))"
    by auto
  have "hp_compare p' = hp_compare p" "hp_allocator p' = hp_allocator p" "hp_self p' = hp_self p"
    by (subst p'(3), simp)+
  moreover from this have "hp_owned live p' h"
    using p(4) owned_same_addr [OF same_block_paddr [OF p'(4)], of "hp_allocator p" live]
    by (simp add: hp_owned_def)
  moreover have "\<forall>y \<in># mset (hp_list p). cmp y (hp_list p ! 0) \<le> 0"
    using total_compare.heap_root_max [OF p(1)] p(2,3)
    by (auto simp: hp_inv_def in_set_conv_nth)
  ultimately show "\<exists>s' x. hp_pop_op s = Some (ZENIT_OK, s', x) \<and> hp_ok live cmp s' \<and>
      mset (hp_list (fst s)) = add_mset x (mset (hp_list (fst s'))) \<and>
      (\<forall>y \<in># mset (hp_list (fst s)). cmp y x \<le> 0)"
    using p p' s
    by (intro exI [of _ "(p', h)"] exI [of _ "hp_list p ! 0"]) (simp add: hp_pop_op_def hp_ok_def)
qed

text \<open>
  C8: popping a heap until it is empty returns every element exactly once, greatest first, for
  every comparator that is a total preorder: no pop fails, leaves the buffer or runs forever.
\<close>

theorem heap_drain_sorted:
  assumes "hp_ok live cmp s"
  shows "\<exists>ys t. run_pops hp_pop_op (size (mset (hp_list (fst s)))) s = Some (ys, t) \<and>
    hp_ok live cmp t \<and> mset (hp_list (fst t)) = {#} \<and> mset ys = mset (hp_list (fst s)) \<and>
    sorted_wrt (\<lambda>x y. cmp y x \<le> 0) ys"
  using assms by (rule hp_store.run_pops_sorted)

text \<open>Copying an array over the front of the buffer.\<close>

lemma slots_blit_front:
  assumes "length x = n * es" and "n * es \<le> length m"
  shows "slots es (blit m 0 x) n = slots es x n"
proof (rule slots_cong)
  fix j assume "j < n"
  then show "slot es (blit m 0 x) j = slot es x j"
    using slot_take [of j n es "n * es" "blit m 0 x"] assms by (simp add: blit_def)
qed

text \<open>
  building a heap from an array replaces the content by exactly the array's elements, in heap
  order (Floyd's loop), growing the buffer when the array is larger than it; when that allocation
  fails the old heap is untouched.
\<close>

theorem heap_build_refines:
  assumes cmp: "total_compare (hp_compare p)" and inv: "hp_inv p" and own: "hp_owned live p h"
    and a: "n * hp_elem_size p \<le> length a" and sz: "2 * (n * hp_elem_size p) < size_mod"
  shows "\<exists>r p' h'. zenit_heap_build (Some p) (Some a) n h = Some (r, Some p', h') \<and>
    hp_keeps live p h p' h' \<and> hp_inv p' \<and>
    (r = ZENIT_ERROR_ALLOC \<and> p' = p \<or>
     r = ZENIT_OK \<and> mset (hp_list p') = mset (slots (hp_elem_size p) a n))"
proof (cases "n = 0")
  case True
  from inv have "hp_layout (p\<lparr>hp_count := 0\<rparr>)" "hp_inv (p\<lparr>hp_count := 0\<rparr>)"
    by (simp_all add: hp_inv_def hp_layout_def hp_list_def heap_from_def)
  then show ?thesis using True own
    by (auto simp: zenit_heap_build_def hp_keeps_def hp_owned_def owned_def hp_list_def)
next
  case False
  from inv have lay: "hp_layout p" by (simp add: hp_inv_def)
  let ?es = "hp_elem_size p" and ?x = "take (n * hp_elem_size p) a"
  let ?room = "if hp_capacity p < n then heap_realloc_buffer p n h else Some (ZENIT_OK, p, h)"
  have fin: "\<exists>p'. zenit_heap_build (Some p) (Some a) n h = Some (ZENIT_OK, Some p', h1) \<and>
      hp_keeps live p h p' h1 \<and> hp_inv p' \<and> mset (hp_list p') = mset (slots ?es a n)"
    if room: "?room = Some (ZENIT_OK, p1, h1)" "hp_keeps live p h p1 h1" "n \<le> hp_capacity p1"
    for p1 h1
  proof -
    from room(2) have same: "hp_elem_size p1 = ?es" "hp_compare p1 = hp_compare p" and
      lay1: "hp_layout p1" by (simp_all add: hp_keeps_def)
    note l = hp_layoutD [OF lay1]
    have fit: "n * ?es \<le> plen (hp_buffer p1)"
      unfolding l(4) same(1) using room(3) by (rule mult_le_mono1)
    have pos: "0 < n * ?es" using False l(1) same by simp
    then have nn: "hp_buffer p1 \<noteq> None" using fit by (cases "hp_buffer p1") simp_all
    have x: "length ?x = n * ?es" using a by simp
    obtain b where b: "mem_write (hp_buffer p1) 0 ?x = Some b" "same_block (hp_buffer p1) b"
        "pbytes b = blit (pbytes (hp_buffer p1)) 0 ?x"
      using mem_write_obtain [OF nn, of 0 ?x] fit x by (auto simp: same_block_def)
    have xs: "slots ?es (pbytes b) n = slots ?es a n"
      using slots_blit_front [OF x] fit b(3) slot_take [of _ n ?es "n * ?es" a]
      by (simp add: slots_def)
    have bnd: "n * ?es \<le> plen b" "plen b < size_mod" "n div 2 \<le> n" "2 * n < size_mod"
      using fit same_block_plen [OF b(2)] l(6,7) room(3) by simp_all
    obtain q where q: "heapify (hp_compare p) ?es n b (n div 2) = Some q" "same_block b q"
        "slots ?es (pbytes q) n = heapify_list (hp_compare p) (slots ?es a n) (n div 2)"
      using heapify_slots [OF bnd(1) _ bnd(2-4), of "hp_compare p"] l(1) same xs by auto
    let ?p = "p1\<lparr>hp_buffer := q, hp_count := n\<rparr>"
    have mul: "sz_mul n ?es = n * ?es" using sz by (simp add: size_simps)
    have "zenit_heap_build (Some p) (Some a) n h = Some (ZENIT_OK, Some ?p, h1)"
      using False room(1) a b(1) q(1) same mul by (simp add: zenit_heap_build_def user_read_def)
    moreover have keep: "hp_keeps live p h ?p h1"
      using hp_keeps_write [OF room(2) same_block_trans [OF b(2) q(2)] room(3)] .
    moreover have "heap_from (hp_compare p) 0 (hp_list ?p)"
      using total_compare.heapify_list_heap [OF cmp heap_from_leaves, of "slots ?es a n"] q(3) same
      by (simp add: hp_list_def)
    moreover have "mset (hp_list ?p) = mset (slots ?es a n)"
      using q(3) mset_heapify_list [of "n div 2" "slots ?es a n"] same by (simp add: hp_list_def)
    ultimately show ?thesis using same by (auto simp: hp_inv_def hp_keeps_def)
  qed
  show ?thesis
  proof (cases "hp_capacity p < n")
    case True
    then have le: "hp_capacity p \<le> n" by simp
    show ?thesis
    proof (cases rule: heap_realloc_ok [OF lay own le sz, case_names null moved])
      case (null h')
      then show ?thesis using True inv by (auto simp: zenit_heap_build_def)
    next
      case (moved p1 h1)
      then show ?thesis using fin [of p1 h1] True by auto
    qed
  next
    case le: False
    then show ?thesis using fin [of p h] hp_keeps_refl [OF lay own] by auto
  qed
qed

lemma heap_destroy_owned:
  assumes "hp_owned live p h"
  shows "\<exists>h'. zenit_heap_destroy (Some p) h = Some h' \<and>
    live h' = live h - insert (hp_self p) (paddrs (hp_buffer p))"
  using assms unfolding hp_owned_def
  by (elim owned_release) (simp add: zenit_heap_destroy_def)

section \<open>Concrete instances\<close>

definition demo_pq :: "c_heap zenit_heap_t" where
  "demo_pq = \<lparr>hp_self = 1, hp_buffer = Some \<lparr>maddr = 2, mbytes = [9, 5, 7, 0]\<rparr>, hp_elem_size = 1,
     hp_count = 3, hp_capacity = 4, hp_compare = memcmp_bytes, hp_allocator = ZENIT_ALLOCATOR_DEFAULT\<rparr>"

definition demo_pq_heap :: c_heap where
  "demo_pq_heap = \<lparr>heap_live = [2, 1], heap_script = [], heap_junk = 0\<rparr>"

lemma demo_pq_list: "hp_list demo_pq = [[9], [5], [7]]"
  by code_simp

lemma demo_pq_sel: "hp_compare demo_pq = memcmp_bytes" "hp_elem_size demo_pq = 1"
    "hp_count demo_pq = 3" "hp_capacity demo_pq = 4" "hp_can_grow demo_pq"
  by (simp_all add: demo_pq_def hp_can_grow_def)

lemma demo_pq_inv: "hp_inv demo_pq"
  by code_simp

lemma demo_pq_owned: "hp_owned heap_addrs demo_pq demo_pq_heap"
  using default_contract
  by (simp add: hp_owned_def owned_def demo_pq_def demo_pq_heap_def heap_addrs_def)

lemma demo_pq_ok: "hp_ok heap_addrs memcmp_bytes (demo_pq, demo_pq_heap)"
  using memcmp_order.total_compare_axioms demo_pq_inv demo_pq_owned
  by (simp add: hp_ok_def demo_pq_sel)


theorem heap_drain_sorted_witness:
  "\<exists>ys t. run_pops hp_pop_op (size (mset (hp_list demo_pq))) (demo_pq, demo_pq_heap) = Some (ys, t) \<and>
    mset ys = {#[9], [5], [7]#} \<and> sorted_wrt (\<lambda>x y. memcmp_bytes y x \<le> 0) ys"
  using heap_drain_sorted [OF demo_pq_ok] by (auto simp: demo_pq_list)

theorem heap_build_refines_witness:
  "\<exists>r p' h'. zenit_heap_build (Some demo_pq) (Some [1, 2, 3, 4, 5]) 5 demo_pq_heap = Some (r, Some p', h') \<and>
    hp_inv p' \<and> (r = ZENIT_ERROR_ALLOC \<and> p' = demo_pq \<or>
     r = ZENIT_OK \<and> mset (hp_list p') = mset (slots 1 [1, 2, 3, 4, 5] 5))"
  using heap_build_refines [of demo_pq heap_addrs demo_pq_heap 5 "[1, 2, 3, 4, 5]"] demo_pq_inv
    demo_pq_owned memcmp_order.total_compare_axioms
  by (auto simp: demo_pq_sel size_mod_def)

end
