(* ===== verification/Zenit_Bitset.thy ===== *)
theory Zenit_Bitset
  imports Zenit_Allocator
begin

text \<open>
  The bitset (\<open>include/libzenit/bitset.h\<close>, \<open>src/bitset.c\<close>): bits packed in bytes, grown on demand.
  Abstractly a finite set of positions below \<open>num_bits\<close>; the bits of the last byte past
  \<open>num_bits\<close> are the padding, which the set operations keep clear and \<open>zenit_bitset_set_all\<close> does not.
\<close>

unbundle bit_operations_syntax

section \<open>State and operations\<close>

record 'h zenit_bitset_t =
  bs_self :: nat
  bs_bits :: ptr
  bs_num_bytes :: nat
  bs_num_bits :: nat
  bs_allocator :: "'h zenit_allocator_t"

definition sizeof_bitset :: nat where
  "sizeof_bitset = 56"

definition bytes_needed :: "nat \<Rightarrow> nat" where
  "bytes_needed bit_count = (let n = sz_add bit_count 7 div 8 in if 0 < n then n else 1)"

definition zenit_bitset_resize ::
    "'h zenit_bitset_t option \<Rightarrow> nat \<Rightarrow> 'h \<Rightarrow> (zenit_result_t \<times> 'h zenit_bitset_t option \<times> 'h) option" where
  "zenit_bitset_resize bitset num_bits h =
    (case bitset of
       None \<Rightarrow> Some (ZENIT_ERROR_NULL, None, h)
     | Some bs \<Rightarrow> do {
         let new_bytes = bytes_needed num_bits;
         (nb, h1) \<leftarrow> zenit_allocator_realloc (bs_allocator bs) (bs_bits bs) (bs_num_bytes bs) new_bytes h;
         case nb of
           None \<Rightarrow> Some (ZENIT_ERROR_ALLOC, bitset, h1)
         | Some _ \<Rightarrow> do {
             b \<leftarrow> (if bs_num_bytes bs < new_bytes
                then mem_write nb (bs_num_bytes bs) (replicate (sz_sub new_bytes (bs_num_bytes bs)) 0)
                else Some nb);
             Some (ZENIT_OK, Some (bs\<lparr>bs_bits := b, bs_num_bytes := new_bytes,
                                     bs_num_bits := num_bits\<rparr>), h1)
           }
       })"

text \<open>The doubling loop of \<open>ensure_capacity\<close>; \<open>None\<close> when it never reaches the wanted size.\<close>

definition bitset_grow_cap :: "nat \<Rightarrow> nat \<Rightarrow> nat option" where
  "bitset_grow_cap num_bits needed =
    while_option (\<lambda>c. c < needed) (\<lambda>c. if c = 0 then 64 else sz_mul c 2) num_bits"

definition bitset_ensure_capacity ::
    "'h zenit_bitset_t \<Rightarrow> nat \<Rightarrow> 'h \<Rightarrow> (zenit_result_t \<times> 'h zenit_bitset_t option \<times> 'h) option" where
  "bitset_ensure_capacity bs required_pos h =
    (let needed = sz_add required_pos 1 in
     if needed \<le> bs_num_bits bs then Some (ZENIT_OK, Some bs, h)
     else do {
       new_cap \<leftarrow> bitset_grow_cap (bs_num_bits bs) needed;
       zenit_bitset_resize (Some bs) new_cap h
     })"

definition zenit_bitset_create_with_allocator ::
    "nat \<Rightarrow> 'h zenit_allocator_t \<Rightarrow> 'h \<Rightarrow> ('h zenit_bitset_t option \<times> 'h) option" where
  "zenit_bitset_create_with_allocator num_bits a h =
    (case alloc_fn a sizeof_bitset h of
       (None, h1) \<Rightarrow> Some (None, h1)
     | (Some p, h1) \<Rightarrow> do {
         (bits, h2) \<leftarrow> zenit_allocator_alloc_zero a 1 (bytes_needed num_bits) h1;
         case bits of
           None \<Rightarrow> do { h3 \<leftarrow> free_fn a (Some (maddr p)) h2; Some (None, h3) }
         | Some b \<Rightarrow>
             Some (Some \<lparr>bs_self = maddr p, bs_bits = Some b, bs_num_bytes = bytes_needed num_bits,
                     bs_num_bits = num_bits, bs_allocator = a\<rparr>, h2)
       })"

definition zenit_bitset_create :: "nat \<Rightarrow> c_heap \<Rightarrow> (c_heap zenit_bitset_t option \<times> c_heap) option" where
  "zenit_bitset_create num_bits = zenit_bitset_create_with_allocator num_bits ZENIT_ALLOCATOR_DEFAULT"

definition zenit_bitset_destroy :: "'h zenit_bitset_t option \<Rightarrow> 'h \<Rightarrow> 'h option" where
  "zenit_bitset_destroy bitset h =
    (case bitset of None \<Rightarrow> Some h
     | Some bs \<Rightarrow> do {
         h1 \<leftarrow> free_fn (bs_allocator bs) (paddr (bs_bits bs)) h;
         free_fn (bs_allocator bs) (Some (bs_self bs)) h1
       })"

text \<open>
  The common shape of set, clear and toggle: grow, then combine the byte that holds the position
  with the mask of the bit.
\<close>

definition bitset_modify ::
    "(byte \<Rightarrow> byte \<Rightarrow> byte) \<Rightarrow> 'h zenit_bitset_t option \<Rightarrow> nat \<Rightarrow> 'h \<Rightarrow>
     (zenit_result_t \<times> 'h zenit_bitset_t option \<times> 'h) option" where
  "bitset_modify f bitset pos h =
    (case bitset of
       None \<Rightarrow> Some (ZENIT_ERROR_NULL, None, h)
     | Some bs \<Rightarrow> do {
         (r, bo, h1) \<leftarrow> bitset_ensure_capacity bs pos h;
         if r \<noteq> ZENIT_OK then Some (r, bo, h1)
         else case bo of None \<Rightarrow> None | Some bs1 \<Rightarrow> do {
           x \<leftarrow> mem_read (bs_bits bs1) (pos div 8) 1;
           b \<leftarrow> mem_write (bs_bits bs1) (pos div 8) [f (hd x) (push_bit (pos mod 8) 1)];
           Some (ZENIT_OK, Some (bs1\<lparr>bs_bits := b\<rparr>), h1)
         }
       })"

definition zenit_bitset_set ::
    "'h zenit_bitset_t option \<Rightarrow> nat \<Rightarrow> 'h \<Rightarrow> (zenit_result_t \<times> 'h zenit_bitset_t option \<times> 'h) option" where
  "zenit_bitset_set = bitset_modify (\<lambda>x mask. x OR mask)"

definition zenit_bitset_clear ::
    "'h zenit_bitset_t option \<Rightarrow> nat \<Rightarrow> 'h \<Rightarrow> (zenit_result_t \<times> 'h zenit_bitset_t option \<times> 'h) option" where
  "zenit_bitset_clear = bitset_modify (\<lambda>x mask. x AND NOT mask)"

definition zenit_bitset_toggle ::
    "'h zenit_bitset_t option \<Rightarrow> nat \<Rightarrow> 'h \<Rightarrow> (zenit_result_t \<times> 'h zenit_bitset_t option \<times> 'h) option" where
  "zenit_bitset_toggle = bitset_modify (\<lambda>x mask. x XOR mask)"

definition zenit_bitset_test :: "'h zenit_bitset_t option \<Rightarrow> nat \<Rightarrow> bool option" where
  "zenit_bitset_test bitset pos =
    (case bitset of None \<Rightarrow> Some False
     | Some bs \<Rightarrow> if bs_num_bits bs \<le> pos then Some False
         else do {
           x \<leftarrow> mem_read (bs_bits bs) (pos div 8) 1;
           Some (drop_bit (pos mod 8) (hd x) AND 1 = 1)
         })"

definition zenit_bitset_set_all ::
    "'h zenit_bitset_t option \<Rightarrow> (zenit_result_t \<times> 'h zenit_bitset_t option) option" where
  "zenit_bitset_set_all bitset =
    (case bitset of None \<Rightarrow> Some (ZENIT_ERROR_NULL, None)
     | Some bs \<Rightarrow> do {
         b \<leftarrow> mem_write (bs_bits bs) 0 (replicate (bs_num_bytes bs) 0xFF);
         Some (ZENIT_OK, Some (bs\<lparr>bs_bits := b\<rparr>))
       })"

definition zenit_bitset_clear_all ::
    "'h zenit_bitset_t option \<Rightarrow> (zenit_result_t \<times> 'h zenit_bitset_t option) option" where
  "zenit_bitset_clear_all bitset =
    (case bitset of None \<Rightarrow> Some (ZENIT_ERROR_NULL, None)
     | Some bs \<Rightarrow> do {
         b \<leftarrow> mem_write (bs_bits bs) 0 (replicate (bs_num_bytes bs) 0);
         Some (ZENIT_OK, Some (bs\<lparr>bs_bits := b\<rparr>))
       })"

text \<open>\<open>__builtin_popcount\<close> on a byte, and the fallback loop of the other compilers.\<close>

definition popcount8 :: "byte \<Rightarrow> nat" where
  "popcount8 x = length (filter (bit x) [0..<8])"

lemma kernighan_less: "x \<noteq> 0 \<Longrightarrow> unat (x AND (x - 1) :: byte) < unat x"
proof -
  assume "x \<noteq> 0"
  then have "unat (x - 1) < unat x" by (simp add: unat_minus_one unat_gt_0)
  moreover have "x AND (x - 1) \<le> x - 1" by (rule word_and_le1)
  ultimately show ?thesis by (simp add: word_le_nat_alt)
qed

function popcount_kernighan :: "byte \<Rightarrow> nat \<Rightarrow> nat" where
  "popcount_kernighan x acc =
    (if x \<noteq> 0 then popcount_kernighan (x AND (x - 1)) (acc + 1) else acc)"
  by pat_completeness auto
termination
  by (relation "measure (\<lambda>(x, acc). unat x)") (simp_all add: kernighan_less)

declare popcount_kernighan.simps [simp del]

function bitset_count_loop :: "'h zenit_bitset_t \<Rightarrow> nat \<Rightarrow> nat \<Rightarrow> nat option" where
  "bitset_count_loop bs i acc =
    (if i < bs_num_bytes bs then do {
       x \<leftarrow> mem_read (bs_bits bs) i 1;
       bitset_count_loop bs (i + 1) (sz_add acc (popcount8 (hd x)))
     } else Some acc)"
  by pat_completeness auto
termination
  by (relation "measure (\<lambda>(bs, i, acc). bs_num_bytes bs - i)") auto

declare bitset_count_loop.simps [simp del]

definition zenit_bitset_count :: "'h zenit_bitset_t option \<Rightarrow> nat option" where
  "zenit_bitset_count bitset = (case bitset of None \<Rightarrow> Some 0 | Some bs \<Rightarrow> bitset_count_loop bs 0 0)"

definition zenit_bitset_capacity :: "'h zenit_bitset_t option \<Rightarrow> nat" where
  "zenit_bitset_capacity bitset = (case bitset of None \<Rightarrow> 0 | Some bs \<Rightarrow> bs_num_bits bs)"

section \<open>Bits and bytes\<close>

text \<open>Kernighan's step clears the lowest set bit: on naturals by binary induction, then on bytes.\<close>

definition nat_bits :: "nat \<Rightarrow> nat set" where
  "nat_bits n = {k. bit n k}"

lemma nat_bits_even: "nat_bits (2 * m) = Suc ` nat_bits m"
proof -
  have "bit (2 * m) k \<longleftrightarrow> k \<in> Suc ` nat_bits m" for k
    by (cases k) (auto simp: nat_bits_def bit_Suc bit_0)
  then show ?thesis by (auto simp: nat_bits_def)
qed

lemma nat_bits_odd: "nat_bits (Suc (2 * m)) = insert 0 (Suc ` nat_bits m)"
proof -
  have "bit (Suc (2 * m)) k \<longleftrightarrow> k \<in> insert 0 (Suc ` nat_bits m)" for k
    by (cases k) (auto simp: nat_bits_def bit_Suc bit_0)
  then show ?thesis by (auto simp: nat_bits_def)
qed

lemma finite_nat_bits [simp]: "finite (nat_bits n)"
proof -
  have "nat_bits n \<subseteq> {..<n}"
    using bit_nat_iff by (auto simp: nat_bits_def bit_iff_odd intro: ccontr)
      (metis div_less even_zero less_exp linorder_not_less order_less_le_trans)
  then show ?thesis by (rule finite_subset) simp
qed

lemma card_nat_bits_step: "0 < n \<Longrightarrow> card (nat_bits n) = Suc (card (nat_bits (n AND (n - 1))))"
proof (induction n rule: less_induct)
  case (less n)
  show ?case
  proof (cases "even n")
    case False
    then obtain m where m: "n = Suc (2 * m)" by (metis odd_Suc_div_two odd_two_times_div_two_succ Suc_eq_plus1)
    have "n AND (n - 1) = 2 * m"
      unfolding m by (rule bit_eqI) (auto simp: bit_simps bit_Suc gr0_conv_Suc bit_0)
    then show ?thesis unfolding m nat_bits_odd nat_bits_even by (simp add: card_image nat_bits_even)
  next
    case True
    then obtain m where m: "n = 2 * m" "0 < m" using less.prems by (auto elim!: evenE)
    have "n - 1 = Suc (2 * (m - 1))" using m by simp
    then have "n AND (n - 1) = 2 * (m AND (m - 1))"
      unfolding m(1) by (intro bit_eqI) (auto simp: bit_simps bit_Suc gr0_conv_Suc bit_0)
    then show ?thesis using less.IH [of m] m by (simp add: nat_bits_even card_image)
  qed
qed

lemma popcount8_card: "popcount8 x = card (nat_bits (unat x))"
proof -
  have "nat_bits (unat x) = {k \<in> set [0..<8]. bit x k}"
    by (auto simp: nat_bits_def bit_simps dest: bit_imp_le_length)
  then show ?thesis
    unfolding popcount8_def by (simp only: set_filter [symmetric] distinct_card distinct_filter distinct_upt)
qed

text \<open>The two ways of counting a byte agree.\<close>

lemma popcount_kernighan_eq: "popcount_kernighan x acc = acc + popcount8 x"
proof (induction x acc rule: popcount_kernighan.induct)
  case (1 x acc)
  show ?case
  proof (cases "x = 0")
    case True
    then show ?thesis by (subst popcount_kernighan.simps) (simp add: popcount8_def)
  next
    case False
    have "unat (x AND (x - 1)) = unat x AND (unat x - 1)"
      using False by (simp add: unsigned_and_eq unat_minus_one)
    then have "popcount8 x = Suc (popcount8 (x AND (x - 1)))"
      using card_nat_bits_step [of "unat x"] False by (simp add: popcount8_card unat_gt_0)
    then show ?thesis using 1 False by (subst popcount_kernighan.simps) simp
  qed
qed

section \<open>Invariant and abstraction\<close>

definition bs_inv :: "'h zenit_bitset_t \<Rightarrow> bool" where
  "bs_inv bs \<longleftrightarrow> bs_num_bits bs + 7 < size_mod \<and> bs_num_bytes bs = bytes_needed (bs_num_bits bs) \<and>
    plen (bs_bits bs) = bs_num_bytes bs"

definition bs_bit :: "'h zenit_bitset_t \<Rightarrow> nat \<Rightarrow> bool" where
  "bs_bit bs k = bit (pbytes (bs_bits bs) ! (k div 8)) (k mod 8)"

definition bs_set :: "'h zenit_bitset_t \<Rightarrow> nat set" where
  "bs_set bs = {k. k < bs_num_bits bs \<and> bs_bit bs k}"

text \<open>No bit of the padding is set.\<close>

definition bs_clean :: "'h zenit_bitset_t \<Rightarrow> bool" where
  "bs_clean bs \<longleftrightarrow> (\<forall>k \<in> {bs_num_bits bs..<8 * bs_num_bytes bs}. \<not> bs_bit bs k)"

definition bs_owned :: "('h \<Rightarrow> nat set) \<Rightarrow> 'h zenit_bitset_t \<Rightarrow> 'h \<Rightarrow> bool" where
  "bs_owned live bs h \<longleftrightarrow> owned (bs_allocator bs) live (bs_self bs) (bs_bits bs) h"

lemma bytes_needed_eq: "n + 7 < size_mod \<Longrightarrow> bytes_needed n = max 1 ((n + 7) div 8)"
  by (simp add: bytes_needed_def size_simps max_def Let_def)

lemma bytes_needed_bounds:
  assumes "n + 7 < size_mod"
  shows "0 < bytes_needed n" and "n \<le> 8 * bytes_needed n" and "8 * bytes_needed n \<le> n + 8"
    and "bytes_needed n < size_mod" and "8 * bytes_needed n < size_mod"
proof -
  let ?q = "(n + 7) div 8"
  have q: "n \<le> 8 * ?q" "8 * ?q \<le> n + 8" "?q < size_mod" "8 * ?q < size_mod"
    using assms by linarith+
  show "0 < bytes_needed n" using bytes_needed_eq [OF assms] by simp
  show "n \<le> 8 * bytes_needed n" "8 * bytes_needed n \<le> n + 8" "bytes_needed n < size_mod"
    "8 * bytes_needed n < size_mod"
    unfolding bytes_needed_eq [OF assms] using q by (simp_all add: max_def size_mod_def)
qed

lemma bs_inv_Some:
  assumes "bs_inv bs"
  obtains b where "bs_bits bs = Some b" and "length (mbytes b) = bs_num_bytes bs"
    and "0 < bs_num_bytes bs" and "bs_num_bits bs \<le> 8 * bs_num_bytes bs"
    and "bs_num_bytes bs < size_mod"
  using assms bytes_needed_bounds [of "bs_num_bits bs"] that
  by (cases "bs_bits bs") (auto simp: bs_inv_def)

lemma bs_set_clean: "bs_inv bs \<Longrightarrow> bs_clean bs \<Longrightarrow> bs_set bs = {k. k < 8 * bs_num_bytes bs \<and> bs_bit bs k}"
  using bytes_needed_bounds(2) [of "bs_num_bits bs"]
  by (force simp: bs_set_def bs_clean_def bs_inv_def)

section \<open>Growing\<close>

text \<open>
  What a resize to at least the current size gives: the bits there were, and zeros; or an
  unchanged bitset when the allocation fails.
\<close>

definition bs_keeps ::
    "('h \<Rightarrow> nat set) \<Rightarrow> 'h zenit_bitset_t \<Rightarrow> 'h \<Rightarrow> 'h zenit_bitset_t \<Rightarrow> 'h \<Rightarrow> bool" where
  "bs_keeps live bs h bs' h' \<longleftrightarrow> bs_inv bs' \<and> bs_owned live bs' h' \<and>
    live h' = live h - paddrs (bs_bits bs) \<union> paddrs (bs_bits bs')"

lemma bitset_resize_ok:
  assumes inv: "bs_inv bs" and own: "bs_owned live bs h"
    and n: "bs_num_bits bs \<le> n" "n + 7 < size_mod"
  obtains (null) h' where "zenit_bitset_resize (Some bs) n h = Some (ZENIT_ERROR_ALLOC, Some bs, h')"
      and "bs_keeps live bs h bs h'"
  | (moved) bs' h' where "zenit_bitset_resize (Some bs) n h = Some (ZENIT_OK, Some bs', h')"
      and "bs_keeps live bs h bs' h'" and "bs_num_bits bs' = n"
      and "bs_num_bytes bs \<le> bs_num_bytes bs'"
      and "\<And>k. k < 8 * bs_num_bytes bs' \<Longrightarrow> bs_bit bs' k \<longleftrightarrow> k < 8 * bs_num_bytes bs \<and> bs_bit bs k"
proof -
  obtain b0 where b0: "bs_bits bs = Some b0" "length (mbytes b0) = bs_num_bytes bs"
    "0 < bs_num_bytes bs" "bs_num_bytes bs < size_mod" using bs_inv_Some [OF inv] by metis
  let ?o = "bs_num_bytes bs" and ?n = "bytes_needed n"
  have "(bs_num_bits bs + 7) div 8 \<le> (n + 7) div 8" using n(1) by (intro div_le_mono) simp
  then have le: "?o \<le> ?n" using inv n by (simp add: bs_inv_def bytes_needed_eq max.mono)
  note bn = bytes_needed_bounds [OF n(2)]
  have own': "owned (bs_allocator bs) live (bs_self bs) (bs_bits bs) h" using own by (simp add: bs_owned_def)
  have pl: "plen (bs_bits bs) = ?o" using b0 by simp
  show thesis
  proof (cases rule: owned_realloc [OF own' bn(1), case_names null block])
    case (null h')
    show thesis
    proof (rule that(1))
      show "zenit_bitset_resize (Some bs) n h = Some (ZENIT_ERROR_ALLOC, Some bs, h')"
        using null(1) pl by (simp add: zenit_bitset_resize_def)
      show "bs_keeps live bs h bs h'"
        using null inv own' by (auto simp: bs_keeps_def bs_owned_def owned_def)
    qed
  next
    case (block b h')
    define m where "m = take ?o (mbytes b) @ replicate (?n - ?o) 0"
    let ?bs = "bs\<lparr>bs_bits := Some (b\<lparr>mbytes := m\<rparr>), bs_num_bytes := ?n, bs_num_bits := n\<rparr>"
    have pre: "take ?o (mbytes b) = mbytes b0" using block(5) le b0 by (simp add: min_def split: if_splits)
    have m: "length m = ?n" using block(2) le by (simp add: m_def)
    have run: "zenit_bitset_resize (Some bs) n h = Some (ZENIT_OK, Some ?bs, h')"
    proof (cases "?o < ?n")
      case True
      then show ?thesis using block(1,2) pl bn b0
        by (simp add: zenit_bitset_resize_def size_simps mem_write_def blit_def m_def Let_def)
    next
      case False
      then have "b\<lparr>mbytes := m\<rparr> = b" using le block(2) by (simp add: m_def)
      then show ?thesis using False block(1) pl by (simp add: zenit_bitset_resize_def Let_def)
    qed
    have "bs_inv ?bs" using n m by (simp add: bs_inv_def)
    moreover have "bs_owned live ?bs h'"
      using block(3) by (simp add: bs_owned_def owned_def)
    ultimately have keep: "bs_keeps live bs h ?bs h'" using block(4) by (simp add: bs_keeps_def)
    have "bs_bit ?bs k \<longleftrightarrow> k < 8 * ?o \<and> bs_bit bs k" if k: "k < 8 * ?n" for k
    proof (cases "k < 8 * ?o")
      case True
      then have "k div 8 < ?o" by linarith
      then have "m ! (k div 8) = mbytes b0 ! (k div 8)" using pre b0 by (simp add: m_def nth_append)
      then show ?thesis using True b0 by (simp add: bs_bit_def)
    next
      case False
      then have "?o \<le> k div 8" "k div 8 < ?n" using k by linarith+
      then have "m ! (k div 8) = 0" using pre b0 by (simp add: m_def nth_append)
      then show ?thesis using False by (simp add: bs_bit_def)
    qed
    then show thesis using run keep le by (intro that(2) [of ?bs h']) simp_all
  qed
qed

text \<open>The doubling loop ends and stays in range for positions below \<open>2 ^ 62\<close>.\<close>

lemma bitset_grow_cap_ok:
  assumes "4 * needed < size_mod" and "c0 < needed"
  obtains c where "bitset_grow_cap c0 needed = Some c" and "needed \<le> c" and "c + 7 < size_mod"
proof -
  let ?P = "\<lambda>c. c \<le> max (2 * needed) 64"
  have step: "?P (if c = 0 then 64 else sz_mul c 2) \<and>
      needed - (if c = 0 then 64 else sz_mul c 2) < needed - c"
    if "c < needed" for c
    using that assms by (auto simp: size_simps)
  obtain c where c: "bitset_grow_cap c0 needed = Some c"
    using measure_while_option_Some [of ?P "\<lambda>c. c < needed" _ "\<lambda>c. needed - c" c0] step assms
    unfolding bitset_grow_cap_def by force
  have "?P c"
    by (rule while_option_rule [where P = ?P, OF _ c [unfolded bitset_grow_cap_def]])
      (use step assms in auto)
  moreover have "needed \<le> c"
    using while_option_stop [OF c [unfolded bitset_grow_cap_def]] by simp
  moreover note c
  ultimately have "bitset_grow_cap c0 needed = Some c" "?P c" "needed \<le> c" by simp_all
  then show thesis using assms by (intro that [of c]) (auto simp: size_mod_def)
qed

text \<open>Room for a position: the bitset covers it afterwards, as the same set of positions.\<close>

lemma bitset_ensure_capacity_ok:
  assumes inv: "bs_inv bs" and cl: "bs_clean bs" and own: "bs_owned live bs h"
    and pos: "4 * (pos + 1) < size_mod"
  obtains (null) h' where "bitset_ensure_capacity bs pos h = Some (ZENIT_ERROR_ALLOC, Some bs, h')"
      and "bs_keeps live bs h bs h'"
  | (room) bs' h' where "bitset_ensure_capacity bs pos h = Some (ZENIT_OK, Some bs', h')"
      and "bs_keeps live bs h bs' h'" and "bs_clean bs'" and "bs_set bs' = bs_set bs"
      and "pos < bs_num_bits bs'"
proof (cases "pos + 1 \<le> bs_num_bits bs")
  case True
  have "sz_add pos 1 = pos + 1" using pos by (simp add: size_simps)
  then show thesis using True inv cl own
    by (intro that(2) [of bs h])
      (auto simp: bitset_ensure_capacity_def bs_keeps_def bs_owned_def owned_def)
next
  case False
  have add: "sz_add pos 1 = pos + 1" using pos by (simp add: size_simps)
  obtain c where c: "bitset_grow_cap (bs_num_bits bs) (pos + 1) = Some c" "pos + 1 \<le> c" "c + 7 < size_mod"
    using bitset_grow_cap_ok [OF pos, of "bs_num_bits bs"] False by auto
  have run: "bitset_ensure_capacity bs pos h = zenit_bitset_resize (Some bs) c h"
    using False add c(1) by (simp add: bitset_ensure_capacity_def)
  have le: "bs_num_bits bs \<le> c" using False c(2) by linarith
  show thesis
  proof (cases rule: bitset_resize_ok [OF inv own le c(3), case_names null moved])
    case (null h')
    then show thesis using run by (intro that(1)) simp_all
  next
    case (moved bs' h')
    have inv': "bs_inv bs'" using moved(2) by (simp add: bs_keeps_def)
    have le2: "bs_num_bits bs \<le> 8 * bs_num_bytes bs" "c \<le> 8 * bs_num_bytes bs'"
      using bs_inv_Some [OF inv] bs_inv_Some [OF inv'] moved(3) by metis+
    have bits: "bs_bit bs' k \<longleftrightarrow> k \<in> bs_set bs" if "k < 8 * bs_num_bytes bs'" for k
      using moved(5) [OF that] cl le2 by (auto simp: bs_clean_def bs_set_def)
    have "bs_set bs' = bs_set bs"
      using bits le le2 moved(3) by (auto simp: bs_set_def)
    moreover have "bs_clean bs'"
      using bits le moved(3) by (auto simp: bs_clean_def bs_set_def)
    ultimately show thesis using run moved c(2) by (intro that(2) [of bs' h']) simp_all
  qed
qed

section \<open>The operations on sets of positions\<close>

definition acts_on_bit :: "(byte \<Rightarrow> byte \<Rightarrow> byte) \<Rightarrow> (bool \<Rightarrow> bool) \<Rightarrow> bool" where
  "acts_on_bit f g \<longleftrightarrow>
    (\<forall>x n k. n < 8 \<longrightarrow> k < 8 \<longrightarrow> bit (f x (push_bit n 1)) k = (if k = n then g (bit x k) else bit x k))"

lemma acts_on_bit_ops:
  "acts_on_bit (\<lambda>x mask. x OR mask) (\<lambda>b. True)"
  "acts_on_bit (\<lambda>x mask. x AND NOT mask) (\<lambda>b. False)"
  "acts_on_bit (\<lambda>x mask. x XOR mask) Not"
  by (auto simp: acts_on_bit_def bit_simps bit_1_iff)

text \<open>The outcome of an update: the new set of positions, or the old bitset and an error.\<close>

definition bs_step ::
    "('h \<Rightarrow> nat set) \<Rightarrow> 'h zenit_bitset_t \<Rightarrow> 'h \<Rightarrow> nat set \<Rightarrow>
     (zenit_result_t \<times> 'h zenit_bitset_t option \<times> 'h) option \<Rightarrow> bool" where
  "bs_step live bs h S res \<longleftrightarrow>
    (\<exists>r bs' h'. res = Some (r, Some bs', h') \<and> bs_keeps live bs h bs' h' \<and> bs_clean bs' \<and>
      (r = ZENIT_ERROR_ALLOC \<and> bs' = bs \<or> r = ZENIT_OK \<and> bs_set bs' = S))"

lemma bitset_modify_refines:
  assumes f: "acts_on_bit f g" and inv: "bs_inv bs" and cl: "bs_clean bs" and own: "bs_owned live bs h"
    and pos: "4 * (pos + 1) < size_mod"
  shows "bs_step live bs h {k. if k = pos then g (pos \<in> bs_set bs) else k \<in> bs_set bs}
    (bitset_modify f (Some bs) pos h)"
proof (cases rule: bitset_ensure_capacity_ok [OF inv cl own pos, case_names null room])
  case (null h')
  then show ?thesis using cl by (simp add: bitset_modify_def bs_step_def)
next
  case (room bs1 h1)
  from room(2) have inv1: "bs_inv bs1" by (simp add: bs_keeps_def)
  obtain b where b: "bs_bits bs1 = Some b" "length (mbytes b) = bs_num_bytes bs1"
    "bs_num_bits bs1 \<le> 8 * bs_num_bytes bs1" using bs_inv_Some [OF inv1] by metis
  let ?i = "pos div 8" and ?m = "mbytes b"
  have i: "?i < length ?m" using room(5) b by linarith
  define y where "y = f (?m ! ?i) (push_bit (pos mod 8) 1)"
  have rd: "take 1 (drop ?i ?m) = [?m ! ?i]" using i by (simp add: take_Suc One_nat_def hd_drop_conv_nth)
  have wr: "blit ?m ?i [y] = ?m[?i := y]" using i by (simp add: blit_def upd_conv_take_nth_drop)
  let ?b = "b\<lparr>mbytes := ?m[?i := y]\<rparr>"
  let ?bs = "bs1\<lparr>bs_bits := Some ?b\<rparr>"
  have run: "bitset_modify f (Some bs) pos h = Some (ZENIT_OK, Some ?bs, h1)"
    using room(1) i rd wr
    by (simp add: bitset_modify_def b(1) mem_read_def mem_write_def y_def)
  have bits: "bs_bit ?bs k = (if k = pos then g (bs_bit bs1 pos) else bs_bit bs1 k)"
    if k: "k < 8 * bs_num_bytes bs1" for k
  proof (cases "k div 8 = ?i")
    case True
    then have "k mod 8 = pos mod 8 \<longleftrightarrow> k = pos" by (metis div_mult_mod_eq)
    moreover have "bit y (k mod 8) = (if k mod 8 = pos mod 8 then g (bit (?m ! ?i) (k mod 8))
        else bit (?m ! ?i) (k mod 8))"
      using f unfolding y_def acts_on_bit_def by simp
    ultimately show ?thesis using True i by (auto simp: bs_bit_def b(1))
  next
    case False
    then show ?thesis by (auto simp: bs_bit_def b(1))
  qed
  have keep: "bs_keeps live bs h ?bs h1"
    using room(2) b by (auto simp: bs_keeps_def bs_inv_def bs_owned_def owned_def)
  have "bs_clean ?bs" using room(3,5) bits b(3) by (auto simp: bs_clean_def)
  moreover have "bs_set ?bs = {k. if k = pos then g (pos \<in> bs_set bs) else k \<in> bs_set bs}"
    unfolding room(4) [symmetric] using bits room(5) b(3) by (auto simp: bs_set_def)
  ultimately show ?thesis using run keep by (simp add: bs_step_def)
qed


text \<open>\<open>zenit_bitset_test\<close> is membership, for every position, without leaving the storage.\<close>

theorem bitset_test_member:
  assumes inv: "bs_inv bs"
  shows "zenit_bitset_test (Some bs) pos = Some (pos \<in> bs_set bs)"
proof (cases "pos < bs_num_bits bs")
  case True
  obtain b where b: "bs_bits bs = Some b" "length (mbytes b) = bs_num_bytes bs"
    "bs_num_bits bs \<le> 8 * bs_num_bytes bs" using bs_inv_Some [OF inv] by metis
  have i: "pos div 8 < length (mbytes b)" using True b by linarith
  have one: "drop_bit n x AND 1 = 1 \<longleftrightarrow> bit x n" for x :: byte and n
    by (simp add: and_one_eq bit_iff_odd_drop_bit mod_2_eq_odd)
  have "take 1 (drop (pos div 8) (mbytes b)) = [mbytes b ! (pos div 8)]"
    using i by (simp add: take_Suc One_nat_def hd_drop_conv_nth)
  then show ?thesis using True i
    by (simp add: zenit_bitset_test_def b(1) mem_read_def one bs_set_def bs_bit_def)
qed (simp add: zenit_bitset_test_def bs_set_def)

section \<open>Counting\<close>

lemma bits_of_byte: "card {k. k div 8 = i \<and> P (k mod 8)} = length (filter P [0..<8])"
proof -
  have "{k. k div 8 = i \<and> P (k mod 8)} = (\<lambda>j. 8 * i + j) ` {j \<in> {0..<8}. P j}"
  proof (intro equalityI subsetI)
    fix k assume "k \<in> {k. k div 8 = i \<and> P (k mod 8)}"
    then have "k = 8 * i + k mod 8" "P (k mod 8)" by auto
    then show "k \<in> (\<lambda>j. 8 * i + j) ` {j \<in> {0..<8}. P j}" by (intro image_eqI [of _ _ "k mod 8"]) auto
  qed auto
  moreover have "card {j \<in> {0..<8}. P j} = length (filter P [0..<8])"
    using distinct_card [of "filter P [0..<8]"] by (simp add: set_filter)
  ultimately show ?thesis by (simp add: card_image inj_on_def)
qed

lemma bitset_count_loop_card:
  assumes inv: "bs_inv bs" and "i \<le> bs_num_bytes bs"
    and "acc = card {k. k < 8 * i \<and> bs_bit bs k}"
  shows "bitset_count_loop bs i acc = Some (card {k. k < 8 * bs_num_bytes bs \<and> bs_bit bs k})"
  using assms(2,3)
proof (induction "bs_num_bytes bs - i" arbitrary: i acc)
  case 0
  then show ?case by (subst bitset_count_loop.simps) simp
next
  case (Suc n)
  then have i: "i < bs_num_bytes bs" by simp
  obtain b where b: "bs_bits bs = Some b" "length (mbytes b) = bs_num_bytes bs"
    "bs_num_bytes bs < size_mod" using bs_inv_Some [OF inv] by metis
  have rd: "take 1 (drop i (mbytes b)) = [mbytes b ! i]"
    using i b by (simp add: take_Suc One_nat_def hd_drop_conv_nth)
  let ?A = "\<lambda>i. {k. k < 8 * i \<and> bs_bit bs k}"
  let ?B = "{k. k div 8 = i \<and> bit (mbytes b ! i) (k mod 8)}"
  have "k < 8 * (i + 1) \<longleftrightarrow> k < 8 * i \<or> k div 8 = i" for k
    using div_less_iff_less_mult [of 8 k "i + 1"] div_less_iff_less_mult [of 8 k i] by auto
  then have split: "?A (i + 1) = ?A i \<union> ?B" by (auto simp: bs_bit_def b(1))
  have B: "card ?B = popcount8 (mbytes b ! i)" unfolding popcount8_def by (rule bits_of_byte)
  have fin: "finite (?A i)" for i by simp
  have "finite ?B" by (rule finite_subset [OF _ fin [of "i + 1"]]) (use split in blast)
  moreover have "?A i \<inter> ?B = {}" by auto
  ultimately have card: "card (?A (i + 1)) = acc + popcount8 (mbytes b ! i)"
    unfolding split using card_Un_disjoint [OF fin] B Suc.prems by simp
  have "card (?A (i + 1)) \<le> card {..<8 * (i + 1)}" by (intro card_mono) auto
  then have "card (?A (i + 1)) < size_mod"
    using bytes_needed_bounds(5) [of "bs_num_bits bs"] inv i by (auto simp: bs_inv_def)
  then have "sz_add acc (popcount8 (mbytes b ! i)) = card (?A (i + 1))"
    using card by (simp add: size_simps)
  then show ?case using Suc.hyps(1) [of "i + 1" "card (?A (i + 1))"] Suc.hyps(2) i rd
    by (subst bitset_count_loop.simps) (simp add: b(1,2) mem_read_def)
qed

text \<open>
  C16: \<open>zenit_bitset_count\<close> is the number of set positions as long as the padding is clear, as it
  is after every set, clear and toggle.
\<close>

theorem bitset_count_card:
  assumes "bs_inv bs" and "bs_clean bs"
  shows "zenit_bitset_count (Some bs) = Some (card (bs_set bs))"
  using bitset_count_loop_card [OF assms(1), of 0 0] bs_set_clean [OF assms]
  by (simp add: zenit_bitset_count_def)

text \<open>
  \<open>zenit_bitset_set_all\<close> also sets the padding: the count afterwards is eight times the number
  of bytes, more than the number of bits whenever that is no multiple of eight.
\<close>

theorem bitset_set_all_counts_padding:
  assumes inv: "bs_inv bs"
  shows "\<exists>bs'. zenit_bitset_set_all (Some bs) = Some (ZENIT_OK, Some bs') \<and> bs_inv bs' \<and>
    bs_set bs' = {..<bs_num_bits bs} \<and> zenit_bitset_count (Some bs') = Some (8 * bs_num_bytes bs)"
proof -
  obtain b where b: "bs_bits bs = Some b" "length (mbytes b) = bs_num_bytes bs"
    "bs_num_bits bs \<le> 8 * bs_num_bytes bs" using bs_inv_Some [OF inv] by metis
  let ?bs = "bs\<lparr>bs_bits := Some (b\<lparr>mbytes := replicate (bs_num_bytes bs) 0xFF\<rparr>)\<rparr>"
  have run: "zenit_bitset_set_all (Some bs) = Some (ZENIT_OK, Some ?bs)"
    using b by (simp add: zenit_bitset_set_all_def mem_write_def blit_def)
  have ff: "bit (0xFF :: byte) j" if "j < 8" for j
  proof -
    have "(0xFF :: byte) = - 1" by code_simp
    then show ?thesis using that by (simp only: bit_minus_1_iff) simp
  qed
  have bits: "bs_bit ?bs k" if "k < 8 * bs_num_bytes bs" for k
    using that ff [of "k mod 8"] by (simp add: bs_bit_def less_mult_imp_div_less mult.commute)
  have inv': "bs_inv ?bs" using inv by (simp add: bs_inv_def)
  have "{k. k < 8 * bs_num_bytes bs \<and> bs_bit ?bs k} = {..<8 * bs_num_bytes bs}" using bits by auto
  then have "zenit_bitset_count (Some ?bs) = Some (8 * bs_num_bytes bs)"
    using bitset_count_loop_card [OF inv', of 0 0] by (simp add: zenit_bitset_count_def)
  moreover have "bs_set ?bs = {..<bs_num_bits bs}" using bits b(3) by (auto simp: bs_set_def)
  ultimately show ?thesis using run inv' by auto
qed

lemma bitset_clear_all_empty:
  assumes inv: "bs_inv bs"
  shows "\<exists>bs'. zenit_bitset_clear_all (Some bs) = Some (ZENIT_OK, Some bs') \<and> bs_inv bs' \<and>
    bs_clean bs' \<and> bs_set bs' = {}"
proof -
  obtain b where b: "bs_bits bs = Some b" "length (mbytes b) = bs_num_bytes bs"
    "bs_num_bits bs \<le> 8 * bs_num_bytes bs" using bs_inv_Some [OF inv] by metis
  let ?bs = "bs\<lparr>bs_bits := Some (b\<lparr>mbytes := replicate (bs_num_bytes bs) 0\<rparr>)\<rparr>"
  have "zenit_bitset_clear_all (Some bs) = Some (ZENIT_OK, Some ?bs)"
    using b by (simp add: zenit_bitset_clear_all_def mem_write_def blit_def)
  moreover have "\<not> bs_bit ?bs k" if "k < 8 * bs_num_bytes bs" for k
    using that by (simp add: bs_bit_def less_mult_imp_div_less mult.commute)
  then have "bs_clean ?bs" "bs_set ?bs = {}" using b(3) by (auto simp: bs_clean_def bs_set_def)
  moreover have "bs_inv ?bs" using inv by (simp add: bs_inv_def)
  ultimately show ?thesis by auto
qed

text \<open>
  the size computation \<open>required_pos + 1\<close> wraps to 0 for the last position, so no growth happens
  and setting that position writes outside the storage of every well-formed bitset.
\<close>

theorem bitset_set_last_position_overflows:
  assumes inv: "bs_inv bs"
  shows "zenit_bitset_set (Some bs) (size_mod - 1) h = None"
proof -
  obtain b where b: "bs_bits bs = Some b" "length (mbytes b) = bs_num_bytes bs"
    using bs_inv_Some [OF inv] by metis
  have "(bs_num_bits bs + 7) div 8 \<le> (size_mod - 1) div 8"
    using inv by (intro div_le_mono) (auto simp: bs_inv_def)
  then have "bs_num_bytes bs \<le> (size_mod - 1) div 8"
    using inv by (simp add: bs_inv_def bytes_needed_eq) (simp add: size_mod_def)
  then have "\<not> (size_mod - 1) div 8 + 1 \<le> length (mbytes b)" using b by simp
  moreover have "sz_add (size_mod - 1) 1 = 0" by (simp add: sz_add_def size_mod_def)
  ultimately show ?thesis
    by (simp add: zenit_bitset_set_def bitset_modify_def bitset_ensure_capacity_def b(1) mem_read_def)
qed

text \<open>A fresh bitset is empty, clean and owned.\<close>

lemma bitset_create_cases:
  assumes c: "allocator_contract a live" and n: "num_bits + 7 < size_mod"
  obtains (null) h' where "zenit_bitset_create_with_allocator num_bits a h = Some (None, h')"
      and "live h' = live h"
  | (made) bs h' where "zenit_bitset_create_with_allocator num_bits a h = Some (Some bs, h')"
      and "bs_inv bs" and "bs_clean bs" and "bs_owned live bs h'" and "bs_set bs = {}"
      and "bs_num_bits bs = num_bits"
proof (cases rule: allocator_contract.alloc_cases [OF c, of sizeof_bitset h, case_names null block])
  case (null h1)
  then show thesis using that(1) by (simp add: zenit_bitset_create_with_allocator_def)
next
  case (block p h1)
  let ?n = "bytes_needed num_bits"
  note bn = bytes_needed_bounds [OF n]
  have mul: "sz_mul 1 ?n = ?n" using bn by (simp add: size_simps)
  show thesis
  proof (cases rule: allocator_contract.alloc_zero_cases [OF c, of 1 ?n h1, case_names null block])
    case (null h2)
    then have "maddr p \<in> live h2" using block by simp
    from allocator_contract.free_addr [OF c this] obtain h3 where
      "free_fn a (Some (maddr p)) h2 = Some h3" "live h3 = live h2 - {maddr p}" by blast
    then show thesis using block null that(1) [of h3]
      by (simp add: zenit_bitset_create_with_allocator_def)
  next
    case z: (block b h2)
    let ?bs = "\<lparr>bs_self = maddr p, bs_bits = Some b, bs_num_bytes = ?n, bs_num_bits = num_bits,
        bs_allocator = a\<rparr>"
    have "zenit_bitset_create_with_allocator num_bits a h = Some (Some ?bs, h2)"
      using block z by (simp add: zenit_bitset_create_with_allocator_def)
    moreover have "bs_inv ?bs" using n z(2) mul by (simp add: bs_inv_def)
    moreover have "\<not> bs_bit ?bs k" if "k < 8 * ?n" for k
      using that z(2) mul by (simp add: bs_bit_def less_mult_imp_div_less mult.commute)
    then have "bs_clean ?bs" "bs_set ?bs = {}" using bn(2) by (auto simp: bs_clean_def bs_set_def)
    moreover have "bs_owned live ?bs h2"
      using owned_fresh(1) [OF c block(3,4) z(3,4)] by (simp add: bs_owned_def)
    ultimately show thesis by (intro that(2) [of ?bs h2]) simp_all
  qed
qed

lemma bitset_destroy_owned:
  assumes "bs_owned live bs h"
  shows "\<exists>h'. zenit_bitset_destroy (Some bs) h = Some h' \<and>
    live h' = live h - insert (bs_self bs) (paddrs (bs_bits bs))"
  using assms unfolding bs_owned_def
  by (elim owned_release) (simp add: zenit_bitset_destroy_def)

section \<open>Concrete instances\<close>

definition demo_bitset :: "c_heap zenit_bitset_t" where
  "demo_bitset = \<lparr>bs_self = 1, bs_bits = Some \<lparr>maddr = 2, mbytes = [5, 2]\<rparr>, bs_num_bytes = 2,
     bs_num_bits = 10, bs_allocator = ZENIT_ALLOCATOR_DEFAULT\<rparr>"

definition demo_bitset_heap :: c_heap where
  "demo_bitset_heap = \<lparr>heap_live = [2, 1], heap_script = [], heap_junk = 0\<rparr>"

lemma demo_bitset_inv: "bs_inv demo_bitset" "bs_clean demo_bitset"
  by code_simp+

lemma demo_bitset_owned: "bs_owned heap_addrs demo_bitset demo_bitset_heap"
  using default_contract
  by (simp add: bs_owned_def owned_def demo_bitset_def demo_bitset_heap_def heap_addrs_def)


theorem bitset_test_member_witness:
  "zenit_bitset_test (Some demo_bitset) 9 = Some (9 \<in> bs_set demo_bitset)"
  by (rule bitset_test_member [OF demo_bitset_inv(1)])

theorem bitset_count_card_witness:
  "zenit_bitset_count (Some demo_bitset) = Some (card (bs_set demo_bitset))"
  by (rule bitset_count_card [OF demo_bitset_inv])

theorem bitset_set_all_counts_padding_witness:
  "\<exists>bs'. zenit_bitset_set_all (Some demo_bitset) = Some (ZENIT_OK, Some bs') \<and>
    bs_set bs' = {..<10} \<and> zenit_bitset_count (Some bs') = Some 16"
  using bitset_set_all_counts_padding [OF demo_bitset_inv(1)] by (auto simp: demo_bitset_def)

theorem bitset_set_last_position_overflows_witness:
  "zenit_bitset_set (Some demo_bitset) (size_mod - 1) demo_bitset_heap = None"
  by (rule bitset_set_last_position_overflows [OF demo_bitset_inv(1)])

end
