(* ===== verification/Zenit_Pow2.thy ===== *)
theory Zenit_Pow2
  imports Zenit_Prelude
begin

unbundle bit_operations_syntax

text \<open>
  Rounding up to a power of two by smearing the highest set bit downwards: \<open>round_pow2\<close> of
  \<open>src/_hash_common.h\<close> on 64-bit sizes, and what its 32-bit twin in \<open>src/spsc.c\<close> needs too.
\<close>

definition smear :: "nat \<Rightarrow> 'a::len word \<Rightarrow> 'a word" where
  "smear k n = n OR drop_bit k n"

definition round_pow2 :: "nat \<Rightarrow> nat" where
  "round_pow2 n = unat (smear 32 (smear 16 (smear 8 (smear 4 (smear 2 (smear 1
     (word_of_nat n - 1 :: 64 word)))))) + 1)"

section \<open>Rounding up to a power of two\<close>

text \<open>After smearing with 1, 2, 4, 8, 16 and 32 every bit below the highest set bit is set.\<close>

definition smeared :: "nat \<Rightarrow> 'a::len word \<Rightarrow> 'a word \<Rightarrow> bool" where
  "smeared w n m \<longleftrightarrow> (\<forall>i. bit m i \<longleftrightarrow> (\<exists>j < w. bit n (i + j)))"

lemma smeared_step: "smeared w n m \<Longrightarrow> smeared (w + w) n (smear w m)"
proof -
  assume s: "smeared w n m"
  have "bit (smear w m) i \<longleftrightarrow> (\<exists>j < w + w. bit n (i + j))" for i
  proof -
    have "bit (smear w m) i \<longleftrightarrow> bit m i \<or> bit m (w + i)"
      by (auto simp: smear_def bit_or_iff bit_drop_bit_eq)
    also have "\<dots> \<longleftrightarrow> (\<exists>j < w. bit n (i + j)) \<or> (\<exists>j < w. bit n (w + i + j))"
      using s by (simp add: smeared_def)
    also have "\<dots> \<longleftrightarrow> (\<exists>j < w + w. bit n (i + j))"
    proof
      assume "(\<exists>j < w. bit n (i + j)) \<or> (\<exists>j < w. bit n (w + i + j))"
      then show "\<exists>j < w + w. bit n (i + j)"
      proof
        assume "\<exists>j < w. bit n (w + i + j)"
        then obtain j where "j < w" "bit n (i + (w + j))" by (auto simp: ac_simps)
        then show ?thesis by (intro exI [of _ "w + j"]) simp
      qed (auto intro: trans_less_add1)
    next
      assume "\<exists>j < w + w. bit n (i + j)"
      then obtain j where j: "j < w + w" "bit n (i + j)" by blast
      show "(\<exists>j < w. bit n (i + j)) \<or> (\<exists>j < w. bit n (w + i + j))"
      proof (cases "j < w")
        case False
        then have "j - w < w" "w + i + (j - w) = i + j" using j(1) by auto
        then show ?thesis using j(2) by metis
      qed (use j in blast)
    qed
    finally show ?thesis .
  qed
  then show ?thesis by (simp add: smeared_def)
qed

text \<open>
  Once the smearing has covered the whole word, adding one gives the least power of two at or
  above \<open>n\<close>, where \<open>x\<close> is \<open>n - 1\<close>.
\<close>

lemma smeared_pow2:
  fixes x m :: "'a::len word"
  assumes sm: "smeared LENGTH('a) x m" and un: "unat x = n - 1" and n: "0 < n" "n \<le> 2 ^ (LENGTH('a) - 1)"
  shows "\<exists>p < LENGTH('a). unat (m + 1) = 2 ^ p \<and> n \<le> 2 ^ p \<and> (\<forall>q. n \<le> 2 ^ q \<longrightarrow> p \<le> q)"
proof -
  let ?L = "LENGTH('a)"
  have bx: "bit x i \<longleftrightarrow> bit (n - 1) i" for i
    unfolding un [symmetric] by (simp add: bit_unsigned_iff)
  have bits: "bit m i \<longleftrightarrow> (\<exists>j < ?L. bit x (i + j))" for i
    using sm by (simp add: smeared_def)
  define p where "p = (LEAST q. n - 1 < 2 ^ q)"
  have ex: "n - 1 < 2 ^ (?L - 1)" using n by linarith
  then have p: "n - 1 < 2 ^ p" "p \<le> ?L - 1" unfolding p_def by (rule LeastI, rule Least_le)
  have pL: "p < ?L" using p(2) len_gt_0 [where 'a = 'a] by linarith
  have least: "p \<le> q" if "n - 1 < 2 ^ q" for q unfolding p_def using that by (rule Least_le)
  have hi: "\<not> bit x i" if "p \<le> i" for i
  proof -
    have "(2::nat) ^ p \<le> 2 ^ i" using that by (simp add: power_increasing)
    then have "n - 1 < 2 ^ i" using p(1) by linarith
    then have "\<not> bit (n - 1) i" by (simp add: bit_iff_odd)
    then show ?thesis using bx by simp
  qed
  have top: "bit x (p - 1)" if "0 < p"
  proof -
    have "\<not> n - 1 < 2 ^ (p - 1)" using least [of "p - 1"] that by auto
    moreover have "n - 1 < 2 ^ (p - 1) * 2" using p(1) that by (simp flip: power_Suc2)
    ultimately have "(n - 1) div 2 ^ (p - 1) = 1" by (intro div_nat_eqI) auto
    then have "bit (n - 1) (p - 1)" by (simp add: bit_iff_odd)
    then show ?thesis using bx by simp
  qed
  have "bit m i \<longleftrightarrow> i < p" for i
  proof
    assume "bit m i" then show "i < p" using bits hi by (meson linorder_not_less trans_le_add1)
  next
    assume i: "i < p"
    then have "bit x (i + (p - 1 - i))" "p - 1 - i < ?L" using top pL by auto
    then show "bit m i" using bits by blast
  qed
  then have "m = mask p" using pL by (intro bit_word_eqI) (auto simp: bit_mask_iff)
  then have "m + 1 = 2 ^ p" by (simp add: mask_eq_exp_minus_1)
  moreover have "unat (2 ^ p :: 'a word) = 2 ^ p"
  proof -
    have "(2::nat) ^ p < 2 ^ ?L" using pL by (intro power_strict_increasing) simp_all
    then have "unat (word_of_nat (2 ^ p) :: 'a word) = 2 ^ p"
      by (simp only: unsigned_of_nat take_bit_nat_eq_self of_nat_id)
    then show ?thesis by simp
  qed
  ultimately have "unat (m + 1) = 2 ^ p" by simp
  moreover have "n \<le> 2 ^ p" "\<forall>q. n \<le> 2 ^ q \<longrightarrow> p \<le> q" using p(1) least n(1) by force+
  ultimately show ?thesis using pL by blast
qed

lemma unat_of_nat_minus_one:
  assumes "0 < n" and "n \<le> 2 ^ (LENGTH('a::len) - 1)"
  shows "unat (word_of_nat n - 1 :: 'a word) = n - 1"
proof -
  have "(2::nat) ^ (LENGTH('a) - 1) < 2 ^ LENGTH('a)" by (intro power_strict_increasing) simp_all
  then have "n < 2 ^ LENGTH('a)" using assms(2) by (rule le_less_trans [rotated])
  then have u: "unat (word_of_nat n :: 'a word) = n"
    by (simp add: unsigned_of_nat take_bit_nat_eq_self_iff)
  then have "(word_of_nat n :: 'a word) \<noteq> 0" using assms(1) by (metis unat_0 less_irrefl)
  then show ?thesis using u by (simp add: unat_minus_one)
qed

text \<open>
  \<open>round_pow2\<close> is the least power of two at or above its argument, for every size from 1 to
  \<open>2 ^ 63\<close>.
\<close>

lemma round_pow2_least:
  assumes n: "0 < n" "n \<le> 2 ^ 63"
  shows "\<exists>p < 64. round_pow2 n = 2 ^ p \<and> n \<le> 2 ^ p \<and> (\<forall>q. n \<le> 2 ^ q \<longrightarrow> p \<le> q)"
proof -
  let ?x = "word_of_nat n - 1 :: 64 word"
  have "smeared 1 ?x ?x" by (simp add: smeared_def)
  from smeared_step [OF smeared_step [OF smeared_step [OF smeared_step [OF smeared_step
    [OF smeared_step [OF this]]]]]]
  have "smeared LENGTH(64) ?x (smear 32 (smear 16 (smear 8 (smear 4 (smear 2 (smear 1 ?x))))))" by simp
  from smeared_pow2 [OF this unat_of_nat_minus_one n(1)] n show ?thesis by (simp add: round_pow2_def)
qed

lemma round_pow2_pow:
  assumes "p \<le> 63"
  shows "round_pow2 (2 ^ p) = 2 ^ p"
proof -
  have "(2::nat) ^ p \<le> 2 ^ 63" using assms by (intro power_increasing) simp_all
  then obtain q where "round_pow2 (2 ^ p) = 2 ^ q" "(2::nat) ^ p \<le> 2 ^ q" "q \<le> p"
    using round_pow2_least [of "2 ^ p"] by auto
  moreover have "(2::nat) ^ q \<le> 2 ^ p" using \<open>q \<le> p\<close> by (intro power_increasing) simp_all
  ultimately show ?thesis by simp
qed

end
