(* ===== verification/Zenit_Hash.thy ===== *)
theory Zenit_Hash
  imports Zenit_Allocator Zenit_Pow2
begin

text \<open>
  The open-addressing table behind the hash map and the hash set (\<open>src/_hash_common.h\<close>, and the
  helpers \<open>probe_slot\<close>, \<open>rehash\<close> and \<open>ensure_load\<close> that \<open>src/map.c\<close> and \<open>src/set.c\<close> both define).

  The fields the two structs share are the record \<open>zenit_table_t\<close>; a set is the case of values of
  size 0, for which the second \<open>memcpy\<close> of an entry is absent. Linear probing is first studied on
  an abstract view of the slots (\<open>chain_ok\<close>, \<open>reach\<close>), then the loops over the two byte arrays are
  shown to follow it.
\<close>

unbundle bit_operations_syntax

section \<open>Hashing and sizes\<close>

fun fnv1a_loop :: "64 word \<Rightarrow> byte list \<Rightarrow> 64 word" where
  "fnv1a_loop h [] = h"
| "fnv1a_loop h (b # bs) = fnv1a_loop ((h XOR ucast b) * 1099511628211) bs"

definition hash_fnv1a :: "byte list \<Rightarrow> nat" where
  "hash_fnv1a data = unat (fnv1a_loop 14695981039346656037 data)"

section \<open>The table\<close>

record zenit_table_t =
  ht_slots :: ptr
  ht_states :: ptr
  ht_key_size :: nat
  ht_value_size :: nat
  ht_slot_size :: nat
  ht_capacity :: nat
  ht_count :: nat
  ht_deleted :: nat

text \<open>
  The search loop of \<open>probe_slot\<close>: 0, 1, 2 are the states EMPTY, OCCUPIED and DELETED. The loop has
  no bound of its own, so it is \<open>None\<close> when it never meets an EMPTY slot or the key.
\<close>

partial_function (option) probe_loop ::
    "zenit_table_t \<Rightarrow> byte list \<Rightarrow> nat \<Rightarrow> nat \<Rightarrow> nat \<Rightarrow> bool \<Rightarrow> (nat \<times> nat) option" where
  "probe_loop ht key msk index first_deleted found_deleted = do {
     s \<leftarrow> mem_read (ht_states ht) index 1;
     if s = [0] then Some (if found_deleted then (2, first_deleted) else (0, index))
     else if s = [2] then
       probe_loop ht key msk (sz_add index 1 AND msk)
         (if found_deleted then first_deleted else index) True
     else do {
       k \<leftarrow> mem_read (ht_slots ht) (sz_mul index (ht_slot_size ht)) (ht_key_size ht);
       if k = key then Some (1, index)
       else probe_loop ht key msk (sz_add index 1 AND msk) first_deleted found_deleted
     }
   }"

declare probe_loop.simps [code]

definition probe_slot :: "zenit_table_t \<Rightarrow> byte list \<Rightarrow> (nat \<times> nat) option" where
  "probe_slot ht key = do {
     k \<leftarrow> user_read key (ht_key_size ht);
     let msk = sz_sub (ht_capacity ht) 1;
     probe_loop ht k msk (hash_fnv1a k AND msk) (ht_capacity ht) False
   }"

text \<open>Writing an entry: the key, then the value, then the state byte.\<close>

definition ht_place :: "zenit_table_t \<Rightarrow> nat \<Rightarrow> byte list \<Rightarrow> byte list \<Rightarrow> zenit_table_t option" where
  "ht_place ht index key value = do {
     let dest = sz_mul index (ht_slot_size ht);
     p1 \<leftarrow> mem_write (ht_slots ht) dest key;
     p2 \<leftarrow> (if ht_value_size ht = 0 then Some p1
            else mem_write p1 (sz_add dest (ht_key_size ht)) value);
     q \<leftarrow> mem_write (ht_states ht) index [1];
     Some (ht\<lparr>ht_slots := p2, ht_states := q, ht_count := sz_add (ht_count ht) 1\<rparr>)
   }"

text \<open>The inner loop of \<open>rehash\<close>: the first slot that is not OCCUPIED.\<close>

partial_function (option) rehash_find :: "ptr \<Rightarrow> nat \<Rightarrow> nat \<Rightarrow> nat option" where
  "rehash_find states msk index = do {
     s \<leftarrow> mem_read states index 1;
     if s = [1] then rehash_find states msk (sz_add index 1 AND msk) else Some index
   }"

declare rehash_find.simps [code]

function rehash_loop :: "zenit_table_t \<Rightarrow> zenit_table_t \<Rightarrow> nat \<Rightarrow> zenit_table_t option" where
  "rehash_loop old ht i =
    (if i < ht_capacity old then do {
       s \<leftarrow> mem_read (ht_states old) i 1;
       if s = [1] then do {
         e \<leftarrow> mem_read (ht_slots old) (sz_mul i (ht_slot_size ht)) (ht_slot_size ht);
         let key = take (ht_key_size ht) e;
         let msk = sz_sub (ht_capacity ht) 1;
         index \<leftarrow> rehash_find (ht_states ht) msk (hash_fnv1a key AND msk);
         ht' \<leftarrow> ht_place ht index key (drop (ht_key_size ht) e);
         rehash_loop old ht' (i + 1)
       } else rehash_loop old ht (i + 1)
     } else Some ht)"
  by pat_completeness auto
termination
  by (relation "measure (\<lambda>(old, ht, i). ht_capacity old - i)") auto

declare rehash_loop.simps [simp del]

definition ht_rehash ::
    "'h zenit_allocator_t \<Rightarrow> zenit_table_t \<Rightarrow> nat \<Rightarrow> 'h \<Rightarrow> (zenit_result_t \<times> zenit_table_t \<times> 'h) option" where
  "ht_rehash a ht new_capacity h = do {
     (new_slots, h1) \<leftarrow> zenit_allocator_alloc_zero a new_capacity (ht_slot_size ht) h;
     case new_slots of None \<Rightarrow> Some (ZENIT_ERROR_ALLOC, ht, h1) | Some _ \<Rightarrow> do {
       (new_states, h2) \<leftarrow> zenit_allocator_alloc_zero a new_capacity 1 h1;
       case new_states of
         None \<Rightarrow> do { h3 \<leftarrow> free_fn a (paddr new_slots) h2; Some (ZENIT_ERROR_ALLOC, ht, h3) }
       | Some _ \<Rightarrow> do {
           ht' \<leftarrow> rehash_loop ht (ht\<lparr>ht_slots := new_slots, ht_states := new_states,
              ht_capacity := new_capacity, ht_count := 0, ht_deleted := 0\<rparr>) 0;
           h3 \<leftarrow> free_fn a (paddr (ht_slots ht)) h2;
           h4 \<leftarrow> free_fn a (paddr (ht_states ht)) h3;
           Some (ZENIT_OK, ht', h4)
         }
     }
   }"

definition ht_ensure_load ::
    "'h zenit_allocator_t \<Rightarrow> zenit_table_t \<Rightarrow> 'h \<Rightarrow> (zenit_result_t \<times> zenit_table_t \<times> 'h) option" where
  "ht_ensure_load a ht h =
    (let used = sz_add (ht_count ht) (ht_deleted ht) in
     if sz_mul (ht_capacity ht) 75 < sz_mul used 100
     then ht_rehash a ht (sz_mul (ht_capacity ht) 2) h
     else Some (ZENIT_OK, ht, h))"

section \<open>Linear probing, abstractly\<close>

datatype 'k slot_view = SEmpty | SDeleted | SOcc 'k

text \<open>\<open>reach H c v k i\<close>: probing for \<open>k\<close> gets to slot \<open>i\<close> without meeting an empty slot.\<close>

definition reach :: "('k \<Rightarrow> nat) \<Rightarrow> nat \<Rightarrow> (nat \<Rightarrow> 'k slot_view) \<Rightarrow> 'k \<Rightarrow> nat \<Rightarrow> bool" where
  "reach H c v k i \<longleftrightarrow> (\<exists>d < c. i = (H k + d) mod c \<and> (\<forall>j < d. v ((H k + j) mod c) \<noteq> SEmpty))"

definition chain_ok :: "('k \<Rightarrow> nat) \<Rightarrow> nat \<Rightarrow> (nat \<Rightarrow> 'k slot_view) \<Rightarrow> bool" where
  "chain_ok H c v \<longleftrightarrow>
    (\<forall>i < c. \<forall>k. v i = SOcc k \<longrightarrow> reach H c v k i) \<and>
    (\<forall>i < c. \<forall>j < c. \<forall>k. v i = SOcc k \<longrightarrow> v j = SOcc k \<longrightarrow> i = j)"

definition view_keys :: "nat \<Rightarrow> (nat \<Rightarrow> 'k slot_view) \<Rightarrow> 'k set" where
  "view_keys c v = {k. \<exists>i < c. v i = SOcc k}"

lemma reach_mono:
  assumes "reach H c v k i" and "\<And>j. j < c \<Longrightarrow> v j \<noteq> SEmpty \<Longrightarrow> w j \<noteq> SEmpty" and "0 < c"
  shows "reach H c w k i"
proof -
  from assms(1) obtain d where "d < c" "i = (H k + d) mod c" "\<And>j. j < d \<Longrightarrow> v ((H k + j) mod c) \<noteq> SEmpty"
    by (auto simp: reach_def)
  moreover from this have "w ((H k + j) mod c) \<noteq> SEmpty" if "j < d" for j
    using assms(2) [of "(H k + j) mod c"] assms(3) that by simp
  ultimately show ?thesis unfolding reach_def by blast
qed

text \<open>Filling a reachable free slot with an absent key, and leaving a tombstone, keep the chains.\<close>

lemma chain_ok_insert:
  assumes ch: "chain_ok H c v" and i: "i < c" "reach H c v k i" and new: "k \<notin> view_keys c v"
  shows "chain_ok H c (v(i := SOcc k))"
proof -
  let ?w = "v(i := SOcc k)"
  have D: "i = j" if "i < c" "j < c" "v i = SOcc k'" "v j = SOcc k'" for i j k'
    using ch that unfolding chain_ok_def by blast
  have N: "v j \<noteq> SOcc k" if "j < c" for j using new that by (auto simp: view_keys_def)
  have mono: "reach H c ?w k' j" if "reach H c v k' j" for k' j
    using that i by (intro reach_mono [OF that]) auto
  have "reach H c ?w k' j" if "j < c" "?w j = SOcc k'" for j k'
  proof (cases "j = i")
    case True
    then show ?thesis using that(2) mono [OF i(2)] by simp
  next
    case False
    then have "reach H c v k' j" using ch that unfolding chain_ok_def by simp
    then show ?thesis by (rule mono)
  qed
  moreover have "j = j'" if "j < c" "j' < c" "?w j = SOcc k'" "?w j' = SOcc k'" for j j' k'
    using that D [of j j' k'] N [of j] N [of j'] by (auto split: if_splits)
  ultimately show ?thesis by (simp add: chain_ok_def)
qed

lemma chain_ok_delete:
  assumes ch: "chain_ok H c v" and i: "i < c"
  shows "chain_ok H c (v(i := SDeleted))"
proof -
  let ?w = "v(i := SDeleted)"
  have D: "i = j" if "i < c" "j < c" "v i = SOcc k" "v j = SOcc k" for i j k
    using ch that unfolding chain_ok_def by blast
  have "reach H c ?w k j" if "j < c" "?w j = SOcc k" for j k
  proof -
    have "v j = SOcc k" using that(2) by (simp split: if_splits)
    then have "reach H c v k j" using ch that(1) unfolding chain_ok_def by blast
    then show ?thesis by (rule reach_mono) (use i in auto)
  qed
  moreover have "j = j'" if "j < c" "j' < c" "?w j = SOcc k" "?w j' = SOcc k" for j j' k
    using that D [of j j' k] by (auto split: if_splits)
  ultimately show ?thesis by (simp add: chain_ok_def)
qed

text \<open>Running into an empty slot without seeing the key means the key is absent.\<close>

lemma empty_means_absent:
  assumes ch: "chain_ok H c v" and d: "d < c" "v ((H k + d) mod c) = SEmpty"
    and before: "\<And>j. j < d \<Longrightarrow> v ((H k + j) mod c) \<noteq> SOcc k"
  shows "k \<notin> view_keys c v"
proof
  assume "k \<in> view_keys c v"
  then obtain i where i: "i < c" "v i = SOcc k" by (auto simp: view_keys_def)
  with ch obtain e where e: "e < c" "i = (H k + e) mod c" "\<forall>j < e. v ((H k + j) mod c) \<noteq> SEmpty"
    by (auto simp: chain_ok_def reach_def)
  have "\<not> e < d" using before e(2) i(2) by auto
  moreover have "e \<noteq> d" using e(2) i(2) d(2) by auto
  moreover have "\<not> d < e" using e(3) d(2) by auto
  ultimately show False by linarith
qed

text \<open>Every slot is some distance from the start of a probe.\<close>

lemma probe_distance:
  assumes "i < c" obtains d where "d < c" and "i = (s + d) mod (c::nat)"
proof -
  let ?s = "s mod c"
  let ?d = "(if ?s \<le> i then i - ?s else i + c - ?s)"
  have s: "?s < c" using assms by (intro mod_less_divisor) simp
  have "(s + ?d) mod c = (?s + ?d) mod c" by (simp add: mod_add_left_eq)
  also have "\<dots> = i" using assms s by (cases "?s \<le> i") simp_all
  finally show thesis using assms s by (intro that [of ?d]) auto
qed

lemma and_mask_mod: "(n::nat) AND (2 ^ p - 1) = n mod 2 ^ p"
  by (simp add: take_bit_eq_mod [symmetric] take_bit_eq_mask mask_eq_exp_minus_1)

section \<open>Views of the two byte arrays\<close>

definition ht_state :: "zenit_table_t \<Rightarrow> nat \<Rightarrow> byte" where
  "ht_state ht i = pbytes (ht_states ht) ! i"

definition ht_entry :: "zenit_table_t \<Rightarrow> nat \<Rightarrow> byte list" where
  "ht_entry ht i = slot (ht_slot_size ht) (pbytes (ht_slots ht)) i"

definition ht_key :: "zenit_table_t \<Rightarrow> nat \<Rightarrow> byte list" where
  "ht_key ht i = take (ht_key_size ht) (ht_entry ht i)"

definition ht_val :: "zenit_table_t \<Rightarrow> nat \<Rightarrow> byte list" where
  "ht_val ht i = drop (ht_key_size ht) (ht_entry ht i)"

definition ht_view :: "zenit_table_t \<Rightarrow> nat \<Rightarrow> byte list slot_view" where
  "ht_view ht i = (if ht_state ht i = 0 then SEmpty else if ht_state ht i = 2 then SDeleted
     else SOcc (ht_key ht i))"

definition ht_with :: "zenit_table_t \<Rightarrow> byte \<Rightarrow> nat set" where
  "ht_with ht s = {i. i < ht_capacity ht \<and> ht_state ht i = s}"

definition ht_entries :: "zenit_table_t \<Rightarrow> (byte list \<times> byte list) list" where
  "ht_entries ht = map (\<lambda>i. (ht_key ht i, ht_val ht i))
     (filter (\<lambda>i. ht_state ht i = 1) [0..<ht_capacity ht])"

text \<open>The finite map a table represents.\<close>

definition ht_map :: "zenit_table_t \<Rightarrow> byte list \<rightharpoonup> byte list" where
  "ht_map ht = map_of (ht_entries ht)"

definition ht_layout :: "zenit_table_t \<Rightarrow> bool" where
  "ht_layout ht \<longleftrightarrow> 0 < ht_key_size ht \<and> ht_slot_size ht = ht_key_size ht + ht_value_size ht \<and>
    (\<exists>p. ht_capacity ht = 2 ^ p) \<and> ht_capacity ht * ht_slot_size ht < size_mod \<and>
    100 * ht_capacity ht < size_mod \<and>
    plen (ht_slots ht) = ht_capacity ht * ht_slot_size ht \<and> plen (ht_states ht) = ht_capacity ht"

definition ht_wf :: "zenit_table_t \<Rightarrow> bool" where
  "ht_wf ht \<longleftrightarrow> ht_layout ht \<and> chain_ok hash_fnv1a (ht_capacity ht) (ht_view ht) \<and>
    (\<forall>i < ht_capacity ht. ht_state ht i \<in> {0, 1, 2}) \<and>
    ht_count ht = card (ht_with ht 1) \<and> ht_deleted ht = card (ht_with ht 2)"

text \<open>
  Between operations there is a free slot left. The load check before an insertion guarantees
  that for capacities of at least 8.
\<close>

definition ht_inv :: "zenit_table_t \<Rightarrow> bool" where
  "ht_inv ht \<longleftrightarrow> ht_wf ht \<and> 8 \<le> ht_capacity ht \<and> ht_count ht + ht_deleted ht < ht_capacity ht"

lemma finite_ht_with [simp]: "finite (ht_with ht s)"
  by (simp add: ht_with_def)

lemma ht_layoutD:
  assumes "ht_layout ht"
  shows "0 < ht_key_size ht" "ht_slot_size ht = ht_key_size ht + ht_value_size ht"
    "0 < ht_capacity ht" "ht_capacity ht * ht_slot_size ht < size_mod"
    "100 * ht_capacity ht < size_mod" "plen (ht_slots ht) = ht_capacity ht * ht_slot_size ht"
    "plen (ht_states ht) = ht_capacity ht" "0 < ht_slot_size ht" "plen (ht_slots ht) < size_mod"
    "ht_capacity ht < size_mod"
  using assms by (auto simp: ht_layout_def)

lemma ht_mask:
  assumes "ht_layout ht"
  shows "n AND sz_sub (ht_capacity ht) 1 = n mod ht_capacity ht"
proof -
  from assms obtain p where p: "ht_capacity ht = 2 ^ p" by (auto simp: ht_layout_def)
  have "sz_sub (ht_capacity ht) 1 = 2 ^ p - 1"
    using ht_layoutD(3,10) [OF assms] p by (simp add: size_simps)
  then show ?thesis using and_mask_mod [of n p] p by simp
qed

lemma ht_next:
  assumes "ht_layout ht"
  shows "sz_add ((s + d) mod ht_capacity ht) 1 AND sz_sub (ht_capacity ht) 1 = (s + Suc d) mod ht_capacity ht"
proof -
  have "(s + d) mod ht_capacity ht < ht_capacity ht" using ht_layoutD(3) [OF assms] by simp
  then have "sz_add ((s + d) mod ht_capacity ht) 1 = Suc ((s + d) mod ht_capacity ht)"
    using ht_layoutD(5) [OF assms] by (simp add: size_simps)
  then show ?thesis unfolding ht_mask [OF assms] by (simp add: mod_Suc_eq)
qed

lemma ht_read_state:
  assumes "ht_layout ht" and "i < ht_capacity ht"
  shows "mem_read (ht_states ht) i 1 = Some [ht_state ht i]"
proof -
  have "i < length (pbytes (ht_states ht))" using assms ht_layoutD(7) by simp
  then have "take 1 (drop i (pbytes (ht_states ht))) = [ht_state ht i]"
    by (simp add: take_Suc One_nat_def hd_drop_conv_nth ht_state_def)
  moreover have "ht_states ht \<noteq> None"
    using assms(2) ht_layoutD(7) [OF assms(1)] by (cases "ht_states ht") simp_all
  ultimately show ?thesis using assms ht_layoutD(7) [OF assms(1)] by (simp add: mem_read_ok)
qed

lemma ht_entry_range:
  assumes "ht_layout ht" and "i < ht_capacity ht"
  shows "ht_slots ht \<noteq> None" and "i * ht_slot_size ht + ht_slot_size ht \<le> plen (ht_slots ht)"
    and "sz_mul i (ht_slot_size ht) = i * ht_slot_size ht"
    and "length (ht_entry ht i) = ht_slot_size ht" and "length (ht_key ht i) = ht_key_size ht"
proof -
  note l = ht_layoutD [OF assms(1)]
  note r = slot_in_range [OF eq_refl [OF l(6) [symmetric]] assms(2) l(8,9)]
  show "ht_slots ht \<noteq> None" and "i * ht_slot_size ht + ht_slot_size ht \<le> plen (ht_slots ht)"
    and "sz_mul i (ht_slot_size ht) = i * ht_slot_size ht" by (rule r)+
  show "length (ht_entry ht i) = ht_slot_size ht" using r by (simp add: ht_entry_def)
  then show "length (ht_key ht i) = ht_key_size ht" using l(2) by (simp add: ht_key_def)
qed

lemma ht_read_key:
  assumes "ht_layout ht" and "i < ht_capacity ht"
  shows "mem_read (ht_slots ht) (sz_mul i (ht_slot_size ht)) (ht_key_size ht) = Some (ht_key ht i)"
  using ht_entry_range [OF assms] ht_layoutD(2) [OF assms(1)]
  by (simp add: mem_read_ok ht_key_def ht_entry_def slot_def)

section \<open>Probing\<close>

text \<open>What \<open>probe_slot\<close> promises for the key \<open>k\<close>.\<close>

definition probe_post :: "zenit_table_t \<Rightarrow> byte list \<Rightarrow> nat \<Rightarrow> nat \<Rightarrow> bool" where
  "probe_post ht k s i \<longleftrightarrow> i < ht_capacity ht \<and>
    (s = 1 \<and> ht_view ht i = SOcc k \<or>
     (s = 0 \<and> ht_view ht i = SEmpty \<or> s = 2 \<and> ht_view ht i = SDeleted) \<and>
       reach hash_fnv1a (ht_capacity ht) (ht_view ht) k i \<and> k \<notin> view_keys (ht_capacity ht) (ht_view ht))"

lemma probe_loop_ok:
  assumes lay: "ht_layout ht" and ch: "chain_ok hash_fnv1a (ht_capacity ht) (ht_view ht)"
    and e: "e < ht_capacity ht" "ht_view ht ((hash_fnv1a k + e) mod ht_capacity ht) = SEmpty"
    and d: "d \<le> e"
    and before: "\<And>j. j < d \<Longrightarrow> ht_view ht ((hash_fnv1a k + j) mod ht_capacity ht) \<notin> {SEmpty, SOcc k}"
    and fd: "found \<Longrightarrow> \<exists>j < d. first = (hash_fnv1a k + j) mod ht_capacity ht \<and> ht_view ht first = SDeleted"
  shows "\<exists>s i. probe_loop ht k (sz_sub (ht_capacity ht) 1) ((hash_fnv1a k + d) mod ht_capacity ht)
      first found = Some (s, i) \<and> probe_post ht k s i"
  using d before fd
proof (induction "e - d" arbitrary: d first found rule: less_induct)
  case less
  let ?c = "ht_capacity ht" and ?H = "hash_fnv1a k"
  let ?i = "(?H + d) mod ?c"
  have i: "?i < ?c" using ht_layoutD(3) [OF lay] by simp
  have dc: "d < ?c" using less.prems(1) e(1) by simp
  have nonempty: "ht_view ht ((?H + j) mod ?c) \<noteq> SEmpty" if "j < d" for j
    using less.prems(2) [OF that] by simp
  have rd: "mem_read (ht_states ht) ?i 1 = Some [ht_state ht ?i]" using ht_read_state [OF lay i] .
  have more: "\<exists>s i. probe_loop ht k (sz_sub ?c 1) (sz_add ?i 1 AND sz_sub ?c 1) first' found' = Some (s, i) \<and>
      probe_post ht k s i"
    if v: "ht_view ht ?i \<notin> {SEmpty, SOcc k}"
      and f: "found' \<Longrightarrow> \<exists>j < Suc d. first' = (?H + j) mod ?c \<and> ht_view ht first' = SDeleted"
    for first' found'
  proof -
    have "d \<noteq> e" using v e(2) by auto
    then have lt: "Suc d \<le> e" using less.prems(1) by simp
    have "\<And>j. j < Suc d \<Longrightarrow> ht_view ht ((?H + j) mod ?c) \<notin> {SEmpty, SOcc k}"
      using v less.prems(2) by (auto simp: less_Suc_eq)
    from less.hyps [OF _ lt this f] lt show ?thesis unfolding ht_next [OF lay] by auto
  qed
  show ?case
  proof (cases "ht_view ht ?i")
    case SEmpty
    then have st: "ht_state ht ?i = 0" by (simp add: ht_view_def split: if_splits)
    have absent: "k \<notin> view_keys ?c (ht_view ht)"
      using empty_means_absent [OF ch dc SEmpty] less.prems(2) by auto
    show ?thesis
    proof (cases found)
      case True
      with less.prems(3) obtain j where j: "j < d" "first = (?H + j) mod ?c" "ht_view ht first = SDeleted"
        by blast
      then have "reach hash_fnv1a ?c (ht_view ht) k first"
        unfolding reach_def using nonempty dc by (intro exI [of _ j]) auto
      moreover have "first < ?c" using j(2) ht_layoutD(3) [OF lay] by simp
      ultimately show ?thesis using True st rd j(3) absent
        by (subst probe_loop.simps) (simp add: probe_post_def)
    next
      case False
      have "reach hash_fnv1a ?c (ht_view ht) k ?i"
        unfolding reach_def using nonempty dc by (intro exI [of _ d]) auto
      then show ?thesis using False st rd SEmpty absent i
        by (subst probe_loop.simps) (simp add: probe_post_def)
    qed
  next
    case SDeleted
    then have st: "ht_state ht ?i = 2" by (simp add: ht_view_def split: if_splits)
    show ?thesis
    proof (cases found)
      case True
      have "found \<Longrightarrow> \<exists>j < Suc d. first = (?H + j) mod ?c \<and> ht_view ht first = SDeleted"
        using less.prems(3) less_SucI by blast
      from more [OF _ this] True SDeleted st rd show ?thesis
        by (subst probe_loop.simps) simp
    next
      case False
      have "\<exists>j < Suc d. ?i = (?H + j) mod ?c \<and> ht_view ht ?i = SDeleted" using SDeleted by blast
      from more [OF _ this] False SDeleted st rd show ?thesis
        by (subst probe_loop.simps) simp
    qed
  next
    case (SOcc k')
    then have st: "ht_state ht ?i \<noteq> 0" "ht_state ht ?i \<noteq> 2" "k' = ht_key ht ?i"
      by (auto simp: ht_view_def split: if_splits)
    note rk = ht_read_key [OF lay i]
    show ?thesis
    proof (cases "k' = k")
      case True
      then show ?thesis using st rd rk SOcc i by (subst probe_loop.simps) (simp add: probe_post_def)
    next
      case False
      have "found \<Longrightarrow> \<exists>j < Suc d. first = (?H + j) mod ?c \<and> ht_view ht first = SDeleted"
        using less.prems(3) less_SucI by blast
      from more [OF _ this] False SOcc st rd rk show ?thesis
        by (subst probe_loop.simps) simp
    qed
  qed
qed

text \<open>A slot that is neither occupied nor deleted is empty, and one exists below full load.\<close>

lemma ht_empty_exists:
  assumes wf: "ht_wf ht" and room: "ht_count ht + ht_deleted ht < ht_capacity ht"
  obtains i where "i < ht_capacity ht" and "ht_view ht i = SEmpty"
proof -
  have "card (ht_with ht 1 \<union> ht_with ht 2) \<le> ht_count ht + ht_deleted ht"
    using wf card_Un_le [of "ht_with ht 1" "ht_with ht 2"] by (simp add: ht_wf_def)
  then have "card (ht_with ht 1 \<union> ht_with ht 2) \<noteq> card {..<ht_capacity ht}" using room by simp
  then have "ht_with ht 1 \<union> ht_with ht 2 \<noteq> {..<ht_capacity ht}" by metis
  moreover have "ht_with ht 1 \<union> ht_with ht 2 \<subseteq> {..<ht_capacity ht}" by (auto simp: ht_with_def)
  ultimately obtain i where i: "i < ht_capacity ht" "i \<notin> ht_with ht 1 \<union> ht_with ht 2" by blast
  then have "ht_state ht i = 0" using wf unfolding ht_wf_def ht_with_def by blast
  then show thesis using i(1) by (intro that [of i]) (simp_all add: ht_view_def)
qed

text \<open>The search ends in every table with a free slot, and answers the question asked.\<close>

lemma probe_slot_ok:
  assumes wf: "ht_wf ht" and room: "ht_count ht + ht_deleted ht < ht_capacity ht"
    and key: "ht_key_size ht \<le> length key"
  shows "\<exists>s i. probe_slot ht key = Some (s, i) \<and> probe_post ht (take (ht_key_size ht) key) s i"
proof -
  let ?k = "take (ht_key_size ht) key" and ?c = "ht_capacity ht"
  from wf have lay: "ht_layout ht" and ch: "chain_ok hash_fnv1a ?c (ht_view ht)"
    by (simp_all add: ht_wf_def)
  obtain i where i: "i < ?c" "ht_view ht i = SEmpty" using ht_empty_exists [OF wf room] .
  obtain e where e: "e < ?c" "i = (hash_fnv1a ?k + e) mod ?c" using probe_distance [OF i(1)] .
  have "\<exists>s i. probe_loop ht ?k (sz_sub ?c 1) ((hash_fnv1a ?k + 0) mod ?c) ?c False = Some (s, i) \<and>
      probe_post ht ?k s i"
    using i(2) e by (intro probe_loop_ok [OF lay ch e(1)]) simp_all
  then show ?thesis using key ht_mask [OF lay]
    by (simp add: probe_slot_def user_read_def)
qed

lemma ht_view_Occ:
  assumes "ht_wf ht" and "i < ht_capacity ht"
  shows "ht_view ht i = SOcc k \<longleftrightarrow> ht_state ht i = 1 \<and> ht_key ht i = k"
proof -
  have "ht_state ht i \<in> {0, 1, 2}" using assms by (simp add: ht_wf_def)
  then show ?thesis by (auto simp: ht_view_def)
qed

lemma ht_view_keys:
  assumes "ht_wf ht"
  shows "k \<in> view_keys (ht_capacity ht) (ht_view ht) \<longleftrightarrow>
    (\<exists>i < ht_capacity ht. ht_state ht i = 1 \<and> ht_key ht i = k)"
  using ht_view_Occ [OF assms] by (auto simp: view_keys_def)

lemma ht_map_Some:
  assumes wf: "ht_wf ht"
  shows "ht_map ht k = Some v \<longleftrightarrow>
    (\<exists>i < ht_capacity ht. ht_state ht i = 1 \<and> ht_key ht i = k \<and> ht_val ht i = v)"
proof -
  let ?is = "filter (\<lambda>i. ht_state ht i = 1) [0..<ht_capacity ht]"
  have "i = j" if "i \<in> set ?is" "j \<in> set ?is" "ht_key ht i = ht_key ht j" for i j
  proof -
    have "ht_view ht i = SOcc (ht_key ht i)" "ht_view ht j = SOcc (ht_key ht i)"
      using that by (simp_all add: ht_view_def)
    moreover have "i < ht_capacity ht" "j < ht_capacity ht" using that by simp_all
    ultimately show ?thesis using wf unfolding ht_wf_def chain_ok_def by blast
  qed
  then have "distinct (map fst (ht_entries ht))"
    by (auto simp: ht_entries_def distinct_map inj_on_def comp_def)
  then show ?thesis by (auto simp: ht_map_def ht_entries_def map_of_eq_Some_iff)
qed

lemma ht_map_None:
  "ht_wf ht \<Longrightarrow> ht_map ht k = None \<longleftrightarrow> k \<notin> view_keys (ht_capacity ht) (ht_view ht)"
  using ht_view_keys [of ht k] ht_map_Some [of ht k] by (cases "ht_map ht k") auto

text \<open>The outcome of a probe in terms of the represented map.\<close>

lemma probe_post_map:
  assumes wf: "ht_wf ht" and p: "probe_post ht k s i"
  shows "s = 1 \<Longrightarrow> ht_map ht k = Some (ht_val ht i)" and "s \<noteq> 1 \<Longrightarrow> ht_map ht k = None"
    and "s \<in> {0, 1, 2}" and "i < ht_capacity ht" and "ht_state ht i = of_nat s"
    and "s = 1 \<Longrightarrow> ht_key ht i = k"
proof -
  have st: "ht_state ht i \<in> {0, 1, 2}" using wf p by (auto simp: ht_wf_def probe_post_def)
  show "i < ht_capacity ht" "s \<in> {0, 1, 2}" using p by (auto simp: probe_post_def)
  show "ht_state ht i = of_nat s" using p st
    by (auto simp: probe_post_def ht_view_def split: if_splits)
  show key: "ht_key ht i = k" if "s = 1" using p that
    by (auto simp: probe_post_def ht_view_def split: if_splits)
  show "ht_map ht k = Some (ht_val ht i)" if "s = 1"
    using key [OF that] \<open>i < ht_capacity ht\<close> \<open>ht_state ht i = of_nat s\<close> that
    by (auto simp: ht_map_Some [OF wf])
  show "ht_map ht k = None" if "s \<noteq> 1"
    using p that by (auto simp: ht_map_None [OF wf] probe_post_def)
qed

section \<open>Writing an entry, leaving a tombstone\<close>

lemma blit_one: "i < length m \<Longrightarrow> blit m i [x] = m[i := x]"
  by (simp add: blit_def upd_conv_take_nth_drop)

lemma reach_cong: "(\<And>j. j < c \<Longrightarrow> v j = w j) \<Longrightarrow> 0 < c \<Longrightarrow> reach H c v k i = reach H c w k i"
  by (simp add: reach_def)

lemma chain_ok_cong:
  assumes eq: "\<And>j. j < c \<Longrightarrow> v j = w j"
  shows "chain_ok H c v = chain_ok H c w"
proof -
  have "reach H c v k i = reach H c w k i" if "i < c" for k i using eq that by (intro reach_cong) auto
  then show ?thesis using eq by (auto simp: chain_ok_def)
qed

lemma map_eqI:
  fixes m n :: "'a \<rightharpoonup> 'b"
  assumes "\<And>k x. m k = Some x \<longleftrightarrow> n k = Some x"
  shows "m = n"
proof
  fix k show "m k = n k" using assms [of k "the (n k)"] assms [of k "the (m k)"]
    by (cases "m k"; cases "n k") simp_all
qed

text \<open>The new entry as the two arrays show it.\<close>

lemma ht_place_writes:
  assumes lay: "ht_layout ht" and i: "i < ht_capacity ht"
    and k: "length k = ht_key_size ht" and v: "length v = ht_value_size ht"
    and cnt: "ht_count ht < ht_capacity ht"
  obtains p q where "ht_place ht i k v =
      Some (ht\<lparr>ht_slots := p, ht_states := q, ht_count := ht_count ht + 1\<rparr>)"
    and "same_block (ht_slots ht) p" and "same_block (ht_states ht) q"
    and "pbytes q = (pbytes (ht_states ht))[i := 1]"
    and "\<And>j. j < ht_capacity ht \<Longrightarrow> slot (ht_slot_size ht) (pbytes p) j =
      (if j = i then k @ v else ht_entry ht j)"
proof -
  note l = ht_layoutD [OF lay] and r = ht_entry_range [OF lay i]
  let ?ss = "ht_slot_size ht" and ?ks = "ht_key_size ht" and ?m = "pbytes (ht_slots ht)"
  have fit: "i * ?ss + ?ks + ht_value_size ht \<le> plen (ht_slots ht)" using r(2) l(2) by simp
  obtain p1 where p1: "mem_write (ht_slots ht) (i * ?ss) k = Some p1" "pbytes p1 = blit ?m (i * ?ss) k"
      "same_block (ht_slots ht) p1" "p1 \<noteq> None"
    using mem_write_obtain [OF r(1), of "i * ?ss" k] fit k by (auto simp: same_block_def)
  obtain p where p: "(if ht_value_size ht = 0 then Some p1 else mem_write p1 (i * ?ss + ?ks) v) = Some p"
      "pbytes p = blit ?m (i * ?ss) (k @ v)" "same_block (ht_slots ht) p"
  proof (cases "ht_value_size ht = 0")
    case True
    then show thesis using p1 v that by simp
  next
    case False
    obtain p2 where "mem_write p1 (i * ?ss + ?ks) v = Some p2" "pbytes p2 = blit (pbytes p1) (i * ?ss + ?ks) v"
        "same_block p1 p2"
      using mem_write_obtain [OF p1(4), of "i * ?ss + ?ks" v] fit v same_block_plen [OF p1(3)]
      by (auto simp: same_block_def)
    then show thesis using False p1 fit k v blit_append [of "i * ?ss" k v ?m]
      by (intro that [of p2]) (auto intro: same_block_trans)
  qed
  have sn: "ht_states ht \<noteq> None" using i l(7) by (cases "ht_states ht") simp_all
  obtain q where q: "mem_write (ht_states ht) i [1] = Some q" "pbytes q = blit (pbytes (ht_states ht)) i [1]"
      "same_block (ht_states ht) q"
    using mem_write_obtain [OF sn, of i "[1]"] i l(7) by (auto simp: same_block_def)
  have add: "sz_add (i * ?ss) ?ks = i * ?ss + ?ks" "sz_add (ht_count ht) 1 = ht_count ht + 1"
    using fit l(9,10) cnt by (simp_all add: size_simps)
  have "ht_place ht i k v = Some (ht\<lparr>ht_slots := p, ht_states := q, ht_count := ht_count ht + 1\<rparr>)"
    using p1(1) p(1) q(1) r(3) add by (simp add: ht_place_def Let_def split: if_splits)
  moreover have "slot ?ss (pbytes p) j = (if j = i then k @ v else ht_entry ht j)"
    if "j < ht_capacity ht" for j
    using slot_blit [of "k @ v" ?ss i ?m j] k v l(2) r(2) ht_entry_range(2) [OF lay that] p(2)
    by (simp add: ht_entry_def)
  moreover have "pbytes q = (pbytes (ht_states ht))[i := 1]" using q(2) i l(7) by (simp add: blit_one)
  ultimately show thesis using p(3) q(3) by (intro that [where p = p and q = q]) blast+
qed

lemma ht_place_ok:
  assumes wf: "ht_wf ht" and i: "i < ht_capacity ht" and st: "ht_state ht i \<noteq> 1"
    and re: "reach hash_fnv1a (ht_capacity ht) (ht_view ht) k i"
    and new: "k \<notin> view_keys (ht_capacity ht) (ht_view ht)"
    and k: "length k = ht_key_size ht" and v: "length v = ht_value_size ht"
  obtains p q where "ht_place ht i k v =
      Some (ht\<lparr>ht_slots := p, ht_states := q, ht_count := ht_count ht + 1\<rparr>)"
    and "ht_wf (ht\<lparr>ht_slots := p, ht_states := q, ht_count := ht_count ht + 1,
      ht_deleted := (if ht_state ht i = 2 then ht_deleted ht - 1 else ht_deleted ht)\<rparr>)"
    and "same_block (ht_slots ht) p" and "same_block (ht_states ht) q"
    and "ht_map (ht\<lparr>ht_slots := p, ht_states := q, ht_count := ht_count ht + 1,
      ht_deleted := (if ht_state ht i = 2 then ht_deleted ht - 1 else ht_deleted ht)\<rparr>) =
      (ht_map ht)(k \<mapsto> v)"
proof -
  let ?c = "ht_capacity ht"
  from wf have lay: "ht_layout ht" and ch: "chain_ok hash_fnv1a ?c (ht_view ht)"
    and cnt: "ht_count ht = card (ht_with ht 1)" "ht_deleted ht = card (ht_with ht 2)"
    and sts: "\<And>j. j < ?c \<Longrightarrow> ht_state ht j \<in> {0, 1, 2}"
    by (auto simp: ht_wf_def)
  have "ht_with ht 1 \<subset> {..<?c}" using i st by (auto simp: ht_with_def)
  then have lt: "ht_count ht < ?c" using psubset_card_mono [of "{..<?c}" "ht_with ht 1"] cnt by simp
  obtain p q where w: "ht_place ht i k v =
      Some (ht\<lparr>ht_slots := p, ht_states := q, ht_count := ht_count ht + 1\<rparr>)"
    "same_block (ht_slots ht) p" "same_block (ht_states ht) q"
    "pbytes q = (pbytes (ht_states ht))[i := 1]"
    "\<And>j. j < ?c \<Longrightarrow> slot (ht_slot_size ht) (pbytes p) j = (if j = i then k @ v else ht_entry ht j)"
    using ht_place_writes [OF lay i k v lt] by metis
  define ht' where "ht' = ht\<lparr>ht_slots := p, ht_states := q, ht_count := ht_count ht + 1,
      ht_deleted := (if ht_state ht i = 2 then ht_deleted ht - 1 else ht_deleted ht)\<rparr>"
  have sel: "ht_capacity ht' = ?c" "ht_count ht' = ht_count ht + 1" "ht_key_size ht' = ht_key_size ht"
      "ht_deleted ht' = (if ht_state ht i = 2 then ht_deleted ht - 1 else ht_deleted ht)"
    by (simp_all add: ht'_def)
  have S: "ht_state ht' j = (if j = i then 1 else ht_state ht j)" if "j < ?c" for j
    using that i ht_layoutD(7) [OF lay] w(4) by (simp add: ht_state_def nth_list_update ht'_def)
  have E: "ht_entry ht' j = (if j = i then k @ v else ht_entry ht j)" if "j < ?c" for j
    using w(5) [OF that] by (simp add: ht_entry_def ht'_def)
  have K: "ht_key ht' j = (if j = i then k else ht_key ht j)"
    and V: "ht_val ht' j = (if j = i then v else ht_val ht j)" if "j < ?c" for j
    using E [OF that] k by (simp_all add: ht_key_def ht_val_def sel)
  have view: "ht_view ht' j = ((ht_view ht)(i := SOcc k)) j" if "j < ?c" for j
    using S [OF that] K [OF that] by (cases "j = i") (simp_all add: ht_view_def)
  have "ht_layout ht'" using lay w(2,3) by (auto simp: ht_layout_def same_block_def ht'_def)
  moreover have "chain_ok hash_fnv1a ?c (ht_view ht') = chain_ok hash_fnv1a ?c ((ht_view ht)(i := SOcc k))"
    using view by (rule chain_ok_cong)
  then have "chain_ok hash_fnv1a ?c (ht_view ht')" using chain_ok_insert [OF ch i re new] by (simp only:)
  moreover have "ht_with ht' 1 = insert i (ht_with ht 1)" "ht_with ht' 2 = ht_with ht 2 - {i}"
    using S i by (auto simp: ht_with_def sel split: if_splits)
  then have "card (ht_with ht' 1) = ht_count ht + 1"
      "card (ht_with ht' 2) = (if ht_state ht i = 2 then ht_deleted ht - 1 else ht_deleted ht)"
    using st i cnt by (auto simp: ht_with_def)
  ultimately have wf': "ht_wf ht'" using sts S by (auto simp: ht_wf_def sel)
  have "ht_map ht' k' = ((ht_map ht)(k \<mapsto> v)) k'" for k'
  proof (cases "k' = k")
    case True
    have "ht_map ht' k = Some v" using i S K V by (subst ht_map_Some [OF wf']) (auto simp: sel)
    then show ?thesis using True by simp
  next
    case False
    have "ht_state ht' j = 1 \<and> ht_key ht' j = k' \<and> ht_val ht' j = x \<longleftrightarrow>
        ht_state ht j = 1 \<and> ht_key ht j = k' \<and> ht_val ht j = x" if "j < ?c" for j x
      using S [OF that] K [OF that] V [OF that] False st by (cases "j = i") auto
    then have "ht_map ht' k' = Some x \<longleftrightarrow> ht_map ht k' = Some x" for x
      unfolding ht_map_Some [OF wf] ht_map_Some [OF wf'] sel by blast
    then have "ht_map ht' k' = ht_map ht k'" by (metis not_None_eq)
    then show ?thesis using False by simp
  qed
  then show thesis using w wf' unfolding ht'_def by (intro that [where p = p and q = q]) auto
qed

text \<open>Removal: the slot becomes DELETED.\<close>

lemma ht_tombstone_ok:
  assumes wf: "ht_wf ht" and i: "i < ht_capacity ht" "ht_state ht i = 1"
  obtains q where "mem_write (ht_states ht) i [2] = Some q" and "same_block (ht_states ht) q"
    and "ht_wf (ht\<lparr>ht_states := q, ht_count := ht_count ht - 1, ht_deleted := ht_deleted ht + 1\<rparr>)"
    and "ht_map (ht\<lparr>ht_states := q, ht_count := ht_count ht - 1, ht_deleted := ht_deleted ht + 1\<rparr>) =
      (ht_map ht)(ht_key ht i := None)"
    and "0 < ht_count ht"
proof -
  let ?c = "ht_capacity ht"
  from wf have lay: "ht_layout ht" and ch: "chain_ok hash_fnv1a ?c (ht_view ht)"
    and cnt: "ht_count ht = card (ht_with ht 1)" "ht_deleted ht = card (ht_with ht 2)"
    and sts: "\<And>j. j < ?c \<Longrightarrow> ht_state ht j \<in> {0, 1, 2}"
    by (auto simp: ht_wf_def)
  note l = ht_layoutD [OF lay]
  have sn: "ht_states ht \<noteq> None" using i l(7) by (cases "ht_states ht") simp_all
  obtain q where q: "mem_write (ht_states ht) i [2] = Some q" "same_block (ht_states ht) q"
      "pbytes q = (pbytes (ht_states ht))[i := 2]"
    using mem_write_obtain [OF sn, of i "[2]"] i l(7) by (auto simp: same_block_def blit_one)
  define ht' where "ht' = ht\<lparr>ht_states := q, ht_count := ht_count ht - 1, ht_deleted := ht_deleted ht + 1\<rparr>"
  have sel: "ht_capacity ht' = ?c" "ht_count ht' = ht_count ht - 1" "ht_deleted ht' = ht_deleted ht + 1"
    by (simp_all add: ht'_def)
  have S: "ht_state ht' j = (if j = i then 2 else ht_state ht j)" if "j < ?c" for j
    using that i l(7) q(3) by (simp add: ht_state_def nth_list_update ht'_def)
  have E: "ht_key ht' = ht_key ht" "ht_val ht' = ht_val ht"
    by (simp_all add: fun_eq_iff ht_key_def ht_val_def ht_entry_def ht'_def)
  have view: "ht_view ht' j = ((ht_view ht)(i := SDeleted)) j" if "j < ?c" for j
    using S [OF that] E by (cases "j = i") (simp_all add: ht_view_def)
  have "ht_layout ht'" using lay q(2) by (auto simp: ht_layout_def same_block_def ht'_def)
  moreover have "chain_ok hash_fnv1a ?c (ht_view ht') = chain_ok hash_fnv1a ?c ((ht_view ht)(i := SDeleted))"
    using view by (rule chain_ok_cong)
  then have "chain_ok hash_fnv1a ?c (ht_view ht')" using chain_ok_delete [OF ch i(1)] by (simp only:)
  moreover have W: "ht_with ht' 1 = ht_with ht 1 - {i}" "ht_with ht' 2 = insert i (ht_with ht 2)"
    using S i by (auto simp: ht_with_def sel split: if_splits)
  moreover have mem: "i \<in> ht_with ht 1" "i \<notin> ht_with ht 2" using i by (simp_all add: ht_with_def)
  ultimately have wf': "ht_wf ht'" using sts S cnt by (auto simp: ht_wf_def sel)
  have uniq: "j = i" if "j < ?c" "ht_state ht j = 1" "ht_key ht j = ht_key ht i" for j
  proof -
    have "ht_view ht j = SOcc (ht_key ht i)" "ht_view ht i = SOcc (ht_key ht i)"
      using that i ht_view_Occ [OF wf] by auto
    then show ?thesis using ch that(1) i(1) unfolding chain_ok_def by blast
  qed
  have at: "ht_state ht' j = 1 \<and> ht_key ht' j = k' \<and> ht_val ht' j = x \<longleftrightarrow>
      ht_key ht i \<noteq> k' \<and> ht_state ht j = 1 \<and> ht_key ht j = k' \<and> ht_val ht j = x"
    if "j < ?c" for j k' x
    using S [OF that] E uniq [OF that] by (cases "j = i") auto
  have "ht_map ht' k' = Some x \<longleftrightarrow> ht_key ht i \<noteq> k' \<and> ht_map ht k' = Some x" for k' x
    unfolding ht_map_Some [OF wf] ht_map_Some [OF wf'] sel using at by blast
  then have "ht_map ht' = (ht_map ht)(ht_key ht i := None)"
    by (intro map_eqI) (simp add: fun_upd_def)
  moreover have "ht_with ht 1 \<noteq> {}" using mem(1) by blast
  then have "0 < ht_count ht" unfolding cnt(1) by (simp add: card_gt_0_iff)
  ultimately show thesis using q wf' unfolding ht'_def by (intro that [of q]) auto
qed

section \<open>Rehashing\<close>

lemma rehash_find_ok:
  assumes lay: "ht_layout ht"
    and e: "e < ht_capacity ht" "ht_state ht ((s + e) mod ht_capacity ht) \<noteq> 1"
    and d: "d \<le> e" "\<And>j. j < d \<Longrightarrow> ht_state ht ((s + j) mod ht_capacity ht) = 1"
  shows "\<exists>d' < ht_capacity ht.
    rehash_find (ht_states ht) (sz_sub (ht_capacity ht) 1) ((s + d) mod ht_capacity ht) =
      Some ((s + d') mod ht_capacity ht) \<and>
    ht_state ht ((s + d') mod ht_capacity ht) \<noteq> 1 \<and>
    (\<forall>j < d'. ht_state ht ((s + j) mod ht_capacity ht) = 1)"
  using d
proof (induction "e - d" arbitrary: d rule: less_induct)
  case less
  let ?c = "ht_capacity ht"
  let ?i = "(s + d) mod ?c"
  have i: "?i < ?c" using ht_layoutD(3) [OF lay] by simp
  have rd: "mem_read (ht_states ht) ?i 1 = Some [ht_state ht ?i]" using ht_read_state [OF lay i] .
  show ?case
  proof (cases "ht_state ht ?i = 1")
    case True
    then have lt: "Suc d \<le> e" using less.prems(1) e(2) by (cases "d = e") auto
    have "\<And>j. j < Suc d \<Longrightarrow> ht_state ht ((s + j) mod ?c) = 1"
      using True less.prems(2) by (auto simp: less_Suc_eq)
    from less.hyps [OF _ lt this] lt show ?thesis
      using True rd ht_next [OF lay, of s d] by (subst rehash_find.simps) simp
  next
    case False
    moreover have "d < ?c" using less.prems(1) e(1) by simp
    moreover have "rehash_find (ht_states ht) (sz_sub ?c 1) ?i = Some ?i"
      using False rd by (subst rehash_find.simps) simp
    ultimately show ?thesis using less.prems(2) by blast
  qed
qed

text \<open>The map represented by the first \<open>i\<close> slots of the old table.\<close>

definition old_upto :: "zenit_table_t \<Rightarrow> nat \<Rightarrow> byte list \<Rightarrow> byte list \<Rightarrow> bool" where
  "old_upto old i k v \<longleftrightarrow> (\<exists>j < i. ht_state old j = 1 \<and> ht_key old j = k \<and> ht_val old j = v)"

definition ht_like :: "zenit_table_t \<Rightarrow> zenit_table_t \<Rightarrow> bool" where
  "ht_like ht ht' \<longleftrightarrow> ht_key_size ht' = ht_key_size ht \<and> ht_value_size ht' = ht_value_size ht \<and>
    ht_slot_size ht' = ht_slot_size ht"

lemma old_upto_Suc:
  "old_upto old (Suc i) k v \<longleftrightarrow>
    old_upto old i k v \<or> ht_state old i = 1 \<and> ht_key old i = k \<and> ht_val old i = v"
  unfolding old_upto_def less_Suc_eq by blast

text \<open>One live entry moves into the new table.\<close>

lemma rehash_insert_ok:
  assumes old: "ht_wf old" and i: "i < ht_capacity old" "ht_state old i = 1"
    and wf: "ht_wf ht" and del: "ht_deleted ht = 0" and like: "ht_like old ht"
    and cnt: "ht_count ht \<le> i" "ht_capacity old \<le> ht_capacity ht"
    and m: "\<And>k v. ht_map ht k = Some v \<longleftrightarrow> old_upto old i k v"
  obtains idx p q where
    "rehash_find (ht_states ht) (sz_sub (ht_capacity ht) 1)
       (hash_fnv1a (ht_key old i) AND sz_sub (ht_capacity ht) 1) = Some idx"
    and "ht_place ht idx (ht_key old i) (ht_val old i) =
       Some (ht\<lparr>ht_slots := p, ht_states := q, ht_count := ht_count ht + 1\<rparr>)"
    and "ht_wf (ht\<lparr>ht_slots := p, ht_states := q, ht_count := ht_count ht + 1\<rparr>)"
    and "same_block (ht_slots ht) p" and "same_block (ht_states ht) q"
    and "ht_map (ht\<lparr>ht_slots := p, ht_states := q, ht_count := ht_count ht + 1\<rparr>) =
       (ht_map ht)(ht_key old i \<mapsto> ht_val old i)"
proof -
  let ?c = "ht_capacity ht" and ?k = "ht_key old i" and ?v = "ht_val old i"
  from wf have lay: "ht_layout ht" by (simp add: ht_wf_def)
  from old have olay: "ht_layout old" and och: "chain_ok hash_fnv1a (ht_capacity old) (ht_view old)"
    by (simp_all add: ht_wf_def)
  obtain z where z: "z < ?c" "ht_view ht z = SEmpty"
    using ht_empty_exists [OF wf] del cnt i(1) by auto
  then have z0: "ht_state ht z \<noteq> 1" by (auto simp: ht_view_def split: if_splits)
  obtain e where e: "e < ?c" "z = (hash_fnv1a ?k + e) mod ?c" using probe_distance [OF z(1)] .
  from rehash_find_ok [OF lay e(1), of "hash_fnv1a ?k" 0] e(2) z0 obtain d where
    d: "d < ?c" "rehash_find (ht_states ht) (sz_sub ?c 1) (hash_fnv1a ?k mod ?c) =
        Some ((hash_fnv1a ?k + d) mod ?c)"
      "ht_state ht ((hash_fnv1a ?k + d) mod ?c) \<noteq> 1"
      "\<And>j. j < d \<Longrightarrow> ht_state ht ((hash_fnv1a ?k + j) mod ?c) = 1"
    by auto
  let ?idx = "(hash_fnv1a ?k + d) mod ?c"
  have idx: "?idx < ?c" using ht_layoutD(3) [OF lay] by simp
  have re: "reach hash_fnv1a ?c (ht_view ht) ?k ?idx"
    unfolding reach_def using d by (intro exI [of _ d]) (auto simp: ht_view_def)
  have new: "?k \<notin> view_keys ?c (ht_view ht)"
  proof
    assume "?k \<in> view_keys ?c (ht_view ht)"
    then obtain v where "ht_map ht ?k = Some v" using ht_map_None [OF wf, of ?k] by auto
    then obtain j where "j < i" "ht_state old j = 1" "ht_key old j = ?k"
      unfolding m old_upto_def by blast
    then have "ht_view old j = SOcc ?k" "ht_view old i = SOcc ?k" "j < ht_capacity old" "j \<noteq> i"
      using i by (auto simp: ht_view_def)
    then show False using och i(1) unfolding chain_ok_def by blast
  qed
  have len: "length ?k = ht_key_size ht" "length ?v = ht_value_size ht"
    using ht_entry_range(4,5) [OF olay i(1)] ht_layoutD(2) [OF olay] like
    by (simp_all add: ht_like_def ht_val_def)
  have "ht_state ht ?idx \<noteq> 2"
  proof
    assume "ht_state ht ?idx = 2"
    then have "ht_with ht 2 \<noteq> {}" using idx by (auto simp: ht_with_def)
    then have "0 < card (ht_with ht 2)" by (simp add: card_gt_0_iff)
    then show False using wf del by (simp add: ht_wf_def)
  qed
  then have nodel: "(if ht_state ht ?idx = 2 then ht_deleted ht - 1 else ht_deleted ht) = ht_deleted ht"
    by simp
  have rec: "ht\<lparr>ht_slots := p, ht_states := q, ht_count := n, ht_deleted := ht_deleted ht\<rparr> =
      ht\<lparr>ht_slots := p, ht_states := q, ht_count := n\<rparr>" for p q n by simp
  note find = d(2) [folded ht_mask [OF lay, of "hash_fnv1a ?k"]]
  show thesis
  proof (rule ht_place_ok [OF wf idx d(3) re new len, unfolded nodel rec])
    fix p q
    assume "ht_place ht ?idx ?k ?v = Some (ht\<lparr>ht_slots := p, ht_states := q, ht_count := ht_count ht + 1\<rparr>)"
      "ht_wf (ht\<lparr>ht_slots := p, ht_states := q, ht_count := ht_count ht + 1\<rparr>)"
      "same_block (ht_slots ht) p" "same_block (ht_states ht) q"
      "ht_map (ht\<lparr>ht_slots := p, ht_states := q, ht_count := ht_count ht + 1\<rparr>) = (ht_map ht)(?k \<mapsto> ?v)"
    with find show thesis by (rule that)
  qed
qed

text \<open>The whole loop: every live entry of the old table, and nothing else, is in the new one.\<close>

lemma rehash_loop_ok:
  assumes old: "ht_wf old" and "i \<le> ht_capacity old"
    and wf: "ht_wf ht" and del: "ht_deleted ht = 0" and like: "ht_like old ht"
    and cnt: "ht_count ht \<le> i" "ht_capacity old \<le> ht_capacity ht"
    and m: "\<And>k v. ht_map ht k = Some v \<longleftrightarrow> old_upto old i k v"
  shows "\<exists>ht'. rehash_loop old ht i = Some ht' \<and> ht_wf ht' \<and> ht_deleted ht' = 0 \<and> ht_like old ht' \<and>
    ht_capacity ht' = ht_capacity ht \<and> same_block (ht_slots ht) (ht_slots ht') \<and>
    same_block (ht_states ht) (ht_states ht') \<and> ht_map ht' = ht_map old"
  using assms(2) wf del like cnt m
proof (induction "ht_capacity old - i" arbitrary: i ht)
  case 0
  then have "i = ht_capacity old" by simp
  then have "ht_map ht = ht_map old"
    using 0(8) ht_map_Some [OF old] by (intro map_eqI) (simp add: old_upto_def)
  then show ?case using 0 by (subst rehash_loop.simps) simp
next
  case (Suc n)
  then have i: "i < ht_capacity old" by simp
  from old have olay: "ht_layout old" by (simp add: ht_wf_def)
  note rd = ht_read_state [OF olay i] and er = ht_entry_range [OF olay i]
  have ss: "ht_slot_size ht = ht_slot_size old" "ht_key_size ht = ht_key_size old"
    using Suc.prems(4) by (simp_all add: ht_like_def)
  show ?case
  proof (cases "ht_state old i = 1")
    case False
    have "\<And>k v. ht_map ht k = Some v \<longleftrightarrow> old_upto old (Suc i) k v"
      using Suc.prems(7) False by (simp add: old_upto_Suc)
    then have "\<exists>ht'. rehash_loop old ht (Suc i) = Some ht' \<and> ht_wf ht' \<and> ht_deleted ht' = 0 \<and>
      ht_like old ht' \<and> ht_capacity ht' = ht_capacity ht \<and> same_block (ht_slots ht) (ht_slots ht') \<and>
      same_block (ht_states ht) (ht_states ht') \<and> ht_map ht' = ht_map old"
      using Suc.hyps(2) Suc.prems i by (intro Suc.hyps(1)) simp_all
    then show ?thesis using i False rd by (subst rehash_loop.simps) (simp add: One_nat_def)
  next
    case True
    obtain idx p q where f: "rehash_find (ht_states ht) (sz_sub (ht_capacity ht) 1)
         (hash_fnv1a (ht_key old i) AND sz_sub (ht_capacity ht) 1) = Some idx"
      and pl: "ht_place ht idx (ht_key old i) (ht_val old i) =
         Some (ht\<lparr>ht_slots := p, ht_states := q, ht_count := ht_count ht + 1\<rparr>)"
      and w: "ht_wf (ht\<lparr>ht_slots := p, ht_states := q, ht_count := ht_count ht + 1\<rparr>)"
        "same_block (ht_slots ht) p" "same_block (ht_states ht) q"
      and mp: "ht_map (ht\<lparr>ht_slots := p, ht_states := q, ht_count := ht_count ht + 1\<rparr>) =
         (ht_map ht)(ht_key old i \<mapsto> ht_val old i)"
      by (rule rehash_insert_ok [OF old i True Suc.prems(2-7)])
    define ht1 where "ht1 = ht\<lparr>ht_slots := p, ht_states := q, ht_count := ht_count ht + 1\<rparr>"
    have fresh: "ht_map ht (ht_key old i) = None"
    proof (rule ccontr)
      assume "ht_map ht (ht_key old i) \<noteq> None"
      then obtain j where "j < i" "ht_state old j = 1" "ht_key old j = ht_key old i"
        using Suc.prems(7) by (auto simp: old_upto_def)
      then have "ht_view old j = SOcc (ht_key old i)" "ht_view old i = SOcc (ht_key old i)" "j < ht_capacity old"
        using i True by (auto simp: ht_view_def)
      then show False using old i \<open>j < i\<close> unfolding ht_wf_def chain_ok_def by blast
    qed
    have m1: "ht_map ht1 k = Some v \<longleftrightarrow> old_upto old (Suc i) k v" for k v
      using Suc.prems(7) [of k v] fresh mp True unfolding ht1_def old_upto_Suc by auto
    have "\<exists>ht'. rehash_loop old ht1 (Suc i) = Some ht' \<and> ht_wf ht' \<and> ht_deleted ht' = 0 \<and>
      ht_like old ht' \<and> ht_capacity ht' = ht_capacity ht1 \<and> same_block (ht_slots ht1) (ht_slots ht') \<and>
      same_block (ht_states ht1) (ht_states ht') \<and> ht_map ht' = ht_map old"
      using Suc.hyps(2) Suc.prems i w(1) m1
      by (intro Suc.hyps(1)) (simp_all add: ht1_def ht_like_def)
    then obtain ht' where r: "rehash_loop old ht1 (Suc i) = Some ht'" "ht_wf ht'" "ht_deleted ht' = 0"
        "ht_like old ht'" "ht_capacity ht' = ht_capacity ht" "same_block p (ht_slots ht')"
        "same_block q (ht_states ht')" "ht_map ht' = ht_map old"
      by (auto simp: ht1_def)
    have re: "mem_read (ht_slots old) (sz_mul i (ht_slot_size ht)) (ht_slot_size ht) = Some (ht_entry old i)"
      using er by (simp add: ss mem_read_ok ht_entry_def slot_def)
    have kv: "take (ht_key_size ht) (ht_entry old i) = ht_key old i"
        "drop (ht_key_size ht) (ht_entry old i) = ht_val old i"
      using ss by (simp_all add: ht_key_def ht_val_def)
    have "rehash_loop old ht i = rehash_loop old ht1 (Suc i)"
      using i True rd re f pl by (subst rehash_loop.simps) (simp add: kv ht1_def One_nat_def)
    then show ?thesis using r same_block_trans [OF w(2) r(6)] same_block_trans [OF w(3) r(7)] by auto
  qed
qed

text \<open>The number of entries is the size of the represented map.\<close>

lemma ht_count_dom:
  assumes wf: "ht_wf ht"
  shows "card (dom (ht_map ht)) = ht_count ht"
proof -
  have "dom (ht_map ht) = ht_key ht ` ht_with ht 1"
    by (auto simp: dom_def ht_map_Some [OF wf] ht_with_def)
  moreover have "inj_on (ht_key ht) (ht_with ht 1)"
  proof (rule inj_onI)
    fix i j assume ij: "i \<in> ht_with ht 1" "j \<in> ht_with ht 1" "ht_key ht i = ht_key ht j"
    then have "ht_view ht i = SOcc (ht_key ht i)" "ht_view ht j = SOcc (ht_key ht i)"
      by (simp_all add: ht_with_def ht_view_def)
    moreover have "i < ht_capacity ht" "j < ht_capacity ht" using ij by (simp_all add: ht_with_def)
    ultimately show "i = j" using wf unfolding ht_wf_def chain_ok_def by blast
  qed
  ultimately show ?thesis using wf by (simp add: card_image ht_wf_def)
qed

section \<open>Ownership, growth and the load check\<close>

definition ht_blocks :: "zenit_table_t \<Rightarrow> nat set" where
  "ht_blocks ht = paddrs (ht_slots ht) \<union> paddrs (ht_states ht)"

definition ht_owned :: "'h zenit_allocator_t \<Rightarrow> ('h \<Rightarrow> nat set) \<Rightarrow> zenit_table_t \<Rightarrow> 'h \<Rightarrow> bool" where
  "ht_owned a live ht h \<longleftrightarrow> allocator_contract a live \<and> ht_blocks ht \<subseteq> live h \<and>
    paddrs (ht_slots ht) \<inter> paddrs (ht_states ht) = {}"

text \<open>What replacing the arrays keeps: ownership, no leak, and fresh blocks only.\<close>

definition ht_moved ::
    "'h zenit_allocator_t \<Rightarrow> ('h \<Rightarrow> nat set) \<Rightarrow> zenit_table_t \<Rightarrow> 'h \<Rightarrow> zenit_table_t \<Rightarrow> 'h \<Rightarrow> bool" where
  "ht_moved a live ht h ht' h' \<longleftrightarrow> ht_owned a live ht' h' \<and>
    live h' = live h - ht_blocks ht \<union> ht_blocks ht' \<and> ht_blocks ht' \<inter> (live h - ht_blocks ht) = {} \<and>
    ht_like ht ht'"

lemma ht_moved_refl: "ht_owned a live ht h \<Longrightarrow> live h' = live h \<Longrightarrow> ht_moved a live ht h ht h'"
  by (auto simp: ht_moved_def ht_owned_def ht_like_def)

lemma ht_moved_same_blocks:
  assumes "ht_moved a live ht h ht1 h1" and "ht_like ht1 ht2"
    and "same_block (ht_slots ht1) (ht_slots ht2)" and "same_block (ht_states ht1) (ht_states ht2)"
  shows "ht_moved a live ht h ht2 h1"
  using assms by (simp add: ht_moved_def ht_owned_def ht_blocks_def ht_like_def paddrs_def same_block_def)

text \<open>A freshly allocated table is empty.\<close>

lemma fresh_table_wf:
  assumes "0 < ht_key_size ht" and "ht_slot_size ht = ht_key_size ht + ht_value_size ht"
    and "ht_capacity ht = 2 ^ p" and "ht_capacity ht * ht_slot_size ht < size_mod"
    and "100 * ht_capacity ht < size_mod"
    and "plen (ht_slots ht) = ht_capacity ht * ht_slot_size ht"
    and "pbytes (ht_states ht) = replicate (ht_capacity ht) 0"
    and "ht_count ht = 0" and "ht_deleted ht = 0"
  shows "ht_wf ht" and "ht_map ht = Map.empty"
proof -
  have st: "ht_state ht i = 0" if "i < ht_capacity ht" for i using assms(7) that by (simp add: ht_state_def)
  have "plen (ht_states ht) = ht_capacity ht" using assms(7) length_pbytes [of "ht_states ht"] by simp
  then have "ht_layout ht" using assms by (auto simp: ht_layout_def)
  moreover have "ht_with ht 1 = {}" "ht_with ht 2 = {}" using st by (auto simp: ht_with_def)
  moreover have "chain_ok hash_fnv1a (ht_capacity ht) (ht_view ht)"
    using st by (auto simp: chain_ok_def ht_view_def)
  ultimately show wf: "ht_wf ht" using assms(8,9) st by (auto simp: ht_wf_def)
  show "ht_map ht = Map.empty" using st ht_map_Some [OF wf] by (intro map_eqI) auto
qed

lemma ht_rehash_ok:
  assumes wf: "ht_wf ht" and own: "ht_owned a live ht h"
    and sz: "2 * ht_capacity ht * ht_slot_size ht < size_mod" "200 * ht_capacity ht < size_mod"
  obtains (null) h' where "ht_rehash a ht (2 * ht_capacity ht) h = Some (ZENIT_ERROR_ALLOC, ht, h')"
      and "live h' = live h"
  | (moved) ht' h' where "ht_rehash a ht (2 * ht_capacity ht) h = Some (ZENIT_OK, ht', h')"
      and "ht_moved a live ht h ht' h'" and "ht_wf ht'" and "ht_map ht' = ht_map ht"
      and "ht_capacity ht' = 2 * ht_capacity ht" and "ht_count ht' = ht_count ht" and "ht_deleted ht' = 0"
proof -
  let ?c = "2 * ht_capacity ht" and ?ss = "ht_slot_size ht"
  from wf have lay: "ht_layout ht" by (simp add: ht_wf_def)
  note l = ht_layoutD [OF lay]
  from own have c: "allocator_contract a live" and bl: "ht_blocks ht \<subseteq> live h"
    and dj: "paddrs (ht_slots ht) \<inter> paddrs (ht_states ht) = {}"
    by (simp_all add: ht_owned_def)
  have mul: "sz_mul ?c ?ss = ?c * ?ss" "sz_mul ?c 1 = ?c" using sz by (simp_all add: size_simps)
  obtain p where p: "ht_capacity ht = 2 ^ p" using lay by (auto simp: ht_layout_def)
  show thesis
  proof (cases rule: allocator_contract.alloc_zero_cases [OF c, of ?c ?ss h, case_names null block])
    case (null h1)
    then show thesis using that(1) by (simp add: ht_rehash_def)
  next
    case s: (block sb h1)
    show thesis
    proof (cases rule: allocator_contract.alloc_zero_cases [OF c, of ?c 1 h1, case_names null block])
      case (null h2)
      then have "maddr sb \<in> live h2" using s by simp
      from allocator_contract.free_addr [OF c this] obtain h3 where
        "free_fn a (Some (maddr sb)) h2 = Some h3" "live h3 = live h2 - {maddr sb}" by blast
      then show thesis using s null that(1) [of h3] by (simp add: ht_rehash_def)
    next
      case t: (block tb h2)
      define ht0 where "ht0 = ht\<lparr>ht_slots := Some sb, ht_states := Some tb, ht_capacity := ?c,
        ht_count := 0, ht_deleted := 0\<rparr>"
      have wf0: "ht_wf ht0" and m0: "ht_map ht0 = Map.empty"
        using fresh_table_wf [of ht0 "Suc p"] l sz p s(2) t(2) mul by (simp_all add: ht0_def)
      have "\<exists>ht'. rehash_loop ht ht0 0 = Some ht' \<and> ht_wf ht' \<and> ht_deleted ht' = 0 \<and> ht_like ht ht' \<and>
          ht_capacity ht' = ht_capacity ht0 \<and> same_block (ht_slots ht0) (ht_slots ht') \<and>
          same_block (ht_states ht0) (ht_states ht') \<and> ht_map ht' = ht_map ht"
        using m0 by (intro rehash_loop_ok [OF wf _ wf0]) (simp_all add: ht0_def ht_like_def old_upto_def)
      then obtain ht' where r: "rehash_loop ht ht0 0 = Some ht'" "ht_wf ht'" "ht_deleted ht' = 0"
          "ht_like ht ht'" "ht_capacity ht' = ?c" "same_block (Some sb) (ht_slots ht')"
          "same_block (Some tb) (ht_states ht')" "ht_map ht' = ht_map ht"
        by (auto simp: ht0_def)
      have "paddrs (ht_slots ht) \<subseteq> live h2" using bl s t by (auto simp: ht_blocks_def)
      from allocator_contract.free_ptr [OF c this] obtain h3 where
        h3: "free_fn a (paddr (ht_slots ht)) h2 = Some h3" "live h3 = live h2 - paddrs (ht_slots ht)" by blast
      have "paddrs (ht_states ht) \<subseteq> live h3" using bl s t h3 dj by (auto simp: ht_blocks_def)
      from allocator_contract.free_ptr [OF c this] obtain h4 where
        h4: "free_fn a (paddr (ht_states ht)) h3 = Some h4" "live h4 = live h3 - paddrs (ht_states ht)" by blast
      have run: "ht_rehash a ht ?c h = Some (ZENIT_OK, ht', h4)"
        using s(1) t(1) r(1) h3(1) h4(1) by (simp add: ht_rehash_def ht0_def)
      have pa: "paddrs (ht_slots ht') = {maddr sb}" "paddrs (ht_states ht') = {maddr tb}"
        using r(6,7) by (simp_all add: same_block_def paddrs_def)
      have "ht_moved a live ht h ht' h4"
        using c bl s(3,4) t(3,4) h3(2) h4(2) pa r(4)
        by (auto simp: ht_moved_def ht_owned_def ht_blocks_def)
      moreover have "ht_count ht' = ht_count ht" using ht_count_dom [OF wf] ht_count_dom [OF r(2)] r(8) by simp
      ultimately show thesis using run r by (intro that(2) [of ht' h4]) simp_all
    qed
  qed
qed

text \<open>The table can take one more entry: its next size is still in range.\<close>

definition ht_can_grow :: "zenit_table_t \<Rightarrow> bool" where
  "ht_can_grow ht \<longleftrightarrow> 2 * ht_capacity ht * ht_slot_size ht < size_mod \<and> 200 * ht_capacity ht < size_mod"

text \<open>
  After the load check there is room for one more entry and still a free slot beyond it: this is
  where a capacity of at least 8 matters.
\<close>

lemma ht_ensure_load_ok:
  assumes inv: "ht_inv ht" and own: "ht_owned a live ht h" and grow: "ht_can_grow ht"
  obtains (null) h' where "ht_ensure_load a ht h = Some (ZENIT_ERROR_ALLOC, ht, h')" and "live h' = live h"
  | (room) ht' h' where "ht_ensure_load a ht h = Some (ZENIT_OK, ht', h')"
      and "ht_moved a live ht h ht' h'" and "ht_inv ht'" and "ht_map ht' = ht_map ht"
      and "ht_count ht' + ht_deleted ht' + 1 < ht_capacity ht'"
proof -
  from inv have wf: "ht_wf ht" and c8: "8 \<le> ht_capacity ht" and lt: "ht_count ht + ht_deleted ht < ht_capacity ht"
    by (simp_all add: ht_inv_def)
  from grow have g: "2 * ht_capacity ht * ht_slot_size ht < size_mod" "200 * ht_capacity ht < size_mod"
    by (simp_all add: ht_can_grow_def)
  have ar: "sz_add (ht_count ht) (ht_deleted ht) = ht_count ht + ht_deleted ht"
    "sz_mul (ht_capacity ht) 75 = ht_capacity ht * 75"
    "sz_mul (ht_count ht + ht_deleted ht) 100 = (ht_count ht + ht_deleted ht) * 100"
    "sz_mul (ht_capacity ht) 2 = 2 * ht_capacity ht"
    using g(2) lt by (simp_all add: size_simps)
  show thesis
  proof (cases "ht_capacity ht * 75 < (ht_count ht + ht_deleted ht) * 100")
    case False
    then have "ht_count ht + ht_deleted ht + 1 < ht_capacity ht" using c8 by (simp add: add_mult_distrib)
    then show thesis using False inv ht_moved_refl [OF own refl] ar
      by (intro that(2) [of ht h]) (simp_all add: ht_ensure_load_def)
  next
    case True
    then have run: "ht_ensure_load a ht h = ht_rehash a ht (2 * ht_capacity ht) h"
      using ar by (simp add: ht_ensure_load_def)
    show thesis
    proof (cases rule: ht_rehash_ok [OF wf own g, case_names null moved])
      case (null h')
      then show thesis using run by (intro that(1) [of h']) simp_all
    next
      case (moved ht' h')
      then have "ht_count ht' + ht_deleted ht' + 1 < ht_capacity ht'" using lt c8 by simp
      then show thesis using run moved c8 by (intro that(2) [of ht' h']) (simp_all add: ht_inv_def)
    qed
  qed
qed

end
