(* ===== verification/Zenit_Table.thy ===== *)
theory Zenit_Table
  imports Zenit_Hash
begin

text \<open>
  What the hash map (\<open>src/map.c\<close>) and the hash set (\<open>src/set.c\<close>) do in the same way on the table of
  \<open>Zenit_Hash\<close>: allocating and releasing it, filling the slot a search ended in, leaving a
  tombstone, clearing, scanning, and copying entries out. A set is a table with entries that have
  no value part.
\<close>

section \<open>Operations\<close>

text \<open>The handle of \<open>hsz\<close> bytes, then the zeroed slot array, then the zeroed state array.\<close>

definition ht_create ::
    "'h zenit_allocator_t \<Rightarrow> nat \<Rightarrow> nat \<Rightarrow> nat \<Rightarrow> nat \<Rightarrow> 'h \<Rightarrow> ((nat \<times> zenit_table_t) option \<times> 'h) option" where
  "ht_create a hsz key_size value_size cap h =
    (let slot_size = sz_add key_size value_size in
     case alloc_fn a hsz h of
       (None, h1) \<Rightarrow> Some (None, h1)
     | (Some m, h1) \<Rightarrow> do {
         (sl, h2) \<leftarrow> zenit_allocator_alloc_zero a cap slot_size h1;
         case sl of
           None \<Rightarrow> do { h3 \<leftarrow> free_fn a (Some (maddr m)) h2; Some (None, h3) }
         | Some s \<Rightarrow> do {
             (st, h3) \<leftarrow> zenit_allocator_alloc_zero a cap 1 h2;
             case st of
               None \<Rightarrow> do {
                 h4 \<leftarrow> free_fn a (Some (maddr s)) h3;
                 h5 \<leftarrow> free_fn a (Some (maddr m)) h4;
                 Some (None, h5)
               }
             | Some t \<Rightarrow> Some (Some (maddr m, \<lparr>ht_slots = Some s, ht_states = Some t,
                 ht_key_size = key_size, ht_value_size = value_size, ht_slot_size = slot_size,
                 ht_capacity = cap, ht_count = 0, ht_deleted = 0\<rparr>), h3)
           }
       })"

definition ht_destroy :: "'h zenit_allocator_t \<Rightarrow> nat \<Rightarrow> zenit_table_t \<Rightarrow> 'h \<Rightarrow> 'h option" where
  "ht_destroy a self ht h = do {
     h1 \<leftarrow> free_fn a (paddr (ht_slots ht)) h;
     h2 \<leftarrow> free_fn a (paddr (ht_states ht)) h1;
     free_fn a (Some self) h2
   }"

text \<open>Placing an entry in the slot a search for a missing key ended in.\<close>

definition ht_fill ::
    "zenit_table_t \<Rightarrow> nat \<Rightarrow> nat \<Rightarrow> byte list \<Rightarrow> byte list \<Rightarrow> zenit_table_t option" where
  "ht_fill ht st index k v = do {
     ht1 \<leftarrow> ht_place ht index k v;
     Some (if st = 2 then ht1\<lparr>ht_deleted := sz_sub (ht_deleted ht1) 1\<rparr> else ht1)
   }"

definition ht_remove :: "zenit_table_t \<Rightarrow> byte list \<Rightarrow> (zenit_result_t \<times> zenit_table_t) option" where
  "ht_remove ht key = do {
     (st, index) \<leftarrow> probe_slot ht key;
     if st \<noteq> 1 then Some (ZENIT_ERROR_NOT_FOUND, ht)
     else do {
       q \<leftarrow> mem_write (ht_states ht) index [2];
       Some (ZENIT_OK, ht\<lparr>ht_states := q, ht_count := sz_sub (ht_count ht) 1,
                        ht_deleted := sz_add (ht_deleted ht) 1\<rparr>)
     }
   }"

definition ht_clear :: "zenit_table_t \<Rightarrow> zenit_table_t option" where
  "ht_clear ht = do {
     q \<leftarrow> mem_write (ht_states ht) 0 (replicate (ht_capacity ht) 0);
     Some (ht\<lparr>ht_states := q, ht_count := 0, ht_deleted := 0\<rparr>)
   }"

function ht_iter_scan :: "zenit_table_t \<Rightarrow> nat \<Rightarrow> (nat option \<times> nat) option" where
  "ht_iter_scan ht i =
    (if i < ht_capacity ht then do {
       s \<leftarrow> mem_read (ht_states ht) i 1;
       if s = [1] then Some (Some (sz_mul i (ht_slot_size ht)), i + 1) else ht_iter_scan ht (i + 1)
     } else Some (None, i))"
  by pat_completeness auto
termination
  by (relation "measure (\<lambda>(ht, i). ht_capacity ht - i)") auto

declare ht_iter_scan.simps [simp del]

text \<open>The copy loop of \<open>zenit_map_keys\<close> and \<open>zenit_map_values\<close>: part \<open>off\<close>, \<open>len\<close> of every slot.\<close>

function ht_collect :: "zenit_table_t \<Rightarrow> nat \<Rightarrow> nat \<Rightarrow> nat \<Rightarrow> ptr \<Rightarrow> nat \<Rightarrow> (ptr \<times> nat) option" where
  "ht_collect ht off len i buf pos =
    (if i < ht_capacity ht then do {
       s \<leftarrow> mem_read (ht_states ht) i 1;
       if s = [1] then do {
         x \<leftarrow> mem_read (ht_slots ht) (sz_add (sz_mul i (ht_slot_size ht)) off) len;
         b \<leftarrow> mem_write buf (sz_mul pos len) x;
         ht_collect ht off len (i + 1) b (sz_add pos 1)
       } else ht_collect ht off len (i + 1) buf pos
     } else Some (buf, pos))"
  by pat_completeness auto
termination
  by (relation "measure (\<lambda>(ht, off, len, i, buf, pos). ht_capacity ht - i)") auto

declare ht_collect.simps [simp del]

definition ht_to_array ::
    "'h zenit_allocator_t \<Rightarrow> zenit_table_t \<Rightarrow> nat \<Rightarrow> nat \<Rightarrow> 'h \<Rightarrow> (zenit_result_t \<times> ptr \<times> nat \<times> 'h) option" where
  "ht_to_array a ht off len h =
    (if ht_count ht = 0 then Some (ZENIT_OK, None, 0, h)
     else case alloc_fn a (sz_mul (ht_count ht) len) h of
       (None, h1) \<Rightarrow> Some (ZENIT_ERROR_ALLOC, None, 0, h1)
     | (Some b, h1) \<Rightarrow> do {
         (buf, pos) \<leftarrow> ht_collect ht off len 0 (Some b) 0;
         Some (ZENIT_OK, buf, pos, h1)
       })"

section \<open>Creation and release\<close>

text \<open>On failure nothing leaks; a new table is empty and owns its two blocks.\<close>

lemma ht_create_cases:
  assumes c: "allocator_contract a live" and ks: "0 < ks" and cap: "4 < cap" "cap \<le> 2 ^ 63"
    and sz: "round_pow2 cap * (ks + vs) < size_mod" "100 * round_pow2 cap < size_mod"
  obtains (null) h' where "ht_create a hsz ks vs (round_pow2 cap) h = Some (None, h')" and "live h' = live h"
  | (made) self ht h' where "ht_create a hsz ks vs (round_pow2 cap) h = Some (Some (self, ht), h')"
      and "ht_inv ht" and "ht_key_size ht = ks" and "ht_value_size ht = vs" and "ht_map ht = Map.empty"
      and "ht_owned a live ht h'" and "self \<in> live h' - ht_blocks ht"
      and "live h' = insert self (live h \<union> ht_blocks ht)"
      and "({self} \<union> ht_blocks ht) \<inter> live h = {}"
proof -
  obtain p where p: "round_pow2 cap = 2 ^ p" "cap \<le> 2 ^ p" using round_pow2_least [of cap] cap by auto
  have p8: "8 \<le> (2::nat) ^ p"
  proof (rule ccontr)
    assume "\<not> 8 \<le> (2::nat) ^ p"
    then have "(2::nat) ^ p < 2 ^ 3" by simp
    then have "p \<le> 2" by (subst (asm) power_strict_increasing_iff) simp_all
    then have "(2::nat) ^ p \<le> 2 ^ 2" by (intro power_increasing) simp_all
    then show False using p(2) cap(1) by simp
  qed
  have "ks + vs \<le> 2 ^ p * (ks + vs)" using p8 by simp
  then have "ks + vs < size_mod" using sz(1) unfolding p(1) by (rule le_less_trans)
  then have ss: "sz_add ks vs = ks + vs" by (rule sz_add_nowrap)
  have mul: "sz_mul (2 ^ p) (ks + vs) = 2 ^ p * (ks + vs)" "sz_mul (2 ^ p) 1 = 2 ^ p"
    using sz p by (simp_all add: size_simps)
  note run = ht_create_def p(1) ss
  show thesis
  proof (cases rule: allocator_contract.alloc_cases [OF c, of hsz h, case_names null block])
    case (null h1)
    then show thesis using that(1) [of h1] by (simp add: run)
  next
    case b: (block b h1)
    show thesis
    proof (cases rule: allocator_contract.alloc_zero_cases [OF c, of "2 ^ p" "ks + vs" h1, case_names null block])
      case (null h2)
      then have "maddr b \<in> live h2" using b by simp
      from allocator_contract.free_addr [OF c this] obtain h3 where
        "free_fn a (Some (maddr b)) h2 = Some h3" "live h3 = live h2 - {maddr b}" by blast
      then show thesis using that(1) [of h3] b null by (simp add: run)
    next
      case s: (block s h2)
      show thesis
      proof (cases rule: allocator_contract.alloc_zero_cases [OF c, of "2 ^ p" 1 h2, case_names null block])
        case (null h3)
        then have "maddr s \<in> live h3" using s by simp
        from allocator_contract.free_addr [OF c this] obtain h4 where
          h4: "free_fn a (Some (maddr s)) h3 = Some h4" "live h4 = live h3 - {maddr s}" by blast
        have "maddr b \<in> live h4" using h4 null s b by auto
        from allocator_contract.free_addr [OF c this] obtain h5 where
          "free_fn a (Some (maddr b)) h4 = Some h5" "live h5 = live h4 - {maddr b}" by blast
        then show thesis using that(1) [of h5] b null s h4 by (simp add: run)
      next
        case t: (block t h3)
        define ht where "ht = \<lparr>ht_slots = Some s, ht_states = Some t, ht_key_size = ks,
          ht_value_size = vs, ht_slot_size = ks + vs, ht_capacity = 2 ^ p, ht_count = 0, ht_deleted = 0\<rparr>"
        have wf: "ht_wf ht" "ht_map ht = Map.empty"
          using fresh_table_wf [of ht p] ks sz p mul s(2) t(2) by (simp_all add: ht_def)
        show thesis
          by (rule that(2) [of "maddr b" ht h3])
            (use c wf p8 b s t in \<open>auto simp: run ht_inv_def ht_def ht_owned_def ht_blocks_def\<close>)
      qed
    qed
  qed
qed

lemma ht_destroy_ok:
  assumes own: "ht_owned a live ht h" and self: "self \<in> live h - ht_blocks ht"
  shows "\<exists>h'. ht_destroy a self ht h = Some h' \<and> live h' = live h - ht_blocks ht - {self}"
proof -
  from own have c: "allocator_contract a live" and bl: "ht_blocks ht \<subseteq> live h"
    and dj: "paddrs (ht_slots ht) \<inter> paddrs (ht_states ht) = {}"
    by (simp_all add: ht_owned_def)
  have "paddrs (ht_slots ht) \<subseteq> live h" using bl by (auto simp: ht_blocks_def)
  from allocator_contract.free_ptr [OF c this] obtain h1 where
    h1: "free_fn a (paddr (ht_slots ht)) h = Some h1" "live h1 = live h - paddrs (ht_slots ht)" by blast
  have "paddrs (ht_states ht) \<subseteq> live h1" using bl dj h1 by (auto simp: ht_blocks_def)
  from allocator_contract.free_ptr [OF c this] obtain h2 where
    h2: "free_fn a (paddr (ht_states ht)) h1 = Some h2" "live h2 = live h1 - paddrs (ht_states ht)" by blast
  have "self \<in> live h2" using self h1 h2 by (auto simp: ht_blocks_def)
  from allocator_contract.free_addr [OF c this] obtain h3 where
    "free_fn a (Some self) h2 = Some h3" "live h3 = live h2 - {self}" by blast
  then show ?thesis using h1 h2 by (auto simp: ht_destroy_def ht_blocks_def)
qed

section \<open>Effect on the represented map\<close>

text \<open>What an update in place keeps.\<close>

definition ht_edit :: "zenit_table_t \<Rightarrow> zenit_table_t \<Rightarrow> bool" where
  "ht_edit ht ht' \<longleftrightarrow> ht_wf ht' \<and> ht_like ht ht' \<and> ht_capacity ht' = ht_capacity ht \<and>
    same_block (ht_slots ht) (ht_slots ht') \<and> same_block (ht_states ht) (ht_states ht') \<and>
    ht_count ht' + ht_deleted ht' \<le> ht_count ht + ht_deleted ht + 1"

lemma ht_edit_refl: "ht_wf ht \<Longrightarrow> ht_edit ht ht"
  by (simp add: ht_edit_def ht_like_def same_block_def)

lemma ht_moved_edit: "ht_moved a live ht h ht1 h1 \<Longrightarrow> ht_edit ht1 ht2 \<Longrightarrow> ht_moved a live ht h ht2 h1"
  by (rule ht_moved_same_blocks) (auto simp: ht_edit_def)

lemma ht_edit_inv:
  "ht_inv ht \<Longrightarrow> ht_edit ht ht' \<Longrightarrow> ht_count ht' + ht_deleted ht' < ht_capacity ht \<Longrightarrow> ht_inv ht'"
  by (simp add: ht_inv_def ht_edit_def)

lemma ht_edit_owned: "ht_owned a live ht h \<Longrightarrow> ht_edit ht ht' \<Longrightarrow> ht_owned a live ht' h \<and> ht_blocks ht' = ht_blocks ht"
  by (simp add: ht_owned_def ht_edit_def ht_blocks_def paddrs_def same_block_def)

text \<open>Filling the slot in which the search for a missing key ended.\<close>

lemma ht_fill_ok:
  assumes wf: "ht_wf ht" and room: "ht_count ht + ht_deleted ht < ht_capacity ht"
    and p: "probe_post ht k s i" and s1: "s \<noteq> 1"
    and k: "length k = ht_key_size ht" and v: "length v = ht_value_size ht"
  shows "\<exists>ht'. ht_fill ht s i k v = Some ht' \<and> ht_edit ht ht' \<and> ht_map ht' = (ht_map ht)(k \<mapsto> v)"
proof -
  note q = probe_post_map [OF wf p]
  have st: "ht_state ht i \<noteq> 1" and s: "s = 2 \<longleftrightarrow> ht_state ht i = 2" using q(3,5) s1 by auto
  have re: "reach hash_fnv1a (ht_capacity ht) (ht_view ht) k i"
      "k \<notin> view_keys (ht_capacity ht) (ht_view ht)"
    using p s1 by (auto simp: probe_post_def)
  let ?d = "if ht_state ht i = 2 then ht_deleted ht - 1 else ht_deleted ht"
  obtain a b where w: "ht_place ht i k v = Some (ht\<lparr>ht_slots := a, ht_states := b, ht_count := ht_count ht + 1\<rparr>)"
      "ht_wf (ht\<lparr>ht_slots := a, ht_states := b, ht_count := ht_count ht + 1, ht_deleted := ?d\<rparr>)"
      "same_block (ht_slots ht) a" "same_block (ht_states ht) b"
      "ht_map (ht\<lparr>ht_slots := a, ht_states := b, ht_count := ht_count ht + 1, ht_deleted := ?d\<rparr>) =
        (ht_map ht)(k \<mapsto> v)"
    by (rule ht_place_ok [OF wf q(4) st re k v])
  have dpos: "0 < ht_deleted ht" if "s = 2"
  proof -
    have "i \<in> ht_with ht 2" using that s q(4) by (simp add: ht_with_def)
    then have "0 < card (ht_with ht 2)" by (metis card_gt_0_iff empty_iff finite_ht_with)
    then show ?thesis using wf by (simp add: ht_wf_def)
  qed
  have "sz_sub (ht_deleted ht) 1 = ht_deleted ht - 1" if "s = 2"
    using dpos [OF that] room ht_layoutD(10) [of ht] wf by (intro sz_sub_nowrap) (auto simp: ht_wf_def)
  then have "ht_fill ht s i k v =
      Some (ht\<lparr>ht_slots := a, ht_states := b, ht_count := ht_count ht + 1, ht_deleted := ?d\<rparr>)"
    using w(1) s by (auto simp: ht_fill_def)
  then show ?thesis using w by (simp add: ht_edit_def ht_like_def)
qed

lemma ht_remove_ok:
  assumes wf: "ht_wf ht" and room: "ht_count ht + ht_deleted ht < ht_capacity ht"
    and k: "ht_key_size ht \<le> length key"
  shows "\<exists>ht'. ht_remove ht key =
      Some (if ht_map ht (take (ht_key_size ht) key) = None then ZENIT_ERROR_NOT_FOUND else ZENIT_OK, ht') \<and>
    ht_edit ht ht' \<and> ht_map ht' = (ht_map ht)(take (ht_key_size ht) key := None) \<and>
    ht_count ht' + ht_deleted ht' = ht_count ht + ht_deleted ht"
proof -
  let ?k = "take (ht_key_size ht) key"
  obtain s i where p: "probe_slot ht key = Some (s, i)" "probe_post ht ?k s i"
    using probe_slot_ok [OF wf room k] by blast
  note q = probe_post_map [OF wf p(2)]
  show ?thesis
  proof (cases "s = 1")
    case True
    have "ht_state ht i = 1" using q(5) True by simp
    then obtain b where b: "mem_write (ht_states ht) i [2] = Some b" "same_block (ht_states ht) b"
        "ht_wf (ht\<lparr>ht_states := b, ht_count := ht_count ht - 1, ht_deleted := ht_deleted ht + 1\<rparr>)"
        "ht_map (ht\<lparr>ht_states := b, ht_count := ht_count ht - 1, ht_deleted := ht_deleted ht + 1\<rparr>) =
          (ht_map ht)(ht_key ht i := None)" "0 < ht_count ht"
      using ht_tombstone_ok [OF wf q(4)] by blast
    have "ht_capacity ht < size_mod" using wf ht_layoutD(10) by (auto simp: ht_wf_def)
    then have "sz_sub (ht_count ht) 1 = ht_count ht - 1" "sz_add (ht_deleted ht) 1 = ht_deleted ht + 1"
      using room b(5) by (simp_all add: size_simps)
    then have "ht_remove ht key =
        Some (ZENIT_OK, ht\<lparr>ht_states := b, ht_count := ht_count ht - 1, ht_deleted := ht_deleted ht + 1\<rparr>)"
      using True p(1) b(1) by (simp add: ht_remove_def)
    then show ?thesis using b q(1,6) [OF True] by (simp add: ht_edit_def ht_like_def)
  next
    case False
    then have "ht_remove ht key = Some (ZENIT_ERROR_NOT_FOUND, ht)" using p(1) by (simp add: ht_remove_def)
    then show ?thesis using q(2) [OF False] ht_edit_refl [OF wf] by auto
  qed
qed


lemma ht_clear_ok:
  assumes wf: "ht_wf ht"
  shows "\<exists>ht'. ht_clear ht = Some ht' \<and> ht_edit ht ht' \<and> ht_map ht' = Map.empty \<and> ht_count ht' = 0 \<and> ht_deleted ht' = 0"
proof -
  from wf have lay: "ht_layout ht" by (simp add: ht_wf_def)
  note l = ht_layoutD [OF lay]
  obtain p where p: "ht_capacity ht = 2 ^ p" using lay by (auto simp: ht_layout_def)
  have "ht_states ht \<noteq> None" using l(3,7) by (cases "ht_states ht") simp_all
  then obtain q where q: "mem_write (ht_states ht) 0 (replicate (ht_capacity ht) 0) = Some q"
      "pbytes q = blit (pbytes (ht_states ht)) 0 (replicate (ht_capacity ht) 0)" "same_block (ht_states ht) q"
    using mem_write_obtain [of "ht_states ht" 0 "replicate (ht_capacity ht) 0"] l(7) by (auto simp: same_block_def)
  define ht' where "ht' = ht\<lparr>ht_states := q, ht_count := 0, ht_deleted := 0\<rparr>"
  have "pbytes q = replicate (ht_capacity ht) 0" using q(2) l(7) by (simp add: blit_def)
  then have "ht_wf ht'" "ht_map ht' = Map.empty"
    using fresh_table_wf [of ht' p] l p by (simp_all add: ht'_def)
  then show ?thesis using q by (simp add: ht_clear_def ht_edit_def ht_like_def ht'_def same_block_def)
qed

section \<open>Copying entries out\<close>

definition ht_occupied :: "zenit_table_t \<Rightarrow> nat \<Rightarrow> nat list" where
  "ht_occupied ht i = filter (\<lambda>j. ht_state ht j = 1) [i..<ht_capacity ht]"

definition ht_part :: "zenit_table_t \<Rightarrow> nat \<Rightarrow> nat \<Rightarrow> nat \<Rightarrow> byte list" where
  "ht_part ht off len i = take len (drop off (ht_entry ht i))"

lemma ht_occupied_step:
  "i < ht_capacity ht \<Longrightarrow>
   ht_occupied ht i = (if ht_state ht i = 1 then i # ht_occupied ht (i + 1) else ht_occupied ht (i + 1))"
  by (simp add: ht_occupied_def upt_conv_Cons One_nat_def)

lemma ht_read_part:
  assumes "ht_layout ht" and "i < ht_capacity ht" and "off + len \<le> ht_slot_size ht"
  shows "mem_read (ht_slots ht) (sz_add (sz_mul i (ht_slot_size ht)) off) len = Some (ht_part ht off len i)"
    and "length (ht_part ht off len i) = len"
proof -
  note r = ht_entry_range [OF assms(1,2)] and l = ht_layoutD [OF assms(1)]
  have "sz_add (i * ht_slot_size ht) off = i * ht_slot_size ht + off"
    using r(2) l(9) assms(3) by (intro sz_add_nowrap) simp
  then show "mem_read (ht_slots ht) (sz_add (sz_mul i (ht_slot_size ht)) off) len = Some (ht_part ht off len i)"
    using r(1-3) assms(3) by (simp add: mem_read_ok ht_part_def ht_entry_def slot_def drop_take add.commute)
  show "length (ht_part ht off len i) = len" using r(4) assms(3) by (simp add: ht_part_def)
qed

lemma ht_collect_ok:
  assumes lay: "ht_layout ht" and part: "off + len \<le> ht_slot_size ht" "0 < len"
  shows "buf \<noteq> None \<Longrightarrow> plen buf < size_mod \<Longrightarrow> (pos + length (ht_occupied ht i)) * len \<le> plen buf \<Longrightarrow>
    i \<le> ht_capacity ht \<Longrightarrow>
    \<exists>b. ht_collect ht off len i buf pos = Some (b, pos + length (ht_occupied ht i)) \<and> same_block buf b \<and>
      slots len (pbytes b) (pos + length (ht_occupied ht i)) =
        slots len (pbytes buf) pos @ map (ht_part ht off len) (ht_occupied ht i)"
proof (induction "ht_capacity ht - i" arbitrary: i buf pos)
  case 0
  then have "ht_occupied ht i = []" "\<not> i < ht_capacity ht" "buf \<noteq> None" by (simp_all add: ht_occupied_def)
  then show ?case by (subst ht_collect.simps) (simp add: same_block_def)
next
  case (Suc n)
  then have i: "i < ht_capacity ht" and n: "n = ht_capacity ht - (i + 1)" and i1: "i + 1 \<le> ht_capacity ht" by simp_all
  note st = ht_read_state [OF lay i] and rp = ht_read_part [OF lay i part(1)]
  show ?case
  proof (cases "ht_state ht i = 1")
    case False
    then show ?thesis using Suc.hyps(1) [OF n Suc.prems(1,2) _ i1] Suc.prems(3) i st
      by (subst ht_collect.simps) (simp add: ht_occupied_step [OF i])
  next
    case True
    let ?x = "ht_part ht off len i"
    have occ: "ht_occupied ht i = i # ht_occupied ht (i + 1)" using True by (simp add: ht_occupied_step [OF i])
    have fit: "(Suc pos + length (ht_occupied ht (i + 1))) * len \<le> plen buf" using Suc.prems(3) occ by simp
    then have le: "pos * len + len \<le> plen buf" by (simp add: add_mult_distrib)
    have "Suc pos * 1 \<le> Suc pos * len" using part(2) by (intro mult_le_mono2) simp
    then have sp: "Suc pos < size_mod" using le Suc.prems(2) by simp
    obtain q where q: "mem_write buf (pos * len) ?x = Some q" "pbytes q = blit (pbytes buf) (pos * len) ?x"
        "plen q = plen buf" "paddr q = paddr buf" "q \<noteq> None"
      using mem_write_obtain [OF Suc.prems(1), of "pos * len" ?x] le rp(2) by auto
    have m: "sz_mul pos len = pos * len" "sz_add pos 1 = Suc pos"
      using le Suc.prems(2) sp by (simp_all add: size_simps)
    have "plen q < size_mod" "(Suc pos + length (ht_occupied ht (i + 1))) * len \<le> plen q"
      using q(3) Suc.prems(2) fit by simp_all
    from Suc.hyps(1) [OF n q(5) this i1] obtain b where
      b: "ht_collect ht off len (i + 1) q (Suc pos) = Some (b, Suc pos + length (ht_occupied ht (i + 1)))"
        "same_block q b" "slots len (pbytes b) (Suc pos + length (ht_occupied ht (i + 1))) =
          slots len (pbytes q) (Suc pos) @ map (ht_part ht off len) (ht_occupied ht (i + 1))"
      by blast
    have "slots len (pbytes q) (Suc pos) = slots len (pbytes buf) pos @ [?x]"
      unfolding q(2) by (rule slots_blit_last) (use rp(2) le part(2) in simp_all)
    moreover have "ht_collect ht off len i buf pos = ht_collect ht off len (i + 1) q (Suc pos)"
      using i st True rp(1) q(1) m by (subst ht_collect.simps) simp
    ultimately show ?thesis using b q occ by (auto simp: same_block_def)
  qed
qed

lemma ht_to_array_ok:
  assumes wf: "ht_wf ht" and c: "allocator_contract a live"
    and part: "off + len \<le> ht_slot_size ht" "0 < len"
  obtains (empty) "ht_to_array a ht off len h = Some (ZENIT_OK, None, 0, h)" and "ht_count ht = 0"
  | (null) h' where "ht_to_array a ht off len h = Some (ZENIT_ERROR_ALLOC, None, 0, h')" and "live h' = live h"
      and "0 < ht_count ht"
  | (made) b h' where "ht_to_array a ht off len h = Some (ZENIT_OK, Some b, ht_count ht, h')"
      and "slots len (mbytes b) (ht_count ht) = map (ht_part ht off len) (ht_occupied ht 0)"
      and "maddr b \<notin> live h" and "live h' = insert (maddr b) (live h)" and "0 < ht_count ht"
proof (cases "ht_count ht = 0")
  case True
  then show thesis by (intro that(1)) (simp_all add: ht_to_array_def)
next
  case False
  from wf have lay: "ht_layout ht" by (simp add: ht_wf_def)
  note l = ht_layoutD [OF lay]
  have "set (ht_occupied ht 0) = ht_with ht 1" by (auto simp: ht_occupied_def ht_with_def)
  moreover have "distinct (ht_occupied ht 0)" by (simp add: ht_occupied_def)
  ultimately have len: "length (ht_occupied ht 0) = ht_count ht"
    using wf distinct_card [of "ht_occupied ht 0"] by (simp add: ht_wf_def)
  have "length (ht_occupied ht 0) \<le> ht_capacity ht"
    unfolding ht_occupied_def by (rule order_trans [OF length_filter_le]) simp
  then have "ht_count ht * len \<le> ht_capacity ht * ht_slot_size ht"
    using len part by (intro mult_le_mono) simp_all
  then have sz: "ht_count ht * len < size_mod" using l(4) by simp
  show thesis
  proof (cases rule: allocator_contract.alloc_cases [OF c, of "ht_count ht * len" h, case_names null block])
    case (null h')
    then show thesis using False sz by (intro that(2) [of h']) (simp_all add: ht_to_array_def size_simps)
  next
    case (block b h')
    from ht_collect_ok [OF lay part, of "Some b" 0 0] obtain q where
      q: "ht_collect ht off len 0 (Some b) 0 = Some (q, ht_count ht)" "same_block (Some b) q"
        "slots len (pbytes q) (ht_count ht) = map (ht_part ht off len) (ht_occupied ht 0)"
      using block(2) sz len by (auto simp: slots_def)
    then obtain b' where "q = Some b'" "maddr b' = maddr b" by (cases q) (auto simp: same_block_def)
    then show thesis using False sz block q
      by (intro that(3) [of b' h']) (simp_all add: ht_to_array_def size_simps)
  qed
qed

text \<open>The occupied slots, in order, list the represented map.\<close>

lemma ht_occupied_lists_map:
  assumes wf: "ht_wf ht"
  defines "ks \<equiv> map (ht_part ht 0 (ht_key_size ht)) (ht_occupied ht 0)"
    and "vs \<equiv> map (ht_part ht (ht_key_size ht) (ht_value_size ht)) (ht_occupied ht 0)"
  shows "set ks = dom (ht_map ht)" and "distinct ks" and "map (ht_map ht) ks = map Some vs"
    and "card (dom (ht_map ht)) = ht_count ht"
proof -
  from wf have lay: "ht_layout ht" by (simp add: ht_wf_def)
  have occ: "i < ht_capacity ht \<and> ht_state ht i = 1" if "i \<in> set (ht_occupied ht 0)" for i
    using that by (simp add: ht_occupied_def)
  have part: "ht_part ht 0 (ht_key_size ht) i = ht_key ht i"
      "ht_part ht (ht_key_size ht) (ht_value_size ht) i = ht_val ht i" if "i \<in> set (ht_occupied ht 0)" for i
    using ht_entry_range(4) [OF lay] occ [OF that] ht_layoutD(2) [OF lay]
    by (simp_all add: ht_part_def ht_key_def ht_val_def)
  have ks: "ks = map (ht_key ht) (ht_occupied ht 0)" and vs: "vs = map (ht_val ht) (ht_occupied ht 0)"
    unfolding ks_def vs_def using part by simp_all
  show dom: "set ks = dom (ht_map ht)"
    unfolding ks by (auto simp: dom_def ht_map_Some [OF wf] ht_occupied_def)
  show card: "card (dom (ht_map ht)) = ht_count ht" by (rule ht_count_dom [OF wf])
  have "set (ht_occupied ht 0) = ht_with ht 1" by (auto simp: ht_occupied_def ht_with_def)
  moreover have "distinct (ht_occupied ht 0)" by (simp add: ht_occupied_def)
  ultimately have "length ks = ht_count ht"
    using wf distinct_card [of "ht_occupied ht 0"] by (simp add: ks ht_wf_def)
  then show "distinct ks" using card dom by (simp add: card_distinct)
  show "map (ht_map ht) ks = map Some vs"
    unfolding ks vs using occ by (auto simp: ht_map_Some [OF wf])
qed

lemma ht_layoutI:
  "ht_capacity ht = 2 ^ p \<Longrightarrow> 0 < ht_key_size ht \<Longrightarrow> ht_slot_size ht = ht_key_size ht + ht_value_size ht \<Longrightarrow>
   ht_capacity ht * ht_slot_size ht < size_mod \<Longrightarrow> 100 * ht_capacity ht < size_mod \<Longrightarrow>
   plen (ht_slots ht) = ht_capacity ht * ht_slot_size ht \<Longrightarrow> plen (ht_states ht) = ht_capacity ht \<Longrightarrow> ht_layout ht"
  unfolding ht_layout_def by blast

section \<open>A table without a free slot\<close>

text \<open>
  The search loop ends only at an EMPTY slot or at the key: in a table with neither it never does.
\<close>

definition ht_stuck :: "zenit_table_t \<Rightarrow> byte list \<Rightarrow> bool" where
  "ht_stuck ht key \<longleftrightarrow> ht_layout ht \<and>
    (\<forall>j < ht_capacity ht. ht_state ht j \<noteq> 0 \<and> (ht_state ht j = 2 \<or> ht_key ht j \<noteq> key))"

lemma probe_loop_stuck:
  "probe_loop ht key msk i fd found = Some y \<Longrightarrow> ht_stuck ht key \<Longrightarrow> msk = sz_sub (ht_capacity ht) 1 \<Longrightarrow>
   i < ht_capacity ht \<Longrightarrow> False"
proof (induction rule: probe_loop.raw_induct [rotated, consumes 1, case_names loop])
  case (loop self ht key msk i fd found y)
  then have lay: "ht_layout ht" and i: "ht_state ht i \<noteq> 0" "ht_state ht i = 2 \<or> ht_key ht i \<noteq> key"
    by (simp_all add: ht_stuck_def)
  have "sz_add i 1 AND msk < ht_capacity ht"
    using ht_mask [OF lay] ht_layoutD(3) [OF lay] loop.prems(2) by simp
  then show ?case
    using loop.hyps loop.IH [OF _ loop.prems(1,2)] i ht_read_state [OF lay loop.prems(3)]
      ht_read_key [OF lay loop.prems(3)]
    by (cases y) (auto split: if_splits)
qed

lemma probe_slot_stuck:
  assumes "ht_stuck ht key" and "length key = ht_key_size ht"
  shows "probe_slot ht key = None"
proof (rule ccontr)
  from assms have lay: "ht_layout ht" by (simp add: ht_stuck_def)
  assume "probe_slot ht key \<noteq> None"
  then obtain y where "probe_loop ht key (sz_sub (ht_capacity ht) 1)
      (hash_fnv1a key AND sz_sub (ht_capacity ht) 1) (ht_capacity ht) False = Some y"
    using assms(2) by (auto simp: probe_slot_def user_read_def Let_def)
  then show False using assms(1) refl by (rule probe_loop_stuck)
    (use ht_mask [OF lay] ht_layoutD(3) [OF lay] in simp)
qed


section \<open>Tables that belong to a handle\<close>

definition tbl_ok :: "'h zenit_allocator_t \<Rightarrow> ('h \<Rightarrow> nat set) \<Rightarrow> nat \<Rightarrow> zenit_table_t \<Rightarrow> 'h \<Rightarrow> bool" where
  "tbl_ok a live self ht h \<longleftrightarrow> ht_inv ht \<and> ht_owned a live ht h \<and> self \<in> live h - ht_blocks ht"

lemma tbl_okD:
  assumes "tbl_ok a live self ht h"
  shows "ht_inv ht" "ht_wf ht" "ht_count ht + ht_deleted ht < ht_capacity ht" "ht_owned a live ht h"
    "allocator_contract a live" "self \<in> live h - ht_blocks ht"
  using assms by (simp_all add: tbl_ok_def ht_inv_def ht_owned_def)

lemma tbl_ok_edit:
  assumes ok: "tbl_ok a live self ht h" and e: "ht_edit ht ht'"
    and lt: "ht_count ht' + ht_deleted ht' < ht_capacity ht"
  shows "tbl_ok a live self ht' h"
  using tbl_okD(6) [OF ok] ht_edit_inv [OF tbl_okD(1) [OF ok] e lt] ht_edit_owned [OF tbl_okD(4) [OF ok] e]
  by (simp add: tbl_ok_def)

text \<open>
  The load check and then a store that edits the table in place: either the check fails for lack of
  memory and nothing changes, or both succeed, whatever the check moved.
\<close>

lemma tbl_insert_cases:
  assumes ok: "tbl_ok a live self ht h" and grow: "ht_can_grow ht"
    and store: "\<And>t. ht_wf t \<Longrightarrow> ht_like ht t \<Longrightarrow> ht_count t + ht_deleted t < ht_capacity t \<Longrightarrow>
      \<exists>t'. store t = Some t' \<and> ht_edit t t' \<and> ht_map t' = f (ht_map t)"
  obtains (null) h' where "ht_ensure_load a ht h = Some (ZENIT_ERROR_ALLOC, ht, h')"
      and "tbl_ok a live self ht h'" and "live h' = live h"
  | (stored) t t' h' where "ht_ensure_load a ht h = Some (ZENIT_OK, t, h')" and "store t = Some t'"
      and "tbl_ok a live self t' h'" and "ht_like ht t'" and "ht_map t' = f (ht_map ht)"
      and "live h' = live h - ht_blocks ht \<union> ht_blocks t'"
proof (cases rule: ht_ensure_load_ok [OF tbl_okD(1,4) [OF ok] grow, case_names null room])
  case (null h')
  then show thesis using that(1) [of h'] ok by (auto simp: tbl_ok_def ht_owned_def)
next
  case (room t h')
  have "ht_wf t" "ht_like ht t" "ht_count t + ht_deleted t < ht_capacity t"
    using room(2,3) by (simp_all add: ht_inv_def ht_moved_def)
  from store [OF this] obtain t' where
    t': "store t = Some t'" "ht_edit t t'" "ht_map t' = f (ht_map t)" by blast
  have mv: "ht_moved a live ht h t' h'" by (rule ht_moved_edit [OF room(2) t'(2)])
  have inv: "ht_inv t'" using ht_edit_inv [OF room(3) t'(2)] t'(2) room(5) by (simp add: ht_edit_def)
  have "self \<in> live h' - ht_blocks t'" using mv tbl_okD(6) [OF ok] by (auto simp: ht_moved_def)
  then have "tbl_ok a live self t' h'" using mv inv by (auto simp: tbl_ok_def ht_moved_def)
  then show thesis using that(2) [OF room(1) t'(1)] t'(3) room(4) mv by (simp add: ht_moved_def)
qed

end
