(* ===== verification/Zenit_Map.thy ===== *)
theory Zenit_Map
  imports Zenit_Table Zenit_Interfaces
begin

text \<open>
  The hash map (\<open>include/libzenit/map.h\<close>, \<open>src/map.c\<close>) over the table of \<open>Zenit_Hash\<close>: it refines
  a finite map from keys to values. Pointers the functions hand out are byte offsets into the slot
  array; the callback of \<open>zenit_map_foreach\<close> is a function on the caller's context.
\<close>

section \<open>State and operations\<close>

record 'h zenit_map_t =
  map_self :: nat
  map_table :: zenit_table_t
  map_allocator :: "'h zenit_allocator_t"

definition sizeof_map :: nat where
  "sizeof_map = 104"

definition zenit_map_create_with_capacity_and_allocator ::
    "nat \<Rightarrow> nat \<Rightarrow> nat \<Rightarrow> 'h zenit_allocator_t \<Rightarrow> 'h \<Rightarrow> ('h zenit_map_t option \<times> 'h) option" where
  "zenit_map_create_with_capacity_and_allocator key_size value_size capacity a h =
    (if key_size = 0 \<or> value_size = 0 \<or> capacity = 0 then Some (None, h)
     else do {
       (r, h') \<leftarrow> ht_create a sizeof_map key_size value_size (round_pow2 capacity) h;
       Some (case r of None \<Rightarrow> (None, h')
         | Some (self, ht) \<Rightarrow>
             (Some \<lparr>map_self = self, map_table = ht, map_allocator = a\<rparr>, h'))
     })"

definition zenit_map_create_with_allocator ::
    "nat \<Rightarrow> nat \<Rightarrow> 'h zenit_allocator_t \<Rightarrow> 'h \<Rightarrow> ('h zenit_map_t option \<times> 'h) option" where
  "zenit_map_create_with_allocator key_size value_size a =
    zenit_map_create_with_capacity_and_allocator key_size value_size 16 a"

definition zenit_map_create_with_capacity ::
    "nat \<Rightarrow> nat \<Rightarrow> nat \<Rightarrow> c_heap \<Rightarrow> (c_heap zenit_map_t option \<times> c_heap) option" where
  "zenit_map_create_with_capacity key_size value_size capacity =
    zenit_map_create_with_capacity_and_allocator key_size value_size capacity ZENIT_ALLOCATOR_DEFAULT"

definition zenit_map_create :: "nat \<Rightarrow> nat \<Rightarrow> c_heap \<Rightarrow> (c_heap zenit_map_t option \<times> c_heap) option" where
  "zenit_map_create key_size value_size = zenit_map_create_with_capacity key_size value_size 16"

definition zenit_map_destroy :: "'h zenit_map_t option \<Rightarrow> 'h \<Rightarrow> 'h option" where
  "zenit_map_destroy mp h =
    (case mp of None \<Rightarrow> Some h
     | Some m \<Rightarrow> ht_destroy (map_allocator m) (map_self m) (map_table m) h)"

text \<open>The part of an insertion after the load check.\<close>

definition map_store :: "zenit_table_t \<Rightarrow> byte list \<Rightarrow> byte list \<Rightarrow> zenit_table_t option" where
  "map_store ht key value = do {
     (st, index) \<leftarrow> probe_slot ht key;
     if st = 1 then do {
       v \<leftarrow> user_read value (ht_value_size ht);
       p \<leftarrow> mem_write (ht_slots ht) (sz_add (sz_mul index (ht_slot_size ht)) (ht_key_size ht)) v;
       Some (ht\<lparr>ht_slots := p\<rparr>)
     } else do {
       k \<leftarrow> user_read key (ht_key_size ht);
       v \<leftarrow> user_read value (ht_value_size ht);
       ht_fill ht st index k v
     }
   }"

definition zenit_map_insert ::
    "'h zenit_map_t option \<Rightarrow> byte list option \<Rightarrow> byte list option \<Rightarrow> 'h \<Rightarrow>
     (zenit_result_t \<times> 'h zenit_map_t option \<times> 'h) option" where
  "zenit_map_insert mp key value h =
    (case (mp, key, value) of
       (Some m, Some k, Some v) \<Rightarrow> do {
         (lr, ht, h1) \<leftarrow> ht_ensure_load (map_allocator m) (map_table m) h;
         if lr \<noteq> ZENIT_OK then Some (lr, Some (m\<lparr>map_table := ht\<rparr>), h1)
         else do {
           ht1 \<leftarrow> map_store ht k v;
           Some (ZENIT_OK, Some (m\<lparr>map_table := ht1\<rparr>), h1)
         }
       }
     | _ \<Rightarrow> Some (ZENIT_ERROR_NULL, mp, h))"

definition zenit_map_get ::
    "'h zenit_map_t option \<Rightarrow> byte list option \<Rightarrow> byte list option \<Rightarrow>
     (zenit_result_t \<times> byte list option) option" where
  "zenit_map_get mp key out_value =
    (case (mp, key, out_value) of
       (Some m, Some k, Some out) \<Rightarrow> do {
         let ht = map_table m;
         (st, index) \<leftarrow> probe_slot ht k;
         if st \<noteq> 1 then Some (ZENIT_ERROR_NOT_FOUND, out_value)
         else do {
           v \<leftarrow> mem_read (ht_slots ht) (sz_add (sz_mul index (ht_slot_size ht)) (ht_key_size ht))
                 (ht_value_size ht);
           out' \<leftarrow> user_write out 0 v;
           Some (ZENIT_OK, Some out')
         }
       }
     | _ \<Rightarrow> Some (ZENIT_ERROR_NULL, out_value))"

definition zenit_map_remove ::
    "'h zenit_map_t option \<Rightarrow> byte list option \<Rightarrow> (zenit_result_t \<times> 'h zenit_map_t option) option" where
  "zenit_map_remove mp key =
    (case (mp, key) of
       (Some m, Some k) \<Rightarrow> do {
         (r, ht) \<leftarrow> ht_remove (map_table m) k;
         Some (r, Some (m\<lparr>map_table := ht\<rparr>))
       }
     | _ \<Rightarrow> Some (ZENIT_ERROR_NULL, mp))"

definition zenit_map_contains :: "'h zenit_map_t option \<Rightarrow> byte list option \<Rightarrow> bool option" where
  "zenit_map_contains mp key =
    (case (mp, key) of
       (Some m, Some k) \<Rightarrow> do { (st, index) \<leftarrow> probe_slot (map_table m) k; Some (st = 1) }
     | _ \<Rightarrow> Some False)"

definition zenit_map_count :: "'h zenit_map_t option \<Rightarrow> nat" where
  "zenit_map_count mp = (case mp of None \<Rightarrow> 0 | Some m \<Rightarrow> ht_count (map_table m))"

definition zenit_map_capacity :: "'h zenit_map_t option \<Rightarrow> nat" where
  "zenit_map_capacity mp = (case mp of None \<Rightarrow> 0 | Some m \<Rightarrow> ht_capacity (map_table m))"

definition zenit_map_clear :: "'h zenit_map_t option \<Rightarrow> 'h zenit_map_t option option" where
  "zenit_map_clear mp =
    (case mp of None \<Rightarrow> Some None
     | Some m \<Rightarrow> do { ht \<leftarrow> ht_clear (map_table m); Some (Some (m\<lparr>map_table := ht\<rparr>)) })"

text \<open>Walking the OCCUPIED slots from index \<open>i\<close> on, with an action per entry.\<close>

function map_foreach_loop ::
    "zenit_table_t \<Rightarrow> (byte list \<Rightarrow> byte list \<Rightarrow> 'c \<Rightarrow> 'c) \<Rightarrow> nat \<Rightarrow> 'c \<Rightarrow> 'c option" where
  "map_foreach_loop ht visit i ctx =
    (if i < ht_capacity ht then do {
       s \<leftarrow> mem_read (ht_states ht) i 1;
       if s = [1] then do {
         k \<leftarrow> mem_read (ht_slots ht) (sz_mul i (ht_slot_size ht)) (ht_key_size ht);
         v \<leftarrow> mem_read (ht_slots ht) (sz_add (sz_mul i (ht_slot_size ht)) (ht_key_size ht))
               (ht_value_size ht);
         map_foreach_loop ht visit (i + 1) (visit k v ctx)
       } else map_foreach_loop ht visit (i + 1) ctx
     } else Some ctx)"
  by pat_completeness auto
termination
  by (relation "measure (\<lambda>(ht, visit, i, ctx). ht_capacity ht - i)") auto

declare map_foreach_loop.simps [simp del]

definition zenit_map_foreach ::
    "'h zenit_map_t option \<Rightarrow> (byte list \<Rightarrow> byte list \<Rightarrow> 'c \<Rightarrow> 'c) option \<Rightarrow> 'c \<Rightarrow> 'c option" where
  "zenit_map_foreach mp visit ctx =
    (case (mp, visit) of
       (Some m, Some f) \<Rightarrow> map_foreach_loop (map_table m) f 0 ctx
     | _ \<Rightarrow> Some ctx)"

definition zenit_map_iter :: "'h zenit_map_t option \<Rightarrow> zenit_iter_t" where
  "zenit_map_iter mp =
    \<lparr>iter_index = 0, iter_count = (case mp of None \<Rightarrow> 0 | Some m \<Rightarrow> ht_count (map_table m)),
     iter_is_valid = (mp \<noteq> None)\<rparr>"

definition zenit_map_iter_next ::
    "'h zenit_map_t \<Rightarrow> zenit_iter_t option \<Rightarrow> (nat option \<times> zenit_iter_t option) option" where
  "zenit_map_iter_next m iter =
    (case iter of None \<Rightarrow> Some (None, None)
     | Some it \<Rightarrow> if \<not> iter_is_valid it then Some (None, iter)
         else do {
           (p, i) \<leftarrow> ht_iter_scan (map_table m) (iter_index it);
           Some (p, Some (it\<lparr>iter_index := i\<rparr>))
         })"

definition zenit_map_keys :: "'h zenit_map_t option \<Rightarrow> 'h \<Rightarrow> (zenit_result_t \<times> ptr \<times> nat \<times> 'h) option" where
  "zenit_map_keys mp h =
    (case mp of None \<Rightarrow> Some (ZENIT_ERROR_NULL, None, 0, h)
     | Some m \<Rightarrow> ht_to_array (map_allocator m) (map_table m) 0 (ht_key_size (map_table m)) h)"

definition zenit_map_values :: "'h zenit_map_t option \<Rightarrow> 'h \<Rightarrow> (zenit_result_t \<times> ptr \<times> nat \<times> 'h) option" where
  "zenit_map_values mp h =
    (case mp of None \<Rightarrow> Some (ZENIT_ERROR_NULL, None, 0, h)
     | Some m \<Rightarrow> ht_to_array (map_allocator m) (map_table m) (ht_key_size (map_table m))
         (ht_value_size (map_table m)) h)"

definition zenit_map_keys_free ::
    "'h zenit_map_t option \<Rightarrow> ptr \<Rightarrow> nat \<Rightarrow> 'h \<Rightarrow> (zenit_result_t \<times> 'h) option" where
  "zenit_map_keys_free mp keys cnt h =
    (case (mp, keys) of
       (Some m, Some k) \<Rightarrow> do { h1 \<leftarrow> free_fn (map_allocator m) (Some (maddr k)) h; Some (ZENIT_OK, h1) }
     | _ \<Rightarrow> Some (ZENIT_ERROR_NULL, h))"

definition zenit_map_values_free ::
    "'h zenit_map_t option \<Rightarrow> ptr \<Rightarrow> nat \<Rightarrow> 'h \<Rightarrow> (zenit_result_t \<times> 'h) option" where
  "zenit_map_values_free mp vals cnt h =
    (case (mp, vals) of
       (Some m, Some v) \<Rightarrow> do { h1 \<leftarrow> free_fn (map_allocator m) (Some (maddr v)) h; Some (ZENIT_OK, h1) }
     | _ \<Rightarrow> Some (ZENIT_ERROR_NULL, h))"

section \<open>The table operations on finite maps\<close>

lemma ht_overwrite_ok:
  assumes wf: "ht_wf ht" and i: "i < ht_capacity ht" "ht_state ht i = 1"
    and v: "length v = ht_value_size ht"
  obtains p where
    "mem_write (ht_slots ht) (sz_add (sz_mul i (ht_slot_size ht)) (ht_key_size ht)) v = Some p"
    and "same_block (ht_slots ht) p" and "ht_wf (ht\<lparr>ht_slots := p\<rparr>)"
    and "ht_map (ht\<lparr>ht_slots := p\<rparr>) = (ht_map ht)(ht_key ht i \<mapsto> v)"
proof -
  let ?c = "ht_capacity ht" and ?ss = "ht_slot_size ht" and ?ks = "ht_key_size ht"
  let ?m = "pbytes (ht_slots ht)"
  from wf have lay: "ht_layout ht" by (simp add: ht_wf_def)
  note l = ht_layoutD [OF lay] and r = ht_entry_range [OF lay i(1)]
  have fit: "i * ?ss + ?ks + length v \<le> plen (ht_slots ht)" using r(2) l(2) v by simp
  obtain p where p: "mem_write (ht_slots ht) (i * ?ss + ?ks) v = Some p"
      "pbytes p = blit ?m (i * ?ss + ?ks) v" "same_block (ht_slots ht) p"
    using mem_write_obtain [OF r(1), of "i * ?ss + ?ks" v] fit by (auto simp: same_block_def)
  have add: "sz_add (i * ?ss) ?ks = i * ?ss + ?ks" using fit l(9) by (simp add: size_simps)
  define ht' where "ht' = ht\<lparr>ht_slots := p\<rparr>"
  have sel: "ht_capacity ht' = ?c" "ht_key_size ht' = ?ks" "ht_state ht' = ht_state ht"
    by (simp_all add: ht'_def ht_state_def fun_eq_iff)
  have "blit ?m (i * ?ss + ?ks) v = blit ?m (i * ?ss) (ht_key ht i @ v)"
  proof -
    have "blit ?m (i * ?ss) (ht_key ht i) = ?m"
      using r(2) l(2) by (simp add: blit_def ht_key_def ht_entry_def slot_def min_absorb1)
        (metis append_take_drop_id drop_drop add.commute)
    then show ?thesis using blit_append [of "i * ?ss" "ht_key ht i" v ?m] r(5) fit by simp
  qed
  then have E: "ht_entry ht' j = (if j = i then ht_key ht i @ v else ht_entry ht j)" if "j < ?c" for j
    using slot_blit [of "ht_key ht i @ v" ?ss i ?m j] r(2,5) v l(2) ht_entry_range(2) [OF lay that] p(2)
    by (simp add: ht_entry_def ht'_def)
  have K: "ht_key ht' j = ht_key ht j" and V: "ht_val ht' j = (if j = i then v else ht_val ht j)"
    if "j < ?c" for j
    using E [OF that] r(5) by (auto simp: ht_key_def ht_val_def sel)
  have view: "ht_view ht' j = ht_view ht j" if "j < ?c" for j
    using K [OF that] by (simp add: ht_view_def sel)
  have "chain_ok hash_fnv1a ?c (ht_view ht') = chain_ok hash_fnv1a ?c (ht_view ht)"
    using view by (rule chain_ok_cong)
  moreover have "ht_layout ht'" using lay p(3) by (auto simp: ht_layout_def same_block_def ht'_def)
  moreover have "ht_with ht' = ht_with ht" by (simp add: ht_with_def sel fun_eq_iff)
  ultimately have wf': "ht_wf ht'" using wf by (simp add: ht_wf_def ht'_def sel [unfolded ht'_def])
  have uniq: "j = i" if "j < ?c" "ht_state ht j = 1" "ht_key ht j = ht_key ht i" for j
  proof -
    have "ht_view ht j = SOcc (ht_key ht i)" "ht_view ht i = SOcc (ht_key ht i)"
      using that i ht_view_Occ [OF wf] by auto
    then show ?thesis using wf that(1) i(1) unfolding ht_wf_def chain_ok_def by blast
  qed
  have at: "ht_state ht' j = 1 \<and> ht_key ht' j = k \<and> ht_val ht' j = x \<longleftrightarrow>
      (if k = ht_key ht i then j = i \<and> x = v
       else ht_state ht j = 1 \<and> ht_key ht j = k \<and> ht_val ht j = x)"
    if "j < ?c" for j k x
    using K [OF that] V [OF that] uniq [OF that] i sel(3) by (cases "j = i") auto
  have "ht_map ht' k = Some x \<longleftrightarrow> (\<exists>j < ?c. if k = ht_key ht i then j = i \<and> x = v
       else ht_state ht j = 1 \<and> ht_key ht j = k \<and> ht_val ht j = x)" for k x
    unfolding ht_map_Some [OF wf'] sel(1) using at by blast
  then have "ht_map ht' k = Some x \<longleftrightarrow> (if k = ht_key ht i then x = v else ht_map ht k = Some x)" for k x
    using i(1) by (cases "k = ht_key ht i") (auto simp: ht_map_Some [OF wf])
  then have "ht_map ht' = (ht_map ht)(ht_key ht i \<mapsto> v)" by (intro map_eqI) (auto simp: fun_upd_def)
  then show thesis using p add r(3) wf' unfolding ht'_def by (intro that [of p]) simp_all
qed

text \<open>Storing a pair in a table with a free slot: it ends, and updates the represented map.\<close>

lemma map_store_ok:
  assumes wf: "ht_wf ht" and room: "ht_count ht + ht_deleted ht < ht_capacity ht"
    and k: "ht_key_size ht \<le> length key" and v: "ht_value_size ht \<le> length value"
  shows "\<exists>ht'. map_store ht key value = Some ht' \<and> ht_edit ht ht' \<and>
    ht_map ht' = (ht_map ht)(take (ht_key_size ht) key \<mapsto> take (ht_value_size ht) value)"
proof -
  let ?k = "take (ht_key_size ht) key" and ?v = "take (ht_value_size ht) value"
  obtain s i where p: "probe_slot ht key = Some (s, i)" "probe_post ht ?k s i"
    using probe_slot_ok [OF wf room k] by blast
  note q = probe_post_map [OF wf p(2)]
  have lv: "length ?v = ht_value_size ht" and lk: "length ?k = ht_key_size ht" using k v by simp_all
  show ?thesis
  proof (cases "s = 1")
    case True
    have "ht_state ht i = 1" using q(5) True by simp
    then obtain b where b: "mem_write (ht_slots ht) (sz_add (sz_mul i (ht_slot_size ht)) (ht_key_size ht)) ?v = Some b"
        "same_block (ht_slots ht) b" "ht_wf (ht\<lparr>ht_slots := b\<rparr>)"
        "ht_map (ht\<lparr>ht_slots := b\<rparr>) = (ht_map ht)(ht_key ht i \<mapsto> ?v)"
      using ht_overwrite_ok [OF wf q(4) _ lv] by blast
    have "map_store ht key value = Some (ht\<lparr>ht_slots := b\<rparr>)"
      using True p(1) v b(1) by (simp add: map_store_def user_read_def)
    then show ?thesis using b q(6) [OF True] by (simp add: ht_edit_def ht_like_def same_block_def)
  next
    case False
    then show ?thesis using ht_fill_ok [OF wf room p(2) False lk lv] p(1) k v
      by (auto simp: map_store_def user_read_def)
  qed
qed

section \<open>The map refines a finite map\<close>

definition map_ok :: "('h \<Rightarrow> nat set) \<Rightarrow> 'h zenit_map_t \<times> 'h \<Rightarrow> bool" where
  "map_ok live s \<longleftrightarrow> tbl_ok (map_allocator (fst s)) live (map_self (fst s)) (map_table (fst s)) (snd s) \<and>
    0 < ht_value_size (map_table (fst s))"

definition map_dict :: "'h zenit_map_t \<Rightarrow> byte list \<rightharpoonup> byte list" where
  "map_dict m = ht_map (map_table m)"

lemma map_insert_refines:
  assumes ok: "map_ok live (m, h)" and grow: "ht_can_grow (map_table m)"
    and k: "length k = ht_key_size (map_table m)" and v: "length v = ht_value_size (map_table m)"
  shows "\<exists>r m' h'. zenit_map_insert (Some m) (Some k) (Some v) h = Some (r, Some m', h') \<and>
    map_ok live (m', h') \<and>
    live h' = live h - ht_blocks (map_table m) \<union> ht_blocks (map_table m') \<and>
    (r = ZENIT_ERROR_ALLOC \<and> m' = m \<or> r = ZENIT_OK \<and> map_dict m' = (map_dict m)(k \<mapsto> v))"
proof -
  from ok have t: "tbl_ok (map_allocator m) live (map_self m) (map_table m) h"
    and vs: "0 < ht_value_size (map_table m)" by (simp_all add: map_ok_def)
  have store: "\<exists>t'. map_store t k v = Some t' \<and> ht_edit t t' \<and> ht_map t' = (ht_map t)(k \<mapsto> v)"
    if "ht_wf t" "ht_like (map_table m) t" "ht_count t + ht_deleted t < ht_capacity t" for t
    using map_store_ok [OF that(1,3), of k v] that(2) k v by (simp add: ht_like_def)
  show ?thesis
  proof (rule tbl_insert_cases [where store = "\<lambda>t. map_store t k v" and f = "\<lambda>d. d(k \<mapsto> v)", OF t grow store])
    fix h' assume "ht_ensure_load (map_allocator m) (map_table m) h = Some (ZENIT_ERROR_ALLOC, map_table m, h')"
      "tbl_ok (map_allocator m) live (map_self m) (map_table m) h'" "live h' = live h"
    then show ?thesis using vs tbl_okD(4) [OF t] by (auto simp: zenit_map_insert_def map_ok_def ht_owned_def)
  next
    fix t t' h' assume run: "ht_ensure_load (map_allocator m) (map_table m) h = Some (ZENIT_OK, t, h')"
      "map_store t k v = Some t'" "tbl_ok (map_allocator m) live (map_self m) t' h'" "ht_like (map_table m) t'"
      "ht_map t' = (ht_map (map_table m))(k \<mapsto> v)"
      "live h' = live h - ht_blocks (map_table m) \<union> ht_blocks t'"
    then show ?thesis using vs
      by (intro exI [of _ ZENIT_OK] exI [of _ "m\<lparr>map_table := t'\<rparr>"] exI [of _ h'])
        (simp add: zenit_map_insert_def map_ok_def map_dict_def ht_like_def)
  qed
qed

lemma map_remove_refines:
  assumes ok: "map_ok live (m, h)" and k: "length k = ht_key_size (map_table m)"
  shows "\<exists>m'. zenit_map_remove (Some m) (Some k) =
      Some (if map_dict m k = None then ZENIT_ERROR_NOT_FOUND else ZENIT_OK, Some m') \<and>
    map_ok live (m', h) \<and> map_dict m' = (map_dict m)(k := None)"
proof -
  from ok have t: "tbl_ok (map_allocator m) live (map_self m) (map_table m) h" by (simp add: map_ok_def)
  from ht_remove_ok [OF tbl_okD(2,3) [OF t], of k] k obtain ht' where
    r: "ht_remove (map_table m) k =
        Some (if map_dict m k = None then ZENIT_ERROR_NOT_FOUND else ZENIT_OK, ht')"
      "ht_edit (map_table m) ht'" "ht_map ht' = (ht_map (map_table m))(k := None)"
      "ht_count ht' + ht_deleted ht' = ht_count (map_table m) + ht_deleted (map_table m)"
    by (auto simp: map_dict_def)
  have "map_ok live (m\<lparr>map_table := ht'\<rparr>, h)"
    using ok r(2,4) tbl_ok_edit [OF t r(2)] tbl_okD(3) [OF t]
    by (simp add: map_ok_def ht_edit_def ht_like_def)
  then show ?thesis using r(1,3) by (auto simp: zenit_map_remove_def map_dict_def)
qed


definition map_fits :: "'h zenit_map_t \<times> 'h \<Rightarrow> dict_cmd \<Rightarrow> bool" where
  "map_fits s c \<longleftrightarrow> (case c of
      DInsert k v \<Rightarrow> ht_can_grow (map_table (fst s)) \<and> length k = ht_key_size (map_table (fst s)) \<and>
        length v = ht_value_size (map_table (fst s))
    | DRemove k \<Rightarrow> length k = ht_key_size (map_table (fst s)))"

definition map_insert_op ::
    "'h zenit_map_t \<times> 'h \<Rightarrow> byte list \<Rightarrow> byte list \<Rightarrow> (zenit_result_t \<times> 'h zenit_map_t \<times> 'h) option" where
  "map_insert_op s k v =
    map_option (\<lambda>(r, m, h). (r, the m, h)) (zenit_map_insert (Some (fst s)) (Some k) (Some v) (snd s))"

definition map_remove_op ::
    "'h zenit_map_t \<times> 'h \<Rightarrow> byte list \<Rightarrow> (zenit_result_t \<times> 'h zenit_map_t \<times> 'h) option" where
  "map_remove_op s k =
    map_option (\<lambda>(r, m). (r, the m, snd s)) (zenit_map_remove (Some (fst s)) (Some k))"

interpretation map_store: dict_store "map_ok live" "\<lambda>s. map_dict (fst s)" map_fits map_insert_op map_remove_op
  for live :: "'h \<Rightarrow> nat set"
proof
  fix s :: "'h zenit_map_t \<times> 'h" and k v
  assume "map_ok live s" and "map_fits s (DInsert k v)"
  then show "\<exists>r s'. map_insert_op s k v = Some (r, s') \<and> map_ok live s' \<and>
      (r = ZENIT_OK \<and> map_dict (fst s') = (map_dict (fst s))(k \<mapsto> v) \<or>
       r = ZENIT_ERROR_ALLOC \<and> map_dict (fst s') = map_dict (fst s))"
    using map_insert_refines [of live "fst s" "snd s" k v]
    by (auto simp: map_fits_def map_insert_op_def)
next
  fix s :: "'h zenit_map_t \<times> 'h" and k
  assume "map_ok live s" and "map_fits s (DRemove k)"
  then show "\<exists>s'. map_remove_op s k =
      Some (if map_dict (fst s) k = None then ZENIT_ERROR_NOT_FOUND else ZENIT_OK, s') \<and>
      map_ok live s' \<and> map_dict (fst s') = (map_dict (fst s))(k := None)"
    using map_remove_refines [of live "fst s" "snd s" k]
    by (auto simp: map_fits_def map_remove_op_def)
qed


section \<open>The life of a map\<close>

lemma map_create_cases:
  assumes c: "allocator_contract a live" and pos: "0 < ks" "0 < vs" and cap: "4 < cap" "cap \<le> 2 ^ 63"
    and sz: "round_pow2 cap * (ks + vs) < size_mod" "100 * round_pow2 cap < size_mod"
  obtains (null) h' where "zenit_map_create_with_capacity_and_allocator ks vs cap a h = Some (None, h')"
      and "live h' = live h"
  | (made) m h' where "zenit_map_create_with_capacity_and_allocator ks vs cap a h = Some (Some m, h')"
      and "map_ok live (m, h')" and "map_dict m = Map.empty"
      and "live h' - ht_blocks (map_table m) - {map_self m} = live h"
      and "map_allocator m = a"
proof (cases rule: ht_create_cases [OF c pos(1) cap sz, of sizeof_map h, case_names null made])
  case (null h')
  then show thesis using that(1) [of h'] pos cap
    by (simp add: zenit_map_create_with_capacity_and_allocator_def)
next
  case (made self ht h')
  then show thesis using that(2) [of "\<lparr>map_self = self, map_table = ht, map_allocator = a\<rparr>" h'] pos cap
    by (auto simp: zenit_map_create_with_capacity_and_allocator_def map_ok_def tbl_ok_def map_dict_def)
qed

text \<open>
  C19: creating a map is defined for every allocator that keeps its contract: it fails without a
  leak, or gives an empty map, and destroying a well-formed map releases its three blocks, each
  once.
\<close>

theorem map_lifecycle:
  assumes c: "allocator_contract a live" and pos: "0 < ks" "0 < vs" and cap: "4 < cap" "cap \<le> 2 ^ 63"
    and sz: "round_pow2 cap * (ks + vs) < size_mod" "100 * round_pow2 cap < size_mod"
  shows "\<exists>r h1. zenit_map_create_with_capacity_and_allocator ks vs cap a h = Some (r, h1) \<and>
    (\<exists>h2. zenit_map_destroy r h1 = Some h2 \<and> live h2 = live h) \<and>
    (\<forall>m. r = Some m \<longrightarrow> map_ok live (m, h1) \<and> map_dict m = Map.empty)"
proof (cases rule: map_create_cases [OF assms, of h, case_names null made])
  case (null h')
  then show ?thesis by (simp add: zenit_map_destroy_def)
next
  case (made m h')
  then show ?thesis using ht_destroy_ok [of "map_allocator m" live "map_table m" h' "map_self m"]
    by (auto simp: zenit_map_destroy_def map_ok_def dest: tbl_okD)
qed

text \<open>
  \<open>zenit_map_keys\<close> hands out an array that lists every key of the map exactly once, and the
  values come in the same order; on allocation failure nothing is handed out.
\<close>

theorem map_keys_values_list:
  assumes ok: "map_ok live (m, h)"
  shows "\<exists>r b n h1. zenit_map_keys (Some m) h = Some (r, b, n, h1) \<and>
    (r = ZENIT_ERROR_ALLOC \<and> b = None \<and> live h1 = live h \<or>
     r = ZENIT_OK \<and> n = card (dom (map_dict m)) \<and>
       distinct (slots (ht_key_size (map_table m)) (pbytes b) n) \<and>
       set (slots (ht_key_size (map_table m)) (pbytes b) n) = dom (map_dict m) \<and>
       (\<forall>vb h2 h3. zenit_map_values (Some m) h2 = Some (ZENIT_OK, vb, n, h3) \<longrightarrow>
          map (map_dict m) (slots (ht_key_size (map_table m)) (pbytes b) n) =
          map Some (slots (ht_value_size (map_table m)) (pbytes vb) n)))"
proof -
  let ?ht = "map_table m"
  from ok have wf: "ht_wf ?ht" and c: "allocator_contract (map_allocator m) live"
    and vs: "0 < ht_value_size ?ht"
    by (auto simp: map_ok_def dest: tbl_okD)
  from wf have lay: "ht_layout ?ht" by (simp add: ht_wf_def)
  note l = ht_layoutD [OF lay] and list = ht_occupied_lists_map [OF wf]
  have vals: "slots (ht_value_size ?ht) (pbytes vb) (ht_count ?ht) =
      map (ht_part ?ht (ht_key_size ?ht) (ht_value_size ?ht)) (ht_occupied ?ht 0)"
    if "zenit_map_values (Some m) h2 = Some (ZENIT_OK, vb, ht_count ?ht, h3)" "0 < ht_count ?ht" for vb h2 h3
    by (rule ht_to_array_ok [OF wf c _ vs, of "ht_key_size ?ht" h2])
      (use that l(2) in \<open>auto simp: zenit_map_values_def\<close>)
  show ?thesis
  proof (cases rule: ht_to_array_ok [OF wf c _ l(1), of 0 h, case_names part empty null made])
    case part
    then show ?case using l(2) by simp
  next
    case empty
    then have "finite (dom (map_dict m))" "card (dom (map_dict m)) = 0"
      using list(4) list(1) [symmetric] by (simp_all add: map_dict_def)
    then have "dom (map_dict m) = {}" by simp
    then show ?thesis using empty by (simp add: zenit_map_keys_def slots_def)
  next
    case (null h')
    then show ?thesis by (simp add: zenit_map_keys_def)
  next
    case (made b h')
    then show ?thesis using list vals by (auto simp: zenit_map_keys_def map_dict_def)
  qed
qed


section \<open>A small map fills up\<close>

text \<open>A new map of capacity 4, and four insertions of distinct keys.\<close>

definition small_map :: "c_heap zenit_map_t" where
  "small_map = \<lparr>map_self = 1, map_table = \<lparr>ht_slots = Some \<lparr>maddr = 2, mbytes = [0, 0, 0, 0, 0, 0, 0, 0]\<rparr>,
     ht_states = Some \<lparr>maddr = 3, mbytes = [0, 0, 0, 0]\<rparr>, ht_key_size = 1, ht_value_size = 1,
     ht_slot_size = 2, ht_capacity = 4, ht_count = 0, ht_deleted = 0\<rparr>,
     map_allocator = ZENIT_ALLOCATOR_DEFAULT\<rparr>"

definition small_map_heap :: c_heap where
  "small_map_heap = \<lparr>heap_live = [3, 2, 1], heap_script = [], heap_junk = 0\<rparr>"

lemma small_map_created:
  "zenit_map_create_with_capacity 1 1 4 \<lparr>heap_live = [], heap_script = [], heap_junk = 0\<rparr> =
   Some (Some small_map, small_map_heap)"
proof -
  have "round_pow2 4 = 4" using round_pow2_pow [of 2] by simp
  moreover have "ht_create ZENIT_ALLOCATOR_DEFAULT sizeof_map 1 1 4 \<lparr>heap_live = [], heap_script = [], heap_junk = 0\<rparr> =
      Some (Some (1, map_table small_map), small_map_heap)" by code_simp
  ultimately show ?thesis
    by (simp add: zenit_map_create_with_capacity_def zenit_map_create_with_capacity_and_allocator_def small_map_def)
qed

definition small_map_filled :: "(zenit_result_t list \<times> zenit_table_t) option" where
  "small_map_filled = do {
     (r1, m1, h1) \<leftarrow> zenit_map_insert (Some small_map) (Some [1]) (Some [10]) small_map_heap;
     (r2, m2, h2) \<leftarrow> zenit_map_insert m1 (Some [2]) (Some [20]) h1;
     (r3, m3, h3) \<leftarrow> zenit_map_insert m2 (Some [3]) (Some [30]) h2;
     (r4, m4, h4) \<leftarrow> zenit_map_insert m3 (Some [4]) (Some [40]) h3;
     Some ([r1, r2, r3, r4], map_table (the m4))
   }"

definition small_table :: zenit_table_t where
  "small_table = \<lparr>ht_slots = Some \<lparr>maddr = 2, mbytes = [1, 10, 2, 20, 3, 30, 4, 40]\<rparr>,
     ht_states = Some \<lparr>maddr = 3, mbytes = [1, 1, 1, 1]\<rparr>, ht_key_size = 1, ht_value_size = 1,
     ht_slot_size = 2, ht_capacity = 4, ht_count = 4, ht_deleted = 0\<rparr>"

lemma small_map_filled_run: "small_map_filled = Some (replicate 4 ZENIT_OK, small_table)"
  by code_simp

lemma small_table_stuck:
  assumes "k \<notin> {1, 2, 3, 4}"
  shows "ht_stuck small_table [k]"
proof -
  have "ht_layout small_table"
    by (rule ht_layoutI [of _ 2]) (simp_all add: small_table_def size_mod_def)
  moreover have "map (ht_state small_table) [0, 1, 2, 3] = [1, 1, 1, 1]"
      "map (ht_key small_table) [0, 1, 2, 3] = [[1], [2], [3], [4]]"
    by code_simp+
  then have "ht_state small_table j = 1 \<and> ht_key small_table j \<noteq> [k]" if "j < 4" for j
    using that assms by (auto simp: less_Suc_eq numeral_eq_Suc One_nat_def)
  ultimately show ?thesis by (simp add: ht_stuck_def small_table_def)
qed

text \<open>
  a map created with capacity 4 accepts four keys, because the load is checked before and not
  after an insertion; the table then has no EMPTY slot, and looking up any key that is not in the
  map never ends.
\<close>

theorem map_capacity_four_lookup_diverges:
  assumes "k \<notin> {1, 2, 3, 4}" and "map_table m = small_table"
  shows "zenit_map_create_with_capacity 1 1 4 \<lparr>heap_live = [], heap_script = [], heap_junk = 0\<rparr> =
      Some (Some small_map, small_map_heap) \<and>
    small_map_filled = Some (replicate 4 ZENIT_OK, small_table) \<and>
    zenit_map_contains (Some m) (Some [k]) = None"
  using small_map_created small_map_filled_run probe_slot_stuck [OF small_table_stuck [OF assms(1)]] assms(2)
  by (simp add: zenit_map_contains_def small_table_def)

section \<open>Concrete instances\<close>

definition demo_map :: "c_heap zenit_map_t" where
  "demo_map = \<lparr>map_self = 1, map_table = \<lparr>ht_slots = Some \<lparr>maddr = 2, mbytes = replicate 16 0\<rparr>,
     ht_states = Some \<lparr>maddr = 3, mbytes = replicate 8 0\<rparr>, ht_key_size = 1, ht_value_size = 1,
     ht_slot_size = 2, ht_capacity = 8, ht_count = 0, ht_deleted = 0\<rparr>,
     map_allocator = ZENIT_ALLOCATOR_DEFAULT\<rparr>"

definition demo_map_heap :: c_heap where
  "demo_map_heap = \<lparr>heap_live = [3, 2, 1], heap_script = [], heap_junk = 0\<rparr>"

lemma demo_map_ok: "map_ok heap_addrs (demo_map, demo_map_heap)" "map_dict demo_map = Map.empty"
proof -
  have "ht_wf (map_table demo_map)" "ht_map (map_table demo_map) = Map.empty"
    using fresh_table_wf [of "map_table demo_map" 3] by (simp_all add: demo_map_def size_mod_def)
  then show "map_ok heap_addrs (demo_map, demo_map_heap)" "map_dict demo_map = Map.empty"
    using default_contract
    by (simp_all add: map_ok_def tbl_ok_def map_dict_def ht_inv_def ht_owned_def ht_blocks_def demo_map_def
        demo_map_heap_def heap_addrs_def)
qed

theorem map_capacity_four_lookup_diverges_witness:
  "zenit_map_contains (Some (demo_map\<lparr>map_table := small_table\<rparr>)) (Some [9]) = None"
  using map_capacity_four_lookup_diverges [of 9 "demo_map\<lparr>map_table := small_table\<rparr>"] by simp

text \<open>Eight insertions with an overwrite and a removal: the table is rehashed to 16 slots.\<close>

definition demo_cmds :: "dict_cmd list" where
  "demo_cmds = [DInsert [1] [10], DInsert [2] [20], DRemove [2], DInsert [1] [11]]"

lemma demo_map_runs:
  "\<not> Option.is_none (run_dict map_fits map_insert_op map_remove_op (demo_map, demo_map_heap) demo_cmds)"
  by code_simp



theorem map_keys_values_list_witness:
  "\<exists>r b n h1. zenit_map_keys (Some demo_map) demo_map_heap = Some (r, b, n, h1) \<and> (r = ZENIT_OK \<longrightarrow> n = 0)"
  using map_keys_values_list [OF demo_map_ok(1)] demo_map_ok(2) by fastforce

theorem map_lifecycle_witness:
  "\<exists>r h1. zenit_map_create_with_capacity_and_allocator 1 1 16 ZENIT_ALLOCATOR_DEFAULT demo_map_heap = Some (r, h1) \<and>
    (\<exists>h2. zenit_map_destroy r h1 = Some h2 \<and> heap_addrs h2 = heap_addrs demo_map_heap)"
proof -
  have "round_pow2 16 = 16" using round_pow2_pow [of 4] by simp
  then show ?thesis using map_lifecycle [OF default_contract, of 1 1 16 demo_map_heap] by (fastforce simp: size_mod_def)
qed

end
