(* ===== verification/Zenit_Set.thy ===== *)
theory Zenit_Set
  imports Zenit_Table Zenit_Interfaces
begin

text \<open>
  The hash set (\<open>include/libzenit/set.h\<close>, \<open>src/set.c\<close>) over the table of \<open>Zenit_Hash\<close>, with entries that
  have no value part: it refines a finite set of keys.
\<close>

section \<open>State and operations\<close>

record 'h zenit_set_t =
  set_self :: nat
  set_table :: zenit_table_t
  set_allocator :: "'h zenit_allocator_t"

definition sizeof_set :: nat where
  "sizeof_set = 88"

definition zenit_set_create_with_capacity_and_allocator ::
    "nat \<Rightarrow> nat \<Rightarrow> 'h zenit_allocator_t \<Rightarrow> 'h \<Rightarrow> ('h zenit_set_t option \<times> 'h) option" where
  "zenit_set_create_with_capacity_and_allocator key_size capacity a h =
    (if key_size = 0 \<or> capacity = 0 then Some (None, h)
     else do {
       (r, h') \<leftarrow> ht_create a sizeof_set key_size 0 (round_pow2 capacity) h;
       Some (case r of None \<Rightarrow> (None, h')
         | Some (self, ht) \<Rightarrow>
             (Some \<lparr>set_self = self, set_table = ht, set_allocator = a\<rparr>, h'))
     })"

definition zenit_set_create_with_allocator ::
    "nat \<Rightarrow> 'h zenit_allocator_t \<Rightarrow> 'h \<Rightarrow> ('h zenit_set_t option \<times> 'h) option" where
  "zenit_set_create_with_allocator key_size a =
    zenit_set_create_with_capacity_and_allocator key_size 16 a"

definition zenit_set_create_with_capacity ::
    "nat \<Rightarrow> nat \<Rightarrow> c_heap \<Rightarrow> (c_heap zenit_set_t option \<times> c_heap) option" where
  "zenit_set_create_with_capacity key_size capacity =
    zenit_set_create_with_capacity_and_allocator key_size capacity ZENIT_ALLOCATOR_DEFAULT"

definition zenit_set_create :: "nat \<Rightarrow> c_heap \<Rightarrow> (c_heap zenit_set_t option \<times> c_heap) option" where
  "zenit_set_create key_size = zenit_set_create_with_capacity key_size 16"

definition zenit_set_destroy :: "'h zenit_set_t option \<Rightarrow> 'h \<Rightarrow> 'h option" where
  "zenit_set_destroy sp h =
    (case sp of None \<Rightarrow> Some h
     | Some s \<Rightarrow> ht_destroy (set_allocator s) (set_self s) (set_table s) h)"

text \<open>The part of an insertion after the load check: a key that is present is left alone.\<close>

definition set_store :: "zenit_table_t \<Rightarrow> byte list \<Rightarrow> zenit_table_t option" where
  "set_store ht key = do {
     (st, index) \<leftarrow> probe_slot ht key;
     if st = 1 then Some ht
     else do {
       k \<leftarrow> user_read key (ht_key_size ht);
       ht_fill ht st index k []
     }
   }"

definition zenit_set_insert ::
    "'h zenit_set_t option \<Rightarrow> byte list option \<Rightarrow> 'h \<Rightarrow>
     (zenit_result_t \<times> 'h zenit_set_t option \<times> 'h) option" where
  "zenit_set_insert sp key h =
    (case (sp, key) of
       (Some s, Some k) \<Rightarrow> do {
         (lr, ht, h1) \<leftarrow> ht_ensure_load (set_allocator s) (set_table s) h;
         if lr \<noteq> ZENIT_OK then Some (lr, Some (s\<lparr>set_table := ht\<rparr>), h1)
         else do {
           ht1 \<leftarrow> set_store ht k;
           Some (ZENIT_OK, Some (s\<lparr>set_table := ht1\<rparr>), h1)
         }
       }
     | _ \<Rightarrow> Some (ZENIT_ERROR_NULL, sp, h))"

definition zenit_set_remove ::
    "'h zenit_set_t option \<Rightarrow> byte list option \<Rightarrow> (zenit_result_t \<times> 'h zenit_set_t option) option" where
  "zenit_set_remove sp key =
    (case (sp, key) of
       (Some s, Some k) \<Rightarrow> do {
         (r, ht) \<leftarrow> ht_remove (set_table s) k;
         Some (r, Some (s\<lparr>set_table := ht\<rparr>))
       }
     | _ \<Rightarrow> Some (ZENIT_ERROR_NULL, sp))"

definition zenit_set_contains :: "'h zenit_set_t option \<Rightarrow> byte list option \<Rightarrow> bool option" where
  "zenit_set_contains sp key =
    (case (sp, key) of
       (Some s, Some k) \<Rightarrow> do { (st, index) \<leftarrow> probe_slot (set_table s) k; Some (st = 1) }
     | _ \<Rightarrow> Some False)"

definition zenit_set_count :: "'h zenit_set_t option \<Rightarrow> nat" where
  "zenit_set_count sp = (case sp of None \<Rightarrow> 0 | Some s \<Rightarrow> ht_count (set_table s))"

definition zenit_set_capacity :: "'h zenit_set_t option \<Rightarrow> nat" where
  "zenit_set_capacity sp = (case sp of None \<Rightarrow> 0 | Some s \<Rightarrow> ht_capacity (set_table s))"

definition zenit_set_clear :: "'h zenit_set_t option \<Rightarrow> 'h zenit_set_t option option" where
  "zenit_set_clear sp =
    (case sp of None \<Rightarrow> Some None
     | Some s \<Rightarrow> do { ht \<leftarrow> ht_clear (set_table s); Some (Some (s\<lparr>set_table := ht\<rparr>)) })"

function set_foreach_loop :: "zenit_table_t \<Rightarrow> (byte list \<Rightarrow> 'c \<Rightarrow> 'c) \<Rightarrow> nat \<Rightarrow> 'c \<Rightarrow> 'c option" where
  "set_foreach_loop ht visit i ctx =
    (if i < ht_capacity ht then do {
       s \<leftarrow> mem_read (ht_states ht) i 1;
       if s = [1] then do {
         k \<leftarrow> mem_read (ht_slots ht) (sz_mul i (ht_slot_size ht)) (ht_key_size ht);
         set_foreach_loop ht visit (i + 1) (visit k ctx)
       } else set_foreach_loop ht visit (i + 1) ctx
     } else Some ctx)"
  by pat_completeness auto
termination
  by (relation "measure (\<lambda>(ht, visit, i, ctx). ht_capacity ht - i)") auto

declare set_foreach_loop.simps [simp del]

definition zenit_set_foreach ::
    "'h zenit_set_t option \<Rightarrow> (byte list \<Rightarrow> 'c \<Rightarrow> 'c) option \<Rightarrow> 'c \<Rightarrow> 'c option" where
  "zenit_set_foreach sp visit ctx =
    (case (sp, visit) of
       (Some s, Some f) \<Rightarrow> set_foreach_loop (set_table s) f 0 ctx
     | _ \<Rightarrow> Some ctx)"

definition zenit_set_iter :: "'h zenit_set_t option \<Rightarrow> zenit_iter_t" where
  "zenit_set_iter sp =
    \<lparr>iter_index = 0, iter_count = (case sp of None \<Rightarrow> 0 | Some s \<Rightarrow> ht_count (set_table s)),
     iter_is_valid = (sp \<noteq> None)\<rparr>"

definition zenit_set_iter_next ::
    "'h zenit_set_t \<Rightarrow> zenit_iter_t option \<Rightarrow> (nat option \<times> zenit_iter_t option) option" where
  "zenit_set_iter_next s iter =
    (case iter of None \<Rightarrow> Some (None, None)
     | Some it \<Rightarrow> if \<not> iter_is_valid it then Some (None, iter)
         else do {
           (p, i) \<leftarrow> ht_iter_scan (set_table s) (iter_index it);
           Some (p, Some (it\<lparr>iter_index := i\<rparr>))
         })"

definition zenit_set_to_array :: "'h zenit_set_t option \<Rightarrow> 'h \<Rightarrow> (zenit_result_t \<times> ptr \<times> nat \<times> 'h) option" where
  "zenit_set_to_array sp h =
    (case sp of None \<Rightarrow> Some (ZENIT_ERROR_NULL, None, 0, h)
     | Some s \<Rightarrow> ht_to_array (set_allocator s) (set_table s) 0 (ht_key_size (set_table s)) h)"

definition zenit_set_to_array_free ::
    "'h zenit_set_t option \<Rightarrow> ptr \<Rightarrow> nat \<Rightarrow> 'h \<Rightarrow> (zenit_result_t \<times> 'h) option" where
  "zenit_set_to_array_free sp keys cnt h =
    (case (sp, keys) of
       (Some s, Some k) \<Rightarrow> do { h1 \<leftarrow> free_fn (set_allocator s) (Some (maddr k)) h; Some (ZENIT_OK, h1) }
     | _ \<Rightarrow> Some (ZENIT_ERROR_NULL, h))"

section \<open>The set refines a finite set\<close>

definition set_ok :: "('h \<Rightarrow> nat set) \<Rightarrow> 'h zenit_set_t \<times> 'h \<Rightarrow> bool" where
  "set_ok live s \<longleftrightarrow> tbl_ok (set_allocator (fst s)) live (set_self (fst s)) (set_table (fst s)) (snd s) \<and>
    ht_value_size (set_table (fst s)) = 0"

definition set_dict :: "'h zenit_set_t \<Rightarrow> byte list \<rightharpoonup> byte list" where
  "set_dict s = ht_map (set_table s)"

definition set_elems :: "'h zenit_set_t \<Rightarrow> byte list set" where
  "set_elems s = dom (ht_map (set_table s))"

lemma set_store_ok:
  assumes wf: "ht_wf ht" and room: "ht_count ht + ht_deleted ht < ht_capacity ht"
    and k: "length k = ht_key_size ht" and v: "ht_value_size ht = 0"
  shows "\<exists>ht'. set_store ht k = Some ht' \<and> ht_edit ht ht' \<and> ht_map ht' = (ht_map ht)(k \<mapsto> [])"
proof -
  obtain s i where p: "probe_slot ht k = Some (s, i)" "probe_post ht k s i"
    using probe_slot_ok [OF wf room, of k] k by auto
  note q = probe_post_map [OF wf p(2)]
  show ?thesis
  proof (cases "s = 1")
    case True
    have "ht_layout ht" using wf by (simp add: ht_wf_def)
    then have "ht_val ht i = []" using ht_entry_range(4) [OF _ q(4)] ht_layoutD(2) v by (simp add: ht_val_def)
    then have "ht_map ht = (ht_map ht)(k \<mapsto> [])" using q(1) [OF True] by (simp add: map_upd_triv)
    then show ?thesis using True p(1) ht_edit_refl [OF wf] by (simp add: set_store_def)
  next
    case False
    then show ?thesis using ht_fill_ok [OF wf room p(2) False k, of "[]"] p(1) k v
      by (simp add: set_store_def user_read_def)
  qed
qed

lemma set_insert_refines:
  assumes ok: "set_ok live (s, h)" and grow: "ht_can_grow (set_table s)"
    and k: "length k = ht_key_size (set_table s)"
  shows "\<exists>r s' h'. zenit_set_insert (Some s) (Some k) h = Some (r, Some s', h') \<and>
    set_ok live (s', h') \<and>
    live h' = live h - ht_blocks (set_table s) \<union> ht_blocks (set_table s') \<and>
    (r = ZENIT_ERROR_ALLOC \<and> s' = s \<or> r = ZENIT_OK \<and> set_dict s' = (set_dict s)(k \<mapsto> []))"
proof -
  from ok have t: "tbl_ok (set_allocator s) live (set_self s) (set_table s) h"
    and vs: "ht_value_size (set_table s) = 0" by (simp_all add: set_ok_def)
  have store: "\<exists>t'. set_store t k = Some t' \<and> ht_edit t t' \<and> ht_map t' = (ht_map t)(k \<mapsto> [])"
    if "ht_wf t" "ht_like (set_table s) t" "ht_count t + ht_deleted t < ht_capacity t" for t
    using set_store_ok [OF that(1,3), of k] that(2) k vs by (simp add: ht_like_def)
  show ?thesis
  proof (rule tbl_insert_cases [where store = "\<lambda>t. set_store t k" and f = "\<lambda>d. d(k \<mapsto> [])", OF t grow store])
    fix h' assume "ht_ensure_load (set_allocator s) (set_table s) h = Some (ZENIT_ERROR_ALLOC, set_table s, h')"
      "tbl_ok (set_allocator s) live (set_self s) (set_table s) h'" "live h' = live h"
    then show ?thesis using vs tbl_okD(4) [OF t] by (auto simp: zenit_set_insert_def set_ok_def ht_owned_def)
  next
    fix t t' h' assume run: "ht_ensure_load (set_allocator s) (set_table s) h = Some (ZENIT_OK, t, h')"
      "set_store t k = Some t'" "tbl_ok (set_allocator s) live (set_self s) t' h'" "ht_like (set_table s) t'"
      "ht_map t' = (ht_map (set_table s))(k \<mapsto> [])"
      "live h' = live h - ht_blocks (set_table s) \<union> ht_blocks t'"
    then show ?thesis using vs
      by (intro exI [of _ ZENIT_OK] exI [of _ "s\<lparr>set_table := t'\<rparr>"] exI [of _ h'])
        (simp add: zenit_set_insert_def set_ok_def set_dict_def ht_like_def)
  qed
qed

lemma set_remove_refines:
  assumes ok: "set_ok live (s, h)" and k: "length k = ht_key_size (set_table s)"
  shows "\<exists>s'. zenit_set_remove (Some s) (Some k) =
      Some (if set_dict s k = None then ZENIT_ERROR_NOT_FOUND else ZENIT_OK, Some s') \<and>
    set_ok live (s', h) \<and> set_dict s' = (set_dict s)(k := None)"
proof -
  from ok have t: "tbl_ok (set_allocator s) live (set_self s) (set_table s) h" by (simp add: set_ok_def)
  from ht_remove_ok [OF tbl_okD(2,3) [OF t], of k] k obtain ht' where
    r: "ht_remove (set_table s) k =
        Some (if set_dict s k = None then ZENIT_ERROR_NOT_FOUND else ZENIT_OK, ht')"
      "ht_edit (set_table s) ht'" "ht_map ht' = (ht_map (set_table s))(k := None)"
      "ht_count ht' + ht_deleted ht' = ht_count (set_table s) + ht_deleted (set_table s)"
    by (auto simp: set_dict_def)
  have "set_ok live (s\<lparr>set_table := ht'\<rparr>, h)"
    using ok r(2,4) tbl_ok_edit [OF t r(2)] tbl_okD(3) [OF t]
    by (simp add: set_ok_def ht_edit_def ht_like_def)
  then show ?thesis using r(1,3) by (auto simp: zenit_set_remove_def set_dict_def)
qed

lemma set_contains_refines:
  assumes ok: "set_ok live (s, h)" and k: "length k = ht_key_size (set_table s)"
  shows "zenit_set_contains (Some s) (Some k) = Some (k \<in> set_elems s)"
proof -
  from ok have t: "tbl_ok (set_allocator s) live (set_self s) (set_table s) h" by (simp add: set_ok_def)
  obtain st i where p: "probe_slot (set_table s) k = Some (st, i)" "probe_post (set_table s) k st i"
    using probe_slot_ok [OF tbl_okD(2,3) [OF t], of k] k by auto
  show ?thesis using p(1) probe_post_map(1,2) [OF tbl_okD(2) [OF t] p(2)]
    by (cases "st = 1") (auto simp: zenit_set_contains_def set_elems_def)
qed

definition set_fits :: "'h zenit_set_t \<times> 'h \<Rightarrow> dict_cmd \<Rightarrow> bool" where
  "set_fits s c \<longleftrightarrow> (case c of
      DInsert k v \<Rightarrow> ht_can_grow (set_table (fst s)) \<and> length k = ht_key_size (set_table (fst s)) \<and> v = []
    | DRemove k \<Rightarrow> length k = ht_key_size (set_table (fst s)))"

definition set_insert_op ::
    "'h zenit_set_t \<times> 'h \<Rightarrow> byte list \<Rightarrow> byte list \<Rightarrow> (zenit_result_t \<times> 'h zenit_set_t \<times> 'h) option" where
  "set_insert_op s k v =
    map_option (\<lambda>(r, m, h). (r, the m, h)) (zenit_set_insert (Some (fst s)) (Some k) (snd s))"

definition set_remove_op ::
    "'h zenit_set_t \<times> 'h \<Rightarrow> byte list \<Rightarrow> (zenit_result_t \<times> 'h zenit_set_t \<times> 'h) option" where
  "set_remove_op s k =
    map_option (\<lambda>(r, m). (r, the m, snd s)) (zenit_set_remove (Some (fst s)) (Some k))"

interpretation set_dict_store: dict_store "set_ok live" "\<lambda>s. set_dict (fst s)" set_fits set_insert_op set_remove_op
  for live :: "'h \<Rightarrow> nat set"
proof
  fix s :: "'h zenit_set_t \<times> 'h" and k v
  assume "set_ok live s" and "set_fits s (DInsert k v)"
  then show "\<exists>r s'. set_insert_op s k v = Some (r, s') \<and> set_ok live s' \<and>
      (r = ZENIT_OK \<and> set_dict (fst s') = (set_dict (fst s))(k \<mapsto> v) \<or>
       r = ZENIT_ERROR_ALLOC \<and> set_dict (fst s') = set_dict (fst s))"
    using set_insert_refines [of live "fst s" "snd s" k]
    by (auto simp: set_fits_def set_insert_op_def)
next
  fix s :: "'h zenit_set_t \<times> 'h" and k
  assume "set_ok live s" and "set_fits s (DRemove k)"
  then show "\<exists>s'. set_remove_op s k =
      Some (if set_dict (fst s) k = None then ZENIT_ERROR_NOT_FOUND else ZENIT_OK, s') \<and>
      set_ok live s' \<and> set_dict (fst s') = (set_dict (fst s))(k := None)"
    using set_remove_refines [of live "fst s" "snd s" k]
    by (auto simp: set_fits_def set_remove_op_def)
qed

fun set_effect :: "dict_cmd \<Rightarrow> byte list set \<Rightarrow> byte list set" where
  "set_effect (DInsert k v) A = insert k A"
| "set_effect (DRemove k) A = A - {k}"

lemma dom_dict_effect: "dom (dict_effect c d) = set_effect c (dom d)"
  by (cases c) auto

lemma dom_dict_effects: "dom (fold dict_effect cs d) = fold set_effect cs (dom d)"
  by (induction cs arbitrary: d) (simp_all add: dom_dict_effect)


section \<open>Concrete instances\<close>

definition demo_set :: "c_heap zenit_set_t" where
  "demo_set = \<lparr>set_self = 1, set_table = \<lparr>ht_slots = Some \<lparr>maddr = 2, mbytes = replicate 8 0\<rparr>,
     ht_states = Some \<lparr>maddr = 3, mbytes = replicate 8 0\<rparr>, ht_key_size = 1, ht_value_size = 0,
     ht_slot_size = 1, ht_capacity = 8, ht_count = 0, ht_deleted = 0\<rparr>,
     set_allocator = ZENIT_ALLOCATOR_DEFAULT\<rparr>"

definition demo_set_heap :: c_heap where
  "demo_set_heap = \<lparr>heap_live = [3, 2, 1], heap_script = [], heap_junk = 0\<rparr>"

lemma demo_set_ok: "set_ok heap_addrs (demo_set, demo_set_heap)" "set_elems demo_set = {}"
proof -
  have "ht_wf (set_table demo_set)" "ht_map (set_table demo_set) = Map.empty"
    using fresh_table_wf [of "set_table demo_set" 3] by (simp_all add: demo_set_def size_mod_def)
  then show "set_ok heap_addrs (demo_set, demo_set_heap)" "set_elems demo_set = {}"
    using default_contract
    by (simp_all add: set_ok_def tbl_ok_def set_elems_def ht_inv_def ht_owned_def ht_blocks_def demo_set_def
        demo_set_heap_def heap_addrs_def)
qed

definition demo_set_cmds :: "dict_cmd list" where
  "demo_set_cmds = [DInsert [1] [], DInsert [2] [], DInsert [1] [], DRemove [2]]"

lemma demo_set_runs:
  "case run_dict set_fits set_insert_op set_remove_op (demo_set, demo_set_heap) demo_set_cmds of
     None \<Rightarrow> False | Some s \<Rightarrow> ht_key_size (set_table (fst s)) = 1"
  by code_simp


end
