(* ===== verification/Zenit_CString.thy ===== *)
theory Zenit_CString
  imports Zenit_Allocator
begin

text \<open>
  C strings and byte buffers as the text modules use them. A \<open>const char *\<close> is the list of its bytes
  before the terminating NUL: reading at the end gives the NUL, reading further is undefined
  (\<open>None\<close>). Text that a function builds goes into an allocated block, byte by byte.
\<close>

section \<open>Reading\<close>

type_synonym c_str = "byte list"

definition c_string :: "c_str \<Rightarrow> bool" where
  "c_string s \<longleftrightarrow> 0 \<notin> set s"

definition str_at :: "c_str \<Rightarrow> nat \<Rightarrow> byte option" where
  "str_at s i = (if i < length s then Some (s ! i) else if i = length s then Some 0 else None)"

definition user_at :: "byte list \<Rightarrow> nat \<Rightarrow> byte option" where
  "user_at d i = (if i < length d then Some (d ! i) else None)"

text \<open>The value of a \<open>char\<close> in comparisons: it is signed.\<close>

definition char_val :: "byte \<Rightarrow> int" where
  "char_val c = sint c"

definition in_range :: "byte \<Rightarrow> byte \<Rightarrow> byte \<Rightarrow> bool" where
  "in_range lo hi c \<longleftrightarrow> char_val lo \<le> char_val c \<and> char_val c \<le> char_val hi"

text \<open>The string a block holds.\<close>

definition block_str :: "mblock \<Rightarrow> c_str" where
  "block_str b = takeWhile (\<lambda>c. c \<noteq> 0) (mbytes b)"

lemma str_at_in [simp]: "i < length s \<Longrightarrow> str_at s i = Some (s ! i)"
  by (simp add: str_at_def)

lemma str_at_end [simp]: "str_at s (length s) = Some 0"
  by (simp add: str_at_def)

lemma user_at_in [simp]: "i < length d \<Longrightarrow> user_at d i = Some (d ! i)"
  by (simp add: user_at_def)

lemma c_string_nth: "c_string s \<Longrightarrow> i < length s \<Longrightarrow> s ! i \<noteq> 0"
  by (auto simp: c_string_def in_set_conv_nth)

lemma c_string_append [simp]: "c_string (a @ b) \<longleftrightarrow> c_string a \<and> c_string b"
  by (auto simp: c_string_def)

lemma c_string_Nil [simp]: "c_string []"
  by (simp add: c_string_def)

lemma c_string_Cons [simp]: "c_string (x # s) \<longleftrightarrow> x \<noteq> 0 \<and> c_string s"
  by (auto simp: c_string_def)

lemma block_str_terminated:
  assumes "c_string s" and "mbytes b = s @ 0 # rest"
  shows "block_str b = s"
proof -
  have "takeWhile (\<lambda>c. c \<noteq> 0) (s @ 0 # rest) = s @ takeWhile (\<lambda>c. c \<noteq> 0) (0 # rest)"
    by (rule takeWhile_append2) (use assms(1) in \<open>auto simp: c_string_def\<close>)
  then show ?thesis using assms(2) by (simp add: block_str_def)
qed

section \<open>Writing text\<close>

text \<open>
  A loop emits the text \<open>t\<close> at position \<open>o\<close> of a block: the block is the same, with \<open>t\<close> laid over
  its bytes.
\<close>

definition emitted :: "ptr \<Rightarrow> nat \<Rightarrow> byte list \<Rightarrow> ptr \<Rightarrow> bool" where
  "emitted p off t q \<longleftrightarrow> same_block p q \<and> pbytes q = blit (pbytes p) off t"

lemma emitted_Nil: "p \<noteq> None \<Longrightarrow> emitted p off [] p"
  by (simp add: emitted_def same_block_def)

lemma emitted_trans:
  assumes "emitted p off a q" and "emitted q (off + length a) b r"
    and "off + length a + length b \<le> plen p"
  shows "emitted p off (a @ b) r"
  using assms blit_append [of off a b "pbytes p"] by (auto simp: emitted_def same_block_def)

lemma write_emits:
  assumes "p \<noteq> None" and "off + length t \<le> plen p"
  obtains q where "mem_write p off t = Some q" and "emitted p off t q"
  using mem_write_obtain [OF assms] by (auto simp: emitted_def same_block_def)

lemma emitted_plen: "emitted p off t q \<Longrightarrow> plen q = plen p"
  and emitted_addr: "emitted p off t q \<Longrightarrow> paddr q = paddr p"
  by (auto simp: emitted_def same_block_def)

lemma emitted_not_None: "emitted p off t q \<Longrightarrow> p \<noteq> None \<Longrightarrow> q \<noteq> None"
  by (cases p; cases q) (auto simp: emitted_def same_block_def)

text \<open>Terminating the text makes it the string of the block.\<close>

lemma emitted_terminate:
  assumes e: "emitted (Some b) 0 t q" and t: "c_string t" and fit: "length t < length (mbytes b)"
  obtains b' where "mem_write q (length t) [0] = Some (Some b')" and "block_str b' = t" and "maddr b' = maddr b"
proof -
  have q: "plen q = length (mbytes b)" "q \<noteq> None" using emitted_plen [OF e] emitted_not_None [OF e] by simp_all
  obtain r where r: "mem_write q (length t) [0] = Some r" "emitted q (length t) [0] r"
    using write_emits [of q "length t" "[0]"] q fit by auto
  have e': "emitted (Some b) 0 (t @ [0]) r" by (rule emitted_trans [OF e]) (use r fit in simp_all)
  then obtain b' where b': "r = Some b'" "maddr b' = maddr b"
    by (cases r) (auto simp: emitted_def same_block_def)
  have "mbytes b' = t @ 0 # drop (Suc (length t)) (mbytes b)" using e' b'(1) by (simp add: emitted_def blit_def)
  then show thesis using that [of b'] r(1) b' block_str_terminated [OF t] by simp
qed

end
