(* ===== verification/Zenit_Hex.thy ===== *)
theory Zenit_Hex
  imports Zenit_CString
begin

unbundle bit_operations_syntax

text \<open>
  Hexadecimal encoding (\<open>src/hex.c\<close>). Both directions are modelled down to the bytes they write into
  the block they allocate; ASCII codes are written as numbers (48 is \<open>'0'\<close>, 97 is \<open>'a'\<close>, 65 is \<open>'A'\<close>).
\<close>

section \<open>Operations\<close>

definition nibble_to_hex :: "byte \<Rightarrow> byte" where
  "nibble_to_hex n = (let m = n AND 0x0F in if m < 10 then 48 + m else 97 + m - 10)"

definition hex_to_nibble :: "byte \<Rightarrow> byte" where
  "hex_to_nibble c =
    (if in_range 48 57 c then c - 48
     else if in_range 97 102 c then c - 97 + 10
     else if in_range 65 70 c then c - 65 + 10
     else 0xFF)"

definition zenit_hex_encode_len :: "nat \<Rightarrow> nat" where
  "zenit_hex_encode_len data_len = sz_add (sz_mul data_len 2) 1"

definition zenit_hex_decode_len :: "c_str option \<Rightarrow> nat" where
  "zenit_hex_decode_len hex = (case hex of None \<Rightarrow> 0 | Some s \<Rightarrow> sz_add (length s) 1 div 2)"

function hex_encode_loop :: "byte list \<Rightarrow> nat \<Rightarrow> nat \<Rightarrow> ptr \<Rightarrow> ptr option" where
  "hex_encode_loop data len i out =
    (if i < len then do {
       d \<leftarrow> user_at data i;
       out1 \<leftarrow> mem_write out (sz_mul i 2) [nibble_to_hex (drop_bit 4 d)];
       out2 \<leftarrow> mem_write out1 (sz_add (sz_mul i 2) 1) [nibble_to_hex (d AND 0x0F)];
       hex_encode_loop data len (i + 1) out2
     } else Some out)"
  by pat_completeness auto
termination
  by (relation "measure (\<lambda>(data, len, i, out). len - i)") auto

declare hex_encode_loop.simps [simp del]

definition hex_encode_impl ::
    "byte list option \<Rightarrow> nat \<Rightarrow> 'h zenit_allocator_t \<Rightarrow> 'h \<Rightarrow> (ptr \<times> 'h) option" where
  "hex_encode_impl data len a h =
    (if data = None \<and> 0 < len then Some (None, h)
     else case alloc_fn a (zenit_hex_encode_len len) h of
       (None, h1) \<Rightarrow> Some (None, h1)
     | (Some b, h1) \<Rightarrow> do {
         out \<leftarrow> hex_encode_loop (case data of None \<Rightarrow> [] | Some d \<Rightarrow> d) len 0 (Some b);
         out' \<leftarrow> mem_write out (sz_mul len 2) [0];
         Some (out', h1)
       })"

text \<open>The loop of \<open>decode_impl\<close>: \<open>Some None\<close> stands for a character that is no hexadecimal digit.\<close>

function hex_decode_loop :: "c_str \<Rightarrow> nat \<Rightarrow> nat \<Rightarrow> nat \<Rightarrow> ptr \<Rightarrow> ptr option option" where
  "hex_decode_loop hex len i out_idx out =
    (if i < len then do {
       c \<leftarrow> str_at hex i;
       c' \<leftarrow> str_at hex (i + 1);
       let hi = hex_to_nibble c;
       let lo = hex_to_nibble c';
       if hi = 0xFF \<or> lo = 0xFF then Some None
       else do {
         out' \<leftarrow> mem_write out out_idx [push_bit 4 hi OR lo];
         hex_decode_loop hex len (i + 2) (sz_add out_idx 1) out'
       }
     } else Some (Some out))"
  by pat_completeness auto
termination
  by (relation "measure (\<lambda>(hex, len, i, out_idx, out). len - i)") auto

declare hex_decode_loop.simps [simp del]

text \<open>Returns the block and the length written to \<open>out_len\<close>, which is left alone on failure.\<close>

definition hex_decode_impl ::
    "c_str option \<Rightarrow> nat option \<Rightarrow> 'h zenit_allocator_t \<Rightarrow> 'h \<Rightarrow> (ptr \<times> nat option \<times> 'h) option" where
  "hex_decode_impl hexp out_len a h =
    (case (hexp, out_len) of
       (Some hex, Some _) \<Rightarrow>
         let len = length hex in
         if len = 0 then
           (case alloc_fn a 1 h of
              (None, h1) \<Rightarrow> Some (None, Some 0, h1)
            | (Some b, h1) \<Rightarrow> do { out \<leftarrow> mem_write (Some b) 0 [0]; Some (out, Some 0, h1) })
         else
           let decoded_len = sz_add len 1 div 2 in
           (case alloc_fn a decoded_len h of
              (None, h1) \<Rightarrow> Some (None, out_len, h1)
            | (Some b, h1) \<Rightarrow>
                let fail = do { h2 \<leftarrow> free_fn a (Some (maddr b)) h1; Some (None, out_len, h2) } in
                if len mod 2 \<noteq> 0 then do {
                  c \<leftarrow> str_at hex 0;
                  let n = hex_to_nibble c;
                  if n = 0xFF then fail
                  else do {
                    out \<leftarrow> mem_write (Some b) 0 [n];
                    r \<leftarrow> hex_decode_loop hex len 1 1 out;
                    case r of None \<Rightarrow> fail | Some out' \<Rightarrow> Some (out', Some decoded_len, h1)
                  }
                } else do {
                  r \<leftarrow> hex_decode_loop hex len 0 0 (Some b);
                  case r of None \<Rightarrow> fail | Some out' \<Rightarrow> Some (out', Some decoded_len, h1)
                })
     | _ \<Rightarrow> Some (None, out_len, h))"

definition zenit_hex_encode_with_allocator ::
    "byte list option \<Rightarrow> nat \<Rightarrow> 'h zenit_allocator_t \<Rightarrow> 'h \<Rightarrow> (ptr \<times> 'h) option" where
  "zenit_hex_encode_with_allocator data len a = hex_encode_impl data len a"

definition zenit_hex_encode :: "byte list option \<Rightarrow> nat \<Rightarrow> c_heap \<Rightarrow> (ptr \<times> c_heap) option" where
  "zenit_hex_encode data len = zenit_hex_encode_with_allocator data len ZENIT_ALLOCATOR_DEFAULT"

definition zenit_hex_decode_with_allocator ::
    "c_str option \<Rightarrow> nat option \<Rightarrow> 'h zenit_allocator_t \<Rightarrow> 'h \<Rightarrow> (ptr \<times> nat option \<times> 'h) option" where
  "zenit_hex_decode_with_allocator hexp out_len a = hex_decode_impl hexp out_len a"

definition zenit_hex_decode ::
    "c_str option \<Rightarrow> nat option \<Rightarrow> c_heap \<Rightarrow> (ptr \<times> nat option \<times> c_heap) option" where
  "zenit_hex_decode hexp out_len = zenit_hex_decode_with_allocator hexp out_len ZENIT_ALLOCATOR_DEFAULT"

section \<open>Digits\<close>

lemma nibble_cases:
  fixes n :: byte
  assumes "n < 16"
  shows "n \<in> set (map of_nat [0..<16])"
proof -
  have "n = of_nat (unat n)" by simp
  moreover have "unat n < 16" using assms by (simp add: word_less_nat_alt)
  ultimately show ?thesis unfolding set_map by (intro image_eqI) simp_all
qed

lemma hex_digits: "list_all (\<lambda>n. hex_to_nibble (nibble_to_hex n) = n \<and> nibble_to_hex n \<noteq> 0) (map of_nat [0..<16])"
  by code_simp

lemma nibble_roundtrip:
  assumes "n < 16"
  shows "hex_to_nibble (nibble_to_hex n) = n" and "nibble_to_hex n \<noteq> 0"
  using nibble_cases [OF assms] hex_digits by (simp_all only: list_all_iff) blast+

lemma nibble_lt: "(b::byte) AND 0x0F < 16"
  using word_and_le1 [of b "0x0F"] by (simp add: word_le_nat_alt word_less_nat_alt)

lemma nibble_high_lt: "drop_bit 4 (b::byte) < 16"
proof -
  have "unat b < 2 ^ LENGTH(8)" by (rule unsigned_less)
  then show ?thesis by (simp add: word_less_nat_alt drop_bit_eq_div unat_div)
qed


lemma nibbles_join: "push_bit 4 (drop_bit 4 b) OR (b AND 0x0F) = (b::byte)"
proof -
  have "(0x0F::byte) = mask 4" by (simp add: mask_eq_exp_minus_1)
  then have "b AND 0x0F = take_bit 4 b" by (simp add: take_bit_eq_mask)
  then show ?thesis by (auto intro!: bit_eqI simp: bit_simps)
qed

section \<open>Encoding\<close>

definition hex_text :: "byte list \<Rightarrow> c_str" where
  "hex_text d = concat (map (\<lambda>b. [nibble_to_hex (drop_bit 4 b), nibble_to_hex (b AND 0x0F)]) d)"

lemma hex_text_simps [simp]:
  "hex_text [] = []" "hex_text (b # d) = nibble_to_hex (drop_bit 4 b) # nibble_to_hex (b AND 0x0F) # hex_text d"
  by (simp_all add: hex_text_def)

lemma length_hex_text [simp]: "length (hex_text d) = 2 * length d"
  by (induction d) simp_all

lemma c_string_hex_text: "c_string (hex_text d)"
  by (induction d) (simp_all add: nibble_roundtrip nibble_lt nibble_high_lt)

lemma hex_encode_loop_ok:
  assumes "plen out < size_mod" and "2 * length data \<le> plen out" and "out \<noteq> None"
  shows "i \<le> length data \<Longrightarrow> \<exists>q. hex_encode_loop data (length data) i out = Some q \<and>
    emitted out (2 * i) (hex_text (drop i data)) q"
  using assms
proof (induction "length data - i" arbitrary: i out)
  case 0
  then show ?case by (subst hex_encode_loop.simps) (simp add: emitted_Nil)
next
  case (Suc n)
  then have i: "i < length data" by simp
  let ?a = "nibble_to_hex (drop_bit 4 (data ! i))" and ?b = "nibble_to_hex (data ! i AND 0x0F)"
  have sz: "sz_mul i 2 = 2 * i" "sz_add (2 * i) 1 = Suc (2 * i)" using Suc.prems i by (simp_all add: size_simps)
  obtain p where p: "mem_write out (2 * i) [?a] = Some p" "emitted out (2 * i) [?a] p"
    using write_emits [of out "2 * i" "[?a]"] Suc.prems i by auto
  have p2: "plen p = plen out" "p \<noteq> None" using emitted_plen emitted_not_None p(2) Suc.prems by blast+
  obtain q where q: "mem_write p (Suc (2 * i)) [?b] = Some q" "emitted p (Suc (2 * i)) [?b] q"
    using write_emits [of p "Suc (2 * i)" "[?b]"] Suc.prems i p2 by auto
  have q2: "plen q = plen out" "q \<noteq> None" using emitted_plen [OF q(2)] emitted_not_None [OF q(2)] p2 by simp_all
  have e2: "emitted out (2 * i) [?a, ?b] q"
    using emitted_trans [OF p(2), of "[?b]" q] q(2) Suc.prems i by simp
  have "n = length data - Suc i" using Suc.hyps(2) by simp
  from Suc.hyps(1) [OF this, of q] Suc.prems i q2 obtain r where
    r: "hex_encode_loop data (length data) (Suc i) q = Some r" "emitted q (2 * Suc i) (hex_text (drop (Suc i) data)) r"
    by auto
  have "emitted out (2 * i) ([?a, ?b] @ hex_text (drop (Suc i) data)) r"
    by (rule emitted_trans [OF e2]) (use r(2) Suc.prems i in simp_all)
  moreover have "drop i data = data ! i # drop (Suc i) data" using i by (simp add: Cons_nth_drop_Suc)
  ultimately show ?case using i sz p(1) q(1) r(1)
    by (subst hex_encode_loop.simps) (simp add: One_nat_def)
qed

lemma hex_encode_cases:
  assumes c: "allocator_contract a live" and sz: "2 * length d + 1 < size_mod"
  obtains (null) h' where "zenit_hex_encode_with_allocator (Some d) (length d) a h = Some (None, h')" and "live h' = live h"
  | (made) b h' where "zenit_hex_encode_with_allocator (Some d) (length d) a h = Some (Some b, h')"
      and "mbytes b = hex_text d @ [0]" and "maddr b \<notin> live h" and "live h' = insert (maddr b) (live h)"
proof -
  have n: "zenit_hex_encode_len (length d) = 2 * length d + 1" "sz_mul (length d) 2 = 2 * length d"
    using sz by (simp_all add: zenit_hex_encode_len_def size_simps)
  note def = zenit_hex_encode_with_allocator_def hex_encode_impl_def n
  show thesis
  proof (cases rule: allocator_contract.alloc_cases [OF c, of "2 * length d + 1" h, case_names null block])
    case (null h1)
    then show thesis by (intro that(1) [of h1]) (simp_all add: def)
  next
    case (block b h1)
    obtain q where q: "hex_encode_loop d (length d) 0 (Some b) = Some q" "emitted (Some b) 0 (hex_text d) q"
      using hex_encode_loop_ok [of "Some b" d 0] block(2) sz by auto
    have q2: "plen q = 2 * length d + 1" "q \<noteq> None"
      using emitted_plen [OF q(2)] emitted_not_None [OF q(2)] block(2) by simp_all
    obtain r where r: "mem_write q (2 * length d) [0] = Some r" "emitted q (2 * length d) [0] r"
      using write_emits [of q "2 * length d" "[0]"] q2 by auto
    have "emitted (Some b) 0 (hex_text d @ [0]) r"
      by (rule emitted_trans [OF q(2)]) (use r(2) block(2) in simp_all)
    then obtain b' where "r = Some b'" "mbytes b' = hex_text d @ [0]" "maddr b' = maddr b"
      using block(2) by (cases r) (auto simp: emitted_def same_block_def blit_def)
    then show thesis using block q(1) r(1) by (intro that(2) [of b' h1]) (simp_all add: def)
  qed
qed

section \<open>Decoding\<close>

text \<open>What decoding computes: pairs of digits, with a lone first digit when the length is odd.\<close>

fun hex_pairs :: "c_str \<Rightarrow> byte list option" where
  "hex_pairs [] = Some []"
| "hex_pairs [c] = None"
| "hex_pairs (c # c' # s) =
    (if hex_to_nibble c = 0xFF \<or> hex_to_nibble c' = 0xFF then None
     else map_option (Cons (push_bit 4 (hex_to_nibble c) OR hex_to_nibble c')) (hex_pairs s))"

definition hex_bytes :: "c_str \<Rightarrow> byte list option" where
  "hex_bytes s = (if even (length s) then hex_pairs s
     else if hex_to_nibble (s ! 0) = 0xFF then None
     else map_option (Cons (hex_to_nibble (s ! 0))) (hex_pairs (drop 1 s)))"

lemma length_hex_pairs: "hex_pairs s = Some v \<Longrightarrow> length s = 2 * length v"
  by (induction s arbitrary: v rule: hex_pairs.induct) (auto split: if_splits)

lemma hex_pairs_text: "hex_pairs (hex_text d) = Some d"
proof (induction d)
  case (Cons b d)
  have "drop_bit 4 b \<noteq> 0xFF" "b AND 0x0F \<noteq> 0xFF"
    using nibble_high_lt [of b] nibble_lt [of b] by auto
  then show ?case using Cons by (simp add: nibble_roundtrip nibble_lt nibble_high_lt nibbles_join)
qed simp

lemma hex_decode_loop_ok:
  assumes "plen out < size_mod" and "o' + (length s - i) div 2 \<le> plen out" and "out \<noteq> None"
    and "even (length s - i)" and "i \<le> length s"
  shows "\<exists>r. hex_decode_loop s (length s) i o' out = Some r \<and>
    (case hex_pairs (drop i s) of None \<Rightarrow> r = None
     | Some v \<Rightarrow> \<exists>q. r = Some q \<and> emitted out o' v q)"
  using assms
proof (induction "length s - i" arbitrary: i o' out rule: less_induct)
  case less
  show ?case
  proof (cases "i < length s")
    case False
    then show ?thesis using less.prems by (subst hex_decode_loop.simps) (simp add: emitted_Nil)
  next
    case True
    have i1: "Suc i < length s" using True less.prems(4) by (cases "length s = Suc i") auto
    let ?v = "push_bit 4 (hex_to_nibble (s ! i)) OR hex_to_nibble (s ! Suc i)"
    have dr: "drop i s = s ! i # s ! Suc i # drop (i + 2) s"
      using i1 by (metis Cons_nth_drop_Suc Suc_lessD add_2_eq_Suc')
    show ?thesis
    proof (cases "hex_to_nibble (s ! i) = 0xFF \<or> hex_to_nibble (s ! Suc i) = 0xFF")
      case True
      then show ?thesis using dr i1 by (subst hex_decode_loop.simps) (auto simp: One_nat_def Let_def)
    next
      case ok: False
      have half: "(length s - i) div 2 = Suc ((length s - (i + 2)) div 2)" using i1 by simp
      obtain p where p: "mem_write out o' [?v] = Some p" "emitted out o' [?v] p"
        using write_emits [of out o' "[?v]"] less.prems half by auto
      have p2: "plen p = plen out" "p \<noteq> None" using emitted_plen emitted_not_None p(2) less.prems by blast+
      have o1: "sz_add o' 1 = Suc o'" using less.prems half by (simp add: size_simps)
      have "\<exists>r. hex_decode_loop s (length s) (i + 2) (Suc o') p = Some r \<and>
          (case hex_pairs (drop (i + 2) s) of None \<Rightarrow> r = None
           | Some v \<Rightarrow> \<exists>q. r = Some q \<and> emitted p (Suc o') v q)"
        by (rule less.hyps) (use less.prems i1 p2 half in auto)
      then obtain r where r: "hex_decode_loop s (length s) (i + 2) (Suc o') p = Some r"
          "case hex_pairs (drop (i + 2) s) of None \<Rightarrow> r = None
           | Some v \<Rightarrow> \<exists>q. r = Some q \<and> emitted p (Suc o') v q" by blast
      have run: "hex_decode_loop s (length s) i o' out = Some r"
        using r(1) ok True i1 p(1) o1 by (subst hex_decode_loop.simps) (simp add: One_nat_def Let_def)
      show ?thesis
      proof (cases "hex_pairs (drop (i + 2) s)")
        case None
        then show ?thesis using run r(2) dr ok by simp
      next
        case (Some v)
        then obtain q where q: "r = Some q" "emitted p (Suc o') v q" using r(2) by auto
        have "length v = (length s - (i + 2)) div 2" using length_hex_pairs [OF Some] by simp
        then have "emitted out o' ([?v] @ v) q"
          by (intro emitted_trans [OF p(2)]) (use q(2) half less.prems in simp_all)
        then show ?thesis using run q(1) Some dr ok by simp
      qed
    qed
  qed
qed

lemma hex_decode_impl_ok:
  assumes c: "allocator_contract a live" and s: "s \<noteq> []" and sz: "length s + 1 < size_mod"
  obtains (null) h' where "zenit_hex_decode_with_allocator (Some s) (Some n) a h = Some (None, Some n, h')"
      and "live h' = live h" and "fst (alloc_fn a ((length s + 1) div 2) h) = None"
  | (bad) h' where "zenit_hex_decode_with_allocator (Some s) (Some n) a h = Some (None, Some n, h')"
      and "live h' = live h" and "hex_bytes s = None"
  | (good) v b h' where "zenit_hex_decode_with_allocator (Some s) (Some n) a h = Some (Some b, Some (length v), h')"
      and "hex_bytes s = Some v" and "mbytes b = v" and "maddr b \<notin> live h" and "live h' = insert (maddr b) (live h)"
proof -
  note outcome = that
  have len: "sz_add (length s) 1 = length s + 1" using sz by (simp add: size_simps)
  note def = zenit_hex_decode_with_allocator_def hex_decode_impl_def
  show thesis
  proof (cases rule: allocator_contract.alloc_cases [OF c, of "(length s + 1) div 2" h, case_names null block])
    case (null h1)
    then show thesis using s len by (intro outcome(1) [of h1]) (simp_all add: def Let_def)
  next
    case (block b h1)
    have "maddr b \<in> live h1" using block by simp
    from allocator_contract.free_addr [OF c this] obtain h2 where
      h2: "free_fn a (Some (maddr b)) h1 = Some h2" "live h2 = live h1 - {maddr b}" by blast
    have fail: "live h2 = live h" using h2 block by simp
    have fin: thesis if f: "zenit_hex_decode_with_allocator (Some s) (Some n) a h = Some (q, Some ((length s + 1) div 2), h1)"
        "hex_bytes s = Some v" "emitted (Some b) 0 v q" "length v = (length s + 1) div 2" for q v
    proof -
      obtain b' where "q = Some b'" "mbytes b' = v" "maddr b' = maddr b"
        using f(3,4) block(2) by (cases q) (auto simp: emitted_def same_block_def blit_def)
      then show thesis using f(1,2,4) block(3,4) by (intro outcome(3) [of b' v h1]) simp_all
    qed
    show thesis
    proof (cases "even (length s)")
      case True
      have "\<exists>r. hex_decode_loop s (length s) 0 0 (Some b) = Some r \<and>
          (case hex_pairs (drop 0 s) of None \<Rightarrow> r = None | Some v \<Rightarrow> \<exists>q. r = Some q \<and> emitted (Some b) 0 v q)"
        by (rule hex_decode_loop_ok) (use block(2) sz True in simp_all)
      then obtain r where r: "hex_decode_loop s (length s) 0 0 (Some b) = Some r"
          "case hex_pairs s of None \<Rightarrow> r = None | Some v \<Rightarrow> \<exists>q. r = Some q \<and> emitted (Some b) 0 v q" by auto
      show thesis
      proof (cases "hex_pairs s")
        case None
        then show thesis using r s len True block h2 fail
          by (intro outcome(2) [of h2]) (simp_all add: def Let_def hex_bytes_def)
      next
        case (Some v)
        then obtain q where q: "r = Some q" "emitted (Some b) 0 v q" using r(2) by auto
        have "v \<noteq> []" using length_hex_pairs [OF Some] s by auto
        then show thesis by (intro fin [of q v])
          (use q r(1) Some s len True block length_hex_pairs [OF Some] in \<open>simp_all add: def Let_def hex_bytes_def\<close>)
      qed
    next
      case False
      let ?n = "hex_to_nibble (s ! 0)"
      have odd: "length s mod 2 \<noteq> 0" and half: "(length s + 1) div 2 = Suc ((length s - 1) div 2)"
        using False s by (auto elim!: oddE)
      show thesis
      proof (cases "?n = 0xFF")
        case True
        then show thesis using s len odd False block h2 fail
          by (intro outcome(2) [of h2]) (simp_all add: def Let_def hex_bytes_def)
      next
        case ok: False
        obtain p where p: "mem_write (Some b) 0 [?n] = Some p" "emitted (Some b) 0 [?n] p"
          using write_emits [of "Some b" 0 "[?n]"] block(2) half by auto
        have p2: "plen p = (length s + 1) div 2" "p \<noteq> None"
          using emitted_plen [OF p(2)] emitted_not_None [OF p(2)] block(2) by simp_all
        have "\<exists>r. hex_decode_loop s (length s) 1 1 p = Some r \<and>
            (case hex_pairs (drop 1 s) of None \<Rightarrow> r = None | Some v \<Rightarrow> \<exists>q. r = Some q \<and> emitted p 1 v q)"
          by (rule hex_decode_loop_ok) (use p2 sz False half s in \<open>simp_all add: Suc_le_eq One_nat_def\<close>)
        then obtain r where r: "hex_decode_loop s (length s) 1 1 p = Some r"
            "case hex_pairs (drop 1 s) of None \<Rightarrow> r = None | Some v \<Rightarrow> \<exists>q. r = Some q \<and> emitted p 1 v q" by blast
        show thesis
        proof (cases "hex_pairs (drop 1 s)")
          case None
          then show thesis using r s len odd False ok p(1) block h2 fail
            by (intro outcome(2) [of h2]) (simp_all add: def Let_def hex_bytes_def)
        next
          case (Some v)
          then obtain q where q: "r = Some q" "emitted p 1 v q" using r(2) by auto
          have lv: "Suc (length v) = (length s + 1) div 2" using length_hex_pairs [OF Some] half by simp
          have "emitted (Some b) 0 ([?n] @ v) q"
            by (rule emitted_trans [OF p(2)]) (use q(2) lv block(2) in \<open>simp_all add: One_nat_def\<close>)
          then show thesis
            by (intro fin [of q "?n # v"])
              (use q r(1) Some s len odd ok False p(1) block lv in \<open>simp_all add: def Let_def hex_bytes_def\<close>)
        qed
      qed
    qed
  qed
qed

section \<open>Correctness\<close>


text \<open>
  decoding accepts exactly the non-empty strings of hexadecimal digits, of either case and with an
  odd length read as a leading zero, and gives their value; anything else is refused and the
  allocated block is given back.
\<close>

theorem hex_decode_spec:
  assumes c: "allocator_contract a live" and s: "s \<noteq> []" and sz: "length s + 1 < size_mod"
  shows "\<exists>r n' h'. zenit_hex_decode_with_allocator (Some s) (Some n) a h = Some (r, n', h') \<and>
    (case r of None \<Rightarrow> n' = Some n \<and> live h' = live h \<and>
         (hex_bytes s = None \<or> fst (alloc_fn a ((length s + 1) div 2) h) = None)
     | Some b \<Rightarrow> hex_bytes s = Some (mbytes b) \<and> n' = Some (length (mbytes b)) \<and>
         live h' = insert (maddr b) (live h))"
  by (cases rule: hex_decode_impl_ok [OF assms, of n h]) simp_all

section \<open>Concrete instances\<close>

definition demo_text_heap :: c_heap where
  "demo_text_heap = \<lparr>heap_live = [], heap_script = [], heap_junk = 0\<rparr>"


theorem hex_decode_spec_witness:
  "\<exists>r n h'. zenit_hex_decode_with_allocator (Some [65, 98, 70]) (Some 9) ZENIT_ALLOCATOR_DEFAULT demo_text_heap =
      Some (r, n, h')"
  using hex_decode_spec [OF default_contract, of "[65, 98, 70]" 9 demo_text_heap] by (auto simp: size_mod_def)

end
