(* ===== verification/Zenit_Uri.thy ===== *)
theory Zenit_Uri
  imports Zenit_Hex
begin

unbundle bit_operations_syntax

text \<open>
  Percent-encoding (\<open>src/uri.c\<close>). ASCII codes: 37 is \<open>'%'\<close>, 43 is \<open>'+'\<close>, 32 is the space; 45, 95, 46
  and 126 are \<open>'-'\<close>, \<open>'_'\<close>, \<open>'.'\<close> and \<open>'~'\<close>.
\<close>

section \<open>Operations\<close>

definition is_unreserved :: "byte \<Rightarrow> bool" where
  "is_unreserved c \<longleftrightarrow> in_range 65 90 c \<or> in_range 97 122 c \<or> in_range 48 57 c \<or>
    c = 45 \<or> c = 95 \<or> c = 46 \<or> c = 126"

definition hex_digit :: "byte \<Rightarrow> byte" where
  "hex_digit v = (let m = v AND 0x0F in if m < 10 then 48 + m else 65 + m - 10)"

definition hex_val :: "byte \<Rightarrow> byte" where
  "hex_val c =
    (if in_range 48 57 c then c - 48
     else if in_range 97 102 c then c - 97 + 10
     else if in_range 65 70 c then c - 65 + 10
     else 0xFF)"

text \<open>The encoding loop returns the buffer and the next free position.\<close>

function uri_encode_loop :: "c_str \<Rightarrow> nat \<Rightarrow> nat \<Rightarrow> nat \<Rightarrow> ptr \<Rightarrow> (ptr \<times> nat) option" where
  "uri_encode_loop input len i pos out =
    (if i < len then do {
       c \<leftarrow> str_at input i;
       if is_unreserved c then do {
         out' \<leftarrow> mem_write out pos [c];
         uri_encode_loop input len (i + 1) (sz_add pos 1) out'
       } else do {
         out' \<leftarrow> mem_write out pos [37, hex_digit (drop_bit 4 c), hex_digit (c AND 0x0F)];
         uri_encode_loop input len (i + 1) (sz_add pos 3) out'
       }
     } else Some (out, pos))"
  by pat_completeness auto
termination
  by (relation "measure (\<lambda>(input, len, i, pos, out). len - i)") auto

declare uri_encode_loop.simps [simp del]

definition uri_encode_impl :: "c_str option \<Rightarrow> 'h zenit_allocator_t \<Rightarrow> 'h \<Rightarrow> (ptr \<times> 'h) option" where
  "uri_encode_impl inputp a h =
    (case inputp of None \<Rightarrow> Some (None, h)
     | Some input \<Rightarrow>
         let len = length input; max_out = sz_add (sz_mul len 3) 1 in
         case alloc_fn a max_out h of
           (None, h1) \<Rightarrow> Some (None, h1)
         | (Some b, h1) \<Rightarrow> do {
             (out, pos) \<leftarrow> uri_encode_loop input len 0 0 (Some b);
             out' \<leftarrow> mem_write out pos [0];
             Some (out', h1)
           })"

text \<open>The decoding loop: \<open>Some None\<close> stands for a malformed escape.\<close>

function uri_decode_loop :: "c_str \<Rightarrow> nat \<Rightarrow> nat \<Rightarrow> nat \<Rightarrow> ptr \<Rightarrow> (ptr \<times> nat) option option" where
  "uri_decode_loop encoded len i pos out =
    (if i < len then do {
       c \<leftarrow> str_at encoded i;
       if c = 43 then do {
         out' \<leftarrow> mem_write out pos [32];
         uri_decode_loop encoded len (i + 1) (sz_add pos 1) out'
       } else if c = 37 then
         if len \<le> i + 2 then Some None
         else do {
           c1 \<leftarrow> str_at encoded (i + 1);
           c2 \<leftarrow> str_at encoded (i + 2);
           let hi = hex_val c1;
           let lo = hex_val c2;
           if hi = 0xFF \<or> lo = 0xFF then Some None
           else do {
             out' \<leftarrow> mem_write out pos [push_bit 4 hi OR lo];
             uri_decode_loop encoded len (i + 3) (sz_add pos 1) out'
           }
         }
       else do {
         out' \<leftarrow> mem_write out pos [c];
         uri_decode_loop encoded len (i + 1) (sz_add pos 1) out'
       }
     } else Some (Some (out, pos)))"
  by pat_completeness auto
termination
  by (relation "measure (\<lambda>(encoded, len, i, pos, out). len - i)") auto

declare uri_decode_loop.simps [simp del]

definition uri_decode_impl :: "c_str option \<Rightarrow> 'h zenit_allocator_t \<Rightarrow> 'h \<Rightarrow> (ptr \<times> 'h) option" where
  "uri_decode_impl encodedp a h =
    (case encodedp of None \<Rightarrow> Some (None, h)
     | Some encoded \<Rightarrow>
         let len = length encoded in
         case alloc_fn a (sz_add len 1) h of
           (None, h1) \<Rightarrow> Some (None, h1)
         | (Some b, h1) \<Rightarrow> do {
             r \<leftarrow> uri_decode_loop encoded len 0 0 (Some b);
             case r of
               None \<Rightarrow> do { h2 \<leftarrow> free_fn a (Some (maddr b)) h1; Some (None, h2) }
             | Some (out, pos) \<Rightarrow> do {
                 out' \<leftarrow> mem_write out pos [0];
                 Some (out', h1)
               }
           })"

definition zenit_uri_encode_with_allocator :: "c_str option \<Rightarrow> 'h zenit_allocator_t \<Rightarrow> 'h \<Rightarrow> (ptr \<times> 'h) option" where
  "zenit_uri_encode_with_allocator input a = uri_encode_impl input a"

definition zenit_uri_encode :: "c_str option \<Rightarrow> c_heap \<Rightarrow> (ptr \<times> c_heap) option" where
  "zenit_uri_encode input = zenit_uri_encode_with_allocator input ZENIT_ALLOCATOR_DEFAULT"

definition zenit_uri_decode_with_allocator :: "c_str option \<Rightarrow> 'h zenit_allocator_t \<Rightarrow> 'h \<Rightarrow> (ptr \<times> 'h) option" where
  "zenit_uri_decode_with_allocator encoded a = uri_decode_impl encoded a"

definition zenit_uri_decode :: "c_str option \<Rightarrow> c_heap \<Rightarrow> (ptr \<times> c_heap) option" where
  "zenit_uri_decode encoded = zenit_uri_decode_with_allocator encoded ZENIT_ALLOCATOR_DEFAULT"

section \<open>The encoded text\<close>

definition uri_chunk :: "byte \<Rightarrow> c_str" where
  "uri_chunk c = (if is_unreserved c then [c] else [37, hex_digit (drop_bit 4 c), hex_digit (c AND 0x0F)])"

definition uri_text :: "c_str \<Rightarrow> c_str" where
  "uri_text s = concat (map uri_chunk s)"

lemma uri_text_simps [simp]: "uri_text [] = []" "uri_text (c # s) = uri_chunk c @ uri_text s"
  by (simp_all add: uri_text_def)

lemma uri_digits: "list_all (\<lambda>n. hex_val (hex_digit n) = n \<and> hex_digit n \<noteq> 0) (map of_nat [0..<16])"
  by code_simp

lemma uri_digit_roundtrip:
  assumes "n < 16"
  shows "hex_val (hex_digit n) = n" and "hex_digit n \<noteq> 0"
  using nibble_cases [OF assms] uri_digits by (simp_all only: list_all_iff) blast+

lemma uri_chunk_length: "length (uri_chunk c) \<le> 3" "1 \<le> length (uri_chunk c)"
  by (simp_all add: uri_chunk_def)

lemma length_uri_text: "length s \<le> length (uri_text s) \<and> length (uri_text s) \<le> 3 * length s"
proof (induction s)
  case (Cons c s)
  then show ?case using uri_chunk_length [of c] by (simp only: uri_text_simps length_append list.size) arith
qed simp

lemma c_string_uri_text: "c_string (uri_text s)"
proof (induction s)
  case (Cons c s)
  have "\<not> is_unreserved 0" by code_simp
  then have "c_string (uri_chunk c)"
    by (auto simp: uri_chunk_def uri_digit_roundtrip nibble_lt nibble_high_lt)
  then show ?case using Cons by simp
qed simp

section \<open>Encoding\<close>

lemma uri_encode_loop_ok:
  assumes "plen out < size_mod" and "out \<noteq> None" and "pos + length (uri_text (drop i s)) \<le> plen out"
    and "i \<le> length s"
  shows "\<exists>q. uri_encode_loop s (length s) i pos out = Some (q, pos + length (uri_text (drop i s))) \<and>
    emitted out pos (uri_text (drop i s)) q"
  using assms
proof (induction "length s - i" arbitrary: i pos out)
  case 0
  then show ?case by (subst uri_encode_loop.simps) (simp add: emitted_Nil)
next
  case (Suc n)
  then have i: "i < length s" by simp
  let ?c = "uri_chunk (s ! i)"
  have dr: "drop i s = s ! i # drop (Suc i) s" using i by (simp add: Cons_nth_drop_Suc)
  have fit: "pos + length ?c + length (uri_text (drop (Suc i) s)) \<le> plen out" using Suc.prems(3) dr by simp
  obtain p where p: "mem_write out pos ?c = Some p" "emitted out pos ?c p"
    using write_emits [OF Suc.prems(2), of pos ?c] fit by auto
  have p2: "plen p = plen out" "p \<noteq> None" using emitted_plen emitted_not_None p(2) Suc.prems(2) by blast+
  have n: "n = length s - Suc i" using Suc.hyps(2) by simp
  obtain q where q: "uri_encode_loop s (length s) (Suc i) (pos + length ?c) p =
        Some (q, pos + length ?c + length (uri_text (drop (Suc i) s)))"
      "emitted p (pos + length ?c) (uri_text (drop (Suc i) s)) q"
    using Suc.hyps(1) [OF n, of p "pos + length ?c"] Suc.prems(1) p2 fit i by auto
  have "uri_encode_loop s (length s) i pos out = uri_encode_loop s (length s) (Suc i) (pos + length ?c) p"
    using i p(1) fit Suc.prems(1)
    by (subst uri_encode_loop.simps) (auto simp: uri_chunk_def size_simps One_nat_def numeral_3_eq_3)
  then show ?case using q emitted_trans [OF p(2) q(2) fit] dr by simp
qed

section \<open>Decoding\<close>

text \<open>What decoding computes.\<close>

fun uri_plain :: "c_str \<Rightarrow> c_str option" where
  "uri_plain [] = Some []"
| "uri_plain (c # s) =
    (if c = 43 then map_option (Cons 32) (uri_plain s)
     else if c = 37 then
       (case s of
          c1 # c2 # s' \<Rightarrow>
            if hex_val c1 = 0xFF \<or> hex_val c2 = 0xFF then None
            else map_option (Cons (push_bit 4 (hex_val c1) OR hex_val c2)) (uri_plain s')
        | _ \<Rightarrow> None)
     else map_option (Cons c) (uri_plain s))"

lemma length_uri_plain: "uri_plain s = Some t \<Longrightarrow> length t \<le> length s"
proof (induction s arbitrary: t rule: uri_plain.induct)
  case (2 c s)
  then show ?case by (fastforce split: if_splits list.splits)
qed simp

lemma uri_plain_text: "uri_plain (uri_text s) = Some s"
proof (induction s)
  case (Cons c s)
  have "\<not> is_unreserved 43" "\<not> is_unreserved 37" by code_simp+
  moreover have "drop_bit 4 c \<noteq> 0xFF" "c AND 0x0F \<noteq> 0xFF"
    using nibble_high_lt [of c] nibble_lt [of c] by auto
  ultimately show ?case using Cons
    by (auto simp: uri_chunk_def uri_digit_roundtrip nibble_lt nibble_high_lt nibbles_join)
qed simp

text \<open>One step of the loop, whatever the source characters were: a byte goes out.\<close>

lemma uri_decode_emit:
  assumes out: "plen out < size_mod" "out \<noteq> None" "pos < plen out"
    and rest: "\<And>p. plen p = plen out \<Longrightarrow> p \<noteq> None \<Longrightarrow> \<exists>r. loop (Suc pos) p = Some r \<and>
      (case t of None \<Rightarrow> r = None
       | Some v \<Rightarrow> \<exists>q. r = Some (q, Suc pos + length v) \<and> emitted p (Suc pos) v q)"
    and fit: "\<And>v. t = Some v \<Longrightarrow> Suc pos + length v \<le> plen out"
  shows "\<exists>r. (mem_write out pos [x] \<bind> loop (sz_add pos 1)) = Some r \<and>
    (case map_option (Cons x) t of None \<Rightarrow> r = None
     | Some v \<Rightarrow> \<exists>q. r = Some (q, pos + length v) \<and> emitted out pos v q)"
proof -
  obtain p where p: "mem_write out pos [x] = Some p" "emitted out pos [x] p"
    using write_emits [OF out(2), of pos "[x]"] out(3) by auto
  have "plen p = plen out" "p \<noteq> None" using emitted_plen emitted_not_None p(2) out(2) by blast+
  from rest [OF this] obtain r where r: "loop (Suc pos) p = Some r"
      "case t of None \<Rightarrow> r = None | Some v \<Rightarrow> \<exists>q. r = Some (q, Suc pos + length v) \<and> emitted p (Suc pos) v q"
    by blast
  have "sz_add pos 1 = Suc pos" using out by (simp add: size_simps)
  then show ?thesis using p r fit emitted_trans [OF p(2)] by (cases t) auto
qed

lemma uri_decode_loop_ok:
  assumes "plen out < size_mod" and "out \<noteq> None" and "pos + (length s - i) \<le> plen out" and "i \<le> length s"
  shows "\<exists>r. uri_decode_loop s (length s) i pos out = Some r \<and>
    (case uri_plain (drop i s) of None \<Rightarrow> r = None
     | Some v \<Rightarrow> \<exists>q. r = Some (q, pos + length v) \<and> emitted out pos v q)"
  using assms
proof (induction "length s - i" arbitrary: i pos out rule: less_induct)
  case less
  show ?case
  proof (cases "i < length s")
    case False
    then show ?thesis using less.prems by (subst uri_decode_loop.simps) (simp add: emitted_Nil)
  next
    case i: True
    have step: "\<exists>r. (mem_write out pos [x] \<bind> uri_decode_loop s (length s) j (sz_add pos 1)) = Some r \<and>
        (case map_option (Cons x) (uri_plain (drop j s)) of None \<Rightarrow> r = None
         | Some v \<Rightarrow> \<exists>q. r = Some (q, pos + length v) \<and> emitted out pos v q)"
      if j: "i < j" "j \<le> length s" for x j
    proof (rule uri_decode_emit [OF less.prems(1,2)])
      show "pos < plen out" using less.prems(3) i by simp
      show "\<exists>r. uri_decode_loop s (length s) j (Suc pos) p = Some r \<and>
          (case uri_plain (drop j s) of None \<Rightarrow> r = None
           | Some v \<Rightarrow> \<exists>q. r = Some (q, Suc pos + length v) \<and> emitted p (Suc pos) v q)"
        if "plen p = plen out" "p \<noteq> None" for p
        by (rule less.hyps) (use that j i less.prems in auto)
      show "Suc pos + length v \<le> plen out" if "uri_plain (drop j s) = Some v" for v
        using length_uri_plain [OF that] j less.prems(3) by simp
    qed
    have dr: "drop i s = s ! i # drop (Suc i) s" using i by (simp add: Cons_nth_drop_Suc)
    consider "s ! i = 43" | "s ! i = 37" "length s \<le> i + 2" | "s ! i = 37" "i + 2 < length s"
      | "s ! i \<noteq> 43" "s ! i \<noteq> 37" by linarith
    then show ?thesis
    proof cases
      case 1
      then show ?thesis using step [of "Suc i" 32] i dr
        by (subst uri_decode_loop.simps) (simp add: One_nat_def)
    next
      case 2
      then have "length (drop (Suc i) s) \<le> 1" by simp
      then have "uri_plain (drop i s) = None"
        using 2(1) dr by (cases "drop (Suc i) s"; cases "drop 1 (drop (Suc i) s)") (auto simp: One_nat_def)
      then show ?thesis using 2 i by (subst uri_decode_loop.simps) simp
    next
      case 3
      then have dr3: "drop i s = 37 # s ! Suc i # s ! (i + 2) # drop (i + 3) s"
        using dr by (simp add: Cons_nth_drop_Suc [symmetric] numeral_2_eq_2 numeral_3_eq_3)
      show ?thesis
      proof (cases "hex_val (s ! Suc i) = 0xFF \<or> hex_val (s ! (i + 2)) = 0xFF")
        case True
        then show ?thesis using 3 i dr3 by (subst uri_decode_loop.simps) (auto simp: Let_def One_nat_def)
      next
        case False
        then show ?thesis
          using 3 i dr3 step [of "i + 3" "push_bit 4 (hex_val (s ! Suc i)) OR hex_val (s ! (i + 2))"]
          by (subst uri_decode_loop.simps) (simp add: Let_def One_nat_def)
      qed
    next
      case 4
      then show ?thesis using step [of "Suc i" "s ! i"] i dr
        by (subst uri_decode_loop.simps) (simp add: One_nat_def)
    qed
  qed
qed

section \<open>Correctness\<close>

lemma uri_encode_cases:
  assumes c: "allocator_contract a live" and sz: "3 * length s + 1 < size_mod"
  obtains (null) h' where "zenit_uri_encode_with_allocator (Some s) a h = Some (None, h')" and "live h' = live h"
  | (made) b h' where "zenit_uri_encode_with_allocator (Some s) a h = Some (Some b, h')"
      and "block_str b = uri_text s" and "live h' = insert (maddr b) (live h)"
proof -
  have n: "sz_mul (length s) 3 = length s * 3" "sz_add (length s * 3) 1 = length s * 3 + 1"
    using sz by (simp_all add: size_simps)
  note def = zenit_uri_encode_with_allocator_def uri_encode_impl_def n Let_def
  show thesis
  proof (cases rule: allocator_contract.alloc_cases [OF c, of "length s * 3 + 1" h, case_names null block])
    case (null h1)
    then show thesis by (intro that(1) [of h1]) (simp_all add: def)
  next
    case (block b h1)
    have le: "length (uri_text s) \<le> length s * 3" using length_uri_text [of s] by simp
    obtain q where q: "uri_encode_loop s (length s) 0 0 (Some b) = Some (q, length (uri_text s))"
        "emitted (Some b) 0 (uri_text s) q"
      using uri_encode_loop_ok [of "Some b" 0 0 s] block(2) sz le by auto
    obtain b' where "mem_write q (length (uri_text s)) [0] = Some (Some b')" "block_str b' = uri_text s"
        "maddr b' = maddr b"
      by (rule emitted_terminate [OF q(2) c_string_uri_text]) (use block(2) le in auto)
    then show thesis using block q(1) by (intro that(2) [of b' h1]) (simp_all add: def)
  qed
qed

lemma uri_decode_cases:
  assumes c: "allocator_contract a live" and sz: "length s + 1 < size_mod"
  obtains (null) h' where "zenit_uri_decode_with_allocator (Some s) a h = Some (None, h')" and "live h' = live h"
      and "uri_plain s = None \<or> fst (alloc_fn a (length s + 1) h) = None"
  | (made) b h' t where "zenit_uri_decode_with_allocator (Some s) a h = Some (Some b, h')"
      and "uri_plain s = Some t" and "c_string t \<longrightarrow> block_str b = t" and "live h' = insert (maddr b) (live h)"
proof -
  have n: "sz_add (length s) 1 = length s + 1" using sz by (simp add: size_simps)
  note def = zenit_uri_decode_with_allocator_def uri_decode_impl_def n Let_def
  show thesis
  proof (cases rule: allocator_contract.alloc_cases [OF c, of "length s + 1" h, case_names null block])
    case (null h1)
    then show thesis by (intro that(1) [of h1]) (simp_all add: def)
  next
    case (block b h1)
    have "\<exists>r. uri_decode_loop s (length s) 0 0 (Some b) = Some r \<and>
      (case uri_plain (drop 0 s) of None \<Rightarrow> r = None
       | Some v \<Rightarrow> \<exists>q. r = Some (q, 0 + length v) \<and> emitted (Some b) 0 v q)"
      by (rule uri_decode_loop_ok) (use block(2) sz in simp_all)
    then obtain r where r: "uri_decode_loop s (length s) 0 0 (Some b) = Some r"
        "case uri_plain s of None \<Rightarrow> r = None
         | Some v \<Rightarrow> \<exists>q. r = Some (q, length v) \<and> emitted (Some b) 0 v q"
      unfolding drop_0 add_0 by blast
    show thesis
    proof (cases "uri_plain s")
      case None
      have "maddr b \<in> live h1" using block by simp
      from allocator_contract.free_addr [OF c this] obtain h2 where
        "free_fn a (Some (maddr b)) h1 = Some h2" "live h2 = live h1 - {maddr b}" by blast
      then show thesis using None r block by (intro that(1) [of h2]) (simp_all add: def)
    next
      case (Some t)
      then obtain q where q: "r = Some (q, length t)" "emitted (Some b) 0 t q" using r(2) by auto
      have le: "length t \<le> length s" by (rule length_uri_plain [OF Some])
      have q2: "plen q = length (mbytes b)" "q \<noteq> None" using emitted_plen [OF q(2)] emitted_not_None [OF q(2)] by simp_all
      obtain w where w: "mem_write q (length t) [0] = Some w" "emitted q (length t) [0] w"
        using write_emits [of q "length t" "[0]"] q2 block(2) le by auto
      then obtain b' where b': "w = Some b'" "maddr b' = maddr b"
        using q(2) by (cases w; cases q) (auto simp: emitted_def same_block_def)
      have "block_str b' = t" if "c_string t"
        by (rule emitted_terminate [OF q(2) that]) (use w(1) b'(1) block(2) le in auto)
      then show thesis using that(2) [of b' h1 t] w(1) b' q(1) r(1) block Some by (simp add: def)
    qed
  qed
qed

text \<open>
  decoding an encoded string gives the string back, for every string without a NUL, and the
  encoded text consists of unreserved characters and escapes only.
\<close>

theorem uri_roundtrip:
  assumes c: "allocator_contract a live" and s: "c_string s" and sz: "3 * length s + 1 < size_mod"
  shows "\<exists>r h1. zenit_uri_encode_with_allocator (Some s) a h = Some (r, h1) \<and>
    (\<forall>b. r = Some b \<longrightarrow> (\<forall>x \<in> set (block_str b). is_unreserved x \<or> x = 37) \<and>
      (\<exists>r' h2. zenit_uri_decode_with_allocator (Some (block_str b)) a h1 = Some (r', h2) \<and>
        (\<forall>b'. r' = Some b' \<longrightarrow> block_str b' = s)))"
proof (cases rule: uri_encode_cases [OF c sz, of h, case_names null made])
  case (null h')
  then show ?thesis by simp
next
  case (made b h1)
  have dig: "list_all (\<lambda>n. is_unreserved (hex_digit n)) (map of_nat [0..<16])" by code_simp
  have "is_unreserved (hex_digit n)" if "n < 16" for n
    using nibble_cases [OF that] dig by (auto simp only: list_all_iff)
  then have chars: "is_unreserved x \<or> x = 37" if "x \<in> set (uri_text s)" for x
    using that by (auto simp: uri_text_def uri_chunk_def nibble_lt nibble_high_lt split: if_splits)
  have sz': "length (uri_text s) + 1 < size_mod" using length_uri_text [of s] sz by simp
  have "\<exists>r' h2. zenit_uri_decode_with_allocator (Some (uri_text s)) a h1 = Some (r', h2) \<and>
      (\<forall>b'. r' = Some b' \<longrightarrow> block_str b' = s)"
    by (cases rule: uri_decode_cases [OF c sz', of h1]) (use uri_plain_text [of s] s in simp_all)
  then show ?thesis using made chars by simp
qed

theorem uri_roundtrip_witness:
  "\<exists>r h1. zenit_uri_encode_with_allocator (Some [97, 32, 200]) ZENIT_ALLOCATOR_DEFAULT demo_text_heap = Some (r, h1) \<and>
    (\<forall>b. r = Some b \<longrightarrow> (\<forall>x \<in> set (block_str b). is_unreserved x \<or> x = 37))"
  using uri_roundtrip [OF default_contract, of "[97, 32, 200]" demo_text_heap] by (fastforce simp: size_mod_def)

end
