(* ===== verification/Zenit_Base64.thy ===== *)
theory Zenit_Base64
  imports Zenit_Hex
begin

unbundle bit_operations_syntax

text \<open>
  Base64 (\<open>src/base64.c\<close>), with the two lookup tables of the source. The arithmetic is on 32-bit words
  as in the code; 61 is the padding character \<open>'='\<close>.
\<close>

section \<open>Tables and operations\<close>

definition enc_table :: "byte list" where
  "enc_table = map of_char ''ABCDEFGHIJKLMNOPQRSTUVWXYZabcdefghijklmnopqrstuvwxyz0123456789+/''"

definition dec_table :: "byte list" where
  "dec_table = [
     0xFF, 0xFF, 0xFF, 0xFF, 0xFF, 0xFF, 0xFF, 0xFF, 0xFF, 0xFF, 0xFF, 0xFF, 0xFF, 0xFF, 0xFF, 0xFF,
     0xFF, 0xFF, 0xFF, 0xFF, 0xFF, 0xFF, 0xFF, 0xFF, 0xFF, 0xFF, 0xFF, 0xFF, 0xFF, 0xFF, 0xFF, 0xFF,
     0xFF, 0xFF, 0xFF, 0xFF, 0xFF, 0xFF, 0xFF, 0xFF, 0xFF, 0xFF, 0xFF, 0x3E, 0xFF, 0xFF, 0xFF, 0x3F,
     0x34, 0x35, 0x36, 0x37, 0x38, 0x39, 0x3A, 0x3B, 0x3C, 0x3D, 0xFF, 0xFF, 0xFF, 0xFF, 0xFF, 0xFF,
     0xFF, 0x00, 0x01, 0x02, 0x03, 0x04, 0x05, 0x06, 0x07, 0x08, 0x09, 0x0A, 0x0B, 0x0C, 0x0D, 0x0E,
     0x0F, 0x10, 0x11, 0x12, 0x13, 0x14, 0x15, 0x16, 0x17, 0x18, 0x19, 0xFF, 0xFF, 0xFF, 0xFF, 0xFF,
     0xFF, 0x1A, 0x1B, 0x1C, 0x1D, 0x1E, 0x1F, 0x20, 0x21, 0x22, 0x23, 0x24, 0x25, 0x26, 0x27, 0x28,
     0x29, 0x2A, 0x2B, 0x2C, 0x2D, 0x2E, 0x2F, 0x30, 0x31, 0x32, 0x33, 0xFF, 0xFF, 0xFF, 0xFF, 0xFF,
     0xFF, 0xFF, 0xFF, 0xFF, 0xFF, 0xFF, 0xFF, 0xFF, 0xFF, 0xFF, 0xFF, 0xFF, 0xFF, 0xFF, 0xFF, 0xFF,
     0xFF, 0xFF, 0xFF, 0xFF, 0xFF, 0xFF, 0xFF, 0xFF, 0xFF, 0xFF, 0xFF, 0xFF, 0xFF, 0xFF, 0xFF, 0xFF,
     0xFF, 0xFF, 0xFF, 0xFF, 0xFF, 0xFF, 0xFF, 0xFF, 0xFF, 0xFF, 0xFF, 0xFF, 0xFF, 0xFF, 0xFF, 0xFF,
     0xFF, 0xFF, 0xFF, 0xFF, 0xFF, 0xFF, 0xFF, 0xFF, 0xFF, 0xFF, 0xFF, 0xFF, 0xFF, 0xFF, 0xFF, 0xFF,
     0xFF, 0xFF, 0xFF, 0xFF, 0xFF, 0xFF, 0xFF, 0xFF, 0xFF, 0xFF, 0xFF, 0xFF, 0xFF, 0xFF, 0xFF, 0xFF,
     0xFF, 0xFF, 0xFF, 0xFF, 0xFF, 0xFF, 0xFF, 0xFF, 0xFF, 0xFF, 0xFF, 0xFF, 0xFF, 0xFF, 0xFF, 0xFF,
     0xFF, 0xFF, 0xFF, 0xFF, 0xFF, 0xFF, 0xFF, 0xFF, 0xFF, 0xFF, 0xFF, 0xFF, 0xFF, 0xFF, 0xFF, 0xFF,
     0xFF, 0xFF, 0xFF, 0xFF, 0xFF, 0xFF, 0xFF, 0xFF, 0xFF, 0xFF, 0xFF, 0xFF, 0xFF, 0xFF, 0xFF, 0xFF]"

definition zenit_base64_encode_len :: "nat \<Rightarrow> nat" where
  "zenit_base64_encode_len input_len = sz_add (sz_mul (sz_add input_len 2 div 3) 4) 1"

definition zenit_base64_decode_len :: "c_str option \<Rightarrow> nat" where
  "zenit_base64_decode_len encoded =
    (case encoded of None \<Rightarrow> 0 | Some s \<Rightarrow> sz_mul (length s div 4) 3)"

text \<open>The value of one quad: \<open>Some None\<close> stands for the error result.\<close>

definition quad_triple :: "byte \<Rightarrow> byte \<Rightarrow> byte \<Rightarrow> byte \<Rightarrow> 32 word option" where
  "quad_triple c0 c1 c2 c3 =
    (let d0 = dec_table ! unat c0; d1 = dec_table ! unat c1;
         d2 = dec_table ! unat c2; d3 = dec_table ! unat c3 in
     if d0 = 0xFF \<or> d1 = 0xFF then None
     else
       let triple = push_bit 18 (ucast d0) OR push_bit 12 (ucast d1) in
       if c2 \<noteq> 61 \<and> d2 = 0xFF then None
       else
         let triple = (if c2 \<noteq> 61 then triple OR push_bit 6 (ucast d2) else triple) in
         if c3 \<noteq> 61 \<and> d3 = 0xFF then None
         else Some (if c3 \<noteq> 61 then triple OR ucast d3 else triple))"

definition decode_quad :: "c_str \<Rightarrow> nat \<Rightarrow> 32 word option option" where
  "decode_quad encoded i = do {
     c0 \<leftarrow> str_at encoded i;
     c1 \<leftarrow> str_at encoded (i + 1);
     c2 \<leftarrow> str_at encoded (i + 2);
     c3 \<leftarrow> str_at encoded (i + 3);
     Some (quad_triple c0 c1 c2 c3)
   }"

definition enc_char :: "32 word \<Rightarrow> byte" where
  "enc_char w = enc_table ! unat (w AND 0x3F)"

function b64_encode_loop ::
    "byte list \<Rightarrow> nat \<Rightarrow> nat \<Rightarrow> nat \<Rightarrow> ptr \<Rightarrow> (ptr \<times> nat \<times> nat) option" where
  "b64_encode_loop data len i pos out =
    (if i + 3 \<le> len then do {
       a0 \<leftarrow> user_at data i;
       b \<leftarrow> user_at data (i + 1);
       c \<leftarrow> user_at data (i + 2);
       out' \<leftarrow> mem_write out pos
         [enc_char (drop_bit 2 (ucast a0)), enc_char (push_bit 4 (ucast a0) OR drop_bit 4 (ucast b)),
          enc_char (push_bit 2 (ucast b) OR drop_bit 6 (ucast c)), enc_char (ucast c)];
       b64_encode_loop data len (i + 3) (sz_add pos 4) out'
     } else Some (out, i, pos))"
  by pat_completeness auto
termination
  by (relation "measure (\<lambda>(data, len, i, pos, out). len - i)") auto

declare b64_encode_loop.simps [simp del]

definition b64_encode_tail :: "byte list \<Rightarrow> nat \<Rightarrow> nat \<Rightarrow> nat \<Rightarrow> ptr \<Rightarrow> (ptr \<times> nat) option" where
  "b64_encode_tail data len i pos out =
    (let remaining = sz_sub len i in
     if remaining = 1 then do {
       a0 \<leftarrow> user_at data i;
       out' \<leftarrow> mem_write out pos
         [enc_char (drop_bit 2 (ucast a0)), enc_char (push_bit 4 (ucast a0)), 61, 61];
       Some (out', sz_add pos 4)
     } else if remaining = 2 then do {
       a0 \<leftarrow> user_at data i;
       b \<leftarrow> user_at data (i + 1);
       out' \<leftarrow> mem_write out pos
         [enc_char (drop_bit 2 (ucast a0)), enc_char (push_bit 4 (ucast a0) OR drop_bit 4 (ucast b)),
          enc_char (push_bit 2 (ucast b)), 61];
       Some (out', sz_add pos 4)
     } else Some (out, pos))"

definition b64_encode_impl ::
    "byte list option \<Rightarrow> nat \<Rightarrow> 'h zenit_allocator_t \<Rightarrow> 'h \<Rightarrow> (ptr \<times> 'h) option" where
  "b64_encode_impl data len a h =
    (if data = None \<and> 0 < len then Some (None, h)
     else case alloc_fn a (zenit_base64_encode_len len) h of
       (None, h1) \<Rightarrow> Some (None, h1)
     | (Some blk, h1) \<Rightarrow> do {
         let d = (case data of None \<Rightarrow> [] | Some d \<Rightarrow> d);
         (out, i, pos) \<leftarrow> b64_encode_loop d len 0 0 (Some blk);
         (out', pos') \<leftarrow> b64_encode_tail d len i pos out;
         out'' \<leftarrow> mem_write out' pos' [0];
         Some (out'', h1)
       })"

text \<open>The bytes a quad yields.\<close>

definition quad_out :: "byte \<Rightarrow> byte \<Rightarrow> 32 word \<Rightarrow> byte list" where
  "quad_out c2 c3 triple = [ucast (drop_bit 16 triple)] @
    (if c2 \<noteq> 61 then [ucast (drop_bit 8 triple)] else []) @
    (if c3 \<noteq> 61 then [ucast triple] else [])"

function b64_decode_loop :: "c_str \<Rightarrow> nat \<Rightarrow> nat \<Rightarrow> nat \<Rightarrow> ptr \<Rightarrow> (ptr \<times> nat) option option" where
  "b64_decode_loop encoded len i pos out =
    (if i < len then do {
       r \<leftarrow> decode_quad encoded i;
       case r of None \<Rightarrow> Some None
       | Some triple \<Rightarrow> do {
           c2 \<leftarrow> str_at encoded (i + 2);
           c3 \<leftarrow> str_at encoded (i + 3);
           let bs = quad_out c2 c3 triple;
           out' \<leftarrow> mem_write out pos bs;
           b64_decode_loop encoded len (i + 4) (sz_add pos (length bs)) out'
         }
     } else Some (Some (out, pos)))"
  by pat_completeness auto
termination
  by (relation "measure (\<lambda>(encoded, len, i, pos, out). len - i)") auto

declare b64_decode_loop.simps [simp del]

text \<open>Returns the block and the number of bytes; \<open>out_len\<close> is written unless it is NULL.\<close>

definition b64_decode_impl ::
    "c_str option \<Rightarrow> nat option \<Rightarrow> 'h zenit_allocator_t \<Rightarrow> 'h \<Rightarrow> (ptr \<times> nat option \<times> 'h) option" where
  "b64_decode_impl encodedp out_len a h =
    (case encodedp of None \<Rightarrow> Some (None, out_len, h)
     | Some encoded \<Rightarrow>
         let len = length encoded in
         if len < 4 \<or> len mod 4 \<noteq> 0 then Some (None, out_len, h)
         else case alloc_fn a (zenit_base64_decode_len encodedp) h of
           (None, h1) \<Rightarrow> Some (None, out_len, h1)
         | (Some b, h1) \<Rightarrow> do {
             r \<leftarrow> b64_decode_loop encoded len 0 0 (Some b);
             case r of
               None \<Rightarrow> do { h2 \<leftarrow> free_fn a (Some (maddr b)) h1; Some (None, out_len, h2) }
             | Some (out, pos) \<Rightarrow> Some (out, map_option (\<lambda>_. pos) out_len, h1)
           })"

definition zenit_base64_encode_with_allocator ::
    "byte list option \<Rightarrow> nat \<Rightarrow> 'h zenit_allocator_t \<Rightarrow> 'h \<Rightarrow> (ptr \<times> 'h) option" where
  "zenit_base64_encode_with_allocator data len a = b64_encode_impl data len a"

definition zenit_base64_encode :: "byte list option \<Rightarrow> nat \<Rightarrow> c_heap \<Rightarrow> (ptr \<times> c_heap) option" where
  "zenit_base64_encode data len = zenit_base64_encode_with_allocator data len ZENIT_ALLOCATOR_DEFAULT"

definition zenit_base64_decode_with_allocator ::
    "c_str option \<Rightarrow> nat option \<Rightarrow> 'h zenit_allocator_t \<Rightarrow> 'h \<Rightarrow> (ptr \<times> nat option \<times> 'h) option" where
  "zenit_base64_decode_with_allocator encoded out_len a = b64_decode_impl encoded out_len a"

definition zenit_base64_decode ::
    "c_str option \<Rightarrow> nat option \<Rightarrow> c_heap \<Rightarrow> (ptr \<times> nat option \<times> c_heap) option" where
  "zenit_base64_decode encoded out_len = zenit_base64_decode_with_allocator encoded out_len ZENIT_ALLOCATOR_DEFAULT"

section \<open>The tables are inverse to each other\<close>

lemma enc_codes:
  "enc_table = [65, 66, 67, 68, 69, 70, 71, 72, 73, 74, 75, 76, 77, 78, 79, 80, 81, 82, 83, 84, 85, 86, 87, 88,
    89, 90, 97, 98, 99, 100, 101, 102, 103, 104, 105, 106, 107, 108, 109, 110, 111, 112, 113, 114, 115, 116,
    117, 118, 119, 120, 121, 122, 48, 49, 50, 51, 52, 53, 54, 55, 56, 57, 43, 47]"
  by (simp add: enc_table_def)

lemma dec_enc_table: "map (\<lambda>c. dec_table ! unat c) enc_table = map of_nat [0..<64]"
  unfolding enc_codes by (simp add: dec_table_def upt_conv_Cons)

lemma enc_table_chars: "c \<in> set enc_table \<Longrightarrow> c \<noteq> 61 \<and> c \<noteq> 0"
  unfolding enc_codes by auto

lemma sixtyfour: "unat ((w::32 word) AND 0x3F) < 64"
  using word_and_le1 [of w "0x3F"] by (simp add: word_le_nat_alt)

lemma enc_char_props:
  "dec_table ! unat (enc_char w) = ucast (w AND 0x3F)" "enc_char w \<noteq> 61" "enc_char w \<noteq> 0"
proof -
  have len: "length enc_table = 64" by (simp add: enc_codes)
  have n: "unat (w AND 0x3F) < length enc_table" using sixtyfour len by simp
  have "map (\<lambda>c. dec_table ! unat c) enc_table ! unat (w AND 0x3F) = map of_nat [0..<64] ! unat (w AND 0x3F)"
    by (simp only: dec_enc_table)
  then show "dec_table ! unat (enc_char w) = ucast (w AND 0x3F)"
    using n len by (simp add: enc_char_def)
  show "enc_char w \<noteq> 61" "enc_char w \<noteq> 0"
    using enc_table_chars [OF nth_mem [OF n]] by (simp_all add: enc_char_def)
qed

lemma small_not_ff: "(ucast (w AND (0x3F :: 32 word)) :: byte) \<noteq> 0xFF"
proof
  assume "(ucast (w AND (0x3F :: 32 word)) :: byte) = 0xFF"
  then have "unat (ucast (w AND (0x3F :: 32 word)) :: byte) = unat (0xFF :: byte)" by (simp only:)
  also have "unat (0xFF :: byte) = 255" by code_simp
  finally have "unat (ucast (w AND (0x3F :: 32 word)) :: byte) = 255" .
  moreover have "unat (ucast (w AND (0x3F :: 32 word)) :: byte) \<le> unat (w AND 0x3F)"
    by (simp add: unsigned_ucast_eq take_bit_eq_mod)
  ultimately show False using sixtyfour [of w] by simp
qed

section \<open>Quads\<close>

text \<open>The characters of a group of three bytes, and what decoding makes of them.\<close>

definition quad3 :: "byte \<Rightarrow> byte \<Rightarrow> byte \<Rightarrow> c_str" where
  "quad3 a b c = [enc_char (drop_bit 2 (ucast a)), enc_char (push_bit 4 (ucast a) OR drop_bit 4 (ucast b)),
     enc_char (push_bit 2 (ucast b) OR drop_bit 6 (ucast c)), enc_char (ucast c)]"

definition quad2 :: "byte \<Rightarrow> byte \<Rightarrow> c_str" where
  "quad2 a b = [enc_char (drop_bit 2 (ucast a)), enc_char (push_bit 4 (ucast a) OR drop_bit 4 (ucast b)),
     enc_char (push_bit 2 (ucast b)), 61]"

definition quad1 :: "byte \<Rightarrow> c_str" where
  "quad1 a = [enc_char (drop_bit 2 (ucast a)), enc_char (push_bit 4 (ucast a)), 61, 61]"

definition quad_bytes :: "byte \<Rightarrow> byte \<Rightarrow> byte \<Rightarrow> byte \<Rightarrow> byte list option" where
  "quad_bytes c0 c1 c2 c3 = map_option (quad_out c2 c3) (quad_triple c0 c1 c2 c3)"

lemma mask6: "(0x3F :: 32 word) = mask 6"
  by (simp add: mask_eq_exp_minus_1)

lemma byte_bit_high: "8 \<le> n \<Longrightarrow> \<not> bit (b::byte) n"
  by (auto dest: bit_imp_le_length)

lemma byte_cases: "n < 8 \<Longrightarrow> n = 0 \<or> n = 1 \<or> n = 2 \<or> n = 3 \<or> n = 4 \<or> n = 5 \<or> n = 6 \<or> n = (7::nat)"
  by auto

lemma join_bits:
  fixes a b c :: byte
  defines "d0 \<equiv> drop_bit 2 (ucast a) AND 0x3F :: 32 word"
    and "d1 \<equiv> (push_bit 4 (ucast a) OR drop_bit 4 (ucast b)) AND 0x3F :: 32 word"
    and "d2 \<equiv> (push_bit 2 (ucast b) OR drop_bit 6 (ucast c)) AND 0x3F :: 32 word"
    and "d3 \<equiv> ucast c AND 0x3F :: 32 word"
  defines "t \<equiv> push_bit 18 (ucast (ucast d0 :: byte)) OR push_bit 12 (ucast (ucast d1 :: byte)) :: 32 word"
  defines "t2 \<equiv> t OR push_bit 6 (ucast (ucast d2 :: byte))"
  defines "t3 \<equiv> t2 OR ucast (ucast d3 :: byte)"
  shows "ucast (drop_bit 16 t) = a" and "ucast (drop_bit 16 t2) = a" and "ucast (drop_bit 8 t2) = b"
    and "ucast (drop_bit 16 t3) = a" and "ucast (drop_bit 8 t3) = b" and "ucast t3 = c"
  unfolding t3_def t2_def t_def d0_def d1_def d2_def d3_def mask6
  by (auto intro!: bit_eqI simp: bit_simps byte_bit_high dest!: byte_cases)
    (simp_all add: numeral_2_eq_2 numeral_3_eq_3)

lemma quad_bytes3: "quad3 a b c = [c0, c1, c2, c3] \<Longrightarrow> quad_bytes c0 c1 c2 c3 = Some [a, b, c]"
  using join_bits(4-6) [of a b c]
  by (auto simp: quad3_def quad_bytes_def quad_triple_def quad_out_def enc_char_props small_not_ff Let_def)

lemma quad_bytes2: "quad2 a b = [c0, c1, c2, c3] \<Longrightarrow> quad_bytes c0 c1 c2 c3 = Some [a, b]"
  using join_bits(2,3) [of a b 0]
  by (auto simp: quad2_def quad_bytes_def quad_triple_def quad_out_def enc_char_props small_not_ff Let_def)

lemma quad_bytes1: "quad1 a = [c0, c1, c2, c3] \<Longrightarrow> quad_bytes c0 c1 c2 c3 = Some [a]"
  using join_bits(1) [of a 0]
  by (auto simp: quad1_def quad_bytes_def quad_triple_def quad_out_def enc_char_props small_not_ff Let_def)

section \<open>Encoding\<close>

fun b64_text :: "byte list \<Rightarrow> c_str" where
  "b64_text [] = []"
| "b64_text [a] = quad1 a"
| "b64_text [a, b] = quad2 a b"
| "b64_text (a # b # c # d) = quad3 a b c @ b64_text d"

lemma quad_length [simp]: "length (quad1 a) = 4" "length (quad2 a b) = 4" "length (quad3 a b c) = 4"
  by (simp_all add: quad1_def quad2_def quad3_def)

lemma c_string_quads: "c_string (quad1 a)" "c_string (quad2 a b)" "c_string (quad3 a b c)"
  using enc_char_props(3) by (simp_all add: quad1_def quad2_def quad3_def)

lemma c_string_b64_text: "c_string (b64_text d)"
  by (induction d rule: b64_text.induct) (simp_all add: c_string_quads)

lemma length_b64_text: "length (b64_text d) = (length d + 2) div 3 * 4"
proof (induction d rule: b64_text.induct)
  case (4 a b c d)
  have "(length d + 5) div 3 = Suc ((length d + 2) div 3)" by presburger
  then show ?case using 4 by (simp add: add.commute)
qed simp_all

lemma b64_encode_loop_ok:
  assumes "plen out < size_mod" and "out \<noteq> None" and "pos + length (b64_text (drop i d)) \<le> plen out"
    and "i \<le> length d"
  shows "\<exists>q j t. b64_encode_loop d (length d) i pos out = Some (q, j, pos + length t) \<and> emitted out pos t q \<and>
    j \<le> length d \<and> length d < j + 3 \<and> b64_text (drop i d) = t @ b64_text (drop j d)"
  using assms
proof (induction "length d - i" arbitrary: i pos out rule: less_induct)
  case less
  show ?case
  proof (cases "i + 3 \<le> length d")
    case False
    then show ?thesis using less.prems
      by (subst b64_encode_loop.simps) (auto simp: emitted_Nil intro!: exI [of _ "[]"])
  next
    case True
    let ?t = "quad3 (d ! i) (d ! (i + 1)) (d ! (i + 2))"
    have dr: "drop i d = d ! i # d ! (i + 1) # d ! (i + 2) # drop (i + 3) d"
      using True by (simp add: Cons_nth_drop_Suc [symmetric] One_nat_def numeral_2_eq_2 numeral_3_eq_3)
    then have tx: "b64_text (drop i d) = ?t @ b64_text (drop (i + 3) d)" by simp
    then have fit: "pos + length ?t + length (b64_text (drop (i + 3) d)) \<le> plen out"
      using less.prems(3) by simp
    obtain p where p: "mem_write out pos ?t = Some p" "emitted out pos ?t p"
      using write_emits [OF less.prems(2), of pos ?t] fit by auto
    have p2: "plen p = plen out" "p \<noteq> None" using emitted_plen emitted_not_None p(2) less.prems(2) by blast+
    have "\<exists>q j t. b64_encode_loop d (length d) (i + 3) (pos + 4) p = Some (q, j, pos + 4 + length t) \<and>
        emitted p (pos + 4) t q \<and> j \<le> length d \<and> length d < j + 3 \<and>
        b64_text (drop (i + 3) d) = t @ b64_text (drop j d)"
      by (rule less.hyps) (use True p2 fit less.prems in auto)
    then obtain q j t where q: "b64_encode_loop d (length d) (i + 3) (pos + 4) p = Some (q, j, pos + 4 + length t)"
        "emitted p (pos + 4) t q" "j \<le> length d" "length d < j + 3"
        "b64_text (drop (i + 3) d) = t @ b64_text (drop j d)" by blast
    have "b64_encode_loop d (length d) i pos out = b64_encode_loop d (length d) (i + 3) (pos + 4) p"
      using True p(1) fit less.prems(1) by (subst b64_encode_loop.simps) (simp add: quad3_def size_simps)
    moreover have "emitted out pos (?t @ t) q"
      by (rule emitted_trans [OF p(2)]) (use q(2,5) fit in simp_all)
    ultimately show ?thesis using q tx by (intro exI [of _ q] exI [of _ j] exI [of _ "?t @ t"]) simp
  qed
qed

lemma b64_encode_tail_ok:
  assumes "plen out < size_mod" and "out \<noteq> None" and "pos + length (b64_text (drop j d)) \<le> plen out"
    and "j \<le> length d" and "length d < j + 3" and "length d < size_mod"
  shows "\<exists>q. b64_encode_tail d (length d) j pos out = Some (q, pos + length (b64_text (drop j d))) \<and>
    emitted out pos (b64_text (drop j d)) q"
proof -
  have sub: "sz_sub (length d) j = length d - j" using assms by (simp add: size_simps)
  consider "length d = j" | "length d = j + 1" | "length d = j + 2" using assms(4,5) by linarith
  then show ?thesis
  proof cases
    case 1
    then show ?thesis using sub assms(2) by (simp add: b64_encode_tail_def emitted_Nil Let_def)
  next
    case 2
    then have dr: "drop j d = [d ! j]" by (simp add: Cons_nth_drop_Suc [symmetric])
    obtain p where "mem_write out pos (quad1 (d ! j)) = Some p" "emitted out pos (quad1 (d ! j)) p"
      using write_emits [OF assms(2), of pos "quad1 (d ! j)"] assms(3) dr by auto
    then show ?thesis using 2 sub dr assms
      by (simp add: b64_encode_tail_def quad1_def size_simps)
  next
    case 3
    then have dr: "drop j d = [d ! j, d ! (j + 1)]"
      by (simp add: Cons_nth_drop_Suc [symmetric] One_nat_def)
    obtain p where "mem_write out pos (quad2 (d ! j) (d ! (j + 1))) = Some p"
        "emitted out pos (quad2 (d ! j) (d ! (j + 1))) p"
      using write_emits [OF assms(2), of pos "quad2 (d ! j) (d ! (j + 1))"] assms(3) dr by auto
    then show ?thesis using 3 sub dr assms
      by (simp add: b64_encode_tail_def quad2_def size_simps)
  qed
qed

lemma b64_encode_cases:
  assumes c: "allocator_contract a live" and sz: "(length d + 2) div 3 * 4 + 1 < size_mod"
  obtains (null) h' where "zenit_base64_encode_with_allocator (Some d) (length d) a h = Some (None, h')"
      and "live h' = live h"
  | (made) b h' where "zenit_base64_encode_with_allocator (Some d) (length d) a h = Some (Some b, h')"
      and "block_str b = b64_text d" and "live h' = insert (maddr b) (live h)"
proof -
  have ld: "length d + 2 < size_mod" using sz by (simp add: size_mod_def)
  have n: "zenit_base64_encode_len (length d) = (length d + 2) div 3 * 4 + 1"
    using sz ld by (simp add: zenit_base64_encode_len_def size_simps)
  note def = zenit_base64_encode_with_allocator_def b64_encode_impl_def n Let_def
  show thesis
  proof (cases rule: allocator_contract.alloc_cases [OF c, of "(length d + 2) div 3 * 4 + 1" h, case_names null block])
    case (null h1)
    then show thesis by (intro that(1) [of h1]) (simp_all add: def)
  next
    case (block b h1)
    have fit: "length (b64_text d) < length (mbytes b)" using block(2) by (simp add: length_b64_text)
    obtain q j t where q: "b64_encode_loop d (length d) 0 0 (Some b) = Some (q, j, length t)"
        "emitted (Some b) 0 t q" "j \<le> length d" "length d < j + 3" "b64_text d = t @ b64_text (drop j d)"
      using b64_encode_loop_ok [of "Some b" 0 0 d] block(2) sz fit by auto
    have q2: "plen q = length (mbytes b)" "q \<noteq> None"
      using emitted_plen [OF q(2)] emitted_not_None [OF q(2)] by simp_all
    obtain r where r: "b64_encode_tail d (length d) j (length t) q = Some (r, length (b64_text d))"
        "emitted q (length t) (b64_text (drop j d)) r"
      using b64_encode_tail_ok [of q "length t" j d] q2 q(3-5) block(2) sz ld fit by auto
    have e: "emitted (Some b) 0 (b64_text d) r"
      unfolding q(5) by (rule emitted_trans [OF q(2)]) (use r(2) q(5) fit in simp_all)
    obtain b' where "mem_write r (length (b64_text d)) [0] = Some (Some b')" "block_str b' = b64_text d"
        "maddr b' = maddr b"
      by (rule emitted_terminate [OF e c_string_b64_text fit])
    then show thesis using block q(1) r(1) by (intro that(2) [of b' h1]) (simp_all add: def)
  qed
qed

section \<open>Decoding\<close>

fun b64_bytes :: "c_str \<Rightarrow> byte list option" where
  "b64_bytes [] = Some []"
| "b64_bytes (c0 # c1 # c2 # c3 # s) =
    (case quad_bytes c0 c1 c2 c3 of None \<Rightarrow> None | Some v \<Rightarrow> map_option (append v) (b64_bytes s))"
| "b64_bytes _ = None"

lemma length_quad_bytes: "quad_bytes c0 c1 c2 c3 = Some v \<Longrightarrow> length v \<le> 3"
  by (auto simp: quad_bytes_def quad_out_def)

lemma length_b64_bytes: "b64_bytes s = Some v \<Longrightarrow> length v \<le> length s div 4 * 3"
proof (induction s arbitrary: v rule: b64_bytes.induct)
  case (2 c0 c1 c2 c3 s)
  then obtain w u where w: "quad_bytes c0 c1 c2 c3 = Some w" "b64_bytes s = Some u" "v = w @ u"
    by (auto split: option.splits)
  have "(4 + length s) div 4 = Suc (length s div 4)" by simp
  then show ?case using w(3) "2.IH" [OF w(1,2)] length_quad_bytes [OF w(1)] by (simp add: add.commute)
qed simp_all

lemma b64_bytes_text: "b64_bytes (b64_text d) = Some d"
proof (induction d rule: b64_text.induct)
  case (2 a)
  then show ?case using quad_bytes1 [of a] by (simp add: quad1_def)
next
  case (3 a b)
  then show ?case using quad_bytes2 [of a b] by (simp add: quad2_def)
next
  case (4 a b c d)
  then show ?case using quad_bytes3 [of a b c] by (simp add: quad3_def)
qed simp

lemma b64_decode_loop_ok:
  assumes "plen out < size_mod" and "out \<noteq> None" and "pos + (length s - i) div 4 * 3 \<le> plen out"
    and "i \<le> length s" and "4 dvd length s - i"
  shows "\<exists>r. b64_decode_loop s (length s) i pos out = Some r \<and>
    (case b64_bytes (drop i s) of None \<Rightarrow> r = None
     | Some v \<Rightarrow> \<exists>q. r = Some (q, pos + length v) \<and> emitted out pos v q)"
  using assms
proof (induction "length s - i" arbitrary: i pos out rule: less_induct)
  case less
  show ?case
  proof (cases "i < length s")
    case False
    then show ?thesis using less.prems by (subst b64_decode_loop.simps) (simp add: emitted_Nil)
  next
    case i: True
    then have i3: "i + 4 \<le> length s" using less.prems(5) by (auto dest: dvd_imp_le)
    have dvd4: "4 dvd length s - (i + 4)" using dvd_diff_nat [OF less.prems(5) dvd_refl] by simp
    let ?c = "\<lambda>k. s ! (i + k)"
    have dr: "drop i s = ?c 0 # ?c 1 # ?c 2 # ?c 3 # drop (i + 4) s"
      using i3 by (simp add: Cons_nth_drop_Suc [symmetric] One_nat_def numeral_2_eq_2 numeral_3_eq_3 numeral_Bit0)
    have dq: "decode_quad s i = Some (quad_triple (?c 0) (?c 1) (?c 2) (?c 3))"
      using i3 by (simp add: decode_quad_def)
    show ?thesis
    proof (cases "quad_triple (?c 0) (?c 1) (?c 2) (?c 3)")
      case None
      then show ?thesis using i dq dr by (subst b64_decode_loop.simps) (simp add: quad_bytes_def)
    next
      case (Some w)
      let ?v = "quad_out (?c 2) (?c 3) w"
      have lv: "length ?v \<le> 3" by (simp add: quad_out_def)
      have div: "(length s - i) div 4 = Suc ((length s - (i + 4)) div 4)" using i3 by simp
      obtain p where p: "mem_write out pos ?v = Some p" "emitted out pos ?v p"
        using write_emits [OF less.prems(2), of pos ?v] lv less.prems(3) div by auto
      have p2: "plen p = plen out" "p \<noteq> None" using emitted_plen emitted_not_None p(2) less.prems(2) by blast+
      have "\<exists>r. b64_decode_loop s (length s) (i + 4) (pos + length ?v) p = Some r \<and>
          (case b64_bytes (drop (i + 4) s) of None \<Rightarrow> r = None
           | Some v \<Rightarrow> \<exists>q. r = Some (q, pos + length ?v + length v) \<and> emitted p (pos + length ?v) v q)"
        by (rule less.hyps) (use i i3 p2 lv div dvd4 less.prems in auto)
      then obtain r where r: "b64_decode_loop s (length s) (i + 4) (pos + length ?v) p = Some r"
          "case b64_bytes (drop (i + 4) s) of None \<Rightarrow> r = None
           | Some v \<Rightarrow> \<exists>q. r = Some (q, pos + length ?v + length v) \<and> emitted p (pos + length ?v) v q" by blast
      have "sz_add pos (length ?v) = pos + length ?v"
        using lv div less.prems(1,3) by (intro sz_add_nowrap) simp
      then have run: "b64_decode_loop s (length s) i pos out = Some r"
        using i i3 dq Some p(1) r(1) by (subst b64_decode_loop.simps) (simp add: Let_def)
      have qb: "quad_bytes (?c 0) (?c 1) (?c 2) (?c 3) = Some ?v" using Some by (simp add: quad_bytes_def)
      show ?thesis
      proof (cases "b64_bytes (drop (i + 4) s)")
        case None
        then show ?thesis using run r(2) dr qb by simp
      next
        case (Some v)
        then obtain q where q: "r = Some (q, pos + length ?v + length v)" "emitted p (pos + length ?v) v q"
          using r(2) by auto
        have "length v \<le> (length s - (i + 4)) div 4 * 3" using length_b64_bytes [OF Some] by simp
        then have "emitted out pos (?v @ v) q"
          by (intro emitted_trans [OF p(2) q(2)]) (use lv div less.prems(3) in simp)
        then show ?thesis using run q(1) Some dr qb by simp
      qed
    qed
  qed
qed

section \<open>Correctness\<close>

lemma b64_decode_cases:
  assumes c: "allocator_contract a live" and sz: "length s < size_mod" and len: "4 \<le> length s" "4 dvd length s"
  obtains (null) h' where "zenit_base64_decode_with_allocator (Some s) n a h = Some (None, n, h')"
      and "live h' = live h" and "b64_bytes s = None \<or> fst (alloc_fn a (length s div 4 * 3) h) = None"
  | (made) v b h' where "zenit_base64_decode_with_allocator (Some s) n a h =
        Some (Some b, map_option (\<lambda>_. length v) n, h')"
      and "b64_bytes s = Some v" and "take (length v) (mbytes b) = v" and "live h' = insert (maddr b) (live h)"
proof -
  have n: "zenit_base64_decode_len (Some s) = length s div 4 * 3"
    using sz by (simp add: zenit_base64_decode_len_def size_simps)
  note def = zenit_base64_decode_with_allocator_def b64_decode_impl_def n Let_def
  have ok: "\<not> length s < 4" "length s mod 4 = 0" using len by simp_all
  show thesis
  proof (cases rule: allocator_contract.alloc_cases [OF c, of "length s div 4 * 3" h, case_names null block])
    case (null h1)
    then show thesis using ok by (intro that(1) [of h1]) (simp_all add: def)
  next
    case (block b h1)
    have "length s div 4 * 3 < size_mod" using sz by simp
    then have "\<exists>r. b64_decode_loop s (length s) 0 0 (Some b) = Some r \<and>
      (case b64_bytes (drop 0 s) of None \<Rightarrow> r = None
       | Some v \<Rightarrow> \<exists>q. r = Some (q, 0 + length v) \<and> emitted (Some b) 0 v q)"
      by (intro b64_decode_loop_ok) (use block(2) len in simp_all)
    then obtain r where r: "b64_decode_loop s (length s) 0 0 (Some b) = Some r"
        "case b64_bytes s of None \<Rightarrow> r = None
         | Some v \<Rightarrow> \<exists>q. r = Some (q, length v) \<and> emitted (Some b) 0 v q"
      unfolding drop_0 add_0 by blast
    show thesis
    proof (cases "b64_bytes s")
      case None
      have "maddr b \<in> live h1" using block by simp
      from allocator_contract.free_addr [OF c this] obtain h2 where
        "free_fn a (Some (maddr b)) h1 = Some h2" "live h2 = live h1 - {maddr b}" by blast
      then show thesis using None r block ok by (intro that(1) [of h2]) (simp_all add: def)
    next
      case (Some v)
      then obtain q where q: "r = Some (q, length v)" "emitted (Some b) 0 v q" using r(2) by auto
      then obtain b' where "q = Some b'" "maddr b' = maddr b" "mbytes b' = blit (mbytes b) 0 v"
        by (cases q) (auto simp: emitted_def same_block_def)
      then show thesis using Some r(1) q(1) block ok
        by (intro that(2) [of b' v h1]) (simp_all add: def blit_def)
    qed
  qed
qed


text \<open>
  C18: whatever string is decoded, every access stays inside the string and the allocated block; the
  result is that of the quad-wise reference decoder, and a malformed string leaks nothing.
\<close>

theorem base64_decode_safe:
  assumes c: "allocator_contract a live" and sz: "length s < size_mod"
  shows "\<exists>r n' h'. zenit_base64_decode_with_allocator (Some s) n a h = Some (r, n', h') \<and>
    (case r of None \<Rightarrow> n' = n \<and> live h' = live h
     | Some b \<Rightarrow> live h' = insert (maddr b) (live h) \<and> (\<exists>v. b64_bytes s = Some v \<and> take (length v) (mbytes b) = v))"
proof (cases "length s < 4 \<or> \<not> 4 dvd length s")
  case True
  then have "length s < 4 \<or> length s mod 4 \<noteq> 0" by auto
  then show ?thesis by (simp add: zenit_base64_decode_with_allocator_def b64_decode_impl_def Let_def)
next
  case False
  then have "4 \<le> length s" "4 dvd length s" by simp_all
  then show ?thesis by (cases rule: b64_decode_cases [OF c sz, of n h]) auto
qed

section \<open>Concrete instances\<close>


theorem base64_decode_safe_witness:
  "\<exists>r n h'. zenit_base64_decode_with_allocator (Some [61, 61, 0, 200]) None ZENIT_ALLOCATOR_DEFAULT demo_text_heap =
     Some (r, n, h')"
  using base64_decode_safe [OF default_contract, of "[61, 61, 0, 200]" None demo_text_heap]
  by (auto simp: size_mod_def)

end
