(* ===== verification/Zenit_Sort.thy ===== *)
theory Zenit_Sort
  imports Zenit_Compare Zenit_Allocator
begin

text \<open>
  Sorting and searching (\<open>src/sort.c\<close>). An array of \<open>count\<close> elements of \<open>elem_size\<close> bytes is the list of
  its elements; moving an element is one step, and an access outside the array is undefined
  (\<open>None\<close>). The scratch buffer of the merge sort has as many elements as the allocated bytes hold.
  Comparators are parameters; what the routines rely on is the locale \<open>total_compare\<close>.
\<close>

section \<open>Arrays of elements\<close>

definition arr_get :: "'a list \<Rightarrow> nat \<Rightarrow> 'a option" where
  "arr_get b i = (if i < length b then Some (b ! i) else None)"

definition arr_put :: "'a list \<Rightarrow> nat \<Rightarrow> 'a \<Rightarrow> 'a list option" where
  "arr_put b i x = (if i < length b then Some (b[i := x]) else None)"

lemma arr_get_in [simp]: "i < length b \<Longrightarrow> arr_get b i = Some (b ! i)"
  by (simp add: arr_get_def)

lemma arr_put_in [simp]: "i < length b \<Longrightarrow> arr_put b i x = Some (b[i := x])"
  by (simp add: arr_put_def)

section \<open>Merge sort\<close>

function merge_loop ::
    "('a \<Rightarrow> 'a \<Rightarrow> int) \<Rightarrow> 'a list \<Rightarrow> nat \<Rightarrow> nat \<Rightarrow> nat \<Rightarrow> nat \<Rightarrow> nat \<Rightarrow> 'a list \<Rightarrow>
     (nat \<times> nat \<times> nat \<times> 'a list) option" where
  "merge_loop cmp b mid hi i j k buf =
    (if i < mid \<and> j < hi then do {
       x \<leftarrow> arr_get b i;
       y \<leftarrow> arr_get b j;
       if cmp x y \<le> 0 then do {
         buf' \<leftarrow> arr_put buf k x;
         merge_loop cmp b mid hi (i + 1) j (k + 1) buf'
       } else do {
         buf' \<leftarrow> arr_put buf k y;
         merge_loop cmp b mid hi i (j + 1) (k + 1) buf'
       }
     } else Some (i, j, k, buf))"
  by pat_completeness auto
termination
  by (relation "measure (\<lambda>(cmp, b, mid, hi, i, j, k, buf). (mid - i) + (hi - j))") auto

declare merge_loop.simps [simp del]

text \<open>The two loops that copy what is left of one half.\<close>

function copy_loop :: "'a list \<Rightarrow> nat \<Rightarrow> nat \<Rightarrow> nat \<Rightarrow> 'a list \<Rightarrow> (nat \<times> 'a list) option" where
  "copy_loop b lim i k buf =
    (if i < lim then do {
       x \<leftarrow> arr_get b i;
       buf' \<leftarrow> arr_put buf k x;
       copy_loop b lim (i + 1) (k + 1) buf'
     } else Some (k, buf))"
  by pat_completeness auto
termination
  by (relation "measure (\<lambda>(b, lim, i, k, buf). lim - i)") auto

declare copy_loop.simps [simp del]

definition merge ::
    "('a \<Rightarrow> 'a \<Rightarrow> int) \<Rightarrow> 'a list \<Rightarrow> nat \<Rightarrow> nat \<Rightarrow> nat \<Rightarrow> 'a list \<Rightarrow> ('a list \<times> 'a list) option" where
  "merge cmp b lo mid hi buf = do {
     (i, j, k, buf1) \<leftarrow> merge_loop cmp b mid hi lo mid 0 buf;
     (k1, buf2) \<leftarrow> copy_loop b mid i k buf1;
     (k2, buf3) \<leftarrow> copy_loop b hi j k1 buf2;
     if lo + k2 \<le> length b \<and> k2 \<le> length buf3 then Some (blit b lo (take k2 buf3), buf3) else None
   }"

text \<open>Callers pass \<open>lo\<close> not above \<open>hi\<close>, so \<open>hi - lo\<close> does not wrap.\<close>

function mergesort_impl ::
    "('a \<Rightarrow> 'a \<Rightarrow> int) \<Rightarrow> 'a list \<Rightarrow> nat \<Rightarrow> nat \<Rightarrow> 'a list \<Rightarrow> ('a list \<times> 'a list) option" where
  "mergesort_impl cmp b lo hi buf =
    (if hi - lo < 2 then Some (b, buf)
     else do {
       let mid = lo + (hi - lo) div 2;
       (b1, buf1) \<leftarrow> mergesort_impl cmp b lo mid buf;
       (b2, buf2) \<leftarrow> mergesort_impl cmp b1 mid hi buf1;
       merge cmp b2 lo mid hi buf2
     })"
  by pat_completeness auto
termination
  by (relation "measure (\<lambda>(cmp, b, lo, hi, buf). hi - lo)") auto

declare mergesort_impl.simps [simp del]

text \<open>\<open>None\<close> as a base pointer or comparator is NULL; the array itself is the first component.\<close>

definition zenit_sort_stable ::
    "byte list list option \<Rightarrow> nat \<Rightarrow> nat \<Rightarrow> (byte list \<Rightarrow> byte list \<Rightarrow> int) option \<Rightarrow> c_heap \<Rightarrow>
     (zenit_result_t \<times> byte list list option \<times> c_heap) option" where
  "zenit_sort_stable base cnt elem_size compare h =
    (case (base, compare) of
       (Some b, Some cmp) \<Rightarrow>
         if cnt < 2 \<or> elem_size = 0 then Some (ZENIT_OK, base, h)
         else (case c_malloc (sz_mul cnt elem_size) h of
            (None, h1) \<Rightarrow> Some (ZENIT_ERROR_ALLOC, base, h1)
          | (Some blk, h1) \<Rightarrow> do {
              (b', buf) \<leftarrow> mergesort_impl cmp b 0 cnt (replicate (length (mbytes blk) div elem_size) []);
              h2 \<leftarrow> c_free (Some (maddr blk)) h1;
              Some (ZENIT_OK, Some b', h2)
            })
     | _ \<Rightarrow> Some (ZENIT_OK, base, h))"

section \<open>Quick sort\<close>

definition swap_elems :: "'a list \<Rightarrow> nat \<Rightarrow> nat \<Rightarrow> 'a list option" where
  "swap_elems b i j = do {
     x \<leftarrow> arr_get b i;
     y \<leftarrow> arr_get b j;
     b1 \<leftarrow> arr_put b i y;
     arr_put b1 j x
   }"

definition swap_if_greater :: "('a \<Rightarrow> 'a \<Rightarrow> int) \<Rightarrow> 'a list \<Rightarrow> nat \<Rightarrow> nat \<Rightarrow> 'a list option" where
  "swap_if_greater cmp b i j = do {
     x \<leftarrow> arr_get b i;
     y \<leftarrow> arr_get b j;
     if cmp x y > 0 then swap_elems b i j else Some b
   }"

definition median_of_three :: "('a \<Rightarrow> 'a \<Rightarrow> int) \<Rightarrow> 'a list \<Rightarrow> nat \<Rightarrow> nat \<Rightarrow> (nat \<times> 'a list) option" where
  "median_of_three cmp b lo hi = do {
     let mid = lo + (hi - lo) div 2;
     b1 \<leftarrow> swap_if_greater cmp b lo mid;
     b2 \<leftarrow> swap_if_greater cmp b1 lo hi;
     b3 \<leftarrow> swap_if_greater cmp b2 mid hi;
     Some (mid, b3)
   }"

text \<open>
  The two \<open>do\<close>-\<open>while\<close> scans of \<open>partition\<close>. The pivot is a pointer into the array, read anew for every
  comparison; \<open>i\<close> and \<open>j\<close> are the indices after the first step. Decrementing index 0 wraps to the
  largest size, where no array has an element.
\<close>

function scan_up :: "('a \<Rightarrow> 'a \<Rightarrow> int) \<Rightarrow> 'a list \<Rightarrow> nat \<Rightarrow> nat \<Rightarrow> nat option" where
  "scan_up cmp b pivot i =
    (if i < length b then do {
       p \<leftarrow> arr_get b pivot;
       if cmp (b ! i) p < 0 then scan_up cmp b pivot (i + 1) else Some i
     } else None)"
  by pat_completeness auto
termination
  by (relation "measure (\<lambda>(cmp, b, pivot, i). length b - i)") auto

declare scan_up.simps [simp del]

function scan_down :: "('a \<Rightarrow> 'a \<Rightarrow> int) \<Rightarrow> 'a list \<Rightarrow> nat \<Rightarrow> nat \<Rightarrow> nat option" where
  "scan_down cmp b pivot j =
    (if j < length b then do {
       p \<leftarrow> arr_get b pivot;
       if cmp (b ! j) p > 0 then (if j = 0 then None else scan_down cmp b pivot (j - 1)) else Some j
     } else None)"
  by pat_completeness auto
termination
  by (relation "measure (\<lambda>(cmp, b, pivot, j). j)") auto

declare scan_down.simps [simp del]

partial_function (option) partition_loop ::
    "('a \<Rightarrow> 'a \<Rightarrow> int) \<Rightarrow> 'a list \<Rightarrow> nat \<Rightarrow> nat \<Rightarrow> nat \<Rightarrow> (nat \<times> 'a list) option" where
  "partition_loop cmp b pivot i j = do {
     i' \<leftarrow> scan_up cmp b pivot i;
     j' \<leftarrow> scan_down cmp b pivot j;
     if j' \<le> i' then Some (j', b)
     else do {
       b' \<leftarrow> swap_elems b i' j';
       partition_loop cmp b' pivot (sz_add i' 1) (sz_sub j' 1)
     }
   }"

declare partition_loop.simps [code]

definition partition :: "('a \<Rightarrow> 'a \<Rightarrow> int) \<Rightarrow> 'a list \<Rightarrow> nat \<Rightarrow> nat \<Rightarrow> (nat \<times> 'a list) option" where
  "partition cmp b lo hi = do {
     (mid, b1) \<leftarrow> median_of_three cmp b lo hi;
     b2 \<leftarrow> swap_elems b1 lo mid;
     partition_loop cmp b2 lo (sz_add (sz_sub lo 1) 1) (sz_sub (sz_add hi 1) 1)
   }"

partial_function (option) quicksort ::
    "('a \<Rightarrow> 'a \<Rightarrow> int) \<Rightarrow> 'a list \<Rightarrow> nat \<Rightarrow> nat \<Rightarrow> 'a list option" where
  "quicksort cmp b lo hi =
    (if lo < hi then do {
       (p, b1) \<leftarrow> partition cmp b lo hi;
       if sz_sub p lo < sz_sub hi p then do {
         b2 \<leftarrow> quicksort cmp b1 lo p;
         quicksort cmp b2 (sz_add p 1) hi
       } else do {
         b2 \<leftarrow> quicksort cmp b1 (sz_add p 1) hi;
         quicksort cmp b2 lo p
       }
     } else Some b)"

declare quicksort.simps [code]

definition zenit_sort_quick ::
    "byte list list option \<Rightarrow> nat \<Rightarrow> nat \<Rightarrow> (byte list \<Rightarrow> byte list \<Rightarrow> int) option \<Rightarrow>
     byte list list option option" where
  "zenit_sort_quick base cnt elem_size compare =
    (case (base, compare) of
       (Some b, Some cmp) \<Rightarrow>
         if cnt < 2 \<or> elem_size = 0 then Some base
         else do { b' \<leftarrow> quicksort cmp b 0 (cnt - 1); Some (Some b') }
     | _ \<Rightarrow> Some base)"

section \<open>Searches\<close>

function search_loop ::
    "(byte list \<Rightarrow> byte list \<Rightarrow> int) \<Rightarrow> byte list \<Rightarrow> byte list list \<Rightarrow> nat \<Rightarrow> nat \<Rightarrow> nat option option" where
  "search_loop cmp key b lo hi =
    (if lo < hi then do {
       let mid = lo + (hi - lo) div 2;
       x \<leftarrow> arr_get b mid;
       let c = cmp key x;
       if c = 0 then Some (Some mid)
       else if c < 0 then search_loop cmp key b lo mid
       else search_loop cmp key b (mid + 1) hi
     } else Some None)"
  by pat_completeness auto
termination
  by (relation "measure (\<lambda>(cmp, key, b, lo, hi). hi - lo)") auto

declare search_loop.simps [simp del]

text \<open>The pointer a search returns is the index of the element it points to.\<close>

definition zenit_binary_search ::
    "byte list option \<Rightarrow> byte list list option \<Rightarrow> nat \<Rightarrow> nat \<Rightarrow>
     (byte list \<Rightarrow> byte list \<Rightarrow> int) option \<Rightarrow> nat option option" where
  "zenit_binary_search key base cnt elem_size compare =
    (case (key, base, compare) of
       (Some k, Some b, Some cmp) \<Rightarrow>
         if elem_size = 0 then Some None else search_loop cmp k b 0 cnt
     | _ \<Rightarrow> Some None)"

text \<open>The loop of the two bound searches; \<open>left\<close> decides whether to go on in the lower half.\<close>

function bound_loop ::
    "(int \<Rightarrow> bool) \<Rightarrow> (byte list \<Rightarrow> byte list \<Rightarrow> int) \<Rightarrow> byte list \<Rightarrow> byte list list \<Rightarrow> nat \<Rightarrow> nat \<Rightarrow> nat option" where
  "bound_loop left cmp key b lo hi =
    (if lo < hi then do {
       let mid = lo + (hi - lo) div 2;
       x \<leftarrow> arr_get b mid;
       if left (cmp key x) then bound_loop left cmp key b lo mid
       else bound_loop left cmp key b (mid + 1) hi
     } else Some lo)"
  by pat_completeness auto
termination
  by (relation "measure (\<lambda>(left, cmp, key, b, lo, hi). hi - lo)") auto

declare bound_loop.simps [simp del]

definition zenit_lower_bound ::
    "byte list option \<Rightarrow> byte list list option \<Rightarrow> nat \<Rightarrow> nat \<Rightarrow>
     (byte list \<Rightarrow> byte list \<Rightarrow> int) option \<Rightarrow> nat option option" where
  "zenit_lower_bound key base cnt elem_size compare =
    (case (key, base, compare) of
       (Some k, Some b, Some cmp) \<Rightarrow>
         if elem_size = 0 then Some None
         else do {
           lo \<leftarrow> bound_loop (\<lambda>c. c \<le> 0) cmp k b 0 cnt;
           Some (if lo < cnt then Some lo else None)
         }
     | _ \<Rightarrow> Some None)"

definition zenit_upper_bound ::
    "byte list option \<Rightarrow> byte list list option \<Rightarrow> nat \<Rightarrow> nat \<Rightarrow>
     (byte list \<Rightarrow> byte list \<Rightarrow> int) option \<Rightarrow> nat option option" where
  "zenit_upper_bound key base cnt elem_size compare =
    (case (key, base, compare) of
       (Some k, Some b, Some cmp) \<Rightarrow>
         if elem_size = 0 then Some None
         else do {
           lo \<leftarrow> bound_loop (\<lambda>c. c < 0) cmp k b 0 cnt;
           Some (if lo < cnt then Some lo else None)
         }
     | _ \<Rightarrow> Some None)"

section \<open>Merge sort is a stable sort\<close>

fun merge_lists :: "('a \<Rightarrow> 'a \<Rightarrow> int) \<Rightarrow> 'a list \<Rightarrow> 'a list \<Rightarrow> 'a list" where
  "merge_lists cmp (x # xs) (y # ys) =
    (if cmp x y \<le> 0 then x # merge_lists cmp xs (y # ys) else y # merge_lists cmp (x # xs) ys)"
| "merge_lists cmp [] ys = ys"
| "merge_lists cmp xs [] = xs"

lemma merge_lists_Nil [simp]: "merge_lists cmp xs [] = xs"
  by (cases xs) simp_all

lemma length_merge_lists [simp]: "length (merge_lists cmp xs ys) = length xs + length ys"
  by (induction cmp xs ys rule: merge_lists.induct) simp_all

lemma mset_merge_lists [simp]: "mset (merge_lists cmp xs ys) = mset xs + mset ys"
  by (induction cmp xs ys rule: merge_lists.induct) simp_all

lemma set_merge_lists [simp]: "set (merge_lists cmp xs ys) = set xs \<union> set ys"
  using mset_merge_lists [of cmp xs ys] by (metis set_mset_mset set_mset_union)

function msort :: "('a \<Rightarrow> 'a \<Rightarrow> int) \<Rightarrow> 'a list \<Rightarrow> 'a list" where
  "msort cmp xs =
    (if length xs < 2 then xs
     else merge_lists cmp (msort cmp (take (length xs div 2) xs)) (msort cmp (drop (length xs div 2) xs)))"
  by pat_completeness auto
termination
  by (relation "measure (\<lambda>(cmp, xs). length xs)") auto

declare msort.simps [simp del]

lemma mset_msort [simp]: "mset (msort cmp xs) = mset xs"
proof (induction cmp xs rule: msort.induct)
  case (1 cmp xs)
  show ?case
  proof (cases "length xs < 2")
    case False
    then have "mset (msort cmp xs) = mset (take (length xs div 2) xs) + mset (drop (length xs div 2) xs)"
      using 1 by (subst msort.simps) simp
    also have "\<dots> = mset xs" by (simp flip: mset_append)
    finally show ?thesis .
  qed (subst msort.simps, simp)
qed

lemma length_msort [simp]: "length (msort cmp xs) = length xs"
  by (metis mset_msort size_mset)

lemmas compare_laws = total_compare.cmp_flip total_compare.cmp_trans total_compare.cmp_total total_compare.cmp_refl

definition in_order :: "('a \<Rightarrow> 'a \<Rightarrow> int) \<Rightarrow> 'a list \<Rightarrow> bool" where
  "in_order cmp = sorted_wrt (\<lambda>x y. cmp x y \<le> 0)"

lemma in_order_Cons: "in_order cmp (x # xs) \<longleftrightarrow> (\<forall>y \<in> set xs. cmp x y \<le> 0) \<and> in_order cmp xs"
  by (simp add: in_order_def)

lemma in_order_merge:
  "total_compare cmp \<Longrightarrow> in_order cmp xs \<Longrightarrow> in_order cmp ys \<Longrightarrow> in_order cmp (merge_lists cmp xs ys)"
proof (induction cmp xs ys rule: merge_lists.induct)
  case (1 cmp x xs y ys)
  show ?case
  proof (cases "cmp x y \<le> 0")
    case True
    have "cmp x z \<le> 0" if "z \<in> set ys" for z
      using total_compare.cmp_trans [OF 1(3) True] 1(5) that by (simp add: in_order_Cons)
    then show ?thesis using 1 True by (auto simp: in_order_Cons)
  next
    case False
    then have "cmp y x \<le> 0" by (rule total_compare.cmp_total [OF 1(3)])
    then have "cmp y z \<le> 0" if "z \<in> set (x # xs)" for z
      using total_compare.cmp_trans [OF 1(3)] 1(4) that by (auto simp: in_order_Cons)
    then show ?thesis using 1 False by (auto simp: in_order_Cons)
  qed
qed simp_all

text \<open>Merging keeps elements that compare equal in their order, those of the left list first.\<close>

definition same_class :: "('a \<Rightarrow> 'a \<Rightarrow> int) \<Rightarrow> 'a \<Rightarrow> 'a \<Rightarrow> bool" where
  "same_class cmp z x \<longleftrightarrow> cmp z x \<le> 0 \<and> cmp x z \<le> 0"

lemma stable_merge:
  "total_compare cmp \<Longrightarrow> in_order cmp xs \<Longrightarrow> in_order cmp ys \<Longrightarrow>
   filter (same_class cmp z) (merge_lists cmp xs ys) = filter (same_class cmp z) xs @ filter (same_class cmp z) ys"
proof (induction cmp xs ys rule: merge_lists.induct)
  case (1 cmp x xs y ys)
  show ?case
  proof (cases "cmp x y \<le> 0")
    case True
    then show ?thesis using 1 by (simp add: in_order_Cons)
  next
    case False
    have "\<not> same_class cmp z u" if zy: "same_class cmp z y" and u: "u \<in> set (x # xs)" for u
    proof
      assume "same_class cmp z u"
      then have "cmp u y \<le> 0"
        using zy total_compare.cmp_trans [OF 1(3), of u z y] by (simp add: same_class_def)
      moreover have "cmp x u \<le> 0"
        using u 1(4) total_compare.cmp_refl [OF 1(3)] by (auto simp: in_order_Cons)
      ultimately show False using False total_compare.cmp_trans [OF 1(3), of x u y] by simp
    qed
    then have "filter (same_class cmp z) (x # xs) = []" if "same_class cmp z y"
      using that by (intro filter_False) auto
    then show ?thesis using 1 False by (auto simp: in_order_Cons)
  qed
qed simp_all

lemma in_order_msort: "total_compare cmp \<Longrightarrow> in_order cmp (msort cmp xs)"
proof (induction cmp xs rule: msort.induct)
  case (1 cmp xs)
  show ?case
  proof (cases "length xs < 2")
    case True
    then have "msort cmp xs = xs" by (subst msort.simps) simp
    then show ?thesis using True by (cases xs; cases "tl xs") (auto simp: in_order_def)
  next
    case False
    then show ?thesis using 1 by (subst msort.simps) (simp add: in_order_merge)
  qed
qed

lemma stable_msort: "total_compare cmp \<Longrightarrow> filter (same_class cmp z) (msort cmp xs) = filter (same_class cmp z) xs"
proof (induction cmp xs rule: msort.induct)
  case (1 cmp xs)
  show ?case
  proof (cases "length xs < 2")
    case True
    then show ?thesis by (subst msort.simps) simp
  next
    case False
    then have "filter (same_class cmp z) (msort cmp xs) =
        filter (same_class cmp z) (take (length xs div 2) xs @ drop (length xs div 2) xs)"
      using 1 by (subst msort.simps) (simp add: stable_merge in_order_msort del: append_take_drop_id)
    then show ?thesis by simp
  qed
qed

section \<open>The loops compute the reference merge sort\<close>

definition slice :: "'a list \<Rightarrow> nat \<Rightarrow> nat \<Rightarrow> 'a list" where
  "slice b i j = take (j - i) (drop i b)"

lemma length_slice: "j \<le> length b \<Longrightarrow> length (slice b i j) = j - i"
  by (simp add: slice_def)

lemma slice_step: "i < j \<Longrightarrow> j \<le> length b \<Longrightarrow> slice b i j = b ! i # slice b (Suc i) j"
  by (simp add: slice_def Cons_nth_drop_Suc [symmetric] take_Cons' One_nat_def)

lemma slice_empty [simp]: "j \<le> i \<Longrightarrow> slice b i j = []"
  by (simp add: slice_def)

lemma blit_step:
  assumes "k < length m" and "Suc k + length t \<le> length m"
  shows "blit (m[k := x]) (Suc k) t = blit m k (x # t)"
  using assms by (simp add: blit_def take_Suc_conv_app_nth)

lemma blit_overwrite:
  "length s = length t \<Longrightarrow> off + length t \<le> length m \<Longrightarrow> blit (blit m off s) off t = blit m off t"
  by (simp add: blit_def)

lemma copy_loop_ok:
  assumes "lim \<le> length b" and "k + (lim - i) \<le> length buf"
  shows "copy_loop b lim i k buf = Some (k + (lim - i), blit buf k (slice b i lim))"
  using assms
proof (induction b lim i k buf rule: copy_loop.induct)
  case (1 b lim i k buf)
  show ?case
  proof (cases "i < lim")
    case True
    then have "copy_loop b lim i k buf = copy_loop b lim (i + 1) (k + 1) (buf[k := b ! i])"
      using 1(2,3) by (subst copy_loop.simps) simp
    also have "\<dots> = Some (k + 1 + (lim - (i + 1)), blit (buf[k := b ! i]) (k + 1) (slice b (i + 1) lim))"
      using 1 True by simp
    finally show ?thesis
      using True 1(2,3) blit_step [of k buf "slice b (Suc i) lim" "b ! i"] slice_step [OF True 1(2)]
      by (simp add: One_nat_def length_slice)
  qed (subst copy_loop.simps, simp)
qed

lemma merge_loops_ok:
  assumes "mid \<le> length b" and "hi \<le> length b" and "k + (mid - i) + (hi - j) \<le> length buf"
  shows "(do { (i', j', k', buf1) \<leftarrow> merge_loop cmp b mid hi i j k buf;
       (k1, buf2) \<leftarrow> copy_loop b mid i' k' buf1;
       copy_loop b hi j' k1 buf2 }) =
    Some (k + (mid - i) + (hi - j), blit buf k (merge_lists cmp (slice b i mid) (slice b j hi)))"
  using assms
proof (induction cmp b mid hi i j k buf rule: merge_loop.induct)
  case (1 cmp b mid hi i j k buf)
  show ?case
  proof (cases "i < mid \<and> j < hi")
    case False
    then have "merge_loop cmp b mid hi i j k buf = Some (i, j, k, buf)" by (subst merge_loop.simps) auto
    then show ?thesis using False 1(3-5)
      by (cases "i < mid") (simp_all add: copy_loop_ok length_slice)
  next
    case True
    have kb: "k < length buf" using True 1(5) by linarith
    have fit: "Suc k + ((mid - Suc i) + (hi - j)) \<le> length buf" "Suc k + ((mid - i) + (hi - Suc j)) \<le> length buf"
      using True 1(5) by linarith+
    have sl: "slice b i mid = b ! i # slice b (Suc i) mid" "slice b j hi = b ! j # slice b (Suc j) hi"
      using True 1(3,4) by (simp_all add: slice_step)
    show ?thesis
    proof (cases "cmp (b ! i) (b ! j) \<le> 0")
      case le: True
      let ?buf = "buf[k := b ! i]"
      have "merge_loop cmp b mid hi i j k buf = merge_loop cmp b mid hi (i + 1) j (k + 1) ?buf"
        using True le kb 1(3-5) by (subst merge_loop.simps) simp
      moreover have "(do { (i', j', k', buf1) \<leftarrow> merge_loop cmp b mid hi (i + 1) j (k + 1) ?buf;
           (k1, buf2) \<leftarrow> copy_loop b mid i' k' buf1; copy_loop b hi j' k1 buf2 }) =
        Some (k + 1 + (mid - (i + 1)) + (hi - j),
          blit ?buf (k + 1) (merge_lists cmp (slice b (i + 1) mid) (slice b j hi)))"
        by (rule 1(1) [OF True]) (use True kb le 1(3-5) in \<open>simp_all\<close>)
      moreover have "blit ?buf (Suc k) (merge_lists cmp (slice b (Suc i) mid) (slice b j hi)) =
          blit buf k (b ! i # merge_lists cmp (slice b (Suc i) mid) (slice b j hi))"
        by (rule blit_step) (use kb fit(1) 1(3,4) in \<open>simp_all add: length_slice\<close>)
      moreover have "k + 1 + (mid - (i + 1)) + (hi - j) = k + (mid - i) + (hi - j)" using True by linarith
      ultimately show ?thesis using le sl by (simp only: Suc_eq_plus1 merge_lists.simps if_True)
    next
      case gt: False
      let ?buf = "buf[k := b ! j]"
      have "merge_loop cmp b mid hi i j k buf = merge_loop cmp b mid hi i (j + 1) (k + 1) ?buf"
        using True gt kb 1(3-5) by (subst merge_loop.simps) simp
      moreover have "(do { (i', j', k', buf1) \<leftarrow> merge_loop cmp b mid hi i (j + 1) (k + 1) ?buf;
           (k1, buf2) \<leftarrow> copy_loop b mid i' k' buf1; copy_loop b hi j' k1 buf2 }) =
        Some (k + 1 + (mid - i) + (hi - (j + 1)),
          blit ?buf (k + 1) (merge_lists cmp (slice b i mid) (slice b (j + 1) hi)))"
        by (rule 1(2) [OF True]) (use True kb gt 1(3-5) in \<open>simp_all\<close>)
      moreover have "blit ?buf (Suc k) (merge_lists cmp (slice b i mid) (slice b (Suc j) hi)) =
          blit buf k (b ! j # merge_lists cmp (slice b i mid) (slice b (Suc j) hi))"
        by (rule blit_step) (use kb fit(2) 1(3,4) in \<open>simp_all add: length_slice\<close>)
      moreover have "k + 1 + (mid - i) + (hi - (j + 1)) = k + (mid - i) + (hi - j)" using True by linarith
      ultimately show ?thesis using gt sl by (simp only: Suc_eq_plus1 merge_lists.simps if_False)
    qed
  qed
qed

lemma merge_ok:
  assumes "lo \<le> mid" and "mid \<le> hi" and "hi \<le> length b" and "hi - lo \<le> length buf"
  shows "\<exists>buf'. merge cmp b lo mid hi buf =
      Some (blit b lo (merge_lists cmp (slice b lo mid) (slice b mid hi)), buf') \<and> length buf' = length buf"
proof -
  let ?m = "merge_lists cmp (slice b lo mid) (slice b mid hi)"
  have len: "length ?m = hi - lo" using assms by (simp add: length_slice)
  obtain i j k buf1 where l: "merge_loop cmp b mid hi lo mid 0 buf = Some (i, j, k, buf1)"
    and r: "(do { (k1, buf2) \<leftarrow> copy_loop b mid i k buf1; copy_loop b hi j k1 buf2 }) =
      Some (hi - lo, blit buf 0 ?m)"
    using merge_loops_ok [of mid b hi 0 lo mid buf cmp] assms
    by (cases "merge_loop cmp b mid hi lo mid 0 buf") auto
  obtain k1 buf2 where c: "copy_loop b mid i k buf1 = Some (k1, buf2)" "copy_loop b hi j k1 buf2 = Some (hi - lo, blit buf 0 ?m)"
    using r by (cases "copy_loop b mid i k buf1") auto
  have "take (hi - lo) (blit buf 0 ?m) = ?m" "length (blit buf 0 ?m) = length buf"
    using len assms(4) by (simp_all add: blit_def)
  then show ?thesis using l c assms len by (simp add: merge_def)
qed

lemma slice_blit_left:
  assumes "length t = mid - lo" and "lo \<le> mid" and "mid \<le> length b"
  shows "slice (blit b lo t) lo mid = t" and "slice (blit b lo t) mid hi = slice b mid hi"
  using assms by (simp_all add: slice_def blit_def)

lemma slice_blit_right:
  assumes "length t = hi - mid" and "lo \<le> mid" and "mid \<le> hi" and "hi \<le> length b"
  shows "slice (blit b mid t) mid hi = t" and "slice (blit b mid t) lo mid = slice b lo mid"
  using assms by (simp_all add: slice_def blit_def drop_take min_def)

lemma slice_halves:
  assumes "lo \<le> mid" and "mid \<le> hi" and "hi \<le> length b"
  shows "take (mid - lo) (slice b lo hi) = slice b lo mid" and "drop (mid - lo) (slice b lo hi) = slice b mid hi"
  using assms by (simp_all add: slice_def drop_take min_def)

lemma mergesort_ok:
  assumes "lo \<le> hi" and "hi \<le> length b" and "hi - lo \<le> length buf"
  shows "\<exists>buf'. mergesort_impl cmp b lo hi buf = Some (blit b lo (msort cmp (slice b lo hi)), buf') \<and>
    length buf' = length buf"
  using assms
proof (induction cmp b lo hi buf rule: mergesort_impl.induct)
  case (1 cmp b lo hi buf)
  show ?case
  proof (cases "hi - lo < 2")
    case True
    have "msort cmp (slice b lo hi) = slice b lo hi"
      using True 1(3-5) by (subst msort.simps) (simp add: length_slice)
    moreover have "blit b lo (slice b lo hi) = b"
      using 1(3-5) by (simp add: blit_def slice_def) (metis append_take_drop_id drop_drop add.commute le_add_diff_inverse2)
    ultimately show ?thesis using True by (subst mergesort_impl.simps) simp
  next
    case False
    define mid where "mid = lo + (hi - lo) div 2"
    have m: "lo \<le> mid" "mid \<le> hi" "mid - lo \<le> length buf" "hi - mid \<le> length buf" "mid \<le> length b"
      and half: "mid - lo = (hi - lo) div 2"
      using 1(3-5) by (auto simp: mid_def)
    let ?L = "msort cmp (slice b lo mid)" and ?R = "msort cmp (slice b mid hi)"
    have len: "length ?L = mid - lo" "length ?R = hi - mid" using m 1(4) by (simp_all add: length_slice)
    obtain buf1 where l: "mergesort_impl cmp b lo mid buf = Some (blit b lo ?L, buf1)" "length buf1 = length buf"
      using 1(1) [OF False mid_def] m by blast
    let ?b1 = "blit b lo ?L"
    have lb1: "length ?b1 = length b" using len m by simp
    have s1: "slice ?b1 mid hi = slice b mid hi" using slice_blit_left(2) len(1) m by blast
    have "\<exists>buf'. mergesort_impl cmp ?b1 mid hi buf1 = Some (blit ?b1 mid (msort cmp (slice ?b1 mid hi)), buf') \<and>
        length buf' = length buf1"
      using 1(2) [OF False mid_def, of "(?b1, buf1)" ?b1 buf1] l m lb1 1(4) by simp
    then obtain buf2 where r: "mergesort_impl cmp ?b1 mid hi buf1 = Some (blit ?b1 mid ?R, buf2)" "length buf2 = length buf"
      using s1 l(2) by auto
    let ?b2 = "blit ?b1 mid ?R"
    have lb2: "length ?b2 = length b" using len m lb1 1(4) by simp
    have s2: "slice ?b2 lo mid = ?L" "slice ?b2 mid hi = ?R"
      using slice_blit_right [of ?R hi mid lo ?b1] slice_blit_left(1) [of ?L mid lo b] len m lb1 1(4) by simp_all
    obtain buf3 where "merge cmp ?b2 lo mid hi buf2 = Some (blit ?b2 lo (merge_lists cmp ?L ?R), buf3)"
        "length buf3 = length buf"
      using merge_ok [of lo mid hi ?b2 buf2 cmp] s2 m 1(4,5) r(2) lb2 by auto
    moreover have "merge_lists cmp ?L ?R = msort cmp (slice b lo hi)"
      using False slice_halves [OF m(1,2) 1(4)] half 1(3,4) by (subst (3) msort.simps) (simp add: length_slice)
    moreover have "blit ?b2 lo (merge_lists cmp ?L ?R) = blit b lo (merge_lists cmp ?L ?R)"
    proof -
      have "?b2 = blit b lo (?L @ ?R)"
        using blit_append [of lo ?L ?R b] len m 1(3,4) by simp
      then show ?thesis using len m 1(4) by (simp add: blit_overwrite)
    qed
    ultimately show ?thesis using False l(1) r(1) by (subst mergesort_impl.simps) (simp add: mid_def Let_def)
  qed
qed

text \<open>
  C2: the stable sort, with the merge of the source in its scratch buffer, orders the array by the
  comparator, keeps its elements, and keeps elements that compare equal in their order; when the
  buffer cannot be allocated the array is untouched. It stays in bounds and leaks nothing.
\<close>

theorem sort_stable_correct:
  assumes cmp: "total_compare cmp" and es: "0 < es" and sz: "length b * es < size_mod"
  shows "\<exists>r b' h'. zenit_sort_stable (Some b) (length b) es (Some cmp) h = Some (r, Some b', h') \<and>
    heap_addrs h' = heap_addrs h \<and>
    (r = ZENIT_ERROR_ALLOC \<and> b' = b \<or>
     r = ZENIT_OK \<and> in_order cmp b' \<and> mset b' = mset b \<and>
       (\<forall>z. filter (same_class cmp z) b' = filter (same_class cmp z) b))"
proof (cases "length b < 2")
  case True
  then have "in_order cmp b" by (cases b; cases "tl b") (auto simp: in_order_def)
  then show ?thesis using True by (simp add: zenit_sort_stable_def)
next
  case False
  have n: "sz_mul (length b) es = length b * es" using sz by (simp add: size_simps)
  show ?thesis
  proof (cases rule: allocator_contract.alloc_cases [OF default_contract, of "length b * es" h, case_names null block])
    case (null h1)
    then show ?thesis using False es n by (simp add: zenit_sort_stable_def default_eval(1,2))
  next
    case (block blk h1)
    have len: "length (mbytes blk) div es = length b" using block(2) es by simp
    obtain buf where m: "mergesort_impl cmp b 0 (length b) (replicate (length b) []) =
        Some (blit b 0 (msort cmp (slice b 0 (length b))), buf)"
      using mergesort_ok [of 0 "length b" b "replicate (length b) []" cmp] by auto
    have b': "blit b 0 (msort cmp (slice b 0 (length b))) = msort cmp b" by (simp add: blit_def slice_def)
    have "maddr blk \<in> heap_addrs h1" using block by simp
    from allocator_contract.free_addr [OF default_contract this] obtain h2 where
      "c_free (Some (maddr blk)) h1 = Some h2" "heap_addrs h2 = heap_addrs h1 - {maddr blk}"
      by (auto simp: default_eval(1,4))
    then have "zenit_sort_stable (Some b) (length b) es (Some cmp) h = Some (ZENIT_OK, Some (msort cmp b), h2)"
        "heap_addrs h2 = heap_addrs h"
      using False es n block m len b' by (simp_all add: zenit_sort_stable_def default_eval(1,2))
    then show ?thesis using in_order_msort [OF cmp] stable_msort [OF cmp] by auto
  qed
qed

section \<open>Searches\<close>

lemma in_order_nth:
  assumes "total_compare cmp" and "in_order cmp b" and "i \<le> j" and "j < length b"
  shows "cmp (b ! i) (b ! j) \<le> 0"
  using assms total_compare.cmp_refl [OF assms(1)] by (cases "i = j") (auto simp: in_order_def sorted_wrt_iff_nth_less)

lemma bound_loop_ok:
  assumes "\<And>i j. i \<le> j \<Longrightarrow> j < length b \<Longrightarrow> left (cmp key (b ! i)) \<Longrightarrow> left (cmp key (b ! j))"
    and "hi \<le> length b" and "lo \<le> hi" and "\<And>i. i < lo \<Longrightarrow> \<not> left (cmp key (b ! i))"
    and "\<And>i. hi \<le> i \<Longrightarrow> i < length b \<Longrightarrow> left (cmp key (b ! i))"
  shows "\<exists>p \<le> length b. bound_loop left cmp key b lo hi = Some p \<and>
    (\<forall>i < p. \<not> left (cmp key (b ! i))) \<and> (\<forall>i < length b. p \<le> i \<longrightarrow> left (cmp key (b ! i)))"
  using assms
proof (induction left cmp key b lo hi rule: bound_loop.induct)
  case (1 left cmp key b lo hi)
  show ?case
  proof (cases "lo < hi")
    case False
    then show ?thesis using 1(4-7) by (subst bound_loop.simps) (auto intro!: exI [of _ lo])
  next
    case True
    define mid where "mid = lo + (hi - lo) div 2"
    have m: "mid < hi" "lo \<le> mid" "mid < length b" using True 1(4) by (auto simp: mid_def)
    have run: "bound_loop left cmp key b lo hi =
        (if left (cmp key (b ! mid)) then bound_loop left cmp key b lo mid else bound_loop left cmp key b (mid + 1) hi)"
      using True m by (subst bound_loop.simps) (simp add: mid_def [symmetric] Let_def)
    show ?thesis
    proof (cases "left (cmp key (b ! mid))")
      case l: True
      have "\<exists>p \<le> length b. bound_loop left cmp key b lo mid = Some p \<and>
          (\<forall>i < p. \<not> left (cmp key (b ! i))) \<and> (\<forall>i < length b. p \<le> i \<longrightarrow> left (cmp key (b ! i)))"
        by (rule 1(1) [OF True mid_def _ l]) (use m 1(3-7) l in \<open>auto\<close>)
      then show ?thesis using run l by simp
    next
      case r: False
      have "\<exists>p \<le> length b. bound_loop left cmp key b (mid + 1) hi = Some p \<and>
          (\<forall>i < p. \<not> left (cmp key (b ! i))) \<and> (\<forall>i < length b. p \<le> i \<longrightarrow> left (cmp key (b ! i)))"
      proof (rule 1(2) [OF True mid_def _ r])
        show "\<not> left (cmp key (b ! i))" if "i < mid + 1" for i
          using 1(3) [of i mid] r that m by auto
      qed (use m 1(3-7) in auto)
      then show ?thesis using run r by simp
    qed
  qed
qed

text \<open>
  on an ordered array, the lower bound is the first element not below the key and the upper bound
  the first one above it; NULL means there is none.
\<close>

theorem bound_searches_correct:
  assumes cmp: "total_compare cmp" and ord: "in_order cmp b" and es: "0 < es"
  shows "(\<exists>p. zenit_lower_bound (Some key) (Some b) (length b) es (Some cmp) = Some p \<and>
      (case p of None \<Rightarrow> \<forall>x \<in> set b. 0 < cmp key x
       | Some i \<Rightarrow> i < length b \<and> cmp key (b ! i) \<le> 0 \<and> (\<forall>j < i. 0 < cmp key (b ! j)))) \<and>
    (\<exists>p. zenit_upper_bound (Some key) (Some b) (length b) es (Some cmp) = Some p \<and>
      (case p of None \<Rightarrow> \<forall>x \<in> set b. 0 \<le> cmp key x
       | Some i \<Rightarrow> i < length b \<and> cmp key (b ! i) < 0 \<and> (\<forall>j < i. 0 \<le> cmp key (b ! j))))"
proof
  have le: "cmp key (b ! j) \<le> 0" if "i \<le> j" "j < length b" "cmp key (b ! i) \<le> 0" for i j
    using total_compare.cmp_trans [OF cmp that(3) in_order_nth [OF cmp ord that(1,2)]] .
  have lt: "cmp key (b ! j) < 0" if "i \<le> j" "j < length b" "cmp key (b ! i) < 0" for i j
    using total_compare.cmp_trans [OF cmp in_order_nth [OF cmp ord that(1,2)], of key]
      total_compare.cmp_flip [OF cmp] that(3) by (meson linorder_not_less)
  from bound_loop_ok [of b "\<lambda>c. c \<le> 0" cmp key "length b" 0] le obtain p where
    p: "p \<le> length b" "bound_loop (\<lambda>c. c \<le> 0) cmp key b 0 (length b) = Some p"
      "\<And>i. i < p \<Longrightarrow> 0 < cmp key (b ! i)" "\<And>i. i < length b \<Longrightarrow> p \<le> i \<Longrightarrow> cmp key (b ! i) \<le> 0"
    by (auto simp: not_le)
  then show "\<exists>p. zenit_lower_bound (Some key) (Some b) (length b) es (Some cmp) = Some p \<and>
      (case p of None \<Rightarrow> \<forall>x \<in> set b. 0 < cmp key x
       | Some i \<Rightarrow> i < length b \<and> cmp key (b ! i) \<le> 0 \<and> (\<forall>j < i. 0 < cmp key (b ! j)))"
    using es by (auto simp: zenit_lower_bound_def in_set_conv_nth)
  from bound_loop_ok [of b "\<lambda>c. c < 0" cmp key "length b" 0] lt obtain q where
    q: "q \<le> length b" "bound_loop (\<lambda>c. c < 0) cmp key b 0 (length b) = Some q"
      "\<And>i. i < q \<Longrightarrow> 0 \<le> cmp key (b ! i)" "\<And>i. i < length b \<Longrightarrow> q \<le> i \<Longrightarrow> cmp key (b ! i) < 0"
    by (auto simp: not_less)
  then show "\<exists>p. zenit_upper_bound (Some key) (Some b) (length b) es (Some cmp) = Some p \<and>
      (case p of None \<Rightarrow> \<forall>x \<in> set b. 0 \<le> cmp key x
       | Some i \<Rightarrow> i < length b \<and> cmp key (b ! i) < 0 \<and> (\<forall>j < i. 0 \<le> cmp key (b ! j)))"
    using es by (auto simp: zenit_upper_bound_def in_set_conv_nth)
qed

section \<open>Quick sort: permutations of a range\<close>

definition perm_in :: "nat \<Rightarrow> nat \<Rightarrow> 'a list \<Rightarrow> 'a list \<Rightarrow> bool" where
  "perm_in lo n b b' \<longleftrightarrow> length b' = length b \<and> take lo b' = take lo b \<and> drop n b' = drop n b \<and> mset b' = mset b"

lemma perm_in_refl [simp]: "perm_in lo n b b"
  by (simp add: perm_in_def)

lemma perm_in_trans: "perm_in lo n b c \<Longrightarrow> perm_in lo n c d \<Longrightarrow> perm_in lo n b d"
  by (simp add: perm_in_def)

lemma perm_in_mono:
  assumes "perm_in lo n b c" and "lo' \<le> lo" and "n \<le> n'"
  shows "perm_in lo' n' b c"
proof -
  have "take lo' c = take lo' b" using assms(1,2) by (metis min.absorb1 perm_in_def take_take)
  moreover have "drop n' c = drop n' b" using assms(1,3) by (metis drop_drop le_add_diff_inverse2 perm_in_def)
  ultimately show ?thesis using assms(1) by (simp add: perm_in_def)
qed

lemma perm_in_swap:
  assumes "lo \<le> i" "i < n" "lo \<le> j" "j < n" "n \<le> length b"
  shows "perm_in lo n b (swap_list b i j)"
proof -
  have "i < length b" "j < length b" using assms by simp_all
  then show ?thesis using assms by (simp add: perm_in_def) (simp add: swap_list_def)
qed

lemma perm_in_slice:
  assumes p: "perm_in lo n b c" and le: "lo \<le> n" "n \<le> length b"
  shows "set (slice c lo n) = set (slice b lo n)"
proof -
  have split: "xs = take lo xs @ slice xs lo n @ drop n xs" if "n \<le> length xs" for xs :: "'a list"
    using le(1) that by (metis append_take_drop_id drop_drop le_add_diff_inverse2 slice_def)
  have "mset (take lo b) + mset (slice c lo n) + mset (drop n b) =
      mset (take lo b) + mset (slice b lo n) + mset (drop n b)"
    using split [of b] split [of c] p le(2) by (metis add.assoc mset_append perm_in_def)
  then have "mset (slice c lo n) = mset (slice b lo n)" by simp
  then show ?thesis by (metis set_mset_mset)
qed

lemma swap_elems_ok: "i < length b \<Longrightarrow> j < length b \<Longrightarrow> swap_elems b i j = Some (swap_list b i j)"
  by (simp add: swap_elems_def swap_list_def)

lemma swap_if_greater_ok:
  assumes "lo \<le> i" "i < n" "lo \<le> j" "j < n" "n \<le> length b"
  shows "\<exists>b'. swap_if_greater cmp b i j = Some b' \<and> perm_in lo n b b'"
  using assms perm_in_swap [OF assms] by (auto simp: swap_if_greater_def swap_elems_ok)

lemma median_of_three_ok:
  assumes "lo \<le> hi" and "hi < length b"
  shows "\<exists>b'. median_of_three cmp b lo hi = Some (lo + (hi - lo) div 2, b') \<and> perm_in lo (Suc hi) b b'"
proof -
  let ?m = "lo + (hi - lo) div 2"
  have m: "lo \<le> ?m" "?m < Suc hi" using assms(1) by auto
  obtain b1 where b1: "swap_if_greater cmp b lo ?m = Some b1" "perm_in lo (Suc hi) b b1"
    using swap_if_greater_ok [of lo lo "Suc hi" ?m b cmp] m assms by auto
  obtain b2 where b2: "swap_if_greater cmp b1 lo hi = Some b2" "perm_in lo (Suc hi) b1 b2"
    using swap_if_greater_ok [of lo lo "Suc hi" hi b1 cmp] b1(2) assms by (auto simp: perm_in_def)
  obtain b3 where b3: "swap_if_greater cmp b2 ?m hi = Some b3" "perm_in lo (Suc hi) b2 b3"
    using swap_if_greater_ok [of lo ?m "Suc hi" hi b2 cmp] b1(2) b2(2) m assms by (auto simp: perm_in_def)
  then show ?thesis using b1(1) b2(1) perm_in_trans [OF b1(2) perm_in_trans [OF b2(2) b3(2)]]
    by (simp add: median_of_three_def Let_def)
qed

section \<open>Quick sort: partitioning\<close>

text \<open>A scan stops at the first element that is not on its side of the pivot.\<close>

lemma scan_up_ok:
  assumes "i \<le> s" and "s < length b" and "piv < length b" and "\<not> cmp (b ! s) (b ! piv) < 0"
  shows "\<exists>i'. scan_up cmp b piv i = Some i' \<and> i \<le> i' \<and> i' \<le> s \<and> \<not> cmp (b ! i') (b ! piv) < 0 \<and>
    (\<forall>k. i \<le> k \<and> k < i' \<longrightarrow> cmp (b ! k) (b ! piv) < 0)"
  using assms
proof (induction cmp b piv i rule: scan_up.induct)
  case (1 cmp b piv i)
  show ?case
  proof (cases "cmp (b ! i) (b ! piv) < 0")
    case True
    then have "i \<noteq> s" using 1(5) by auto
    then have i: "i + 1 \<le> s" "i < length b" using 1(2,3) by simp_all
    obtain i' where r: "scan_up cmp b piv (i + 1) = Some i'" "i + 1 \<le> i'" "i' \<le> s" "\<not> cmp (b ! i') (b ! piv) < 0"
        "\<forall>k. i + 1 \<le> k \<and> k < i' \<longrightarrow> cmp (b ! k) (b ! piv) < 0"
      using 1(1) [OF i(2), of "b ! piv"] 1(3-5) True i by auto
    have "scan_up cmp b piv i = scan_up cmp b piv (i + 1)"
      using True i(2) 1(4) by (subst scan_up.simps) simp
    moreover have "\<forall>k. i \<le> k \<and> k < i' \<longrightarrow> cmp (b ! k) (b ! piv) < 0"
    proof (intro allI impI)
      fix k assume "i \<le> k \<and> k < i'"
      then show "cmp (b ! k) (b ! piv) < 0" using r(5) True by (cases "k = i") auto
    qed
    ultimately show ?thesis using r by (intro exI [of _ i']) simp
  next
    case False
    then show ?thesis using 1(2-4) by (subst scan_up.simps) simp
  qed
qed

lemma scan_down_ok:
  assumes "s \<le> j" and "j < length b" and "piv < length b" and "\<not> 0 < cmp (b ! s) (b ! piv)"
  shows "\<exists>j'. scan_down cmp b piv j = Some j' \<and> s \<le> j' \<and> j' \<le> j \<and> \<not> 0 < cmp (b ! j') (b ! piv) \<and>
    (\<forall>k. j' < k \<and> k \<le> j \<longrightarrow> 0 < cmp (b ! k) (b ! piv))"
  using assms
proof (induction cmp b piv j rule: scan_down.induct)
  case (1 cmp b piv j)
  show ?case
  proof (cases "0 < cmp (b ! j) (b ! piv)")
    case True
    then have "j \<noteq> s" using 1(5) by auto
    then have j: "s \<le> j - 1" "0 < j" "j - 1 < length b" using 1(2,3) by simp_all
    then obtain j' where r: "scan_down cmp b piv (j - 1) = Some j'" "s \<le> j'" "j' \<le> j - 1" "\<not> 0 < cmp (b ! j') (b ! piv)"
        "\<forall>k. j' < k \<and> k \<le> j - 1 \<longrightarrow> 0 < cmp (b ! k) (b ! piv)"
      using 1(1) [OF 1(3), of "b ! piv"] 1(3-5) True j by auto
    have "scan_down cmp b piv j = scan_down cmp b piv (j - 1)"
      using True j 1(3,4) by (subst scan_down.simps) simp
    moreover have "\<forall>k. j' < k \<and> k \<le> j \<longrightarrow> 0 < cmp (b ! k) (b ! piv)"
    proof (intro allI impI)
      fix k assume "j' < k \<and> k \<le> j"
      then show "0 < cmp (b ! k) (b ! piv)" using r(5) True by (cases "k = j") auto
    qed
    ultimately show ?thesis using r by (intro exI [of _ j']) simp
  next
    case False
    then show ?thesis using 1(2-4) by (subst scan_down.simps) simp
  qed
qed

definition split_at :: "('a \<Rightarrow> 'a \<Rightarrow> int) \<Rightarrow> nat \<Rightarrow> nat \<Rightarrow> 'a list \<Rightarrow> nat \<Rightarrow> bool" where
  "split_at cmp lo hi b p \<longleftrightarrow> (\<exists>q. (\<forall>k. lo \<le> k \<and> k \<le> p \<longrightarrow> cmp (b ! k) q \<le> 0) \<and>
     (\<forall>k. p < k \<and> k \<le> hi \<longrightarrow> cmp q (b ! k) \<le> 0))"

lemma partition_loop_ok:
  assumes cmp: "total_compare cmp" and sz: "length b < size_mod"
    and inv: "lo < i" "i \<le> Suc j" "lo \<le> j" "j < hi" "hi < length b"
      "\<And>k. lo \<le> k \<Longrightarrow> k < i \<Longrightarrow> cmp (b ! k) (b ! lo) \<le> 0"
      "\<And>k. j < k \<Longrightarrow> k \<le> hi \<Longrightarrow> cmp (b ! lo) (b ! k) \<le> 0"
  shows "\<exists>p b'. partition_loop cmp b lo i j = Some (p, b') \<and> lo \<le> p \<and> p < hi \<and>
    perm_in lo (Suc hi) b b' \<and> split_at cmp lo hi b' p"
  using sz inv
proof (induction j arbitrary: b i rule: less_induct)
  case (less j)
  note flip = total_compare.cmp_flip [OF cmp]
  have "\<not> cmp (b ! Suc j) (b ! lo) < 0"
    using less.prems(5,8) flip [of "b ! lo" "b ! Suc j"] by (simp add: Suc_le_eq not_less [symmetric])
  moreover have "Suc j < length b" "lo < length b" using less.prems by simp_all
  ultimately obtain i' where i': "scan_up cmp b lo i = Some i'" "i \<le> i'" "i' \<le> Suc j" "\<not> cmp (b ! i') (b ! lo) < 0"
      "\<And>k. i \<le> k \<Longrightarrow> k < i' \<Longrightarrow> cmp (b ! k) (b ! lo) < 0"
    using scan_up_ok [OF less.prems(3)] by blast
  have "\<not> 0 < cmp (b ! lo) (b ! lo)" using total_compare.cmp_refl [OF cmp, of "b ! lo"] by simp
  moreover have "j < length b" "lo < length b" using less.prems by simp_all
  ultimately obtain j' where j': "scan_down cmp b lo j = Some j'" "lo \<le> j'" "j' \<le> j" "\<not> 0 < cmp (b ! j') (b ! lo)"
      "\<And>k. j' < k \<Longrightarrow> k \<le> j \<Longrightarrow> 0 < cmp (b ! k) (b ! lo)"
    using scan_down_ok [OF less.prems(4)] by blast
  show ?case
  proof (cases "j' \<le> i'")
    case True
    have left: "cmp (b ! k) (b ! lo) \<le> 0" if k: "lo \<le> k" "k \<le> j'" for k
    proof -
      consider "k < i" | "i \<le> k" "k < i'" | "k = j'" using k True by linarith
      then show ?thesis using less.prems(7) [OF k(1)] i'(5) j'(4) by cases (auto intro: less_imp_le)
    qed
    have right: "cmp (b ! lo) (b ! k) \<le> 0" if "j' < k" "k \<le> hi" for k
      using less.prems(8) [of k] j'(5) [of k] flip [of "b ! k" "b ! lo"] that by (cases "j < k") auto
    have "split_at cmp lo hi b j'" unfolding split_at_def using left right by blast
    then show ?thesis using True i'(1) j' less.prems(5)
      by (subst partition_loop.simps) auto
  next
    case False
    define b' where "b' = swap_list b i' j'"
    have len: "i' < length b" "j' < length b" using False j'(3) less.prems(5,6) by auto
    have lo': "b' ! lo = b ! lo" using len less.prems(2) i'(2) j'(2) False by (simp add: b'_def swap_list_nth)
    have perm: "perm_in lo (Suc hi) b b'"
      unfolding b'_def by (rule perm_in_swap) (use False i'(2) j'(2,3) less.prems in auto)
    have b'k: "b' ! k = (if k = j' then b ! i' else if k = i' then b ! j' else b ! k)" if "k < length b" for k
      using swap_list_nth [OF len that] by (simp add: b'_def)
    have "\<exists>p b''. partition_loop cmp b' lo (Suc i') (j' - 1) = Some (p, b'') \<and> lo \<le> p \<and> p < hi \<and>
        perm_in lo (Suc hi) b' b'' \<and> split_at cmp lo hi b'' p"
    proof (rule less.IH)
      show "cmp (b' ! k) (b' ! lo) \<le> 0" if k: "lo \<le> k" "k < Suc i'" for k
      proof -
        consider "k < i" | "i \<le> k" "k < i'" | "k = i'" using k by linarith
        then show ?thesis
          using less.prems(7) [OF k(1)] i'(2,5) j'(4) lo' b'k [of k] len k False by cases (auto intro: less_imp_le)
      qed
      show "cmp (b' ! lo) (b' ! k) \<le> 0" if k: "j' - 1 < k" "k \<le> hi" for k
      proof -
        consider "k = j'" | "j' < k" "k \<le> j" | "j < k" using k by linarith
        then show ?thesis
          using less.prems(8) [of k] j'(5) [of k] flip [of "b ! k" "b ! lo"] flip [of "b ! lo" "b ! i'"]
            i'(4) lo' b'k [of k] k less.prems(6) False by cases auto
      qed
    qed (use False i'(2) j'(2,3) less.prems len in \<open>auto simp: b'_def\<close>)
    then obtain p b'' where r: "partition_loop cmp b' lo (Suc i') (j' - 1) = Some (p, b'')" "lo \<le> p" "p < hi"
        "perm_in lo (Suc hi) b' b''" "split_at cmp lo hi b'' p" by blast
    have "sz_add i' 1 = Suc i'" "sz_sub j' 1 = j' - 1" using len less.prems(1) False by (simp_all add: size_simps)
    then have "partition_loop cmp b lo i j = Some (p, b'')"
      using i'(1) j'(1) False r(1) len by (subst partition_loop.simps) (simp add: swap_elems_ok b'_def)
    then show ?thesis using r perm_in_trans [OF perm r(4)] by blast
  qed
qed

lemma partition_ok:
  assumes cmp: "total_compare cmp" and sz: "length b < size_mod" and lo: "lo < hi" "hi < length b"
  shows "\<exists>p b'. partition cmp b lo hi = Some (p, b') \<and> lo \<le> p \<and> p < hi \<and>
    perm_in lo (Suc hi) b b' \<and> split_at cmp lo hi b' p"
proof -
  note flip = total_compare.cmp_flip [OF cmp] and trans = total_compare.cmp_trans [OF cmp]
  have xx: "\<not> 0 < cmp x x" "\<not> cmp x x < 0" for x using flip [of x x] by auto
  let ?mid = "lo + (hi - lo) div 2"
  obtain b1 where b1: "median_of_three cmp b lo hi = Some (?mid, b1)" "perm_in lo (Suc hi) b b1"
    using median_of_three_ok [of lo hi b cmp] lo by auto
  define b2 where "b2 = swap_list b1 lo ?mid"
  have l1: "length b1 = length b" using b1(2) by (simp add: perm_in_def)
  have p2: "perm_in lo (Suc hi) b1 b2" unfolding b2_def by (rule perm_in_swap) (use lo l1 in auto)
  have l2: "length b2 = length b" using p2 l1 by (simp add: perm_in_def)
  have "(lo + (size_mod - 1) + 1) mod size_mod = lo" using lo sz by (simp add: size_mod_def)
  then have "sz_add (sz_sub lo 1) 1 = lo" "sz_sub (sz_add hi 1) 1 = hi"
    using lo sz by (simp_all add: sz_add_def sz_sub_def mod_add_left_eq size_mod_def)
  then have run: "partition cmp b lo hi = partition_loop cmp b2 lo lo hi"
    using b1(1) lo l1 by (simp add: partition_def swap_elems_ok b2_def)
  have up: "scan_up cmp b2 lo lo = Some lo" using lo l2 xx by (subst scan_up.simps) simp
  obtain j where j: "scan_down cmp b2 lo hi = Some j" "lo \<le> j" "j \<le> hi" "\<not> 0 < cmp (b2 ! j) (b2 ! lo)"
      "\<And>k. j < k \<Longrightarrow> k \<le> hi \<Longrightarrow> 0 < cmp (b2 ! k) (b2 ! lo)"
    using scan_down_ok [of lo hi b2 lo cmp] lo l2 xx by fastforce
  have above: "cmp (b2 ! lo) (b2 ! k) \<le> 0" if "j < k" "k \<le> hi" for k
    using j(5) [OF that] flip [of "b2 ! k" "b2 ! lo"] by simp
  have perm2: "perm_in lo (Suc hi) b b2" using perm_in_trans [OF b1(2) p2] .
  show ?thesis
  proof (cases "j \<le> lo")
    case True
    then have "j = lo" using j(2) by simp
    moreover have "split_at cmp lo hi b2 lo"
      unfolding split_at_def using above xx \<open>j = lo\<close> by (intro exI [of _ "b2 ! lo"]) (auto simp: not_less)
    ultimately show ?thesis using run up j(1) lo perm2 by (simp add: partition_loop.simps [of cmp b2 lo lo hi])
  next
    case False
    define b3 where "b3 = swap_list b2 lo j"
    have p3: "perm_in lo (Suc hi) b2 b3" unfolding b3_def by (rule perm_in_swap) (use lo l2 j False in auto)
    have b3k: "b3 ! k = (if k = j then b2 ! lo else if k = lo then b2 ! j else b2 ! k)" if "k < length b" for k
      using swap_list_nth [of lo b2 j k] lo l2 j that by (simp add: b3_def)
    have "\<exists>p b'. partition_loop cmp b3 lo (Suc lo) (j - 1) = Some (p, b') \<and> lo \<le> p \<and> p < hi \<and>
        perm_in lo (Suc hi) b3 b' \<and> split_at cmp lo hi b' p"
    proof (rule partition_loop_ok [OF cmp])
      show "cmp (b3 ! k) (b3 ! lo) \<le> 0" if "lo \<le> k" "k < Suc lo" for k
      proof -
        have "k = lo" using that by simp
        then show ?thesis using xx(1) [of "b3 ! lo"] by simp
      qed
      show "cmp (b3 ! lo) (b3 ! k) \<le> 0" if "j - 1 < k" "k \<le> hi" for k
        using above [of k] j(4) trans [of "b2 ! j" "b2 ! lo" "b2 ! k"] b3k [of k] b3k [of lo] that lo False
        by (cases "k = j") auto
    qed (use p3 l2 lo j False sz in \<open>auto simp: perm_in_def\<close>)
    then obtain p b' where r: "partition_loop cmp b3 lo (Suc lo) (j - 1) = Some (p, b')" "lo \<le> p" "p < hi"
        "perm_in lo (Suc hi) b3 b'" "split_at cmp lo hi b' p" by blast
    have "sz_add lo 1 = Suc lo" "sz_sub j 1 = j - 1" using lo j False sz by (simp_all add: size_simps)
    then have "partition cmp b lo hi = Some (p, b')"
      unfolding run using up j False r(1) lo l2 by (subst partition_loop.simps) (simp add: swap_elems_ok b3_def)
    then show ?thesis using r perm_in_trans [OF perm2 perm_in_trans [OF p3 r(4)]] by blast
  qed
qed

section \<open>Quick sort: correctness\<close>

lemma slice_append:
  "lo \<le> m \<Longrightarrow> m \<le> n \<Longrightarrow> n \<le> length b \<Longrightarrow> slice b lo n = slice b lo m @ slice b m n"
  by (metis append_take_drop_id slice_halves)

lemma slice_take_cong: "take n b = take n c \<Longrightarrow> slice b lo n = slice c lo n"
  unfolding slice_def by (metis drop_take)

lemma slice_drop_cong: "drop lo b = drop lo c \<Longrightarrow> slice b lo n = slice c lo n"
  by (simp add: slice_def)

lemma in_slice: "x \<in> set (slice b lo n) \<Longrightarrow> n \<le> length b \<Longrightarrow> \<exists>k. lo \<le> k \<and> k < n \<and> x = b ! k"
proof -
  assume x: "x \<in> set (slice b lo n)" and n: "n \<le> length b"
  then obtain i where "i < n - lo" "x = b ! (lo + i)" by (auto simp: slice_def in_set_conv_nth)
  then show ?thesis by (intro exI [of _ "lo + i"]) simp
qed

text \<open>Two ordered ranges on the right sides of a split make an ordered range.\<close>

lemma split_join:
  assumes cmp: "total_compare cmp" and sp: "split_at cmp lo hi b p" and p: "lo \<le> p" "p < hi" "hi < length b"
    and len: "length c = length b"
    and L: "in_order cmp (slice c lo (Suc p))" "set (slice c lo (Suc p)) = set (slice b lo (Suc p))"
    and R: "in_order cmp (slice c (Suc p) (Suc hi))" "set (slice c (Suc p) (Suc hi)) = set (slice b (Suc p) (Suc hi))"
  shows "in_order cmp (slice c lo (Suc hi))"
proof -
  from sp obtain q where q: "\<And>k. lo \<le> k \<Longrightarrow> k \<le> p \<Longrightarrow> cmp (b ! k) q \<le> 0"
      "\<And>k. p < k \<Longrightarrow> k \<le> hi \<Longrightarrow> cmp q (b ! k) \<le> 0" unfolding split_at_def by blast
  have "cmp x y \<le> 0" if xy: "x \<in> set (slice c lo (Suc p))" "y \<in> set (slice c (Suc p) (Suc hi))" for x y
  proof -
    obtain k where "lo \<le> k" "k < Suc p" "x = b ! k" using in_slice [of x b lo "Suc p"] xy(1) L(2) p by auto
    moreover obtain l where "Suc p \<le> l" "l < Suc hi" "y = b ! l"
      using in_slice [of y b "Suc p" "Suc hi"] xy(2) R(2) p by auto
    ultimately show ?thesis using q(1) [of k] q(2) [of l] total_compare.cmp_trans [OF cmp, of x q y] by simp
  qed
  moreover have "slice c lo (Suc hi) = slice c lo (Suc p) @ slice c (Suc p) (Suc hi)"
    using p len by (intro slice_append) simp_all
  ultimately show ?thesis using L(1) R(1) by (simp add: in_order_def sorted_wrt_append)
qed

lemma quicksort_ok:
  assumes cmp: "total_compare cmp" and "length b < size_mod" and "hi < length b"
  shows "\<exists>b'. quicksort cmp b lo hi = Some b' \<and> perm_in lo (Suc hi) b b' \<and> in_order cmp (slice b' lo (Suc hi))"
  using assms(2,3)
proof (induction "hi - lo" arbitrary: b lo hi rule: less_induct)
  case less
  show ?case
  proof (cases "lo < hi")
    case False
    have "length (slice b lo (Suc hi)) \<le> 1" using False by (simp add: slice_def)
    then have "in_order cmp (slice b lo (Suc hi))"
      by (cases "slice b lo (Suc hi)"; cases "tl (slice b lo (Suc hi))") (auto simp: in_order_def)
    then show ?thesis using False by (subst quicksort.simps) simp
  next
    case True
    obtain p b1 where p: "partition cmp b lo hi = Some (p, b1)" "lo \<le> p" "p < hi"
        "perm_in lo (Suc hi) b b1" "split_at cmp lo hi b1 p"
      using partition_ok [OF cmp less.prems(1) True less.prems(2)] by blast
    have l1: "length b1 = length b" using p(4) by (simp add: perm_in_def)
    have sp: "sz_add p 1 = Suc p" using p less.prems by (simp add: size_simps)
    have lt: "p - lo < hi - lo" "hi - Suc p < hi - lo" using p(2,3) by auto
    show ?thesis
    proof (cases "sz_sub p lo < sz_sub hi p")
      case first: True
      obtain b2 where b2: "quicksort cmp b1 lo p = Some b2" "perm_in lo (Suc p) b1 b2"
          "in_order cmp (slice b2 lo (Suc p))"
        using less.hyps [of p lo b1] p less.prems l1 lt by auto
      have l2: "length b2 = length b" using b2(2) l1 by (simp add: perm_in_def)
      obtain b3 where b3: "quicksort cmp b2 (Suc p) hi = Some b3" "perm_in (Suc p) (Suc hi) b2 b3"
          "in_order cmp (slice b3 (Suc p) (Suc hi))"
        using less.hyps [of hi "Suc p" b2] p less.prems l2 lt by auto
      have e: "slice b3 lo (Suc p) = slice b2 lo (Suc p)" "slice b2 (Suc p) (Suc hi) = slice b1 (Suc p) (Suc hi)"
        using b3(2) b2(2) by (auto simp: perm_in_def intro: slice_take_cong slice_drop_cong)
      have "in_order cmp (slice b3 lo (Suc hi))"
        by (rule split_join [OF cmp p(5,2,3)])
          (use e b2 b3 l1 l2 p less.prems perm_in_slice [OF b2(2)] perm_in_slice [OF b3(2)] in \<open>auto simp: perm_in_def\<close>)
      moreover have "perm_in lo (Suc hi) b b3"
        using perm_in_trans [OF p(4) perm_in_trans [OF perm_in_mono [OF b2(2), of lo "Suc hi"]
              perm_in_mono [OF b3(2), of lo "Suc hi"]]] p(2,3) by simp
      ultimately show ?thesis using True p(1) first b2(1) b3(1) sp by (subst quicksort.simps) simp
    next
      case second: False
      obtain b2 where b2: "quicksort cmp b1 (Suc p) hi = Some b2" "perm_in (Suc p) (Suc hi) b1 b2"
          "in_order cmp (slice b2 (Suc p) (Suc hi))"
        using less.hyps [of hi "Suc p" b1] p less.prems l1 lt by auto
      have l2: "length b2 = length b" using b2(2) l1 by (simp add: perm_in_def)
      obtain b3 where b3: "quicksort cmp b2 lo p = Some b3" "perm_in lo (Suc p) b2 b3"
          "in_order cmp (slice b3 lo (Suc p))"
        using less.hyps [of p lo b2] p less.prems l2 lt by auto
      have e: "slice b3 (Suc p) (Suc hi) = slice b2 (Suc p) (Suc hi)" "slice b2 lo (Suc p) = slice b1 lo (Suc p)"
        using b3(2) b2(2) by (auto simp: perm_in_def intro: slice_take_cong slice_drop_cong)
      have "in_order cmp (slice b3 lo (Suc hi))"
        by (rule split_join [OF cmp p(5,2,3)])
          (use e b2 b3 l1 l2 p less.prems perm_in_slice [OF b2(2)] perm_in_slice [OF b3(2)] in \<open>auto simp: perm_in_def\<close>)
      moreover have "perm_in lo (Suc hi) b b3"
        using perm_in_trans [OF p(4) perm_in_trans [OF perm_in_mono [OF b2(2), of lo "Suc hi"]
              perm_in_mono [OF b3(2), of lo "Suc hi"]]] p(2,3) by simp
      ultimately show ?thesis using True p(1) second b2(1) b3(1) sp by (subst quicksort.simps) simp
    qed
  qed
qed

text \<open>
  C3: the quick sort, with its median of three and a pivot that is read through a pointer into the
  array being partitioned, returns for every array, never leaves it, and leaves its elements in
  the order of the comparator.
\<close>

theorem sort_quick_correct:
  assumes cmp: "total_compare cmp" and es: "0 < es" and sz: "length b < size_mod"
  shows "\<exists>b'. zenit_sort_quick (Some b) (length b) es (Some cmp) = Some (Some b') \<and>
    in_order cmp b' \<and> mset b' = mset b"
proof (cases "length b < 2")
  case True
  then have "in_order cmp b" by (cases b; cases "tl b") (auto simp: in_order_def)
  then show ?thesis using True by (simp add: zenit_sort_quick_def)
next
  case False
  then have "length b - 1 < length b" by simp
  then obtain b' where b': "quicksort cmp b 0 (length b - 1) = Some b'" "perm_in 0 (Suc (length b - 1)) b b'"
      "in_order cmp (slice b' 0 (Suc (length b - 1)))"
    using quicksort_ok [OF cmp sz] by blast
  moreover have "slice b' 0 (Suc (length b - 1)) = b'" using b'(2) False by (simp add: slice_def perm_in_def)
  ultimately show ?thesis using False es by (auto simp: zenit_sort_quick_def perm_in_def)
qed

text \<open>
  a binary search in an ordered array finds an element equal to the key exactly when there is one.
\<close>

theorem binary_search_correct:
  assumes cmp: "total_compare cmp" and ord: "in_order cmp b" and es: "0 < es"
  shows "\<exists>r. zenit_binary_search (Some key) (Some b) (length b) es (Some cmp) = Some r \<and>
    (case r of None \<Rightarrow> \<forall>x \<in> set b. cmp key x \<noteq> 0 | Some i \<Rightarrow> i < length b \<and> cmp key (b ! i) = 0)"
proof -
  note flip = total_compare.cmp_flip [OF cmp] and trans = total_compare.cmp_trans [OF cmp]
  have "\<exists>r. search_loop cmp key b lo hi = Some r \<and>
      (case r of None \<Rightarrow> \<forall>x \<in> set b. cmp key x \<noteq> 0 | Some i \<Rightarrow> i < length b \<and> cmp key (b ! i) = 0)"
    if "hi \<le> length b" "\<And>i. i < lo \<Longrightarrow> 0 < cmp key (b ! i)" "\<And>i. hi \<le> i \<Longrightarrow> i < length b \<Longrightarrow> cmp key (b ! i) < 0" for lo hi
    using that
  proof (induction "hi - lo" arbitrary: lo hi rule: less_induct)
    case less
    show ?case
    proof (cases "lo < hi")
      case False
      have "cmp key (b ! i) \<noteq> 0" if "i < length b" for i
        using less.prems(2) [of i] less.prems(3) [of i] that False by (cases "i < lo") auto
      then show ?thesis using False by (subst search_loop.simps) (auto simp: in_set_conv_nth)
    next
      case True
      define mid where "mid = lo + (hi - lo) div 2"
      have m: "mid < hi" "lo \<le> mid" "mid < length b" using True less.prems(1) by (auto simp: mid_def)
      have run: "search_loop cmp key b lo hi = (if cmp key (b ! mid) = 0 then Some (Some mid)
          else if cmp key (b ! mid) < 0 then search_loop cmp key b lo mid else search_loop cmp key b (mid + 1) hi)"
        using True m by (subst search_loop.simps) (simp add: mid_def [symmetric] Let_def)
      consider "cmp key (b ! mid) = 0" | "cmp key (b ! mid) < 0" | "0 < cmp key (b ! mid)" by linarith
      then show ?thesis
      proof cases
        case 1
        then show ?thesis using run m by simp
      next
        case 2
        have "cmp key (b ! i) < 0" if "mid \<le> i" "i < length b" for i
          using in_order_nth [OF cmp ord that] 2 flip trans [of "b ! mid" "b ! i" key] by (meson linorder_not_less)
        then show ?thesis using run 2 less.hyps [of mid lo] less.prems m by simp
      next
        case 3
        have "0 < cmp key (b ! i)" if "i < mid + 1" for i
          using in_order_nth [OF cmp ord, of i mid] 3 m that trans [of key "b ! i" "b ! mid"]
          by (cases "cmp key (b ! i) \<le> 0") auto
        then show ?thesis using run 3 less.hyps [of hi "mid + 1"] less.prems m by simp
      qed
    qed
  qed
  from this [of "length b" 0] show ?thesis using es by (simp add: zenit_binary_search_def)
qed

section \<open>Concrete instances\<close>

theorem sort_stable_correct_witness:
  "\<exists>r b' h'. zenit_sort_stable (Some [[3], [1], [2]]) 3 1 (Some memcmp_bytes)
      \<lparr>heap_live = [], heap_script = [], heap_junk = 0\<rparr> = Some (r, Some b', h') \<and>
    (r = ZENIT_OK \<longrightarrow> in_order memcmp_bytes b')"
  using sort_stable_correct [OF memcmp_order.total_compare_axioms, of 1 "[[3], [1], [2]]"
      "\<lparr>heap_live = [], heap_script = [], heap_junk = 0\<rparr>"]
  by (fastforce simp: size_mod_def numeral_3_eq_3)

theorem sort_quick_correct_witness:
  "\<exists>b'. zenit_sort_quick (Some [[3], [1], [2]]) 3 1 (Some memcmp_bytes) = Some (Some b') \<and> in_order memcmp_bytes b'"
  using sort_quick_correct [OF memcmp_order.total_compare_axioms, of 1 "[[3], [1], [2]]"]
  by (fastforce simp: size_mod_def numeral_3_eq_3)

lemma demo_ordered: "in_order memcmp_bytes [[1], [2], [3]]" "length [[1 :: byte], [2], [3]] = 3"
  by code_simp+

theorem bound_searches_correct_witness:
  "\<exists>p. zenit_lower_bound (Some [2]) (Some [[1], [2], [3]]) 3 1 (Some memcmp_bytes) = Some p"
  using bound_searches_correct [OF memcmp_order.total_compare_axioms demo_ordered(1), of 1 "[2]"]
  unfolding demo_ordered(2) by auto

theorem binary_search_correct_witness:
  "\<exists>r. zenit_binary_search (Some [2]) (Some [[1], [2], [3]]) 3 1 (Some memcmp_bytes) = Some r"
  using binary_search_correct [OF memcmp_order.total_compare_axioms demo_ordered(1), of 1 "[2]"]
  unfolding demo_ordered(2) by auto

end
