(* ===== verification/Zenit_Spsc.thy ===== *)
theory Zenit_Spsc
  imports Zenit_Allocator Zenit_Pow2
begin

unbundle bit_operations_syntax

text \<open>
  The lock-free queue between one producer and one consumer (\<open>include/libzenit/spsc.h\<close>,
  \<open>src/spsc.c\<close>). The indices are 32-bit words that wrap around. The functions are modelled twice: as
  whole calls, and as the atomic steps between which the other thread may run. The memory barriers
  make the order of the steps the order both threads see.
\<close>

section \<open>State and calls\<close>

record zenit_spsc_t =
  sp_self :: nat
  sp_buffer :: ptr
  sp_capacity :: nat
  sp_elem_size :: nat
  sp_head :: "32 word"
  sp_tail :: "32 word"

definition sizeof_spsc :: nat where
  "sizeof_spsc = 32"

definition round_pow2_u32 :: "32 word \<Rightarrow> 32 word" where
  "round_pow2_u32 v = smear 16 (smear 8 (smear 4 (smear 2 (smear 1 (v - 1))))) + 1"

definition zenit_spsc_create :: "nat \<Rightarrow> nat \<Rightarrow> c_heap \<Rightarrow> (zenit_spsc_t option \<times> c_heap) option" where
  "zenit_spsc_create elem_size capacity h =
    (if elem_size = 0 \<or> capacity = 0 then Some (None, h)
     else
       let c = round_pow2_u32 (word_of_nat capacity);
           cap = (if c = 0 then word_of_nat capacity else c) in
       case c_malloc sizeof_spsc h of
         (None, h1) \<Rightarrow> Some (None, h1)
       | (Some s, h1) \<Rightarrow>
           (case c_malloc (sz_mul elem_size (unat cap)) h1 of
              (None, h2) \<Rightarrow> do { h3 \<leftarrow> c_free (Some (maddr s)) h2; Some (None, h3) }
            | (Some b, h2) \<Rightarrow>
                Some (Some \<lparr>sp_self = maddr s, sp_buffer = Some b, sp_capacity = unat cap,
                  sp_elem_size = elem_size, sp_head = 0, sp_tail = 0\<rparr>, h2)))"

definition zenit_spsc_destroy :: "zenit_spsc_t option \<Rightarrow> c_heap \<Rightarrow> c_heap option" where
  "zenit_spsc_destroy sp h =
    (case sp of None \<Rightarrow> Some h
     | Some s \<Rightarrow> do {
         h1 \<leftarrow> c_free (paddr (sp_buffer s)) h;
         c_free (Some (sp_self s)) h1
       })"

text \<open>The byte offset of the slot an index refers to, with the index mask of the code.\<close>

definition spsc_slot :: "zenit_spsc_t \<Rightarrow> 32 word \<Rightarrow> nat" where
  "spsc_slot s i =
    sz_mul (unat (i AND word_of_nat (sz_sub (sp_capacity s) 1))) (sp_elem_size s)"

definition spsc_is_full :: "zenit_spsc_t \<Rightarrow> 32 word \<Rightarrow> 32 word \<Rightarrow> bool" where
  "spsc_is_full s head tail \<longleftrightarrow> head - tail \<ge> word_of_nat (sp_capacity s)"

definition zenit_spsc_push ::
    "zenit_spsc_t option \<Rightarrow> byte list option \<Rightarrow> (zenit_result_t \<times> zenit_spsc_t option) option" where
  "zenit_spsc_push sp elem =
    (case (sp, elem) of
       (Some s, Some e) \<Rightarrow>
         let head = sp_head s; tail = sp_tail s in
         if spsc_is_full s head tail then Some (ZENIT_ERROR_FULL, sp)
         else do {
           x \<leftarrow> user_read e (sp_elem_size s);
           b \<leftarrow> mem_write (sp_buffer s) (spsc_slot s head) x;
           Some (ZENIT_OK, Some (s\<lparr>sp_buffer := b, sp_head := head + 1\<rparr>))
         }
     | _ \<Rightarrow> Some (ZENIT_ERROR_NULL, sp))"

definition zenit_spsc_pop ::
    "zenit_spsc_t option \<Rightarrow> byte list option \<Rightarrow> (zenit_result_t \<times> zenit_spsc_t option \<times> byte list option) option" where
  "zenit_spsc_pop sp out =
    (case (sp, out) of
       (Some s, Some d) \<Rightarrow>
         let head = sp_head s; tail = sp_tail s in
         if head = tail then Some (ZENIT_ERROR_EMPTY, sp, out)
         else do {
           x \<leftarrow> mem_read (sp_buffer s) (spsc_slot s tail) (sp_elem_size s);
           d' \<leftarrow> user_write d 0 x;
           Some (ZENIT_OK, Some (s\<lparr>sp_tail := tail + 1\<rparr>), Some d')
         }
     | _ \<Rightarrow> Some (ZENIT_ERROR_NULL, sp, out))"

definition zenit_spsc_count :: "zenit_spsc_t option \<Rightarrow> nat" where
  "zenit_spsc_count sp = (case sp of None \<Rightarrow> 0 | Some s \<Rightarrow> unat (sp_head s - sp_tail s))"

definition zenit_spsc_capacity :: "zenit_spsc_t option \<Rightarrow> nat" where
  "zenit_spsc_capacity sp = (case sp of None \<Rightarrow> 0 | Some s \<Rightarrow> sp_capacity s)"

definition zenit_spsc_full :: "zenit_spsc_t option \<Rightarrow> bool" where
  "zenit_spsc_full sp = (case sp of None \<Rightarrow> False | Some s \<Rightarrow> spsc_is_full s (sp_head s) (sp_tail s))"

definition zenit_spsc_empty :: "zenit_spsc_t option \<Rightarrow> bool" where
  "zenit_spsc_empty sp = (case sp of None \<Rightarrow> False | Some s \<Rightarrow> sp_head s = sp_tail s)"

section \<open>Two threads\<close>

text \<open>
  Where a thread is inside its call, with its local copies of the indices. Each index is written by
  one thread only, so reading both at once loses no interleaving: the other thread's index may be
  out of date at any later step.
\<close>

datatype producer = PIdle | PLoaded "32 word" "32 word" "byte list" | PCopied "32 word" "byte list"

datatype consumer = CIdle | CLoaded "32 word" "32 word" | CCopied "32 word" "byte list"

text \<open>The shared queue, the two threads, and the elements pushed and popped so far.\<close>

record spsc_sys =
  sys_q :: zenit_spsc_t
  sys_p :: producer
  sys_c :: consumer
  sys_in :: "byte list list"
  sys_out :: "byte list list"

inductive spsc_step :: "spsc_sys \<Rightarrow> spsc_sys \<Rightarrow> bool" where
  p_load: "sys_p s = PIdle \<Longrightarrow> length x = sp_elem_size (sys_q s) \<Longrightarrow>
    spsc_step s (s\<lparr>sys_p := PLoaded (sp_head (sys_q s)) (sp_tail (sys_q s)) x\<rparr>)"
| p_full: "sys_p s = PLoaded h t x \<Longrightarrow> spsc_is_full (sys_q s) h t \<Longrightarrow> spsc_step s (s\<lparr>sys_p := PIdle\<rparr>)"
| p_copy: "sys_p s = PLoaded h t x \<Longrightarrow> \<not> spsc_is_full (sys_q s) h t \<Longrightarrow>
    mem_write (sp_buffer (sys_q s)) (spsc_slot (sys_q s) h) x = Some b \<Longrightarrow>
    spsc_step s (s\<lparr>sys_q := (sys_q s)\<lparr>sp_buffer := b\<rparr>, sys_p := PCopied h x\<rparr>)"
| p_publish: "sys_p s = PCopied h x \<Longrightarrow>
    spsc_step s (s\<lparr>sys_q := (sys_q s)\<lparr>sp_head := h + 1\<rparr>, sys_p := PIdle, sys_in := sys_in s @ [x]\<rparr>)"
| c_load: "sys_c s = CIdle \<Longrightarrow>
    spsc_step s (s\<lparr>sys_c := CLoaded (sp_head (sys_q s)) (sp_tail (sys_q s))\<rparr>)"
| c_empty: "sys_c s = CLoaded h t \<Longrightarrow> h = t \<Longrightarrow> spsc_step s (s\<lparr>sys_c := CIdle\<rparr>)"
| c_copy: "sys_c s = CLoaded h t \<Longrightarrow> h \<noteq> t \<Longrightarrow>
    mem_read (sp_buffer (sys_q s)) (spsc_slot (sys_q s) t) (sp_elem_size (sys_q s)) = Some x \<Longrightarrow>
    spsc_step s (s\<lparr>sys_c := CCopied t x\<rparr>)"
| c_publish: "sys_c s = CCopied t x \<Longrightarrow>
    spsc_step s (s\<lparr>sys_q := (sys_q s)\<lparr>sp_tail := t + 1\<rparr>, sys_c := CIdle, sys_out := sys_out s @ [x]\<rparr>)"

inductive spsc_reach :: "spsc_sys \<Rightarrow> spsc_sys \<Rightarrow> bool" where
  reach_refl: "spsc_reach s s"
| reach_step: "spsc_reach s t \<Longrightarrow> spsc_step t u \<Longrightarrow> spsc_reach s u"

inductive_cases spsc_stepE: "spsc_step s t"

definition spsc_start :: "zenit_spsc_t \<Rightarrow> spsc_sys" where
  "spsc_start q = \<lparr>sys_q = q, sys_p = PIdle, sys_c = CIdle, sys_in = [], sys_out = []\<rparr>"

section \<open>The invariant\<close>

definition spsc_layout :: "zenit_spsc_t \<Rightarrow> bool" where
  "spsc_layout q \<longleftrightarrow> 0 < sp_elem_size q \<and> (\<exists>p < 32. sp_capacity q = 2 ^ p) \<and>
    plen (sp_buffer q) = sp_capacity q * sp_elem_size q \<and> sp_capacity q * sp_elem_size q < size_mod"

text \<open>
  With \<open>n\<close> elements pushed and \<open>m\<close> popped, the indices are \<open>n\<close> and \<open>m\<close> modulo \<open>2 ^ 32\<close>, and the slots
  of the elements in between hold them.
\<close>

definition spsc_data :: "zenit_spsc_t \<Rightarrow> byte list list \<Rightarrow> nat \<Rightarrow> bool" where
  "spsc_data q xs m \<longleftrightarrow> m \<le> length xs \<and> length xs \<le> m + sp_capacity q \<and>
    sp_head q = word_of_nat (length xs) \<and> sp_tail q = word_of_nat m \<and>
    (\<forall>i. m \<le> i \<and> i < length xs \<longrightarrow>
       slot (sp_elem_size q) (pbytes (sp_buffer q)) (i mod sp_capacity q) = xs ! i)"

definition prod_ok :: "spsc_sys \<Rightarrow> bool" where
  "prod_ok s \<longleftrightarrow> (case sys_p s of
      PIdle \<Rightarrow> True
    | PLoaded h t x \<Rightarrow> length x = sp_elem_size (sys_q s) \<and> h = word_of_nat (length (sys_in s)) \<and>
        (\<exists>m'. t = word_of_nat m' \<and> m' \<le> length (sys_out s) \<and> length (sys_in s) \<le> m' + sp_capacity (sys_q s))
    | PCopied h x \<Rightarrow> h = word_of_nat (length (sys_in s)) \<and>
        length (sys_in s) < length (sys_out s) + sp_capacity (sys_q s) \<and>
        slot (sp_elem_size (sys_q s)) (pbytes (sp_buffer (sys_q s)))
          (length (sys_in s) mod sp_capacity (sys_q s)) = x)"

definition cons_ok :: "spsc_sys \<Rightarrow> bool" where
  "cons_ok s \<longleftrightarrow> (case sys_c s of
      CIdle \<Rightarrow> True
    | CLoaded h t \<Rightarrow> t = word_of_nat (length (sys_out s)) \<and>
        (\<exists>n'. h = word_of_nat n' \<and> length (sys_out s) \<le> n' \<and> n' \<le> length (sys_in s))
    | CCopied t x \<Rightarrow> t = word_of_nat (length (sys_out s)) \<and> length (sys_out s) < length (sys_in s) \<and>
        x = sys_in s ! length (sys_out s))"

definition spsc_inv :: "spsc_sys \<Rightarrow> bool" where
  "spsc_inv s \<longleftrightarrow> spsc_layout (sys_q s) \<and> spsc_data (sys_q s) (sys_in s) (length (sys_out s)) \<and>
    sys_out s = take (length (sys_out s)) (sys_in s) \<and> prod_ok s \<and> cons_ok s"

section \<open>Indices modulo the word size\<close>

lemma spsc_mask:
  assumes "spsc_layout q"
  shows "unat (word_of_nat n AND word_of_nat (sz_sub (sp_capacity q) 1) :: 32 word) = n mod sp_capacity q"
proof -
  from assms obtain p where p: "p < 32" "sp_capacity q = 2 ^ p" by (auto simp: spsc_layout_def)
  have "(2::nat) ^ p < 2 ^ 32" using p(1) by (intro power_strict_increasing) simp_all
  then have "sz_sub (sp_capacity q) 1 = 2 ^ p - 1" using p(2) by (simp add: size_simps size_mod_def)
  then have "(word_of_nat (sz_sub (sp_capacity q) 1) :: 32 word) = mask p"
    by (simp add: mask_eq_exp_minus_1 of_nat_diff)
  then have "unat (word_of_nat n AND word_of_nat (sz_sub (sp_capacity q) 1) :: 32 word) = take_bit p (take_bit 32 n)"
    by (simp add: take_bit_eq_mask [symmetric] unsigned_take_bit_eq unsigned_of_nat)
  also have "\<dots> = take_bit p n" using p(1) by (simp add: take_bit_take_bit)
  finally show ?thesis using p(2) by (simp add: take_bit_eq_mod)
qed

lemma spsc_slot_ok:
  assumes "spsc_layout q"
  shows "spsc_slot q (word_of_nat n) = n mod sp_capacity q * sp_elem_size q"
    and "n mod sp_capacity q * sp_elem_size q + sp_elem_size q \<le> plen (sp_buffer q)"
    and "sp_buffer q \<noteq> None"
proof -
  have c: "0 < sp_capacity q" using assms by (auto simp: spsc_layout_def)
  then have lt: "n mod sp_capacity q < sp_capacity q" by simp
  have le: "sp_capacity q * sp_elem_size q \<le> plen (sp_buffer q)" "0 < sp_elem_size q" "plen (sp_buffer q) < size_mod"
    using assms by (simp_all add: spsc_layout_def)
  note r = slot_in_range [OF le(1) lt le(2,3)]
  show "spsc_slot q (word_of_nat n) = n mod sp_capacity q * sp_elem_size q"
    using r spsc_mask [OF assms] by (simp add: spsc_slot_def)
  show "n mod sp_capacity q * sp_elem_size q + sp_elem_size q \<le> plen (sp_buffer q)" and "sp_buffer q \<noteq> None"
    using r by simp_all
qed

lemma word_diff_nat:
  assumes "m \<le> n" and "n - m < 2 ^ 32"
  shows "unat (word_of_nat n - word_of_nat m :: 32 word) = n - m"
proof -
  have "(word_of_nat n - word_of_nat m :: 32 word) = word_of_nat (n - m)" using assms(1) by (simp add: of_nat_diff)
  then show ?thesis using assms(2) by (simp add: unsigned_of_nat take_bit_nat_eq_self)
qed

lemma spsc_full_iff:
  assumes lay: "spsc_layout q" and "m \<le> n" and "n \<le> m + sp_capacity q"
  shows "spsc_is_full q (word_of_nat n) (word_of_nat m) \<longleftrightarrow> n = m + sp_capacity q"
proof -
  from lay obtain p where p: "p < 32" "sp_capacity q = 2 ^ p" by (auto simp: spsc_layout_def)
  have lt: "(2::nat) ^ p < 2 ^ 32" using p(1) by (intro power_strict_increasing) simp_all
  have "unat (word_of_nat (sp_capacity q) :: 32 word) = sp_capacity q"
    using lt p(2) word_diff_nat [of 0 "sp_capacity q"] by simp
  moreover have "unat (word_of_nat n - word_of_nat m :: 32 word) = n - m"
    using assms lt p by (intro word_diff_nat) auto
  ultimately show ?thesis using assms by (auto simp: spsc_is_full_def word_le_nat_alt)
qed

lemma word_eq_nat:
  assumes "m \<le> n" and "n - m < 2 ^ 32"
  shows "(word_of_nat n :: 32 word) = word_of_nat m \<longleftrightarrow> n = m"
proof -
  have "(word_of_nat n :: 32 word) = word_of_nat m \<longleftrightarrow> unat (word_of_nat n - word_of_nat m :: 32 word) = 0"
    by (simp add: unat_eq_0)
  then show ?thesis using word_diff_nat [OF assms] assms(1) by auto
qed

section \<open>Every step keeps the invariant\<close>

lemma spsc_capacity_lt: "spsc_layout q \<Longrightarrow> 0 < sp_capacity q \<and> sp_capacity q < 2 ^ 32"
  using power_strict_increasing [of _ 32 "2::nat"] by (auto simp: spsc_layout_def)

lemma spsc_count_ok:
  assumes "spsc_layout q" and "spsc_data q xs m"
  shows "unat (sp_head q - sp_tail q) = length xs - m" and "sp_head q = sp_tail q \<longleftrightarrow> m = length xs"
proof -
  have "m \<le> length xs" "length xs - m < 2 ^ 32"
    using assms(2) spsc_capacity_lt [OF assms(1)] by (auto simp: spsc_data_def)
  then show "unat (sp_head q - sp_tail q) = length xs - m" and "sp_head q = sp_tail q \<longleftrightarrow> m = length xs"
    using assms(2) word_diff_nat [of m "length xs"] word_eq_nat [of m "length xs"] by (auto simp: spsc_data_def)
qed

lemma slot_apart:
  fixes c :: nat
  assumes "m \<le> i" and "i < n" and "n < m + c"
  shows "i mod c \<noteq> n mod c"
proof
  assume "i mod c = n mod c"
  then have "c dvd n - i" using assms(2) mod_eq_dvd_iff_nat [of i n c] by simp
  then show False using assms by (auto dest: dvd_imp_le)
qed

lemma spsc_write:
  assumes lay: "spsc_layout q" and x: "length x = sp_elem_size q"
  obtains b where "mem_write (sp_buffer q) (spsc_slot q (word_of_nat n)) x = Some b"
    and "spsc_layout (q\<lparr>sp_buffer := b\<rparr>)"
    and "\<And>i. slot (sp_elem_size q) (pbytes b) (i mod sp_capacity q) =
      (if i mod sp_capacity q = n mod sp_capacity q then x
       else slot (sp_elem_size q) (pbytes (sp_buffer q)) (i mod sp_capacity q))"
proof -
  note r = spsc_slot_ok [OF lay]
  obtain b where b: "mem_write (sp_buffer q) (spsc_slot q (word_of_nat n)) x = Some b"
      "pbytes b = blit (pbytes (sp_buffer q)) (n mod sp_capacity q * sp_elem_size q) x" "plen b = plen (sp_buffer q)"
    using mem_write_obtain [OF r(3), of "spsc_slot q (word_of_nat n)" x] r(1,2) [of n] x by auto
  have "spsc_layout (q\<lparr>sp_buffer := b\<rparr>)" using lay b(3) by (simp add: spsc_layout_def)
  then show thesis
    using that b slot_blit [OF x, of _ "pbytes (sp_buffer q)"] r(2) by simp
qed

lemma mem_read_length: "mem_read p off n = Some x \<Longrightarrow> length x = n"
  by (auto simp: mem_read_def split: option.splits if_splits)

lemma spsc_read:
  assumes lay: "spsc_layout q" and d: "spsc_data q xs m" and m: "m < length xs"
  shows "mem_read (sp_buffer q) (spsc_slot q (word_of_nat m)) (sp_elem_size q) = Some (xs ! m)"
  using d m spsc_slot_ok(1,2) [OF lay, of m] spsc_slot_ok(3) [OF lay] by (simp add: mem_read_ok spsc_data_def slot_def [symmetric])

lemma spsc_data_write:
  assumes d: "spsc_data q xs m" and n: "length xs < m + sp_capacity q"
    and sl: "\<And>i. slot (sp_elem_size q) (pbytes b) (i mod sp_capacity q) =
      (if i mod sp_capacity q = length xs mod sp_capacity q then x
       else slot (sp_elem_size q) (pbytes (sp_buffer q)) (i mod sp_capacity q))"
  shows "spsc_data (q\<lparr>sp_buffer := b\<rparr>) xs m"
  using d n slot_apart [OF _ _ n] by (simp add: spsc_data_def sl)

lemma spsc_loaded_free:
  assumes lay: "spsc_layout q" and m: "m' \<le> m" "m \<le> n" "n \<le> m' + sp_capacity q"
    and "\<not> spsc_is_full q (word_of_nat n) (word_of_nat m')"
  shows "n < m + sp_capacity q"
  using spsc_full_iff [OF lay, of m' n] assms by auto

lemma spsc_loaded_nonempty:
  assumes lay: "spsc_layout q" and d: "spsc_data q xs m" and n: "m \<le> n'" "n' \<le> length xs"
    and ne: "(word_of_nat n' :: 32 word) \<noteq> word_of_nat m"
  shows "m < length xs"
  using n ne by (cases "n' = m") auto

lemmas spsc_inv_defs = spsc_inv_def prod_ok_def cons_ok_def

lemma spsc_data_push:
  assumes "spsc_data q xs m" and "length xs < m + sp_capacity q"
    and "slot (sp_elem_size q) (pbytes (sp_buffer q)) (length xs mod sp_capacity q) = x"
  shows "spsc_data (q\<lparr>sp_head := word_of_nat (length xs) + 1\<rparr>) (xs @ [x]) m"
  using assms by (auto simp: spsc_data_def nth_append less_Suc_eq)

lemma spsc_data_pop:
  assumes "spsc_data q xs m" and "m < length xs"
  shows "spsc_data (q\<lparr>sp_tail := word_of_nat m + 1\<rparr>) xs (m + 1)"
  using assms by (auto simp: spsc_data_def)

lemma spsc_layout_index [simp]:
  "spsc_layout (q\<lparr>sp_head := h\<rparr>) = spsc_layout q" "spsc_layout (q\<lparr>sp_tail := t\<rparr>) = spsc_layout q"
  by (simp_all add: spsc_layout_def)

lemma spsc_step_inv:
  assumes "spsc_step s t" and inv: "spsc_inv s"
  shows "spsc_inv t"
proof -
  let ?q = "sys_q s" and ?n = "length (sys_in s)" and ?m = "length (sys_out s)"
  have lay: "spsc_layout ?q" and d: "spsc_data ?q (sys_in s) ?m" and pre: "sys_out s = take ?m (sys_in s)"
    and po: "prod_ok s" and co: "cons_ok s"
    using inv by (simp_all add: spsc_inv_def)
  have mn: "?m \<le> ?n" "?n \<le> ?m + sp_capacity ?q" using d by (simp_all add: spsc_data_def)
  from assms(1) show ?thesis
  proof (cases rule: spsc_step.cases)
    case (p_load x)
    then show ?thesis using inv d mn by (auto simp: spsc_inv_defs spsc_data_def split: consumer.splits)
  next
    case (p_full h u x)
    then show ?thesis using inv by (auto simp: spsc_inv_defs split: consumer.splits)
  next
    case (p_copy h u x b)
    from p_copy(2) po obtain m' where h: "length x = sp_elem_size ?q" "h = word_of_nat ?n"
        "u = word_of_nat m'" "m' \<le> ?m" "?n \<le> m' + sp_capacity ?q"
      by (auto simp: prod_ok_def)
    have lt: "?n < ?m + sp_capacity ?q"
      using spsc_loaded_free [OF lay h(4) mn(1) h(5)] p_copy(3) h(2,3) by simp
    obtain b' where b: "mem_write (sp_buffer ?q) (spsc_slot ?q (word_of_nat ?n)) x = Some b'"
        "spsc_layout (?q\<lparr>sp_buffer := b'\<rparr>)"
        "\<And>i. slot (sp_elem_size ?q) (pbytes b') (i mod sp_capacity ?q) =
          (if i mod sp_capacity ?q = ?n mod sp_capacity ?q then x
           else slot (sp_elem_size ?q) (pbytes (sp_buffer ?q)) (i mod sp_capacity ?q))"
      using spsc_write [OF lay h(1)] by blast
    have bb: "b' = b" using b(1) p_copy(4) h(2) by simp
    have "spsc_data (?q\<lparr>sp_buffer := b\<rparr>) (sys_in s) ?m"
      using spsc_data_write [OF d lt] b(3) bb by blast
    then show ?thesis
      using p_copy(1) pre co lt h(2) b(2,3) [unfolded bb] by (auto simp: spsc_inv_defs split: consumer.splits)
  next
    case (p_publish h x)
    then have h: "h = word_of_nat ?n" "?n < ?m + sp_capacity ?q"
        "slot (sp_elem_size ?q) (pbytes (sp_buffer ?q)) (?n mod sp_capacity ?q) = x"
      using po by (auto simp: prod_ok_def)
    have "cons_ok t" using p_publish(1) co
      by (fastforce simp: cons_ok_def nth_append split: consumer.splits)
    then show ?thesis
      using p_publish(1) lay pre mn spsc_data_push [OF d h(2,3)] h(1) by (simp add: spsc_inv_def prod_ok_def)
  next
    case c_load
    then show ?thesis using inv d mn by (auto simp: spsc_inv_defs spsc_data_def split: producer.splits)
  next
    case (c_empty h u)
    then show ?thesis using inv by (auto simp: spsc_inv_defs split: producer.splits)
  next
    case (c_copy h u x)
    then obtain n' where h: "u = word_of_nat ?m" "h = word_of_nat n'" "?m \<le> n'" "n' \<le> ?n"
      using co by (auto simp: cons_ok_def)
    have lt: "?m < ?n" using spsc_loaded_nonempty [OF lay d h(3,4)] c_copy(3) h(1,2) by simp
    then have "x = sys_in s ! ?m" using spsc_read [OF lay d] c_copy(4) h(1) by simp
    then show ?thesis using c_copy(1) inv lt h(1) by (auto simp: spsc_inv_defs split: producer.splits)
  next
    case (c_publish u x)
    then have h: "u = word_of_nat ?m" "?m < ?n" "x = sys_in s ! ?m" using co by (auto simp: cons_ok_def)
    have "prod_ok t" using c_publish(1) po by (fastforce simp: prod_ok_def split: producer.splits)
    then show ?thesis
      using c_publish(1) lay pre spsc_data_pop [OF d h(2)] h
      by (simp add: spsc_inv_def cons_ok_def take_Suc_conv_app_nth One_nat_def)
  qed
qed


lemma spsc_reach_inv:
  assumes "spsc_reach s t" and "spsc_inv s"
  shows "spsc_inv t"
  using assms by (induction rule: spsc_reach.induct) (auto dest: spsc_step_inv)

section \<open>A fresh queue\<close>

lemma round_pow2_u32_least:
  assumes n: "0 < n" "n \<le> 2 ^ 31"
  shows "\<exists>p < 32. unat (round_pow2_u32 (word_of_nat n)) = 2 ^ p \<and> n \<le> 2 ^ p \<and> (\<forall>q. n \<le> 2 ^ q \<longrightarrow> p \<le> q)"
proof -
  let ?x = "word_of_nat n - 1 :: 32 word"
  have "smeared 1 ?x ?x" by (simp add: smeared_def)
  from smeared_step [OF smeared_step [OF smeared_step [OF smeared_step [OF smeared_step [OF this]]]]]
  have "smeared LENGTH(32) ?x (smear 16 (smear 8 (smear 4 (smear 2 (smear 1 ?x)))))" by simp
  from smeared_pow2 [OF this unat_of_nat_minus_one n(1)] n show ?thesis by (simp add: round_pow2_u32_def)
qed

lemma default_fns: "alloc_fn ZENIT_ALLOCATOR_DEFAULT = c_malloc" "free_fn ZENIT_ALLOCATOR_DEFAULT = c_free"
  by (auto simp: ZENIT_ALLOCATOR_DEFAULT_def zenit_default_alloc_def zenit_default_free_def fun_eq_iff)

lemma spsc_create_cases:
  assumes cap: "0 < capacity" "capacity \<le> 2 ^ 31" and es: "0 < es" "es * 2 ^ 32 < size_mod"
  obtains (null) h' where "zenit_spsc_create es capacity h = Some (None, h')" and "heap_addrs h' = heap_addrs h"
  | (queue) q h' where "zenit_spsc_create es capacity h = Some (Some q, h')" and "spsc_layout q"
      and "sp_elem_size q = es" and "capacity \<le> sp_capacity q" and "sp_head q = 0" and "sp_tail q = 0"
      and "zenit_spsc_destroy (Some q) h' \<noteq> None"
      and "\<And>h''. zenit_spsc_destroy (Some q) h' = Some h'' \<Longrightarrow> heap_addrs h'' = heap_addrs h"
proof -
  obtain p where p: "p < 32" "unat (round_pow2_u32 (word_of_nat capacity)) = 2 ^ p" "capacity \<le> 2 ^ p"
    using round_pow2_u32_least [OF cap] by blast
  then have nz: "round_pow2_u32 (word_of_nat capacity) \<noteq> 0" by (metis unat_0 power_not_zero zero_neq_numeral)
  have "(2::nat) ^ p \<le> 2 ^ 32" using p(1) by (intro power_increasing) simp_all
  then have "es * 2 ^ p \<le> es * 2 ^ 32" by (rule mult_le_mono2)
  then have "es * 2 ^ p < size_mod" using es(2) by (rule le_less_trans)
  then have fit: "es * 2 ^ p < size_mod" "sz_mul es (2 ^ p) = es * 2 ^ p" by (simp_all add: sz_mul_nowrap)
  note eval = zenit_spsc_create_def nz p(2) fit(2) Let_def
  show thesis
  proof (cases rule: default_alloc.alloc_cases [of sizeof_spsc h])
    case (null h1)
    then show thesis using cap es by (intro that(1) [of h1]) (simp_all add: eval default_fns)
  next
    case one: (block s h1)
    show thesis
    proof (cases rule: default_alloc.alloc_cases [of "es * 2 ^ p" h1])
      case (null h2)
      then have "maddr s \<in> heap_addrs h2" using one by simp
      then obtain h3 where "c_free (Some (maddr s)) h2 = Some h3" "heap_addrs h3 = heap_addrs h2 - {maddr s}"
        using default_alloc.free_addr by (auto simp: default_fns)
      then show thesis using one null cap es by (intro that(1) [of h3]) (simp_all add: eval default_fns)
    next
      case two: (block b h2)
      note own = owned_fresh [OF default_contract one(3,4) two(3,4)]
      define q where "q = \<lparr>sp_self = maddr s, sp_buffer = Some b, sp_capacity = 2 ^ p, sp_elem_size = es,
        sp_head = 0, sp_tail = 0\<rparr>"
      obtain h3 h4 where f: "c_free (paddr (Some b)) h2 = Some h3" "c_free (Some (maddr s)) h3 = Some h4"
          "heap_addrs h4 = heap_addrs h2 - insert (maddr s) (paddrs (Some b))"
        using owned_release [OF own(1)] by (auto simp: default_fns)
      then have h3: "zenit_spsc_destroy (Some q) h2 = Some h4" "heap_addrs h4 = heap_addrs h"
        using own(3) by (simp_all add: zenit_spsc_destroy_def q_def)
      show thesis
      proof (rule that(2) [of q h2])
        show "zenit_spsc_create es capacity h = Some (Some q, h2)"
          using one two cap es by (simp add: eval q_def default_fns)
        show "spsc_layout q"
          using p(1) es(1) fit(1) two(2) by (auto simp: q_def spsc_layout_def mult.commute)
      qed (use p(3) h3 in \<open>simp_all add: q_def\<close>)
    qed
  qed
qed

lemma spsc_start_inv:
  assumes "spsc_layout q" and "sp_head q = 0" and "sp_tail q = 0"
  shows "spsc_inv (spsc_start q)"
  using assms by (simp add: spsc_inv_def spsc_data_def spsc_start_def prod_ok_def cons_ok_def)

lemma spsc_reach_created:
  assumes "zenit_spsc_create es capacity h = Some (Some q, h')" and "0 < capacity" and "capacity \<le> 2 ^ 31"
    and "0 < es" and "es * 2 ^ 32 < size_mod" and "spsc_reach (spsc_start q) s"
  shows "spsc_inv s"
proof -
  have "spsc_inv (spsc_start q)"
    by (cases rule: spsc_create_cases [OF assms(2-5), of h]) (use assms(1) in \<open>auto intro: spsc_start_inv\<close>)
  then show ?thesis by (rule spsc_reach_inv [OF assms(6)])
qed

lemma spsc_reach_capacity:
  assumes "spsc_reach s t"
  shows "sp_capacity (sys_q t) = sp_capacity (sys_q s)"
  using assms by (induction rule: spsc_reach.induct) (auto elim!: spsc_stepE)

text \<open>
  C1: Safety of the two threads: whatever the interleaving of the steps of a producer and a consumer on
  a queue made by \<open>zenit_spsc_create\<close>, and however often the 32-bit indices wrap around, what has
  been popped is what was pushed, in the order of the pushes; at most the capacity is in between.
\<close>

theorem spsc_fifo_any_interleaving:
  assumes "zenit_spsc_create es capacity h = Some (Some q, h')" and "0 < capacity" and "capacity \<le> 2 ^ 31"
    and "0 < es" and "es * 2 ^ 32 < size_mod" and "spsc_reach (spsc_start q) s"
  shows "sys_out s = take (length (sys_out s)) (sys_in s) \<and> length (sys_out s) \<le> length (sys_in s) \<and>
    length (sys_in s) \<le> length (sys_out s) + zenit_spsc_capacity (Some q) \<and>
    zenit_spsc_count (Some (sys_q s)) = length (sys_in s) - length (sys_out s)"
proof -
  have inv: "spsc_inv s" by (rule spsc_reach_created [OF assms])
  then have d: "spsc_data (sys_q s) (sys_in s) (length (sys_out s))" and lay: "spsc_layout (sys_q s)"
    by (simp_all add: spsc_inv_def)
  have "zenit_spsc_count (Some (sys_q s)) = length (sys_in s) - length (sys_out s)"
    using spsc_count_ok(1) [OF lay d] by (simp add: zenit_spsc_count_def)
  then show ?thesis using inv d spsc_reach_capacity [OF assms(6)]
    by (simp add: spsc_inv_def spsc_data_def zenit_spsc_capacity_def spsc_start_def)
qed

lemma spsc_producer_enabled:
  assumes "spsc_inv s"
  shows "\<exists>t. spsc_step s t \<and> sys_p t \<noteq> sys_p s \<and> sys_c t = sys_c s"
proof (cases "sys_p s")
  case PIdle
  then show ?thesis using p_load [of s "replicate (sp_elem_size (sys_q s)) 0"] by fastforce
next
  case (PLoaded h u x)
  show ?thesis
  proof (cases "spsc_is_full (sys_q s) h u")
    case True
    then show ?thesis using p_full [OF PLoaded] PLoaded by fastforce
  next
    case False
    have "spsc_layout (sys_q s)" "length x = sp_elem_size (sys_q s)" "h = word_of_nat (length (sys_in s))"
      using assms PLoaded by (simp_all add: spsc_inv_def prod_ok_def)
    then obtain b where "mem_write (sp_buffer (sys_q s)) (spsc_slot (sys_q s) h) x = Some b"
      using spsc_write by blast
    from p_copy [OF PLoaded False this] show ?thesis using PLoaded by fastforce
  qed
next
  case (PCopied h x)
  then show ?thesis using p_publish [OF PCopied] by fastforce
qed

lemma spsc_consumer_copies:
  assumes inv: "spsc_inv s" and c: "sys_c s = CLoaded h u" "h \<noteq> u"
  shows "spsc_step s (s\<lparr>sys_c := CCopied u (sys_in s ! length (sys_out s))\<rparr>)"
proof (rule c_copy [OF c])
  have d: "spsc_layout (sys_q s)" "spsc_data (sys_q s) (sys_in s) (length (sys_out s))"
    using inv by (simp_all add: spsc_inv_def)
  from inv c obtain n' where "u = word_of_nat (length (sys_out s))" "h = word_of_nat n'"
      "length (sys_out s) \<le> n'" "n' \<le> length (sys_in s)"
    by (auto simp: spsc_inv_def cons_ok_def)
  then show "mem_read (sp_buffer (sys_q s)) (spsc_slot (sys_q s) u) (sp_elem_size (sys_q s)) =
      Some (sys_in s ! length (sys_out s))"
    using spsc_read [OF d] spsc_loaded_nonempty [OF d] c(2) by auto
qed

lemma spsc_consumer_enabled:
  assumes "spsc_inv s"
  shows "\<exists>t. spsc_step s t \<and> sys_c t \<noteq> sys_c s \<and> sys_p t = sys_p s"
proof (cases "sys_c s")
  case CIdle
  then show ?thesis using c_load [of s] by fastforce
next
  case (CLoaded h u)
  then show ?thesis using c_empty [OF CLoaded] spsc_consumer_copies [OF assms CLoaded] by (cases "h = u") fastforce+
next
  case (CCopied u x)
  then show ?thesis using c_publish [OF CCopied] by fastforce
qed

lemma spsc_consumer_delivers:
  assumes inv: "spsc_inv s" and idle: "sys_c s = CIdle" and lt: "length (sys_out s) < length (sys_in s)"
  shows "\<exists>t u v. spsc_step s t \<and> spsc_step t u \<and> spsc_step u v \<and> sys_p v = sys_p s \<and>
    sys_out v = sys_out s @ [sys_in s ! length (sys_out s)]"
proof -
  let ?h = "sp_head (sys_q s)" and ?u = "sp_tail (sys_q s)" and ?x = "sys_in s ! length (sys_out s)"
  have lay: "spsc_layout (sys_q s)" and d: "spsc_data (sys_q s) (sys_in s) (length (sys_out s))"
    using inv by (simp_all add: spsc_inv_def)
  have ne: "?h \<noteq> ?u" using spsc_count_ok(2) [OF lay d] lt by simp
  define t where "t = s\<lparr>sys_c := CLoaded ?h ?u\<rparr>"
  define u where "u = s\<lparr>sys_c := CCopied ?u ?x\<rparr>"
  have st: "spsc_step s t" using c_load [OF idle] by (simp add: t_def)
  have tu: "spsc_step t u"
    using spsc_consumer_copies [OF spsc_step_inv [OF st inv], of ?h ?u] ne by (simp add: t_def u_def)
  show ?thesis using st tu c_publish [of u ?u ?x] by (fastforce simp: u_def)
qed


section \<open>Whole calls\<close>

text \<open>
  A call that is not interrupted implements the bounded queue of the elements \<open>drop m xs\<close>: a push on
  a full queue and a pop of an empty one are refused and change nothing, any other push appends
  and any other pop delivers the oldest element.
\<close>

theorem spsc_calls_refine:
  assumes lay: "spsc_layout q" and d: "spsc_data q xs m"
    and e: "length e = sp_elem_size q" and out: "length out = sp_elem_size q"
  shows "(if length xs - m = sp_capacity q then zenit_spsc_push (Some q) (Some e) = Some (ZENIT_ERROR_FULL, Some q)
      else \<exists>q'. zenit_spsc_push (Some q) (Some e) = Some (ZENIT_OK, Some q') \<and>
        spsc_layout q' \<and> spsc_data q' (xs @ [e]) m) \<and>
    (if length xs = m then zenit_spsc_pop (Some q) (Some out) = Some (ZENIT_ERROR_EMPTY, Some q, Some out)
      else \<exists>q'. zenit_spsc_pop (Some q) (Some out) = Some (ZENIT_OK, Some q', Some (xs ! m)) \<and>
        spsc_layout q' \<and> spsc_data q' xs (m + 1))"
proof -
  have i: "m \<le> length xs" "length xs \<le> m + sp_capacity q" "sp_head q = word_of_nat (length xs)"
    "sp_tail q = word_of_nat m" using d by (simp_all add: spsc_data_def)
  have full: "spsc_is_full q (sp_head q) (sp_tail q) \<longleftrightarrow> length xs - m = sp_capacity q"
    using spsc_full_iff [OF lay i(1,2)] i by auto
  obtain b where b: "mem_write (sp_buffer q) (spsc_slot q (word_of_nat (length xs))) e = Some b"
      "spsc_layout (q\<lparr>sp_buffer := b\<rparr>)"
      "\<And>i. slot (sp_elem_size q) (pbytes b) (i mod sp_capacity q) =
        (if i mod sp_capacity q = length xs mod sp_capacity q then e
         else slot (sp_elem_size q) (pbytes (sp_buffer q)) (i mod sp_capacity q))"
    using spsc_write [OF lay e] by blast
  have "spsc_data (q\<lparr>sp_buffer := b, sp_head := word_of_nat (length xs) + 1\<rparr>) (xs @ [e]) m"
    if k: "length xs - m \<noteq> sp_capacity q"
    using spsc_data_push [OF spsc_data_write [OF d _ b(3)]] b(3) [of "length xs"] i(2) k by simp
  moreover have "mem_read (sp_buffer q) (spsc_slot q (word_of_nat m)) (sp_elem_size q) = Some (xs ! m) \<and>
      spsc_data (q\<lparr>sp_tail := word_of_nat m + 1\<rparr>) xs (m + 1) \<and> length (xs ! m) = sp_elem_size q"
    if k: "length xs \<noteq> m"
    using spsc_read [OF lay d] spsc_data_pop [OF d] i(1) k
    by (auto intro: mem_read_length)
  ultimately show ?thesis
    using full b e out i lay spsc_count_ok(2) [OF lay d]
    by (auto simp: zenit_spsc_push_def zenit_spsc_pop_def Let_def user_read_def user_write_def blit_def)
qed

definition spsc_demo :: zenit_spsc_t where
  "spsc_demo = \<lparr>sp_self = 1, sp_buffer = Some \<lparr>maddr = 2, mbytes = replicate 8 0\<rparr>, sp_capacity = 4,
    sp_elem_size = 2, sp_head = 0, sp_tail = 0\<rparr>"

lemma spsc_demo_create:
  "zenit_spsc_create 2 3 \<lparr>heap_live = [], heap_script = [], heap_junk = 0\<rparr> =
    Some (Some spsc_demo, \<lparr>heap_live = [2, 1], heap_script = [], heap_junk = 0\<rparr>)"
proof -
  obtain p where p: "p < 32" "unat (round_pow2_u32 (word_of_nat 3)) = 2 ^ p" "3 \<le> (2::nat) ^ p"
      "\<forall>q. 3 \<le> (2::nat) ^ q \<longrightarrow> p \<le> q"
    using round_pow2_u32_least [of 3] by auto
  have "p \<le> 2" using p(4) [rule_format, of 2] by simp
  moreover have "\<not> p \<le> 1" using p(3) power_increasing [of p 1 "2::nat"] by auto
  ultimately have "p = 2" by linarith
  then have "unat (round_pow2_u32 3) = 4" and "round_pow2_u32 3 \<noteq> 0" using p(2) by (auto simp: unat_eq_0)
  then show ?thesis
    by (simp add: zenit_spsc_create_def c_malloc_def fresh_addr_def spsc_demo_def size_simps size_mod_def Let_def)
qed

lemma spsc_demo_reach:
  "spsc_reach (spsc_start spsc_demo)
    \<lparr>sys_q = spsc_demo\<lparr>sp_buffer := Some \<lparr>maddr = 2, mbytes = [7, 8, 0, 0, 0, 0, 0, 0]\<rparr>, sp_head := 1\<rparr>,
     sys_p = PIdle, sys_c = CIdle, sys_in = [[7, 8]], sys_out = []\<rparr>"
proof -
  let ?s = "spsc_start spsc_demo" and ?b = "Some \<lparr>maddr = 2, mbytes = [7, 8, 0, 0, 0, 0, 0, 0]\<rparr>"
  note eval = spsc_start_def spsc_demo_def
  have blit: "blit (replicate 8 0) 0 [7, 8] = [7, 8, 0, 0, 0, 0, 0, 0 :: byte]" by code_simp
  have one: "spsc_step ?s (?s\<lparr>sys_p := PLoaded 0 0 [7, 8]\<rparr>)"
    using p_load [of ?s "[7, 8]"] by (simp add: eval)
  have two: "spsc_step (?s\<lparr>sys_p := PLoaded 0 0 [7, 8]\<rparr>)
      (?s\<lparr>sys_q := spsc_demo\<lparr>sp_buffer := ?b\<rparr>, sys_p := PCopied 0 [7, 8]\<rparr>)"
    using p_copy [of "?s\<lparr>sys_p := PLoaded 0 0 [7, 8]\<rparr>" 0 0 "[7, 8]" ?b]
      blit
    by (simp add: eval spsc_is_full_def spsc_slot_def mem_write_def size_simps size_mod_def)
  have three: "spsc_step (?s\<lparr>sys_q := spsc_demo\<lparr>sp_buffer := ?b\<rparr>, sys_p := PCopied 0 [7, 8]\<rparr>)
      (?s\<lparr>sys_q := spsc_demo\<lparr>sp_buffer := ?b, sp_head := 1\<rparr>, sys_in := [[7, 8]]\<rparr>)"
    using p_publish [of "?s\<lparr>sys_q := spsc_demo\<lparr>sp_buffer := ?b\<rparr>, sys_p := PCopied 0 [7, 8]\<rparr>" 0 "[7, 8]"]
    by (simp add: eval)
  from reach_step [OF reach_step [OF reach_step [OF reach_refl one] two] three] show ?thesis
    by (simp add: spsc_start_def)
qed

theorem spsc_fifo_any_interleaving_witness:
  "\<exists>s. spsc_reach (spsc_start spsc_demo) s \<and> sys_in s = [[7, 8]] \<and> length (sys_out s) \<le> 1 \<and>
    zenit_spsc_count (Some (sys_q s)) = 1"
  using spsc_demo_reach spsc_fifo_any_interleaving [OF spsc_demo_create _ _ _ _ spsc_demo_reach]
  by (intro exI conjI) (assumption | simp add: size_mod_def)+


theorem spsc_calls_refine_witness:
  "(\<exists>q'. zenit_spsc_push (Some spsc_demo) (Some [5, 6]) = Some (ZENIT_OK, Some q') \<and> spsc_data q' [[5, 6]] 0) \<and>
   zenit_spsc_pop (Some spsc_demo) (Some [1, 1]) = Some (ZENIT_ERROR_EMPTY, Some spsc_demo, Some [1, 1])"
proof -
  have "spsc_layout spsc_demo" unfolding spsc_layout_def
    by (intro conjI exI [of _ 2]) (simp_all add: spsc_demo_def size_mod_def)
  moreover have "spsc_data spsc_demo [] 0" by (simp add: spsc_data_def spsc_demo_def)
  ultimately show ?thesis using spsc_calls_refine [of spsc_demo "[]" 0 "[5, 6]" "[1, 1]"]
    by (auto simp: spsc_demo_def)
qed

end
