(* ===== verification/Zenit_Pool.thy ===== *)
theory Zenit_Pool
  imports Zenit_Allocator
begin

text \<open>
  The object pool (\<open>include/libzenit/pool.h\<close>, \<open>src/pool.c\<close>): one block of \<open>capacity\<close> objects and an
  array with the indices of the free ones, used as a stack. An object pointer is its distance from
  the start of the buffer (\<open>ptrdiff_t\<close>, so that pointers of other blocks can be given as well).
\<close>

section \<open>State and operations\<close>

record 'h zenit_pool_t =
  pl_self :: nat
  pl_buffer :: ptr
  pl_list_addr :: nat
  pl_free_list :: "nat list"
  pl_capacity :: nat
  pl_object_size :: nat
  pl_free_count :: nat
  pl_allocator :: "'h zenit_allocator_t"

definition sizeof_pool :: nat where
  "sizeof_pool = 72"

definition sizeof_size_t :: nat where
  "sizeof_size_t = 8"

text \<open>A block of bytes seen as an array of little-endian \<open>size_t\<close>.\<close>

fun le_value :: "byte list \<Rightarrow> nat" where
  "le_value [] = 0"
| "le_value (b # bs) = unat b + 256 * le_value bs"

definition size_array :: "mblock \<Rightarrow> nat list" where
  "size_array b = map (\<lambda>i. le_value (take sizeof_size_t (drop (i * sizeof_size_t) (mbytes b))))
    [0..<length (mbytes b) div sizeof_size_t]"

text \<open>The loop that makes every slot free; a store outside the array is undefined.\<close>

function pool_fill_loop :: "nat \<Rightarrow> nat \<Rightarrow> nat list \<Rightarrow> nat list option" where
  "pool_fill_loop i n fl =
    (if i < n then if i < length fl then pool_fill_loop (i + 1) n (fl[i := i]) else None else Some fl)"
  by auto
termination by (relation "measure (\<lambda>(i, n, fl). n - i)") auto

declare pool_fill_loop.simps [simp del]

definition zenit_pool_create_with_allocator ::
    "nat \<Rightarrow> nat \<Rightarrow> 'h zenit_allocator_t \<Rightarrow> 'h \<Rightarrow> ('h zenit_pool_t option \<times> 'h) option" where
  "zenit_pool_create_with_allocator object_size capacity a h =
    (if object_size = 0 \<or> capacity = 0 then Some (None, h)
     else case alloc_fn a sizeof_pool h of
       (None, h1) \<Rightarrow> Some (None, h1)
     | (Some pool, h1) \<Rightarrow> do {
         (buf, h2) \<leftarrow> zenit_allocator_alloc_zero a capacity object_size h1;
         (case buf of
            None \<Rightarrow> do { h3 \<leftarrow> free_fn a (Some (maddr pool)) h2; Some (None, h3) }
          | Some _ \<Rightarrow>
             (case alloc_fn a (sz_mul capacity sizeof_size_t) h2 of
                (None, h3) \<Rightarrow> do {
                  h4 \<leftarrow> free_fn a (paddr buf) h3;
                  h5 \<leftarrow> free_fn a (Some (maddr pool)) h4;
                  Some (None, h5)
                }
              | (Some l, h3) \<Rightarrow> do {
                  fl \<leftarrow> pool_fill_loop 0 capacity (size_array l);
                  Some (Some \<lparr>pl_self = maddr pool, pl_buffer = buf, pl_list_addr = maddr l,
                    pl_free_list = fl, pl_capacity = capacity, pl_object_size = object_size,
                    pl_free_count = capacity, pl_allocator = a\<rparr>, h3)
                }))
       })"

definition zenit_pool_create :: "nat \<Rightarrow> nat \<Rightarrow> c_heap \<Rightarrow> (c_heap zenit_pool_t option \<times> c_heap) option" where
  "zenit_pool_create object_size capacity =
    zenit_pool_create_with_allocator object_size capacity ZENIT_ALLOCATOR_DEFAULT"

definition zenit_pool_destroy :: "'h zenit_pool_t option \<Rightarrow> 'h \<Rightarrow> 'h option" where
  "zenit_pool_destroy pool h =
    (case pool of None \<Rightarrow> Some h
     | Some p \<Rightarrow> do {
         h1 \<leftarrow> free_fn (pl_allocator p) (Some (pl_list_addr p)) h;
         h2 \<leftarrow> free_fn (pl_allocator p) (paddr (pl_buffer p)) h1;
         free_fn (pl_allocator p) (Some (pl_self p)) h2
       })"

definition zenit_pool_acquire :: "'h zenit_pool_t option \<Rightarrow> (int option \<times> 'h zenit_pool_t option) option" where
  "zenit_pool_acquire pool =
    (case pool of None \<Rightarrow> Some (None, pool)
     | Some p \<Rightarrow>
         if pl_free_count p = 0 then Some (None, pool)
         else
           let n = pl_free_count p - 1 in
           if n < length (pl_free_list p)
           then Some (Some (int (sz_mul (pl_free_list p ! n) (pl_object_size p))), Some (p\<lparr>pl_free_count := n\<rparr>))
           else None)"

text \<open>The scan for a slot that is already free.\<close>

function pool_find_free :: "nat list \<Rightarrow> nat \<Rightarrow> nat \<Rightarrow> nat \<Rightarrow> bool option" where
  "pool_find_free fl n sl i =
    (if i < n then
       if i < length fl then if fl ! i = sl then Some True else pool_find_free fl n sl (i + 1) else None
     else Some False)"
  by auto
termination by (relation "measure (\<lambda>(fl, n, sl, i). n - i)") auto

declare pool_find_free.simps [simp del]

definition zenit_pool_release :: "'h zenit_pool_t option \<Rightarrow> int option \<Rightarrow> (zenit_result_t \<times> 'h zenit_pool_t option) option" where
  "zenit_pool_release pool obj =
    (case (pool, obj) of
       (Some p, Some offset) \<Rightarrow>
         if offset < 0 \<or> nat offset \<ge> sz_mul (pl_capacity p) (pl_object_size p) then Some (ZENIT_ERROR_PARAM, pool)
         else
           let sl = nat offset div pl_object_size p in
           if nat offset mod pl_object_size p \<noteq> 0 then Some (ZENIT_ERROR_PARAM, pool)
           else do {
             found \<leftarrow> pool_find_free (pl_free_list p) (pl_free_count p) sl 0;
             if found then Some (ZENIT_ERROR_DOUBLE_FREE, pool)
             else if pl_free_count p < length (pl_free_list p)
             then Some (ZENIT_OK, Some (p\<lparr>pl_free_list := (pl_free_list p)[pl_free_count p := sl],
                    pl_free_count := sz_add (pl_free_count p) 1\<rparr>))
             else None
           }
     | _ \<Rightarrow> Some (ZENIT_ERROR_NULL, pool))"

definition zenit_pool_count :: "'h zenit_pool_t option \<Rightarrow> nat" where
  "zenit_pool_count pool = (case pool of None \<Rightarrow> 0 | Some p \<Rightarrow> sz_sub (pl_capacity p) (pl_free_count p))"

definition zenit_pool_capacity :: "'h zenit_pool_t option \<Rightarrow> nat" where
  "zenit_pool_capacity pool = (case pool of None \<Rightarrow> 0 | Some p \<Rightarrow> pl_capacity p)"

definition zenit_pool_available :: "'h zenit_pool_t option \<Rightarrow> nat" where
  "zenit_pool_available pool = (case pool of None \<Rightarrow> 0 | Some p \<Rightarrow> pl_free_count p)"

definition zenit_pool_clear :: "'h zenit_pool_t option \<Rightarrow> 'h zenit_pool_t option option" where
  "zenit_pool_clear pool =
    (case pool of None \<Rightarrow> Some None
     | Some p \<Rightarrow> do {
         fl \<leftarrow> pool_fill_loop 0 (pl_capacity p) (pl_free_list p);
         Some (Some (p\<lparr>pl_free_list := fl, pl_free_count := pl_capacity p\<rparr>))
       })"

text \<open>One call of a client, and a run of calls.\<close>

datatype pool_call = Acquire | Release int | Clear

definition pool_call :: "pool_call \<Rightarrow> 'h zenit_pool_t option \<Rightarrow> 'h zenit_pool_t option option" where
  "pool_call c pool =
    (case c of
       Acquire \<Rightarrow> map_option snd (zenit_pool_acquire pool)
     | Release obj \<Rightarrow> map_option snd (zenit_pool_release pool (Some obj))
     | Clear \<Rightarrow> zenit_pool_clear pool)"

fun pool_run :: "pool_call list \<Rightarrow> 'h zenit_pool_t option \<Rightarrow> 'h zenit_pool_t option option" where
  "pool_run [] pool = Some pool"
| "pool_run (c # cs) pool = do { p \<leftarrow> pool_call c pool; pool_run cs p }"

section \<open>The invariant and the acquired slots\<close>

definition pool_inv :: "'h zenit_pool_t \<Rightarrow> bool" where
  "pool_inv p \<longleftrightarrow> 0 < pl_object_size p \<and> 0 < pl_capacity p \<and>
    pl_capacity p * pl_object_size p < size_mod \<and> plen (pl_buffer p) = pl_capacity p * pl_object_size p \<and>
    pl_free_count p \<le> pl_capacity p \<and> length (pl_free_list p) = pl_capacity p \<and>
    distinct (take (pl_free_count p) (pl_free_list p)) \<and>
    set (take (pl_free_count p) (pl_free_list p)) \<subseteq> {..<pl_capacity p}"

definition pool_acquired :: "'h zenit_pool_t \<Rightarrow> nat set" where
  "pool_acquired p = {..<pl_capacity p} - set (take (pl_free_count p) (pl_free_list p))"

definition pool_owned :: "('h \<Rightarrow> nat set) \<Rightarrow> 'h zenit_pool_t \<Rightarrow> 'h \<Rightarrow> bool" where
  "pool_owned live p h \<longleftrightarrow> owned (pl_allocator p) live (pl_self p) (pl_buffer p) h \<and>
    pl_list_addr p \<in> live h \<and> pl_list_addr p \<noteq> pl_self p \<and> pl_list_addr p \<notin> paddrs (pl_buffer p)"

text \<open>The bytes of one slot.\<close>

definition pool_object :: "'h zenit_pool_t \<Rightarrow> nat \<Rightarrow> nat set" where
  "pool_object p k = {k * pl_object_size p ..< k * pl_object_size p + pl_object_size p}"

lemma pool_fill_loop_ok:
  "i \<le> n \<Longrightarrow> n \<le> length fl \<Longrightarrow> pool_fill_loop i n fl = Some (take i fl @ [i..<n] @ drop n fl)"
proof (induction i n fl rule: pool_fill_loop.induct)
  case (1 i n fl)
  show ?case
  proof (cases "i < n")
    case True
    then have "pool_fill_loop (i + 1) n (fl[i := i]) = Some (take (i + 1) (fl[i := i]) @ [i + 1..<n] @ drop n fl)"
      using 1 by simp
    then show ?thesis using True 1(3)
      by (simp add: pool_fill_loop.simps [of i] upt_conv_Cons take_Suc_conv_app_nth One_nat_def)
  next
    case False
    then show ?thesis using 1 by (simp add: pool_fill_loop.simps [of n])
  qed
qed

lemma pool_find_free_ok:
  "n \<le> length fl \<Longrightarrow> pool_find_free fl n sl i = Some (\<exists>j. i \<le> j \<and> j < n \<and> fl ! j = sl)"
proof (induction fl n sl i rule: pool_find_free.induct)
  case (1 fl n sl i)
  show ?case
  proof (cases "i < n \<and> fl ! i \<noteq> sl")
    case True
    then have "pool_find_free fl n sl i = Some (\<exists>j. i + 1 \<le> j \<and> j < n \<and> fl ! j = sl)"
      using 1 by (simp add: pool_find_free.simps [of fl n sl i])
    moreover have "i + 1 \<le> j \<and> j < n \<and> fl ! j = sl \<longleftrightarrow> i \<le> j \<and> j < n \<and> fl ! j = sl" for j
      using True by (cases "i = j") auto
    ultimately show ?thesis by simp
  next
    case False
    then show ?thesis using 1 by (auto simp: pool_find_free.simps [of fl n sl i])
  qed
qed

lemma pool_find_free_member:
  assumes "pool_inv p"
  shows "pool_find_free (pl_free_list p) (pl_free_count p) k 0 = Some (k \<in> set (take (pl_free_count p) (pl_free_list p)))"
  using assms by (auto simp: pool_find_free_ok pool_inv_def in_set_conv_nth)

lemma pool_card:
  assumes "pool_inv p"
  shows "card (pool_acquired p) = pl_capacity p - pl_free_count p"
  using assms by (simp add: pool_acquired_def pool_inv_def card_Diff_subset distinct_card)

lemma pool_slot_offset:
  assumes "pool_inv p" and "k < pl_capacity p"
  shows "sz_mul k (pl_object_size p) = k * pl_object_size p"
    and "pool_object p k \<subseteq> {..<plen (pl_buffer p)}"
  using assms sz_mul_le [of "pl_capacity p" "pl_object_size p" k] slot_block_le [OF assms(2), of "pl_object_size p"]
  by (auto simp: pool_inv_def pool_object_def)

lemma pool_objects_disjoint:
  assumes "i \<noteq> j"
  shows "pool_object p i \<inter> pool_object p j = {}"
  using slot_block_le [of i j "pl_object_size p"] slot_block_le [of j i "pl_object_size p"] assms
  by (cases "i < j") (auto simp: pool_object_def)

lemma pool_acquire_ok:
  assumes inv: "pool_inv p" and n: "0 < pl_free_count p"
  obtains k where "k < pl_capacity p" and "k \<notin> pool_acquired p"
    and "zenit_pool_acquire (Some p) = Some (Some (int (k * pl_object_size p)), Some (p\<lparr>pl_free_count := pl_free_count p - 1\<rparr>))"
    and "pool_inv (p\<lparr>pl_free_count := pl_free_count p - 1\<rparr>)"
    and "pool_acquired (p\<lparr>pl_free_count := pl_free_count p - 1\<rparr>) = insert k (pool_acquired p)"
proof -
  define m where "m = pl_free_count p - 1"
  define k where "k = pl_free_list p ! m"
  define q where "q = p\<lparr>pl_free_count := pl_free_count p - 1\<rparr>"
  have m: "m < length (pl_free_list p)" "pl_free_count p = Suc m" using inv n by (auto simp: m_def pool_inv_def)
  then have tk: "take (pl_free_count p) (pl_free_list p) = take m (pl_free_list p) @ [k]"
    by (simp add: take_Suc_conv_app_nth k_def)
  have q: "pl_free_count q = m" "pl_free_list q = pl_free_list p" "pl_capacity q = pl_capacity p"
    "pl_object_size q = pl_object_size p" "pl_buffer q = pl_buffer p" by (simp_all add: q_def m_def)
  have k: "k < pl_capacity p" using inv tk by (auto simp: pool_inv_def)
  have "k \<notin> pool_acquired p" using tk by (simp add: pool_acquired_def)
  moreover have "zenit_pool_acquire (Some p) = Some (Some (int (k * pl_object_size p)), Some q)"
    using m(1) n pool_slot_offset(1) [OF inv k] by (simp add: zenit_pool_acquire_def Let_def k_def q_def m_def)
  moreover have "pool_inv q" using inv tk m(2) by (auto simp: pool_inv_def q)
  moreover have kn: "k \<notin> set (take m (pl_free_list p))" using inv tk by (simp add: pool_inv_def)
  have "pool_acquired q = insert k (pool_acquired p)"
    using k kn unfolding pool_acquired_def q tk by auto
  ultimately show thesis using k by (intro that) (simp_all add: q_def)
qed

lemma pool_release_ok:
  assumes inv: "pool_inv p" and k: "k \<in> pool_acquired p"
  obtains q where "zenit_pool_release (Some p) (Some (int (k * pl_object_size p))) = Some (ZENIT_OK, Some q)"
    and "pool_inv q" and "pool_acquired q = pool_acquired p - {k}"
    and "pl_object_size q = pl_object_size p" and "pl_capacity q = pl_capacity p"
    and "pl_free_count q = pl_free_count p + 1"
proof -
  let ?n = "pl_free_count p" and ?fl = "pl_free_list p" and ?c = "pl_capacity p" and ?os = "pl_object_size p"
  have c: "k < ?c" "k \<notin> set (take ?n ?fl)" using k by (auto simp: pool_acquired_def)
  have cap: "?c * ?os < size_mod" "0 < ?os" "length ?fl = ?c" using inv by (simp_all add: pool_inv_def)
  have lt: "?n < ?c" 
  proof -
    have "card (pool_acquired p) \<noteq> 0" using k by (auto simp: pool_acquired_def)
    then show ?thesis using pool_card [OF inv] by simp
  qed
  have off: "k * ?os < ?c * ?os" using c(1) cap(2) by simp
  define q where "q = p\<lparr>pl_free_list := ?fl[?n := k], pl_free_count := ?n + 1\<rparr>"
  have tk: "take (?n + 1) (?fl[?n := k]) = take ?n ?fl @ [k]"
    using lt cap(3) by (simp add: take_Suc_conv_app_nth One_nat_def)
  have "?n + 1 < size_mod" using lt factor_less [OF cap(1,2)] by linarith
  then have "zenit_pool_release (Some p) (Some (int (k * ?os))) = Some (ZENIT_OK, Some q)"
    using off cap lt c pool_find_free_member [OF inv, of k] sz_mul_nowrap [OF cap(1)] sz_add_nowrap [of ?n 1]
    by (simp add: zenit_pool_release_def Let_def q_def nat_mult_distrib flip: of_nat_mult)
  moreover have "pool_inv q" using inv tk c lt by (auto simp: pool_inv_def q_def)
  moreover have "pool_acquired q = pool_acquired p - {k}" using tk by (auto simp: pool_acquired_def q_def)
  ultimately show thesis by (rule that) (simp_all add: q_def)
qed


lemma pool_clear_ok:
  assumes inv: "pool_inv p"
  obtains q where "zenit_pool_clear (Some p) = Some (Some q)" and "pool_inv q" and "pool_acquired q = {}"
    and "pl_capacity q = pl_capacity p" and "pl_object_size q = pl_object_size p"
proof -
  have fl: "pool_fill_loop 0 (pl_capacity p) (pl_free_list p) = Some [0..<pl_capacity p]"
    using inv pool_fill_loop_ok [of 0 "pl_capacity p" "pl_free_list p"] by (simp add: pool_inv_def)
  show thesis
    by (rule that [of "p\<lparr>pl_free_list := [0..<pl_capacity p], pl_free_count := pl_capacity p\<rparr>"])
      (use fl inv in \<open>auto simp: zenit_pool_clear_def pool_inv_def pool_acquired_def\<close>)
qed

text \<open>
  The pool refines a set of acquired slots. An acquire gives a slot that nobody holds, inside the
  buffer and apart from every object held, or \<open>NULL\<close> when all are held.
\<close>

theorem pool_acquire_refines:
  assumes "pool_inv p"
  shows "if pool_acquired p = {..<pl_capacity p} then zenit_pool_acquire (Some p) = Some (None, Some p)
    else \<exists>k q. zenit_pool_acquire (Some p) = Some (Some (int (k * pl_object_size p)), Some q) \<and>
      k < pl_capacity p \<and> k \<notin> pool_acquired p \<and> pool_acquired q = insert k (pool_acquired p) \<and> pool_inv q \<and>
      pool_object p k \<subseteq> {..<plen (pl_buffer p)} \<and>
      pool_object p k \<inter> (\<Union>j \<in> pool_acquired p. pool_object p j) = {}"
proof (cases "pl_free_count p = 0")
  case True
  then show ?thesis by (simp add: pool_acquired_def zenit_pool_acquire_def)
next
  case False
  then obtain k where k: "k < pl_capacity p" "k \<notin> pool_acquired p"
    "zenit_pool_acquire (Some p) = Some (Some (int (k * pl_object_size p)), Some (p\<lparr>pl_free_count := pl_free_count p - 1\<rparr>))"
    "pool_inv (p\<lparr>pl_free_count := pl_free_count p - 1\<rparr>)"
    "pool_acquired (p\<lparr>pl_free_count := pl_free_count p - 1\<rparr>) = insert k (pool_acquired p)"
    using pool_acquire_ok [OF assms] by blast
  have "pool_object p k \<inter> pool_object p j = {}" if "j \<in> pool_acquired p" for j
    using that k(2) by (intro pool_objects_disjoint) auto
  then have "pool_object p k \<inter> (\<Union>j \<in> pool_acquired p. pool_object p j) = {}" by blast
  moreover have "pool_acquired p \<noteq> {..<pl_capacity p}" using k(1,2) by auto
  ultimately show ?thesis using k pool_slot_offset(2) [OF assms k(1)] by auto
qed

lemma pool_release_refused:
  assumes inv: "pool_inv p"
    and no: "\<not> (\<exists>k \<in> pool_acquired p. obj = int (k * pl_object_size p))"
  shows "zenit_pool_release (Some p) (Some obj) =
    Some (if \<exists>k < pl_capacity p. obj = int (k * pl_object_size p) then ZENIT_ERROR_DOUBLE_FREE
          else ZENIT_ERROR_PARAM, Some p)"
proof (cases "\<exists>k < pl_capacity p. obj = int (k * pl_object_size p)")
  case True
  then obtain k where k: "k < pl_capacity p" "obj = int (k * pl_object_size p)" by blast
  have os: "0 < pl_object_size p" "pl_capacity p * pl_object_size p < size_mod" using inv by (simp_all add: pool_inv_def)
  have "k \<in> set (take (pl_free_count p) (pl_free_list p))" using no k by (auto simp: pool_acquired_def)
  then show ?thesis
    using True k os pool_find_free_member [OF inv, of k] sz_mul_nowrap [OF os(2)]
    by (simp add: zenit_pool_release_def Let_def nat_mult_distrib flip: of_nat_mult)
next
  case False
  have os: "0 < pl_object_size p" "pl_capacity p * pl_object_size p < size_mod" using inv by (simp_all add: pool_inv_def)
  have "nat obj mod pl_object_size p \<noteq> 0" if r: "0 \<le> obj" "nat obj < pl_capacity p * pl_object_size p"
  proof
    assume "nat obj mod pl_object_size p = 0"
    then have eq: "nat obj = nat obj div pl_object_size p * pl_object_size p"
      using div_mult_mod_eq [of "nat obj" "pl_object_size p"] by linarith
    then have "obj = int (nat obj div pl_object_size p * pl_object_size p)" using r(1) by simp
    moreover have "nat obj div pl_object_size p < pl_capacity p" using r(2) by (simp add: less_mult_imp_div_less)
    ultimately show False using False by blast
  qed
  then show ?thesis using False sz_mul_nowrap [OF os(2)]
    by (auto simp: zenit_pool_release_def Let_def)
qed

text \<open>
  C25: A release, on every pointer: an object that is held becomes free; the start of an object that is
  not held is a double free; anything else (a foreign pointer, or one into the middle of an
  object) is refused as a parameter error. The refusals change nothing.
\<close>

theorem pool_release_refines:
  assumes "pool_inv p"
  shows "if \<exists>k \<in> pool_acquired p. obj = int (k * pl_object_size p)
    then \<exists>q. zenit_pool_release (Some p) (Some obj) = Some (ZENIT_OK, Some q) \<and> pool_inv q \<and>
      pool_acquired q = pool_acquired p - {nat obj div pl_object_size p}
    else zenit_pool_release (Some p) (Some obj) =
      Some (if \<exists>k < pl_capacity p. obj = int (k * pl_object_size p) then ZENIT_ERROR_DOUBLE_FREE
            else ZENIT_ERROR_PARAM, Some p)"
proof (cases "\<exists>k \<in> pool_acquired p. obj = int (k * pl_object_size p)")
  case True
  then obtain k where k: "k \<in> pool_acquired p" "obj = int (k * pl_object_size p)" by blast
  have "nat obj div pl_object_size p = k" using assms k(2) by (simp add: pool_inv_def flip: of_nat_mult)
  moreover obtain q where "zenit_pool_release (Some p) (Some obj) = Some (ZENIT_OK, Some q)" "pool_inv q"
      "pool_acquired q = pool_acquired p - {k}"
    using pool_release_ok [OF assms k(1)] k(2) by metis
  ultimately show ?thesis using True by simp
next
  case False
  then show ?thesis using pool_release_refused [OF assms False] by simp
qed

lemma pool_call_inv:
  assumes "pool_inv p"
  shows "\<exists>q. pool_call c (Some p) = Some (Some q) \<and> pool_inv q \<and> pl_capacity q = pl_capacity p"
proof (cases c)
  case Acquire
  show ?thesis
  proof (cases "pl_free_count p = 0")
    case True
    then show ?thesis using Acquire assms by (simp add: pool_call_def zenit_pool_acquire_def)
  next
    case False
    then obtain k where "zenit_pool_acquire (Some p) =
        Some (Some (int (k * pl_object_size p)), Some (p\<lparr>pl_free_count := pl_free_count p - 1\<rparr>))"
      "pool_inv (p\<lparr>pl_free_count := pl_free_count p - 1\<rparr>)"
      using pool_acquire_ok [OF assms] by blast
    then show ?thesis using Acquire by (simp add: pool_call_def)
  qed
next
  case (Release obj)
  show ?thesis
  proof (cases "\<exists>k \<in> pool_acquired p. obj = int (k * pl_object_size p)")
    case True
    then obtain k where k: "k \<in> pool_acquired p" "obj = int (k * pl_object_size p)" by blast
    obtain q where "zenit_pool_release (Some p) (Some obj) = Some (ZENIT_OK, Some q)" "pool_inv q"
        "pl_capacity q = pl_capacity p"
      using pool_release_ok [OF assms k(1)] k(2) by metis
    then show ?thesis using Release by (simp add: pool_call_def)
  next
    case False
    then show ?thesis using pool_release_refused [OF assms False] Release assms by (simp add: pool_call_def)
  qed
next
  case Clear
  obtain q where "zenit_pool_clear (Some p) = Some (Some q)" "pool_inv q" "pl_capacity q = pl_capacity p"
    using pool_clear_ok [OF assms] by metis
  then show ?thesis using Clear by (simp add: pool_call_def)
qed

lemma pool_run_inv:
  assumes "pool_inv p"
  shows "\<exists>q. pool_run cs (Some p) = Some (Some q) \<and> pool_inv q \<and> pl_capacity q = pl_capacity p"
  using assms
proof (induction cs arbitrary: p)
  case (Cons c cs)
  from pool_call_inv [OF Cons.prems, of c] obtain q where
    q: "pool_call c (Some p) = Some (Some q)" "pool_inv q" "pl_capacity q = pl_capacity p" by blast
  then show ?case using Cons.IH [OF q(2)] by simp
qed simp


section \<open>Creating and destroying\<close>

lemma size_array_length [simp]: "length (size_array b) = length (mbytes b) div sizeof_size_t"
  by (simp add: size_array_def)

lemma pool_create_cases:
  assumes contract: "allocator_contract a live" and nz: "0 < os" "0 < capacity"
    and fit: "capacity * os < size_mod" "capacity * sizeof_size_t < size_mod"
  obtains (null) h' where "zenit_pool_create_with_allocator os capacity a h = Some (None, h')" and "live h' = live h"
  | (pool) p h' where "zenit_pool_create_with_allocator os capacity a h = Some (Some p, h')"
      and "pool_inv p" and "pool_owned live p h'" and "pool_acquired p = {}" and "pl_capacity p = capacity"
      and "pl_object_size p = os"
      and "live h' = live h \<union> {pl_self p, pl_list_addr p} \<union> paddrs (pl_buffer p)"
      and "({pl_self p, pl_list_addr p} \<union> paddrs (pl_buffer p)) \<inter> live h = {}"
proof (cases rule: allocator_contract.alloc_cases [OF contract, of sizeof_pool h, case_names null block])
  case (null h1)
  then show thesis using nz by (intro that(1) [of h1]) (simp_all add: zenit_pool_create_with_allocator_def)
next
  case one: (block s h1)
  show thesis
  proof (cases rule: allocator_contract.alloc_zero_cases [OF contract, of capacity os h1, case_names null block])
    case (null h2)
    then obtain h3 where "free_fn a (Some (maddr s)) h2 = Some h3" "live h3 = live h2 - {maddr s}"
      using allocator_contract.free_addr [OF contract, of "maddr s" h2] one by auto
    then show thesis using one null nz
      by (intro that(1) [of h3]) (simp_all add: zenit_pool_create_with_allocator_def)
  next
    case two: (block b h2)
    note own = owned_fresh [OF contract one(3,4) two(3,4)]
    show thesis
    proof (cases rule: allocator_contract.alloc_cases [OF contract, of "sz_mul capacity sizeof_size_t" h2, case_names null block])
      case (null h3)
      then have "owned a live (maddr s) (Some b) h3" using own(1) by (simp add: owned_def)
      then obtain h4 h5 where "free_fn a (paddr (Some b)) h3 = Some h4" "free_fn a (Some (maddr s)) h4 = Some h5"
          "live h5 = live h3 - insert (maddr s) (paddrs (Some b))"
        by (rule owned_release)
      then show thesis using one two null nz own(3)
        by (intro that(1) [of h5]) (simp_all add: zenit_pool_create_with_allocator_def)
    next
      case three: (block l h3)
      have "length (size_array l) = capacity"
        using three(2) fit(2) by (simp add: sz_mul_nowrap sizeof_size_t_def)
      then have fl: "pool_fill_loop 0 capacity (size_array l) = Some [0..<capacity]"
        using pool_fill_loop_ok [of 0 capacity "size_array l"] by simp
      define p where "p = \<lparr>pl_self = maddr s, pl_buffer = Some b, pl_list_addr = maddr l, pl_free_list = [0..<capacity],
        pl_capacity = capacity, pl_object_size = os, pl_free_count = capacity, pl_allocator = a\<rparr>"
      show thesis
      proof (rule that(2) [of p h3])
        show "zenit_pool_create_with_allocator os capacity a h = Some (Some p, h3)"
          using one two three nz fl by (simp add: zenit_pool_create_with_allocator_def p_def)
        show "pool_inv p" using nz fit(1) two(2) by (auto simp: pool_inv_def p_def sz_mul_nowrap)
        show "pool_owned live p h3" using own(1) three(3,4) by (auto simp: pool_owned_def owned_def p_def)
      qed (use one(3,4) two(3,4) three(3,4) in \<open>auto simp: p_def pool_acquired_def\<close>)
    qed
  qed
qed

lemma pool_destroy_ok:
  assumes own: "pool_owned live p h"
  obtains h' where "zenit_pool_destroy (Some p) h = Some h'"
    and "live h' = live h - ({pl_self p, pl_list_addr p} \<union> paddrs (pl_buffer p))"
proof -
  have o: "owned (pl_allocator p) live (pl_self p) (pl_buffer p) h" "pl_list_addr p \<in> live h"
      "pl_list_addr p \<noteq> pl_self p" "pl_list_addr p \<notin> paddrs (pl_buffer p)"
    using own by (simp_all add: pool_owned_def)
  then have c: "allocator_contract (pl_allocator p) live" by (simp add: owned_def)
  obtain h1 where h1: "free_fn (pl_allocator p) (Some (pl_list_addr p)) h = Some h1" "live h1 = live h - {pl_list_addr p}"
    using allocator_contract.free_addr [OF c o(2)] by blast
  then have "owned (pl_allocator p) live (pl_self p) (pl_buffer p) h1" using o by (auto simp: owned_def)
  then obtain h2 h3 where "free_fn (pl_allocator p) (paddr (pl_buffer p)) h1 = Some h2"
      "free_fn (pl_allocator p) (Some (pl_self p)) h2 = Some h3" "live h3 = live h1 - insert (pl_self p) (paddrs (pl_buffer p))"
    by (rule owned_release)
  then show thesis using h1 by (intro that [of h3]) (auto simp: zenit_pool_destroy_def)
qed


text \<open>Creating a pool and destroying it leaves the heap as before, also when an allocation in between fails.\<close>

theorem pool_lifecycle:
  assumes "allocator_contract a live" and "0 < os" and "0 < capacity" and "capacity * os < size_mod"
    and "capacity * sizeof_size_t < size_mod"
  shows "\<exists>pool h'. zenit_pool_create_with_allocator os capacity a h = Some (pool, h') \<and>
    (\<exists>h''. zenit_pool_destroy pool h' = Some h'' \<and> live h'' = live h)"
proof (cases rule: pool_create_cases [OF assms, of h, case_names null pool])
  case (null h')
  then show ?thesis by (simp add: zenit_pool_destroy_def)
next
  case (pool p h')
  obtain h'' where "zenit_pool_destroy (Some p) h' = Some h''"
      "live h'' = live h' - ({pl_self p, pl_list_addr p} \<union> paddrs (pl_buffer p))"
    using pool_destroy_ok [OF pool(3)] by blast
  then show ?thesis using pool(1,7,8) by auto
qed


section \<open>Witnesses\<close>

definition pool_heap :: c_heap where
  "pool_heap = \<lparr>heap_live = [], heap_script = [], heap_junk = 9\<rparr>"

definition pool_demo :: "c_heap zenit_pool_t" where
  "pool_demo = \<lparr>pl_self = 1, pl_buffer = Some \<lparr>maddr = 2, mbytes = [0, 0, 0, 0, 0, 0]\<rparr>, pl_list_addr = 3,
    pl_free_list = [0, 1, 2], pl_capacity = 3, pl_object_size = 2, pl_free_count = 2,
    pl_allocator = ZENIT_ALLOCATOR_DEFAULT\<rparr>"

lemma pool_demo_inv: "pool_inv pool_demo" "pool_acquired pool_demo = {2}"
  by (auto simp: pool_inv_def pool_demo_def pool_acquired_def size_mod_def numeral_2_eq_2 numeral_3_eq_3
      lessThan_Suc One_nat_def)

theorem pool_acquire_refines_witness:
  "\<exists>k q. zenit_pool_acquire (Some pool_demo) = Some (Some (int (k * 2)), Some q) \<and> k < 3 \<and> k \<noteq> 2 \<and>
    pool_acquired q = {k, 2}"
proof -
  have "0 \<in> {..<pl_capacity pool_demo}" and "0 \<notin> pool_acquired pool_demo"
    unfolding pool_demo_inv(2) by (simp_all add: pool_demo_def)
  then have "pool_acquired pool_demo \<noteq> {..<pl_capacity pool_demo}" by metis
  with pool_acquire_refines [OF pool_demo_inv(1)] pool_demo_inv(2) show ?thesis
    by (auto simp: pool_demo_def)
qed

theorem pool_release_refines_witness:
  "(\<exists>q. zenit_pool_release (Some pool_demo) (Some 4) = Some (ZENIT_OK, Some q) \<and> pool_acquired q = {}) \<and>
   zenit_pool_release (Some pool_demo) (Some 2) = Some (ZENIT_ERROR_DOUBLE_FREE, Some pool_demo)"
proof -
  have os: "pl_object_size pool_demo = 2" "pl_capacity pool_demo = 3" by (simp_all add: pool_demo_def)
  have k: "\<exists>k < 3. (2::int) = int (k * 2)" by (rule exI [of _ 1]) simp
  have "\<exists>k \<in> {2}. (4::int) = int (k * 2)" "\<not> (\<exists>k \<in> {2}. (2::int) = int (k * 2))" by simp_all
  with k show ?thesis
    using pool_release_refines [OF pool_demo_inv(1), of 4, unfolded os pool_demo_inv(2)]
      pool_release_refines [OF pool_demo_inv(1), of 2, unfolded os pool_demo_inv(2)]
    by (simp only: if_True if_False) auto
qed

lemma pool_heap_create:
  obtains p h' where "zenit_pool_create_with_allocator 2 3 ZENIT_ALLOCATOR_DEFAULT pool_heap = Some (Some p, h')"
proof (cases rule: pool_create_cases [OF default_contract, of 2 3 pool_heap, case_names _ _ _ _ null pool])
  case (null h')
  have "\<not> Option.is_none (fst (the (zenit_pool_create_with_allocator 2 3 ZENIT_ALLOCATOR_DEFAULT pool_heap)))"
    by code_simp
  then show thesis using null by simp
qed (use that in \<open>auto simp: size_mod_def sizeof_size_t_def\<close>)


theorem pool_lifecycle_witness:
  "\<exists>pool h' h''. zenit_pool_create_with_allocator 2 3 ZENIT_ALLOCATOR_DEFAULT (pool_heap\<lparr>heap_script := [True, True, False]\<rparr>) =
      Some (pool, h') \<and> zenit_pool_destroy pool h' = Some h'' \<and> heap_addrs h'' = {}"
  using pool_lifecycle [OF default_contract, of 2 3 "pool_heap\<lparr>heap_script := [True, True, False]\<rparr>"]
  by (auto simp: size_mod_def sizeof_size_t_def heap_addrs_def pool_heap_def)

end
