(* ===== verification/Zenit_Glob.thy ===== *)
theory Zenit_Glob
  imports Zenit_CString
begin

text \<open>
  Glob patterns (\<open>include/libzenit/glob.h\<close>, \<open>src/glob.c\<close>). A pointer into a string is an index; every
  character read goes through \<open>str_at\<close>, so that a read behind the terminator would make the result
  undefined. The backtracking matcher is compared with the language a pattern denotes.
\<close>

section \<open>The matcher\<close>

text \<open>The loop over the members of a class: the index where it stops, and whether one matched.\<close>

function class_loop :: "c_str \<Rightarrow> byte \<Rightarrow> nat \<Rightarrow> bool \<Rightarrow> (nat \<times> bool) option" where
  "class_loop p c i matched = do {
     a \<leftarrow> str_at p i;
     if a \<noteq> 0 \<and> a \<noteq> 93 then do {
       b \<leftarrow> str_at p (i + 1);
       range \<leftarrow> (if b = 45 then do { d \<leftarrow> str_at p (i + 2); Some (if d \<noteq> 0 \<and> d \<noteq> 93 then Some d else None) }
                else Some None);
       case range of
         Some d \<Rightarrow> class_loop p c (i + 3) (if in_range a d c then True else matched)
       | None \<Rightarrow> class_loop p c (i + 1) (if c = a then True else matched)
     } else Some (i, matched)
   }"
  by pat_completeness auto
termination
  by (relation "measure (\<lambda>(p, c, i, matched). length p - i)") (auto simp: str_at_def split: if_splits)

declare class_loop.simps [simp del]

definition match_char_class :: "c_str \<Rightarrow> byte \<Rightarrow> nat \<Rightarrow> (nat \<times> bool) option" where
  "match_char_class p c i = do {
     a \<leftarrow> str_at p i;
     let negated = (a = 33);
     (j, matched) \<leftarrow> class_loop p c (if negated then i + 1 else i) False;
     b \<leftarrow> str_at p j;
     Some (if b = 93 then j + 1 else j, negated \<and> \<not> matched \<or> \<not> negated \<and> matched)
   }"

text \<open>
  What a class denotes: the ranges up to the closing bracket (or the end), and what follows. A
  single member is a range of one.
\<close>

definition class_item :: "byte \<Rightarrow> c_str \<Rightarrow> byte \<times> c_str" where
  "class_item a r = (case r of b # d # r' \<Rightarrow> if b = 45 \<and> d \<noteq> 0 \<and> d \<noteq> 93 then (d, r') else (a, r) | _ \<Rightarrow> (a, r))"

lemma class_item_length: "class_item a r = (d, r') \<Longrightarrow> length r' \<le> length r"
  by (auto simp: class_item_def split: list.splits if_splits)

function class_scan :: "c_str \<Rightarrow> (byte \<times> byte) list \<times> c_str" where
  "class_scan [] = ([], [])"
| "class_scan (a # r) =
    (if a = 0 \<or> a = 93 then ([], a # r)
     else let (d, r') = class_item a r; (items, rest) = class_scan r' in ((a, d) # items, rest))"
  by pat_completeness auto
termination
  by (relation "measure length") (auto dest!: class_item_length [OF sym])

definition in_class :: "(byte \<times> byte) list \<Rightarrow> byte \<Rightarrow> bool" where
  "in_class items c \<longleftrightarrow> (\<exists>(lo, hi) \<in> set items. in_range lo hi c)"

lemma str_at_drop: "i \<le> length p \<Longrightarrow> str_at p (i + k) = str_at (drop i p) k"
  by (auto simp: str_at_def)

lemma in_range_single [simp]: "in_range a a c \<longleftrightarrow> c = a"
  by (auto simp: in_range_def char_val_def dest!: antisym intro: signed_word_eqI [OF sym])

lemma in_class_simps [simp]:
  "in_class [] c = False" "in_class ((lo, hi) # items) c = (in_range lo hi c \<or> in_class items c)"
  by (auto simp: in_class_def)

lemma class_scan_length: "length (snd (class_scan r)) \<le> length r"
proof (induction r rule: class_scan.induct)
  case (2 a r)
  obtain d r' where it: "class_item a r = (d, r')" by (cases "class_item a r")
  then show ?case using 2 [OF _ it [symmetric]] class_item_length [OF it]
    by (auto split: prod.split)
qed simp

text \<open>One round of the loop consumes one item.\<close>

lemma class_loop_round:
  assumes i: "i < length p" and r: "drop i p = a # r" and a: "a \<noteq> 0" "a \<noteq> 93" and it: "class_item a r = (d, r')"
  shows "class_loop p c i m = class_loop p c (length p - length r') (m \<or> in_range a d c)"
    and "r' = drop (length p - length r') p" and "length r' < length p"
proof -
  have at: "str_at p i = Some a" "str_at p (i + 1) = str_at r 0" "r \<noteq> [] \<Longrightarrow> str_at p (i + 2) = str_at r 1"
    using str_at_drop [of i p 0] str_at_drop [of i p 1] str_at_drop [of i p 2] i r
    by (auto simp: str_at_def numeral_2_eq_2 One_nat_def)
  have len: "length p = i + 1 + length r" using arg_cong [OF r, of length] i by simp
  have r1: "drop (i + 1) p = r" using arg_cong [OF r, of tl] by (simp add: tl_drop drop_Suc One_nat_def)
  have "class_loop p c i m = class_loop p c (i + 1 + (length r - length r')) (m \<or> in_range a d c) \<and>
      r' = drop (length r - length r') r \<and> length r' \<le> length r"
  proof (cases "\<exists>q. r = 45 # d # q \<and> d \<noteq> 0 \<and> d \<noteq> 93 \<and> r' = q")
    case True
    then show ?thesis using at a
      by (subst class_loop.simps) (auto simp: str_at_def numeral_3_eq_3 One_nat_def)
  next
    case False
    then have "d = a" "r' = r" "\<not> (\<exists>e q. r = 45 # e # q \<and> e \<noteq> 0 \<and> e \<noteq> 93)"
      using it by (auto simp: class_item_def split: list.splits if_splits)
    then have "(do { b \<leftarrow> str_at p (i + 1);
        if b = 45 then do { e \<leftarrow> str_at p (i + 2); Some (if e \<noteq> 0 \<and> e \<noteq> 93 then Some e else None) } else Some None }) = Some None"
      using at by (cases r; cases "tl r") (auto simp: str_at_def One_nat_def)
    then obtain b where b: "str_at p (i + 1) = Some b" "(if b = 45 then do { e \<leftarrow> str_at p (i + 2);
        Some (if e \<noteq> 0 \<and> e \<noteq> 93 then Some e else None) } else Some None) = Some None"
      by (auto simp: bind_eq_Some_conv)
    have "class_loop p c i m = class_loop p c (i + 1) (if c = a then True else m)"
      unfolding class_loop.simps [of p c i m] at(1) bind.simps b using a by simp
    moreover have "(if c = a then True else m) = (m \<or> in_range a a c)" by simp
    ultimately show ?thesis unfolding \<open>d = a\<close> \<open>r' = r\<close> by simp
  qed
  then have c: "class_loop p c i m = class_loop p c (i + 1 + (length r - length r')) (m \<or> in_range a d c)"
      "drop (length r - length r') r = r'" "length r' \<le> length r" by simp_all
  have k: "length p - length r' = i + 1 + (length r - length r')" using len c(3) by linarith
  show "class_loop p c i m = class_loop p c (length p - length r') (m \<or> in_range a d c)" unfolding k by (rule c(1))
  have "drop (length p - length r') p = drop (length r - length r') (drop (i + 1) p)"
    unfolding k by (simp add: add.commute)
  then show "r' = drop (length p - length r') p" unfolding r1 c(2) by (rule sym)
  show "length r' < length p" using len c(3) by linarith
qed

lemma class_loop_scan:
  "i \<le> length p \<Longrightarrow> drop i p = r \<Longrightarrow>
   class_loop p c i m = Some (length p - length (snd (class_scan r)), m \<or> in_class (fst (class_scan r)) c)"
proof (induction r arbitrary: i m rule: class_scan.induct)
  case 1
  then have "i = length p" by simp
  then show ?case by (simp add: class_loop.simps [of p])
next
  case (2 a r)
  have i: "i < length p" using 2(2,3) by (cases "i < length p") auto
  show ?case
  proof (cases "a = 0 \<or> a = 93")
    case True
    have "str_at p i = Some a" using str_at_drop [of i p 0] 2(3) i by (simp add: str_at_def)
    moreover have "length p - length (a # r) = i" using arg_cong [OF 2(3), of length] i by simp
    ultimately show ?thesis using True by (subst class_loop.simps) auto
  next
    case False
    obtain d r' where it: "class_item a r = (d, r')" by (cases "class_item a r")
    note rd = class_loop_round [OF i 2(3) _ _ it]
    have "class_loop p c (length p - length r') (m \<or> in_range a d c) =
        Some (length p - length (snd (class_scan r')), (m \<or> in_range a d c) \<or> in_class (fst (class_scan r')) c)"
      using 2(1) [OF False it [symmetric] refl] rd(2) False by simp
    then show ?thesis using rd(1) False it by (auto split: prod.split)
  qed
qed


text \<open>After a class: what follows the closing bracket, if there is one.\<close>

definition class_rest :: "c_str \<Rightarrow> c_str" where
  "class_rest r = (case r of x # q \<Rightarrow> if x = 93 then q else r | [] \<Rightarrow> [])"

definition class_parse :: "c_str \<Rightarrow> bool \<times> (byte \<times> byte) list \<times> c_str" where
  "class_parse r =
    (let negated = (\<exists>q. r = 33 # q); (items, rest) = class_scan (if negated then tl r else r)
     in (negated, items, class_rest rest))"

lemma class_rest_length: "length (class_rest r) \<le> length r"
  by (simp add: class_rest_def split: list.split)

lemma class_parse_length: "class_parse r = (n, items, q) \<Longrightarrow> length q \<le> length r"
  using class_scan_length [of "tl r"] class_scan_length [of r]
  by (auto simp: class_parse_def Let_def split: prod.splits if_splits intro!: order.trans [OF class_rest_length])

lemma class_scan_suffix: "snd (class_scan r) = drop (length r - length (snd (class_scan r))) r"
proof (induction r rule: class_scan.induct)
  case (2 a r)
  obtain d r' where it: "class_item a r = (d, r')" by (cases "class_item a r")
  have le: "length r' \<le> length r" by (rule class_item_length [OF it])
  have r': "r' = drop (length r - length r') r" using it by (auto simp: class_item_def split: list.splits if_splits)
  have le2: "length (snd (class_scan r')) \<le> length r'" by (rule class_scan_length)
  show ?case
  proof (cases "a = 0 \<or> a = 93")
    case False
    let ?n = "length (snd (class_scan r'))"
    have "snd (class_scan r') = drop (length r' - ?n) (drop (length r - length r') r)"
      using 2 [OF False it [symmetric] refl] r' by simp
    also have "\<dots> = drop (length (a # r) - ?n) (a # r)" using le le2 by (simp add: Suc_diff_le)
    finally show ?thesis using False it by (simp add: case_prod_beta)
  qed simp
qed simp


lemma match_char_class_parse:
  assumes i: "i \<le> length p" and r: "drop i p = r" and pr: "class_parse r = (n, items, q)"
  shows "match_char_class p c i = Some (length p - length q, in_class items c \<noteq> n)"
    and "drop (length p - length q) p = q"
proof -
  define j where "j = (if n then i + 1 else i)"
  have n: "n \<longleftrightarrow> (\<exists>q. r = 33 # q)" using pr by (auto simp: class_parse_def Let_def split: prod.splits)
  have at: "str_at p i = str_at r 0" using str_at_drop [OF i, of 0] r by simp
  have neg: "\<exists>a. str_at p i = Some a \<and> (a = 33 \<longleftrightarrow> n)"
    using at n by (cases r) (auto simp: str_at_def)
  have j: "j \<le> length p" "drop j p = (if n then tl r else r)"
  proof -
    have "drop (i + 1) p = tl r" using arg_cong [OF r, of tl] by (simp add: tl_drop drop_Suc One_nat_def)
    moreover have "n \<Longrightarrow> i < length p" using n r by (cases "i < length p") auto
    ultimately show "j \<le> length p" and "drop j p = (if n then tl r else r)" using i r by (auto simp: j_def)
  qed
  define rest where "rest = snd (class_scan (drop j p))"
  have it: "items = fst (class_scan (drop j p))" "q = class_rest rest"
    using pr n unfolding rest_def j(2) by (auto simp: class_parse_def Let_def split: prod.splits)
  have loop: "class_loop p c j False = Some (length p - length rest, in_class items c)"
    using class_loop_scan [OF j(1) refl, of c False] it(1) by (simp add: rest_def)
  have le: "length rest \<le> length p - j" using class_scan_length [of "drop j p"] by (simp add: rest_def)
  have suf: "drop (length p - length rest) p = rest"
  proof -
    have "rest = drop (length (drop j p) - length rest) (drop j p)"
      unfolding rest_def by (rule class_scan_suffix)
    also have "\<dots> = drop (length p - length rest) p" using j(1) le by simp
    finally show ?thesis by (rule sym)
  qed
  have "str_at p (length p - length rest) = str_at rest 0"
    using str_at_drop [of "length p - length rest" p 0] suf by simp
  then have "\<exists>b. str_at p (length p - length rest) = Some b \<and>
      (if b = 93 then length p - length rest + 1 else length p - length rest) = length p - length q"
    using it(2) le j(1) by (cases rest) (auto simp: class_rest_def str_at_def)
  then show "match_char_class p c i = Some (length p - length q, in_class items c \<noteq> n)"
    using neg loop by (auto simp: match_char_class_def j_def Let_def)
  show "drop (length p - length q) p = q"
  proof (cases "\<exists>w. rest = 93 # w")
    case True
    then obtain w where w: "rest = 93 # w" "q = w" using it(2) by (auto simp: class_rest_def)
    then have "length p - length q = Suc (length p - length rest)" using le j(1) by simp
    then show ?thesis using w suf by (simp add: drop_Suc drop_tl)
  next
    case False
    then show ?thesis using it(2) suf by (auto simp: class_rest_def split: list.splits)
  qed
qed

lemma match_char_class_advances:
  assumes "match_char_class p c i = Some (j, m)"
  shows "i \<le> j"
proof -
  have "i \<le> length p" using assms by (auto simp: match_char_class_def bind_eq_Some_conv str_at_def split: if_splits)
  moreover obtain n items q where pr: "class_parse (drop i p) = (n, items, q)" by (metis prod_cases3)
  ultimately have "j = length p - length q" using match_char_class_parse(1) [OF _ refl pr] assms by simp
  then show ?thesis using class_parse_length [OF pr] \<open>i \<le> length p\<close> by simp
qed

text \<open>
  \<open>match\<close>, \<open>match_star\<close> and its loop over the suffixes of the string. The recursion ends: a
  recursive call is further in the pattern, or as far in the pattern and further in the string.
\<close>

function (sequential) match_at :: "c_str \<Rightarrow> c_str \<Rightarrow> nat \<Rightarrow> nat \<Rightarrow> bool option"
  and match_star :: "c_str \<Rightarrow> c_str \<Rightarrow> nat \<Rightarrow> nat \<Rightarrow> bool option"
  and star_loop :: "c_str \<Rightarrow> c_str \<Rightarrow> nat \<Rightarrow> nat \<Rightarrow> bool option" where
  "match_at p s i k = do {
     a \<leftarrow> str_at p i;
     if a = 0 then do { b \<leftarrow> str_at s k; Some (b = 0) }
     else if a = 42 then match_star p s (i + 1) k
     else do {
       b \<leftarrow> str_at s k;
       if b = 0 then Some False
       else if a = 63 then match_at p s (i + 1) (k + 1)
       else if a = 91 then do {
         (j, r) \<leftarrow> match_char_class p b (i + 1);
         if \<not> r then Some False else match_at p s j (k + 1)
       }
       else if a \<noteq> b then Some False
       else match_at p s (i + 1) (k + 1)
     }
   }"
| "match_star p s i k = do {
     a \<leftarrow> str_at p i;
     if a = 0 then Some True else star_loop p s i k
   }"
| "star_loop p s i k = do {
     b \<leftarrow> str_at s k;
     if b \<noteq> 0 then do {
       r \<leftarrow> match_at p s i k;
       if r then Some True else star_loop p s i (k + 1)
     } else match_at p s i k
   }"
  by pat_completeness auto
termination
proof (relation "measures [\<lambda>x. case x of Inl (p, s, i, k) \<Rightarrow> length p - i | Inr (Inl (p, s, i, k)) \<Rightarrow> length p - i
      | Inr (Inr (p, s, i, k)) \<Rightarrow> length p - i,
    \<lambda>x. case x of Inl (p, s, i, k) \<Rightarrow> length s - k | Inr (Inl (p, s, i, k)) \<Rightarrow> length s - k
      | Inr (Inr (p, s, i, k)) \<Rightarrow> length s - k,
    \<lambda>x. case x of Inl _ \<Rightarrow> 0 | Inr (Inl _) \<Rightarrow> 2 | Inr (Inr _) \<Rightarrow> 1]", goal_cases)
qed (auto simp: str_at_def split: if_splits dest!: match_char_class_advances)

declare match_at.simps [simp del] match_star.simps [simp del] star_loop.simps [simp del]

definition zenit_glob_match :: "c_str option \<Rightarrow> c_str option \<Rightarrow> bool option" where
  "zenit_glob_match pattern str =
    (case (pattern, str) of (Some p, Some s) \<Rightarrow> match_at p s 0 0 | _ \<Rightarrow> Some False)"


section \<open>The language of a pattern\<close>

datatype glob_token = Star | AnyChar | Class bool "(byte \<times> byte) list" | Lit byte

function glob_tokens :: "c_str \<Rightarrow> glob_token list" where
  "glob_tokens [] = []"
| "glob_tokens (a # r) =
    (if a = 42 then Star # glob_tokens r
     else if a = 63 then AnyChar # glob_tokens r
     else if a = 91 then let (n, items, q) = class_parse r in Class n items # glob_tokens q
     else Lit a # glob_tokens r)"
  by pat_completeness auto
termination
  by (relation "measure length") (auto dest!: class_parse_length [OF sym])

fun token_char :: "glob_token \<Rightarrow> byte \<Rightarrow> bool" where
  "token_char Star c = False"
| "token_char AnyChar c = True"
| "token_char (Class n items) c = (in_class items c \<noteq> n)"
| "token_char (Lit a) c = (a = c)"

text \<open>
  A star stands for any string, every other token for one character: the strings of a pattern are
  the concatenations.
\<close>

inductive glob_lang :: "glob_token list \<Rightarrow> c_str \<Rightarrow> bool" where
  lang_end: "glob_lang [] []"
| lang_star: "glob_lang ts v \<Longrightarrow> glob_lang (Star # ts) (u @ v)"
| lang_char: "token_char t c \<Longrightarrow> glob_lang ts v \<Longrightarrow> glob_lang (t # ts) (c # v)"

inductive_simps glob_lang_Nil [simp]: "glob_lang [] v"
inductive_cases glob_lang_StarE: "glob_lang (Star # ts) v"
inductive_cases glob_lang_charE: "glob_lang (t # ts) v"

lemma glob_lang_char: "t \<noteq> Star \<Longrightarrow> glob_lang (t # ts) v \<longleftrightarrow> (\<exists>c w. v = c # w \<and> token_char t c \<and> glob_lang ts w)"
  by (auto intro: lang_char elim: glob_lang_charE)

lemma glob_lang_Star_last: "glob_lang [Star] v"
  using lang_star [OF lang_end, of v] by simp

lemma glob_lang_Star: "glob_lang (Star # ts) v \<longleftrightarrow> glob_lang ts v \<or> (\<exists>c w. v = c # w \<and> glob_lang (Star # ts) w)"
proof
  assume "glob_lang (Star # ts) v"
  then obtain u w where uw: "v = u @ w" "glob_lang ts w" by (auto elim: glob_lang_StarE)
  then show "glob_lang ts v \<or> (\<exists>c w. v = c # w \<and> glob_lang (Star # ts) w)"
    by (cases u) (auto intro: lang_star)
next
  assume "glob_lang ts v \<or> (\<exists>c w. v = c # w \<and> glob_lang (Star # ts) w)"
  then show "glob_lang (Star # ts) v"
  proof
    assume "glob_lang ts v"
    then show ?thesis using lang_star [of ts v "[]"] by simp
  next
    assume "\<exists>c w. v = c # w \<and> glob_lang (Star # ts) w"
    then obtain c u w where "v = (c # u) @ w" "glob_lang ts w" by (auto elim: glob_lang_StarE)
    then show ?thesis using lang_star by blast
  qed
qed

lemma str_at_drop0: "i \<le> length p \<Longrightarrow> str_at p i = Some (case drop i p of [] \<Rightarrow> 0 | a # r \<Rightarrow> a)"
  using str_at_drop [of i p 0] by (auto simp: str_at_def split: list.split)

lemma c_string_drop: "c_string p \<Longrightarrow> drop i p = a # r \<Longrightarrow> a \<noteq> 0"
  by (metis c_string_def in_set_dropD list.set_intros(1))

lemma drop_Cons_next: "drop i p = a # r \<Longrightarrow> i < length p \<and> drop (i + 1) p = r"
  by (cases "i < length p") (auto simp: Cons_nth_drop_Suc [symmetric] One_nat_def)


text \<open>The matcher decides the language, from every pair of positions.\<close>

lemma star_loop_decides:
  assumes "c_string s" and "\<And>k. k \<le> length s \<Longrightarrow> match_at p s i k = Some (glob_lang ts (drop k s))" and "k \<le> length s"
  shows "star_loop p s i k = Some (glob_lang (Star # ts) (drop k s))"
  using assms(3)
proof (induction "length s - k" arbitrary: k)
  case 0
  then show ?case using assms(2) [of k]
    by (subst star_loop.simps, subst glob_lang_Star) (simp add: str_at_drop0 del: str_at_in)
next
  case (Suc n)
  then obtain c w where cw: "drop k s = c # w" by (cases "drop k s") auto
  then have w: "drop (k + 1) s = w" "k < length s" "c \<noteq> 0"
    using drop_Cons_next [OF cw] c_string_drop [OF assms(1) cw] by auto
  have "star_loop p s i (k + 1) = Some (glob_lang (Star # ts) w)" using Suc w by (auto simp: One_nat_def)
  then show ?case using assms(2) [OF Suc.prems] cw w Suc.prems
    by (subst star_loop.simps, subst glob_lang_Star) (simp add: str_at_drop0 del: str_at_in)
qed

lemma match_star_decides:
  assumes "c_string s" and "c_string p" and i: "i \<le> length p" and k: "k \<le> length s"
    and m: "\<And>k. k \<le> length s \<Longrightarrow> match_at p s i k = Some (glob_lang (glob_tokens (drop i p)) (drop k s))"
  shows "match_star p s i k = Some (glob_lang (Star # glob_tokens (drop i p)) (drop k s))"
proof (cases "drop i p")
  case Nil
  then show ?thesis using i glob_lang_Star_last by (subst match_star.simps) (simp add: str_at_drop0 del: str_at_in)
next
  case (Cons a r)
  then show ?thesis using i star_loop_decides [OF assms(1) m k] c_string_drop [OF assms(2) Cons]
    by (subst match_star.simps) (simp add: str_at_drop0 del: str_at_in)
qed

lemma match_at_decides:
  assumes "c_string p" and "c_string s" and "i \<le> length p" and "k \<le> length s"
  shows "match_at p s i k = Some (glob_lang (glob_tokens (drop i p)) (drop k s))"
  using assms(3,4)
proof (induction "length p - i" arbitrary: i k rule: less_induct)
  case less
  show ?case
  proof (cases "drop i p")
    case Nil
    then show ?thesis using less.prems c_string_drop [OF assms(2)]
      by (subst match_at.simps) (auto simp: str_at_drop0 simp del: str_at_in split: list.split)
  next
    case (Cons a r)
    then have a: "i < length p" "drop (i + 1) p = r" "a \<noteq> 0"
      using drop_Cons_next [OF Cons] c_string_drop [OF assms(1) Cons] by auto
    have IH: "match_at p s j k' = Some (glob_lang (glob_tokens (drop j p)) (drop k' s))"
      if "i < j" "j \<le> length p" "k' \<le> length s" for j k'
      using less.hyps [of j k'] that a(1) by simp
    show ?thesis
    proof (cases "a = 42")
      case True
      then show ?thesis
        using Cons a match_star_decides [OF assms(2,1), of "i + 1" k] IH [of "i + 1"] less.prems
        by (subst match_at.simps) (simp add: str_at_drop0 del: str_at_in)
    next
      case False
      show ?thesis
      proof (cases "drop k s")
        case Nil
        then show ?thesis using Cons a False less.prems
          by (subst match_at.simps) (auto simp: str_at_drop0 glob_lang_char simp del: str_at_in split: prod.split)
      next
        case c: (Cons b w)
        then have b: "k < length s" "drop (k + 1) s = w" "b \<noteq> 0"
          using drop_Cons_next [OF c] c_string_drop [OF assms(2) c] by auto
        obtain n items q where pr: "class_parse r = (n, items, q)" by (metis prod_cases3)
        have cls: "match_char_class p b (i + 1) = Some (length p - length q, in_class items b \<noteq> n)"
            "drop (length p - length q) p = q"
          using match_char_class_parse [OF _ a(2) pr] a(1) by simp_all
        have "length q \<le> length r" by (rule class_parse_length [OF pr])
        then have "i < length p - length q" using arg_cong [OF Cons, of length] a(1) by simp
        then have "match_at p s (length p - length q) (k + 1) = Some (glob_lang (glob_tokens q) w)"
          using IH [of "length p - length q" "k + 1"] b cls(2) by simp
        moreover have "match_at p s (i + 1) (k + 1) = Some (glob_lang (glob_tokens r) w)"
          using IH [of "i + 1" "k + 1"] a b by simp
        ultimately show ?thesis using Cons c a b False cls(1) pr less.prems
          by (subst match_at.simps) (simp add: str_at_drop0 glob_lang_char del: str_at_in)
      qed
    qed
  qed
qed

text \<open>
  C22: Glob matching decides the language of the pattern: the result is defined (the backtracking ends and
  no read leaves either string) and true exactly when the string is a concatenation of what the
  tokens stand for.
\<close>

theorem glob_match_decides:
  assumes "c_string p" and "c_string s"
  shows "zenit_glob_match (Some p) (Some s) = Some (glob_lang (glob_tokens p) s)"
  using match_at_decides [OF assms, of 0 0] by (simp add: zenit_glob_match_def)

theorem glob_match_decides_witness:
  "zenit_glob_match (Some [42, 46, 91, 99, 104, 93]) (Some [97, 46, 104]) = Some True \<and>
   glob_lang (glob_tokens [42, 46, 91, 99, 104, 93]) [97, 46, 104]"
proof -
  have "zenit_glob_match (Some [42, 46, 91, 99, 104, 93]) (Some [97, 46, 104]) = Some True" by code_simp
  then show ?thesis using glob_match_decides [of "[42, 46, 91, 99, 104, 93]" "[97, 46, 104]"] by simp
qed

end
