(* ===== verification/Zenit_State.thy ===== *)
theory Zenit_State
  imports Zenit_Allocator
begin

text \<open>
  The table-driven state machine (\<open>include/libzenit/state.h\<close>, \<open>src/state.c\<close>). The transition table
  belongs to the caller and is an argument of the operations that read it. A callback is the
  caller's code: a function on the caller's context \<open>'c\<close>, the value behind the \<open>context\<close> pointer.
\<close>

section \<open>State and operations\<close>

record 'c zenit_state_transition_t =
  tr_from_state :: int
  tr_event :: int
  tr_to_state :: int
  tr_on_transition :: "(int \<Rightarrow> int \<Rightarrow> int \<Rightarrow> 'c \<Rightarrow> 'c) option"

record 'h zenit_state_t =
  st_self :: nat
  st_count :: nat
  st_current :: int
  st_allocator :: "'h zenit_allocator_t"

definition sizeof_state :: nat where
  "sizeof_state = 56"

definition zenit_state_allocate_with_allocator ::
    "nat \<Rightarrow> int \<Rightarrow> 'h zenit_allocator_t \<Rightarrow> 'h \<Rightarrow> 'h zenit_state_t option \<times> 'h" where
  "zenit_state_allocate_with_allocator n initial_state a h =
    (case alloc_fn a sizeof_state h of
       (None, h1) \<Rightarrow> (None, h1)
     | (Some b, h1) \<Rightarrow>
         (Some \<lparr>st_self = maddr b, st_count = n, st_current = initial_state, st_allocator = a\<rparr>, h1))"

definition zenit_state_allocate :: "nat \<Rightarrow> int \<Rightarrow> c_heap \<Rightarrow> c_heap zenit_state_t option \<times> c_heap" where
  "zenit_state_allocate n initial_state =
    zenit_state_allocate_with_allocator n initial_state ZENIT_ALLOCATOR_DEFAULT"

text \<open>The scan of the table: a read behind the end of the caller's array is undefined.\<close>

function state_scan ::
    "'c zenit_state_transition_t list \<Rightarrow> 'h zenit_state_t \<Rightarrow> int \<Rightarrow> int \<Rightarrow> 'c \<Rightarrow> nat \<Rightarrow>
     (zenit_result_t \<times> 'h zenit_state_t \<times> 'c) option" where
  "state_scan table st from event ctx i =
    (if i < st_count st then
       if i < length table then
         let t = table ! i in
         if tr_from_state t = from \<and> tr_event t = event then
           Some (ZENIT_OK, st\<lparr>st_current := tr_to_state t\<rparr>,
             (case tr_on_transition t of None \<Rightarrow> ctx | Some f \<Rightarrow> f event from (tr_to_state t) ctx))
         else state_scan table st from event ctx (i + 1)
       else None
     else Some (ZENIT_ERROR_NOT_FOUND, st, ctx))"
  by pat_completeness auto
termination
  by (relation "measure (\<lambda>(table, st, from, event, ctx, i). st_count st - i)") auto

declare state_scan.simps [simp del]

definition zenit_state_process_event ::
    "'c zenit_state_transition_t list \<Rightarrow> 'h zenit_state_t option \<Rightarrow> int \<Rightarrow> 'c \<Rightarrow>
     (zenit_result_t \<times> 'h zenit_state_t option \<times> 'c) option" where
  "zenit_state_process_event table state event ctx =
    (case state of None \<Rightarrow> Some (ZENIT_ERROR_NULL, None, ctx)
     | Some st \<Rightarrow> do {
         (r, st', ctx') \<leftarrow> state_scan table st (st_current st) event ctx 0;
         Some (r, Some st', ctx')
       })"

definition zenit_state_current :: "'h zenit_state_t option \<Rightarrow> int" where
  "zenit_state_current state = (case state of None \<Rightarrow> 0 | Some st \<Rightarrow> st_current st)"

definition zenit_state_reset :: "'h zenit_state_t option \<Rightarrow> int \<Rightarrow> zenit_result_t \<times> 'h zenit_state_t option" where
  "zenit_state_reset state new_state =
    (case state of None \<Rightarrow> (ZENIT_ERROR_NULL, None)
     | Some st \<Rightarrow> (ZENIT_OK, Some (st\<lparr>st_current := new_state\<rparr>)))"

definition zenit_state_deallocate :: "'h zenit_state_t option \<Rightarrow> 'h \<Rightarrow> 'h option" where
  "zenit_state_deallocate state h =
    (case state of None \<Rightarrow> Some h | Some st \<Rightarrow> free_fn (st_allocator st) (Some (st_self st)) h)"

section \<open>The machine as a finite map\<close>

text \<open>The rule for a state and an event: the first of the table wins.\<close>

definition state_rules ::
    "'c zenit_state_transition_t list \<Rightarrow> int \<times> int \<rightharpoonup> int \<times> (int \<Rightarrow> int \<Rightarrow> int \<Rightarrow> 'c \<Rightarrow> 'c) option" where
  "state_rules table =
    map_of (map (\<lambda>t. ((tr_from_state t, tr_event t), (tr_to_state t, tr_on_transition t))) table)"

lemma state_scan_rules:
  assumes "st_count st = length table" and "i \<le> length table"
  shows "state_scan table st from event ctx i =
    Some (case state_rules (drop i table) (from, event) of
        None \<Rightarrow> (ZENIT_ERROR_NOT_FOUND, st, ctx)
      | Some (to, cb) \<Rightarrow> (ZENIT_OK, st\<lparr>st_current := to\<rparr>,
          case cb of None \<Rightarrow> ctx | Some f \<Rightarrow> f event from to ctx))"
  using assms
proof (induction table st "from" event ctx i rule: state_scan.induct)
  case (1 table st "from" event ctx i)
  show ?case
  proof (cases "i < length table")
    case True
    then have "state_rules (drop i table) = (state_rules (drop (i + 1) table))
        ((tr_from_state (table ! i), tr_event (table ! i)) \<mapsto> (tr_to_state (table ! i), tr_on_transition (table ! i)))"
      by (simp add: state_rules_def Cons_nth_drop_Suc [symmetric] One_nat_def)
    then show ?thesis using True 1
      by (subst state_scan.simps) (auto simp: Let_def One_nat_def)
  next
    case False
    then show ?thesis using 1(2,3) by (subst state_scan.simps) (simp add: state_rules_def)
  qed
qed

text \<open>
  One event: the machine follows the first rule for its state and the event, fires the callback of
  that rule once with the event and both states, or refuses the event and changes nothing.
\<close>

theorem state_process_event_rules:
  assumes "st_count st = length table"
  shows "zenit_state_process_event table (Some st) event ctx =
    Some (case state_rules table (st_current st, event) of
        None \<Rightarrow> (ZENIT_ERROR_NOT_FOUND, Some st, ctx)
      | Some (to, cb) \<Rightarrow> (ZENIT_OK, Some (st\<lparr>st_current := to\<rparr>),
          case cb of None \<Rightarrow> ctx | Some f \<Rightarrow> f event (st_current st) to ctx))"
  using state_scan_rules [OF assms, of 0]
  by (auto simp: zenit_state_process_event_def split: option.split)

section \<open>Runs\<close>

text \<open>The transitions of the table, and runs of events through the code.\<close>

inductive state_step :: "'c zenit_state_transition_t list \<Rightarrow> int \<Rightarrow> int \<Rightarrow> bool" for table where
  step: "state_rules table (s, e) = Some (to, cb) \<Longrightarrow> state_step table s to"

inductive state_reach :: "'c zenit_state_transition_t list \<Rightarrow> int \<Rightarrow> int \<Rightarrow> bool" for table where
  reach_refl: "state_reach table s s"
| reach_step: "state_step table s t \<Longrightarrow> state_reach table t u \<Longrightarrow> state_reach table s u"

fun state_run ::
    "'c zenit_state_transition_t list \<Rightarrow> 'h zenit_state_t option \<Rightarrow> 'c \<Rightarrow> int list \<Rightarrow> ('h zenit_state_t option \<times> 'c) option" where
  "state_run table st ctx [] = Some (st, ctx)"
| "state_run table st ctx (e # es) = do {
     (r, st', ctx') \<leftarrow> zenit_state_process_event table st e ctx;
     state_run table st' ctx' es
   }"

lemma process_event_hit:
  assumes "st_count st = length table" and "state_rules table (st_current st, e) = Some (to, cb)"
  shows "\<exists>ctx'. zenit_state_process_event table (Some st) e ctx = Some (ZENIT_OK, Some (st\<lparr>st_current := to\<rparr>), ctx')"
  using state_scan_rules [OF assms(1), of 0] assms(2) by (auto simp: zenit_state_process_event_def)

lemma process_event_miss:
  assumes "st_count st = length table" and "state_rules table (st_current st, e) = None"
  shows "zenit_state_process_event table (Some st) e ctx = Some (ZENIT_ERROR_NOT_FOUND, Some st, ctx)"
  using state_scan_rules [OF assms(1), of 0] assms(2) by (auto simp: zenit_state_process_event_def)

lemma state_run_reaches:
  assumes "st_count st = length table"
  shows "\<exists>st' ctx'. state_run table (Some st) ctx es = Some (Some st', ctx') \<and>
    state_reach table (st_current st) (st_current st')"
  using assms
proof (induction es arbitrary: st ctx)
  case Nil
  then show ?case by (auto intro: reach_refl)
next
  case (Cons e es)
  show ?case
  proof (cases "state_rules table (st_current st, e)")
    case None
    then show ?thesis using Cons process_event_miss [OF Cons.prems] by simp
  next
    case (Some r)
    then obtain to cb where r: "state_rules table (st_current st, e) = Some (to, cb)" by (cases r) auto
    obtain ctx1 where "zenit_state_process_event table (Some st) e ctx = Some (ZENIT_OK, Some (st\<lparr>st_current := to\<rparr>), ctx1)"
      using process_event_hit [OF Cons.prems r] by blast
    moreover obtain st' ctx' where "state_run table (Some (st\<lparr>st_current := to\<rparr>)) ctx1 es = Some (Some st', ctx')"
        "state_reach table to (st_current st')"
      using Cons.IH [of "st\<lparr>st_current := to\<rparr>" ctx1] Cons.prems by auto
    moreover have "state_step table (st_current st) to" using r by (rule step)
    ultimately show ?thesis by (auto intro: reach_step)
  qed
qed

lemma state_path_runs:
  assumes "state_reach table s t" and "st_count st = length table" and "st_current st = s"
  shows "\<exists>es st' ctx'. state_run table (Some st) ctx es = Some (Some st', ctx') \<and> st_current st' = t"
  using assms
proof (induction arbitrary: st ctx rule: state_reach.induct)
  case (reach_refl s)
  then show ?case by (intro exI [of _ "[]"]) simp
next
  case (reach_step s t u)
  from reach_step.hyps(1) obtain e cb where e: "state_rules table (st_current st, e) = Some (t, cb)"
    using reach_step.prems(2) by (auto elim: state_step.cases)
  obtain ctx1 where p: "zenit_state_process_event table (Some st) e ctx = Some (ZENIT_OK, Some (st\<lparr>st_current := t\<rparr>), ctx1)"
    using process_event_hit [OF reach_step.prems(1) e] by blast
  obtain es st' ctx' where "state_run table (Some (st\<lparr>st_current := t\<rparr>)) ctx1 es = Some (Some st', ctx')" "st_current st' = u"
    using reach_step.IH [of "st\<lparr>st_current := t\<rparr>" ctx1] reach_step.prems by auto
  then show ?case using p by (intro exI [of _ "e # es"]) simp
qed

text \<open>
  C24: The states a run of events can lead to are exactly those the table connects to the current one;
  every run is defined.
\<close>

theorem state_runs_are_paths:
  assumes "st_count st = length table"
  shows "(\<exists>es st' ctx'. state_run table (Some st) ctx es = Some (Some st', ctx') \<and> zenit_state_current (Some st') = t) \<longleftrightarrow>
      state_reach table (st_current st) t"
    (is "?L \<longleftrightarrow> ?R")
proof
  assume ?L
  then obtain es st' ctx' where "state_run table (Some st) ctx es = Some (Some st', ctx')" "st_current st' = t"
    by (auto simp: zenit_state_current_def)
  then show ?R using state_run_reaches [OF assms, of ctx es] by auto
next
  assume ?R
  then show ?L using state_path_runs [OF _ assms refl] by (simp add: zenit_state_current_def)
qed

text \<open>The handle of a machine is given back as it was taken.\<close>

theorem state_lifecycle:
  assumes contract: "allocator_contract a live"
  shows "case zenit_state_allocate_with_allocator n s a h of
      (None, h') \<Rightarrow> live h' = live h
    | (Some st, h') \<Rightarrow> zenit_state_current (Some st) = s \<and> st_count st = n \<and>
        (\<exists>h''. zenit_state_deallocate (Some st) h' = Some h'' \<and> live h'' = live h)"
proof (cases rule: allocator_contract.alloc_cases [OF contract, of sizeof_state h, case_names null block])
  case (null h')
  then show ?thesis by (simp add: zenit_state_allocate_with_allocator_def)
next
  case (block b h')
  then obtain h'' where "free_fn a (Some (maddr b)) h' = Some h''" "live h'' = live h' - {maddr b}"
    using allocator_contract.free_addr [OF contract, of "maddr b" h'] by auto
  then show ?thesis using block
    by (simp add: zenit_state_allocate_with_allocator_def zenit_state_deallocate_def zenit_state_current_def)
qed

section \<open>Witnesses\<close>

text \<open>A door: closed (0), open (1), locked (2); the callback records the state entered.\<close>

definition door_table :: "int list zenit_state_transition_t list" where
  "door_table =
    [\<lparr>tr_from_state = 0, tr_event = 10, tr_to_state = 1, tr_on_transition = Some (\<lambda>e f t log. t # log)\<rparr>,
     \<lparr>tr_from_state = 1, tr_event = 11, tr_to_state = 0, tr_on_transition = None\<rparr>,
     \<lparr>tr_from_state = 0, tr_event = 12, tr_to_state = 2, tr_on_transition = None\<rparr>,
     \<lparr>tr_from_state = 0, tr_event = 10, tr_to_state = 2, tr_on_transition = None\<rparr>]"

definition door :: "c_heap zenit_state_t" where
  "door = \<lparr>st_self = 1, st_count = 4, st_current = 0, st_allocator = ZENIT_ALLOCATOR_DEFAULT\<rparr>"

theorem state_process_event_rules_witness:
  "zenit_state_process_event door_table (Some door) 10 [] = Some (ZENIT_OK, Some (door\<lparr>st_current := 1\<rparr>), [1]) \<and>
   zenit_state_process_event door_table (Some door) 11 [] = Some (ZENIT_ERROR_NOT_FOUND, Some door, [])"
  using state_process_event_rules [of door door_table 10 "[]"] state_process_event_rules [of door door_table 11 "[]"]
  by (simp add: door_def door_table_def state_rules_def)

theorem state_runs_are_paths_witness:
  "state_reach door_table 0 2"
proof -
  have "\<exists>st' ctx'. state_run door_table (Some door) [] [10, 11, 12] = Some (Some st', ctx') \<and> zenit_state_current (Some st') = 2"
    by (simp add: zenit_state_process_event_def state_scan.simps door_def door_table_def Let_def zenit_state_current_def One_nat_def)
  then have "\<exists>es st' ctx'. state_run door_table (Some door) [] es = Some (Some st', ctx') \<and> zenit_state_current (Some st') = 2"
    by blast
  moreover have "st_count door = length door_table" by (simp add: door_def door_table_def)
  ultimately have "state_reach door_table (st_current door) 2"
    using state_runs_are_paths [of door door_table "[]" 2] by (simp only: simp_thms)
  then show ?thesis by (simp add: door_def)
qed

theorem state_lifecycle_witness:
  "\<exists>st h' h''. zenit_state_allocate 4 7 \<lparr>heap_live = [], heap_script = [], heap_junk = 0\<rparr> = (Some st, h') \<and>
    zenit_state_current (Some st) = 7 \<and> zenit_state_deallocate (Some st) h' = Some h'' \<and> heap_addrs h'' = {}"
  using state_lifecycle [OF default_contract, where n = 4 and s = 7 and h = "\<lparr>heap_live = [], heap_script = [], heap_junk = 0\<rparr>"]
  by (simp add: zenit_state_allocate_def zenit_state_allocate_with_allocator_def default_eval heap_addrs_def)

end
