(* ===== verification/Zenit_Links.thy ===== *)
theory Zenit_Links
  imports Zenit_Allocator
begin

text \<open>
  Doubly linked chains of nodes, shared by the linked list (\<open>src/list.c\<close>, links through pointers) and
  the LRU cache (\<open>src/lru.c\<close>, links through array indices). A node is a number; \<open>pv\<close> and \<open>nx\<close> are the
  links to the previous and the next node, \<open>None\<close> at the ends.
\<close>

definition first_of :: "nat list \<Rightarrow> nat option \<Rightarrow> nat option" where
  "first_of ps b = (case ps of [] \<Rightarrow> b | p # _ \<Rightarrow> Some p)"

definition last_of :: "nat option \<Rightarrow> nat list \<Rightarrow> nat option" where
  "last_of a ps = (if ps = [] then a else Some (last ps))"

fun seg :: "(nat \<Rightarrow> nat option) \<Rightarrow> (nat \<Rightarrow> nat option) \<Rightarrow> nat option \<Rightarrow> nat list \<Rightarrow> nat option \<Rightarrow> bool" where
  "seg pv nx a [] b = True"
| "seg pv nx a (p # ps) b = (pv p = a \<and> nx p = first_of ps b \<and> seg pv nx (Some p) ps b)"

lemma first_of_simps [simp]:
  "first_of [] b = b" "first_of (p # ps) b = Some p" "first_of (ps @ qs) b = first_of ps (first_of qs b)"
  by (simp_all add: first_of_def split: list.split)

lemma last_of_simps [simp]:
  "last_of a [] = a" "last_of a (ps @ [p]) = Some p" "last_of a (p # ps) = last_of (Some p) ps"
  by (simp_all add: last_of_def)

lemma last_of_append [simp]: "last_of a (ps @ qs) = last_of (last_of a ps) qs"
  by (simp add: last_of_def)

lemma seg_append [simp]:
  "seg pv nx a (ps @ qs) b \<longleftrightarrow> seg pv nx a ps (first_of qs b) \<and> seg pv nx (last_of a ps) qs b"
  by (induction ps arbitrary: a) auto

lemma seg_cong:
  assumes "\<And>p. p \<in> set ps \<Longrightarrow> pv' p = pv p \<and> nx' p = nx p"
  shows "seg pv' nx' a ps b = seg pv nx a ps b"
  using assms by (induction ps arbitrary: a) auto

lemma seg_other [simp]:
  "p \<notin> set ps \<Longrightarrow> seg (pv(p := c)) nx a ps b = seg pv nx a ps b"
  "p \<notin> set ps \<Longrightarrow> seg pv (nx(p := c)) a ps b = seg pv nx a ps b"
  by (rule seg_cong; auto)+

lemma seg_set_prev:
  "distinct (q # qs) \<Longrightarrow> seg (pv(q := c)) nx c (q # qs) b \<longleftrightarrow> nx q = first_of qs b \<and> seg pv nx (Some q) qs b"
  by auto

lemma seg_set_next:
  "distinct (ps @ [q]) \<Longrightarrow> seg pv (nx(q := c)) a (ps @ [q]) c \<longleftrightarrow> seg pv nx a ps (Some q) \<and> pv q = last_of a ps"
  by auto

text \<open>The links of one node, and the links when a node is taken out or put in.\<close>

lemma seg_node:
  assumes "seg pv nx None (as @ p # bs) None"
  shows "pv p = last_of None as" and "nx p = first_of bs None"
  using assms by simp_all

definition relink_next :: "(nat \<Rightarrow> nat option) \<Rightarrow> nat list \<Rightarrow> nat option \<Rightarrow> nat \<Rightarrow> nat option" where
  "relink_next nx as c = (if as = [] then nx else nx(last as := c))"

definition relink_prev :: "(nat \<Rightarrow> nat option) \<Rightarrow> nat list \<Rightarrow> nat option \<Rightarrow> nat \<Rightarrow> nat option" where
  "relink_prev pv bs c = (if bs = [] then pv else pv(hd bs := c))"

lemma seg_relink:
  assumes "distinct (as @ bs)" and "seg pv nx None as b" and "seg pv nx a bs None"
  shows "seg (relink_prev pv bs c) (relink_next nx as d) None as d"
    and "seg (relink_prev pv bs c) (relink_next nx as d) c bs None"
proof -
  show "seg (relink_prev pv bs c) (relink_next nx as d) None as d"
  proof (cases as rule: rev_cases)
    case (snoc xs x)
    have "hd bs \<notin> set as" if "bs \<noteq> []" using that assms(1) hd_in_set [OF that] by auto
    then show ?thesis using assms snoc by (auto simp: relink_next_def relink_prev_def)
  qed simp
  show "seg (relink_prev pv bs c) (relink_next nx as d) c bs None"
  proof (cases bs)
    case (Cons y ys)
    have "last as \<notin> set bs" if "as \<noteq> []" using that assms(1) last_in_set [OF that] by (auto dest: disjoint_iff [THEN iffD1])
    then show ?thesis using assms Cons by (auto simp: relink_next_def relink_prev_def)
  qed simp
qed

lemma seg_unlink:
  assumes d: "distinct (as @ p # bs)" and s: "seg pv nx None (as @ p # bs) None"
  shows "seg (relink_prev pv bs (last_of None as)) (relink_next nx as (first_of bs None)) None (as @ bs) None"
  using seg_relink [of as bs pv nx "Some p" "Some p"] d s by simp

lemma seg_link:
  assumes d: "distinct (as @ p # bs)" and s: "seg pv nx None (as @ bs) None"
  shows "seg (relink_prev (pv(p := last_of None as)) bs (Some p)) (relink_next (nx(p := first_of bs None)) as (Some p))
    None (as @ p # bs) None"
proof -
  have n: "p \<notin> set as" "p \<notin> set bs" and d': "distinct (as @ bs)" using d by auto
  let ?pv = "pv(p := last_of None as)" and ?nx = "nx(p := first_of bs None)"
  note r = seg_relink [OF d', of ?pv ?nx "first_of bs None" "last_of None as" "Some p" "Some p"]
  have "as \<noteq> [] \<Longrightarrow> last as \<noteq> p" "bs \<noteq> [] \<Longrightarrow> hd bs \<noteq> p" using n last_in_set [of as] hd_in_set [of bs] by auto
  then have "relink_prev ?pv bs (Some p) p = last_of None as" "relink_next ?nx as (Some p) p = first_of bs None"
    by (auto simp: relink_prev_def relink_next_def)
  then show ?thesis using r s n by simp
qed

text \<open>Walking along the chain.\<close>

fun walk :: "(nat \<Rightarrow> nat option) \<Rightarrow> nat \<Rightarrow> nat option \<Rightarrow> nat option" where
  "walk f 0 p = p"
| "walk f (Suc n) p = walk f n (Option.bind p f)"

lemma walk_next:
  assumes "seg pv nx a ps b" and "i < length ps"
  shows "walk nx i (first_of ps b) = Some (ps ! i)"
  using assms
proof (induction ps arbitrary: a i)
  case (Cons p ps)
  then show ?case by (cases i) auto
qed simp

lemma walk_prev:
  assumes "seg pv nx a ps b" and "i < length ps"
  shows "walk pv i (last_of a ps) = Some (ps ! (length ps - 1 - i))"
  using assms
proof (induction ps arbitrary: b i rule: rev_induct)
  case (snoc p ps)
  then show ?case by (cases i) (auto simp: nth_append One_nat_def)
qed simp

end
