(* ===== verification/Zenit_List.thy ===== *)
theory Zenit_List
  imports Zenit_Links Zenit_Interfaces
begin

text \<open>
  The doubly linked list (\<open>include/libzenit/list.h\<close>, \<open>src/list.c\<close>). The nodes are structs in memory that
  the allocator hands out one by one: \<open>ls_nodes\<close> is that part of the memory, from addresses to nodes.
  A read or write through \<open>NULL\<close> or through the address of a freed node is undefined (\<open>None\<close>). A pointer
  to an element is the address of its node.
\<close>

section \<open>State and operations\<close>

record list_node =
  ln_prev :: "nat option"
  ln_next :: "nat option"
  ln_data :: "byte list"

record 'h zenit_list_t =
  ls_self :: nat
  ls_head :: "nat option"
  ls_tail :: "nat option"
  ls_elem_size :: nat
  ls_count :: nat
  ls_allocator :: "'h zenit_allocator_t"
  ls_nodes :: "nat \<rightharpoonup> list_node"

definition sizeof_list :: nat where
  "sizeof_list = 64"

definition sizeof_list_node :: nat where
  "sizeof_list_node = 16"

text \<open>Access to a node through a pointer.\<close>

definition node_get :: "(nat \<rightharpoonup> list_node) \<Rightarrow> nat option \<Rightarrow> list_node option" where
  "node_get N p = Option.bind p N"

definition node_set :: "(nat \<rightharpoonup> list_node) \<Rightarrow> nat option \<Rightarrow> (list_node \<Rightarrow> list_node) \<Rightarrow> (nat \<rightharpoonup> list_node) option" where
  "node_set N p f = (case p of None \<Rightarrow> None | Some a \<Rightarrow> map_option (\<lambda>n. N(a \<mapsto> f n)) (N a))"

text \<open>\<open>free\<close> of a node: the allocator takes the block back and the struct is gone.\<close>

definition node_free :: "'h zenit_list_t \<Rightarrow> nat option \<Rightarrow> 'h \<Rightarrow> ('h zenit_list_t \<times> 'h) option" where
  "node_free l p h = do {
     h' \<leftarrow> free_fn (ls_allocator l) p h;
     Some (case p of None \<Rightarrow> l | Some a \<Rightarrow> l\<lparr>ls_nodes := (ls_nodes l)(a := None)\<rparr>, h')
   }"

definition node_alloc :: "'h zenit_list_t \<Rightarrow> byte list \<Rightarrow> 'h \<Rightarrow> (nat option \<times> 'h zenit_list_t \<times> 'h) option" where
  "node_alloc l elem h =
    (case alloc_fn (ls_allocator l) (sz_add sizeof_list_node (ls_elem_size l)) h of
       (None, h1) \<Rightarrow> Some (None, l, h1)
     | (Some b, h1) \<Rightarrow> do {
         x \<leftarrow> user_read elem (ls_elem_size l);
         if sizeof_list_node + length x \<le> length (mbytes b)
         then Some (Some (maddr b),
           l\<lparr>ls_nodes := (ls_nodes l)(maddr b \<mapsto> \<lparr>ln_prev = None, ln_next = None, ln_data = x\<rparr>)\<rparr>, h1)
         else None
       })"

text \<open>The two walks of \<open>node_at\<close>: \<open>n\<close> steps along one kind of link.\<close>

fun walk_nodes :: "(list_node \<Rightarrow> nat option) \<Rightarrow> (nat \<rightharpoonup> list_node) \<Rightarrow> nat \<Rightarrow> nat option \<Rightarrow> nat option option" where
  "walk_nodes link N 0 p = Some p"
| "walk_nodes link N (Suc i) p = do { n \<leftarrow> node_get N p; walk_nodes link N i (link n) }"

definition node_at :: "'h zenit_list_t \<Rightarrow> nat \<Rightarrow> nat option option" where
  "node_at l index =
    (if ls_count l \<le> index then Some None
     else if index < ls_count l div 2 then walk_nodes ln_next (ls_nodes l) index (ls_head l)
     else walk_nodes ln_prev (ls_nodes l) (sz_sub (sz_sub (ls_count l) 1) index) (ls_tail l))"

definition zenit_list_create_with_allocator :: "nat \<Rightarrow> 'h zenit_allocator_t \<Rightarrow> 'h \<Rightarrow> 'h zenit_list_t option \<times> 'h" where
  "zenit_list_create_with_allocator elem_size a h =
    (if elem_size = 0 then (None, h)
     else case alloc_fn a sizeof_list h of
       (None, h1) \<Rightarrow> (None, h1)
     | (Some b, h1) \<Rightarrow>
         (Some \<lparr>ls_self = maddr b, ls_head = None, ls_tail = None, ls_elem_size = elem_size, ls_count = 0,
            ls_allocator = a, ls_nodes = Map.empty\<rparr>, h1))"

definition zenit_list_create :: "nat \<Rightarrow> c_heap \<Rightarrow> c_heap zenit_list_t option \<times> c_heap" where
  "zenit_list_create elem_size = zenit_list_create_with_allocator elem_size ZENIT_ALLOCATOR_DEFAULT"

text \<open>The loop that frees every node; on a cyclic chain it would run into a freed node.\<close>

partial_function (option) free_nodes :: "'h zenit_list_t \<Rightarrow> nat option \<Rightarrow> 'h \<Rightarrow> ('h zenit_list_t \<times> 'h) option" where
  "free_nodes l p h =
    (case p of None \<Rightarrow> Some (l, h)
     | Some _ \<Rightarrow> do {
         n \<leftarrow> node_get (ls_nodes l) p;
         (l', h') \<leftarrow> node_free l p h;
         free_nodes l' (ln_next n) h'
       })"

declare free_nodes.simps [code]

definition zenit_list_destroy :: "'h zenit_list_t option \<Rightarrow> 'h \<Rightarrow> 'h option" where
  "zenit_list_destroy list h =
    (case list of None \<Rightarrow> Some h
     | Some l \<Rightarrow> do {
         (l', h1) \<leftarrow> free_nodes l (ls_head l) h;
         free_fn (ls_allocator l) (Some (ls_self l)) h1
       })"

definition zenit_list_push_front ::
    "'h zenit_list_t option \<Rightarrow> byte list option \<Rightarrow> 'h \<Rightarrow> (zenit_result_t \<times> 'h zenit_list_t option \<times> 'h) option" where
  "zenit_list_push_front list elem h =
    (case (list, elem) of
       (Some l, Some e) \<Rightarrow> do {
         (n, l1, h1) \<leftarrow> node_alloc l e h;
         case n of None \<Rightarrow> Some (ZENIT_ERROR_ALLOC, Some l1, h1)
         | Some _ \<Rightarrow> do {
             N1 \<leftarrow> node_set (ls_nodes l1) n (\<lambda>x. x\<lparr>ln_next := ls_head l1, ln_prev := None\<rparr>);
             (case ls_head l1 of
                Some _ \<Rightarrow> do {
                  N2 \<leftarrow> node_set N1 (ls_head l1) (\<lambda>x. x\<lparr>ln_prev := n\<rparr>);
                  Some (ZENIT_OK, Some (l1\<lparr>ls_nodes := N2, ls_head := n, ls_count := sz_add (ls_count l1) 1\<rparr>), h1)
                }
              | None \<Rightarrow>
                  Some (ZENIT_OK, Some (l1\<lparr>ls_nodes := N1, ls_tail := n, ls_head := n,
                    ls_count := sz_add (ls_count l1) 1\<rparr>), h1))
           }
       }
     | _ \<Rightarrow> Some (ZENIT_ERROR_NULL, list, h))"

definition zenit_list_push_back ::
    "'h zenit_list_t option \<Rightarrow> byte list option \<Rightarrow> 'h \<Rightarrow> (zenit_result_t \<times> 'h zenit_list_t option \<times> 'h) option" where
  "zenit_list_push_back list elem h =
    (case (list, elem) of
       (Some l, Some e) \<Rightarrow> do {
         (n, l1, h1) \<leftarrow> node_alloc l e h;
         case n of None \<Rightarrow> Some (ZENIT_ERROR_ALLOC, Some l1, h1)
         | Some _ \<Rightarrow> do {
             N1 \<leftarrow> node_set (ls_nodes l1) n (\<lambda>x. x\<lparr>ln_prev := ls_tail l1, ln_next := None\<rparr>);
             (case ls_tail l1 of
                Some _ \<Rightarrow> do {
                  N2 \<leftarrow> node_set N1 (ls_tail l1) (\<lambda>x. x\<lparr>ln_next := n\<rparr>);
                  Some (ZENIT_OK, Some (l1\<lparr>ls_nodes := N2, ls_tail := n, ls_count := sz_add (ls_count l1) 1\<rparr>), h1)
                }
              | None \<Rightarrow>
                  Some (ZENIT_OK, Some (l1\<lparr>ls_nodes := N1, ls_head := n, ls_tail := n,
                    ls_count := sz_add (ls_count l1) 1\<rparr>), h1))
           }
       }
     | _ \<Rightarrow> Some (ZENIT_ERROR_NULL, list, h))"

definition zenit_list_pop_front ::
    "'h zenit_list_t option \<Rightarrow> byte list option \<Rightarrow> 'h \<Rightarrow>
     (zenit_result_t \<times> 'h zenit_list_t option \<times> byte list option \<times> 'h) option" where
  "zenit_list_pop_front list out h =
    (case (list, out) of
       (Some l, Some d) \<Rightarrow>
         if ls_count l = 0 then Some (ZENIT_ERROR_EMPTY, list, out, h)
         else do {
           n \<leftarrow> node_get (ls_nodes l) (ls_head l);
           d' \<leftarrow> user_write d 0 (ln_data n);
           l1 \<leftarrow> (case ln_next n of
               Some _ \<Rightarrow> do {
                 N1 \<leftarrow> node_set (ls_nodes l) (ln_next n) (\<lambda>x. x\<lparr>ln_prev := None\<rparr>);
                 Some (l\<lparr>ls_nodes := N1, ls_head := ln_next n\<rparr>)
               }
             | None \<Rightarrow> Some (l\<lparr>ls_head := None, ls_tail := None\<rparr>));
           (l2, h1) \<leftarrow> node_free l1 (ls_head l) h;
           Some (ZENIT_OK, Some (l2\<lparr>ls_count := sz_sub (ls_count l) 1\<rparr>), Some d', h1)
         }
     | _ \<Rightarrow> Some (ZENIT_ERROR_NULL, list, out, h))"

definition zenit_list_pop_back ::
    "'h zenit_list_t option \<Rightarrow> byte list option \<Rightarrow> 'h \<Rightarrow>
     (zenit_result_t \<times> 'h zenit_list_t option \<times> byte list option \<times> 'h) option" where
  "zenit_list_pop_back list out h =
    (case (list, out) of
       (Some l, Some d) \<Rightarrow>
         if ls_count l = 0 then Some (ZENIT_ERROR_EMPTY, list, out, h)
         else do {
           n \<leftarrow> node_get (ls_nodes l) (ls_tail l);
           d' \<leftarrow> user_write d 0 (ln_data n);
           l1 \<leftarrow> (case ln_prev n of
               Some _ \<Rightarrow> do {
                 N1 \<leftarrow> node_set (ls_nodes l) (ln_prev n) (\<lambda>x. x\<lparr>ln_next := None\<rparr>);
                 Some (l\<lparr>ls_nodes := N1, ls_tail := ln_prev n\<rparr>)
               }
             | None \<Rightarrow> Some (l\<lparr>ls_tail := None, ls_head := None\<rparr>));
           (l2, h1) \<leftarrow> node_free l1 (ls_tail l) h;
           Some (ZENIT_OK, Some (l2\<lparr>ls_count := sz_sub (ls_count l) 1\<rparr>), Some d', h1)
         }
     | _ \<Rightarrow> Some (ZENIT_ERROR_NULL, list, out, h))"

definition zenit_list_insert ::
    "'h zenit_list_t option \<Rightarrow> nat \<Rightarrow> byte list option \<Rightarrow> 'h \<Rightarrow> (zenit_result_t \<times> 'h zenit_list_t option \<times> 'h) option" where
  "zenit_list_insert list index elem h =
    (case (list, elem) of
       (Some l, Some e) \<Rightarrow>
         if ls_count l < index then Some (ZENIT_ERROR_PARAM, list, h)
         else if index = 0 then zenit_list_push_front list elem h
         else if index = ls_count l then zenit_list_push_back list elem h
         else do {
           next \<leftarrow> node_at l index;
           (n, l1, h1) \<leftarrow> node_alloc l e h;
           case n of None \<Rightarrow> Some (ZENIT_ERROR_ALLOC, Some l1, h1)
           | Some _ \<Rightarrow> do {
               nn \<leftarrow> node_get (ls_nodes l1) next;
               N1 \<leftarrow> node_set (ls_nodes l1) n (\<lambda>x. x\<lparr>ln_prev := ln_prev nn, ln_next := next\<rparr>);
               N2 \<leftarrow> node_set N1 (ln_prev nn) (\<lambda>x. x\<lparr>ln_next := n\<rparr>);
               N3 \<leftarrow> node_set N2 next (\<lambda>x. x\<lparr>ln_prev := n\<rparr>);
               Some (ZENIT_OK, Some (l1\<lparr>ls_nodes := N3, ls_count := sz_add (ls_count l1) 1\<rparr>), h1)
             }
         }
     | _ \<Rightarrow> Some (ZENIT_ERROR_NULL, list, h))"

definition zenit_list_remove ::
    "'h zenit_list_t option \<Rightarrow> nat \<Rightarrow> byte list option \<Rightarrow> 'h \<Rightarrow>
     (zenit_result_t \<times> 'h zenit_list_t option \<times> byte list option \<times> 'h) option" where
  "zenit_list_remove list index out h =
    (case (list, out) of
       (Some l, Some d) \<Rightarrow>
         if ls_count l \<le> index then Some (ZENIT_ERROR_PARAM, list, out, h)
         else if index = 0 then zenit_list_pop_front list out h
         else if index = sz_sub (ls_count l) 1 then zenit_list_pop_back list out h
         else do {
           p \<leftarrow> node_at l index;
           n \<leftarrow> node_get (ls_nodes l) p;
           d' \<leftarrow> user_write d 0 (ln_data n);
           N1 \<leftarrow> node_set (ls_nodes l) (ln_prev n) (\<lambda>x. x\<lparr>ln_next := ln_next n\<rparr>);
           N2 \<leftarrow> node_set N1 (ln_next n) (\<lambda>x. x\<lparr>ln_prev := ln_prev n\<rparr>);
           (l1, h1) \<leftarrow> node_free (l\<lparr>ls_nodes := N2\<rparr>) p h;
           Some (ZENIT_OK, Some (l1\<lparr>ls_count := sz_sub (ls_count l) 1\<rparr>), Some d', h1)
         }
     | _ \<Rightarrow> Some (ZENIT_ERROR_NULL, list, out, h))"

definition zenit_list_get :: "'h zenit_list_t option \<Rightarrow> nat \<Rightarrow> nat option option" where
  "zenit_list_get list index = (case list of None \<Rightarrow> Some None | Some l \<Rightarrow> node_at l index)"

definition zenit_list_set ::
    "'h zenit_list_t option \<Rightarrow> nat \<Rightarrow> byte list option \<Rightarrow> (zenit_result_t \<times> 'h zenit_list_t option) option" where
  "zenit_list_set list index elem =
    (case (list, elem) of
       (Some l, Some e) \<Rightarrow> do {
         p \<leftarrow> node_at l index;
         case p of None \<Rightarrow> Some (ZENIT_ERROR_PARAM, list)
         | Some _ \<Rightarrow> do {
             x \<leftarrow> user_read e (ls_elem_size l);
             N1 \<leftarrow> node_set (ls_nodes l) p (\<lambda>n. n\<lparr>ln_data := x\<rparr>);
             Some (ZENIT_OK, Some (l\<lparr>ls_nodes := N1\<rparr>))
           }
       }
     | _ \<Rightarrow> Some (ZENIT_ERROR_NULL, list))"

definition zenit_list_count :: "'h zenit_list_t option \<Rightarrow> nat" where
  "zenit_list_count list = (case list of None \<Rightarrow> 0 | Some l \<Rightarrow> ls_count l)"

definition zenit_list_empty :: "'h zenit_list_t option \<Rightarrow> bool" where
  "zenit_list_empty list = (case list of None \<Rightarrow> True | Some l \<Rightarrow> ls_count l = 0)"

definition zenit_list_clear :: "'h zenit_list_t option \<Rightarrow> 'h \<Rightarrow> ('h zenit_list_t option \<times> 'h) option" where
  "zenit_list_clear list h =
    (case list of None \<Rightarrow> Some (None, h)
     | Some l \<Rightarrow> do {
         (l1, h1) \<leftarrow> free_nodes l (ls_head l) h;
         Some (Some (l1\<lparr>ls_head := None, ls_tail := None, ls_count := 0\<rparr>), h1)
       })"

text \<open>Both visiting loops follow one kind of link until \<open>NULL\<close>.\<close>

partial_function (option) visit_loop ::
    "(list_node \<Rightarrow> nat option) \<Rightarrow> (nat \<rightharpoonup> list_node) \<Rightarrow> (byte list \<Rightarrow> 'c \<Rightarrow> 'c) \<Rightarrow> nat option \<Rightarrow> 'c \<Rightarrow> 'c option" where
  "visit_loop link N visit p ctx =
    (case p of None \<Rightarrow> Some ctx
     | Some _ \<Rightarrow> do {
         n \<leftarrow> node_get N p;
         visit_loop link N visit (link n) (visit (ln_data n) ctx)
       })"

declare visit_loop.simps [code]

definition zenit_list_foreach :: "'h zenit_list_t option \<Rightarrow> (byte list \<Rightarrow> 'c \<Rightarrow> 'c) option \<Rightarrow> 'c \<Rightarrow> 'c option" where
  "zenit_list_foreach list visit ctx =
    (case (list, visit) of
       (Some l, Some f) \<Rightarrow> visit_loop ln_next (ls_nodes l) f (ls_head l) ctx
     | _ \<Rightarrow> Some ctx)"

definition zenit_list_reverse_foreach :: "'h zenit_list_t option \<Rightarrow> (byte list \<Rightarrow> 'c \<Rightarrow> 'c) option \<Rightarrow> 'c \<Rightarrow> 'c option" where
  "zenit_list_reverse_foreach list visit ctx =
    (case (list, visit) of
       (Some l, Some f) \<Rightarrow> visit_loop ln_prev (ls_nodes l) f (ls_tail l) ctx
     | _ \<Rightarrow> Some ctx)"

definition zenit_list_front :: "'h zenit_list_t option \<Rightarrow> nat option" where
  "zenit_list_front list = (case list of None \<Rightarrow> None | Some l \<Rightarrow> ls_head l)"

definition zenit_list_back :: "'h zenit_list_t option \<Rightarrow> nat option" where
  "zenit_list_back list = (case list of None \<Rightarrow> None | Some l \<Rightarrow> ls_tail l)"

text \<open>The iterator of a list also holds the node it stands at (\<open>iter.internal\<close>).\<close>

definition zenit_list_iter :: "'h zenit_list_t option \<Rightarrow> zenit_iter_t \<times> nat option" where
  "zenit_list_iter list =
    (\<lparr>iter_index = 0, iter_count = (case list of None \<Rightarrow> 0 | Some l \<Rightarrow> ls_count l), iter_is_valid = (list \<noteq> None)\<rparr>,
     case list of None \<Rightarrow> None | Some l \<Rightarrow> ls_head l)"

definition zenit_list_iter_next ::
    "(nat \<rightharpoonup> list_node) \<Rightarrow> (zenit_iter_t \<times> nat option) option \<Rightarrow> (nat option \<times> (zenit_iter_t \<times> nat option) option) option" where
  "zenit_list_iter_next N iter =
    (case iter of None \<Rightarrow> Some (None, None)
     | Some (it, p) \<Rightarrow>
         if \<not> iter_is_valid it \<or> p = None then Some (None, iter)
         else do {
           n \<leftarrow> node_get N p;
           Some (p, Some (it\<lparr>iter_index := sz_add (iter_index it) 1\<rparr>, ln_next n))
         })"


section \<open>The chain of nodes\<close>

definition lk_prev :: "(nat \<rightharpoonup> list_node) \<Rightarrow> nat \<Rightarrow> nat option" where
  "lk_prev N p = Option.bind (N p) ln_prev"

definition lk_next :: "(nat \<rightharpoonup> list_node) \<Rightarrow> nat \<Rightarrow> nat option" where
  "lk_next N p = Option.bind (N p) ln_next"

definition lk_data :: "(nat \<rightharpoonup> list_node) \<Rightarrow> nat \<Rightarrow> byte list" where
  "lk_data N p = (case N p of None \<Rightarrow> [] | Some n \<Rightarrow> ln_data n)"

definition chain :: "(nat \<rightharpoonup> list_node) \<Rightarrow> nat list \<Rightarrow> byte list list \<Rightarrow> bool" where
  "chain N ps xs \<longleftrightarrow> distinct ps \<and> dom N = set ps \<and> seg (lk_prev N) (lk_next N) None ps None \<and> map (lk_data N) ps = xs"

lemmas lk_defs = lk_prev_def lk_next_def lk_data_def

lemma node_get_ok:
  assumes "p \<in> dom N"
  obtains n where "node_get N (Some p) = Some n" and "ln_prev n = lk_prev N p" and "ln_next n = lk_next N p"
    and "ln_data n = lk_data N p"
  using assms by (auto simp: node_get_def lk_defs)

lemma set_next_ok:
  assumes "p \<in> dom N"
  obtains N' where "node_set N (Some p) (\<lambda>x. x\<lparr>ln_next := c\<rparr>) = Some N'" and "dom N' = dom N"
    and "lk_prev N' = lk_prev N" and "lk_next N' = (lk_next N)(p := c)" and "lk_data N' = lk_data N"
proof -
  from assms obtain n where n: "N p = Some n" by auto
  show thesis
    by (rule that [of "N(p \<mapsto> n\<lparr>ln_next := c\<rparr>)"]) (use n in \<open>auto simp: node_set_def lk_defs fun_eq_iff\<close>)
qed

lemma set_prev_ok:
  assumes "p \<in> dom N"
  obtains N' where "node_set N (Some p) (\<lambda>x. x\<lparr>ln_prev := c\<rparr>) = Some N'" and "dom N' = dom N"
    and "lk_prev N' = (lk_prev N)(p := c)" and "lk_next N' = lk_next N" and "lk_data N' = lk_data N"
proof -
  from assms obtain n where n: "N p = Some n" by auto
  show thesis
    by (rule that [of "N(p \<mapsto> n\<lparr>ln_prev := c\<rparr>)"]) (use n in \<open>auto simp: node_set_def lk_defs fun_eq_iff\<close>)
qed

lemma lk_upd:
  "lk_prev (N(p \<mapsto> n)) = (lk_prev N)(p := ln_prev n)" "lk_next (N(p \<mapsto> n)) = (lk_next N)(p := ln_next n)"
  "lk_data (N(p \<mapsto> n)) = (lk_data N)(p := ln_data n)"
  by (auto simp: lk_defs fun_eq_iff)

lemma chain_split:
  assumes "chain N ps xs" and "i < length ps"
  obtains as p bs where "ps = as @ p # bs" and "length as = i" and "p = ps ! i"
    and "xs = map (lk_data N) as @ lk_data N p # map (lk_data N) bs"
    and "distinct (as @ p # bs)" and "seg (lk_prev N) (lk_next N) None (as @ p # bs) None"
proof -
  have "ps = take i ps @ ps ! i # drop (Suc i) ps" using assms(2) by (rule id_take_nth_drop)
  then obtain as p bs where ps: "ps = as @ p # bs" "length as = i" "p = ps ! i" 
    using assms(2) by (metis length_take min.absorb2 less_imp_le)
  show thesis by (rule that [OF ps]) (use assms ps(1) in \<open>auto simp: chain_def\<close>)
qed

lemma chain_link:
  assumes c: "chain N (as @ bs) xs" and p: "p \<notin> set (as @ bs)"
    and N': "lk_prev N' = relink_prev ((lk_prev N)(p := last_of None as)) bs (Some p)"
      "lk_next N' = relink_next ((lk_next N)(p := first_of bs None)) as (Some p)"
      "lk_data N' = (lk_data N)(p := x)" "dom N' = insert p (dom N)"
  shows "chain N' (as @ p # bs) (take (length as) xs @ x # drop (length as) xs)"
proof -
  have d: "distinct (as @ p # bs)" using c p by (auto simp: chain_def)
  moreover have "map (lk_data N') (as @ p # bs) = take (length as) xs @ x # drop (length as) xs"
    using c p by (auto simp: chain_def N'(3))
  ultimately show ?thesis using c seg_link [OF d, of "lk_prev N" "lk_next N"] N'(1,2,4)
    unfolding chain_def by simp
qed

lemma chain_unlink:
  assumes c: "chain N (as @ p # bs) xs"
    and N': "lk_prev N' = relink_prev (lk_prev N) bs (last_of None as)"
      "lk_next N' = relink_next (lk_next N) as (first_of bs None)"
      "lk_data N' = lk_data N" "dom N' = dom N"
  shows "chain (N'(p := None)) (as @ bs) (take (length as) xs @ drop (Suc (length as)) xs)"
proof -
  have d: "distinct (as @ p # bs)" and s: "seg (lk_prev N) (lk_next N) None (as @ p # bs) None"
    using c by (simp_all add: chain_def)
  have sg: "seg (lk_prev (N'(p := None))) (lk_next (N'(p := None))) None (as @ bs) None =
      seg (lk_prev N') (lk_next N') None (as @ bs) None"
    using d by (intro seg_cong) (auto simp: lk_defs)
  have "lk_data (N'(p := None)) q = lk_data N q" if "q \<noteq> p" for q
    using that fun_cong [OF N'(3), of q] by (simp add: lk_data_def)
  moreover have "q \<noteq> p" if "q \<in> set (as @ bs)" for q using that d by auto
  ultimately have "map (lk_data (N'(p := None))) (as @ bs) = map (lk_data N) (as @ bs)"
    by (intro map_cong refl) blast
  then have "map (lk_data (N'(p := None))) (as @ bs) = take (length as) xs @ drop (Suc (length as)) xs"
    using c by (auto simp: chain_def)
  with sg show ?thesis using c d seg_unlink [OF d s] N'(1,2,4) unfolding chain_def by auto
qed

section \<open>The invariant\<close>

text \<open>
  \<open>list_ok live h l xs\<close>: the list holds the elements \<open>xs\<close>, in nodes that are live, apart from the handle,
  and all the memory the list uses.
\<close>

definition list_at :: "'h zenit_list_t \<Rightarrow> nat list \<Rightarrow> byte list list \<Rightarrow> bool" where
  "list_at l ps xs \<longleftrightarrow> chain (ls_nodes l) ps xs \<and> ls_head l = first_of ps None \<and> ls_tail l = last_of None ps \<and>
    ls_count l = length ps \<and> 0 < ls_elem_size l \<and> sizeof_list_node + ls_elem_size l < size_mod \<and>
    length ps < size_mod \<and> (\<forall>x \<in> set xs. length x = ls_elem_size l)"

definition list_owns :: "('h \<Rightarrow> nat set) \<Rightarrow> 'h \<Rightarrow> 'h zenit_list_t \<Rightarrow> nat list \<Rightarrow> bool" where
  "list_owns live h l ps \<longleftrightarrow> allocator_contract (ls_allocator l) live \<and> ls_self l \<notin> set ps \<and>
    insert (ls_self l) (set ps) \<subseteq> live h"

definition list_ok :: "('h \<Rightarrow> nat set) \<Rightarrow> 'h \<Rightarrow> 'h zenit_list_t \<Rightarrow> byte list list \<Rightarrow> bool" where
  "list_ok live h l xs \<longleftrightarrow> (\<exists>ps. list_at l ps xs \<and> list_owns live h l ps)"

text \<open>The parts of the handle that an operation never changes.\<close>

definition list_same :: "'h zenit_list_t \<Rightarrow> 'h zenit_list_t \<Rightarrow> bool" where
  "list_same l l' \<longleftrightarrow> ls_self l' = ls_self l \<and> ls_elem_size l' = ls_elem_size l \<and> ls_allocator l' = ls_allocator l"

lemma node_alloc_ok:
  assumes a: "list_at l ps xs" and o: "list_owns live h l ps" and e: "length e = ls_elem_size l"
  obtains (null) h' where "node_alloc l e h = Some (None, l, h')" and "live h' = live h" and "list_owns live h' l ps"
  | (node) p h' where "node_alloc l e h = Some (Some p,
        l\<lparr>ls_nodes := (ls_nodes l)(p \<mapsto> \<lparr>ln_prev = None, ln_next = None, ln_data = e\<rparr>)\<rparr>, h')"
      and "p \<notin> set ps" and "p \<noteq> ls_self l" and "insert (ls_self l) (insert p (set ps)) \<subseteq> live h'"
      and "live h' = insert p (live h)" and "p \<notin> live h"
proof -
  have c: "allocator_contract (ls_allocator l) live" using o by (simp add: list_owns_def)
  show thesis
  proof (cases rule: allocator_contract.alloc_cases [OF c, of "sz_add sizeof_list_node (ls_elem_size l)" h, case_names nl bl])
    case (nl h')
    then show thesis using o by (intro null [of h']) (auto simp: node_alloc_def list_owns_def)
  next
    case (bl b h')
    then show thesis using a o e
      by (intro node [of "maddr b" h']) (auto simp: node_alloc_def list_owns_def list_at_def user_read_def sz_add_nowrap)
  qed
qed

lemma node_free_ok:
  assumes o: "list_owns live h l (as @ p # bs)" and d: "distinct (as @ p # bs)"
  obtains h' where "node_free l (Some p) h = Some (l\<lparr>ls_nodes := (ls_nodes l)(p := None)\<rparr>, h')"
    and "list_owns live h' l (as @ bs)" and "live h' = live h - {p}"
proof -
  have c: "allocator_contract (ls_allocator l) live" "p \<in> live h" using o by (simp_all add: list_owns_def)
  obtain h' where "free_fn (ls_allocator l) (Some p) h = Some h'" "live h' = live h - {p}"
    using allocator_contract.free_addr [OF c] by blast
  then show thesis using o d by (intro that [of h']) (auto simp: node_free_def list_owns_def)
qed


section \<open>Adding elements\<close>

text \<open>What an insertion at index \<open>i\<close> promises.\<close>

definition list_added :: "('h \<Rightarrow> nat set) \<Rightarrow> 'h \<Rightarrow> 'h zenit_list_t \<Rightarrow> byte list list \<Rightarrow> nat \<Rightarrow> byte list \<Rightarrow>
    (zenit_result_t \<times> 'h zenit_list_t option \<times> 'h) option \<Rightarrow> bool" where
  "list_added live h l xs i e res \<longleftrightarrow>
    (\<exists>r l' h'. res = Some (r, Some l', h') \<and> list_same l l' \<and>
      (r = ZENIT_ERROR_ALLOC \<and> l' = l \<and> live h' = live h \<and> list_ok live h' l xs \<or>
       r = ZENIT_OK \<and> list_ok live h' l' (take i xs @ e # drop i xs)))"

lemma list_added_null:
  assumes "list_at l ps xs" and "live h' = live h" and "list_owns live h' l ps"
  shows "list_added live h l xs i e (Some (ZENIT_ERROR_ALLOC, Some l, h'))"
  using assms by (auto simp: list_added_def list_same_def list_ok_def)

lemma list_added_node:
  assumes a: "list_at l (as @ bs) xs" and o: "list_owns live h l (as @ bs)"
    and e: "length e = ls_elem_size l" and n: "length xs + 1 < size_mod"
    and p: "p \<notin> set (as @ bs)" "p \<noteq> ls_self l" "insert (ls_self l) (insert p (set (as @ bs))) \<subseteq> live h'"
    and N': "lk_prev N' = relink_prev ((lk_prev (ls_nodes l))(p := last_of None as)) bs (Some p)"
      "lk_next N' = relink_next ((lk_next (ls_nodes l))(p := first_of bs None)) as (Some p)"
      "lk_data N' = (lk_data (ls_nodes l))(p := e)" "dom N' = insert p (dom (ls_nodes l))"
    and l': "list_same l l'" "ls_nodes l' = N'" "ls_head l' = first_of (as @ p # bs) None"
      "ls_tail l' = last_of None (as @ p # bs)" "ls_count l' = sz_add (ls_count l) 1"
  shows "list_added live h l xs (length as) e (Some (ZENIT_OK, Some l', h'))"
proof -
  have c: "chain (ls_nodes l) (as @ bs) xs" and len: "length xs = length (as @ bs)"
    using a by (auto simp: list_at_def chain_def)
  have "chain N' (as @ p # bs) (take (length as) xs @ e # drop (length as) xs)"
    by (rule chain_link [OF c p(1) N'])
  moreover have "\<forall>x \<in> set (take (length as) xs @ e # drop (length as) xs). length x = ls_elem_size l"
    using a e by (auto simp: list_at_def dest: in_set_takeD in_set_dropD)
  ultimately have "list_at l' (as @ p # bs) (take (length as) xs @ e # drop (length as) xs)"
    using a l' n len by (auto simp: list_at_def list_same_def sz_add_nowrap)
  moreover have "list_owns live h' l' (as @ p # bs)"
    using o p l'(1) by (auto simp: list_owns_def list_same_def)
  ultimately show ?thesis using l'(1) by (auto simp: list_added_def list_ok_def)
qed

lemma list_push_front_ok:
  assumes a: "list_at l ps xs" and o: "list_owns live h l ps" and e: "length e = ls_elem_size l" and n: "length xs + 1 < size_mod"
  shows "list_added live h l xs 0 e (zenit_list_push_front (Some l) (Some e) h)"
proof (cases rule: node_alloc_ok [OF a o e, case_names null node])
  case (null h')
  then show ?thesis using list_added_null [OF a] by (simp add: zenit_list_push_front_def)
next
  case (node p h')
  define N1 where "N1 = (ls_nodes l)(p \<mapsto> \<lparr>ln_prev = None, ln_next = ls_head l, ln_data = e\<rparr>)"
  note add = list_added_node [where as = "[]" and bs = ps, unfolded append_Nil list.size(3), OF a o e n node(2,3,4)]
  have hd: "ls_head l = first_of ps None" "ls_tail l = last_of None ps" "set ps = dom (ls_nodes l)"
    using a by (simp_all add: list_at_def chain_def)
  have v: "lk_prev N1 = (lk_prev (ls_nodes l))(p := None)" "lk_next N1 = (lk_next (ls_nodes l))(p := first_of ps None)"
      "lk_data N1 = (lk_data (ls_nodes l))(p := e)" "dom N1 = insert p (dom (ls_nodes l))"
    using hd by (auto simp: N1_def lk_upd)
  show ?thesis
  proof (cases ps)
    case Nil
    have res: "zenit_list_push_front (Some l) (Some e) h = Some (ZENIT_OK,
        Some (l\<lparr>ls_nodes := N1, ls_tail := Some p, ls_head := Some p, ls_count := sz_add (ls_count l) 1\<rparr>), h')"
      using node(1) hd(1) Nil by (simp add: zenit_list_push_front_def node_set_def N1_def)
    show ?thesis unfolding res
      by (rule add [of N1]) (use Nil v in \<open>simp_all add: relink_prev_def relink_next_def list_same_def\<close>)
  next
    case (Cons q qs)
    have "q \<in> dom N1" using v(4) hd(3) Cons by auto
    then obtain N2 where N2: "node_set N1 (Some q) (\<lambda>x. x\<lparr>ln_prev := Some p\<rparr>) = Some N2" "dom N2 = dom N1"
        "lk_prev N2 = (lk_prev N1)(q := Some p)" "lk_next N2 = lk_next N1" "lk_data N2 = lk_data N1"
      by (rule set_prev_ok)
    have res: "zenit_list_push_front (Some l) (Some e) h = Some (ZENIT_OK,
        Some (l\<lparr>ls_nodes := N2, ls_head := Some p, ls_count := sz_add (ls_count l) 1\<rparr>), h')"
      using node(1) hd(1) Cons N2(1) by (simp add: zenit_list_push_front_def node_set_def [of _ "Some p"] N1_def)
    show ?thesis unfolding res
      by (rule add [of N2]) (use Cons v N2 hd in \<open>simp_all add: relink_prev_def relink_next_def list_same_def\<close>)
  qed
qed

lemma list_push_back_ok:
  assumes a: "list_at l ps xs" and o: "list_owns live h l ps" and e: "length e = ls_elem_size l" and n: "length xs + 1 < size_mod"
  shows "list_added live h l xs (length ps) e (zenit_list_push_back (Some l) (Some e) h)"
proof (cases rule: node_alloc_ok [OF a o e, case_names null node])
  case (null h')
  then show ?thesis using list_added_null [OF a] by (simp add: zenit_list_push_back_def)
next
  case (node p h')
  define N1 where "N1 = (ls_nodes l)(p \<mapsto> \<lparr>ln_prev = ls_tail l, ln_next = None, ln_data = e\<rparr>)"
  note add = list_added_node [where as = ps and bs = "[]", unfolded append_Nil2, OF a o e n node(2,3,4)]
  have hd: "ls_head l = first_of ps None" "ls_tail l = last_of None ps" "set ps = dom (ls_nodes l)"
    using a by (simp_all add: list_at_def chain_def)
  have v: "lk_prev N1 = (lk_prev (ls_nodes l))(p := last_of None ps)" "lk_next N1 = (lk_next (ls_nodes l))(p := None)"
      "lk_data N1 = (lk_data (ls_nodes l))(p := e)" "dom N1 = insert p (dom (ls_nodes l))"
    using hd by (auto simp: N1_def lk_upd)
  show ?thesis
  proof (cases ps rule: rev_cases)
    case Nil
    have res: "zenit_list_push_back (Some l) (Some e) h = Some (ZENIT_OK,
        Some (l\<lparr>ls_nodes := N1, ls_head := Some p, ls_tail := Some p, ls_count := sz_add (ls_count l) 1\<rparr>), h')"
      using node(1) hd(2) Nil by (simp add: zenit_list_push_back_def node_set_def N1_def)
    show ?thesis unfolding res
      by (rule add [of N1]) (use Nil v in \<open>simp_all add: relink_prev_def relink_next_def list_same_def\<close>)
  next
    case (snoc qs q)
    have "q \<in> dom N1" using v(4) hd(3) snoc by auto
    then obtain N2 where N2: "node_set N1 (Some q) (\<lambda>x. x\<lparr>ln_next := Some p\<rparr>) = Some N2" "dom N2 = dom N1"
        "lk_prev N2 = lk_prev N1" "lk_next N2 = (lk_next N1)(q := Some p)" "lk_data N2 = lk_data N1"
      by (rule set_next_ok)
    have res: "zenit_list_push_back (Some l) (Some e) h = Some (ZENIT_OK,
        Some (l\<lparr>ls_nodes := N2, ls_tail := Some p, ls_count := sz_add (ls_count l) 1\<rparr>), h')"
      using node(1) hd(2) snoc N2(1) by (simp add: zenit_list_push_back_def node_set_def [of _ "Some p"] N1_def)
    show ?thesis unfolding res
      by (rule add [of N2]) (use snoc v N2 hd in \<open>simp_all add: relink_prev_def relink_next_def list_same_def\<close>)
  qed
qed

text \<open>The node of an index, from whichever end the walk starts.\<close>

lemma walk_None [simp]: "walk f i None = None"
  by (induction i) simp_all

lemma walk_nodes_walk:
  "walk (lk_next N) i p = Some q \<Longrightarrow> walk_nodes ln_next N i p = Some (Some q)"
  "walk (lk_prev N) i p = Some q \<Longrightarrow> walk_nodes ln_prev N i p = Some (Some q)"
proof -
  show "walk (lk_next N) i p = Some q \<Longrightarrow> walk_nodes ln_next N i p = Some (Some q)"
    by (induction i arbitrary: p) (auto simp: lk_next_def node_get_def split: bind_splits)
  show "walk (lk_prev N) i p = Some q \<Longrightarrow> walk_nodes ln_prev N i p = Some (Some q)"
    by (induction i arbitrary: p) (auto simp: lk_prev_def node_get_def split: bind_splits)
qed

lemma node_at_ok:
  assumes a: "list_at l ps xs"
  shows "node_at l i = Some (if i < length ps then Some (ps ! i) else None)"
proof (cases "i < length ps")
  case True
  have s: "seg (lk_prev (ls_nodes l)) (lk_next (ls_nodes l)) None ps None" and n: "ls_count l = length ps" "length ps < size_mod"
      "ls_head l = first_of ps None" "ls_tail l = last_of None ps"
    using a by (simp_all add: list_at_def chain_def)
  have b: "sz_sub (sz_sub (length ps) 1) i = length ps - 1 - i"
    using True n(2) by (subst sz_sub_nowrap; simp add: sz_sub_nowrap)+
  then have "sz_sub (sz_sub (length ps) 1) i < length ps" "length ps - 1 - (length ps - 1 - i) = i" using True by auto
  then show ?thesis
    using True n walk_nodes_walk(1) [OF walk_next [OF s True]]
      walk_nodes_walk(2) [OF walk_prev [OF s, of "length ps - 1 - i"]] b
    by (auto simp: node_at_def)
next
  case False
  then show ?thesis using a by (simp add: node_at_def list_at_def)
qed


lemma list_insert_inside:
  assumes a: "list_at l ps xs" and o: "list_owns live h l ps" and e: "length e = ls_elem_size l" and n: "length xs + 1 < size_mod"
    and i: "0 < i" "i < length ps"
  shows "list_added live h l xs i e (zenit_list_insert (Some l) i (Some e) h)"
proof -
  have c: "chain (ls_nodes l) ps xs" "ls_count l = length ps" using a by (simp_all add: list_at_def)
  obtain as q bs where sp: "ps = as @ q # bs" "length as = i" "q = ps ! i"
      "seg (lk_prev (ls_nodes l)) (lk_next (ls_nodes l)) None (as @ q # bs) None" "distinct (as @ q # bs)"
    by (rule chain_split [OF c(1) i(2)])
  obtain as' r where as: "as = as' @ [r]" using i(1) sp(2) by (cases as rule: rev_cases) auto
  have at: "node_at l i = Some (Some q)" using node_at_ok [OF a, of i] i(2) sp(3) by simp
  show ?thesis
  proof (cases rule: node_alloc_ok [OF a o e, case_names null node])
    case (null h')
    then show ?thesis using list_added_null [OF a] i c(2) at by (simp add: zenit_list_insert_def)
  next
    case (node p h')
    define N0 where "N0 = (ls_nodes l)(p \<mapsto> \<lparr>ln_prev = None, ln_next = None, ln_data = e\<rparr>)"
    define N1 where "N1 = (ls_nodes l)(p \<mapsto> \<lparr>ln_prev = Some r, ln_next = Some q, ln_data = e\<rparr>)"
    have ne: "r \<noteq> p" "q \<noteq> p" "r \<noteq> q" using node(2) sp(5) unfolding sp(1) as by auto
    have dm: "dom (ls_nodes l) = set ps" using c(1) by (simp add: chain_def)
    then have "q \<in> dom N0" using sp(1) by (auto simp: N0_def)
    then obtain nn where nn: "node_get N0 (Some q) = Some nn" "ln_prev nn = lk_prev N0 q" by (rule node_get_ok)
    have "ln_prev nn = Some r" using nn(2) sp(4) as ne by (simp add: N0_def lk_upd)
    moreover have v: "lk_prev N1 = (lk_prev (ls_nodes l))(p := Some r)" "lk_next N1 = (lk_next (ls_nodes l))(p := Some q)"
        "lk_data N1 = (lk_data (ls_nodes l))(p := e)" "dom N1 = insert p (set ps)"
      using dm by (auto simp: N1_def lk_upd)
    have "r \<in> dom N1" using v(4) sp(1) as by auto
    then obtain N2 where N2: "node_set N1 (Some r) (\<lambda>x. x\<lparr>ln_next := Some p\<rparr>) = Some N2" "dom N2 = dom N1"
        "lk_prev N2 = lk_prev N1" "lk_next N2 = (lk_next N1)(r := Some p)" "lk_data N2 = lk_data N1"
      by (rule set_next_ok)
    have "q \<in> dom N2" using v(4) sp(1) N2(2) by auto
    then obtain N3 where N3: "node_set N2 (Some q) (\<lambda>x. x\<lparr>ln_prev := Some p\<rparr>) = Some N3" "dom N3 = dom N2"
        "lk_prev N3 = (lk_prev N2)(q := Some p)" "lk_next N3 = lk_next N2" "lk_data N3 = lk_data N2"
      by (rule set_prev_ok)
    have "node_set N0 (Some p) (\<lambda>x. x\<lparr>ln_prev := Some r, ln_next := Some q\<rparr>) = Some N1"
      by (simp add: node_set_def N0_def N1_def)
    ultimately have res: "zenit_list_insert (Some l) i (Some e) h =
        Some (ZENIT_OK, Some (l\<lparr>ls_nodes := N3, ls_count := sz_add (ls_count l) 1\<rparr>), h')"
      using node(1) i c(2) at nn(1) N2(1) N3(1) by (simp add: zenit_list_insert_def N0_def)
    show ?thesis unfolding res unfolding sp(2) [symmetric]
      by (rule list_added_node [where bs = "q # bs", OF a [unfolded sp(1)] o [unfolded sp(1)] e n
            node(2) [unfolded sp(1)] node(3) node(4) [unfolded sp(1)], of N3])
        (use as v N2 N3 a dm in \<open>simp_all add: relink_prev_def relink_next_def list_same_def list_at_def sp(1)\<close>)
  qed
qed

text \<open>
  C23: Insertion at every index: the element comes to stand at the index and the others keep their order;
  an index behind the end and an allocation failure are refused without a change.
\<close>

theorem list_insert_refines:
  assumes ok: "list_ok live h l xs" and e: "length e = ls_elem_size l" and n: "length xs + 1 < size_mod"
  shows "if i \<le> length xs then list_added live h l xs i e (zenit_list_insert (Some l) i (Some e) h)
    else zenit_list_insert (Some l) i (Some e) h = Some (ZENIT_ERROR_PARAM, Some l, h)"
proof -
  from ok obtain ps where a: "list_at l ps xs" and o: "list_owns live h l ps" by (auto simp: list_ok_def)
  have c: "ls_count l = length ps" "length xs = length ps" using a by (auto simp: list_at_def chain_def)
  consider "length xs < i" | "i = 0" | "0 < i" "i = length ps" | "0 < i" "i < length ps" using c by linarith
  then show ?thesis
  proof cases
    case 1
    then show ?thesis using c by (simp add: zenit_list_insert_def)
  next
    case 2
    then show ?thesis using c list_push_front_ok [OF a o e n] by (simp add: zenit_list_insert_def)
  next
    case 3
    then show ?thesis using c list_push_back_ok [OF a o e n] by (simp add: zenit_list_insert_def)
  next
    case 4
    then show ?thesis using c list_insert_inside [OF a o e n] by simp
  qed
qed

section \<open>Removing elements\<close>

definition list_removed :: "('h \<Rightarrow> nat set) \<Rightarrow> 'h \<Rightarrow> 'h zenit_list_t \<Rightarrow> byte list list \<Rightarrow> nat \<Rightarrow>
    (zenit_result_t \<times> 'h zenit_list_t option \<times> byte list option \<times> 'h) option \<Rightarrow> bool" where
  "list_removed live h l xs i res \<longleftrightarrow>
    (\<exists>l' h'. res = Some (ZENIT_OK, Some l', Some (xs ! i), h') \<and> list_same l l' \<and>
      list_ok live h' l' (take i xs @ drop (Suc i) xs))"

lemma list_removed_node:
  assumes a: "list_at l (as @ p # bs) xs" and o: "list_owns live h l (as @ p # bs)"
    and N': "lk_prev N' = relink_prev (lk_prev (ls_nodes l)) bs (last_of None as)"
      "lk_next N' = relink_next (lk_next (ls_nodes l)) as (first_of bs None)"
      "lk_data N' = lk_data (ls_nodes l)" "dom N' = dom (ls_nodes l)"
    and l1: "list_same l l1" "ls_nodes l1 = N'" "ls_head l1 = first_of (as @ bs) None" "ls_tail l1 = last_of None (as @ bs)"
  shows "list_removed live h l xs (length as)
    (do { (l2, h1) \<leftarrow> node_free l1 (Some p) h;
          Some (ZENIT_OK, Some (l2\<lparr>ls_count := sz_sub (ls_count l) 1\<rparr>), Some (xs ! length as), h1) })"
proof -
  have c: "chain (ls_nodes l) (as @ p # bs) xs" and cnt: "ls_count l = length (as @ p # bs)" "length (as @ p # bs) < size_mod"
    using a by (simp_all add: list_at_def)
  have d: "distinct (as @ p # bs)" using c by (simp add: chain_def)
  have o1: "list_owns live h l1 (as @ p # bs)" using o l1(1) by (simp add: list_owns_def list_same_def)
  obtain h' where h': "node_free l1 (Some p) h = Some (l1\<lparr>ls_nodes := (ls_nodes l1)(p := None)\<rparr>, h')"
      "list_owns live h' l1 (as @ bs)" "live h' = live h - {p}"
    by (rule node_free_ok [OF o1 d])
  define l' where "l' = l1\<lparr>ls_nodes := N'(p := None), ls_count := sz_sub (ls_count l) 1\<rparr>"
  have "chain (N'(p := None)) (as @ bs) (take (length as) xs @ drop (Suc (length as)) xs)"
    by (rule chain_unlink [OF c N'])
  moreover have "sz_sub (ls_count l) 1 = length (as @ bs)" using cnt by (simp add: sz_sub_nowrap)
  ultimately have "list_at l' (as @ bs) (take (length as) xs @ drop (Suc (length as)) xs)"
    using a l1 by (auto simp: list_at_def list_same_def l'_def dest: in_set_takeD in_set_dropD)
  moreover have "list_owns live h' l' (as @ bs)" using h'(2) by (simp add: list_owns_def l'_def)
  ultimately have "list_ok live h' l' (take (length as) xs @ drop (Suc (length as)) xs)" by (auto simp: list_ok_def)
  then show ?thesis using h'(1) l1(1,2) by (auto simp: list_removed_def l'_def list_same_def)
qed


lemma list_pop_front_ok:
  assumes a: "list_at l (p # bs) xs" and o: "list_owns live h l (p # bs)" and d: "length d = ls_elem_size l"
  shows "list_removed live h l xs 0 (zenit_list_pop_front (Some l) (Some d) h)"
proof -
  have c: "chain (ls_nodes l) (p # bs) xs" and hd: "ls_head l = Some p" "ls_tail l = last_of None (p # bs)" "ls_count l \<noteq> 0"
    using a by (simp_all add: list_at_def)
  have dm: "dom (ls_nodes l) = set (p # bs)" and nx: "lk_next (ls_nodes l) p = first_of bs None"
    and x: "xs ! 0 = lk_data (ls_nodes l) p" "length (xs ! 0) = ls_elem_size l"
    using a by (auto simp: list_at_def chain_def)
  have "p \<in> dom (ls_nodes l)" using dm by simp
  then obtain n where n: "node_get (ls_nodes l) (Some p) = Some n" "ln_next n = first_of bs None" "ln_data n = xs ! 0"
    using nx x(1) by (elim node_get_ok) simp
  have w: "user_write d 0 (ln_data n) = Some (xs ! 0)" using n(3) x(2) d by (simp add: user_write_def blit_def)
  note rem = list_removed_node [where as = "[]", unfolded append_Nil list.size(3), OF a o]
  show ?thesis
  proof (cases bs)
    case Nil
    have "zenit_list_pop_front (Some l) (Some d) h = (do { (l2, h1) \<leftarrow> node_free (l\<lparr>ls_head := None, ls_tail := None\<rparr>) (Some p) h;
        Some (ZENIT_OK, Some (l2\<lparr>ls_count := sz_sub (ls_count l) 1\<rparr>), Some (xs ! 0), h1) })"
      using hd n w Nil by (simp add: zenit_list_pop_front_def)
    moreover have "list_removed live h l xs 0 \<dots>"
      by (rule rem [of "ls_nodes l"]) (use Nil in \<open>simp_all add: relink_prev_def relink_next_def list_same_def\<close>)
    ultimately show ?thesis by simp
  next
    case (Cons q qs)
    have "q \<in> dom (ls_nodes l)" using dm Cons by simp
    then obtain N1 where N1: "node_set (ls_nodes l) (Some q) (\<lambda>x. x\<lparr>ln_prev := None\<rparr>) = Some N1" "dom N1 = dom (ls_nodes l)"
        "lk_prev N1 = (lk_prev (ls_nodes l))(q := None)" "lk_next N1 = lk_next (ls_nodes l)" "lk_data N1 = lk_data (ls_nodes l)"
      by (rule set_prev_ok)
    have "zenit_list_pop_front (Some l) (Some d) h = (do { (l2, h1) \<leftarrow> node_free (l\<lparr>ls_nodes := N1, ls_head := Some q\<rparr>) (Some p) h;
        Some (ZENIT_OK, Some (l2\<lparr>ls_count := sz_sub (ls_count l) 1\<rparr>), Some (xs ! 0), h1) })"
      using hd n w Cons N1(1) by (simp add: zenit_list_pop_front_def)
    moreover have "list_removed live h l xs 0 \<dots>"
      by (rule rem [of N1]) (use Cons N1 hd in \<open>simp_all add: relink_prev_def relink_next_def list_same_def last_of_def\<close>)
    ultimately show ?thesis by simp
  qed
qed

lemma list_pop_back_ok:
  assumes a: "list_at l (as @ [p]) xs" and o: "list_owns live h l (as @ [p])" and d: "length d = ls_elem_size l"
  shows "list_removed live h l xs (length as) (zenit_list_pop_back (Some l) (Some d) h)"
proof -
  have c: "chain (ls_nodes l) (as @ [p]) xs" and hd: "ls_head l = first_of (as @ [p]) None" "ls_tail l = Some p" "ls_count l \<noteq> 0"
    using a by (simp_all add: list_at_def)
  have dm: "dom (ls_nodes l) = set (as @ [p])" and pv: "lk_prev (ls_nodes l) p = last_of None as"
    and x: "xs ! length as = lk_data (ls_nodes l) p" "length (xs ! length as) = ls_elem_size l"
    using a by (auto simp: list_at_def chain_def nth_append)
  have "p \<in> dom (ls_nodes l)" using dm by simp
  then obtain n where n: "node_get (ls_nodes l) (Some p) = Some n" "ln_prev n = last_of None as" "ln_data n = xs ! length as"
    using pv x(1) by (elim node_get_ok) simp
  have w: "user_write d 0 (ln_data n) = Some (xs ! length as)" using n(3) x(2) d by (simp add: user_write_def blit_def)
  note rem = list_removed_node [where bs = "[]", OF a o]
  show ?thesis
  proof (cases as rule: rev_cases)
    case Nil
    have "zenit_list_pop_back (Some l) (Some d) h = (do { (l2, h1) \<leftarrow> node_free (l\<lparr>ls_tail := None, ls_head := None\<rparr>) (Some p) h;
        Some (ZENIT_OK, Some (l2\<lparr>ls_count := sz_sub (ls_count l) 1\<rparr>), Some (xs ! length as), h1) })"
      using hd n w Nil by (simp add: zenit_list_pop_back_def)
    moreover have "list_removed live h l xs (length as) \<dots>"
      by (rule rem [of "ls_nodes l"]) (use Nil in \<open>simp_all add: relink_prev_def relink_next_def list_same_def\<close>)
    ultimately show ?thesis by simp
  next
    case (snoc qs q)
    have "q \<in> dom (ls_nodes l)" using dm snoc by simp
    then obtain N1 where N1: "node_set (ls_nodes l) (Some q) (\<lambda>x. x\<lparr>ln_next := None\<rparr>) = Some N1" "dom N1 = dom (ls_nodes l)"
        "lk_prev N1 = lk_prev (ls_nodes l)" "lk_next N1 = (lk_next (ls_nodes l))(q := None)" "lk_data N1 = lk_data (ls_nodes l)"
      by (rule set_next_ok)
    have "zenit_list_pop_back (Some l) (Some d) h = (do { (l2, h1) \<leftarrow> node_free (l\<lparr>ls_nodes := N1, ls_tail := Some q\<rparr>) (Some p) h;
        Some (ZENIT_OK, Some (l2\<lparr>ls_count := sz_sub (ls_count l) 1\<rparr>), Some (xs ! length as), h1) })"
      using hd n w snoc N1(1) by (simp add: zenit_list_pop_back_def)
    moreover have "list_removed live h l xs (length as) \<dots>"
      by (rule rem [of N1]) (use snoc N1 hd in \<open>simp_all add: relink_prev_def relink_next_def list_same_def\<close>)
    ultimately show ?thesis by simp
  qed
qed

lemma list_remove_inside:
  assumes a: "list_at l (as @ p # bs) xs" and o: "list_owns live h l (as @ p # bs)" and d: "length d = ls_elem_size l"
    and ne: "as \<noteq> []" "bs \<noteq> []"
  shows "list_removed live h l xs (length as) (zenit_list_remove (Some l) (length as) (Some d) h)"
proof -
  obtain as' r where as: "as = as' @ [r]" using ne(1) by (cases as rule: rev_cases) auto
  obtain q bs' where bs: "bs = q # bs'" using ne(2) by (cases bs) auto
  let ?N = "ls_nodes l"
  have c: "chain ?N (as @ p # bs) xs" and cnt: "ls_count l = length (as @ p # bs)" "length (as @ p # bs) < size_mod"
    using a by (simp_all add: list_at_def)
  have dm: "dom ?N = set (as @ p # bs)" and dist: "distinct (as @ p # bs)"
    and lk: "lk_prev ?N p = Some r" "lk_next ?N p = Some q"
    and x: "xs ! length as = lk_data ?N p" "length (xs ! length as) = ls_elem_size l"
    using a as bs by (auto simp: list_at_def chain_def nth_append)
  have "p \<in> dom ?N" using dm by simp
  then obtain n where n: "node_get ?N (Some p) = Some n" "ln_prev n = Some r" "ln_next n = Some q" "ln_data n = xs ! length as"
    using lk x(1) by (elim node_get_ok) simp
  have w: "user_write d 0 (ln_data n) = Some (xs ! length as)" using n(4) x(2) d by (simp add: user_write_def blit_def)
  have "r \<in> dom ?N" using dm as by simp
  then obtain N1 where N1: "node_set ?N (Some r) (\<lambda>x. x\<lparr>ln_next := Some q\<rparr>) = Some N1" "dom N1 = dom ?N"
      "lk_prev N1 = lk_prev ?N" "lk_next N1 = (lk_next ?N)(r := Some q)" "lk_data N1 = lk_data ?N"
    by (rule set_next_ok)
  have "q \<in> dom N1" using dm bs N1(2) by simp
  then obtain N2 where N2: "node_set N1 (Some q) (\<lambda>x. x\<lparr>ln_prev := Some r\<rparr>) = Some N2" "dom N2 = dom N1"
      "lk_prev N2 = (lk_prev N1)(q := Some r)" "lk_next N2 = lk_next N1" "lk_data N2 = lk_data N1"
    by (rule set_prev_ok)
  have at: "node_at l (length as) = Some (Some p)" using node_at_ok [OF a] by simp
  have "sz_sub (ls_count l) 1 = length as + length bs" using cnt by (simp add: sz_sub_nowrap)
  then have "zenit_list_remove (Some l) (length as) (Some d) h =
      (do { (l2, h1) \<leftarrow> node_free (l\<lparr>ls_nodes := N2\<rparr>) (Some p) h;
        Some (ZENIT_OK, Some (l2\<lparr>ls_count := sz_sub (ls_count l) 1\<rparr>), Some (xs ! length as), h1) })"
    using at n w N1(1) N2(1) cnt ne by (simp add: zenit_list_remove_def)
  moreover have "list_removed live h l xs (length as) \<dots>"
    by (rule list_removed_node [OF a o, of N2])
      (use as bs N1 N2 a in \<open>simp_all add: relink_prev_def relink_next_def list_same_def list_at_def\<close>)
  ultimately show ?thesis by simp
qed

text \<open>
  Removal at every index: the element is handed out, the others keep their order and the node is
  freed; an index behind the last element is refused without a change.
\<close>

theorem list_remove_refines:
  assumes ok: "list_ok live h l xs" and d: "length d = ls_elem_size l"
  shows "if i < length xs then list_removed live h l xs i (zenit_list_remove (Some l) i (Some d) h)
    else zenit_list_remove (Some l) i (Some d) h = Some (ZENIT_ERROR_PARAM, Some l, Some d, h)"
proof -
  from ok obtain ps where a: "list_at l ps xs" and o: "list_owns live h l ps" by (auto simp: list_ok_def)
  have c: "chain (ls_nodes l) ps xs" "ls_count l = length ps" "length xs = length ps" "length ps < size_mod"
    using a by (auto simp: list_at_def chain_def)
  show ?thesis
  proof (cases "i < length xs")
    case False
    then show ?thesis using c by (simp add: zenit_list_remove_def)
  next
    case True
    then obtain as p bs where sp: "ps = as @ p # bs" "length as = i"
      using c(3) by (metis id_take_nth_drop length_take min.absorb2 less_imp_le)
    have s1: "sz_sub (ls_count l) 1 = length as + length bs" using c sp by (simp add: sz_sub_nowrap)
    consider "as = []" | "as \<noteq> []" "bs = []" | "as \<noteq> []" "bs \<noteq> []" by blast
    then show ?thesis
    proof cases
      case 1
      then show ?thesis using True sp c(2) list_pop_front_ok [of l p bs xs live h d] a o d
        by (simp add: zenit_list_remove_def)
    next
      case 2
      then show ?thesis using True sp c(2) s1 list_pop_back_ok [of l as p xs live h d] a o d
        by (auto simp: zenit_list_remove_def)
    next
      case 3
      then show ?thesis using True sp list_remove_inside [of l as p bs xs live h d] a o d by simp
    qed
  qed
qed


section \<open>Reading and visiting\<close>

text \<open>An element is found by its index, and can be replaced there.\<close>

lemma list_get_ok:
  assumes "list_ok live h l xs"
  shows "\<exists>p. zenit_list_get (Some l) i = Some p \<and> (p = None \<longleftrightarrow> length xs \<le> i) \<and>
    (i < length xs \<longrightarrow> map_option ln_data (node_get (ls_nodes l) p) = Some (xs ! i))"
proof -
  from assms obtain ps where a: "list_at l ps xs" by (auto simp: list_ok_def)
  have c: "length xs = length ps" "dom (ls_nodes l) = set ps" "xs = map (lk_data (ls_nodes l)) ps"
    using a by (auto simp: list_at_def chain_def)
  have "map_option ln_data (node_get (ls_nodes l) (Some (ps ! i))) = Some (xs ! i)" if "i < length ps"
  proof -
    have "ps ! i \<in> dom (ls_nodes l)" using c(2) that by simp
    then show ?thesis using c(3) that by (elim node_get_ok) simp
  qed
  then show ?thesis using node_at_ok [OF a, of i] c(1) by (auto simp: zenit_list_get_def)
qed

lemma list_set_ok:
  assumes ok: "list_ok live h l xs" and e: "length e = ls_elem_size l"
  shows "if i < length xs then \<exists>l'. zenit_list_set (Some l) i (Some e) = Some (ZENIT_OK, Some l') \<and> list_same l l' \<and>
      list_ok live h l' (xs[i := e])
    else zenit_list_set (Some l) i (Some e) = Some (ZENIT_ERROR_PARAM, Some l)"
proof -
  from ok obtain ps where a: "list_at l ps xs" and o: "list_owns live h l ps" by (auto simp: list_ok_def)
  have c: "length xs = length ps" "dom (ls_nodes l) = set ps" "xs = map (lk_data (ls_nodes l)) ps" "distinct ps"
      "seg (lk_prev (ls_nodes l)) (lk_next (ls_nodes l)) None ps None"
    using a by (auto simp: list_at_def chain_def)
  show ?thesis
  proof (cases "i < length xs")
    case False
    then show ?thesis using node_at_ok [OF a, of i] c(1) by (simp add: zenit_list_set_def)
  next
    case True
    then have "ps ! i \<in> dom (ls_nodes l)" using c by simp
    then obtain n where n: "ls_nodes l (ps ! i) = Some n" by auto
    define N1 where "N1 = (ls_nodes l)(ps ! i \<mapsto> n\<lparr>ln_data := e\<rparr>)"
    have v: "lk_prev N1 = lk_prev (ls_nodes l)" "lk_next N1 = lk_next (ls_nodes l)" "dom N1 = set ps"
      "lk_data N1 = (lk_data (ls_nodes l))(ps ! i := e)"
      using n c(2) by (auto simp: N1_def lk_defs fun_eq_iff)
    have "map (lk_data N1) ps = xs[i := e]"
      using True c(1,3,4) by (intro nth_equalityI) (auto simp: v(4) nth_list_update nth_eq_iff_index_eq)
    then have "chain N1 ps (xs[i := e])" using c v by (simp add: chain_def)
    then have "list_at (l\<lparr>ls_nodes := N1\<rparr>) ps (xs[i := e])"
      using a e by (auto simp: list_at_def dest!: set_update_subset_insert [THEN subsetD])
    then have "list_ok live h (l\<lparr>ls_nodes := N1\<rparr>) (xs[i := e])" using o by (auto simp: list_ok_def list_owns_def)
    moreover have "zenit_list_set (Some l) i (Some e) = Some (ZENIT_OK, Some (l\<lparr>ls_nodes := N1\<rparr>))"
      using True node_at_ok [OF a, of i] c(1) n e by (simp add: zenit_list_set_def node_set_def user_read_def N1_def)
    ultimately show ?thesis using True by (auto simp: list_same_def)
  qed
qed

lemma visit_next_ok:
  assumes "seg (lk_prev N) (lk_next N) a ps None" and "set ps \<subseteq> dom N"
  shows "visit_loop ln_next N f (first_of ps None) ctx = Some (fold f (map (lk_data N) ps) ctx)"
  using assms
proof (induction ps arbitrary: a ctx)
  case Nil
  then show ?case by (simp add: visit_loop.simps)
next
  case (Cons p ps)
  have "visit_loop ln_next N f (first_of ps None) c = Some (fold f (map (lk_data N) ps) c)" for c
    using Cons.IH [of "Some p"] Cons.prems by simp
  moreover have "p \<in> dom N" using Cons.prems by simp
  ultimately show ?case using Cons.prems(1) by (elim node_get_ok) (subst visit_loop.simps, simp)
qed

lemma visit_prev_ok:
  assumes "seg (lk_prev N) (lk_next N) None ps b" and "set ps \<subseteq> dom N"
  shows "visit_loop ln_prev N f (last_of None ps) ctx = Some (fold f (rev (map (lk_data N) ps)) ctx)"
  using assms
proof (induction ps arbitrary: b ctx rule: rev_induct)
  case Nil
  then show ?case by (simp add: visit_loop.simps)
next
  case (snoc p ps)
  have "visit_loop ln_prev N f (last_of None ps) c = Some (fold f (rev (map (lk_data N) ps)) c)" for c
    using snoc.IH [of "Some p"] snoc.prems by simp
  moreover have "p \<in> dom N" using snoc.prems by simp
  ultimately show ?case using snoc.prems(1) by (elim node_get_ok) (subst visit_loop.simps, simp)
qed

text \<open>
  Visiting goes through all elements in order, forwards and backwards, and ends.
\<close>

theorem list_foreach_folds:
  assumes "list_ok live h l xs"
  shows "zenit_list_foreach (Some l) (Some f) ctx = Some (fold f xs ctx) \<and>
    zenit_list_reverse_foreach (Some l) (Some f) ctx = Some (fold f (rev xs) ctx)"
proof -
  from assms obtain ps where a: "list_at l ps xs" by (auto simp: list_ok_def)
  then have s: "seg (lk_prev (ls_nodes l)) (lk_next (ls_nodes l)) None ps None" "set ps \<subseteq> dom (ls_nodes l)"
      "ls_head l = first_of ps None" "ls_tail l = last_of None ps" "xs = map (lk_data (ls_nodes l)) ps"
    by (auto simp: list_at_def chain_def)
  show ?thesis using visit_next_ok [OF s(1,2), of f ctx] visit_prev_ok [OF s(1,2), of f ctx]
    by (simp add: zenit_list_foreach_def zenit_list_reverse_foreach_def s(3-5))
qed

section \<open>Releasing the nodes\<close>

lemma free_nodes_ok:
  assumes "seg (lk_prev (ls_nodes l)) (lk_next (ls_nodes l)) a ps None" and "dom (ls_nodes l) = set ps" and "distinct ps"
    and "list_owns live h l ps"
  shows "\<exists>h'. free_nodes l (first_of ps None) h = Some (l\<lparr>ls_nodes := Map.empty\<rparr>, h') \<and> live h' = live h - set ps"
  using assms
proof (induction ps arbitrary: l a h)
  case Nil
  then show ?case by (simp add: free_nodes.simps)
next
  case (Cons p ps)
  obtain n where n: "node_get (ls_nodes l) (Some p) = Some n" "ln_next n = first_of ps None"
    using Cons.prems(1,2) node_get_ok [of p "ls_nodes l"] by auto
  obtain h1 where h1: "node_free l (Some p) h = Some (l\<lparr>ls_nodes := (ls_nodes l)(p := None)\<rparr>, h1)"
      "list_owns live h1 l ([] @ ps)" "live h1 = live h - {p}"
    by (rule node_free_ok [of live h l "[]" p ps]) (use Cons.prems in simp_all)
  define l1 where "l1 = l\<lparr>ls_nodes := (ls_nodes l)(p := None)\<rparr>"
  have "seg (lk_prev (ls_nodes l1)) (lk_next (ls_nodes l1)) (Some p) ps None =
      seg (lk_prev (ls_nodes l)) (lk_next (ls_nodes l)) (Some p) ps None"
    using Cons.prems(3) by (intro seg_cong) (auto simp: l1_def lk_defs)
  then have s: "seg (lk_prev (ls_nodes l1)) (lk_next (ls_nodes l1)) (Some p) ps None" using Cons.prems(1) by simp
  have d: "dom (ls_nodes l1) = set ps" using Cons.prems(2,3) by (simp add: l1_def)
  have o: "list_owns live h1 l1 ps" using h1(2) by (simp add: l1_def list_owns_def)
  obtain h2 where "free_nodes l1 (first_of ps None) h1 = Some (l1\<lparr>ls_nodes := Map.empty\<rparr>, h2)" "live h2 = live h1 - set ps"
    using Cons.IH [OF s d _ o] Cons.prems(3) by auto
  then show ?case using n h1(1,3) by (subst free_nodes.simps) (auto simp: l1_def)
qed

lemma list_free_all:
  assumes "list_ok live h l xs"
  obtains ps h' where "list_at l ps xs" and "free_nodes l (ls_head l) h = Some (l\<lparr>ls_nodes := Map.empty\<rparr>, h')"
    and "live h' = live h - set ps" and "list_owns live h' l []" and "ls_self l \<notin> set ps" and "set ps \<subseteq> live h"
proof -
  from assms obtain ps where a: "list_at l ps xs" and o: "list_owns live h l ps" by (auto simp: list_ok_def)
  then obtain h' where h': "free_nodes l (first_of ps None) h = Some (l\<lparr>ls_nodes := Map.empty\<rparr>, h')" "live h' = live h - set ps"
    using free_nodes_ok [of l None ps live h] by (auto simp: list_at_def chain_def)
  show thesis by (rule that [OF a _ h'(2)]) (use a o h' in \<open>auto simp: list_at_def list_owns_def\<close>)
qed

text \<open>Clearing frees every node and leaves an empty list; destroying gives back the handle as well.\<close>

theorem list_clear_destroy_release:
  assumes ok: "list_ok live h l xs"
  shows "(\<exists>l' h'. zenit_list_clear (Some l) h = Some (Some l', h') \<and> list_ok live h' l' [] \<and> list_same l l' \<and>
      live h' = live h - dom (ls_nodes l)) \<and>
    (\<exists>h'. zenit_list_destroy (Some l) h = Some h' \<and> live h' = live h - insert (ls_self l) (dom (ls_nodes l)))"
proof -
  obtain ps h' where a: "list_at l ps xs" and f: "free_nodes l (ls_head l) h = Some (l\<lparr>ls_nodes := Map.empty\<rparr>, h')"
      "live h' = live h - set ps" "list_owns live h' l []"
    by (rule list_free_all [OF ok])
  have dm: "dom (ls_nodes l) = set ps" using a by (simp add: list_at_def chain_def)
  define l' where "l' = l\<lparr>ls_nodes := Map.empty, ls_head := None, ls_tail := None, ls_count := 0\<rparr>"
  have "list_at l' [] []" using a by (auto simp: list_at_def chain_def l'_def)
  then have "list_ok live h' l' []" using f(3) unfolding list_ok_def by (intro exI [of _ "[]"]) (simp add: list_owns_def l'_def)
  moreover have "zenit_list_clear (Some l) h = Some (Some l', h')" using f(1) by (simp add: zenit_list_clear_def l'_def)
  moreover have "list_same l l'" by (simp add: l'_def list_same_def)
  moreover obtain h'' where "free_fn (ls_allocator l) (Some (ls_self l)) h' = Some h''" "live h'' = live h' - {ls_self l}"
    using allocator_contract.free_addr [of "ls_allocator l" live "ls_self l" h'] f(3) by (auto simp: list_owns_def)
  ultimately show ?thesis using f(1,2) dm by (auto simp: zenit_list_destroy_def)
qed

lemma list_create_ok:
  assumes c: "allocator_contract a live" and es: "0 < es" "sizeof_list_node + es < size_mod"
    and r: "zenit_list_create_with_allocator es a h = (Some l, h')"
  shows "list_ok live h' l [] \<and> live h' = insert (ls_self l) (live h) \<and> ls_self l \<notin> live h \<and> ls_elem_size l = es"
proof (cases rule: allocator_contract.alloc_cases [OF c, of sizeof_list h, case_names null block])
  case (null h1)
  then show ?thesis using r es by (simp add: zenit_list_create_with_allocator_def)
next
  case (block b h1)
  then have l: "l = \<lparr>ls_self = maddr b, ls_head = None, ls_tail = None, ls_elem_size = es, ls_count = 0, ls_allocator = a,
      ls_nodes = Map.empty\<rparr>" "h' = h1"
    using r es by (auto simp: zenit_list_create_with_allocator_def)
  have "list_at l [] []" using es by (simp add: l list_at_def chain_def)
  moreover have "list_owns live h' l []" using c block by (simp add: l list_owns_def)
  ultimately show ?thesis using block l by (auto simp: list_ok_def)
qed


section \<open>The list as a queue and as a stack\<close>

definition ls_elems :: "'h zenit_list_t \<Rightarrow> byte list list" where
  "ls_elems l = the (zenit_list_foreach (Some l) (Some (\<lambda>x acc. acc @ [x])) [])"

definition list_state :: "('h \<Rightarrow> nat set) \<Rightarrow> 'h zenit_list_t \<times> 'h \<Rightarrow> bool" where
  "list_state live st \<longleftrightarrow> (\<exists>xs. list_ok live (snd st) (fst st) xs)"

definition list_fits :: "'h zenit_list_t \<times> 'h \<Rightarrow> byte list \<Rightarrow> bool" where
  "list_fits st e \<longleftrightarrow> length e = ls_elem_size (fst st) \<and> ls_count (fst st) + 1 < size_mod"

definition list_push_op :: "'h zenit_list_t \<times> 'h \<Rightarrow> byte list \<Rightarrow> (zenit_result_t \<times> 'h zenit_list_t \<times> 'h) option" where
  "list_push_op st e = map_option (\<lambda>(r, l, h). (r, the l, h)) (zenit_list_push_back (Some (fst st)) (Some e) (snd st))"

definition list_pop_op ::
    "('h zenit_list_t option \<Rightarrow> byte list option \<Rightarrow> 'h \<Rightarrow> (zenit_result_t \<times> 'h zenit_list_t option \<times> byte list option \<times> 'h) option) \<Rightarrow>
     'h zenit_list_t \<times> 'h \<Rightarrow> (zenit_result_t \<times> ('h zenit_list_t \<times> 'h) \<times> byte list) option" where
  "list_pop_op pop st = map_option (\<lambda>(r, l, d, h). (r, (the l, h), the d))
     (pop (Some (fst st)) (Some (replicate (ls_elem_size (fst st)) 0)) (snd st))"

lemma fold_snoc: "fold (\<lambda>x acc. acc @ [x]) xs ys = ys @ xs"
  by (induction xs arbitrary: ys) simp_all

lemma ls_elems_ok:
  assumes "list_ok live h l xs"
  shows "ls_elems l = xs" and "ls_count l = length xs"
proof -
  obtain ps where a: "list_at l ps xs" using assms by (auto simp: list_ok_def)
  then have "zenit_list_foreach (Some l) (Some (\<lambda>x acc. acc @ [x])) [] = Some (fold (\<lambda>x acc. acc @ [x]) xs [])"
    using visit_next_ok [of "ls_nodes l" None ps "\<lambda>x acc. acc @ [x]" "[]"]
    by (auto simp: list_at_def chain_def zenit_list_foreach_def)
  then show "ls_elems l = xs" by (simp add: ls_elems_def fold_snoc)
  show "ls_count l = length xs" using a by (auto simp: list_at_def chain_def)
qed

lemma list_push_op_law:
  assumes "list_state live st" and "list_fits st e"
  shows "\<exists>r s'. list_push_op st e = Some (r, s') \<and> list_state live s' \<and>
    (r = ZENIT_OK \<and> ls_elems (fst s') = ls_elems (fst st) @ [e] \<or> r = ZENIT_ERROR_ALLOC \<and> ls_elems (fst s') = ls_elems (fst st))"
proof -
  obtain l h where st: "st = (l, h)" by (cases st)
  then obtain xs where ok: "list_ok live h l xs" using assms(1) by (auto simp: list_state_def)
  then obtain ps where a: "list_at l ps xs" and o: "list_owns live h l ps" by (auto simp: list_ok_def)
  have n: "length ps = length xs" using a by (auto simp: list_at_def chain_def)
  have "list_added live h l xs (length xs) e (zenit_list_push_back (Some l) (Some e) h)"
    using list_push_back_ok [OF a o] assms(2) ls_elems_ok(2) [OF ok] n by (simp add: list_fits_def st)
  then obtain r l' h' where r: "zenit_list_push_back (Some l) (Some e) h = Some (r, Some l', h')"
      "r = ZENIT_ERROR_ALLOC \<and> list_ok live h' l' xs \<or> r = ZENIT_OK \<and> list_ok live h' l' (xs @ [e])"
    by (auto simp: list_added_def)
  then show ?thesis using ls_elems_ok(1) [OF ok]
    by (auto simp: list_push_op_def st list_state_def ls_elems_ok(1) [of live h' l'])
qed

lemma list_pop_front_law:
  assumes ok: "list_ok live h l xs" and ne: "xs \<noteq> []" and d: "length d = ls_elem_size l"
  shows "\<exists>l' h'. zenit_list_pop_front (Some l) (Some d) h = Some (ZENIT_OK, Some l', Some (hd xs), h') \<and>
    list_ok live h' l' (tl xs)"
proof -
  from ok obtain ps where a: "list_at l ps xs" and o: "list_owns live h l ps" by (auto simp: list_ok_def)
  then obtain p bs where "ps = p # bs" using ne by (cases ps) (auto simp: list_at_def chain_def)
  then have "list_removed live h l xs 0 (zenit_list_pop_front (Some l) (Some d) h)" using a o d by (simp add: list_pop_front_ok)
  then show ?thesis using ne by (auto simp: list_removed_def hd_conv_nth drop_Suc)
qed

lemma list_pop_back_law:
  assumes ok: "list_ok live h l xs" and ne: "xs \<noteq> []" and d: "length d = ls_elem_size l"
  shows "\<exists>l' h'. zenit_list_pop_back (Some l) (Some d) h = Some (ZENIT_OK, Some l', Some (last xs), h') \<and>
    list_ok live h' l' (butlast xs)"
proof -
  from ok obtain ps where a: "list_at l ps xs" and o: "list_owns live h l ps" by (auto simp: list_ok_def)
  then obtain as p where ps: "ps = as @ [p]" using ne by (cases ps rule: rev_cases) (auto simp: list_at_def chain_def)
  then have "list_removed live h l xs (length as) (zenit_list_pop_back (Some l) (Some d) h)" using a o d by (simp add: list_pop_back_ok)
  moreover have "length xs = Suc (length as)" using a ps by (auto simp: list_at_def chain_def)
  ultimately show ?thesis using ne by (auto simp: list_removed_def last_conv_nth butlast_conv_take)
qed

lemma list_pop_empty:
  assumes "list_ok live h l []"
  shows "zenit_list_pop_front (Some l) (Some d) h = Some (ZENIT_ERROR_EMPTY, Some l, Some d, h)"
    and "zenit_list_pop_back (Some l) (Some d) h = Some (ZENIT_ERROR_EMPTY, Some l, Some d, h)"
  using ls_elems_ok(2) [OF assms] by (simp_all add: zenit_list_pop_front_def zenit_list_pop_back_def)

interpretation list_queue: fifo_store "list_state live" "\<lambda>st. ls_elems (fst st)" list_fits list_push_op
    "list_pop_op zenit_list_pop_front"
  for live :: "'h \<Rightarrow> nat set"
proof
  fix st :: "'h zenit_list_t \<times> 'h" and e
  assume "list_state live st" and "list_fits st e"
  then show "\<exists>r s'. list_push_op st e = Some (r, s') \<and> list_state live s' \<and>
    (r = ZENIT_OK \<and> ls_elems (fst s') = ls_elems (fst st) @ [e] \<or> r = ZENIT_ERROR_ALLOC \<and> ls_elems (fst s') = ls_elems (fst st))"
    by (rule list_push_op_law)
next
  fix st :: "'h zenit_list_t \<times> 'h"
  assume ok: "list_state live st" and ne: "ls_elems (fst st) \<noteq> []"
  obtain l h where st: "st = (l, h)" by (cases st)
  then obtain xs where xs: "list_ok live h l xs" using ok by (auto simp: list_state_def)
  then obtain l' h' where p: "zenit_list_pop_front (Some l) (Some (replicate (ls_elem_size l) 0)) h = Some (ZENIT_OK, Some l', Some (hd xs), h')"
      "list_ok live h' l' (tl xs)"
    using list_pop_front_law [OF xs, of "replicate (ls_elem_size l) 0"] ne ls_elems_ok(1) [OF xs] st by auto
  then show "\<exists>s'. list_pop_op zenit_list_pop_front st = Some (ZENIT_OK, s', hd (ls_elems (fst st))) \<and> list_state live s' \<and>
      ls_elems (fst s') = tl (ls_elems (fst st))"
    using ls_elems_ok(1) [OF xs] ls_elems_ok(1) [OF p(2)] st by (auto simp: list_pop_op_def list_state_def)
next
  fix st :: "'h zenit_list_t \<times> 'h"
  assume ok: "list_state live st" and e: "ls_elems (fst st) = []"
  obtain l h where st: "st = (l, h)" by (cases st)
  then obtain xs where xs: "list_ok live h l xs" using ok by (auto simp: list_state_def)
  then have "list_ok live h l []" using e ls_elems_ok(1) [OF xs] st by simp
  from list_pop_empty(1) [OF this] show "\<exists>x. list_pop_op zenit_list_pop_front st = Some (ZENIT_ERROR_EMPTY, st, x)"
    using st by (simp add: list_pop_op_def)
qed

interpretation list_stack: lifo_store "list_state live" "\<lambda>st. ls_elems (fst st)" list_fits list_push_op
    "list_pop_op zenit_list_pop_back"
  for live :: "'h \<Rightarrow> nat set"
proof
  fix st :: "'h zenit_list_t \<times> 'h"
  assume ok: "list_state live st" and ne: "ls_elems (fst st) \<noteq> []"
  obtain l h where st: "st = (l, h)" by (cases st)
  then obtain xs where xs: "list_ok live h l xs" using ok by (auto simp: list_state_def)
  then obtain l' h' where p: "zenit_list_pop_back (Some l) (Some (replicate (ls_elem_size l) 0)) h = Some (ZENIT_OK, Some l', Some (last xs), h')"
      "list_ok live h' l' (butlast xs)"
    using list_pop_back_law [OF xs, of "replicate (ls_elem_size l) 0"] ne ls_elems_ok(1) [OF xs] st by auto
  then show "\<exists>s'. list_pop_op zenit_list_pop_back st = Some (ZENIT_OK, s', last (ls_elems (fst st))) \<and> list_state live s' \<and>
      ls_elems (fst s') = butlast (ls_elems (fst st))"
    using ls_elems_ok(1) [OF xs] ls_elems_ok(1) [OF p(2)] st by (auto simp: list_pop_op_def list_state_def)
next
  fix st :: "'h zenit_list_t \<times> 'h"
  assume ok: "list_state live st" and e: "ls_elems (fst st) = []"
  obtain l h where st: "st = (l, h)" by (cases st)
  then obtain xs where xs: "list_ok live h l xs" using ok by (auto simp: list_state_def)
  then have "list_ok live h l []" using e ls_elems_ok(1) [OF xs] st by simp
  from list_pop_empty(2) [OF this] show "\<exists>x. list_pop_op zenit_list_pop_back st = Some (ZENIT_ERROR_EMPTY, st, x)"
    using st by (simp add: list_pop_op_def)
qed

text \<open>
  Over any run of successful pushes at the back, the list is first-in first-out for pops at the
  front and last-in first-out for pops at the back.
\<close>

theorem list_both_ends:
  assumes "list_state live st" and "run_pushes list_fits list_push_op st es = Some st'"
  shows "(\<exists>t. run_pops (list_pop_op zenit_list_pop_front) (length (ls_elems (fst st))) st' = Some (ls_elems (fst st), t) \<and>
      list_state live t \<and> ls_elems (fst t) = es) \<and>
    (\<exists>t. run_pops (list_pop_op zenit_list_pop_back) (length es) st' = Some (rev es, t) \<and>
      list_state live t \<and> ls_elems (fst t) = ls_elems (fst st))"
  using list_queue.fifo [OF assms] list_stack.lifo [OF assms] by (rule conjI)

section \<open>Witnesses\<close>

text \<open>A list of two elements of two bytes, in the nodes 5 and 9.\<close>

definition demo_list :: "c_heap zenit_list_t" where
  "demo_list = \<lparr>ls_self = 1, ls_head = Some 5, ls_tail = Some 9, ls_elem_size = 2, ls_count = 2,
    ls_allocator = ZENIT_ALLOCATOR_DEFAULT,
    ls_nodes = [5 \<mapsto> \<lparr>ln_prev = None, ln_next = Some 9, ln_data = [1, 2]\<rparr>,
                9 \<mapsto> \<lparr>ln_prev = Some 5, ln_next = None, ln_data = [3, 4]\<rparr>]\<rparr>"

definition demo_list_heap :: c_heap where
  "demo_list_heap = \<lparr>heap_live = [1, 5, 9], heap_script = [], heap_junk = 0\<rparr>"

lemma demo_list_ok: "list_ok heap_addrs demo_list_heap demo_list [[1, 2], [3, 4]]"
proof -
  have "list_at demo_list [5, 9] [[1, 2], [3, 4]]"
    by (auto simp: list_at_def chain_def demo_list_def lk_defs sizeof_list_node_def size_mod_def last_of_def split: if_splits)
  moreover have "list_owns heap_addrs demo_list_heap demo_list [5, 9]"
    using default_contract by (simp add: list_owns_def demo_list_def demo_list_heap_def heap_addrs_def)
  ultimately show ?thesis by (auto simp: list_ok_def)
qed

lemma demo_list_size: "ls_elem_size demo_list = 2"
  by (simp add: demo_list_def)

theorem list_insert_refines_witness:
  "list_added heap_addrs demo_list_heap demo_list [[1, 2], [3, 4]] 1 [7, 8]
     (zenit_list_insert (Some demo_list) 1 (Some [7, 8]) demo_list_heap) \<and>
   zenit_list_insert (Some demo_list) 3 (Some [7, 8]) demo_list_heap = Some (ZENIT_ERROR_PARAM, Some demo_list, demo_list_heap)"
  using list_insert_refines [OF demo_list_ok, of "[7, 8]" 1] list_insert_refines [OF demo_list_ok, of "[7, 8]" 3]
  by (simp add: demo_list_size size_mod_def)

theorem list_remove_refines_witness:
  "\<exists>l' h'. zenit_list_remove (Some demo_list) 0 (Some [0, 0]) demo_list_heap = Some (ZENIT_OK, Some l', Some [1, 2], h') \<and>
    list_ok heap_addrs h' l' [[3, 4]]"
  using list_remove_refines [OF demo_list_ok, of "[0, 0]" 0]
  by (auto simp: demo_list_size list_removed_def)

theorem list_foreach_folds_witness:
  "zenit_list_reverse_foreach (Some demo_list) (Some (\<lambda>x acc. acc @ [x])) [] = Some [[3, 4], [1, 2]]"
  using list_foreach_folds [OF demo_list_ok, of "\<lambda>x acc. acc @ [x]" "[]"] by simp

theorem list_clear_destroy_release_witness:
  "\<exists>h'. zenit_list_destroy (Some demo_list) demo_list_heap = Some h' \<and> heap_addrs h' = {}"
  using list_clear_destroy_release [OF demo_list_ok]
  by (auto simp: demo_list_def demo_list_heap_def heap_addrs_def)

theorem list_both_ends_witness:
  "\<exists>st' t. run_pushes list_fits list_push_op (demo_list, demo_list_heap) [[7, 8]] = Some st' \<and>
    run_pops (list_pop_op zenit_list_pop_front) 2 st' = Some ([[1, 2], [3, 4]], t) \<and> ls_elems (fst t) = [[7, 8]]"
proof -
  have ok: "list_state heap_addrs (demo_list, demo_list_heap)" using demo_list_ok by (auto simp: list_state_def)
  have "\<not> Option.is_none (run_pushes list_fits list_push_op (demo_list, demo_list_heap) [[7, 8]])" by code_simp
  then obtain st' where st': "run_pushes list_fits list_push_op (demo_list, demo_list_heap) [[7, 8]] = Some st'"
    by (auto simp: Option.is_none_def)
  show ?thesis using list_both_ends [OF ok st'] st' ls_elems_ok(1) [OF demo_list_ok] by (auto simp: numeral_2_eq_2)
qed

end
