(* ===== verification/Zenit_Lru.thy ===== *)
theory Zenit_Lru
  imports Zenit_Links Zenit_Hash Zenit_Pool
begin

unbundle bit_operations_syntax

text \<open>
  The LRU cache (\<open>include/libzenit/lru.h\<close>, \<open>src/lru.c\<close>): nodes are indices into parallel arrays; the
  live nodes form a doubly linked list in order of use, the others a free list through the same
  \<open>next\<close> array; an open-addressing table finds the node of a key. An array of \<open>size_t\<close> is its address
  and its entries (\<open>sz_ptr\<close>). The eviction callback is a function on the caller's context \<open>'c\<close>, which
  the operations that may call it take and return.
\<close>

section \<open>Arrays of sizes\<close>

type_synonym sz_ptr = "(nat \<times> nat list) option"

definition sa_get :: "sz_ptr \<Rightarrow> nat \<Rightarrow> nat option" where
  "sa_get p i = (case p of None \<Rightarrow> None | Some (a, xs) \<Rightarrow> if i < length xs then Some (xs ! i) else None)"

definition sa_put :: "sz_ptr \<Rightarrow> nat \<Rightarrow> nat \<Rightarrow> sz_ptr option" where
  "sa_put p i v = (case p of None \<Rightarrow> None | Some (a, xs) \<Rightarrow> if i < length xs then Some (Some (a, xs[i := v])) else None)"

definition sa_view :: "ptr \<Rightarrow> sz_ptr" where
  "sa_view p = map_option (\<lambda>b. (maddr b, size_array b)) p"

definition sa_addr :: "sz_ptr \<Rightarrow> nat option" where
  "sa_addr p = map_option fst p"

section \<open>State and operations\<close>

definition LRU_NONE :: nat where
  "LRU_NONE = 18446744073709551615"

definition HASH_EMPTY :: nat where
  "HASH_EMPTY = LRU_NONE"

record ('h, 'c) zenit_lru_t =
  lr_self :: nat
  lr_key_size :: nat
  lr_value_size :: nat
  lr_capacity :: nat
  lr_count :: nat
  lr_keys :: ptr
  lr_values :: ptr
  lr_prev :: sz_ptr
  lr_next :: sz_ptr
  lr_hash_index :: sz_ptr
  lr_head :: nat
  lr_tail :: nat
  lr_free_head :: nat
  lr_hash_table :: sz_ptr
  lr_hash_capacity :: nat
  lr_evict_fn :: "(byte list \<Rightarrow> byte list \<Rightarrow> 'c \<Rightarrow> 'c) option"
  lr_allocator :: "'h zenit_allocator_t"

definition sizeof_lru :: nat where
  "sizeof_lru = 160"

definition freelist_pop :: "('h, 'c) zenit_lru_t \<Rightarrow> (nat \<times> ('h, 'c) zenit_lru_t) option" where
  "freelist_pop c = do {
     n \<leftarrow> sa_get (lr_next c) (lr_free_head c);
     Some (lr_free_head c, c\<lparr>lr_free_head := n\<rparr>)
   }"

definition freelist_push :: "('h, 'c) zenit_lru_t \<Rightarrow> nat \<Rightarrow> ('h, 'c) zenit_lru_t option" where
  "freelist_push c node = do {
     q \<leftarrow> sa_put (lr_next c) node (lr_free_head c);
     Some (c\<lparr>lr_next := q, lr_free_head := node\<rparr>)
   }"

definition lru_unlink :: "('h, 'c) zenit_lru_t \<Rightarrow> nat \<Rightarrow> ('h, 'c) zenit_lru_t option" where
  "lru_unlink c node = do {
     p \<leftarrow> sa_get (lr_prev c) node;
     n \<leftarrow> sa_get (lr_next c) node;
     (next, head) \<leftarrow> (if p \<noteq> LRU_NONE then do { q \<leftarrow> sa_put (lr_next c) p n; Some (q, lr_head c) }
                     else Some (lr_next c, n));
     (prev, tail) \<leftarrow> (if n \<noteq> LRU_NONE then do { q \<leftarrow> sa_put (lr_prev c) n p; Some (q, lr_tail c) }
                     else Some (lr_prev c, p));
     prev' \<leftarrow> sa_put prev node LRU_NONE;
     next' \<leftarrow> sa_put next node LRU_NONE;
     Some (c\<lparr>lr_prev := prev', lr_next := next', lr_head := head, lr_tail := tail\<rparr>)
   }"

definition lru_push_front :: "('h, 'c) zenit_lru_t \<Rightarrow> nat \<Rightarrow> ('h, 'c) zenit_lru_t option" where
  "lru_push_front c node = do {
     prev \<leftarrow> sa_put (lr_prev c) node LRU_NONE;
     next \<leftarrow> sa_put (lr_next c) node (lr_head c);
     (prev', tail) \<leftarrow> (if lr_head c \<noteq> LRU_NONE then do { q \<leftarrow> sa_put prev (lr_head c) node; Some (q, lr_tail c) }
                      else Some (prev, node));
     Some (c\<lparr>lr_prev := prev', lr_next := next, lr_head := node, lr_tail := tail\<rparr>)
   }"

definition lru_move_to_front :: "('h, 'c) zenit_lru_t \<Rightarrow> nat \<Rightarrow> ('h, 'c) zenit_lru_t option" where
  "lru_move_to_front c node =
    (if lr_head c = node then Some c
     else do { c1 \<leftarrow> lru_unlink c node; lru_push_front c1 node })"

text \<open>Setting every slot of the table to EMPTY.\<close>

function hash_reset :: "nat \<Rightarrow> nat \<Rightarrow> sz_ptr \<Rightarrow> sz_ptr option" where
  "hash_reset i n t = (if i < n then do { t' \<leftarrow> sa_put t i HASH_EMPTY; hash_reset (i + 1) n t' } else Some t)"
  by pat_completeness auto
termination by (relation "measure (\<lambda>(i, n, t). n - i)") auto

declare hash_reset.simps [simp del]

text \<open>Linear probing for an empty slot, and storing a node there.\<close>

partial_function (option) hash_free_slot :: "sz_ptr \<Rightarrow> nat \<Rightarrow> nat \<Rightarrow> nat option" where
  "hash_free_slot t msk idx = do {
     s \<leftarrow> sa_get t idx;
     if s \<noteq> HASH_EMPTY then hash_free_slot t msk (sz_add idx 1 AND msk) else Some idx
   }"

declare hash_free_slot.simps [code]

definition hash_store :: "('h, 'c) zenit_lru_t \<Rightarrow> byte list \<Rightarrow> nat \<Rightarrow> ('h, 'c) zenit_lru_t option" where
  "hash_store c key n = do {
     let msk = sz_sub (lr_hash_capacity c) 1;
     idx \<leftarrow> hash_free_slot (lr_hash_table c) msk (hash_fnv1a key AND msk);
     t \<leftarrow> sa_put (lr_hash_table c) idx n;
     q \<leftarrow> sa_put (lr_hash_index c) n idx;
     Some (c\<lparr>lr_hash_table := t, lr_hash_index := q\<rparr>)
   }"

partial_function (option) hash_rebuild_loop :: "('h, 'c) zenit_lru_t \<Rightarrow> nat \<Rightarrow> ('h, 'c) zenit_lru_t option" where
  "hash_rebuild_loop c n =
    (if n \<noteq> LRU_NONE then do {
       key \<leftarrow> mem_read (lr_keys c) (sz_mul n (lr_key_size c)) (lr_key_size c);
       c' \<leftarrow> hash_store c key n;
       n' \<leftarrow> sa_get (lr_next c') n;
       hash_rebuild_loop c' n'
     } else Some c)"

declare hash_rebuild_loop.simps [code]

definition hash_rebuild :: "('h, 'c) zenit_lru_t \<Rightarrow> ('h, 'c) zenit_lru_t option" where
  "hash_rebuild c = do {
     t \<leftarrow> hash_reset 0 (lr_hash_capacity c) (lr_hash_table c);
     hash_rebuild_loop (c\<lparr>lr_hash_table := t\<rparr>) (lr_head c)
   }"

function hash_find_loop :: "('h, 'c) zenit_lru_t \<Rightarrow> byte list \<Rightarrow> nat \<Rightarrow> nat \<Rightarrow> nat \<Rightarrow> (bool \<times> nat) option" where
  "hash_find_loop c key msk i idx =
    (if i < lr_hash_capacity c then do {
       s \<leftarrow> sa_get (lr_hash_table c) idx;
       if s = HASH_EMPTY then Some (False, idx)
       else do {
         stored \<leftarrow> mem_read (lr_keys c) (sz_mul s (lr_key_size c)) (lr_key_size c);
         if stored = key then Some (True, idx)
         else hash_find_loop c key msk (i + 1) (sz_add idx 1 AND msk)
       }
     } else Some (False, size_mod - 1))"
  by pat_completeness auto
termination by (relation "measure (\<lambda>(c, key, msk, i, idx). lr_hash_capacity c - i)") auto

declare hash_find_loop.simps [simp del]

definition hash_find_slot :: "('h, 'c) zenit_lru_t \<Rightarrow> byte list \<Rightarrow> (bool \<times> nat) option" where
  "hash_find_slot c key = do {
     k \<leftarrow> user_read key (lr_key_size c);
     let msk = sz_sub (lr_hash_capacity c) 1;
     hash_find_loop c k msk 0 (hash_fnv1a k AND msk)
   }"

definition alloc_array :: "'h zenit_allocator_t \<Rightarrow> nat \<Rightarrow> nat \<Rightarrow> 'h \<Rightarrow> (ptr \<times> 'h) option" where
  "alloc_array a nmemb elem_size h =
    (if nmemb = 0 \<or> elem_size = 0 then Some (None, h) else zenit_allocator_alloc_zero a nmemb elem_size h)"

definition lru_free_internals :: "('h, 'c) zenit_lru_t \<Rightarrow> 'h \<Rightarrow> 'h option" where
  "lru_free_internals c h = do {
     h1 \<leftarrow> free_fn (lr_allocator c) (paddr (lr_keys c)) h;
     h2 \<leftarrow> free_fn (lr_allocator c) (paddr (lr_values c)) h1;
     h3 \<leftarrow> free_fn (lr_allocator c) (sa_addr (lr_prev c)) h2;
     h4 \<leftarrow> free_fn (lr_allocator c) (sa_addr (lr_next c)) h3;
     h5 \<leftarrow> free_fn (lr_allocator c) (sa_addr (lr_hash_index c)) h4;
     free_fn (lr_allocator c) (sa_addr (lr_hash_table c)) h5
   }"

text \<open>Linking all nodes into the free list.\<close>

function freelist_init :: "nat \<Rightarrow> nat \<Rightarrow> sz_ptr \<Rightarrow> sz_ptr option" where
  "freelist_init i n p = (if i < n then do { p' \<leftarrow> sa_put p i (sz_add i 1); freelist_init (i + 1) n p' } else Some p)"
  by pat_completeness auto
termination by (relation "measure (\<lambda>(i, n, p). n - i)") auto

declare freelist_init.simps [simp del]

definition lru_create_impl ::
    "nat \<Rightarrow> nat \<Rightarrow> nat \<Rightarrow> (byte list \<Rightarrow> byte list \<Rightarrow> 'c \<Rightarrow> 'c) option \<Rightarrow> 'h zenit_allocator_t \<Rightarrow> 'h \<Rightarrow>
     (('h, 'c) zenit_lru_t option \<times> 'h) option" where
  "lru_create_impl key_size value_size capacity evict_fn a h =
    (if key_size = 0 \<or> value_size = 0 \<or> capacity = 0 then Some (None, h)
     else case alloc_fn a sizeof_lru h of
       (None, h1) \<Rightarrow> Some (None, h1)
     | (Some b, h1) \<Rightarrow> do {
         let hash_capacity = round_pow2 (sz_mul capacity 2);
         (keys, h2) \<leftarrow> alloc_array a capacity key_size h1;
         (vals, h3) \<leftarrow> alloc_array a capacity value_size h2;
         (prev, h4) \<leftarrow> alloc_array a capacity sizeof_size_t h3;
         (next, h5) \<leftarrow> alloc_array a capacity sizeof_size_t h4;
         (hidx, h6) \<leftarrow> alloc_array a capacity sizeof_size_t h5;
         (htab, h7) \<leftarrow> alloc_array a hash_capacity sizeof_size_t h6;
         let c = \<lparr>lr_self = maddr b, lr_key_size = key_size, lr_value_size = value_size, lr_capacity = capacity,
           lr_count = 0, lr_keys = keys, lr_values = vals, lr_prev = sa_view prev, lr_next = sa_view next,
           lr_hash_index = sa_view hidx, lr_head = LRU_NONE, lr_tail = LRU_NONE, lr_free_head = 0,
           lr_hash_table = sa_view htab, lr_hash_capacity = hash_capacity, lr_evict_fn = evict_fn, lr_allocator = a\<rparr>;
         if keys = None \<or> vals = None \<or> prev = None \<or> next = None \<or> hidx = None \<or> htab = None then do {
           h8 \<leftarrow> lru_free_internals c h7;
           h9 \<leftarrow> free_fn a (Some (maddr b)) h8;
           Some (None, h9)
         } else do {
           t \<leftarrow> hash_reset 0 hash_capacity (lr_hash_table c);
           q1 \<leftarrow> freelist_init 0 capacity (lr_next c);
           q2 \<leftarrow> sa_put q1 (sz_sub capacity 1) LRU_NONE;
           Some (Some (c\<lparr>lr_hash_table := t, lr_next := q2\<rparr>), h7)
         }
       })"

definition zenit_lru_create :: "nat \<Rightarrow> nat \<Rightarrow> nat \<Rightarrow> c_heap \<Rightarrow> ((c_heap, 'c) zenit_lru_t option \<times> c_heap) option" where
  "zenit_lru_create key_size value_size capacity =
    lru_create_impl key_size value_size capacity None ZENIT_ALLOCATOR_DEFAULT"

definition zenit_lru_create_with_allocator ::
    "nat \<Rightarrow> nat \<Rightarrow> nat \<Rightarrow> 'h zenit_allocator_t \<Rightarrow> 'h \<Rightarrow> (('h, 'c) zenit_lru_t option \<times> 'h) option" where
  "zenit_lru_create_with_allocator key_size value_size capacity a = lru_create_impl key_size value_size capacity None a"

definition zenit_lru_create_with_evict ::
    "nat \<Rightarrow> nat \<Rightarrow> nat \<Rightarrow> (byte list \<Rightarrow> byte list \<Rightarrow> 'c \<Rightarrow> 'c) option \<Rightarrow> c_heap \<Rightarrow>
     ((c_heap, 'c) zenit_lru_t option \<times> c_heap) option" where
  "zenit_lru_create_with_evict key_size value_size capacity evict_fn =
    lru_create_impl key_size value_size capacity evict_fn ZENIT_ALLOCATOR_DEFAULT"

definition zenit_lru_create_with_evict_and_allocator ::
    "nat \<Rightarrow> nat \<Rightarrow> nat \<Rightarrow> (byte list \<Rightarrow> byte list \<Rightarrow> 'c \<Rightarrow> 'c) option \<Rightarrow> 'h zenit_allocator_t \<Rightarrow> 'h \<Rightarrow>
     (('h, 'c) zenit_lru_t option \<times> 'h) option" where
  "zenit_lru_create_with_evict_and_allocator key_size value_size capacity evict_fn a =
    lru_create_impl key_size value_size capacity evict_fn a"

text \<open>Calling the eviction callback on one node, and on every node of the list.\<close>

definition lru_evict :: "('h, 'c) zenit_lru_t \<Rightarrow> nat \<Rightarrow> 'c \<Rightarrow> 'c option" where
  "lru_evict c node ctx =
    (case lr_evict_fn c of None \<Rightarrow> Some ctx
     | Some f \<Rightarrow> do {
         k \<leftarrow> mem_read (lr_keys c) (sz_mul node (lr_key_size c)) (lr_key_size c);
         v \<leftarrow> mem_read (lr_values c) (sz_mul node (lr_value_size c)) (lr_value_size c);
         Some (f k v ctx)
       })"

partial_function (option) lru_evict_all :: "('h, 'c) zenit_lru_t \<Rightarrow> nat \<Rightarrow> 'c \<Rightarrow> 'c option" where
  "lru_evict_all c node ctx =
    (if lr_evict_fn c \<noteq> None \<and> node \<noteq> LRU_NONE then do {
       ctx' \<leftarrow> lru_evict c node ctx;
       n \<leftarrow> sa_get (lr_next c) node;
       lru_evict_all c n ctx'
     } else Some ctx)"

declare lru_evict_all.simps [code]

definition zenit_lru_destroy :: "('h, 'c) zenit_lru_t option \<Rightarrow> 'c \<Rightarrow> 'h \<Rightarrow> ('c \<times> 'h) option" where
  "zenit_lru_destroy cache ctx h =
    (case cache of None \<Rightarrow> Some (ctx, h)
     | Some c \<Rightarrow> do {
         ctx' \<leftarrow> lru_evict_all c (lr_head c) ctx;
         h1 \<leftarrow> lru_free_internals c h;
         h2 \<leftarrow> free_fn (lr_allocator c) (Some (lr_self c)) h1;
         Some (ctx', h2)
       })"

definition zenit_lru_put ::
    "('h, 'c) zenit_lru_t option \<Rightarrow> byte list option \<Rightarrow> byte list option \<Rightarrow> 'c \<Rightarrow>
     (zenit_result_t \<times> ('h, 'c) zenit_lru_t option \<times> 'c) option" where
  "zenit_lru_put cache key value ctx =
    (case (cache, key, value) of
       (Some c, Some k, Some v) \<Rightarrow> do {
         (found, sl) \<leftarrow> hash_find_slot c k;
         if found then do {
           node \<leftarrow> sa_get (lr_hash_table c) sl;
           v' \<leftarrow> user_read v (lr_value_size c);
           vs \<leftarrow> mem_write (lr_values c) (sz_mul node (lr_value_size c)) v';
           c1 \<leftarrow> lru_move_to_front (c\<lparr>lr_values := vs\<rparr>) node;
           Some (ZENIT_OK, Some c1, ctx)
         } else do {
           (node, c1, ctx1, need_rebuild) \<leftarrow>
             (if lr_count c = lr_capacity c then do {
                ctx1 \<leftarrow> lru_evict c (lr_tail c) ctx;
                c1 \<leftarrow> lru_unlink c (lr_tail c);
                Some (lr_tail c, c1, ctx1, True)
              } else do {
                (node, c1) \<leftarrow> freelist_pop c;
                Some (node, c1\<lparr>lr_count := sz_add (lr_count c1) 1\<rparr>, ctx, False)
              });
           k' \<leftarrow> user_read k (lr_key_size c1);
           v' \<leftarrow> user_read v (lr_value_size c1);
           ks \<leftarrow> mem_write (lr_keys c1) (sz_mul node (lr_key_size c1)) k';
           vs \<leftarrow> mem_write (lr_values c1) (sz_mul node (lr_value_size c1)) v';
           c2 \<leftarrow> lru_push_front (c1\<lparr>lr_keys := ks, lr_values := vs\<rparr>) node;
           c3 \<leftarrow> (if need_rebuild then hash_rebuild c2 else hash_store c2 k' node);
           Some (ZENIT_OK, Some c3, ctx1)
         }
       }
     | _ \<Rightarrow> Some (ZENIT_ERROR_NULL, cache, ctx))"

text \<open>A lookup; the caller may pass no buffer for the value.\<close>

definition lru_copy_out :: "('h, 'c) zenit_lru_t \<Rightarrow> nat \<Rightarrow> byte list option \<Rightarrow> byte list option option" where
  "lru_copy_out c node out =
    (case out of None \<Rightarrow> Some None
     | Some d \<Rightarrow> do {
         v \<leftarrow> mem_read (lr_values c) (sz_mul node (lr_value_size c)) (lr_value_size c);
         d' \<leftarrow> user_write d 0 v;
         Some (Some d')
       })"

definition zenit_lru_get ::
    "('h, 'c) zenit_lru_t option \<Rightarrow> byte list option \<Rightarrow> byte list option \<Rightarrow>
     (bool \<times> ('h, 'c) zenit_lru_t option \<times> byte list option) option" where
  "zenit_lru_get cache key out =
    (case (cache, key) of
       (Some c, Some k) \<Rightarrow> do {
         (found, sl) \<leftarrow> hash_find_slot c k;
         if \<not> found then Some (False, cache, out)
         else do {
           node \<leftarrow> sa_get (lr_hash_table c) sl;
           out' \<leftarrow> lru_copy_out c node out;
           c1 \<leftarrow> lru_move_to_front c node;
           Some (True, Some c1, out')
         }
       }
     | _ \<Rightarrow> Some (False, cache, out))"

definition zenit_lru_peek ::
    "('h, 'c) zenit_lru_t option \<Rightarrow> byte list option \<Rightarrow> byte list option \<Rightarrow> (bool \<times> byte list option) option" where
  "zenit_lru_peek cache key out =
    (case (cache, key) of
       (Some c, Some k) \<Rightarrow> do {
         (found, sl) \<leftarrow> hash_find_slot c k;
         if \<not> found then Some (False, out)
         else do {
           node \<leftarrow> sa_get (lr_hash_table c) sl;
           out' \<leftarrow> lru_copy_out c node out;
           Some (True, out')
         }
       }
     | _ \<Rightarrow> Some (False, out))"

definition zenit_lru_contains :: "('h, 'c) zenit_lru_t option \<Rightarrow> byte list option \<Rightarrow> bool option" where
  "zenit_lru_contains cache key =
    (case (cache, key) of
       (Some c, Some k) \<Rightarrow> map_option fst (hash_find_slot c k)
     | _ \<Rightarrow> Some False)"

definition zenit_lru_remove ::
    "('h, 'c) zenit_lru_t option \<Rightarrow> byte list option \<Rightarrow> (zenit_result_t \<times> ('h, 'c) zenit_lru_t option) option" where
  "zenit_lru_remove cache key =
    (case (cache, key) of
       (Some c, Some k) \<Rightarrow> do {
         (found, _) \<leftarrow> hash_find_slot c k;
         if \<not> found then Some (ZENIT_ERROR_NOT_FOUND, cache)
         else do {
           (_, sl) \<leftarrow> hash_find_slot c k;
           node \<leftarrow> sa_get (lr_hash_table c) sl;
           c1 \<leftarrow> lru_unlink c node;
           c2 \<leftarrow> freelist_push c1 node;
           c3 \<leftarrow> hash_rebuild (c2\<lparr>lr_count := sz_sub (lr_count c2) 1\<rparr>);
           Some (ZENIT_OK, Some c3)
         }
       }
     | _ \<Rightarrow> Some (ZENIT_ERROR_NULL, cache))"

definition zenit_lru_clear :: "('h, 'c) zenit_lru_t option \<Rightarrow> 'c \<Rightarrow> (('h, 'c) zenit_lru_t option \<times> 'c) option" where
  "zenit_lru_clear cache ctx =
    (case cache of None \<Rightarrow> Some (None, ctx)
     | Some c \<Rightarrow> do {
         ctx' \<leftarrow> lru_evict_all c (lr_head c) ctx;
         t \<leftarrow> hash_reset 0 (lr_hash_capacity c) (lr_hash_table c);
         q1 \<leftarrow> freelist_init 0 (lr_capacity c) (lr_next c);
         q2 \<leftarrow> sa_put q1 (sz_sub (lr_capacity c) 1) LRU_NONE;
         Some (Some (c\<lparr>lr_hash_table := t, lr_head := LRU_NONE, lr_tail := LRU_NONE, lr_free_head := 0,
           lr_next := q2, lr_count := 0\<rparr>), ctx')
       })"

definition zenit_lru_count :: "('h, 'c) zenit_lru_t option \<Rightarrow> nat" where
  "zenit_lru_count cache = (case cache of None \<Rightarrow> 0 | Some c \<Rightarrow> lr_count c)"

definition zenit_lru_capacity :: "('h, 'c) zenit_lru_t option \<Rightarrow> nat" where
  "zenit_lru_capacity cache = (case cache of None \<Rightarrow> 0 | Some c \<Rightarrow> lr_capacity c)"


section \<open>Views of the arrays\<close>

definition sa_len :: "sz_ptr \<Rightarrow> nat" where
  "sa_len p = (case p of None \<Rightarrow> 0 | Some (a, xs) \<Rightarrow> length xs)"

definition sa_at :: "sz_ptr \<Rightarrow> nat \<Rightarrow> nat" where
  "sa_at p i = (case p of None \<Rightarrow> 0 | Some (a, xs) \<Rightarrow> xs ! i)"

lemma sa_get_ok: "i < sa_len p \<Longrightarrow> sa_get p i = Some (sa_at p i)"
  by (auto simp: sa_len_def sa_get_def sa_at_def split: option.splits)

lemma sa_put_ok:
  assumes "i < sa_len p"
  obtains q where "sa_put p i v = Some q" and "sa_len q = sa_len p" and "sa_at q = (sa_at p)(i := v)" and "sa_addr q = sa_addr p"
proof -
  from assms obtain a xs where p: "p = Some (a, xs)" "i < length xs" by (cases p) (auto simp: sa_len_def)
  show thesis
    by (rule that [of "Some (a, xs[i := v])"])
      (use p in \<open>auto simp: sa_put_def sa_len_def sa_at_def sa_addr_def fun_eq_iff nth_list_update\<close>)
qed

text \<open>An index, or nothing: the sentinel.\<close>

definition link_of :: "nat \<Rightarrow> nat option" where
  "link_of v = (if v = LRU_NONE then None else Some v)"

definition of_link :: "nat option \<Rightarrow> nat" where
  "of_link p = (case p of None \<Rightarrow> LRU_NONE | Some v \<Rightarrow> v)"

lemma of_link_simps [simp]: "of_link None = LRU_NONE" "of_link (Some v) = v"
  by (simp_all add: of_link_def)

lemma link_of_eq: "link_of v = p \<Longrightarrow> v = of_link p"
  by (auto simp: link_of_def split: if_splits)

definition lk :: "sz_ptr \<Rightarrow> nat \<Rightarrow> nat option" where
  "lk p i = link_of (sa_at p i)"

lemma lk_put:
  assumes "sa_at q = (sa_at p)(i := of_link x)" and "x \<noteq> Some LRU_NONE"
  shows "lk q = (lk p)(i := x)"
  using assms by (cases x) (auto simp: lk_def fun_eq_iff link_of_def)

text \<open>The two lists: the live nodes \<open>ns\<close> in order of use, and the free nodes \<open>fs\<close>.\<close>

fun run_of :: "(nat \<Rightarrow> nat option) \<Rightarrow> nat list \<Rightarrow> bool" where
  "run_of nx [] = True"
| "run_of nx (p # ps) = (nx p = first_of ps None \<and> run_of nx ps)"

definition lru_lists :: "('h, 'c) zenit_lru_t \<Rightarrow> nat list \<Rightarrow> nat list \<Rightarrow> bool" where
  "lru_lists c ns fs \<longleftrightarrow> lr_capacity c < LRU_NONE \<and>
    sa_len (lr_prev c) = lr_capacity c \<and> sa_len (lr_next c) = lr_capacity c \<and>
    distinct (ns @ fs) \<and> set (ns @ fs) \<subseteq> {..<lr_capacity c} \<and>
    seg (lk (lr_prev c)) (lk (lr_next c)) None ns None \<and> run_of (lk (lr_next c)) fs \<and>
    lr_head c = of_link (first_of ns None) \<and> lr_tail c = of_link (last_of None ns) \<and>
    lr_free_head c = of_link (first_of fs None)"

text \<open>What the list operations leave alone.\<close>

definition lru_frame :: "('h, 'c) zenit_lru_t \<Rightarrow> ('h, 'c) zenit_lru_t \<Rightarrow> bool" where
  "lru_frame c c' \<longleftrightarrow> c' = c\<lparr>lr_prev := lr_prev c', lr_next := lr_next c', lr_head := lr_head c', lr_tail := lr_tail c'\<rparr> \<and>
    sa_addr (lr_prev c') = sa_addr (lr_prev c) \<and> sa_addr (lr_next c') = sa_addr (lr_next c)"

lemma run_of_cong: "(\<And>p. p \<in> set ps \<Longrightarrow> nx' p = nx p) \<Longrightarrow> run_of nx' ps = run_of nx ps"
  by (induction ps) auto

lemma run_of_other [simp]: "p \<notin> set ps \<Longrightarrow> run_of (nx(p := x)) ps = run_of nx ps"
  by (rule run_of_cong) auto

lemma lru_lists_node:
  assumes "lru_lists c (as @ n # bs) fs"
  shows "sa_get (lr_prev c) n = Some (of_link (last_of None as))" and "sa_get (lr_next c) n = Some (of_link (first_of bs None))"
    and "n < lr_capacity c"
proof -
  show n: "n < lr_capacity c" using assms by (simp add: lru_lists_def)
  have "seg (lk (lr_prev c)) (lk (lr_next c)) None (as @ n # bs) None" using assms by (simp add: lru_lists_def)
  then have "lk (lr_prev c) n = last_of None as" "lk (lr_next c) n = first_of bs None" by simp_all
  then have "sa_at (lr_prev c) n = of_link (last_of None as)" "sa_at (lr_next c) n = of_link (first_of bs None)"
    by (auto simp: lk_def dest: link_of_eq)
  then show "sa_get (lr_prev c) n = Some (of_link (last_of None as))" "sa_get (lr_next c) n = Some (of_link (first_of bs None))"
    using n assms by (simp_all add: sa_get_ok lru_lists_def)
qed

text \<open>Redirecting the link of a neighbour, or an end of the list when there is no neighbour.\<close>

lemma put_last_ok:
  assumes "set as \<subseteq> {..<sa_len N}" and "sa_len N < LRU_NONE" and "x \<noteq> Some LRU_NONE"
  obtains N' where "(if of_link (last_of None as) \<noteq> LRU_NONE then do { q \<leftarrow> sa_put N (of_link (last_of None as)) (of_link x); Some (q, h) }
        else Some (N, e)) = Some (N', if as = [] then e else h)"
    and "lk N' = relink_next (lk N) as x" and "sa_len N' = sa_len N" and "sa_addr N' = sa_addr N"
proof (cases as rule: rev_cases)
  case Nil
  then show thesis by (intro that [of N]) (simp_all add: relink_next_def)
next
  case (snoc xs y)
  then have y: "y < sa_len N" "y \<noteq> LRU_NONE" using assms by auto
  obtain q where q: "sa_put N y (of_link x) = Some q" "sa_len q = sa_len N" "sa_at q = (sa_at N)(y := of_link x)" "sa_addr q = sa_addr N"
    by (rule sa_put_ok [OF y(1)])
  show thesis
    by (rule that [of q]) (use snoc y q lk_put [OF q(3) assms(3)] in \<open>simp_all add: relink_next_def\<close>)
qed

lemma put_first_ok:
  assumes "set bs \<subseteq> {..<sa_len P}" and "sa_len P < LRU_NONE" and "x \<noteq> Some LRU_NONE"
  obtains P' where "(if of_link (first_of bs None) \<noteq> LRU_NONE then do { q \<leftarrow> sa_put P (of_link (first_of bs None)) (of_link x); Some (q, t) }
        else Some (P, e)) = Some (P', if bs = [] then e else t)"
    and "lk P' = relink_prev (lk P) bs x" and "sa_len P' = sa_len P" and "sa_addr P' = sa_addr P"
proof (cases bs)
  case Nil
  then show thesis by (intro that [of P]) (simp_all add: relink_prev_def)
next
  case (Cons y ys)
  then have y: "y < sa_len P" "y \<noteq> LRU_NONE" using assms by auto
  obtain q where q: "sa_put P y (of_link x) = Some q" "sa_len q = sa_len P" "sa_at q = (sa_at P)(y := of_link x)" "sa_addr q = sa_addr P"
    by (rule sa_put_ok [OF y(1)])
  show thesis
    by (rule that [of q]) (use Cons y q lk_put [OF q(3) assms(3)] in \<open>simp_all add: relink_prev_def\<close>)
qed

lemma put_none_ok:
  assumes "i < sa_len p"
  obtains q where "sa_put p i LRU_NONE = Some q" and "lk q = (lk p)(i := None)" and "sa_len q = sa_len p" and "sa_addr q = sa_addr p"
proof -
  obtain q where q: "sa_put p i LRU_NONE = Some q" "sa_len q = sa_len p" "sa_at q = (sa_at p)(i := LRU_NONE)" "sa_addr q = sa_addr p"
    by (rule sa_put_ok [OF assms])
  show thesis by (rule that [OF q(1) _ q(2,4)]) (use q(3) lk_put [of q p i None] in simp)
qed

lemma lru_unlink_ok:
  assumes l: "lru_lists c (as @ n # bs) fs"
  obtains c' where "lru_unlink c n = Some c'" and "lru_lists c' (as @ bs) fs" and "lru_frame c c'"
proof -
  let ?P = "lr_prev c" and ?N = "lr_next c" and ?a = "last_of None as" and ?b = "first_of bs None"
  note nd = lru_lists_node [OF l]
  have d: "distinct ((as @ n # bs) @ fs)" and cap: "lr_capacity c < LRU_NONE"
    and len: "sa_len ?P = lr_capacity c" "sa_len ?N = lr_capacity c"
    and sub: "set as \<subseteq> {..<lr_capacity c}" "set bs \<subseteq> {..<lr_capacity c}" "set fs \<subseteq> {..<lr_capacity c}"
    and sg: "seg (lk ?P) (lk ?N) None (as @ n # bs) None" and rn: "run_of (lk ?N) fs"
    using l by (simp_all add: lru_lists_def)
  have hd: "lr_head c = of_link (first_of (as @ n # bs) None)" "lr_tail c = of_link (last_of None (as @ n # bs))"
      "lr_free_head c = of_link (first_of fs None)"
    using l by (simp_all add: lru_lists_def)
  have some: "?a \<noteq> Some LRU_NONE" "?b \<noteq> Some LRU_NONE"
  proof -
    have "last as < lr_capacity c" if "as \<noteq> []" using last_in_set [OF that] sub(1) by blast
    then show "?a \<noteq> Some LRU_NONE" using cap by (auto simp: last_of_def)
    show "?b \<noteq> Some LRU_NONE" using cap sub(2) by (auto simp: first_of_def split: list.split)
  qed
  obtain N1 where N1: "(if of_link ?a \<noteq> LRU_NONE then do { q \<leftarrow> sa_put ?N (of_link ?a) (of_link ?b); Some (q, lr_head c) }
        else Some (?N, of_link ?b)) = Some (N1, if as = [] then of_link ?b else lr_head c)"
      "lk N1 = relink_next (lk ?N) as ?b" "sa_len N1 = sa_len ?N" "sa_addr N1 = sa_addr ?N"
    by (rule put_last_ok [of as ?N ?b]) (use sub len cap some in simp_all)
  obtain P1 where P1: "(if of_link ?b \<noteq> LRU_NONE then do { q \<leftarrow> sa_put ?P (of_link ?b) (of_link ?a); Some (q, lr_tail c) }
        else Some (?P, of_link ?a)) = Some (P1, if bs = [] then of_link ?a else lr_tail c)"
      "lk P1 = relink_prev (lk ?P) bs ?a" "sa_len P1 = sa_len ?P" "sa_addr P1 = sa_addr ?P"
    by (rule put_first_ok [of bs ?P ?a]) (use sub len cap some in simp_all)
  obtain P2 where P2: "sa_put P1 n LRU_NONE = Some P2" "lk P2 = (lk P1)(n := None)" "sa_len P2 = sa_len P1" "sa_addr P2 = sa_addr P1"
    by (rule put_none_ok [of n P1]) (use nd(3) len P1(3) in simp)
  obtain N2 where N2: "sa_put N1 n LRU_NONE = Some N2" "lk N2 = (lk N1)(n := None)" "sa_len N2 = sa_len N1" "sa_addr N2 = sa_addr N1"
    by (rule put_none_ok [of n N1]) (use nd(3) len N1(3) in simp)
  define c' where "c' = c\<lparr>lr_prev := P2, lr_next := N2, lr_head := (if as = [] then of_link ?b else lr_head c),
    lr_tail := (if bs = [] then of_link ?a else lr_tail c)\<rparr>"
  have "lru_unlink c n = Some c'"
    unfolding lru_unlink_def nd(1,2) bind.simps N1(1) P1(1) split_conv P2(1) N2(1) c'_def ..
  moreover have "seg (lk P2) (lk N2) None (as @ bs) None"
  proof -
    have "distinct (as @ n # bs)" using d by auto
    from seg_unlink [OF this sg] have "seg (lk P1) (lk N1) None (as @ bs) None" using P1(2) N1(2) by simp
    then show ?thesis using d P2(2) N2(2) by (simp del: seg_append)
  qed
  moreover have "run_of (lk N2) fs"
  proof -
    have "last as \<notin> set fs" if "as \<noteq> []" using last_in_set [OF that] d by auto
    then have "run_of (lk N1) fs" using rn N1(2) by (auto simp: relink_next_def)
    then show ?thesis using d N2(2) by simp
  qed
  moreover have "lr_head c' = of_link (first_of (as @ bs) None)" "lr_tail c' = of_link (last_of None (as @ bs))"
    using hd by (cases as; cases bs; simp add: c'_def last_of_def)+
  ultimately show thesis using d len sub cap hd(3) P1 P2 N1 N2
    by (intro that [of c']) (auto simp: lru_lists_def c'_def lru_frame_def)
qed


lemma lru_push_front_ok:
  assumes l: "lru_lists c ns fs" and n: "n \<notin> set ns" "n \<notin> set fs" "n < lr_capacity c"
  obtains c' where "lru_push_front c n = Some c'" and "lru_lists c' (n # ns) fs" and "lru_frame c c'"
proof -
  let ?P = "lr_prev c" and ?N = "lr_next c" and ?b = "first_of ns None"
  have d: "distinct (ns @ fs)" and cap: "lr_capacity c < LRU_NONE"
    and len: "sa_len ?P = lr_capacity c" "sa_len ?N = lr_capacity c"
    and sub: "set ns \<subseteq> {..<lr_capacity c}" "set fs \<subseteq> {..<lr_capacity c}"
    and sg: "seg (lk ?P) (lk ?N) None ns None" and rn: "run_of (lk ?N) fs"
    and hd: "lr_head c = of_link ?b" "lr_tail c = of_link (last_of None ns)" "lr_free_head c = of_link (first_of fs None)"
    using l by (simp_all add: lru_lists_def)
  have some: "?b \<noteq> Some LRU_NONE" "Some n \<noteq> Some LRU_NONE" using cap sub(1) n(3) by (auto simp: first_of_def split: list.split)
  obtain P1 where P1: "sa_put ?P n LRU_NONE = Some P1" "lk P1 = (lk ?P)(n := None)" "sa_len P1 = sa_len ?P" "sa_addr P1 = sa_addr ?P"
    by (rule put_none_ok [of n ?P]) (use n(3) len in simp)
  obtain N1 where N1: "sa_put ?N n (of_link ?b) = Some N1" "sa_len N1 = sa_len ?N" "sa_at N1 = (sa_at ?N)(n := of_link ?b)" "sa_addr N1 = sa_addr ?N"
    by (rule sa_put_ok [of n ?N]) (use n(3) len in simp)
  note lkN1 = lk_put [OF N1(3) some(1)]
  obtain P2 where P2: "(if of_link ?b \<noteq> LRU_NONE then do { q \<leftarrow> sa_put P1 (of_link ?b) (of_link (Some n)); Some (q, lr_tail c) }
        else Some (P1, n)) = Some (P2, if ns = [] then n else lr_tail c)"
      "lk P2 = relink_prev (lk P1) ns (Some n)" "sa_len P2 = sa_len P1" "sa_addr P2 = sa_addr P1"
    by (rule put_first_ok [of ns P1 "Some n"]) (use sub len cap some P1(3) in simp_all)
  define c' where "c' = c\<lparr>lr_prev := P2, lr_next := N1, lr_head := n, lr_tail := (if ns = [] then n else lr_tail c)\<rparr>"
  have "lru_push_front c n = Some c'"
    using P2(1) unfolding lru_push_front_def hd(1) P1(1) N1(1) bind.simps of_link_simps(2) by (simp add: c'_def)
  moreover have "seg (lk P2) (lk N1) None (n # ns) None"
  proof -
    have d': "distinct ([] @ n # ns)" using d n by simp
    show ?thesis using seg_link [OF d', of "lk ?P" "lk ?N"] sg P1(2) P2(2) lkN1 by (simp add: relink_next_def)
  qed
  moreover have "run_of (lk N1) fs" using rn n(2) lkN1 by simp
  moreover have "lr_tail c' = of_link (last_of None (n # ns))" using hd(2) by (cases ns) (simp_all add: c'_def)
  ultimately show thesis using d n len sub cap hd(3) P1 P2 N1
    by (intro that [of c']) (auto simp: lru_lists_def c'_def lru_frame_def)
qed

lemma lru_frame_trans: "lru_frame a b \<Longrightarrow> lru_frame b c \<Longrightarrow> lru_frame a c"
  unfolding lru_frame_def by (cases a; cases b; cases c) simp

lemma lru_frame_refl: "lru_frame c c"
  by (simp add: lru_frame_def)

lemma lru_frameD:
  assumes "lru_frame c c'"
  shows "lr_capacity c' = lr_capacity c" "lr_keys c' = lr_keys c" "lr_values c' = lr_values c" "lr_count c' = lr_count c"
    "lr_key_size c' = lr_key_size c" "lr_value_size c' = lr_value_size c" "lr_hash_table c' = lr_hash_table c"
    "lr_hash_capacity c' = lr_hash_capacity c" "lr_hash_index c' = lr_hash_index c" "lr_evict_fn c' = lr_evict_fn c"
    "lr_allocator c' = lr_allocator c" "lr_self c' = lr_self c" "lr_free_head c' = lr_free_head c"
    "sa_addr (lr_prev c') = sa_addr (lr_prev c)" "sa_addr (lr_next c') = sa_addr (lr_next c)"
  using assms unfolding lru_frame_def by (cases c; cases c'; simp)+

lemma lru_move_to_front_ok:
  assumes l: "lru_lists c (as @ n # bs) fs"
  obtains c' where "lru_move_to_front c n = Some c'" and "lru_lists c' (n # as @ bs) fs" and "lru_frame c c'"
proof (cases "as = []")
  case True
  then have "lr_head c = n" using l by (simp add: lru_lists_def)
  then show thesis using True l by (intro that [of c]) (simp_all add: lru_move_to_front_def lru_frame_refl)
next
  case False
  then obtain y ys where as: "as = y # ys" by (cases as) auto
  then have ne: "lr_head c \<noteq> n" using l by (simp add: lru_lists_def)
  obtain c1 where c1: "lru_unlink c n = Some c1" "lru_lists c1 (as @ bs) fs" "lru_frame c c1" by (rule lru_unlink_ok [OF l])
  have n: "n \<notin> set (as @ bs)" "n \<notin> set fs" "n < lr_capacity c1"
    using l lru_frameD(1) [OF c1(3)] by (auto simp: lru_lists_def)
  obtain c2 where "lru_push_front c1 n = Some c2" "lru_lists c2 (n # as @ bs) fs" "lru_frame c1 c2"
    by (rule lru_push_front_ok [OF c1(2) n])
  then show thesis using ne c1 by (intro that [of c2]) (auto simp: lru_move_to_front_def intro: lru_frame_trans)
qed

lemma freelist_pop_ok:
  assumes "lru_lists c ns (f # fs)"
  shows "freelist_pop c = Some (f, c\<lparr>lr_free_head := of_link (first_of fs None)\<rparr>)"
    and "lru_lists (c\<lparr>lr_free_head := of_link (first_of fs None)\<rparr>) ns fs"
proof -
  have f: "lr_free_head c = f" "f < sa_len (lr_next c)" "lk (lr_next c) f = first_of fs None"
    using assms by (simp_all add: lru_lists_def)
  show "freelist_pop c = Some (f, c\<lparr>lr_free_head := of_link (first_of fs None)\<rparr>)"
    using f link_of_eq [of "sa_at (lr_next c) f"] by (simp add: freelist_pop_def sa_get_ok lk_def)
  show "lru_lists (c\<lparr>lr_free_head := of_link (first_of fs None)\<rparr>) ns fs"
    using assms by (auto simp: lru_lists_def)
qed

lemma freelist_push_ok:
  assumes l: "lru_lists c ns fs" and n: "n \<notin> set ns" "n \<notin> set fs" "n < lr_capacity c"
  obtains q where "freelist_push c n = Some (c\<lparr>lr_next := q, lr_free_head := n\<rparr>)"
    and "lru_lists (c\<lparr>lr_next := q, lr_free_head := n\<rparr>) ns (n # fs)" and "sa_addr q = sa_addr (lr_next c)"
proof -
  have f: "lr_free_head c = of_link (first_of fs None)" and cap: "lr_capacity c < LRU_NONE" "set fs \<subseteq> {..<lr_capacity c}"
    using l by (simp_all add: lru_lists_def)
  obtain q where q: "sa_put (lr_next c) n (of_link (first_of fs None)) = Some q" "sa_len q = sa_len (lr_next c)"
      "sa_at q = (sa_at (lr_next c))(n := of_link (first_of fs None))" "sa_addr q = sa_addr (lr_next c)"
    by (rule sa_put_ok [of n "lr_next c"]) (use n(3) l in \<open>simp add: lru_lists_def\<close>)
  have "first_of fs None \<noteq> Some LRU_NONE" using cap by (auto simp: first_of_def split: list.split)
  note lkq = lk_put [OF q(3) this]
  show thesis
    by (rule that [of q]) (use q f n l lkq in \<open>auto simp: freelist_push_def lru_lists_def\<close>)
qed


section \<open>The table of keys\<close>

definition lr_key :: "('h, 'c) zenit_lru_t \<Rightarrow> nat \<Rightarrow> byte list" where
  "lr_key c n = slot (lr_key_size c) (pbytes (lr_keys c)) n"

definition lr_val :: "('h, 'c) zenit_lru_t \<Rightarrow> nat \<Rightarrow> byte list" where
  "lr_val c n = slot (lr_value_size c) (pbytes (lr_values c)) n"

definition lru_layout :: "('h, 'c) zenit_lru_t \<Rightarrow> bool" where
  "lru_layout c \<longleftrightarrow> 0 < lr_key_size c \<and> 0 < lr_value_size c \<and> 0 < lr_capacity c \<and>
    lr_capacity c * lr_key_size c < size_mod \<and> lr_capacity c * lr_value_size c < size_mod \<and>
    plen (lr_keys c) = lr_capacity c * lr_key_size c \<and> plen (lr_values c) = lr_capacity c * lr_value_size c \<and>
    sa_len (lr_hash_index c) = lr_capacity c \<and> sa_len (lr_hash_table c) = lr_hash_capacity c \<and>
    (\<exists>p < 64. lr_hash_capacity c = 2 ^ p) \<and> 2 * lr_capacity c \<le> lr_hash_capacity c"

definition lru_view :: "('h, 'c) zenit_lru_t \<Rightarrow> nat \<Rightarrow> byte list slot_view" where
  "lru_view c i = (if sa_at (lr_hash_table c) i = HASH_EMPTY then SEmpty else SOcc (lr_key c (sa_at (lr_hash_table c) i)))"

text \<open>The table lists exactly the nodes \<open>ns\<close>, each where probing for its key finds it.\<close>

definition lru_table :: "('h, 'c) zenit_lru_t \<Rightarrow> nat list \<Rightarrow> bool" where
  "lru_table c ns \<longleftrightarrow> chain_ok hash_fnv1a (lr_hash_capacity c) (lru_view c) \<and>
    (\<forall>i < lr_hash_capacity c. sa_at (lr_hash_table c) i \<noteq> HASH_EMPTY \<longrightarrow> sa_at (lr_hash_table c) i \<in> set ns) \<and>
    (\<forall>n \<in> set ns. n < lr_capacity c \<and> (\<exists>i < lr_hash_capacity c. sa_at (lr_hash_table c) i = n)) \<and> lr_capacity c < LRU_NONE"

lemma lru_layoutD:
  assumes "lru_layout c"
  shows "0 < lr_hash_capacity c" "lr_hash_capacity c < size_mod" "lr_capacity c < lr_hash_capacity c"
    "n AND sz_sub (lr_hash_capacity c) 1 = n mod lr_hash_capacity c"
    "sz_add ((s + d) mod lr_hash_capacity c) 1 AND sz_sub (lr_hash_capacity c) 1 = (s + Suc d) mod lr_hash_capacity c"
proof -
  from assms obtain p where p: "p < 64" "lr_hash_capacity c = 2 ^ p" "2 * lr_capacity c \<le> lr_hash_capacity c" "0 < lr_capacity c"
    by (auto simp: lru_layout_def)
  have "(2::nat) ^ p \<le> 2 ^ 63" using p(1) by (intro power_increasing) simp_all
  then have lt: "lr_hash_capacity c < size_mod" using p(2) by (simp add: size_mod_def)
  then show "lr_hash_capacity c < size_mod" .
  show "0 < lr_hash_capacity c" "lr_capacity c < lr_hash_capacity c" using p by auto
  have "sz_sub (lr_hash_capacity c) 1 = 2 ^ p - 1" using lt p(2) by (simp add: size_simps)
  then show m: "n AND sz_sub (lr_hash_capacity c) 1 = n mod lr_hash_capacity c" for n
    using and_mask_mod [of n p] p(2) by simp
  have "(s + d) mod lr_hash_capacity c < lr_hash_capacity c" using p(2) by simp
  then have "sz_add ((s + d) mod lr_hash_capacity c) 1 = Suc ((s + d) mod lr_hash_capacity c)" using lt by (simp add: size_simps)
  then show "sz_add ((s + d) mod lr_hash_capacity c) 1 AND sz_sub (lr_hash_capacity c) 1 = (s + Suc d) mod lr_hash_capacity c"
    unfolding m by (simp add: mod_Suc_eq)
qed

lemma lru_key_read:
  assumes "lru_layout c" and "n < lr_capacity c"
  shows "mem_read (lr_keys c) (sz_mul n (lr_key_size c)) (lr_key_size c) = Some (lr_key c n)" and "length (lr_key c n) = lr_key_size c"
proof -
  have "lr_capacity c * lr_key_size c \<le> plen (lr_keys c)" "0 < lr_key_size c" "plen (lr_keys c) < size_mod"
    using assms(1) by (simp_all add: lru_layout_def)
  note r = slot_in_range [OF this(1) assms(2) this(2,3)]
  show "mem_read (lr_keys c) (sz_mul n (lr_key_size c)) (lr_key_size c) = Some (lr_key c n)"
    using r by (simp add: mem_read_ok lr_key_def slot_def)
  show "length (lr_key c n) = lr_key_size c" using r by (simp add: lr_key_def)
qed

lemma lru_val_read:
  assumes "lru_layout c" and "n < lr_capacity c"
  shows "mem_read (lr_values c) (sz_mul n (lr_value_size c)) (lr_value_size c) = Some (lr_val c n)" and "length (lr_val c n) = lr_value_size c"
proof -
  have "lr_capacity c * lr_value_size c \<le> plen (lr_values c)" "0 < lr_value_size c" "plen (lr_values c) < size_mod"
    using assms(1) by (simp_all add: lru_layout_def)
  note r = slot_in_range [OF this(1) assms(2) this(2,3)]
  show "mem_read (lr_values c) (sz_mul n (lr_value_size c)) (lr_value_size c) = Some (lr_val c n)"
    using r by (simp add: mem_read_ok lr_val_def slot_def)
  show "length (lr_val c n) = lr_value_size c" using r by (simp add: lr_val_def)
qed

text \<open>There is always an empty slot: at most half of the slots are used.\<close>

lemma lru_table_free:
  assumes lay: "lru_layout c" and t: "lru_table c ns"
  shows "\<exists>i < lr_hash_capacity c. lru_view c i = SEmpty"
proof (rule ccontr)
  let ?t = "sa_at (lr_hash_table c)" and ?h = "lr_hash_capacity c"
  assume "\<not> ?thesis"
  then have ne: "?t i \<noteq> HASH_EMPTY" if "i < ?h" for i using that by (auto simp: lru_view_def split: if_splits)
  have "inj_on ?t {..<?h}"
  proof (rule inj_onI)
    fix i j assume ij: "i \<in> {..<?h}" "j \<in> {..<?h}" "?t i = ?t j"
    then have "lru_view c i = SOcc (lr_key c (?t i))" "lru_view c j = SOcc (lr_key c (?t i))" using ne by (simp_all add: lru_view_def)
    then show "i = j" using t ij unfolding lru_table_def chain_ok_def by blast
  qed
  moreover have "?t ` {..<?h} \<subseteq> {..<lr_capacity c}" using ne t by (auto simp: lru_table_def)
  ultimately have "card {..<?h} \<le> card {..<lr_capacity c}" by (intro card_inj_on_le) simp_all
  then show False using lru_layoutD(3) [OF lay] by simp
qed

text \<open>The first slot from the hash on that is empty or satisfies \<open>P\<close>.\<close>

lemma probe_first:
  assumes lay: "lru_layout c" and t: "lru_table c ns"
  obtains d where "d < lr_hash_capacity c" and "lru_view c ((H + d) mod lr_hash_capacity c) = SEmpty \<or> P (lru_view c ((H + d) mod lr_hash_capacity c))"
    and "\<And>j. j < d \<Longrightarrow> lru_view c ((H + j) mod lr_hash_capacity c) \<noteq> SEmpty \<and> \<not> P (lru_view c ((H + j) mod lr_hash_capacity c))"
proof -
  let ?h = "lr_hash_capacity c"
  let ?Q = "\<lambda>d. lru_view c ((H + d) mod ?h) = SEmpty \<or> P (lru_view c ((H + d) mod ?h))"
  from lru_table_free [OF lay t] obtain i where i: "i < ?h" "lru_view c i = SEmpty" by blast
  then obtain e where e: "e < ?h" "i = (H + e) mod ?h" using probe_distance by blast
  then have "?Q e" using i(2) by simp
  define L where "L = (LEAST d. ?Q d)"
  show thesis
  proof (rule that [of L])
    show "?Q L" unfolding L_def by (rule LeastI [of ?Q, OF \<open>?Q e\<close>])
    have "L \<le> e" unfolding L_def by (rule Least_le [of ?Q, OF \<open>?Q e\<close>])
    then show "L < ?h" using e(1) by simp
    fix j assume "j < L"
    then have "\<not> ?Q j" unfolding L_def by (rule not_less_Least)
    then show "lru_view c ((H + j) mod ?h) \<noteq> SEmpty \<and> \<not> P (lru_view c ((H + j) mod ?h))" by simp
  qed
qed

lemma hash_free_slot_ok:
  assumes lay: "lru_layout c" and d: "d < lr_hash_capacity c"
    and e: "sa_at (lr_hash_table c) ((H + d) mod lr_hash_capacity c) = HASH_EMPTY"
    and ne: "\<And>j. j < d \<Longrightarrow> sa_at (lr_hash_table c) ((H + j) mod lr_hash_capacity c) \<noteq> HASH_EMPTY" and i: "i \<le> d"
  shows "hash_free_slot (lr_hash_table c) (sz_sub (lr_hash_capacity c) 1) ((H + i) mod lr_hash_capacity c) =
    Some ((H + d) mod lr_hash_capacity c)"
  using i
proof (induction "d - i" arbitrary: i)
  have get: "sa_get (lr_hash_table c) ((H + j) mod lr_hash_capacity c) = Some (sa_at (lr_hash_table c) ((H + j) mod lr_hash_capacity c))" for j
    using lay lru_layoutD(1) [OF lay] by (intro sa_get_ok) (simp add: lru_layout_def)
  {
    case 0
    then show ?case using e get [of i] by (subst hash_free_slot.simps) simp
  next
    case (Suc k)
    then have "i < d" by simp
    then show ?case using Suc.hyps(1) [of "Suc i"] Suc.hyps(2) ne [of i] get [of i]
      by (subst hash_free_slot.simps) (simp add: lru_layoutD(5) [OF lay])
  }
qed


lemma lru_view_SOcc:
  assumes "lru_table c ns" and "i < lr_hash_capacity c" and "lru_view c i \<noteq> SEmpty"
  shows "sa_at (lr_hash_table c) i \<noteq> HASH_EMPTY" and "sa_at (lr_hash_table c) i \<in> set ns"
    and "sa_at (lr_hash_table c) i < lr_capacity c" and "lru_view c i = SOcc (lr_key c (sa_at (lr_hash_table c) i))"
  using assms by (auto simp: lru_table_def lru_view_def split: if_splits)

lemma lru_view_keys:
  assumes "lru_table c ns"
  shows "view_keys (lr_hash_capacity c) (lru_view c) = lr_key c ` set ns"
proof (intro set_eqI iffI)
  fix k assume "k \<in> view_keys (lr_hash_capacity c) (lru_view c)"
  then obtain i where i: "i < lr_hash_capacity c" "lru_view c i = SOcc k" by (auto simp: view_keys_def)
  then show "k \<in> lr_key c ` set ns" using lru_view_SOcc [OF assms i(1)] by auto
next
  fix k assume "k \<in> lr_key c ` set ns"
  then obtain n i where "k = lr_key c n" "n < lr_capacity c" "i < lr_hash_capacity c" "sa_at (lr_hash_table c) i = n" "lr_capacity c < LRU_NONE"
    using assms by (auto simp: lru_table_def)
  then show "k \<in> view_keys (lr_hash_capacity c) (lru_view c)" unfolding view_keys_def lru_view_def
    by (auto simp: HASH_EMPTY_def intro!: exI [of _ i])
qed

lemma hash_find_loop_ok:
  assumes lay: "lru_layout c" and t: "lru_table c ns" and d: "d < lr_hash_capacity c"
    and at: "lru_view c ((H + d) mod lr_hash_capacity c) = SEmpty \<or> lru_view c ((H + d) mod lr_hash_capacity c) = SOcc k"
    and before: "\<And>j. j < d \<Longrightarrow> lru_view c ((H + j) mod lr_hash_capacity c) \<noteq> SEmpty \<and> lru_view c ((H + j) mod lr_hash_capacity c) \<noteq> SOcc k"
    and i: "i \<le> d"
  shows "hash_find_loop c k (sz_sub (lr_hash_capacity c) 1) i ((H + i) mod lr_hash_capacity c) =
    Some (lru_view c ((H + d) mod lr_hash_capacity c) = SOcc k, (H + d) mod lr_hash_capacity c)"
  using i
proof (induction "d - i" arbitrary: i)
  let ?h = "lr_hash_capacity c"
  have lt: "(H + j) mod ?h < ?h" for j using lru_layoutD(1) [OF lay] by simp
  have get: "sa_get (lr_hash_table c) ((H + j) mod ?h) = Some (sa_at (lr_hash_table c) ((H + j) mod ?h))" for j
    using lay lt by (intro sa_get_ok) (simp add: lru_layout_def)
  note occ = lru_view_SOcc [OF t lt]
  {
    case 0
    then have id: "i = d" by simp
    show ?case
    proof (cases "lru_view c ((H + d) mod ?h) = SEmpty")
      case True
      then have "sa_at (lr_hash_table c) ((H + d) mod ?h) = HASH_EMPTY" by (simp add: lru_view_def split: if_splits)
      then show ?thesis using get [of d] d id True by (subst hash_find_loop.simps) simp
    next
      case False
      then show ?thesis using occ [of d] lru_key_read(1) [OF lay occ(3)] get [of d] d id at
        by (subst hash_find_loop.simps) auto
    qed
  next
    case (Suc m)
    then have lt: "i < d" by simp
    have ne: "lru_view c ((H + i) mod ?h) \<noteq> SEmpty" "lru_view c ((H + i) mod ?h) \<noteq> SOcc k" using before [OF lt] by auto
    then have "lr_key c (sa_at (lr_hash_table c) ((H + i) mod ?h)) \<noteq> k" using occ(4) [OF ne(1)] by auto
    moreover have "sz_add ((H + i) mod ?h) 1 AND sz_sub ?h 1 = (H + (i + 1)) mod ?h"
      using lru_layoutD(5) [OF lay, of H i] by (simp add: One_nat_def)
    ultimately show ?case
      using Suc.hyps(1) [of "i + 1"] Suc.hyps(2) lt d get [of i] occ(1) [OF ne(1)] lru_key_read(1) [OF lay occ(3) [OF ne(1)]]
      by (subst hash_find_loop.simps) simp
  }
qed

lemma hash_find_slot_ok:
  assumes lay: "lru_layout c" and t: "lru_table c ns" and k: "length k = lr_key_size c"
  obtains i where "i < lr_hash_capacity c" and "hash_find_slot c k = Some (k \<in> lr_key c ` set ns, i)"
    and "k \<in> lr_key c ` set ns \<Longrightarrow> sa_get (lr_hash_table c) i = Some (sa_at (lr_hash_table c) i) \<and>
      sa_at (lr_hash_table c) i \<in> set ns \<and> lr_key c (sa_at (lr_hash_table c) i) = k"
    and "k \<notin> lr_key c ` set ns \<Longrightarrow> sa_at (lr_hash_table c) i = HASH_EMPTY \<and> reach hash_fnv1a (lr_hash_capacity c) (lru_view c) k i"
proof -
  let ?h = "lr_hash_capacity c" and ?H = "hash_fnv1a k"
  obtain d where d: "d < ?h" "lru_view c ((?H + d) mod ?h) = SEmpty \<or> lru_view c ((?H + d) mod ?h) = SOcc k"
      "\<And>j. j < d \<Longrightarrow> lru_view c ((?H + j) mod ?h) \<noteq> SEmpty \<and> lru_view c ((?H + j) mod ?h) \<noteq> SOcc k"
    by (rule probe_first [OF lay t, of ?H "\<lambda>v. v = SOcc k"]) blast
  let ?i = "(?H + d) mod ?h"
  have lt: "?i < ?h" using lru_layoutD(1) [OF lay] by simp
  have ch: "chain_ok hash_fnv1a ?h (lru_view c)" using t by (simp add: lru_table_def)
  have mem: "lru_view c ?i = SOcc k \<longleftrightarrow> k \<in> lr_key c ` set ns"
  proof
    assume "lru_view c ?i = SOcc k"
    then show "k \<in> lr_key c ` set ns" using lt unfolding lru_view_keys [OF t, symmetric] view_keys_def by auto
  next
    assume "k \<in> lr_key c ` set ns"
    then have "lru_view c ?i \<noteq> SEmpty" using empty_means_absent [OF ch d(1), of k] d(3) lru_view_keys [OF t] by auto
    then show "lru_view c ?i = SOcc k" using d(2) by simp
  qed
  have "hash_find_slot c k = Some (k \<in> lr_key c ` set ns, ?i)"
    using hash_find_loop_ok [OF lay t d, of 0] k mem
    by (simp add: hash_find_slot_def user_read_def Let_def lru_layoutD(4) [OF lay])
  moreover have "sa_get (lr_hash_table c) ?i = Some (sa_at (lr_hash_table c) ?i)"
    using lay lt by (intro sa_get_ok) (simp add: lru_layout_def)
  moreover have "reach hash_fnv1a ?h (lru_view c) k ?i" using d(1,3) unfolding reach_def by blast
  moreover have "sa_at (lr_hash_table c) ?i = HASH_EMPTY" if "k \<notin> lr_key c ` set ns"
    using d(2) mem that by (auto simp: lru_view_def split: if_splits)
  moreover have "sa_at (lr_hash_table c) ?i \<in> set ns \<and> lr_key c (sa_at (lr_hash_table c) ?i) = k" if "k \<in> lr_key c ` set ns"
    using lru_view_SOcc(2,4) [OF t lt] mem that by auto
  ultimately show thesis by (intro that [OF lt]) auto
qed

lemma hash_store_ok:
  assumes lay: "lru_layout c" and t: "lru_table c ns" and n: "n < lr_capacity c" "lr_key c n \<notin> lr_key c ` set ns"
  obtains t' q where "hash_store c (lr_key c n) n = Some (c\<lparr>lr_hash_table := t', lr_hash_index := q\<rparr>)"
    and "lru_table (c\<lparr>lr_hash_table := t', lr_hash_index := q\<rparr>) (n # ns)"
    and "lru_layout (c\<lparr>lr_hash_table := t', lr_hash_index := q\<rparr>)"
    and "sa_addr t' = sa_addr (lr_hash_table c)" and "sa_addr q = sa_addr (lr_hash_index c)"
proof -
  let ?h = "lr_hash_capacity c" and ?k = "lr_key c n" and ?H = "hash_fnv1a (lr_key c n)"
  obtain d where d: "d < ?h" "lru_view c ((?H + d) mod ?h) = SEmpty \<or> False"
      "\<And>j. j < d \<Longrightarrow> lru_view c ((?H + j) mod ?h) \<noteq> SEmpty \<and> \<not> False"
    by (rule probe_first [OF lay t, of ?H "\<lambda>v. False"]) blast
  let ?i = "(?H + d) mod ?h"
  have lt: "?i < ?h" using lru_layoutD(1) [OF lay] by simp
  have e: "sa_at (lr_hash_table c) ?i = HASH_EMPTY" using d(2) by (auto simp: lru_view_def split: if_splits)
  have ne: "sa_at (lr_hash_table c) ((?H + j) mod ?h) \<noteq> HASH_EMPTY" if "j < d" for j
    using d(3) [OF that] by (auto simp: lru_view_def)
  have fs: "hash_free_slot (lr_hash_table c) (sz_sub ?h 1) (?H AND sz_sub ?h 1) = Some ?i"
    using hash_free_slot_ok [OF lay d(1) e ne, of 0] lru_layoutD(4) [OF lay] by simp
  obtain t' where t': "sa_put (lr_hash_table c) ?i n = Some t'" "sa_len t' = sa_len (lr_hash_table c)"
      "sa_at t' = (sa_at (lr_hash_table c))(?i := n)" "sa_addr t' = sa_addr (lr_hash_table c)"
    by (rule sa_put_ok [of ?i "lr_hash_table c"]) (use lay lt in \<open>simp add: lru_layout_def\<close>)
  obtain q where q: "sa_put (lr_hash_index c) n ?i = Some q" "sa_len q = sa_len (lr_hash_index c)"
      "sa_at q = (sa_at (lr_hash_index c))(n := ?i)" "sa_addr q = sa_addr (lr_hash_index c)"
    by (rule sa_put_ok [of n "lr_hash_index c"]) (use lay n in \<open>simp add: lru_layout_def\<close>)
  define c' where "c' = c\<lparr>lr_hash_table := t', lr_hash_index := q\<rparr>"
  have nn: "n \<noteq> HASH_EMPTY" using n(1) t by (auto simp: lru_table_def HASH_EMPTY_def)
  have key: "lr_key c' = lr_key c" by (simp add: c'_def lr_key_def fun_eq_iff)
  have v: "lru_view c' = (lru_view c)(?i := SOcc ?k)"
    using t'(3) nn key by (auto simp: lru_view_def c'_def fun_eq_iff)
  have "reach hash_fnv1a ?h (lru_view c) ?k ?i" using d(1,3) unfolding reach_def by blast
  then have "chain_ok hash_fnv1a ?h (lru_view c')"
    unfolding v using t n(2) lt lru_view_keys [OF t] by (intro chain_ok_insert) (simp_all add: lru_table_def)
  moreover have "\<forall>m \<in> set ns. \<exists>i < ?h. sa_at t' i = m"
  proof
    fix m assume m: "m \<in> set ns"
    then obtain i where i: "i < ?h" "sa_at (lr_hash_table c) i = m" "m < lr_capacity c" using t by (auto simp: lru_table_def)
    have "i \<noteq> ?i" using i(2,3) e t by (auto simp: lru_table_def HASH_EMPTY_def)
    then show "\<exists>i < ?h. sa_at t' i = m" using i t'(3) by (intro exI [of _ i]) simp
  qed
  moreover have "\<exists>i < ?h. sa_at t' i = n" using lt t'(3) by (intro exI [of _ ?i]) simp
  ultimately have "lru_table c' (n # ns)" using t n(1) t'(3) by (auto simp: lru_table_def c'_def)
  moreover have "lru_layout c'" using lay t'(2) q(2) by (simp add: lru_layout_def c'_def)
  moreover have "hash_store c ?k n = Some c'" using fs t'(1) q(1) by (simp add: hash_store_def Let_def c'_def)
  ultimately show thesis using t'(4) q(4) unfolding c'_def by (intro that)
qed


lemma hash_reset_ok:
  "i \<le> n \<Longrightarrow> n \<le> sa_len t \<Longrightarrow>
   \<exists>t'. hash_reset i n t = Some t' \<and> sa_len t' = sa_len t \<and> sa_addr t' = sa_addr t \<and>
     (\<forall>j. sa_at t' j = (if i \<le> j \<and> j < n then HASH_EMPTY else sa_at t j))"
proof (induction i n t rule: hash_reset.induct)
  case (1 i n t)
  show ?case
  proof (cases "i < n")
    case True
    then have "i < sa_len t" using 1(3) by simp
    then obtain t1 where t1: "sa_put t i HASH_EMPTY = Some t1" "sa_len t1 = sa_len t" "sa_at t1 = (sa_at t)(i := HASH_EMPTY)" "sa_addr t1 = sa_addr t"
      by (rule sa_put_ok)
    obtain t' where t': "hash_reset (i + 1) n t1 = Some t'" "sa_len t' = sa_len t1" "sa_addr t' = sa_addr t1"
        "\<forall>j. sa_at t' j = (if i + 1 \<le> j \<and> j < n then HASH_EMPTY else sa_at t1 j)"
      using 1(1) [OF True t1(1)] True 1(3) t1(2) by auto
    then show ?thesis using True t1 by (subst hash_reset.simps) auto
  next
    case False
    then show ?thesis using 1(2) by (subst hash_reset.simps) auto
  qed
qed

lemma lru_table_set: "set ns = set ms \<Longrightarrow> lru_table c ns = lru_table c ms"
  by (simp add: lru_table_def)

lemma lru_table_cong:
  assumes "lr_hash_table c' = lr_hash_table c" "lr_hash_capacity c' = lr_hash_capacity c" "lr_capacity c' = lr_capacity c"
    "\<And>n. n \<in> set ns \<Longrightarrow> lr_key c' n = lr_key c n" and t: "lru_table c ns"
  shows "lru_table c' ns"
proof -
  let ?h = "lr_hash_capacity c"
  have v: "lru_view c' i = lru_view c i" if "i < ?h" for i
    using that t assms(1,4) by (auto simp: lru_view_def lru_table_def)
  have pos: "0 < ?h" if "i < ?h" for i using that by simp
  have "reach hash_fnv1a ?h (lru_view c') k i" if "i < ?h" "reach hash_fnv1a ?h (lru_view c) k i" for i k
    using that(2) by (rule reach_mono) (use v that(1) in auto)
  then have "chain_ok hash_fnv1a ?h (lru_view c')" using t v by (simp add: lru_table_def chain_ok_def)
  then show ?thesis using t assms(1-3) by (simp add: lru_table_def)
qed

lemma hash_rebuild_loop_ok:
  assumes "lru_layout c" and "lru_table c ms" and "seg pv (lk (lr_next c)) a bs None" and "set bs \<subseteq> {..<lr_capacity c}"
    and "sa_len (lr_next c) = lr_capacity c" and "distinct (map (lr_key c) bs)" and "lr_key c ` set ms \<inter> lr_key c ` set bs = {}"
  shows "\<exists>t q. hash_rebuild_loop c (of_link (first_of bs None)) = Some (c\<lparr>lr_hash_table := t, lr_hash_index := q\<rparr>) \<and>
    lru_table (c\<lparr>lr_hash_table := t, lr_hash_index := q\<rparr>) (rev bs @ ms) \<and>
    lru_layout (c\<lparr>lr_hash_table := t, lr_hash_index := q\<rparr>) \<and>
    sa_addr t = sa_addr (lr_hash_table c) \<and> sa_addr q = sa_addr (lr_hash_index c)"
  using assms
proof (induction bs arbitrary: c ms a)
  case Nil
  have "hash_rebuild_loop c LRU_NONE = Some c" by (subst hash_rebuild_loop.simps) simp
  then show ?case
    using Nil.prems(1,2) by (intro exI [of _ "lr_hash_table c"] exI [of _ "lr_hash_index c"]) simp
next
  case (Cons n bs)
  have n: "n < lr_capacity c" "n \<noteq> LRU_NONE" using Cons.prems(2,4) by (auto simp: lru_table_def)
  have "lr_key c n \<notin> lr_key c ` set ms" using Cons.prems(7) by auto
  then obtain t1 q1 where st: "hash_store c (lr_key c n) n = Some (c\<lparr>lr_hash_table := t1, lr_hash_index := q1\<rparr>)"
      "lru_table (c\<lparr>lr_hash_table := t1, lr_hash_index := q1\<rparr>) (n # ms)"
      "lru_layout (c\<lparr>lr_hash_table := t1, lr_hash_index := q1\<rparr>)"
      "sa_addr t1 = sa_addr (lr_hash_table c)" "sa_addr q1 = sa_addr (lr_hash_index c)"
    by (rule hash_store_ok [OF Cons.prems(1,2) n(1)])
  define c1 where "c1 = c\<lparr>lr_hash_table := t1, lr_hash_index := q1\<rparr>"
  have key: "lr_key c1 = lr_key c" by (simp add: c1_def lr_key_def fun_eq_iff)
  have c1: "lr_next c1 = lr_next c" "lr_capacity c1 = lr_capacity c" by (simp_all add: c1_def)
  have "\<exists>t q. hash_rebuild_loop c1 (of_link (first_of bs None)) = Some (c1\<lparr>lr_hash_table := t, lr_hash_index := q\<rparr>) \<and>
      lru_table (c1\<lparr>lr_hash_table := t, lr_hash_index := q\<rparr>) (rev bs @ n # ms) \<and>
      lru_layout (c1\<lparr>lr_hash_table := t, lr_hash_index := q\<rparr>) \<and>
      sa_addr t = sa_addr (lr_hash_table c1) \<and> sa_addr q = sa_addr (lr_hash_index c1)"
  proof (rule Cons.IH)
    show "lru_layout c1" "lru_table c1 (n # ms)" using st by (simp_all add: c1_def)
    show "seg pv (lk (lr_next c1)) (Some n) bs None" using Cons.prems(3) c1 by simp
  qed (use Cons.prems c1 key in auto)
  then obtain t q where r: "hash_rebuild_loop c1 (of_link (first_of bs None)) = Some (c1\<lparr>lr_hash_table := t, lr_hash_index := q\<rparr>)"
      "lru_table (c1\<lparr>lr_hash_table := t, lr_hash_index := q\<rparr>) (rev bs @ n # ms)"
      "lru_layout (c1\<lparr>lr_hash_table := t, lr_hash_index := q\<rparr>)"
      "sa_addr t = sa_addr (lr_hash_table c1)" "sa_addr q = sa_addr (lr_hash_index c1)" by blast
  have "sa_get (lr_next c1) n = Some (of_link (first_of bs None))"
    using Cons.prems(3,5) n(1) link_of_eq [of "sa_at (lr_next c) n"] by (simp add: c1 sa_get_ok lk_def)
  then have "hash_rebuild_loop c n = Some (c\<lparr>lr_hash_table := t, lr_hash_index := q\<rparr>)"
    using r(1) st(1) n(2) lru_key_read(1) [OF Cons.prems(1) n(1)]
    by (subst hash_rebuild_loop.simps) (simp add: c1_def)
  then show ?case using r st(4,5)
    by (intro exI [of _ t] exI [of _ q]) (simp add: c1_def)
qed

lemma hash_rebuild_ok:
  assumes lay: "lru_layout c" and l: "lru_lists c ns fs" and d: "distinct (map (lr_key c) ns)"
  obtains t q where "hash_rebuild c = Some (c\<lparr>lr_hash_table := t, lr_hash_index := q\<rparr>)"
    and "lru_table (c\<lparr>lr_hash_table := t, lr_hash_index := q\<rparr>) ns"
    and "lru_layout (c\<lparr>lr_hash_table := t, lr_hash_index := q\<rparr>)"
    and "sa_addr t = sa_addr (lr_hash_table c)" and "sa_addr q = sa_addr (lr_hash_index c)"
proof -
  obtain t0 where t0: "hash_reset 0 (lr_hash_capacity c) (lr_hash_table c) = Some t0" "sa_len t0 = sa_len (lr_hash_table c)"
      "sa_addr t0 = sa_addr (lr_hash_table c)" "\<forall>j < lr_hash_capacity c. sa_at t0 j = HASH_EMPTY"
    using hash_reset_ok [of 0 "lr_hash_capacity c" "lr_hash_table c"] lay by (auto simp: lru_layout_def)
  define c0 where "c0 = c\<lparr>lr_hash_table := t0\<rparr>"
  have key: "lr_key c0 = lr_key c" by (simp add: c0_def lr_key_def fun_eq_iff)
  have lay0: "lru_layout c0" using lay t0(2) by (simp add: lru_layout_def c0_def)
  have "lru_view c0 i = SEmpty" if "i < lr_hash_capacity c" for i using that t0(4) by (simp add: lru_view_def c0_def)
  then have tab0: "lru_table c0 []" using t0(4) l by (auto simp: lru_table_def chain_ok_def c0_def lru_lists_def)
  have "\<exists>t q. hash_rebuild_loop c0 (of_link (first_of ns None)) = Some (c0\<lparr>lr_hash_table := t, lr_hash_index := q\<rparr>) \<and>
      lru_table (c0\<lparr>lr_hash_table := t, lr_hash_index := q\<rparr>) (rev ns @ []) \<and>
      lru_layout (c0\<lparr>lr_hash_table := t, lr_hash_index := q\<rparr>) \<and>
      sa_addr t = sa_addr (lr_hash_table c0) \<and> sa_addr q = sa_addr (lr_hash_index c0)"
    by (rule hash_rebuild_loop_ok [OF lay0 tab0, of "lk (lr_prev c)" None])
      (use l d key in \<open>auto simp: lru_lists_def c0_def\<close>)
  then obtain t q where "hash_rebuild_loop c0 (of_link (first_of ns None)) = Some (c0\<lparr>lr_hash_table := t, lr_hash_index := q\<rparr>)"
      "lru_table (c0\<lparr>lr_hash_table := t, lr_hash_index := q\<rparr>) (rev ns)"
      "lru_layout (c0\<lparr>lr_hash_table := t, lr_hash_index := q\<rparr>)"
      "sa_addr t = sa_addr t0" "sa_addr q = sa_addr (lr_hash_index c)" by (auto simp: c0_def)
  moreover have "lr_head c = of_link (first_of ns None)" using l by (simp add: lru_lists_def)
  ultimately show thesis using t0(1,3)
    by (intro that [where t = t and q = q]) (simp_all add: hash_rebuild_def c0_def lru_table_set [of ns "rev ns"])
qed

end
