(* ===== verification/Zenit_Blocks.thy ===== *)
theory Zenit_Blocks
  imports Zenit_Allocator "HOL-Library.Multiset"
begin

text \<open>
  Components that own many blocks: the addresses they hold, freeing all of them, and the heap between
  the first allocation and the last free.
\<close>

definition opt_list :: "'a option \<Rightarrow> 'a list" where
  "opt_list x = (case x of None \<Rightarrow> [] | Some y \<Rightarrow> [y])"

definition addr_list :: "nat option list \<Rightarrow> nat list" where
  "addr_list ps = concat (map opt_list ps)"

fun free_all :: "'h zenit_allocator_t \<Rightarrow> nat option list \<Rightarrow> 'h \<Rightarrow> 'h option" where
  "free_all a [] h = Some h"
| "free_all a (p # ps) h = do { h' \<leftarrow> free_fn a p h; free_all a ps h' }"

lemma free_all_eta: "free_all a [] = Some" "free_all a (p # ps) = (\<lambda>h. Option.bind (free_fn a p h) (free_all a ps))"
  by (simp_all add: fun_eq_iff)

lemma opt_list_simps [simp]: "opt_list None = []" "opt_list (Some y) = [y]"
  by (simp_all add: opt_list_def)

lemma addr_list_simps [simp]: "addr_list [] = []" "addr_list (p # ps) = opt_list p @ addr_list ps" "addr_list (ps @ qs) = addr_list ps @ addr_list qs"
  by (simp_all add: addr_list_def)

lemma free_all_ok:
  assumes c: "allocator_contract a live" and "distinct (addr_list ps)" and "set (addr_list ps) \<subseteq> live h"
  shows "\<exists>h'. free_all a ps h = Some h' \<and> live h' = live h - set (addr_list ps)"
  using assms(2,3)
proof (induction ps arbitrary: h)
  case (Cons p ps)
  show ?case
  proof (cases p)
    case None
    then show ?thesis using Cons allocator_contract.free_null [OF c] by simp
  next
    case (Some x)
    then have "x \<in> live h" using Cons.prems(2) by simp
    then obtain h1 where h1: "free_fn a (Some x) h = Some h1" "live h1 = live h - {x}"
      by (rule allocator_contract.free_addr [OF c])
    have "\<exists>h'. free_all a ps h1 = Some h' \<and> live h' = live h1 - set (addr_list ps)"
      by (rule Cons.IH) (use Cons.prems Some h1(2) in auto)
    then show ?thesis using Some h1 by auto
  qed
qed simp

text \<open>The blocks \<open>as\<close> were allocated between two states of the heap.\<close>

definition fresh_blocks :: "('h \<Rightarrow> nat set) \<Rightarrow> 'h \<Rightarrow> nat list \<Rightarrow> 'h \<Rightarrow> bool" where
  "fresh_blocks live h as h' \<longleftrightarrow> distinct as \<and> set as \<inter> live h = {} \<and> live h' = live h \<union> set as"

text \<open>Giving everything back restores the heap.\<close>

lemma free_fresh:
  assumes c: "allocator_contract a live" and f: "fresh_blocks live h (x # addr_list ps) h1"
  obtains h2 h3 where "free_all a ps h1 = Some h2" and "free_fn a (Some x) h2 = Some h3" and "live h3 = live h"
proof -
  obtain h2 where h2: "free_all a ps h1 = Some h2" "live h2 = live h1 - set (addr_list ps)"
    using free_all_ok [OF c, of ps h1] f by (auto simp: fresh_blocks_def)
  have "x \<in> live h2" using f h2(2) by (auto simp: fresh_blocks_def)
  then obtain h3 where "free_fn a (Some x) h2 = Some h3" "live h3 = live h2 - {x}"
    by (rule allocator_contract.free_addr [OF c])
  then show thesis using h2 f by (intro that [of h2 h3]) (auto simp: fresh_blocks_def)
qed

lemma fresh_blocks_mset: "mset as = mset bs \<Longrightarrow> fresh_blocks live h as h' = fresh_blocks live h bs h'"
  unfolding fresh_blocks_def by (metis mset_eq_setD mset_eq_imp_distinct_iff)

lemma fresh_blocks_trans:
  "fresh_blocks live h as h1 \<Longrightarrow> fresh_blocks live h1 bs h2 \<Longrightarrow> fresh_blocks live h (as @ bs) h2"
  by (auto simp: fresh_blocks_def)

lemma fresh_blocks_Nil: "live h' = live h \<Longrightarrow> fresh_blocks live h [] h'"
  by (simp add: fresh_blocks_def)

lemma fresh_blocks_one: "x \<notin> live h \<Longrightarrow> live h' = insert x (live h) \<Longrightarrow> fresh_blocks live h [x] h'"
  by (auto simp: fresh_blocks_def)

lemma addr_list_Some [simp]: "addr_list (map Some xs) = xs"
  by (induction xs) simp_all

lemma free_all_append: "free_all a (ps @ qs) h = Option.bind (free_all a ps h) (free_all a qs)"
proof (induction ps arbitrary: h)
  case (Cons p ps)
  show ?case unfolding append_Cons free_all.simps(2) Cons.IH bind_assoc ..
qed simp

text \<open>Freeing the blocks of a fresh list, in any order.\<close>

lemma free_list_fresh:
  assumes c: "allocator_contract a live" and f: "fresh_blocks live h as h1" and p: "mset (addr_list ps) = mset as"
  obtains h2 where "free_all a ps h1 = Some h2" and "live h2 = live h"
proof -
  have "fresh_blocks live h (addr_list ps) h1" using f fresh_blocks_mset [OF p, of live h h1] by simp
  then have "distinct (addr_list ps)" "set (addr_list ps) \<subseteq> live h1" "live h1 - set (addr_list ps) = live h"
    by (auto simp: fresh_blocks_def)
  then show thesis using free_all_ok [OF c, of ps h1] that by auto
qed

end
