(* ===== verification/Zenit_Cache.thy ===== *)
theory Zenit_Cache
  imports Zenit_Lru Zenit_Blocks
begin

text \<open>
  What the LRU cache promises: its entries are a list in order of use, at most \<open>capacity\<close> long, and every
  operation of \<open>src/lru.c\<close> implements its counterpart on that list, the eviction callback included.
\<close>

section \<open>The abstract cache\<close>

type_synonym cache_entry = "byte list \<times> byte list"

definition cache_drop :: "byte list \<Rightarrow> cache_entry list \<Rightarrow> cache_entry list" where
  "cache_drop k es = filter (\<lambda>e. fst e \<noteq> k) es"

definition cache_put :: "nat \<Rightarrow> byte list \<Rightarrow> byte list \<Rightarrow> cache_entry list \<Rightarrow> cache_entry list" where
  "cache_put cap k v es = take cap ((k, v) # cache_drop k es)"

definition cache_evicted :: "nat \<Rightarrow> byte list \<Rightarrow> cache_entry list \<Rightarrow> cache_entry option" where
  "cache_evicted cap k es = (if map_of es k = None \<and> length es = cap then Some (last es) else None)"

definition cache_touch :: "byte list \<Rightarrow> cache_entry list \<Rightarrow> cache_entry list" where
  "cache_touch k es = (case map_of es k of None \<Rightarrow> es | Some v \<Rightarrow> (k, v) # cache_drop k es)"

text \<open>The effect of the callback on the caller's context.\<close>

definition evict_call :: "(byte list \<Rightarrow> byte list \<Rightarrow> 'c \<Rightarrow> 'c) option \<Rightarrow> cache_entry \<Rightarrow> 'c \<Rightarrow> 'c" where
  "evict_call f e ctx = (case f of None \<Rightarrow> ctx | Some g \<Rightarrow> g (fst e) (snd e) ctx)"

section \<open>The invariant\<close>

definition lru_entry :: "('h, 'c) zenit_lru_t \<Rightarrow> nat \<Rightarrow> cache_entry" where
  "lru_entry c n = (lr_key c n, lr_val c n)"

definition lru_inv :: "('h, 'c) zenit_lru_t \<Rightarrow> nat list \<Rightarrow> nat list \<Rightarrow> bool" where
  "lru_inv c ns fs \<longleftrightarrow> lru_layout c \<and> lru_lists c ns fs \<and> set (ns @ fs) = {..<lr_capacity c} \<and>
    lr_count c = length ns \<and> distinct (map (lr_key c) ns) \<and> lru_table c ns"

definition lru_ok :: "('h, 'c) zenit_lru_t \<Rightarrow> cache_entry list \<Rightarrow> bool" where
  "lru_ok c es \<longleftrightarrow> (\<exists>ns fs. lru_inv c ns fs \<and> es = map (lru_entry c) ns)"

text \<open>What no operation changes: sizes, callback, allocator and the blocks it owns.\<close>

definition lru_keep :: "('h, 'c) zenit_lru_t \<Rightarrow> ('h, 'c) zenit_lru_t \<Rightarrow> bool" where
  "lru_keep c c' \<longleftrightarrow> lr_self c' = lr_self c \<and> lr_key_size c' = lr_key_size c \<and> lr_value_size c' = lr_value_size c \<and>
    lr_capacity c' = lr_capacity c \<and> lr_hash_capacity c' = lr_hash_capacity c \<and> lr_evict_fn c' = lr_evict_fn c \<and>
    lr_allocator c' = lr_allocator c \<and> paddr (lr_keys c') = paddr (lr_keys c) \<and> paddr (lr_values c') = paddr (lr_values c) \<and>
    sa_addr (lr_prev c') = sa_addr (lr_prev c) \<and> sa_addr (lr_next c') = sa_addr (lr_next c) \<and>
    sa_addr (lr_hash_index c') = sa_addr (lr_hash_index c) \<and> sa_addr (lr_hash_table c') = sa_addr (lr_hash_table c)"

lemma lru_keep_refl: "lru_keep c c" by (simp add: lru_keep_def)

lemma lru_keep_trans: "lru_keep a b \<Longrightarrow> lru_keep b c \<Longrightarrow> lru_keep a c" by (simp add: lru_keep_def)

lemma frame_keep: "lru_frame c c' \<Longrightarrow> lru_keep c c'" using lru_frameD [of c c'] by (simp add: lru_keep_def)

lemma lru_inv_length: "lru_inv c ns fs \<Longrightarrow> length ns + length fs = lr_capacity c"
  using distinct_card [of "ns @ fs"] by (auto simp: lru_inv_def lru_lists_def)

lemma frame_key: "lru_frame c c' \<Longrightarrow> lr_key c' = lr_key c"
  using lru_frameD(2,5) [of c c'] by (simp add: lr_key_def fun_eq_iff)

lemma frame_val: "lru_frame c c' \<Longrightarrow> lr_val c' = lr_val c"
  using lru_frameD(3,6) [of c c'] by (simp add: lr_val_def fun_eq_iff)

lemma frame_layout: "lru_frame c c' \<Longrightarrow> lru_layout c \<Longrightarrow> lru_layout c'"
  using lru_frameD [of c c'] by (simp add: lru_layout_def)

lemma frame_table: "lru_frame c c' \<Longrightarrow> lru_table c ns \<Longrightarrow> lru_table c' ns"
  using lru_frameD [of c c'] frame_key [of c c'] by (intro lru_table_cong [of c' c ns]) simp_all

section \<open>Writing a node\<close>

lemma lru_val_write:
  assumes lay: "lru_layout c" and n: "n < lr_capacity c" and v: "length v = lr_value_size c"
  obtains q where "mem_write (lr_values c) (sz_mul n (lr_value_size c)) v = Some q"
    and "\<And>m. m < lr_capacity c \<Longrightarrow> lr_val (c\<lparr>lr_values := q\<rparr>) m = (if m = n then v else lr_val c m)"
    and "plen q = plen (lr_values c)" and "paddr q = paddr (lr_values c)"
proof -
  have f: "lr_capacity c * lr_value_size c \<le> plen (lr_values c)" "0 < lr_value_size c" "plen (lr_values c) < size_mod"
    using lay by (simp_all add: lru_layout_def)
  note r = slot_in_range [OF f(1) _ f(2,3)]
  obtain q where q: "mem_write (lr_values c) (sz_mul n (lr_value_size c)) v = Some q"
      "pbytes q = blit (pbytes (lr_values c)) (sz_mul n (lr_value_size c)) v" "plen q = plen (lr_values c)"
      "paddr q = paddr (lr_values c)" "q \<noteq> None"
    by (rule mem_write_obtain [of "lr_values c" "sz_mul n (lr_value_size c)" v]) (use r [OF n] v in simp_all)
  have "lr_val (c\<lparr>lr_values := q\<rparr>) m = (if m = n then v else lr_val c m)" if "m < lr_capacity c" for m
    using r [OF n] r [OF that] v by (simp add: lr_val_def q(2) slot_blit)
  then show thesis using q by (intro that [of q])
qed

lemma lru_key_write:
  assumes lay: "lru_layout c" and n: "n < lr_capacity c" and k: "length k = lr_key_size c"
  obtains q where "mem_write (lr_keys c) (sz_mul n (lr_key_size c)) k = Some q"
    and "\<And>m. m < lr_capacity c \<Longrightarrow> lr_key (c\<lparr>lr_keys := q\<rparr>) m = (if m = n then k else lr_key c m)"
    and "plen q = plen (lr_keys c)" and "paddr q = paddr (lr_keys c)"
proof -
  have f: "lr_capacity c * lr_key_size c \<le> plen (lr_keys c)" "0 < lr_key_size c" "plen (lr_keys c) < size_mod"
    using lay by (simp_all add: lru_layout_def)
  note r = slot_in_range [OF f(1) _ f(2,3)]
  obtain q where q: "mem_write (lr_keys c) (sz_mul n (lr_key_size c)) k = Some q"
      "pbytes q = blit (pbytes (lr_keys c)) (sz_mul n (lr_key_size c)) k" "plen q = plen (lr_keys c)"
      "paddr q = paddr (lr_keys c)" "q \<noteq> None"
    by (rule mem_write_obtain [of "lr_keys c" "sz_mul n (lr_key_size c)" k]) (use r [OF n] k in simp_all)
  have "lr_key (c\<lparr>lr_keys := q\<rparr>) m = (if m = n then k else lr_key c m)" if "m < lr_capacity c" for m
    using r [OF n] r [OF that] k by (simp add: lr_key_def q(2) slot_blit)
  then show thesis using q by (intro that [of q])
qed

section \<open>Finding a key\<close>

text \<open>A key is absent, or it is the key of one node of the list.\<close>

lemma lru_find:
  assumes inv: "lru_inv c ns fs" and k: "length k = lr_key_size c"
  obtains (absent) i where "k \<notin> lr_key c ` set ns" and "hash_find_slot c k = Some (False, i)"
    and "map_of (map (lru_entry c) ns) k = None" and "cache_drop k (map (lru_entry c) ns) = map (lru_entry c) ns"
  | (present) i n as bs where "ns = as @ n # bs" and "lr_key c n = k" and "hash_find_slot c k = Some (True, i)"
    and "sa_get (lr_hash_table c) i = Some n" and "n < lr_capacity c"
    and "map_of (map (lru_entry c) ns) k = Some (lr_val c n)"
    and "cache_drop k (map (lru_entry c) ns) = map (lru_entry c) (as @ bs)"
proof -
  have lay: "lru_layout c" and t: "lru_table c ns" and d: "distinct (map (lr_key c) ns)"
    and l: "lru_lists c ns fs" using inv by (simp_all add: lru_inv_def)
  have drop: "cache_drop k (map (lru_entry c) xs) = map (lru_entry c) xs" "map_of (map (lru_entry c) xs) k = None"
    if "k \<notin> lr_key c ` set xs" for xs
    using that by (induction xs) (auto simp: cache_drop_def lru_entry_def)
  obtain i where i: "i < lr_hash_capacity c" "hash_find_slot c k = Some (k \<in> lr_key c ` set ns, i)"
      "k \<in> lr_key c ` set ns \<Longrightarrow> sa_get (lr_hash_table c) i = Some (sa_at (lr_hash_table c) i) \<and>
        sa_at (lr_hash_table c) i \<in> set ns \<and> lr_key c (sa_at (lr_hash_table c) i) = k"
      "k \<notin> lr_key c ` set ns \<Longrightarrow> sa_at (lr_hash_table c) i = HASH_EMPTY \<and> reach hash_fnv1a (lr_hash_capacity c) (lru_view c) k i"
    by (rule hash_find_slot_ok [OF lay t k]) blast
  show thesis
  proof (cases "k \<in> lr_key c ` set ns")
    case False
    then show thesis using i(2) drop [OF False] by (intro absent [of i]) simp_all
  next
    case True
    define n where "n = sa_at (lr_hash_table c) i"
    have n: "sa_get (lr_hash_table c) i = Some n" "n \<in> set ns" "lr_key c n = k" using i(3) [OF True] by (simp_all add: n_def)
    obtain as bs where ns: "ns = as @ n # bs" using split_list [OF n(2)] by blast
    have "k \<notin> lr_key c ` set as" "k \<notin> lr_key c ` set bs" using d n(3) by (auto simp: ns)
    note a = drop [OF this(1)] and b = drop [OF this(2)]
    have "cache_drop k (map (lru_entry c) ns) = map (lru_entry c) (as @ bs)"
      using a(1) b(1) n(3) by (simp add: ns cache_drop_def lru_entry_def)
    moreover have "map_of (map (lru_entry c) ns) k = Some (lr_val c n)"
      using a(2) n(3) by (simp add: ns map_add_def lru_entry_def)
    moreover have "n < lr_capacity c" using l n(2) by (auto simp: lru_lists_def)
    ultimately show thesis using n ns i(2) True by (intro present [of as n bs i]) simp_all
  qed
qed

section \<open>Moving and filling nodes\<close>

lemma lru_touch_inv:
  assumes inv: "lru_inv c (as @ n # bs) fs"
  obtains c' where "lru_move_to_front c n = Some c'" and "lru_inv c' (n # as @ bs) fs" and "lru_entry c' = lru_entry c"
    and "lru_keep c c'"
proof -
  have l: "lru_lists c (as @ n # bs) fs" using inv by (simp add: lru_inv_def)
  obtain c' where c': "lru_move_to_front c n = Some c'" "lru_lists c' (n # as @ bs) fs" "lru_frame c c'"
    by (rule lru_move_to_front_ok [OF l])
  have s: "set (as @ n # bs) = set (n # as @ bs)" by auto
  have "lru_table c (n # as @ bs)" using inv lru_table_set [OF s, of c] unfolding lru_inv_def by blast
  then have "lru_table c' (n # as @ bs)" by (rule frame_table [OF c'(3)])
  moreover have "distinct (map (lr_key c') (n # as @ bs))" using inv frame_key [OF c'(3)] by (auto simp: lru_inv_def)
  moreover have "lru_layout c'" using inv frame_layout [OF c'(3)] by (simp add: lru_inv_def)
  ultimately have "lru_inv c' (n # as @ bs) fs"
    using c' inv lru_frameD(1,4) [OF c'(3)] unfolding lru_inv_def by auto
  then show thesis using c' frame_key [OF c'(3)] frame_val [OF c'(3)] frame_keep [OF c'(3)]
    by (intro that [of c']) (simp_all add: lru_entry_def fun_eq_iff)
qed

lemma lru_val_inv:
  assumes inv: "lru_inv c ns fs" and q: "plen q = plen (lr_values c)"
  shows "lru_inv (c\<lparr>lr_values := q\<rparr>) ns fs"
proof -
  have "lr_key (c\<lparr>lr_values := q\<rparr>) = lr_key c" by (simp add: lr_key_def fun_eq_iff)
  then show ?thesis using inv q lru_table_cong [of "c\<lparr>lr_values := q\<rparr>" c ns]
    by (simp add: lru_inv_def lru_layout_def lru_lists_def)
qed

text \<open>Filling a node that is in neither list, and linking it in front.\<close>

lemma lru_fill:
  assumes lay: "lru_layout c" and l: "lru_lists c ns fs" and n: "n \<notin> set ns" "n \<notin> set fs" "n < lr_capacity c"
    and k: "length k = lr_key_size c" and v: "length v = lr_value_size c"
  obtains ks vs c' where "mem_write (lr_keys c) (sz_mul n (lr_key_size c)) k = Some ks"
    and "mem_write (lr_values c) (sz_mul n (lr_value_size c)) v = Some vs"
    and "lru_push_front (c\<lparr>lr_keys := ks, lr_values := vs\<rparr>) n = Some c'"
    and "lru_lists c' (n # ns) fs" and "lru_layout c'" and "lru_keep c c'" and "lr_count c' = lr_count c"
    and "lr_hash_table c' = lr_hash_table c"
    and "\<And>m. m < lr_capacity c \<Longrightarrow> lru_entry c' m = (if m = n then (k, v) else lru_entry c m)"
proof -
  obtain ks where ks: "mem_write (lr_keys c) (sz_mul n (lr_key_size c)) k = Some ks"
      "\<And>m. m < lr_capacity c \<Longrightarrow> lr_key (c\<lparr>lr_keys := ks\<rparr>) m = (if m = n then k else lr_key c m)"
      "plen ks = plen (lr_keys c)" "paddr ks = paddr (lr_keys c)"
    by (rule lru_key_write [OF lay n(3) k]) blast
  obtain vs where vs: "mem_write (lr_values c) (sz_mul n (lr_value_size c)) v = Some vs"
      "\<And>m. m < lr_capacity c \<Longrightarrow> lr_val (c\<lparr>lr_values := vs\<rparr>) m = (if m = n then v else lr_val c m)"
      "plen vs = plen (lr_values c)" "paddr vs = paddr (lr_values c)"
    by (rule lru_val_write [OF lay n(3) v]) blast
  define c1 where "c1 = c\<lparr>lr_keys := ks, lr_values := vs\<rparr>"
  have lay1: "lru_layout c1" using lay ks(3) vs(3) by (simp add: c1_def lru_layout_def)
  have l1: "lru_lists c1 ns fs" "n < lr_capacity c1" using l n by (simp_all add: c1_def lru_lists_def)
  obtain c' where c': "lru_push_front c1 n = Some c'" "lru_lists c' (n # ns) fs" "lru_frame c1 c'"
    by (rule lru_push_front_ok [OF l1(1) n(1,2) l1(2)])
  have "lru_entry c' m = (if m = n then (k, v) else lru_entry c m)" if "m < lr_capacity c" for m
    using ks(2) [OF that] vs(2) [OF that] frame_key [OF c'(3)] frame_val [OF c'(3)]
    by (simp add: lru_entry_def c1_def lr_key_def lr_val_def)
  moreover have "lru_keep c c1" using ks(4) vs(4) by (simp add: lru_keep_def c1_def)
  then have "lru_keep c c'" using frame_keep [OF c'(3)] by (rule lru_keep_trans)
  moreover have "lr_count c' = lr_count c" "lr_hash_table c' = lr_hash_table c"
    using lru_frameD(4,7) [OF c'(3)] by (simp_all add: c1_def)
  ultimately show thesis using ks(1) vs(1) c'(1,2) frame_layout [OF c'(3) lay1] unfolding c1_def
    by (intro that [of ks vs c'])
qed

text \<open>The invariant from its parts, once the table is right.\<close>

lemma entry_key: "lru_entry c n = e \<Longrightarrow> lr_key c n = fst e"
  by (auto simp: lru_entry_def)

lemma lru_table_field:
  "lru_entry (c\<lparr>lr_hash_table := t, lr_hash_index := q\<rparr>) = lru_entry c" "lr_key (c\<lparr>lr_hash_table := t, lr_hash_index := q\<rparr>) = lr_key c"
  "lru_lists (c\<lparr>lr_hash_table := t, lr_hash_index := q\<rparr>) ns fs = lru_lists c ns fs"
  by (simp_all add: lru_entry_def lr_key_def lr_val_def lru_lists_def fun_eq_iff)

section \<open>Inserting\<close>

lemma lru_put_present:
  assumes inv: "lru_inv c (as @ n # bs) fs" and k: "lr_key c n = k" "length k = lr_key_size c" and v: "length v = lr_value_size c"
    and f: "hash_find_slot c k = Some (True, i)" "sa_get (lr_hash_table c) i = Some n" and n: "n < lr_capacity c"
  obtains c' where "zenit_lru_put (Some c) (Some k) (Some v) ctx = Some (ZENIT_OK, Some c', ctx)"
    and "lru_ok c' ((k, v) # map (lru_entry c) (as @ bs))" and "lru_keep c c'"
proof -
  have lay: "lru_layout c" using inv by (simp add: lru_inv_def)
  obtain q where q: "mem_write (lr_values c) (sz_mul n (lr_value_size c)) v = Some q"
      "\<And>m. m < lr_capacity c \<Longrightarrow> lr_val (c\<lparr>lr_values := q\<rparr>) m = (if m = n then v else lr_val c m)"
      "plen q = plen (lr_values c)" "paddr q = paddr (lr_values c)"
    by (rule lru_val_write [OF lay n v]) blast
  obtain c' where c': "lru_move_to_front (c\<lparr>lr_values := q\<rparr>) n = Some c'" "lru_inv c' (n # as @ bs) fs"
      "lru_entry c' = lru_entry (c\<lparr>lr_values := q\<rparr>)" "lru_keep (c\<lparr>lr_values := q\<rparr>) c'"
    by (rule lru_touch_inv [OF lru_val_inv [OF inv q(3)]])
  have d: "distinct (as @ n # bs)" "set (as @ n # bs) \<subseteq> {..<lr_capacity c}" using inv by (auto simp: lru_inv_def lru_lists_def)
  have e: "lru_entry c' m = (if m = n then (k, v) else lru_entry c m)" if "m < lr_capacity c" for m
    using q(2) [OF that] k(1) c'(3) by (simp add: lru_entry_def lr_key_def)
  have "map (lru_entry c') (n # as @ bs) = (k, v) # map (lru_entry c) (as @ bs)" using e n d by auto
  then have "lru_ok c' ((k, v) # map (lru_entry c) (as @ bs))" using c'(2) unfolding lru_ok_def by metis
  moreover have "lru_keep c c'" using c'(4) q(4) by (simp add: lru_keep_def)
  moreover have "zenit_lru_put (Some c) (Some k) (Some v) ctx = Some (ZENIT_OK, Some c', ctx)"
    using f v q(1) c'(1) by (simp add: zenit_lru_put_def user_read_def)
  ultimately show thesis by (intro that)
qed

lemma lru_put_room:
  assumes inv: "lru_inv c ns (n # fs)" and k: "k \<notin> lr_key c ` set ns" "length k = lr_key_size c" and v: "length v = lr_value_size c"
    and f: "hash_find_slot c k = Some (False, i)"
  obtains c' where "zenit_lru_put (Some c) (Some k) (Some v) ctx = Some (ZENIT_OK, Some c', ctx)"
    and "lru_ok c' ((k, v) # map (lru_entry c) ns)" and "lru_keep c c'"
proof -
  have lay: "lru_layout c" and l: "lru_lists c ns (n # fs)" and cnt: "lr_count c = length ns"
    and all: "set (ns @ n # fs) = {..<lr_capacity c}" and t: "lru_table c ns" and dk: "distinct (map (lr_key c) ns)"
    using inv by (simp_all add: lru_inv_def)
  note p = freelist_pop_ok [OF l]
  define c1 where "c1 = c\<lparr>lr_free_head := of_link (first_of fs None), lr_count := Suc (length ns)\<rparr>"
  have n: "n \<notin> set ns" "n \<notin> set fs" "n < lr_capacity c1" and lt: "length ns < lr_capacity c"
    and cap: "lr_capacity c < LRU_NONE"
    using l lru_inv_length [OF inv] by (auto simp: lru_lists_def c1_def)
  have lay1: "lru_layout c1" and l1: "lru_lists c1 ns fs" using lay p(2) by (simp_all add: c1_def lru_layout_def lru_lists_def)
  obtain ks vs c2 where c2: "mem_write (lr_keys c1) (sz_mul n (lr_key_size c1)) k = Some ks"
      "mem_write (lr_values c1) (sz_mul n (lr_value_size c1)) v = Some vs"
      "lru_push_front (c1\<lparr>lr_keys := ks, lr_values := vs\<rparr>) n = Some c2" "lru_lists c2 (n # ns) fs" "lru_layout c2"
      "lru_keep c1 c2" "lr_count c2 = lr_count c1" "lr_hash_table c2 = lr_hash_table c1"
      "\<And>m. m < lr_capacity c1 \<Longrightarrow> lru_entry c2 m = (if m = n then (k, v) else lru_entry c1 m)"
    by (rule lru_fill [OF lay1 l1 n, of k v]) (use k v in \<open>simp_all add: c1_def\<close>)
  have capc: "lr_capacity c2 = lr_capacity c" "lr_hash_capacity c2 = lr_hash_capacity c" using c2(6) by (simp_all add: lru_keep_def c1_def)
  have e1: "lru_entry c1 = lru_entry c" by (simp add: lru_entry_def lr_key_def lr_val_def c1_def fun_eq_iff)
  have sub: "m < lr_capacity c1" if "m \<in> set ns" for m using that all by (auto simp: c1_def)
  have e: "lru_entry c2 n = (k, v)" "\<And>m. m \<in> set ns \<Longrightarrow> lru_entry c2 m = lru_entry c m"
    using c2(9) n sub e1 by auto
  then have ek: "lr_key c2 n = k" "\<And>m. m \<in> set ns \<Longrightarrow> lr_key c2 m = lr_key c m" by (auto simp: lru_entry_def)
  have t2: "lru_table c2 ns" by (rule lru_table_cong [OF _ _ _ ek(2) t]) (use c2(8) capc in \<open>simp_all add: c1_def\<close>)
  have "lr_key c2 n \<notin> lr_key c2 ` set ns" "n < lr_capacity c2" using ek k(1) n(3) capc by (auto simp: c1_def)
  then obtain t' q where st: "hash_store c2 k n = Some (c2\<lparr>lr_hash_table := t', lr_hash_index := q\<rparr>)"
      "lru_table (c2\<lparr>lr_hash_table := t', lr_hash_index := q\<rparr>) (n # ns)" "lru_layout (c2\<lparr>lr_hash_table := t', lr_hash_index := q\<rparr>)"
      "sa_addr t' = sa_addr (lr_hash_table c2)" "sa_addr q = sa_addr (lr_hash_index c2)"
    using hash_store_ok [OF c2(5) t2, of n] ek(1) by metis
  define c3 where "c3 = c2\<lparr>lr_hash_table := t', lr_hash_index := q\<rparr>"
  have "distinct (map (lr_key c2) (n # ns))"
  proof -
    have m: "map (lr_key c2) ns = map (lr_key c) ns" using ek(2) by simp
    show ?thesis unfolding list.map distinct.simps m using dk ek(1) k(1) by simp
  qed
  then have "lru_inv c3 (n # ns) fs" using st c2(4,7) all capc
    unfolding lru_inv_def c3_def lru_table_field by (simp add: c1_def)
  moreover have "map (lru_entry c3) (n # ns) = (k, v) # map (lru_entry c) ns" using e by (simp add: c3_def lru_table_field)
  ultimately have "lru_ok c3 ((k, v) # map (lru_entry c) ns)" unfolding lru_ok_def by metis
  moreover have "lru_keep c c3" using c2(6) st(4,5) by (simp add: lru_keep_def c3_def c1_def)
  moreover have "sz_add (length ns) 1 = Suc (length ns)" using lt cap by (simp add: sz_add_def size_mod_def LRU_NONE_def)
  then have "zenit_lru_put (Some c) (Some k) (Some v) ctx = Some (ZENIT_OK, Some c3, ctx)"
    using f p(1) cnt lt k(2) v c2(1-3) st(1) by (simp add: zenit_lru_put_def user_read_def c1_def c3_def)
  ultimately show thesis by (intro that)
qed

lemma lru_evict_ok:
  assumes "lru_layout c" and "n < lr_capacity c"
  shows "lru_evict c n ctx = Some (evict_call (lr_evict_fn c) (lru_entry c n) ctx)"
  using lru_key_read(1) [OF assms] lru_val_read(1) [OF assms]
  by (cases "lr_evict_fn c") (simp_all add: lru_evict_def evict_call_def lru_entry_def)

lemma lru_put_full:
  assumes inv: "lru_inv c (ns @ [n]) []" and k: "k \<notin> lr_key c ` set (ns @ [n])" "length k = lr_key_size c" and v: "length v = lr_value_size c"
    and f: "hash_find_slot c k = Some (False, i)"
  obtains c' where "zenit_lru_put (Some c) (Some k) (Some v) ctx = Some (ZENIT_OK, Some c', evict_call (lr_evict_fn c) (lru_entry c n) ctx)"
    and "lru_ok c' ((k, v) # map (lru_entry c) ns)" and "lru_keep c c'"
proof -
  have lay: "lru_layout c" and l: "lru_lists c (ns @ [n]) []" and cnt: "lr_count c = lr_capacity c"
    and all: "set (ns @ [n]) = {..<lr_capacity c}" and dk: "distinct (map (lr_key c) ns)"
    using inv lru_inv_length [OF inv] by (simp_all add: lru_inv_def)
  obtain c1 where c1: "lru_unlink c n = Some c1" "lru_lists c1 ns []" "lru_frame c c1"
    using lru_unlink_ok [OF l] by auto
  have tail: "lr_tail c = n" and n: "n \<notin> set ns" "n \<notin> set []" "n < lr_capacity c1" and nc: "n < lr_capacity c"
    using l lru_frameD(1) [OF c1(3)] by (simp_all add: lru_lists_def)
  note fr = lru_frameD [OF c1(3)]
  have lay1: "lru_layout c1" by (rule frame_layout [OF c1(3) lay])
  obtain ks vs c2 where c2: "mem_write (lr_keys c1) (sz_mul n (lr_key_size c1)) k = Some ks"
      "mem_write (lr_values c1) (sz_mul n (lr_value_size c1)) v = Some vs"
      "lru_push_front (c1\<lparr>lr_keys := ks, lr_values := vs\<rparr>) n = Some c2" "lru_lists c2 (n # ns) []" "lru_layout c2"
      "lru_keep c1 c2" "lr_count c2 = lr_count c1" "lr_hash_table c2 = lr_hash_table c1"
      "\<And>m. m < lr_capacity c1 \<Longrightarrow> lru_entry c2 m = (if m = n then (k, v) else lru_entry c1 m)"
    by (rule lru_fill [OF lay1 c1(2) n, of k v]) (use k v fr in simp_all)
  have e1: "lru_entry c1 = lru_entry c" using frame_key [OF c1(3)] frame_val [OF c1(3)] by (simp add: lru_entry_def fun_eq_iff)
  have sub: "m < lr_capacity c1" if "m \<in> set ns" for m using that all fr(1) by auto
  have e: "lru_entry c2 n = (k, v)" "\<And>m. m \<in> set ns \<Longrightarrow> lru_entry c2 m = lru_entry c m"
    using c2(9) n sub e1 by auto
  then have ek: "lr_key c2 n = k" "\<And>m. m \<in> set ns \<Longrightarrow> lr_key c2 m = lr_key c m" by (auto simp: lru_entry_def)
  have dist: "distinct (map (lr_key c2) (n # ns))"
  proof -
    have m: "map (lr_key c2) ns = map (lr_key c) ns" using ek(2) by simp
    show ?thesis unfolding list.map distinct.simps m using dk ek(1) k(1) by simp
  qed
  obtain t' q where st: "hash_rebuild c2 = Some (c2\<lparr>lr_hash_table := t', lr_hash_index := q\<rparr>)"
      "lru_table (c2\<lparr>lr_hash_table := t', lr_hash_index := q\<rparr>) (n # ns)" "lru_layout (c2\<lparr>lr_hash_table := t', lr_hash_index := q\<rparr>)"
      "sa_addr t' = sa_addr (lr_hash_table c2)" "sa_addr q = sa_addr (lr_hash_index c2)"
    by (rule hash_rebuild_ok [OF c2(5,4) dist])
  define c3 where "c3 = c2\<lparr>lr_hash_table := t', lr_hash_index := q\<rparr>"
  have kp: "lru_keep c c2" using lru_keep_trans [OF frame_keep [OF c1(3)] c2(6)] .
  have "length ns < lr_capacity c" using lru_inv_length [OF inv] by simp
  then have "lru_inv c3 (n # ns) []" using dist st c2(4,7) all kp cnt fr lru_inv_length [OF inv]
    unfolding lru_inv_def c3_def lru_table_field by (auto simp: lru_keep_def)
  moreover have "map (lru_entry c3) (n # ns) = (k, v) # map (lru_entry c) ns" using e by (simp add: c3_def lru_table_field)
  ultimately have "lru_ok c3 ((k, v) # map (lru_entry c) ns)" unfolding lru_ok_def by metis
  moreover have "lru_keep c c3" using kp st(4,5) by (simp add: lru_keep_def c3_def)
  moreover have "zenit_lru_put (Some c) (Some k) (Some v) ctx =
      Some (ZENIT_OK, Some c3, evict_call (lr_evict_fn c) (lru_entry c n) ctx)"
    using f cnt tail k(2) v c1(1) c2(1-3) st(1) fr lru_evict_ok [OF lay nc]
    by (simp add: zenit_lru_put_def user_read_def c3_def)
  ultimately show thesis by (intro that)
qed

lemma lru_put_ok:
  assumes ok: "lru_ok c es" and k: "length k = lr_key_size c" and v: "length v = lr_value_size c"
  obtains c' where "zenit_lru_put (Some c) (Some k) (Some v) ctx = Some (ZENIT_OK, Some c',
      case cache_evicted (lr_capacity c) k es of None \<Rightarrow> ctx | Some e \<Rightarrow> evict_call (lr_evict_fn c) e ctx)"
    and "lru_ok c' (cache_put (lr_capacity c) k v es)" and "lru_keep c c'"
proof -
  obtain ns fs where inv: "lru_inv c ns fs" and es: "es = map (lru_entry c) ns" using ok by (auto simp: lru_ok_def)
  note len = lru_inv_length [OF inv]
  show thesis
  proof (cases rule: lru_find [OF inv k, case_names absent present])
    case (present i n as bs)
    obtain c' where c': "zenit_lru_put (Some c) (Some k) (Some v) ctx = Some (ZENIT_OK, Some c', ctx)"
        "lru_ok c' ((k, v) # map (lru_entry c) (as @ bs))" "lru_keep c c'"
      by (rule lru_put_present [OF inv [unfolded present(1)] present(2) k v present(3-5)])
    have "cache_put (lr_capacity c) k v es = (k, v) # map (lru_entry c) (as @ bs)"
      using len unfolding cache_put_def es present(7) by (intro take_all) (simp add: present(1))
    then show thesis using c' present(6) es by (intro that [of c']) (simp_all add: cache_evicted_def)
  next
    case (absent i)
    show thesis
    proof (cases fs)
      case (Cons n fs')
      obtain c' where c': "zenit_lru_put (Some c) (Some k) (Some v) ctx = Some (ZENIT_OK, Some c', ctx)"
          "lru_ok c' ((k, v) # map (lru_entry c) ns)" "lru_keep c c'"
        by (rule lru_put_room [OF inv [unfolded Cons] absent(1) k v absent(2)])
      have "cache_put (lr_capacity c) k v es = (k, v) # map (lru_entry c) ns"
        using len Cons unfolding cache_put_def es absent(4) by (intro take_all) simp
      then show thesis using c' es len Cons by (intro that [of c']) (simp_all add: cache_evicted_def)
    next
      case Nil
      moreover have "0 < lr_capacity c" using inv by (simp add: lru_inv_def lru_layout_def)
      ultimately have "ns \<noteq> []" using len by auto
      then obtain ms n where ns: "ns = ms @ [n]" by (cases ns rule: rev_cases) auto
      obtain c' where c': "zenit_lru_put (Some c) (Some k) (Some v) ctx = Some (ZENIT_OK, Some c', evict_call (lr_evict_fn c) (lru_entry c n) ctx)"
          "lru_ok c' ((k, v) # map (lru_entry c) ms)" "lru_keep c c'"
        by (rule lru_put_full [OF inv [unfolded ns Nil] absent(1) [unfolded ns] k v absent(2)])
      have "cache_put (lr_capacity c) k v es = (k, v) # map (lru_entry c) ms"
        using len [symmetric] unfolding cache_put_def es absent(4) by (simp add: ns Nil)
      moreover have "cache_evicted (lr_capacity c) k es = Some (lru_entry c n)"
        using absent(3) len Nil unfolding cache_evicted_def es by (simp add: ns)
      ultimately show thesis using c' by (intro that [of c']) simp_all
    qed
  qed
qed

section \<open>Looking up, removing, clearing\<close>

lemma lru_ok_find:
  assumes ok: "lru_ok c es" and k: "length k = lr_key_size c"
  obtains i where "hash_find_slot c k = Some (map_of es k \<noteq> None, i)"
proof -
  obtain ns fs where inv: "lru_inv c ns fs" and es: "es = map (lru_entry c) ns" using ok by (auto simp: lru_ok_def)
  show thesis
  proof (cases rule: lru_find [OF inv k, case_names absent present])
    case (absent i)
    then show thesis by (intro that [of i]) (simp add: es)
  next
    case (present i n as bs)
    then show thesis by (intro that [of i]) (simp add: es)
  qed
qed

lemma lru_copy_out_ok:
  assumes "lru_layout c" and "n < lr_capacity c" and "\<And>d. out = Some d \<Longrightarrow> length d = lr_value_size c"
  shows "lru_copy_out c n out = Some (map_option (\<lambda>d. lr_val c n) out)"
  using assms(3) lru_val_read [OF assms(1,2)] by (cases out) (simp_all add: lru_copy_out_def user_write_def blit_def)

lemma lru_get_ok:
  assumes ok: "lru_ok c es" and k: "length k = lr_key_size c" and out: "\<And>d. out = Some d \<Longrightarrow> length d = lr_value_size c"
  obtains c' where "zenit_lru_get (Some c) (Some k) out =
      Some (map_of es k \<noteq> None, Some c', case map_of es k of None \<Rightarrow> out | Some v \<Rightarrow> map_option (\<lambda>d. v) out)"
    and "zenit_lru_peek (Some c) (Some k) out =
      Some (map_of es k \<noteq> None, case map_of es k of None \<Rightarrow> out | Some v \<Rightarrow> map_option (\<lambda>d. v) out)"
    and "lru_ok c' (cache_touch k es)" and "lru_keep c c'"
proof -
  obtain ns fs where inv: "lru_inv c ns fs" and es: "es = map (lru_entry c) ns" using ok by (auto simp: lru_ok_def)
  show thesis
  proof (cases rule: lru_find [OF inv k, case_names absent present])
    case (absent i)
    then show thesis using ok
      by (intro that [of c]) (simp_all add: es zenit_lru_get_def zenit_lru_peek_def cache_touch_def lru_keep_refl)
  next
    case (present i n as bs)
    obtain c' where c': "lru_move_to_front c n = Some c'" "lru_inv c' (n # as @ bs) fs" "lru_entry c' = lru_entry c" "lru_keep c c'"
      by (rule lru_touch_inv [OF inv [unfolded present(1)]])
    have "lru_copy_out c n out = Some (map_option (\<lambda>d. lr_val c n) out)"
      using inv present(5) out by (intro lru_copy_out_ok) (simp_all add: lru_inv_def)
    moreover have "cache_touch k es = map (lru_entry c') (n # as @ bs)"
      using present(2,6,7) c'(3) by (simp add: cache_touch_def es lru_entry_def)
    then have "lru_ok c' (cache_touch k es)" using c'(2) unfolding lru_ok_def by metis
    ultimately show thesis using present(3,4,6) c'(1,4)
      by (intro that [of c']) (simp_all add: es zenit_lru_get_def zenit_lru_peek_def)
  qed
qed

lemma lru_remove_ok:
  assumes ok: "lru_ok c es" and k: "length k = lr_key_size c"
  obtains c' where "zenit_lru_remove (Some c) (Some k) = Some (if map_of es k = None then ZENIT_ERROR_NOT_FOUND else ZENIT_OK, Some c')"
    and "lru_ok c' (cache_drop k es)" and "lru_keep c c'"
proof -
  obtain ns fs where inv: "lru_inv c ns fs" and es: "es = map (lru_entry c) ns" using ok by (auto simp: lru_ok_def)
  show thesis
  proof (cases rule: lru_find [OF inv k, case_names absent present])
    case (absent i)
    then show thesis using ok by (intro that [of c]) (simp_all add: es zenit_lru_remove_def lru_keep_refl)
  next
    case (present i n as bs)
    have lay: "lru_layout c" and l: "lru_lists c (as @ n # bs) fs" and dk: "distinct (map (lr_key c) (as @ bs))"
      and all: "set ((as @ n # bs) @ fs) = {..<lr_capacity c}" and cnt: "lr_count c = length (as @ n # bs)"
      using inv by (auto simp: lru_inv_def present(1))
    obtain c1 where c1: "lru_unlink c n = Some c1" "lru_lists c1 (as @ bs) fs" "lru_frame c c1" by (rule lru_unlink_ok [OF l])
    note fr = lru_frameD [OF c1(3)]
    have n: "n \<notin> set (as @ bs)" "n \<notin> set fs" "n < lr_capacity c1" using l fr(1) by (auto simp: lru_lists_def)
    obtain q where q: "freelist_push c1 n = Some (c1\<lparr>lr_next := q, lr_free_head := n\<rparr>)"
        "lru_lists (c1\<lparr>lr_next := q, lr_free_head := n\<rparr>) (as @ bs) (n # fs)" "sa_addr q = sa_addr (lr_next c1)"
      by (rule freelist_push_ok [OF c1(2) n])
    define c2 where "c2 = c1\<lparr>lr_next := q, lr_free_head := n, lr_count := length (as @ bs)\<rparr>"
    have key: "lr_key c2 = lr_key c" and ent: "lru_entry c2 = lru_entry c"
      using fr by (simp_all add: c2_def lr_key_def lr_val_def lru_entry_def fun_eq_iff)
    have lay2: "lru_layout c2" using frame_layout [OF c1(3) lay] by (simp add: c2_def lru_layout_def)
    have l2: "lru_lists c2 (as @ bs) (n # fs)" using q(2) by (simp add: c2_def lru_lists_def)
    obtain t' q' where st: "hash_rebuild c2 = Some (c2\<lparr>lr_hash_table := t', lr_hash_index := q'\<rparr>)"
        "lru_table (c2\<lparr>lr_hash_table := t', lr_hash_index := q'\<rparr>) (as @ bs)" "lru_layout (c2\<lparr>lr_hash_table := t', lr_hash_index := q'\<rparr>)"
        "sa_addr t' = sa_addr (lr_hash_table c2)" "sa_addr q' = sa_addr (lr_hash_index c2)"
      by (rule hash_rebuild_ok [OF lay2 l2]) (use dk key in simp_all)
    define c3 where "c3 = c2\<lparr>lr_hash_table := t', lr_hash_index := q'\<rparr>"
    have cap: "lr_capacity c3 = lr_capacity c" "lr_count c3 = length (as @ bs)" using fr by (simp_all add: c2_def c3_def)
    have "set ((as @ bs) @ n # fs) = {..<lr_capacity c}" using all by auto
    then have "lru_inv c3 (as @ bs) (n # fs)"
      using st(2,3) l2 dk cap unfolding lru_inv_def c3_def lru_table_field key by simp
    moreover have "lru_entry c3 = lru_entry c" using ent by (simp add: c3_def lru_table_field)
    ultimately have "lru_ok c3 (cache_drop k es)" unfolding lru_ok_def es present(7) by metis
    moreover have "lru_keep c c3" using frame_keep [OF c1(3)] q(3) st(4,5) by (simp add: lru_keep_def c3_def c2_def)
    moreover have "length as + length bs + 1 < size_mod"
      using lru_inv_length [OF inv] l by (simp add: present(1) lru_lists_def LRU_NONE_def size_mod_def)
    then have "sz_sub (lr_count c) 1 = length (as @ bs)" using cnt by (simp add: size_simps)
    then have "zenit_lru_remove (Some c) (Some k) = Some (ZENIT_OK, Some c3)"
      using present(3,4) c1(1) q(1) st(1) fr(4) by (simp add: zenit_lru_remove_def c2_def c3_def)
    ultimately show thesis using present(6) by (intro that [of c3]) (simp_all add: es)
  qed
qed

lemma lru_evict_all_ok:
  assumes lay: "lru_layout c" and s: "seg pv (lk (lr_next c)) a bs None" and sub: "set bs \<subseteq> {..<lr_capacity c}"
    and len: "sa_len (lr_next c) = lr_capacity c" "lr_capacity c < LRU_NONE"
  shows "lru_evict_all c (of_link (first_of bs None)) ctx = Some (fold (evict_call (lr_evict_fn c)) (map (lru_entry c) bs) ctx)"
  using s sub
proof (induction bs arbitrary: a ctx)
  case Nil
  then show ?case by (subst lru_evict_all.simps) simp
next
  case (Cons n bs)
  have n: "n < lr_capacity c" "n \<noteq> LRU_NONE" using Cons.prems(2) len(2) by auto
  show ?case
  proof (cases "lr_evict_fn c")
    case None
    have "fold (evict_call None) es ctx = ctx" for es and ctx :: 'b by (induction es) (simp_all add: evict_call_def)
    then show ?thesis using None by (subst lru_evict_all.simps) (simp add: evict_call_def)
  next
    case (Some f)
    have "sa_get (lr_next c) n = Some (of_link (first_of bs None))"
      using Cons.prems(1) n(1) len(1) link_of_eq [of "sa_at (lr_next c) n"] by (simp add: sa_get_ok lk_def)
    moreover have "lru_evict_all c (of_link (first_of bs None)) ctx' = Some (fold (evict_call (lr_evict_fn c)) (map (lru_entry c) bs) ctx')" for ctx'
      by (rule Cons.IH [of "Some n"]) (use Cons.prems in simp_all)
    ultimately show ?thesis using Some n(2) lru_evict_ok [OF lay n(1)] by (subst lru_evict_all.simps) simp
  qed
qed

lemma lru_ok_evict_all:
  assumes "lru_ok c es"
  shows "lru_evict_all c (lr_head c) ctx = Some (fold (evict_call (lr_evict_fn c)) es ctx)"
proof -
  obtain ns fs where inv: "lru_inv c ns fs" and es: "es = map (lru_entry c) ns" using assms by (auto simp: lru_ok_def)
  have "lr_head c = of_link (first_of ns None)" using inv by (simp add: lru_inv_def lru_lists_def)
  moreover have "lru_evict_all c (of_link (first_of ns None)) ctx = Some (fold (evict_call (lr_evict_fn c)) (map (lru_entry c) ns) ctx)"
    by (rule lru_evict_all_ok [of c "lk (lr_prev c)" None]) (use inv in \<open>auto simp: lru_inv_def lru_lists_def\<close>)
  ultimately show ?thesis by (simp add: es)
qed

text \<open>Clearing the table and chaining all nodes into the free list.\<close>

lemma freelist_init_ok:
  assumes "i \<le> n" and "n \<le> sa_len p" and "n < size_mod"
  shows "\<exists>p'. freelist_init i n p = Some p' \<and> sa_len p' = sa_len p \<and> sa_addr p' = sa_addr p \<and>
    (\<forall>j. sa_at p' j = (if i \<le> j \<and> j < n then j + 1 else sa_at p j))"
  using assms
proof (induction i n p rule: freelist_init.induct)
  case (1 i n p)
  show ?case
  proof (cases "i < n")
    case True
    have "sz_add i 1 = i + 1" using True 1(4) by (simp add: size_simps)
    moreover have "i < sa_len p" using 1(3) True by simp
    then obtain p1 where p1: "sa_put p i (i + 1) = Some p1" "sa_len p1 = sa_len p" "sa_at p1 = (sa_at p)(i := i + 1)" "sa_addr p1 = sa_addr p"
      by (rule sa_put_ok)
    ultimately obtain p' where p': "freelist_init (i + 1) n p1 = Some p'" "sa_len p' = sa_len p1" "sa_addr p' = sa_addr p1"
        "\<forall>j. sa_at p' j = (if i + 1 \<le> j \<and> j < n then j + 1 else sa_at p1 j)"
      using 1(1) [OF True, of p1] True 1(3,4) by auto
    then show ?thesis using True p1 \<open>sz_add i 1 = i + 1\<close> by (subst freelist_init.simps) auto
  next
    case False
    then show ?thesis using 1(2) by (subst freelist_init.simps) auto
  qed
qed

lemma run_of_upt: "\<forall>j < n. nx j = (if j + 1 = n then None else Some (j + 1)) \<Longrightarrow> i \<le> n \<Longrightarrow> run_of nx [i..<n]"
proof (induction "n - i" arbitrary: i)
  case (Suc d)
  then have "i < n" "run_of nx [Suc i..<n]" by auto
  moreover from this have "first_of [Suc i..<n] None = (if i + 1 = n then None else Some (i + 1))"
    by (cases "Suc i = n") (simp_all add: first_of_def upt_rec One_nat_def)
  ultimately show ?case using Suc.prems(1) by (simp add: upt_rec [of i])
qed simp

lemma lru_empty_inv:
  assumes lay: "lru_layout c" and cap: "lr_capacity c < LRU_NONE"
    and len: "sa_len (lr_prev c) = lr_capacity c" "sa_len (lr_next c) = lr_capacity c"
  obtains t q1 q2 where "hash_reset 0 (lr_hash_capacity c) (lr_hash_table c) = Some t"
    and "freelist_init 0 (lr_capacity c) (lr_next c) = Some q1"
    and "sa_put q1 (sz_sub (lr_capacity c) 1) LRU_NONE = Some q2"
    and "lru_inv (c\<lparr>lr_hash_table := t, lr_head := LRU_NONE, lr_tail := LRU_NONE, lr_free_head := 0, lr_next := q2, lr_count := 0\<rparr>)
      [] [0..<lr_capacity c]"
    and "sa_addr t = sa_addr (lr_hash_table c)" and "sa_addr q2 = sa_addr (lr_next c)"
proof -
  let ?n = "lr_capacity c"
  have pos: "0 < ?n" and sm: "?n < size_mod" using lay cap by (simp_all add: lru_layout_def LRU_NONE_def size_mod_def)
  obtain t where t: "hash_reset 0 (lr_hash_capacity c) (lr_hash_table c) = Some t" "sa_len t = sa_len (lr_hash_table c)"
      "sa_addr t = sa_addr (lr_hash_table c)" "\<forall>j < lr_hash_capacity c. sa_at t j = HASH_EMPTY"
    using hash_reset_ok [of 0 "lr_hash_capacity c" "lr_hash_table c"] lay by (auto simp: lru_layout_def)
  obtain q1 where q1: "freelist_init 0 ?n (lr_next c) = Some q1" "sa_len q1 = ?n" "sa_addr q1 = sa_addr (lr_next c)"
      "\<forall>j < ?n. sa_at q1 j = j + 1"
    using freelist_init_ok [of 0 ?n "lr_next c"] len(2) sm by auto
  have s1: "sz_sub ?n 1 = ?n - 1" using pos sm by (simp add: size_simps)
  have "?n - 1 < sa_len q1" using pos q1(2) by simp
  then obtain q2 where q2: "sa_put q1 (?n - 1) LRU_NONE = Some q2" "sa_len q2 = sa_len q1" "sa_at q2 = (sa_at q1)(?n - 1 := LRU_NONE)"
      "sa_addr q2 = sa_addr q1" by (rule sa_put_ok)
  define c' where "c' = c\<lparr>lr_hash_table := t, lr_head := LRU_NONE, lr_tail := LRU_NONE, lr_free_head := 0, lr_next := q2, lr_count := 0\<rparr>"
  have "\<forall>j < ?n. lk q2 j = (if j + 1 = ?n then None else Some (j + 1))"
    using q1(4) q2(3) cap by (auto simp: lk_def link_of_def)
  then have "run_of (lk q2) [0..<?n]" by (rule run_of_upt) simp
  moreover have "first_of [0..<?n] None = Some 0" using pos by (simp add: first_of_def upt_rec)
  ultimately have "lru_lists c' [] [0..<?n]" using cap len q1(2) q2(2) by (auto simp: lru_lists_def c'_def)
  moreover have "lru_layout c'" using lay t(2) by (simp add: lru_layout_def c'_def)
  moreover have "lru_table c' []" using t(4) cap by (auto simp: lru_table_def chain_ok_def lru_view_def c'_def)
  ultimately have "lru_inv c' [] [0..<?n]" by (auto simp: lru_inv_def c'_def)
  then show thesis using t(1,3) q1(1,3) q2(1,4) s1 unfolding c'_def by (intro that [of t q1 q2]) simp_all
qed

lemma lru_clear_ok:
  assumes ok: "lru_ok c es"
  obtains c' where "zenit_lru_clear (Some c) ctx = Some (Some c', fold (evict_call (lr_evict_fn c)) es ctx)"
    and "lru_ok c' []" and "lru_keep c c'"
proof -
  obtain ns fs where inv: "lru_inv c ns fs" using ok by (auto simp: lru_ok_def)
  then have a: "lru_layout c" "lr_capacity c < LRU_NONE" "sa_len (lr_prev c) = lr_capacity c" "sa_len (lr_next c) = lr_capacity c"
    by (simp_all add: lru_inv_def lru_lists_def)
  obtain t q1 q2 where e: "hash_reset 0 (lr_hash_capacity c) (lr_hash_table c) = Some t"
      "freelist_init 0 (lr_capacity c) (lr_next c) = Some q1" "sa_put q1 (sz_sub (lr_capacity c) 1) LRU_NONE = Some q2"
      "lru_inv (c\<lparr>lr_hash_table := t, lr_head := LRU_NONE, lr_tail := LRU_NONE, lr_free_head := 0, lr_next := q2, lr_count := 0\<rparr>)
        [] [0..<lr_capacity c]"
      "sa_addr t = sa_addr (lr_hash_table c)" "sa_addr q2 = sa_addr (lr_next c)"
    by (rule lru_empty_inv [OF a])
  let ?c = "c\<lparr>lr_hash_table := t, lr_head := LRU_NONE, lr_tail := LRU_NONE, lr_free_head := 0, lr_next := q2, lr_count := 0\<rparr>"
  have "lru_ok ?c []" using e(4) unfolding lru_ok_def by auto
  then show thesis using e lru_ok_evict_all [OF ok, of ctx]
    by (intro that [of ?c]) (simp_all add: zenit_lru_clear_def lru_keep_def)
qed

section \<open>Creating and destroying\<close>

text \<open>The addresses of the arrays behind a cache.\<close>

definition lru_arrays :: "('h, 'c) zenit_lru_t \<Rightarrow> nat option list" where
  "lru_arrays c = [paddr (lr_keys c), paddr (lr_values c), sa_addr (lr_prev c), sa_addr (lr_next c), sa_addr (lr_hash_index c), sa_addr (lr_hash_table c)]"

lemma lru_free_internals_all: "lru_free_internals c h = free_all (lr_allocator c) (lru_arrays c) h"
  by (simp add: lru_free_internals_def lru_arrays_def free_all_eta)

lemma lru_keep_arrays: "lru_keep c c' \<Longrightarrow> lru_arrays c' = lru_arrays c"
  by (simp add: lru_keep_def lru_arrays_def)

lemma sa_view_addr [simp]: "sa_addr (sa_view p) = paddr p"
  by (cases p) (simp_all add: sa_view_def sa_addr_def)

lemma alloc_array_ok:
  assumes c: "allocator_contract a live" and f: "fresh_blocks live h as h1" and pos: "0 < n" "0 < e" and fit: "n * e < size_mod"
  obtains p h2 where "alloc_array a n e h1 = Some (p, h2)" and "fresh_blocks live h (as @ opt_list (paddr p)) h2"
    and "p \<noteq> None \<Longrightarrow> plen p = n * e"
proof (cases rule: allocator_contract.alloc_zero_cases [OF c, of n e h1, case_names null block])
  case (null h')
  then show thesis using f pos by (intro that [of None h']) (simp_all add: alloc_array_def fresh_blocks_def)
next
  case (block b h')
  then show thesis using f pos fit
    by (intro that [of "Some b" h']) (auto simp: alloc_array_def fresh_blocks_def size_simps)
qed

lemma round_pow2_double:
  assumes "0 < cap" and "cap \<le> 2 ^ 59"
  obtains p where "p < 64" and "round_pow2 (sz_mul cap 2) = 2 ^ p" and "cap * 2 \<le> 2 ^ p" and "2 ^ p * (8::nat) < size_mod"
proof -
  have "cap * 2 < size_mod" using assms(2) by (simp add: size_mod_def)
  then have m: "sz_mul cap 2 = cap * 2" by (rule sz_mul_nowrap)
  obtain p where p: "p < 64" "round_pow2 (cap * 2) = 2 ^ p" "cap * 2 \<le> 2 ^ p" "\<forall>q. cap * 2 \<le> 2 ^ q \<longrightarrow> p \<le> q"
    using round_pow2_least [of "cap * 2"] assms by auto
  have "p \<le> 60" using assms(2) by (intro p(4) [rule_format]) simp
  then have "(2::nat) ^ p \<le> 2 ^ 60" by (intro power_increasing) simp_all
  then show thesis using p m by (intro that [of p]) (simp_all add: size_mod_def)
qed

lemma lru_create_arrays:
  assumes c: "allocator_contract a live" and f: "fresh_blocks live h [x] h1" and pos: "0 < ks" "0 < vs" "0 < cap" "0 < hc"
    and fit: "cap * ks < size_mod" "cap * vs < size_mod" "cap * 8 < size_mod" "hc * 8 < size_mod"
  obtains k v p n i t h2 h3 h4 h5 h6 h7 where "alloc_array a cap ks h1 = Some (k, h2)" and "alloc_array a cap vs h2 = Some (v, h3)"
    and "alloc_array a cap sizeof_size_t h3 = Some (p, h4)" and "alloc_array a cap sizeof_size_t h4 = Some (n, h5)"
    and "alloc_array a cap sizeof_size_t h5 = Some (i, h6)" and "alloc_array a hc sizeof_size_t h6 = Some (t, h7)"
    and "fresh_blocks live h (x # addr_list [paddr k, paddr v, paddr p, paddr n, paddr i, paddr t]) h7"
    and "k \<noteq> None \<Longrightarrow> plen k = cap * ks" and "v \<noteq> None \<Longrightarrow> plen v = cap * vs" and "p \<noteq> None \<Longrightarrow> plen p = cap * 8"
    and "n \<noteq> None \<Longrightarrow> plen n = cap * 8" and "i \<noteq> None \<Longrightarrow> plen i = cap * 8" and "t \<noteq> None \<Longrightarrow> plen t = hc * 8"
proof -
  have s: "sizeof_size_t = 8" "0 < sizeof_size_t" by (simp_all add: sizeof_size_t_def)
  obtain k h2 where k: "alloc_array a cap ks h1 = Some (k, h2)" "fresh_blocks live h ([x] @ opt_list (paddr k)) h2" "k \<noteq> None \<Longrightarrow> plen k = cap * ks"
    by (rule alloc_array_ok [OF c f pos(3,1) fit(1)]) blast
  obtain v h3 where v: "alloc_array a cap vs h2 = Some (v, h3)" "fresh_blocks live h (([x] @ opt_list (paddr k)) @ opt_list (paddr v)) h3"
      "v \<noteq> None \<Longrightarrow> plen v = cap * vs"
    by (rule alloc_array_ok [OF c k(2) pos(3,2) fit(2)]) blast
  note fit' = fit(3,4) [folded s(1)]
  obtain p h4 where p: "alloc_array a cap sizeof_size_t h3 = Some (p, h4)"
      "fresh_blocks live h ((([x] @ opt_list (paddr k)) @ opt_list (paddr v)) @ opt_list (paddr p)) h4" "p \<noteq> None \<Longrightarrow> plen p = cap * sizeof_size_t"
    by (rule alloc_array_ok [OF c v(2) pos(3) s(2) fit'(1)]) blast
  obtain n h5 where n: "alloc_array a cap sizeof_size_t h4 = Some (n, h5)"
      "fresh_blocks live h (((([x] @ opt_list (paddr k)) @ opt_list (paddr v)) @ opt_list (paddr p)) @ opt_list (paddr n)) h5"
      "n \<noteq> None \<Longrightarrow> plen n = cap * sizeof_size_t"
    by (rule alloc_array_ok [OF c p(2) pos(3) s(2) fit'(1)]) blast
  obtain i h6 where i: "alloc_array a cap sizeof_size_t h5 = Some (i, h6)"
      "fresh_blocks live h ((((([x] @ opt_list (paddr k)) @ opt_list (paddr v)) @ opt_list (paddr p)) @ opt_list (paddr n)) @ opt_list (paddr i)) h6"
      "i \<noteq> None \<Longrightarrow> plen i = cap * sizeof_size_t"
    by (rule alloc_array_ok [OF c n(2) pos(3) s(2) fit'(1)]) blast
  obtain t h7 where t: "alloc_array a hc sizeof_size_t h6 = Some (t, h7)"
      "fresh_blocks live h (((((([x] @ opt_list (paddr k)) @ opt_list (paddr v)) @ opt_list (paddr p)) @ opt_list (paddr n)) @ opt_list (paddr i)) @ opt_list (paddr t)) h7"
      "t \<noteq> None \<Longrightarrow> plen t = hc * sizeof_size_t"
    by (rule alloc_array_ok [OF c i(2) pos(4) s(2) fit'(2)]) blast
  show thesis
    by (rule that [OF k(1) v(1) p(1) n(1) i(1) t(1)]) (use k(3) v(3) p(3) n(3) i(3) t(2,3) s(1) in simp_all)
qed

lemma sa_view_len: "p \<noteq> None \<Longrightarrow> plen p = n * 8 \<Longrightarrow> sa_len (sa_view p) = n"
  by (cases p) (simp_all add: sa_view_def sa_len_def sizeof_size_t_def)

lemma lru_create_ok:
  fixes f :: "(byte list \<Rightarrow> byte list \<Rightarrow> 'c \<Rightarrow> 'c) option"
  assumes c: "allocator_contract a live" and pos: "0 < ks" "0 < vs" "0 < cap"
    and fit: "cap * ks < size_mod" "cap * vs < size_mod" "cap \<le> 2 ^ 59"
  obtains (failed) h' where "lru_create_impl ks vs cap f a h = Some (None, h')" and "live h' = live h"
  | (made) c h' where "lru_create_impl ks vs cap f a h = Some (Some c, h')" and "lru_ok c []"
    and "lr_key_size c = ks" and "lr_value_size c = vs" and "lr_capacity c = cap" and "lr_evict_fn c = f" and "lr_allocator c = a"
    and "fresh_blocks live h (lr_self c # addr_list (lru_arrays c)) h'"
proof (cases rule: allocator_contract.alloc_cases [OF c, of sizeof_lru h, case_names null block])
  case (null h')
  then show thesis using pos by (intro failed [of h']) (simp_all add: lru_create_impl_def)
next
  case (block b h1)
  obtain e where e: "e < 64" "round_pow2 (sz_mul cap 2) = 2 ^ e" "cap * 2 \<le> 2 ^ e" "2 ^ e * (8::nat) < size_mod"
    by (rule round_pow2_double [OF pos(3) fit(3)])
  have f1: "fresh_blocks live h [maddr b] h1" using block by (auto simp: fresh_blocks_def)
  have cap: "cap * 8 < size_mod" "0 < (2::nat) ^ e" "cap < LRU_NONE" using fit(3) by (simp_all add: size_mod_def LRU_NONE_def)
  obtain k v p n i t h2 h3 h4 h5 h6 h7 where al: "alloc_array a cap ks h1 = Some (k, h2)" "alloc_array a cap vs h2 = Some (v, h3)"
      "alloc_array a cap sizeof_size_t h3 = Some (p, h4)" "alloc_array a cap sizeof_size_t h4 = Some (n, h5)"
      "alloc_array a cap sizeof_size_t h5 = Some (i, h6)" "alloc_array a (2 ^ e) sizeof_size_t h6 = Some (t, h7)"
    and fr: "fresh_blocks live h (maddr b # addr_list [paddr k, paddr v, paddr p, paddr n, paddr i, paddr t]) h7"
    and len: "k \<noteq> None \<Longrightarrow> plen k = cap * ks" "v \<noteq> None \<Longrightarrow> plen v = cap * vs" "p \<noteq> None \<Longrightarrow> plen p = cap * 8"
      "n \<noteq> None \<Longrightarrow> plen n = cap * 8" "i \<noteq> None \<Longrightarrow> plen i = cap * 8" "t \<noteq> None \<Longrightarrow> plen t = 2 ^ e * 8"
    by (rule lru_create_arrays [OF c f1 pos cap(2) fit(1,2) cap(1) e(4)]) blast
  define c0 where "c0 = \<lparr>lr_self = maddr b, lr_key_size = ks, lr_value_size = vs, lr_capacity = cap,
    lr_count = 0, lr_keys = k, lr_values = v, lr_prev = sa_view p, lr_next = sa_view n,
    lr_hash_index = sa_view i, lr_head = LRU_NONE, lr_tail = LRU_NONE, lr_free_head = 0,
    lr_hash_table = sa_view t, lr_hash_capacity = 2 ^ e, lr_evict_fn = f, lr_allocator = a\<rparr>"
  have step: "lru_create_impl ks vs cap f a h =
      (if k = None \<or> v = None \<or> p = None \<or> n = None \<or> i = None \<or> t = None
       then do { h8 \<leftarrow> lru_free_internals c0 h7; h9 \<leftarrow> free_fn a (Some (maddr b)) h8; Some (None, h9) }
       else do { t' \<leftarrow> hash_reset 0 (lr_hash_capacity c0) (lr_hash_table c0); q1 \<leftarrow> freelist_init 0 (lr_capacity c0) (lr_next c0);
         q2 \<leftarrow> sa_put q1 (sz_sub (lr_capacity c0) 1) LRU_NONE; Some (Some (c0\<lparr>lr_hash_table := t', lr_next := q2\<rparr>), h7) })"
    using pos block(1) al e(2) by (simp add: lru_create_impl_def Let_def c0_def)
  have arr: "lru_arrays c0 = [paddr k, paddr v, paddr p, paddr n, paddr i, paddr t]" by (simp add: c0_def lru_arrays_def)
  show thesis
  proof (cases "k = None \<or> v = None \<or> p = None \<or> n = None \<or> i = None \<or> t = None")
    case True
    obtain h8 h9 where "free_all a (lru_arrays c0) h7 = Some h8" "free_fn a (Some (maddr b)) h8 = Some h9" "live h9 = live h"
      by (rule free_fresh [OF c, of h "maddr b" "lru_arrays c0" h7]) (use fr arr in simp_all)
    moreover have "lru_free_internals c0 h7 = free_all a (lru_arrays c0) h7" by (simp add: lru_free_internals_all c0_def)
    ultimately show thesis by (intro failed [of h9]) (simp_all add: step if_P [OF True])
  next
    case False
    then have ne: "k \<noteq> None" "v \<noteq> None" "p \<noteq> None" "n \<noteq> None" "i \<noteq> None" "t \<noteq> None" by simp_all
    note ln = len(1) [OF ne(1)] len(2) [OF ne(2)] sa_view_len [OF ne(3) len(3) [OF ne(3)]] sa_view_len [OF ne(4) len(4) [OF ne(4)]]
      sa_view_len [OF ne(5) len(5) [OF ne(5)]] sa_view_len [OF ne(6) len(6) [OF ne(6)]]
    have lay: "lru_layout c0" using pos fit e ln by (auto simp: lru_layout_def c0_def)
    have l0: "lr_capacity c0 < LRU_NONE" "sa_len (lr_prev c0) = lr_capacity c0" "sa_len (lr_next c0) = lr_capacity c0"
      using cap(3) ln by (simp_all add: c0_def)
    obtain t' q1 q2 where em: "hash_reset 0 (lr_hash_capacity c0) (lr_hash_table c0) = Some t'"
        "freelist_init 0 (lr_capacity c0) (lr_next c0) = Some q1" "sa_put q1 (sz_sub (lr_capacity c0) 1) LRU_NONE = Some q2"
        "lru_inv (c0\<lparr>lr_hash_table := t', lr_head := LRU_NONE, lr_tail := LRU_NONE, lr_free_head := 0, lr_next := q2, lr_count := 0\<rparr>)
          [] [0..<lr_capacity c0]"
        "sa_addr t' = sa_addr (lr_hash_table c0)" "sa_addr q2 = sa_addr (lr_next c0)"
      by (rule lru_empty_inv [OF lay l0])
    define c1 where "c1 = c0\<lparr>lr_hash_table := t', lr_next := q2\<rparr>"
    have c1: "c1 = c0\<lparr>lr_hash_table := t', lr_head := LRU_NONE, lr_tail := LRU_NONE, lr_free_head := 0, lr_next := q2, lr_count := 0\<rparr>"
      by (simp add: c1_def c0_def)
    have "lru_inv c1 [] [0..<lr_capacity c0]" using em(4) unfolding c1 .
    then have "lru_ok c1 []" unfolding lru_ok_def by auto
    moreover have "lru_arrays c1 = lru_arrays c0" using em(5,6) by (simp add: c1_def lru_arrays_def)
    moreover have "lru_create_impl ks vs cap f a h = Some (Some c1, h7)"
      unfolding step if_not_P [OF False] using em(1-3) by (simp add: c1_def)
    ultimately show thesis using fr arr by (intro made [of c1 h7]) (simp_all add: c1_def c0_def)
  qed
qed

lemma lru_destroy_ok:
  assumes c: "allocator_contract (lr_allocator c) live" and ok: "lru_ok c es"
    and f: "fresh_blocks live h (lr_self c # addr_list (lru_arrays c)) h1"
  obtains h2 where "zenit_lru_destroy (Some c) ctx h1 = Some (fold (evict_call (lr_evict_fn c)) es ctx, h2)" and "live h2 = live h"
proof -
  obtain h2 h3 where "free_all (lr_allocator c) (lru_arrays c) h1 = Some h2" "free_fn (lr_allocator c) (Some (lr_self c)) h2 = Some h3" "live h3 = live h"
    by (rule free_fresh [OF c f])
  then show thesis using lru_ok_evict_all [OF ok, of ctx]
    by (intro that [of h3]) (simp_all add: zenit_lru_destroy_def lru_free_internals_all)
qed

section \<open>Runs of calls\<close>

text \<open>A client's calls, what each of them answers, and the same calls on the abstract cache.\<close>

datatype lru_call = Put "byte list" "byte list" | Get "byte list" | Peek "byte list" | Remove "byte list" | Clear

datatype lru_answer = Code zenit_result_t | Value "byte list option" | Done

fun call_sized :: "nat \<Rightarrow> nat \<Rightarrow> lru_call \<Rightarrow> bool" where
  "call_sized ks vs (Put k v) = (length k = ks \<and> length v = vs)"
| "call_sized ks vs (Get k) = (length k = ks)"
| "call_sized ks vs (Peek k) = (length k = ks)"
| "call_sized ks vs (Remove k) = (length k = ks)"
| "call_sized ks vs Clear = True"

fun lru_do :: "lru_call \<Rightarrow> ('h, 'c) zenit_lru_t option \<Rightarrow> 'c \<Rightarrow> (lru_answer \<times> ('h, 'c) zenit_lru_t option \<times> 'c) option" where
  "lru_do (Put k v) c ctx = map_option (\<lambda>(r, c', ctx'). (Code r, c', ctx')) (zenit_lru_put c (Some k) (Some v) ctx)"
| "lru_do (Get k) c ctx = map_option (\<lambda>(found, c', out). (Value (if found then out else None), c', ctx))
     (zenit_lru_get c (Some k) (map_option (\<lambda>d. replicate (lr_value_size d) 0) c))"
| "lru_do (Peek k) c ctx = map_option (\<lambda>(found, out). (Value (if found then out else None), c, ctx))
     (zenit_lru_peek c (Some k) (map_option (\<lambda>d. replicate (lr_value_size d) 0) c))"
| "lru_do (Remove k) c ctx = map_option (\<lambda>(r, c'). (Code r, c', ctx)) (zenit_lru_remove c (Some k))"
| "lru_do Clear c ctx = map_option (\<lambda>(c', ctx'). (Done, c', ctx')) (zenit_lru_clear c ctx)"

fun lru_run :: "lru_call list \<Rightarrow> ('h, 'c) zenit_lru_t option \<Rightarrow> 'c \<Rightarrow> (lru_answer list \<times> ('h, 'c) zenit_lru_t option \<times> 'c) option" where
  "lru_run [] c ctx = Some ([], c, ctx)"
| "lru_run (x # xs) c ctx = do {
     (r, c1, ctx1) \<leftarrow> lru_do x c ctx;
     (rs, c2, ctx2) \<leftarrow> lru_run xs c1 ctx1;
     Some (r # rs, c2, ctx2)
   }"

fun cache_call :: "nat \<Rightarrow> (byte list \<Rightarrow> byte list \<Rightarrow> 'c \<Rightarrow> 'c) option \<Rightarrow> lru_call \<Rightarrow> cache_entry list \<Rightarrow> 'c \<Rightarrow> lru_answer \<times> cache_entry list \<times> 'c" where
  "cache_call cap f (Put k v) es ctx = (Code ZENIT_OK, cache_put cap k v es,
     case cache_evicted cap k es of None \<Rightarrow> ctx | Some e \<Rightarrow> evict_call f e ctx)"
| "cache_call cap f (Get k) es ctx = (Value (map_of es k), cache_touch k es, ctx)"
| "cache_call cap f (Peek k) es ctx = (Value (map_of es k), es, ctx)"
| "cache_call cap f (Remove k) es ctx = (Code (if map_of es k = None then ZENIT_ERROR_NOT_FOUND else ZENIT_OK), cache_drop k es, ctx)"
| "cache_call cap f Clear es ctx = (Done, [], fold (evict_call f) es ctx)"

fun cache_run :: "nat \<Rightarrow> (byte list \<Rightarrow> byte list \<Rightarrow> 'c \<Rightarrow> 'c) option \<Rightarrow> lru_call list \<Rightarrow> cache_entry list \<Rightarrow> 'c \<Rightarrow> lru_answer list \<times> cache_entry list \<times> 'c" where
  "cache_run cap f [] es ctx = ([], es, ctx)"
| "cache_run cap f (x # xs) es ctx =
    (let (r, es1, ctx1) = cache_call cap f x es ctx; (rs, es2, ctx2) = cache_run cap f xs es1 ctx1 in (r # rs, es2, ctx2))"

lemma lru_get_buffer:
  assumes ok: "lru_ok c es" and k: "length k = lr_key_size c" and d: "length d = lr_value_size c"
  obtains c' where "zenit_lru_get (Some c) (Some k) (Some d) =
      Some (map_of es k \<noteq> None, Some c', Some (case map_of es k of None \<Rightarrow> d | Some v \<Rightarrow> v))"
    and "zenit_lru_peek (Some c) (Some k) (Some d) =
      Some (map_of es k \<noteq> None, Some (case map_of es k of None \<Rightarrow> d | Some v \<Rightarrow> v))"
    and "lru_ok c' (cache_touch k es)" and "lru_keep c c'"
proof -
  have out: "\<And>d'. Some d = Some d' \<Longrightarrow> length d' = lr_value_size c" using d by simp
  have "(case map_of es k of None \<Rightarrow> Some d | Some v \<Rightarrow> map_option (\<lambda>d. v) (Some d)) = Some (case map_of es k of None \<Rightarrow> d | Some v \<Rightarrow> v)"
    by (simp split: option.splits)
  with lru_get_ok [OF ok k out] show thesis by (metis that)
qed

lemma lru_do_ok:
  assumes ok: "lru_ok c es" and x: "call_sized (lr_key_size c) (lr_value_size c) x"
    and r: "cache_call (lr_capacity c) (lr_evict_fn c) x es ctx = (r, es', ctx')"
  obtains c' where "lru_do x (Some c) ctx = Some (r, Some c', ctx')" and "lru_ok c' es'" and "lru_keep c c'"
proof (cases x)
  case (Put k v)
  obtain c' where "zenit_lru_put (Some c) (Some k) (Some v) ctx = Some (ZENIT_OK, Some c',
      case cache_evicted (lr_capacity c) k es of None \<Rightarrow> ctx | Some e \<Rightarrow> evict_call (lr_evict_fn c) e ctx)"
      "lru_ok c' (cache_put (lr_capacity c) k v es)" "lru_keep c c'"
    by (rule lru_put_ok [OF ok, of k v ctx]) (use x Put in simp_all)
  then show thesis using r Put by (intro that [of c']) auto
next
  case (Get k)
  obtain c' where "zenit_lru_get (Some c) (Some k) (Some (replicate (lr_value_size c) 0)) =
        Some (map_of es k \<noteq> None, Some c', Some (case map_of es k of None \<Rightarrow> replicate (lr_value_size c) 0 | Some v \<Rightarrow> v))"
      "lru_ok c' (cache_touch k es)" "lru_keep c c'"
    by (rule lru_get_buffer [OF ok, of k "replicate (lr_value_size c) 0"]) (use x Get in simp_all)
  then show thesis using r Get by (intro that [of c']) (auto split: option.splits)
next
  case (Peek k)
  obtain c' where "zenit_lru_peek (Some c) (Some k) (Some (replicate (lr_value_size c) 0)) =
        Some (map_of es k \<noteq> None, Some (case map_of es k of None \<Rightarrow> replicate (lr_value_size c) 0 | Some v \<Rightarrow> v))"
      "lru_keep c c'"
    by (rule lru_get_buffer [OF ok, of k "replicate (lr_value_size c) 0"]) (use x Peek in simp_all)
  then show thesis using r Peek ok by (intro that [of c]) (auto simp: lru_keep_refl split: option.splits)
next
  case (Remove k)
  obtain c' where "zenit_lru_remove (Some c) (Some k) = Some (if map_of es k = None then ZENIT_ERROR_NOT_FOUND else ZENIT_OK, Some c')"
      "lru_ok c' (cache_drop k es)" "lru_keep c c'"
    by (rule lru_remove_ok [OF ok, of k]) (use x Remove in simp_all)
  then show thesis using r Remove by (intro that [of c']) auto
next
  case Clear
  obtain c' where "zenit_lru_clear (Some c) ctx = Some (Some c', fold (evict_call (lr_evict_fn c)) es ctx)" "lru_ok c' []" "lru_keep c c'"
    by (rule lru_clear_ok [OF ok])
  then show thesis using r Clear by (intro that [of c']) auto
qed

lemma lru_run_ok:
  assumes "lru_ok c es" and "list_all (call_sized (lr_key_size c) (lr_value_size c)) xs"
    and "cache_run (lr_capacity c) (lr_evict_fn c) xs es ctx = (rs, es', ctx')"
  shows "\<exists>c'. lru_run xs (Some c) ctx = Some (rs, Some c', ctx') \<and> lru_ok c' es' \<and> lru_keep c c'"
  using assms
proof (induction xs arbitrary: c es ctx rs)
  case Nil
  then show ?case by (simp add: lru_keep_refl)
next
  case (Cons x xs)
  obtain r es1 ctx1 where r: "cache_call (lr_capacity c) (lr_evict_fn c) x es ctx = (r, es1, ctx1)"
    by (cases "cache_call (lr_capacity c) (lr_evict_fn c) x es ctx")
  obtain rs' where rs: "cache_run (lr_capacity c) (lr_evict_fn c) xs es1 ctx1 = (rs', es', ctx')" "rs = r # rs'"
    using Cons.prems(3) r by (auto split: prod.splits)
  obtain c1 where c1: "lru_do x (Some c) ctx = Some (r, Some c1, ctx1)" "lru_ok c1 es1" "lru_keep c c1"
    by (rule lru_do_ok [OF Cons.prems(1) _ r]) (use Cons.prems(2) in simp)
  have k: "lr_key_size c1 = lr_key_size c" "lr_value_size c1 = lr_value_size c" "lr_capacity c1 = lr_capacity c" "lr_evict_fn c1 = lr_evict_fn c"
    using c1(3) by (simp_all add: lru_keep_def)
  obtain c2 where "lru_run xs (Some c1) ctx1 = Some (rs', Some c2, ctx')" "lru_ok c2 es'" "lru_keep c1 c2"
    using Cons.IH [OF c1(2), of ctx1 rs'] Cons.prems(2) rs(1) k by auto
  then show ?case using c1(1) rs(2) lru_keep_trans [OF c1(3)] by auto
qed

lemma lru_ok_bound:
  assumes "lru_ok c es"
  shows "zenit_lru_count (Some c) = length es" and "length es \<le> lr_capacity c" and "distinct (map fst es)"
  using assms lru_inv_length by (fastforce simp: lru_ok_def lru_inv_def zenit_lru_count_def lru_entry_def comp_def)+

text \<open>
  C26: Whatever calls a client makes on a new cache, every call returns and answers what the list of entries in
  order of use answers: a put moves its entry to the front and, when a new key meets a full cache, drops the least
  recently used entry and hands exactly that entry to the callback; a get moves its entry to the front; a peek
  changes nothing. The cache never holds more than its capacity, and destroying it reports every remaining entry
  to the callback and frees every block it took.
\<close>

theorem lru_trace_refines:
  assumes contract: "allocator_contract a live" and "0 < ks" "0 < vs" "0 < cap"
    and "cap * ks < size_mod" "cap * vs < size_mod" "cap \<le> 2 ^ 59"
    and create: "zenit_lru_create_with_evict_and_allocator ks vs cap f a h = Some (Some c, h1)"
    and sized: "list_all (call_sized ks vs) xs"
    and spec: "cache_run cap f xs [] ctx = (rs, es, ctx')"
  shows "\<exists>c' h2. lru_run xs (Some c) ctx = Some (rs, Some c', ctx') \<and>
    zenit_lru_count (Some c') = length es \<and> length es \<le> cap \<and> zenit_lru_capacity (Some c') = cap \<and>
    (\<forall>k. length k = ks \<longrightarrow> zenit_lru_contains (Some c') (Some k) = Some (map_of es k \<noteq> None)) \<and>
    zenit_lru_destroy (Some c') ctx' h1 = Some (fold (evict_call f) es ctx', h2) \<and> live h2 = live h"
proof -
  have c: "lru_ok c []" "lr_key_size c = ks" "lr_value_size c = vs" "lr_capacity c = cap" "lr_evict_fn c = f" "lr_allocator c = a"
      "fresh_blocks live h (lr_self c # addr_list (lru_arrays c)) h1"
    by (cases rule: lru_create_ok [OF assms(1-7), of f h, case_names failed made];
      use create in \<open>simp add: zenit_lru_create_with_evict_and_allocator_def\<close>)+
  obtain c' where c': "lru_run xs (Some c) ctx = Some (rs, Some c', ctx')" "lru_ok c' es" "lru_keep c c'"
    using lru_run_ok [OF c(1), of xs ctx rs es ctx'] sized spec c(2-5) by auto
  have k: "lr_self c' = lr_self c" "lr_key_size c' = ks" "lr_capacity c' = cap" "lr_evict_fn c' = f" "lr_allocator c' = a"
    using c'(3) c by (simp_all add: lru_keep_def)
  obtain h2 where h2: "zenit_lru_destroy (Some c') ctx' h1 = Some (fold (evict_call (lr_evict_fn c')) es ctx', h2)" "live h2 = live h"
    by (rule lru_destroy_ok [OF _ c'(2), of live h h1])
      (use contract k c(7) lru_keep_arrays [OF c'(3)] in simp_all)
  have "zenit_lru_contains (Some c') (Some k') = Some (map_of es k' \<noteq> None)" if "length k' = ks" for k'
    by (rule lru_ok_find [OF c'(2), of k']) (use that k(2) in \<open>simp_all add: zenit_lru_contains_def\<close>)
  then show ?thesis using c'(1) lru_ok_bound [OF c'(2)] h2 k by (simp add: zenit_lru_capacity_def)
qed

section \<open>A cache at work\<close>

definition lru_heap :: c_heap where
  "lru_heap = \<lparr>heap_live = [], heap_script = [], heap_junk = 9\<rparr>"

definition lru_demo_evict :: "(byte list \<Rightarrow> byte list \<Rightarrow> cache_entry list \<Rightarrow> cache_entry list) option" where
  "lru_demo_evict = Some (\<lambda>k v log. log @ [(k, v)])"

definition lru_demo_calls :: "lru_call list" where
  "lru_demo_calls = [Put [1] [10], Put [2] [20], Get [1], Put [3] [30], Peek [2], Remove [1], Remove [1]]"

lemma lru_heap_create:
  obtains c h' where "zenit_lru_create_with_evict_and_allocator 1 1 2 lru_demo_evict ZENIT_ALLOCATOR_DEFAULT lru_heap = Some (Some c, h')"
proof (cases rule: lru_create_ok [OF default_contract, of 1 1 2 lru_demo_evict lru_heap, case_names _ _ _ _ _ _ failed made])
  case (failed h')
  have "\<not> Option.is_none (fst (the (lru_create_impl 1 1 2 lru_demo_evict ZENIT_ALLOCATOR_DEFAULT lru_heap)))"
    by code_simp
  then show thesis using failed by simp
qed (use that in \<open>auto simp: size_mod_def zenit_lru_create_with_evict_and_allocator_def\<close>)

theorem lru_trace_refines_witness:
  "\<exists>c h1 c' h2. zenit_lru_create_with_evict_and_allocator 1 1 2 lru_demo_evict ZENIT_ALLOCATOR_DEFAULT lru_heap = Some (Some c, h1) \<and>
    lru_run lru_demo_calls (Some c) [] = Some ([Code ZENIT_OK, Code ZENIT_OK, Value (Some [10]), Code ZENIT_OK, Value None,
      Code ZENIT_OK, Code ZENIT_ERROR_NOT_FOUND], Some c', [([2], [20])]) \<and>
    zenit_lru_count (Some c') = 1 \<and> zenit_lru_destroy (Some c') [([2], [20])] h1 = Some ([([2], [20]), ([3], [30])], h2) \<and> heap_addrs h2 = {}"
proof -
  obtain c h1 where c: "zenit_lru_create_with_evict_and_allocator 1 1 2 lru_demo_evict ZENIT_ALLOCATOR_DEFAULT lru_heap = Some (Some c, h1)"
    by (rule lru_heap_create)
  have r: "cache_run 2 lru_demo_evict lru_demo_calls [] [] = ([Code ZENIT_OK, Code ZENIT_OK, Value (Some [10]), Code ZENIT_OK, Value None,
      Code ZENIT_OK, Code ZENIT_ERROR_NOT_FOUND], [([3], [30])], [([2], [20])])"
    by (simp add: lru_demo_calls_def lru_demo_evict_def cache_put_def cache_drop_def cache_evicted_def cache_touch_def evict_call_def)
  have s: "list_all (call_sized 1 1) lru_demo_calls" by (simp add: lru_demo_calls_def)
  show ?thesis
    using lru_trace_refines [OF default_contract _ _ _ _ _ _ c s r] c
    by (auto simp: size_mod_def lru_demo_evict_def evict_call_def heap_addrs_def lru_heap_def)
qed

end
