(* ===== verification/Zenit_Trie.thy ===== *)
theory Zenit_Trie
  imports Zenit_Blocks Zenit_CString
begin

text \<open>
  The prefix tree (\<open>include/libzenit/trie.h\<close>, \<open>src/trie.c\<close>). A node is reached through exactly one pointer, so
  the nodes below a handle are a tree value; every node carries the address of its block. A pointer
  into the key is the rest of the string from there on, and the end of the rest is the NUL.
\<close>

section \<open>State and operations\<close>

definition TRIE_ALPHABET_SIZE :: nat where
  "TRIE_ALPHABET_SIZE = 26"

datatype zenit_trie_node_t = Node (tn_addr: nat) (tn_value: int) (tn_is_end: bool) (tn_children: "zenit_trie_node_t option list")

record 'h zenit_trie_t =
  tr_self :: nat
  tr_root :: zenit_trie_node_t
  tr_count :: nat
  tr_allocator :: "'h zenit_allocator_t"

definition sizeof_trie :: nat where
  "sizeof_trie = 48"

definition sizeof_trie_node :: nat where
  "sizeof_trie_node = 216"

definition char_to_index :: "byte \<Rightarrow> int" where
  "char_to_index c =
    (if in_range 65 90 c then char_val c - 65
     else if in_range 97 122 c then char_val c - 97
     else -1)"

text \<open>The bytes of a new block are zero: no value, not the end of a key, all children \<open>NULL\<close>.\<close>

definition node_create :: "'h zenit_allocator_t \<Rightarrow> 'h \<Rightarrow> (zenit_trie_node_t option \<times> 'h) option" where
  "node_create a h = do {
     (p, h') \<leftarrow> zenit_allocator_alloc_zero a 1 sizeof_trie_node h;
     Some (map_option (\<lambda>b. Node (maddr b) 0 False (replicate TRIE_ALPHABET_SIZE None)) p, h')
   }"

fun node_destroy :: "zenit_trie_node_t \<Rightarrow> 'h zenit_allocator_t \<Rightarrow> 'h \<Rightarrow> 'h option"
  and destroy_children :: "zenit_trie_node_t option list \<Rightarrow> 'h zenit_allocator_t \<Rightarrow> 'h \<Rightarrow> 'h option" where
  "node_destroy (Node x v e cs) a h = do { h1 \<leftarrow> destroy_children cs a h; free_fn a (Some x) h1 }"
| "destroy_children [] a h = Some h"
| "destroy_children (None # cs) a h = destroy_children cs a h"
| "destroy_children (Some n # cs) a h = do { h1 \<leftarrow> node_destroy n a h; destroy_children cs a h1 }"

definition zenit_trie_create_with_allocator :: "'h zenit_allocator_t \<Rightarrow> 'h \<Rightarrow> ('h zenit_trie_t option \<times> 'h) option" where
  "zenit_trie_create_with_allocator a h =
    (case alloc_fn a sizeof_trie h of
       (None, h1) \<Rightarrow> Some (None, h1)
     | (Some b, h1) \<Rightarrow> do {
         (root, h2) \<leftarrow> node_create a h1;
         case root of
           None \<Rightarrow> do { h3 \<leftarrow> free_fn a (Some (maddr b)) h2; Some (None, h3) }
         | Some n \<Rightarrow> Some (Some \<lparr>tr_self = maddr b, tr_root = n, tr_count = 0, tr_allocator = a\<rparr>, h2)
       })"

definition zenit_trie_create :: "c_heap \<Rightarrow> (c_heap zenit_trie_t option \<times> c_heap) option" where
  "zenit_trie_create = zenit_trie_create_with_allocator ZENIT_ALLOCATOR_DEFAULT"

definition zenit_trie_destroy :: "'h zenit_trie_t option \<Rightarrow> 'h \<Rightarrow> 'h option" where
  "zenit_trie_destroy trie h =
    (case trie of None \<Rightarrow> Some h
     | Some t \<Rightarrow> do { h1 \<leftarrow> node_destroy (tr_root t) (tr_allocator t) h; free_fn (tr_allocator t) (Some (tr_self t)) h1 })"

text \<open>Access to a child slot, and the test for characters that are skipped.\<close>

definition child_get :: "zenit_trie_node_t \<Rightarrow> int \<Rightarrow> zenit_trie_node_t option option" where
  "child_get n idx = (if 0 \<le> idx \<and> nat idx < length (tn_children n) then Some (tn_children n ! nat idx) else None)"

definition child_set :: "zenit_trie_node_t \<Rightarrow> int \<Rightarrow> zenit_trie_node_t option \<Rightarrow> zenit_trie_node_t" where
  "child_set n idx c = Node (tn_addr n) (tn_value n) (tn_is_end n) ((tn_children n)[nat idx := c])"

definition skipped :: "int \<Rightarrow> bool" where
  "skipped idx \<longleftrightarrow> idx < 0 \<or> idx \<ge> int TRIE_ALPHABET_SIZE"

text \<open>
  The walk of an insertion from one node on: the result, whether the key is new, and the node after it.
\<close>

definition mark_end :: "int \<Rightarrow> zenit_trie_node_t \<Rightarrow> zenit_trie_node_t" where
  "mark_end v n = Node (tn_addr n) v True (tn_children n)"

fun insert_walk :: "'h zenit_allocator_t \<Rightarrow> int \<Rightarrow> c_str \<Rightarrow> zenit_trie_node_t \<Rightarrow> 'h \<Rightarrow>
    (zenit_result_t \<times> bool \<times> zenit_trie_node_t \<times> 'h) option" where
  "insert_walk a v [] node h = Some (ZENIT_OK, \<not> tn_is_end node, mark_end v node, h)"
| "insert_walk a v (c # p) node h =
    (if c = 0 then Some (ZENIT_OK, \<not> tn_is_end node, mark_end v node, h)
     else if skipped (char_to_index c) then insert_walk a v p node h
     else do {
       child \<leftarrow> child_get node (char_to_index c);
       (child', h1) \<leftarrow> (case child of None \<Rightarrow> node_create a h | Some n \<Rightarrow> Some (Some n, h));
       case child' of
         None \<Rightarrow> Some (ZENIT_ERROR_ALLOC, False, node, h1)
       | Some n \<Rightarrow> do {
           (r, new, n', h2) \<leftarrow> insert_walk a v p n h1;
           Some (r, new, child_set node (char_to_index c) (Some n'), h2)
         }
     })"

definition zenit_trie_insert :: "'h zenit_trie_t option \<Rightarrow> c_str option \<Rightarrow> int \<Rightarrow> 'h \<Rightarrow> (zenit_result_t \<times> 'h zenit_trie_t option \<times> 'h) option" where
  "zenit_trie_insert trie key v h =
    (case (trie, key) of
       (Some t, Some k) \<Rightarrow> do {
         (r, new, root, h1) \<leftarrow> insert_walk (tr_allocator t) v k (tr_root t) h;
         Some (r, Some (t\<lparr>tr_root := root, tr_count := (if new then sz_add (tr_count t) 1 else tr_count t)\<rparr>), h1)
       }
     | _ \<Rightarrow> Some (ZENIT_ERROR_NULL, trie, h))"

text \<open>The walk that the read-only operations share: the node of a key, or \<open>None\<close> when a child is missing.\<close>

fun trie_walk :: "c_str \<Rightarrow> zenit_trie_node_t \<Rightarrow> zenit_trie_node_t option option" where
  "trie_walk [] node = Some (Some node)"
| "trie_walk (c # p) node =
    (if c = 0 then Some (Some node)
     else if skipped (char_to_index c) then trie_walk p node
     else do {
       child \<leftarrow> child_get node (char_to_index c);
       case child of None \<Rightarrow> Some None | Some n \<Rightarrow> trie_walk p n
     })"

definition zenit_trie_search :: "'h zenit_trie_t option \<Rightarrow> c_str option \<Rightarrow> int option \<Rightarrow> (bool \<times> int option) option" where
  "zenit_trie_search trie key out =
    (case (trie, key) of
       (Some t, Some k) \<Rightarrow> do {
         w \<leftarrow> trie_walk k (tr_root t);
         Some (case w of None \<Rightarrow> (False, out)
           | Some n \<Rightarrow> if \<not> tn_is_end n then (False, out) else (True, map_option (\<lambda>_. tn_value n) out))
       }
     | _ \<Rightarrow> Some (False, out))"

definition zenit_trie_starts_with :: "'h zenit_trie_t option \<Rightarrow> c_str option \<Rightarrow> bool option" where
  "zenit_trie_starts_with trie prefix =
    (case (trie, prefix) of
       (Some t, Some k) \<Rightarrow> do { w \<leftarrow> trie_walk k (tr_root t); Some (w \<noteq> None) }
     | _ \<Rightarrow> Some False)"

fun delete_walk :: "c_str \<Rightarrow> zenit_trie_node_t \<Rightarrow> (zenit_result_t \<times> zenit_trie_node_t) option" where
  "delete_walk [] node =
    (if \<not> tn_is_end node then Some (ZENIT_ERROR_NOT_FOUND, node)
     else Some (ZENIT_OK, Node (tn_addr node) (tn_value node) False (tn_children node)))"
| "delete_walk (c # p) node =
    (if c = 0 then delete_walk [] node
     else if skipped (char_to_index c) then delete_walk p node
     else do {
       child \<leftarrow> child_get node (char_to_index c);
       case child of None \<Rightarrow> Some (ZENIT_ERROR_NOT_FOUND, node)
       | Some n \<Rightarrow> do { (r, n') \<leftarrow> delete_walk p n; Some (r, child_set node (char_to_index c) (Some n')) }
     })"

definition zenit_trie_delete :: "'h zenit_trie_t option \<Rightarrow> c_str option \<Rightarrow> (zenit_result_t \<times> 'h zenit_trie_t option) option" where
  "zenit_trie_delete trie key =
    (case (trie, key) of
       (Some t, Some k) \<Rightarrow> do {
         (r, root) \<leftarrow> delete_walk k (tr_root t);
         Some (r, Some (t\<lparr>tr_root := root, tr_count := (if r = ZENIT_OK then sz_sub (tr_count t) 1 else tr_count t)\<rparr>))
       }
     | _ \<Rightarrow> Some (ZENIT_ERROR_NULL, trie))"

definition zenit_trie_count :: "'h zenit_trie_t option \<Rightarrow> nat" where
  "zenit_trie_count trie = (case trie of None \<Rightarrow> 0 | Some t \<Rightarrow> tr_count t)"

definition zenit_trie_clear :: "'h zenit_trie_t option \<Rightarrow> 'h \<Rightarrow> ('h zenit_trie_t option \<times> 'h) option" where
  "zenit_trie_clear trie h =
    (case trie of None \<Rightarrow> Some (None, h)
     | Some t \<Rightarrow> do {
         h1 \<leftarrow> destroy_children (tn_children (tr_root t)) (tr_allocator t) h;
         let root = Node (tn_addr (tr_root t)) (tn_value (tr_root t)) (tn_is_end (tr_root t))
           (replicate (length (tn_children (tr_root t))) None);
         Some (Some (t\<lparr>tr_root := root, tr_count := 0\<rparr>), h1)
       })"

section \<open>The map of a tree\<close>

fun node_addrs :: "zenit_trie_node_t \<Rightarrow> nat list" where
  "node_addrs (Node x v e cs) = concat (map (\<lambda>c. case c of None \<Rightarrow> [] | Some n \<Rightarrow> node_addrs n) cs) @ [x]"

inductive trie_wf :: "zenit_trie_node_t \<Rightarrow> bool" where
  "length cs = 26 \<Longrightarrow> (\<And>n. Some n \<in> set cs \<Longrightarrow> trie_wf n) \<Longrightarrow> trie_wf (Node x v e cs)"

fun descend :: "nat list \<Rightarrow> zenit_trie_node_t \<Rightarrow> zenit_trie_node_t option" where
  "descend [] n = Some n"
| "descend (i # ks) n = (if i < length (tn_children n) then Option.bind (tn_children n ! i) (descend ks) else None)"

definition trie_map :: "zenit_trie_node_t \<Rightarrow> nat list \<rightharpoonup> int" where
  "trie_map n ks = (case descend ks n of None \<Rightarrow> None | Some m \<Rightarrow> if tn_is_end m then Some (tn_value m) else None)"

text \<open>The letters of a key, as the alphabet counts them: everything else is skipped, case is folded.\<close>

fun letters :: "c_str \<Rightarrow> nat list" where
  "letters [] = []"
| "letters (c # p) = (if c = 0 then [] else if skipped (char_to_index c) then letters p else nat (char_to_index c) # letters p)"

lemma alphabet [simp]: "TRIE_ALPHABET_SIZE = 26" by (simp add: TRIE_ALPHABET_SIZE_def)

lemma index_range: "\<not> skipped (char_to_index c) \<Longrightarrow> 0 \<le> char_to_index c \<and> nat (char_to_index c) < 26"
  by (auto simp: skipped_def)

inductive_simps trie_wf_Node: "trie_wf (Node x v e cs)"

lemma trie_wfD:
  assumes "trie_wf n"
  shows "length (tn_children n) = 26" and "Some m \<in> set (tn_children n) \<Longrightarrow> trie_wf m"
    and "i < 26 \<Longrightarrow> tn_children n ! i = Some m \<Longrightarrow> trie_wf m"
proof -
  show l: "length (tn_children n) = 26" and s: "\<And>m. Some m \<in> set (tn_children n) \<Longrightarrow> trie_wf m"
    using assms by (cases n; simp add: trie_wf_Node)+
  show "trie_wf m" if "i < 26" "tn_children n ! i = Some m"
    using s [of m] nth_mem [of i "tn_children n"] that l by simp
qed

lemma trie_wfI: "length (tn_children n) = 26 \<Longrightarrow> (\<And>m. Some m \<in> set (tn_children n) \<Longrightarrow> trie_wf m) \<Longrightarrow> trie_wf n"
  by (cases n) (auto intro: trie_wf.intros)

lemma wf_child_set:
  assumes "trie_wf n" and "trie_wf m" and "0 \<le> i" "nat i < 26"
  shows "trie_wf (child_set n i (Some m))"
proof (rule trie_wfI)
  show "length (tn_children (child_set n i (Some m))) = 26" using trie_wfD(1) [OF assms(1)] by (simp add: child_set_def)
next
  fix k assume "Some k \<in> set (tn_children (child_set n i (Some m)))"
  then have "Some k \<in> insert (Some m) (set (tn_children n))"
    using set_update_subset_insert [of "tn_children n" "nat i" "Some m"] by (auto simp: child_set_def)
  then show "trie_wf k" using assms(2) trie_wfD(2) [OF assms(1)] by auto
qed

lemma child_get_ok: "trie_wf n \<Longrightarrow> 0 \<le> i \<Longrightarrow> nat i < 26 \<Longrightarrow> child_get n i = Some (tn_children n ! nat i)"
  using trie_wfD(1) [of n] by (simp add: child_get_def)

text \<open>The map below a child slot.\<close>

definition child_map :: "zenit_trie_node_t option \<Rightarrow> nat list \<rightharpoonup> int" where
  "child_map c = (case c of None \<Rightarrow> Map.empty | Some m \<Rightarrow> trie_map m)"

lemma trie_map_Nil: "trie_map n [] = (if tn_is_end n then Some (tn_value n) else None)"
  by (simp add: trie_map_def)

lemma trie_map_Cons:
  "trie_map n (i # ks) = (if i < length (tn_children n) then child_map (tn_children n ! i) ks else None)"
  by (cases "tn_children n ! i") (simp_all add: trie_map_def child_map_def)

lemma trie_map_child_set:
  assumes "nat i < length (tn_children n)"
  shows "trie_map (child_set n i (Some m)) ks =
    (case ks of [] \<Rightarrow> trie_map n [] | j # js \<Rightarrow> if j = nat i then trie_map m js else trie_map n ks)"
  using assms by (cases ks) (simp_all add: trie_map_Nil trie_map_Cons child_set_def child_map_def)

lemma trie_map_update:
  assumes "nat i < length (tn_children n)" and "trie_map m = (child_map (tn_children n ! nat i))(ls := x)"
  shows "trie_map (child_set n i (Some m)) = (trie_map n)(nat i # ls := x)"
  using assms by (auto simp: fun_eq_iff trie_map_child_set trie_map_Cons split: list.splits)

lemma trie_map_same:
  assumes "nat i < length (tn_children n)" and "trie_map m = child_map (tn_children n ! nat i)"
  shows "trie_map (child_set n i (Some m)) = trie_map n"
  using assms by (auto simp: fun_eq_iff trie_map_child_set trie_map_Cons split: list.splits)

lemma trie_map_mark: "trie_map (Node x w e (tn_children n)) = (trie_map n)([] := (if e then Some w else None))"
proof
  fix ks show "trie_map (Node x w e (tn_children n)) ks = ((trie_map n)([] := (if e then Some w else None))) ks"
    by (cases ks) (simp_all add: trie_map_Nil trie_map_Cons)
qed

lemma fresh_node:
  shows "trie_wf (Node x 0 False (replicate 26 None))" and "trie_map (Node x 0 False (replicate 26 None)) = Map.empty"
    and "node_addrs (Node x 0 False (replicate 26 None)) = [x]"
proof -
  show "trie_wf (Node x 0 False (replicate 26 None))" by (auto intro: trie_wf.intros)
  show "trie_map (Node x 0 False (replicate 26 None)) = Map.empty"
  proof
    fix ks show "trie_map (Node x 0 False (replicate 26 None)) ks = None"
      by (cases ks) (simp_all add: trie_map_Nil trie_map_Cons child_map_def)
  qed
  show "node_addrs (Node x 0 False (replicate 26 None)) = [x]" by (simp add: map_replicate_const)
qed

section \<open>The blocks of a tree\<close>

definition child_addrs :: "zenit_trie_node_t option \<Rightarrow> nat list" where
  "child_addrs c = (case c of None \<Rightarrow> [] | Some n \<Rightarrow> node_addrs n)"

lemma node_addrs_eq: "node_addrs n = concat (map child_addrs (tn_children n)) @ [tn_addr n]"
  by (cases n) (simp add: child_addrs_def [abs_def])

declare node_addrs.simps [simp del]

lemma concat_update_mset:
  assumes "i < length cs"
  shows "mset (concat (map f (cs[i := y]))) + mset (f (cs ! i)) = mset (concat (map f cs)) + mset (f y)"
proof -
  have "mset (concat (map f cs)) = mset (concat (map f (take i cs @ cs ! i # drop (Suc i) cs)))"
    using id_take_nth_drop [OF assms] by simp
  then show ?thesis using assms by (simp add: upd_conv_take_nth_drop)
qed

lemma child_set_addrs:
  assumes i: "nat i < length (tn_children n)" and m: "mset (node_addrs m) = mset (child_addrs (tn_children n ! nat i)) + A"
  shows "mset (node_addrs (child_set n i (Some m))) = mset (node_addrs n) + A"
proof -
  have "mset (concat (map child_addrs ((tn_children n)[nat i := Some m]))) + mset (child_addrs (tn_children n ! nat i)) =
      mset (concat (map child_addrs (tn_children n))) + mset (child_addrs (Some m))"
    by (rule concat_update_mset [OF i])
  also have "mset (child_addrs (Some m)) = mset (child_addrs (tn_children n ! nat i)) + A"
    using m by (simp add: child_addrs_def)
  finally have "mset (concat (map child_addrs ((tn_children n)[nat i := Some m]))) = mset (concat (map child_addrs (tn_children n))) + A"
    by simp
  then show ?thesis unfolding node_addrs_eq by (simp add: child_set_def)
qed

lemma node_destroy_frees:
  "node_destroy n a h = free_all a (map Some (node_addrs n)) h"
  "destroy_children cs a h = free_all a (map Some (concat (map child_addrs cs))) h"
proof (induction n a h and cs a h rule: node_destroy_destroy_children.induct)
  case (1 x v e cs a h)
  then show ?case by (simp add: free_all_append free_all_eta node_addrs_eq)
next
  case (4 n cs a h)
  then show ?case by (cases "free_all a (map Some (node_addrs n)) h") (simp_all add: free_all_append child_addrs_def)
qed (simp_all add: child_addrs_def)

section \<open>Insertion\<close>

lemma node_create_cases:
  assumes c: "allocator_contract a live"
  obtains (null) h' where "node_create a h = Some (None, h')" and "live h' = live h"
  | (node) x h' where "node_create a h = Some (Some (Node x 0 False (replicate 26 None)), h')" and "fresh_blocks live h [x] h'"
proof (cases rule: allocator_contract.alloc_zero_cases [OF c, of 1 sizeof_trie_node h, case_names null block])
  case (null h')
  then show thesis by (intro that(1) [of h']) (simp_all add: node_create_def)
next
  case (block b h')
  then show thesis by (intro that(2) [of "maddr b" h']) (simp_all add: node_create_def fresh_blocks_one)
qed

definition insert_post :: "('h \<Rightarrow> nat set) \<Rightarrow> nat list \<Rightarrow> int \<Rightarrow> zenit_trie_node_t \<Rightarrow> 'h \<Rightarrow> zenit_result_t \<Rightarrow> bool \<Rightarrow> zenit_trie_node_t \<Rightarrow> 'h \<Rightarrow> bool" where
  "insert_post live ls v node h r new node' h' \<longleftrightarrow> trie_wf node' \<and>
    (\<exists>as. fresh_blocks live h as h' \<and> mset (node_addrs node') = mset (node_addrs node) + mset as) \<and>
    (r = ZENIT_OK \<and> trie_map node' = (trie_map node)(ls \<mapsto> v) \<and> new = (trie_map node ls = None) \<or>
     r = ZENIT_ERROR_ALLOC \<and> trie_map node' = trie_map node \<and> \<not> new)"

lemma insert_post_mark:
  assumes "trie_wf node"
  shows "insert_post live [] v node h ZENIT_OK (\<not> tn_is_end node) (mark_end v node) h"
proof -
  have "trie_wf (mark_end v node)" by (rule trie_wfI) (use trie_wfD(1,2) [OF assms] in \<open>simp_all add: mark_end_def\<close>)
  moreover have "node_addrs (mark_end v node) = node_addrs node" unfolding node_addrs_eq by (simp add: mark_end_def)
  moreover have "trie_map (mark_end v node) = (trie_map node)([] \<mapsto> v)" by (simp add: mark_end_def trie_map_mark)
  ultimately show ?thesis unfolding insert_post_def
    by (intro conjI exI [of _ "[]"]) (simp_all add: fresh_blocks_Nil trie_map_Nil)
qed

text \<open>One step down: \<open>n\<close> is the child before the walk goes on, already there or just created.\<close>

lemma insert_post_child:
  assumes wf: "trie_wf node" and i: "0 \<le> i" "nat i < 26" and m: "trie_map n = child_map (tn_children node ! nat i)"
    and as: "fresh_blocks live h as h1" "mset (node_addrs n) = mset (child_addrs (tn_children node ! nat i)) + mset as"
    and post: "insert_post live ls v n h1 r new n' h'"
  shows "insert_post live (nat i # ls) v node h r new (child_set node i (Some n')) h'"
proof -
  have len: "nat i < length (tn_children node)" using trie_wfD(1) [OF wf] i by simp
  obtain bs where bs: "fresh_blocks live h1 bs h'" "mset (node_addrs n') = mset (node_addrs n) + mset bs" and wf': "trie_wf n'"
    using post by (auto simp: insert_post_def)
  have "mset (node_addrs (child_set node i (Some n'))) = mset (node_addrs node) + mset (as @ bs)"
    by (rule child_set_addrs [OF len]) (simp add: bs(2) as(2))
  moreover have "fresh_blocks live h (as @ bs) h'" by (rule fresh_blocks_trans [OF as(1) bs(1)])
  moreover have "trie_map node (nat i # ls) = trie_map n ls" using len m by (simp add: trie_map_Cons)
  ultimately show ?thesis
    using post wf_child_set [OF wf wf' i] trie_map_update [OF len, of n' ls "Some v"] trie_map_same [OF len, of n'] m
    unfolding insert_post_def by metis
qed

lemma insert_walk_ok:
  assumes c: "allocator_contract a live" and "trie_wf node"
  shows "\<exists>r new node' h'. insert_walk a v k node h = Some (r, new, node', h') \<and> insert_post live (letters k) v node h r new node' h'"
  using assms(2)
proof (induction k arbitrary: node h)
  case Nil
  then show ?case using insert_post_mark [OF Nil] by simp
next
  case (Cons ch p)
  let ?i = "char_to_index ch"
  consider (nul) "ch = 0" | (skip) "ch \<noteq> 0" "skipped ?i" | (go) "ch \<noteq> 0" "\<not> skipped ?i" by blast
  then show ?case
  proof cases
    case nul
    then show ?thesis using insert_post_mark [OF Cons.prems] by simp
  next
    case skip
    then show ?thesis using Cons by simp
  next
    case go
    note i = index_range [OF go(2)]
    note get = child_get_ok [OF Cons.prems, of ?i]
    show ?thesis
    proof (cases "tn_children node ! nat ?i")
      case (Some n)
      have wf: "trie_wf n" using trie_wfD(3) [OF Cons.prems _ Some] i by simp
      obtain r new n' h' where r: "insert_walk a v p n h = Some (r, new, n', h')" "insert_post live (letters p) v n h r new n' h'"
        using Cons.IH [OF wf] by blast
      have "insert_post live (nat ?i # letters p) v node h r new (child_set node ?i (Some n')) h'"
        by (rule insert_post_child [OF Cons.prems _ _ _ _ _ r(2), where as = "[]"])
          (use i Some in \<open>simp_all add: child_map_def child_addrs_def fresh_blocks_Nil\<close>)
      then show ?thesis using go r(1) get i Some by simp
    next
      case None
      show ?thesis
      proof (cases rule: node_create_cases [OF c, of h, case_names null node])
        case (null h')
        have "insert_post live (letters (ch # p)) v node h ZENIT_ERROR_ALLOC False node h'"
          using null(2) Cons.prems unfolding insert_post_def by (intro conjI exI [of _ "[]"]) (simp_all add: fresh_blocks_Nil)
        then show ?thesis using go null(1) get i None by auto
      next
        case (node x h1)
        let ?n = "Node x 0 False (replicate 26 None)"
        obtain r new n' h' where r: "insert_walk a v p ?n h1 = Some (r, new, n', h')" "insert_post live (letters p) v ?n h1 r new n' h'"
          using Cons.IH [OF fresh_node(1)] by blast
        have "insert_post live (nat ?i # letters p) v node h r new (child_set node ?i (Some n')) h'"
          by (rule insert_post_child [OF Cons.prems _ _ _ node(2) _ r(2)])
            (use i None fresh_node in \<open>simp_all add: child_map_def child_addrs_def\<close>)
        then show ?thesis using go r(1) get i None node(1) by simp
      qed
    qed
  qed
qed

section \<open>Lookup and deletion\<close>

lemma trie_walk_ok: "trie_wf node \<Longrightarrow> trie_walk k node = Some (descend (letters k) node)"
proof (induction k arbitrary: node)
  case (Cons ch p)
  show ?case
  proof (cases "ch = 0 \<or> skipped (char_to_index ch)")
    case True
    then show ?thesis using Cons by auto
  next
    case False
    then have i: "0 \<le> char_to_index ch" "nat (char_to_index ch) < 26" using index_range by auto
    note get = child_get_ok [OF Cons.prems i]
    show ?thesis using False get i Cons.IH trie_wfD(1) [OF Cons.prems] trie_wfD(3) [OF Cons.prems i(2)]
      by (cases "tn_children node ! nat (char_to_index ch)") simp_all
  qed
qed simp

definition delete_post :: "nat list \<Rightarrow> zenit_trie_node_t \<Rightarrow> zenit_result_t \<Rightarrow> zenit_trie_node_t \<Rightarrow> bool" where
  "delete_post ls node r node' \<longleftrightarrow> trie_wf node' \<and> mset (node_addrs node') = mset (node_addrs node) \<and>
    r = (if trie_map node ls = None then ZENIT_ERROR_NOT_FOUND else ZENIT_OK) \<and> trie_map node' = (trie_map node)(ls := None)"

lemma delete_post_end:
  assumes "trie_wf node"
  shows "\<exists>r node'. delete_walk [] node = Some (r, node') \<and> delete_post [] node r node'"
proof (cases "tn_is_end node")
  case True
  let ?n = "Node (tn_addr node) (tn_value node) False (tn_children node)"
  have "trie_wf ?n" by (rule trie_wfI) (use trie_wfD(1,2) [OF assms] in simp_all)
  moreover have "node_addrs ?n = node_addrs node" unfolding node_addrs_eq by simp
  ultimately show ?thesis using True by (simp add: delete_post_def trie_map_mark trie_map_Nil)
next
  case False
  then show ?thesis using assms by (simp add: delete_post_def trie_map_Nil fun_upd_idem)
qed

lemma delete_walk_ok:
  assumes "trie_wf node"
  shows "\<exists>r node'. delete_walk k node = Some (r, node') \<and> delete_post (letters k) node r node'"
  using assms
proof (induction k arbitrary: node)
  case Nil
  then show ?case using delete_post_end by simp
next
  case (Cons ch p)
  let ?i = "char_to_index ch"
  consider (nul) "ch = 0" | (skip) "ch \<noteq> 0" "skipped ?i" | (go) "ch \<noteq> 0" "\<not> skipped ?i" by blast
  then show ?case
  proof cases
    case nul
    then show ?thesis using delete_post_end [OF Cons.prems] by simp
  next
    case skip
    then show ?thesis using Cons by simp
  next
    case go
    then have i: "0 \<le> ?i" "nat ?i < 26" using index_range by auto
    note get = child_get_ok [OF Cons.prems i]
    have len: "nat ?i < length (tn_children node)" using i trie_wfD(1) [OF Cons.prems] by simp
    show ?thesis
    proof (cases "tn_children node ! nat ?i")
      case None
      then have "trie_map node (nat ?i # letters p) = None" using len by (simp add: trie_map_Cons child_map_def)
      then show ?thesis using go get None Cons.prems by (simp add: delete_post_def fun_upd_idem)
    next
      case (Some n)
      have wf: "trie_wf n" by (rule trie_wfD(3) [OF Cons.prems i(2) Some])
      obtain r n' where r: "delete_walk p n = Some (r, n')" "delete_post (letters p) n r n'" using Cons.IH [OF wf] by blast
      have m: "trie_map (child_set node ?i (Some n')) = (trie_map node)(nat ?i # letters p := None)"
        by (rule trie_map_update [OF len]) (use r(2) Some in \<open>simp add: delete_post_def child_map_def\<close>)
      have as: "mset (node_addrs (child_set node ?i (Some n'))) = mset (node_addrs node) + {#}"
        by (rule child_set_addrs [OF len]) (use r(2) Some in \<open>simp add: delete_post_def child_addrs_def\<close>)
      have "trie_map node (nat ?i # letters p) = trie_map n (letters p)" using len Some by (simp add: trie_map_Cons child_map_def)
      then have "delete_post (letters (ch # p)) node r (child_set node ?i (Some n'))"
        using go r(2) m as wf_child_set [OF Cons.prems _ i, of n'] by (simp add: delete_post_def)
      then show ?thesis using go get Some r(1) by simp
    qed
  qed
qed

lemma trie_map_finite: "trie_wf n \<Longrightarrow> finite (dom (trie_map n))"
proof (induction rule: trie_wf.induct)
  case (1 cs x v e)
  let ?n = "Node x v e cs"
  have sub: "dom (trie_map ?n) \<subseteq> insert [] (\<Union>i \<in> {..<26}. (#) i ` dom (child_map (cs ! i)))"
  proof
    fix ks assume "ks \<in> dom (trie_map ?n)"
    show "ks \<in> insert [] (\<Union>i \<in> {..<26}. (#) i ` dom (child_map (cs ! i)))"
    proof (cases ks)
      case (Cons i js)
      then have "i \<in> {..<26}" "js \<in> dom (child_map (cs ! i))"
        using \<open>ks \<in> dom (trie_map ?n)\<close> 1(1) by (auto simp: trie_map_Cons split: if_splits)
      then show ?thesis unfolding Cons by blast
    qed simp
  qed
  have "finite (dom (child_map (cs ! i)))" if "i < 26" for i
    using 1(3) [of "the (cs ! i)"] nth_mem [of i cs] 1(1) that by (cases "cs ! i") (simp_all add: child_map_def)
  then show ?case by (intro finite_subset [OF sub]) simp
qed

section \<open>The handle\<close>

definition trie_ok :: "('h \<Rightarrow> nat set) \<Rightarrow> 'h \<Rightarrow> 'h zenit_trie_t \<Rightarrow> 'h \<Rightarrow> bool" where
  "trie_ok live h0 t h \<longleftrightarrow> allocator_contract (tr_allocator t) live \<and> trie_wf (tr_root t) \<and>
    tr_count t = card (dom (trie_map (tr_root t))) \<and> fresh_blocks live h0 (tr_self t # node_addrs (tr_root t)) h"

lemma trie_insert_ok:
  assumes ok: "trie_ok live h0 t h" and room: "tr_count t + 1 < size_mod"
  obtains r t' h' where "zenit_trie_insert (Some t) (Some k) v h = Some (r, Some t', h')" and "trie_ok live h0 t' h'"
    and "r = ZENIT_OK \<and> trie_map (tr_root t') = (trie_map (tr_root t))(letters k \<mapsto> v) \<or>
      r = ZENIT_ERROR_ALLOC \<and> trie_map (tr_root t') = trie_map (tr_root t)"
    and "tr_count t' \<le> tr_count t + 1"
proof -
  have c: "allocator_contract (tr_allocator t) live" and wf: "trie_wf (tr_root t)" and cnt: "tr_count t = card (dom (trie_map (tr_root t)))"
    and f: "fresh_blocks live h0 (tr_self t # node_addrs (tr_root t)) h"
    using ok by (simp_all add: trie_ok_def)
  obtain r new n h' where w: "insert_walk (tr_allocator t) v k (tr_root t) h = Some (r, new, n, h')"
      and post: "insert_post live (letters k) v (tr_root t) h r new n h'"
    using insert_walk_ok [OF c wf] by blast
  obtain as where as: "fresh_blocks live h as h'" "mset (node_addrs n) = mset (node_addrs (tr_root t)) + mset as" and wf': "trie_wf n"
    using post by (auto simp: insert_post_def)
  define t' where "t' = t\<lparr>tr_root := n, tr_count := (if new then sz_add (tr_count t) 1 else tr_count t)\<rparr>"
  have "mset ((tr_self t # node_addrs (tr_root t)) @ as) = mset (tr_self t # node_addrs n)" by (simp add: as(2))
  then have fr: "fresh_blocks live h0 (tr_self t # node_addrs n) h'"
    using fresh_blocks_trans [OF f as(1)] fresh_blocks_mset by metis
  have "finite (dom (trie_map (tr_root t)))" by (rule trie_map_finite [OF wf])
  then have "tr_count t' = card (dom (trie_map n))" "tr_count t' \<le> tr_count t + 1"
    using post cnt room by (auto simp: insert_post_def t'_def size_simps domIff card_insert_if)
  then have "trie_ok live h0 t' h'" using c wf' fr by (simp add: trie_ok_def t'_def)
  then show thesis using w post \<open>tr_count t' \<le> tr_count t + 1\<close>
    by (intro that [of r t' h']) (auto simp: zenit_trie_insert_def t'_def insert_post_def)
qed

lemma trie_delete_ok:
  assumes ok: "trie_ok live h0 t h" and room: "tr_count t < size_mod"
  obtains t' where "zenit_trie_delete (Some t) (Some k) =
      Some (if trie_map (tr_root t) (letters k) = None then ZENIT_ERROR_NOT_FOUND else ZENIT_OK, Some t')"
    and "trie_ok live h0 t' h" and "trie_map (tr_root t') = (trie_map (tr_root t))(letters k := None)" and "tr_count t' \<le> tr_count t"
proof -
  let ?m = "trie_map (tr_root t)"
  have c: "allocator_contract (tr_allocator t) live" and wf: "trie_wf (tr_root t)" and cnt: "tr_count t = card (dom ?m)"
    and f: "fresh_blocks live h0 (tr_self t # node_addrs (tr_root t)) h"
    using ok by (simp_all add: trie_ok_def)
  obtain r n where w: "delete_walk k (tr_root t) = Some (r, n)" and post: "delete_post (letters k) (tr_root t) r n"
    using delete_walk_ok [OF wf] by blast
  define t' where "t' = t\<lparr>tr_root := n, tr_count := (if r = ZENIT_OK then sz_sub (tr_count t) 1 else tr_count t)\<rparr>"
  have "mset (tr_self t # node_addrs (tr_root t)) = mset (tr_self t # node_addrs n)" using post by (simp add: delete_post_def)
  then have fr: "fresh_blocks live h0 (tr_self t # node_addrs n) h" using f fresh_blocks_mset by metis
  have fin: "finite (dom ?m)" by (rule trie_map_finite [OF wf])
  have map: "trie_map n = ?m(letters k := None)" and r: "r = (if ?m (letters k) = None then ZENIT_ERROR_NOT_FOUND else ZENIT_OK)"
    using post by (simp_all add: delete_post_def)
  have "tr_count t' = card (dom (trie_map n)) \<and> tr_count t' \<le> tr_count t"
  proof (cases "?m (letters k) = None")
    case True
    then show ?thesis using r cnt by (simp add: t'_def map fun_upd_idem)
  next
    case False
    then have "letters k \<in> dom ?m" by auto
    moreover from this have "0 < card (dom ?m)" using fin card_gt_0_iff by blast
    ultimately show ?thesis using False r cnt room fin by (auto simp: t'_def map size_simps)
  qed
  moreover from this have "trie_ok live h0 t' h" using c post fr by (simp add: trie_ok_def t'_def delete_post_def)
  ultimately show thesis using w map r by (intro that [of t']) (simp_all add: zenit_trie_delete_def t'_def)
qed

lemma trie_create_cases:
  assumes c: "allocator_contract a live"
  obtains (failed) h' where "zenit_trie_create_with_allocator a h = Some (None, h')" and "live h' = live h"
  | (made) t h' where "zenit_trie_create_with_allocator a h = Some (Some t, h')" and "trie_ok live h t h'"
    and "trie_map (tr_root t) = Map.empty" and "tr_count t = 0"
proof (cases rule: allocator_contract.alloc_cases [OF c, of sizeof_trie h, case_names null block])
  case (null h')
  then show thesis by (intro failed [of h']) (simp_all add: zenit_trie_create_with_allocator_def)
next
  case (block b h1)
  show thesis
  proof (cases rule: node_create_cases [OF c, of h1, case_names null node])
    case (null h2)
    have "maddr b \<in> live h2" using block null by simp
    then obtain h3 where "free_fn a (Some (maddr b)) h2 = Some h3" "live h3 = live h2 - {maddr b}"
      by (rule allocator_contract.free_addr [OF c])
    then show thesis using block null by (intro failed [of h3]) (auto simp: zenit_trie_create_with_allocator_def)
  next
    case (node x h2)
    let ?n = "Node x 0 False (replicate 26 None)"
    have "fresh_blocks live h ([maddr b] @ [x]) h2"
      by (rule fresh_blocks_trans [OF fresh_blocks_one node(2)]) (use block in simp_all)
    then show thesis using block node c fresh_node
      by (intro made [of "\<lparr>tr_self = maddr b, tr_root = ?n, tr_count = 0, tr_allocator = a\<rparr>" h2])
        (simp_all add: zenit_trie_create_with_allocator_def trie_ok_def)
  qed
qed

lemma trie_destroy_ok:
  assumes "trie_ok live h0 t h"
  obtains h' where "zenit_trie_destroy (Some t) h = Some h'" and "live h' = live h0"
proof -
  let ?as = "map Some (node_addrs (tr_root t))"
  have c: "allocator_contract (tr_allocator t) live" and f: "fresh_blocks live h0 (tr_self t # addr_list ?as) h"
    using assms by (simp_all add: trie_ok_def)
  obtain h2 h3 where "free_all (tr_allocator t) ?as h = Some h2" "free_fn (tr_allocator t) (Some (tr_self t)) h2 = Some h3" "live h3 = live h0"
    by (rule free_fresh [OF c f])
  then show thesis by (intro that [of h3]) (simp_all add: zenit_trie_destroy_def node_destroy_frees)
qed

lemma trie_search_ok:
  assumes "trie_wf (tr_root t)"
  shows "zenit_trie_search (Some t) (Some k) (Some d) =
    Some (trie_map (tr_root t) (letters k) \<noteq> None, Some (case trie_map (tr_root t) (letters k) of None \<Rightarrow> d | Some v \<Rightarrow> v))"
  using trie_walk_ok [OF assms, of k] by (auto simp: zenit_trie_search_def trie_map_def split: option.splits)

lemma descend_prefix: "descend (ks @ js) n \<noteq> None \<Longrightarrow> descend ks n \<noteq> None"
proof (induction ks arbitrary: n)
  case (Cons i ks)
  then show ?case by (cases "tn_children n ! i") (auto split: if_splits)
qed simp

section \<open>Runs of calls\<close>

datatype trie_call = TInsert c_str int | TDelete c_str

fun trie_run :: "trie_call list \<Rightarrow> 'h zenit_trie_t option \<Rightarrow> 'h \<Rightarrow> (zenit_result_t list \<times> 'h zenit_trie_t option \<times> 'h) option" where
  "trie_run [] t h = Some ([], t, h)"
| "trie_run (TInsert k v # xs) t h = do {
     (r, t1, h1) \<leftarrow> zenit_trie_insert t (Some k) v h;
     (rs, t2, h2) \<leftarrow> trie_run xs t1 h1;
     Some (r # rs, t2, h2)
   }"
| "trie_run (TDelete k # xs) t h = do {
     (r, t1) \<leftarrow> zenit_trie_delete t (Some k);
     (rs, t2, h2) \<leftarrow> trie_run xs t1 h;
     Some (r # rs, t2, h2)
   }"

text \<open>The map after a list of calls with their results, if these results are the right ones.\<close>

fun trie_spec :: "(nat list \<rightharpoonup> int) \<Rightarrow> trie_call list \<Rightarrow> zenit_result_t list \<Rightarrow> (nat list \<rightharpoonup> int) option" where
  "trie_spec m [] [] = Some m"
| "trie_spec m (TInsert k v # xs) (r # rs) =
    (if r = ZENIT_OK then trie_spec (m(letters k \<mapsto> v)) xs rs else if r = ZENIT_ERROR_ALLOC then trie_spec m xs rs else None)"
| "trie_spec m (TDelete k # xs) (r # rs) =
    (if r = (if m (letters k) = None then ZENIT_ERROR_NOT_FOUND else ZENIT_OK) then trie_spec (m(letters k := None)) xs rs else None)"
| "trie_spec m _ _ = None"

lemma trie_run_ok:
  assumes "trie_ok live h0 t h" and "tr_count t + length xs < size_mod"
  shows "\<exists>rs t' h'. trie_run xs (Some t) h = Some (rs, Some t', h') \<and> trie_ok live h0 t' h' \<and>
    trie_spec (trie_map (tr_root t)) xs rs = Some (trie_map (tr_root t'))"
  using assms
proof (induction xs arbitrary: t h)
  case (Cons x xs)
  show ?case
  proof (cases x)
    case (TInsert k v)
    have "tr_count t + 1 < size_mod" using Cons.prems(2) by simp
    then obtain r t1 h1 where i: "zenit_trie_insert (Some t) (Some k) v h = Some (r, Some t1, h1)" "trie_ok live h0 t1 h1"
        "r = ZENIT_OK \<and> trie_map (tr_root t1) = (trie_map (tr_root t))(letters k \<mapsto> v) \<or>
          r = ZENIT_ERROR_ALLOC \<and> trie_map (tr_root t1) = trie_map (tr_root t)" "tr_count t1 \<le> tr_count t + 1"
      by (rule trie_insert_ok [OF Cons.prems(1)])
    obtain rs t' h' where "trie_run xs (Some t1) h1 = Some (rs, Some t', h')" "trie_ok live h0 t' h'"
        "trie_spec (trie_map (tr_root t1)) xs rs = Some (trie_map (tr_root t'))"
      using Cons.IH [OF i(2)] Cons.prems(2) i(4) by auto
    then show ?thesis using TInsert i(1,3) by auto
  next
    case (TDelete k)
    have "tr_count t < size_mod" using Cons.prems(2) by simp
    then obtain t1 where d: "zenit_trie_delete (Some t) (Some k) =
          Some (if trie_map (tr_root t) (letters k) = None then ZENIT_ERROR_NOT_FOUND else ZENIT_OK, Some t1)"
        "trie_ok live h0 t1 h" "trie_map (tr_root t1) = (trie_map (tr_root t))(letters k := None)" "tr_count t1 \<le> tr_count t"
      by (rule trie_delete_ok [OF Cons.prems(1)])
    obtain rs t' h' where "trie_run xs (Some t1) h = Some (rs, Some t', h')" "trie_ok live h0 t' h'"
        "trie_spec (trie_map (tr_root t1)) xs rs = Some (trie_map (tr_root t'))"
      using Cons.IH [OF d(2)] Cons.prems(2) d(4) by auto
    then show ?thesis using TDelete d(1,3) by auto
  qed
qed simp


text \<open>
  Clearing frees every node below the root and drops every key that has a letter, but a key without
  letters sits in the root node and survives: it is still found afterwards, although the count is 0.
\<close>

theorem trie_clear_keeps_root_key:
  assumes "allocator_contract a live" and "zenit_trie_create_with_allocator a h = Some (Some t, h1)" and "length xs < size_mod"
    and "trie_run xs (Some t) h1 = Some (rs, Some t1, h2)" and "trie_spec Map.empty xs rs = Some m"
  shows "\<exists>t' h'. zenit_trie_clear (Some t1) h2 = Some (Some t', h') \<and> zenit_trie_count (Some t') = 0 \<and>
    live h' = live h \<union> {tr_self t', tn_addr (tr_root t')} \<and>
    (\<forall>k. zenit_trie_search (Some t') (Some k) (Some d) =
      (if letters k = [] then zenit_trie_search (Some t1) (Some k) (Some d) else Some (False, Some d)))"
proof -
  have t: "trie_ok live h t h1" "trie_map (tr_root t) = Map.empty" "tr_count t = 0"
    by (cases rule: trie_create_cases [OF assms(1), of h, case_names failed made]; use assms(2) in simp)+
  have ok: "trie_ok live h t1 h2" using trie_run_ok [OF t(1), of xs] t(2,3) assms(3,4) by auto
  have c: "allocator_contract (tr_allocator t1) live" and wf: "trie_wf (tr_root t1)" using ok by (simp_all add: trie_ok_def)
  let ?cs = "concat (map child_addrs (tn_children (tr_root t1)))"
  have f: "distinct (tr_self t1 # ?cs @ [tn_addr (tr_root t1)])" "set (tr_self t1 # ?cs @ [tn_addr (tr_root t1)]) \<inter> live h = {}"
      "live h2 = live h \<union> set (tr_self t1 # ?cs @ [tn_addr (tr_root t1)])"
    using ok unfolding trie_ok_def fresh_blocks_def node_addrs_eq by simp_all
  have "\<exists>h'. free_all (tr_allocator t1) (map Some ?cs) h2 = Some h' \<and> live h' = live h2 - set (addr_list (map Some ?cs))"
    by (rule free_all_ok [OF c]) (use f in \<open>unfold addr_list_Some, auto\<close>)
  then obtain h' where h': "free_all (tr_allocator t1) (map Some ?cs) h2 = Some h'" "live h' = live h2 - set ?cs" by auto
  define n where "n = Node (tn_addr (tr_root t1)) (tn_value (tr_root t1)) (tn_is_end (tr_root t1)) (replicate 26 None)"
  define t' where "t' = t1\<lparr>tr_root := n, tr_count := 0\<rparr>"
  have "zenit_trie_clear (Some t1) h2 = Some (Some t', h')"
    using h'(1) trie_wfD(1) [OF wf] by (simp add: zenit_trie_clear_def node_destroy_frees t'_def n_def Let_def)
  moreover have "live h' = live h \<union> {tr_self t', tn_addr (tr_root t')}" using f h'(2) by (auto simp: t'_def n_def)
  moreover have wf': "trie_wf (tr_root t')" by (auto simp: t'_def n_def intro: trie_wf.intros)
  moreover have "trie_map n ks = (if ks = [] then trie_map (tr_root t1) [] else None)" for ks
    by (cases ks) (simp_all add: n_def trie_map_Nil trie_map_Cons child_map_def)
  then have "zenit_trie_search (Some t') (Some k) (Some d) =
      (if letters k = [] then zenit_trie_search (Some t1) (Some k) (Some d) else Some (False, Some d))" for k
    unfolding trie_search_ok [OF wf] trie_search_ok [OF wf'] by (simp add: t'_def)
  ultimately show ?thesis by (intro exI [of _ t'] exI [of _ h']) (simp add: t'_def zenit_trie_count_def)
qed

section \<open>A trie at work\<close>

definition trie_heap :: c_heap where
  "trie_heap = \<lparr>heap_live = [], heap_script = [], heap_junk = 9\<rparr>"

lemma trie_heap_create:
  obtains t h' where "zenit_trie_create_with_allocator ZENIT_ALLOCATOR_DEFAULT trie_heap = Some (Some t, h')"
proof (cases rule: trie_create_cases [OF default_contract, of trie_heap, case_names failed made])
  case (failed h')
  have "\<not> Option.is_none (fst (the (zenit_trie_create_with_allocator ZENIT_ALLOCATOR_DEFAULT trie_heap)))" by code_simp
  then show thesis using failed by simp
qed (use that in blast)

text \<open>The keys \<open>"Ab"\<close> and \<open>"a-b!"\<close> have the same letters.\<close>

lemma letters_demo: "letters [65, 98] = [0, 1]" "letters [97, 45, 98, 33] = [0, 1]" "letters [49] = []" "letters [97] = [0]"
  by code_simp+

definition trie_demo_calls :: "trie_call list" where
  "trie_demo_calls = [TInsert [65, 98] 5, TInsert [97, 45, 98, 33] 6, TDelete [97], TInsert [49] 7]"


theorem trie_clear_keeps_root_key_witness:
  "\<exists>t h1 rs t1 h2 t' h'. zenit_trie_create_with_allocator ZENIT_ALLOCATOR_DEFAULT trie_heap = Some (Some t, h1) \<and>
    trie_run trie_demo_calls (Some t) h1 = Some (rs, Some t1, h2) \<and> zenit_trie_clear (Some t1) h2 = Some (Some t', h') \<and>
    zenit_trie_search (Some t') (Some [65, 98]) (Some 0) = Some (False, Some 0)"
proof -
  obtain t h1 where t: "zenit_trie_create_with_allocator ZENIT_ALLOCATOR_DEFAULT trie_heap = Some (Some t, h1)" by (rule trie_heap_create)
  have ok: "trie_ok heap_addrs trie_heap t h1" "trie_map (tr_root t) = Map.empty" "tr_count t = 0"
    by (cases rule: trie_create_cases [OF default_contract, of trie_heap, case_names failed made]; use t in simp)+
  have fit: "length trie_demo_calls < size_mod" by (simp add: trie_demo_calls_def size_mod_def)
  obtain rs t1 h2 where r: "trie_run trie_demo_calls (Some t) h1 = Some (rs, Some t1, h2)"
      "trie_spec Map.empty trie_demo_calls rs = Some (trie_map (tr_root t1))"
    using trie_run_ok [OF ok(1), of trie_demo_calls] ok(2,3) fit by auto
  show ?thesis using trie_clear_keeps_root_key [OF default_contract t fit r, of 0] t r(1) letters_demo(1) by fastforce
qed

text \<open>The two ways the documented behaviour is missed, on the default allocator: the key \<open>"1"\<close> after clearing, and
  the prefix \<open>"a"\<close> after the only key \<open>"ab"\<close> was deleted.\<close>

lemma trie_clear_still_finds:
  "map_option (\<lambda>(t, h). (zenit_trie_count t, zenit_trie_search t (Some [49]) (Some 0)))
     (do { (t, h) \<leftarrow> zenit_trie_create trie_heap; (r, t, h) \<leftarrow> zenit_trie_insert t (Some [49]) 7 h; zenit_trie_clear t h }) =
   Some (0, Some (True, Some 7))"
  by code_simp

lemma trie_prefix_of_deleted:
  "map_option (\<lambda>(r, t). (r, zenit_trie_count t, zenit_trie_starts_with t (Some [97])))
     (do { (t, h) \<leftarrow> zenit_trie_create trie_heap; (r, t, h) \<leftarrow> zenit_trie_insert t (Some [97, 98]) 7 h; zenit_trie_delete t (Some [97, 98]) }) =
   Some (ZENIT_OK, 0, Some True)"
  by code_simp

end
