(* ===== verification/Zenit_Bloom.thy ===== *)
theory Zenit_Bloom
  imports Complex_Main Zenit_Hash Zenit_Pool Zenit_Blocks
begin

unbundle bit_operations_syntax

text \<open>
  The Bloom filter (\<open>include/libzenit/bloom.h\<close>, \<open>src/bloom.c\<close>): an array of 64-bit words and double hashing.
  The parameters of a filter come from floating-point formulas; the type of \<open>double\<close> and its operations are a
  parameter of the two functions that use them (\<open>double_ops\<close>). A conversion of a \<open>double\<close> outside the
  range of \<open>size_t\<close> is undefined.
\<close>

section \<open>State and operations\<close>

record 'd double_ops =
  d_lit :: "rat \<Rightarrow> 'd"
  d_of_size :: "nat \<Rightarrow> 'd"
  d_to_size :: "'d \<Rightarrow> nat option"
  d_log :: "'d \<Rightarrow> 'd"
  d_neg :: "'d \<Rightarrow> 'd"
  d_add :: "'d \<Rightarrow> 'd \<Rightarrow> 'd"
  d_mul :: "'d \<Rightarrow> 'd \<Rightarrow> 'd"
  d_div :: "'d \<Rightarrow> 'd \<Rightarrow> 'd"
  d_le :: "'d \<Rightarrow> 'd \<Rightarrow> bool"

type_synonym u64_ptr = "(nat \<times> 64 word list) option"

record ('h, 'd) zenit_bloom_t =
  bl_self :: nat
  bl_bits :: u64_ptr
  bl_num_bits :: nat
  bl_num_hashes :: nat
  bl_count :: nat
  bl_fpr :: 'd
  bl_allocator :: "'h zenit_allocator_t"

definition sizeof_bloom :: nat where
  "sizeof_bloom = 72"

definition sizeof_uint64 :: nat where
  "sizeof_uint64 = 8"

definition LN2 :: rat where
  "LN2 = 6931471805599453 / 10000000000000000"

definition LN2_SQ :: rat where
  "LN2_SQ = 4804530139182014 / 10000000000000000"

definition hash_fnv1a_alt :: "byte list \<Rightarrow> nat" where
  "hash_fnv1a_alt data = unat (fnv1a_loop (14695981039346656037 XOR 0x9e3779b97f4a7c15) data)"

definition bit_set :: "u64_ptr \<Rightarrow> nat \<Rightarrow> u64_ptr option" where
  "bit_set bits idx =
    (case bits of None \<Rightarrow> None
     | Some (a, ws) \<Rightarrow> if idx div 64 < length ws
         then Some (Some (a, ws[idx div 64 := (ws ! (idx div 64)) OR push_bit (idx mod 64) 1])) else None)"

definition bit_test :: "u64_ptr \<Rightarrow> nat \<Rightarrow> bool option" where
  "bit_test bits idx =
    (case bits of None \<Rightarrow> None
     | Some (a, ws) \<Rightarrow> if idx div 64 < length ws
         then Some (drop_bit (idx mod 64) (ws ! (idx div 64)) AND 1 \<noteq> 0) else None)"

text \<open>The words of a new block.\<close>

definition u64_view :: "ptr \<Rightarrow> u64_ptr" where
  "u64_view p = map_option (\<lambda>b. (maddr b, map word_of_nat (size_array b))) p"

definition bloom_create_common ::
    "nat \<Rightarrow> nat \<Rightarrow> 'd \<Rightarrow> 'h zenit_allocator_t \<Rightarrow> 'h \<Rightarrow> (('h, 'd) zenit_bloom_t option \<times> 'h) option" where
  "bloom_create_common num_bits num_hashes fpr a h =
    (if num_bits = 0 \<or> num_hashes = 0 then Some (None, h)
     else let nb = (if num_bits mod 64 \<noteq> 0 then sz_mul (sz_add (num_bits div 64) 1) 64 else num_bits) in
       case alloc_fn a sizeof_bloom h of
         (None, h1) \<Rightarrow> Some (None, h1)
       | (Some b, h1) \<Rightarrow> do {
           (bits, h2) \<leftarrow> zenit_allocator_alloc_zero a (nb div 64) sizeof_uint64 h1;
           if bits = None then do { h3 \<leftarrow> free_fn a (Some (maddr b)) h2; Some (None, h3) }
           else Some (Some \<lparr>bl_self = maddr b, bl_bits = u64_view bits, bl_num_bits = nb, bl_num_hashes = num_hashes,
             bl_count = 0, bl_fpr = fpr, bl_allocator = a\<rparr>, h2)
         })"

definition zenit_bloom_create_with_allocator ::
    "'d double_ops \<Rightarrow> nat \<Rightarrow> 'd \<Rightarrow> 'h zenit_allocator_t \<Rightarrow> 'h \<Rightarrow> (('h, 'd) zenit_bloom_t option \<times> 'h) option" where
  "zenit_bloom_create_with_allocator D capacity rate a h =
    (if capacity = 0 \<or> d_le D rate (d_lit D 0) \<or> d_le D (d_lit D 1) rate then Some (None, h)
     else do {
       let ln_p = d_log D rate;
       let m_d = d_div D (d_mul D (d_neg D (d_of_size D capacity)) ln_p) (d_lit D LN2_SQ);
       n \<leftarrow> d_to_size D (d_add D m_d (d_lit D (1 / 2)));
       let num_bits = (if n < 64 then 64 else n);
       let k_d = d_mul D (d_div D (d_of_size D num_bits) (d_of_size D capacity)) (d_lit D LN2);
       k \<leftarrow> d_to_size D (d_add D k_d (d_lit D (1 / 2)));
       let num_hashes = (if k < 1 then 1 else k);
       bloom_create_common num_bits num_hashes rate a h
     })"

definition zenit_bloom_create :: "'d double_ops \<Rightarrow> nat \<Rightarrow> 'd \<Rightarrow> c_heap \<Rightarrow> ((c_heap, 'd) zenit_bloom_t option \<times> c_heap) option" where
  "zenit_bloom_create D capacity rate = zenit_bloom_create_with_allocator D capacity rate ZENIT_ALLOCATOR_DEFAULT"

fun fpr_loop :: "'d double_ops \<Rightarrow> nat \<Rightarrow> 'd \<Rightarrow> 'd" where
  "fpr_loop D 0 fpr = fpr"
| "fpr_loop D (Suc n) fpr = fpr_loop D n (d_mul D fpr (d_lit D (1 / 2)))"

definition zenit_bloom_create_explicit_with_allocator ::
    "'d double_ops \<Rightarrow> nat \<Rightarrow> nat \<Rightarrow> 'h zenit_allocator_t \<Rightarrow> 'h \<Rightarrow> (('h, 'd) zenit_bloom_t option \<times> 'h) option" where
  "zenit_bloom_create_explicit_with_allocator D num_bits num_hashes a h =
    bloom_create_common num_bits num_hashes (fpr_loop D num_hashes (d_lit D 1)) a h"

definition zenit_bloom_create_explicit :: "'d double_ops \<Rightarrow> nat \<Rightarrow> nat \<Rightarrow> c_heap \<Rightarrow> ((c_heap, 'd) zenit_bloom_t option \<times> c_heap) option" where
  "zenit_bloom_create_explicit D num_bits num_hashes =
    zenit_bloom_create_explicit_with_allocator D num_bits num_hashes ZENIT_ALLOCATOR_DEFAULT"

definition zenit_bloom_destroy :: "('h, 'd) zenit_bloom_t option \<Rightarrow> 'h \<Rightarrow> 'h option" where
  "zenit_bloom_destroy bf h =
    (case bf of None \<Rightarrow> Some h
     | Some b \<Rightarrow> do {
         h1 \<leftarrow> free_fn (bl_allocator b) (map_option fst (bl_bits b)) h;
         free_fn (bl_allocator b) (Some (bl_self b)) h1
       })"

function bloom_insert_loop :: "nat \<Rightarrow> nat \<Rightarrow> nat \<Rightarrow> nat \<Rightarrow> nat \<Rightarrow> u64_ptr \<Rightarrow> u64_ptr option" where
  "bloom_insert_loop h1 h2 num_bits num_hashes i bits =
    (if i < num_hashes then do {
       idx \<leftarrow> sz_mod (sz_add h1 (sz_mul i h2)) num_bits;
       bits' \<leftarrow> bit_set bits idx;
       bloom_insert_loop h1 h2 num_bits num_hashes (i + 1) bits'
     } else Some bits)"
  by pat_completeness auto
termination by (relation "measure (\<lambda>(h1, h2, nb, nh, i, bits). nh - i)") auto

declare bloom_insert_loop.simps [simp del]

definition zenit_bloom_insert :: "('h, 'd) zenit_bloom_t option \<Rightarrow> byte list option \<Rightarrow> nat \<Rightarrow> ('h, 'd) zenit_bloom_t option option" where
  "zenit_bloom_insert bf data len =
    (case (bf, data) of
       (Some b, Some d) \<Rightarrow> do {
         x \<leftarrow> user_read d len;
         let h1 = hash_fnv1a x;
         let h2 = hash_fnv1a_alt x OR 1;
         bits \<leftarrow> bloom_insert_loop h1 h2 (bl_num_bits b) (bl_num_hashes b) 0 (bl_bits b);
         Some (Some (b\<lparr>bl_bits := bits, bl_count := sz_add (bl_count b) 1\<rparr>))
       }
     | _ \<Rightarrow> Some bf)"

function bloom_test_loop :: "nat \<Rightarrow> nat \<Rightarrow> nat \<Rightarrow> nat \<Rightarrow> nat \<Rightarrow> u64_ptr \<Rightarrow> bool option" where
  "bloom_test_loop h1 h2 num_bits num_hashes i bits =
    (if i < num_hashes then do {
       idx \<leftarrow> sz_mod (sz_add h1 (sz_mul i h2)) num_bits;
       t \<leftarrow> bit_test bits idx;
       if \<not> t then Some False else bloom_test_loop h1 h2 num_bits num_hashes (i + 1) bits
     } else Some True)"
  by pat_completeness auto
termination by (relation "measure (\<lambda>(h1, h2, nb, nh, i, bits). nh - i)") auto

declare bloom_test_loop.simps [simp del]

definition zenit_bloom_contains :: "('h, 'd) zenit_bloom_t option \<Rightarrow> byte list option \<Rightarrow> nat \<Rightarrow> bool option" where
  "zenit_bloom_contains bf data len =
    (case (bf, data) of
       (Some b, Some d) \<Rightarrow> do {
         x \<leftarrow> user_read d len;
         let h1 = hash_fnv1a x;
         let h2 = hash_fnv1a_alt x OR 1;
         bloom_test_loop h1 h2 (bl_num_bits b) (bl_num_hashes b) 0 (bl_bits b)
       }
     | _ \<Rightarrow> Some False)"

definition zenit_bloom_clear :: "('h, 'd) zenit_bloom_t option \<Rightarrow> ('h, 'd) zenit_bloom_t option option" where
  "zenit_bloom_clear bf =
    (case bf of None \<Rightarrow> Some None
     | Some b \<Rightarrow> do {
         let arr_size = bl_num_bits b div 64;
         bits \<leftarrow> (case bl_bits b of None \<Rightarrow> None
           | Some (a, ws) \<Rightarrow> if sz_mul arr_size sizeof_uint64 \<le> length ws * sizeof_uint64
               then Some (Some (a, replicate arr_size 0 @ drop arr_size ws)) else None);
         Some (Some (b\<lparr>bl_bits := bits, bl_count := 0\<rparr>))
       })"

definition zenit_bloom_false_positive_rate :: "'d double_ops \<Rightarrow> ('h, 'd) zenit_bloom_t option \<Rightarrow> 'd" where
  "zenit_bloom_false_positive_rate D bf = (case bf of None \<Rightarrow> d_lit D 0 | Some b \<Rightarrow> bl_fpr b)"

definition zenit_bloom_count :: "('h, 'd) zenit_bloom_t option \<Rightarrow> nat" where
  "zenit_bloom_count bf = (case bf of None \<Rightarrow> 0 | Some b \<Rightarrow> bl_count b)"

definition zenit_bloom_num_bits :: "('h, 'd) zenit_bloom_t option \<Rightarrow> nat" where
  "zenit_bloom_num_bits bf = (case bf of None \<Rightarrow> 0 | Some b \<Rightarrow> bl_num_bits b)"

definition zenit_bloom_num_hashes :: "('h, 'd) zenit_bloom_t option \<Rightarrow> nat" where
  "zenit_bloom_num_hashes bf = (case bf of None \<Rightarrow> 0 | Some b \<Rightarrow> bl_num_hashes b)"

section \<open>The set of bits\<close>

definition u64_bits :: "u64_ptr \<Rightarrow> nat set" where
  "u64_bits p = (case p of None \<Rightarrow> {} | Some (a, ws) \<Rightarrow> {i. i < 64 * length ws \<and> bit (ws ! (i div 64)) (i mod 64)})"

definition u64_len :: "u64_ptr \<Rightarrow> nat" where
  "u64_len p = (case p of None \<Rightarrow> 0 | Some (a, ws) \<Rightarrow> length ws)"

lemma div64: "i < 64 * n \<Longrightarrow> i div 64 < (n::nat)"
  by (simp add: less_mult_imp_div_less mult.commute)

lemma bit_set_ok:
  assumes "idx < 64 * u64_len p"
  obtains q where "bit_set p idx = Some q" and "u64_bits q = insert idx (u64_bits p)" and "u64_len q = u64_len p"
    and "map_option fst q = map_option fst p"
proof -
  from assms obtain a ws where p: "p = Some (a, ws)" "idx < 64 * length ws" by (cases p) (auto simp: u64_len_def)
  note d = div64 [OF p(2)]
  let ?w = "(ws ! (idx div 64)) OR push_bit (idx mod 64) 1"
  have "bit (ws[idx div 64 := ?w] ! (i div 64)) (i mod 64) \<longleftrightarrow> i = idx \<or> bit (ws ! (i div 64)) (i mod 64)" if "i < 64 * length ws" for i
  proof (cases "i div 64 = idx div 64")
    case True
    have "i mod 64 = idx mod 64 \<longleftrightarrow> i = idx" using True by (metis div_mult_mod_eq)
    then show ?thesis using True d by (auto simp: bit_or_iff bit_exp_iff)
  next
    case False
    then show ?thesis by auto
  qed
  then have "u64_bits (Some (a, ws[idx div 64 := ?w])) = insert idx (u64_bits p)"
    using p by (auto simp: u64_bits_def)
  then show thesis using p d by (intro that [of "Some (a, ws[idx div 64 := ?w])"]) (simp_all add: bit_set_def u64_len_def)
qed

lemma bit_test_ok: "idx < 64 * u64_len p \<Longrightarrow> bit_test p idx = Some (idx \<in> u64_bits p)"
proof -
  assume "idx < 64 * u64_len p"
  then obtain a ws where p: "p = Some (a, ws)" "idx < 64 * length ws" by (cases p) (auto simp: u64_len_def)
  have "drop_bit n w AND 1 \<noteq> 0 \<longleftrightarrow> bit w n" for w :: "64 word" and n
    by (simp add: and_one_eq bit_iff_odd_drop_bit odd_iff_mod_2_eq_one)
  then show ?thesis using p div64 [OF p(2)] by (simp add: bit_test_def u64_bits_def)
qed

definition bloom_positions :: "nat \<Rightarrow> nat \<Rightarrow> byte list \<Rightarrow> nat set" where
  "bloom_positions nb nh x = (\<lambda>i. sz_add (hash_fnv1a x) (sz_mul i (hash_fnv1a_alt x OR 1)) mod nb) ` {..<nh}"

lemma bloom_insert_loop_ok:
  assumes "0 < nb" and "nb = 64 * u64_len p"
  shows "\<exists>q. bloom_insert_loop h1 h2 nb nh i p = Some q \<and> u64_len q = u64_len p \<and> map_option fst q = map_option fst p \<and>
    u64_bits q = u64_bits p \<union> (\<lambda>i. sz_add h1 (sz_mul i h2) mod nb) ` {i..<nh}"
  using assms
proof (induction h1 h2 nb nh i p rule: bloom_insert_loop.induct)
  case (1 h1 h2 nb nh i p)
  show ?case
  proof (cases "i < nh")
    case True
    let ?x = "sz_add h1 (sz_mul i h2) mod nb"
    have "?x < 64 * u64_len p" using 1(2,3) by simp
    then obtain q where q: "bit_set p ?x = Some q" "u64_bits q = insert ?x (u64_bits p)" "u64_len q = u64_len p" "map_option fst q = map_option fst p"
      by (rule bit_set_ok)
    have m: "sz_mod (sz_add h1 (sz_mul i h2)) nb = Some ?x" using 1(2) by (simp add: sz_mod_def)
    have "{i..<nh} = insert i {i + 1..<nh}" using True by auto
    then show ?thesis using 1(1) [OF True m q(1) 1(2)] 1(3) q True m by (subst bloom_insert_loop.simps) auto
  next
    case False
    then show ?thesis by (subst bloom_insert_loop.simps) simp
  qed
qed

lemma bloom_test_loop_ok:
  assumes "0 < nb" and "nb = 64 * u64_len p"
  shows "bloom_test_loop h1 h2 nb nh i p = Some ((\<lambda>i. sz_add h1 (sz_mul i h2) mod nb) ` {i..<nh} \<subseteq> u64_bits p)"
  using assms
proof (induction h1 h2 nb nh i p rule: bloom_test_loop.induct)
  case (1 h1 h2 nb nh i p)
  show ?case
  proof (cases "i < nh")
    case True
    let ?x = "sz_add h1 (sz_mul i h2) mod nb"
    have t: "bit_test p ?x = Some (?x \<in> u64_bits p)" using 1(2,3) by (intro bit_test_ok) simp
    have m: "sz_mod (sz_add h1 (sz_mul i h2)) nb = Some ?x" using 1(2) by (simp add: sz_mod_def)
    have "{i..<nh} = insert i {i + 1..<nh}" using True by auto
    then show ?thesis using 1(1) [OF True m t _ 1(2,3)] t True m by (subst bloom_test_loop.simps) auto
  next
    case False
    then show ?thesis by (subst bloom_test_loop.simps) simp
  qed
qed

section \<open>The filter\<close>

definition bloom_inv :: "('h, 'd) zenit_bloom_t \<Rightarrow> bool" where
  "bloom_inv b \<longleftrightarrow> 0 < bl_num_bits b \<and> bl_num_bits b = 64 * u64_len (bl_bits b) \<and> bl_num_bits b < size_mod"

definition bloom_pos :: "('h, 'd) zenit_bloom_t \<Rightarrow> byte list \<Rightarrow> nat set" where
  "bloom_pos b = bloom_positions (bl_num_bits b) (bl_num_hashes b)"

definition bloom_keep :: "('h, 'd) zenit_bloom_t \<Rightarrow> ('h, 'd) zenit_bloom_t \<Rightarrow> bool" where
  "bloom_keep b c \<longleftrightarrow> c = b\<lparr>bl_bits := bl_bits c, bl_count := bl_count c\<rparr> \<and> map_option fst (bl_bits c) = map_option fst (bl_bits b)"

lemma bloom_insert_ok:
  assumes inv: "bloom_inv b"
  obtains c where "zenit_bloom_insert (Some b) (Some x) (length x) = Some (Some c)" and "bloom_inv c" and "bloom_keep b c"
    and "u64_bits (bl_bits c) = u64_bits (bl_bits b) \<union> bloom_pos b x" and "bl_count c = sz_add (bl_count b) 1"
proof -
  let ?h2 = "hash_fnv1a_alt x OR 1"
  obtain q where q: "bloom_insert_loop (hash_fnv1a x) ?h2 (bl_num_bits b) (bl_num_hashes b) 0 (bl_bits b) = Some q"
      "u64_len q = u64_len (bl_bits b)" "map_option fst q = map_option fst (bl_bits b)"
      "u64_bits q = u64_bits (bl_bits b) \<union> bloom_pos b x"
    using bloom_insert_loop_ok [of "bl_num_bits b" "bl_bits b" "hash_fnv1a x" ?h2 "bl_num_hashes b" 0] inv
    by (auto simp: bloom_inv_def bloom_pos_def bloom_positions_def atLeast0LessThan)
  show thesis
    by (rule that [of "b\<lparr>bl_bits := q, bl_count := sz_add (bl_count b) 1\<rparr>"])
      (use q inv in \<open>simp_all add: zenit_bloom_insert_def user_read_def Let_def bloom_inv_def bloom_keep_def\<close>)
qed

lemma bloom_contains_ok:
  assumes "bloom_inv b"
  shows "zenit_bloom_contains (Some b) (Some x) (length x) = Some (bloom_pos b x \<subseteq> u64_bits (bl_bits b))"
  using assms bloom_test_loop_ok [of "bl_num_bits b" "bl_bits b" "hash_fnv1a x" "hash_fnv1a_alt x OR 1" "bl_num_hashes b" 0]
  by (simp add: zenit_bloom_contains_def user_read_def Let_def bloom_inv_def bloom_pos_def bloom_positions_def atLeast0LessThan)

fun bloom_inserts :: "byte list list \<Rightarrow> ('h, 'd) zenit_bloom_t option \<Rightarrow> ('h, 'd) zenit_bloom_t option option" where
  "bloom_inserts [] b = Some b"
| "bloom_inserts (x # xs) b = do { b' \<leftarrow> zenit_bloom_insert b (Some x) (length x); bloom_inserts xs b' }"

lemma bloom_keepD:
  assumes "bloom_keep b c"
  shows "bl_self c = bl_self b" "bl_num_bits c = bl_num_bits b" "bl_num_hashes c = bl_num_hashes b" "bl_allocator c = bl_allocator b"
    "bl_fpr c = bl_fpr b" "map_option fst (bl_bits c) = map_option fst (bl_bits b)" "bloom_pos c = bloom_pos b"
  using assms unfolding bloom_keep_def bloom_pos_def by (cases b; cases c; simp)+

lemma bloom_inserts_ok:
  assumes "bloom_inv b"
  shows "\<exists>c. bloom_inserts xs (Some b) = Some (Some c) \<and> bloom_inv c \<and> bloom_keep b c \<and>
    u64_bits (bl_bits c) = u64_bits (bl_bits b) \<union> \<Union> (bloom_pos b ` set xs) \<and> bl_count c mod size_mod = (bl_count b + length xs) mod size_mod"
  using assms
proof (induction xs arbitrary: b)
  case Nil
  then show ?case by (simp add: bloom_keep_def)
next
  case (Cons x xs)
  obtain b1 where b1: "zenit_bloom_insert (Some b) (Some x) (length x) = Some (Some b1)" "bloom_inv b1" "bloom_keep b b1"
      "u64_bits (bl_bits b1) = u64_bits (bl_bits b) \<union> bloom_pos b x" "bl_count b1 = sz_add (bl_count b) 1"
    by (rule bloom_insert_ok [OF Cons.prems])
  obtain c where c: "bloom_inserts xs (Some b1) = Some (Some c)" "bloom_inv c" "bloom_keep b1 c"
      "u64_bits (bl_bits c) = u64_bits (bl_bits b1) \<union> \<Union> (bloom_pos b1 ` set xs)"
      "bl_count c mod size_mod = (bl_count b1 + length xs) mod size_mod"
    using Cons.IH [OF b1(2)] by blast
  have "bloom_keep b c" using b1(3) c(3) unfolding bloom_keep_def by (cases b; cases b1; cases c) simp
  moreover have "(sz_add (bl_count b) 1 + length xs) mod size_mod = (bl_count b + length (x # xs)) mod size_mod"
    by (simp add: sz_add_def mod_add_left_eq)
  ultimately show ?case using b1 c bloom_keepD(7) [OF b1(3)] by auto
qed

lemma bloom_create_cases:
  assumes c: "allocator_contract a live" and nz: "0 < nb" "0 < nh" and fit: "nb + 64 \<le> size_mod"
  obtains (failed) h' where "bloom_create_common nb nh fpr a h = Some (None, h')" and "live h' = live h"
  | (made) b x h' where "bloom_create_common nb nh fpr a h = Some (Some b, h')" and "bloom_inv b" and "u64_bits (bl_bits b) = {}"
    and "bl_num_hashes b = nh" and "bl_count b = 0" and "nb \<le> bl_num_bits b" and "bl_num_bits b < nb + 64" and "bl_allocator b = a"
    and "map_option fst (bl_bits b) = Some x" and "fresh_blocks live h [bl_self b, x] h'"
proof -
  define n where "n = (if nb mod 64 \<noteq> 0 then nb div 64 + 1 else nb div 64)"
  have n: "nb \<le> 64 * n" "64 * n < nb + 64" "0 < n" using nz(1) by (auto simp: n_def) presburger+
  have sm: "64 * n < size_mod" using n(2) fit by linarith
  have eq: "(if nb mod 64 \<noteq> 0 then sz_mul (sz_add (nb div 64) 1) 64 else nb) = 64 * n"
    using sm by (auto simp: n_def size_simps)
  have sz: "sz_mul n sizeof_uint64 = 8 * n" using sm by (simp add: sizeof_uint64_def size_simps)
  show thesis
  proof (cases rule: allocator_contract.alloc_cases [OF c, of sizeof_bloom h, case_names null block])
    case (null h')
    then show thesis using nz by (intro failed [of h']) (simp_all add: bloom_create_common_def Let_def)
  next
    case (block b h1)
    show thesis
    proof (cases rule: allocator_contract.alloc_zero_cases [OF c, of n sizeof_uint64 h1, case_names null bits])
      case (null h2)
      have "maddr b \<in> live h2" using block null by simp
      then obtain h3 where "free_fn a (Some (maddr b)) h2 = Some h3" "live h3 = live h2 - {maddr b}"
        by (rule allocator_contract.free_addr [OF c])
      then show thesis using nz block null eq by (intro failed [of h3]) (auto simp: bloom_create_common_def)
    next
      case (bits p h2)
      define ws :: "64 word list" where "ws = map word_of_nat (size_array p)"
      have len: "length ws = n" using bits(2) sz by (simp add: ws_def sizeof_size_t_def)
      have z: "le_value (replicate k 0) = 0" for k by (induction k) simp_all
      have "le_value (take j (drop i (mbytes p))) = 0" for i j unfolding bits(2) by (simp add: z)
      then have "ws ! j = 0" if "j < n" for j using that len by (simp add: ws_def size_array_def)
      then have none: "u64_bits (Some (maddr p, ws)) = {}" using len div64 by (auto simp: u64_bits_def)
      define f where "f = \<lparr>bl_self = maddr b, bl_bits = Some (maddr p, ws), bl_num_bits = 64 * n, bl_num_hashes = nh,
             bl_count = 0, bl_fpr = fpr, bl_allocator = a\<rparr>"
      have "bloom_create_common nb nh fpr a h = Some (Some f, h2)"
        using nz block(1) bits(1) unfolding bloom_create_common_def eq Let_def by (simp add: u64_view_def f_def ws_def)
      moreover have "fresh_blocks live h [maddr b, maddr p] h2" using block bits by (auto simp: fresh_blocks_def)
      ultimately show thesis using n sm len none
        by (intro made [of f h2 "maddr p"]) (simp_all add: f_def bloom_inv_def u64_len_def)
    qed
  qed
qed

text \<open>
  C28: A filter remembers: after any insertions into a new filter, a test answers yes exactly when every bit position of
  the element was set by some insertion. So no inserted element is ever reported absent. No access
  leaves the bit array, the count is the number of insertions modulo the word size, and destroying the filter
  frees both blocks.
\<close>

theorem bloom_no_false_negatives:
  assumes contract: "allocator_contract a live" and nz: "0 < nb" "0 < nh" and fit: "nb + 64 \<le> size_mod"
    and create: "zenit_bloom_create_explicit_with_allocator D nb nh a h = Some (Some b, h1)"
  shows "\<exists>c h2. bloom_inserts xs (Some b) = Some (Some c) \<and>
    (\<forall>x \<in> set xs. zenit_bloom_contains (Some c) (Some x) (length x) = Some True) \<and>
    (\<forall>y. zenit_bloom_contains (Some c) (Some y) (length y) =
      Some (bloom_positions (zenit_bloom_num_bits (Some c)) nh y \<subseteq> \<Union> (bloom_positions (zenit_bloom_num_bits (Some c)) nh ` set xs))) \<and>
    nb \<le> zenit_bloom_num_bits (Some c) \<and> zenit_bloom_num_bits (Some c) < nb + 64 \<and>
    zenit_bloom_count (Some c) mod size_mod = length xs mod size_mod \<and>
    zenit_bloom_destroy (Some c) h1 = Some h2 \<and> live h2 = live h"
proof -
  obtain x where b: "bloom_inv b" "u64_bits (bl_bits b) = {}" "bl_num_hashes b = nh" "bl_count b = 0" "nb \<le> bl_num_bits b"
      "bl_num_bits b < nb + 64" "bl_allocator b = a" "map_option fst (bl_bits b) = Some x" "fresh_blocks live h [bl_self b, x] h1"
    using create unfolding zenit_bloom_create_explicit_with_allocator_def
    by (cases rule: bloom_create_cases [OF contract nz fit, of "fpr_loop D nh (d_lit D 1)" h, case_names failed made]) auto
  obtain c where c: "bloom_inserts xs (Some b) = Some (Some c)" "bloom_inv c" "bloom_keep b c"
      "u64_bits (bl_bits c) = \<Union> (bloom_pos b ` set xs)" "bl_count c mod size_mod = length xs mod size_mod"
    using bloom_inserts_ok [OF b(1), of xs] b(2,4) by auto
  note k = bloom_keepD [OF c(3)]
  have f: "fresh_blocks live h (bl_self c # addr_list [Some x]) h1" using b(9) k(1) by simp
  obtain h2 h3 where "free_all a [Some x] h1 = Some h2" "free_fn a (Some (bl_self c)) h2 = Some h3" "live h3 = live h"
    by (rule free_fresh [OF contract f])
  then have d: "zenit_bloom_destroy (Some c) h1 = Some h3" "live h3 = live h"
    using k b(7,8) by (auto simp: zenit_bloom_destroy_def free_all_eta)
  have pos: "bloom_pos b = bloom_positions (bl_num_bits c) nh" using k(2) b(3) by (simp add: bloom_pos_def)
  have "zenit_bloom_contains (Some c) (Some y) (length y) = Some (bloom_positions (bl_num_bits c) nh y \<subseteq> \<Union> (bloom_positions (bl_num_bits c) nh ` set xs))" for y
    using bloom_contains_ok [OF c(2), of y] c(4) k(7) pos by simp
  then show ?thesis using c(1,5) d b(5,6) k(2)
    by (intro exI [of _ c] exI [of _ h3]) (auto simp: zenit_bloom_num_bits_def zenit_bloom_count_def)
qed

lemma bloom_clear_ok:
  assumes "bloom_inv b"
  obtains c where "zenit_bloom_clear (Some b) = Some (Some c)" and "bloom_inv c" and "u64_bits (bl_bits c) = {}" and "bl_count c = 0"
proof -
  obtain a ws where w: "bl_bits b = Some (a, ws)" "bl_num_bits b = 64 * length ws"
    using assms by (cases "bl_bits b") (auto simp: bloom_inv_def u64_len_def)
  have m: "sz_mul (length ws) sizeof_uint64 \<le> length ws * sizeof_uint64" by (simp add: sz_mul_def)
  have "u64_bits (Some (a, replicate (length ws) 0)) = {}" using div64 [of _ "length ws"] by (auto simp: u64_bits_def)
  then show thesis using assms w m
    by (intro that [of "b\<lparr>bl_bits := Some (a, replicate (length ws) 0), bl_count := 0\<rparr>"])
      (simp_all add: zenit_bloom_clear_def Let_def bloom_inv_def u64_len_def)
qed

section \<open>A filter at work\<close>

definition bloom_heap :: c_heap where
  "bloom_heap = \<lparr>heap_live = [], heap_script = [], heap_junk = 9\<rparr>"

text \<open>Rational arithmetic in place of \<open>double\<close>, with a constant for the logarithm of one half.\<close>

definition rat_ops :: "rat double_ops" where
  "rat_ops = \<lparr>d_lit = id, d_of_size = of_nat, d_to_size = (\<lambda>x. if 0 \<le> x then Some (nat \<lfloor>x\<rfloor>) else None), d_log = (\<lambda>x. - LN2),
    d_neg = uminus, d_add = (+), d_mul = (*), d_div = (/), d_le = (\<le>)\<rparr>"

lemma bloom_heap_create:
  obtains b h' where "zenit_bloom_create_explicit_with_allocator rat_ops 100 3 ZENIT_ALLOCATOR_DEFAULT bloom_heap = Some (Some b, h')"
proof (cases rule: bloom_create_cases [OF default_contract, of 100 3 "fpr_loop rat_ops 3 (d_lit rat_ops 1)" bloom_heap, case_names _ _ _ failed made])
  case (failed h')
  have "\<not> Option.is_none (fst (the (bloom_create_common 100 3 (fpr_loop rat_ops 3 (d_lit rat_ops 1)) ZENIT_ALLOCATOR_DEFAULT bloom_heap)))"
    by code_simp
  then show thesis using failed by simp
qed (use that in \<open>auto simp: size_mod_def zenit_bloom_create_explicit_with_allocator_def\<close>)

theorem bloom_no_false_negatives_witness:
  "\<exists>b h1 c h2. zenit_bloom_create_explicit_with_allocator rat_ops 100 3 ZENIT_ALLOCATOR_DEFAULT bloom_heap = Some (Some b, h1) \<and>
    bloom_inserts [[1, 2], [3]] (Some b) = Some (Some c) \<and> zenit_bloom_contains (Some c) (Some [3]) 1 = Some True \<and>
    zenit_bloom_destroy (Some c) h1 = Some h2 \<and> heap_addrs h2 = {}"
proof -
  obtain b h1 where b: "zenit_bloom_create_explicit_with_allocator rat_ops 100 3 ZENIT_ALLOCATOR_DEFAULT bloom_heap = Some (Some b, h1)"
    by (rule bloom_heap_create)
  show ?thesis
    using bloom_no_false_negatives [OF default_contract _ _ _ b, of "[[1, 2], [3]]"] b
    by (fastforce simp: size_mod_def heap_addrs_def bloom_heap_def)
qed

text \<open>The parameters for one element and the rate 1/2 of the rational instance: one word, 44 hashes.\<close>

lemma bloom_parameters_demo:
  "map_option (\<lambda>(b, h). (zenit_bloom_num_bits b, zenit_bloom_num_hashes b)) (zenit_bloom_create rat_ops 1 (1 / 2) bloom_heap) = Some (64, 44)"
  by code_simp

text \<open>
  A request for almost as many bits as \<open>size_t\<close> can count wraps around to none at all, and the first insertion divides by zero.
\<close>

lemma bloom_bits_wrap:
  "map_option (\<lambda>(b, h). (zenit_bloom_num_bits b, Option.is_none (zenit_bloom_insert b (Some [7]) 1))) (zenit_bloom_create_explicit rat_ops 18446744073709551615 1 bloom_heap) =
   Some (0, True)"
  by code_simp

end
