(* ===== verification/Zenit_Arrays.thy ===== *)
theory Zenit_Arrays
  imports Zenit_Blocks
begin

text \<open>
  Typed arrays: a C array of integers or pointers is its address and the list of its entries; a read or write outside the list is
  undefined (\<open>None\<close>). Entries that a reallocation adds are indeterminate in C; the model fills them with a given value.
\<close>

section \<open>Reading and writing\<close>

type_synonym 'a arr = "nat \<times> 'a list"

definition ar_get :: "'a arr \<Rightarrow> nat \<Rightarrow> 'a option" where
  "ar_get p i = (if i < length (snd p) then Some (snd p ! i) else None)"

definition ar_put :: "'a arr \<Rightarrow> nat \<Rightarrow> 'a \<Rightarrow> 'a arr option" where
  "ar_put p i x = (if i < length (snd p) then Some (fst p, (snd p)[i := x]) else None)"

text \<open>\<open>memset\<close> of the entries from \<open>i\<close> on.\<close>

definition ar_fill :: "'a arr \<Rightarrow> nat \<Rightarrow> nat \<Rightarrow> 'a \<Rightarrow> 'a arr option" where
  "ar_fill p i n x = (if i + n \<le> length (snd p) then Some (fst p, take i (snd p) @ replicate n x @ drop (i + n) (snd p)) else None)"

text \<open>\<open>memmove\<close> that closes the gap at \<open>j\<close> among the first \<open>n\<close> entries.\<close>

definition ar_close :: "'a arr \<Rightarrow> nat \<Rightarrow> nat \<Rightarrow> 'a arr option" where
  "ar_close p j n = (if j < n \<and> n \<le> length (snd p)
     then Some (fst p, take j (snd p) @ take (n - j - 1) (drop (j + 1) (snd p)) @ drop (n - 1) (snd p)) else None)"

text \<open>The entries that survive a reallocation, and the new array with indeterminate entries behind them.\<close>

definition ar_resize :: "nat \<Rightarrow> 'a \<Rightarrow> 'a list \<Rightarrow> 'a list" where
  "ar_resize n x xs = take n xs @ replicate (n - length xs) x"

definition ar_realloc :: "'h zenit_allocator_t \<Rightarrow> nat \<Rightarrow> 'a \<Rightarrow> 'a arr option \<Rightarrow> nat \<Rightarrow> nat \<Rightarrow> 'h \<Rightarrow> ('a arr option \<times> 'h) option" where
  "ar_realloc a es x p old new h = do {
     (q, h') \<leftarrow> zenit_allocator_realloc a (map_option (\<lambda>(addr, xs). \<lparr>maddr = addr, mbytes = replicate (length xs * es) 0\<rparr>) p)
       (sz_mul old es) (sz_mul new es) h;
     Some (map_option (\<lambda>b. (maddr b, ar_resize (length (mbytes b) div es) x (case p of None \<Rightarrow> [] | Some (addr, xs) \<Rightarrow> take old xs))) q, h')
   }"

text \<open>A new zeroed array, and a new array from \<open>malloc\<close>.\<close>

definition ar_calloc :: "'h zenit_allocator_t \<Rightarrow> nat \<Rightarrow> nat \<Rightarrow> 'a \<Rightarrow> 'h \<Rightarrow> ('a arr option \<times> 'h) option" where
  "ar_calloc a n es zero h = do {
     (q, h') \<leftarrow> zenit_allocator_alloc_zero a n es h;
     Some (map_option (\<lambda>b. (maddr b, replicate (length (mbytes b) div es) zero)) q, h')
   }"

definition ar_malloc :: "nat \<Rightarrow> 'a \<Rightarrow> nat \<Rightarrow> c_heap \<Rightarrow> 'a arr option \<times> c_heap" where
  "ar_malloc es x n h = (case c_malloc n h of (q, h') \<Rightarrow> (map_option (\<lambda>b. (maddr b, replicate (length (mbytes b) div es) x)) q, h'))"

definition plist :: "'a arr option \<Rightarrow> 'a list" where
  "plist p = (case p of None \<Rightarrow> [] | Some q \<Rightarrow> snd q)"

lemma plist_simps [simp]: "plist None = []" "plist (Some q) = snd q"
  by (simp_all add: plist_def)

lemma ar_get_ok: "i < length (snd p) \<Longrightarrow> ar_get p i = Some (snd p ! i)"
  by (simp add: ar_get_def)

lemma ar_put_ok: "i < length (snd p) \<Longrightarrow> ar_put p i x = Some (fst p, (snd p)[i := x])"
  by (simp add: ar_put_def)

lemma ar_close_first:
  assumes "j < n" and "n \<le> length (snd p)" and "snd p ! j = v" and "v \<notin> set (take j (snd p))"
  obtains q where "ar_close p j n = Some q" and "fst q = fst p" and "length (snd q) = length (snd p)"
    and "take (n - 1) (snd q) = remove1 v (take n (snd p))"
proof -
  let ?xs = "snd p"
  let ?ys = "take j ?xs @ take (n - j - 1) (drop (j + 1) ?xs) @ drop (n - 1) ?xs"
  have split: "take n ?xs = take j ?xs @ v # take (n - j - 1) (drop (j + 1) ?xs)"
  proof -
    have "take n ?xs = take j ?xs @ take (n - j) (drop j ?xs)" using assms(1) take_add [of j "n - j" ?xs] by simp
    also have "drop j ?xs = v # drop (Suc j) ?xs" using assms(1-3) by (simp add: Cons_nth_drop_Suc [symmetric])
    also have "take (n - j) (v # drop (Suc j) ?xs) = v # take (n - j - 1) (drop (Suc j) ?xs)" using assms(1) by (cases "n - j") simp_all
    finally show ?thesis by (simp add: One_nat_def)
  qed
  have len: "length (take j ?xs @ take (n - j - 1) (drop (j + 1) ?xs)) = n - 1" using assms(1,2) by simp
  have "take (n - 1) ?ys = take j ?xs @ take (n - j - 1) (drop (j + 1) ?xs)"
    unfolding append_assoc [symmetric] len [symmetric] append_take_drop_id by (rule append_eq_conv_conj [THEN iffD1, THEN conjunct1, symmetric, OF refl])
  also have "\<dots> = remove1 v (take n ?xs)" unfolding split using assms(4) by (simp add: remove1_append)
  finally show thesis using assms(1,2) by (intro that [of "(fst p, ?ys)"]) (simp_all add: ar_close_def)
qed

section \<open>Reallocating\<close>

text \<open>A reallocation whose announced old size is at most the size of the block.\<close>

lemma realloc_le:
  assumes c: "allocator_contract a live" and p: "paddrs p \<subseteq> live h" and n: "0 < n" and old: "old \<le> plen p"
  shows "\<exists>q h'. zenit_allocator_realloc a p old n h = Some (q, h') \<and>
    (case q of None \<Rightarrow> live h' = live h
     | Some b \<Rightarrow> length (mbytes b) = n \<and> maddr b \<notin> live h - paddrs p \<and> live h' = insert (maddr b) (live h - paddrs p))"
proof (cases "realloc_fn a")
  case (Some f)
  obtain q h' where "f p n h = Some (q, h')" "realloc_post live p n h q h'"
    using allocator_contract.realloc_law [OF c Some p n] by blast
  then show ?thesis using Some by (auto simp: zenit_allocator_realloc_def realloc_post_def split: option.splits)
next
  case None
  show ?thesis
  proof (cases rule: allocator_contract.alloc_cases [OF c, of n h, case_names null block])
    case (null h')
    then show ?thesis using None by (simp add: zenit_allocator_realloc_def)
  next
    case (block b h')
    show ?thesis
    proof (cases p)
      case pn: None
      then show ?thesis using None block by (simp add: zenit_allocator_realloc_def)
    next
      case ps: (Some d)
      then have "maddr d \<in> live h'" using p block by simp
      then obtain h'' where h'': "free_fn a (Some (maddr d)) h' = Some h''" "live h'' = live h' - {maddr d}"
        by (rule allocator_contract.free_addr [OF c])
      have "maddr b \<noteq> maddr d" using p block ps by auto
      then show ?thesis using None block ps h'' old
        by (auto simp: zenit_allocator_realloc_def mem_read_def mem_write_def)
    qed
  qed
qed

lemma ar_realloc_ok:
  assumes c: "allocator_contract a live" and own: "set_option (map_option fst p) \<subseteq> live h"
    and es: "0 < es" and n: "0 < new" "new * es < size_mod" and old: "old \<le> length (plist p)"
    and fit: "length (plist p) * es < size_mod"
  obtains (failed) h' where "ar_realloc a es x p old new h = Some (None, h')" and "live h' = live h"
  | (made) b h' where "ar_realloc a es x p old new h = Some (Some (b, ar_resize new x (take old (plist p))), h')"
    and "b \<notin> live h - set_option (map_option fst p)" and "live h' = insert b (live h - set_option (map_option fst p))"
proof -
  let ?p = "map_option (\<lambda>(addr, xs). \<lparr>maddr = addr, mbytes = replicate (length xs * es) (0::byte)\<rparr>) p"
  have pa: "paddrs ?p = set_option (map_option fst p)" by (cases p) auto
  have pl: "plen ?p = length (plist p) * es" by (cases p) auto
  have so: "sz_mul old es = old * es" "sz_mul new es = new * es"
  proof -
    have "old * es \<le> length (plist p) * es" using old by simp
    then show "sz_mul old es = old * es" using fit by (intro sz_mul_nowrap) linarith
    show "sz_mul new es = new * es" using n(2) by (rule sz_mul_nowrap)
  qed
  obtain q h' where r: "zenit_allocator_realloc a ?p (old * es) (new * es) h = Some (q, h')"
      "case q of None \<Rightarrow> live h' = live h
       | Some b \<Rightarrow> length (mbytes b) = new * es \<and> maddr b \<notin> live h - paddrs ?p \<and> live h' = insert (maddr b) (live h - paddrs ?p)"
    using realloc_le [OF c, of ?p h "new * es" "old * es"] own pa n(1) es old pl by auto
  have snds: "(case p of None \<Rightarrow> [] | Some (addr, xs) \<Rightarrow> take old xs) = take old (plist p)"
    by (cases p) auto
  show thesis
  proof (cases q)
    case None
    then show thesis using r so by (intro failed [of h']) (simp_all add: ar_realloc_def)
  next
    case (Some b)
    then show thesis using r so es pa snds by (intro made [of "maddr b" h']) (simp_all add: ar_realloc_def)
  qed
qed

lemma ar_resize_grow: "length xs \<le> n \<Longrightarrow> ar_resize n x xs = xs @ replicate (n - length xs) x"
  by (simp add: ar_resize_def)

end
