(* ===== verification/Zenit_Graph.thy ===== *)
theory Zenit_Graph
  imports Zenit_Arrays
begin

text \<open>
  The graph (\<open>include/libzenit/graph.h\<close>, \<open>src/graph.c\<close>): adjacency lists in a jagged array, with tombstones for
  removed vertices, over the typed arrays of \<open>Zenit_Arrays\<close>. The traversals and \<open>get_neighbors\<close> take memory from
  \<open>malloc\<close> and not from the allocator of the graph, hence from a C heap of their own. A visitor is a
  function on the caller's context that says whether to stop.
\<close>

section \<open>State and operations\<close>

record 'h zenit_graph_t =
  gr_self :: nat
  gr_adj :: "int arr option arr"
  gr_counts :: "nat arr"
  gr_capacities :: "nat arr"
  gr_vertex_count :: nat
  gr_vertex_capacity :: nat
  gr_edge_count :: nat
  gr_directed :: bool
  gr_removed :: "int arr"
  gr_allocator :: "'h zenit_allocator_t"

definition sizeof_graph :: nat where
  "sizeof_graph = 96"

definition sizeof_ptr :: nat where
  "sizeof_ptr = 8"

definition sizeof_int :: nat where
  "sizeof_int = 4"

definition sizeof_size :: nat where
  "sizeof_size = 8"

definition ZENIT_GRAPH_DEFAULT_CAP :: nat where
  "ZENIT_GRAPH_DEFAULT_CAP = 8"

text \<open>The conversion of a \<open>size_t\<close> to \<open>int\<close>.\<close>

definition int_of_size :: "nat \<Rightarrow> int" where
  "int_of_size n = sint (word_of_nat n :: 32 word)"

definition grow_capacity :: "nat \<Rightarrow> nat" where
  "grow_capacity old = (if old = 0 then ZENIT_GRAPH_DEFAULT_CAP else sz_add old (old div 2))"

function mark_tombstones :: "nat \<Rightarrow> nat \<Rightarrow> int arr \<Rightarrow> int arr option" where
  "mark_tombstones i n p = (if i < n then do { p' \<leftarrow> ar_put p i 1; mark_tombstones (i + 1) n p' } else Some p)"
  by pat_completeness auto
termination by (relation "measure (\<lambda>(i, n, p). n - i)") auto

declare mark_tombstones.simps [simp del]

definition grow_vertex_arrays :: "'h zenit_graph_t \<Rightarrow> 'h \<Rightarrow> (zenit_result_t \<times> 'h zenit_graph_t \<times> 'h) option" where
  "grow_vertex_arrays g h = do {
     let old_cap = gr_vertex_capacity g;
     let new_cap = grow_capacity old_cap;
     let a = gr_allocator g;
     (new_adj, h1) \<leftarrow> ar_realloc a sizeof_ptr None (Some (gr_adj g)) old_cap new_cap h;
     (case new_adj of None \<Rightarrow> Some (ZENIT_ERROR_ALLOC, g, h1) | Some adj \<Rightarrow> do {
       let g1 = g\<lparr>gr_adj := adj\<rparr>;
       (new_counts, h2) \<leftarrow> ar_realloc a sizeof_size 0 (Some (gr_counts g1)) old_cap new_cap h1;
       (case new_counts of None \<Rightarrow> Some (ZENIT_ERROR_ALLOC, g1, h2) | Some cts \<Rightarrow> do {
         let g2 = g1\<lparr>gr_counts := cts\<rparr>;
         (new_capacities, h3) \<leftarrow> ar_realloc a sizeof_size 0 (Some (gr_capacities g2)) old_cap new_cap h2;
         (case new_capacities of None \<Rightarrow> Some (ZENIT_ERROR_ALLOC, g2, h3) | Some caps \<Rightarrow> do {
           let g3 = g2\<lparr>gr_capacities := caps\<rparr>;
           (new_removed, h4) \<leftarrow> ar_realloc a sizeof_int 0 (Some (gr_removed g3)) old_cap new_cap h3;
           (case new_removed of None \<Rightarrow> Some (ZENIT_ERROR_ALLOC, g3, h4) | Some rem \<Rightarrow> do {
             let n = sz_sub new_cap old_cap;
             adj' \<leftarrow> ar_fill adj old_cap n None;
             cts' \<leftarrow> ar_fill cts old_cap n 0;
             caps' \<leftarrow> ar_fill caps old_cap n 0;
             rem' \<leftarrow> mark_tombstones old_cap new_cap rem;
             Some (ZENIT_OK, g3\<lparr>gr_adj := adj', gr_counts := cts', gr_capacities := caps', gr_removed := rem',
               gr_vertex_capacity := new_cap\<rparr>, h4)
           })
         })
       })
     })
   }"

definition grow_adj_list :: "'h zenit_graph_t \<Rightarrow> nat \<Rightarrow> 'h \<Rightarrow> (zenit_result_t \<times> 'h zenit_graph_t \<times> 'h) option" where
  "grow_adj_list g vertex h = do {
     old_cap \<leftarrow> ar_get (gr_capacities g) vertex;
     let new_cap = grow_capacity old_cap;
     lst \<leftarrow> ar_get (gr_adj g) vertex;
     (new_list, h1) \<leftarrow> ar_realloc (gr_allocator g) sizeof_int 0 lst old_cap new_cap h;
     if new_list = None then Some (ZENIT_ERROR_ALLOC, g, h1)
     else do {
       adj \<leftarrow> ar_put (gr_adj g) vertex new_list;
       caps \<leftarrow> ar_put (gr_capacities g) vertex new_cap;
       Some (ZENIT_OK, g\<lparr>gr_adj := adj, gr_capacities := caps\<rparr>, h1)
     }
   }"

text \<open>The loop of \<open>remove_vertex_from_adj\<close> over one list: the list, its length and the edge count after it.\<close>

function drop_vertex :: "bool \<Rightarrow> int \<Rightarrow> int arr \<Rightarrow> nat \<Rightarrow> nat \<Rightarrow> nat \<Rightarrow> (int arr \<times> nat \<times> nat) option" where
  "drop_vertex directed vertex p n e j =
    (if j < n then do {
       u \<leftarrow> ar_get p j;
       if u = vertex then do {
         p' \<leftarrow> ar_close p j n;
         drop_vertex directed vertex p' (n - 1) (if directed then sz_sub e 1 else e) j
       } else drop_vertex directed vertex p n e (j + 1)
     } else Some (p, n, e))"
  by pat_completeness auto
termination by (relation "measure (\<lambda>(d, v, p, n, e, j). n - j)") auto

declare drop_vertex.simps [simp del]

definition remove_vertex_from_adj :: "'h zenit_graph_t \<Rightarrow> nat \<Rightarrow> int \<Rightarrow> 'h zenit_graph_t option" where
  "remove_vertex_from_adj g i vertex = do {
     n \<leftarrow> ar_get (gr_counts g) i;
     if n = 0 then Some g
     else do {
       lst \<leftarrow> ar_get (gr_adj g) i;
       p \<leftarrow> lst;
       (p', n', e') \<leftarrow> drop_vertex (gr_directed g) vertex p n (gr_edge_count g) 0;
       adj \<leftarrow> ar_put (gr_adj g) i (Some p');
       cts \<leftarrow> ar_put (gr_counts g) i n';
       Some (g\<lparr>gr_adj := adj, gr_counts := cts, gr_edge_count := e'\<rparr>)
     }
   }"

definition zenit_graph_create_with_allocator :: "nat \<Rightarrow> bool \<Rightarrow> 'h zenit_allocator_t \<Rightarrow> 'h \<Rightarrow> ('h zenit_graph_t option \<times> 'h) option" where
  "zenit_graph_create_with_allocator initial_capacity directed a h =
    (let cap = (if initial_capacity = 0 then ZENIT_GRAPH_DEFAULT_CAP else initial_capacity) in
     case alloc_fn a sizeof_graph h of
       (None, h1) \<Rightarrow> Some (None, h1)
     | (Some b, h1) \<Rightarrow> do {
         (adj, h2) \<leftarrow> ar_calloc a cap sizeof_ptr None h1;
         (cts, h3) \<leftarrow> ar_calloc a cap sizeof_size 0 h2;
         (caps, h4) \<leftarrow> ar_calloc a cap sizeof_size 0 h3;
         (rem, h5) \<leftarrow> ar_calloc a cap sizeof_int 0 h4;
         (case (adj, cts, caps, rem) of
            (Some adj', Some cts', Some caps', Some rem') \<Rightarrow> do {
              rem'' \<leftarrow> ar_fill rem' 0 cap 16843009;
              Some (Some \<lparr>gr_self = maddr b, gr_adj = adj', gr_counts = cts', gr_capacities = caps', gr_vertex_count = 0,
                gr_vertex_capacity = cap, gr_edge_count = 0, gr_directed = directed, gr_removed = rem'', gr_allocator = a\<rparr>, h5)
            }
          | _ \<Rightarrow> do {
              h6 \<leftarrow> free_fn a (map_option fst adj) h5;
              h7 \<leftarrow> free_fn a (map_option fst cts) h6;
              h8 \<leftarrow> free_fn a (map_option fst caps) h7;
              h9 \<leftarrow> free_fn a (map_option fst rem) h8;
              h10 \<leftarrow> free_fn a (Some (maddr b)) h9;
              Some (None, h10)
            })
       })"

definition zenit_graph_create :: "nat \<Rightarrow> bool \<Rightarrow> c_heap \<Rightarrow> (c_heap zenit_graph_t option \<times> c_heap) option" where
  "zenit_graph_create initial_capacity directed = zenit_graph_create_with_allocator initial_capacity directed ZENIT_ALLOCATOR_DEFAULT"

function free_lists :: "'h zenit_allocator_t \<Rightarrow> nat \<Rightarrow> nat \<Rightarrow> int arr option arr \<Rightarrow> 'h \<Rightarrow> 'h option" where
  "free_lists a i n adj h =
    (if i < n then do {
       p \<leftarrow> ar_get adj i;
       h' \<leftarrow> (if p \<noteq> None then free_fn a (map_option fst p) h else Some h);
       free_lists a (i + 1) n adj h'
     } else Some h)"
  by pat_completeness auto
termination by (relation "measure (\<lambda>(a, i, n, adj, h). n - i)") auto

declare free_lists.simps [simp del]

definition zenit_graph_destroy :: "'h zenit_graph_t option \<Rightarrow> 'h \<Rightarrow> 'h option" where
  "zenit_graph_destroy graph h =
    (case graph of None \<Rightarrow> Some h
     | Some g \<Rightarrow> do {
         let a = gr_allocator g;
         h1 \<leftarrow> free_lists a 0 (gr_vertex_capacity g) (gr_adj g) h;
         h2 \<leftarrow> free_fn a (Some (fst (gr_adj g))) h1;
         h3 \<leftarrow> free_fn a (Some (fst (gr_counts g))) h2;
         h4 \<leftarrow> free_fn a (Some (fst (gr_capacities g))) h3;
         h5 \<leftarrow> free_fn a (Some (fst (gr_removed g))) h4;
         free_fn a (Some (gr_self g)) h5
       })"

function first_tombstone :: "int arr \<Rightarrow> nat \<Rightarrow> nat \<Rightarrow> int option" where
  "first_tombstone rem i n =
    (if i < n then do { r \<leftarrow> ar_get rem i; if r \<noteq> 0 then Some (int_of_size i) else first_tombstone rem (i + 1) n }
     else Some (-1))"
  by pat_completeness auto
termination by (relation "measure (\<lambda>(rem, i, n). n - i)") auto

declare first_tombstone.simps [simp del]

text \<open>Activating the slot that was found or added.\<close>

definition activate :: "'h zenit_graph_t \<Rightarrow> int \<Rightarrow> 'h \<Rightarrow> (zenit_result_t \<times> 'h zenit_graph_t option \<times> 'h) option" where
  "activate g sl h =
    (if sl < 0 then None
     else do {
       rem \<leftarrow> ar_put (gr_removed g) (nat sl) 0;
       Some (ZENIT_OK, Some (g\<lparr>gr_removed := rem, gr_vertex_count := sz_add (gr_vertex_count g) 1\<rparr>), h)
     })"

definition zenit_graph_add_vertex :: "'h zenit_graph_t option \<Rightarrow> 'h \<Rightarrow> (zenit_result_t \<times> 'h zenit_graph_t option \<times> 'h) option" where
  "zenit_graph_add_vertex graph h =
    (case graph of None \<Rightarrow> Some (ZENIT_ERROR_NULL, None, h)
     | Some g \<Rightarrow> do {
         sl \<leftarrow> first_tombstone (gr_removed g) 0 (gr_vertex_capacity g);
         if sl = -1 then do {
           (r, g1, h1) \<leftarrow> grow_vertex_arrays g h;
           if r \<noteq> ZENIT_OK then Some (r, Some g1, h1) else activate g1 (int_of_size (gr_vertex_count g1)) h1
         } else activate g sl h
       })"

text \<open>The test that every operation makes on a vertex: in range and not a tombstone.\<close>

definition vertex_active :: "'h zenit_graph_t \<Rightarrow> int \<Rightarrow> bool option" where
  "vertex_active g v =
    (if v < 0 \<or> nat v \<ge> gr_vertex_capacity g then Some False
     else do { r \<leftarrow> ar_get (gr_removed g) (nat v); Some (r = 0) })"

function detach_loop :: "nat \<Rightarrow> nat \<Rightarrow> int \<Rightarrow> 'h zenit_graph_t \<Rightarrow> 'h zenit_graph_t option" where
  "detach_loop i n vertex g =
    (if i < n then do {
       r \<leftarrow> ar_get (gr_removed g) i;
       g' \<leftarrow> (if r \<noteq> 0 then Some g else remove_vertex_from_adj g i vertex);
       detach_loop (i + 1) n vertex g'
     } else Some g)"
  by pat_completeness auto
termination by (relation "measure (\<lambda>(i, n, v, g). n - i)") auto

declare detach_loop.simps [simp del]

definition zenit_graph_remove_vertex :: "'h zenit_graph_t option \<Rightarrow> int \<Rightarrow> 'h \<Rightarrow> (zenit_result_t \<times> 'h zenit_graph_t option \<times> 'h) option" where
  "zenit_graph_remove_vertex graph vertex h =
    (case graph of None \<Rightarrow> Some (ZENIT_ERROR_NULL, None, h)
     | Some g \<Rightarrow> do {
         ok \<leftarrow> vertex_active g vertex;
         if \<not> ok then Some (ZENIT_ERROR_PARAM, Some g, h)
         else do {
           c \<leftarrow> ar_get (gr_counts g) (nat vertex);
           g1 \<leftarrow> detach_loop 0 (gr_vertex_capacity g) vertex (g\<lparr>gr_edge_count := sz_sub (gr_edge_count g) c\<rparr>);
           lst \<leftarrow> ar_get (gr_adj g1) (nat vertex);
           h1 \<leftarrow> (if lst \<noteq> None then free_fn (gr_allocator g1) (map_option fst lst) h else Some h);
           adj \<leftarrow> ar_put (gr_adj g1) (nat vertex) None;
           cts \<leftarrow> ar_put (gr_counts g1) (nat vertex) 0;
           caps \<leftarrow> ar_put (gr_capacities g1) (nat vertex) 0;
           rem \<leftarrow> ar_put (gr_removed g1) (nat vertex) 1;
           Some (ZENIT_OK, Some (g1\<lparr>gr_adj := adj, gr_counts := cts, gr_capacities := caps, gr_removed := rem,
             gr_vertex_count := sz_sub (gr_vertex_count g1) 1\<rparr>), h1)
         }
       })"

text \<open>The linear scan of an adjacency list for a vertex: its first position.\<close>

function scan_for :: "int arr option \<Rightarrow> nat \<Rightarrow> int \<Rightarrow> nat \<Rightarrow> nat option option" where
  "scan_for lst n v i =
    (if i < n then do {
       p \<leftarrow> lst;
       u \<leftarrow> ar_get p i;
       if u = v then Some (Some i) else scan_for lst n v (i + 1)
     } else Some None)"
  by pat_completeness auto
termination by (relation "measure (\<lambda>(lst, n, v, i). n - i)") auto

declare scan_for.simps [simp del]

definition zenit_graph_has_edge :: "'h zenit_graph_t option \<Rightarrow> int \<Rightarrow> int \<Rightarrow> bool option" where
  "zenit_graph_has_edge graph from to =
    (case graph of None \<Rightarrow> Some False
     | Some g \<Rightarrow> do {
         a \<leftarrow> vertex_active g from;
         if \<not> a then Some False
         else do {
           b \<leftarrow> vertex_active g to;
           if \<not> b then Some False
           else do {
             n \<leftarrow> ar_get (gr_counts g) (nat from);
             lst \<leftarrow> ar_get (gr_adj g) (nat from);
             i \<leftarrow> scan_for lst n to 0;
             Some (i \<noteq> None)
           }
         }
       })"

text \<open>Appending to one adjacency list, after growing it when it is full.\<close>

definition append_neighbor :: "'h zenit_graph_t \<Rightarrow> nat \<Rightarrow> int \<Rightarrow> 'h \<Rightarrow> (zenit_result_t \<times> 'h zenit_graph_t \<times> 'h) option" where
  "append_neighbor g from to h = do {
     c \<leftarrow> ar_get (gr_counts g) from;
     cap \<leftarrow> ar_get (gr_capacities g) from;
     (r, g1, h1) \<leftarrow> (if c = cap then grow_adj_list g from h else Some (ZENIT_OK, g, h));
     if r \<noteq> ZENIT_OK then Some (r, g1, h1)
     else do {
       lst \<leftarrow> ar_get (gr_adj g1) from;
       p \<leftarrow> lst;
       p' \<leftarrow> ar_put p c to;
       adj \<leftarrow> ar_put (gr_adj g1) from (Some p');
       cts \<leftarrow> ar_put (gr_counts g1) from (sz_add c 1);
       Some (ZENIT_OK, g1\<lparr>gr_adj := adj, gr_counts := cts\<rparr>, h1)
     }
   }"

definition zenit_graph_add_edge :: "'h zenit_graph_t option \<Rightarrow> int \<Rightarrow> int \<Rightarrow> 'h \<Rightarrow> (zenit_result_t \<times> 'h zenit_graph_t option \<times> 'h) option" where
  "zenit_graph_add_edge graph from to h =
    (case graph of None \<Rightarrow> Some (ZENIT_ERROR_NULL, None, h)
     | Some g \<Rightarrow> do {
         a \<leftarrow> vertex_active g from;
         if \<not> a then Some (ZENIT_ERROR_PARAM, Some g, h)
         else do {
           b \<leftarrow> vertex_active g to;
           if \<not> b then Some (ZENIT_ERROR_PARAM, Some g, h)
           else do {
             e \<leftarrow> zenit_graph_has_edge (Some g) from to;
             if e then Some (ZENIT_OK, Some g, h)
             else do {
               (r, g1, h1) \<leftarrow> append_neighbor g (nat from) to h;
               if r \<noteq> ZENIT_OK then Some (r, Some g1, h1)
               else do {
                 let g2 = g1\<lparr>gr_edge_count := sz_add (gr_edge_count g1) 1\<rparr>;
                 if \<not> gr_directed g2 \<and> from \<noteq> to then do {
                   (r', g3, h2) \<leftarrow> append_neighbor g2 (nat to) from h1;
                   if r' \<noteq> ZENIT_OK then do {
                     c \<leftarrow> ar_get (gr_counts g3) (nat from);
                     cts \<leftarrow> ar_put (gr_counts g3) (nat from) (sz_sub c 1);
                     Some (r', Some (g3\<lparr>gr_counts := cts, gr_edge_count := sz_sub (gr_edge_count g3) 1\<rparr>), h2)
                   } else Some (ZENIT_OK, Some g3, h2)
                 } else Some (ZENIT_OK, Some g2, h1)
               }
             }
           }
         }
       })"

text \<open>Removing the first occurrence of a vertex from one adjacency list.\<close>

definition remove_neighbor :: "'h zenit_graph_t \<Rightarrow> nat \<Rightarrow> int \<Rightarrow> (bool \<times> 'h zenit_graph_t) option" where
  "remove_neighbor g from to = do {
     n \<leftarrow> ar_get (gr_counts g) from;
     lst \<leftarrow> ar_get (gr_adj g) from;
     s \<leftarrow> scan_for lst n to 0;
     case s of None \<Rightarrow> Some (False, g)
     | Some i \<Rightarrow> do {
         p \<leftarrow> lst;
         p' \<leftarrow> ar_close p i n;
         adj \<leftarrow> ar_put (gr_adj g) from (Some p');
         cts \<leftarrow> ar_put (gr_counts g) from (sz_sub n 1);
         Some (True, g\<lparr>gr_adj := adj, gr_counts := cts\<rparr>)
       }
   }"

definition zenit_graph_remove_edge :: "'h zenit_graph_t option \<Rightarrow> int \<Rightarrow> int \<Rightarrow> (zenit_result_t \<times> 'h zenit_graph_t option) option" where
  "zenit_graph_remove_edge graph from to =
    (case graph of None \<Rightarrow> Some (ZENIT_ERROR_NULL, None)
     | Some g \<Rightarrow> do {
         a \<leftarrow> vertex_active g from;
         if \<not> a then Some (ZENIT_ERROR_PARAM, Some g)
         else do {
           b \<leftarrow> vertex_active g to;
           if \<not> b then Some (ZENIT_ERROR_PARAM, Some g)
           else do {
             (found, g1) \<leftarrow> remove_neighbor g (nat from) to;
             let g2 = (if found then g1\<lparr>gr_edge_count := sz_sub (gr_edge_count g1) 1\<rparr> else g1);
             if found \<and> \<not> gr_directed g2 \<and> from \<noteq> to then do {
               (_, g3) \<leftarrow> remove_neighbor g2 (nat to) from;
               Some (ZENIT_OK, Some g3)
             } else Some (ZENIT_OK, Some g2)
           }
         }
       })"

definition zenit_graph_get_neighbors ::
    "'h zenit_graph_t option \<Rightarrow> int \<Rightarrow> int arr option option \<Rightarrow> nat option \<Rightarrow> c_heap \<Rightarrow>
     (int \<times> int arr option option \<times> nat option \<times> c_heap) option" where
  "zenit_graph_get_neighbors graph vertex out_neighbors out_count H =
    (case (graph, out_neighbors, out_count) of
       (Some g, Some _, Some _) \<Rightarrow> do {
         a \<leftarrow> vertex_active g vertex;
         if \<not> a then Some (-1, Some None, Some 0, H)
         else do {
           n \<leftarrow> ar_get (gr_counts g) (nat vertex);
           if n = 0 then Some (0, Some None, Some 0, H)
           else (case ar_malloc sizeof_int 0 (sz_mul n sizeof_int) H of
               (None, H1) \<Rightarrow> Some (-1, Some None, Some 0, H1)
             | (Some q, H1) \<Rightarrow> do {
                 lst \<leftarrow> ar_get (gr_adj g) (nat vertex);
                 p \<leftarrow> lst;
                 if n \<le> length (snd p) \<and> n \<le> length (snd q)
                 then Some (int_of_size n, Some (Some (fst q, take n (snd p) @ drop n (snd q))), Some n, H1) else None
               })
         }
       }
     | _ \<Rightarrow> Some (-1, out_neighbors, out_count, H))"

definition zenit_graph_vertex_count :: "'h zenit_graph_t option \<Rightarrow> nat" where
  "zenit_graph_vertex_count graph = (case graph of None \<Rightarrow> 0 | Some g \<Rightarrow> gr_vertex_count g)"

definition zenit_graph_edge_count :: "'h zenit_graph_t option \<Rightarrow> nat" where
  "zenit_graph_edge_count graph = (case graph of None \<Rightarrow> 0 | Some g \<Rightarrow> gr_edge_count g)"

definition zenit_graph_is_directed :: "'h zenit_graph_t option \<Rightarrow> bool" where
  "zenit_graph_is_directed graph = (case graph of None \<Rightarrow> False | Some g \<Rightarrow> gr_directed g)"

function clear_slots :: "nat \<Rightarrow> nat \<Rightarrow> 'h zenit_graph_t \<Rightarrow> 'h \<Rightarrow> ('h zenit_graph_t \<times> 'h) option" where
  "clear_slots i n g h =
    (if i < n then do {
       p \<leftarrow> ar_get (gr_adj g) i;
       h1 \<leftarrow> (if p \<noteq> None then free_fn (gr_allocator g) (map_option fst p) h else Some h);
       adj \<leftarrow> ar_put (gr_adj g) i None;
       cts \<leftarrow> ar_put (gr_counts g) i 0;
       caps \<leftarrow> ar_put (gr_capacities g) i 0;
       rem \<leftarrow> ar_put (gr_removed g) i 1;
       clear_slots (i + 1) n (g\<lparr>gr_adj := adj, gr_counts := cts, gr_capacities := caps, gr_removed := rem\<rparr>) h1
     } else Some (g, h))"
  by pat_completeness auto
termination by (relation "measure (\<lambda>(i, n, g, h). n - i)") auto

declare clear_slots.simps [simp del]

definition zenit_graph_clear :: "'h zenit_graph_t option \<Rightarrow> 'h \<Rightarrow> ('h zenit_graph_t option \<times> 'h) option" where
  "zenit_graph_clear graph h =
    (case graph of None \<Rightarrow> Some (None, h)
     | Some g \<Rightarrow> do {
         (g1, h1) \<leftarrow> clear_slots 0 (gr_vertex_capacity g) g h;
         Some (Some (g1\<lparr>gr_vertex_count := 0, gr_edge_count := 0\<rparr>), h1)
       })"

end
