(* ===== verification/Zenit_Graph_Ops.thy ===== *)
theory Zenit_Graph_Ops
  imports Zenit_Graph
begin

text \<open>
  The operations of \<open>src/graph.c\<close> on one slot of the vertex arrays: what each does to the list of neighbours of a vertex and to the
  blocks the graph owns.
\<close>

section \<open>Scanning a list\<close>

lemma scan_for_ok:
  assumes "n \<le> length (plist lst)" and "i \<le> n"
    and "v \<notin> set (take i (plist lst))"
  shows "\<exists>s. scan_for lst n v i = Some s \<and>
    (case s of None \<Rightarrow> v \<notin> set (take n (plist lst))
     | Some j \<Rightarrow> j < n \<and> (plist lst) ! j = v \<and> v \<notin> set (take j (plist lst)))"
  using assms
proof (induction lst n v i rule: scan_for.induct)
  case (1 lst n v i)
  show ?case
  proof (cases "i < n")
    case True
    then obtain p where p: "lst = Some p" using 1(2) by (cases lst) auto
    have i: "i < length (snd p)" using True 1(2) p by simp
    have get: "ar_get p i = Some (snd p ! i)" using i by (rule ar_get_ok)
    have "take (Suc i) (snd p) = take i (snd p) @ [snd p ! i]" using i by (rule take_Suc_conv_app_nth)
    then show ?thesis using 1(1) [OF True p get] 1(2-4) True p get
      by (cases "snd p ! i = v") (subst scan_for.simps, simp add: One_nat_def)+
  next
    case False
    then have "i = n" using 1(3) by simp
    then show ?thesis using 1(4) by (subst scan_for.simps) simp
  qed
qed

section \<open>The slots of a graph\<close>

definition slot_ok :: "int arr option \<Rightarrow> nat \<Rightarrow> nat \<Rightarrow> bool" where
  "slot_ok p n c \<longleftrightarrow> length (plist p) = c \<and> n \<le> c \<and> c < 2 ^ 33 \<and> c \<noteq> 1"

definition gact :: "'h zenit_graph_t \<Rightarrow> nat \<Rightarrow> bool" where
  "gact g v \<longleftrightarrow> v < gr_vertex_capacity g \<and> snd (gr_removed g) ! v = 0"

definition nbrs :: "'h zenit_graph_t \<Rightarrow> nat \<Rightarrow> int list" where
  "nbrs g v = take (snd (gr_counts g) ! v) (plist (snd (gr_adj g) ! v))"

definition graph_layout :: "'h zenit_graph_t \<Rightarrow> bool" where
  "graph_layout g \<longleftrightarrow> 0 < gr_vertex_capacity g \<and> gr_vertex_capacity g < 2 ^ 31 \<and>
    gr_vertex_capacity g \<le> length (snd (gr_adj g)) \<and> gr_vertex_capacity g \<le> length (snd (gr_counts g)) \<and>
    gr_vertex_capacity g \<le> length (snd (gr_capacities g)) \<and> gr_vertex_capacity g \<le> length (snd (gr_removed g)) \<and>
    length (snd (gr_adj g)) < 2 ^ 33 \<and> length (snd (gr_counts g)) < 2 ^ 33 \<and> length (snd (gr_capacities g)) < 2 ^ 33 \<and> length (snd (gr_removed g)) < 2 ^ 33 \<and>
    (\<forall>v < gr_vertex_capacity g. slot_ok (snd (gr_adj g) ! v) (snd (gr_counts g) ! v) (snd (gr_capacities g) ! v)) \<and>
    (\<forall>v < gr_vertex_capacity g. snd (gr_removed g) ! v \<noteq> 0 \<longrightarrow> snd (gr_adj g) ! v = None)"

text \<open>Rewriting one slot.\<close>

definition set_slot :: "'h zenit_graph_t \<Rightarrow> nat \<Rightarrow> int arr option \<Rightarrow> nat \<Rightarrow> nat \<Rightarrow> 'h zenit_graph_t" where
  "set_slot g v p n c = g\<lparr>gr_adj := (fst (gr_adj g), (snd (gr_adj g))[v := p]),
    gr_counts := (fst (gr_counts g), (snd (gr_counts g))[v := n]), gr_capacities := (fst (gr_capacities g), (snd (gr_capacities g))[v := c])\<rparr>"

lemma graph_slot:
  assumes "graph_layout g" and "v < gr_vertex_capacity g"
  shows "v < length (snd (gr_adj g))" "v < length (snd (gr_counts g))" "v < length (snd (gr_capacities g))" "v < length (snd (gr_removed g))"
    "snd (gr_capacities g) ! v = length (plist (snd (gr_adj g) ! v))" "snd (gr_counts g) ! v \<le> length (plist (snd (gr_adj g) ! v))"
    "length (plist (snd (gr_adj g) ! v)) < 2 ^ 33" "length (nbrs g v) = snd (gr_counts g) ! v"
    "length (plist (snd (gr_adj g) ! v)) \<noteq> 1"
  using assms by (auto simp: graph_layout_def slot_ok_def nbrs_def)

lemma set_slot_simps [simp]:
  "gr_vertex_capacity (set_slot g v p n c) = gr_vertex_capacity g" "gr_removed (set_slot g v p n c) = gr_removed g"
  "gr_self (set_slot g v p n c) = gr_self g" "gr_allocator (set_slot g v p n c) = gr_allocator g"
  "gr_directed (set_slot g v p n c) = gr_directed g" "gr_vertex_count (set_slot g v p n c) = gr_vertex_count g"
  "gr_edge_count (set_slot g v p n c) = gr_edge_count g" "fst (gr_adj (set_slot g v p n c)) = fst (gr_adj g)"
  "fst (gr_counts (set_slot g v p n c)) = fst (gr_counts g)" "fst (gr_capacities (set_slot g v p n c)) = fst (gr_capacities g)"
  "gact (set_slot g v p n c) = gact g"
  by (simp_all add: set_slot_def gact_def fun_eq_iff)

lemma set_slot_nbrs:
  assumes "graph_layout g" and "v < gr_vertex_capacity g"
  shows "nbrs (set_slot g v p n c) = (nbrs g)(v := take n (plist p))"
  using graph_slot [OF assms] by (auto simp: fun_eq_iff nbrs_def set_slot_def)

lemma set_slot_layout:
  assumes "graph_layout g" and "v < gr_vertex_capacity g" and "slot_ok p n c" and "snd (gr_removed g) ! v \<noteq> 0 \<Longrightarrow> p = None"
  shows "graph_layout (set_slot g v p n c)"
  using assms by (auto simp: graph_layout_def set_slot_def nth_list_update)

text \<open>The blocks of the adjacency lists.\<close>

definition list_addrs :: "int arr option list \<Rightarrow> nat list" where
  "list_addrs ps = addr_list (map (map_option fst) ps)"

definition graph_addrs :: "'h zenit_graph_t \<Rightarrow> nat list" where
  "graph_addrs g = list_addrs (take (gr_vertex_capacity g) (snd (gr_adj g))) @
    [fst (gr_adj g), fst (gr_counts g), fst (gr_capacities g), fst (gr_removed g), gr_self g]"

lemma list_addrs_split:
  assumes "v < n" and "v < length ps"
  shows "mset (list_addrs (take n ps)) = mset (opt_list (map_option fst (ps ! v))) + mset (list_addrs (take v ps @ take (n - Suc v) (drop (Suc v) ps)))"
proof -
  have "take n ps = take v ps @ ps ! v # take (n - Suc v) (drop (Suc v) ps)"
  proof -
    have "take n ps = take v ps @ take (n - v) (drop v ps)" using assms(1) take_add [of v "n - v" ps] by simp
    also have "drop v ps = ps ! v # drop (Suc v) ps" using assms(2) by (simp add: Cons_nth_drop_Suc)
    also have "take (n - v) (ps ! v # drop (Suc v) ps) = ps ! v # take (n - Suc v) (drop (Suc v) ps)" 
      using assms(1) by (simp add: Suc_diff_Suc [symmetric])
    finally show ?thesis .
  qed
  then show ?thesis by (simp add: list_addrs_def)
qed

definition rest_addrs :: "'h zenit_graph_t \<Rightarrow> nat \<Rightarrow> nat list" where
  "rest_addrs g v = list_addrs (take v (snd (gr_adj g)) @ take (gr_vertex_capacity g - Suc v) (drop (Suc v) (snd (gr_adj g)))) @
    [fst (gr_adj g), fst (gr_counts g), fst (gr_capacities g), fst (gr_removed g), gr_self g]"

lemma graph_addrs_split:
  assumes "graph_layout g" and "v < gr_vertex_capacity g"
  shows "mset (graph_addrs g) = mset (opt_list (map_option fst (snd (gr_adj g) ! v)) @ rest_addrs g v)"
  using list_addrs_split [OF assms(2), of "snd (gr_adj g)"] graph_slot(1) [OF assms] by (simp add: graph_addrs_def rest_addrs_def)

lemma set_slot_addrs:
  assumes "graph_layout g" and "v < gr_vertex_capacity g"
  shows "mset (graph_addrs (set_slot g v p n c)) = mset (opt_list (map_option fst p) @ rest_addrs g v)"
  using list_addrs_split [OF assms(2), of "(snd (gr_adj g))[v := p]"] graph_slot(1) [OF assms] assms(2)
  by (simp add: graph_addrs_def rest_addrs_def set_slot_def)

lemma set_slot_self: "set_slot g v (snd (gr_adj g) ! v) (snd (gr_counts g) ! v) (snd (gr_capacities g) ! v) = g"
  by (simp add: set_slot_def)

section \<open>Operations on one list\<close>

text \<open>
  What an operation on the list of \<open>v\<close> leaves behind: only the slot of \<open>v\<close> has changed, its list of neighbours is \<open>ns\<close> and its block is \<open>b\<close>.
\<close>

definition slot_step :: "'h zenit_graph_t \<Rightarrow> nat \<Rightarrow> nat option \<Rightarrow> int list \<Rightarrow> 'h zenit_graph_t \<Rightarrow> bool" where
  "slot_step g v b ns g' \<longleftrightarrow> (\<exists>p n c. g' = set_slot g v p n c \<and> map_option fst p = b \<and> slot_ok p n c \<and> take n (plist p) = ns)"

lemma slot_stepD:
  assumes st: "slot_step g v b ns g'" and lay: "graph_layout g" and v: "gact g v"
  shows "graph_layout g'" "nbrs g' = (nbrs g)(v := ns)" "gact g' = gact g"
    "mset (graph_addrs g') = mset (opt_list b @ rest_addrs g v)" "rest_addrs g' v = rest_addrs g v"
    "gr_vertex_capacity g' = gr_vertex_capacity g" "gr_removed g' = gr_removed g" "gr_self g' = gr_self g" "gr_allocator g' = gr_allocator g"
    "gr_directed g' = gr_directed g" "gr_vertex_count g' = gr_vertex_count g" "gr_edge_count g' = gr_edge_count g"
    "map_option fst (snd (gr_adj g') ! v) = b"
proof -
  obtain p n c where g': "g' = set_slot g v p n c" "map_option fst p = b" "slot_ok p n c" "take n (plist p) = ns"
    using st by (auto simp: slot_step_def)
  have cap: "v < gr_vertex_capacity g" and rem: "snd (gr_removed g) ! v = 0" using v by (simp_all add: gact_def)
  show "graph_layout g'" unfolding g'(1) by (rule set_slot_layout [OF lay cap g'(3)]) (use rem in simp)
  show "nbrs g' = (nbrs g)(v := ns)" unfolding g'(1) set_slot_nbrs [OF lay cap] g'(4) ..
  show "mset (graph_addrs g') = mset (opt_list b @ rest_addrs g v)" unfolding g'(1) set_slot_addrs [OF lay cap] g'(2) ..
  show "rest_addrs g' v = rest_addrs g v" "map_option fst (snd (gr_adj g') ! v) = b"
    using g'(1,2) graph_slot(1) [OF lay cap] by (simp_all add: rest_addrs_def set_slot_def)
qed (use st in \<open>auto simp: slot_step_def\<close>)

lemma slot_step_addrs:
  assumes "slot_step g v (map_option fst (snd (gr_adj g) ! v)) ns g'" and "graph_layout g" and "gact g v"
  shows "mset (graph_addrs g') = mset (graph_addrs g)"
  using slot_stepD(4) [OF assms] graph_addrs_split [OF assms(2), of v] assms(3) by (simp add: gact_def)

lemma remove_neighbor_ok:
  assumes lay: "graph_layout g" and v: "v < gr_vertex_capacity g"
  obtains g' where "remove_neighbor g v u = Some (u \<in> set (nbrs g v), g')"
    and "slot_step g v (map_option fst (snd (gr_adj g) ! v)) (remove1 u (nbrs g v)) g'"
proof -
  note sl = graph_slot [OF lay v]
  let ?lst = "snd (gr_adj g) ! v" and ?n = "snd (gr_counts g) ! v"
  obtain s where s: "scan_for ?lst ?n u 0 = Some s"
      "case s of None \<Rightarrow> u \<notin> set (take ?n (plist ?lst)) | Some j \<Rightarrow> j < ?n \<and> plist ?lst ! j = u \<and> u \<notin> set (take j (plist ?lst))"
    using scan_for_ok [of ?n ?lst 0 u] sl(6) by auto
  note get = ar_get_ok [OF sl(1)] ar_get_ok [OF sl(2)]
  show thesis
  proof (cases s)
    case None
    then have "u \<notin> set (nbrs g v)" using s(2) by (simp add: nbrs_def)
    moreover have "slot_step g v (map_option fst ?lst) (nbrs g v) g"
      unfolding slot_step_def using set_slot_self [of g v] lay v
      by (intro exI [of _ ?lst] exI [of _ ?n] exI [of _ "snd (gr_capacities g) ! v"]) (simp add: graph_layout_def nbrs_def)
    ultimately show thesis using s(1) None get by (intro that [of g]) (simp_all add: remove_neighbor_def remove1_idem)
  next
    case (Some j)
    then have j: "j < ?n" "plist ?lst ! j = u" "u \<notin> set (take j (plist ?lst))" using s(2) by simp_all
    then obtain p where p: "?lst = Some p" using sl(6) by (cases ?lst) (auto simp: plist_def)
    obtain q where q: "ar_close p j ?n = Some q" "fst q = fst p" "length (snd q) = length (snd p)" "take (?n - 1) (snd q) = remove1 u (take ?n (snd p))"
      by (rule ar_close_first [of j ?n p u]) (use j sl(6) p in \<open>simp_all add: plist_def\<close>)
    have pl: "plist ?lst = snd p" by (simp add: p plist_def)
    have u: "u \<in> set (nbrs g v)" using j sl(6) by (auto simp: nbrs_def in_set_conv_nth intro!: exI [of _ j])
    have n1: "sz_sub ?n 1 = ?n - 1" using j(1) sl(6,7) by (simp add: sz_sub_nowrap size_mod_def)
    define g' where "g' = set_slot g v (Some q) (?n - 1) (snd (gr_capacities g) ! v)"
    have "remove_neighbor g v u = Some (True, g')"
      using get s(1) Some p q(1) n1 sl(1,2) by (simp add: remove_neighbor_def ar_put_ok g'_def set_slot_def)
    moreover have "slot_step g v (map_option fst ?lst) (remove1 u (nbrs g v)) g'"
      unfolding slot_step_def using q sl(5,6,7,9) pl
      by (intro exI [of _ "Some q"] exI [of _ "?n - 1"] exI [of _ "snd (gr_capacities g) ! v"])
        (simp add: g'_def p slot_ok_def plist_def nbrs_def)
    ultimately show thesis using u by (intro that [of g']) simp_all
  qed
qed

lemma grow_capacity_ok:
  assumes "n < 2 ^ 32"
  shows "grow_capacity n = (if n = 0 then 8 else n + n div 2)" "n \<noteq> 1 \<Longrightarrow> n < grow_capacity n" "0 < grow_capacity n" "grow_capacity n < 2 ^ 33"
    "n \<noteq> 1 \<Longrightarrow> grow_capacity n \<noteq> 1"
proof -
  have "n + n div 2 < size_mod" using assms by (simp add: size_mod_def)
  then show e: "grow_capacity n = (if n = 0 then 8 else n + n div 2)"
    by (simp add: grow_capacity_def ZENIT_GRAPH_DEFAULT_CAP_def sz_add_nowrap)
  show "n \<noteq> 1 \<Longrightarrow> n < grow_capacity n" "0 < grow_capacity n" "grow_capacity n < 2 ^ 33"
    "n \<noteq> 1 \<Longrightarrow> grow_capacity n \<noteq> 1" unfolding e using assms by auto
qed

lemma fresh_blocks_replace:
  assumes "fresh_blocks live h0 (opt_list x @ as) h" and "b \<notin> live h - set_option x" and "live h' = insert b (live h - set_option x)"
  shows "fresh_blocks live h0 (b # as) h'"
  using assms by (cases x) (auto simp: fresh_blocks_def)

lemma slot_owned:
  assumes f: "fresh_blocks live h0 (graph_addrs g) h" and lay: "graph_layout g" and v: "v < gr_vertex_capacity g"
  shows "fresh_blocks live h0 (opt_list (map_option fst (snd (gr_adj g) ! v)) @ rest_addrs g v) h"
    and "set_option (map_option fst (snd (gr_adj g) ! v)) \<subseteq> live h"
proof -
  show fr: "fresh_blocks live h0 (opt_list (map_option fst (snd (gr_adj g) ! v)) @ rest_addrs g v) h"
    using f fresh_blocks_mset [OF graph_addrs_split [OF lay v], of live h0 h] by simp
  then show "set_option (map_option fst (snd (gr_adj g) ! v)) \<subseteq> live h"
    by (cases "snd (gr_adj g) ! v") (auto simp: fresh_blocks_def)
qed

lemma grow_adj_list_ok:
  assumes c: "allocator_contract (gr_allocator g) live" and lay: "graph_layout g" and v: "v < gr_vertex_capacity g"
    and f: "fresh_blocks live h0 (graph_addrs g) h" and full: "snd (gr_counts g) ! v = snd (gr_capacities g) ! v" "snd (gr_counts g) ! v < 2 ^ 31"
  obtains (failed) h' where "grow_adj_list g v h = Some (ZENIT_ERROR_ALLOC, g, h')" and "live h' = live h"
  | (added) b xs h' where "grow_adj_list g v h = Some (ZENIT_OK, set_slot g v (Some (b, plist (snd (gr_adj g) ! v) @ xs))
        (snd (gr_counts g) ! v) (snd (gr_counts g) ! v + length xs), h')"
    and "xs \<noteq> []" and "snd (gr_counts g) ! v + length xs < 2 ^ 33" and "snd (gr_counts g) ! v + length xs \<noteq> 1" and "fresh_blocks live h0 (b # rest_addrs g v) h'"
proof -
  note sl = graph_slot [OF lay v]
  let ?lst = "snd (gr_adj g) ! v" and ?n = "snd (gr_counts g) ! v"
  have n: "length (plist ?lst) = ?n" "?n \<noteq> 1" using sl(5,9) full(1) by simp_all
  have lt: "?n < 2 ^ 32" using full(2) by simp
  note gc = grow_capacity_ok [OF lt]
  note own = slot_owned [OF f lay v]
  note get = ar_get_ok [OF sl(1)] ar_get_ok [OF sl(3)]
  have sz: "grow_capacity ?n * sizeof_int < size_mod" "length (plist ?lst) * sizeof_int < size_mod"
    using gc(4) n(1) lt by (simp_all add: sizeof_int_def size_mod_def)
  show thesis
  proof (cases rule: ar_realloc_ok [OF c own(2) _ gc(3) sz(1) _ sz(2), of ?n 0, case_names _ _ failed made])
    case (failed h')
    then show thesis using get full(1) [symmetric] by (intro that(1) [of h']) (simp_all add: grow_adj_list_def Let_def)
  next
    case (made b h')
    let ?xs = "replicate (grow_capacity ?n - ?n) 0"
    have len: "?n + length ?xs = grow_capacity ?n" using gc(2) n(2) by simp
    have rs: "ar_resize (grow_capacity ?n) 0 (take ?n (plist ?lst)) = plist ?lst @ ?xs"
      using n gc(2) by (simp add: ar_resize_grow)
    have "grow_adj_list g v h = Some (ZENIT_OK, set_slot g v (Some (b, plist ?lst @ ?xs)) ?n (grow_capacity ?n), h')"
      using get full(1) [symmetric] made(1) sl(1-3) unfolding rs by (simp add: grow_adj_list_def ar_put_ok set_slot_def Let_def)
    moreover have "fresh_blocks live h0 (b # rest_addrs g v) h'" by (rule fresh_blocks_replace [OF own(1) made(2,3)])
    ultimately show thesis using gc(2,4,5) n(2) len by (intro that(2) [of b ?xs h']) simp_all
  qed (use n in \<open>simp_all add: sizeof_int_def\<close>)
qed

lemma append_neighbor_ok:
  assumes c: "allocator_contract (gr_allocator g) live" and lay: "graph_layout g" and v: "v < gr_vertex_capacity g"
    and f: "fresh_blocks live h0 (graph_addrs g) h" and cnt: "length (nbrs g v) < 2 ^ 31"
  obtains (failed) h' where "append_neighbor g v u h = Some (ZENIT_ERROR_ALLOC, g, h')" and "live h' = live h"
  | (added) b g' h' where "append_neighbor g v u h = Some (ZENIT_OK, g', h')" and "slot_step g v (Some b) (nbrs g v @ [u]) g'"
    and "fresh_blocks live h0 (b # rest_addrs g v) h'"
proof -
  note sl = graph_slot [OF lay v]
  let ?lst = "snd (gr_adj g) ! v" and ?n = "snd (gr_counts g) ! v" and ?c = "snd (gr_capacities g) ! v"
  note get = ar_get_ok [OF sl(1)] ar_get_ok [OF sl(2)] ar_get_ok [OF sl(3)]
  have n: "?n < 2 ^ 31" using cnt sl(8) by simp
  have add: "sz_add ?n 1 = ?n + 1" using n by (simp add: sz_add_nowrap size_mod_def)
  note own = slot_owned [OF f lay v]
  have push: "slot_step g v (Some b) (nbrs g v @ [u]) (set_slot g v (Some (b, xs[?n := u])) (?n + 1) c)"
    if "take ?n xs = nbrs g v" "?n < length xs" "slot_ok (Some (b, xs)) ?n c" for b xs c
  proof -
    have "take (?n + 1) (xs[?n := u]) = nbrs g v @ [u]"
      using that(1,2) by (simp add: One_nat_def take_Suc_conv_app_nth)
    then show ?thesis unfolding slot_step_def using that(2,3)
      by (intro exI [of _ "Some (b, xs[?n := u])"] exI [of _ "?n + 1"] exI [of _ c]) (simp add: slot_ok_def)
  qed
  show thesis
  proof (cases "?n = ?c")
    case True
    show thesis
    proof (cases rule: grow_adj_list_ok [OF c lay v f True n, case_names failed added])
      case (failed h')
      then show thesis using get True by (intro that(1) [of h']) (simp_all add: append_neighbor_def)
    next
      case (added b xs h')
      have pl: "length (plist ?lst) = ?n" using sl(5) True by simp
      let ?ys = "plist ?lst @ xs"
      have "append_neighbor g v u h = Some (ZENIT_OK, set_slot g v (Some (b, ?ys[?n := u])) (?n + 1) (?n + length xs), h')"
        using get True added(1,2) sl(1-3) add pl by (simp add: append_neighbor_def set_slot_def ar_get_def ar_put_def)
      moreover have "slot_step g v (Some b) (nbrs g v @ [u]) (set_slot g v (Some (b, ?ys[?n := u])) (?n + 1) (?n + length xs))"
        by (rule push) (use pl added(2,3,4) in \<open>simp_all add: nbrs_def slot_ok_def\<close>)
      ultimately show thesis using added(5) by (intro that(2))
    qed
  next
    case False
    then have lt: "?n < length (plist ?lst)" using sl(5,6) by simp
    then obtain p where p: "?lst = Some p" by (cases ?lst) auto
    have "append_neighbor g v u h = Some (ZENIT_OK, set_slot g v (Some (fst p, (snd p)[?n := u])) (?n + 1) ?c, h)"
      using get False sl(1-3) add lt p by (simp add: append_neighbor_def set_slot_def ar_put_def)
    moreover have "slot_step g v (Some (fst p)) (nbrs g v @ [u]) (set_slot g v (Some (fst p, (snd p)[?n := u])) (?n + 1) ?c)"
      by (rule push) (use p lt sl(5-9) in \<open>simp_all add: nbrs_def slot_ok_def\<close>)
    ultimately show thesis using own(1) p by (intro that(2) [of _ h "fst p"]) simp_all
  qed
qed

text \<open>Removing every occurrence of a vertex from one list.\<close>

lemma drop_vertex_absent:
  assumes "n \<le> length (snd p)" and "v \<notin> set (take n (snd p))"
  shows "drop_vertex d v p n e j = Some (p, n, e)"
  using assms
proof (induction d v p n e j rule: drop_vertex.induct)
  case (1 d v p n e j)
  show ?case
  proof (cases "j < n")
    case True
    then have get: "ar_get p j = Some (snd p ! j)" using 1(3) by (simp add: ar_get_ok)
    have "snd p ! j \<in> set (take n (snd p))" using True 1(3) by (auto simp: in_set_conv_nth intro!: exI [of _ j])
    then have "snd p ! j \<noteq> v" using 1(4) by auto
    then show ?thesis using 1(2) [OF True get] 1(3,4) True get by (subst drop_vertex.simps) simp
  next
    case False
    then show ?thesis by (subst drop_vertex.simps) simp
  qed
qed

lemma drop_vertex_ok:
  assumes "n \<le> length (snd p)" and "v \<notin> set (take j (snd p))" and "distinct (take n (snd p))"
  shows "\<exists>q. drop_vertex d v p n e j = Some (q, length (remove1 v (take n (snd p))),
      if d \<and> v \<in> set (take n (snd p)) then sz_sub e 1 else e) \<and>
    fst q = fst p \<and> length (snd q) = length (snd p) \<and> take (length (remove1 v (take n (snd p)))) (snd q) = remove1 v (take n (snd p))"
  using assms
proof (induction d v p n e j rule: drop_vertex.induct)
  case (1 d v p n e j)
  let ?xs = "snd p"
  show ?case
  proof (cases "j < n")
    case True
    then have j: "j < length ?xs" using 1(3) by simp
    note get = ar_get_ok [OF j]
    show ?thesis
    proof (cases "?xs ! j = v")
      case eq: True
      obtain q where q: "ar_close p j n = Some q" "fst q = fst p" "length (snd q) = length ?xs" "take (n - 1) (snd q) = remove1 v (take n ?xs)"
        by (rule ar_close_first [OF True 1(3) eq 1(4)])
      have v: "v \<in> set (take n ?xs)" using True eq j 1(3) by (auto simp: in_set_conv_nth intro!: exI [of _ j])
      have len: "length (remove1 v (take n ?xs)) = n - 1" using v 1(3) by (simp add: length_remove1)
      have "v \<notin> set (take (n - 1) (snd q))" using q(4) 1(5) by simp
      then have "drop_vertex d v q (n - 1) (if d then sz_sub e 1 else e) j = Some (q, n - 1, if d then sz_sub e 1 else e)"
        using 1(3) q(3) by (intro drop_vertex_absent) simp_all
      then show ?thesis using True eq get q v len by (subst drop_vertex.simps) simp
    next
      case ne: False
      have "v \<notin> set (take (j + 1) ?xs)" using 1(4) ne take_Suc_conv_app_nth [OF j] by (simp add: One_nat_def)
      then show ?thesis using 1(2) [OF True get ne 1(3) _ 1(5)] True get ne by (subst drop_vertex.simps) simp
    qed
  next
    case False
    then have "v \<notin> set (take n ?xs)" using 1(4) set_take_subset_set_take [of n j ?xs] by auto
    then show ?thesis using False 1(3) by (subst drop_vertex.simps) (simp add: remove1_idem)
  qed
qed

lemma remove_vertex_from_adj_ok:
  assumes lay: "graph_layout g" and v: "v < gr_vertex_capacity g" and d: "distinct (nbrs g v)"
  obtains g' where "remove_vertex_from_adj g v u =
      Some (g'\<lparr>gr_edge_count := (if gr_directed g \<and> u \<in> set (nbrs g v) then sz_sub (gr_edge_count g) 1 else gr_edge_count g)\<rparr>)"
    and "slot_step g v (map_option fst (snd (gr_adj g) ! v)) (remove1 u (nbrs g v)) g'"
proof -
  note sl = graph_slot [OF lay v]
  let ?lst = "snd (gr_adj g) ! v" and ?n = "snd (gr_counts g) ! v" and ?c = "snd (gr_capacities g) ! v"
  note get = ar_get_ok [OF sl(1)] ar_get_ok [OF sl(2)]
  show thesis
  proof (cases "?n = 0")
    case True
    then have nil: "nbrs g v = []" using sl(8) by simp
    have "slot_step g v (map_option fst ?lst) (nbrs g v) g"
      unfolding slot_step_def using set_slot_self [of g v] lay v
      by (intro exI [of _ ?lst] exI [of _ ?n] exI [of _ ?c]) (simp add: graph_layout_def nbrs_def)
    then show thesis using True get nil by (intro that [of g]) (simp_all add: remove_vertex_from_adj_def)
  next
    case False
    then obtain p where p: "?lst = Some p" using sl(6) by (cases ?lst) auto
    have nb: "nbrs g v = take ?n (snd p)" and le: "?n \<le> length (snd p)" using sl(6) by (simp_all add: nbrs_def p)
    obtain q where q: "drop_vertex (gr_directed g) u p ?n (gr_edge_count g) 0 = Some (q, length (remove1 u (nbrs g v)),
          if gr_directed g \<and> u \<in> set (nbrs g v) then sz_sub (gr_edge_count g) 1 else gr_edge_count g)"
        "fst q = fst p" "length (snd q) = length (snd p)" "take (length (remove1 u (nbrs g v))) (snd q) = remove1 u (nbrs g v)"
      using drop_vertex_ok [of ?n p u 0 "gr_directed g" "gr_edge_count g"] le d unfolding nb by auto
    let ?m = "length (remove1 u (nbrs g v))"
    have m: "?m \<le> ?n" using sl(8) by (simp add: length_remove1)
    define g' where "g' = set_slot g v (Some q) ?m ?c"
    have "remove_vertex_from_adj g v u =
        Some (g'\<lparr>gr_edge_count := (if gr_directed g \<and> u \<in> set (nbrs g v) then sz_sub (gr_edge_count g) 1 else gr_edge_count g)\<rparr>)"
      using get False p q(1) sl(1,2) by (simp add: remove_vertex_from_adj_def ar_put_ok g'_def set_slot_def)
    moreover have "slot_step g v (map_option fst ?lst) (remove1 u (nbrs g v)) g'"
      unfolding slot_step_def using q sl(5,6,7,9) m p
      by (intro exI [of _ "Some q"] exI [of _ ?m] exI [of _ ?c]) (simp add: g'_def slot_ok_def)
    ultimately show thesis by (intro that [of g'])
  qed
qed

end
