(* ===== verification/Zenit_Graph_Inv.thy ===== *)
theory Zenit_Graph_Inv
  imports Zenit_Graph_Ops
begin

text \<open>
  The graph of a handle: its set of vertices and its set of edges, the invariant of the representation, and what every operation of
  \<open>src/graph.c\<close> does to both.
\<close>

section \<open>Vertices and edges\<close>

definition gV :: "'h zenit_graph_t \<Rightarrow> nat set" where
  "gV g = {v. gact g v}"

definition gE :: "'h zenit_graph_t \<Rightarrow> (nat \<times> nat) set" where
  "gE g = {(u, v). gact g u \<and> int v \<in> set (nbrs g u)}"

definition graph_inv :: "'h zenit_graph_t \<Rightarrow> bool" where
  "graph_inv g \<longleftrightarrow> graph_layout g \<and>
    (\<forall>v. gact g v \<longrightarrow> distinct (nbrs g v) \<and> (\<forall>x \<in> set (nbrs g v). 0 \<le> x \<and> gact g (nat x))) \<and>
    (\<not> gr_directed g \<longrightarrow> sym (gE g)) \<and> gr_vertex_count g = card (gV g)"

definition edges_counted :: "bool \<Rightarrow> (nat \<times> nat) set \<Rightarrow> nat" where
  "edges_counted directed E = (if directed then card E else card {(u, v) \<in> E. u \<le> v})"

definition graph_ok :: "('h \<Rightarrow> nat set) \<Rightarrow> 'h \<Rightarrow> 'h zenit_graph_t \<Rightarrow> 'h \<Rightarrow> bool" where
  "graph_ok live h0 g h \<longleftrightarrow> allocator_contract (gr_allocator g) live \<and> graph_inv g \<and> fresh_blocks live h0 (graph_addrs g) h"

lemma gV_bound: "gV g \<subseteq> {..<gr_vertex_capacity g}"
  by (auto simp: gV_def gact_def)

lemma gV_finite [simp]: "finite (gV g)"
  by (rule finite_subset [OF gV_bound]) simp

lemma gE_sub:
  assumes "graph_inv g"
  shows "gE g \<subseteq> gV g \<times> gV g"
proof
  fix p assume "p \<in> gE g"
  then obtain u v where p: "p = (u, v)" "gact g u" "int v \<in> set (nbrs g u)" by (auto simp: gE_def)
  have "\<forall>x \<in> set (nbrs g u). 0 \<le> x \<and> gact g (nat x)" using assms p(2) by (simp add: graph_inv_def)
  then have "gact g (nat (int v))" using p(3) by blast
  then show "p \<in> gV g \<times> gV g" using p by (simp add: gV_def)
qed

lemma gE_finite: "graph_inv g \<Longrightarrow> finite (gE g)"
  by (rule finite_subset [OF gE_sub]) simp_all

lemma nbrs_edges:
  assumes "graph_inv g" and "gact g v"
  shows "set (nbrs g v) = int ` (gE g `` {v})" and "distinct (nbrs g v)" and "length (nbrs g v) = card (gE g `` {v})"
    and "length (nbrs g v) < 2 ^ 31"
proof -
  have x: "0 \<le> x \<and> gact g (nat x)" if "x \<in> set (nbrs g v)" for x using assms that by (auto simp: graph_inv_def)
  show eq: "set (nbrs g v) = int ` (gE g `` {v})"
  proof (intro set_eqI iffI)
    fix x assume "x \<in> set (nbrs g v)"
    then show "x \<in> int ` (gE g `` {v})" using x [of x] assms(2) by (intro image_eqI [of _ _ "nat x"]) (auto simp: gE_def)
  next
    fix x assume "x \<in> int ` (gE g `` {v})"
    then show "x \<in> set (nbrs g v)" by (auto simp: gE_def)
  qed
  show d: "distinct (nbrs g v)" using assms by (simp add: graph_inv_def)
  show len: "length (nbrs g v) = card (gE g `` {v})"
    using distinct_card [OF d] eq card_image [of int "gE g `` {v}"] by simp
  have "gE g `` {v} \<subseteq> {..<gr_vertex_capacity g}" using gE_sub [OF assms(1)] gV_bound [of g] by auto
  then have "card (gE g `` {v}) \<le> card {..<gr_vertex_capacity g}" by (intro card_mono) simp_all
  moreover have "gr_vertex_capacity g < 2 ^ 31" using assms(1) by (simp add: graph_inv_def graph_layout_def)
  ultimately show "length (nbrs g v) < 2 ^ 31" using len by simp
qed

lemma vertex_active_ok: "graph_layout g \<Longrightarrow> vertex_active g v = Some (0 \<le> v \<and> gact g (nat v))"
  using graph_slot(4) [of g "nat v"] by (auto simp: vertex_active_def gact_def ar_get_def)

lemma has_edge_ok:
  assumes inv: "graph_inv g"
  shows "zenit_graph_has_edge (Some g) u v = Some (0 \<le> u \<and> 0 \<le> v \<and> (nat u, nat v) \<in> gE g)"
proof -
  have lay: "graph_layout g" using inv by (simp add: graph_inv_def)
  note act = vertex_active_ok [OF lay]
  show ?thesis
  proof (cases "0 \<le> u \<and> gact g (nat u) \<and> 0 \<le> v \<and> gact g (nat v)")
    case True
    then have cap: "nat u < gr_vertex_capacity g" by (simp add: gact_def)
    note sl = graph_slot [OF lay cap]
    let ?lst = "snd (gr_adj g) ! nat u" and ?n = "snd (gr_counts g) ! nat u"
    obtain s where s: "scan_for ?lst ?n v 0 = Some s"
        "case s of None \<Rightarrow> v \<notin> set (take ?n (plist ?lst)) | Some j \<Rightarrow> j < ?n \<and> plist ?lst ! j = v \<and> v \<notin> set (take j (plist ?lst))"
      using scan_for_ok [of ?n ?lst 0 v] sl(6) by auto
    have "s \<noteq> None \<longleftrightarrow> v \<in> set (nbrs g (nat u))"
    proof (cases s)
      case None
      then show ?thesis using s(2) by (simp add: nbrs_def)
    next
      case (Some j)
      then have "j < ?n" "plist ?lst ! j = v" using s(2) by simp_all
      then have "v \<in> set (nbrs g (nat u))" using sl(6) by (auto simp: nbrs_def in_set_conv_nth intro!: exI [of _ j])
      then show ?thesis using Some by simp
    qed
    then show ?thesis using True s(1) act ar_get_ok [OF sl(1)] ar_get_ok [OF sl(2)]
      by (simp add: zenit_graph_has_edge_def gE_def)
  next
    case False
    moreover have "gact g (nat u) \<and> gact g (nat v)" if "(nat u, nat v) \<in> gE g" using gE_sub [OF inv] that by (auto simp: gV_def)
    ultimately show ?thesis using act by (auto simp: zenit_graph_has_edge_def)
  qed
qed

section \<open>Changing one list\<close>

lemma slot_step_edges:
  assumes st: "slot_step g v b ns g'" and lay: "graph_layout g" and v: "gact g v"
  shows "gV g' = gV g" and "gE g' = (gE g - {v} \<times> UNIV) \<union> {v} \<times> {w. int w \<in> set ns}"
  using slot_stepD(2,3) [OF st lay v] v by (auto simp: gV_def gE_def split: if_splits)

lemma slot_step_inv:
  assumes st: "slot_step g v b ns g'" and inv: "graph_inv g" and v: "gact g v" and d: "distinct ns"
    and ns: "\<And>x. x \<in> set ns \<Longrightarrow> 0 \<le> x \<and> gact g (nat x)" and s: "\<not> gr_directed g \<Longrightarrow> sym (gE g')"
  shows "graph_inv g'"
proof -
  have lay: "graph_layout g" using inv by (simp add: graph_inv_def)
  note D = slot_stepD [OF st lay v]
  have "distinct (nbrs g' w) \<and> (\<forall>x \<in> set (nbrs g' w). 0 \<le> x \<and> gact g' (nat x))" if "gact g' w" for w
    using that inv d ns unfolding D(2,3) by (auto simp: graph_inv_def)
  moreover have "gV g' = gV g" using D(3) by (simp add: gV_def)
  ultimately show ?thesis using D inv s by (simp add: graph_inv_def)
qed

lemma counted_insert:
  assumes "finite E" and "(u, v) \<notin> E"
  shows "edges_counted True (insert (u, v) E) = edges_counted True E + 1"
    and "sym E \<Longrightarrow> edges_counted False (insert (u, v) (insert (v, u) E)) = edges_counted False E + 1"
proof -
  show "edges_counted True (insert (u, v) E) = edges_counted True E + 1" using assms by (simp add: edges_counted_def)
  assume "sym E"
  then have n: "(v, u) \<notin> E" using assms(2) by (auto dest: symD)
  let ?S = "{(u, v) \<in> E. u \<le> v}"
  have fin: "finite ?S" using assms(1) by (rule rev_finite_subset) auto
  have "{(x, y) \<in> insert (u, v) (insert (v, u) E). x \<le> y} = insert (min u v, max u v) ?S" by (auto simp: min_def max_def)
  moreover have "(min u v, max u v) \<notin> ?S" using assms(2) n by (auto simp: min_def max_def)
  ultimately show "edges_counted False (insert (u, v) (insert (v, u) E)) = edges_counted False E + 1"
    using fin by (simp add: edges_counted_def)
qed

lemma counted_remove:
  assumes "finite E" and "(u, v) \<in> E"
  shows "edges_counted True (E - {(u, v)}) = edges_counted True E - 1" and "0 < edges_counted True E"
    and "sym E \<Longrightarrow> edges_counted False (E - {(u, v), (v, u)}) = edges_counted False E - 1" and "sym E \<Longrightarrow> 0 < edges_counted False E"
proof -
  show "edges_counted True (E - {(u, v)}) = edges_counted True E - 1" "0 < edges_counted True E"
    using assms by (auto simp: edges_counted_def card_gt_0_iff)
  assume "sym E"
  then have n: "(v, u) \<in> E" using assms(2) by (auto dest: symD)
  let ?S = "{(u, v) \<in> E. u \<le> v}"
  have fin: "finite ?S" using assms(1) by (rule rev_finite_subset) auto
  have "{(x, y) \<in> E - {(u, v), (v, u)}. x \<le> y} = ?S - {(min u v, max u v)}" by (auto simp: min_def max_def)
  moreover have "(min u v, max u v) \<in> ?S" using assms(2) n by (auto simp: min_def max_def)
  ultimately show "edges_counted False (E - {(u, v), (v, u)}) = edges_counted False E - 1" "0 < edges_counted False E"
    using fin by (auto simp: edges_counted_def card_gt_0_iff)
qed

end
