(* ===== verification/Zenit_Graph_Edges.thy ===== *)
theory Zenit_Graph_Edges
  imports Zenit_Graph_Inv
begin

text \<open>Adding and removing edges: what the two operations do to the set of edges, on every branch.\<close>

section \<open>The edge count is a field of its own\<close>

lemma ec_simps [simp]:
  "graph_layout (g\<lparr>gr_edge_count := e\<rparr>) = graph_layout g" "nbrs (g\<lparr>gr_edge_count := e\<rparr>) = nbrs g"
  "gact (g\<lparr>gr_edge_count := e\<rparr>) = gact g" "gV (g\<lparr>gr_edge_count := e\<rparr>) = gV g" "gE (g\<lparr>gr_edge_count := e\<rparr>) = gE g"
  "graph_addrs (g\<lparr>gr_edge_count := e\<rparr>) = graph_addrs g" "rest_addrs (g\<lparr>gr_edge_count := e\<rparr>) v = rest_addrs g v"
  "graph_inv (g\<lparr>gr_edge_count := e\<rparr>) = graph_inv g"
proof -
  show l: "graph_layout (g\<lparr>gr_edge_count := e\<rparr>) = graph_layout g" by (simp add: graph_layout_def)
  show n: "nbrs (g\<lparr>gr_edge_count := e\<rparr>) = nbrs g" by (simp add: nbrs_def fun_eq_iff)
  show a: "gact (g\<lparr>gr_edge_count := e\<rparr>) = gact g" by (simp add: gact_def fun_eq_iff)
  show v: "gV (g\<lparr>gr_edge_count := e\<rparr>) = gV g" by (simp add: gV_def a)
  show e: "gE (g\<lparr>gr_edge_count := e\<rparr>) = gE g" by (simp add: gE_def a n)
  show "graph_addrs (g\<lparr>gr_edge_count := e\<rparr>) = graph_addrs g" "rest_addrs (g\<lparr>gr_edge_count := e\<rparr>) v = rest_addrs g v"
    by (simp_all add: graph_addrs_def rest_addrs_def)
  show "graph_inv (g\<lparr>gr_edge_count := e\<rparr>) = graph_inv g" by (simp add: graph_inv_def l n a v e)
qed

lemma graph_inv_cong:
  assumes "graph_inv g" and "graph_layout g'" and "nbrs g' = nbrs g" and "gact g' = gact g"
    and "gr_directed g' = gr_directed g" and "gr_vertex_count g' = gr_vertex_count g"
  shows "graph_inv g'" and "gE g' = gE g" and "gV g' = gV g"
proof -
  show e: "gE g' = gE g" and v: "gV g' = gV g" using assms by (simp_all add: gE_def gV_def)
  show "graph_inv g'" using assms e v by (simp add: graph_inv_def)
qed

section \<open>Adding an edge\<close>

definition edges_add :: "bool \<Rightarrow> nat \<Rightarrow> nat \<Rightarrow> (nat \<times> nat) set \<Rightarrow> (nat \<times> nat) set" where
  "edges_add directed u v E = insert (u, v) (if directed then E else insert (v, u) E)"

definition edges_del :: "bool \<Rightarrow> nat \<Rightarrow> nat \<Rightarrow> (nat \<times> nat) set \<Rightarrow> (nat \<times> nat) set" where
  "edges_del directed u v E = E - (if directed then {(u, v)} else {(u, v), (v, u)})"

text \<open>What stays the same when edges change.\<close>

definition same_frame :: "'h zenit_graph_t \<Rightarrow> 'h zenit_graph_t \<Rightarrow> bool" where
  "same_frame g g' \<longleftrightarrow> gact g' = gact g \<and> gr_directed g' = gr_directed g \<and> gr_vertex_capacity g' = gr_vertex_capacity g \<and>
    gr_vertex_count g' = gr_vertex_count g \<and> gr_allocator g' = gr_allocator g"

lemma slot_step_frame: "slot_step g v b ns g' \<Longrightarrow> graph_layout g \<Longrightarrow> gact g v \<Longrightarrow> same_frame g (g'\<lparr>gr_edge_count := e\<rparr>)"
  by (simp add: same_frame_def slot_stepD)

lemma fresh_slot:
  assumes "slot_step g v (Some b) ns g'" and "graph_layout g" and "gact g v" and "fresh_blocks live h0 (b # rest_addrs g v) h"
  shows "fresh_blocks live h0 (graph_addrs g') h"
  using slot_stepD(4) [OF assms(1-3)] assms(4) fresh_blocks_mset [of "graph_addrs g'" "b # rest_addrs g v" live h0 h] by simp

text \<open>Both lists of a new undirected edge; when the second one cannot grow, the first is rolled back.\<close>

lemma add_both_ok:
  assumes ok: "graph_ok live h0 g h" and u: "gact g u" and v: "gact g v" and ne: "u \<noteq> v" and new: "(u, v) \<notin> gE g" and und: "\<not> gr_directed g"
    and st: "slot_step g u (Some b) (nbrs g u @ [int v]) g1" and fr: "fresh_blocks live h0 (graph_addrs g1) h1"
  obtains (failed) g2 h2 where "append_neighbor (g1\<lparr>gr_edge_count := e\<rparr>) v (int u) h1 = Some (ZENIT_ERROR_ALLOC, g1\<lparr>gr_edge_count := e\<rparr>, h2)"
    and "ar_get (gr_counts g1) u = Some (length (nbrs g u) + 1)" and "ar_put (gr_counts g1) u (length (nbrs g u)) = Some (gr_counts g2)"
    and "g2 = g1\<lparr>gr_counts := gr_counts g2\<rparr>" and "graph_ok live h0 g2 h2" and "gE g2 = gE g" and "same_frame g g2"
  | (added) g2 h2 where "append_neighbor (g1\<lparr>gr_edge_count := e\<rparr>) v (int u) h1 = Some (ZENIT_OK, g2, h2)"
    and "graph_ok live h0 g2 h2" and "gE g2 = edges_add False u v (gE g)" and "same_frame g g2" and "gr_edge_count g2 = e"
proof -
  have c: "allocator_contract (gr_allocator g) live" and inv: "graph_inv g" using ok by (simp_all add: graph_ok_def)
  have lay: "graph_layout g" and sy: "sym (gE g)" using inv und by (simp_all add: graph_inv_def)
  note D = slot_stepD [OF st lay u]
  note nv = nbrs_edges [OF inv v]
  let ?g = "g1\<lparr>gr_edge_count := e\<rparr>"
  have capv: "v < gr_vertex_capacity ?g" and capu: "u < gr_vertex_capacity g1" using u v D(6) by (simp_all add: gact_def)
  have nbv: "nbrs ?g v = nbrs g v" using D(2) ne by simp
  have c1: "allocator_contract (gr_allocator ?g) live" and l1: "graph_layout ?g" and f1: "fresh_blocks live h0 (graph_addrs ?g) h1"
    using c D(1,9) fr by simp_all
  have short: "length (nbrs ?g v) < 2 ^ 31" unfolding nbv by (rule nv(4))
  show thesis
  proof (cases rule: append_neighbor_ok [OF c1 l1 capv f1 short, of "int u", case_names failed added])
    case (failed h2)
    note sl = graph_slot [OF D(1) capu]
    have cu: "snd (gr_counts g1) ! u = length (nbrs g u) + 1" using sl(8) D(2) by simp
    define g2 where "g2 = set_slot g1 u (snd (gr_adj g1) ! u) (length (nbrs g u)) (snd (gr_capacities g1) ! u)"
    have g2: "g2 = g1\<lparr>gr_counts := (fst (gr_counts g1), (snd (gr_counts g1))[u := length (nbrs g u)])\<rparr>"
      by (simp add: g2_def set_slot_def)
    have act1: "gact g1 u" using u D(3) by simp
    have "take (length (nbrs g u)) (plist (snd (gr_adj g1) ! u)) = nbrs g u"
    proof -
      have a: "nbrs g1 u = take (length (nbrs g u) + 1) (plist (snd (gr_adj g1) ! u))" unfolding nbrs_def [of g1 u] cu ..
      have "nbrs g1 u = nbrs g u @ [int v]" using D(2) by simp
      then have "take (length (nbrs g u)) (nbrs g1 u) = nbrs g u" by simp
      then show ?thesis unfolding a take_take by (simp add: min_def)
    qed
    then have st2: "slot_step g1 u (map_option fst (snd (gr_adj g1) ! u)) (nbrs g u) g2"
      unfolding slot_step_def using sl(5-7,9) cu
      by (intro exI [of _ "snd (gr_adj g1) ! u"] exI [of _ "length (nbrs g u)"] exI [of _ "snd (gr_capacities g1) ! u"])
        (simp add: g2_def slot_ok_def)
    note D2 = slot_stepD [OF st2 D(1) act1]
    have "nbrs g2 = nbrs g" using D2(2) D(2) by simp
    note cg = graph_inv_cong [OF inv D2(1) this] 
    have gi: "graph_inv g2" "gE g2 = gE g" using cg D2(3,10,11) D(3,10,11) by simp_all
    have "mset (graph_addrs g2) = mset (graph_addrs g1)" by (rule slot_step_addrs [OF st2 D(1) act1])
    then have "fresh_blocks live h0 (graph_addrs g2) h1" using fr fresh_blocks_mset [of "graph_addrs g2" "graph_addrs g1" live h0 h1] by simp
    then have "fresh_blocks live h0 (graph_addrs g2) h2" using failed(2) by (simp add: fresh_blocks_def)
    then have "graph_ok live h0 g2 h2" using gi(1) c D2(9) D(9) by (simp add: graph_ok_def)
    moreover have "same_frame g g2" using D2 D by (simp add: same_frame_def)
    ultimately show thesis using failed(1) gi(2) sl(2) cu g2
      by (intro that(1) [of h2 g2]) (simp_all add: ar_get_ok ar_put_ok)
  next
    case (added b' g2 h2)
    have actv: "gact ?g v" using v D(3) by simp
    note D2 = slot_stepD [OF added(2) l1 actv]
    have nb2: "nbrs g2 = (nbrs g)(u := nbrs g u @ [int v], v := nbrs g v @ [int u])" using D2(2) D(2) ne nbv by simp
    have E2: "gE g2 = edges_add False u v (gE g)"
      using D2(3) D(3) nb2 u v ne by (auto simp: gE_def edges_add_def split: if_splits)
    have vu: "int v \<notin> set (nbrs g u)" "int u \<notin> set (nbrs g v)" using new sy u v by (auto simp: gE_def dest: symD)
    have "graph_inv g2"
    proof -
      have "distinct (nbrs g2 w) \<and> (\<forall>x \<in> set (nbrs g2 w). 0 \<le> x \<and> gact g2 (nat x))" if "gact g2 w" for w
        using that inv vu u v unfolding nb2 D2(3) ec_simps D(3) by (auto simp: graph_inv_def)
      moreover have "sym (gE g2)" unfolding E2 using sy by (auto simp: edges_add_def sym_def)
      moreover have "gV g2 = gV g" using D2(3) D(3) by (simp add: gV_def)
      ultimately show ?thesis using D2 D inv by (simp add: graph_inv_def)
    qed
    moreover have "fresh_blocks live h0 (graph_addrs g2) h2" by (rule fresh_slot [OF added(2) l1 actv added(3)])
    ultimately have "graph_ok live h0 g2 h2" using c D2(9) D(9) by (simp add: graph_ok_def)
    moreover have "same_frame g g2" "gr_edge_count g2 = e" using D2 D by (simp_all add: same_frame_def)
    ultimately show thesis using added(1) E2 by (intro that(2) [of g2 h2])
  qed
qed

lemma edges_add_same: "(u, v) \<in> E \<Longrightarrow> (\<not> d \<Longrightarrow> sym E) \<Longrightarrow> edges_add d u v E = E"
  by (auto simp: edges_add_def dest: symD)

lemma graph_ok_ec [simp]: "graph_ok live h0 (g\<lparr>gr_edge_count := e\<rparr>) h = graph_ok live h0 g h"
  by (simp add: graph_ok_def)

lemma same_frame_ec [simp]: "same_frame g (g'\<lparr>gr_edge_count := e\<rparr>) = same_frame g g'"
  by (simp add: same_frame_def)

text \<open>The first of the two lists, or the only one.\<close>

lemma add_first_ok:
  assumes ok: "graph_ok live h0 g h" and u: "gact g u" and v: "gact g v" and new: "(u, v) \<notin> gE g"
  obtains (failed) h1 where "append_neighbor g u (int v) h = Some (ZENIT_ERROR_ALLOC, g, h1)" and "graph_ok live h0 g h1"
  | (added) b g1 h1 where "append_neighbor g u (int v) h = Some (ZENIT_OK, g1, h1)" and "slot_step g u (Some b) (nbrs g u @ [int v]) g1"
    and "fresh_blocks live h0 (graph_addrs g1) h1" and "gr_edge_count g1 = gr_edge_count g" and "gr_directed g1 = gr_directed g"
    and "gr_directed g \<or> u = v \<Longrightarrow> graph_ok live h0 g1 h1 \<and> gE g1 = edges_add (gr_directed g) u v (gE g) \<and> same_frame g g1"
proof -
  have c: "allocator_contract (gr_allocator g) live" and inv: "graph_inv g" and fr: "fresh_blocks live h0 (graph_addrs g) h"
    using ok by (simp_all add: graph_ok_def)
  have lay: "graph_layout g" using inv by (simp add: graph_inv_def)
  have cap: "u < gr_vertex_capacity g" using u by (simp add: gact_def)
  note nu = nbrs_edges [OF inv u]
  show thesis
  proof (cases rule: append_neighbor_ok [OF c lay cap fr nu(4), of "int v", case_names failed added])
    case (failed h1)
    then show thesis using c inv fr by (intro that(1) [of h1]) (simp_all add: graph_ok_def fresh_blocks_def)
  next
    case (added b g1 h1)
    note D = slot_stepD [OF added(2) lay u]
    have fr1: "fresh_blocks live h0 (graph_addrs g1) h1" by (rule fresh_slot [OF added(2) lay u added(3)])
    have vn: "int v \<notin> set (nbrs g u)" using new u by (simp add: gE_def)
    have E: "gE g1 = insert (u, v) (gE g)" unfolding gE_def D(2,3) using u by (auto split: if_splits)
    have "graph_ok live h0 g1 h1 \<and> gE g1 = edges_add (gr_directed g) u v (gE g) \<and> same_frame g g1" if d: "gr_directed g \<or> u = v"
    proof -
      have "gE g1 = edges_add (gr_directed g) u v (gE g)" using E d by (auto simp: edges_add_def)
      moreover have "graph_inv g1"
      proof (rule slot_step_inv [OF added(2) inv u])
        show "distinct (nbrs g u @ [int v])" using nu(2) vn by simp
        show "0 \<le> x \<and> gact g (nat x)" if "x \<in> set (nbrs g u @ [int v])" for x using that v inv u by (auto simp: graph_inv_def)
        show "sym (gE g1)" if "\<not> gr_directed g" using that d inv E by (auto simp: graph_inv_def sym_def)
      qed
      moreover have "same_frame g g1" using D by (simp add: same_frame_def)
      ultimately show ?thesis using c fr1 D(9) by (simp add: graph_ok_def)
    qed
    then show thesis using added(1,2) fr1 D(10,12) by (intro that(2) [of g1 h1 b])
  qed
qed

definition add_edge_post :: "('h \<Rightarrow> nat set) \<Rightarrow> 'h \<Rightarrow> 'h zenit_graph_t \<Rightarrow> int \<Rightarrow> int \<Rightarrow> zenit_result_t \<Rightarrow> 'h zenit_graph_t \<Rightarrow> 'h \<Rightarrow> bool" where
  "add_edge_post live h0 g u v r g' h' \<longleftrightarrow> graph_ok live h0 g' h' \<and> same_frame g g' \<and>
    (let active = (0 \<le> u \<and> 0 \<le> v \<and> nat u \<in> gV g \<and> nat v \<in> gV g);
         E = edges_add (gr_directed g) (nat u) (nat v) (gE g)
     in (\<not> active \<and> r = ZENIT_ERROR_PARAM \<and> gE g' = gE g \<and> gr_edge_count g' = gr_edge_count g) \<or>
        (active \<and> r = ZENIT_OK \<and> gE g' = E \<and> gr_edge_count g' = (if E = gE g then gr_edge_count g else sz_add (gr_edge_count g) 1)) \<or>
        (active \<and> r = ZENIT_ERROR_ALLOC \<and> gE g' = gE g \<and> (gr_edge_count g < size_mod \<longrightarrow> gr_edge_count g' = gr_edge_count g)))"

lemma add_edge_ok:
  assumes ok: "graph_ok live h0 g h"
  shows "\<exists>r g' h'. zenit_graph_add_edge (Some g) u v h = Some (r, Some g', h') \<and> add_edge_post live h0 g u v r g' h'"
proof -
  have inv: "graph_inv g" using ok by (simp add: graph_ok_def)
  have lay: "graph_layout g" using inv by (simp add: graph_inv_def)
  note act = vertex_active_ok [OF lay]
  show ?thesis
  proof (cases "0 \<le> u \<and> 0 \<le> v \<and> nat u \<in> gV g \<and> nat v \<in> gV g")
    case False
    then show ?thesis using ok act by (auto simp: zenit_graph_add_edge_def add_edge_post_def same_frame_def gV_def)
  next
    case True
    then have a: "gact g (nat u)" "gact g (nat v)" "0 \<le> u" "0 \<le> v" by (simp_all add: gV_def)
    have va: "vertex_active g u = Some True" "vertex_active g v = Some True" using act a by simp_all
    have he: "zenit_graph_has_edge (Some g) u v = Some ((nat u, nat v) \<in> gE g)" using has_edge_ok [OF inv] a by simp
    show ?thesis
    proof (cases "(nat u, nat v) \<in> gE g")
      case old: True
      have "edges_add (gr_directed g) (nat u) (nat v) (gE g) = gE g" using old inv by (intro edges_add_same) (simp_all add: graph_inv_def)
      then show ?thesis using old ok True va he by (simp add: zenit_graph_add_edge_def add_edge_post_def same_frame_def)
    next
      case new: False
      then have ne: "edges_add (gr_directed g) (nat u) (nat v) (gE g) \<noteq> gE g" by (auto simp: edges_add_def)
      show ?thesis
      proof (cases rule: add_first_ok [OF ok a(1,2) new, case_names failed added])
        case (failed h1)
        then show ?thesis using ok True va he new a(4) by (simp add: zenit_graph_add_edge_def add_edge_post_def same_frame_def)
      next
        case (added b g1 h1)
        let ?e = "sz_add (gr_edge_count g) 1"
        show ?thesis
        proof (cases "gr_directed g \<or> u = v")
          case one: True
          then have "graph_ok live h0 g1 h1 \<and> gE g1 = edges_add (gr_directed g) (nat u) (nat v) (gE g) \<and> same_frame g g1" using added(6) by auto
          moreover have "zenit_graph_add_edge (Some g) u v h = Some (ZENIT_OK, Some (g1\<lparr>gr_edge_count := ?e\<rparr>), h1)"
            using added(1,4,5) one va he new a(4) by (auto simp: zenit_graph_add_edge_def Let_def)
          ultimately show ?thesis using True ne by (simp add: add_edge_post_def Let_def)
        next
          case two: False
          then have nuv: "nat u \<noteq> nat v" and und: "\<not> gr_directed g" using a(3,4) by auto
          show ?thesis
          proof (cases rule: add_both_ok [OF ok a(1,2) nuv new und added(2,3), of ?e, case_names failed added])
            case f: (failed g2 h2)
            have cnt: "sz_sub ?e 1 = gr_edge_count g" if "gr_edge_count g < size_mod"
              using that by (cases "gr_edge_count g + 1 = size_mod") (auto simp: sz_add_def sz_sub_def size_mod_def)
            have len: "sz_sub (length (nbrs g (nat u)) + 1) 1 = length (nbrs g (nat u))"
              using nbrs_edges(4) [OF inv a(1)] by (simp add: sz_sub_nowrap size_mod_def)
            have "zenit_graph_add_edge (Some g) u v h = Some (ZENIT_ERROR_ALLOC, Some (g2\<lparr>gr_edge_count := sz_sub ?e 1\<rparr>), h2)"
              using added(1,4,5) f(1-3) va he new a(3,4) two und len
              by (subst (asm) f(4)) (simp add: zenit_graph_add_edge_def Let_def, subst f(4), simp)
            then show ?thesis using f(5-7) True cnt und by (simp add: add_edge_post_def Let_def)
          next
            case g: (added g2 h2)
            then show ?thesis using added(1,4,5) va he new a(3,4) two und True ne
              by (simp add: zenit_graph_add_edge_def add_edge_post_def Let_def)
          qed
        qed
      qed
    qed
  qed
qed

section \<open>Removing an edge\<close>

lemma edges_del_absent: "(u, v) \<notin> E \<Longrightarrow> (\<not> d \<Longrightarrow> sym E) \<Longrightarrow> edges_del d u v E = E"
  by (auto simp: edges_del_def dest: symD)

definition del_edge_post :: "('h \<Rightarrow> nat set) \<Rightarrow> 'h \<Rightarrow> 'h zenit_graph_t \<Rightarrow> int \<Rightarrow> int \<Rightarrow> zenit_result_t \<Rightarrow> 'h zenit_graph_t \<Rightarrow> 'h \<Rightarrow> bool" where
  "del_edge_post live h0 g u v r g' h \<longleftrightarrow> graph_ok live h0 g' h \<and> same_frame g g' \<and>
    (let active = (0 \<le> u \<and> 0 \<le> v \<and> nat u \<in> gV g \<and> nat v \<in> gV g)
     in r = (if active then ZENIT_OK else ZENIT_ERROR_PARAM) \<and>
        gE g' = (if active then edges_del (gr_directed g) (nat u) (nat v) (gE g) else gE g) \<and>
        gr_edge_count g' = (if active \<and> (nat u, nat v) \<in> gE g then sz_sub (gr_edge_count g) 1 else gr_edge_count g))"

lemma remove1_edges:
  assumes inv: "graph_inv g" and u: "gact g u" and st: "slot_step g u b (remove1 (int v) (nbrs g u)) g'"
  shows "gE g' = gE g - {(u, v)}"
proof -
  have lay: "graph_layout g" using inv by (simp add: graph_inv_def)
  note D = slot_stepD [OF st lay u]
  have "set (remove1 (int v) (nbrs g u)) = set (nbrs g u) - {int v}" using nbrs_edges(2) [OF inv u] by simp
  then have m: "int y \<in> set (nbrs g' x) \<longleftrightarrow> int y \<in> set (nbrs g x) \<and> \<not> (x = u \<and> y = v)" for x y
    unfolding D(2) by (cases "x = u") simp_all
  show ?thesis unfolding gE_def D(3) m by blast
qed

lemma remove_both_ok:
  assumes ok: "graph_ok live h0 g h" and u: "gact g u" and v: "gact g v" and ne: "u \<noteq> v" and und: "\<not> gr_directed g"
    and st: "slot_step g u (map_option fst (snd (gr_adj g) ! u)) (remove1 (int v) (nbrs g u)) g1"
  obtains f g2 where "remove_neighbor (g1\<lparr>gr_edge_count := e\<rparr>) v (int u) = Some (f, g2)" and "graph_ok live h0 g2 h"
    and "gE g2 = edges_del False u v (gE g)" and "same_frame g g2" and "gr_edge_count g2 = e"
proof -
  have c: "allocator_contract (gr_allocator g) live" and inv: "graph_inv g" and fr: "fresh_blocks live h0 (graph_addrs g) h"
    using ok by (simp_all add: graph_ok_def)
  have lay: "graph_layout g" and sy: "sym (gE g)" using inv und by (simp_all add: graph_inv_def)
  note D = slot_stepD [OF st lay u]
  let ?g = "g1\<lparr>gr_edge_count := e\<rparr>"
  have capv: "v < gr_vertex_capacity ?g" using v D(6) by (simp add: gact_def)
  have l1: "graph_layout ?g" and actv: "gact ?g v" using D(1,3) v by simp_all
  obtain g2 where g2: "remove_neighbor ?g v (int u) = Some (int u \<in> set (nbrs ?g v), g2)"
      "slot_step ?g v (map_option fst (snd (gr_adj ?g) ! v)) (remove1 (int u) (nbrs ?g v)) g2"
    by (rule remove_neighbor_ok [OF l1 capv])
  note D2 = slot_stepD [OF g2(2) l1 actv]
  have nb2: "nbrs g2 = (nbrs g)(u := remove1 (int v) (nbrs g u), v := remove1 (int u) (nbrs g v))" using D2(2) D(2) ne by simp
  have sets: "set (remove1 (int v) (nbrs g u)) = set (nbrs g u) - {int v}" "set (remove1 (int u) (nbrs g v)) = set (nbrs g v) - {int u}"
    using nbrs_edges(2) [OF inv u] nbrs_edges(2) [OF inv v] by simp_all
  have E2: "gE g2 = edges_del False u v (gE g)"
  proof -
    have m: "int y \<in> set (nbrs g2 x) \<longleftrightarrow> int y \<in> set (nbrs g x) \<and> \<not> (x = u \<and> y = v) \<and> \<not> (x = v \<and> y = u)" for x y
      unfolding nb2 using sets ne by (cases "x = u"; cases "x = v") simp_all
    show ?thesis unfolding gE_def edges_del_def D2(3) ec_simps D(3) m by auto
  qed
  have "graph_inv g2"
  proof -
    have "distinct (nbrs g2 w) \<and> (\<forall>x \<in> set (nbrs g2 w). 0 \<le> x \<and> gact g2 (nat x))" if "gact g2 w" for w
      using that inv u v sets unfolding nb2 D2(3) ec_simps D(3) by (auto simp: graph_inv_def)
    moreover have "sym (gE g2)" unfolding E2 using sy by (auto simp: edges_del_def sym_def)
    moreover have "gV g2 = gV g" using D2(3) D(3) by (simp add: gV_def)
    ultimately show ?thesis using D2 D inv by (simp add: graph_inv_def)
  qed
  moreover have "mset (graph_addrs g2) = mset (graph_addrs g)"
    using slot_step_addrs [OF g2(2) l1 actv] slot_step_addrs [OF st lay u] by simp
  then have "fresh_blocks live h0 (graph_addrs g2) h" using fr fresh_blocks_mset [of "graph_addrs g2" "graph_addrs g" live h0 h] by simp
  ultimately have "graph_ok live h0 g2 h" using c D2(9) D(9) by (simp add: graph_ok_def)
  moreover have "same_frame g g2" "gr_edge_count g2 = e" using D2 D by (simp_all add: same_frame_def)
  ultimately show thesis using g2(1) E2 by (intro that [of _ g2])
qed

lemma remove_one_ok:
  assumes ok: "graph_ok live h0 g h" and u: "gact g u" and d: "gr_directed g \<or> u = v \<or> (u, v) \<notin> gE g"
    and st: "slot_step g u (map_option fst (snd (gr_adj g) ! u)) (remove1 (int v) (nbrs g u)) g1"
  shows "graph_ok live h0 g1 h \<and> gE g1 = edges_del (gr_directed g) u v (gE g) \<and> same_frame g g1"
proof -
  have c: "allocator_contract (gr_allocator g) live" and inv: "graph_inv g" and fr: "fresh_blocks live h0 (graph_addrs g) h"
    using ok by (simp_all add: graph_ok_def)
  have lay: "graph_layout g" using inv by (simp add: graph_inv_def)
  note D = slot_stepD [OF st lay u]
  have E: "gE g1 = gE g - {(u, v)}" by (rule remove1_edges [OF inv u st])
  have E': "gE g1 = edges_del (gr_directed g) u v (gE g)"
    using E d inv edges_del_absent [of u v "gE g" "gr_directed g"] by (auto simp: edges_del_def graph_inv_def)
  have "graph_inv g1"
  proof (rule slot_step_inv [OF st inv u])
    show "distinct (remove1 (int v) (nbrs g u))" using nbrs_edges(2) [OF inv u] by (rule distinct_remove1)
    show "0 \<le> x \<and> gact g (nat x)" if "x \<in> set (remove1 (int v) (nbrs g u))" for x
      using notin_set_remove1 [of x] that inv u by (auto simp: graph_inv_def)
    show "sym (gE g1)" if "\<not> gr_directed g" using that inv E' by (auto simp: edges_del_def graph_inv_def sym_def)
  qed
  moreover have "fresh_blocks live h0 (graph_addrs g1) h"
    using fr fresh_blocks_mset [OF slot_step_addrs [OF st lay u], of live h0 h] by simp
  ultimately show ?thesis using c D E' by (simp add: graph_ok_def same_frame_def)
qed

lemma remove_edge_ok:
  assumes ok: "graph_ok live h0 g h"
  shows "\<exists>r g'. zenit_graph_remove_edge (Some g) u v = Some (r, Some g') \<and> del_edge_post live h0 g u v r g' h"
proof -
  have inv: "graph_inv g" using ok by (simp add: graph_ok_def)
  have lay: "graph_layout g" using inv by (simp add: graph_inv_def)
  note act = vertex_active_ok [OF lay]
  show ?thesis
  proof (cases "0 \<le> u \<and> 0 \<le> v \<and> nat u \<in> gV g \<and> nat v \<in> gV g")
    case False
    then show ?thesis using ok act by (auto simp: zenit_graph_remove_edge_def del_edge_post_def same_frame_def gV_def)
  next
    case True
    then have a: "gact g (nat u)" "gact g (nat v)" "0 \<le> u" "0 \<le> v" by (simp_all add: gV_def)
    have va: "vertex_active g u = Some True" "vertex_active g v = Some True" using act a by simp_all
    have cap: "nat u < gr_vertex_capacity g" using a(1) by (simp add: gact_def)
    obtain g1 where "remove_neighbor g (nat u) (int (nat v)) = Some (int (nat v) \<in> set (nbrs g (nat u)), g1)"
        and st: "slot_step g (nat u) (map_option fst (snd (gr_adj g) ! nat u)) (remove1 (int (nat v)) (nbrs g (nat u))) g1"
      by (rule remove_neighbor_ok [OF lay cap])
    then have rn: "remove_neighbor g (nat u) v = Some ((nat u, nat v) \<in> gE g, g1)" using a by (simp add: gE_def)
    note D = slot_stepD [OF st lay a(1)]
    let ?e = "if (nat u, nat v) \<in> gE g then sz_sub (gr_edge_count g) 1 else gr_edge_count g"
    show ?thesis
    proof (cases "gr_directed g \<or> nat u = nat v \<or> (nat u, nat v) \<notin> gE g")
      case one: True
      have "zenit_graph_remove_edge (Some g) u v = Some (ZENIT_OK, Some (g1\<lparr>gr_edge_count := ?e\<rparr>))"
        using va rn one D(10,12) a(3,4) by (auto simp: zenit_graph_remove_edge_def Let_def nat_eq_iff)
      then show ?thesis using remove_one_ok [OF ok a(1) one st] True by (simp add: del_edge_post_def Let_def)
    next
      case two: False
      then have nuv: "nat u \<noteq> nat v" and und: "\<not> gr_directed g" by auto
      obtain f g2 where g2: "remove_neighbor (g1\<lparr>gr_edge_count := ?e\<rparr>) (nat v) (int (nat u)) = Some (f, g2)" "graph_ok live h0 g2 h"
          "gE g2 = edges_del False (nat u) (nat v) (gE g)" "same_frame g g2" "gr_edge_count g2 = ?e"
        by (rule remove_both_ok [OF ok a(1,2) nuv und st])
      have "zenit_graph_remove_edge (Some g) u v = Some (ZENIT_OK, Some g2)"
        using va rn two D(10,12) a(3,4) g2(1) by (auto simp: zenit_graph_remove_edge_def Let_def)
      then show ?thesis using g2(2-5) True und by (simp add: del_edge_post_def Let_def)
    qed
  qed
qed

end
