(* ===== verification/Zenit_Graph_Vertices.thy ===== *)
theory Zenit_Graph_Vertices
  imports Zenit_Graph_Edges
begin

text \<open>
  Adding and removing vertices, creating, clearing and destroying a graph: what each operation of \<open>src/graph.c\<close> does to the sets of
  vertices and edges, to the two counts and to the blocks of the graph.
\<close>

section \<open>Counts modulo the size of \<open>size_t\<close>\<close>

definition cnt :: "int \<Rightarrow> nat" where
  "cnt z = nat (z mod int size_mod)"

lemma int_cnt: "int (cnt z) = z mod int size_mod"
  by (simp add: cnt_def)

lemma cnt_less [simp]: "cnt z < size_mod"
proof -
  have "int (cnt z) < int size_mod" unfolding int_cnt by simp
  then show ?thesis by simp
qed

lemma cnt_small: "n < size_mod \<Longrightarrow> cnt (int n) = n"
  unfolding cnt_def zmod_int [symmetric] by simp

lemma sz_add_cnt: "sz_add (cnt z) n = cnt (z + int n)"
proof -
  have "int (sz_add (cnt z) n) = int (cnt (z + int n))"
    unfolding sz_add_def zmod_int of_nat_add int_cnt by (simp add: mod_simps)
  then show ?thesis by (simp only: of_nat_eq_iff)
qed

lemma sz_sub_cnt: "sz_sub (cnt z) n = cnt (z - int n)"
proof -
  have le: "n mod size_mod \<le> size_mod" by (simp add: order_less_imp_le)
  have "int (sz_sub (cnt z) n) = (z mod int size_mod + (int size_mod - int n mod int size_mod)) mod int size_mod"
    unfolding sz_sub_def zmod_int of_nat_add of_nat_diff [OF le] int_cnt ..
  also have "\<dots> = (z + (int size_mod - int n)) mod int size_mod" by (rule mod_add_cong [OF mod_mod_trivial mod_diff_right_eq])
  also have "\<dots> = (z - int n + int size_mod) mod int size_mod" by (simp add: algebra_simps)
  also have "\<dots> = int (cnt (z - int n))" unfolding int_cnt by simp
  finally show ?thesis by (simp only: of_nat_eq_iff)
qed

lemma int_of_size_small: "n < 2 ^ 31 \<Longrightarrow> int_of_size n = int n"
  by (simp add: int_of_size_def signed_of_nat signed_take_bit_int_eq_self)

section \<open>Removing a vertex\<close>

text \<open>The loop that takes a vertex out of every other list.\<close>

definition detached :: "nat \<Rightarrow> nat \<Rightarrow> int \<Rightarrow> 'h zenit_graph_t \<Rightarrow> 'h zenit_graph_t \<Rightarrow> bool" where
  "detached i n v g g' \<longleftrightarrow> graph_layout g' \<and> same_frame g g' \<and> gr_removed g' = gr_removed g \<and>
    mset (graph_addrs g') = mset (graph_addrs g) \<and>
    nbrs g' = (\<lambda>w. if i \<le> w \<and> w < n \<and> gact g w then remove1 v (nbrs g w) else nbrs g w)"

definition in_lists :: "nat \<Rightarrow> nat \<Rightarrow> int \<Rightarrow> 'h zenit_graph_t \<Rightarrow> nat set" where
  "in_lists i n v g = {w. i \<le> w \<and> w < n \<and> gact g w \<and> v \<in> set (nbrs g w)}"

lemma in_lists_finite [simp]: "finite (in_lists i n v g)"
  by (rule finite_subset [of _ "{..<n}"]) (auto simp: in_lists_def)

lemma in_lists_ec [simp]: "in_lists i n v (g\<lparr>gr_edge_count := e\<rparr>) = in_lists i n v g"
  unfolding in_lists_def ec_simps ..

lemma in_lists_step:
  assumes "i < n"
  shows "in_lists i n v g = (if gact g i \<and> v \<in> set (nbrs g i) then insert i (in_lists (i + 1) n v g) else in_lists (i + 1) n v g)"
  using assms by (auto simp: in_lists_def One_nat_def le_eq_less_or_eq Suc_le_eq)

lemma detach_loop_ok:
  assumes "graph_layout g" and "n = gr_vertex_capacity g" and "\<forall>w. gact g w \<longrightarrow> distinct (nbrs g w)" and "gr_edge_count g = cnt z"
  shows "\<exists>g'. detach_loop i n v g = Some g' \<and> detached i n v g g' \<and>
    gr_edge_count g' = cnt (z - (if gr_directed g then int (card (in_lists i n v g)) else 0))"
  using assms
proof (induction i n v g arbitrary: z rule: detach_loop.induct)
  case (1 i n v g)
  show ?case
  proof (cases "i < n")
    case False
    then have "in_lists i n v g = {}" by (auto simp: in_lists_def)
    moreover have "detached i n v g g" using False 1(2) by (auto simp: detached_def same_frame_def fun_eq_iff)
    ultimately show ?thesis using False 1(5) by (subst detach_loop.simps) simp
  next
    case True
    then have i: "i < gr_vertex_capacity g" using 1(3) by simp
    note get = ar_get_ok [OF graph_slot(4) [OF 1(2) i]]
    show ?thesis
    proof (cases "gact g i")
      case False
      then have rem: "snd (gr_removed g) ! i \<noteq> 0" using i by (simp add: gact_def)
      then have "\<exists>g'. detach_loop (i + 1) n v g = Some g' \<and> detached (i + 1) n v g g' \<and>
          gr_edge_count g' = cnt (z - (if gr_directed g then int (card (in_lists (i + 1) n v g)) else 0))"
        using 1(1) [OF True get _ 1(2-5)] by simp
      then obtain g' where g': "detach_loop (i + 1) n v g = Some g'" "detached (i + 1) n v g g'"
          "gr_edge_count g' = cnt (z - (if gr_directed g then int (card (in_lists (i + 1) n v g)) else 0))" by blast
      have "detached i n v g g'" using g'(2) False 
        by (auto simp: detached_def fun_eq_iff One_nat_def Suc_le_eq le_eq_less_or_eq)
      then show ?thesis using g'(1,3) True get rem False by (subst detach_loop.simps) (simp add: in_lists_step [OF True])
    next
      case act: True
      then have rem: "snd (gr_removed g) ! i = 0" by (simp add: gact_def)
      obtain g1 where g1: "remove_vertex_from_adj g i v =
            Some (g1\<lparr>gr_edge_count := (if gr_directed g \<and> v \<in> set (nbrs g i) then sz_sub (gr_edge_count g) 1 else gr_edge_count g)\<rparr>)"
          "slot_step g i (map_option fst (snd (gr_adj g) ! i)) (remove1 v (nbrs g i)) g1"
        by (rule remove_vertex_from_adj_ok [OF 1(2) i]) (use 1(4) act in blast)
      note D = slot_stepD [OF g1(2) 1(2) act]
      let ?g = "g1\<lparr>gr_edge_count := (if gr_directed g \<and> v \<in> set (nbrs g i) then sz_sub (gr_edge_count g) 1 else gr_edge_count g)\<rparr>"
      let ?z = "if gr_directed g \<and> v \<in> set (nbrs g i) then z - 1 else z"
      have z: "gr_edge_count ?g = cnt ?z" using 1(5) sz_sub_cnt [of z 1] by simp
      have dis: "\<forall>w. gact ?g w \<longrightarrow> distinct (nbrs ?g w)" using 1(4) act unfolding ec_simps D(2,3) by (simp add: distinct_remove1)
      have il: "in_lists (i + 1) n v ?g = in_lists (i + 1) n v g"
        unfolding in_lists_def ec_simps D(2,3) by (auto simp: One_nat_def)
      have lay: "graph_layout ?g" and cap: "n = gr_vertex_capacity ?g" using D(1,6) 1(3) by simp_all
      have "\<exists>g'. detach_loop (i + 1) n v ?g = Some g' \<and> detached (i + 1) n v ?g g' \<and>
          gr_edge_count g' = cnt (?z - (if gr_directed ?g then int (card (in_lists (i + 1) n v ?g)) else 0))"
        by (rule 1(1) [OF True get _ lay cap dis z]) (use rem g1(1) in simp)
      then obtain g' where g': "detach_loop (i + 1) n v ?g = Some g'" "detached (i + 1) n v ?g g'"
          "gr_edge_count g' = cnt (?z - (if gr_directed g then int (card (in_lists (i + 1) n v g)) else 0))"
        unfolding il using D(10) by auto
      have "detached i n v g g'"
      proof -
        have "nbrs g' = (\<lambda>w. if i \<le> w \<and> w < n \<and> gact g w then remove1 v (nbrs g w) else nbrs g w)"
        proof
          fix w
          have "nbrs g' w = (if i + 1 \<le> w \<and> w < n \<and> gact ?g w then remove1 v (nbrs ?g w) else nbrs ?g w)"
            using g'(2) by (simp add: detached_def)
          also have "\<dots> = (if i \<le> w \<and> w < n \<and> gact g w then remove1 v (nbrs g w) else nbrs g w)"
            using act True by (cases "w = i") (auto simp: D(2,3) One_nat_def)
          finally show "nbrs g' w = (if i \<le> w \<and> w < n \<and> gact g w then remove1 v (nbrs g w) else nbrs g w)" .
        qed
        moreover have "mset (graph_addrs g') = mset (graph_addrs g)"
          using g'(2) slot_step_addrs [OF g1(2) 1(2) act] by (simp add: detached_def)
        ultimately show ?thesis using g'(2) D by (simp add: detached_def same_frame_def)
      qed
      moreover have "i \<notin> in_lists (i + 1) n v g" by (simp add: in_lists_def)
      then have "gr_edge_count g' = cnt (z - (if gr_directed g then int (card (in_lists i n v g)) else 0))"
        unfolding g'(3) in_lists_step [OF True, of v g] using act by (auto simp: algebra_simps)
      moreover have "detach_loop i n v g = Some g'" using True get rem g1(1) g'(1) by (subst detach_loop.simps) simp
      ultimately show ?thesis by blast
    qed
  qed
qed


text \<open>The edges that touch a vertex, and how many the count loses with them.\<close>

definition touching :: "nat \<Rightarrow> (nat \<times> nat) set \<Rightarrow> (nat \<times> nat) set" where
  "touching v E = {(a, b) \<in> E. a = v \<or> b = v}"

lemma card_split: "finite A \<Longrightarrow> B \<subseteq> A \<Longrightarrow> card A = card (A - B) + card B"
  by (metis card_Diff_subset card_mono finite_subset le_add_diff_inverse2)

lemma counted_touching:
  assumes fin: "finite E"
  shows "edges_counted True E + (if (v, v) \<in> E then 1 else 0) = edges_counted True (E - touching v E) + card (E `` {v}) + card {w. (w, v) \<in> E}"
    and "sym E \<Longrightarrow> edges_counted False E = edges_counted False (E - touching v E) + card (E `` {v})"
proof -
  have ft: "finite (touching v E)" by (rule finite_subset [OF _ fin]) (auto simp: touching_def)
  let ?out = "{v} \<times> (E `` {v})" and ?in = "{w. (w, v) \<in> E} \<times> {v}"
  have t: "touching v E = ?out \<union> ?in" by (auto simp: touching_def)
  have fo: "finite ?out" "finite ?in" using ft unfolding t by simp_all
  have i: "?out \<inter> ?in = (if (v, v) \<in> E then {(v, v)} else {})" by auto
  have "card E = card (E - touching v E) + card (touching v E)"
    by (rule card_split [OF fin]) (auto simp: touching_def)
  moreover have "card ?out + card ?in = card (touching v E) + card (?out \<inter> ?in)" unfolding t by (rule card_Un_Int [OF fo])
  moreover have "card ?out = card (E `` {v})" "card ?in = card {w. (w, v) \<in> E}" by (simp_all add: card_cartesian_product)
  ultimately show "edges_counted True E + (if (v, v) \<in> E then 1 else 0) = edges_counted True (E - touching v E) + card (E `` {v}) + card {w. (w, v) \<in> E}"
    unfolding i by (cases "(v, v) \<in> E") (simp_all add: edges_counted_def)
  assume sy: "sym E"
  let ?S = "{(a, b) \<in> E. a \<le> b}" and ?T = "{(a, b) \<in> touching v E. a \<le> b}"
  have fs: "finite ?S" by (rule finite_subset [OF _ fin]) auto
  have "bij_betw (\<lambda>w. (min v w, max v w)) (E `` {v}) ?T"
  proof (rule bij_betw_imageI)
    show "inj_on (\<lambda>w. (min v w, max v w)) (E `` {v})" by (auto simp: inj_on_def min_def max_def split: if_splits)
    show "(\<lambda>w. (min v w, max v w)) ` (E `` {v}) = ?T"
    proof (intro set_eqI iffI)
      fix p assume "p \<in> (\<lambda>w. (min v w, max v w)) ` (E `` {v})"
      then show "p \<in> ?T" using sy by (auto simp: touching_def min_def max_def dest: symD split: if_splits)
    next
      fix p assume "p \<in> ?T"
      then obtain a b where p: "p = (a, b)" "(a, b) \<in> E" "a \<le> b" "a = v \<or> b = v" by (auto simp: touching_def)
      then show "p \<in> (\<lambda>w. (min v w, max v w)) ` (E `` {v})"
        using symD [OF sy p(2)] by (cases "a = v") (auto simp: min_def max_def intro!: image_eqI [of _ _ "if a = v then b else a"])
    qed
  qed
  then have "card (E `` {v}) = card ?T" by (rule bij_betw_same_card)
  moreover have "card ?S = card (?S - ?T) + card ?T"
    by (rule card_split [OF fs]) (auto simp: touching_def)
  moreover have "{(a, b) \<in> E - touching v E. a \<le> b} = ?S - ?T" by (auto simp: touching_def)
  ultimately show "edges_counted False E = edges_counted False (E - touching v E) + card (E `` {v})" by (simp add: edges_counted_def)
qed


text \<open>
  The edge count of a graph: exact, except that it has lost \<open>k\<close> by removing vertices with a loop from a directed graph.
\<close>

definition counted :: "nat \<Rightarrow> 'h zenit_graph_t \<Rightarrow> bool" where
  "counted k g \<longleftrightarrow> gr_edge_count g = cnt (int (edges_counted (gr_directed g) (gE g)) - int k)"

text \<open>Emptying the slot of a vertex and marking it.\<close>

definition bury :: "'h zenit_graph_t \<Rightarrow> nat \<Rightarrow> 'h zenit_graph_t" where
  "bury g v = (set_slot g v None 0 0)\<lparr>gr_removed := (fst (gr_removed g), (snd (gr_removed g))[v := 1]), gr_vertex_count := gr_vertex_count g - 1\<rparr>"

lemma bury_ok:
  assumes lay: "graph_layout g" and v: "v < gr_vertex_capacity g"
  shows "graph_layout (bury g v)" "gact (bury g v) = (\<lambda>w. gact g w \<and> w \<noteq> v)" "nbrs (bury g v) = (nbrs g)(v := [])"
    "mset (graph_addrs (bury g v)) = mset (rest_addrs g v)"
proof -
  note sl = graph_slot [OF lay v]
  have so: "slot_ok None 0 0" by (simp add: slot_ok_def)
  have l: "graph_layout (set_slot g v None 0 0)" by (rule set_slot_layout [OF lay v so]) simp
  have a: "snd (gr_adj (set_slot g v None 0 0)) ! v = None" using sl(1) by (simp add: set_slot_def)
  show "graph_layout (bury g v)" using l a sl(4) unfolding graph_layout_def bury_def
    by (auto simp: nth_list_update split: if_split_asm)
  show "gact (bury g v) = (\<lambda>w. gact g w \<and> w \<noteq> v)" using sl(4) by (auto simp: bury_def gact_def nth_list_update fun_eq_iff)
  have "nbrs (bury g v) = nbrs (set_slot g v None 0 0)" by (simp add: bury_def nbrs_def fun_eq_iff)
  then show "nbrs (bury g v) = (nbrs g)(v := [])" using set_slot_nbrs [OF lay v, of None 0 0] by simp
  have "graph_addrs (bury g v) = graph_addrs (set_slot g v None 0 0)" by (simp add: bury_def graph_addrs_def)
  then show "mset (graph_addrs (bury g v)) = mset (rest_addrs g v)" using set_slot_addrs [OF lay v, of None 0 0] by simp
qed

lemma bury_fields [simp]:
  "gr_allocator (bury g v) = gr_allocator g" "gr_directed (bury g v) = gr_directed g" "gr_vertex_count (bury g v) = gr_vertex_count g - 1"
  "gr_edge_count (bury g v) = gr_edge_count g" "gr_vertex_capacity (bury g v) = gr_vertex_capacity g"
  by (simp_all add: bury_def)

text \<open>The state after the loop and after emptying the slot.\<close>

lemma bury_detached:
  assumes inv: "graph_inv g" and v: "gact g v" and d: "detached 0 (gr_vertex_capacity g) (int v) g g1"
  shows "graph_inv (bury g1 v)" and "gV (bury g1 v) = gV g - {v}" and "gE (bury g1 v) = gE g - touching v (gE g)"
proof -
  have lay1: "graph_layout g1" and f: "same_frame g g1"
    and nb: "nbrs g1 = (\<lambda>w. if w < gr_vertex_capacity g \<and> gact g w then remove1 (int v) (nbrs g w) else nbrs g w)"
    using d by (simp_all add: detached_def)
  have v1: "v < gr_vertex_capacity g1" using v f by (simp add: gact_def same_frame_def)
  note B = bury_ok [OF lay1 v1]
  have act: "gact (bury g1 v) = (\<lambda>w. gact g w \<and> w \<noteq> v)" using B(2) f by (simp add: same_frame_def)
  have ng: "nbrs (bury g1 v) w = remove1 (int v) (nbrs g w)" if "gact g w" "w \<noteq> v" for w
    using that unfolding B(3) nb by (simp add: gact_def)
  have dis: "distinct (nbrs g w)" "\<And>x. x \<in> set (nbrs g w) \<Longrightarrow> 0 \<le> x \<and> gact g (nat x)" if "gact g w" for w
    using inv that by (auto simp: graph_inv_def)
  have sr: "set (remove1 (int v) (nbrs g w)) = set (nbrs g w) - {int v}" if "gact g w" for w using dis(1) [OF that] by simp
  show gv: "gV (bury g1 v) = gV g - {v}" unfolding gV_def act by auto
  show ge: "gE (bury g1 v) = gE g - touching v (gE g)"
  proof -
    have "(a, b) \<in> gE (bury g1 v) \<longleftrightarrow> (a, b) \<in> gE g \<and> a \<noteq> v \<and> b \<noteq> v" for a b
    proof (cases "gact g a \<and> a \<noteq> v")
      case True
      then show ?thesis by (simp add: gE_def act ng sr)
    next
      case False
      then show ?thesis by (auto simp: gE_def act)
    qed
    then show ?thesis by (auto simp: touching_def)
  qed
  have ok: "distinct (nbrs (bury g1 v) w) \<and> (\<forall>x \<in> set (nbrs (bury g1 v) w). 0 \<le> x \<and> gact (bury g1 v) (nat x))"
    if "gact (bury g1 v) w" for w
  proof -
    have w: "gact g w" "w \<noteq> v" using that by (simp_all add: act)
    then show ?thesis unfolding act ng [OF w] sr [OF w(1)] using dis [OF w(1)] by (auto simp: distinct_remove1)
  qed
  have "sym (gE (bury g1 v))" if "\<not> gr_directed g"
  proof (rule symI)
    fix a b assume "(a, b) \<in> gE (bury g1 v)"
    moreover have "sym (gE g)" using inv that by (simp add: graph_inv_def)
    ultimately show "(b, a) \<in> gE (bury g1 v)" unfolding ge by (auto simp: touching_def dest: symD)
  qed
  moreover have "gr_vertex_count g1 - 1 = card (gV (bury g1 v))"
  proof -
    have "v \<in> gV g" using v by (simp add: gV_def)
    then show ?thesis unfolding gv using inv f by (simp add: graph_inv_def same_frame_def)
  qed
  ultimately show "graph_inv (bury g1 v)" using B(1) ok f by (simp add: graph_inv_def same_frame_def)
qed

definition remove_vertex_post :: "('h \<Rightarrow> nat set) \<Rightarrow> 'h \<Rightarrow> 'h zenit_graph_t \<Rightarrow> int \<Rightarrow> zenit_result_t \<Rightarrow> 'h zenit_graph_t \<Rightarrow> 'h \<Rightarrow> nat \<Rightarrow> bool" where
  "remove_vertex_post live h0 g v r g' h' k \<longleftrightarrow> graph_ok live h0 g' h' \<and> gr_directed g' = gr_directed g \<and>
    gr_vertex_capacity g' = gr_vertex_capacity g \<and> gr_allocator g' = gr_allocator g \<and>
    (if 0 \<le> v \<and> nat v \<in> gV g
     then r = ZENIT_OK \<and> gV g' = gV g - {nat v} \<and> gE g' = gE g - touching (nat v) (gE g) \<and>
       counted (if gr_directed g \<and> (nat v, nat v) \<in> gE g then k + 1 else k) g'
     else r = ZENIT_ERROR_PARAM \<and> g' = g)"

lemma remove_vertex_ok:
  assumes ok: "graph_ok live h0 g h" and k: "counted k g"
  shows "\<exists>r g' h'. zenit_graph_remove_vertex (Some g) v h = Some (r, Some g', h') \<and> remove_vertex_post live h0 g v r g' h' k"
proof -
  have c: "allocator_contract (gr_allocator g) live" and inv: "graph_inv g" and fr: "fresh_blocks live h0 (graph_addrs g) h"
    using ok by (simp_all add: graph_ok_def)
  have lay: "graph_layout g" using inv by (simp add: graph_inv_def)
  note act = vertex_active_ok [OF lay]
  show ?thesis
  proof (cases "0 \<le> v \<and> nat v \<in> gV g")
    case False
    then show ?thesis using ok act by (auto simp: zenit_graph_remove_vertex_def remove_vertex_post_def gV_def)
  next
    case True
    then have a: "gact g (nat v)" "0 \<le> v" by (simp_all add: gV_def)
    define u where "u = nat v"
    then have v: "v = int u" and au: "gact g u" and cap: "u < gr_vertex_capacity g" using a by (simp_all add: gact_def)
    note sl = graph_slot [OF lay cap]
    let ?d = "gr_directed g" and ?n = "snd (gr_counts g) ! u"
    let ?g = "g\<lparr>gr_edge_count := sz_sub (gr_edge_count g) ?n\<rparr>"
    let ?z = "int (edges_counted ?d (gE g)) - int k - int ?n"
    have z: "gr_edge_count ?g = cnt ?z" using k sz_sub_cnt by (simp add: counted_def)
    have lg: "graph_layout ?g" "gr_vertex_capacity g = gr_vertex_capacity ?g" "\<forall>w. gact ?g w \<longrightarrow> distinct (nbrs ?g w)"
      using lay inv by (simp_all add: graph_inv_def)
    obtain g1 where g1: "detach_loop 0 (gr_vertex_capacity g) v ?g = Some g1" "detached 0 (gr_vertex_capacity g) v ?g g1"
        "gr_edge_count g1 = cnt (?z - (if ?d then int (card (in_lists 0 (gr_vertex_capacity g) v ?g)) else 0))"
      using detach_loop_ok [OF lg z, of 0 v] by auto
    have d1: "detached 0 (gr_vertex_capacity g) (int u) g g1" using g1(2) unfolding detached_def same_frame_def ec_simps v by simp
    have lay1: "graph_layout g1" and f1: "same_frame g g1" and ms: "mset (graph_addrs g1) = mset (graph_addrs g)"
      using d1 by (simp_all add: detached_def)
    have cap1: "u < gr_vertex_capacity g1" and a1: "gr_allocator g1 = gr_allocator g" and vc: "gr_vertex_count g1 = card (gV g)"
      using cap f1 inv by (simp_all add: same_frame_def graph_inv_def)
    note sl1 = graph_slot [OF lay1 cap1]
    let ?p = "snd (gr_adj g1) ! u"
    have fr1: "fresh_blocks live h0 (graph_addrs g1) h" using fr fresh_blocks_mset [OF ms, of live h0 h] by simp
    note own = slot_owned [OF fr1 lay1 cap1]
    obtain h1 where h1: "(if ?p \<noteq> None then free_fn (gr_allocator g1) (map_option fst ?p) h else Some h) = Some h1"
        "live h1 = live h - set_option (map_option fst ?p)"
    proof (cases ?p)
      case None
      then show thesis by (intro that [of h]) simp_all
    next
      case (Some q)
      then have "fst q \<in> live h" using own(2) by simp
      then obtain h' where "free_fn (gr_allocator g) (Some (fst q)) h = Some h'" "live h' = live h - {fst q}"
        by (rule allocator_contract.free_addr [OF c])
      then show thesis using Some a1 by (intro that [of h']) simp_all
    qed
    have fr2: "fresh_blocks live h0 (graph_addrs (bury g1 u)) h1"
    proof -
      have "fresh_blocks live h0 (rest_addrs g1 u) h1" using own(1) h1(2) by (cases ?p) (auto simp: fresh_blocks_def)
      then show ?thesis using fresh_blocks_mset [OF bury_ok(4) [OF lay1 cap1], of live h0 h1] by simp
    qed
    note B = bury_detached [OF inv au d1]
    have "u \<in> gV g" using au by (simp add: gV_def)
    then have "0 < card (gV g)" by (auto simp: card_gt_0_iff)
    moreover have "card (gV g) < size_mod"
      using card_mono [OF _ gV_bound [of g]] lay by (simp add: graph_layout_def size_mod_def)
    ultimately have vc1: "sz_sub (gr_vertex_count g1) 1 = gr_vertex_count g1 - 1" unfolding vc by (intro sz_sub_nowrap) simp_all
    have run: "zenit_graph_remove_vertex (Some g) v h = Some (ZENIT_OK, Some (bury g1 u), h1)"
    proof -
      have va: "vertex_active g v = Some True" using act a by simp
      have gc: "ar_get (gr_counts g) (nat v) = Some ?n" using ar_get_ok [OF sl(2)] by (simp add: u_def)
      have ga: "ar_get (gr_adj g1) (nat v) = Some ?p" using ar_get_ok [OF sl1(1)] by (simp add: u_def)
      show ?thesis unfolding zenit_graph_remove_vertex_def using va gc g1(1) ga h1(1) vc1 sl1(1-4)
        by (simp add: ar_put_ok u_def [symmetric] bury_def set_slot_def)
    qed
    have "counted (if ?d \<and> (u, u) \<in> gE g then k + 1 else k) (bury g1 u)"
    proof -
      have n: "?n = card (gE g `` {u})" using nbrs_edges(3) [OF inv au] sl(8) by simp
      have il: "in_lists 0 (gr_vertex_capacity g) v g = {w. (w, u) \<in> gE g}" by (auto simp: in_lists_def gE_def v gact_def)
      have sy: "\<not> ?d \<Longrightarrow> sym (gE g)" using inv by (simp add: graph_inv_def)
      note C = counted_touching [OF gE_finite [OF inv], of u]
      have "gr_edge_count g1 = cnt (int (edges_counted ?d (gE g - touching u (gE g))) - int (if ?d \<and> (u, u) \<in> gE g then k + 1 else k))"
        unfolding g1(3) in_lists_ec il n using C sy by (cases ?d) (auto intro!: arg_cong [of _ _ cnt])
      then show ?thesis using B(3) f1 by (simp add: counted_def same_frame_def)
    qed
    moreover have "graph_ok live h0 (bury g1 u) h1" using c B(1) fr2 a1 by (simp add: graph_ok_def)
    ultimately show ?thesis using run True B f1 by (simp add: remove_vertex_post_def u_def [symmetric] same_frame_def)
  qed
qed

end
