(* ===== verification/Zenit_Graph_Life.thy ===== *)
theory Zenit_Graph_Life
  imports Zenit_Graph_Vertices
begin

text \<open>
  Adding vertices, which reuses the first tombstone or grows the four vertex arrays, and the beginning and the end of a
  graph: \<open>zenit_graph_add_vertex\<close>, \<open>zenit_graph_create_with_allocator\<close>, \<open>zenit_graph_clear\<close>, \<open>zenit_graph_destroy\<close>.
\<close>

section \<open>Growing the vertex arrays\<close>

lemma graph_inv_ext:
  assumes inv: "graph_inv g" and lay: "graph_layout g'" and act: "gact g' = gact g" and nb: "\<And>v. gact g v \<Longrightarrow> nbrs g' v = nbrs g v"
    and d: "gr_directed g' = gr_directed g" and vc: "gr_vertex_count g' = gr_vertex_count g"
  shows "graph_inv g'" and "gE g' = gE g" and "gV g' = gV g"
proof -
  show v: "gV g' = gV g" using act by (simp add: gV_def)
  show e: "gE g' = gE g" unfolding gE_def act using nb by auto
  have "distinct (nbrs g' w) \<and> (\<forall>x \<in> set (nbrs g' w). 0 \<le> x \<and> gact g' (nat x))" if "gact g' w" for w
    using that inv nb [of w] unfolding act by (auto simp: graph_inv_def)
  then show "graph_inv g'" using inv lay d vc v e by (simp add: graph_inv_def)
qed

text \<open>Only entries at or above the capacity differ.\<close>

definition same_below :: "'h zenit_graph_t \<Rightarrow> 'h zenit_graph_t \<Rightarrow> bool" where
  "same_below g g' \<longleftrightarrow> gr_self g' = gr_self g \<and> gr_vertex_capacity g' = gr_vertex_capacity g \<and> gr_directed g' = gr_directed g \<and>
    gr_vertex_count g' = gr_vertex_count g \<and> gr_edge_count g' = gr_edge_count g \<and> gr_allocator g' = gr_allocator g \<and>
    (let c = gr_vertex_capacity g in
      take c (snd (gr_adj g')) = take c (snd (gr_adj g)) \<and> take c (snd (gr_counts g')) = take c (snd (gr_counts g)) \<and>
      take c (snd (gr_capacities g')) = take c (snd (gr_capacities g)) \<and> take c (snd (gr_removed g')) = take c (snd (gr_removed g)) \<and>
      length (snd (gr_adj g')) < 2 ^ 33 \<and> length (snd (gr_counts g')) < 2 ^ 33 \<and>
      length (snd (gr_capacities g')) < 2 ^ 33 \<and> length (snd (gr_removed g')) < 2 ^ 33)"

lemma take_eqD:
  assumes "take n xs = take n ys" and "n \<le> length ys"
  shows "n \<le> length xs" and "i < n \<Longrightarrow> xs ! i = ys ! i"
proof -
  have "length (take n xs) = length (take n ys)" using assms(1) by simp
  then show "n \<le> length xs" using assms(2) by simp
  show "i < n \<Longrightarrow> xs ! i = ys ! i" using assms(1) by (metis nth_take)
qed

lemma same_below_ok:
  assumes inv: "graph_inv g" and s: "same_below g g'"
  shows "graph_inv g'" and "gE g' = gE g" and "gV g' = gV g"
proof -
  have lay: "graph_layout g" using inv by (simp add: graph_inv_def)
  let ?c = "gr_vertex_capacity g"
  have len: "?c \<le> length (snd (gr_adj g))" "?c \<le> length (snd (gr_counts g))" "?c \<le> length (snd (gr_capacities g))" "?c \<le> length (snd (gr_removed g))"
    using lay by (simp_all add: graph_layout_def)
  have t: "take ?c (snd (gr_adj g')) = take ?c (snd (gr_adj g))" "take ?c (snd (gr_counts g')) = take ?c (snd (gr_counts g))"
    "take ?c (snd (gr_capacities g')) = take ?c (snd (gr_capacities g))" "take ?c (snd (gr_removed g')) = take ?c (snd (gr_removed g))"
    and cap: "gr_vertex_capacity g' = ?c" using s by (simp_all add: same_below_def Let_def)
  note e = take_eqD [OF t(1) len(1)] take_eqD [OF t(2) len(2)] take_eqD [OF t(3) len(3)] take_eqD [OF t(4) len(4)]
  have l': "graph_layout g'" using lay s e by (simp add: graph_layout_def same_below_def Let_def)
  have a: "gact g' = gact g" using cap e by (auto simp: gact_def fun_eq_iff)
  have n: "nbrs g' v = nbrs g v" if "gact g v" for v using that e by (simp add: nbrs_def gact_def)
  show "graph_inv g'" "gE g' = gE g" "gV g' = gV g"
    using graph_inv_ext [OF inv l' a n] s by (simp_all add: same_below_def)
qed

text \<open>The state after a successful growth.\<close>

definition grown_to :: "nat \<Rightarrow> 'h zenit_graph_t \<Rightarrow> 'h zenit_graph_t \<Rightarrow> bool" where
  "grown_to n g g' \<longleftrightarrow> gr_self g' = gr_self g \<and> gr_vertex_capacity g' = n \<and> gr_directed g' = gr_directed g \<and>
    gr_vertex_count g' = gr_vertex_count g \<and> gr_edge_count g' = gr_edge_count g \<and> gr_allocator g' = gr_allocator g \<and>
    (let c = gr_vertex_capacity g in
      snd (gr_adj g') = take c (snd (gr_adj g)) @ replicate (n - c) None \<and> snd (gr_counts g') = take c (snd (gr_counts g)) @ replicate (n - c) 0 \<and>
      snd (gr_capacities g') = take c (snd (gr_capacities g)) @ replicate (n - c) 0 \<and>
      snd (gr_removed g') = take c (snd (gr_removed g)) @ replicate (n - c) 1)"

lemma nth_extend: "c \<le> length xs \<Longrightarrow> v < n \<Longrightarrow> (take c xs @ replicate (n - c) y) ! v = (if v < c then xs ! v else y)"
  by (simp add: nth_append)

lemma grown_to_ok:
  assumes inv: "graph_inv g" and s: "grown_to n g g'" and n: "gr_vertex_capacity g < n" "n < 2 ^ 31"
  shows "graph_inv g'" and "gE g' = gE g" and "gV g' = gV g"
proof -
  have lay: "graph_layout g" using inv by (simp add: graph_inv_def)
  let ?c = "gr_vertex_capacity g"
  have len: "length (take ?c (snd (gr_adj g))) = ?c" "length (take ?c (snd (gr_counts g))) = ?c"
    "length (take ?c (snd (gr_capacities g))) = ?c" "length (take ?c (snd (gr_removed g))) = ?c"
    using lay by (simp_all add: graph_layout_def)
  have e: "snd (gr_adj g') = take ?c (snd (gr_adj g)) @ replicate (n - ?c) None" "snd (gr_counts g') = take ?c (snd (gr_counts g)) @ replicate (n - ?c) 0"
      "snd (gr_capacities g') = take ?c (snd (gr_capacities g)) @ replicate (n - ?c) 0"
      "snd (gr_removed g') = take ?c (snd (gr_removed g)) @ replicate (n - ?c) 1" and cap: "gr_vertex_capacity g' = n"
    using s by (simp_all add: grown_to_def Let_def)
  have ent: "snd (gr_adj g') ! v = (if v < ?c then snd (gr_adj g) ! v else None)" "snd (gr_counts g') ! v = (if v < ?c then snd (gr_counts g) ! v else 0)"
    "snd (gr_capacities g') ! v = (if v < ?c then snd (gr_capacities g) ! v else 0)" "snd (gr_removed g') ! v = (if v < ?c then snd (gr_removed g) ! v else 1)"
    if "v < n" for v using that lay unfolding e graph_layout_def by (simp_all add: nth_extend)
  have l': "graph_layout g'"
    using lay n len by (auto simp: graph_layout_def cap ent slot_ok_def) (simp_all add: e)
  have a: "gact g' = gact g" using n(1) ent(4) by (auto simp: gact_def cap fun_eq_iff split: if_split_asm)
  have nb: "nbrs g' v = nbrs g v" if "gact g v" for v using that n by (simp add: nbrs_def gact_def ent)
  show "graph_inv g'" "gE g' = gE g" "gV g' = gV g"
    using graph_inv_ext [OF inv l' a nb] s by (simp_all add: grown_to_def)
qed

lemma mark_tombstones_ok:
  "i \<le> n \<Longrightarrow> n \<le> length (snd p) \<Longrightarrow> mark_tombstones i n p = Some (fst p, take i (snd p) @ replicate (n - i) 1 @ drop n (snd p))"
proof (induction i n p rule: mark_tombstones.induct)
  case (1 i n p)
  show ?case
  proof (cases "i < n")
    case True
    then have i: "i < length (snd p)" using 1(3) by simp
    have "take (Suc i) ((snd p)[i := 1]) = take i (snd p) @ [1]" using i by (simp add: take_Suc_conv_app_nth)
    moreover have "n - i = Suc (n - Suc i)" using True by simp
    ultimately show ?thesis using 1(1) [OF True ar_put_ok [OF i]] 1(3) True i ar_put_ok [OF i, of 1]
      by (subst mark_tombstones.simps) (simp add: One_nat_def)
  next
    case False
    then show ?thesis using 1(2) by (subst mark_tombstones.simps) (simp add: prod_eq_iff)
  qed
qed

text \<open>Reallocating one of the arrays.\<close>

lemma regrow:
  assumes c: "allocator_contract a live" and f: "fresh_blocks live h0 (b # as) h" and es: "0 < es" "es \<le> 8"
    and l: "cap \<le> length xs" "length xs < 2 ^ 33" and n: "cap < new" "new < 2 ^ 33"
  obtains (failed) h' where "ar_realloc a es x (Some (b, xs)) cap new h = Some (None, h')" and "fresh_blocks live h0 (b # as) h'"
  | (made) b' h' where "ar_realloc a es x (Some (b, xs)) cap new h = Some (Some (b', take cap xs @ replicate (new - cap) x), h')"
    and "fresh_blocks live h0 (b' # as) h'"
proof -
  have own: "set_option (map_option fst (Some (b, xs))) \<subseteq> live h" using f by (auto simp: fresh_blocks_def)
  have m: "k * es < size_mod" if "k < 2 ^ 33" for k
  proof -
    have "k * es \<le> 2 ^ 33 * 8" using that es(2) by (intro mult_mono) simp_all
    then show ?thesis by (simp add: size_mod_def)
  qed
  have n0: "0 < new" using n(1) by simp
  have old: "cap \<le> length (plist (Some (b, xs)))" and fit: "length (plist (Some (b, xs))) * es < size_mod" using l m [OF l(2)] by simp_all
  have rs: "ar_resize new x (take cap (plist (Some (b, xs)))) = take cap xs @ replicate (new - cap) x"
    using l(1) n(1) ar_resize_grow [of "take cap xs" new x] by (simp add: min_absorb2)
  show thesis
  proof (cases rule: ar_realloc_ok [OF c own es(1) n0 m [OF n(2)] old fit, of x, case_names failed made])
    case (failed h')
    then show thesis using f by (intro that(1) [of h']) (simp_all add: fresh_blocks_def)
  next
    case (made b' h')
    have "fresh_blocks live h0 (b' # as) h'" by (rule fresh_blocks_replace [of live h0 "Some b" as h b' h']) (use f made(2,3) in simp_all)
    then show thesis using made(1) unfolding rs by (intro that(2) [of b' h'])
  qed
qed


lemma fresh_perm: "fresh_blocks live h0 as h \<Longrightarrow> mset bs = mset as \<Longrightarrow> fresh_blocks live h0 bs h"
  using fresh_blocks_mset [of bs as live h0 h] by simp

lemma same_below_graph_ok:
  assumes "graph_ok live h0 g h" and "same_below g g'" and "fresh_blocks live h0 (graph_addrs g') h'"
  shows "graph_ok live h0 g' h'"
  using assms same_below_ok(1) [of g g'] by (simp add: graph_ok_def same_below_def)

lemma grow_vertex_arrays_ok:
  assumes ok: "graph_ok live h0 g h" and cap: "1 < gr_vertex_capacity g" and new: "grow_capacity (gr_vertex_capacity g) < 2 ^ 31"
  obtains (failed) g' h' where "grow_vertex_arrays g h = Some (ZENIT_ERROR_ALLOC, g', h')" and "graph_ok live h0 g' h'" and "same_below g g'"
  | (grown) g' h' where "grow_vertex_arrays g h = Some (ZENIT_OK, g', h')" and "graph_ok live h0 g' h'"
    and "grown_to (grow_capacity (gr_vertex_capacity g)) g g'"
proof -
  have c: "allocator_contract (gr_allocator g) live" and inv: "graph_inv g" and fr: "fresh_blocks live h0 (graph_addrs g) h"
    using ok by (simp_all add: graph_ok_def)
  have lay: "graph_layout g" using inv by (simp add: graph_inv_def)
  let ?c = "gr_vertex_capacity g" and ?n = "grow_capacity (gr_vertex_capacity g)" and ?a = "gr_allocator g"
  obtain b1 xs where x: "gr_adj g = (b1, xs)" by (cases "gr_adj g")
  obtain b2 ys where y: "gr_counts g = (b2, ys)" by (cases "gr_counts g")
  obtain b3 zs where z: "gr_capacities g = (b3, zs)" by (cases "gr_capacities g")
  obtain b4 rs where r: "gr_removed g = (b4, rs)" by (cases "gr_removed g")
  have len: "?c \<le> length xs" "length xs < 2 ^ 33" "?c \<le> length ys" "length ys < 2 ^ 33" "?c \<le> length zs" "length zs < 2 ^ 33"
      "?c \<le> length rs" "length rs < 2 ^ 33" and c31: "?c < 2 ^ 31"
    using lay x y z r by (simp_all add: graph_layout_def)
  have n: "?c < ?n" "?n < 2 ^ 33" using grow_capacity_ok(2) [of ?c] cap c31 new by simp_all
  have sub: "sz_sub ?n ?c = ?n - ?c" using n by (intro sz_sub_nowrap) (simp_all add: size_mod_def)
  let ?L = "list_addrs (take ?c xs)" and ?xs = "take ?c xs @ replicate (?n - ?c) None" and ?ys = "take ?c ys @ replicate (?n - ?c) 0"
    and ?zs = "take ?c zs @ replicate (?n - ?c) 0" and ?rs = "take ?c rs @ replicate (?n - ?c) 0"
  have lens: "length ?xs = ?n" "length ?ys = ?n" "length ?zs = ?n" "length ?rs = ?n" using len n by simp_all
  have f: "fresh_blocks live h0 (b1 # b2 # b3 # b4 # gr_self g # ?L) h"
    by (rule fresh_perm [OF fr]) (simp add: graph_addrs_def x y z r)
  note es = sizeof_ptr_def sizeof_size_def sizeof_int_def
  have e1: "0 < sizeof_ptr" "sizeof_ptr \<le> 8" "0 < sizeof_size" "sizeof_size \<le> 8" "0 < sizeof_int" "sizeof_int \<le> 8" by (simp_all add: es)
  show thesis
  proof (cases rule: regrow [OF c f e1(1,2) len(1,2) n, of None, case_names failed made])
    case (failed h1)
    have "fresh_blocks live h0 (graph_addrs g) h1" by (rule fresh_perm [OF failed(2)]) (simp add: graph_addrs_def x y z r)
    then have "graph_ok live h0 g h1" using ok by (simp add: graph_ok_def)
    moreover have "same_below g g" using lay by (simp add: same_below_def graph_layout_def Let_def)
    ultimately show thesis using failed(1) by (intro that(1) [of g h1]) (simp_all add: grow_vertex_arrays_def Let_def x)
  next
    case adj: (made d1 h1)
    have f1: "fresh_blocks live h0 (b2 # d1 # b3 # b4 # gr_self g # ?L) h1" by (rule fresh_perm [OF adj(2)]) simp
    let ?g1 = "g\<lparr>gr_adj := (d1, ?xs)\<rparr>"
    have sb1: "same_below g ?g1" using len n lens by (simp add: same_below_def x y z r Let_def)
    show thesis
    proof (cases rule: regrow [OF c f1 e1(3,4) len(3,4) n, of 0, case_names failed made])
      case (failed h2)
      have "fresh_blocks live h0 (graph_addrs ?g1) h2" by (rule fresh_perm [OF failed(2)]) (use len in \<open>simp add: graph_addrs_def y z r\<close>)
      then have "graph_ok live h0 ?g1 h2" by (rule same_below_graph_ok [OF ok sb1])
      then show thesis using adj(1) failed(1) sb1 by (intro that(1) [of ?g1 h2]) (simp_all add: grow_vertex_arrays_def Let_def x y)
    next
      case cts: (made d2 h2)
      have f2: "fresh_blocks live h0 (b3 # d2 # d1 # b4 # gr_self g # ?L) h2" by (rule fresh_perm [OF cts(2)]) simp
      let ?g2 = "?g1\<lparr>gr_counts := (d2, ?ys)\<rparr>"
      have sb2: "same_below g ?g2" using len n lens by (simp add: same_below_def x y z r Let_def)
      show thesis
      proof (cases rule: regrow [OF c f2 e1(3,4) len(5,6) n, of 0, case_names failed made])
        case (failed h3)
        have "fresh_blocks live h0 (graph_addrs ?g2) h3" by (rule fresh_perm [OF failed(2)]) (use len in \<open>simp add: graph_addrs_def y z r\<close>)
        then have "graph_ok live h0 ?g2 h3" by (rule same_below_graph_ok [OF ok sb2])
        then show thesis using adj(1) cts(1) failed(1) sb2 by (intro that(1) [of ?g2 h3]) (simp_all add: grow_vertex_arrays_def Let_def x y z)
      next
        case caps: (made d3 h3)
        have f3: "fresh_blocks live h0 (b4 # d3 # d2 # d1 # gr_self g # ?L) h3" by (rule fresh_perm [OF caps(2)]) simp
        let ?g3 = "?g2\<lparr>gr_capacities := (d3, ?zs)\<rparr>"
        have sb3: "same_below g ?g3" using len n lens by (simp add: same_below_def x y z r Let_def)
        show thesis
        proof (cases rule: regrow [OF c f3 e1(5,6) len(7,8) n, of 0, case_names failed made])
          case (failed h4)
          have "fresh_blocks live h0 (graph_addrs ?g3) h4" by (rule fresh_perm [OF failed(2)]) (use len in \<open>simp add: graph_addrs_def y z r\<close>)
          then have "graph_ok live h0 ?g3 h4" by (rule same_below_graph_ok [OF ok sb3])
          then show thesis using adj(1) cts(1) caps(1) failed(1) sb3 by (intro that(1) [of ?g3 h4]) (simp_all add: grow_vertex_arrays_def Let_def x y z r)
        next
          case rem: (made d4 h4)
          let ?rs1 = "take ?c rs @ replicate (?n - ?c) 1"
          have mt: "mark_tombstones ?c ?n (d4, ?rs) = Some (d4, ?rs1)"
            using mark_tombstones_ok [of ?c ?n "(d4, ?rs)"] n lens len by simp
          let ?g4 = "?g3\<lparr>gr_removed := (d4, ?rs1), gr_vertex_capacity := ?n\<rparr>"
          have gt: "grown_to ?n g ?g4" by (simp add: grown_to_def Let_def x y z r)
          have "list_addrs (take ?n ?xs) = ?L" using lens(1) n(1) by (simp add: list_addrs_def addr_list_def min_absorb2)
          then have "mset (graph_addrs ?g4) = mset (d4 # d3 # d2 # d1 # gr_self g # ?L)" by (simp add: graph_addrs_def)
          then have "fresh_blocks live h0 (graph_addrs ?g4) h4" by (rule fresh_perm [OF rem(2)])
          then have "graph_ok live h0 ?g4 h4" using c grown_to_ok(1) [OF inv gt n(1) new] by (simp add: graph_ok_def)
          moreover have "grow_vertex_arrays g h = Some (ZENIT_OK, ?g4, h4)"
            using adj(1) cts(1) caps(1) rem(1) mt sub lens len n by (simp add: grow_vertex_arrays_def Let_def ar_fill_def x y z r)
          ultimately show thesis using gt by (intro that(2) [of ?g4 h4])
        qed
      qed
    qed
  qed
qed


section \<open>Adding a vertex\<close>

lemma first_tombstone_ok:
  assumes "n \<le> length (snd rem)" and "n < 2 ^ 31" and "i \<le> n" and "\<And>j. j < i \<Longrightarrow> snd rem ! j = 0"
  shows "(\<exists>j < n. first_tombstone rem i n = Some (int j) \<and> snd rem ! j \<noteq> 0 \<and> (\<forall>k < j. snd rem ! k = 0)) \<or>
    (first_tombstone rem i n = Some (- 1) \<and> (\<forall>k < n. snd rem ! k = 0))"
  using assms
proof (induction rem i n rule: first_tombstone.induct)
  case (1 rem i n)
  show ?case
  proof (cases "i < n")
    case True
    then have get: "ar_get rem i = Some (snd rem ! i)" using 1(2) by (simp add: ar_get_ok)
    show ?thesis
    proof (cases "snd rem ! i = 0")
      case zero: True
      have "\<And>j. j < i + 1 \<Longrightarrow> snd rem ! j = 0" using 1(5) zero by (auto simp: One_nat_def less_Suc_eq)
      then show ?thesis using 1(1) [OF True get] 1(2,3) zero True get by (subst (1 2) first_tombstone.simps) (simp add: One_nat_def)
    next
      case False
      then show ?thesis using 1(3,5) True get int_of_size_small [of i] by (subst (1 2) first_tombstone.simps) auto
    qed
  next
    case False
    then show ?thesis using 1(4,5) by (subst (1 2) first_tombstone.simps) auto
  qed
qed

lemma activate_ok:
  assumes ok: "graph_ok live h0 g h" and j: "j < gr_vertex_capacity g" and na: "\<not> gact g j"
  obtains g' where "activate g (int j) h = Some (ZENIT_OK, Some g', h)" and "graph_ok live h0 g' h" and "gV g' = insert j (gV g)"
    and "gE g' = gE g" and "gr_edge_count g' = gr_edge_count g" and "gr_directed g' = gr_directed g"
    and "gr_vertex_capacity g' = gr_vertex_capacity g" and "gr_allocator g' = gr_allocator g"
proof -
  have inv: "graph_inv g" using ok by (simp add: graph_ok_def)
  have lay: "graph_layout g" using inv by (simp add: graph_inv_def)
  note sl = graph_slot [OF lay j]
  have none: "snd (gr_adj g) ! j = None" using na j lay by (simp add: graph_layout_def gact_def)
  let ?rem = "(fst (gr_removed g), (snd (gr_removed g))[j := 0])"
  define g' where "g' = g\<lparr>gr_removed := ?rem, gr_vertex_count := gr_vertex_count g + 1\<rparr>"
  have jV: "j \<notin> gV g" using na by (simp add: gV_def)
  have "card (gV g) \<le> gr_vertex_capacity g" using card_mono [OF _ gV_bound [of g]] by simp
  then have "gr_vertex_count g + 1 < size_mod" using inv lay by (simp add: graph_inv_def graph_layout_def size_mod_def)
  then have run: "activate g (int j) h = Some (ZENIT_OK, Some g', h)"
    using sl(4) by (simp add: activate_def ar_put_ok g'_def sz_add_nowrap)
  have l': "graph_layout g'" using lay none sl(4) unfolding graph_layout_def g'_def by (auto simp: nth_list_update split: if_split_asm)
  have act: "gact g' v \<longleftrightarrow> gact g v \<or> v = j" for v using sl(4) j by (auto simp: gact_def g'_def nth_list_update)
  have nb: "nbrs g' = nbrs g" by (simp add: nbrs_def g'_def fun_eq_iff)
  have nj: "nbrs g j = []" using none by (simp add: nbrs_def)
  have gv: "gV g' = insert j (gV g)" by (auto simp: gV_def act)
  have ge: "gE g' = gE g" unfolding gE_def act nb using nj by auto
  have "distinct (nbrs g' w) \<and> (\<forall>x \<in> set (nbrs g' w). 0 \<le> x \<and> gact g' (nat x))" if "gact g' w" for w
    using that inv nj unfolding act nb by (auto simp: graph_inv_def)
  moreover have "gr_vertex_count g' = card (gV g')" using inv jV by (simp add: gv graph_inv_def) (simp add: g'_def)
  moreover have "gr_directed g' = gr_directed g" by (simp add: g'_def)
  ultimately have "graph_inv g'" using l' inv ge by (simp add: graph_inv_def)
  moreover have "graph_addrs g' = graph_addrs g" by (simp add: graph_addrs_def g'_def)
  ultimately have "graph_ok live h0 g' h" using ok by (simp add: graph_ok_def g'_def)
  then show thesis using run gv ge by (intro that [of g']) (simp_all add: g'_def)
qed

definition add_vertex_post :: "('h \<Rightarrow> nat set) \<Rightarrow> 'h \<Rightarrow> 'h zenit_graph_t \<Rightarrow> zenit_result_t \<Rightarrow> 'h zenit_graph_t \<Rightarrow> 'h \<Rightarrow> bool" where
  "add_vertex_post live h0 g r g' h' \<longleftrightarrow> graph_ok live h0 g' h' \<and> gr_directed g' = gr_directed g \<and> gr_allocator g' = gr_allocator g \<and>
    gE g' = gE g \<and> gr_edge_count g' = gr_edge_count g \<and>
    (r = ZENIT_OK \<and> gV g' = insert (LEAST v. v \<notin> gV g) (gV g) \<or> r = ZENIT_ERROR_ALLOC \<and> gV g' = gV g) \<and>
    (gr_vertex_capacity g' = gr_vertex_capacity g \<or>
     card (gV g) = gr_vertex_capacity g \<and> gr_vertex_capacity g' = grow_capacity (gr_vertex_capacity g))"

lemma add_vertex_ok:
  assumes ok: "graph_ok live h0 g h" and cap: "1 < gr_vertex_capacity g"
    and new: "card (gV g) = gr_vertex_capacity g \<Longrightarrow> grow_capacity (gr_vertex_capacity g) < 2 ^ 31"
  shows "\<exists>r g' h'. zenit_graph_add_vertex (Some g) h = Some (r, Some g', h') \<and> add_vertex_post live h0 g r g' h'"
proof -
  have inv: "graph_inv g" using ok by (simp add: graph_ok_def)
  have lay: "graph_layout g" using inv by (simp add: graph_inv_def)
  let ?c = "gr_vertex_capacity g"
  have len: "?c \<le> length (snd (gr_removed g))" "?c < 2 ^ 31" using lay by (simp_all add: graph_layout_def)
  consider (found) j where "j < ?c" "first_tombstone (gr_removed g) 0 ?c = Some (int j)" "snd (gr_removed g) ! j \<noteq> 0"
      "\<forall>k < j. snd (gr_removed g) ! k = 0"
    | (full) "first_tombstone (gr_removed g) 0 ?c = Some (- 1)" "\<forall>k < ?c. snd (gr_removed g) ! k = 0"
    using first_tombstone_ok [OF len, of 0] by auto
  then show ?thesis
  proof cases
    case found
    have na: "\<not> gact g j" using found(3) by (simp add: gact_def)
    have least: "(LEAST v. v \<notin> gV g) = j"
    proof (rule Least_equality)
      show "j \<notin> gV g" using na by (simp add: gV_def)
      show "j \<le> v" if "v \<notin> gV g" for v using that found(1,4) by (auto simp: gV_def gact_def not_less [symmetric])
    qed
    obtain g' where g': "activate g (int j) h = Some (ZENIT_OK, Some g', h)" "graph_ok live h0 g' h" "gV g' = insert j (gV g)"
        "gE g' = gE g" "gr_edge_count g' = gr_edge_count g" "gr_directed g' = gr_directed g" "gr_vertex_capacity g' = ?c" "gr_allocator g' = gr_allocator g"
      by (rule activate_ok [OF ok found(1) na])
    then show ?thesis using found(2) least by (simp add: zenit_graph_add_vertex_def add_vertex_post_def)
  next
    case full
    have V: "gV g = {..<?c}" using full(2) by (auto simp: gV_def gact_def)
    have card: "card (gV g) = ?c" by (simp add: V)
    have least: "(LEAST v. v \<notin> gV g) = ?c" unfolding V by (rule Least_equality) simp_all
    have n: "?c < grow_capacity ?c" using grow_capacity_ok(2) [of ?c] cap len(2) by simp
    show ?thesis
    proof (cases rule: grow_vertex_arrays_ok [OF ok cap new [OF card], case_names failed grown])
      case (failed g1 h1)
      note S = same_below_ok [OF inv failed(3)]
      show ?thesis using failed S full(1) by (simp add: zenit_graph_add_vertex_def add_vertex_post_def same_below_def)
    next
      case (grown g1 h1)
      note G = grown_to_ok [OF inv grown(3) n new [OF card]]
      have f: "gr_vertex_capacity g1 = grow_capacity ?c" "gr_vertex_count g1 = ?c" "gr_directed g1 = gr_directed g"
          "gr_edge_count g1 = gr_edge_count g" "gr_allocator g1 = gr_allocator g"
        using grown(3) inv card by (simp_all add: grown_to_def graph_inv_def)
      have j: "?c < gr_vertex_capacity g1" using f(1) n by simp
      have na: "\<not> gact g1 ?c" using G(3) V by (auto simp: gV_def)
      obtain g' where g': "activate g1 (int ?c) h1 = Some (ZENIT_OK, Some g', h1)" "graph_ok live h0 g' h1" "gV g' = insert ?c (gV g1)"
          "gE g' = gE g1" "gr_edge_count g' = gr_edge_count g1" "gr_directed g' = gr_directed g1"
          "gr_vertex_capacity g' = gr_vertex_capacity g1" "gr_allocator g' = gr_allocator g1"
        by (rule activate_ok [OF grown(2) j na])
      then show ?thesis using full(1) grown(1) G f least card int_of_size_small [OF len(2)]
        by (simp add: zenit_graph_add_vertex_def add_vertex_post_def)
    qed
  qed
qed


section \<open>Creating a graph\<close>

lemma ar_calloc_ok:
  assumes c: "allocator_contract a live" and es: "0 < es" and n: "n * es < size_mod"
  obtains q h' where "ar_calloc a n es x h = Some (q, h')" and "fresh_blocks live h (opt_list (map_option fst q)) h'"
    and "\<And>p. q = Some p \<Longrightarrow> snd p = replicate n x"
proof (cases rule: allocator_contract.alloc_zero_cases [OF c, of n es h, case_names null block])
  case (null h')
  then show thesis by (intro that [of None h']) (simp_all add: ar_calloc_def fresh_blocks_Nil)
next
  case (block b h')
  moreover have "sz_mul n es div es = n" using n es by (simp add: sz_mul_nowrap)
  ultimately show thesis
    by (intro that [of "Some (maddr b, replicate n x)" h']) (auto simp: ar_calloc_def intro: fresh_blocks_one)
qed

definition new_graph :: "nat \<Rightarrow> bool \<Rightarrow> 'h zenit_allocator_t \<Rightarrow> 'h zenit_graph_t \<Rightarrow> bool" where
  "new_graph cap directed a g \<longleftrightarrow> gV g = {} \<and> gE g = {} \<and> gr_edge_count g = 0 \<and> gr_directed g = directed \<and>
    gr_vertex_capacity g = cap \<and> gr_allocator g = a"

lemma create_ok:
  assumes c: "allocator_contract a live" and cap: "cap < 2 ^ 31"
  shows "\<exists>r h'. zenit_graph_create_with_allocator cap directed a h = Some (r, h') \<and>
    (case r of None \<Rightarrow> live h' = live h | Some g \<Rightarrow> graph_ok live h g h' \<and> new_graph (if cap = 0 then 8 else cap) directed a g)"
proof (cases rule: allocator_contract.alloc_cases [OF c, of sizeof_graph h, case_names null block])
  case (null h1)
  then show ?thesis by (simp add: zenit_graph_create_with_allocator_def)
next
  case (block b h1)
  let ?c = "if cap = 0 then 8 else cap"
  have es: "0 < sizeof_ptr" "0 < sizeof_size" "0 < sizeof_int" by (simp_all add: sizeof_ptr_def sizeof_size_def sizeof_int_def)
  have c0: "0 < ?c" "?c < 2 ^ 31" using cap by simp_all
  have m: "?c * sizeof_ptr < size_mod" "?c * sizeof_size < size_mod" "?c * sizeof_int < size_mod"
    using cap by (simp_all add: sizeof_ptr_def sizeof_size_def sizeof_int_def size_mod_def)
  obtain q1 h2 where q1: "ar_calloc a ?c sizeof_ptr (None :: int arr option) h1 = Some (q1, h2)" "fresh_blocks live h1 (opt_list (map_option fst q1)) h2"
      "\<And>p. q1 = Some p \<Longrightarrow> snd p = replicate ?c None" by (rule ar_calloc_ok [OF c es(1) m(1), where x = None and h = h1]) blast
  obtain q2 h3 where q2: "ar_calloc a ?c sizeof_size 0 h2 = Some (q2, h3)" "fresh_blocks live h2 (opt_list (map_option fst q2)) h3"
      "\<And>p. q2 = Some p \<Longrightarrow> snd p = replicate ?c (0::nat)" by (rule ar_calloc_ok [OF c es(2) m(2), where x = 0 and h = h2]) blast
  obtain q3 h4 where q3: "ar_calloc a ?c sizeof_size 0 h3 = Some (q3, h4)" "fresh_blocks live h3 (opt_list (map_option fst q3)) h4"
      "\<And>p. q3 = Some p \<Longrightarrow> snd p = replicate ?c (0::nat)" by (rule ar_calloc_ok [OF c es(2) m(2), where x = 0 and h = h3]) blast
  obtain q4 h5 where q4: "ar_calloc a ?c sizeof_int 0 h4 = Some (q4, h5)" "fresh_blocks live h4 (opt_list (map_option fst q4)) h5"
      "\<And>p. q4 = Some p \<Longrightarrow> snd p = replicate ?c (0::int)" by (rule ar_calloc_ok [OF c es(3) m(3), where x = 0 and h = h4]) blast
  have "fresh_blocks live h [maddr b] h1" using block(3,4) by (rule fresh_blocks_one)
  note fr = fresh_blocks_trans [OF fresh_blocks_trans [OF fresh_blocks_trans [OF fresh_blocks_trans [OF this q1(2)] q2(2)] q3(2)] q4(2)]
  let ?ps = "[map_option fst q1, map_option fst q2, map_option fst q3, map_option fst q4]"
  have f: "fresh_blocks live h (maddr b # addr_list ?ps) h5" using fr by simp
  have unf: "zenit_graph_create_with_allocator cap directed a h =
     (case (q1, q2, q3, q4) of
            (Some adj', Some cts', Some caps', Some rem') \<Rightarrow> do {
              rem'' \<leftarrow> ar_fill rem' 0 ?c 16843009;
              Some (Some \<lparr>gr_self = maddr b, gr_adj = adj', gr_counts = cts', gr_capacities = caps', gr_vertex_count = 0,
                gr_vertex_capacity = ?c, gr_edge_count = 0, gr_directed = directed, gr_removed = rem'', gr_allocator = a\<rparr>, h5)
            }
          | _ \<Rightarrow> do { h6 \<leftarrow> free_all a ?ps h5; h10 \<leftarrow> free_fn a (Some (maddr b)) h6; Some (None, h10) })"
    unfolding zenit_graph_create_with_allocator_def Let_def ZENIT_GRAPH_DEFAULT_CAP_def block(1)
    using q1(1) q2(1) q3(1) q4(1) by (auto split: option.splits)
  show ?thesis
  proof (cases "q1 = None \<or> q2 = None \<or> q3 = None \<or> q4 = None")
    case True
    obtain h6 h7 where h: "free_all a ?ps h5 = Some h6" "free_fn a (Some (maddr b)) h6 = Some h7" "live h7 = live h"
      by (rule free_fresh [OF c f])
    have "zenit_graph_create_with_allocator cap directed a h = Some (None, h7)"
      unfolding unf h(1) using True h(2) by (auto split: option.splits)
    then show ?thesis using h(3) by simp
  next
    case False
    then obtain p1 p2 p3 p4 where p: "q1 = Some p1" "q2 = Some p2" "q3 = Some p3" "q4 = Some p4" by auto
    have s: "snd p1 = replicate ?c None" "snd p2 = replicate ?c 0" "snd p3 = replicate ?c 0" "snd p4 = replicate ?c 0"
      using q1(3) [OF p(1)] q2(3) [OF p(2)] q3(3) [OF p(3)] q4(3) [OF p(4)] .
    define g where "g = \<lparr>gr_self = maddr b, gr_adj = p1, gr_counts = p2, gr_capacities = p3, gr_vertex_count = 0,
      gr_vertex_capacity = ?c, gr_edge_count = 0, gr_directed = directed, gr_removed = (fst p4, replicate ?c 16843009), gr_allocator = a\<rparr>"
    have "ar_fill p4 0 ?c 16843009 = Some (fst p4, replicate ?c 16843009)" using s(4) by (simp add: ar_fill_def)
    then have run: "zenit_graph_create_with_allocator cap directed a h = Some (Some g, h5)" unfolding unf p g_def by simp
    have na: "\<not> gact g v" for v by (simp add: gact_def g_def)
    then have V: "gV g = {}" and E: "gE g = {}" by (simp_all add: gV_def gE_def)
    have "graph_layout g" using s c0 by (simp add: graph_layout_def g_def slot_ok_def)
    then have "graph_inv g" using na V E by (simp add: graph_inv_def sym_def) (simp add: g_def)
    moreover have "mset (graph_addrs g) = mset (maddr b # addr_list ?ps)"
      using s(1) p by (simp add: graph_addrs_def g_def list_addrs_def addr_list_def)
    then have "fresh_blocks live h (graph_addrs g) h5" by (rule fresh_perm [OF f])
    ultimately have "graph_ok live h g h5" using c by (simp add: graph_ok_def g_def)
    moreover have "new_graph ?c directed a g" using V E by (simp add: new_graph_def) (simp add: g_def)
    ultimately show ?thesis using run by simp
  qed
qed

section \<open>Clearing and destroying a graph\<close>

lemma free_lists_all:
  assumes c: "allocator_contract a live" and "n \<le> length (snd adj)"
  shows "free_lists a i n adj h = free_all a (map (map_option fst) (drop i (take n (snd adj)))) h"
  using assms
proof (induction a i n adj h rule: free_lists.induct)
  case (1 a i n adj h)
  show ?case
  proof (cases "i < n")
    case True
    then have i: "i < length (take n (snd adj))" using 1(3) by simp
    note get = ar_get_ok [of i adj]
    have d: "drop i (take n (snd adj)) = snd adj ! i # drop (i + 1) (take n (snd adj))"
      using Cons_nth_drop_Suc [OF i] True by (simp add: One_nat_def)
    have "free_lists a (i + 1) n adj h' = free_all a (map (map_option fst) (drop (i + 1) (take n (snd adj)))) h'"
      if "(if snd adj ! i \<noteq> None then free_fn a (map_option fst (snd adj ! i)) h else Some h) = Some h'" for h'
      using 1(1) [OF True get that 1(2,3)] i by simp
    then show ?thesis using True get i allocator_contract.free_null [OF 1(2), of h] unfolding d
      by (subst free_lists.simps) (cases "snd adj ! i"; auto split: bind_splits)
  next
    case False
    then show ?thesis by (subst free_lists.simps) simp
  qed
qed


lemma destroy_ok:
  assumes ok: "graph_ok live h0 g h"
  shows "\<exists>h'. zenit_graph_destroy (Some g) h = Some h' \<and> live h' = live h0"
proof -
  have c: "allocator_contract (gr_allocator g) live" and fr: "fresh_blocks live h0 (graph_addrs g) h" and inv: "graph_inv g"
    using ok by (simp_all add: graph_ok_def)
  have len: "gr_vertex_capacity g \<le> length (snd (gr_adj g))" using inv by (simp add: graph_inv_def graph_layout_def)
  let ?ls = "map (map_option fst) (take (gr_vertex_capacity g) (snd (gr_adj g)))"
  let ?ps = "?ls @ map Some [fst (gr_adj g), fst (gr_counts g), fst (gr_capacities g), fst (gr_removed g), gr_self g]"
  have "mset (addr_list ?ps) = mset (graph_addrs g)" by (simp add: graph_addrs_def list_addrs_def)
  then obtain h' where "free_all (gr_allocator g) ?ps h = Some h'" "live h' = live h0" by (rule free_list_fresh [OF c fr])
  moreover have "zenit_graph_destroy (Some g) h = free_all (gr_allocator g) ?ps h"
    by (simp add: zenit_graph_destroy_def free_all_append free_all_eta Let_def free_lists_all [OF c len])
  ultimately show ?thesis by simp
qed

lemma clear_slots_ok:
  assumes "allocator_contract (gr_allocator g) live" and "graph_layout g" and "fresh_blocks live h0 (graph_addrs g) h"
    and "n = gr_vertex_capacity g"
  shows "\<exists>g' h'. clear_slots i n g h = Some (g', h') \<and> graph_layout g' \<and> fresh_blocks live h0 (graph_addrs g') h' \<and>
    gr_vertex_capacity g' = gr_vertex_capacity g \<and> gr_directed g' = gr_directed g \<and> gr_allocator g' = gr_allocator g \<and>
    (\<forall>v. gact g' v \<longrightarrow> gact g v \<and> \<not> (i \<le> v \<and> v < n))"
  using assms
proof (induction i n g h rule: clear_slots.induct)
  case (1 i n g h)
  show ?case
  proof (cases "i < n")
    case True
    then have i: "i < gr_vertex_capacity g" using 1(5) by simp
    note sl = graph_slot [OF 1(3) i] and own = slot_owned [OF 1(4) 1(3) i]
    let ?p = "snd (gr_adj g) ! i"
    obtain h1 where h1: "(if ?p \<noteq> None then free_fn (gr_allocator g) (map_option fst ?p) h else Some h) = Some h1"
        "live h1 = live h - set_option (map_option fst ?p)"
    proof (cases ?p)
      case None
      then show thesis by (intro that [of h]) simp_all
    next
      case (Some q)
      then have "fst q \<in> live h" using own(2) by simp
      then obtain h' where "free_fn (gr_allocator g) (Some (fst q)) h = Some h'" "live h' = live h - {fst q}"
        by (rule allocator_contract.free_addr [OF 1(2)])
      then show thesis using Some by (intro that [of h']) simp_all
    qed
    define g1 where "g1 = g\<lparr>gr_adj := (fst (gr_adj g), (snd (gr_adj g))[i := None]), gr_counts := (fst (gr_counts g), (snd (gr_counts g))[i := 0]),
      gr_capacities := (fst (gr_capacities g), (snd (gr_capacities g))[i := 0]), gr_removed := (fst (gr_removed g), (snd (gr_removed g))[i := 1])\<rparr>"
    have b: "bury g i = g1\<lparr>gr_vertex_count := gr_vertex_count g - 1\<rparr>" by (simp add: bury_def g1_def set_slot_def)
    note B = bury_ok [OF 1(3) i]
    have lay1: "graph_layout g1" using B(1) unfolding b by (simp add: graph_layout_def)
    have act1: "gact g1 v \<longleftrightarrow> gact g v \<and> v \<noteq> i" for v using fun_cong [OF B(2), of v] unfolding b by (simp add: gact_def)
    have "fresh_blocks live h0 (rest_addrs g i) h1" using own(1) h1(2) by (cases ?p) (auto simp: fresh_blocks_def)
    then have fr1: "fresh_blocks live h0 (graph_addrs g1) h1"
      by (rule fresh_perm) (use B(4) in \<open>simp add: b graph_addrs_def\<close>)
    have f1: "gr_vertex_capacity g1 = gr_vertex_capacity g" "gr_directed g1 = gr_directed g" "gr_allocator g1 = gr_allocator g"
      by (simp_all add: g1_def)
    have put: "ar_get (gr_adj g) i = Some ?p" "ar_put (gr_adj g) i None = Some (gr_adj g1)" "ar_put (gr_counts g) i 0 = Some (gr_counts g1)"
        "ar_put (gr_capacities g) i 0 = Some (gr_capacities g1)" "ar_put (gr_removed g) i 1 = Some (gr_removed g1)"
      using sl(1-4) by (simp_all add: ar_put_ok ar_get_ok g1_def)
    have g1: "g\<lparr>gr_adj := gr_adj g1, gr_counts := gr_counts g1, gr_capacities := gr_capacities g1, gr_removed := gr_removed g1\<rparr> = g1"
      by (simp add: g1_def)
    have c1: "allocator_contract (gr_allocator g1) live" "n = gr_vertex_capacity g1" using 1(2,5) f1 by simp_all
    obtain g2 h2 where g2: "clear_slots (i + 1) n g1 h1 = Some (g2, h2)" "graph_layout g2" "fresh_blocks live h0 (graph_addrs g2) h2"
        "gr_vertex_capacity g2 = gr_vertex_capacity g1" "gr_directed g2 = gr_directed g1" "gr_allocator g2 = gr_allocator g1"
        "\<forall>v. gact g2 v \<longrightarrow> gact g1 v \<and> \<not> (i + 1 \<le> v \<and> v < n)"
      using 1(1) [OF True put(1) h1(1) put(2-5)] c1 lay1 fr1 unfolding g1 by blast
    have run: "clear_slots i n g h = Some (g2, h2)" using True put h1(1) g2(1) g1 by (subst clear_slots.simps) simp
    have "gact g v \<and> \<not> (i \<le> v \<and> v < n)" if "gact g2 v" for v using g2(7) that act1 [of v] by (auto simp: One_nat_def Suc_le_eq)
    then show ?thesis using run g2(2-6) f1 by auto
  next
    case False
    then show ?thesis using 1(2-5) by (subst clear_slots.simps) auto
  qed
qed

lemma clear_ok:
  assumes ok: "graph_ok live h0 g h"
  shows "\<exists>g' h'. zenit_graph_clear (Some g) h = Some (Some g', h') \<and> graph_ok live h0 g' h' \<and>
    new_graph (gr_vertex_capacity g) (gr_directed g) (gr_allocator g) g'"
proof -
  have c: "allocator_contract (gr_allocator g) live" and fr: "fresh_blocks live h0 (graph_addrs g) h" and lay: "graph_layout g"
    using ok by (simp_all add: graph_ok_def graph_inv_def)
  obtain g1 h1 where g1: "clear_slots 0 (gr_vertex_capacity g) g h = Some (g1, h1)" "graph_layout g1" "fresh_blocks live h0 (graph_addrs g1) h1"
      "gr_vertex_capacity g1 = gr_vertex_capacity g" "gr_directed g1 = gr_directed g" "gr_allocator g1 = gr_allocator g"
      "\<forall>v. gact g1 v \<longrightarrow> gact g v \<and> \<not> v < gr_vertex_capacity g"
    using clear_slots_ok [OF c lay fr refl, of 0] by auto
  define g' where "g' = g1\<lparr>gr_vertex_count := 0, gr_edge_count := 0\<rparr>"
  have na: "\<not> gact g' v" for v using g1(4,7) by (auto simp: gact_def g'_def)
  then have VE: "gV g' = {}" "gE g' = {}" by (simp_all add: gV_def gE_def)
  have "graph_layout g'" using g1(2) unfolding g'_def graph_layout_def by simp
  then have "graph_inv g'" using na VE by (simp add: graph_inv_def sym_def) (simp add: g'_def)
  moreover have "graph_addrs g' = graph_addrs g1" by (simp add: g'_def graph_addrs_def)
  ultimately have "graph_ok live h0 g' h1" using c g1(3,6) by (simp add: graph_ok_def) (simp add: g'_def)
  moreover have "new_graph (gr_vertex_capacity g) (gr_directed g) (gr_allocator g) g'" using VE g1(4-6) by (simp add: new_graph_def) (simp add: g'_def)
  ultimately show ?thesis using g1(1) by (simp add: zenit_graph_clear_def g'_def)
qed

end
