(* ===== verification/Zenit_Graph_Trace.thy ===== *)
theory Zenit_Graph_Trace
  imports Zenit_Graph_Life
begin

text \<open>
  Sequences of calls on a graph: the operations of \<open>src/graph.c\<close> against an abstract graph, which is a set of vertices, a set of edges and
  the number of edges the count has lost.
\<close>

section \<open>Calls and their abstract meaning\<close>

datatype graph_call = Add_vertex | Remove_vertex int | Add_edge int int | Remove_edge int int | Has_edge int int | Get_neighbors int c_heap
  | Vertex_count | Edge_count | Is_directed | Clear_graph

datatype graph_reply = Code zenit_result_t | Flag bool | Number nat | Neighbors int "int list option" nat | Cleared

definition graph_do :: "graph_call \<Rightarrow> 'h zenit_graph_t option \<Rightarrow> 'h \<Rightarrow> (graph_reply \<times> 'h zenit_graph_t option \<times> 'h) option" where
  "graph_do c g h =
    (case c of
       Add_vertex \<Rightarrow> do { (r, g', h') \<leftarrow> zenit_graph_add_vertex g h; Some (Code r, g', h') }
     | Remove_vertex v \<Rightarrow> do { (r, g', h') \<leftarrow> zenit_graph_remove_vertex g v h; Some (Code r, g', h') }
     | Add_edge u v \<Rightarrow> do { (r, g', h') \<leftarrow> zenit_graph_add_edge g u v h; Some (Code r, g', h') }
     | Remove_edge u v \<Rightarrow> do { (r, g') \<leftarrow> zenit_graph_remove_edge g u v; Some (Code r, g', h) }
     | Has_edge u v \<Rightarrow> do { b \<leftarrow> zenit_graph_has_edge g u v; Some (Flag b, g, h) }
     | Get_neighbors v H \<Rightarrow> do {
         (n, ns, k, H') \<leftarrow> zenit_graph_get_neighbors g v (Some None) (Some 0) H;
         Some (Neighbors n (Option.bind ns (map_option snd)) (case k of None \<Rightarrow> 0 | Some m \<Rightarrow> m), g, h)
       }
     | Vertex_count \<Rightarrow> Some (Number (zenit_graph_vertex_count g), g, h)
     | Edge_count \<Rightarrow> Some (Number (zenit_graph_edge_count g), g, h)
     | Is_directed \<Rightarrow> Some (Flag (zenit_graph_is_directed g), g, h)
     | Clear_graph \<Rightarrow> do { (g', h') \<leftarrow> zenit_graph_clear g h; Some (Cleared, g', h') })"

fun graph_run :: "graph_call list \<Rightarrow> 'h zenit_graph_t option \<Rightarrow> 'h \<Rightarrow> (graph_reply list \<times> 'h zenit_graph_t option \<times> 'h) option" where
  "graph_run [] g h = Some ([], g, h)"
| "graph_run (c # cs) g h = do { (r, g', h') \<leftarrow> graph_do c g h; (rs, g'', h'') \<leftarrow> graph_run cs g' h'; Some (r # rs, g'', h'') }"

type_synonym abstract_graph = "nat set \<times> (nat \<times> nat) set \<times> nat"

definition is_vertex :: "int \<Rightarrow> nat set \<Rightarrow> bool" where
  "is_vertex v V \<longleftrightarrow> 0 \<le> v \<and> nat v \<in> V"

definition list_of_neighbors :: "(nat \<times> nat) set \<Rightarrow> nat \<Rightarrow> int list \<Rightarrow> bool" where
  "list_of_neighbors E v xs \<longleftrightarrow> distinct xs \<and> set xs = int ` (E `` {v}) \<and> xs \<noteq> []"

text \<open>What one call may answer, and the abstract graph after it.\<close>

fun graph_step :: "bool \<Rightarrow> graph_call \<Rightarrow> abstract_graph \<Rightarrow> graph_reply \<Rightarrow> abstract_graph \<Rightarrow> bool" where
  "graph_step d Add_vertex (V, E, k) r s \<longleftrightarrow>
    r = Code ZENIT_OK \<and> s = (insert (LEAST v. v \<notin> V) V, E, k) \<or> r = Code ZENIT_ERROR_ALLOC \<and> s = (V, E, k)"
| "graph_step d (Remove_vertex v) (V, E, k) r s \<longleftrightarrow>
    (if is_vertex v V
     then r = Code ZENIT_OK \<and> s = (V - {nat v}, E - touching (nat v) E, if d \<and> (nat v, nat v) \<in> E then k + 1 else k)
     else r = Code ZENIT_ERROR_PARAM \<and> s = (V, E, k))"
| "graph_step d (Add_edge u v) (V, E, k) r s \<longleftrightarrow>
    (if is_vertex u V \<and> is_vertex v V
     then r = Code ZENIT_OK \<and> s = (V, edges_add d (nat u) (nat v) E, k) \<or> r = Code ZENIT_ERROR_ALLOC \<and> s = (V, E, k)
     else r = Code ZENIT_ERROR_PARAM \<and> s = (V, E, k))"
| "graph_step d (Remove_edge u v) (V, E, k) r s \<longleftrightarrow>
    (if is_vertex u V \<and> is_vertex v V then r = Code ZENIT_OK \<and> s = (V, edges_del d (nat u) (nat v) E, k)
     else r = Code ZENIT_ERROR_PARAM \<and> s = (V, E, k))"
| "graph_step d (Has_edge u v) (V, E, k) r s \<longleftrightarrow> r = Flag (0 \<le> u \<and> 0 \<le> v \<and> (nat u, nat v) \<in> E) \<and> s = (V, E, k)"
| "graph_step d (Get_neighbors v H) (V, E, k) r s \<longleftrightarrow> s = (V, E, k) \<and>
    (if \<not> is_vertex v V then r = Neighbors (- 1) None 0
     else if E `` {nat v} = {} then r = Neighbors 0 None 0
     else r = Neighbors (- 1) None 0 \<or>
       (\<exists>xs. r = Neighbors (int (length xs)) (Some xs) (length xs) \<and> list_of_neighbors E (nat v) xs))"
| "graph_step d Vertex_count (V, E, k) r s \<longleftrightarrow> r = Number (card V) \<and> s = (V, E, k)"
| "graph_step d Edge_count (V, E, k) r s \<longleftrightarrow> r = Number (cnt (int (edges_counted d E) - int k)) \<and> s = (V, E, k)"
| "graph_step d Is_directed (V, E, k) r s \<longleftrightarrow> r = Flag d \<and> s = (V, E, k)"
| "graph_step d Clear_graph (V, E, k) r s \<longleftrightarrow> r = Cleared \<and> s = ({}, {}, 0)"

inductive graph_steps :: "bool \<Rightarrow> graph_call list \<Rightarrow> abstract_graph \<Rightarrow> graph_reply list \<Rightarrow> abstract_graph \<Rightarrow> bool" for d where
  graph_done: "graph_steps d [] s [] s"
| graph_next: "graph_step d c s r s' \<Longrightarrow> graph_steps d cs s' rs s'' \<Longrightarrow> graph_steps d (c # cs) s (r # rs) s''"

inductive_cases graph_steps_NilE: "graph_steps d [] s rs s'"
inductive_cases graph_steps_ConsE: "graph_steps d (c # cs) s rs s'"

section \<open>Refinement\<close>

lemma get_neighbors_ok:
  assumes inv: "graph_inv g"
  obtains n q k H' where "zenit_graph_get_neighbors (Some g) v (Some None) (Some 0) H = Some (n, Some q, Some k, H')"
    and "graph_step d (Get_neighbors v H) (gV g, gE g, j) (Neighbors n (map_option snd q) k) (gV g, gE g, j)"
proof -
  have lay: "graph_layout g" using inv by (simp add: graph_inv_def)
  show thesis
  proof (cases "is_vertex v (gV g)")
    case False
    then have "vertex_active g v = Some False" using vertex_active_ok [OF lay, of v] by (auto simp: is_vertex_def gV_def)
    then show thesis using False by (intro that [of "- 1" None 0 H]) (simp_all add: zenit_graph_get_neighbors_def)
  next
    case True
    then have a: "gact g (nat v)" and act: "vertex_active g v = Some True" using vertex_active_ok [OF lay, of v] by (auto simp: is_vertex_def gV_def)
    have cap: "nat v < gr_vertex_capacity g" using a by (simp add: gact_def)
    note sl = graph_slot [OF lay cap] and nb = nbrs_edges [OF inv a]
    let ?n = "snd (gr_counts g) ! nat v"
    note get = ar_get_ok [OF sl(1)] ar_get_ok [OF sl(2)]
    show thesis
    proof (cases "?n = 0")
      case zero: True
      then have "gE g `` {nat v} = {}" using nb(1) sl(8) by simp
      then show thesis using True zero act get by (intro that [of 0 None 0 H]) (simp_all add: zenit_graph_get_neighbors_def)
    next
      case pos: False
      then obtain p where p: "snd (gr_adj g) ! nat v = Some p" using sl(6) by (cases "snd (gr_adj g) ! nat v") auto
      have xs: "nbrs g (nat v) = take ?n (snd p)" by (simp add: nbrs_def p)
      have ne: "gE g `` {nat v} \<noteq> {}" using nb(3) sl(8) pos by auto
      have small: "?n < 2 ^ 31" using nb(4) sl(8) by simp
      then have mul: "sz_mul ?n sizeof_int = ?n * 4" by (simp add: sizeof_int_def sz_mul_nowrap size_mod_def)
      have get_eq: "zenit_graph_get_neighbors (Some g) v (Some None) (Some 0) H =
          (case ar_malloc sizeof_int 0 (?n * 4) H of
               (None, H1) \<Rightarrow> Some (-1, Some None, Some 0, H1)
             | (Some q, H1) \<Rightarrow> if ?n \<le> length (snd q)
                 then Some (int_of_size ?n, Some (Some (fst q, take ?n (snd p) @ drop ?n (snd q))), Some ?n, H1) else None)"
        using act get pos p mul sl(6) by (simp add: zenit_graph_get_neighbors_def split: option.splits prod.splits)
      show thesis
      proof (cases rule: c_malloc_cases [of H "?n * 4", case_names null block])
        case (null s)
        then show thesis using True ne
          by (intro that [of "- 1" None 0 "H\<lparr>heap_script := s\<rparr>"]) (simp_all add: get_eq ar_malloc_def)
      next
        case block
        then obtain b H1 where b: "c_malloc (?n * 4) H = (Some b, H1)" "length (mbytes b) = ?n * 4" by simp
        have m: "ar_malloc sizeof_int 0 (?n * 4) H = (Some (maddr b, replicate ?n (0::int)), H1)"
          using b by (simp add: ar_malloc_def sizeof_int_def)
        have "list_of_neighbors (gE g) (nat v) (nbrs g (nat v))"
          using nb pos sl(8) by (auto simp: list_of_neighbors_def)
        then show thesis using True ne m int_of_size_small [OF small] sl(8)
          by (intro that [of "int ?n" "Some (maddr b, nbrs g (nat v))" ?n H1]) (simp_all add: get_eq xs)
      qed
    qed
  qed
qed


lemma counted_add:
  assumes inv: "graph_inv g" and k: "counted k g" and e: "E = edges_add (gr_directed g) u v (gE g)"
  shows "(if E = gE g then gr_edge_count g else sz_add (gr_edge_count g) 1) = cnt (int (edges_counted (gr_directed g) E) - int k)"
proof (cases "E = gE g")
  case True
  then show ?thesis using k by (simp add: counted_def)
next
  case False
  have sy: "\<not> gr_directed g \<Longrightarrow> sym (gE g)" using inv by (simp add: graph_inv_def)
  then have new: "(u, v) \<notin> gE g" using False e edges_add_same [of u v "gE g" "gr_directed g"] by auto
  have "edges_counted (gr_directed g) E = edges_counted (gr_directed g) (gE g) + 1"
    using counted_insert [OF gE_finite [OF inv] new] sy e by (cases "gr_directed g") (simp_all add: edges_add_def)
  then show ?thesis using False k sz_add_cnt [of _ 1] by (simp add: counted_def algebra_simps)
qed

lemma counted_del:
  assumes inv: "graph_inv g" and k: "counted k g"
  shows "(if (u, v) \<in> gE g then sz_sub (gr_edge_count g) 1 else gr_edge_count g) =
    cnt (int (edges_counted (gr_directed g) (edges_del (gr_directed g) u v (gE g))) - int k)"
proof -
  have sy: "\<not> gr_directed g \<Longrightarrow> sym (gE g)" using inv by (simp add: graph_inv_def)
  show ?thesis
  proof (cases "(u, v) \<in> gE g")
    case True
    note C = counted_remove [OF gE_finite [OF inv] True]
    have "int (edges_counted (gr_directed g) (gE g)) = int (edges_counted (gr_directed g) (edges_del (gr_directed g) u v (gE g))) + 1"
      using C sy by (cases "gr_directed g") (simp_all add: edges_del_def)
    then show ?thesis using True k sz_sub_cnt [of _ 1] by (simp add: counted_def)
  next
    case False
    then show ?thesis using k edges_del_absent [OF False, of "gr_directed g"] sy by (simp add: counted_def)
  qed
qed

definition graph_state :: "('h \<Rightarrow> nat set) \<Rightarrow> 'h \<Rightarrow> bool \<Rightarrow> abstract_graph \<Rightarrow> 'h zenit_graph_t \<Rightarrow> 'h \<Rightarrow> bool" where
  "graph_state live h0 d s g h \<longleftrightarrow> graph_ok live h0 g h \<and> 1 < gr_vertex_capacity g \<and> gr_directed g = d \<and>
    (\<exists>k. s = (gV g, gE g, k) \<and> counted k g)"

definition n_vertices :: "abstract_graph \<Rightarrow> nat" where
  "n_vertices s = card (fst s)"

lemma graph_do_ok:
  assumes st: "graph_state live h0 d s g h" and m: "n_vertices s < 2 ^ 30"
  shows "\<exists>r g' h' s'. graph_do c (Some g) h = Some (r, Some g', h') \<and> graph_step d c s r s' \<and> graph_state live h0 d s' g' h' \<and>
    n_vertices s' \<le> n_vertices s + 1"
proof -
  obtain k where ok: "graph_ok live h0 g h" and cap: "1 < gr_vertex_capacity g" and d: "gr_directed g = d"
      and s: "s = (gV g, gE g, k)" and k: "counted k g"
    using st by (auto simp: graph_state_def)
  have inv: "graph_inv g" using ok by (simp add: graph_ok_def)
  show ?thesis
  proof (cases c)
    case Add_vertex
    have "grow_capacity (gr_vertex_capacity g) < 2 ^ 31" if "card (gV g) = gr_vertex_capacity g"
      using that m s grow_capacity_ok(1) [of "gr_vertex_capacity g"] by (auto simp: n_vertices_def)
    then obtain r g' h' where r: "zenit_graph_add_vertex (Some g) h = Some (r, Some g', h')" "add_vertex_post live h0 g r g' h'"
      using add_vertex_ok [OF ok cap] by blast
    have cap': "1 < gr_vertex_capacity g'" using r(2) cap grow_capacity_ok(2) [of "gr_vertex_capacity g"] m s
      by (auto simp: add_vertex_post_def n_vertices_def)
    have k': "counted k g'" using r(2) k by (simp add: add_vertex_post_def counted_def)
    have "graph_step d c s (Code r) (gV g', gE g', k)" using r(2) by (auto simp: Add_vertex s add_vertex_post_def)
    moreover have "graph_state live h0 d (gV g', gE g', k) g' h'" using r(2) cap' k' d by (simp add: graph_state_def add_vertex_post_def)
    moreover have "card (gV g') \<le> card (gV g) + 1" using r(2) by (auto simp: add_vertex_post_def card_insert_if)
    then have "n_vertices (gV g', gE g', k) \<le> n_vertices s + 1" by (simp add: n_vertices_def s)
    moreover have "graph_do c (Some g) h = Some (Code r, Some g', h')" using r(1) by (simp add: Add_vertex graph_do_def)
    ultimately show ?thesis by blast
  next
    case (Remove_vertex v)
    obtain r g' h' where r: "zenit_graph_remove_vertex (Some g) v h = Some (r, Some g', h')" "remove_vertex_post live h0 g v r g' h' k"
      using remove_vertex_ok [OF ok k] by blast
    define j where "j = (if is_vertex v (gV g) \<and> d \<and> (nat v, nat v) \<in> gE g then k + 1 else k)"
    have "counted j g'" using r(2) k d by (auto simp: remove_vertex_post_def j_def is_vertex_def split: if_splits)
    then have "graph_state live h0 d (gV g', gE g', j) g' h'" using r(2) cap d by (simp add: graph_state_def remove_vertex_post_def)
    moreover have "graph_step d c s (Code r) (gV g', gE g', j)" using r(2) d
      by (auto simp: Remove_vertex s remove_vertex_post_def is_vertex_def j_def split: if_splits)
    moreover have "card (gV g') \<le> card (gV g)" using r(2) by (intro card_mono) (auto simp: remove_vertex_post_def split: if_splits)
    then have "n_vertices (gV g', gE g', j) \<le> n_vertices s + 1" by (simp add: n_vertices_def s)
    moreover have "graph_do c (Some g) h = Some (Code r, Some g', h')" using r(1) by (simp add: Remove_vertex graph_do_def)
    ultimately show ?thesis by blast
  next
    case (Add_edge u v)
    obtain r g' h' where r: "zenit_graph_add_edge (Some g) u v h = Some (r, Some g', h')" "add_edge_post live h0 g u v r g' h'"
      using add_edge_ok [OF ok] by blast
    have V: "gV g' = gV g" and D: "gr_directed g' = d" and C: "1 < gr_vertex_capacity g'"
      using r(2) cap d by (auto simp: add_edge_post_def same_frame_def gV_def)
    let ?E = "edges_add (gr_directed g) (nat u) (nat v) (gE g)"
    have k': "counted k g'"
    proof -
      have "gr_edge_count g < size_mod" using k by (simp add: counted_def)
      then consider "gE g' = gE g" "gr_edge_count g' = gr_edge_count g"
        | "gE g' = ?E" "gr_edge_count g' = (if ?E = gE g then gr_edge_count g else sz_add (gr_edge_count g) 1)"
        using r(2) unfolding add_edge_post_def Let_def by blast
      then show ?thesis
      proof cases
        case 1
        then show ?thesis using k D d by (simp add: counted_def)
      next
        case 2
        show ?thesis unfolding counted_def D 2 using counted_add [OF inv k refl, of "nat u" "nat v"] unfolding d .
      qed
    qed
    have "graph_step d c s (Code r) (gV g', gE g', k)" using r(2) V d
      by (auto simp: Add_edge s add_edge_post_def is_vertex_def Let_def)
    moreover have "graph_state live h0 d (gV g', gE g', k) g' h'" using r(2) k' D C by (simp add: graph_state_def add_edge_post_def)
    moreover have "n_vertices (gV g', gE g', k) \<le> n_vertices s + 1" using V by (simp add: n_vertices_def s)
    moreover have "graph_do c (Some g) h = Some (Code r, Some g', h')" using r(1) by (simp add: Add_edge graph_do_def)
    ultimately show ?thesis by blast
  next
    case (Remove_edge u v)
    obtain r g' where r: "zenit_graph_remove_edge (Some g) u v = Some (r, Some g')" "del_edge_post live h0 g u v r g' h"
      using remove_edge_ok [OF ok] by blast
    have V: "gV g' = gV g" and D: "gr_directed g' = d" and C: "1 < gr_vertex_capacity g'"
      using r(2) cap d by (auto simp: del_edge_post_def same_frame_def gV_def)
    have k': "counted k g'" using r(2) k counted_del [OF inv k, of "nat u" "nat v"] D d
      by (auto simp: del_edge_post_def counted_def Let_def split: if_splits)
    have "graph_step d c s (Code r) (gV g', gE g', k)" using r(2) V d
      by (auto simp: Remove_edge s del_edge_post_def is_vertex_def Let_def)
    moreover have "graph_state live h0 d (gV g', gE g', k) g' h" using r(2) k' D C by (simp add: graph_state_def del_edge_post_def)
    moreover have "n_vertices (gV g', gE g', k) \<le> n_vertices s + 1" using V by (simp add: n_vertices_def s)
    moreover have "graph_do c (Some g) h = Some (Code r, Some g', h)" using r(1) by (simp add: Remove_edge graph_do_def)
    ultimately show ?thesis by blast
  next
    case (Has_edge u v)
    then show ?thesis using st s has_edge_ok [OF inv, of u v] by (auto simp: graph_do_def)
  next
    case (Get_neighbors v H)
    obtain n q j H' where q: "zenit_graph_get_neighbors (Some g) v (Some None) (Some 0) H = Some (n, Some q, Some j, H')"
        "graph_step d (Get_neighbors v H) (gV g, gE g, k) (Neighbors n (map_option snd q) j) (gV g, gE g, k)"
      by (rule get_neighbors_ok [OF inv])
    then show ?thesis using st s Get_neighbors by (auto simp: graph_do_def)
  next
    case Vertex_count
    then show ?thesis using st s inv by (auto simp: graph_do_def zenit_graph_vertex_count_def graph_inv_def)
  next
    case Edge_count
    then show ?thesis using st s k d by (auto simp: graph_do_def zenit_graph_edge_count_def counted_def)
  next
    case Is_directed
    then show ?thesis using st s d by (auto simp: graph_do_def zenit_graph_is_directed_def)
  next
    case Clear_graph
    obtain g' h' where g': "zenit_graph_clear (Some g) h = Some (Some g', h')" "graph_ok live h0 g' h'"
        "new_graph (gr_vertex_capacity g) (gr_directed g) (gr_allocator g) g'" using clear_ok [OF ok] by blast
    have "graph_state live h0 d ({}, {}, 0) g' h'"
      using g'(2,3) cap d cnt_small [of 0] by (simp add: graph_state_def new_graph_def counted_def edges_counted_def)
    then show ?thesis using g'(1) by (auto simp: Clear_graph graph_do_def s n_vertices_def)
  qed
qed

lemma graph_run_ok:
  assumes "graph_state live h0 d s g h" and "n_vertices s + length cs \<le> 2 ^ 30"
  shows "\<exists>rs g' h' s'. graph_run cs (Some g) h = Some (rs, Some g', h') \<and> graph_steps d cs s rs s' \<and> graph_state live h0 d s' g' h'"
  using assms
proof (induction cs arbitrary: s g h)
  case Nil
  then show ?case using graph_done [of d s] by (intro exI [of _ "[]"] exI [of _ g] exI [of _ h] exI [of _ s]) simp
next
  case (Cons c cs)
  have m: "n_vertices s < 2 ^ 30" using Cons.prems(2) by simp
  obtain r g1 h1 s1 where r: "graph_do c (Some g) h = Some (r, Some g1, h1)" "graph_step d c s r s1" "graph_state live h0 d s1 g1 h1"
      "n_vertices s1 \<le> n_vertices s + 1"
    using graph_do_ok [OF Cons.prems(1) m, of c] by blast
  have "n_vertices s1 + length cs \<le> 2 ^ 30" using r(4) Cons.prems(2) by simp
  then obtain rs g' h' s' where i: "graph_run cs (Some g1) h1 = Some (rs, Some g', h')" "graph_steps d cs s1 rs s'" "graph_state live h0 d s' g' h'"
    using Cons.IH [OF r(3)] by blast
  have "graph_steps d (c # cs) s (r # rs) s'" by (rule graph_next [OF r(2) i(2)])
  then show ?case using r(1) i(1,3) by (intro exI [of _ "r # rs"] exI [of _ g'] exI [of _ h'] exI [of _ s']) simp
qed


lemma graph_run_created:
  assumes contract: "allocator_contract a live" and cap: "cap \<noteq> 1" "cap < 2 ^ 31"
    and create: "zenit_graph_create_with_allocator cap d a h = Some (Some g, h1)" and len: "length cs \<le> 2 ^ 30"
  obtains rs g' h2 s' where "graph_run cs (Some g) h1 = Some (rs, Some g', h2)" and "graph_steps d cs ({}, {}, 0) rs s'"
    and "graph_state live h d s' g' h2"
proof -
  have g: "graph_ok live h g h1" "new_graph (if cap = 0 then 8 else cap) d a g" using create_ok [OF contract cap(2), of d h] create by auto
  have "graph_state live h d ({}, {}, 0) g h1"
    using g cap(1) cnt_small [of 0] by (auto simp: graph_state_def new_graph_def counted_def edges_counted_def)
  from graph_run_ok [OF this, of cs] show thesis using len that by (auto simp: n_vertices_def)
qed


definition graph_heap :: c_heap where
  "graph_heap = \<lparr>heap_live = [], heap_script = replicate 10 True @ [False], heap_junk = 9\<rparr>"

definition plain_heap :: c_heap where
  "plain_heap = \<lparr>heap_live = [], heap_script = [], heap_junk = 9\<rparr>"

definition graph_demo_calls :: "graph_call list" where
  "graph_demo_calls = [Add_vertex, Add_vertex, Add_vertex, Add_edge 0 1, Add_edge 0 1, Add_edge 1 2, Add_edge 1 2, Has_edge 2 1, Edge_count,
    Remove_vertex 0, Edge_count, Add_vertex, Vertex_count, Get_neighbors 1 plain_heap, Remove_edge 2 1, Has_edge 1 2]"

lemma graph_heap_create: "\<exists>g h1. zenit_graph_create_with_allocator 2 d ZENIT_ALLOCATOR_DEFAULT graph_heap = Some (Some g, h1)"
proof -
  have "(case zenit_graph_create_with_allocator 2 d ZENIT_ALLOCATOR_DEFAULT graph_heap of Some (Some g, h1) \<Rightarrow> True | _ \<Rightarrow> False)"
    by (cases d) code_simp+
  then show ?thesis by (auto split: option.splits prod.splits)
qed


text \<open>The answers of that run: the second list of the first edge cannot be allocated, the edge is rolled back and added again.\<close>

lemma graph_demo_replies:
  "map_option fst (do { (g, h) \<leftarrow> zenit_graph_create 2 False graph_heap; graph_run graph_demo_calls g h }) =
   Some [Code ZENIT_OK, Code ZENIT_OK, Code ZENIT_OK, Code ZENIT_ERROR_ALLOC, Code ZENIT_OK, Code ZENIT_OK, Code ZENIT_OK, Flag True, Number 2,
     Code ZENIT_OK, Number 1, Code ZENIT_OK, Number 3, Neighbors 1 (Some [2]) 1, Code ZENIT_OK, Flag False]"
  by code_simp

text \<open>
  Where the code departs from its documentation: a capacity of 1 does not grow, so that the second vertex is written outside the
  arrays; a loop of a directed graph is subtracted twice when its vertex goes; the number of a removed vertex is used again.
\<close>

lemma graph_capacity_one:
  "do { (g, h) \<leftarrow> zenit_graph_create 1 False plain_heap; (rs, g', h') \<leftarrow> graph_run [Add_vertex, Add_vertex] g h; Some rs } = None"
  by code_simp

lemma graph_loop_count:
  "do { (g, h) \<leftarrow> zenit_graph_create 0 True plain_heap; (rs, g', h') \<leftarrow> graph_run [Add_vertex, Add_edge 0 0, Edge_count, Remove_vertex 0, Edge_count] g h; Some rs } =
   Some [Code ZENIT_OK, Code ZENIT_OK, Number 1, Code ZENIT_OK, Number 18446744073709551615]"
  by code_simp

lemma graph_number_reused:
  "do { (g, h) \<leftarrow> zenit_graph_create 0 True plain_heap; (rs, g', h') \<leftarrow> graph_run [Add_vertex, Remove_vertex 0, Add_vertex, Remove_vertex 0, Vertex_count] g h; Some rs } =
   Some [Code ZENIT_OK, Code ZENIT_OK, Code ZENIT_OK, Code ZENIT_OK, Number 0]"
  by code_simp

end
