(* ===== verification/Zenit_Traverse.thy ===== *)
theory Zenit_Traverse
  imports Zenit_Graph_Trace
begin

text \<open>
  The traversals of a graph (\<open>zenit_graph_bfs\<close> and \<open>zenit_graph_dfs\<close> of \<open>src/graph.c\<close>): the array of marks, the queue or stack and the
  loops over it, and what is visited, in which order. A visitor is a function of the vertex and the
  context that says whether to stop; the two arrays come from the C heap.
\<close>

section \<open>The traversals\<close>

type_synonym 'c visitor = "int \<Rightarrow> 'c \<Rightarrow> bool \<times> 'c"

text \<open>\<open>calloc\<close> of integers: the product of its arguments does not wrap.\<close>

definition int_calloc :: "nat \<Rightarrow> c_heap \<Rightarrow> int arr option \<times> c_heap" where
  "int_calloc n H = (if size_mod \<le> n * sizeof_int then (None, H) else ar_malloc sizeof_int 0 (n * sizeof_int) H)"

text \<open>Marking an unmarked vertex and storing it behind the last entry.\<close>

definition push_unvisited :: "int \<Rightarrow> int arr \<Rightarrow> int arr \<Rightarrow> nat \<Rightarrow> (int arr \<times> int arr \<times> nat) option" where
  "push_unvisited u visited q n =
    (if u < 0 then None
     else do {
       m \<leftarrow> ar_get visited (nat u);
       if m = 0 then do {
         visited' \<leftarrow> ar_put visited (nat u) 1;
         q' \<leftarrow> ar_put q n u;
         Some (visited', q', sz_add n 1)
       } else Some (visited, q, n)
     })"

function enqueue_neighbors :: "int arr option \<Rightarrow> nat \<Rightarrow> nat \<Rightarrow> int arr \<Rightarrow> int arr \<Rightarrow> nat \<Rightarrow> (int arr \<times> int arr \<times> nat) option" where
  "enqueue_neighbors lst n i visited q tail =
    (if i < n then do {
       p \<leftarrow> lst;
       u \<leftarrow> ar_get p i;
       (visited', q', tail') \<leftarrow> push_unvisited u visited q tail;
       enqueue_neighbors lst n (i + 1) visited' q' tail'
     } else Some (visited, q, tail))"
  by pat_completeness auto
termination by (relation "measure (\<lambda>(lst, n, i, visited, q, tail). n - i)") auto

declare enqueue_neighbors.simps [simp del]

partial_function (option) bfs_loop ::
    "'h zenit_graph_t \<Rightarrow> 'c visitor \<Rightarrow> nat \<Rightarrow> nat \<Rightarrow> int arr \<Rightarrow> int arr \<Rightarrow> 'c \<Rightarrow> 'c option" where
  "bfs_loop g visit head tail visited q ctx =
    (if head < tail then do {
       v \<leftarrow> ar_get q head;
       (case visit v ctx of (stop, ctx') \<Rightarrow>
         if stop then Some ctx'
         else if v < 0 then None
         else do {
           n \<leftarrow> ar_get (gr_counts g) (nat v);
           lst \<leftarrow> ar_get (gr_adj g) (nat v);
           (visited', q', tail') \<leftarrow> enqueue_neighbors lst n 0 visited q tail;
           bfs_loop g visit (sz_add head 1) tail' visited' q' ctx'
         })
     } else Some ctx)"

definition zenit_graph_bfs :: "'h zenit_graph_t option \<Rightarrow> int \<Rightarrow> 'c visitor option \<Rightarrow> 'c \<Rightarrow> c_heap \<Rightarrow> (zenit_result_t \<times> 'c \<times> c_heap) option" where
  "zenit_graph_bfs graph start visit ctx H =
    (case (graph, visit) of
       (Some g, Some f) \<Rightarrow> do {
         a \<leftarrow> vertex_active g start;
         if \<not> a then Some (ZENIT_ERROR_PARAM, ctx, H)
         else (case int_calloc (gr_vertex_capacity g) H of
             (None, H1) \<Rightarrow> Some (ZENIT_ERROR_ALLOC, ctx, H1)
           | (Some visited, H1) \<Rightarrow>
               (case ar_malloc sizeof_int 0 (sz_mul (gr_vertex_capacity g) sizeof_int) H1 of
                  (None, H2) \<Rightarrow> do { H3 \<leftarrow> c_free (Some (fst visited)) H2; Some (ZENIT_ERROR_ALLOC, ctx, H3) }
                | (Some q, H2) \<Rightarrow> do {
                    visited' \<leftarrow> ar_put visited (nat start) 1;
                    q' \<leftarrow> ar_put q 0 start;
                    ctx' \<leftarrow> bfs_loop g f 0 1 visited' q' ctx;
                    H3 \<leftarrow> c_free (Some (fst q)) H2;
                    H4 \<leftarrow> c_free (Some (fst visited)) H3;
                    Some (ZENIT_OK, ctx', H4)
                  }))
       }
     | _ \<Rightarrow> Some (ZENIT_ERROR_NULL, ctx, H))"

declare bfs_loop.simps [code]

fun push_neighbors :: "int arr option \<Rightarrow> nat \<Rightarrow> int arr \<Rightarrow> int arr \<Rightarrow> nat \<Rightarrow> (int arr \<times> int arr \<times> nat) option" where
  "push_neighbors lst 0 visited stack sp = Some (visited, stack, sp)"
| "push_neighbors lst (Suc i) visited stack sp = do {
     p \<leftarrow> lst;
     u \<leftarrow> ar_get p i;
     (visited', stack', sp') \<leftarrow> push_unvisited u visited stack sp;
     push_neighbors lst i visited' stack' sp'
   }"

partial_function (option) dfs_loop ::
    "'h zenit_graph_t \<Rightarrow> 'c visitor \<Rightarrow> nat \<Rightarrow> int arr \<Rightarrow> int arr \<Rightarrow> 'c \<Rightarrow> 'c option" where
  "dfs_loop g visit sp visited stack ctx =
    (if sp > 0 then do {
       v \<leftarrow> ar_get stack (sp - 1);
       (case visit v ctx of (stop, ctx') \<Rightarrow>
         if stop then Some ctx'
         else if v < 0 then None
         else do {
           n \<leftarrow> ar_get (gr_counts g) (nat v);
           lst \<leftarrow> ar_get (gr_adj g) (nat v);
           (visited', stack', sp') \<leftarrow> push_neighbors lst n visited stack (sp - 1);
           dfs_loop g visit sp' visited' stack' ctx'
         })
     } else Some ctx)"

declare dfs_loop.simps [code]

definition zenit_graph_dfs :: "'h zenit_graph_t option \<Rightarrow> int \<Rightarrow> 'c visitor option \<Rightarrow> 'c \<Rightarrow> c_heap \<Rightarrow> (zenit_result_t \<times> 'c \<times> c_heap) option" where
  "zenit_graph_dfs graph start visit ctx H =
    (case (graph, visit) of
       (Some g, Some f) \<Rightarrow> do {
         a \<leftarrow> vertex_active g start;
         if \<not> a then Some (ZENIT_ERROR_PARAM, ctx, H)
         else (case int_calloc (gr_vertex_capacity g) H of
             (None, H1) \<Rightarrow> Some (ZENIT_ERROR_ALLOC, ctx, H1)
           | (Some visited, H1) \<Rightarrow>
               (case ar_malloc sizeof_int 0 (sz_mul (gr_vertex_capacity g) sizeof_int) H1 of
                  (None, H2) \<Rightarrow> do { H3 \<leftarrow> c_free (Some (fst visited)) H2; Some (ZENIT_ERROR_ALLOC, ctx, H3) }
                | (Some stack, H2) \<Rightarrow> do {
                    visited' \<leftarrow> ar_put visited (nat start) 1;
                    stack' \<leftarrow> ar_put stack 0 start;
                    ctx' \<leftarrow> dfs_loop g f 1 visited' stack' ctx;
                    H3 \<leftarrow> c_free (Some (fst stack)) H2;
                    H4 \<leftarrow> c_free (Some (fst visited)) H3;
                    Some (ZENIT_OK, ctx', H4)
                  }))
       }
     | _ \<Rightarrow> Some (ZENIT_ERROR_NULL, ctx, H))"

section \<open>Pushing neighbours\<close>

text \<open>The vertices in the queue or on the stack are \<open>st\<close>; those that have left it are \<open>P\<close>.\<close>

definition trav_inv :: "nat \<Rightarrow> nat set \<Rightarrow> nat list \<Rightarrow> int arr \<Rightarrow> int arr \<Rightarrow> bool" where
  "trav_inv cap P st visited q \<longleftrightarrow> length (snd visited) = cap \<and> length (snd q) = cap \<and> distinct st \<and> set st \<inter> P = {} \<and>
    P \<union> set st \<subseteq> {..<cap} \<and> take (length st) (snd q) = map int st \<and>
    (\<forall>u < cap. snd visited ! u \<noteq> 0 \<longleftrightarrow> u \<in> P \<union> set st)"

definition push_new :: "nat set \<Rightarrow> nat \<Rightarrow> nat list \<Rightarrow> nat list" where
  "push_new P u st = (if u \<in> P \<union> set st then st else st @ [u])"

lemma trav_inv_length: "trav_inv cap P st visited q \<Longrightarrow> length st \<le> cap"
  using card_mono [of "{..<cap}" "set st"] by (auto simp: trav_inv_def distinct_card)

lemma push_unvisited_ok:
  assumes i: "trav_inv cap P st visited q" and u: "u < cap" and cap: "cap < 2 ^ 31"
  obtains visited' q' where "push_unvisited (int u) visited q (length st) = Some (visited', q', length (push_new P u st))"
    and "trav_inv cap P (push_new P u st) visited' q'"
proof (cases "u \<in> P \<union> set st")
  case True
  then have "snd visited ! u \<noteq> 0" "u < length (snd visited)" using i u by (simp_all add: trav_inv_def)
  then show thesis using True i by (intro that [of visited q]) (simp_all add: push_unvisited_def push_new_def ar_get_ok)
next
  case False
  let ?st = "st @ [u]" and ?v = "(fst visited, (snd visited)[u := 1])" and ?q = "(fst q, (snd q)[length st := int u])"
  have len: "u < length (snd visited)" and zero: "snd visited ! u = 0" using i u False by (auto simp: trav_inv_def)
  have d: "distinct ?st" "set ?st \<subseteq> {..<cap}" using i u False by (auto simp: trav_inv_def)
  have "card (set ?st) \<le> card {..<cap}" using d(2) by (intro card_mono) simp_all
  then have lt: "length st < cap" using d(1) by (simp add: distinct_card)
  then have ql: "length st < length (snd q)" using i by (simp add: trav_inv_def)
  have "take (Suc (length st)) ((snd q)[length st := int u]) = map int st @ [int u]"
    using ql i by (simp add: take_Suc_conv_app_nth trav_inv_def)
  moreover have "\<forall>w < cap. (snd visited)[u := 1] ! w \<noteq> 0 \<longleftrightarrow> w \<in> P \<union> set ?st"
    using i len by (auto simp: trav_inv_def nth_list_update)
  ultimately have "trav_inv cap P ?st ?v ?q" using i d False u by (auto simp: trav_inv_def)
  moreover have "sz_add (length st) 1 = length ?st" using lt cap by (simp add: sz_add_nowrap size_mod_def)
  ultimately show thesis using False len zero ql by (intro that [of ?v ?q]) (simp_all add: push_unvisited_def push_new_def ar_get_ok ar_put_ok)
qed

lemma push_new_set: "set (push_new P u st) = set st \<union> ({u} - P)"
  by (auto simp: push_new_def)

lemma fold_push_set: "set (fold (push_new P) us st) = set st \<union> (set us - P)"
  by (induction us arbitrary: st) (auto simp: push_new_set)

lemma fold_push_prefix: "\<exists>new. fold (push_new P) us st = st @ new \<and> set new = set us - P - set st"
proof (induction us arbitrary: st)
  case (Cons u us)
  obtain new where n: "fold (push_new P) us (push_new P u st) = push_new P u st @ new" "set new = set us - P - set (push_new P u st)"
    using Cons.IH by blast
  show ?case
  proof (cases "u \<in> P \<union> set st")
    case True
    then have e: "push_new P u st = st" by (simp add: push_new_def)
    show ?thesis using n True unfolding e by (intro exI [of _ new]) (auto simp: e)
  next
    case False
    then have e: "push_new P u st = st @ [u]" by (simp add: push_new_def)
    show ?thesis using n False unfolding e by (intro exI [of _ "u # new"]) (auto simp: e)
  qed
qed simp

lemma enqueue_neighbors_ok:
  assumes "trav_inv cap P st visited q" and "cap < 2 ^ 31" and "n \<le> length (plist lst)" and "\<forall>x \<in> set (take n (plist lst)). 0 \<le> x \<and> nat x < cap"
  shows "\<exists>visited' q'. enqueue_neighbors lst n i visited q (length st) =
      Some (visited', q', length (fold (push_new P) (map nat (drop i (take n (plist lst)))) st)) \<and>
    trav_inv cap P (fold (push_new P) (map nat (drop i (take n (plist lst)))) st) visited' q'"
  using assms
proof (induction "n - i" arbitrary: i st visited q)
  case 0
  then show ?case by (subst enqueue_neighbors.simps) simp
next
  case (Suc k)
  then have i: "i < n" "i < length (take n (plist lst))" by simp_all
  obtain p where p: "lst = Some p" using i(2) by (cases lst) simp_all
  let ?x = "snd p ! i"
  have get: "ar_get p i = Some ?x" using i p by (simp add: ar_get_ok)
  have "?x \<in> set (take n (plist lst))" using i p by (auto simp: in_set_conv_nth intro!: exI [of _ i])
  then have x: "0 \<le> ?x" "nat ?x < cap" using Suc.prems(4) by blast+
  have d: "drop i (take n (plist lst)) = ?x # drop (i + 1) (take n (plist lst))" using Cons_nth_drop_Suc [OF i(2)] i(1) p by (simp add: One_nat_def)
  obtain v1 q1 where v1: "push_unvisited (int (nat ?x)) visited q (length st) = Some (v1, q1, length (push_new P (nat ?x) st))"
      "trav_inv cap P (push_new P (nat ?x) st) v1 q1" by (rule push_unvisited_ok [OF Suc.prems(1) x(2) Suc.prems(2)])
  have "k = n - (i + 1)" using Suc.hyps(2) by simp
  note ih = Suc.hyps(1) [OF this v1(2) Suc.prems(2-4)]
  then show ?case using i(1) p get x(1) v1(1) unfolding d by (subst enqueue_neighbors.simps) auto
qed

lemma push_neighbors_ok:
  assumes "trav_inv cap P st visited q" and "cap < 2 ^ 31" and "n \<le> length (plist lst)" and "\<forall>x \<in> set (take n (plist lst)). 0 \<le> x \<and> nat x < cap"
  shows "\<exists>visited' q'. push_neighbors lst n visited q (length st) =
      Some (visited', q', length (fold (push_new P) (map nat (rev (take n (plist lst)))) st)) \<and>
    trav_inv cap P (fold (push_new P) (map nat (rev (take n (plist lst)))) st) visited' q'"
  using assms
proof (induction n arbitrary: st visited q)
  case (Suc i)
  then obtain p where p: "lst = Some p" by (cases lst) simp_all
  let ?x = "snd p ! i"
  have i: "i < length (snd p)" using Suc.prems(3) p by simp
  have get: "ar_get p i = Some ?x" using i by (rule ar_get_ok)
  have t: "take (Suc i) (plist lst) = take i (plist lst) @ [?x]" using i p by (simp add: take_Suc_conv_app_nth)
  then have x: "0 \<le> ?x" "nat ?x < cap" using Suc.prems(4) by simp_all
  obtain v1 q1 where v1: "push_unvisited (int (nat ?x)) visited q (length st) = Some (v1, q1, length (push_new P (nat ?x) st))"
      "trav_inv cap P (push_new P (nat ?x) st) v1 q1" by (rule push_unvisited_ok [OF Suc.prems(1) x(2) Suc.prems(2)])
  have "i \<le> length (plist lst)" "\<forall>x \<in> set (take i (plist lst)). 0 \<le> x \<and> nat x < cap" using Suc.prems(3,4) t by simp_all
  note ih = Suc.IH [OF v1(2) Suc.prems(2) this]
  then show ?case using p get x(1) v1(1) unfolding t by auto
qed simp


section \<open>Distances\<close>

definition reachable :: "(nat \<times> nat) set \<Rightarrow> nat \<Rightarrow> nat set" where
  "reachable E s = E\<^sup>* `` {s}"

definition distance :: "(nat \<times> nat) set \<Rightarrow> nat \<Rightarrow> nat \<Rightarrow> nat" where
  "distance E s v = (LEAST n. (s, v) \<in> E ^^ n)"

lemma distance_path: "v \<in> reachable E s \<Longrightarrow> (s, v) \<in> E ^^ distance E s v"
  unfolding distance_def reachable_def by (rule LeastI_ex) (auto simp: rtrancl_power)

lemma distance_le: "(s, v) \<in> E ^^ n \<Longrightarrow> distance E s v \<le> n"
  unfolding distance_def by (rule Least_le)

lemma distance_self [simp]: "distance E s s = 0"
  using distance_le [where n = 0 and s = s and v = s and E = E] by simp

lemma reach_self [simp]: "s \<in> reachable E s"
  by (simp add: reachable_def)

lemma reach_edge: "v \<in> reachable E s \<Longrightarrow> (v, w) \<in> E \<Longrightarrow> w \<in> reachable E s"
  by (auto simp: reachable_def intro: rtrancl_into_rtrancl)

lemma distance_edge: "v \<in> reachable E s \<Longrightarrow> (v, w) \<in> E \<Longrightarrow> distance E s w \<le> distance E s v + 1"
  using distance_le [where n = "Suc (distance E s v)" and s = s and v = w and E = E] distance_path [of v E s] by (auto simp: One_nat_def)

lemma distance_pred:
  assumes x: "x \<in> reachable E s" and d: "distance E s x = Suc n"
  obtains p where "p \<in> reachable E s" and "distance E s p = n" and "(p, x) \<in> E"
proof -
  have "(s, x) \<in> E ^^ Suc n" using distance_path [OF x] d by simp
  then obtain p where p: "(s, p) \<in> E ^^ n" "(p, x) \<in> E" by auto
  have r: "p \<in> reachable E s" using p(1) by (auto simp: reachable_def rtrancl_power)
  have "distance E s p = n" using distance_le [OF p(1)] distance_edge [OF r p(2)] d by simp
  then show thesis using r p(2) by (intro that)
qed

text \<open>A set that contains the start and is closed under edges contains what is reachable.\<close>

lemma reach_closed:
  assumes "s \<in> S" and "\<And>v w. v \<in> S \<Longrightarrow> (v, w) \<in> E \<Longrightarrow> w \<in> S"
  shows "reachable E s \<subseteq> S"
proof
  fix x assume "x \<in> reachable E s"
  then have "(s, x) \<in> E\<^sup>*" by (simp add: reachable_def)
  then show "x \<in> S" by (induction rule: rtrancl_induct) (use assms in auto)
qed

section \<open>Breadth-first order\<close>

definition bfs_order :: "(nat \<times> nat) set \<Rightarrow> nat \<Rightarrow> nat list \<Rightarrow> bool" where
  "bfs_order E s vs \<longleftrightarrow> distinct vs \<and> (\<exists>ws. vs = s # ws) \<and> set vs \<subseteq> reachable E s \<and> sorted (map (distance E s) vs)"

definition bfs_inv :: "(nat \<times> nat) set \<Rightarrow> nat \<Rightarrow> nat list \<Rightarrow> nat \<Rightarrow> bool" where
  "bfs_inv E s vs head \<longleftrightarrow> bfs_order E s vs \<and> head \<le> length vs \<and> (\<forall>i < head. E `` {vs ! i} \<subseteq> set vs) \<and>
    (head < length vs \<longrightarrow> (\<forall>x \<in> set vs. distance E s x \<le> distance E s (vs ! head) + 1) \<and>
      (\<forall>x \<in> reachable E s. distance E s x \<le> distance E s (vs ! head) \<longrightarrow> x \<in> set vs))"

lemma bfs_inv_start: "bfs_inv E s [s] 0"
proof -
  have "x = s" if "x \<in> reachable E s" "distance E s x = 0" for x using distance_path [OF that(1)] that(2) by simp
  then show ?thesis by (auto simp: bfs_inv_def bfs_order_def)
qed

lemma bfs_inv_done:
  assumes "bfs_inv E s vs (length vs)"
  shows "set vs = reachable E s"
proof
  show "set vs \<subseteq> reachable E s" using assms by (simp add: bfs_inv_def bfs_order_def)
  show "reachable E s \<subseteq> set vs"
  proof (rule reach_closed)
    show "s \<in> set vs" using assms by (auto simp: bfs_inv_def bfs_order_def)
    show "w \<in> set vs" if "v \<in> set vs" "(v, w) \<in> E" for v w using that assms by (fastforce simp: bfs_inv_def in_set_conv_nth)
  qed
qed

lemma bfs_inv_step:
  assumes inv: "bfs_inv E s vs head" and lt: "head < length vs" and new: "set new = E `` {vs ! head} - set vs" and d: "distinct (vs @ new)"
  shows "bfs_inv E s (vs @ new) (head + 1)"
proof -
  let ?D = "distance E s" and ?v = "vs ! head" and ?vs = "vs @ new"
  have ord: "bfs_order E s vs" and close: "\<And>i. i < head \<Longrightarrow> E `` {vs ! i} \<subseteq> set vs"
    and near: "\<And>x. x \<in> set vs \<Longrightarrow> ?D x \<le> ?D ?v + 1" and full: "\<And>x. x \<in> reachable E s \<Longrightarrow> ?D x \<le> ?D ?v \<Longrightarrow> x \<in> set vs"
    using inv lt by (auto simp: bfs_inv_def)
  have v1: "?v \<in> set vs" using lt by simp
  then have v: "?v \<in> set vs" "?v \<in> reachable E s" using ord unfolding bfs_order_def by blast+
  have newd: "x \<in> reachable E s \<and> ?D x = ?D ?v + 1" if "x \<in> set new" for x
  proof -
    have x: "(?v, x) \<in> E" "x \<notin> set vs" using that new by auto
    have r: "x \<in> reachable E s" by (rule reach_edge [OF v(2) x(1)])
    show ?thesis using r distance_edge [OF v(2) x(1)] full [OF r] x(2) by force
  qed
  have near': "?D x \<le> ?D ?v + 1" if "x \<in> set ?vs" for x using that near [of x] newd [of x] by auto
  have "sorted (map ?D new)" using newd by (auto simp: sorted_iff_nth_mono)
  then have sorted: "sorted (map ?D ?vs)"
    using ord near newd unfolding bfs_order_def map_append sorted_append by auto
  have ord': "bfs_order E s ?vs" using ord d sorted newd by (auto simp: bfs_order_def)
  have close': "E `` {?vs ! i} \<subseteq> set ?vs" if i: "i < head + 1" for i
  proof (cases "i = head")
    case True
    then show ?thesis using new lt by (auto simp: nth_append)
  next
    case False
    then have "i < head" using i by simp
    then show ?thesis using close [of i] lt by (auto simp: nth_append)
  qed
  have "(\<forall>x \<in> set ?vs. ?D x \<le> ?D (?vs ! (head + 1)) + 1) \<and> (\<forall>x \<in> reachable E s. ?D x \<le> ?D (?vs ! (head + 1)) \<longrightarrow> x \<in> set ?vs)"
    if h: "head + 1 < length ?vs"
  proof -
    let ?w = "?vs ! (head + 1)"
    have mono: "?D (?vs ! i) \<le> ?D (?vs ! j)" if "i \<le> j" "j < length ?vs" for i j
      using sorted_nth_mono [OF sorted that(1)] that by (simp del: map_append)
    have ge: "?D ?v \<le> ?D ?w" using mono [of head "head + 1"] h lt by (simp add: nth_append)
    have le: "?D ?w \<le> ?D ?v + 1" by (rule near' [OF nth_mem [OF h]])
    have "x \<in> set ?vs" if x: "x \<in> reachable E s" "?D x \<le> ?D ?w" for x
    proof (cases "?D x \<le> ?D ?v")
      case True
      then show ?thesis using full x(1) by simp
    next
      case False
      then have dx: "?D x = Suc (?D ?v)" and dw: "?D ?w = Suc (?D ?v)" using x(2) le by simp_all
      obtain p where p: "p \<in> reachable E s" "?D p = ?D ?v" "(p, x) \<in> E" by (rule distance_pred [OF x(1) dx])
      then have "p \<in> set vs" using full by simp
      then obtain i where i: "i < length vs" "vs ! i = p" by (auto simp: in_set_conv_nth)
      have "i < head + 1"
      proof (rule ccontr)
        assume "\<not> i < head + 1"
        then have "?D ?w \<le> ?D (?vs ! i)" using i(1) by (intro mono) simp_all
        then show False using i dw p(2) by (simp add: nth_append)
      qed
      then show ?thesis using close' [of i] i p(3) by (auto simp: nth_append)
    qed
    then show ?thesis using near' ge by force
  qed
  then show ?thesis using ord' close' lt by (simp add: bfs_inv_def)
qed


section \<open>The loops\<close>

text \<open>Calling the visitor along a list until it stops.\<close>

fun visits :: "'c visitor \<Rightarrow> int list \<Rightarrow> 'c \<Rightarrow> bool \<times> 'c" where
  "visits f [] c = (False, c)"
| "visits f (v # vs) c = (case f v c of (stop, c') \<Rightarrow> if stop then (True, c') else visits f vs c')"

lemma active_lists:
  assumes inv: "graph_inv g" and v: "gact g v"
  shows "ar_get (gr_counts g) v = Some (snd (gr_counts g) ! v)" and "ar_get (gr_adj g) v = Some (snd (gr_adj g) ! v)"
    and "snd (gr_counts g) ! v \<le> length (plist (snd (gr_adj g) ! v))"
    and "\<forall>x \<in> set (take (snd (gr_counts g) ! v) (plist (snd (gr_adj g) ! v))). 0 \<le> x \<and> nat x < gr_vertex_capacity g"
    and "nat ` set (nbrs g v) = gE g `` {v}" and "gr_vertex_capacity g < 2 ^ 31"
proof -
  have lay: "graph_layout g" using inv by (simp add: graph_inv_def)
  have cap: "v < gr_vertex_capacity g" using v by (simp add: gact_def)
  note sl = graph_slot [OF lay cap]
  show "ar_get (gr_counts g) v = Some (snd (gr_counts g) ! v)" "ar_get (gr_adj g) v = Some (snd (gr_adj g) ! v)"
      "snd (gr_counts g) ! v \<le> length (plist (snd (gr_adj g) ! v))" "gr_vertex_capacity g < 2 ^ 31"
    using sl lay by (simp_all add: ar_get_ok graph_layout_def)
  have "0 \<le> x \<and> gact g (nat x)" if "x \<in> set (nbrs g v)" for x using inv v that by (auto simp: graph_inv_def)
  then show "\<forall>x \<in> set (take (snd (gr_counts g) ! v) (plist (snd (gr_adj g) ! v))). 0 \<le> x \<and> nat x < gr_vertex_capacity g"
    unfolding nbrs_def [symmetric] by (auto simp: gact_def)
  show "nat ` set (nbrs g v) = gE g `` {v}" using nbrs_edges(1) [OF inv v] by (simp add: image_image)
qed

lemma reach_active:
  assumes inv: "graph_inv g" and s: "gact g s" and v: "v \<in> reachable (gE g) s"
  shows "gact g v"
  using reach_closed [of s "gV g" "gE g"] gE_sub [OF inv] s v by (auto simp: gV_def)

lemma bfs_loop_ok:
  assumes inv: "graph_inv g" and s: "gact g s" and b: "bfs_inv (gE g) s vs head"
    and t: "trav_inv (gr_vertex_capacity g) {} vs visited q"
  shows "\<exists>vs' stop ctx'. bfs_loop g f head (length vs) visited q ctx = Some ctx' \<and> bfs_order (gE g) s (vs @ vs') \<and>
    visits f (map int (drop head (vs @ vs'))) ctx = (stop, ctx') \<and> (stop \<or> set (vs @ vs') = reachable (gE g) s)"
  using b t
proof (induction "gr_vertex_capacity g - head" arbitrary: head vs visited q ctx rule: less_induct)
  case less
  have le: "length vs \<le> gr_vertex_capacity g" by (rule trav_inv_length [OF less.prems(2)])
  have ord: "bfs_order (gE g) s vs" and hl: "head \<le> length vs" using less.prems(1) by (simp_all add: bfs_inv_def)
  show ?case
  proof (cases "head < length vs")
    case False
    then have "head = length vs" using hl by simp
    then show ?thesis using ord bfs_inv_done less.prems(1)
      by (intro exI [of _ "[]"] exI [of _ False] exI [of _ ctx]) (subst bfs_loop.simps, simp)
  next
    case True
    define v where "v = vs ! head"
    have "v \<in> set vs" using True by (simp add: v_def)
    then have "v \<in> reachable (gE g) s" using ord by (auto simp: bfs_order_def)
    then have act: "gact g v" by (rule reach_active [OF inv s])
    note L = active_lists [OF inv act]
    have hq: "head < length (snd q)" using True le less.prems(2) by (simp add: trav_inv_def)
    have "take (length vs) (snd q) ! head = map int vs ! head" using less.prems(2) by (simp add: trav_inv_def)
    then have get: "ar_get q head = Some (int v)" using True hq by (simp add: ar_get_ok v_def)
    have dr: "drop head (vs @ ws) = v # drop (head + 1) (vs @ ws)" for ws
      using Cons_nth_drop_Suc [of head "vs @ ws"] True by (simp add: v_def nth_append One_nat_def)
    obtain stop ctx1 where fv: "f (int v) ctx = (stop, ctx1)" by fastforce
    show ?thesis
    proof (cases stop)
      case stopped: True
      have "visits f (map int (drop head (vs @ []))) ctx = (True, ctx1)" unfolding dr using fv stopped by simp
      then show ?thesis using True get fv stopped ord
        by (intro exI [of _ "[]"] exI [of _ True] exI [of _ ctx1]) (subst bfs_loop.simps, simp)
    next
      case go: False
      let ?us = "map nat (nbrs g v)"
      let ?vs = "fold (push_new {}) ?us vs"
      obtain visited' q' where e: "enqueue_neighbors (snd (gr_adj g) ! v) (snd (gr_counts g) ! v) 0 visited q (length vs) = Some (visited', q', length ?vs)"
          "trav_inv (gr_vertex_capacity g) {} ?vs visited' q'"
        using enqueue_neighbors_ok [OF less.prems(2) L(6,3,4), of 0] unfolding nbrs_def by auto
      obtain new where new: "?vs = vs @ new" "set new = set ?us - {} - set vs" using fold_push_prefix by blast
      have d: "distinct (vs @ new)" using e(2) new(1) by (simp add: trav_inv_def)
      have "set new = gE g `` {vs ! head} - set vs" using new(2) L(5) by (simp add: v_def)
      then have b': "bfs_inv (gE g) s (vs @ new) (head + 1)" by (rule bfs_inv_step [OF less.prems(1) True _ d])
      have m: "gr_vertex_capacity g - (head + 1) < gr_vertex_capacity g - head" using True le by simp
      obtain ws stop' ctx' where w: "bfs_loop g f (head + 1) (length (vs @ new)) visited' q' ctx1 = Some ctx'" "bfs_order (gE g) s ((vs @ new) @ ws)"
          "visits f (map int (drop (head + 1) ((vs @ new) @ ws))) ctx1 = (stop', ctx')" "stop' \<or> set ((vs @ new) @ ws) = reachable (gE g) s"
        using less.hyps [OF m b' e(2) [unfolded new(1)]] by blast
      have h1: "sz_add head 1 = head + 1" using True le L(6) by (simp add: sz_add_nowrap size_mod_def)
      have run: "bfs_loop g f head (length vs) visited q ctx = Some ctx'"
        using True get fv go L(1,2) e(1) w(1) h1 unfolding new(1) by (subst bfs_loop.simps) simp
      have "visits f (map int (drop head (vs @ (new @ ws)))) ctx = (stop', ctx')" unfolding dr using fv go w(3) by simp
      then show ?thesis using run w(2,4) by (intro exI [of _ "new @ ws"] exI [of _ stop'] exI [of _ ctx']) simp
    qed
  qed
qed


text \<open>The order of the other traversal: every vertex but the first is a neighbour of an earlier one.\<close>

definition search_order :: "(nat \<times> nat) set \<Rightarrow> nat \<Rightarrow> nat list \<Rightarrow> bool" where
  "search_order E s vs \<longleftrightarrow> distinct vs \<and> set vs \<subseteq> reachable E s \<and> (\<forall>i < length vs. vs ! i = s \<or> (\<exists>j < i. (vs ! j, vs ! i) \<in> E))"

lemma search_order_snoc:
  assumes "search_order E s ps" and "v \<notin> set ps" and "v \<in> reachable E s" and "v = s \<or> (\<exists>p \<in> set ps. (p, v) \<in> E)"
  shows "search_order E s (ps @ [v])"
proof -
  have "(ps @ [v]) ! i = s \<or> (\<exists>j < i. ((ps @ [v]) ! j, (ps @ [v]) ! i) \<in> E)" if i: "i < length (ps @ [v])" for i
  proof (cases "i < length ps")
    case True
    then have "ps ! i = s \<or> (\<exists>j < i. (ps ! j, ps ! i) \<in> E)" using assms(1) by (simp add: search_order_def)
    moreover have "(ps @ [v]) ! j = ps ! j" if "j \<le> i" for j using that True by (simp add: nth_append)
    ultimately show ?thesis by (metis le_refl less_imp_le)
  next
    case False
    then have "i = length ps" using i by simp
    then have i': "(ps @ [v]) ! i = v" and il: "i = length ps" by simp_all
    show ?thesis
    proof (cases "v = s")
      case False
      then obtain p j where p: "(p, v) \<in> E" "j < length ps" "ps ! j = p" using assms(4) by (auto simp: in_set_conv_nth)
      then have "((ps @ [v]) ! j, v) \<in> E" by (simp add: nth_append)
      then show ?thesis unfolding i' using p(2) il by blast
    qed (use i' in simp)
  qed
  then show ?thesis using assms(1-3) by (simp add: search_order_def)
qed

definition dfs_inv :: "(nat \<times> nat) set \<Rightarrow> nat \<Rightarrow> nat list \<Rightarrow> nat list \<Rightarrow> bool" where
  "dfs_inv E s ps st \<longleftrightarrow> search_order E s ps \<and> s \<in> set ps \<union> set st \<and> set st \<subseteq> reachable E s \<and>
    (\<forall>p \<in> set ps. E `` {p} \<subseteq> set ps \<union> set st) \<and> (\<forall>x \<in> set st. x = s \<or> (\<exists>p \<in> set ps. (p, x) \<in> E))"

lemma dfs_inv_done:
  assumes "dfs_inv E s ps []"
  shows "set ps = reachable E s"
proof
  show "set ps \<subseteq> reachable E s" using assms by (simp add: dfs_inv_def search_order_def)
  show "reachable E s \<subseteq> set ps" by (rule reach_closed) (use assms in \<open>auto simp: dfs_inv_def\<close>)
qed

lemma dfs_inv_step:
  assumes i: "dfs_inv E s ps (st @ [v])" and v: "v \<notin> set ps" and st: "set st' = set st \<union> (E `` {v} - insert v (set ps))"
  shows "dfs_inv E s (ps @ [v]) st'"
proof -
  have r: "v \<in> reachable E s" using i by (simp add: dfs_inv_def)
  have "search_order E s (ps @ [v])" by (rule search_order_snoc) (use i v r in \<open>simp_all add: dfs_inv_def\<close>)
  moreover have "set st \<subseteq> reachable E s" "s \<in> set ps \<union> set (st @ [v])" using i by (simp_all add: dfs_inv_def)
  then have "set st' \<subseteq> reachable E s" unfolding st using reach_edge [OF r] by auto
  moreover have "s \<in> set (ps @ [v]) \<union> set st'" using \<open>s \<in> set ps \<union> set (st @ [v])\<close> st by auto
  moreover have "E `` {p} \<subseteq> set (ps @ [v]) \<union> set st'" if p: "p \<in> set (ps @ [v])" for p
  proof (cases "p = v")
    case True
    then show ?thesis using st by auto
  next
    case False
    then have "E `` {p} \<subseteq> set ps \<union> set (st @ [v])" using i p by (simp add: dfs_inv_def)
    then show ?thesis using st by auto
  qed
  moreover have "x = s \<or> (\<exists>p \<in> set (ps @ [v]). (p, x) \<in> E)" if x: "x \<in> set st'" for x
  proof (cases "x \<in> set st")
    case True
    then have "x = s \<or> (\<exists>p \<in> set ps. (p, x) \<in> E)" using i by (simp add: dfs_inv_def)
    then show ?thesis by auto
  next
    case False
    then have "(v, x) \<in> E" using x st by simp
    then show ?thesis by auto
  qed
  ultimately show ?thesis unfolding dfs_inv_def by blast
qed

lemma dfs_loop_ok:
  assumes inv: "graph_inv g" and s: "gact g s" and b: "dfs_inv (gE g) s ps st"
    and t: "trav_inv (gr_vertex_capacity g) (set ps) st visited q"
  shows "\<exists>vs stop ctx'. dfs_loop g f (length st) visited q ctx = Some ctx' \<and> search_order (gE g) s (ps @ vs) \<and>
    visits f (map int vs) ctx = (stop, ctx') \<and> (stop \<or> set (ps @ vs) = reachable (gE g) s)"
  using b t
proof (induction "gr_vertex_capacity g - length ps" arbitrary: ps st visited q ctx rule: less_induct)
  case less
  have ord: "search_order (gE g) s ps" using less.prems(1) by (simp add: dfs_inv_def)
  show ?case
  proof (cases st rule: rev_cases)
    case Nil
    then show ?thesis using ord dfs_inv_done less.prems(1)
      by (intro exI [of _ "[]"] exI [of _ False] exI [of _ ctx]) (subst dfs_loop.simps, simp)
  next
    case (snoc st0 v)
    have r: "v \<in> reachable (gE g) s" using less.prems(1) snoc by (simp add: dfs_inv_def)
    then have act: "gact g v" by (rule reach_active [OF inv s])
    note L = active_lists [OF inv act]
    have vp: "v \<notin> set ps" using less.prems(2) snoc by (auto simp: trav_inv_def)
    have ql: "length st0 < length (snd q)" using trav_inv_length [OF less.prems(2)] less.prems(2) snoc by (simp add: trav_inv_def)
    have tk: "take (Suc (length st0)) (snd q) = map int st0 @ [int v]" using less.prems(2) snoc by (simp add: trav_inv_def)
    then have "snd q ! length st0 = int v" using take_Suc_conv_app_nth [OF ql] by simp
    then have get: "ar_get q (length st0) = Some (int v)" using ql by (simp add: ar_get_ok)
    have ord1: "search_order (gE g) s (ps @ [v])"
      by (rule search_order_snoc [OF ord vp r]) (use less.prems(1) snoc in \<open>simp add: dfs_inv_def\<close>)
    obtain stop ctx1 where fv: "f (int v) ctx = (stop, ctx1)" by fastforce
    show ?thesis
    proof (cases stop)
      case True
      then have "visits f (map int [v]) ctx = (True, ctx1)" using fv by simp
      moreover have "dfs_loop g f (length st) visited q ctx = Some ctx1" using get fv True snoc by (subst dfs_loop.simps) simp
      ultimately show ?thesis using ord1 by blast
    next
      case go: False
      have t0: "trav_inv (gr_vertex_capacity g) (set (ps @ [v])) st0 visited q"
        using less.prems(2) take_Suc_conv_app_nth [OF ql] tk snoc by (auto simp: trav_inv_def)
      let ?st = "fold (push_new (set (ps @ [v]))) (map nat (rev (nbrs g v))) st0"
      obtain visited' q' where e: "push_neighbors (snd (gr_adj g) ! v) (snd (gr_counts g) ! v) visited q (length st0) = Some (visited', q', length ?st)"
          "trav_inv (gr_vertex_capacity g) (set (ps @ [v])) ?st visited' q'"
        using push_neighbors_ok [OF t0 L(6,3,4)] unfolding nbrs_def by auto
      have "set ?st = set st0 \<union> (gE g `` {v} - insert v (set ps))" using L(5) by (simp add: fold_push_set)
      then have b': "dfs_inv (gE g) s (ps @ [v]) ?st" by (rule dfs_inv_step [OF less.prems(1) [unfolded snoc] vp])
      have "length ps < gr_vertex_capacity g"
      proof -
        have "insert v (set ps) \<subseteq> {..<gr_vertex_capacity g}" using less.prems(2) snoc by (auto simp: trav_inv_def)
        then have "card (insert v (set ps)) \<le> gr_vertex_capacity g" using card_mono [of "{..<gr_vertex_capacity g}"] by fastforce
        then show ?thesis using vp ord by (simp add: distinct_card search_order_def)
      qed
      then have m: "gr_vertex_capacity g - length (ps @ [v]) < gr_vertex_capacity g - length ps" by simp
      obtain ws stop' ctx' where w: "dfs_loop g f (length ?st) visited' q' ctx1 = Some ctx'" "search_order (gE g) s ((ps @ [v]) @ ws)"
          "visits f (map int ws) ctx1 = (stop', ctx')" "stop' \<or> set ((ps @ [v]) @ ws) = reachable (gE g) s"
        using less.hyps [OF m b' e(2)] by blast
      have "dfs_loop g f (length st) visited q ctx = Some ctx'"
        using get fv go L(1,2) e(1) w(1) snoc by (subst dfs_loop.simps) simp
      moreover have "visits f (map int (v # ws)) ctx = (stop', ctx')" using fv go w(3) by simp
      ultimately show ?thesis using w(2,4) by (intro exI [of _ "v # ws"] exI [of _ stop'] exI [of _ ctx']) simp
    qed
  qed
qed


section \<open>Whole traversals\<close>

lemma c_free_ok: "x \<in> heap_addrs H \<Longrightarrow> \<exists>H'. c_free (Some x) H = Some H' \<and> heap_addrs H' = heap_addrs H - {x}"
  by (auto simp: c_free_def heap_addrs_def)

lemma ar_malloc_ok:
  assumes "0 < es"
  obtains (null) H' where "ar_malloc es x (n * es) H = (None, H')" and "heap_addrs H' = heap_addrs H"
  | (block) b H' where "ar_malloc es x (n * es) H = (Some (b, replicate n x), H')" and "b \<notin> heap_addrs H" and "heap_addrs H' = insert b (heap_addrs H)"
proof (cases rule: c_malloc_cases [of H "n * es", case_names null block])
  case (null s)
  then show thesis by (intro that(1) [of "H\<lparr>heap_script := s\<rparr>"]) (simp_all add: ar_malloc_def heap_addrs_def)
next
  case block
  then show thesis using assms fresh_addr_notin [of "heap_live H"]
    by (intro that(2) [of "fresh_addr (heap_live H)" "H\<lparr>heap_live := fresh_addr (heap_live H) # heap_live H, heap_script := tl (heap_script H)\<rparr>"])
      (simp_all add: ar_malloc_def heap_addrs_def)
qed

text \<open>The two arrays: both are there and freed at the end, or the error path frees what there is.\<close>

lemma trav_alloc:
  assumes n: "n < 2 ^ 31"
  obtains (none) H1 where "int_calloc n H = (None, H1)" and "heap_addrs H1 = heap_addrs H"
  | (one) b1 H1 H2 H3 where "int_calloc n H = (Some (b1, replicate n 0), H1)" and "ar_malloc sizeof_int (0::int) (sz_mul n sizeof_int) H1 = (None, H2)"
    and "c_free (Some b1) H2 = Some H3" and "heap_addrs H3 = heap_addrs H"
  | (both) b1 b2 H1 H2 H3 H4 where "int_calloc n H = (Some (b1, replicate n 0), H1)"
    and "ar_malloc sizeof_int (0::int) (sz_mul n sizeof_int) H1 = (Some (b2, replicate n 0), H2)"
    and "c_free (Some b2) H2 = Some H3" and "c_free (Some b1) H3 = Some H4" and "heap_addrs H4 = heap_addrs H"
proof -
  have es: "0 < sizeof_int" by (simp add: sizeof_int_def)
  have m: "sz_mul n sizeof_int = n * sizeof_int" "\<not> size_mod \<le> n * sizeof_int"
    using n by (simp_all add: sizeof_int_def size_mod_def sz_mul_nowrap)
  have ic: "int_calloc n H = ar_malloc sizeof_int 0 (n * sizeof_int) H" using m(2) by (simp add: int_calloc_def)
  show thesis
  proof (cases rule: ar_malloc_ok [OF es, of "0::int" n H, case_names null block])
    case (null H1)
    then show thesis using ic by (intro that(1) [of H1]) simp_all
  next
    case a: (block b1 H1)
    show thesis
    proof (cases rule: ar_malloc_ok [OF es, of "0::int" n H1, case_names null block])
      case (null H2)
      then obtain H3 where "c_free (Some b1) H2 = Some H3" "heap_addrs H3 = heap_addrs H2 - {b1}" using c_free_ok [of b1 H2] a(3) by auto
      then show thesis using a null ic m(1) by (intro that(2) [of b1 H1 H2 H3]) auto
    next
      case b: (block b2 H2)
      obtain H3 where h3: "c_free (Some b2) H2 = Some H3" "heap_addrs H3 = heap_addrs H2 - {b2}" using c_free_ok [of b2 H2] b(3) by auto
      have "b1 \<in> heap_addrs H3" using h3(2) b(2,3) a(3) by auto
      then obtain H4 where h4: "c_free (Some b1) H3 = Some H4" "heap_addrs H4 = heap_addrs H3 - {b1}" using c_free_ok by blast
      have "heap_addrs H4 = heap_addrs H" using h4(2) h3(2) b(2,3) a(2,3) by auto
      then show thesis using a(1) b(1) ic m(1) h3(1) h4(1) by (intro that(3) [of b1 H1 b2 H2 H3 H4]) auto
    qed
  qed
qed

lemma trav_start:
  assumes "s < cap"
  shows "trav_inv cap {} [s] (b1, (replicate cap 0)[s := 1]) (b2, (replicate cap 0)[0 := int s])"
proof -
  have "take (length [s]) ((replicate cap (0::int))[0 := int s]) = map int [s]" using assms by (cases cap) simp_all
  then show ?thesis using assms by (auto simp: trav_inv_def nth_list_update)
qed

text \<open>What a traversal in the order \<open>ord\<close> may do.\<close>

definition traversal :: "((nat \<times> nat) set \<Rightarrow> nat \<Rightarrow> nat list \<Rightarrow> bool) \<Rightarrow> abstract_graph \<Rightarrow> int \<Rightarrow> 'c visitor \<Rightarrow> 'c \<Rightarrow> c_heap \<Rightarrow>
    (zenit_result_t \<times> 'c \<times> c_heap) option \<Rightarrow> bool" where
  "traversal ord s start f ctx H res \<longleftrightarrow> (\<exists>r ctx' H'. res = Some (r, ctx', H') \<and> heap_addrs H' = heap_addrs H \<and>
    (case s of (V, E, k) \<Rightarrow>
      if \<not> is_vertex start V then r = ZENIT_ERROR_PARAM \<and> ctx' = ctx
      else r = ZENIT_ERROR_ALLOC \<and> ctx' = ctx \<or>
        r = ZENIT_OK \<and> (\<exists>vs stop. ord E (nat start) vs \<and> visits f (map int vs) ctx = (stop, ctx') \<and> (stop \<or> set vs = reachable E (nat start)))))"

lemma bfs_ok:
  assumes inv: "graph_inv g"
  shows "traversal bfs_order (gV g, gE g, k) start f ctx H (zenit_graph_bfs (Some g) start (Some f) ctx H)"
proof -
  have lay: "graph_layout g" using inv by (simp add: graph_inv_def)
  have n: "gr_vertex_capacity g < 2 ^ 31" using lay by (simp add: graph_layout_def)
  show ?thesis
  proof (cases "is_vertex start (gV g)")
    case False
    then have "vertex_active g start = Some False" using vertex_active_ok [OF lay, of start] by (auto simp: is_vertex_def gV_def)
    then show ?thesis using False by (simp add: zenit_graph_bfs_def traversal_def)
  next
    case True
    then have va: "vertex_active g start = Some True" and act: "gact g (nat start)" and s0: "0 \<le> start"
      using vertex_active_ok [OF lay, of start] by (auto simp: is_vertex_def gV_def)
    have sc: "nat start < gr_vertex_capacity g" using act by (simp add: gact_def)
    show ?thesis
    proof (cases rule: trav_alloc [OF n, of H, case_names none one both])
      case (none H1)
      then show ?thesis using va True by (simp add: zenit_graph_bfs_def traversal_def)
    next
      case (one b1 H1 H2 H3)
      then show ?thesis using va True by (simp add: zenit_graph_bfs_def traversal_def)
    next
      case (both b1 b2 H1 H2 H3 H4)
      obtain vs' stop ctx' where l: "bfs_loop g f 0 (length [nat start]) (b1, (replicate (gr_vertex_capacity g) 0)[nat start := 1])
            (b2, (replicate (gr_vertex_capacity g) 0)[0 := int (nat start)]) ctx = Some ctx'" "bfs_order (gE g) (nat start) ([nat start] @ vs')"
          "visits f (map int (drop 0 ([nat start] @ vs'))) ctx = (stop, ctx')" "stop \<or> set ([nat start] @ vs') = reachable (gE g) (nat start)"
        using bfs_loop_ok [OF inv act bfs_inv_start trav_start [OF sc], where f = f and ctx = ctx] by blast
      have "zenit_graph_bfs (Some g) start (Some f) ctx H = Some (ZENIT_OK, ctx', H4)"
        using va both(1-4) l(1) sc s0 by (simp add: zenit_graph_bfs_def ar_put_def One_nat_def)
      moreover have "\<exists>vs stop. bfs_order (gE g) (nat start) vs \<and> visits f (map int vs) ctx = (stop, ctx') \<and> (stop \<or> set vs = reachable (gE g) (nat start))"
        using l(2-4) by (intro exI [of _ "[nat start] @ vs'"] exI [of _ stop]) simp
      ultimately show ?thesis using both(5) True by (simp add: traversal_def)
    qed
  qed
qed

lemma dfs_ok:
  assumes inv: "graph_inv g"
  shows "traversal search_order (gV g, gE g, k) start f ctx H (zenit_graph_dfs (Some g) start (Some f) ctx H)"
proof -
  have lay: "graph_layout g" using inv by (simp add: graph_inv_def)
  have n: "gr_vertex_capacity g < 2 ^ 31" using lay by (simp add: graph_layout_def)
  show ?thesis
  proof (cases "is_vertex start (gV g)")
    case False
    then have "vertex_active g start = Some False" using vertex_active_ok [OF lay, of start] by (auto simp: is_vertex_def gV_def)
    then show ?thesis using False by (simp add: zenit_graph_dfs_def traversal_def)
  next
    case True
    then have va: "vertex_active g start = Some True" and act: "gact g (nat start)" and s0: "0 \<le> start"
      using vertex_active_ok [OF lay, of start] by (auto simp: is_vertex_def gV_def)
    have sc: "nat start < gr_vertex_capacity g" using act by (simp add: gact_def)
    have d0: "dfs_inv (gE g) (nat start) [] [nat start]" by (simp add: dfs_inv_def search_order_def)
    show ?thesis
    proof (cases rule: trav_alloc [OF n, of H, case_names none one both])
      case (none H1)
      then show ?thesis using va True by (simp add: zenit_graph_dfs_def traversal_def)
    next
      case (one b1 H1 H2 H3)
      then show ?thesis using va True by (simp add: zenit_graph_dfs_def traversal_def)
    next
      case (both b1 b2 H1 H2 H3 H4)
      obtain vs stop ctx' where l: "dfs_loop g f (length [nat start]) (b1, (replicate (gr_vertex_capacity g) 0)[nat start := 1])
            (b2, (replicate (gr_vertex_capacity g) 0)[0 := int (nat start)]) ctx = Some ctx'" "search_order (gE g) (nat start) ([] @ vs)"
          "visits f (map int vs) ctx = (stop, ctx')" "stop \<or> set ([] @ vs) = reachable (gE g) (nat start)"
        using dfs_loop_ok [OF inv act d0, where f = f and ctx = ctx] trav_start [OF sc] by fastforce
      have "zenit_graph_dfs (Some g) start (Some f) ctx H = Some (ZENIT_OK, ctx', H4)"
        using va both(1-4) l(1) sc s0 by (simp add: zenit_graph_dfs_def ar_put_def One_nat_def)
      moreover have "\<exists>vs stop. search_order (gE g) (nat start) vs \<and> visits f (map int vs) ctx = (stop, ctx') \<and> (stop \<or> set vs = reachable (gE g) (nat start))"
        using l(2-4) by (intro exI [of _ vs] exI [of _ stop]) simp
      ultimately show ?thesis using both(5) True by (simp add: traversal_def)
    qed
  qed
qed


text \<open>The replies determine the abstract graph.\<close>

lemma graph_step_functional: "graph_step d c s r s1 \<Longrightarrow> graph_step d c s r s2 \<Longrightarrow> s1 = s2"
  by (cases s; cases c) (auto split: if_splits)

lemma graph_steps_functional: "graph_steps d cs s rs s1 \<Longrightarrow> graph_steps d cs s rs s2 \<Longrightarrow> s1 = s2"
proof (induction arbitrary: s2 rule: graph_steps.induct)
  case (graph_done s)
  then show ?case by (auto elim: graph_steps_NilE)
next
  case (graph_next c s r s' cs rs s'')
  from graph_next.prems obtain t where t: "graph_step d c s r t" "graph_steps d cs t rs s2" by (auto elim: graph_steps_ConsE)
  have "t = s'" by (rule graph_step_functional [OF t(1) graph_next.hyps(1)])
  then show ?case using t(2) graph_next.IH by simp
qed

lemma graph_run_inv:
  assumes "allocator_contract a live" and "cap \<noteq> 1" "cap < 2 ^ 31" and "zenit_graph_create_with_allocator cap d a h = Some (Some g, h1)"
    and "length cs \<le> 2 ^ 30" and "graph_run cs (Some g) h1 = Some (rs, Some g', h2)" and "graph_steps d cs ({}, {}, 0) rs s"
  shows "\<exists>k. graph_inv g' \<and> s = (gV g', gE g', k)"
proof -
  obtain rs' g'' h2' s' where r: "graph_run cs (Some g) h1 = Some (rs', Some g'', h2')" "graph_steps d cs ({}, {}, 0) rs' s'"
      "graph_state live h d s' g'' h2'"
    by (rule graph_run_created [OF assms(1-5)])
  have e: "rs' = rs" "g'' = g'" using r(1) assms(6) by simp_all
  have "s' = s" using graph_steps_functional [OF r(2)] assms(7) e by simp
  then show ?thesis using r(3) e by (auto simp: graph_state_def graph_ok_def)
qed

text \<open>
  C30: After any sequence of calls, the breadth-first traversal from a vertex ends, visits every vertex that is reachable from it exactly once and in the order of
  the distance from the start, or a part of that order when the visitor stops it, and frees both of its arrays, also when one of them cannot be allocated.
\<close>

theorem bfs_by_distance:
  assumes "allocator_contract a live" and "cap \<noteq> 1" and "cap < 2 ^ 31" and "zenit_graph_create_with_allocator cap d a h = Some (Some g, h1)"
    and "length cs \<le> 2 ^ 30" and "graph_run cs (Some g) h1 = Some (rs, Some g', h2)" and "graph_steps d cs ({}, {}, 0) rs s"
  shows "traversal bfs_order s start f ctx H (zenit_graph_bfs (Some g') start (Some f) ctx H)"
  using graph_run_inv [OF assms] by (auto intro: bfs_ok)

text \<open>
  C31: The traversal with a stack ends as well and visits every vertex that is reachable from its start exactly once, each one as a neighbour
  of a vertex visited before it.
\<close>

theorem dfs_visits_reachable:
  assumes "allocator_contract a live" and "cap \<noteq> 1" and "cap < 2 ^ 31" and "zenit_graph_create_with_allocator cap d a h = Some (Some g, h1)"
    and "length cs \<le> 2 ^ 30" and "graph_run cs (Some g) h1 = Some (rs, Some g', h2)" and "graph_steps d cs ({}, {}, 0) rs s"
  shows "traversal search_order s start f ctx H (zenit_graph_dfs (Some g') start (Some f) ctx H)"
  using graph_run_inv [OF assms] by (auto intro: dfs_ok)

definition collect :: "int list visitor" where
  "collect v vs = (False, vs @ [v])"

definition kite_calls :: "graph_call list" where
  "kite_calls = [Add_vertex, Add_vertex, Add_vertex, Add_vertex, Add_edge 0 1, Add_edge 0 2, Add_edge 0 3, Add_edge 1 3]"

lemma kite_run:
  obtains g h1 rs g' h2 s where "zenit_graph_create_with_allocator 2 True ZENIT_ALLOCATOR_DEFAULT graph_heap = Some (Some g, h1)"
    and "length kite_calls \<le> 2 ^ 30" and "graph_run kite_calls (Some g) h1 = Some (rs, Some g', h2)" and "graph_steps True kite_calls ({}, {}, 0) rs s"
proof -
  obtain g h1 where g: "zenit_graph_create_with_allocator 2 True ZENIT_ALLOCATOR_DEFAULT graph_heap = Some (Some g, h1)" using graph_heap_create by blast
  have len: "length kite_calls \<le> 2 ^ 30" by (simp add: kite_calls_def)
  show thesis by (rule graph_run_created [OF default_contract _ _ g len]) (use that [OF g len] in auto)
qed

theorem bfs_by_distance_witness:
  "\<exists>g h1 rs g' h2 s. zenit_graph_create_with_allocator 2 True ZENIT_ALLOCATOR_DEFAULT graph_heap = Some (Some g, h1) \<and>
    graph_run kite_calls (Some g) h1 = Some (rs, Some g', h2) \<and>
    traversal bfs_order s 0 collect [] plain_heap (zenit_graph_bfs (Some g') 0 (Some collect) [] plain_heap)"
proof -
  obtain g h1 rs g' h2 s where k: "zenit_graph_create_with_allocator 2 True ZENIT_ALLOCATOR_DEFAULT graph_heap = Some (Some g, h1)"
      "length kite_calls \<le> 2 ^ 30" "graph_run kite_calls (Some g) h1 = Some (rs, Some g', h2)" "graph_steps True kite_calls ({}, {}, 0) rs s"
    by (rule kite_run)
  have "traversal bfs_order s 0 collect [] plain_heap (zenit_graph_bfs (Some g') 0 (Some collect) [] plain_heap)"
    by (rule bfs_by_distance [OF default_contract _ _ k(1-4)]) simp_all
  then show ?thesis using k(1,3) by blast
qed

theorem dfs_visits_reachable_witness:
  "\<exists>g h1 rs g' h2 s. zenit_graph_create_with_allocator 2 True ZENIT_ALLOCATOR_DEFAULT graph_heap = Some (Some g, h1) \<and>
    graph_run kite_calls (Some g) h1 = Some (rs, Some g', h2) \<and>
    traversal search_order s 0 collect [] plain_heap (zenit_graph_dfs (Some g') 0 (Some collect) [] plain_heap)"
proof -
  obtain g h1 rs g' h2 s where k: "zenit_graph_create_with_allocator 2 True ZENIT_ALLOCATOR_DEFAULT graph_heap = Some (Some g, h1)"
      "length kite_calls \<le> 2 ^ 30" "graph_run kite_calls (Some g) h1 = Some (rs, Some g', h2)" "graph_steps True kite_calls ({}, {}, 0) rs s"
    by (rule kite_run)
  have "traversal search_order s 0 collect [] plain_heap (zenit_graph_dfs (Some g') 0 (Some collect) [] plain_heap)"
    by (rule dfs_visits_reachable [OF default_contract _ _ k(1-4)]) simp_all
  then show ?thesis using k(1,3) by blast
qed

text \<open>
  The traversal with a stack marks a vertex when it pushes it, not when it visits it, so that its order is not depth-first: with the edges
  0-1, 0-2, 0-3 and 1-3 it visits 2 before 3, although 3 is a neighbour of 1, which it has just visited.
\<close>

lemma dfs_not_depth_first:
  "map_option (\<lambda>(r, vs, H). (r, vs)) (do { (g, h) \<leftarrow> zenit_graph_create 0 True plain_heap; (rs, g', h') \<leftarrow> graph_run kite_calls g h;
     zenit_graph_dfs g' 0 (Some collect) [] plain_heap }) = Some (ZENIT_OK, [0, 1, 2, 3])"
  by code_simp

end
