(* ===== verification/Zenit_String.thy ===== *)
theory Zenit_String
  imports Zenit_Vector Zenit_Blocks Zenit_CString
begin

text \<open>
  The dynamic string (\<open>include/libzenit/string.h\<close>, \<open>src/string.c\<close>): a vector of characters that always ends
  in the terminating NUL, behind a handle of its own.
\<close>

section \<open>State and operations\<close>

record 'h zenit_string_t =
  str_self :: nat
  str_vec :: "'h zenit_vector_t option"
  str_allocator :: "'h zenit_allocator_t"

definition sizeof_string :: nat where
  "sizeof_string = 40"

definition push_null :: "'h zenit_string_t \<Rightarrow> 'h \<Rightarrow> (zenit_result_t \<times> 'h zenit_string_t \<times> 'h) option" where
  "push_null s h = do {
     (r, v, h1) \<leftarrow> zenit_vector_push (str_vec s) (Some [0]) h;
     Some (r, s\<lparr>str_vec := v\<rparr>, h1)
   }"

definition string_create_empty :: "'h zenit_allocator_t \<Rightarrow> 'h \<Rightarrow> ('h zenit_string_t option \<times> 'h) option" where
  "string_create_empty a h =
    (case alloc_fn a sizeof_string h of
       (None, h1) \<Rightarrow> Some (None, h1)
     | (Some b, h1) \<Rightarrow>
         (case zenit_vector_create_with_allocator 1 a h1 of
            (None, h2) \<Rightarrow> do { h3 \<leftarrow> free_fn a (Some (maddr b)) h2; Some (None, h3) }
          | (Some v, h2) \<Rightarrow> do {
              (r, s, h3) \<leftarrow> push_null \<lparr>str_self = maddr b, str_vec = Some v, str_allocator = a\<rparr> h2;
              if r \<noteq> ZENIT_OK then do {
                h4 \<leftarrow> zenit_vector_destroy (str_vec s) h3;
                h5 \<leftarrow> free_fn a (Some (str_self s)) h4;
                Some (None, h5)
              } else Some (Some s, h3)
            }))"

definition zenit_string_create :: "c_heap \<Rightarrow> (c_heap zenit_string_t option \<times> c_heap) option" where
  "zenit_string_create = string_create_empty ZENIT_ALLOCATOR_DEFAULT"

definition zenit_string_create_with_allocator :: "'h zenit_allocator_t \<Rightarrow> 'h \<Rightarrow> ('h zenit_string_t option \<times> 'h) option" where
  "zenit_string_create_with_allocator a = string_create_empty a"

definition zenit_string_destroy :: "'h zenit_string_t option \<Rightarrow> 'h \<Rightarrow> 'h option" where
  "zenit_string_destroy string h =
    (case string of None \<Rightarrow> Some h
     | Some s \<Rightarrow> do {
         h1 \<leftarrow> zenit_vector_destroy (str_vec s) h;
         free_fn (str_allocator s) (Some (str_self s)) h1
       })"

text \<open>The loop that pushes the bytes one by one; the results of the calls are dropped.\<close>

function push_bytes :: "byte list \<Rightarrow> nat \<Rightarrow> nat \<Rightarrow> 'h zenit_vector_t option \<Rightarrow> 'h \<Rightarrow> ('h zenit_vector_t option \<times> 'h) option" where
  "push_bytes bytes i len v h =
    (if i < len then do {
       (_, v1, h1) \<leftarrow> zenit_vector_push v (Some (drop i bytes)) h;
       push_bytes bytes (i + 1) len v1 h1
     } else Some (v, h))"
  by pat_completeness auto
termination by (relation "measure (\<lambda>(bytes, i, len, v, h). len - i)") auto

declare push_bytes.simps [simp del]

definition zenit_string_append :: "'h zenit_string_t option \<Rightarrow> byte list option \<Rightarrow> nat \<Rightarrow> 'h \<Rightarrow> (zenit_result_t \<times> 'h zenit_string_t option \<times> 'h) option" where
  "zenit_string_append string data len h =
    (case string of None \<Rightarrow> Some (ZENIT_ERROR_NULL, None, h)
     | Some s \<Rightarrow>
       if len > 0 \<and> data = None then Some (ZENIT_ERROR_NULL, string, h)
       else if len = 0 then Some (ZENIT_OK, string, h)
       else do {
         let count = zenit_vector_count (str_vec s);
         let needed = sz_add count len;
         (r, v1, h1) \<leftarrow> zenit_vector_reserve (str_vec s) needed h;
         if r \<noteq> ZENIT_OK then Some (r, Some (s\<lparr>str_vec := v1\<rparr>), h1)
         else do {
           (_, v2, _) \<leftarrow> zenit_vector_pop v1 (Some [0]);
           bytes \<leftarrow> data;
           (v3, h2) \<leftarrow> push_bytes bytes 0 len v2 h1;
           (_, s', h3) \<leftarrow> push_null (s\<lparr>str_vec := v3\<rparr>) h2;
           Some (ZENIT_OK, Some s', h3)
         }
       })"

definition zenit_string_create_from_with_allocator :: "c_str option \<Rightarrow> 'h zenit_allocator_t \<Rightarrow> 'h \<Rightarrow> ('h zenit_string_t option \<times> 'h) option" where
  "zenit_string_create_from_with_allocator cstr a h = do {
     (s, h1) \<leftarrow> string_create_empty a h;
     if s = None then Some (None, h1)
     else (case cstr of None \<Rightarrow> Some (s, h1)
       | Some t \<Rightarrow>
         if t = [] then Some (s, h1)
         else do {
           (r, s', h2) \<leftarrow> zenit_string_append s (Some (t @ [0])) (length t) h1;
           if r \<noteq> ZENIT_OK then do { h3 \<leftarrow> zenit_string_destroy s' h2; Some (None, h3) }
           else Some (s', h2)
         })
   }"

definition zenit_string_create_from :: "c_str option \<Rightarrow> c_heap \<Rightarrow> (c_heap zenit_string_t option \<times> c_heap) option" where
  "zenit_string_create_from cstr = zenit_string_create_from_with_allocator cstr ZENIT_ALLOCATOR_DEFAULT"

definition zenit_string_append_cstr :: "'h zenit_string_t option \<Rightarrow> c_str option \<Rightarrow> 'h \<Rightarrow> (zenit_result_t \<times> 'h zenit_string_t option \<times> 'h) option" where
  "zenit_string_append_cstr string cstr h =
    (case string of None \<Rightarrow> Some (ZENIT_ERROR_NULL, None, h)
     | Some s \<Rightarrow>
       (case cstr of None \<Rightarrow> Some (ZENIT_OK, string, h)
        | Some t \<Rightarrow> if t = [] then Some (ZENIT_OK, string, h) else zenit_string_append string (Some (t @ [0])) (length t) h))"

text \<open>The pointer that \<open>zenit_string_cstr\<close> returns is an offset into the buffer of the vector.\<close>

definition zenit_string_cstr :: "'h zenit_string_t option \<Rightarrow> nat option" where
  "zenit_string_cstr string = (case string of None \<Rightarrow> None | Some s \<Rightarrow> zenit_vector_get (str_vec s) 0)"

definition zenit_string_length :: "'h zenit_string_t option \<Rightarrow> nat" where
  "zenit_string_length string = (case string of None \<Rightarrow> 0 | Some s \<Rightarrow> sz_sub (zenit_vector_count (str_vec s)) 1)"

definition zenit_string_capacity :: "'h zenit_string_t option \<Rightarrow> nat" where
  "zenit_string_capacity string = (case string of None \<Rightarrow> 0 | Some s \<Rightarrow> zenit_vector_capacity (str_vec s))"

definition zenit_string_clear :: "'h zenit_string_t option \<Rightarrow> 'h \<Rightarrow> ('h zenit_string_t option \<times> 'h) option" where
  "zenit_string_clear string h =
    (case string of None \<Rightarrow> Some (None, h)
     | Some s \<Rightarrow> do {
         (_, s', h1) \<leftarrow> push_null (s\<lparr>str_vec := zenit_vector_clear (str_vec s)\<rparr>) h;
         Some (Some s', h1)
       })"

definition zenit_string_reserve :: "'h zenit_string_t option \<Rightarrow> nat \<Rightarrow> 'h \<Rightarrow> (zenit_result_t \<times> 'h zenit_string_t option \<times> 'h) option" where
  "zenit_string_reserve string capacity h =
    (case string of None \<Rightarrow> Some (ZENIT_ERROR_NULL, None, h)
     | Some s \<Rightarrow> do {
         (r, v, h1) \<leftarrow> zenit_vector_reserve (str_vec s) capacity h;
         Some (r, Some (s\<lparr>str_vec := v\<rparr>), h1)
       })"

definition zenit_string_shrink_to_fit :: "'h zenit_string_t option \<Rightarrow> 'h \<Rightarrow> (zenit_result_t \<times> 'h zenit_string_t option \<times> 'h) option" where
  "zenit_string_shrink_to_fit string h =
    (case string of None \<Rightarrow> Some (ZENIT_ERROR_NULL, None, h)
     | Some s \<Rightarrow> do {
         (r, v, h1) \<leftarrow> zenit_vector_shrink_to_fit (str_vec s) h;
         Some (r, Some (s\<lparr>str_vec := v\<rparr>), h1)
       })"

definition zenit_string_empty :: "'h zenit_string_t option \<Rightarrow> bool" where
  "zenit_string_empty string = (case string of None \<Rightarrow> True | Some s \<Rightarrow> zenit_vector_count (str_vec s) \<le> 1)"

section \<open>Invariant\<close>

lemma slots_one: "n \<le> length m \<Longrightarrow> slots 1 m n = map (\<lambda>c. [c]) (take n m)"
  by (rule nth_equalityI) (simp_all add: slots_def slot_def Cons_nth_drop_Suc [symmetric] One_nat_def)

text \<open>The blocks of a string and the text it holds.\<close>

definition str_blocks :: "'h zenit_string_t \<Rightarrow> 'h zenit_vector_t \<Rightarrow> nat list" where
  "str_blocks s v = str_self s # vec_self v # opt_list (paddr (vec_buffer v))"

definition str_ok :: "('h \<Rightarrow> nat set) \<Rightarrow> 'h \<Rightarrow> byte list \<Rightarrow> 'h zenit_string_t \<Rightarrow> 'h \<Rightarrow> bool" where
  "str_ok live h0 t s h \<longleftrightarrow> (\<exists>v. str_vec s = Some v \<and> allocator_contract (str_allocator s) live \<and> vec_allocator v = str_allocator s \<and>
    vec_inv v \<and> vec_elem_size v = 1 \<and> vec_list v = map (\<lambda>c. [c]) (t @ [0]) \<and> fresh_blocks live h0 (str_blocks s v) h)"

lemma str_vec_owned:
  assumes "fresh_blocks live h0 (str_blocks s v) h" and "allocator_contract (vec_allocator v) live"
  shows "vec_owned live v h"
  using assms by (cases "vec_buffer v") (auto simp: vec_owned_def owned_def fresh_blocks_def str_blocks_def)

lemma str_blocks_keep:
  assumes "vec_keeps live v h v' h'" and "fresh_blocks live h0 (str_blocks s v) h"
  shows "fresh_blocks live h0 (str_blocks s v') h'"
  using assms by (cases "vec_buffer v"; cases "vec_buffer v'") (auto simp: vec_keeps_def fresh_blocks_def str_blocks_def)

text \<open>A push when there is room neither fails nor touches the heap.\<close>

lemma vector_push_room:
  assumes inv: "vec_inv v" and es: "vec_elem_size v = 1" and lt: "vec_count v < vec_capacity v" and e: "e \<noteq> []"
  obtains v' where "zenit_vector_push (Some v) (Some e) h = Some (ZENIT_OK, Some v', h)" and "vec_inv v'" and "vec_elem_size v' = 1"
    and "vec_list v' = vec_list v @ [[hd e]]" and "vec_capacity v' = vec_capacity v" and "vec_self v' = vec_self v"
    and "vec_allocator v' = vec_allocator v" and "paddr (vec_buffer v') = paddr (vec_buffer v)"
proof -
  obtain b where b: "vec_buffer v = Some b" "length (mbytes b) = vec_capacity v"
    using vec_buffer_Some [OF inv] lt es by auto
  let ?n = "vec_count v"
  have ar: "sz_mul ?n 1 = ?n" "sz_add ?n 1 = Suc ?n" using lt vec_capacity_less [OF inv] by (simp_all add: size_simps)
  obtain x where x: "take 1 e = [x]" "hd e = x" using e by (cases e) (simp_all add: One_nat_def)
  have l: "1 \<le> length e" using e by (cases e) (simp_all add: One_nat_def)
  let ?v = "v\<lparr>vec_buffer := Some (b\<lparr>mbytes := blit (mbytes b) ?n [x]\<rparr>), vec_count := Suc ?n\<rparr>"
  have "zenit_vector_push (Some v) (Some e) h = Some (ZENIT_OK, Some ?v, h)"
    using lt l b by (simp add: zenit_vector_push_def vector_make_room_def es ar user_read_def x mem_write_def)
  moreover have "slots 1 (blit (mbytes b) (?n * 1) [x]) (Suc ?n) = slots 1 (mbytes b) ?n @ [[x]]"
    using lt b(2) by (intro slots_blit_last) (simp_all add: One_nat_def)
  then have "vec_list ?v = vec_list v @ [[hd e]]" using b(1) es x by (simp add: vec_list_def)
  moreover have "vec_inv ?v" using inv b lt es by (simp add: vec_inv_def)
  ultimately show thesis using es b(1) by (intro that [of ?v]) simp_all
qed


lemma str_okE:
  assumes "str_ok live h0 t s h"
  obtains v where "str_vec s = Some v" and "allocator_contract (str_allocator s) live" and "vec_allocator v = str_allocator s"
    and "vec_inv v" and "vec_elem_size v = 1" and "vec_list v = map (\<lambda>c. [c]) (t @ [0])" and "fresh_blocks live h0 (str_blocks s v) h"
    and "vec_owned live v h" and "vec_count v = Suc (length t)"
proof -
  obtain v where v: "str_vec s = Some v" "allocator_contract (str_allocator s) live" "vec_allocator v = str_allocator s"
    "vec_inv v" "vec_elem_size v = 1" "vec_list v = map (\<lambda>c. [c]) (t @ [0])" "fresh_blocks live h0 (str_blocks s v) h"
    using assms by (auto simp: str_ok_def)
  have "vec_owned live v h" using str_vec_owned [OF v(7)] v(2,3) by simp
  moreover have "vec_count v = Suc (length t)" using arg_cong [OF v(6), of length] by simp
  ultimately show thesis using v by (intro that)
qed

lemma str_okI:
  assumes "vec_keeps live v h v' h'" and "fresh_blocks live h0 (str_blocks s v) h" and "allocator_contract (str_allocator s) live"
    and "vec_allocator v = str_allocator s" and "vec_elem_size v = 1" and "vec_list v' = map (\<lambda>c. [c]) (t @ [0])"
  shows "str_ok live h0 t (s\<lparr>str_vec := Some v'\<rparr>) h'"
  using assms str_blocks_keep [OF assms(1,2)] by (auto simp: str_ok_def vec_keeps_def str_blocks_def)

text \<open>The text that the pointer of \<open>zenit_string_cstr\<close> leads to, and the accessors.\<close>

lemma str_accessors:
  assumes "str_ok live h0 t s h"
  shows "\<exists>p. zenit_string_cstr (Some s) = Some p \<and> mem_read (zenit_vector_data (str_vec s)) p (length t + 1) = Some (t @ [0])"
    and "zenit_string_length (Some s) = length t" and "zenit_string_empty (Some s) = (t = [])"
    and "length t < zenit_string_capacity (Some s)" and "length t + 1 < size_mod"
proof -
  obtain v where v: "str_vec s = Some v" "vec_inv v" "vec_elem_size v = 1" "vec_list v = map (\<lambda>c. [c]) (t @ [0])" "vec_count v = Suc (length t)"
    using assms by (rule str_okE)
  have cap: "Suc (length t) \<le> vec_capacity v" "vec_capacity v < size_mod" using vec_invD(5) [OF v(2)] vec_capacity_less [OF v(2)] v(5) by simp_all
  obtain b where b: "vec_buffer v = Some b" "length (mbytes b) = vec_capacity v" using vec_buffer_Some [OF v(2)] cap v(3) by auto
  have "map (\<lambda>c. [c]) (take (Suc (length t)) (mbytes b)) = map (\<lambda>c. [c]) (t @ [0])"
    using v(3-5) b cap slots_one [of "Suc (length t)" "mbytes b"] by (simp add: vec_list_def)
  then have tk: "take (Suc (length t)) (mbytes b) = t @ [0]" by (rule map_injective) (simp add: inj_def)
  show "\<exists>p. zenit_string_cstr (Some s) = Some p \<and> mem_read (zenit_vector_data (str_vec s)) p (length t + 1) = Some (t @ [0])"
    using v(1,3,5) b cap tk by (simp add: zenit_string_cstr_def zenit_vector_get_def zenit_vector_data_def mem_read_def sz_mul_def One_nat_def)
  show "zenit_string_length (Some s) = length t" using v(1,5) cap by (simp add: zenit_string_length_def zenit_vector_count_def sz_sub_nowrap)
  show "zenit_string_empty (Some s) = (t = [])" using v(1,5) by (simp add: zenit_string_empty_def zenit_vector_count_def One_nat_def)
  show "length t < zenit_string_capacity (Some s)" using v(1) cap by (simp add: zenit_string_capacity_def zenit_vector_capacity_def)
  show "length t + 1 < size_mod" using cap by (simp add: One_nat_def)
qed

section \<open>Updates\<close>

lemma push_bytes_ok:
  assumes "vec_inv v" and "vec_elem_size v = 1" and "vec_count v + (len - i) \<le> vec_capacity v" and "len \<le> length bytes" and "i \<le> len"
  shows "\<exists>v'. push_bytes bytes i len (Some v) h = Some (Some v', h) \<and> vec_inv v' \<and> vec_elem_size v' = 1 \<and>
    vec_list v' = vec_list v @ map (\<lambda>c. [c]) (drop i (take len bytes)) \<and> vec_capacity v' = vec_capacity v \<and> vec_self v' = vec_self v \<and>
    vec_allocator v' = vec_allocator v \<and> paddr (vec_buffer v') = paddr (vec_buffer v)"
  using assms
proof (induction "len - i" arbitrary: i v)
  case 0
  then show ?case by (subst push_bytes.simps) simp
next
  case (Suc k)
  then have i: "i < len" "i < length bytes" by simp_all
  have room: "vec_count v < vec_capacity v" and ne: "drop i bytes \<noteq> []" using Suc.prems(3) i by simp_all
  obtain v1 where v1: "zenit_vector_push (Some v) (Some (drop i bytes)) h = Some (ZENIT_OK, Some v1, h)" "vec_inv v1" "vec_elem_size v1 = 1"
      "vec_list v1 = vec_list v @ [[hd (drop i bytes)]]" "vec_capacity v1 = vec_capacity v" "vec_self v1 = vec_self v"
      "vec_allocator v1 = vec_allocator v" "paddr (vec_buffer v1) = paddr (vec_buffer v)"
    by (rule vector_push_room [OF Suc.prems(1,2) room ne])
  have c1: "vec_count v1 = Suc (vec_count v)" using arg_cong [OF v1(4), of length] by simp
  have k: "k = len - (i + 1)" "i + 1 \<le> len" "vec_count v1 + (len - (i + 1)) \<le> vec_capacity v1" using Suc.hyps(2) Suc.prems(3) i c1 v1(5) by simp_all
  have d: "drop i (take len bytes) = hd (drop i bytes) # drop (i + 1) (take len bytes)"
    using i Cons_nth_drop_Suc [of i "take len bytes"] by (simp add: hd_drop_conv_nth One_nat_def)
  show ?case using Suc.hyps(1) [OF k(1) v1(2,3) k(3) Suc.prems(4) k(2)] v1 i(1) unfolding d
    by (subst push_bytes.simps) auto
qed

definition append_post :: "('h \<Rightarrow> nat set) \<Rightarrow> 'h \<Rightarrow> byte list \<Rightarrow> byte list \<Rightarrow> zenit_result_t \<Rightarrow> 'h zenit_string_t \<Rightarrow> 'h \<Rightarrow> bool" where
  "append_post live h0 t u r s' h' \<longleftrightarrow> r = ZENIT_OK \<and> str_ok live h0 (t @ u) s' h' \<or> r = ZENIT_ERROR_ALLOC \<and> str_ok live h0 t s' h'"

lemma str_append_ok:
  assumes ok: "str_ok live h0 t s h" and len: "len \<le> length bytes" and fit: "length t + len + 1 < size_mod"
  shows "\<exists>r s' h'. zenit_string_append (Some s) (Some bytes) len h = Some (r, Some s', h') \<and> append_post live h0 t (take len bytes) r s' h'"
proof (cases "len = 0")
  case True
  then show ?thesis using ok by (auto simp: zenit_string_append_def append_post_def)
next
  case pos: False
  obtain v where v: "str_vec s = Some v" "allocator_contract (str_allocator s) live" "vec_allocator v = str_allocator s"
    "vec_inv v" "vec_elem_size v = 1" "vec_list v = map (\<lambda>c. [c]) (t @ [0])" "fresh_blocks live h0 (str_blocks s v) h"
    "vec_owned live v h" "vec_count v = Suc (length t)"
    using ok by (rule str_okE)
  let ?n = "Suc (length t) + len"
  have n: "sz_add (Suc (length t)) len = ?n" "?n * vec_elem_size v < size_mod" using fit v(5) by (simp_all add: sz_add_nowrap One_nat_def)
  obtain r v1 h1 where r: "zenit_vector_reserve (Some v) ?n h = Some (r, Some v1, h1)" "vec_keeps live v h v1 h1" "vec_list v1 = vec_list v"
      "r = ZENIT_ERROR_ALLOC \<and> v1 = v \<or> r = ZENIT_OK \<and> ?n \<le> vec_capacity v1"
    using vector_reserve_refines [OF v(4,8) n(2)] by blast
  have s1: "str_ok live h0 t (s\<lparr>str_vec := Some v1\<rparr>) h1" by (rule str_okI [OF r(2) v(7,2,3,5)]) (use r(3) v(6) in simp)
  show ?thesis
  proof (cases "r = ZENIT_OK")
    case False
    then have "r = ZENIT_ERROR_ALLOC" using r(4) by simp
    moreover have "zenit_string_append (Some s) (Some bytes) len h = Some (r, Some (s\<lparr>str_vec := Some v1\<rparr>), h1)"
      using False pos r(1) v(1,9) n(1) by (simp add: zenit_string_append_def Let_def zenit_vector_count_def)
    ultimately show ?thesis using s1 by (simp add: append_post_def)
  next
    case True
    then have cap: "?n \<le> vec_capacity v1" using r(4) by auto
    have i1: "vec_inv v1" and e1: "vec_elem_size v1 = 1" using r(2) v(5) by (simp_all add: vec_keeps_def)
    have ne: "vec_list v1 \<noteq> []" using r(3) v(6) by simp
    have bl: "butlast (vec_list v1) = map (\<lambda>c. [c]) t" using r(3) v(6) by (simp add: butlast_append)
    obtain v2 where v2: "zenit_vector_pop (Some v1) (Some [0]) = Some (ZENIT_OK, Some v2, Some (last (vec_list v1) @ drop 1 [0]))" "vec_inv v2"
        "vec_buffer v2 = vec_buffer v1" "vec_self v2 = vec_self v1" "vec_allocator v2 = vec_allocator v1" "vec_elem_size v2 = 1" "vec_list v2 = map (\<lambda>c. [c]) t"
      using vector_pop_refines [OF i1, of "[0]"] ne e1 bl by (auto simp: One_nat_def)
    have c2: "vec_count v2 = length t" using arg_cong [OF v2(7), of length] by simp
    have "vec_capacity v2 = vec_capacity v1" using vec_invD(3) [OF v2(2)] vec_invD(3) [OF i1] v2(3,6) e1 by simp
    then have room: "vec_count v2 + (len - 0) \<le> vec_capacity v2" "vec_count v2 + len < vec_capacity v2" using cap c2 by simp_all
    obtain v3 where v3: "push_bytes bytes 0 len (Some v2) h1 = Some (Some v3, h1)" "vec_inv v3" "vec_elem_size v3 = 1"
        "vec_list v3 = vec_list v2 @ map (\<lambda>c. [c]) (drop 0 (take len bytes))" "vec_capacity v3 = vec_capacity v2" "vec_self v3 = vec_self v2"
        "vec_allocator v3 = vec_allocator v2" "paddr (vec_buffer v3) = paddr (vec_buffer v2)"
      using push_bytes_ok [OF v2(2,6) room(1) len le0, of h1] by blast
    have "vec_count v3 = length t + len" using arg_cong [OF v3(4), of length] c2 len by simp
    then have room3: "vec_count v3 < vec_capacity v3" using room(2) c2 v3(5) by simp
    obtain v4 where v4: "zenit_vector_push (Some v3) (Some [0]) h1 = Some (ZENIT_OK, Some v4, h1)" "vec_inv v4" "vec_elem_size v4 = 1"
        "vec_list v4 = vec_list v3 @ [[hd [0]]]" "vec_self v4 = vec_self v3" "vec_allocator v4 = vec_allocator v3" "paddr (vec_buffer v4) = paddr (vec_buffer v3)"
      by (rule vector_push_room [OF v3(2,3) room3, of "[0]"]) auto
    have "vec_list v4 = map (\<lambda>c. [c]) ((t @ take len bytes) @ [0])" using v4(4) v3(4) v2(7) by simp
    moreover have "fresh_blocks live h0 (str_blocks s v1) h1" by (rule str_blocks_keep [OF r(2) v(7)])
    moreover have "str_blocks s v4 = str_blocks s v1" using v4(5,7) v3(6,8) v2(3,4) by (simp add: str_blocks_def)
    moreover have "vec_allocator v4 = str_allocator s" using v4(6) v3(7) v2(5) r(2) v(3) by (simp add: vec_keeps_def)
    ultimately have "str_ok live h0 (t @ take len bytes) (s\<lparr>str_vec := Some v4\<rparr>) h1"
      using v4(2,3) v(2) by (auto simp: str_ok_def str_blocks_def)
    moreover have "zenit_string_append (Some s) (Some bytes) len h = Some (ZENIT_OK, Some (s\<lparr>str_vec := Some v4\<rparr>), h1)"
      using pos True r(1) v(1,9) n(1) v2(1) v3(1) v4(1) by (simp add: zenit_string_append_def Let_def zenit_vector_count_def push_null_def)
    ultimately show ?thesis by (simp add: append_post_def)
  qed
qed


lemma str_clear_ok:
  assumes ok: "str_ok live h0 t s h"
  shows "\<exists>s'. zenit_string_clear (Some s) h = Some (Some s', h) \<and> str_ok live h0 [] s' h"
proof -
  obtain v where v: "str_vec s = Some v" "allocator_contract (str_allocator s) live" "vec_allocator v = str_allocator s"
    "vec_inv v" "vec_elem_size v = 1" "fresh_blocks live h0 (str_blocks s v) h" "vec_count v = Suc (length t)"
    using ok by (rule str_okE)
  let ?v = "v\<lparr>vec_count := 0\<rparr>"
  have i: "vec_inv ?v" "vec_elem_size ?v = 1" "vec_list ?v = []" "vec_count ?v < vec_capacity ?v"
    using v(4,5,7) by (simp_all add: vec_inv_def vec_list_def)
  obtain v1 where v1: "zenit_vector_push (Some ?v) (Some [0]) h = Some (ZENIT_OK, Some v1, h)" "vec_inv v1" "vec_elem_size v1 = 1"
      "vec_list v1 = vec_list ?v @ [[hd [0]]]" "vec_self v1 = vec_self ?v" "vec_allocator v1 = vec_allocator ?v" "paddr (vec_buffer v1) = paddr (vec_buffer ?v)"
    by (rule vector_push_room [OF i(1,2,4), of "[0]"]) auto
  have "str_ok live h0 [] (s\<lparr>str_vec := Some v1\<rparr>) h"
    using v1(2-7) i(3) v(2,3,6) by (auto simp: str_ok_def str_blocks_def)
  then show ?thesis using v(1) v1(1) by (simp add: zenit_string_clear_def push_null_def zenit_vector_clear_def)
qed

lemma str_reserve_ok:
  assumes ok: "str_ok live h0 t s h" and c: "c < size_mod"
  shows "\<exists>r s' h'. zenit_string_reserve (Some s) c h = Some (r, Some s', h') \<and> (r = ZENIT_OK \<or> r = ZENIT_ERROR_ALLOC) \<and> str_ok live h0 t s' h'"
proof -
  obtain v where v: "str_vec s = Some v" "allocator_contract (str_allocator s) live" "vec_allocator v = str_allocator s"
    "vec_inv v" "vec_elem_size v = 1" "vec_list v = map (\<lambda>c. [c]) (t @ [0])" "fresh_blocks live h0 (str_blocks s v) h" "vec_owned live v h"
    using ok by (rule str_okE)
  have "c * vec_elem_size v < size_mod" using c v(5) by simp
  then obtain r v1 h1 where r: "zenit_vector_reserve (Some v) c h = Some (r, Some v1, h1)" "vec_keeps live v h v1 h1" "vec_list v1 = vec_list v"
      "r = ZENIT_ERROR_ALLOC \<or> r = ZENIT_OK"
    using vector_reserve_refines [OF v(4,8), of c] by blast
  have "str_ok live h0 t (s\<lparr>str_vec := Some v1\<rparr>) h1" by (rule str_okI [OF r(2) v(7,2,3,5)]) (use r(3) v(6) in simp)
  then show ?thesis using r(1,4) v(1) by (auto simp: zenit_string_reserve_def)
qed

lemma str_shrink_ok:
  assumes ok: "str_ok live h0 t s h"
  shows "\<exists>r s' h'. zenit_string_shrink_to_fit (Some s) h = Some (r, Some s', h') \<and> (r = ZENIT_OK \<or> r = ZENIT_ERROR_ALLOC) \<and> str_ok live h0 t s' h'"
proof -
  obtain v where v: "str_vec s = Some v" "allocator_contract (str_allocator s) live" "vec_allocator v = str_allocator s"
    "vec_inv v" "vec_elem_size v = 1" "vec_list v = map (\<lambda>c. [c]) (t @ [0])" "fresh_blocks live h0 (str_blocks s v) h" "vec_owned live v h"
    using ok by (rule str_okE)
  obtain r v1 h1 where r: "zenit_vector_shrink_to_fit (Some v) h = Some (r, Some v1, h1)" "vec_keeps live v h v1 h1" "vec_list v1 = vec_list v"
      "r = ZENIT_ERROR_ALLOC \<or> r = ZENIT_OK"
    using vector_shrink_refines [OF v(4,8)] by blast
  have "str_ok live h0 t (s\<lparr>str_vec := Some v1\<rparr>) h1" by (rule str_okI [OF r(2) v(7,2,3,5)]) (use r(3) v(6) in simp)
  then show ?thesis using r(1,4) v(1) by (auto simp: zenit_string_shrink_to_fit_def)
qed

section \<open>Life cycle\<close>

lemma str_destroy_ok:
  assumes ok: "str_ok live h0 t s h"
  shows "\<exists>h'. zenit_string_destroy (Some s) h = Some h' \<and> live h' = live h0"
proof -
  obtain v where v: "str_vec s = Some v" "allocator_contract (str_allocator s) live" "fresh_blocks live h0 (str_blocks s v) h" "vec_owned live v h"
    using ok by (rule str_okE)
  obtain h1 where h1: "zenit_vector_destroy (Some v) h = Some h1" "live h1 = live h - insert (vec_self v) (paddrs (vec_buffer v))"
    using vector_destroy_owned [OF v(4)] by blast
  have "str_self s \<in> live h1" using v(3) h1(2) by (cases "vec_buffer v") (auto simp: fresh_blocks_def str_blocks_def)
  then obtain h2 where "free_fn (str_allocator s) (Some (str_self s)) h1 = Some h2" "live h2 = live h1 - {str_self s}"
    by (rule allocator_contract.free_addr [OF v(2)])
  then show ?thesis using h1 v(1,3) by (cases "vec_buffer v") (auto simp: zenit_string_destroy_def fresh_blocks_def str_blocks_def)
qed

lemma str_create_ok:
  assumes c: "allocator_contract a live"
  shows "\<exists>r h'. string_create_empty a h = Some (r, h') \<and> (case r of None \<Rightarrow> live h' = live h | Some s \<Rightarrow> str_ok live h [] s h' \<and> str_allocator s = a)"
proof (cases rule: allocator_contract.alloc_cases [OF c, of sizeof_string h, case_names null block])
  case (null h1)
  then show ?thesis by (simp add: string_create_empty_def)
next
  case (block b h1)
  obtain vo h2 where vo: "zenit_vector_create_with_allocator 1 a h1 = (vo, h2)" by fastforce
  show ?thesis
  proof (cases vo)
    case None
    have l: "live h2 = live h1" using vector_create_null [OF c] vo None by simp
    then have "maddr b \<in> live h2" using block by simp
    then obtain h3 where "free_fn a (Some (maddr b)) h2 = Some h3" "live h3 = live h2 - {maddr b}" by (rule allocator_contract.free_addr [OF c])
    then show ?thesis using block vo None l by (simp add: string_create_empty_def)
  next
    case (Some v)
    have v: "vec_inv v" "vec_owned live v h2" "vec_list v = []" "vec_self v \<notin> live h1" "vec_elem_size v = 1" "vec_buffer v = None" "vec_allocator v = a"
        "live h2 = insert (vec_self v) (live h1)" using vector_create_empty [OF c] vo Some by simp_all
    let ?s = "\<lparr>str_self = maddr b, str_vec = Some v, str_allocator = a\<rparr>"
    have fr: "fresh_blocks live h (str_blocks ?s v) h2" using block(3,4) v(4,6,8) by (auto simp: fresh_blocks_def str_blocks_def)
    have "vec_capacity v = 0" using vec_invD(4) [OF v(1)] v(6) by simp
    then have g: "vec_can_grow v" using v(5) by (simp add: vec_can_grow_def grown_def size_mod_def)
    obtain r v1 h3 where r: "zenit_vector_push (Some v) (Some [0]) h2 = Some (r, Some v1, h3)" "vec_keeps live v h2 v1 h3"
        "r = ZENIT_ERROR_ALLOC \<and> v1 = v \<or> r = ZENIT_OK \<and> vec_list v1 = vec_list v @ [take (vec_elem_size v) [0]]"
      using vector_push_refines [OF v(1,2) g, of "[0]"] v(5) by (auto simp: One_nat_def)
    show ?thesis
    proof (cases "r = ZENIT_OK")
      case True
      then have "vec_list v1 = map (\<lambda>c. [c]) ([] @ [0])" using r(3) v(3,5) by (auto simp: One_nat_def)
      then have "str_ok live h [] (?s\<lparr>str_vec := Some v1\<rparr>) h3" using c v(5,7) by (intro str_okI [OF r(2) fr]) simp_all
      then show ?thesis using block vo Some r(1) True by (simp add: string_create_empty_def push_null_def)
    next
      case False
      then have v1: "v1 = v" "live h3 = live h2" using r(2,3) v(6) by (auto simp: vec_keeps_def)
      obtain h4 where h4: "zenit_vector_destroy (Some v) h3 = Some h4" "live h4 = live h3 - insert (vec_self v) (paddrs (vec_buffer v))"
        using vector_destroy_owned [of live v h3] r(2) v1(1) by (auto simp: vec_keeps_def)
      have "maddr b \<in> live h4" using h4(2) v1(2) v(4,6,8) block(4) by auto
      then obtain h5 where "free_fn a (Some (maddr b)) h4 = Some h5" "live h5 = live h4 - {maddr b}" by (rule allocator_contract.free_addr [OF c])
      then show ?thesis using block vo Some r(1) False h4 v1 v(4,6,8) by (auto simp: string_create_empty_def push_null_def)
    qed
  qed
qed

lemma str_create_from_ok:
  assumes c: "allocator_contract a live" and fit: "length t + 1 < size_mod"
  shows "\<exists>r h'. zenit_string_create_from_with_allocator (Some t) a h = Some (r, h') \<and>
    (case r of None \<Rightarrow> live h' = live h | Some s \<Rightarrow> str_ok live h t s h')"
proof -
  obtain r1 h1 where r1: "string_create_empty a h = Some (r1, h1)"
      "case r1 of None \<Rightarrow> live h1 = live h | Some s \<Rightarrow> str_ok live h [] s h1 \<and> str_allocator s = a"
    using str_create_ok [OF c, of h] by blast
  show ?thesis
  proof (cases "r1 = None \<or> t = []")
    case True
    then show ?thesis using r1 by (auto simp: zenit_string_create_from_with_allocator_def split: option.splits)
  next
    case False
    then obtain s where s: "r1 = Some s" "str_ok live h [] s h1" using r1(2) by auto
    obtain r s' h2 where a: "zenit_string_append (Some s) (Some (t @ [0])) (length t) h1 = Some (r, Some s', h2)" "append_post live h [] t r s' h2"
      using str_append_ok [OF s(2), of "length t" "t @ [0]"] fit by auto
    show ?thesis
    proof (cases "r = ZENIT_OK")
      case True
      then show ?thesis using a r1(1) s(1) False by (simp add: zenit_string_create_from_with_allocator_def append_post_def)
    next
      case err: False
      then have "str_ok live h [] s' h2" using a(2) by (simp add: append_post_def)
      from str_destroy_ok [OF this] obtain h3 where "zenit_string_destroy (Some s') h2 = Some h3" "live h3 = live h" by auto
      then show ?thesis using a(1) r1(1) s(1) False err by (simp add: zenit_string_create_from_with_allocator_def)
    qed
  qed
qed

section \<open>Sequences of calls\<close>

datatype string_call = Append "byte list" | Append_cstr c_str | Clear_string | Reserve_string nat | Shrink_string

definition string_do :: "string_call \<Rightarrow> 'h zenit_string_t option \<Rightarrow> 'h \<Rightarrow> (zenit_result_t \<times> 'h zenit_string_t option \<times> 'h) option" where
  "string_do c s h =
    (case c of
       Append bs \<Rightarrow> zenit_string_append s (Some bs) (length bs) h
     | Append_cstr t \<Rightarrow> zenit_string_append_cstr s (Some t) h
     | Clear_string \<Rightarrow> do { (s', h') \<leftarrow> zenit_string_clear s h; Some (ZENIT_OK, s', h') }
     | Reserve_string n \<Rightarrow> zenit_string_reserve s n h
     | Shrink_string \<Rightarrow> zenit_string_shrink_to_fit s h)"

fun string_run :: "string_call list \<Rightarrow> 'h zenit_string_t option \<Rightarrow> 'h \<Rightarrow> (zenit_result_t list \<times> 'h zenit_string_t option \<times> 'h) option" where
  "string_run [] s h = Some ([], s, h)"
| "string_run (c # cs) s h = do { (r, s', h') \<leftarrow> string_do c s h; (rs, s'', h'') \<leftarrow> string_run cs s' h'; Some (r # rs, s'', h'') }"

text \<open>The text after one call that was answered with \<open>r\<close>.\<close>

definition string_effect :: "string_call \<Rightarrow> zenit_result_t \<Rightarrow> byte list \<Rightarrow> byte list" where
  "string_effect c r t =
    (if r \<noteq> ZENIT_OK then t else case c of Append bs \<Rightarrow> t @ bs | Append_cstr u \<Rightarrow> t @ u | Clear_string \<Rightarrow> [] | _ \<Rightarrow> t)"

definition call_size :: "string_call \<Rightarrow> nat" where
  "call_size c = (case c of Append bs \<Rightarrow> length bs | Append_cstr u \<Rightarrow> length u | _ \<Rightarrow> 0)"

definition call_fits :: "string_call \<Rightarrow> bool" where
  "call_fits c = (case c of Reserve_string n \<Rightarrow> n < size_mod | _ \<Rightarrow> True)"

lemma string_do_ok:
  assumes ok: "str_ok live h0 t s h" and fit: "length t + call_size c + 1 < size_mod" "call_fits c"
  shows "\<exists>r s' h'. string_do c (Some s) h = Some (r, Some s', h') \<and> r \<in> {ZENIT_OK, ZENIT_ERROR_ALLOC} \<and> str_ok live h0 (string_effect c r t) s' h'"
proof (cases c)
  case (Append bs)
  then show ?thesis using str_append_ok [OF ok, of "length bs" bs] fit by (fastforce simp: string_do_def string_effect_def call_size_def append_post_def)
next
  case (Append_cstr u)
  show ?thesis
  proof (cases "u = []")
    case True
    then show ?thesis using Append_cstr ok by (simp add: string_do_def zenit_string_append_cstr_def string_effect_def)
  next
    case False
    then show ?thesis using Append_cstr str_append_ok [OF ok, of "length u" "u @ [0]"] fit
      by (fastforce simp: string_do_def zenit_string_append_cstr_def string_effect_def call_size_def append_post_def)
  qed
next
  case Clear_string
  then show ?thesis using str_clear_ok [OF ok] by (auto simp: string_do_def string_effect_def)
next
  case (Reserve_string n)
  then show ?thesis using str_reserve_ok [OF ok, of n] fit by (auto simp: string_do_def string_effect_def call_fits_def)
next
  case Shrink_string
  then show ?thesis using str_shrink_ok [OF ok] by (auto simp: string_do_def string_effect_def)
qed

lemma string_effect_length: "length (string_effect c r t) \<le> length t + call_size c"
  by (cases c) (simp_all add: string_effect_def call_size_def)

lemma string_run_ok:
  assumes "str_ok live h0 t s h" and "length t + sum_list (map call_size cs) + 1 < size_mod" and "list_all call_fits cs"
  shows "\<exists>rs s' h'. string_run cs (Some s) h = Some (rs, Some s', h') \<and> length rs = length cs \<and> set rs \<subseteq> {ZENIT_OK, ZENIT_ERROR_ALLOC} \<and>
    str_ok live h0 (fold (\<lambda>(c, r). string_effect c r) (zip cs rs) t) s' h'"
  using assms
proof (induction cs arbitrary: t s h)
  case Nil
  then show ?case by (intro exI [of _ "[]"]) simp
next
  case (Cons c cs)
  obtain r s1 h1 where r: "string_do c (Some s) h = Some (r, Some s1, h1)" "r \<in> {ZENIT_OK, ZENIT_ERROR_ALLOC}" "str_ok live h0 (string_effect c r t) s1 h1"
    using string_do_ok [OF Cons.prems(1), of c] Cons.prems(2,3) by auto
  have "length (string_effect c r t) + sum_list (map call_size cs) + 1 < size_mod" using Cons.prems(2) string_effect_length [of c r t] by simp
  then obtain rs s' h' where i: "string_run cs (Some s1) h1 = Some (rs, Some s', h')" "length rs = length cs" "set rs \<subseteq> {ZENIT_OK, ZENIT_ERROR_ALLOC}"
      "str_ok live h0 (fold (\<lambda>(c, r). string_effect c r) (zip cs rs) (string_effect c r t)) s' h'"
    using Cons.IH [OF r(3)] Cons.prems(3) by auto
  then show ?case using r(1,2) by (intro exI [of _ "r # rs"] exI [of _ s'] exI [of _ h']) simp
qed

text \<open>
  C32: A string created from a text and changed by any sequence of calls holds the text that the successful calls leave, always terminated; each call
  either succeeds or reports a failed allocation without an effect, whatever the capacity, and destroying the string frees its three blocks.
\<close>

theorem string_trace_refines:
  assumes contract: "allocator_contract a live" and create: "zenit_string_create_from_with_allocator (Some u) a h = Some (Some s, h1)"
    and fit: "length u + sum_list (map call_size cs) + 1 < size_mod" "list_all call_fits cs"
  shows "\<exists>rs s' h2 h3 t p. string_run cs (Some s) h1 = Some (rs, Some s', h2) \<and> set rs \<subseteq> {ZENIT_OK, ZENIT_ERROR_ALLOC} \<and>
    t = fold (\<lambda>(c, r). string_effect c r) (zip cs rs) u \<and>
    zenit_string_cstr (Some s') = Some p \<and> mem_read (zenit_vector_data (str_vec s')) p (length t + 1) = Some (t @ [0]) \<and>
    zenit_string_length (Some s') = length t \<and> (zenit_string_empty (Some s') \<longleftrightarrow> t = []) \<and> length t < zenit_string_capacity (Some s') \<and>
    zenit_string_destroy (Some s') h2 = Some h3 \<and> live h3 = live h"
proof -
  have "length u + 1 < size_mod" using fit(1) by simp
  then have s: "str_ok live h u s h1" using str_create_from_ok [OF contract, of u h] create by auto
  obtain rs s' h2 where r: "string_run cs (Some s) h1 = Some (rs, Some s', h2)" "set rs \<subseteq> {ZENIT_OK, ZENIT_ERROR_ALLOC}"
      "str_ok live h (fold (\<lambda>(c, r). string_effect c r) (zip cs rs) u) s' h2"
    using string_run_ok [OF s fit] by blast
  obtain h3 where "zenit_string_destroy (Some s') h2 = Some h3" "live h3 = live h" using str_destroy_ok [OF r(3)] by blast
  then show ?thesis using r(1,2) str_accessors [OF r(3)] by blast
qed

definition string_heap :: c_heap where
  "string_heap = \<lparr>heap_live = [], heap_script = [True, True, True, False], heap_junk = 9\<rparr>"

definition string_demo_calls :: "string_call list" where
  "string_demo_calls = [Append_cstr (replicate 9 98), Append_cstr (replicate 9 98), Shrink_string, Clear_string, Shrink_string, Append [0, 99], Reserve_string 64]"

theorem string_trace_refines_witness:
  "\<exists>s h1 rs s' h2 h3. zenit_string_create_from_with_allocator (Some [97]) ZENIT_ALLOCATOR_DEFAULT string_heap = Some (Some s, h1) \<and>
    string_run string_demo_calls (Some s) h1 = Some (rs, Some s', h2) \<and> zenit_string_destroy (Some s') h2 = Some h3 \<and> heap_addrs h3 = {}"
proof -
  have "case zenit_string_create_from_with_allocator (Some [97]) ZENIT_ALLOCATOR_DEFAULT string_heap of Some (Some s, h1) \<Rightarrow> True | _ \<Rightarrow> False"
    by code_simp
  then obtain s h1 where s: "zenit_string_create_from_with_allocator (Some [97]) ZENIT_ALLOCATOR_DEFAULT string_heap = Some (Some s, h1)"
    by (auto split: option.splits prod.splits)
  have e: "heap_addrs string_heap = {}" by (simp add: heap_addrs_def string_heap_def)
  have f: "length [97 :: byte] + sum_list (map call_size string_demo_calls) + 1 < size_mod" "list_all call_fits string_demo_calls"
    by (simp_all add: string_demo_calls_def call_size_def call_fits_def size_mod_def)
  show ?thesis using string_trace_refines [OF default_contract s f] s e by auto
qed

lemma string_demo_replies:
  "map_option (\<lambda>(rs, s, h). (rs, zenit_string_length s))
     (do { (s, h) \<leftarrow> zenit_string_create_from (Some [97]) string_heap; string_run string_demo_calls s h }) =
   Some ([ZENIT_ERROR_ALLOC, ZENIT_OK, ZENIT_OK, ZENIT_OK, ZENIT_OK, ZENIT_OK, ZENIT_OK], 2)"
  by code_simp

end
