(* ===== verification/Zenit_Uuid.thy ===== *)
theory Zenit_Uuid
  imports Zenit_Hex
begin

unbundle bit_operations_syntax

text \<open>
  UUIDs (\<open>include/libzenit/uuid.h\<close>, \<open>src/uuid.c\<close>): generation, the text form and its parser. The random source of the platform is a
  parameter: the system call and the reads from the device are functions on a state of the world, and the
  model follows the branch of the code for Linux.
\<close>

section \<open>Operations\<close>

record zenit_uuid_t =
  uu_bytes :: "byte list"

text \<open>
  The platform: the system call returns a count and the bytes it delivered, opening the device may fail, and a
  read returns the bytes it delivered, none at the end or on an error.
\<close>

record 'w random_source =
  getrandom_fn :: "nat \<Rightarrow> 'w \<Rightarrow> int \<times> byte list \<times> 'w"
  urandom_open_fn :: "'w \<Rightarrow> bool \<times> 'w"
  urandom_read_fn :: "nat \<Rightarrow> 'w \<Rightarrow> byte list \<times> 'w"
  urandom_close_fn :: "'w \<Rightarrow> 'w"

function urandom_loop :: "'w random_source \<Rightarrow> byte list \<Rightarrow> nat \<Rightarrow> nat \<Rightarrow> 'w \<Rightarrow> (zenit_result_t \<times> byte list \<times> 'w) option" where
  "urandom_loop src buf got len w =
    (if got < len then
       (case urandom_read_fn src (len - got) w of (bs, w1) \<Rightarrow>
          do {
            buf' \<leftarrow> user_write buf got bs;
            if bs = [] then Some (ZENIT_ERROR_ALLOC, buf', urandom_close_fn src w1)
            else urandom_loop src buf' (got + length bs) len w1
          })
     else Some (ZENIT_OK, buf, urandom_close_fn src w))"
  by pat_completeness auto
termination
  by (relation "measure (\<lambda>(src, buf, got, len, w). len - got)") (auto simp: length_greater_0_conv [symmetric] simp del: length_greater_0_conv)

declare urandom_loop.simps [simp del]

definition random_bytes :: "'w random_source \<Rightarrow> byte list \<Rightarrow> nat \<Rightarrow> 'w \<Rightarrow> (zenit_result_t \<times> byte list \<times> 'w) option" where
  "random_bytes src buf len w =
    (case getrandom_fn src len w of (n, bs, w1) \<Rightarrow> do {
       buf1 \<leftarrow> user_write buf 0 bs;
       if n > 0 \<and> nat n = len then Some (ZENIT_OK, buf1, w1)
       else (case urandom_open_fn src w1 of (ok, w2) \<Rightarrow>
         if \<not> ok then Some (ZENIT_ERROR_ALLOC, buf1, w2)
         else urandom_loop src buf1 0 len w2)
     })"

definition zenit_uuid_generate :: "'w random_source \<Rightarrow> zenit_uuid_t option \<Rightarrow> 'w \<Rightarrow> (zenit_result_t \<times> zenit_uuid_t option \<times> 'w) option" where
  "zenit_uuid_generate src out w =
    (case out of None \<Rightarrow> Some (ZENIT_ERROR_NULL, None, w)
     | Some u \<Rightarrow> do {
         (r, bs, w1) \<leftarrow> random_bytes src (uu_bytes u) 16 w;
         if r \<noteq> ZENIT_OK then Some (r, Some (u\<lparr>uu_bytes := bs\<rparr>), w1)
         else do {
           b6 \<leftarrow> user_at bs 6;
           bs1 \<leftarrow> user_write bs 6 [(b6 AND 0x0f) OR 0x40];
           b8 \<leftarrow> user_at bs1 8;
           bs2 \<leftarrow> user_write bs1 8 [(b8 AND 0x3f) OR 0x80];
           Some (ZENIT_OK, Some (u\<lparr>uu_bytes := bs2\<rparr>), w1)
         }
       })"

definition is_dash_index :: "nat \<Rightarrow> bool" where
  "is_dash_index i \<longleftrightarrow> i = 4 \<or> i = 6 \<or> i = 8 \<or> i = 10"

definition hex_digits_lower :: "byte list" where
  "hex_digits_lower = [48, 49, 50, 51, 52, 53, 54, 55, 56, 57, 97, 98, 99, 100, 101, 102]"

definition hex_char :: "byte \<Rightarrow> byte" where
  "hex_char n = hex_digits_lower ! unat n"

function uuid_format_loop :: "byte list \<Rightarrow> nat \<Rightarrow> nat \<Rightarrow> byte list \<Rightarrow> (byte list \<times> nat) option" where
  "uuid_format_loop bs i pos out =
    (if i < 16 then do {
       (out1, pos1) \<leftarrow> (if is_dash_index i then do { out' \<leftarrow> user_write out pos [45]; Some (out', pos + 1) } else Some (out, pos));
       b \<leftarrow> user_at bs i;
       out2 \<leftarrow> user_write out1 pos1 [hex_char (drop_bit 4 b AND 0x0f)];
       out3 \<leftarrow> user_write out2 (pos1 + 1) [hex_char (b AND 0x0f)];
       uuid_format_loop bs (i + 1) (pos1 + 2) out3
     } else Some (out, pos))"
  by pat_completeness auto
termination by (relation "measure (\<lambda>(bs, i, pos, out). 16 - i)") auto

declare uuid_format_loop.simps [simp del]

definition zenit_uuid_format :: "zenit_uuid_t option \<Rightarrow> byte list option \<Rightarrow> (zenit_result_t \<times> byte list option) option" where
  "zenit_uuid_format uuid out =
    (case (uuid, out) of
       (Some u, Some d) \<Rightarrow> do {
         (d1, pos) \<leftarrow> uuid_format_loop (uu_bytes u) 0 0 d;
         d2 \<leftarrow> user_write d1 pos [0];
         Some (ZENIT_OK, Some d2)
       }
     | _ \<Rightarrow> Some (ZENIT_ERROR_NULL, out))"

definition uuid_hex_val :: "byte \<Rightarrow> int" where
  "uuid_hex_val c =
    (if in_range 48 57 c then char_val c - 48
     else if in_range 97 102 c then char_val c - 97 + 10
     else if in_range 65 70 c then char_val c - 65 + 10
     else - 1)"

function uuid_parse_loop :: "c_str \<Rightarrow> nat \<Rightarrow> nat \<Rightarrow> byte list \<Rightarrow> (zenit_result_t \<times> byte list) option" where
  "uuid_parse_loop str bi si out =
    (if bi < 16 then do {
       let sj = (if is_dash_index bi then si + 1 else si);
       c \<leftarrow> str_at str sj;
       c' \<leftarrow> str_at str (sj + 1);
       let hi = uuid_hex_val c;
       let lo = uuid_hex_val c';
       if hi < 0 \<or> lo < 0 then Some (ZENIT_ERROR_PARAM, out)
       else do {
         out' \<leftarrow> user_write out bi [word_of_int (push_bit 4 hi OR lo)];
         uuid_parse_loop str (bi + 1) (sj + 2) out'
       }
     } else Some (ZENIT_OK, out))"
  by pat_completeness auto
termination by (relation "measure (\<lambda>(str, bi, si, out). 16 - bi)") auto

declare uuid_parse_loop.simps [simp del]

definition zenit_uuid_parse :: "c_str option \<Rightarrow> zenit_uuid_t option \<Rightarrow> (zenit_result_t \<times> zenit_uuid_t option) option" where
  "zenit_uuid_parse str out =
    (case (str, out) of
       (Some s, Some u) \<Rightarrow>
         if length s \<noteq> 36 then Some (ZENIT_ERROR_PARAM, out)
         else do {
           c8 \<leftarrow> str_at s 8; c13 \<leftarrow> str_at s 13; c18 \<leftarrow> str_at s 18; c23 \<leftarrow> str_at s 23;
           if c8 \<noteq> 45 \<or> c13 \<noteq> 45 \<or> c18 \<noteq> 45 \<or> c23 \<noteq> 45 then Some (ZENIT_ERROR_PARAM, out)
           else do {
             (r, bs) \<leftarrow> uuid_parse_loop s 0 0 (uu_bytes u);
             Some (r, Some (u\<lparr>uu_bytes := bs\<rparr>))
           }
         }
     | _ \<Rightarrow> Some (ZENIT_ERROR_NULL, out))"

definition zenit_uuid_equal :: "zenit_uuid_t option \<Rightarrow> zenit_uuid_t option \<Rightarrow> bool option" where
  "zenit_uuid_equal a b =
    (case (a, b) of
       (Some u, Some v) \<Rightarrow> do {
         x \<leftarrow> user_read (uu_bytes u) 16;
         y \<leftarrow> user_read (uu_bytes v) 16;
         Some (x = y)
       }
     | _ \<Rightarrow> Some False)"

section \<open>Digits\<close>

lemma uuid_digit_all: "list_all (\<lambda>n. uuid_hex_val (hex_char n) = uint n \<and> hex_char n \<noteq> 0) (map of_nat [0..<16])"
  by code_simp

lemma uuid_digit:
  fixes n :: byte
  assumes "n < 16"
  shows "uuid_hex_val (hex_char n) = uint n" and "hex_char n \<noteq> 0"
  using uuid_digit_all nibble_cases [OF assms] unfolding list_all_iff by (auto simp del: set_map)

lemma high_nibble: "drop_bit 4 (b::byte) AND 0x0F = drop_bit 4 b"
proof -
  have "n < 4" if "bit b (4 + n)" for n using bit_imp_le_length [OF that] by simp
  then have "drop_bit 4 b AND mask 4 = drop_bit 4 b"
    by (intro bit_word_eqI) (auto simp: bit_simps)
  then show ?thesis by (simp add: mask_eq_exp_minus_1)
qed

lemma uuid_join: "word_of_int (push_bit 4 (uint x) OR uint y) = (push_bit 4 x OR y :: byte)"
  by (rule bit_word_eqI) (auto simp: bit_simps)

lemma uuid_digits:
  fixes b :: byte
  defines "c \<equiv> hex_char (drop_bit 4 b AND 0x0F)" and "d \<equiv> hex_char (b AND 0x0F)"
  shows "\<not> uuid_hex_val c < 0" "\<not> uuid_hex_val d < 0" "c \<noteq> 0" "d \<noteq> 0" "word_of_int (push_bit 4 (uuid_hex_val c) OR uuid_hex_val d) = b"
  unfolding c_def d_def high_nibble
  using uuid_digit [OF nibble_high_lt [of b]] uuid_digit [OF nibble_lt [of b]] uuid_join nibbles_join [of b] by simp_all

section \<open>Text form\<close>

text \<open>The text of one byte with the dash before it.\<close>

definition uuid_piece :: "byte list \<Rightarrow> nat \<Rightarrow> byte list" where
  "uuid_piece bs i = (if is_dash_index i then [45] else []) @ [hex_char (drop_bit 4 (bs ! i) AND 0x0F), hex_char (bs ! i AND 0x0F)]"

definition uuid_text :: "byte list \<Rightarrow> byte list" where
  "uuid_text bs = concat (map (uuid_piece bs) [0..<16])"

lemma blit_Cons_Cons: "Suc off + length (b # bs) \<le> length m \<Longrightarrow> blit m off (a # b # bs) = blit (blit m off [a]) (Suc off) (b # bs)"
  using blit_append [of off "[a]" "b # bs" m] by simp

lemma uuid_format_loop_ok:
  assumes "length bs = 16" and "pos + length (concat (map (uuid_piece bs) [i..<16])) \<le> length out"
  shows "uuid_format_loop bs i pos out =
    Some (blit out pos (concat (map (uuid_piece bs) [i..<16])), pos + length (concat (map (uuid_piece bs) [i..<16])))"
  using assms
proof (induction "16 - i" arbitrary: i pos out)
  case 0
  then show ?case by (subst uuid_format_loop.simps) simp
next
  case (Suc k)
  let ?rest = "concat (map (uuid_piece bs) [i + 1..<16])"
  have i: "i < 16" using Suc.hyps(2) by simp
  have u: "[i..<16] = i # [i + 1..<16]" using i upt_conv_Cons [of i 16] by (simp add: One_nat_def)
  let ?p = "uuid_piece bs i"
  let ?out = "blit out pos ?p"
  have len: "pos + length ?p + length ?rest \<le> length out" using Suc.prems(2) unfolding u by simp
  have step: "uuid_format_loop bs i pos out = uuid_format_loop bs (i + 1) (pos + length ?p) ?out"
    using i len Suc.prems(1)
    by (subst uuid_format_loop.simps)
      (auto simp: uuid_piece_def user_write_ok blit_Cons_Cons One_nat_def)
  have "uuid_format_loop bs (i + 1) (pos + length ?p) ?out = Some (blit ?out (pos + length ?p) ?rest, pos + length ?p + length ?rest)"
    by (rule Suc.hyps(1)) (use Suc.hyps(2) Suc.prems(1) len in simp_all)
  then show ?case unfolding step u using blit_append [of pos ?p ?rest out] len by simp
qed


text \<open>The position of the first digit of a byte.\<close>

definition uuid_pos :: "nat \<Rightarrow> nat" where
  "uuid_pos i = 2 * i + length (filter (\<lambda>d. d \<le> i) [4, 6, 8, 10])"

definition uuid_value :: "byte list \<Rightarrow> nat \<Rightarrow> byte" where
  "uuid_value s i = word_of_int (push_bit 4 (uuid_hex_val (s ! uuid_pos i)) OR uuid_hex_val (s ! (uuid_pos i + 1)))"

definition uuid_digits_ok :: "byte list \<Rightarrow> nat \<Rightarrow> bool" where
  "uuid_digits_ok s i \<longleftrightarrow> 0 \<le> uuid_hex_val (s ! uuid_pos i) \<and> 0 \<le> uuid_hex_val (s ! (uuid_pos i + 1))"

definition uuid_wf :: "byte list \<Rightarrow> bool" where
  "uuid_wf s \<longleftrightarrow> length s = 36 \<and> s ! 8 = 45 \<and> s ! 13 = 45 \<and> s ! 18 = 45 \<and> s ! 23 = 45 \<and> (\<forall>i < 16. uuid_digits_ok s i)"

lemma uuid_pos_step: "i < 16 \<Longrightarrow> (if is_dash_index i then x + 1 else x) = uuid_pos i \<Longrightarrow>
  (if is_dash_index (i + 1) then uuid_pos i + 2 + 1 else uuid_pos i + 2) = uuid_pos (i + 1)"
  by (auto simp: uuid_pos_def is_dash_index_def)

lemma uuid_pos_bound: "i < 16 \<Longrightarrow> uuid_pos i + 1 < 36"
proof -
  have "length (filter (\<lambda>d. d \<le> i) [4, 6, 8, 10]) \<le> length [4, 6, 8, 10 :: nat]" by (rule length_filter_le)
  moreover assume "i < 16"
  ultimately show ?thesis by (simp add: uuid_pos_def)
qed

lemma uuid_parse_loop_ok:
  assumes "length s = 36" and "length out = 16" and "bi \<le> 16" and "bi < 16 \<longrightarrow> (if is_dash_index bi then si + 1 else si) = uuid_pos bi"
  shows "\<exists>out'. length out' = 16 \<and> uuid_parse_loop s bi si out =
    (if \<forall>i \<in> {bi..<16}. uuid_digits_ok s i then Some (ZENIT_OK, take bi out @ map (uuid_value s) [bi..<16]) else Some (ZENIT_ERROR_PARAM, out'))"
  using assms
proof (induction "16 - bi" arbitrary: bi si out)
  case 0
  then show ?case by (subst uuid_parse_loop.simps) auto
next
  case (Suc k)
  have bi: "bi < 16" using Suc.hyps(2) by simp
  let ?p = "uuid_pos bi"
  have sj: "(if is_dash_index bi then si + 1 else si) = ?p" using Suc.prems(4) bi by simp
  have at: "str_at s ?p = Some (s ! ?p)" "str_at s (?p + 1) = Some (s ! (?p + 1))" using uuid_pos_bound [OF bi] Suc.prems(1) by simp_all
  have split: "(\<forall>i \<in> {bi..<16}. uuid_digits_ok s i) \<longleftrightarrow> uuid_digits_ok s bi \<and> (\<forall>i \<in> {bi + 1..<16}. uuid_digits_ok s i)"
    using bi by (auto simp: One_nat_def Suc_le_eq le_eq_less_or_eq)
  show ?case
  proof (cases "uuid_digits_ok s bi")
    case False
    then show ?thesis using bi sj at Suc.prems(2) unfolding split
      by (intro exI [of _ out]) (subst uuid_parse_loop.simps, auto simp: uuid_digits_ok_def Let_def)
  next
    case True
    let ?out = "blit out bi [uuid_value s bi]"
    have l: "length ?out = 16" "bi + 1 \<le> 16" using Suc.prems(2) bi by simp_all
    have "bi + 1 < 16 \<longrightarrow> (if is_dash_index (bi + 1) then ?p + 2 + 1 else ?p + 2) = uuid_pos (bi + 1)" using uuid_pos_step [OF bi sj] by blast
    moreover have k: "k = 16 - (bi + 1)" using Suc.hyps(2) by simp
    ultimately obtain out' where o: "length out' = 16" "uuid_parse_loop s (bi + 1) (?p + 2) ?out =
        (if \<forall>i \<in> {bi + 1..<16}. uuid_digits_ok s i then Some (ZENIT_OK, take (bi + 1) ?out @ map (uuid_value s) [bi + 1..<16]) else Some (ZENIT_ERROR_PARAM, out'))"
      using Suc.hyps(1) [OF k Suc.prems(1) l] by blast
    have run: "uuid_parse_loop s bi si out = uuid_parse_loop s (bi + 1) (?p + 2) ?out"
      using bi sj at True Suc.prems(2) by (subst uuid_parse_loop.simps) (simp add: uuid_digits_ok_def uuid_value_def Let_def user_write_ok not_less One_nat_def)
    have "take (bi + 1) ?out @ map (uuid_value s) [bi + 1..<16] = take bi out @ map (uuid_value s) [bi..<16]"
      using bi Suc.prems(2) upt_conv_Cons [of bi 16] by (simp add: blit_def One_nat_def)
    then show ?thesis using o True unfolding split run by (intro exI [of _ out']) simp
  qed
qed

lemma uuid_parse_ok:
  assumes "length (uu_bytes u) = 16"
  shows "\<exists>u'. length (uu_bytes u') = 16 \<and> zenit_uuid_parse (Some s) (Some u) =
    (if uuid_wf s then Some (ZENIT_OK, Some \<lparr>uu_bytes = map (uuid_value s) [0..<16]\<rparr>) else Some (ZENIT_ERROR_PARAM, Some u'))"
proof (cases "length s = 36")
  case False
  then show ?thesis using assms by (intro exI [of _ u]) (simp add: zenit_uuid_parse_def uuid_wf_def)
next
  case True
  obtain out' where o: "length out' = 16" "uuid_parse_loop s 0 0 (uu_bytes u) =
      (if \<forall>i \<in> {0..<16}. uuid_digits_ok s i then Some (ZENIT_OK, take 0 (uu_bytes u) @ map (uuid_value s) [0..<16]) else Some (ZENIT_ERROR_PARAM, out'))"
    using uuid_parse_loop_ok [OF True assms, of 0 0] by (auto simp: uuid_pos_def is_dash_index_def)
  have u: "u\<lparr>uu_bytes := bs\<rparr> = \<lparr>uu_bytes = bs\<rparr>" for bs by (cases u) simp
  show ?thesis
  proof (cases "s ! 8 = 45 \<and> s ! 13 = 45 \<and> s ! 18 = 45 \<and> s ! 23 = 45")
    case False
    then show ?thesis using assms True by (intro exI [of _ u]) (auto simp: zenit_uuid_parse_def uuid_wf_def)
  next
    case dashes: True
    then show ?thesis using o True u by (intro exI [of _ "\<lparr>uu_bytes = out'\<rparr>"]) (auto simp: zenit_uuid_parse_def uuid_wf_def)
  qed
qed


lemma upt_sixteen: "[0..<16] = [0, 1, 2, 3, 4, 5, 6, 7, 8, 9, 10, 11, 12, 13, 14, 15]"
  by code_simp

lemma sixteen:
  assumes "length bs = 16"
  obtains b0 b1 b2 b3 b4 b5 b6 b7 b8 b9 ba bb bc bd be bf where "bs = [b0, b1, b2, b3, b4, b5, b6, b7, b8, b9, ba, bb, bc, bd, be, bf]"
  using assms by (auto simp: length_Suc_conv numeral_eq_Suc)

lemma uuid_text_wf:
  assumes "length bs = 16"
  shows "uuid_wf (uuid_text bs)" and "map (uuid_value (uuid_text bs)) [0..<16] = bs" and "c_string (uuid_text bs)" and "length (uuid_text bs) = 36"
proof -
  obtain b0 b1 b2 b3 b4 b5 b6 b7 b8 b9 ba bb bc bd be bf where b: "bs = [b0, b1, b2, b3, b4, b5, b6, b7, b8, b9, ba, bb, bc, bd, be, bf]"
    using assms by (rule sixteen)
  have t: "uuid_text bs = concat (map (uuid_piece bs) [0, 1, 2, 3, 4, 5, 6, 7, 8, 9, 10, 11, 12, 13, 14, 15])" by (simp add: uuid_text_def upt_sixteen)
  note simps = uuid_piece_def is_dash_index_def
  have all: "(\<forall>i < 16. uuid_digits_ok s i) \<longleftrightarrow> list_all (uuid_digits_ok s) [0, 1, 2, 3, 4, 5, 6, 7, 8, 9, 10, 11, 12, 13, 14, 15]" for s
  proof -
    have "(\<forall>i < 16. uuid_digits_ok s i) \<longleftrightarrow> list_all (uuid_digits_ok s) [0..<16]" by (auto simp: list_all_iff)
    then show ?thesis unfolding upt_sixteen .
  qed
  note d = uuid_digits [unfolded not_less]
  show "length (uuid_text bs) = 36" unfolding t unfolding b by (simp add: simps)
  show "uuid_wf (uuid_text bs)" unfolding uuid_wf_def all t unfolding b by (simp add: simps uuid_digits_ok_def uuid_pos_def d)
  show "map (uuid_value (uuid_text bs)) [0..<16] = bs" unfolding upt_sixteen t unfolding b by (simp add: simps uuid_value_def uuid_pos_def d)
  show "c_string (uuid_text bs)" unfolding t unfolding b by (simp add: simps d)
qed

lemma uuid_format_ok:
  assumes "length (uu_bytes u) = 16" and "37 \<le> length d"
  shows "\<exists>d'. zenit_uuid_format (Some u) (Some d) = Some (ZENIT_OK, Some d') \<and> length d' = length d \<and>
    takeWhile (\<lambda>c. c \<noteq> 0) d' = uuid_text (uu_bytes u)"
proof -
  let ?t = "uuid_text (uu_bytes u)"
  note T = uuid_text_wf [OF assms(1)]
  have loop: "uuid_format_loop (uu_bytes u) 0 0 d = Some (blit d 0 ?t, 36)"
    using uuid_format_loop_ok [OF assms(1), of 0 0 d] assms(2) T(4) unfolding uuid_text_def [symmetric] by simp
  have d': "blit (blit d 0 ?t) 36 [0] = ?t @ 0 # drop 37 d" using assms(2) T(4) by (simp add: blit_def)
  have "takeWhile (\<lambda>c. c \<noteq> 0) (?t @ 0 # drop 37 d) = ?t" using T(3) by (subst takeWhile_append2) (auto simp: c_string_def)
  then show ?thesis using loop assms(2) T(4) d' by (simp add: zenit_uuid_format_def user_write_ok)
qed

section \<open>Properties\<close>

text \<open>
  C33: Formatting a UUID into a buffer of 37 bytes writes its canonical text, and parsing that text gives the UUID back. For an arbitrary string the parser stays
  inside the string, accepts it exactly when it has 36 characters with dashes and hexadecimal digits in their places, and rejects it otherwise.
\<close>

theorem uuid_roundtrip:
  assumes "length (uu_bytes u) = 16" and "length (uu_bytes v) = 16" and "37 \<le> length d"
  shows "\<exists>d'. zenit_uuid_format (Some u) (Some d) = Some (ZENIT_OK, Some d') \<and>
    zenit_uuid_parse (Some (takeWhile (\<lambda>c. c \<noteq> 0) d')) (Some v) = Some (ZENIT_OK, Some u) \<and>
    zenit_uuid_equal (Some u) (Some u) = Some True \<and>
    (\<forall>s. \<exists>r w. zenit_uuid_parse (Some s) (Some v) = Some (r, Some w) \<and> r = (if uuid_wf s then ZENIT_OK else ZENIT_ERROR_PARAM) \<and>
      length (uu_bytes w) = 16)"
proof -
  obtain d' where d: "zenit_uuid_format (Some u) (Some d) = Some (ZENIT_OK, Some d')" "takeWhile (\<lambda>c. c \<noteq> 0) d' = uuid_text (uu_bytes u)"
    using uuid_format_ok [OF assms(1,3)] by blast
  note T = uuid_text_wf [OF assms(1)]
  have "zenit_uuid_parse (Some (uuid_text (uu_bytes u))) (Some v) = Some (ZENIT_OK, Some u)"
    using uuid_parse_ok [OF assms(2), of "uuid_text (uu_bytes u)"] T(1,2) by auto
  moreover have "zenit_uuid_equal (Some u) (Some u) = Some True" using assms(1) by (simp add: zenit_uuid_equal_def user_read_def)
  moreover have "\<exists>r w. zenit_uuid_parse (Some s) (Some v) = Some (r, Some w) \<and> r = (if uuid_wf s then ZENIT_OK else ZENIT_ERROR_PARAM) \<and> length (uu_bytes w) = 16" for s
    using uuid_parse_ok [OF assms(2), of s] by (cases "uuid_wf s") auto
  ultimately show ?thesis using d by simp
qed

text \<open>What the system documents of its random sources: they deliver no more than was asked for, and say how much it was.\<close>

definition random_contract :: "'w random_source \<Rightarrow> bool" where
  "random_contract src \<longleftrightarrow> (\<forall>n w k bs w'. getrandom_fn src n w = (k, bs, w') \<longrightarrow> length bs = nat k \<and> nat k \<le> n) \<and>
    (\<forall>n w bs w'. urandom_read_fn src n w = (bs, w') \<longrightarrow> length bs \<le> n)"

lemma urandom_loop_ok:
  assumes "random_contract src" and "got \<le> len" and "length buf = len"
  shows "\<exists>r buf' w'. urandom_loop src buf got len w = Some (r, buf', w') \<and> length buf' = len \<and> r \<in> {ZENIT_OK, ZENIT_ERROR_ALLOC}"
  using assms
proof (induction src buf got len w rule: urandom_loop.induct)
  case (1 src buf got len w)
  show ?case
  proof (cases "got < len")
    case True
    obtain bs w1 where r: "urandom_read_fn src (len - got) w = (bs, w1)" by fastforce
    then have l: "length bs \<le> len - got" using 1(2) unfolding random_contract_def by blast
    then have uw: "user_write buf got bs = Some (blit buf got bs)" using 1(3,4) by (intro user_write_ok) simp
    show ?thesis
    proof (cases "bs = []")
      case True
      then show ?thesis using \<open>got < len\<close> r uw 1(4) by (subst urandom_loop.simps) simp
    next
      case False
      have "\<exists>r buf' w'. urandom_loop src (blit buf got bs) (got + length bs) len w1 = Some (r, buf', w') \<and> length buf' = len \<and> r \<in> {ZENIT_OK, ZENIT_ERROR_ALLOC}"
        by (rule 1(1) [OF True r [symmetric] uw False 1(2)]) (use l True 1(4) in simp_all)
      then show ?thesis using True r uw False by (subst urandom_loop.simps) simp
    qed
  next
    case False
    then show ?thesis using 1(4) by (subst urandom_loop.simps) simp
  qed
qed


lemma random_bytes_ok:
  assumes c: "random_contract src" and l: "length buf = len"
  shows "\<exists>r buf' w'. random_bytes src buf len w = Some (r, buf', w') \<and> length buf' = len \<and> r \<in> {ZENIT_OK, ZENIT_ERROR_ALLOC}"
proof -
  obtain n bs w1 where g: "getrandom_fn src len w = (n, bs, w1)" by (cases "getrandom_fn src len w") auto
  then have "length bs \<le> len" using c unfolding random_contract_def by metis
  then have uw: "user_write buf 0 bs = Some (blit buf 0 bs)" and lb: "length (blit buf 0 bs) = len" using l by (simp_all add: user_write_ok)
  obtain ok w2 where o: "urandom_open_fn src w1 = (ok, w2)" by fastforce
  show ?thesis
  proof (cases "(n > 0 \<and> nat n = len) \<or> \<not> ok")
    case True
    then show ?thesis using g uw o lb by (cases "n > 0 \<and> nat n = len") (simp_all add: random_bytes_def)
  next
    case False
    then show ?thesis using g uw o urandom_loop_ok [OF c, of 0 len "blit buf 0 bs" w2] lb by (simp add: random_bytes_def)
  qed
qed

lemma version_nibble: "drop_bit 4 (((b::byte) AND 0x0F) OR 0x40) = 4"
proof -
  have "drop_bit 4 (b AND 0x0F) = drop_bit 4 b AND drop_bit 4 0x0F" by (rule drop_bit_and)
  moreover have "drop_bit 4 (0x0F :: byte) = 0" "drop_bit 4 (0x40 :: byte) = 4" by code_simp+
  ultimately show ?thesis by (simp add: drop_bit_or)
qed

lemma variant_nibble: "drop_bit 4 (((b::byte) AND 0x3F) OR 0x80) \<in> {8, 9, 10, 11}"
proof -
  let ?x = "drop_bit 4 b AND 3"
  have e: "drop_bit 4 (0x3F :: byte) = 3" "drop_bit 4 (0x80 :: byte) = 8" by code_simp+
  have v: "drop_bit 4 ((b AND 0x3F) OR 0x80) = ?x OR 8" unfolding drop_bit_or drop_bit_and e ..
  have "?x \<le> 3" by (rule word_and_le1)
  then have "unat ?x \<le> 3" by (simp add: word_le_nat_alt)
  then have "unat ?x \<in> {0, 1, 2, 3}" by auto
  then have "of_nat (unat ?x) \<in> (of_nat ` {0, 1, 2, 3} :: byte set)" by (rule imageI)
  then have "?x \<in> {0, 1, 2, 3}" by simp
  moreover have "(0 :: byte) OR 8 = 8" "(1 :: byte) OR 8 = 9" "(2 :: byte) OR 8 = 10" "(3 :: byte) OR 8 = 11" by code_simp+
  ultimately show ?thesis unfolding v by auto
qed

text \<open>
  Whatever the random sources of the system deliver, generating a UUID stays inside its 16 bytes and either reports the failure of the sources or gives a
  UUID of version 4: its text has the digit 4 in the place of the version and one of 8, 9, a and b in the place of the variant.
\<close>

theorem uuid_generate_version:
  assumes "random_contract src" and "length (uu_bytes u) = 16"
  shows "\<exists>r v w'. zenit_uuid_generate src (Some u) w = Some (r, Some v, w') \<and> length (uu_bytes v) = 16 \<and>
    (r = ZENIT_ERROR_ALLOC \<or> r = ZENIT_OK \<and> uuid_text (uu_bytes v) ! 14 = 52 \<and> uuid_text (uu_bytes v) ! 19 \<in> {56, 57, 97, 98})"
proof -
  obtain r bs w1 where r: "random_bytes src (uu_bytes u) 16 w = Some (r, bs, w1)" "length bs = 16" "r \<in> {ZENIT_OK, ZENIT_ERROR_ALLOC}"
    using random_bytes_ok [OF assms] by blast
  show ?thesis
  proof (cases "r = ZENIT_OK")
    case False
    then show ?thesis using r by (simp add: zenit_uuid_generate_def)
  next
    case True
    let ?b6 = "(bs ! 6 AND 0x0F) OR 0x40" and ?b8 = "(bs ! 8 AND 0x3F) OR 0x80"
    let ?bs = "bs[6 := ?b6, 8 := ?b8]"
    have bl: "blit xs i [x] = xs[i := x]" if "i < length xs" for xs :: "byte list" and i x
      using that by (simp add: blit_def upd_conv_take_nth_drop)
    have run: "zenit_uuid_generate src (Some u) w = Some (ZENIT_OK, Some (u\<lparr>uu_bytes := ?bs\<rparr>), w1)"
      using r True by (simp add: zenit_uuid_generate_def user_write_ok bl)
    have len: "length ?bs = 16" using r(2) by simp
    obtain b0 b1 b2 b3 b4 b5 b6 b7 b8 b9 ba bb bc bd be bf where b: "?bs = [b0, b1, b2, b3, b4, b5, b6, b7, b8, b9, ba, bb, bc, bd, be, bf]"
      using len by (rule sixteen)
    have nth: "b6 = ?b6" "b8 = ?b8" using arg_cong [OF b, of "\<lambda>l. l ! 6"] arg_cong [OF b, of "\<lambda>l. l ! 8"] r(2) by simp_all
    have t: "uuid_text ?bs ! 14 = hex_char (drop_bit 4 b6)" "uuid_text ?bs ! 19 = hex_char (drop_bit 4 b8)"
      unfolding b by (simp_all add: uuid_text_def upt_sixteen uuid_piece_def is_dash_index_def high_nibble)
    have h: "hex_char 4 = 52" "hex_char 8 = 56" "hex_char 9 = 57" "hex_char 10 = 97" "hex_char 11 = 98" by code_simp+
    have "uuid_text ?bs ! 14 = 52" unfolding t(1) nth version_nibble h ..
    moreover have "uuid_text ?bs ! 19 \<in> {56, 57, 97, 98}" unfolding t(2) nth using variant_nibble [of "bs ! 8"] h by auto
    ultimately show ?thesis using run len by simp
  qed
qed

definition demo_source :: "nat random_source" where
  "demo_source = \<lparr>getrandom_fn = \<lambda>n w. (- 1, [], w), urandom_open_fn = \<lambda>w. (True, w),
    urandom_read_fn = \<lambda>n w. (replicate (min n 5) 255, w + 1), urandom_close_fn = \<lambda>w. w\<rparr>"

theorem uuid_roundtrip_witness:
  "\<exists>d'. zenit_uuid_format (Some \<lparr>uu_bytes = replicate 16 171\<rparr>) (Some (replicate 37 9)) = Some (ZENIT_OK, Some d') \<and>
    zenit_uuid_parse (Some (takeWhile (\<lambda>c. c \<noteq> 0) d')) (Some \<lparr>uu_bytes = replicate 16 0\<rparr>) = Some (ZENIT_OK, Some \<lparr>uu_bytes = replicate 16 171\<rparr>)"
  using uuid_roundtrip [of "\<lparr>uu_bytes = replicate 16 171\<rparr>" "\<lparr>uu_bytes = replicate 16 0\<rparr>" "replicate 37 9"] by auto

theorem uuid_generate_version_witness:
  "\<exists>r v w'. zenit_uuid_generate demo_source (Some \<lparr>uu_bytes = replicate 16 0\<rparr>) 0 = Some (r, Some v, w') \<and> length (uu_bytes v) = 16"
proof -
  have "random_contract demo_source" by (simp add: random_contract_def demo_source_def)
  then show ?thesis using uuid_generate_version [of demo_source "\<lparr>uu_bytes = replicate 16 0\<rparr>" 0] by auto
qed

lemma uuid_demo:
  "map_option (\<lambda>(r, v, w). (r, v, w)) (zenit_uuid_generate demo_source (Some \<lparr>uu_bytes = replicate 16 0\<rparr>) 0) =
   Some (ZENIT_OK, Some \<lparr>uu_bytes = (replicate 16 255)[6 := 79, 8 := 191]\<rparr>, 4)"
  by code_simp

end
