(* ===== verification/Zenit_Semver.thy ===== *)
theory Zenit_Semver
  imports Zenit_CString
begin

text \<open>
  Semantic versions (\<open>include/libzenit/semver.h\<close>, \<open>src/semver.c\<close>): the parser, the printer and the comparison. The two texts of a version are
  arrays of 64 characters; \<open>int\<close> is an integer, and arithmetic outside its range is undefined (\<open>None\<close>).
\<close>

section \<open>State and operations\<close>

definition INT_MAX :: int where
  "INT_MAX = 2147483647"

definition ZENIT_SEMVER_MAX_PRERELEASE :: nat where
  "ZENIT_SEMVER_MAX_PRERELEASE = 64"

definition ZENIT_SEMVER_MAX_BUILD :: nat where
  "ZENIT_SEMVER_MAX_BUILD = 64"

record zenit_semver_t =
  sv_major :: int
  sv_minor :: int
  sv_patch :: int
  sv_pre_release :: "byte list"
  sv_build :: "byte list"

definition is_digit :: "byte \<Rightarrow> bool" where
  "is_digit c \<longleftrightarrow> in_range 48 57 c"

lemma not_digit_nul [simp]: "\<not> is_digit 0"
  by (simp add: is_digit_def in_range_def char_val_def)

text \<open>\<open>parse_num\<close> from position \<open>p\<close>: the number, whether the parse is still fine, and the position behind it.\<close>

function parse_num_loop :: "c_str \<Rightarrow> nat \<Rightarrow> int \<Rightarrow> bool \<Rightarrow> bool \<Rightarrow> (int \<times> bool \<times> nat) option" where
  "parse_num_loop s p n started ok = do {
     c \<leftarrow> str_at s p;
     if is_digit c then
       (let d = char_val c - 48 in
        if n > (INT_MAX - d) div 10 then Some (0, False, p)
        else parse_num_loop s (p + 1) (n * 10 + d) True ok)
     else Some (n, ok \<and> started, p)
   }"
  by pat_completeness auto
termination
  by (relation "measure (\<lambda>(s, p, n, started, ok). Suc (length s) - p)") (auto simp: str_at_def split: if_splits)

declare parse_num_loop.simps [simp del]

definition parse_num :: "c_str \<Rightarrow> nat \<Rightarrow> bool \<Rightarrow> (int \<times> bool \<times> nat) option" where
  "parse_num s p ok = parse_num_loop s p 0 False ok"

text \<open>\<open>strlen\<close> of an array: it has to be terminated.\<close>

definition buf_strlen :: "byte list \<Rightarrow> nat option" where
  "buf_strlen d = (if 0 \<in> set d then Some (length (takeWhile (\<lambda>c. c \<noteq> 0) d)) else None)"

definition buf_text :: "byte list \<Rightarrow> byte list option" where
  "buf_text d = (if 0 \<in> set d then Some (takeWhile (\<lambda>c. c \<noteq> 0) d) else None)"

function parse_meta :: "c_str \<Rightarrow> nat \<Rightarrow> byte list \<Rightarrow> nat \<Rightarrow> byte \<Rightarrow> (zenit_result_t \<times> byte list \<times> nat) option" where
  "parse_meta s p dest max_len stop = do {
     c \<leftarrow> str_at s p;
     if c \<noteq> 0 \<and> c \<noteq> stop then do {
       idx \<leftarrow> buf_strlen dest;
       if idx \<ge> sz_sub max_len 1 then Some (ZENIT_ERROR_PARAM, dest, p)
       else do {
         dest1 \<leftarrow> user_write dest idx [c];
         dest2 \<leftarrow> user_write dest1 (idx + 1) [0];
         parse_meta s (p + 1) dest2 max_len stop
       }
     } else do {
       d0 \<leftarrow> user_at dest 0;
       if d0 = 0 then Some (ZENIT_ERROR_PARAM, dest, p) else Some (ZENIT_OK, dest, p)
     }
   }"
  by pat_completeness auto
termination
  by (relation "measure (\<lambda>(s, p, dest, max_len, stop). Suc (length s) - p)") (auto simp: str_at_def split: if_splits)

declare parse_meta.simps [simp del]

definition zero_semver :: zenit_semver_t where
  "zero_semver = \<lparr>sv_major = 0, sv_minor = 0, sv_patch = 0, sv_pre_release = replicate ZENIT_SEMVER_MAX_PRERELEASE 0,
    sv_build = replicate ZENIT_SEMVER_MAX_BUILD 0\<rparr>"

text \<open>The part of the parser behind the patch number.\<close>

definition parse_tail :: "c_str \<Rightarrow> nat \<Rightarrow> zenit_semver_t \<Rightarrow> (zenit_result_t \<times> zenit_semver_t option) option" where
  "parse_tail s p v = do {
     c \<leftarrow> str_at s p;
     (r, v1, p1) \<leftarrow> (if c = 45 then do {
         (r, d, p') \<leftarrow> parse_meta s (p + 1) (sv_pre_release v) ZENIT_SEMVER_MAX_PRERELEASE 43;
         Some (r, v\<lparr>sv_pre_release := d\<rparr>, p')
       } else Some (ZENIT_OK, v, p));
     if r \<noteq> ZENIT_OK then Some (r, Some v1)
     else do {
       c1 \<leftarrow> str_at s p1;
       (r', v2, p2) \<leftarrow> (if c1 = 43 then do {
           (r, d, p') \<leftarrow> parse_meta s (p1 + 1) (sv_build v1) ZENIT_SEMVER_MAX_BUILD 0;
           Some (r, v1\<lparr>sv_build := d\<rparr>, p')
         } else Some (ZENIT_OK, v1, p1));
       if r' \<noteq> ZENIT_OK then Some (r', Some v2)
       else do {
         c2 \<leftarrow> str_at s p2;
         Some (if c2 \<noteq> 0 then ZENIT_ERROR_PARAM else ZENIT_OK, Some v2)
       }
     }
   }"

definition zenit_semver_parse :: "c_str option \<Rightarrow> zenit_semver_t option \<Rightarrow> (zenit_result_t \<times> zenit_semver_t option) option" where
  "zenit_semver_parse str out =
    (case (str, out) of
       (Some s, Some _) \<Rightarrow> do {
         let v = zero_semver;
         (n1, ok1, p1) \<leftarrow> parse_num s 0 True;
         let v1 = v\<lparr>sv_major := n1\<rparr>;
         d1 \<leftarrow> str_at s p1;
         if \<not> ok1 \<or> d1 \<noteq> 46 then Some (ZENIT_ERROR_PARAM, Some v1)
         else do {
           (n2, ok2, p2) \<leftarrow> parse_num s (p1 + 1) ok1;
           let v2 = v1\<lparr>sv_minor := n2\<rparr>;
           d2 \<leftarrow> str_at s p2;
           if \<not> ok2 \<or> d2 \<noteq> 46 then Some (ZENIT_ERROR_PARAM, Some v2)
           else do {
             (n3, ok3, p3) \<leftarrow> parse_num s (p2 + 1) ok2;
             let v3 = v2\<lparr>sv_patch := n3\<rparr>;
             if \<not> ok3 then Some (ZENIT_ERROR_PARAM, Some v3)
             else do {
               c0 \<leftarrow> str_at s 0;
               leading \<leftarrow> (if c0 = 48 then do { c1 \<leftarrow> str_at s 1; Some (is_digit c1) } else Some False);
               if leading then Some (ZENIT_ERROR_PARAM, Some v3)
               else parse_tail s p3 v3
             }
           }
         }
       }
     | _ \<Rightarrow> Some (ZENIT_ERROR_NULL, out))"

text \<open>Printing an \<open>int\<close> in decimal, and \<open>snprintf\<close> into a block: at most \<open>sz - 1\<close> characters and the NUL.\<close>

fun dec_nat :: "nat \<Rightarrow> byte list" where
  "dec_nat n = (if n < 10 then [of_nat (48 + n)] else dec_nat (n div 10) @ [of_nat (48 + n mod 10)])"

declare dec_nat.simps [simp del]

definition dec_int :: "int \<Rightarrow> byte list" where
  "dec_int i = (if i < 0 then 45 # dec_nat (nat (- i)) else dec_nat (nat i))"

definition snprintf_text :: "ptr \<Rightarrow> nat \<Rightarrow> byte list \<Rightarrow> (ptr \<times> nat) option" where
  "snprintf_text p sz t =
    (if sz = 0 then Some (p, length t)
     else do { q \<leftarrow> mem_write p 0 (take (sz - 1) t @ [0]); Some (q, length t) })"

definition version_numbers :: "zenit_semver_t \<Rightarrow> byte list" where
  "version_numbers v = dec_int (sv_major v) @ [46] @ dec_int (sv_minor v) @ [46] @ dec_int (sv_patch v)"

definition semver_format_impl :: "zenit_semver_t option \<Rightarrow> 'h zenit_allocator_t \<Rightarrow> 'h \<Rightarrow> (ptr \<times> 'h) option" where
  "semver_format_impl version a h =
    (case version of None \<Rightarrow> Some (None, h)
     | Some v \<Rightarrow> do {
         let base_len = 32;
         pre_len \<leftarrow> buf_strlen (sv_pre_release v);
         build_len \<leftarrow> buf_strlen (sv_build v);
         let sz = base_len + (if pre_len > 0 then 1 + pre_len else 0) + (if build_len > 0 then 1 + build_len else 0) + 1;
         (case alloc_fn a sz h of
            (None, h1) \<Rightarrow> Some (None, h1)
          | (Some out, h1) \<Rightarrow> do {
              let pre = takeWhile (\<lambda>c. c \<noteq> 0) (sv_pre_release v);
              let bld = takeWhile (\<lambda>c. c \<noteq> 0) (sv_build v);
              (q, written) \<leftarrow> snprintf_text (Some out) sz
                (if pre_len > 0 \<and> build_len > 0 then version_numbers v @ [45] @ pre @ [43] @ bld
                 else if pre_len > 0 then version_numbers v @ [45] @ pre
                 else if build_len > 0 then version_numbers v @ [43] @ bld
                 else version_numbers v);
              if written \<ge> sz then do { h2 \<leftarrow> free_fn a (Some (maddr out)) h1; Some (None, h2) }
              else Some (q, h1)
            })
       })"

definition zenit_semver_format_with_allocator ::
    "zenit_semver_t option \<Rightarrow> ptr option \<Rightarrow> 'h zenit_allocator_t \<Rightarrow> 'h \<Rightarrow> (zenit_result_t \<times> ptr option \<times> 'h) option" where
  "zenit_semver_format_with_allocator version out a h =
    (if version = None \<or> out = None then Some (ZENIT_ERROR_NULL, out, h)
     else do {
       (s, h1) \<leftarrow> semver_format_impl version a h;
       if s = None then Some (ZENIT_ERROR_ALLOC, out, h1) else Some (ZENIT_OK, Some s, h1)
     })"

definition zenit_semver_format :: "zenit_semver_t option \<Rightarrow> ptr option \<Rightarrow> c_heap \<Rightarrow> (zenit_result_t \<times> ptr option \<times> c_heap) option" where
  "zenit_semver_format version out = zenit_semver_format_with_allocator version out ZENIT_ALLOCATOR_DEFAULT"

text \<open>A pre-release identifier is the list of its characters.\<close>

definition is_numeric :: "byte list \<Rightarrow> bool" where
  "is_numeric ident = list_all is_digit ident"

fun ident_value :: "byte list \<Rightarrow> int \<Rightarrow> int option" where
  "ident_value [] n = Some n"
| "ident_value (c # cs) n = (let m = n * 10 + (char_val c - 48) in if m > INT_MAX then None else ident_value cs m)"

fun cmp_chars :: "byte list \<Rightarrow> byte list \<Rightarrow> int" where
  "cmp_chars [] [] = 0"
| "cmp_chars [] (y # ys) = - 1"
| "cmp_chars (x # xs) [] = 1"
| "cmp_chars (x # xs) (y # ys) = (if x \<noteq> y then if char_val x < char_val y then - 1 else 1 else cmp_chars xs ys)"

definition cmp_pre_id :: "byte list \<Rightarrow> byte list \<Rightarrow> int option" where
  "cmp_pre_id a b =
    (if is_numeric a \<and> is_numeric b then do {
       x \<leftarrow> ident_value a 0;
       y \<leftarrow> ident_value b 0;
       Some (if x \<noteq> y then if x < y then - 1 else 1 else 0)
     } else Some (cmp_chars a b))"

text \<open>The identifier at the front of the rest of a string, and the rest behind the dot.\<close>

definition next_ident :: "byte list \<Rightarrow> (byte list \<times> byte list) option" where
  "next_ident s = (if s = [] then None else let i = takeWhile (\<lambda>c. c \<noteq> 46) s in Some (i, drop (length i + 1) s))"

lemma next_ident_shorter: "next_ident s = Some (i, t) \<Longrightarrow> length t < length s"
  by (auto simp: next_ident_def Let_def split: if_splits)

function cmp_prerelease :: "byte list \<Rightarrow> byte list \<Rightarrow> int option" where
  "cmp_prerelease a b =
    (case (next_ident a, next_ident b) of
       (None, None) \<Rightarrow> Some 0
     | (Some _, None) \<Rightarrow> Some 1
     | (None, Some _) \<Rightarrow> Some (- 1)
     | (Some (i, a'), Some (j, b')) \<Rightarrow> do {
         c \<leftarrow> cmp_pre_id i j;
         if c \<noteq> 0 then Some c else cmp_prerelease a' b'
       })"
  by pat_completeness auto
termination by (relation "measure (\<lambda>(a, b). length a)") (auto intro: next_ident_shorter dest: sym)

declare cmp_prerelease.simps [simp del]

definition int_sub :: "int \<Rightarrow> int \<Rightarrow> int option" where
  "int_sub x y = (if - INT_MAX - 1 \<le> x - y \<and> x - y \<le> INT_MAX then Some (x - y) else None)"

definition zenit_semver_compare :: "zenit_semver_t option \<Rightarrow> zenit_semver_t option \<Rightarrow> int option" where
  "zenit_semver_compare a b =
    (case (a, b) of
       (None, None) \<Rightarrow> Some 0
     | (None, Some _) \<Rightarrow> Some (- 1)
     | (Some _, None) \<Rightarrow> Some 1
     | (Some v, Some w) \<Rightarrow>
         if sv_major v \<noteq> sv_major w then int_sub (sv_major v) (sv_major w)
         else if sv_minor v \<noteq> sv_minor w then int_sub (sv_minor v) (sv_minor w)
         else if sv_patch v \<noteq> sv_patch w then int_sub (sv_patch v) (sv_patch w)
         else do { x \<leftarrow> buf_text (sv_pre_release v); y \<leftarrow> buf_text (sv_pre_release w); cmp_prerelease x y })"


section \<open>Parsing any string\<close>

definition buf_ok :: "byte list \<Rightarrow> bool" where
  "buf_ok d \<longleftrightarrow> length d = 64 \<and> 0 \<in> set d"

definition semver_ok :: "zenit_semver_t \<Rightarrow> bool" where
  "semver_ok v \<longleftrightarrow> sv_major v \<in> {0..INT_MAX} \<and> sv_minor v \<in> {0..INT_MAX} \<and> sv_patch v \<in> {0..INT_MAX} \<and>
    buf_ok (sv_pre_release v) \<and> buf_ok (sv_build v)"

lemma digit_range: "is_digit c \<Longrightarrow> 0 \<le> char_val c - 48 \<and> char_val c - 48 \<le> 9"
  by (simp add: is_digit_def in_range_def) (simp add: char_val_def)

lemma str_at_defined: "p \<le> length s \<Longrightarrow> \<exists>c. str_at s p = Some c"
  by (simp add: str_at_def)

lemma str_at_nonzero: "str_at s p = Some c \<Longrightarrow> c \<noteq> 0 \<Longrightarrow> p < length s"
  by (auto simp: str_at_def split: if_splits)

lemma digit_nonzero: "is_digit c \<Longrightarrow> c \<noteq> 0"
  by auto

lemma parse_num_loop_ok:
  assumes "p \<le> length s" and "n \<in> {0..INT_MAX}"
  shows "\<exists>n' ok' p'. parse_num_loop s p n st ok = Some (n', ok', p') \<and> n' \<in> {0..INT_MAX} \<and> p' \<le> length s"
  using assms
proof (induction s p n st ok rule: parse_num_loop.induct)
  case (1 s p n st ok)
  obtain c where c: "str_at s p = Some c" using str_at_defined [OF 1(2)] by blast
  show ?case
  proof (cases "is_digit c \<and> \<not> n > (INT_MAX - (char_val c - 48)) div 10")
    case True
    have p: "p < length s" using str_at_nonzero [OF c] digit_nonzero True by blast
    have "n * 10 + (char_val c - 48) \<in> {0..INT_MAX}" using True 1(3) digit_range [of c] by auto
    then show ?thesis using 1(1) [OF c _ refl] True p c by (subst parse_num_loop.simps) (simp add: One_nat_def)
  next
    case False
    then show ?thesis using c 1(2,3) by (subst parse_num_loop.simps) (auto simp: INT_MAX_def)
  qed
qed

lemma parse_meta_ok:
  assumes "p \<le> length s" and "buf_ok dest" and "max_len = 64"
  shows "\<exists>r dest' p'. parse_meta s p dest max_len stop = Some (r, dest', p') \<and> r \<in> {ZENIT_OK, ZENIT_ERROR_PARAM} \<and> buf_ok dest' \<and> p' \<le> length s"
  using assms
proof (induction s p dest max_len stop rule: parse_meta.induct)
  case (1 s p dest max_len stop)
  obtain c where c: "str_at s p = Some c" using str_at_defined [OF 1(2)] by blast
  have l: "length dest = 64" "0 \<in> set dest" using 1(3) by (simp_all add: buf_ok_def)
  define idx where "idx = length (takeWhile (\<lambda>c. c \<noteq> 0) dest)"
  have b: "buf_strlen dest = Some idx" using l(2) by (simp add: buf_strlen_def idx_def)
  have m: "sz_sub max_len 1 = 63" using 1(4) by (simp add: sz_sub_nowrap size_mod_def)
  show ?case
  proof (cases "c \<noteq> 0 \<and> c \<noteq> stop \<and> \<not> idx \<ge> 63")
    case True
    let ?d1 = "blit dest idx [c]" and ?d2 = "blit (blit dest idx [c]) (idx + 1) [0]"
    have w: "user_write dest idx [c] = Some ?d1" "user_write ?d1 (idx + 1) [0] = Some ?d2" using True l by (simp_all add: user_write_ok)
    have p: "p < length s" using str_at_nonzero [OF c] True by blast
    have "length ?d2 = 64" using True l by simp
    moreover have "0 \<in> set ?d2" by (simp add: blit_def)
    ultimately have "buf_ok ?d2" by (simp add: buf_ok_def)
    then have "\<exists>r dest' p'. parse_meta s (p + 1) ?d2 max_len stop = Some (r, dest', p') \<and> r \<in> {ZENIT_OK, ZENIT_ERROR_PARAM} \<and> buf_ok dest' \<and> p' \<le> length s"
      using 1(1) [OF c _ b _ w] True m p 1(4) by (simp add: One_nat_def)
    then show ?thesis using c True b m w by (subst parse_meta.simps) (simp add: One_nat_def)
  next
    case False
    have "user_at dest 0 = Some (dest ! 0)" using l by (simp add: user_at_def)
    then show ?thesis using c False b m 1(2,3) by (subst parse_meta.simps) (auto simp: One_nat_def)
  qed
qed

lemma zero_semver_ok: "semver_ok zero_semver"
  by (simp add: semver_ok_def zero_semver_def buf_ok_def ZENIT_SEMVER_MAX_PRERELEASE_def ZENIT_SEMVER_MAX_BUILD_def INT_MAX_def)

lemma parse_tail_ok:
  assumes v: "semver_ok v" and p: "p \<le> length s"
  shows "\<exists>r w. parse_tail s p v = Some (r, Some w) \<and> r \<in> {ZENIT_OK, ZENIT_ERROR_PARAM} \<and> semver_ok w"
proof -
  note maxs = ZENIT_SEMVER_MAX_PRERELEASE_def ZENIT_SEMVER_MAX_BUILD_def
  obtain c where c: "str_at s p = Some c" using str_at_defined [OF p] by blast
  let ?first = "if c = 45 then do {
         (r, d, p') \<leftarrow> parse_meta s (p + 1) (sv_pre_release v) ZENIT_SEMVER_MAX_PRERELEASE 43;
         Some (r, v\<lparr>sv_pre_release := d\<rparr>, p')
       } else Some (ZENIT_OK, v, p)"
  have "\<exists>r v1 p1. ?first = Some (r, v1, p1) \<and> r \<in> {ZENIT_OK, ZENIT_ERROR_PARAM} \<and> semver_ok v1 \<and> p1 \<le> length s"
  proof (cases "c = 45")
    case True
    then have "p + 1 \<le> length s" using str_at_nonzero [OF c] by (simp add: One_nat_def)
    then show ?thesis using parse_meta_ok [of "p + 1" s "sv_pre_release v" 64 43] True v by (auto simp: semver_ok_def maxs)
  qed (use v p in simp)
  then obtain r v1 p1 where f: "?first = Some (r, v1, p1)" "r \<in> {ZENIT_OK, ZENIT_ERROR_PARAM}" "semver_ok v1" "p1 \<le> length s" by blast
  obtain c1 where c1: "str_at s p1 = Some c1" using str_at_defined [OF f(4)] by blast
  let ?second = "if c1 = 43 then do {
           (r, d, p') \<leftarrow> parse_meta s (p1 + 1) (sv_build v1) ZENIT_SEMVER_MAX_BUILD 0;
           Some (r, v1\<lparr>sv_build := d\<rparr>, p')
         } else Some (ZENIT_OK, v1, p1)"
  have "\<exists>r v2 p2. ?second = Some (r, v2, p2) \<and> r \<in> {ZENIT_OK, ZENIT_ERROR_PARAM} \<and> semver_ok v2 \<and> p2 \<le> length s"
  proof (cases "c1 = 43")
    case True
    then have "p1 + 1 \<le> length s" using str_at_nonzero [OF c1] by (simp add: One_nat_def)
    then show ?thesis using parse_meta_ok [of "p1 + 1" s "sv_build v1" 64 0] True f(3) by (auto simp: semver_ok_def maxs)
  qed (use f in simp)
  then obtain r' v2 p2 where g: "?second = Some (r', v2, p2)" "r' \<in> {ZENIT_OK, ZENIT_ERROR_PARAM}" "semver_ok v2" "p2 \<le> length s" by blast
  obtain c2 where c2: "str_at s p2 = Some c2" using str_at_defined [OF g(4)] by blast
  show ?thesis unfolding parse_tail_def c c1 c2 bind.bind_lunit f(1) using f(2,3) c1 c2 g by auto
qed

text \<open>
  C35: Parsing is defined for every string, never reads behind its end and writes inside the two arrays only; whether it accepts or rejects, the version it leaves is
  well formed: numbers in the range of \<open>int\<close> and not negative, and both texts terminated.
\<close>

theorem semver_parse_type:
  "\<exists>r v. zenit_semver_parse (Some s) (Some u) = Some (r, Some v) \<and> r \<in> {ZENIT_OK, ZENIT_ERROR_PARAM} \<and> semver_ok v"
proof -
  have z: "0 \<in> {0..INT_MAX}" by (simp add: INT_MAX_def)
  obtain n1 ok1 p1 where n1: "parse_num s 0 True = Some (n1, ok1, p1)" "n1 \<in> {0..INT_MAX}" "p1 \<le> length s"
    using parse_num_loop_ok [OF le0 z] unfolding parse_num_def by blast
  obtain d1 where d1: "str_at s p1 = Some d1" using str_at_defined [OF n1(3)] by blast
  have v1: "semver_ok (zero_semver\<lparr>sv_major := n1\<rparr>)" using zero_semver_ok n1(2) by (simp add: semver_ok_def)
  show ?thesis
  proof (cases "ok1 \<and> d1 = 46")
    case False
    then show ?thesis using n1(1) d1 v1 by (auto simp: zenit_semver_parse_def Let_def)
  next
    case t1: True
    then have q1: "p1 + 1 \<le> length s" using str_at_nonzero [OF d1] by (simp add: One_nat_def)
    obtain n2 ok2 p2 where n2: "parse_num s (p1 + 1) ok1 = Some (n2, ok2, p2)" "n2 \<in> {0..INT_MAX}" "p2 \<le> length s"
      using parse_num_loop_ok [OF q1 z] unfolding parse_num_def by blast
    obtain d2 where d2: "str_at s p2 = Some d2" using str_at_defined [OF n2(3)] by blast
    have v2: "semver_ok (zero_semver\<lparr>sv_major := n1, sv_minor := n2\<rparr>)" using v1 n2(2) by (simp add: semver_ok_def)
    show ?thesis
    proof (cases "ok2 \<and> d2 = 46")
      case False
      then show ?thesis using n1(1) d1 t1 n2(1) d2 v2 by (auto simp: zenit_semver_parse_def Let_def)
    next
      case t2: True
      then have q2: "p2 + 1 \<le> length s" using str_at_nonzero [OF d2] by (simp add: One_nat_def)
      obtain n3 ok3 p3 where n3: "parse_num s (p2 + 1) ok2 = Some (n3, ok3, p3)" "n3 \<in> {0..INT_MAX}" "p3 \<le> length s"
        using parse_num_loop_ok [OF q2 z] unfolding parse_num_def by blast
      have v3: "semver_ok (zero_semver\<lparr>sv_major := n1, sv_minor := n2, sv_patch := n3\<rparr>)" using v2 n3(2) by (simp add: semver_ok_def)
      obtain c0 c1 where c: "str_at s 0 = Some c0" "str_at s 1 = Some c1" using str_at_defined [of 0 s] str_at_defined [of 1 s] q2 by auto
      show ?thesis using n1(1) d1 t1 n2(1) d2 t2 n3(1) c v3 parse_tail_ok [OF v3 n3(3)] by (auto simp: zenit_semver_parse_def Let_def)
    qed
  qed
qed


section \<open>Decimal numbers\<close>

definition dec_value :: "byte list \<Rightarrow> int \<Rightarrow> int" where
  "dec_value ds n = foldl (\<lambda>n c. n * 10 + (char_val c - 48)) n ds"

lemma digit_all: "list_all (\<lambda>k. is_digit (of_nat (48 + k)) \<and> char_val (of_nat (48 + k)) = 48 + int k) [0..<10]"
  by code_simp

lemma digit_of_nat:
  assumes "k < 10"
  shows "is_digit (of_nat (48 + k))" and "char_val (of_nat (48 + k)) = 48 + int k"
  using digit_all assms unfolding list_all_iff by auto

lemma dec_nat_digits: "list_all is_digit (dec_nat n) \<and> dec_nat n \<noteq> []"
proof (induction n rule: dec_nat.induct)
  case (1 n)
  then show ?case using digit_of_nat(1) [of n] digit_of_nat(1) [of "n mod 10"] by (cases "n < 10") (subst (1 2) dec_nat.simps, simp)+
qed

lemma dec_nat_value: "dec_value (dec_nat n) 0 = int n"
proof (induction n rule: dec_nat.induct)
  case (1 n)
  show ?case
  proof (cases "n < 10")
    case True
    then show ?thesis using digit_of_nat(2) [of n] by (subst dec_nat.simps) (simp add: dec_value_def)
  next
    case False
    have "int n = int (n div 10) * 10 + int (n mod 10)" by presburger
    then show ?thesis using False 1 digit_of_nat(2) [of "n mod 10"] by (subst dec_nat.simps) (simp add: dec_value_def)
  qed
qed

lemma dec_nat_first: "dec_nat n = 48 # ds \<Longrightarrow> ds = []"
proof (induction n arbitrary: ds rule: dec_nat.induct)
  case (1 n)
  show ?case
  proof (cases "n < 10")
    case True
    then show ?thesis using 1(2) by (simp add: dec_nat.simps [of n])
  next
    case False
    then obtain ds' where "dec_nat (n div 10) = 48 # ds'" using 1(2) dec_nat_digits [of "n div 10"] by (cases "dec_nat (n div 10)") (auto simp: dec_nat.simps [of n])
    then have "dec_nat (n div 10) = [48]" using 1(1) [OF False] by simp
    then have "int (n div 10) = 0" using dec_nat_value [of "n div 10"] by (simp add: dec_value_def char_val_def)
    then show ?thesis using False by simp
  qed
qed

lemma dec_value_mono: "list_all is_digit ds \<Longrightarrow> 0 \<le> n \<Longrightarrow> n \<le> dec_value ds n \<and> 0 \<le> dec_value ds n"
proof (induction ds arbitrary: n)
  case (Cons c cs)
  then have "0 \<le> char_val c - 48" "list_all is_digit cs" using digit_range [of c] by simp_all
  then show ?case using Cons.IH [of "n * 10 + (char_val c - 48)"] Cons.prems(2) by (simp add: dec_value_def)
qed (simp add: dec_value_def)

definition ends_number :: "byte list \<Rightarrow> bool" where
  "ends_number post \<longleftrightarrow> (case post of [] \<Rightarrow> True | c # _ \<Rightarrow> \<not> is_digit c)"

lemma str_at_append: "str_at (pre @ post) (length pre) = Some (case post of [] \<Rightarrow> 0 | c # _ \<Rightarrow> c)"
  by (cases post) (simp_all add: str_at_def)

lemma parse_num_loop_digits:
  assumes "list_all is_digit ds" and "0 \<le> n" and "dec_value ds n \<le> INT_MAX" and "ends_number post"
  shows "parse_num_loop (pre @ ds @ post) (length pre) n st ok = Some (dec_value ds n, ok \<and> (st \<or> ds \<noteq> []), length pre + length ds)"
  using assms
proof (induction ds arbitrary: pre n st)
  case Nil
  then show ?case using str_at_append [of pre post] by (subst parse_num_loop.simps) (auto simp: dec_value_def ends_number_def split: list.splits)
next
  case (Cons c cs)
  let ?m = "n * 10 + (char_val c - 48)"
  have d: "is_digit c" "list_all is_digit cs" "0 \<le> char_val c - 48" "char_val c - 48 \<le> 9" using Cons.prems(1) digit_range [of c] by simp_all
  have m: "0 \<le> ?m" "dec_value cs ?m \<le> INT_MAX" using Cons.prems(2,3) d by (simp_all add: dec_value_def)
  have "?m \<le> INT_MAX" using dec_value_mono [OF d(2) m(1)] m(2) by simp
  then have "\<not> n > (INT_MAX - (char_val c - 48)) div 10" by auto
  moreover have "str_at (pre @ (c # cs) @ post) (length pre) = Some c" using str_at_append [of pre "(c # cs) @ post"] by simp
  moreover have "parse_num_loop ((pre @ [c]) @ cs @ post) (length (pre @ [c])) ?m True ok =
      Some (dec_value cs ?m, ok \<and> (True \<or> cs \<noteq> []), length (pre @ [c]) + length cs)"
    by (rule Cons.IH [OF d(2) m Cons.prems(4)])
  ultimately show ?case using d(1) by (subst parse_num_loop.simps) (simp add: dec_value_def Let_def One_nat_def)
qed

lemma parse_num_dec:
  assumes "0 \<le> i" and "i \<le> INT_MAX" and "ends_number post"
  shows "parse_num (pre @ dec_int i @ post) (length pre) ok = Some (i, ok, length pre + length (dec_int i))"
  using parse_num_loop_digits [of "dec_int i" 0 post pre False ok] assms dec_nat_digits [of "nat i"] dec_nat_value [of "nat i"]
  by (simp add: parse_num_def dec_int_def)

section \<open>Texts\<close>

definition mk_buf :: "byte list \<Rightarrow> byte list" where
  "mk_buf t = t @ replicate (64 - length t) 0"

lemma mk_buf_text:
  assumes "0 \<notin> set t" and "length t \<le> 63"
  shows "buf_strlen (mk_buf t) = Some (length t)" and "takeWhile (\<lambda>c. c \<noteq> 0) (mk_buf t) = t" and "length (mk_buf t) = 64" and "buf_ok (mk_buf t)"
proof -
  have r: "replicate (64 - length t) (0::byte) = 0 # replicate (63 - length t) 0" using assms(2) by (simp add: Suc_diff_le [symmetric] replicate_Suc [symmetric] del: replicate_Suc)
  show tw: "takeWhile (\<lambda>c. c \<noteq> 0) (mk_buf t) = t" unfolding mk_buf_def r using assms(1) by (subst takeWhile_append2) auto
  have "0 \<in> set (mk_buf t)" unfolding mk_buf_def r by simp
  then show "buf_strlen (mk_buf t) = Some (length t)" "length (mk_buf t) = 64" "buf_ok (mk_buf t)"
    using tw assms(2) by (simp_all add: buf_strlen_def buf_ok_def mk_buf_def)
qed

lemma mk_buf_snoc:
  assumes "length t < 63"
  shows "blit (blit (mk_buf t) (length t) [c]) (length t + 1) [0] = mk_buf (t @ [c])"
proof -
  have k: "64 - length t = Suc (Suc (62 - length t))" "64 - length (t @ [c]) = Suc (62 - length t)" using assms by simp_all
  show ?thesis unfolding mk_buf_def k by (simp add: blit_def One_nat_def)
qed


definition ends_meta :: "byte \<Rightarrow> byte list \<Rightarrow> bool" where
  "ends_meta stop post \<longleftrightarrow> (case post of [] \<Rightarrow> True | c # _ \<Rightarrow> c = 0 \<or> c = stop)"

lemma parse_meta_text:
  assumes "0 \<notin> set (u @ t)" and "stop \<notin> set t" and "length (u @ t) \<le> 63" and "u @ t \<noteq> []" and "ends_meta stop post"
  shows "parse_meta (pre @ t @ post) (length pre) (mk_buf u) 64 stop = Some (ZENIT_OK, mk_buf (u @ t), length pre + length t)"
  using assms
proof (induction t arbitrary: pre u)
  case Nil
  then have u: "u \<noteq> []" "0 \<notin> set u" by simp_all
  then have "mk_buf u ! 0 \<noteq> 0" "user_at (mk_buf u) 0 = Some (mk_buf u ! 0)" by (cases u; simp add: mk_buf_def user_at_def)+
  moreover have "\<exists>c. str_at (pre @ post) (length pre) = Some c \<and> (c = 0 \<or> c = stop)" using Nil(5) str_at_append [of pre post] by (auto simp: ends_meta_def split: list.splits)
  ultimately show ?case by (subst parse_meta.simps) auto
next
  case (Cons c cs)
  have u: "0 \<notin> set u" "length u < 63" "c \<noteq> 0" "c \<noteq> stop" using Cons.prems by auto
  note B = mk_buf_text [OF u(1)]
  have at: "str_at (pre @ (c # cs) @ post) (length pre) = Some c" using str_at_append [of pre "(c # cs) @ post"] by simp
  have len: "length (mk_buf u) = 64" using B(3) u(2) by simp
  have m: "sz_sub 64 1 = 63" by (simp add: sz_sub_nowrap size_mod_def)
  have w: "user_write (mk_buf u) (length u) [c] = Some (blit (mk_buf u) (length u) [c])"
      "user_write (blit (mk_buf u) (length u) [c]) (length u + 1) [0] = Some (mk_buf (u @ [c]))"
    using u(2) len mk_buf_snoc [OF u(2), of c] by (simp_all add: user_write_ok)
  have "parse_meta ((pre @ [c]) @ cs @ post) (length (pre @ [c])) (mk_buf (u @ [c])) 64 stop =
      Some (ZENIT_OK, mk_buf ((u @ [c]) @ cs), length (pre @ [c]) + length cs)"
    by (rule Cons.IH) (use Cons.prems in auto)
  then show ?case using at u B(1) m w by (subst parse_meta.simps) (simp add: One_nat_def)
qed

section \<open>Round trip\<close>

definition make_semver :: "int \<Rightarrow> int \<Rightarrow> int \<Rightarrow> byte list \<Rightarrow> byte list \<Rightarrow> zenit_semver_t" where
  "make_semver a b c pre bld = \<lparr>sv_major = a, sv_minor = b, sv_patch = c, sv_pre_release = mk_buf pre, sv_build = mk_buf bld\<rparr>"

definition meta_ok :: "byte list \<Rightarrow> bool" where
  "meta_ok t \<longleftrightarrow> 0 \<notin> set t \<and> length t \<le> 63"

definition semver_text :: "int \<Rightarrow> int \<Rightarrow> int \<Rightarrow> byte list \<Rightarrow> byte list \<Rightarrow> byte list" where
  "semver_text a b c pre bld = dec_int a @ [46] @ dec_int b @ [46] @ dec_int c @
    (if pre = [] then [] else [45] @ pre) @ (if bld = [] then [] else [43] @ bld)"

lemma zero_semver_bufs: "zero_semver\<lparr>sv_major := a, sv_minor := b, sv_patch := c\<rparr> = make_semver a b c [] []"
  by (simp add: zero_semver_def make_semver_def mk_buf_def ZENIT_SEMVER_MAX_PRERELEASE_def ZENIT_SEMVER_MAX_BUILD_def)

lemma parse_tail_text:
  assumes pre: "meta_ok pre" "43 \<notin> set pre" and bld: "meta_ok bld"
    and s: "s = front @ (if pre = [] then [] else [45] @ pre) @ (if bld = [] then [] else [43] @ bld)"
  shows "parse_tail s (length front) (make_semver a b c [] []) = Some (ZENIT_OK, Some (make_semver a b c pre bld))"
proof -
  note maxs = ZENIT_SEMVER_MAX_PRERELEASE_def ZENIT_SEMVER_MAX_BUILD_def
  let ?B = "if bld = [] then [] else [43] @ bld"
  have b: "parse_meta (f @ [43] @ bld) (length f + 1) (mk_buf []) 64 0 = Some (ZENIT_OK, mk_buf bld, length f + 1 + length bld)" if "bld \<noteq> []" for f
    using parse_meta_text [of "[]" bld 0 "[]" "f @ [43]"] bld that by (simp add: meta_ok_def ends_meta_def One_nat_def)
  have atB: "str_at (f @ ?B) (length f) = Some (if bld = [] then 0 else 43)" for f using str_at_append [of f ?B] by simp
  have at_end: "str_at (f @ [43] @ bld) (length f + 1 + length bld) = Some 0" for f using str_at_end [of "f @ [43] @ bld"] by (simp add: add.commute One_nat_def)
  show ?thesis
  proof (cases "pre = []")
    case True
    show ?thesis
    proof (cases "bld = []")
      case b0: True
      then show ?thesis using True s atB [of front] by (simp add: parse_tail_def)
    next
      case False
      then show ?thesis using True s atB [of front] b [OF False, of front] at_end [of front]
        by (simp add: parse_tail_def make_semver_def maxs One_nat_def)
    qed
  next
    case p: False
    have m: "parse_meta (front @ [45] @ pre @ ?B) (length front + 1) (mk_buf []) 64 43 = Some (ZENIT_OK, mk_buf pre, length front + 1 + length pre)"
      using parse_meta_text [of "[]" pre 43 ?B "front @ [45]"] pre p by (simp add: meta_ok_def ends_meta_def One_nat_def split: list.splits)
    let ?f = "front @ [45] @ pre"
    have at0: "str_at (front @ [45] @ pre @ ?B) (length front) = Some 45" using str_at_append [of front "[45] @ pre @ ?B"] by simp
    have at1: "str_at (front @ [45] @ pre @ ?B) (length front + 1 + length pre) = Some (if bld = [] then 0 else 43)" using atB [of ?f] by (simp add: One_nat_def)
    show ?thesis
    proof (cases "bld = []")
      case b0: True
      then show ?thesis using p s at0 at1 m by (simp add: parse_tail_def make_semver_def maxs One_nat_def)
    next
      case False
      then show ?thesis using p s at0 at1 m b [OF False, of ?f] at_end [of ?f]
        by (simp add: parse_tail_def make_semver_def maxs One_nat_def)
    qed
  qed
qed


lemma dec_int_digits: "0 \<le> i \<Longrightarrow> list_all is_digit (dec_int i) \<and> dec_int i \<noteq> []"
  using dec_nat_digits [of "nat i"] by (simp add: dec_int_def)

lemma no_leading_zero:
  assumes "0 \<le> a"
  shows "\<exists>c0. str_at (dec_int a @ 46 # t) 0 = Some c0 \<and> (c0 = 48 \<longrightarrow> str_at (dec_int a @ 46 # t) 1 = Some 46)"
proof -
  obtain c ds where d: "dec_int a = c # ds" using dec_int_digits [OF assms] by (cases "dec_int a") auto
  show ?thesis
  proof (cases "c = 48")
    case True
    then have "ds = []" using d assms dec_nat_first [of "nat a" ds] by (simp add: dec_int_def)
    then show ?thesis using d by (simp add: str_at_def One_nat_def)
  qed (use d in \<open>simp add: str_at_def\<close>)
qed

lemma ends_number_sep [simp]: "ends_number (46 # t)" "ends_number (45 # t)" "ends_number (43 # t)" "ends_number []"
  by (simp_all add: ends_number_def is_digit_def in_range_def char_val_def)

definition in_int :: "int \<Rightarrow> bool" where
  "in_int i \<longleftrightarrow> 0 \<le> i \<and> i \<le> INT_MAX"

lemma semver_parse_text:
  assumes n: "in_int a" "in_int b" "in_int c" and pre: "meta_ok pre" "43 \<notin> set pre" and bld: "meta_ok bld"
  shows "zenit_semver_parse (Some (semver_text a b c pre bld)) (Some u) = Some (ZENIT_OK, Some (make_semver a b c pre bld))"
proof -
  let ?T = "(if pre = [] then [] else [45] @ pre) @ (if bld = [] then [] else [43] @ bld)"
  let ?s = "semver_text a b c pre bld"
  let ?p1 = "length (dec_int a)"
  let ?p2 = "?p1 + 1 + length (dec_int b)"
  let ?p3 = "?p2 + 1 + length (dec_int c)"
  note N = n [unfolded in_int_def]
  have s: "?s = dec_int a @ 46 # (dec_int b @ 46 # dec_int c @ ?T)"
      "?s = (dec_int a @ [46]) @ dec_int b @ 46 # dec_int c @ ?T"
      "?s = (dec_int a @ [46] @ dec_int b) @ 46 # dec_int c @ ?T"
      "?s = (dec_int a @ [46] @ dec_int b @ [46]) @ dec_int c @ ?T"
      "?s = (dec_int a @ [46] @ dec_int b @ [46] @ dec_int c) @ ?T"
    by (simp_all add: semver_text_def)
  have e: "ends_number ?T" by simp
  have p1: "parse_num ?s 0 True = Some (a, True, ?p1)"
    using parse_num_dec [of a "46 # (dec_int b @ 46 # dec_int c @ ?T)" "[]" True] N(1) unfolding s(1) by simp
  have p2: "parse_num ?s (?p1 + 1) True = Some (b, True, ?p2)"
    using parse_num_dec [of b "46 # dec_int c @ ?T" "dec_int a @ [46]" True] N(2) unfolding s(2) by (simp add: One_nat_def)
  have p3: "parse_num ?s (?p2 + 1) True = Some (c, True, ?p3)"
    using parse_num_dec [of c ?T "dec_int a @ [46] @ dec_int b @ [46]" True] N(3) e unfolding s(4) by (simp add: One_nat_def)
  have d1: "str_at ?s ?p1 = Some 46" unfolding s(1) using str_at_append [of "dec_int a"] by simp
  have d2: "str_at ?s ?p2 = Some 46" unfolding s(3) using str_at_append [of "dec_int a @ [46] @ dec_int b" "46 # dec_int c @ ?T"] by (simp add: One_nat_def)
  obtain c0 where z: "str_at ?s 0 = Some c0" "c0 = 48 \<longrightarrow> str_at ?s 1 = Some 46"
    using no_leading_zero [of a "dec_int b @ 46 # dec_int c @ ?T"] N(1) unfolding s(1) by blast
  have t: "parse_tail ?s ?p3 (make_semver a b c [] []) = Some (ZENIT_OK, Some (make_semver a b c pre bld))"
    using parse_tail_text [OF pre bld s(5)] by (simp add: One_nat_def add.assoc)
  have nd: "\<not> is_digit 46" by (simp add: is_digit_def in_range_def char_val_def)
  show ?thesis using p1 p2 p3 d1 d2 z t nd by (simp add: zenit_semver_parse_def Let_def zero_semver_bufs)
qed

lemma dec_nat_length: "n < 10 ^ k \<Longrightarrow> 0 < k \<Longrightarrow> length (dec_nat n) \<le> k"
proof (induction n arbitrary: k rule: dec_nat.induct)
  case (1 n)
  show ?case
  proof (cases "n < 10")
    case True
    then show ?thesis using 1(3) by (subst dec_nat.simps) simp
  next
    case False
    then obtain j where j: "k = Suc j" "0 < j" using 1(2,3) by (cases k; cases "k - 1") auto
    then have "n div 10 < 10 ^ j" using 1(2) by (simp add: less_mult_imp_div_less mult.commute)
    then have "length (dec_nat (n div 10)) \<le> j" using 1(1) [OF False] j(2) by blast
    then show ?thesis using False j(1) by (subst dec_nat.simps) simp
  qed
qed

lemma dec_int_length: "in_int i \<Longrightarrow> length (dec_int i) \<le> 10"
  using dec_nat_length [of "nat i" 10] by (auto simp: dec_int_def in_int_def INT_MAX_def)

lemma c_string_digits: "list_all is_digit ds \<Longrightarrow> c_string ds"
  by (induction ds) (auto dest: digit_nonzero)

lemma semver_text_c_string:
  assumes "in_int a" "in_int b" "in_int c" "meta_ok pre" "meta_ok bld"
  shows "c_string (semver_text a b c pre bld)"
proof -
  have "c_string (dec_int a)" "c_string (dec_int b)" "c_string (dec_int c)"
    using assms(1-3) dec_int_digits c_string_digits unfolding in_int_def by blast+
  then show ?thesis using assms(4,5) by (auto simp: semver_text_def meta_ok_def c_string_def)
qed

definition semver_size :: "byte list \<Rightarrow> byte list \<Rightarrow> nat" where
  "semver_size pre bld = 33 + (if pre = [] then 0 else 1 + length pre) + (if bld = [] then 0 else 1 + length bld)"

lemma semver_text_length:
  assumes "in_int a" "in_int b" "in_int c"
  shows "length (semver_text a b c pre bld) < semver_size pre bld"
  using dec_int_length [OF assms(1)] dec_int_length [OF assms(2)] dec_int_length [OF assms(3)]
  by (simp add: semver_text_def semver_size_def)

text \<open>Printing a well-formed version never truncates: the text fits the block.\<close>

lemma semver_format_cases:
  assumes c: "allocator_contract A live" and n: "in_int a" "in_int b" "in_int c" and m: "meta_ok pre" "meta_ok bld"
  obtains (null) h1 where "semver_format_impl (Some (make_semver a b c pre bld)) A h = Some (None, h1)" and "live h1 = live h"
      and "fst (alloc_fn A (semver_size pre bld) h) = None"
  | (made) blk h1 where "semver_format_impl (Some (make_semver a b c pre bld)) A h = Some (Some blk, h1)"
      and "fst (alloc_fn A (semver_size pre bld) h) \<noteq> None" and "block_str blk = semver_text a b c pre bld" and "maddr blk \<notin> live h" and "live h1 = insert (maddr blk) (live h)"
proof -
  let ?v = "make_semver a b c pre bld"
  let ?t = "semver_text a b c pre bld"
  let ?sz = "semver_size pre bld"
  have B: "buf_strlen (sv_pre_release ?v) = Some (length pre)" "takeWhile (\<lambda>c. c \<noteq> 0) (sv_pre_release ?v) = pre"
      "buf_strlen (sv_build ?v) = Some (length bld)" "takeWhile (\<lambda>c. c \<noteq> 0) (sv_build ?v) = bld"
    using mk_buf_text [of pre] mk_buf_text [of bld] m by (simp_all add: make_semver_def meta_ok_def)
  have sz: "32 + (if length pre > 0 then 1 + length pre else 0) + (if length bld > 0 then 1 + length bld else 0) + 1 = ?sz"
    by (simp add: semver_size_def)
  have tx: "(if length pre > 0 \<and> length bld > 0 then version_numbers ?v @ [45] @ pre @ [43] @ bld
      else if length pre > 0 then version_numbers ?v @ [45] @ pre
      else if length bld > 0 then version_numbers ?v @ [43] @ bld else version_numbers ?v) = ?t"
    by (simp add: version_numbers_def semver_text_def make_semver_def)
  have l: "length ?t < ?sz" by (rule semver_text_length [OF n])
  show thesis
  proof (cases rule: allocator_contract.alloc_cases [OF c, of ?sz h, case_names none block])
    case (none h1)
    then show ?thesis using that(1) B sz by (simp add: semver_format_impl_def Let_def)
  next
    case (block out h1)
    let ?d = "?t @ [0]"
    define blk where "blk = out\<lparr>mbytes := blit (mbytes out) 0 ?d\<rparr>"
    have w: "mem_write (Some out) 0 ?d = Some (Some blk)" using l block(2) by (simp add: mem_write_def blk_def)
    have "snprintf_text (Some out) ?sz ?t = Some (Some blk, length ?t)" using l w by (simp add: snprintf_text_def)
    then have f: "semver_format_impl (Some ?v) A h = Some (Some blk, h1)"
      unfolding semver_format_impl_def Let_def option.case B bind.bind_lunit sz tx block(1) prod.case using l by simp
    have "mbytes blk = ?t @ 0 # drop (length ?t + 1) (mbytes out)" by (simp add: blk_def blit_def One_nat_def)
    then have "block_str blk = ?t" using block_str_terminated [OF semver_text_c_string [OF n m], of blk] by simp
    then show ?thesis using that(2) f block by (simp add: blk_def)
  qed
qed

text \<open>
  C34: Printing a version and parsing the text gives the version back, with its pre-release and its build text: the printed text is never cut off, and the only failure is that of the
  allocation, which leaves no block behind.
\<close>

theorem semver_roundtrip:
  assumes "allocator_contract A live" and "in_int a" and "in_int b" and "in_int c" and "meta_ok pre" and "meta_ok bld" and "43 \<notin> set pre"
  shows "\<exists>r out h1. zenit_semver_format_with_allocator (Some (make_semver a b c pre bld)) (Some q) A h = Some (r, Some out, h1) \<and>
    (if fst (alloc_fn A (semver_size pre bld) h) = None then r = ZENIT_ERROR_ALLOC \<and> out = q \<and> live h1 = live h
     else r = ZENIT_OK \<and> (\<exists>blk. out = Some blk \<and> maddr blk \<notin> live h \<and> live h1 = insert (maddr blk) (live h) \<and>
       zenit_semver_parse (Some (block_str blk)) (Some u) = Some (ZENIT_OK, Some (make_semver a b c pre bld))))"
proof (cases rule: semver_format_cases [OF assms(1-6), of h, case_names none made])
  case (none h1)
  then show ?thesis by (simp add: zenit_semver_format_with_allocator_def)
next
  case (made blk h1)
  then show ?thesis using semver_parse_text [OF assms(2-5,7,6), of u] by (simp add: zenit_semver_format_with_allocator_def)
qed

definition demo_semver_heap :: c_heap where
  "demo_semver_heap = \<lparr>heap_live = [], heap_script = [], heap_junk = 0\<rparr>"

theorem semver_roundtrip_witness:
  "\<exists>r out h1. zenit_semver_format_with_allocator (Some (make_semver 1 20 3 [114, 99, 46, 49] [55])) (Some None) ZENIT_ALLOCATOR_DEFAULT demo_semver_heap = Some (r, Some out, h1)"
  using semver_roundtrip [OF default_contract, of 1 20 3 "[114, 99, 46, 49]" "[55]" None demo_semver_heap]
  by (fastforce simp: in_int_def INT_MAX_def meta_ok_def)

section \<open>The order\<close>

definition version_less :: "zenit_semver_t \<Rightarrow> zenit_semver_t \<Rightarrow> bool" where
  "version_less v w \<longleftrightarrow> sv_major v < sv_major w \<or> sv_major v = sv_major w \<and>
    (sv_minor v < sv_minor w \<or> sv_minor v = sv_minor w \<and> sv_patch v < sv_patch w)"

definition same_numbers :: "zenit_semver_t \<Rightarrow> zenit_semver_t \<Rightarrow> bool" where
  "same_numbers v w \<longleftrightarrow> sv_major v = sv_major w \<and> sv_minor v = sv_minor w \<and> sv_patch v = sv_patch w"

lemma cmp_chars_swap: "cmp_chars b a = - cmp_chars a b"
  by (induction a b rule: cmp_chars.induct) (auto simp: char_val_def signed_word_eqI)

lemma cmp_pre_id_swap: "cmp_pre_id a b = Some c \<Longrightarrow> cmp_pre_id b a = Some (- c)"
  using cmp_chars_swap [of a b] by (auto simp: cmp_pre_id_def split: if_splits Option.bind_splits)

lemma cmp_prerelease_swap: "cmp_prerelease a b = Some c \<Longrightarrow> cmp_prerelease b a = Some (- c)"
proof (induction a b rule: cmp_prerelease.induct)
  case (1 a b)
  show ?case
  proof (cases "next_ident a = None \<or> next_ident b = None")
    case True
    then show ?thesis using 1(2) by (subst cmp_prerelease.simps) (subst (asm) cmp_prerelease.simps, auto split: option.splits)
  next
    case False
    then obtain i a' j b' where n: "next_ident a = Some (i, a')" "next_ident b = Some (j, b')" by auto
    obtain k where k: "cmp_pre_id i j = Some k" using 1(2) n by (subst (asm) cmp_prerelease.simps) (auto split: Option.bind_splits)
    show ?thesis
    proof (cases "k = 0")
      case True
      have e: "cmp_prerelease a b = cmp_prerelease a' b'" "cmp_prerelease b a = cmp_prerelease b' a'"
        using n k True cmp_pre_id_swap [OF k] by (subst cmp_prerelease.simps, simp)+
      have "cmp_prerelease a' b' = Some c \<Longrightarrow> cmp_prerelease b' a' = Some (- c)"
        using 1(1) n k True by auto
      then show ?thesis using e 1(2) by simp
    next
      case False
      have e: "cmp_prerelease a b = Some k" "cmp_prerelease b a = Some (- k)"
        using n k False cmp_pre_id_swap [OF k] by (subst cmp_prerelease.simps, simp)+
      then show ?thesis using 1(2) by simp
    qed
  qed
qed

lemma int_sub_ok: "0 \<le> x \<Longrightarrow> x \<le> INT_MAX \<Longrightarrow> 0 \<le> y \<Longrightarrow> y \<le> INT_MAX \<Longrightarrow> int_sub x y = Some (x - y)"
  by (simp add: int_sub_def)



section \<open>Where the comparison and the parser leave the specification of semantic versions\<close>

text \<open>A numeric identifier is compared with an alphanumeric one character by character, so the comparison is not transitive: \<open>9 > 1a > 10 > 9\<close>.\<close>

lemma semver_compare_cycle:
  "cmp_prerelease [57] [49, 97] = Some 1 \<and> cmp_prerelease [49, 97] [49, 48] = Some 1 \<and> cmp_prerelease [49, 48] [57] = Some 1"
  by code_simp

text \<open>A pre-release is ordered after its release, and a numeric identifier of ten digits can overflow \<open>int\<close>.\<close>

lemma semver_prerelease_after_release:
  "zenit_semver_compare (Some (make_semver 1 0 0 [97] [])) (Some (make_semver 1 0 0 [] [])) = Some 1"
  by code_simp

lemma semver_identifier_overflow: "cmp_prerelease (replicate 10 57) [49] = None"
  by code_simp

text \<open>Leading zeros are refused in the major number only.\<close>

lemma semver_leading_zeros:
  "(case zenit_semver_parse (Some [49, 46, 48, 50, 46, 51]) (Some zero_semver) of Some (r, _) \<Rightarrow> r = ZENIT_OK | None \<Rightarrow> False) \<and>
   (case zenit_semver_parse (Some [48, 49, 46, 50, 46, 51]) (Some zero_semver) of Some (r, _) \<Rightarrow> r = ZENIT_ERROR_PARAM | None \<Rightarrow> False)"
  by code_simp

end
