(* ===== verification/Zenit_Str.thy ===== *)
theory Zenit_Str
  imports Zenit_Arrays Zenit_CString
begin

text \<open>
  Trimming, splitting and joining of C strings (\<open>include/libzenit/str.h\<close>, \<open>src/str.c\<close>). A \<open>char **\<close> is a typed array of
  pointers to blocks.
\<close>

section \<open>Operations\<close>

definition is_whitespace :: "byte \<Rightarrow> bool" where
  "is_whitespace c \<longleftrightarrow> c = 32 \<or> c = 9 \<or> c = 10 \<or> c = 13 \<or> c = 12 \<or> c = 11"

text \<open>\<open>n\<close> bytes of a string from position \<open>off\<close>, the NUL included.\<close>

definition str_read :: "c_str \<Rightarrow> nat \<Rightarrow> nat \<Rightarrow> byte list option" where
  "str_read s off n = (if off + n \<le> length s + 1 then Some (take n (drop off (s @ [0]))) else None)"

definition sizeof_char_ptr :: nat where
  "sizeof_char_ptr = 8"

function free_split_loop :: "'h zenit_allocator_t \<Rightarrow> ptr arr \<Rightarrow> nat \<Rightarrow> nat \<Rightarrow> 'h \<Rightarrow> 'h option" where
  "free_split_loop a result cnt j h =
    (if j < cnt then do {
       p \<leftarrow> ar_get result j;
       h' \<leftarrow> free_fn a (paddr p) h;
       free_split_loop a result cnt (j + 1) h'
     } else Some h)"
  by pat_completeness auto
termination by (relation "measure (\<lambda>(a, result, cnt, j, h). cnt - j)") auto

declare free_split_loop.simps [simp del]

definition free_split_result_with_allocator :: "ptr arr option \<Rightarrow> nat \<Rightarrow> 'h zenit_allocator_t \<Rightarrow> 'h \<Rightarrow> 'h option" where
  "free_split_result_with_allocator result cnt a h =
    (case result of
       None \<Rightarrow> if 0 < cnt then None else free_fn a None h
     | Some r \<Rightarrow> do { h' \<leftarrow> free_split_loop a r cnt 0 h; free_fn a (Some (fst r)) h' })"

function trim_start :: "c_str \<Rightarrow> nat \<Rightarrow> nat option" where
  "trim_start s start = do {
     c \<leftarrow> str_at s start;
     if c \<noteq> 0 \<and> is_whitespace c then trim_start s (start + 1) else Some start
   }"
  by pat_completeness auto
termination by (relation "measure (\<lambda>(s, start). Suc (length s) - start)") (auto simp: str_at_def split: if_splits)

fun trim_end :: "c_str \<Rightarrow> nat \<Rightarrow> nat \<Rightarrow> nat option" where
  "trim_end s start e =
    (if e > start then do { c \<leftarrow> str_at s e; if is_whitespace c then trim_end s start (e - 1) else Some e } else Some e)"

declare trim_start.simps [simp del] trim_end.simps [simp del]

definition empty_text :: "'h zenit_allocator_t \<Rightarrow> 'h \<Rightarrow> (ptr \<times> 'h) option" where
  "empty_text a h =
    (case alloc_fn a 1 h of
       (None, h1) \<Rightarrow> Some (None, h1)
     | (Some out, h1) \<Rightarrow> do { q \<leftarrow> mem_write (Some out) 0 [0]; Some (q, h1) })"

definition trim_impl :: "c_str option \<Rightarrow> 'h zenit_allocator_t \<Rightarrow> 'h \<Rightarrow> (ptr \<times> 'h) option" where
  "trim_impl str a h =
    (case str of None \<Rightarrow> Some (None, h)
     | Some s \<Rightarrow> do {
         start \<leftarrow> trim_start s 0;
         c \<leftarrow> str_at s start;
         if c = 0 then empty_text a h
         else do {
           e \<leftarrow> trim_end s start (length s - 1);
           let trimmed_len = e - start + 1;
           (case alloc_fn a (sz_add trimmed_len 1) h of
              (None, h1) \<Rightarrow> Some (None, h1)
            | (Some out, h1) \<Rightarrow> do {
                d \<leftarrow> str_read s start trimmed_len;
                q \<leftarrow> mem_write (Some out) 0 d;
                q' \<leftarrow> mem_write q trimmed_len [0];
                Some (q', h1)
              })
         }
       })"

definition strchr_found :: "c_str \<Rightarrow> byte \<Rightarrow> bool" where
  "strchr_found delim c \<longleftrightarrow> c = 0 \<or> c \<in> set delim"

text \<open>Making room for one more entry and the final NULL: \<open>Inl\<close> is the early return.\<close>

definition split_room :: "'h zenit_allocator_t \<Rightarrow> nat \<Rightarrow> nat \<Rightarrow> ptr arr \<Rightarrow> 'h \<Rightarrow> ('h + nat \<times> ptr arr \<times> 'h) option" where
  "split_room a cap idx result h =
    (if sz_add idx 2 > cap then do {
       let cap' = sz_mul cap 2;
       (tmp, h1) \<leftarrow> ar_realloc a sizeof_char_ptr None (Some result) (cap' div 2) cap' h;
       (case tmp of
          None \<Rightarrow> do { h2 \<leftarrow> free_split_result_with_allocator (Some result) idx a h1; Some (Inl h2) }
        | Some r \<Rightarrow> Some (Inr (cap', r, h1)))
     } else Some (Inr (cap, result, h)))"

text \<open>A copy of the token at \<open>token_start\<close>.\<close>

definition split_token :: "'h zenit_allocator_t \<Rightarrow> c_str \<Rightarrow> nat \<Rightarrow> nat \<Rightarrow> 'h \<Rightarrow> (ptr \<times> 'h) option" where
  "split_token a s token_start tlen h =
    (case alloc_fn a (sz_add tlen 1) h of
       (None, h1) \<Rightarrow> Some (None, h1)
     | (Some tok, h1) \<Rightarrow> do {
         t1 \<leftarrow> (if tlen > 0 then do { d \<leftarrow> str_read s token_start tlen; mem_write (Some tok) 0 d } else Some (Some tok));
         t2 \<leftarrow> mem_write t1 tlen [0];
         Some (t2, h1)
       })"

function split_loop ::
    "'h zenit_allocator_t \<Rightarrow> c_str \<Rightarrow> c_str \<Rightarrow> nat \<Rightarrow> nat \<Rightarrow> nat \<Rightarrow> nat \<Rightarrow> ptr arr \<Rightarrow> 'h \<Rightarrow> ((ptr arr \<times> nat) option \<times> 'h) option" where
  "split_loop a s delim i cap idx token_start result h =
    (if i \<le> length s then do {
       is_delim \<leftarrow> (if i < length s then do { c \<leftarrow> str_at s i; Some (strchr_found delim c) } else Some False);
       if \<not> is_delim \<and> i \<noteq> length s then split_loop a s delim (i + 1) cap idx token_start result h
       else do {
         room \<leftarrow> split_room a cap idx result h;
         (case room of
            Inl h1 \<Rightarrow> Some (None, h1)
          | Inr (cap', result', h1) \<Rightarrow> do {
              (tok, h2) \<leftarrow> split_token a s token_start (sz_sub i token_start) h1;
              (case tok of
                 None \<Rightarrow> do { h3 \<leftarrow> free_split_result_with_allocator (Some result') idx a h2; Some (None, h3) }
               | Some _ \<Rightarrow> do {
                   result'' \<leftarrow> ar_put result' idx tok;
                   split_loop a s delim (i + 1) cap' (idx + 1) (i + 1) result'' h2
                 })
            })
       }
     } else do {
       result' \<leftarrow> ar_put result idx None;
       Some (Some (result', idx), h)
     })"
  by pat_completeness auto
termination by (relation "measure (\<lambda>(a, s, delim, i, cap, idx, token_start, result, h). Suc (length s) - i)") auto

declare split_loop.simps [simp del]

definition split_impl ::
    "c_str option \<Rightarrow> c_str option \<Rightarrow> nat option \<Rightarrow> 'h zenit_allocator_t \<Rightarrow> 'h \<Rightarrow> (ptr arr option \<times> nat option \<times> 'h) option" where
  "split_impl str del out_count a h =
    (case (str, del, out_count) of
       (Some s, Some delim, Some _) \<Rightarrow> do {
         let cap = 4;
         (case alloc_fn a (sz_mul cap sizeof_char_ptr) h of
            (None, h1) \<Rightarrow> Some (None, out_count, h1)
          | (Some b, h1) \<Rightarrow> do {
              (r, h2) \<leftarrow> split_loop a s delim 0 cap 0 0 (maddr b, replicate (length (mbytes b) div sizeof_char_ptr) None) h1;
              (case r of
                 None \<Rightarrow> Some (None, out_count, h2)
               | Some (result, idx) \<Rightarrow> Some (Some result, Some idx, h2))
            })
       }
     | _ \<Rightarrow> Some (None, out_count, h))"

text \<open>The array that \<open>join\<close> reads has at least \<open>cnt\<close> entries; a NULL among them counts as empty.\<close>

definition part_at :: "c_str option list \<Rightarrow> nat \<Rightarrow> c_str option option" where
  "part_at parts i = (if i < length parts then Some (parts ! i) else None)"

function join_len :: "c_str option list \<Rightarrow> nat \<Rightarrow> nat \<Rightarrow> nat \<Rightarrow> nat option" where
  "join_len parts cnt i total_len =
    (if i < cnt then do {
       p \<leftarrow> part_at parts i;
       join_len parts cnt (i + 1) (case p of None \<Rightarrow> total_len | Some s \<Rightarrow> sz_add total_len (length s))
     } else Some total_len)"
  by pat_completeness auto
termination by (relation "measure (\<lambda>(parts, cnt, i, t). cnt - i)") auto

function join_write :: "c_str option list \<Rightarrow> nat \<Rightarrow> c_str \<Rightarrow> nat \<Rightarrow> ptr \<Rightarrow> nat \<Rightarrow> (ptr \<times> nat) option" where
  "join_write parts cnt delim i out pos =
    (if i < cnt then do {
       (out1, pos1) \<leftarrow> (if i > 0 then do { q \<leftarrow> mem_write out pos delim; Some (q, pos + length delim) } else Some (out, pos));
       p \<leftarrow> part_at parts i;
       (out2, pos2) \<leftarrow> (case p of None \<Rightarrow> Some (out1, pos1)
         | Some s \<Rightarrow> do { q \<leftarrow> mem_write out1 pos1 s; Some (q, pos1 + length s) });
       join_write parts cnt delim (i + 1) out2 pos2
     } else Some (out, pos))"
  by pat_completeness auto
termination by (relation "measure (\<lambda>(parts, cnt, delim, i, out, pos). cnt - i)") auto

declare join_len.simps [simp del] join_write.simps [simp del]

definition join_impl :: "c_str option list option \<Rightarrow> nat \<Rightarrow> c_str option \<Rightarrow> 'h zenit_allocator_t \<Rightarrow> 'h \<Rightarrow> (ptr \<times> 'h) option" where
  "join_impl arr cnt del a h =
    (case (arr, del) of
       (Some parts, Some delim) \<Rightarrow>
         if cnt = 0 then empty_text a h
         else do {
           let delim_len = length delim;
           t0 \<leftarrow> join_len parts cnt 0 0;
           let t1 = sz_add t0 (sz_mul delim_len (cnt - 1));
           let total_len = sz_add t1 1;
           (case alloc_fn a total_len h of
              (None, h1) \<Rightarrow> Some (None, h1)
            | (Some out, h1) \<Rightarrow> do {
                (q, pos) \<leftarrow> join_write parts cnt delim 0 (Some out) 0;
                q' \<leftarrow> mem_write q pos [0];
                Some (q', h1)
              })
         }
     | _ \<Rightarrow> Some (None, h))"

definition zenit_str_split_free :: "ptr arr option \<Rightarrow> nat \<Rightarrow> 'h zenit_allocator_t \<Rightarrow> 'h \<Rightarrow> 'h option" where
  "zenit_str_split_free result cnt a h = free_split_result_with_allocator result cnt a h"

definition zenit_str_trim_with_allocator :: "c_str option \<Rightarrow> 'h zenit_allocator_t \<Rightarrow> 'h \<Rightarrow> (ptr \<times> 'h) option" where
  "zenit_str_trim_with_allocator s a h = trim_impl s a h"

definition zenit_str_trim :: "c_str option \<Rightarrow> c_heap \<Rightarrow> (ptr \<times> c_heap) option" where
  "zenit_str_trim s h = zenit_str_trim_with_allocator s ZENIT_ALLOCATOR_DEFAULT h"

definition zenit_str_split_with_allocator ::
    "c_str option \<Rightarrow> c_str option \<Rightarrow> nat option \<Rightarrow> 'h zenit_allocator_t \<Rightarrow> 'h \<Rightarrow> (ptr arr option \<times> nat option \<times> 'h) option" where
  "zenit_str_split_with_allocator s delim out_count a h = split_impl s delim out_count a h"

definition zenit_str_split :: "c_str option \<Rightarrow> c_str option \<Rightarrow> nat option \<Rightarrow> c_heap \<Rightarrow> (ptr arr option \<times> nat option \<times> c_heap) option" where
  "zenit_str_split s delim out_count h = zenit_str_split_with_allocator s delim out_count ZENIT_ALLOCATOR_DEFAULT h"

definition zenit_str_join_with_allocator ::
    "c_str option list option \<Rightarrow> nat \<Rightarrow> c_str option \<Rightarrow> 'h zenit_allocator_t \<Rightarrow> 'h \<Rightarrow> (ptr \<times> 'h) option" where
  "zenit_str_join_with_allocator parts cnt delim a h = join_impl parts cnt delim a h"

definition zenit_str_join :: "c_str option list option \<Rightarrow> nat \<Rightarrow> c_str option \<Rightarrow> c_heap \<Rightarrow> (ptr \<times> c_heap) option" where
  "zenit_str_join parts cnt delim h = zenit_str_join_with_allocator parts cnt delim ZENIT_ALLOCATOR_DEFAULT h"


section \<open>Trimming\<close>

definition trim_text :: "byte list \<Rightarrow> byte list" where
  "trim_text s = rev (dropWhile is_whitespace (rev (dropWhile is_whitespace s)))"

lemma whitespace_nonzero: "is_whitespace c \<Longrightarrow> c \<noteq> 0"
  by (auto simp: is_whitespace_def)

lemma trim_start_ok:
  assumes "p \<le> length s"
  shows "trim_start s p = Some (p + length (takeWhile is_whitespace (drop p s)))"
  using assms
proof (induction s p rule: trim_start.induct)
  case (1 s p)
  show ?case
  proof (cases "p < length s")
    case True
    have d: "drop p s = s ! p # drop (Suc p) s" using True by (simp add: Cons_nth_drop_Suc [symmetric])
    have a: "str_at s p = Some (s ! p)" using True by simp
    have "is_whitespace (s ! p) \<Longrightarrow> trim_start s (p + 1) = Some (p + 1 + length (takeWhile is_whitespace (drop (p + 1) s)))"
      using 1(1) [OF a] True whitespace_nonzero by (simp add: One_nat_def)
    then show ?thesis unfolding d using a whitespace_nonzero by (subst trim_start.simps) (auto simp: One_nat_def)
  next
    case False
    then show ?thesis using 1(2) by (subst trim_start.simps) (simp add: str_at_def)
  qed
qed

lemma trim_end_ok:
  assumes "start \<le> e" and "e < length s"
  shows "\<exists>e'. trim_end s start e = Some e' \<and> start \<le> e' \<and> e' \<le> e \<and> list_all is_whitespace (take (e - e') (drop (Suc e') s)) \<and>
    (e' = start \<or> \<not> is_whitespace (s ! e'))"
  using assms
proof (induction s start e rule: trim_end.induct)
  case (1 s start e)
  show ?case
  proof (cases "e > start \<and> is_whitespace (s ! e)")
    case True
    have at: "str_at s e = Some (s ! e)" using 1(3) by simp
    have lt: "start \<le> e - 1" "e - 1 < length s" using True 1(3) by auto
    obtain e' where e': "trim_end s start (e - 1) = Some e'" "start \<le> e'" "e' \<le> e - 1"
        "list_all is_whitespace (take (e - 1 - e') (drop (Suc e') s))" "e' = start \<or> \<not> is_whitespace (s ! e')"
      using 1(1) [OF conjunct1 [OF True] at conjunct2 [OF True] lt] by blast
    have k: "e - e' = Suc (e - 1 - e')" using e'(3) True by linarith
    have "e - 1 - e' < length (drop (Suc e') s)" "drop (Suc e') s ! (e - 1 - e') = s ! e" using k 1(3) by (simp_all add: One_nat_def)
    then have "take (e - e') (drop (Suc e') s) = take (e - 1 - e') (drop (Suc e') s) @ [s ! e]" unfolding k by (simp add: take_Suc_conv_app_nth)
    then have "list_all is_whitespace (take (e - e') (drop (Suc e') s))" using e'(4) True by simp
    then show ?thesis using e' True at by (subst trim_end.simps) auto
  next
    case False
    then show ?thesis using 1(2,3) by (subst trim_end.simps) auto
  qed
qed

lemma empty_text_cases:
  assumes "allocator_contract a live"
  obtains (null) h1 where "empty_text a h = Some (None, h1)" and "live h1 = live h"
  | (made) b h1 where "empty_text a h = Some (Some b, h1)" and "block_str b = []" and "maddr b \<notin> live h" and "live h1 = insert (maddr b) (live h)"
proof (cases rule: allocator_contract.alloc_cases [OF assms, of 1 h, case_names null block])
  case (null h1)
  then show ?thesis using that(1) by (simp add: empty_text_def)
next
  case (block b h1)
  have "emitted (Some b) 0 [] (Some b)" by (rule emitted_Nil) simp
  then obtain b' where "mem_write (Some b) 0 [0] = Some (Some b')" "block_str b' = []" "maddr b' = maddr b"
    by (rule emitted_terminate) (use block(2) in simp_all)
  then show ?thesis using that(2) block by (simp add: empty_text_def)
qed

lemma copy_text_cases:
  assumes c: "allocator_contract a live" and t: "str_read s p n = Some t" "c_string t" "length t = n" and n: "n + 1 < size_mod"
  obtains (null) h1 where "alloc_fn a (sz_add n 1) h = (None, h1)" and "live h1 = live h"
  | (made) b h1 q b' where "alloc_fn a (sz_add n 1) h = (Some b, h1)" and "mem_write (Some b) 0 t = Some q" and "mem_write q n [0] = Some (Some b')"
      and "n = 0 \<longrightarrow> q = Some b" and "block_str b' = t" and "maddr b' \<notin> live h" and "live h1 = insert (maddr b') (live h)"
proof -
  have sz: "sz_add n 1 = n + 1" using n by (rule sz_add_nowrap)
  show thesis
  proof (cases rule: allocator_contract.alloc_cases [OF c, of "n + 1" h, case_names null block])
    case (null h1)
    then show ?thesis using that(1) sz by simp
  next
    case (block b h1)
    obtain q where q: "mem_write (Some b) 0 t = Some q" "emitted (Some b) 0 t q"
      using write_emits [of "Some b" 0 t] block(2) t(3) by auto
    obtain b' where b': "mem_write q (length t) [0] = Some (Some b')" "block_str b' = t" "maddr b' = maddr b"
      by (rule emitted_terminate [OF q(2) t(2)]) (use block(2) t(3) in simp)
    have "n = 0 \<longrightarrow> q = Some b" using q(1) t(3) by (auto simp: mem_write_def)
    then show ?thesis using that(2) [of b h1 q b'] sz block q(1) b' t(3) by simp
  qed
qed

lemma str_read_text: "p + n \<le> length s \<Longrightarrow> str_read s p n = Some (take n (drop p s))"
  by (simp add: str_read_def)

lemma c_string_part: "c_string s \<Longrightarrow> c_string (take n (drop p s))"
  by (auto simp: c_string_def dest: in_set_takeD in_set_dropD)

text \<open>
  Trimming copies the string without the white space at both ends: of a string of white space, and of the empty string, the empty
  string is left.
\<close>

theorem str_trim_spec:
  assumes c: "allocator_contract a live" and s: "c_string s" and fit: "length s + 1 < size_mod"
  shows "\<exists>r h1. zenit_str_trim_with_allocator (Some s) a h = Some (r, h1) \<and>
    (case r of None \<Rightarrow> live h1 = live h
     | Some b \<Rightarrow> block_str b = trim_text s \<and> maddr b \<notin> live h \<and> live h1 = insert (maddr b) (live h))"
proof -
  let ?st = "length (takeWhile is_whitespace s)"
  have st: "trim_start s 0 = Some ?st" using trim_start_ok [of 0 s] by simp
  have dw: "drop ?st s = dropWhile is_whitespace s" by (simp add: dropWhile_eq_drop)
  show ?thesis
  proof (cases "dropWhile is_whitespace s = []")
    case True
    then have tw: "takeWhile is_whitespace s = s" using takeWhile_dropWhile_id [of is_whitespace s] by simp
    have "str_at s ?st = Some 0" "trim_text s = []" unfolding tw trim_text_def True by simp_all
    then show ?thesis using st
      by (cases rule: empty_text_cases [OF c, of h]) (simp_all add: zenit_str_trim_with_allocator_def trim_impl_def)
  next
    case False
    have lt: "?st < length s" using False dw by (metis drop_all not_le)
    have nw: "\<not> is_whitespace (s ! ?st)" using lt nth_length_takeWhile by blast
    have c0: "s ! ?st \<noteq> 0" using s lt by (rule c_string_nth)
    obtain e where e: "trim_end s ?st (length s - 1) = Some e" "?st \<le> e" "e \<le> length s - 1"
        "list_all is_whitespace (take (length s - 1 - e) (drop (Suc e) s))" "e = ?st \<or> \<not> is_whitespace (s ! e)"
    proof -
      have "?st \<le> length s - 1" "length s - 1 < length s" using lt by linarith+
      then show thesis using trim_end_ok [of ?st "length s - 1" s] that by blast
    qed
    let ?n = "e - ?st + 1"
    let ?t = "take ?n (drop ?st s)"
    have ws: "list_all is_whitespace (drop (Suc e) s)" using e(4) lt by simp
    have split: "dropWhile is_whitespace s = ?t @ drop (Suc e) s"
    proof -
      have "drop ?n (drop ?st s) = drop (Suc e) s" using e(2) by (simp add: One_nat_def)
      then show ?thesis unfolding dw [symmetric] by (metis append_take_drop_id)
    qed
    have lst: "?t \<noteq> []" "last ?t = s ! e" using e(2,3) lt by (simp_all add: last_conv_nth)
    have "trim_text s = ?t"
    proof -
      have "dropWhile is_whitespace (rev (?t @ drop (Suc e) s)) = dropWhile is_whitespace (rev ?t)"
        unfolding rev_append by (rule dropWhile_append2) (use ws in \<open>auto simp: list_all_iff\<close>)
      also have "\<dots> = rev ?t" using lst e(5) nw by (cases ?t rule: rev_cases) auto
      finally show ?thesis unfolding trim_text_def split by simp
    qed
    moreover have rd: "str_read s ?st ?n = Some ?t" "c_string ?t" "length ?t = ?n" "?n + 1 < size_mod"
      using e(2,3) lt fit c_string_part [OF s] by (simp_all add: str_read_text)
    ultimately show ?thesis using st lt c0 e(1)
      by (cases rule: copy_text_cases [OF c rd, of h]) (simp_all add: zenit_str_trim_with_allocator_def trim_impl_def Let_def del: take_drop)
  qed
qed


section \<open>Splitting\<close>

fun split_acc :: "byte list \<Rightarrow> byte list \<Rightarrow> byte list \<Rightarrow> byte list list" where
  "split_acc D cur [] = [cur]"
| "split_acc D cur (c # cs) = (if c \<in> set D then cur # split_acc D [] cs else split_acc D (cur @ [c]) cs)"

definition split_text :: "byte list \<Rightarrow> byte list \<Rightarrow> byte list list" where
  "split_text D s = split_acc D [] s"

text \<open>The first \<open>length bs\<close> entries of the array point to the blocks \<open>bs\<close>; these and the array are all that was allocated since \<open>h0\<close>.\<close>

definition toks_ok :: "('h \<Rightarrow> nat set) \<Rightarrow> 'h \<Rightarrow> mblock list \<Rightarrow> ptr arr \<Rightarrow> 'h \<Rightarrow> bool" where
  "toks_ok live h0 bs r h \<longleftrightarrow> length bs \<le> length (snd r) \<and> take (length bs) (snd r) = map Some bs \<and> fresh_blocks live h0 (fst r # map maddr bs) h"

lemma free_split_loop_all:
  assumes "j \<le> n" and "n \<le> length (snd r)"
  shows "free_split_loop a r n j h = free_all a (map paddr (drop j (take n (snd r)))) h"
  using assms
proof (induction a r n j h rule: free_split_loop.induct)
  case (1 a r n j h)
  show ?case
  proof (cases "j < n")
    case True
    have d: "drop j (take n (snd r)) = snd r ! j # drop (Suc j) (take n (snd r))" using True 1(3) by (simp add: Cons_nth_drop_Suc [symmetric])
    have g: "ar_get r j = Some (snd r ! j)" using True 1(3) by (intro ar_get_ok) simp
    have "free_split_loop a r n (j + 1) h' = free_all a (map paddr (drop (Suc j) (take n (snd r)))) h'" if "free_fn a (paddr (snd r ! j)) h = Some h'" for h'
      using 1(1) [OF True g that] True 1(3) by (simp add: One_nat_def)
    then show ?thesis unfolding d using True g by (subst free_split_loop.simps) (cases "free_fn a (paddr (snd r ! j)) h"; simp)
  next
    case False
    then show ?thesis by (subst free_split_loop.simps) simp
  qed
qed

lemma addr_list_blocks [simp]: "addr_list (map (paddr \<circ> Some) bs) = map maddr bs"
  by (induction bs) simp_all

lemma free_split_ok:
  assumes c: "allocator_contract a live" and t: "toks_ok live h0 bs r h"
  shows "\<exists>h'. free_split_result_with_allocator (Some r) (length bs) a h = Some h' \<and> live h' = live h0"
proof -
  let ?ps = "map (paddr \<circ> Some) bs"
  have "free_split_loop a r (length bs) 0 h = free_all a ?ps h"
    using free_split_loop_all [of 0 "length bs" r a h] t by (simp add: toks_ok_def)
  moreover obtain h2 h3 where "free_all a ?ps h = Some h2" "free_fn a (Some (fst r)) h2 = Some h3" "live h3 = live h0"
    by (rule free_fresh [OF c, of h0 "fst r" ?ps h]) (use t in \<open>simp add: toks_ok_def\<close>)
  ultimately show ?thesis by (simp add: free_split_result_with_allocator_def)
qed

lemma split_room_ok:
  assumes c: "allocator_contract a live" and t: "toks_ok live h0 bs r h" and len: "length (snd r) = cap" "length bs + 1 \<le> cap" "4 \<le> cap"
    and fit: "cap * 16 < size_mod"
  obtains (failed) h' where "split_room a cap (length bs) r h = Some (Inl h')" and "live h' = live h0"
  | (made) cap' r' h' where "split_room a cap (length bs) r h = Some (Inr (cap', r', h'))" and "toks_ok live h0 bs r' h'" and "length (snd r') = cap'"
      and "length bs + 2 \<le> cap'" and "4 \<le> cap'" and "cap' = cap \<or> cap' \<le> 2 * (length bs + 1)"
proof -
  have sz: "sz_add (length bs) 2 = length bs + 2" "sz_mul cap 2 = 2 * cap"
    using fit len by (simp_all add: sz_add_nowrap sz_mul_nowrap)
  show thesis
  proof (cases "length bs + 2 > cap")
    case False
    then show ?thesis using made [of cap r h] t len sz by (simp add: split_room_def)
  next
    case True
    have own: "fst r \<in> live h" using t by (auto simp: toks_ok_def fresh_blocks_def)
    show ?thesis
    proof (cases rule: ar_realloc_ok [OF c, of "Some r" h sizeof_char_ptr "2 * cap" cap None, case_names a1 a2 a3 a4 a5 a6 no yes])
      case (no h')
      have "toks_ok live h0 bs r h'" using t no(2) by (simp add: toks_ok_def fresh_blocks_def)
      then obtain h'' where "free_split_result_with_allocator (Some r) (length bs) a h' = Some h''" "live h'' = live h0"
        using free_split_ok [OF c] by blast
      then show ?thesis using failed [of h''] no(1) True sz by (simp add: split_room_def Let_def)
    next
      case (yes b h')
      let ?r = "(b, ar_resize (2 * cap) None (take cap (snd r)))"
      have tk: "take (length bs) (snd ?r) = map Some bs" using t len by (simp add: ar_resize_def toks_ok_def)
      have "fresh_blocks live h0 (b # map maddr bs) h'"
        using t yes(2,3) unfolding toks_ok_def fresh_blocks_def by auto
      then have "toks_ok live h0 bs ?r h'" using tk len by (simp add: toks_ok_def ar_resize_def)
      then show ?thesis using made [of "2 * cap" ?r h'] yes(1) True sz len by (simp add: split_room_def Let_def ar_resize_def)
    qed (use own fit len in \<open>simp_all add: sizeof_char_ptr_def\<close>)
  qed
qed

lemma split_token_cases:
  assumes c: "allocator_contract a live" and s: "c_string s" and p: "p + n \<le> length s" and fit: "length s + 1 < size_mod"
  obtains (null) h1 where "split_token a s p n h = Some (None, h1)" and "live h1 = live h"
  | (made) b h1 where "split_token a s p n h = Some (Some b, h1)" and "block_str b = take n (drop p s)" and "maddr b \<notin> live h"
      and "live h1 = insert (maddr b) (live h)"
proof -
  have rd: "str_read s p n = Some (take n (drop p s))" "c_string (take n (drop p s))" "length (take n (drop p s)) = n" "n + 1 < size_mod"
    using p fit c_string_part [OF s] by (simp_all add: str_read_text)
  show thesis
  proof (cases rule: copy_text_cases [OF c rd, of h])
    case (1 h1)
    then show ?thesis using null by (simp add: split_token_def)
  next
    case (2 b h1 q b')
    then show ?thesis using made [of b' h1] rd(1) by (cases "n = 0") (simp_all add: split_token_def)
  qed
qed

definition split_post :: "('h \<Rightarrow> nat set) \<Rightarrow> 'h \<Rightarrow> byte list list \<Rightarrow> (ptr arr \<times> nat) option \<Rightarrow> 'h \<Rightarrow> bool" where
  "split_post live h0 texts r h \<longleftrightarrow>
    (case r of None \<Rightarrow> live h = live h0
     | Some (arr, n) \<Rightarrow> \<exists>bs. n = length bs \<and> n < length (snd arr) \<and> snd arr ! n = None \<and> map block_str bs = texts \<and> toks_ok live h0 bs arr h)"

lemma toks_ok_put:
  assumes "toks_ok live h0 bs r h" and "length bs < length (snd r)" and "maddr b \<notin> live h" and "live h1 = insert (maddr b) (live h)"
  shows "toks_ok live h0 (bs @ [b]) (fst r, (snd r)[length bs := Some b]) h1"
proof -
  have "fresh_blocks live h0 ((fst r # map maddr bs) @ [maddr b]) h1"
    using assms(1) fresh_blocks_one [of "maddr b" live h h1] assms(3,4) by (intro fresh_blocks_trans) (auto simp: toks_ok_def)
  moreover have "take (length (bs @ [b])) ((snd r)[length bs := Some b]) = map Some (bs @ [b])"
    using assms(1,2) by (simp add: toks_ok_def take_Suc_conv_app_nth)
  ultimately show ?thesis using assms(2) by (simp add: toks_ok_def)
qed


definition split_rest :: "byte list \<Rightarrow> byte list \<Rightarrow> nat \<Rightarrow> nat \<Rightarrow> byte list list" where
  "split_rest D s ts i = (if i \<le> length s then split_acc D (take (i - ts) (drop ts s)) (drop i s) else [])"

lemma split_rest_end: "ts \<le> length s \<Longrightarrow> split_rest D s ts (length s) = take (length s - ts) (drop ts s) # split_rest D s (length s + 1) (length s + 1)"
  by (simp add: split_rest_def)

lemma split_rest_delim: "i < length s \<Longrightarrow> s ! i \<in> set D \<Longrightarrow> split_rest D s ts i = take (i - ts) (drop ts s) # split_rest D s (i + 1) (i + 1)"
  by (simp add: split_rest_def Cons_nth_drop_Suc [symmetric] One_nat_def)

lemma split_rest_char:
  assumes "i < length s" and "s ! i \<notin> set D" and "ts \<le> i"
  shows "split_rest D s ts i = split_rest D s ts (i + 1)"
proof -
  have "take (i + 1 - ts) (drop ts s) = take (i - ts) (drop ts s) @ [s ! i]"
    using assms by (simp add: Suc_diff_le take_Suc_conv_app_nth One_nat_def)
  then show ?thesis using assms by (simp add: split_rest_def Cons_nth_drop_Suc [symmetric] One_nat_def)
qed

lemma split_loop_ok:
  assumes c: "allocator_contract a live" and s: "c_string s" and fit: "(length s + 4) * 32 < size_mod"
    and "toks_ok live h0 bs r h" and "length (snd r) = cap" and "length bs + 1 \<le> cap" and "4 \<le> cap" and "cap = 4 \<or> cap \<le> 2 * length bs"
    and "ts \<le> i" and "i \<le> length s + 1" and "length bs \<le> i"
  shows "\<exists>res h'. split_loop a s D i cap (length bs) ts r h = Some (res, h') \<and> split_post live h0 (map block_str bs @ split_rest D s ts i) res h'"
  using assms(4-)
proof (induction "Suc (length s) - i" arbitrary: i cap bs ts r h rule: less_induct)
  case less
  note t = less.prems(1) and len = less.prems(2-4) and capb = less.prems(5) and pos = less.prems(6-8)
  show ?case
  proof (cases "i \<le> length s")
    case False
    then have "split_rest D s ts i = []" by (simp add: split_rest_def)
    moreover have "ar_put r (length bs) None = Some (fst r, (snd r)[length bs := None])" using len by (intro ar_put_ok) simp
    moreover have "toks_ok live h0 bs (fst r, (snd r)[length bs := None]) h" using t by (simp add: toks_ok_def)
    ultimately show ?thesis using False len by (subst split_loop.simps) (auto simp: split_post_def)
  next
    case True
    define del where "del = (i < length s \<and> s ! i \<in> set D)"
    have isd: "i < length s \<Longrightarrow> strchr_found D (s ! i) = del" using c_string_nth [OF s, of i] by (simp add: del_def strchr_found_def)
    have nd: "\<not> i < length s \<Longrightarrow> \<not> del" by (simp add: del_def)
    show ?thesis
    proof (cases "\<not> del \<and> i \<noteq> length s")
      case skip: True
      then have i: "i < length s" "s ! i \<notin> set D" using True by (auto simp: del_def)
      have "\<exists>res h'. split_loop a s D (i + 1) cap (length bs) ts r h = Some (res, h') \<and> split_post live h0 (map block_str bs @ split_rest D s ts (i + 1)) res h'"
        by (rule less.hyps [OF _ t len capb]) (use pos i in simp_all)
      then show ?thesis unfolding split_rest_char [OF i pos(1)] using True skip by (subst split_loop.simps) (simp add: isd i(1))
    next
      case cut: False
      then have rest: "split_rest D s ts i = take (i - ts) (drop ts s) # split_rest D s (i + 1) (i + 1)"
        using split_rest_end [of ts s D] split_rest_delim [of i s D ts] pos(1) True by (auto simp: del_def)
      have step: "split_loop a s D i cap (length bs) ts r h = do {
         room \<leftarrow> split_room a cap (length bs) r h;
         (case room of
            Inl h1 \<Rightarrow> Some (None, h1)
          | Inr (cap', result', h1) \<Rightarrow> do {
              (tok, h2) \<leftarrow> split_token a s ts (sz_sub i ts) h1;
              (case tok of
                 None \<Rightarrow> do { h3 \<leftarrow> free_split_result_with_allocator (Some result') (length bs) a h2; Some (None, h3) }
               | Some _ \<Rightarrow> do {
                   result'' \<leftarrow> ar_put result' (length bs) tok;
                   split_loop a s D (i + 1) cap' (length bs + 1) (i + 1) result'' h2
                 })
            })
       }"
        using True cut isd nd by (subst split_loop.simps) (cases "i < length s"; simp)
      have sub: "sz_sub i ts = i - ts" using pos True fit by (intro sz_sub_nowrap) simp_all
      have fit': "cap * 16 < size_mod" "length s + 1 < size_mod" using capb pos fit True by auto
      show ?thesis
      proof (cases rule: split_room_ok [OF c t len fit'(1), case_names full room])
        case (full h1)
        then show ?thesis by (simp add: step split_post_def)
      next
        case (room cap' r' h1)
        have p: "ts + (i - ts) \<le> length s" using pos True by simp
        show ?thesis
        proof (cases rule: split_token_cases [OF c s p fit'(2), of h1, case_names null tok])
          case (null h2)
          have "toks_ok live h0 bs r' h2" using room(2) null(2) by (simp add: toks_ok_def fresh_blocks_def)
          then obtain h3 where "free_split_result_with_allocator (Some r') (length bs) a h2 = Some h3" "live h3 = live h0" using free_split_ok [OF c] by blast
          then show ?thesis using room(1) null(1) sub by (simp add: step split_post_def)
        next
          case (tok b h2)
          let ?r = "(fst r', (snd r')[length bs := Some b])"
          have lt: "length bs < length (snd r')" using room(3,4) by simp
          have t': "toks_ok live h0 (bs @ [b]) ?r h2" using toks_ok_put [OF room(2) lt tok(3,4)] .
          have "\<exists>res h'. split_loop a s D (i + 1) cap' (length (bs @ [b])) (i + 1) ?r h2 = Some (res, h') \<and>
              split_post live h0 (map block_str (bs @ [b]) @ split_rest D s (i + 1) (i + 1)) res h'"
            by (rule less.hyps [OF _ t']) (use room capb pos True in auto)
          then show ?thesis using room(1) tok(1,2) sub ar_put_ok [OF lt, of "Some b"]
            by (simp add: step rest One_nat_def)
        qed
      qed
    qed
  qed
qed

lemma split_text_rest: "split_rest D s 0 0 = split_text D s"
  by (simp add: split_rest_def split_text_def)

lemma split_cases:
  assumes "allocator_contract a live" and "c_string s" and "(length s + 4) * 32 < size_mod"
  obtains (failed) h1 where "split_impl (Some s) (Some D) (Some m) a h = Some (None, Some m, h1)" and "live h1 = live h"
  | (made) arr bs h1 where "split_impl (Some s) (Some D) (Some m) a h = Some (Some arr, Some (length bs), h1)"
      and "take (length bs + 1) (snd arr) = map Some bs @ [None]" and "map block_str bs = split_text D s" and "toks_ok live h bs arr h1"
proof (cases rule: allocator_contract.alloc_cases [OF assms(1), of 32 h, case_names null block])
  case (null h1)
  then show ?thesis using failed by (simp add: split_impl_def sizeof_char_ptr_def sz_mul_nowrap size_mod_def)
next
  case (block b h1)
  let ?r = "(maddr b, replicate 4 None) :: ptr arr"
  have "toks_ok live h [] ?r h1" using block by (simp add: toks_ok_def fresh_blocks_def)
  then obtain res h2 where l: "split_loop a s D 0 4 0 0 ?r h1 = Some (res, h2)" "split_post live h (split_text D s) res h2"
    using split_loop_ok [OF assms, of h "[]" ?r h1 4 0 0 D] by (auto simp: split_text_rest)
  show ?thesis
  proof (cases res)
    case None
    then show ?thesis using failed [of h2] l block by (simp add: split_impl_def sizeof_char_ptr_def sz_mul_nowrap size_mod_def split_post_def)
  next
    case (Some p)
    obtain arr n where p: "p = (arr, n)" by (cases p)
    obtain bs where bs: "n = length bs" "n < length (snd arr)" "snd arr ! n = None" "map block_str bs = split_text D s" "toks_ok live h bs arr h2"
      using l(2) Some p by (auto simp: split_post_def)
    have "take (length bs + 1) (snd arr) = map Some bs @ [None]" using bs by (simp add: take_Suc_conv_app_nth toks_ok_def One_nat_def)
    then show ?thesis using made [of arr bs h2] l(1) block Some p bs by (simp add: split_impl_def sizeof_char_ptr_def sz_mul_nowrap size_mod_def)
  qed
qed

text \<open>
  C39: Splitting yields the array of copies of the tokens between delimiters, empty ones included, in order, closed by a NULL, with their number; the array and the
  tokens are exactly what was allocated, and freeing them gives everything back. If an allocation fails, nothing stays allocated and the counter is untouched.
\<close>

theorem str_split_tokens:
  assumes "allocator_contract a live" and "c_string s" and "(length s + 4) * 32 < size_mod"
  shows "\<exists>r n h1. zenit_str_split_with_allocator (Some s) (Some D) (Some m) a h = Some (r, n, h1) \<and>
    (case r of None \<Rightarrow> n = Some m \<and> live h1 = live h
     | Some arr \<Rightarrow> \<exists>bs. n = Some (length bs) \<and> take (length bs + 1) (snd arr) = map Some bs @ [None] \<and> map block_str bs = split_text D s \<and>
         (\<exists>h2. zenit_str_split_free r (length bs) a h1 = Some h2 \<and> live h2 = live h))"
proof (cases rule: split_cases [OF assms, of D m h, case_names failed made])
  case (failed h1)
  then show ?thesis by (simp add: zenit_str_split_with_allocator_def)
next
  case (made arr bs h1)
  then show ?thesis using free_split_ok [OF assms(1) made(4)] by (auto simp: zenit_str_split_with_allocator_def zenit_str_split_free_def)
qed

section \<open>Joining\<close>

definition part_text :: "c_str option \<Rightarrow> byte list" where
  "part_text p = (case p of None \<Rightarrow> [] | Some s \<Rightarrow> s)"

definition join_tail :: "byte list \<Rightarrow> byte list list \<Rightarrow> byte list" where
  "join_tail d ts = concat (map (\<lambda>t. d @ t) ts)"

definition join_text :: "byte list \<Rightarrow> byte list list \<Rightarrow> byte list" where
  "join_text d ts = (case ts of [] \<Rightarrow> [] | t # ts' \<Rightarrow> t @ join_tail d ts')"

lemma join_tail_simps [simp]: "join_tail d [] = []" "join_tail d (t # ts) = d @ t @ join_tail d ts"
  by (simp_all add: join_tail_def)

lemma drop_take_Cons: "i < n \<Longrightarrow> n \<le> length xs \<Longrightarrow> drop i (take n xs) = xs ! i # drop (Suc i) (take n xs)"
  by (simp add: Cons_nth_drop_Suc [symmetric])

lemma join_len_ok:
  assumes "i \<le> n" and "n \<le> length parts" and "acc + sum_list (map (length \<circ> part_text) (drop i (take n parts))) < size_mod"
  shows "join_len parts n i acc = Some (acc + sum_list (map (length \<circ> part_text) (drop i (take n parts))))"
  using assms
proof (induction parts n i acc rule: join_len.induct)
  case (1 parts n i acc)
  show ?case
  proof (cases "i < n")
    case True
    have d: "drop i (take n parts) = parts ! i # drop (Suc i) (take n parts)" using True 1(3) by (rule drop_take_Cons)
    have p: "part_at parts i = Some (parts ! i)" using True 1(3) by (simp add: part_at_def)
    let ?acc = "case parts ! i of None \<Rightarrow> acc | Some s \<Rightarrow> sz_add acc (length s)"
    have a: "?acc = acc + length (part_text (parts ! i))" using 1(4) unfolding d by (cases "parts ! i") (simp_all add: part_text_def sz_add_nowrap)
    have "join_len parts n (i + 1) ?acc = Some (?acc + sum_list (map (length \<circ> part_text) (drop (i + 1) (take n parts))))"
      by (rule 1(1) [OF True p]) (use True 1(3,4) a d in \<open>simp_all add: One_nat_def\<close>)
    then show ?thesis using True p by (subst join_len.simps) (simp add: d a One_nat_def)
  next
    case False
    then show ?thesis by (subst join_len.simps) simp
  qed
qed

lemma join_write_tail:
  assumes "0 < i" and "i \<le> n" and "n \<le> length parts" and "out \<noteq> None"
    and "pos + length (join_tail d (map part_text (drop i (take n parts)))) \<le> plen out"
  shows "\<exists>q. join_write parts n d i out pos = Some (q, pos + length (join_tail d (map part_text (drop i (take n parts))))) \<and>
    emitted out pos (join_tail d (map part_text (drop i (take n parts)))) q"
  using assms
proof (induction parts n d i out pos rule: join_write.induct)
  case (1 parts n d i out pos)
  show ?case
  proof (cases "i < n")
    case True
    let ?t = "part_text (parts ! i)"
    let ?rest = "join_tail d (map part_text (drop (Suc i) (take n parts)))"
    have dr: "drop i (take n parts) = parts ! i # drop (Suc i) (take n parts)" using True 1(4) by (rule drop_take_Cons)
    have fit: "pos + (length d + (length ?t + length ?rest)) \<le> plen out" using 1(6) dr by simp
    have p: "part_at parts i = Some (parts ! i)" using True 1(4) by (simp add: part_at_def)
    obtain q1 where q1: "mem_write out pos d = Some q1" "emitted out pos d q1" using write_emits [OF 1(5), of pos d] fit by auto
    have l1: "plen q1 = plen out" "q1 \<noteq> None" using emitted_plen [OF q1(2)] emitted_not_None [OF q1(2) 1(5)] by simp_all
    obtain q2 where q2: "mem_write q1 (pos + length d) ?t = Some q2" "emitted q1 (pos + length d) ?t q2"
      using write_emits [OF l1(2), of "pos + length d" ?t] fit l1(1) by auto
    have q2': "(case parts ! i of None \<Rightarrow> Some (q1, pos + length d) | Some s \<Rightarrow> do { q \<leftarrow> mem_write q1 (pos + length d) s; Some (q, pos + length d + length s) })
        = Some (q2, pos + length d + length ?t)"
      using q2(1) l1(2) by (cases "parts ! i"; cases q1) (auto simp: part_text_def mem_write_def split: if_splits)
    have l2: "plen q2 = plen out" "q2 \<noteq> None" using emitted_plen [OF q2(2)] emitted_not_None [OF q2(2) l1(2)] l1(1) by simp_all
    have first: "(if 0 < i then do { q \<leftarrow> mem_write out pos d; Some (q, pos + length d) } else Some (out, pos)) = Some (q1, pos + length d)" using 1(2) q1(1) by simp
    have "\<exists>q. join_write parts n d (i + 1) q2 (pos + length d + length ?t) = Some (q, pos + length d + length ?t + length ?rest) \<and>
        emitted q2 (pos + length d + length ?t) ?rest q"
      using 1(1) [OF True first refl p q2' refl] True 1(4) fit l2 by (simp add: One_nat_def)
    then obtain q where q: "join_write parts n d (i + 1) q2 (pos + length d + length ?t) = Some (q, pos + length d + length ?t + length ?rest)"
        "emitted q2 (pos + length d + length ?t) ?rest q" by blast
    have "emitted q1 (pos + length d) (?t @ ?rest) q" by (rule emitted_trans [OF q2(2) q(2)]) (use fit l1(1) in simp)
    then have "emitted out pos (d @ ?t @ ?rest) q" by (rule emitted_trans [OF q1(2)]) (use fit in simp)
    then show ?thesis using True 1(2) q1(1) p q2' q(1) by (subst join_write.simps) (simp add: dr add.assoc)
  next
    case False
    then show ?thesis using 1(3,5) by (subst join_write.simps) (simp add: emitted_Nil)
  qed
qed


lemma join_tail_length: "length (join_tail d ts) = length d * length ts + sum_list (map length ts)"
  by (induction ts) simp_all

lemma join_write_ok:
  assumes "0 < n" and "n \<le> length parts" and "length (join_text d (map part_text (take n parts))) \<le> length (mbytes b)"
  shows "\<exists>q. join_write parts n d 0 (Some b) 0 = Some (q, length (join_text d (map part_text (take n parts)))) \<and>
    emitted (Some b) 0 (join_text d (map part_text (take n parts))) q"
proof -
  let ?t = "part_text (parts ! 0)"
  let ?rest = "join_tail d (map part_text (drop 1 (take n parts)))"
  have tk: "take n parts = parts ! 0 # drop 1 (take n parts)" using drop_take_Cons [OF assms(1,2)] by (simp add: One_nat_def)
  have jt: "join_text d (map part_text (take n parts)) = ?t @ ?rest" by (subst tk) (simp add: join_text_def)
  have p: "part_at parts 0 = Some (parts ! 0)" using assms by (cases parts) (auto simp: part_at_def)
  have fit: "length ?t + length ?rest \<le> length (mbytes b)" using assms(3) jt by simp
  obtain q1 where q1: "mem_write (Some b) 0 ?t = Some q1" "emitted (Some b) 0 ?t q1" using write_emits [of "Some b" 0 ?t] fit by auto
  have l1: "plen q1 = length (mbytes b)" "q1 \<noteq> None" using emitted_plen [OF q1(2)] emitted_not_None [OF q1(2)] by simp_all
  have first: "(case parts ! 0 of None \<Rightarrow> Some (Some b, 0) | Some s \<Rightarrow> do { q \<leftarrow> mem_write (Some b) 0 s; Some (q, 0 + length s) }) = Some (q1, length ?t)"
    using q1(1) by (cases "parts ! 0") (auto simp: part_text_def mem_write_def split: if_splits)
  obtain q where q: "join_write parts n d 1 q1 (length ?t) = Some (q, length ?t + length ?rest)" "emitted q1 (length ?t) ?rest q"
    using join_write_tail [of 1 n parts q1 "length ?t" d] assms l1 fit by (auto simp: One_nat_def)
  have "emitted (Some b) 0 (?t @ ?rest) q" by (rule emitted_trans [OF q1(2)]) (use q(2) fit in simp_all)
  then show ?thesis unfolding jt using assms(1) p first q(1) by (subst join_write.simps) simp
qed

lemma join_text_length:
  assumes "ts \<noteq> []"
  shows "length (join_text d ts) = sum_list (map length ts) + length d * (length ts - 1)"
  using assms by (cases ts) (simp_all add: join_text_def join_tail_length)

definition parts_ok :: "c_str option list \<Rightarrow> nat \<Rightarrow> bool" where
  "parts_ok parts n \<longleftrightarrow> n \<le> length parts \<and> list_all (\<lambda>p. c_string (part_text p)) (take n parts)"

lemma c_string_join: "c_string d \<Longrightarrow> list_all c_string ts \<Longrightarrow> c_string (join_text d ts)"
proof -
  have "c_string d \<Longrightarrow> list_all c_string ts \<Longrightarrow> c_string (join_tail d ts)" for ts by (induction ts) simp_all
  then show "c_string d \<Longrightarrow> list_all c_string ts \<Longrightarrow> c_string (join_text d ts)" by (cases ts) (simp_all add: join_text_def)
qed

text \<open>Joining writes the parts with the delimiter in between, a NULL among them as an empty part.\<close>

theorem str_join_spec:
  assumes c: "allocator_contract a live" and p: "parts_ok parts n" and d: "c_string d"
    and fit: "length (join_text d (map part_text (take n parts))) + 1 < size_mod"
  shows "\<exists>r h1. zenit_str_join_with_allocator (Some parts) n (Some d) a h = Some (r, h1) \<and>
    (case r of None \<Rightarrow> live h1 = live h
     | Some b \<Rightarrow> block_str b = join_text d (map part_text (take n parts)) \<and> maddr b \<notin> live h \<and> live h1 = insert (maddr b) (live h))"
proof (cases "n = 0")
  case True
  then show ?thesis
    by (cases rule: empty_text_cases [OF c, of h]) (simp_all add: zenit_str_join_with_allocator_def join_impl_def join_text_def)
next
  case False
  let ?t = "join_text d (map part_text (take n parts))"
  have n: "n \<le> length parts" using p by (simp add: parts_ok_def)
  have len: "length ?t = sum_list (map (length \<circ> part_text) (take n parts)) + length d * (n - 1)"
    using join_text_length [of "map part_text (take n parts)" d] False n by (cases parts) auto
  have t0: "join_len parts n 0 0 = Some (sum_list (map (length \<circ> part_text) (take n parts)))"
    using join_len_ok [of 0 n parts 0] n fit len by simp
  have sz: "sz_add (sz_add (sum_list (map (length \<circ> part_text) (take n parts))) (sz_mul (length d) (n - 1))) 1 = length ?t + 1"
    using fit len by (simp add: sz_mul_nowrap sz_add_nowrap)
  have cs: "c_string ?t" by (rule c_string_join [OF d]) (use p in \<open>auto simp: parts_ok_def list_all_iff\<close>)
  show ?thesis
  proof (cases rule: allocator_contract.alloc_cases [OF c, of "length ?t + 1" h, case_names null block])
    case (null h1)
    then show ?thesis using False t0 sz by (simp add: zenit_str_join_with_allocator_def join_impl_def Let_def)
  next
    case (block b h1)
    obtain q where q: "join_write parts n d 0 (Some b) 0 = Some (q, length ?t)" "emitted (Some b) 0 ?t q"
      using join_write_ok [of n parts d b] False n block(2) by auto
    obtain b' where b': "mem_write q (length ?t) [0] = Some (Some b')" "block_str b' = ?t" "maddr b' = maddr b"
      by (rule emitted_terminate [OF q(2) cs]) (use block(2) in simp)
    then show ?thesis using False t0 sz block q(1) by (simp add: zenit_str_join_with_allocator_def join_impl_def Let_def)
  qed
qed

section \<open>Round trip\<close>

lemma join_split_acc: "join_text [d] (split_acc [d] cur s) = cur @ s \<and> split_acc [d] cur s \<noteq> []"
proof (induction s arbitrary: cur)
  case (Cons c cs)
  have "join_tail [d] (split_acc [d] [] cs) = d # cs"
    using Cons.IH [of "[]"] by (cases "split_acc [d] [] cs") (simp_all add: join_text_def)
  then show ?case using Cons.IH [of "cur @ [c]"] by (simp add: join_text_def)
qed (simp add: join_text_def)

lemma join_split: "join_text [d] (split_text [d] s) = s"
  using join_split_acc [of d "[]" s] by (simp add: split_text_def)

lemma c_string_block_str [simp]: "c_string (block_str b)"
  by (auto simp: c_string_def block_str_def dest: set_takeWhileD)

lemma parts_of_blocks:
  assumes "take (length bs + 1) xs = map Some bs @ [None]"
  shows "length bs \<le> length xs" and "take (length bs) (map (map_option block_str) xs) = map (Some \<circ> block_str) bs"
proof -
  have "take (length bs) xs = take (length bs) (take (length bs + 1) xs)" by simp
  also have "\<dots> = map Some bs" unfolding assms by simp
  finally have t: "take (length bs) xs = map Some bs" .
  then show "length bs \<le> length xs" by (metis length_map length_take min.cobounded1)
  show "take (length bs) (map (map_option block_str) xs) = map (Some \<circ> block_str) bs" unfolding take_map t by simp
qed


section \<open>Concrete instances\<close>

definition str_demo_heap :: c_heap where
  "str_demo_heap = \<lparr>heap_live = [], heap_script = [], heap_junk = 0\<rparr>"

theorem str_split_tokens_witness:
  "\<exists>r n h1. zenit_str_split_with_allocator (Some [97, 44, 44, 98]) (Some [44, 59]) (Some 9) ZENIT_ALLOCATOR_DEFAULT str_demo_heap = Some (r, n, h1) \<and>
    (\<forall>arr. r = Some arr \<longrightarrow> n = Some 3)"
proof -
  have "\<exists>r n h1. zenit_str_split_with_allocator (Some [97, 44, 44, 98]) (Some [44, 59]) (Some 9) ZENIT_ALLOCATOR_DEFAULT str_demo_heap = Some (r, n, h1) \<and>
    (case r of None \<Rightarrow> n = Some 9 \<and> heap_addrs h1 = heap_addrs str_demo_heap
     | Some arr \<Rightarrow> \<exists>bs. n = Some (length bs) \<and> take (length bs + 1) (snd arr) = map Some bs @ [None] \<and>
         map block_str bs = split_text [44, 59] [97, 44, 44, 98] \<and>
         (\<exists>h2. zenit_str_split_free r (length bs) ZENIT_ALLOCATOR_DEFAULT h1 = Some h2 \<and> heap_addrs h2 = heap_addrs str_demo_heap))"
    by (rule str_split_tokens [OF default_contract]) (simp_all add: size_mod_def)
  moreover have "length bs = 3" if "map block_str bs = split_text [44, 59] [97, 44, 44, 98]" for bs
  proof -
    have "length (map block_str bs) = 3" unfolding that by code_simp
    then show ?thesis by simp
  qed
  ultimately show ?thesis by (fastforce split: option.splits)
qed


end
