(* ===== verification/Zenit_Csv.thy ===== *)
theory Zenit_Csv
  imports Zenit_Str
begin

text \<open>
  CSV records (\<open>include/libzenit/csv.h\<close>, \<open>src/csv.c\<close>): parsing a line into fields and printing a record. A record is freed
  with \<open>free\<close> whatever allocator made it, so the allocators here work on the C heap.
\<close>

section \<open>State and operations\<close>

record zenit_csv_record_t =
  csv_fields :: "ptr arr option"
  csv_count :: nat

text \<open>The buffer that a field is read into, with its capacity and length.\<close>

record csv_buf =
  cb_buf :: ptr
  cb_cap :: nat
  cb_len :: nat

function csv_free_loop :: "ptr arr \<Rightarrow> nat \<Rightarrow> nat \<Rightarrow> c_heap \<Rightarrow> c_heap option" where
  "csv_free_loop flds n i h =
    (if i < n then do {
       p \<leftarrow> ar_get flds i;
       h' \<leftarrow> c_free (paddr p) h;
       csv_free_loop flds n (i + 1) h'
     } else Some h)"
  by pat_completeness auto
termination by (relation "measure (\<lambda>(flds, n, i, h). n - i)") auto

declare csv_free_loop.simps [simp del]

definition csv_release :: "zenit_csv_record_t \<Rightarrow> c_heap \<Rightarrow> (zenit_csv_record_t \<times> c_heap) option" where
  "csv_release r h = do {
     h' \<leftarrow> (case csv_fields r of None \<Rightarrow> Some h
       | Some flds \<Rightarrow> do { h1 \<leftarrow> csv_free_loop flds (csv_count r) 0 h; c_free (Some (fst flds)) h1 });
     Some (r\<lparr>csv_fields := None, csv_count := 0\<rparr>, h')
   }"

definition zenit_csv_record_destroy :: "zenit_csv_record_t option \<Rightarrow> c_heap \<Rightarrow> (zenit_csv_record_t option \<times> c_heap) option" where
  "zenit_csv_record_destroy rec h =
    (case rec of None \<Rightarrow> Some (None, h)
     | Some r \<Rightarrow> do { (r', h') \<leftarrow> csv_release r h; Some (Some r', h') })"

text \<open>The flag says whether the function returned 1.\<close>

definition grow_buf :: "ptr \<Rightarrow> nat \<Rightarrow> zenit_csv_record_t \<Rightarrow> c_heap zenit_allocator_t \<Rightarrow> c_heap \<Rightarrow> (bool \<times> ptr \<times> zenit_csv_record_t \<times> c_heap) option" where
  "grow_buf buf new_cap out a h = do {
     (tmp, h1) \<leftarrow> zenit_allocator_realloc a buf (new_cap div 2) new_cap h;
     if tmp = None then do {
       h2 \<leftarrow> free_fn a (paddr buf) h1;
       (out', h3) \<leftarrow> csv_release out h2;
       Some (False, buf, out', h3)
     } else Some (True, tmp, out, h1)
   }"

definition buf_append ::
    "csv_buf \<Rightarrow> byte \<Rightarrow> zenit_csv_record_t \<Rightarrow> c_heap zenit_allocator_t \<Rightarrow> c_heap \<Rightarrow> (bool \<times> csv_buf \<times> zenit_csv_record_t \<times> c_heap) option" where
  "buf_append b c out a h = do {
     (ok, b1, out1, h1) \<leftarrow> (if sz_add (cb_len b) 1 \<ge> cb_cap b then do {
         (ok, buf, out1, h1) \<leftarrow> grow_buf (cb_buf b) (sz_mul (cb_cap b) 2) out a h;
         Some (ok, if ok then b\<lparr>cb_buf := buf, cb_cap := sz_mul (cb_cap b) 2\<rparr> else b, out1, h1)
       } else Some (True, b, out, h));
     if \<not> ok then Some (False, b1, out1, h1)
     else do {
       q \<leftarrow> mem_write (cb_buf b1) (cb_len b1) [c];
       Some (True, b1\<lparr>cb_buf := q, cb_len := cb_len b1 + 1\<rparr>, out1, h1)
     }
   }"

function quoted_loop ::
    "c_str \<Rightarrow> nat \<Rightarrow> csv_buf \<Rightarrow> zenit_csv_record_t \<Rightarrow> c_heap zenit_allocator_t \<Rightarrow> c_heap \<Rightarrow> (bool \<times> nat \<times> csv_buf \<times> zenit_csv_record_t \<times> c_heap) option" where
  "quoted_loop s p b out a h = do {
     c \<leftarrow> str_at s p;
     if c = 0 then Some (True, p, b, out, h)
     else if c \<noteq> 34 then do {
       (ok, b1, out1, h1) \<leftarrow> buf_append b c out a h;
       if \<not> ok then Some (False, p, b1, out1, h1) else quoted_loop s (p + 1) b1 out1 a h1
     }
     else do {
       c1 \<leftarrow> str_at s (p + 1);
       if c1 = 34 then do {
         (ok, b1, out1, h1) \<leftarrow> buf_append b 34 out a h;
         if \<not> ok then Some (False, p + 2, b1, out1, h1) else quoted_loop s (p + 2) b1 out1 a h1
       } else Some (True, p + 1, b, out, h)
     }
   }"
  by pat_completeness auto
termination
  by (relation "measure (\<lambda>(s, p, b, out, a, h). Suc (length s) - p)") (auto simp: str_at_def split: if_splits)

definition read_quoted ::
    "c_str \<Rightarrow> nat \<Rightarrow> csv_buf \<Rightarrow> zenit_csv_record_t \<Rightarrow> c_heap zenit_allocator_t \<Rightarrow> c_heap \<Rightarrow> (bool \<times> nat \<times> csv_buf \<times> zenit_csv_record_t \<times> c_heap) option" where
  "read_quoted s p b out a h = quoted_loop s (p + 1) b out a h"

function read_unquoted ::
    "c_str \<Rightarrow> nat \<Rightarrow> csv_buf \<Rightarrow> byte \<Rightarrow> zenit_csv_record_t \<Rightarrow> c_heap zenit_allocator_t \<Rightarrow> c_heap \<Rightarrow> (bool \<times> nat \<times> csv_buf \<times> zenit_csv_record_t \<times> c_heap) option" where
  "read_unquoted s p b delim out a h = do {
     c \<leftarrow> str_at s p;
     if c \<noteq> 0 \<and> c \<noteq> delim \<and> c \<noteq> 10 \<and> c \<noteq> 13 then do {
       (ok, b1, out1, h1) \<leftarrow> buf_append b c out a h;
       if \<not> ok then Some (False, p, b1, out1, h1) else read_unquoted s (p + 1) b1 delim out1 a h1
     } else Some (True, p, b, out, h)
   }"
  by pat_completeness auto
termination
  by (relation "measure (\<lambda>(s, p, b, delim, out, a, h). Suc (length s) - p)") (auto simp: str_at_def split: if_splits)

declare quoted_loop.simps [simp del] read_unquoted.simps [simp del]

definition grow_fields ::
    "zenit_csv_record_t \<Rightarrow> nat \<Rightarrow> c_heap zenit_allocator_t \<Rightarrow> c_heap \<Rightarrow> (bool \<times> nat \<times> zenit_csv_record_t \<times> c_heap) option" where
  "grow_fields out cap a h = do {
     let cap' = sz_mul cap 2;
     (tmp, h1) \<leftarrow> ar_realloc a sizeof_char_ptr None (csv_fields out) (cap' div 2) cap' h;
     if tmp = None then do { (out', h2) \<leftarrow> csv_release out h1; Some (False, cap', out', h2) }
     else Some (True, cap', out\<lparr>csv_fields := tmp\<rparr>, h1)
   }"

partial_function (option) parse_fields ::
    "c_heap zenit_allocator_t \<Rightarrow> c_str \<Rightarrow> byte \<Rightarrow> nat \<Rightarrow> nat \<Rightarrow> nat \<Rightarrow> zenit_csv_record_t \<Rightarrow> c_heap \<Rightarrow> (zenit_result_t \<times> zenit_csv_record_t \<times> c_heap) option" where
  "parse_fields a s delim p fi field_cap out h = do {
     (ok, cap, out1, h1) \<leftarrow> (if fi \<ge> field_cap then grow_fields out field_cap a h else Some (True, field_cap, out, h));
     if \<not> ok then Some (ZENIT_ERROR_ALLOC, out1, h1)
     else (case alloc_fn a 64 h1 of
         (None, h2) \<Rightarrow> do { (out2, h3) \<leftarrow> csv_release out1 h2; Some (ZENIT_ERROR_ALLOC, out2, h3) }
       | (Some buf, h2) \<Rightarrow> do {
           c \<leftarrow> str_at s p;
           (ok2, p2, b2, out2, h3) \<leftarrow>
             (if c = 34 then read_quoted s p \<lparr>cb_buf = Some buf, cb_cap = 64, cb_len = 0\<rparr> out1 a h2
              else read_unquoted s p \<lparr>cb_buf = Some buf, cb_cap = 64, cb_len = 0\<rparr> delim out1 a h2);
           if \<not> ok2 then Some (ZENIT_ERROR_ALLOC, out2, h3)
           else do {
             (ok3, b3, out3, h4) \<leftarrow> (if cb_len b2 \<ge> cb_cap b2 then do {
                 (ok, buf', o', h') \<leftarrow> grow_buf (cb_buf b2) (sz_add (cb_cap b2) 1) out2 a h3;
                 Some (ok, b2\<lparr>cb_buf := buf', cb_cap := sz_add (cb_cap b2) 1\<rparr>, o', h')
               } else Some (True, b2, out2, h3));
             if \<not> ok3 then Some (ZENIT_ERROR_ALLOC, out3, h4)
             else do {
               q \<leftarrow> mem_write (cb_buf b3) (cb_len b3) [0];
               flds \<leftarrow> csv_fields out3;
               flds' \<leftarrow> ar_put flds fi q;
               let out4 = out3\<lparr>csv_fields := Some flds', csv_count := fi + 1\<rparr>;
               c2 \<leftarrow> str_at s p2;
               if c2 = delim then parse_fields a s delim (p2 + 1) (fi + 1) cap out4 h4
               else Some (ZENIT_OK, out4, h4)
             }
           }
         })
   }"

declare parse_fields.simps [code]

definition zenit_csv_parse_record_with_allocator ::
    "c_str option \<Rightarrow> byte \<Rightarrow> zenit_csv_record_t option \<Rightarrow> c_heap zenit_allocator_t \<Rightarrow> c_heap \<Rightarrow> (zenit_result_t \<times> zenit_csv_record_t option \<times> c_heap) option" where
  "zenit_csv_parse_record_with_allocator line delim out a h =
    (case (line, out) of
       (Some s, Some r) \<Rightarrow>
         (case alloc_fn a (sz_mul 8 sizeof_char_ptr) h of
            (None, h1) \<Rightarrow> Some (ZENIT_ERROR_ALLOC, Some (r\<lparr>csv_fields := None, csv_count := 0\<rparr>), h1)
          | (Some b, h1) \<Rightarrow> do {
              let out1 = r\<lparr>csv_fields := Some (maddr b, replicate (length (mbytes b) div sizeof_char_ptr) None), csv_count := 0\<rparr>;
              (res, out2, h2) \<leftarrow> parse_fields a s delim 0 0 8 out1 h1;
              Some (res, Some out2, h2)
            })
     | _ \<Rightarrow> Some (ZENIT_ERROR_NULL, out, h))"

definition zenit_csv_parse_record ::
    "c_str option \<Rightarrow> byte \<Rightarrow> zenit_csv_record_t option \<Rightarrow> c_heap \<Rightarrow> (zenit_result_t \<times> zenit_csv_record_t option \<times> c_heap) option" where
  "zenit_csv_parse_record line delim out h = zenit_csv_parse_record_with_allocator line delim out ZENIT_ALLOCATOR_DEFAULT h"

text \<open>Printing. The text of a field ends at its first NUL; a field without one, and a NULL, cannot be read.\<close>

definition field_text :: "ptr \<Rightarrow> c_str option" where
  "field_text p = (case p of None \<Rightarrow> None | Some b \<Rightarrow> if 0 \<in> set (mbytes b) then Some (block_str b) else None)"

definition needs_quoting :: "c_str \<Rightarrow> byte \<Rightarrow> bool" where
  "needs_quoting s delim \<longleftrightarrow> s = [] \<or> hd s = 32 \<or> hd s = 9 \<or> last s = 32 \<or> last s = 9 \<or>
    list_ex (\<lambda>c. c = delim \<or> c = 34 \<or> c = 10 \<or> c = 13) s"

fun quoted_len :: "c_str \<Rightarrow> nat \<Rightarrow> nat" where
  "quoted_len [] n = n"
| "quoted_len (c # cs) n = quoted_len cs (sz_add (if c = 34 then sz_add n 1 else n) 1)"

definition serialised_field_len :: "c_str \<Rightarrow> byte \<Rightarrow> nat" where
  "serialised_field_len s delim = (if needs_quoting s delim then quoted_len s 2 else length s)"

fun quoted_write :: "c_str \<Rightarrow> ptr \<Rightarrow> nat \<Rightarrow> (ptr \<times> nat) option" where
  "quoted_write [] buf pos = Some (buf, pos)"
| "quoted_write (c # cs) buf pos = do {
     (buf1, pos1) \<leftarrow> (if c = 34 then do { q \<leftarrow> mem_write buf pos [34]; Some (q, pos + 1) } else Some (buf, pos));
     q \<leftarrow> mem_write buf1 pos1 [c];
     quoted_write cs q (pos1 + 1)
   }"

definition serialised_field_write :: "c_str \<Rightarrow> byte \<Rightarrow> ptr \<Rightarrow> nat \<Rightarrow> (ptr \<times> nat) option" where
  "serialised_field_write s delim buf pos =
    (if needs_quoting s delim then do {
       q \<leftarrow> mem_write buf pos [34];
       (q1, pos1) \<leftarrow> quoted_write s q (pos + 1);
       q2 \<leftarrow> mem_write q1 pos1 [34];
       Some (q2, pos1 + 1)
     } else do { q \<leftarrow> mem_write buf pos s; Some (q, pos + length s) })"

definition csv_field_at :: "zenit_csv_record_t \<Rightarrow> nat \<Rightarrow> c_str option" where
  "csv_field_at r i = do { flds \<leftarrow> csv_fields r; p \<leftarrow> ar_get flds i; field_text p }"

function serialise_len_loop :: "zenit_csv_record_t \<Rightarrow> byte \<Rightarrow> nat \<Rightarrow> nat \<Rightarrow> nat option" where
  "serialise_len_loop r delim i total_len =
    (if i < csv_count r then do {
       s \<leftarrow> csv_field_at r i;
       serialise_len_loop r delim (i + 1) (sz_add (if i > 0 then sz_add total_len 1 else total_len) (serialised_field_len s delim))
     } else Some total_len)"
  by pat_completeness auto
termination by (relation "measure (\<lambda>(r, delim, i, t). csv_count r - i)") auto

function serialise_write_loop :: "zenit_csv_record_t \<Rightarrow> byte \<Rightarrow> nat \<Rightarrow> ptr \<Rightarrow> nat \<Rightarrow> (ptr \<times> nat) option" where
  "serialise_write_loop r delim i buf pos =
    (if i < csv_count r then do {
       (buf1, pos1) \<leftarrow> (if i > 0 then do { q \<leftarrow> mem_write buf pos [delim]; Some (q, pos + 1) } else Some (buf, pos));
       s \<leftarrow> csv_field_at r i;
       (buf2, pos2) \<leftarrow> serialised_field_write s delim buf1 pos1;
       serialise_write_loop r delim (i + 1) buf2 pos2
     } else Some (buf, pos))"
  by pat_completeness auto
termination by (relation "measure (\<lambda>(r, delim, i, buf, pos). csv_count r - i)") auto

declare serialise_len_loop.simps [simp del] serialise_write_loop.simps [simp del]

definition zenit_csv_serialise_record_with_allocator ::
    "zenit_csv_record_t option \<Rightarrow> byte \<Rightarrow> ptr option \<Rightarrow> 'h zenit_allocator_t \<Rightarrow> 'h \<Rightarrow> (zenit_result_t \<times> ptr option \<times> 'h) option" where
  "zenit_csv_serialise_record_with_allocator rec delim out a h =
    (case (rec, out) of
       (Some r, Some _) \<Rightarrow> do {
         t0 \<leftarrow> serialise_len_loop r delim 0 0;
         let total_len = sz_add t0 1;
         (case alloc_fn a total_len h of
            (None, h1) \<Rightarrow> Some (ZENIT_ERROR_ALLOC, out, h1)
          | (Some buf, h1) \<Rightarrow> do {
              (q, pos) \<leftarrow> serialise_write_loop r delim 0 (Some buf) 0;
              q' \<leftarrow> mem_write q pos [0];
              Some (ZENIT_OK, Some q', h1)
            })
       }
     | _ \<Rightarrow> Some (ZENIT_ERROR_NULL, out, h))"

definition zenit_csv_serialise_record ::
    "zenit_csv_record_t option \<Rightarrow> byte \<Rightarrow> ptr option \<Rightarrow> c_heap \<Rightarrow> (zenit_result_t \<times> ptr option \<times> c_heap) option" where
  "zenit_csv_serialise_record rec delim out h = zenit_csv_serialise_record_with_allocator rec delim out ZENIT_ALLOCATOR_DEFAULT h"


section \<open>The buffer of a field\<close>

lemma default_free [simp]: "free_fn ZENIT_ALLOCATOR_DEFAULT = c_free"
  by (simp add: ZENIT_ALLOCATOR_DEFAULT_def zenit_default_free_def fun_eq_iff)

lemma csv_free_loop_split: "csv_free_loop r n i h = free_split_loop ZENIT_ALLOCATOR_DEFAULT r n i h"
proof (induction r n i h rule: csv_free_loop.induct)
  case (1 r n i h)
  show ?case
  proof (cases "i < n")
    case True
    show ?thesis
    proof (cases "ar_get r i")
      case (Some p)
      show ?thesis using 1 [OF True Some] True Some by (subst csv_free_loop.simps, subst free_split_loop.simps) (cases "c_free (paddr p) h"; simp)
    qed (subst csv_free_loop.simps, subst free_split_loop.simps, simp)
  qed (subst csv_free_loop.simps, subst free_split_loop.simps, simp)
qed

text \<open>The record holds the fields \<open>bs\<close>; these and the array are what was allocated since \<open>h0\<close>.\<close>

definition out_ok :: "c_heap \<Rightarrow> mblock list \<Rightarrow> zenit_csv_record_t \<Rightarrow> c_heap \<Rightarrow> bool" where
  "out_ok h0 bs out h \<longleftrightarrow> (\<exists>arr. csv_fields out = Some arr \<and> csv_count out = length bs \<and> toks_ok heap_addrs h0 bs arr h)"

lemma out_ok_cong: "out_ok h0 bs out h \<Longrightarrow> heap_addrs h' = heap_addrs h \<Longrightarrow> out_ok h0 bs out h'"
  by (simp add: out_ok_def toks_ok_def fresh_blocks_def)

definition emptied :: "c_heap \<Rightarrow> zenit_csv_record_t \<Rightarrow> c_heap \<Rightarrow> bool" where
  "emptied h0 out h \<longleftrightarrow> csv_fields out = None \<and> csv_count out = 0 \<and> heap_addrs h = heap_addrs h0"

lemma csv_release_ok:
  assumes "out_ok h0 bs out h"
  shows "\<exists>out' h'. csv_release out h = Some (out', h') \<and> emptied h0 out' h'"
proof -
  obtain arr where arr: "csv_fields out = Some arr" "csv_count out = length bs" "toks_ok heap_addrs h0 bs arr h"
    using assms by (auto simp: out_ok_def)
  obtain h' where "free_split_result_with_allocator (Some arr) (length bs) ZENIT_ALLOCATOR_DEFAULT h = Some h'" "heap_addrs h' = heap_addrs h0"
    using free_split_ok [OF default_contract arr(3)] by blast
  then have "do { h1 \<leftarrow> csv_free_loop arr (length bs) 0 h; c_free (Some (fst arr)) h1 } = Some h'" "heap_addrs h' = heap_addrs h0"
    by (simp_all add: free_split_result_with_allocator_def csv_free_loop_split)
  then show ?thesis using arr by (auto simp: csv_release_def emptied_def)
qed

text \<open>The buffer holds the text \<open>t\<close> and is the one block allocated since \<open>h1\<close>.\<close>

definition buf_at :: "c_heap \<Rightarrow> byte list \<Rightarrow> csv_buf \<Rightarrow> c_heap \<Rightarrow> bool" where
  "buf_at h1 t b h \<longleftrightarrow> (\<exists>blk. cb_buf b = Some blk \<and> length (mbytes blk) = cb_cap b \<and> cb_len b = length t \<and> length t < cb_cap b \<and>
    64 \<le> cb_cap b \<and> (cb_cap b = 64 \<or> cb_cap b \<le> 2 * length t) \<and> take (length t) (mbytes blk) = t \<and>
    maddr blk \<notin> heap_addrs h1 \<and> heap_addrs h = insert (maddr blk) (heap_addrs h1))"

lemma blit_take_snoc: "take n m = t \<Longrightarrow> length t = n \<Longrightarrow> n < length m \<Longrightarrow> take (Suc n) (blit m n [c]) = t @ [c]"
  by (simp add: blit_def)

lemma grow_buf_ok:
  assumes c: "allocator_contract a heap_addrs" and o: "out_ok h0 bs out h1" and b: "buf_at h1 t b h" and fit: "4 * (length t + 64) < size_mod"
  obtains (failed) buf out' h' where "grow_buf (cb_buf b) (2 * cb_cap b) out a h = Some (False, buf, out', h')" and "emptied h0 out' h'"
  | (made) blk h' where "grow_buf (cb_buf b) (2 * cb_cap b) out a h = Some (True, Some blk, out, h')" and "length (mbytes blk) = 2 * cb_cap b"
      and "take (length t) (mbytes blk) = t" and "maddr blk \<notin> heap_addrs h1" and "heap_addrs h' = insert (maddr blk) (heap_addrs h1)"
proof -
  obtain blk where blk: "cb_buf b = Some blk" "length (mbytes blk) = cb_cap b" "length t < cb_cap b" "64 \<le> cb_cap b" "take (length t) (mbytes blk) = t"
      "maddr blk \<notin> heap_addrs h1" "heap_addrs h = insert (maddr blk) (heap_addrs h1)" using b unfolding buf_at_def by blast
  obtain q h' where q: "zenit_allocator_realloc a (Some blk) (cb_cap b) (2 * cb_cap b) h = Some (q, h')"
      "realloc_post heap_addrs (Some blk) (2 * cb_cap b) h q h'"
  proof -
    have "paddrs (Some blk) \<subseteq> heap_addrs h" "0 < 2 * cb_cap b" "cb_cap b = plen (Some blk)" using blk(2,4,7) by simp_all
    then show thesis using allocator_contract.realloc_any [OF c] that by blast
  qed
  show thesis
  proof (cases q)
    case None
    then have "maddr blk \<in> heap_addrs h'" "heap_addrs h' = heap_addrs h" using q(2) blk(7) by (simp_all add: realloc_post_def)
    then obtain h2 where h2: "free_fn a (Some (maddr blk)) h' = Some h2" "heap_addrs h2 = heap_addrs h1"
      using allocator_contract.free_live [OF c, of "maddr blk" h'] blk(6,7) by auto
    obtain out' h3 where "csv_release out h2 = Some (out', h3)" "emptied h0 out' h3"
      using csv_release_ok [OF out_ok_cong [OF o h2(2)]] by blast
    then show ?thesis using failed [of "Some blk" out' h3] q(1) None h2(1) blk(1) by (simp add: grow_buf_def)
  next
    case (Some n)
    have tk: "take (cb_cap b) (mbytes n) = mbytes blk" using q(2) Some blk(2,4) by (simp add: realloc_post_def min_def)
    have "take (length t) (mbytes n) = take (length t) (take (cb_cap b) (mbytes n))" using blk(3) by (simp add: min_def)
    then have "take (length t) (mbytes n) = t" using tk blk(5) by simp
    moreover have "heap_addrs h - {maddr blk} = heap_addrs h1" using blk(6,7) by auto
    ultimately show ?thesis using made [of n h'] q Some blk(1) by (simp add: grow_buf_def realloc_post_def)
  qed
qed

lemma buf_append_ok:
  assumes c: "allocator_contract a heap_addrs" and o: "out_ok h0 bs out h1" and b: "buf_at h1 t b h" and fit: "4 * (length t + 64) < size_mod"
  obtains (failed) b' out' h' where "buf_append b x out a h = Some (False, b', out', h')" and "emptied h0 out' h'"
  | (made) b' h' where "buf_append b x out a h = Some (True, b', out, h')" and "buf_at h1 (t @ [x]) b' h'"
proof -
  obtain blk where blk: "cb_buf b = Some blk" "length (mbytes blk) = cb_cap b" "cb_len b = length t" "length t < cb_cap b" "64 \<le> cb_cap b"
      "cb_cap b = 64 \<or> cb_cap b \<le> 2 * length t" "take (length t) (mbytes blk) = t"
      "maddr blk \<notin> heap_addrs h1" "heap_addrs h = insert (maddr blk) (heap_addrs h1)" using b unfolding buf_at_def by blast
  have sz: "sz_add (cb_len b) 1 = length t + 1" "sz_mul (cb_cap b) 2 = 2 * cb_cap b"
    using fit blk(3,6) by (auto simp: sz_add_nowrap sz_mul_nowrap)
  show thesis
  proof (cases "length t + 1 \<ge> cb_cap b")
    case False
    let ?b = "b\<lparr>cb_buf := Some (blk\<lparr>mbytes := blit (mbytes blk) (length t) [x]\<rparr>), cb_len := length t + 1\<rparr>"
    have "buf_at h1 (t @ [x]) ?b h" using blk False by (auto simp: buf_at_def blit_take_snoc)
    then show ?thesis using made [of ?b h] False sz blk(1-4) by (simp add: buf_append_def mem_write_def)
  next
    case True
    show ?thesis
    proof (cases rule: grow_buf_ok [OF assms, case_names no yes])
      case (no buf out' h')
      then show ?thesis using failed [of b out' h'] True sz by (simp add: buf_append_def)
    next
      case (yes n h')
      let ?b = "b\<lparr>cb_buf := Some (n\<lparr>mbytes := blit (mbytes n) (length t) [x]\<rparr>), cb_cap := 2 * cb_cap b, cb_len := length t + 1\<rparr>"
      have "buf_at h1 (t @ [x]) ?b h'" using blk(3-5) yes True by (auto simp: buf_at_def blit_take_snoc)
      then show ?thesis using made [of ?b h'] True sz yes blk(3,4) by (simp add: buf_append_def mem_write_def)
    qed
  qed
qed

section \<open>Reading a field\<close>

fun csv_quoted :: "byte list \<Rightarrow> byte list \<times> byte list" where
  "csv_quoted [] = ([], [])"
| "csv_quoted (c # cs) =
    (if c \<noteq> 34 then (case csv_quoted cs of (t, r) \<Rightarrow> (c # t, r))
     else (case cs of [] \<Rightarrow> ([], []) | d # ds \<Rightarrow> if d = 34 then (case csv_quoted ds of (t, r) \<Rightarrow> (34 # t, r)) else ([], d # ds)))"

definition plain_char :: "byte \<Rightarrow> byte \<Rightarrow> bool" where
  "plain_char d c \<longleftrightarrow> c \<noteq> d \<and> c \<noteq> 10 \<and> c \<noteq> 13"

definition csv_field :: "byte \<Rightarrow> byte list \<Rightarrow> byte list \<times> byte list" where
  "csv_field d s = (case s of [] \<Rightarrow> ([], []) | c # cs \<Rightarrow> if c = 34 then csv_quoted cs else (takeWhile (plain_char d) s, dropWhile (plain_char d) s))"

text \<open>What a reading loop leaves: the text \<open>t\<close> in the buffer and the rest \<open>r\<close> of the line, or everything given back.\<close>

definition read_post :: "c_heap \<Rightarrow> c_heap \<Rightarrow> c_str \<Rightarrow> byte list \<times> byte list \<Rightarrow> zenit_csv_record_t \<Rightarrow> (bool \<times> nat \<times> csv_buf \<times> zenit_csv_record_t \<times> c_heap) option \<Rightarrow> bool" where
  "read_post h0 h1 s tr out res \<longleftrightarrow>
    (case res of None \<Rightarrow> False
     | Some (ok, p, b, out', h) \<Rightarrow> if ok then p \<le> length s \<and> drop p s = snd tr \<and> buf_at h1 (fst tr) b h \<and> out' = out else emptied h0 out' h)"

lemma drop_Cons_at: "drop p s = c # cs \<Longrightarrow> str_at s p = Some c \<and> p < length s \<and> drop (p + 1) s = cs"
  by (cases "p < length s") (auto simp: Cons_nth_drop_Suc [symmetric] One_nat_def)

lemma drop_Nil_at: "drop p s = [] \<Longrightarrow> p \<le> length s \<Longrightarrow> str_at s p = Some 0"
  by (simp add: str_at_def)


lemma read_postI:
  assumes "p \<le> length s" and "drop p s = r" and "buf_at h1 t b h"
  shows "read_post h0 h1 s (t, r) out (Some (True, p, b, out, h))"
  using assms by (simp add: read_post_def)

lemma read_post_failed: "emptied h0 out' h \<Longrightarrow> read_post h0 h1 s tr out (Some (False, p, b, out', h))"
  by (simp add: read_post_def)

lemma quoted_loop_ok:
  assumes c: "allocator_contract a heap_addrs" and s: "c_string s" and fit: "4 * (length s + 64) < size_mod" and o: "out_ok h0 bs out h1"
    and "buf_at h1 t b h" and "p \<le> length s" and "length t \<le> p" and "drop p s = rest"
  shows "read_post h0 h1 s (case csv_quoted rest of (u, r) \<Rightarrow> (t @ u, r)) out (quoted_loop s p b out a h)"
  using assms(5-)
proof (induction rest arbitrary: t b p h rule: csv_quoted.induct)
  case 1
  then show ?case using drop_Nil_at [of p s] by (subst quoted_loop.simps) (simp add: read_postI)
next
  case (2 x cs)
  note b = 2(3) and p = 2(4,5)
  have at: "str_at s p = Some x" "p < length s" "drop (p + 1) s = cs" using drop_Cons_at [OF 2(6)] by simp_all
  have x: "x \<noteq> 0" using c_string_nth [OF s at(2)] at(1,2) by simp
  have f: "4 * (length t + 64) < size_mod" using fit p by simp
  show ?case
  proof (cases "x = 34")
    case False
    show ?thesis
    proof (cases rule: buf_append_ok [OF c o b f, of x, case_names no yes])
      case (no b' out' h')
      then show ?thesis using at(1) x False by (subst quoted_loop.simps) (simp add: read_post_failed)
    next
      case (yes b' h')
      have "read_post h0 h1 s (case csv_quoted cs of (u, r) \<Rightarrow> ((t @ [x]) @ u, r)) out (quoted_loop s (p + 1) b' out a h')"
        by (rule 2(1) [OF False yes(2)]) (use at p in simp_all)
      then show ?thesis using at(1) x False yes(1) by (subst quoted_loop.simps) (simp add: case_prod_unfold)
    qed
  next
    case q: True
    show ?thesis
    proof (cases "cs \<noteq> [] \<and> hd cs = 34")
      case True
      then obtain ds where ds: "cs = 34 # ds" by (cases cs) auto
      have at1: "str_at s (p + 1) = Some 34" "p + 1 < length s" "drop (p + 2) s = ds" using drop_Cons_at [of "p + 1" s 34 ds] at(3) ds by (simp_all add: One_nat_def numeral_2_eq_2)
      show ?thesis
      proof (cases rule: buf_append_ok [OF c o b f, of 34, case_names no yes])
        case (no b' out' h')
        then show ?thesis using at(1) at1(1) q by (subst quoted_loop.simps) (simp add: read_post_failed)
      next
        case (yes b' h')
        have "read_post h0 h1 s (case csv_quoted ds of (u, r) \<Rightarrow> ((t @ [34]) @ u, r)) out (quoted_loop s (p + 2) b' out a h')"
          by (rule 2(2) [OF _ ds _ yes(2)]) (use q at1 p in simp_all)
        then show ?thesis using at(1) at1(1) q ds yes(1) by (subst quoted_loop.simps) (simp add: case_prod_unfold)
      qed
    next
      case False
      have "str_at s (p + 1) = Some (case cs of [] \<Rightarrow> 0 | d # ds \<Rightarrow> d)"
        using drop_Cons_at [of "p + 1" s] drop_Nil_at [of "p + 1" s] at(2,3) by (cases cs) (simp_all add: One_nat_def)
      moreover have "csv_quoted (x # cs) = ([], cs)" using False q by (cases cs) auto
      moreover have "read_post h0 h1 s (t, cs) out (Some (True, p + 1, b, out, h))" by (rule read_postI) (use at b in simp_all)
      ultimately show ?thesis using at(1) q False by (subst quoted_loop.simps) (cases cs; simp del: csv_quoted.simps)
    qed
  qed
qed

lemma read_unquoted_ok:
  assumes c: "allocator_contract a heap_addrs" and s: "c_string s" and fit: "4 * (length s + 64) < size_mod" and o: "out_ok h0 bs out h1"
    and "buf_at h1 t b h" and "p \<le> length s" and "length t \<le> p" and "drop p s = rest"
  shows "read_post h0 h1 s (t @ takeWhile (plain_char d) rest, dropWhile (plain_char d) rest) out (read_unquoted s p b d out a h)"
  using assms(5-)
proof (induction rest arbitrary: t b p h)
  case Nil
  then show ?case using drop_Nil_at [of p s] by (subst read_unquoted.simps) (simp add: read_postI)
next
  case (Cons x cs)
  note b = Cons.prems(1) and p = Cons.prems(2,3)
  have at: "str_at s p = Some x" "p < length s" "drop (p + 1) s = cs" using drop_Cons_at [OF Cons.prems(4)] by simp_all
  have x: "x \<noteq> 0" using c_string_nth [OF s at(2)] at(1,2) by simp
  have f: "4 * (length t + 64) < size_mod" using fit p by simp
  show ?case
  proof (cases "plain_char d x")
    case True
    show ?thesis
    proof (cases rule: buf_append_ok [OF c o b f, of x, case_names no yes])
      case (no b' out' h')
      then show ?thesis using at(1) x True by (subst read_unquoted.simps) (simp add: read_post_failed plain_char_def)
    next
      case (yes b' h')
      have "read_post h0 h1 s ((t @ [x]) @ takeWhile (plain_char d) cs, dropWhile (plain_char d) cs) out (read_unquoted s (p + 1) b' d out a h')"
        by (rule Cons.IH [OF yes(2)]) (use at p in simp_all)
      then show ?thesis using at(1) x True yes(1) by (subst read_unquoted.simps) (simp add: plain_char_def)
    qed
  next
    case False
    then show ?thesis using at(1) b p Cons.prems(4) by (subst read_unquoted.simps) (auto simp: plain_char_def intro: read_postI)
  qed
qed


section \<open>Reading a record\<close>

lemma csv_quoted_part: "length (snd (csv_quoted s)) \<le> length s \<and> set (fst (csv_quoted s)) \<subseteq> set s"
proof (induction s rule: csv_quoted.induct)
  case (2 c cs)
  show ?case
  proof (cases "c = 34")
    case True
    show ?thesis
    proof (cases cs)
      case (Cons d ds)
      show ?thesis
      proof (cases "d = 34")
        case d: True
        have "csv_quoted (c # cs) = (34 # fst (csv_quoted ds), snd (csv_quoted ds))" using True Cons d by (simp add: case_prod_unfold)
        then show ?thesis using 2(2) [OF _ Cons d] True Cons by auto
      qed (use True Cons in simp)
    qed (use True in simp)
  next
    case False
    then have "csv_quoted (c # cs) = (c # fst (csv_quoted cs), snd (csv_quoted cs))" by (simp add: case_prod_unfold)
    then show ?thesis using 2(1) [OF False] by auto
  qed
qed simp

lemma csv_field_length: "length (snd (csv_field d s)) \<le> length s"
  using csv_quoted_part [of "tl s"] length_dropWhile_le [of "plain_char d" s] by (cases s) (auto simp: csv_field_def)

function csv_line :: "byte \<Rightarrow> byte list \<Rightarrow> byte list list" where
  "csv_line d s = (case csv_field d s of (t, r) \<Rightarrow> (case r of [] \<Rightarrow> [t] | c # cs \<Rightarrow> if c = d then t # csv_line d cs else [t]))"
  by pat_completeness auto
termination
proof (relation "measure (\<lambda>(d, s). length s)", goal_cases)
  case (2 d s t r c cs)
  have "snd (csv_field d s) = c # cs" using 2 by (metis snd_conv)
  then show ?case using csv_field_length [of d s] by simp
qed simp

declare csv_line.simps [simp del]

definition ends_nul :: "mblock \<Rightarrow> bool" where
  "ends_nul b \<longleftrightarrow> 0 \<in> set (mbytes b)"

definition fields_room :: "c_heap \<Rightarrow> mblock list \<Rightarrow> nat \<Rightarrow> zenit_csv_record_t \<Rightarrow> c_heap \<Rightarrow> bool" where
  "fields_room h0 bs cap out h \<longleftrightarrow> (\<exists>arr. csv_fields out = Some arr \<and> csv_count out = length bs \<and> toks_ok heap_addrs h0 bs arr h \<and>
    length (snd arr) = cap \<and> 8 \<le> cap \<and> length bs \<le> cap \<and> (cap = 8 \<or> cap \<le> 2 * length bs))"

lemma fields_room_out: "fields_room h0 bs cap out h \<Longrightarrow> out_ok h0 bs out h"
  by (auto simp: fields_room_def out_ok_def)

lemma grow_fields_ok:
  assumes c: "allocator_contract a heap_addrs" and f: "fields_room h0 bs cap out h" and fit: "32 * (length bs + 8) < size_mod" and full: "cap \<le> length bs"
  obtains (failed) cap' out' h' where "grow_fields out cap a h = Some (False, cap', out', h')" and "emptied h0 out' h'"
  | (made) out' h' where "grow_fields out cap a h = Some (True, 2 * cap, out', h')" and "fields_room h0 bs (2 * cap) out' h'"
proof -
  obtain arr where arr: "csv_fields out = Some arr" "csv_count out = length bs" "toks_ok heap_addrs h0 bs arr h" "length (snd arr) = cap" "8 \<le> cap" "cap = length bs"
    using f full by (auto simp: fields_room_def)
  have own: "fst arr \<in> heap_addrs h" using arr(3) by (auto simp: toks_ok_def fresh_blocks_def)
  have sz: "sz_mul cap 2 = 2 * cap" using fit arr(6) by (simp add: sz_mul_nowrap)
  show thesis
  proof (cases rule: ar_realloc_ok [OF c, of "Some arr" h sizeof_char_ptr "2 * cap" cap None, case_names a1 a2 a3 a4 a5 a6 no yes])
    case (no h')
    have "out_ok h0 bs out h'" using out_ok_cong [OF fields_room_out [OF f]] no(2) by blast
    then obtain out' h2 where "csv_release out h' = Some (out', h2)" "emptied h0 out' h2" using csv_release_ok by blast
    then show ?thesis using failed no(1) sz arr(1) by (simp add: grow_fields_def Let_def)
  next
    case (yes x h')
    let ?arr = "(x, ar_resize (2 * cap) None (take cap (snd arr)))"
    let ?out = "out\<lparr>csv_fields := Some ?arr\<rparr>"
    have "fresh_blocks heap_addrs h0 (x # map maddr bs) h'" using arr(3) yes(2,3) unfolding toks_ok_def fresh_blocks_def by auto
    then have "toks_ok heap_addrs h0 bs ?arr h'" using arr(3,4,6) by (simp add: toks_ok_def ar_resize_def)
    then have "fields_room h0 bs (2 * cap) ?out h'" using arr by (simp add: fields_room_def ar_resize_def)
    then show ?thesis using made [of ?out h'] yes(1) sz arr(1) by (simp add: grow_fields_def Let_def)
  qed (use own fit arr in \<open>auto simp: sizeof_char_ptr_def\<close>)
qed

lemma fields_room_put:
  assumes f: "fields_room h0 bs cap out h1" and lt: "length bs < cap" and b: "maddr b \<notin> heap_addrs h1" "heap_addrs h = insert (maddr b) (heap_addrs h1)"
  obtains arr arr' where "csv_fields out = Some arr" and "ar_put arr (length bs) (Some b) = Some arr'"
    and "fields_room h0 (bs @ [b]) cap (out\<lparr>csv_fields := Some arr', csv_count := length bs + 1\<rparr>) h"
proof -
  obtain arr where arr: "csv_fields out = Some arr" "csv_count out = length bs" "toks_ok heap_addrs h0 bs arr h1" "length (snd arr) = cap" "8 \<le> cap" "cap = 8 \<or> cap \<le> 2 * length bs"
    using f by (auto simp: fields_room_def)
  have l: "length bs < length (snd arr)" using lt arr(4) by simp
  have "toks_ok heap_addrs h0 (bs @ [b]) (fst arr, (snd arr)[length bs := Some b]) h" by (rule toks_ok_put [OF arr(3) l b])
  then show thesis using that [OF arr(1) ar_put_ok [OF l]] arr lt by (auto simp: fields_room_def)
qed

text \<open>Terminating the buffer makes its text the string of the block.\<close>

lemma buf_at_finish:
  assumes "buf_at h1 t b h" and "c_string t"
  obtains blk where "mem_write (cb_buf b) (cb_len b) [0] = Some (Some blk)" and "block_str blk = t" and "ends_nul blk"
    and "maddr blk \<notin> heap_addrs h1" and "heap_addrs h = insert (maddr blk) (heap_addrs h1)" and "cb_len b < cb_cap b"
proof -
  obtain blk where blk: "cb_buf b = Some blk" "length (mbytes blk) = cb_cap b" "cb_len b = length t" "length t < cb_cap b" "take (length t) (mbytes blk) = t"
      "maddr blk \<notin> heap_addrs h1" "heap_addrs h = insert (maddr blk) (heap_addrs h1)" using assms(1) unfolding buf_at_def by blast
  let ?b = "blk\<lparr>mbytes := blit (mbytes blk) (length t) [0]\<rparr>"
  have m: "mbytes ?b = t @ 0 # drop (Suc (length t)) (mbytes blk)" using blk(5) by (simp add: blit_def One_nat_def)
  have "block_str ?b = t" by (rule block_str_terminated [OF assms(2) m])
  moreover have "ends_nul ?b" unfolding ends_nul_def m by simp
  ultimately show thesis using that [of ?b] blk by (simp add: mem_write_def)
qed

lemma csv_field_chars: "set (fst (csv_field d s)) \<subseteq> set s"
  using csv_quoted_part [of "tl s"] by (cases s) (auto simp: csv_field_def dest: set_takeWhileD)

text \<open>Reading the field at position \<open>p\<close> into a new buffer.\<close>

lemma read_field_ok:
  assumes c: "allocator_contract a heap_addrs" and s: "c_string s" and fit: "4 * (length s + 64) < size_mod" and o: "out_ok h0 bs out h1"
    and b: "buf_at h1 [] b h" and p: "p \<le> length s" and at: "str_at s p = Some x"
  shows "read_post h0 h1 s (csv_field d (drop p s)) out (if x = 34 then read_quoted s p b out a h else read_unquoted s p b d out a h)"
proof (cases "drop p s")
  case Nil
  then have "x = 0" using at drop_Nil_at [OF Nil p] by simp
  then show ?thesis using read_unquoted_ok [OF c s fit o b p _ Nil, of d] Nil by (simp add: csv_field_def)
next
  case (Cons y cs)
  then have x: "y = x" "p < length s" "drop (p + 1) s = cs" using drop_Cons_at [OF Cons] at by simp_all
  show ?thesis
  proof (cases "x = 34")
    case True
    then show ?thesis using quoted_loop_ok [OF c s fit o b _ _ x(3)] x Cons by (simp add: csv_field_def read_quoted_def One_nat_def)
  next
    case False
    then show ?thesis using read_unquoted_ok [OF c s fit o b p _ Cons, of d] x Cons by (simp add: csv_field_def)
  qed
qed


definition parse_post :: "c_heap \<Rightarrow> byte list list \<Rightarrow> zenit_result_t \<Rightarrow> zenit_csv_record_t \<Rightarrow> c_heap \<Rightarrow> bool" where
  "parse_post h0 texts res out h \<longleftrightarrow>
    (if res = ZENIT_OK then \<exists>bs. map block_str bs = texts \<and> list_all ends_nul bs \<and> out_ok h0 bs out h
     else res = ZENIT_ERROR_ALLOC \<and> emptied h0 out h)"

lemma parse_fields_ok:
  assumes c: "allocator_contract a heap_addrs" and s: "c_string s" and fit: "32 * (length s + 64) < size_mod" and d: "d \<noteq> 0"
    and "fields_room h0 bs cap out h" and "list_all ends_nul bs" and "p \<le> length s" and "length bs \<le> p"
  shows "\<exists>res out' h'. parse_fields a s d p (length bs) cap out h = Some (res, out', h') \<and> parse_post h0 (map block_str bs @ csv_line d (drop p s)) res out' h'"
  using assms(5-)
proof (induction "length s - p" arbitrary: bs cap out h p rule: less_induct)
  case less
  note f = less.prems(1) and nul = less.prems(2) and p = less.prems(3,4)
  let ?fi = "length bs"
  let ?grown = "if ?fi \<ge> cap then grow_fields out cap a h else Some (True, cap, out, h)"
  have fits: "32 * (?fi + 8) < size_mod" "4 * (length s + 64) < size_mod" using fit p by simp_all
  consider (no) cap1 out1 h1 where "?grown = Some (False, cap1, out1, h1)" "emptied h0 out1 h1"
    | (yes) cap1 out1 h1 where "?grown = Some (True, cap1, out1, h1)" "fields_room h0 bs cap1 out1 h1" "?fi < cap1"
  proof (cases "cap \<le> ?fi")
    case True
    then have "8 \<le> cap" using f by (auto simp: fields_room_def)
    moreover have "cap = ?fi" using f True by (auto simp: fields_room_def)
    ultimately show thesis using that True by (cases rule: grow_fields_ok [OF c f fits(1) True]) auto
  next
    case False
    then show thesis using that(2) [of cap out h] f by simp
  qed
  then show ?case
  proof cases
    case no
    then show ?thesis by (subst parse_fields.simps) (simp add: parse_post_def)
  next
    case yes
    note o = fields_room_out [OF yes(2)]
    show ?thesis
    proof (cases rule: allocator_contract.alloc_cases [OF c, of 64 h1, case_names null block])
      case (null h2)
      obtain out2 h3 where "csv_release out1 h2 = Some (out2, h3)" "emptied h0 out2 h3" using csv_release_ok [OF out_ok_cong [OF o null(2)]] by blast
      then show ?thesis using yes(1) null(1) by (subst parse_fields.simps) (simp add: parse_post_def)
    next
      case (block buf h2)
      let ?b = "\<lparr>cb_buf = Some buf, cb_cap = 64, cb_len = 0\<rparr>"
      have b: "buf_at h1 [] ?b h2" using block by (simp add: buf_at_def)
      obtain x where x: "str_at s p = Some x" using p(1) by (cases "str_at s p") (auto simp: str_at_def split: if_splits)
      obtain t r where tr: "csv_field d (drop p s) = (t, r)" by (cases "csv_field d (drop p s)")
      let ?read = "if x = 34 then read_quoted s p ?b out1 a h2 else read_unquoted s p ?b d out1 a h2"
      have post: "read_post h0 h1 s (t, r) out1 ?read" using read_field_ok [OF c s fits(2) o b p(1) x, of d] tr by simp
      then obtain ok p2 b2 out2 h3 where rd: "?read = Some (ok, p2, b2, out2, h3)" by (auto simp: read_post_def split: option.splits)
      show ?thesis
      proof (cases ok)
        case False
        then have "emptied h0 out2 h3" using post rd by (simp add: read_post_def)
        then show ?thesis using yes(1) block(1) x rd False by (subst parse_fields.simps) (simp add: parse_post_def)
      next
        case True
        have rest: "p2 \<le> length s" "drop p2 s = r" "buf_at h1 t b2 h3" "out2 = out1" using post rd True by (simp_all add: read_post_def)
        have ct: "c_string t" using csv_field_chars [of d "drop p s"] tr s by (auto simp: c_string_def dest: in_set_dropD)
        obtain blk where blk: "mem_write (cb_buf b2) (cb_len b2) [0] = Some (Some blk)" "block_str blk = t" "ends_nul blk"
            "maddr blk \<notin> heap_addrs h1" "heap_addrs h3 = insert (maddr blk) (heap_addrs h1)" "cb_len b2 < cb_cap b2"
          by (rule buf_at_finish [OF rest(3) ct])
        obtain arr arr' where arr: "csv_fields out1 = Some arr" "ar_put arr ?fi (Some blk) = Some arr'"
            "fields_room h0 (bs @ [blk]) cap1 (out1\<lparr>csv_fields := Some arr', csv_count := ?fi + 1\<rparr>) h3"
          by (rule fields_room_put [OF yes(2,3) blk(4,5)])
        let ?out = "out1\<lparr>csv_fields := Some arr', csv_count := ?fi + 1\<rparr>"
        obtain y where y: "str_at s p2 = Some y" using rest(1) by (cases "str_at s p2") (auto simp: str_at_def split: if_splits)
        have step: "parse_fields a s d p ?fi cap out h = (if y = d then parse_fields a s d (p2 + 1) (?fi + 1) cap1 ?out h3 else Some (ZENIT_OK, ?out, h3))"
          using yes(1) block(1) x rd True rest(4) blk(1,6) arr(1,2) y by (subst parse_fields.simps) simp
        have nul': "list_all ends_nul (bs @ [blk])" using nul blk(3) by simp
        show ?thesis
        proof (cases "y = d")
          case yd: True
          then obtain cs where cs: "r = d # cs" "p2 < length s" "drop (p2 + 1) s = cs"
            using y d rest(2) drop_Nil_at [of p2 s] drop_Cons_at [of p2 s] rest(1) by (cases r) auto
          have adv: "p \<le> p2" using csv_field_length [of d "drop p s"] tr rest(1,2) p(1) by (metis diff_le_mono2 diff_diff_cancel length_drop snd_conv)
          have "\<exists>res out' h'. parse_fields a s d (p2 + 1) (length (bs @ [blk])) cap1 ?out h3 = Some (res, out', h') \<and>
              parse_post h0 (map block_str (bs @ [blk]) @ csv_line d (drop (p2 + 1) s)) res out' h'"
            by (rule less.hyps [OF _ arr(3) nul']) (use adv cs(2) p in simp_all)
          moreover have "csv_line d (drop p s) = t # csv_line d cs" using tr cs(1) by (subst csv_line.simps) simp
          ultimately show ?thesis using yd cs(3) blk(2) by (simp add: step One_nat_def)
        next
          case False
          have "z = y" if "r = z # zs" for z zs using drop_Cons_at [of p2 s z zs] rest(2) that y by simp
          then have "csv_line d (drop p s) = [t]" using tr False by (subst csv_line.simps) (cases r; simp)
          then show ?thesis using False nul' fields_room_out [OF arr(3)] blk(2) by (auto simp: step parse_post_def intro!: exI [of _ "bs @ [blk]"])
        qed
      qed
    qed
  qed
qed


lemma csv_parse_cases:
  assumes c: "allocator_contract a heap_addrs" and s: "c_string s" and fit: "32 * (length s + 64) < size_mod" and d: "d \<noteq> 0"
  shows "\<exists>res out h1. zenit_csv_parse_record_with_allocator (Some s) d (Some r0) a h = Some (res, Some out, h1) \<and> parse_post h (csv_line d s) res out h1"
proof (cases rule: allocator_contract.alloc_cases [OF c, of 64 h, case_names null block])
  case (null h1)
  then show ?thesis by (simp add: zenit_csv_parse_record_with_allocator_def sizeof_char_ptr_def sz_mul_nowrap size_mod_def parse_post_def emptied_def)
next
  case (block b h1)
  let ?out = "r0\<lparr>csv_fields := Some (maddr b, replicate 8 None), csv_count := 0\<rparr>"
  have "fields_room h [] 8 ?out h1" using block by (simp add: fields_room_def toks_ok_def fresh_blocks_def)
  then obtain res out h2 where "parse_fields a s d 0 0 8 ?out h1 = Some (res, out, h2)" "parse_post h (csv_line d s) res out h2"
    using parse_fields_ok [OF assms, of h "[]" 8 ?out h1 0] by auto
  then show ?thesis using block by (simp add: zenit_csv_parse_record_with_allocator_def sizeof_char_ptr_def sz_mul_nowrap size_mod_def Let_def)
qed

section \<open>Printing a record\<close>

definition csv_escape :: "byte list \<Rightarrow> byte list" where
  "csv_escape t = concat (map (\<lambda>c. if c = 34 then [34, 34] else [c]) t)"

definition csv_cell :: "byte \<Rightarrow> byte list \<Rightarrow> byte list" where
  "csv_cell d t = (if needs_quoting t d then [34] @ csv_escape t @ [34] else t)"

definition csv_text :: "byte \<Rightarrow> byte list list \<Rightarrow> byte list" where
  "csv_text d ts = join_text [d] (map (csv_cell d) ts)"

lemma csv_escape_simps [simp]: "csv_escape [] = []" "csv_escape (c # cs) = (if c = 34 then [34, 34] else [c]) @ csv_escape cs"
  by (simp_all add: csv_escape_def)

lemma quoted_len_ok: "n + length (csv_escape s) < size_mod \<Longrightarrow> quoted_len s n = n + length (csv_escape s)"
proof (induction s arbitrary: n)
  case (Cons c cs)
  let ?m = "sz_add (if c = 34 then sz_add n 1 else n) 1"
  have "?m = n + length (if c = 34 then [34, 34] else [c])" using Cons.prems by (simp add: sz_add_nowrap One_nat_def split: if_splits)
  then show ?case using Cons.IH [of ?m] Cons.prems by simp
qed simp

lemma serialised_field_len_ok: "length (csv_cell d t) < size_mod \<Longrightarrow> serialised_field_len t d = length (csv_cell d t)"
  using quoted_len_ok [of 2 t] by (cases "needs_quoting t d") (simp_all add: serialised_field_len_def csv_cell_def)

lemma quoted_write_ok:
  assumes "buf \<noteq> None" and "pos + length (csv_escape s) \<le> plen buf"
  shows "\<exists>q. quoted_write s buf pos = Some (q, pos + length (csv_escape s)) \<and> emitted buf pos (csv_escape s) q"
  using assms
proof (induction s arbitrary: buf pos)
  case (Cons c cs)
  let ?e = "if c = 34 then [34, 34] else [c]"
  have fit: "pos + length ?e + length (csv_escape cs) \<le> plen buf" using Cons.prems(2) by simp
  have "\<exists>q1 q. (if c = 34 then do { q \<leftarrow> mem_write buf pos [34]; Some (q, pos + 1) } else Some (buf, pos)) = Some (q1, pos + (length ?e - 1)) \<and>
      mem_write q1 (pos + (length ?e - 1)) [c] = Some q \<and> emitted buf pos ?e q"
  proof (cases "c = 34")
    case True
    obtain q1 where q1: "mem_write buf pos [34] = Some q1" "emitted buf pos [34] q1" using write_emits [OF Cons.prems(1), of pos "[34]"] fit True by auto
    have l: "plen q1 = plen buf" "q1 \<noteq> None" using emitted_plen [OF q1(2)] emitted_not_None [OF q1(2) Cons.prems(1)] by simp_all
    obtain q where q: "mem_write q1 (pos + 1) [34] = Some q" "emitted q1 (pos + 1) [34] q" using write_emits [OF l(2), of "pos + 1" "[34]"] fit True l(1) by auto
    have "emitted buf pos ([34] @ [34]) q" by (rule emitted_trans [OF q1(2)]) (use q(2) fit True in \<open>simp_all add: One_nat_def\<close>)
    then show ?thesis using True q1(1) q(1) by (simp add: One_nat_def)
  next
    case False
    obtain q where "mem_write buf pos [c] = Some q" "emitted buf pos [c] q" using write_emits [OF Cons.prems(1), of pos "[c]"] fit False by auto
    then show ?thesis using False by simp
  qed
  then obtain q1 q where q: "(if c = 34 then do { q \<leftarrow> mem_write buf pos [34]; Some (q, pos + 1) } else Some (buf, pos)) = Some (q1, pos + (length ?e - 1))"
      "mem_write q1 (pos + (length ?e - 1)) [c] = Some q" "emitted buf pos ?e q" by blast
  have l: "plen q = plen buf" "q \<noteq> None" using emitted_plen [OF q(3)] emitted_not_None [OF q(3) Cons.prems(1)] by simp_all
  obtain q' where q': "quoted_write cs q (pos + length ?e) = Some (q', pos + length ?e + length (csv_escape cs))" "emitted q (pos + length ?e) (csv_escape cs) q'"
    using Cons.IH [of q "pos + length ?e"] l fit by auto
  have e: "emitted buf pos (?e @ csv_escape cs) q'" by (rule emitted_trans [OF q(3) q'(2)]) (use fit in simp)
  have eq: "pos + (length ?e - 1) + 1 = pos + length ?e" by simp
  have "quoted_write (c # cs) buf pos = quoted_write cs q (pos + length ?e)"
    unfolding quoted_write.simps q(1) bind.bind_lunit prod.case q(2) eq ..
  then show ?case using q'(1) e by (simp add: add.assoc)
qed (simp add: emitted_Nil)

lemma serialised_field_write_ok:
  assumes b: "buf \<noteq> None" and fit: "pos + length (csv_cell d t) \<le> plen buf"
  shows "\<exists>q. serialised_field_write t d buf pos = Some (q, pos + length (csv_cell d t)) \<and> emitted buf pos (csv_cell d t) q"
proof (cases "needs_quoting t d")
  case False
  obtain q where "mem_write buf pos t = Some q" "emitted buf pos t q" using write_emits [OF b, of pos t] fit False by (auto simp: csv_cell_def)
  then show ?thesis using False by (simp add: serialised_field_write_def csv_cell_def)
next
  case True
  have fit': "pos + 1 + length (csv_escape t) + 1 \<le> plen buf" using fit True by (simp add: csv_cell_def One_nat_def)
  obtain q1 where q1: "mem_write buf pos [34] = Some q1" "emitted buf pos [34] q1" using write_emits [OF b, of pos "[34]"] fit' by auto
  have l1: "plen q1 = plen buf" "q1 \<noteq> None" using emitted_plen [OF q1(2)] emitted_not_None [OF q1(2) b] by simp_all
  obtain q2 where q2: "quoted_write t q1 (pos + 1) = Some (q2, pos + 1 + length (csv_escape t))" "emitted q1 (pos + 1) (csv_escape t) q2"
    using quoted_write_ok [OF l1(2), of "pos + 1" t] fit' l1(1) by auto
  have l2: "plen q2 = plen buf" "q2 \<noteq> None" using emitted_plen [OF q2(2)] emitted_not_None [OF q2(2) l1(2)] l1(1) by simp_all
  obtain q3 where q3: "mem_write q2 (pos + 1 + length (csv_escape t)) [34] = Some q3" "emitted q2 (pos + 1 + length (csv_escape t)) [34] q3"
    using write_emits [OF l2(2), of "pos + 1 + length (csv_escape t)" "[34]"] fit' l2(1) by auto
  have "emitted q1 (pos + 1) (csv_escape t @ [34]) q3" by (rule emitted_trans [OF q2(2) q3(2)]) (use fit' l1(1) in simp)
  then have "emitted buf pos ([34] @ csv_escape t @ [34]) q3" by (intro emitted_trans [OF q1(2)]) (use fit' in \<open>simp_all add: One_nat_def\<close>)
  then show ?thesis using True q1(1) q2(1) q3(1) by (simp add: serialised_field_write_def csv_cell_def One_nat_def)
qed


text \<open>What is still to be written from field \<open>i\<close> on.\<close>

definition ser_tail :: "byte \<Rightarrow> byte list list \<Rightarrow> nat \<Rightarrow> byte list" where
  "ser_tail d ts i = (if i = 0 then csv_text d ts else join_tail [d] (map (csv_cell d) (drop i ts)))"

lemma ser_tail_step: "i < length ts \<Longrightarrow> ser_tail d ts i = (if i > 0 then [d] else []) @ csv_cell d (ts ! i) @ ser_tail d ts (i + 1)"
  by (cases ts) (auto simp: ser_tail_def csv_text_def join_text_def Cons_nth_drop_Suc [symmetric] One_nat_def)

lemma ser_tail_end: "ser_tail d ts (length ts) = []"
  by (cases ts) (simp_all add: ser_tail_def csv_text_def join_text_def)

definition record_texts :: "zenit_csv_record_t \<Rightarrow> byte list list \<Rightarrow> bool" where
  "record_texts r ts \<longleftrightarrow> csv_count r = length ts \<and> (\<forall>i < length ts. csv_field_at r i = Some (ts ! i))"

lemma serialise_len_loop_ok:
  assumes "record_texts r ts" and "i \<le> length ts" and "n + length (ser_tail d ts i) < size_mod"
  shows "serialise_len_loop r d i n = Some (n + length (ser_tail d ts i))"
  using assms
proof (induction r d i n rule: serialise_len_loop.induct)
  case (1 r d i n)
  have cnt: "csv_count r = length ts" using 1(2) by (simp add: record_texts_def)
  show ?case
  proof (cases "i < length ts")
    case True
    have at: "csv_field_at r i = Some (ts ! i)" using 1(2) True by (simp add: record_texts_def)
    let ?n = "sz_add (if i > 0 then sz_add n 1 else n) (serialised_field_len (ts ! i) d)"
    have st: "length (ser_tail d ts i) = (if i > 0 then 1 else 0) + length (csv_cell d (ts ! i)) + length (ser_tail d ts (i + 1))"
      using ser_tail_step [OF True, of d] by simp
    have n: "?n = n + (if i > 0 then 1 else 0) + length (csv_cell d (ts ! i))"
      using 1(4) st serialised_field_len_ok [of d "ts ! i"] by (cases "i > 0") (simp_all add: sz_add_nowrap)
    have "serialise_len_loop r d (i + 1) ?n = Some (?n + length (ser_tail d ts (i + 1)))"
      by (rule 1(1) [OF _ at 1(2)]) (use True cnt n st 1(4) in simp_all)
    then show ?thesis using True cnt at n st by (subst serialise_len_loop.simps) simp
  next
    case False
    then show ?thesis using 1(3) cnt ser_tail_end [of d ts] by (subst serialise_len_loop.simps) simp
  qed
qed

lemma serialise_write_loop_ok:
  assumes "record_texts r ts" and "i \<le> length ts" and "buf \<noteq> None" and "pos + length (ser_tail d ts i) \<le> plen buf"
  shows "\<exists>q. serialise_write_loop r d i buf pos = Some (q, pos + length (ser_tail d ts i)) \<and> emitted buf pos (ser_tail d ts i) q"
  using assms
proof (induction "length ts - i" arbitrary: i buf pos)
  case 0
  then show ?case using ser_tail_end [of d ts] by (subst serialise_write_loop.simps) (simp add: record_texts_def emitted_Nil)
next
  case (Suc k)
  have cnt: "csv_count r = length ts" and i: "i < length ts" using Suc.prems(1) Suc.hyps(2) by (simp_all add: record_texts_def)
  have at: "csv_field_at r i = Some (ts ! i)" using Suc.prems(1) i by (simp add: record_texts_def)
  let ?sep = "if i > 0 then [d] else []"
  let ?cell = "csv_cell d (ts ! i)"
  let ?rest = "ser_tail d ts (i + 1)"
  have st: "ser_tail d ts i = ?sep @ ?cell @ ?rest" by (rule ser_tail_step [OF i])
  have fit: "pos + length ?sep + length ?cell + length ?rest \<le> plen buf" using Suc.prems(4) st by simp
  obtain q1 where q1: "(if i > 0 then do { q \<leftarrow> mem_write buf pos [d]; Some (q, pos + 1) } else Some (buf, pos)) = Some (q1, pos + length ?sep)" "emitted buf pos ?sep q1"
  proof (cases "i > 0")
    case True
    then obtain q where "mem_write buf pos [d] = Some q" "emitted buf pos [d] q" using write_emits [OF Suc.prems(3), of pos "[d]"] fit by auto
    then show thesis using that True by (simp add: One_nat_def)
  qed (use that Suc.prems(3) in \<open>simp add: emitted_Nil\<close>)
  have l1: "plen q1 = plen buf" "q1 \<noteq> None" using emitted_plen [OF q1(2)] emitted_not_None [OF q1(2) Suc.prems(3)] by simp_all
  obtain q2 where q2: "serialised_field_write (ts ! i) d q1 (pos + length ?sep) = Some (q2, pos + length ?sep + length ?cell)" "emitted q1 (pos + length ?sep) ?cell q2"
    using serialised_field_write_ok [OF l1(2), of "pos + length ?sep" d "ts ! i"] fit l1(1) by auto
  have l2: "plen q2 = plen buf" "q2 \<noteq> None" using emitted_plen [OF q2(2)] emitted_not_None [OF q2(2) l1(2)] l1(1) by simp_all
  obtain q where q: "serialise_write_loop r d (i + 1) q2 (pos + length ?sep + length ?cell) = Some (q, pos + length ?sep + length ?cell + length ?rest)"
      "emitted q2 (pos + length ?sep + length ?cell) ?rest q"
  proof -
    have "k = length ts - (i + 1)" "i + 1 \<le> length ts" "pos + length ?sep + length ?cell + length ?rest \<le> plen q2" using Suc.hyps(2) i l2(1) fit by linarith+
    then show thesis using Suc.hyps(1) [OF _ Suc.prems(1) _ l2(2)] that by blast
  qed
  have "emitted q1 (pos + length ?sep) (?cell @ ?rest) q" by (rule emitted_trans [OF q2(2) q(2)]) (use fit l1(1) in simp)
  then have "emitted buf pos (?sep @ ?cell @ ?rest) q" by (rule emitted_trans [OF q1(2)]) (use fit in simp)
  moreover have "serialise_write_loop r d i buf pos = serialise_write_loop r d (i + 1) q2 (pos + length ?sep + length ?cell)"
    using i cnt at q2(1) by (subst serialise_write_loop.simps) (simp only: q1(1) if_True bind.bind_lunit prod.case)
  ultimately show ?case using q(1) st by (simp add: add.assoc)
qed


text \<open>The record points to the blocks \<open>bs\<close>, all of them terminated.\<close>

definition csv_holds :: "zenit_csv_record_t \<Rightarrow> mblock list \<Rightarrow> bool" where
  "csv_holds r bs \<longleftrightarrow> (\<exists>arr. csv_fields r = Some arr \<and> csv_count r = length bs \<and> length bs \<le> length (snd arr) \<and>
    take (length bs) (snd arr) = map Some bs) \<and> list_all ends_nul bs"

lemma csv_holds_texts:
  assumes "csv_holds r bs"
  shows "record_texts r (map block_str bs)"
proof -
  obtain arr where arr: "csv_fields r = Some arr" "csv_count r = length bs" "length bs \<le> length (snd arr)" "take (length bs) (snd arr) = map Some bs"
    using assms by (auto simp: csv_holds_def)
  have "csv_field_at r i = Some (block_str (bs ! i))" if i: "i < length bs" for i
  proof -
    have "snd arr ! i = take (length bs) (snd arr) ! i" using i by simp
    also have "\<dots> = Some (bs ! i)" unfolding arr(4) using i by simp
    finally have "ar_get arr i = Some (Some (bs ! i))" using i arr(3) by (simp add: ar_get_def)
    moreover have "0 \<in> set (mbytes (bs ! i))" using assms i by (auto simp: csv_holds_def list_all_iff ends_nul_def)
    ultimately show ?thesis using arr(1) by (simp add: csv_field_at_def field_text_def)
  qed
  then show ?thesis using arr(2) by (simp add: record_texts_def)
qed

lemma out_ok_holds: "out_ok h0 bs out h \<Longrightarrow> list_all ends_nul bs \<Longrightarrow> csv_holds out bs"
  by (auto simp: out_ok_def csv_holds_def toks_ok_def)

lemma c_string_cell: "c_string t \<Longrightarrow> c_string (csv_cell d t)"
proof -
  have "c_string t \<Longrightarrow> c_string (csv_escape t)" by (induction t) simp_all
  then show "c_string t \<Longrightarrow> c_string (csv_cell d t)" by (simp add: csv_cell_def)
qed

lemma c_string_csv_text: "d \<noteq> 0 \<Longrightarrow> list_all c_string ts \<Longrightarrow> c_string (csv_text d ts)"
  unfolding csv_text_def by (rule c_string_join) (auto simp: list_all_iff c_string_cell)

lemma csv_serialise_cases:
  assumes c: "allocator_contract a live" and r: "csv_holds r bs" and d: "d \<noteq> 0" and fit: "length (csv_text d (map block_str bs)) + 1 < size_mod"
  obtains (failed) h1 where "zenit_csv_serialise_record_with_allocator (Some r) d (Some q0) a h = Some (ZENIT_ERROR_ALLOC, Some q0, h1)" and "live h1 = live h"
  | (made) b h1 where "zenit_csv_serialise_record_with_allocator (Some r) d (Some q0) a h = Some (ZENIT_OK, Some (Some b), h1)"
      and "block_str b = csv_text d (map block_str bs)" and "maddr b \<notin> live h" and "live h1 = insert (maddr b) (live h)"
proof -
  let ?ts = "map block_str bs"
  let ?t = "csv_text d ?ts"
  note R = csv_holds_texts [OF r]
  have st: "ser_tail d ?ts 0 = ?t" by (simp add: ser_tail_def)
  have len: "serialise_len_loop r d 0 0 = Some (length ?t)" using serialise_len_loop_ok [OF R, of 0 0 d] fit st by simp
  have sz: "sz_add (length ?t) 1 = length ?t + 1" using fit by (rule sz_add_nowrap)
  have cs: "c_string ?t" by (rule c_string_csv_text [OF d]) (simp add: list_all_iff)
  show thesis
  proof (cases rule: allocator_contract.alloc_cases [OF c, of "length ?t + 1" h, case_names null block])
    case (null h1)
    then show ?thesis using failed len sz by (simp add: zenit_csv_serialise_record_with_allocator_def Let_def)
  next
    case (block b h1)
    obtain q where q: "serialise_write_loop r d 0 (Some b) 0 = Some (q, length ?t)" "emitted (Some b) 0 ?t q"
      using serialise_write_loop_ok [OF R, of 0 "Some b" 0 d] block(2) st by auto
    obtain b' where b': "mem_write q (length ?t) [0] = Some (Some b')" "block_str b' = ?t" "maddr b' = maddr b"
      by (rule emitted_terminate [OF q(2) cs]) (use block(2) in simp)
    then show ?thesis using made [of b' h1] len sz block q(1) by (simp add: zenit_csv_serialise_record_with_allocator_def Let_def)
  qed
qed

section \<open>Round trip\<close>

lemma csv_quoted_escape:
  assumes "r = [] \<or> hd r \<noteq> 34"
  shows "csv_quoted (csv_escape t @ 34 # r) = (t, r)"
proof (induction t)
  case Nil
  show ?case using assms by (cases r) simp_all
next
  case (Cons c cs)
  show ?case
  proof (cases "c = 34")
    case True
    then have e: "csv_escape (c # cs) @ 34 # r = 34 # 34 # (csv_escape cs @ 34 # r)" by simp
    show ?thesis unfolding e using Cons True by (subst csv_quoted.simps(2)) simp
  next
    case False
    then have e: "csv_escape (c # cs) @ 34 # r = c # (csv_escape cs @ 34 # r)" by simp
    show ?thesis unfolding e using Cons False by (subst csv_quoted.simps(2)) simp
  qed
qed

lemma csv_field_cell:
  assumes d: "d \<noteq> 34" and r: "r = [] \<or> hd r = d"
  shows "csv_field d (csv_cell d t @ r) = (t, r)"
proof (cases "needs_quoting t d")
  case True
  have "r = [] \<or> hd r \<noteq> 34" using d r by auto
  then show ?thesis using csv_quoted_escape [of r t] True by (simp add: csv_cell_def csv_field_def)
next
  case False
  then have t: "t \<noteq> []" "hd t \<noteq> 34" "\<forall>c \<in> set t. plain_char d c"
    by (auto simp: needs_quoting_def list_ex_iff plain_char_def)
  have n: "r = [] \<or> \<not> plain_char d (hd r)" using r by (auto simp: plain_char_def)
  have rw: "takeWhile (plain_char d) r = []" "dropWhile (plain_char d) r = r" using n by (cases r; simp)+
  have "takeWhile (plain_char d) (t @ r) = t" "dropWhile (plain_char d) (t @ r) = r"
    using t(3) rw by (simp_all add: takeWhile_append2 dropWhile_append2)
  then show ?thesis using False t(1,2) by (cases t) (auto simp: csv_cell_def csv_field_def)
qed

lemma csv_line_text:
  assumes "d \<noteq> 34" and "ts \<noteq> []"
  shows "csv_line d (csv_text d ts) = ts"
  using assms(2)
proof (induction ts)
  case (Cons t ts)
  show ?case
  proof (cases ts)
    case Nil
    then show ?thesis using csv_field_cell [OF assms(1), of "[]" t] by (subst csv_line.simps) (simp add: csv_text_def join_text_def)
  next
    case (Cons u us)
    have e: "csv_text d (t # ts) = csv_cell d t @ d # csv_text d ts" using Cons by (simp add: csv_text_def join_text_def)
    have "csv_field d (csv_text d (t # ts)) = (t, d # csv_text d ts)" unfolding e by (rule csv_field_cell [OF assms(1)]) simp
    then show ?thesis using Cons.IH Cons by (subst csv_line.simps) simp
  qed
qed simp


text \<open>
  C37: Printing a record and parsing the line gives the fields back, whatever characters they hold, for every delimiter but the quote and the NUL.
\<close>

theorem csv_roundtrip:
  assumes c: "allocator_contract a heap_addrs" and r: "csv_holds r bs" and bs: "bs \<noteq> []" and d: "d \<noteq> 0" "d \<noteq> 34"
    and fit: "32 * (length (csv_text d (map block_str bs)) + 64) < size_mod"
  shows "\<exists>res q h1. zenit_csv_serialise_record_with_allocator (Some r) d (Some q0) a h = Some (res, Some q, h1) \<and>
    (if res = ZENIT_OK then \<exists>b res' out h2. q = Some b \<and> zenit_csv_parse_record_with_allocator (Some (block_str b)) d (Some r0) a h1 = Some (res', Some out, h2) \<and>
         (if res' = ZENIT_OK then \<exists>bs'. csv_holds out bs' \<and> map block_str bs' = map block_str bs else res' = ZENIT_ERROR_ALLOC \<and> heap_addrs h2 = heap_addrs h1)
     else res = ZENIT_ERROR_ALLOC \<and> q = q0 \<and> heap_addrs h1 = heap_addrs h)"
proof -
  let ?ts = "map block_str bs"
  have fit': "length (csv_text d ?ts) + 1 < size_mod" using fit by simp
  have cs: "c_string (csv_text d ?ts)" by (rule c_string_csv_text [OF d(1)]) (simp add: list_all_iff)
  show ?thesis
  proof (cases rule: csv_serialise_cases [OF c r d(1) fit', of q0 h, case_names failed made])
    case (failed h1)
    then show ?thesis by simp
  next
    case (made b h1)
    obtain res' out h2 where p: "zenit_csv_parse_record_with_allocator (Some (csv_text d ?ts)) d (Some r0) a h1 = Some (res', Some out, h2)"
        "parse_post h1 (csv_line d (csv_text d ?ts)) res' out h2"
      using csv_parse_cases [OF c cs fit d(1)] by blast
    have "csv_line d (csv_text d ?ts) = ?ts" by (rule csv_line_text [OF d(2)]) (use bs in simp)
    then have "if res' = ZENIT_OK then \<exists>bs'. csv_holds out bs' \<and> map block_str bs' = ?ts else res' = ZENIT_ERROR_ALLOC \<and> heap_addrs h2 = heap_addrs h1"
      using p(2) by (cases "res' = ZENIT_OK") (simp_all add: parse_post_def emptied_def, blast intro: out_ok_holds)
    then show ?thesis using made p(1) by auto
  qed
qed


section \<open>Concrete instances\<close>

definition csv_heap :: c_heap where
  "csv_heap = \<lparr>heap_live = [], heap_script = [], heap_junk = 170\<rparr>"

definition csv_blank :: zenit_csv_record_t where
  "csv_blank = \<lparr>csv_fields = None, csv_count = 0\<rparr>"

text \<open>The line \<open>a,"b""c",\<close> has the fields \<open>a\<close>, \<open>b"c\<close> and the empty one.\<close>

definition csv_demo :: c_str where
  "csv_demo = [97, 44, 34, 98, 34, 34, 99, 34, 44]"


definition csv_demo_record :: zenit_csv_record_t where
  "csv_demo_record = \<lparr>csv_fields = Some (1, [Some \<lparr>maddr = 2, mbytes = [97, 0]\<rparr>, Some \<lparr>maddr = 3, mbytes = [34, 44, 0]\<rparr>]), csv_count = 2\<rparr>"

theorem csv_roundtrip_witness:
  "\<exists>res q h1. zenit_csv_serialise_record_with_allocator (Some csv_demo_record) 44 (Some None) ZENIT_ALLOCATOR_DEFAULT csv_heap = Some (res, Some q, h1)"
proof -
  let ?bs = "[\<lparr>maddr = 2, mbytes = [97, 0]\<rparr>, \<lparr>maddr = 3, mbytes = [34, 44, 0]\<rparr>]"
  have r: "csv_holds csv_demo_record ?bs" by (simp add: csv_holds_def csv_demo_record_def ends_nul_def)
  have "length (csv_text 44 (map block_str ?bs)) = 7" by code_simp
  then have fit: "32 * (length (csv_text 44 (map block_str ?bs)) + 64) < size_mod" by (simp add: size_mod_def)
  show ?thesis using csv_roundtrip [OF default_contract r _ _ _ fit, of None csv_heap csv_blank] by fastforce
qed

section \<open>Behaviour at the edges\<close>

text \<open>With the NUL as delimiter, the parser runs behind the end of the line.\<close>

lemma csv_nul_delimiter_overruns: "zenit_csv_parse_record (Some [97]) 0 (Some csv_blank) csv_heap = None"
  by code_simp

text \<open>A NULL field asks for quotes, and its length is then read through the null pointer.\<close>

lemma csv_null_field_undefined: "zenit_csv_serialise_record (Some \<lparr>csv_fields = Some (1, [None]), csv_count = 1\<rparr>) 44 (Some None) csv_heap = None"
  by code_simp

text \<open>Characters behind a closing quote end the record: the line \<open>"a"b,c\<close> has one field.\<close>

lemma csv_text_after_quote: "csv_line 44 [34, 97, 34, 98, 44, 99] = [[97]]"
  by code_simp

text \<open>A record whose array is not a block of the C heap cannot be destroyed.\<close>

lemma csv_foreign_block:
  assumes "csv_fields r = Some flds" and "csv_count r = 0" and "fst flds \<notin> heap_addrs h"
  shows "zenit_csv_record_destroy (Some r) h = None"
  using assms by (simp add: zenit_csv_record_destroy_def csv_release_def csv_free_loop.simps [of flds 0 0] c_free_def heap_addrs_def)

end
