(* ===== verification/Spec2Isabelle.thy ===== *)
theory Spec2Isabelle
  imports Zenit_Ring Zenit_Stack Zenit_Queue Zenit_Heap Zenit_Bitset Zenit_Map Zenit_Set Zenit_Uri Zenit_Base64 Zenit_Sort Zenit_Spsc Zenit_Pool Zenit_Glob Zenit_State Zenit_List Zenit_Cache Zenit_Trie Zenit_Bloom Zenit_Traverse Zenit_String Zenit_Uuid Zenit_Semver Zenit_Csv
begin

text \<open>
  A verification development for libzenit, a C library of containers, codecs and utilities.

  \<^bold>\<open>The program.\<close> Every module of the library is one file of \<open>src/\<close> with its header in
  \<open>include/libzenit/\<close>. A module is a struct behind an opaque handle, functions on the handle that return a
  result code (\<open>src/result.c\<close>), and create/destroy functions that take memory from an allocator
  record (\<open>src/allocator.c\<close>): a context and up to three callbacks. Some modules are built on others: the
  stack on the vector, the queue on the deque, the map and the set on one open-addressing scheme
  (\<open>src/_hash_common.h\<close>). The rest share conventions only: argument checks first, then an allocation that may
  fail, then the update.

  \<^bold>\<open>How C is modelled.\<close>
  \<^item> \<open>size_t\<close> is a natural number below 2 to the 64; \<open>sz_add\<close>, \<open>sz_sub\<close> and \<open>sz_mul\<close> wrap. Fixed-width
    integers and the arithmetic of hashes, codecs and lock-free indices are words.
  \<^item> A block of memory is its list of bytes; \<open>mem_read\<close> and \<open>mem_write\<close> return \<open>None\<close> out of range. A handle is
    an \<open>option\<close> (\<open>None\<close> is NULL). Structs are records with the fields of the source.
  \<^item> The result of an operation is an \<open>option\<close>: \<open>None\<close> is undefined behaviour (an access outside a block, a
    double free) or a loop that never ends; a returned error code is an ordinary value. So a theorem that
    an operation equals \<open>Some\<close> of something says that it returns and stays inside its memory.
  \<^item> The heap behind the allocator is a state \<open>'h\<close> that every allocating operation threads. The callbacks
    of an allocator record are functions on that state; what the library relies on is the locale
    \<open>allocator_contract\<close> (\<open>Zenit_Allocator\<close>), interpreted on the default allocator over a C heap whose
    allocations fail by a script, so that allocation failure at any point is covered.
  \<^item> Comparators, callbacks of a traversal and the actions of the state machine are functions; the laws of a
    comparator are the locale \<open>total_compare\<close> (\<open>Zenit_Compare\<close>).
  \<^item> Loops are \<open>fun\<close> or \<open>function\<close> with a measure where they always end, and \<open>partial_function (option)\<close>
    where they may not (growth, probing, partitioning, walks along links), and then the theorems state that they return.
    No fuel is used anywhere.

  \<^bold>\<open>The theories.\<close>
  \<^item> \<open>Zenit_Prelude\<close>, \<open>Zenit_Result\<close>, \<open>Zenit_Allocator\<close>, \<open>Zenit_Compare\<close>: the conventions above; \<open>slots\<close>
    reads a block as the list of its elements. \<open>Zenit_Interfaces\<close>: the contracts of a growable sequence that
    the stack and the queue rely on, as locales.
  \<^item> \<open>Zenit_Ring\<close> (\<open>ring.c\<close>): the byte queue; push and pop with wrap-around, resizing.
  \<^item> \<open>Zenit_Vector\<close>, \<open>Zenit_Stack\<close>, \<open>Zenit_Deque\<close>, \<open>Zenit_Queue\<close>: the sequences; growth, insertion and removal,
    circular indices, and the two orders of service through the interface locales.
  \<^item> \<open>Zenit_Heap\<close> (\<open>heap.c\<close>): heap order, push, pop, build, and draining in order.
  \<^item> \<open>Zenit_Bitset\<close> (\<open>bitset.c\<close>): bits in bytes as a set of positions; population count.
  \<^item> \<open>Zenit_Pow2\<close>, \<open>Zenit_Hash\<close>, \<open>Zenit_Table\<close>, \<open>Zenit_Map\<close>, \<open>Zenit_Set\<close>: rounding to a power of two, FNV-1a,
    linear probing with tombstones, rehashing, and the refinement of finite maps and sets.
  \<^item> \<open>Zenit_Sort\<close> (\<open>sort.c\<close>): quicksort with Hoare partitioning and insertion sort below a threshold, merge sort,
    the searches.
  \<^item> \<open>Zenit_Spsc\<close> (\<open>spsc.c\<close>): the lock-free queue as steps of two threads between the atomic accesses.
  \<^item> \<open>Zenit_Pool\<close> (\<open>pool.c\<close>): the slots and the free list through them, for arbitrary pointers from the client.
  \<^item> \<open>Zenit_Links\<close>, \<open>Zenit_List\<close> (\<open>list.c\<close>): chains of nodes in a store, the list over them.
  \<^item> \<open>Zenit_State\<close> (\<open>state.c\<close>): the table-driven state machine and the paths of its table.
  \<^item> \<open>Zenit_CString\<close>, \<open>Zenit_Hex\<close>, \<open>Zenit_Uri\<close>, \<open>Zenit_Base64\<close>, \<open>Zenit_Glob\<close>: C strings, the codecs with
    their round trips and the safety of decoding any input, and the glob matcher against the language of a pattern.
  \<^item> \<open>Zenit_Lru\<close>, \<open>Zenit_Cache\<close> (\<open>lru.c\<close>): the operations of the LRU cache over its parallel arrays, its two lists
    and its table; and the runs of calls against the list of entries in order of use.
  \<^item> \<open>Zenit_Blocks\<close>: the blocks that a component with many allocations owns, and giving all of them back.
  \<^item> \<open>Zenit_Arrays\<close>: arrays of integers and of pointers, and their reallocation.
  \<^item> \<open>Zenit_Trie\<close> (\<open>trie.c\<close>): the prefix tree as a finite map on the letters of the keys.
  \<^item> \<open>Zenit_Bloom\<close> (\<open>bloom.c\<close>): the filter as the set of its bit positions; the type \<open>double\<close> and its operations are parameters.
  \<^item> \<open>Zenit_Graph\<close> (\<open>graph.c\<close>): the graph over four arrays indexed by vertices; \<open>Zenit_Graph_Ops\<close>, \<open>Zenit_Graph_Inv\<close>,
    \<open>Zenit_Graph_Edges\<close>, \<open>Zenit_Graph_Vertices\<close> and \<open>Zenit_Graph_Life\<close> say what one list, the edges, the vertices and the whole graph
    go through, \<open>Zenit_Graph_Trace\<close> has the runs of calls against a set of vertices and a set of edges, and
    \<open>Zenit_Traverse\<close> the two traversals.
  \<^item> \<open>Zenit_String\<close> (\<open>string.c\<close>): the dynamic string over the vector, as the list of its bytes under any run of calls.
  \<^item> \<open>Zenit_Uuid\<close> (\<open>uuid.c\<close>): generation, text and parsing of UUIDs; the random numbers of the platform are a parameter.
  \<^item> \<open>Zenit_Semver\<close> (\<open>semver.c\<close>): the parser, the printer and the comparison of versions, their round trip and their order.
  \<^item> \<open>Zenit_Str\<close> (\<open>str.c\<close>): trimming, splitting and joining of strings, each against a function on lists of characters.
  \<^item> \<open>Zenit_Csv\<close> (\<open>csv.c\<close>): the parser of CSV lines against a grammar of plain and quoted fields, the printer, and their round trip.
  \<^bold>\<open>What the theorems show.\<close> For every container an invariant that creation establishes and every operation
  keeps, and for every operation its effect on the abstract value (a list, a multiset, a finite map, a set) on
  every branch: arguments rejected, allocation failed, success. The traces of
  map, set, pool, list, stack, queue, cache, prefix tree and graph put the operations together. The codecs have round trips and
  memory safety on malformed input. Where the code misbehaves, a theorem says so exactly: a full vector of
  capacity 1 never finishes a push, a shrunk deque writes past its buffer, a map of
  capacity 4 can lose its last empty slot and then a lookup never ends.

  \<^bold>\<open>Not modelled.\<close> Files, directories, terminals, clocks and threads of the operating system (\<open>io.c\<close>, \<open>dir.c\<close>,
  \<open>logger.c\<close>, \<open>timer.c\<close>, \<open>benchmark.c\<close>, \<open>thread_pool.c\<close>), which are calls into the platform; \<open>version.c\<close>, a table of
  build constants. The arena (\<open>arena.c\<close>) writes its headers into raw memory by pointer arithmetic,
  which blocks as lists of bytes do not cover; \<open>json.c\<close> rests on \<open>strtod\<close> and the printing of \<open>double\<close> of the C library; \<open>path.c\<close>
  on the working directory and the separators of the platform.
\<close>

end
